(* ===== verification/Prelude.thy ===== *)
theory Prelude
  imports Main "HOL-Library.Sublist"
begin

text \<open>
  Shared vocabulary of the development.

  A Python \<^verbatim>\<open>bytes\<close> object is a list of \<open>char\<close>: Isabelle's \<open>char\<close> has exactly the 256
  values of an octet, and byte literals read as in the source.  The slices \<^verbatim>\<open>b[:n]\<close> and \<^verbatim>\<open>b[n:]\<close>
  for \<open>n \<ge> 0\<close> are \<open>take\<close> and \<open>drop\<close>.  The searches \<^verbatim>\<open>b.find(sep, start)\<close> and
  \<^verbatim>\<open>b.find(sep, start, end)\<close> return an \<open>option\<close>, \<open>None\<close> standing for the result \<open>-1\<close>.
  The collection \<open>bytes_simps\<close> gathers the facts about them that the components' proofs use.
\<close>

type_synonym byte = char
type_synonym bytes = "char list"

named_theorems bytes_simps \<open>facts about byte strings shared by the components\<close>

section \<open>Searching a byte string\<close>

text \<open>\<^verbatim>\<open>b.find(sep)\<close>: the least index at which \<open>sep\<close> occurs in \<open>b\<close>.\<close>

fun bfind :: "bytes \<Rightarrow> bytes \<Rightarrow> nat option" where
  "bfind sep [] = (if sep = [] then Some 0 else None)"
| "bfind sep (x # xs) = (if prefix sep (x # xs) then Some 0 else map_option Suc (bfind sep xs))"

text \<open>\<^verbatim>\<open>b.find(sep, start)\<close> and \<^verbatim>\<open>b.find(sep, start, end)\<close> for a non-empty \<open>sep\<close>.\<close>

definition bytes_find :: "bytes \<Rightarrow> bytes \<Rightarrow> nat \<Rightarrow> nat option" where
  "bytes_find b sep start = map_option (\<lambda>i. start + i) (bfind sep (drop start b))"

definition bytes_find_within :: "bytes \<Rightarrow> bytes \<Rightarrow> nat \<Rightarrow> nat \<Rightarrow> nat option" where
  "bytes_find_within b sep start stop = bytes_find (take stop b) sep start"

text \<open>\<^verbatim>\<open>sep in b\<close>, \<^verbatim>\<open>b.endswith(sep)\<close> and \<^verbatim>\<open>b.removesuffix(sep)\<close>.\<close>

definition contains :: "bytes \<Rightarrow> bytes \<Rightarrow> bool" where
  "contains b sep \<longleftrightarrow> bfind sep b \<noteq> None"

definition endswith :: "bytes \<Rightarrow> bytes \<Rightarrow> bool" where
  "endswith b sep \<longleftrightarrow> suffix sep b"

definition removesuffix :: "bytes \<Rightarrow> bytes \<Rightarrow> bytes" where
  "removesuffix b sep = (if suffix sep b then take (length b - length sep) b else b)"

text \<open>
  The source strips repeated separators with \<^verbatim>\<open>while data.endswith(sep): data = data.removesuffix(sep)\<close>.
  With an empty \<open>sep\<close> that loop would never end; every caller has validated \<open>sep \<noteq> []\<close>.
\<close>

function strip_suffixes :: "bytes \<Rightarrow> bytes \<Rightarrow> bytes" where
  "strip_suffixes sep b =
     (if sep \<noteq> [] \<and> endswith b sep then strip_suffixes sep (removesuffix b sep) else b)"
  by pat_completeness auto
termination
proof (relation "measure (\<lambda>(sep, b). length b)")
  fix sep b :: bytes
  assume a: "sep \<noteq> [] \<and> endswith b sep"
  then have "length sep \<le> length b" "0 < length sep"
    by (auto simp: endswith_def suffix_def)
  then have "length b - length sep < length b" by linarith
  with a have "length (removesuffix b sep) < length b"
    by (simp add: removesuffix_def endswith_def)
  then show "((sep, removesuffix b sep), (sep, b)) \<in> measure (\<lambda>(sep, b). length b)"
    by simp
qed simp

declare strip_suffixes.simps [simp del]

lemma bfind_Some_iff:
  "bfind sep b = Some i \<longleftrightarrow> i \<le> length b \<and> prefix sep (drop i b) \<and> (\<forall>j < i. \<not> prefix sep (drop j b))"
proof (induction b arbitrary: i)
  case Nil
  then show ?case by (auto simp: prefix_Nil)
next
  case (Cons x xs)
  show ?case
  proof (cases i)
    case 0
    then show ?thesis by auto
  next
    case (Suc k)
    have "(\<forall>j < Suc k. \<not> prefix sep (drop j (x # xs)))
        \<longleftrightarrow> \<not> prefix sep (x # xs) \<and> (\<forall>j < k. \<not> prefix sep (drop j xs))"
      by (auto simp: less_Suc_eq_0_disj)
    with Suc Cons.IH show ?thesis by auto
  qed
qed

lemma bfind_None_iff: "bfind sep b = None \<longleftrightarrow> (\<forall>i \<le> length b. \<not> prefix sep (drop i b))"
proof
  show "bfind sep b = None \<Longrightarrow> \<forall>i \<le> length b. \<not> prefix sep (drop i b)"
  proof (induction b)
    case Nil
    then show ?case by (auto split: if_splits simp: prefix_Nil)
  next
    case (Cons x xs)
    then show ?case
      by (auto split: if_splits simp: drop_Cons split: nat.splits)
  qed
next
  assume *: "\<forall>i \<le> length b. \<not> prefix sep (drop i b)"
  show "bfind sep b = None"
  proof (cases "bfind sep b")
    case (Some i)
    with * show ?thesis by (auto simp: bfind_Some_iff)
  qed simp
qed

lemma bfind_SomeD:
  assumes "bfind sep b = Some i"
  shows "i + length sep \<le> length b" and "prefix sep (drop i b)"
    and "b = take i b @ sep @ drop (i + length sep) b"
proof -
  from assms have le: "i \<le> length b" and p: "prefix sep (drop i b)"
    by (auto simp: bfind_Some_iff)
  from p show "prefix sep (drop i b)" .
  from p have "length sep \<le> length (drop i b)" by (rule prefix_length_le)
  with le show "i + length sep \<le> length b" by simp
  from p obtain z where z: "drop i b = sep @ z" by (auto simp: prefix_def)
  then have "drop (i + length sep) b = z"
    by (metis append_eq_conv_conj drop_drop add.commute)
  with z show "b = take i b @ sep @ drop (i + length sep) b"
    by (metis append_take_drop_id)
qed

text \<open>An occurrence found stays the first one when bytes are appended.\<close>

lemma prefix_iff_take: "prefix p l \<longleftrightarrow> take (length p) l = p"
  by (auto simp: prefix_def) (metis append_take_drop_id)

lemma prefix_drop_append:
  assumes "j + length sep \<le> length b"
  shows "prefix sep (drop j (b @ x)) = prefix sep (drop j b)"
proof -
  from assms have "drop j (b @ x) = drop j b @ x" by simp
  with assms show ?thesis by (simp add: prefix_iff_take)
qed

lemma bfind_append_Some [bytes_simps]:
  assumes "bfind sep b = Some i"
  shows "bfind sep (b @ x) = Some i"
proof -
  from assms have le: "i + length sep \<le> length b" by (rule bfind_SomeD)
  have "prefix sep (drop j (b @ x)) = prefix sep (drop j b)" if "j \<le> i" for j
    using le that by (intro prefix_drop_append) simp
  with assms show ?thesis
    by (auto simp: bfind_Some_iff simp del: drop_append)
qed

text \<open>
  Resuming a search: when \<open>sep\<close> does not occur in \<open>b\<close>, an occurrence in a longer string can
  only start in the last \<open>length sep - 1\<close> bytes of \<open>b\<close>.  This is what makes the
  \<open>offset\<close> optimisation of the readers correct.
\<close>

lemma bfind_drop_resume:
  assumes none: "\<forall>j < k. \<not> prefix sep (drop j b)" and k: "k \<le> length b"
  shows "map_option (\<lambda>i. k + i) (bfind sep (drop k b)) = bfind sep b"
proof (cases "bfind sep (drop k b)")
  case None
  have "\<not> prefix sep (drop i b)" if "i \<le> length b" for i
  proof (cases "i < k")
    case True
    with none show ?thesis by blast
  next
    case False
    with that have "i - k \<le> length (drop k b)" by simp
    with None have "\<not> prefix sep (drop (i - k) (drop k b))"
      by (blast dest: bfind_None_iff [THEN iffD1])
    with False show ?thesis by simp
  qed
  then have "bfind sep b = None" by (simp add: bfind_None_iff)
  with None show ?thesis by simp
next
  case (Some i)
  have "bfind sep b = Some (k + i)"
  proof -
    from Some have i: "i \<le> length b - k" "prefix sep (drop (k + i) b)"
      and least: "\<forall>j < i. \<not> prefix sep (drop (k + j) b)"
      by (auto simp: bfind_Some_iff add.commute)
    have "\<not> prefix sep (drop j b)" if "j < k + i" for j
    proof (cases "j < k")
      case True
      with none show ?thesis by blast
    next
      case False
      with that have "j - k < i" by simp
      with least have "\<not> prefix sep (drop (k + (j - k)) b)" by blast
      with False show ?thesis by simp
    qed
    with i k show ?thesis by (auto simp: bfind_Some_iff)
  qed
  with Some show ?thesis by simp
qed

lemma bytes_find_resume [bytes_simps]:
  assumes "bfind sep b = None" and "length sep \<le> length b" and "sep \<noteq> []"
  shows "bytes_find (b @ x) sep (length b + 1 - length sep) = bfind sep (b @ x)"
proof -
  let ?k = "length b + 1 - length sep"
  have "\<not> prefix sep (drop j (b @ x))" if "j < ?k" for j
  proof -
    from that assms(2) have "j + length sep \<le> length b" by linarith
    then have "prefix sep (drop j (b @ x)) = prefix sep (drop j b)"
      by (rule prefix_drop_append)
    moreover have "\<not> prefix sep (drop j b)"
      using assms(1) \<open>j + length sep \<le> length b\<close> by (simp add: bfind_None_iff)
    ultimately show ?thesis by simp
  qed
  moreover have "?k \<le> length (b @ x)"
    using assms(3) by (cases sep) auto
  ultimately show ?thesis
    unfolding bytes_find_def by (intro bfind_drop_resume) auto
qed

lemma bytes_find_0 [simp]: "bytes_find b sep 0 = bfind sep b"
  by (cases "bfind sep b") (simp_all add: bytes_find_def)

lemma bfind_short: "length b < length sep \<Longrightarrow> bfind sep b = None"
  by (auto simp: bfind_None_iff dest!: prefix_length_le)

lemma bfind_append_NoneD: "bfind sep (b @ x) = None \<Longrightarrow> bfind sep b = None"
  using bfind_append_Some by (cases "bfind sep b") auto

text \<open>A separator found only after appending bytes ends beyond the old end.\<close>

lemma bfind_append_new:
  assumes "bfind sep b = None" and "bfind sep (b @ x) = Some i"
  shows "length b < i + length sep"
proof (rule ccontr)
  assume "\<not> length b < i + length sep"
  then have le: "i + length sep \<le> length b" by simp
  have "prefix sep (drop i (b @ x))" using assms(2) by (rule bfind_SomeD)
  then have "prefix sep (drop i b)" by (simp only: prefix_drop_append [OF le])
  with assms(1) le show False by (simp add: bfind_None_iff)
qed

text \<open>
  A separator no proper prefix of which is also a suffix of it.  Behind data that does not contain
  such a separator, its first occurrence is the one that was appended.
\<close>

definition unbordered :: "bytes \<Rightarrow> bool" where
  "unbordered sep \<longleftrightarrow> sep \<noteq> [] \<and> (\<forall>j \<in> {1..<length sep}. drop j sep \<noteq> take (length sep - j) sep)"

lemma unbordered_single [simp]: "unbordered [c]"
  by (simp add: unbordered_def)

lemma bfind_append_unbordered:
  assumes "unbordered sep" and "\<not> contains d sep"
  shows "bfind sep (d @ sep) = Some (length d)"
proof -
  have none: "bfind sep d = None" using assms(2) by (simp add: contains_def)
  have "\<not> prefix sep (drop j (d @ sep))" if j: "j < length d" for j
  proof
    assume p: "prefix sep (drop j (d @ sep))"
    show False
    proof (cases "j + length sep \<le> length d")
      case True
      with p none j show False by (auto simp: prefix_drop_append bfind_None_iff simp del: drop_append)
    next
      case False
      let ?m = "length d - j"
      have m: "?m \<in> {1..<length sep}" using False j by auto
      have "take (length sep) (drop j d @ sep) = sep" using p j by (simp add: prefix_iff_take)
      then have "sep = drop j d @ take (length sep - ?m) sep" using m j by simp
      then have "drop ?m sep = drop ?m (drop j d @ take (length sep - ?m) sep)" by simp
      also have "\<dots> = take (length sep - ?m) sep" by simp
      finally show False using assms(1) m by (auto simp: unbordered_def)
    qed
  qed
  then show ?thesis by (simp add: bfind_Some_iff)
qed

section \<open>Results\<close>

text \<open>
  A call that may raise returns \<open>exc + 'a\<close>: \<open>Inl\<close> for the exception, \<open>Inr\<close> for the value.
\<close>

definition result_bind :: "'e + 'a \<Rightarrow> ('a \<Rightarrow> 'e + 'b) \<Rightarrow> 'e + 'b" where
  "result_bind m f = (case m of Inl e \<Rightarrow> Inl e | Inr x \<Rightarrow> f x)"

lemma result_bind_simps [simp]:
  "result_bind (Inl e) f = Inl e" "result_bind (Inr x) f = f x"
  by (simp_all add: result_bind_def)

end
