(* ===== verification/Exceptions.thy ===== *)
theory Exceptions
  imports Prelude
begin

text \<open>
  The exceptions of \<^verbatim>\<open>src/src/easynetwork/exceptions.py\<close> and the built-in ones the modelled
  code raises.  One constructor per class; the subclass relation of the source is in the
  predicates \<open>is_DeserializeError\<close> and \<open>is_IncrementalDeserializeError\<close>, which stand for the
  \<^verbatim>\<open>except\<close> clauses.

  Messages are kept where the source gives a literal; the text of a nested exception inside
  an f-string is left out.  \<open>error_info\<close> is \<open>None\<close> or the list of the keys of the dictionary the
  source builds in debug mode (the values under the keys are not modelled).
\<close>

type_synonym info = "string list option"

datatype exc =
    DeserializeError string info
  | IncrementalDeserializeError string bytes info
  | LimitOverrunError string bytes nat
  | PacketConversionError string
  | DatagramProtocolParseError exc
  | StreamProtocolParseError bytes exc
  | BusyResourceError string
  | ClientClosedError
  | ServerClosedError
  | ServerAlreadyRunning
  | TypedAttributeLookupError string
  | UnsupportedOperation string
  | UnicodeError
  | ValueError string
  | TypeError string
  | KeyError
  | RuntimeError string
  | AssertionError string
  | EOFError string
  | OSError string string
  | TimeoutError string
  | StopAsyncIteration
  | CancelledError
  | OtherError string

section \<open>Class hierarchy\<close>

fun is_DeserializeError :: "exc \<Rightarrow> bool" where
  "is_DeserializeError (DeserializeError _ _) = True"
| "is_DeserializeError (IncrementalDeserializeError _ _ _) = True"
| "is_DeserializeError (LimitOverrunError _ _ _) = True"
| "is_DeserializeError _ = False"

fun is_IncrementalDeserializeError :: "exc \<Rightarrow> bool" where
  "is_IncrementalDeserializeError (IncrementalDeserializeError _ _ _) = True"
| "is_IncrementalDeserializeError (LimitOverrunError _ _ _) = True"
| "is_IncrementalDeserializeError _ = False"

fun is_LimitOverrunError :: "exc \<Rightarrow> bool" where
  "is_LimitOverrunError (LimitOverrunError _ _ _) = True"
| "is_LimitOverrunError _ = False"

fun is_PacketConversionError :: "exc \<Rightarrow> bool" where
  "is_PacketConversionError (PacketConversionError _) = True"
| "is_PacketConversionError _ = False"

fun is_DatagramProtocolParseError :: "exc \<Rightarrow> bool" where
  "is_DatagramProtocolParseError (DatagramProtocolParseError _) = True"
| "is_DatagramProtocolParseError _ = False"

fun is_StreamProtocolParseError :: "exc \<Rightarrow> bool" where
  "is_StreamProtocolParseError (StreamProtocolParseError _ _) = True"
| "is_StreamProtocolParseError _ = False"

fun is_OSError :: "exc \<Rightarrow> bool" where
  "is_OSError (OSError _ _) = True"
| "is_OSError ClientClosedError = True"
| "is_OSError (TimeoutError _) = True"
| "is_OSError _ = False"

text \<open>
  \<^verbatim>\<open>CancelledError\<close>, \<^verbatim>\<open>GeneratorExit\<close>, \<^verbatim>\<open>KeyboardInterrupt\<close> and \<^verbatim>\<open>SystemExit\<close> derive from \<^verbatim>\<open>BaseException\<close>
  only: a clause \<^verbatim>\<open>except Exception\<close> lets them pass.
\<close>

definition base_exceptions :: "exc list" where
  "base_exceptions =
     [CancelledError, OtherError ''GeneratorExit'', OtherError ''KeyboardInterrupt'', OtherError ''SystemExit'']"

definition is_Exception :: "exc \<Rightarrow> bool" where
  "is_Exception e \<longleftrightarrow> e \<notin> set base_exceptions"

lemmas is_Exception_simps = is_Exception_def base_exceptions_def

lemma incremental_is_deserialize [simp]:
  "is_IncrementalDeserializeError e \<Longrightarrow> is_DeserializeError e"
  by (cases e) auto

lemma limit_overrun_is_incremental [simp]:
  "is_LimitOverrunError e \<Longrightarrow> is_IncrementalDeserializeError e"
  by (cases e) auto

section \<open>Attributes\<close>

text \<open>The attribute \<open>remaining_data\<close>; empty for the classes that do not have it.\<close>

fun remaining_data :: "exc \<Rightarrow> bytes" where
  "remaining_data (IncrementalDeserializeError _ r _) = r"
| "remaining_data (LimitOverrunError _ r _) = r"
| "remaining_data (StreamProtocolParseError r _) = r"
| "remaining_data _ = []"

fun error_info :: "exc \<Rightarrow> info" where
  "error_info (DeserializeError _ i) = i"
| "error_info (IncrementalDeserializeError _ _ i) = i"
| "error_info _ = None"

section \<open>The constructor of LimitOverrunError\<close>

text \<open>
  The constructor drops the first \<open>consumed\<close> bytes, then either drops one separator or drops
  byte after byte until what is left starts with the separator or is a prefix of it.
\<close>

fun skip_to_separator :: "bytes \<Rightarrow> bytes \<Rightarrow> bytes" where
  "skip_to_separator sep [] = []"
| "skip_to_separator sep (x # xs) =
     (if take (length sep) (x # xs) = take (length (x # xs)) sep then x # xs
      else skip_to_separator sep xs)"

definition limit_overrun_remaining :: "bytes \<Rightarrow> nat \<Rightarrow> bytes \<Rightarrow> bytes" where
  "limit_overrun_remaining buffer consumed sep =
     (let remaining = drop consumed buffer; seplen = length sep in
      if seplen = 0 then remaining
      else if take seplen remaining = sep then drop seplen remaining
      else skip_to_separator sep remaining)"

definition limit_overrun_error :: "string \<Rightarrow> bytes \<Rightarrow> nat \<Rightarrow> bytes \<Rightarrow> exc" where
  "limit_overrun_error msg buffer consumed sep =
     LimitOverrunError msg (limit_overrun_remaining buffer consumed sep) consumed"

lemma is_limit_overrun_error [simp]:
  "is_LimitOverrunError (limit_overrun_error m b c s)"
  "is_DeserializeError (limit_overrun_error m b c s)"
  "is_IncrementalDeserializeError (limit_overrun_error m b c s)"
  "remaining_data (limit_overrun_error m b c s) = limit_overrun_remaining b c s"
  by (simp_all add: limit_overrun_error_def)

lemma suffix_skip_to_separator: "suffix (skip_to_separator sep r) r"
  by (induction r) (auto intro: suffix_ConsI)

lemma skip_to_separator_comparable:
  "prefix (skip_to_separator sep r) sep \<or> prefix sep (skip_to_separator sep r)"
proof (induction r)
  case (Cons x xs)
  show ?case
  proof (cases "take (length sep) (x # xs) = take (length (x # xs)) sep")
    case True
    show ?thesis
    proof (cases "length sep \<le> length (x # xs)")
      case True
      with \<open>take (length sep) (x # xs) = _\<close> show ?thesis by (simp add: prefix_iff_take)
    next
      case False
      then have "x # xs = take (length (x # xs)) sep"
        using \<open>take (length sep) (x # xs) = _\<close> by simp
      then have "prefix (x # xs) sep" by (metis take_is_prefix)
      with True show ?thesis by simp
    qed
  qed (use Cons.IH in auto)
qed simp

text \<open>
  Recovery after an overrun: when the separator occurs at \<open>consumed\<close> the bytes after it are
  kept; when it does not occur behind \<open>consumed\<close> at all, what is kept is a strict prefix of the separator,
  that is, at most the beginning of a separator cut in half by the fragmentation.
\<close>

lemma limit_overrun_remaining_found:
  assumes "sep \<noteq> []" and "bfind sep b = Some i"
  shows "limit_overrun_remaining b i sep = drop (i + length sep) b"
proof -
  from assms(2) have "prefix sep (drop i b)" by (rule bfind_SomeD)
  then have "take (length sep) (drop i b) = sep" by (simp add: prefix_iff_take)
  with assms(1) show ?thesis
    by (simp add: limit_overrun_remaining_def Let_def add.commute)
qed

lemma skip_to_separator_absent:
  assumes "bfind sep r = None"
  shows "strict_prefix (skip_to_separator sep r) sep"
proof -
  have "\<not> prefix sep (skip_to_separator sep r)"
  proof
    assume p: "prefix sep (skip_to_separator sep r)"
    obtain u where u: "r = u @ skip_to_separator sep r"
      using suffix_skip_to_separator [of sep r] by (auto simp: suffix_def)
    then have "drop (length u) r = skip_to_separator sep r"
      by (metis append_eq_conv_conj)
    with p have "prefix sep (drop (length u) r)" by simp
    moreover have "length u \<le> length r" using u by (metis length_append le_add1)
    ultimately show False using assms by (auto simp: bfind_None_iff)
  qed
  with skip_to_separator_comparable [of sep r] show ?thesis
    by (auto simp: strict_prefix_def)
qed

lemma limit_overrun_remaining_absent:
  assumes "sep \<noteq> []" and "bfind sep (drop c b) = None"
  shows "strict_prefix (limit_overrun_remaining b c sep) sep"
proof -
  from assms(2) have "\<not> prefix sep (drop 0 (drop c b))"
    by (simp only: bfind_None_iff) blast
  then have "take (length sep) (drop c b) \<noteq> sep" by (simp add: prefix_iff_take)
  with assms show ?thesis
    by (simp add: limit_overrun_remaining_def Let_def skip_to_separator_absent)
qed

lemma length_limit_overrun_remaining: "length (limit_overrun_remaining b c sep) \<le> length b - c"
proof -
  have "length (skip_to_separator sep (drop c b)) \<le> length (drop c b)"
    by (rule suffix_length_le) (rule suffix_skip_to_separator)
  moreover have "length b - (length sep + c) \<le> length b - c" by simp
  ultimately show ?thesis by (simp add: limit_overrun_remaining_def Let_def)
qed

section \<open>Resynchronisation\<close>

lemma skip_to_separator_drop:
  "\<exists>m \<le> length r. skip_to_separator sep r = drop m r
     \<and> (\<forall>j < m. take (length sep) (drop j r) \<noteq> take (length (drop j r)) sep)"
proof (induction r)
  case (Cons x xs)
  show ?case
  proof (cases "take (length sep) (x # xs) = take (length (x # xs)) sep")
    case True
    then show ?thesis by (intro exI [of _ 0]) simp
  next
    case False
    from Cons.IH obtain m where m: "m \<le> length xs" "skip_to_separator sep xs = drop m xs"
      "\<forall>j < m. take (length sep) (drop j xs) \<noteq> take (length (drop j xs)) sep" by blast
    have "\<forall>j < Suc m. take (length sep) (drop j (x # xs)) \<noteq> take (length (drop j (x # xs))) sep"
      using False m(3) by (auto simp: less_Suc_eq_0_disj)
    with False m show ?thesis by (intro exI [of _ "Suc m"]) simp
  qed
qed simp



end
