(* ===== verification/Generators.thy ===== *)
theory Generators
  imports Exceptions
begin

text \<open>
  Python generators.  A generator that is suspended at a \<^verbatim>\<open>yield\<close> is a \<^emph>\<open>frame\<close>: a value that
  names the \<^verbatim>\<open>yield\<close> and holds the local variables that are live there.  Running it to its next
  stop gives a \<open>gen_step\<close>: it yields again (with the next frame), returns (the value of
  \<^verbatim>\<open>StopIteration\<close>) or raises.  A generator function is thus a first step (\<^verbatim>\<open>next(gen)\<close> on the
  fresh generator) and a function from frame and sent value to the next step (\<^verbatim>\<open>gen.send(value)\<close>).
\<close>

datatype ('y, 'r, 'e, 'k) gen_step = Yield 'y 'k | Return 'r | Raise 'e

text \<open>
  \<^verbatim>\<open>try: x = yield from g() except ...; ...; return ...\<close>: the yields of the inner generator pass
  through, what it returns or raises is handed to the code that follows.
\<close>

fun then_step ::
  "('r \<Rightarrow> ('y, 's, 'f, 'k) gen_step) \<Rightarrow> ('e \<Rightarrow> 'f) \<Rightarrow> ('y, 'r, 'e, 'k) gen_step \<Rightarrow> ('y, 's, 'f, 'k) gen_step"
where
  "then_step ret exn (Yield y k) = Yield y k"
| "then_step ret exn (Return r) = ret r"
| "then_step ret exn (Raise e) = Raise (exn e)"

text \<open>The result of code that does not yield, as the last step of the generator it ends.\<close>

fun finish :: "'e + 'r \<Rightarrow> ('y, 'r, 'e, 'k) gen_step" where
  "finish (Inl e) = Raise e"
| "finish (Inr r) = Return r"

text \<open>Sending a list of values one after the other, as long as the generator yields.\<close>

fun gen_feed ::
  "('k \<Rightarrow> 'i \<Rightarrow> ('y, 'r, 'e, 'k) gen_step) \<Rightarrow> ('y, 'r, 'e, 'k) gen_step \<Rightarrow> 'i list
     \<Rightarrow> ('y, 'r, 'e, 'k) gen_step"
where
  "gen_feed send s [] = s"
| "gen_feed send (Yield y k) (i # is) = gen_feed send (send k i) is"
| "gen_feed send s (i # is) = s"

lemma gen_feed_append: "gen_feed send s (is @ js) = gen_feed send (gen_feed send s is) js"
  by (induction send s "is" rule: gen_feed.induct) (simp_all, (cases js; simp)+)

section \<open>The contract of an incremental parser\<close>

text \<open>
  What all the incremental deserializers of the library promise, said without generators: after
  the bytes \<open>d\<close> have been received in whatever pieces, the parser either waits for more, or is
  done with a packet and the rest of \<open>d\<close>, or reports malformed data together with the rest at
  which parsing can resume, or gives up: \<open>Overrun\<close> when a size limit is exceeded, \<open>Crash\<close> when
  some other exception escapes.  The exception in \<open>Bad\<close> and \<open>Overrun\<close> has an empty
  \<open>remaining_data\<close>; the rest is the other argument.
\<close>

datatype 'r verdict = More | Done 'r bytes | Bad exc bytes | Overrun exc bytes | Crash exc

fun fatal :: "'r verdict \<Rightarrow> bool" where
  "fatal (Overrun _ _) = True"
| "fatal (Crash _) = True"
| "fatal _ = False"

text \<open>Putting the rest into an exception, and taking it out again.\<close>

fun with_remaining :: "bytes \<Rightarrow> exc \<Rightarrow> exc" where
  "with_remaining r (IncrementalDeserializeError m _ i) = IncrementalDeserializeError m r i"
| "with_remaining r (LimitOverrunError m _ c) = LimitOverrunError m r c"
| "with_remaining r (StreamProtocolParseError _ e) = StreamProtocolParseError r (with_remaining r e)"
| "with_remaining r e = e"

text \<open>The step a generator takes for a verdict other than \<open>More\<close>.\<close>

fun verdict_step :: "'r verdict \<Rightarrow> ('y, 'r \<times> bytes, exc, 'k) gen_step option" where
  "verdict_step More = None"
| "verdict_step (Done p r) = Some (Return (p, r))"
| "verdict_step (Bad e r) = Some (Raise (with_remaining r e))"
| "verdict_step (Overrun e r) = Some (Raise (with_remaining r e))"
| "verdict_step (Crash e) = Some (Raise e)"

text \<open>
  \<open>decodes out d evs rest\<close>: the byte string \<open>d\<close>, read as a whole, is the sequence of packets and
  parse errors \<open>evs\<close> followed by the incomplete \<open>rest\<close>.  No limit is exceeded on the way.
\<close>

inductive decodes :: "(bytes \<Rightarrow> 'r verdict) \<Rightarrow> bytes \<Rightarrow> (exc + 'r) list \<Rightarrow> bytes \<Rightarrow> bool"
  for out :: "bytes \<Rightarrow> 'r verdict"
where
  decodes_more: "out d = More \<Longrightarrow> decodes out d [] d"
| decodes_done: "out d = Done p r \<Longrightarrow> decodes out r evs rest \<Longrightarrow> decodes out d (Inr p # evs) rest"
| decodes_bad: "out d = Bad e r \<Longrightarrow> decodes out r evs rest \<Longrightarrow> decodes out d (Inl e # evs) rest"

inductive_simps decodes_Nil_iff: "decodes out d [] rest"
inductive_simps decodes_Inr_iff: "decodes out d (Inr p # evs) rest"
inductive_simps decodes_Inl_iff: "decodes out d (Inl e # evs) rest"

text \<open>
  A \<open>framing\<close> is a verdict that does not depend on what comes later: once a packet (or a
  malformed one) is complete, further bytes only lengthen the rest.
\<close>

locale framing =
  fixes out :: "bytes \<Rightarrow> 'r verdict"
  assumes out_nil: "out [] = More"
    and done_stable: "out d = Done p r \<Longrightarrow> out (d @ x) = Done p (r @ x)"
    and bad_stable: "out d = Bad e r \<Longrightarrow> out (d @ x) = Bad e (r @ x)"
    and fatal_stable: "fatal (out d) \<Longrightarrow> fatal (out (d @ x))"
begin

text \<open>
  Fragmentation does not matter: what \<open>d @ x\<close> decodes to can be found by decoding \<open>d\<close> as far as
  possible and then decoding the rest together with \<open>x\<close>.
\<close>

lemma decodes_split:
  assumes "decodes out (d @ x) evs rest"
  shows "\<exists>evs1 mid evs2. decodes out d evs1 mid \<and> decodes out (mid @ x) evs2 rest \<and> evs = evs1 @ evs2"
  using assms
proof (induction "d @ x" evs rest arbitrary: d rule: decodes.induct)
  case decodes_more
  have "out d = More"
  proof (cases "out d")
    case (Overrun e r)
    with fatal_stable [of d x] decodes_more show ?thesis by simp
  next
    case (Crash e)
    with fatal_stable [of d x] decodes_more show ?thesis by simp
  qed (use decodes_more done_stable bad_stable in fastforce)+
  with decodes_more show ?case
    by (intro exI [of _ "[]"] exI [of _ d]) (auto intro: decodes.intros)
next
  case (decodes_done p r evs rest)
  show ?case
  proof (cases "out d")
    case More
    with decodes.decodes_done [OF decodes_done.hyps(1,2)] show ?thesis
      using decodes.decodes_more [of out d] by (metis append_Nil)
  next
    case (Done p' r')
    with done_stable [OF Done, of x] decodes_done.hyps(1) have "p' = p" "r = r' @ x" by auto
    with decodes_done.hyps(3) [of r'] obtain e1 m e2
      where "decodes out r' e1 m" "decodes out (m @ x) e2 rest" "evs = e1 @ e2" by auto
    with Done \<open>p' = p\<close> show ?thesis
      by (intro exI [of _ "Inr p # e1"] exI [of _ m] exI [of _ e2]) (auto intro: decodes.intros)
  next
    case (Bad e r')
    with bad_stable [OF Bad, of x] decodes_done.hyps(1) show ?thesis by simp
  next
    case (Overrun e r')
    with fatal_stable [of d x] decodes_done.hyps(1) show ?thesis by simp
  next
    case (Crash e)
    with fatal_stable [of d x] decodes_done.hyps(1) show ?thesis by simp
  qed
next
  case (decodes_bad e r evs rest)
  show ?case
  proof (cases "out d")
    case More
    with decodes.decodes_bad [OF decodes_bad.hyps(1,2)] show ?thesis
      using decodes.decodes_more [of out d] by (metis append_Nil)
  next
    case (Done p' r')
    with done_stable [OF Done, of x] decodes_bad.hyps(1) show ?thesis by simp
  next
    case (Bad e' r')
    with bad_stable [OF Bad, of x] decodes_bad.hyps(1) have "e' = e" "r = r' @ x" by auto
    with decodes_bad.hyps(3) [of r'] obtain e1 m e2
      where "decodes out r' e1 m" "decodes out (m @ x) e2 rest" "evs = e1 @ e2" by auto
    with Bad \<open>e' = e\<close> show ?thesis
      by (intro exI [of _ "Inl e # e1"] exI [of _ m] exI [of _ e2]) (auto intro: decodes.intros)
  next
    case (Overrun e' r')
    with fatal_stable [of d x] decodes_bad.hyps(1) show ?thesis by simp
  next
    case (Crash e')
    with fatal_stable [of d x] decodes_bad.hyps(1) show ?thesis by simp
  qed
qed

lemma decodes_not_fatal: "decodes out (d @ x) evs rest \<Longrightarrow> \<not> fatal (out d)"
  using fatal_stable [of d x] by (auto elim: decodes.cases)

lemma decodes_after_done:
  "decodes out (d @ x) evs rest \<Longrightarrow> out d = Done p r \<Longrightarrow> \<exists>evs'. evs = Inr p # evs' \<and> decodes out (r @ x) evs' rest"
  by (erule decodes.cases) (auto dest: done_stable [of d p r x])

lemma decodes_after_bad:
  "decodes out (d @ x) evs rest \<Longrightarrow> out d = Bad e r \<Longrightarrow> \<exists>evs'. evs = Inl e # evs' \<and> decodes out (r @ x) evs' rest"
  by (erule decodes.cases) (auto dest: bad_stable [of d e r x])

end

text \<open>Decoding is deterministic.\<close>

lemma decodes_deterministic:
  assumes "decodes out d evs rest" and "decodes out d evs' rest'"
  shows "evs' = evs \<and> rest' = rest"
  using assms
proof (induction arbitrary: evs' rest' rule: decodes.induct)
  case (decodes_more d)
  then show ?case by (auto elim: decodes.cases)
next
  case (decodes_done d p r evs rest)
  from decodes_done.prems decodes_done.hyps(1) obtain evs2
    where "evs' = Inr p # evs2" "decodes out r evs2 rest'" by (auto elim: decodes.cases)
  with decodes_done.IH show ?case by simp
next
  case (decodes_bad d e r evs rest)
  from decodes_bad.prems decodes_bad.hyps(1) obtain evs2
    where "evs' = Inl e # evs2" "decodes out r evs2 rest'" by (auto elim: decodes.cases)
  with decodes_bad.IH show ?case by simp
qed

lemma decodes_append_done:
  "decodes out d evs mid \<Longrightarrow> decodes out mid evs2 rest \<Longrightarrow> decodes out d (evs @ evs2) rest"
proof (induction arbitrary: rule: decodes.induct)
  case (decodes_more d)
  then show ?case by simp
qed (auto intro: decodes.intros)

section \<open>A generator that implements a framing\<close>

text \<open>
  The interface between the deserializers and the stream consumers.  \<open>received k\<close> is what the
  generator suspended in frame \<open>k\<close> has been sent since it started; sending it one more chunk
  does what the verdict on everything received says.
\<close>

locale stream_parser = framing out
  for out :: "bytes \<Rightarrow> 'r verdict" +
  fixes start :: "(unit, 'r \<times> bytes, exc, 'k) gen_step"
    and send :: "'k \<Rightarrow> bytes \<Rightarrow> (unit, 'r \<times> bytes, exc, 'k) gen_step"
    and wf :: "'k \<Rightarrow> bool"
    and received :: "'k \<Rightarrow> bytes"
  assumes start_yields: "\<exists>k. start = Yield () k \<and> wf k \<and> received k = []"
    and send_more: "wf k \<Longrightarrow> out (received k @ d) = More \<Longrightarrow>
      \<exists>k'. send k d = Yield () k' \<and> wf k' \<and> received k' = received k @ d"
    and send_stop: "wf k \<Longrightarrow> verdict_step (out (received k @ d)) = Some s \<Longrightarrow> send k d = s"
begin

lemma received_more: "wf k \<Longrightarrow> send k d = Yield () k' \<Longrightarrow> out (received k @ d) = More"
  by (cases "out (received k @ d)") (use send_stop [of k d] in auto)

text \<open>However the bytes are cut, the generator ends with the verdict on all of them.\<close>

lemma feed_start:
  assumes "verdict_step (out (concat ds @ d)) = Some s" and "\<forall>i \<le> length ds. out (concat (take i ds)) = More"
  shows "gen_feed send start (ds @ [d]) = s"
proof -
  have feed: "\<exists>k'. gen_feed send (Yield () k) ds = Yield () k' \<and> wf k' \<and> received k' = received k @ concat ds"
    if "wf k" and "\<forall>i \<le> length ds. out (received k @ concat (take i ds)) = More" for k ds
    using that
  proof (induction ds arbitrary: k)
    case Nil
    then show ?case by simp
  next
    case (Cons c cs)
    from Cons.prems(2) [THEN spec, of 1] have "out (received k @ c) = More" by simp
    from send_more [OF Cons.prems(1) this] obtain k1
      where k1: "send k c = Yield () k1" "wf k1" "received k1 = received k @ c" by blast
    have "\<forall>i \<le> length cs. out (received k1 @ concat (take i cs)) = More"
    proof (intro allI impI)
      fix i assume "i \<le> length cs"
      with Cons.prems(2) [THEN spec, of "Suc i"] show "out (received k1 @ concat (take i cs)) = More"
        by (simp add: k1)
    qed
    from Cons.IH [OF k1(2) this] k1 show ?case by auto
  qed
  obtain k where k: "start = Yield () k" "wf k" "received k = []" using start_yields by blast
  with assms(2) feed [of k ds] obtain k'
    where "gen_feed send start ds = Yield () k'" "wf k'" "received k' = concat ds" by auto
  with assms(1) send_stop [of k' d s] show ?thesis by (simp add: gen_feed_append)
qed

end

end
