(* ===== verification/Reader.thy ===== *)
theory Reader
  imports Generators
begin

text \<open>
  \<^verbatim>\<open>GeneratorStreamReader\<close> of \<^verbatim>\<open>src/src/easynetwork/serializers/tools.py\<close>.

  The reader is its private attribute \<^verbatim>\<open>__buffer\<close>.  Each of its methods that contains a
  \<^verbatim>\<open>yield\<close> is a generator over that attribute; it returns its value together with the new
  contents of the attribute, and an exception together with the contents left behind.  At every
  \<^verbatim>\<open>yield\<close> the local variable \<^verbatim>\<open>buffer\<close> and the attribute hold the same bytes, so a frame has
  one copy of them.
\<close>

record reader =
  rbuffer :: bytes

type_synonym ('r, 'k) reader_step = "(unit, 'r \<times> reader, exc \<times> reader, 'k) gen_step"

definition new_reader :: "bytes \<Rightarrow> reader" where
  "new_reader initial_bytes = \<lparr>rbuffer = initial_bytes\<rparr>"

definition read_all :: "reader \<Rightarrow> bytes \<times> reader" where
  "read_all rd = (rbuffer rd, rd\<lparr>rbuffer := []\<rparr>)"

section \<open>read\<close>

text \<open>The only \<^verbatim>\<open>yield\<close> is the one of \<^verbatim>\<open>while not buffer\<close>.\<close>

datatype read_frame = ReadWait

definition read_take :: "nat \<Rightarrow> bytes \<Rightarrow> (bytes, read_frame) reader_step" where
  "read_take sz buffer = Return (take sz buffer, \<lparr>rbuffer = drop sz buffer\<rparr>)"

definition read_start :: "int \<Rightarrow> reader \<Rightarrow> (bytes, read_frame) reader_step" where
  "read_start sz rd =
     (if sz < 0 then Raise (ValueError ''size must not be < 0'', rd)
      else if sz = 0 then Return ([], rd)
      else if rbuffer rd = [] then Yield () ReadWait
      else read_take (nat sz) (rbuffer rd))"

fun read_send :: "int \<Rightarrow> read_frame \<Rightarrow> bytes \<Rightarrow> (bytes, read_frame) reader_step" where
  "read_send sz ReadWait chunk =
     (if chunk = [] then Yield () ReadWait else read_take (nat sz) chunk)"

section \<open>read\_exactly\<close>

datatype exactly_frame = ExactlyWait | ExactlyMore bytes

text \<open>The second loop, \<^verbatim>\<open>while len(buffer) < n\<close>, and the code after it.\<close>

definition exactly_loop :: "nat \<Rightarrow> bytes \<Rightarrow> (bytes, exactly_frame) reader_step" where
  "exactly_loop n buffer =
     (if length buffer < n then Yield () (ExactlyMore buffer)
      else Return (take n buffer, \<lparr>rbuffer = drop n buffer\<rparr>))"

definition exactly_start :: "int \<Rightarrow> reader \<Rightarrow> (bytes, exactly_frame) reader_step" where
  "exactly_start n rd =
     (if n < 0 then Raise (ValueError ''n must not be < 0'', rd)
      else if n = 0 then Return ([], rd)
      else if rbuffer rd = [] then Yield () ExactlyWait
      else exactly_loop (nat n) (rbuffer rd))"

fun exactly_send :: "int \<Rightarrow> exactly_frame \<Rightarrow> bytes \<Rightarrow> (bytes, exactly_frame) reader_step" where
  "exactly_send n ExactlyWait chunk =
     (if chunk = [] then Yield () ExactlyWait else exactly_loop (nat n) chunk)"
| "exactly_send n (ExactlyMore buffer) chunk = exactly_loop (nat n) (buffer @ chunk)"

section \<open>read\_until\<close>

text \<open>
  \<open>UntilMore buffer offset\<close> is the \<^verbatim>\<open>yield\<close> at the end of the \<^verbatim>\<open>while True\<close> loop.
  \<open>until_loop\<close> is one pass through that loop, from its head to the next \<^verbatim>\<open>yield\<close>, to the
  \<^verbatim>\<open>break\<close> (with the code after the loop) or to the exception.
\<close>

datatype until_frame = UntilWait | UntilMore bytes nat

definition until_found ::
  "bytes \<Rightarrow> int \<Rightarrow> bool \<Rightarrow> bytes \<Rightarrow> nat \<Rightarrow> (bytes, until_frame) reader_step"
where
  "until_found separator limit keep_end buffer sepidx =
     (if int sepidx > limit
      then Raise (limit_overrun_error ''Separator is found, but chunk is longer than limit''
                    buffer sepidx separator, \<lparr>rbuffer = buffer\<rparr>)
      else let offset = sepidx + length separator;
               data = (if keep_end then take offset buffer else take sepidx buffer)
           in Return (data, \<lparr>rbuffer = drop offset buffer\<rparr>))"

definition until_loop ::
  "bytes \<Rightarrow> int \<Rightarrow> bool \<Rightarrow> bytes \<Rightarrow> nat \<Rightarrow> (bytes, until_frame) reader_step"
where
  "until_loop separator limit keep_end buffer offset =
     (let buflen = length buffer; seplen = length separator in
      if int buflen - int offset \<ge> int seplen
      then (case bytes_find buffer separator offset of
              Some sepidx \<Rightarrow> until_found separator limit keep_end buffer sepidx
            | None \<Rightarrow>
                let offset' = buflen + 1 - seplen in
                if int offset' > limit
                then Raise (limit_overrun_error ''Separator is not found, and chunk exceed the limit''
                              buffer offset' separator, \<lparr>rbuffer = buffer\<rparr>)
                else Yield () (UntilMore buffer offset'))
      else Yield () (UntilMore buffer offset))"

definition until_start ::
  "bytes \<Rightarrow> int \<Rightarrow> bool \<Rightarrow> reader \<Rightarrow> (bytes, until_frame) reader_step"
where
  "until_start separator limit keep_end rd =
     (if limit \<le> 0 then Raise (ValueError ''limit must be a positive integer'', rd)
      else if separator = [] then Raise (ValueError ''Empty separator'', rd)
      else if rbuffer rd = [] then Yield () UntilWait
      else until_loop separator limit keep_end (rbuffer rd) 0)"

fun until_send ::
  "bytes \<Rightarrow> int \<Rightarrow> bool \<Rightarrow> until_frame \<Rightarrow> bytes \<Rightarrow> (bytes, until_frame) reader_step"
where
  "until_send separator limit keep_end UntilWait chunk =
     (if chunk = [] then Yield () UntilWait else until_loop separator limit keep_end chunk 0)"
| "until_send separator limit keep_end (UntilMore buffer offset) chunk =
     until_loop separator limit keep_end (buffer @ chunk) offset"

section \<open>What the readers compute\<close>

text \<open>The bytes a suspended reader holds, and the invariant of its frames.\<close>

fun exactly_received :: "exactly_frame \<Rightarrow> bytes" where
  "exactly_received ExactlyWait = []"
| "exactly_received (ExactlyMore b) = b"

fun exactly_wf :: "nat \<Rightarrow> exactly_frame \<Rightarrow> bool" where
  "exactly_wf n ExactlyWait \<longleftrightarrow> 0 < n"
| "exactly_wf n (ExactlyMore b) \<longleftrightarrow> length b < n"

lemma exactly_send_more:
  assumes "exactly_wf n k" and "length (exactly_received k @ d) < n"
  shows "\<exists>k'. exactly_send (int n) k d = Yield () k' \<and> exactly_wf n k'
           \<and> exactly_received k' = exactly_received k @ d"
  using assms by (cases k) (auto simp: exactly_loop_def)

lemma exactly_send_done:
  assumes "exactly_wf n k" and "n \<le> length (exactly_received k @ d)"
  shows "exactly_send (int n) k d =
           Return (take n (exactly_received k @ d), \<lparr>rbuffer = drop n (exactly_received k @ d)\<rparr>)"
  using assms by (cases k) (auto simp: exactly_loop_def)

fun until_received :: "until_frame \<Rightarrow> bytes" where
  "until_received UntilWait = []"
| "until_received (UntilMore b _) = b"

fun until_wf :: "bytes \<Rightarrow> int \<Rightarrow> until_frame \<Rightarrow> bool" where
  "until_wf sep limit UntilWait \<longleftrightarrow> sep \<noteq> [] \<and> 0 < limit"
| "until_wf sep limit (UntilMore b offset) \<longleftrightarrow>
     sep \<noteq> [] \<and> 0 < limit \<and> b \<noteq> [] \<and> bfind sep b = None \<and>
     (if length sep \<le> length b then offset = length b + 1 - length sep \<and> int offset \<le> limit
      else offset = 0)"

lemma until_wfD: "until_wf sep limit k \<Longrightarrow> sep \<noteq> [] \<and> 0 < limit"
  by (cases k) auto

text \<open>
  The specification of \<^verbatim>\<open>read_until\<close>: one search in everything received, no offsets.
\<close>

datatype until_result = UntilNeed | UntilLine bytes bytes | UntilOverrun exc

definition read_until_spec :: "bytes \<Rightarrow> int \<Rightarrow> bool \<Rightarrow> bytes \<Rightarrow> until_result" where
  "read_until_spec sep limit keep_end d =
     (case bfind sep d of
        Some i \<Rightarrow>
          if int i > limit
          then UntilOverrun (limit_overrun_error ''Separator is found, but chunk is longer than limit'' d i sep)
          else UntilLine (if keep_end then take (i + length sep) d else take i d) (drop (i + length sep) d)
      | None \<Rightarrow>
          if length sep \<le> length d \<and> int (length d + 1 - length sep) > limit
          then UntilOverrun (limit_overrun_error ''Separator is not found, and chunk exceed the limit''
                               d (length d + 1 - length sep) sep)
          else UntilNeed)"

text \<open>One pass of the loop, started at a correct offset, agrees with the search from scratch.\<close>

lemma until_loop_spec:
  assumes sep: "sep \<noteq> []" and limit: "0 < limit" and ne: "b \<noteq> []"
    and find: "bytes_find b sep offset = bfind sep b"
    and off: "length b < offset + length sep \<Longrightarrow>
       bfind sep b = None \<and> (if length sep \<le> length b then offset = length b + 1 - length sep \<and> int offset \<le> limit
        else offset = 0)"
  shows "case read_until_spec sep limit keep_end b of
           UntilNeed \<Rightarrow> \<exists>o'. until_loop sep limit keep_end b offset = Yield () (UntilMore b o')
                          \<and> until_wf sep limit (UntilMore b o')
         | UntilLine x r \<Rightarrow> until_loop sep limit keep_end b offset = Return (x, \<lparr>rbuffer = r\<rparr>)
         | UntilOverrun e \<Rightarrow> until_loop sep limit keep_end b offset = Raise (e, \<lparr>rbuffer = b\<rparr>)"
proof (cases "bfind sep b")
  case (Some i)
  then have "\<not> length b < offset + length sep" using off by auto
  with Some find show ?thesis
    by (simp add: until_loop_def read_until_spec_def until_found_def Let_def)
next
  case None
  show ?thesis
  proof (cases "length b < offset + length sep")
    case True
    with off [OF True] None sep limit ne show ?thesis
      by (auto simp: until_loop_def read_until_spec_def Let_def)
  next
    case False
    then have "length sep \<le> length b" by simp
    with None False find sep limit ne show ?thesis
      by (simp add: until_loop_def read_until_spec_def Let_def)
  qed
qed

lemma until_send_spec:
  assumes "until_wf sep limit k"
  shows "case read_until_spec sep limit keep_end (until_received k @ d) of
           UntilNeed \<Rightarrow> \<exists>k'. until_send sep limit keep_end k d = Yield () k'
                          \<and> until_wf sep limit k' \<and> until_received k' = until_received k @ d
         | UntilLine x r \<Rightarrow> until_send sep limit keep_end k d = Return (x, \<lparr>rbuffer = r\<rparr>)
         | UntilOverrun e \<Rightarrow> until_send sep limit keep_end k d
                              = Raise (e, \<lparr>rbuffer = until_received k @ d\<rparr>)"
proof (cases k)
  case UntilWait
  with assms have sep: "sep \<noteq> []" "0 < limit" by auto
  show ?thesis
  proof (cases "d = []")
    case True
    with UntilWait sep show ?thesis by (simp add: read_until_spec_def)
  next
    case False
    have "length d < 0 + length sep \<Longrightarrow> bfind sep d = None \<and> \<not> length sep \<le> length d"
      by (simp add: bfind_short)
    with until_loop_spec [OF sep False, of 0 keep_end] UntilWait False show ?thesis
      by (auto split: until_result.splits)
  qed
next
  case (UntilMore b offset)
  with assms have sep: "sep \<noteq> []" "0 < limit" and b: "b \<noteq> []" "bfind sep b = None"
    and off: "if length sep \<le> length b then offset = length b + 1 - length sep \<and> int offset \<le> limit
       else offset = 0" by auto
  have find: "bytes_find (b @ d) sep offset = bfind sep (b @ d)"
    using off bytes_find_resume [OF b(2) _ sep(1), of d] by (cases "length sep \<le> length b") auto
  have more: "bfind sep (b @ d) = None \<and>
      (if length sep \<le> length (b @ d) then offset = length (b @ d) + 1 - length sep \<and> int offset \<le> limit
       else offset = 0)" if "length (b @ d) < offset + length sep"
  proof (cases "length sep \<le> length b")
    case True
    with off that have "length d = 0" by auto
    with True off b show ?thesis by (auto simp: of_nat_diff)
  next
    case False
    with off that show ?thesis by (auto simp: bfind_short)
  qed
  have "b @ d \<noteq> []" using b by simp
  note loop = until_loop_spec [OF sep this find, of keep_end]
  show ?thesis
  proof (cases "read_until_spec sep limit keep_end (b @ d)")
    case UntilNeed
    with loop [OF more] obtain o' where "until_loop sep limit keep_end (b @ d) offset = Yield () (UntilMore (b @ d) o')"
      "until_wf sep limit (UntilMore (b @ d) o')" by auto
    with UntilNeed UntilMore show ?thesis by auto
  qed (use loop [OF more] UntilMore in auto)
qed

section \<open>Properties\<close>

lemma until_feed:
  assumes "sep \<noteq> []" and "0 < limit"
    and "\<forall>i \<le> length ds. read_until_spec sep limit keep_end (concat (take i ds)) = UntilNeed"
  shows "\<exists>k. gen_feed (until_send sep limit keep_end) (until_start sep limit keep_end (new_reader [])) ds = Yield () k
           \<and> until_wf sep limit k \<and> until_received k = concat ds"
  using assms(3)
proof (induction ds rule: rev_induct)
  case Nil
  then show ?case using assms(1,2) by (simp add: until_start_def new_reader_def)
next
  case (snoc c ds)
  have "\<forall>i \<le> length ds. read_until_spec sep limit keep_end (concat (take i ds)) = UntilNeed"
  proof (intro allI impI)
    fix i assume "i \<le> length ds"
    with snoc.prems [THEN spec, of i] show "read_until_spec sep limit keep_end (concat (take i ds)) = UntilNeed" by simp
  qed
  from snoc.IH [OF this] obtain k where k: "gen_feed (until_send sep limit keep_end)
      (until_start sep limit keep_end (new_reader [])) ds = Yield () k"
    "until_wf sep limit k" "until_received k = concat ds" by blast
  have "read_until_spec sep limit keep_end (concat ds @ c) = UntilNeed"
    using snoc.prems [THEN spec, of "Suc (length ds)"] by simp
  with until_send_spec [OF k(2), of keep_end c] k show ?case by (auto simp: gen_feed_append)
qed

text \<open>
  \<^verbatim>\<open>read_until\<close>, which remembers the offset up to which it has searched, gives for every way of cutting the
  stream what one search from scratch in everything received gives: the line and the rest, the overrun
  error, or the request for more data with nothing lost.
\<close>

theorem read_until_any_pieces:
  assumes "sep \<noteq> []" and "0 < limit"
    and "\<forall>i \<le> length ds. read_until_spec sep limit keep_end (concat (take i ds)) = UntilNeed"
  shows "case read_until_spec sep limit keep_end (concat ds @ d) of
       UntilNeed \<Rightarrow> \<exists>k. gen_feed (until_send sep limit keep_end) (until_start sep limit keep_end (new_reader [])) (ds @ [d])
                      = Yield () k \<and> until_received k = concat ds @ d
     | UntilLine x r \<Rightarrow> gen_feed (until_send sep limit keep_end) (until_start sep limit keep_end (new_reader [])) (ds @ [d])
                      = Return (x, \<lparr>rbuffer = r\<rparr>)
     | UntilOverrun e \<Rightarrow> gen_feed (until_send sep limit keep_end) (until_start sep limit keep_end (new_reader [])) (ds @ [d])
                      = Raise (e, \<lparr>rbuffer = concat ds @ d\<rparr>)"
proof -
  from until_feed [OF assms] obtain k where
    "gen_feed (until_send sep limit keep_end) (until_start sep limit keep_end (new_reader [])) ds = Yield () k"
    "until_wf sep limit k" "until_received k = concat ds" by blast
  with until_send_spec [OF this(2), of keep_end d] show ?thesis
    by (auto simp: gen_feed_append split: until_result.splits)
qed

text \<open>A separator of two bytes, cut in the middle.\<close>

theorem read_until_any_pieces_witness:
  "case read_until_spec [CHR 0x0D, CHR 0x0A] 10 False (concat [''a'', [CHR 0x0D]] @ [CHR 0x0A, CHR ''b'']) of
       UntilNeed \<Rightarrow> \<exists>k. gen_feed (until_send [CHR 0x0D, CHR 0x0A] 10 False)
           (until_start [CHR 0x0D, CHR 0x0A] 10 False (new_reader [])) ([''a'', [CHR 0x0D]] @ [[CHR 0x0A, CHR ''b'']])
           = Yield () k \<and> until_received k = concat [''a'', [CHR 0x0D]] @ [CHR 0x0A, CHR ''b'']
     | UntilLine x r \<Rightarrow> gen_feed (until_send [CHR 0x0D, CHR 0x0A] 10 False)
           (until_start [CHR 0x0D, CHR 0x0A] 10 False (new_reader [])) ([''a'', [CHR 0x0D]] @ [[CHR 0x0A, CHR ''b'']])
           = Return (x, \<lparr>rbuffer = r\<rparr>)
     | UntilOverrun e \<Rightarrow> gen_feed (until_send [CHR 0x0D, CHR 0x0A] 10 False)
           (until_start [CHR 0x0D, CHR 0x0A] 10 False (new_reader [])) ([''a'', [CHR 0x0D]] @ [[CHR 0x0A, CHR ''b'']])
           = Raise (e, \<lparr>rbuffer = concat [''a'', [CHR 0x0D]] @ [CHR 0x0A, CHR ''b'']\<rparr>)"
proof (rule read_until_any_pieces)
  have "read_until_spec [CHR 0x0D, CHR 0x0A] 10 False (concat (take 0 [''a'', [CHR 0x0D]])) = UntilNeed"
    "read_until_spec [CHR 0x0D, CHR 0x0A] 10 False (concat (take 1 [''a'', [CHR 0x0D]])) = UntilNeed"
    "read_until_spec [CHR 0x0D, CHR 0x0A] 10 False (concat (take 2 [''a'', [CHR 0x0D]])) = UntilNeed"
    by code_simp+
  then show "\<forall>i \<le> length [''a'', [CHR 0x0D]].
      read_until_spec [CHR 0x0D, CHR 0x0A] 10 False (concat (take i [''a'', [CHR 0x0D]])) = UntilNeed"
    by (auto simp: le_Suc_eq numeral_2_eq_2)
qed simp_all

text \<open>
  \<^verbatim>\<open>read_exactly\<close> returns the first \<open>n\<close> bytes of the stream and keeps the rest, in whatever pieces the
  bytes arrive.
\<close>

theorem read_exactly_any_pieces:
  assumes "0 < n" and "length (concat ds) < n" and "n \<le> length (concat ds @ d)"
  shows "gen_feed (exactly_send (int n)) (exactly_start (int n) (new_reader [])) (ds @ [d]) =
           Return (take n (concat ds @ d), \<lparr>rbuffer = drop n (concat ds @ d)\<rparr>)"
proof -
  have "\<exists>k. gen_feed (exactly_send (int n)) (exactly_start (int n) (new_reader [])) ds = Yield () k
      \<and> exactly_wf n k \<and> exactly_received k = concat ds"
    using assms(2)
  proof (induction ds rule: rev_induct)
    case Nil
    then show ?case using assms(1) by (simp add: exactly_start_def new_reader_def)
  next
    case (snoc c ds)
    then obtain k where "gen_feed (exactly_send (int n)) (exactly_start (int n) (new_reader [])) ds = Yield () k"
      "exactly_wf n k" "exactly_received k = concat ds" by auto
    with exactly_send_more [of n k c] snoc.prems show ?case by (auto simp: gen_feed_append)
  qed
  with exactly_send_done [of n _ d] assms(3) show ?thesis by (auto simp: gen_feed_append)
qed

theorem read_exactly_any_pieces_witness:
  "gen_feed (exactly_send (int 3)) (exactly_start (int 3) (new_reader [])) ([''a'', []] @ [''bcd'']) =
     Return (take 3 (concat [''a'', []] @ ''bcd''), \<lparr>rbuffer = drop 3 (concat [''a'', []] @ ''bcd'')\<rparr>)"
  by (rule read_exactly_any_pieces) simp_all

end
