(* ===== verification/Serializers.thy ===== *)
theory Serializers
  imports Reader
begin

text \<open>
  The serializer base classes: \<^verbatim>\<open>src/src/easynetwork/serializers/abc.py\<close> and the first two
  classes of \<^verbatim>\<open>src/src/easynetwork/serializers/base_stream.py\<close>
  (\<^verbatim>\<open>AutoSeparatedPacketSerializer\<close> and \<^verbatim>\<open>FixedSizePacketSerializer\<close>) with their receive paths
  for \<^verbatim>\<open>bytes\<close> chunks.  An abstract method of the source is a field of the record that stands
  for the object, so that the subclass is a parameter.
\<close>

section \<open>abc.py\<close>

record ('s, 'r) packet_serializer =
  serialize :: "'s \<Rightarrow> exc + bytes"
  deserialize :: "bytes \<Rightarrow> exc + 'r"

text \<open>
  \<^verbatim>\<open>incremental_serialize\<close> is a generator nobody sends values to: it is the list of the chunks it
  yields, and the exception it ends with, if any.
\<close>

type_synonym chunks = "bytes list \<times> exc option"

record ('s, 'r, 'k) incremental_serializer = "('s, 'r) packet_serializer" +
  incremental_serialize :: "'s \<Rightarrow> chunks"
  ideserialize_start :: "(unit, 'r \<times> bytes, exc, 'k) gen_step"
  ideserialize_send :: "'k \<Rightarrow> bytes \<Rightarrow> (unit, 'r \<times> bytes, exc, 'k) gen_step"

text \<open>The default \<^verbatim>\<open>serialize\<close>: \<^verbatim>\<open>b"".join(...)\<close>, which raises what the generator raises.\<close>

definition default_serialize :: "('s \<Rightarrow> chunks) \<Rightarrow> 's \<Rightarrow> exc + bytes" where
  "default_serialize incr packet =
     (case incr packet of (cs, None) \<Rightarrow> Inr (concat cs) | (cs, Some e) \<Rightarrow> Inl e)"

text \<open>The default \<^verbatim>\<open>deserialize\<close>: one \<^verbatim>\<open>next\<close>, one \<^verbatim>\<open>send\<close> of all the data.\<close>

definition default_deserialize ::
  "(unit, 'r \<times> bytes, exc, 'k) gen_step \<Rightarrow> ('k \<Rightarrow> bytes \<Rightarrow> (unit, 'r \<times> bytes, exc, 'k) gen_step)
     \<Rightarrow> bytes \<Rightarrow> exc + 'r"
where
  "default_deserialize start send data =
     (case start of
        Return _ \<Rightarrow> Inl (RuntimeError ''self.incremental_deserialize() generator did not yield'')
      | Raise e \<Rightarrow> Inl e
      | Yield _ k \<Rightarrow>
          (case send k data of
             Raise e \<Rightarrow> Inl e
           | Yield _ _ \<Rightarrow> Inl (DeserializeError ''Missing data to create packet'' (Some [''data'']))
           | Return (packet, remaining) \<Rightarrow>
               if remaining \<noteq> []
               then Inl (DeserializeError ''Extra data caught'' (Some [''packet'', ''extra'']))
               else Inr packet))"

section \<open>AutoSeparatedPacketSerializer\<close>

record ('s, 'r) auto_separated =
  as_separator :: bytes
  as_limit :: int
  as_check :: bool
  as_debug :: bool
  as_serialize :: "'s \<Rightarrow> exc + bytes"
  as_deserialize :: "bytes \<Rightarrow> exc + 'r"

definition auto_separated_init ::
  "bytes \<Rightarrow> bool \<Rightarrow> int \<Rightarrow> bool \<Rightarrow> ('s \<Rightarrow> exc + bytes) \<Rightarrow> (bytes \<Rightarrow> exc + 'r)
     \<Rightarrow> exc + ('s, 'r) auto_separated"
where
  "auto_separated_init separator check limit debug ser deser =
     (if separator = [] then Inl (ValueError ''Empty separator'')
      else if limit \<le> 0 then Inl (ValueError ''limit must be a positive integer'')
      else Inr \<lparr>as_separator = separator, as_limit = limit, as_check = check, as_debug = debug,
                as_serialize = ser, as_deserialize = deser\<rparr>)"

definition auto_incremental_serialize :: "('s, 'r) auto_separated \<Rightarrow> 's \<Rightarrow> chunks" where
  "auto_incremental_serialize a packet =
     (case as_serialize a packet of
        Inl e \<Rightarrow> ([], Some e)
      | Inr data \<Rightarrow>
          let separator = as_separator a in
          if as_check a then
            (let data = strip_suffixes separator data in
             if contains data separator
             then ([], Some (ValueError ''separator found in serialized packet which was not at the end''))
             else if data = [] then ([], None)
             else ([data @ separator], None))
          else if endswith data separator then ([data], None)
          else if data = [] then ([], None)
          else ([data @ separator], None))"

text \<open>
  A \<open>handler\<close> stands for \<^verbatim>\<open>except\<close> clauses that raise an \<^verbatim>\<open>IncrementalDeserializeError\<close>: for the
  exceptions they catch it gives the message and the \<open>error_info\<close>.
\<close>

type_synonym handler = "exc \<Rightarrow> (string \<times> info) option"

text \<open>
  The code after \<^verbatim>\<open>read_until\<close>: take what the reader still holds, deserialize, and turn a
  \<^verbatim>\<open>DeserializeError\<close> into an \<^verbatim>\<open>IncrementalDeserializeError\<close> that carries the remainder.
\<close>

definition deserialize_or_wrap ::
  "handler \<Rightarrow> (bytes \<Rightarrow> exc + 'r) \<Rightarrow> bytes \<Rightarrow> bytes \<Rightarrow> ('y, 'r \<times> bytes, exc, 'k) gen_step"
where
  "deserialize_or_wrap h deser data remainder =
     (case deser data of
        Inl e \<Rightarrow>
          Raise (case h e of
                   Some (msg, info) \<Rightarrow> IncrementalDeserializeError msg remainder info
                 | None \<Rightarrow> e)
      | Inr packet \<Rightarrow> Return (packet, remainder))"

definition except_deserialize :: handler where
  "except_deserialize e =
     (if is_DeserializeError e then Some (''Error when deserializing data'', error_info e) else None)"

definition auto_after_read ::
  "('s, 'r) auto_separated \<Rightarrow> bytes \<times> reader \<Rightarrow> (unit, 'r \<times> bytes, exc, until_frame) gen_step"
where
  "auto_after_read a dr =
     (case dr of (data, rd) \<Rightarrow>
        let (remainder, rd') = read_all rd in deserialize_or_wrap except_deserialize (as_deserialize a) data remainder)"

definition auto_deserialize_start ::
  "('s, 'r) auto_separated \<Rightarrow> (unit, 'r \<times> bytes, exc, until_frame) gen_step"
where
  "auto_deserialize_start a =
     then_step (auto_after_read a) fst
       (until_start (as_separator a) (as_limit a) False (new_reader []))"

definition auto_deserialize_send ::
  "('s, 'r) auto_separated \<Rightarrow> until_frame \<Rightarrow> bytes \<Rightarrow> (unit, 'r \<times> bytes, exc, until_frame) gen_step"
where
  "auto_deserialize_send a k chunk =
     then_step (auto_after_read a) fst
       (until_send (as_separator a) (as_limit a) False k chunk)"

section \<open>FixedSizePacketSerializer\<close>

record ('s, 'r) fixed_size =
  fs_size :: int
  fs_debug :: bool
  fs_serialize :: "'s \<Rightarrow> exc + bytes"
  fs_deserialize :: "bytes \<Rightarrow> exc + 'r"

definition fixed_size_init ::
  "int \<Rightarrow> bool \<Rightarrow> ('s \<Rightarrow> exc + bytes) \<Rightarrow> (bytes \<Rightarrow> exc + 'r) \<Rightarrow> exc + ('s, 'r) fixed_size"
where
  "fixed_size_init sz debug ser deser =
     (if sz \<le> 0 then Inl (ValueError ''size must be a positive integer'')
      else Inr \<lparr>fs_size = sz, fs_debug = debug, fs_serialize = ser, fs_deserialize = deser\<rparr>)"

definition fixed_incremental_serialize :: "('s, 'r) fixed_size \<Rightarrow> 's \<Rightarrow> chunks" where
  "fixed_incremental_serialize f packet =
     (case fs_serialize f packet of
        Inl e \<Rightarrow> ([], Some e)
      | Inr data \<Rightarrow>
          if int (length data) \<noteq> fs_size f
          then ([], Some (ValueError ''serialized data size does not meet expectation''))
          else ([data], None))"

definition fixed_after_read ::
  "('s, 'r) fixed_size \<Rightarrow> bytes \<times> reader \<Rightarrow> (unit, 'r \<times> bytes, exc, exactly_frame) gen_step"
where
  "fixed_after_read f dr =
     (case dr of (data, rd) \<Rightarrow>
        let (remainder, rd') = read_all rd in deserialize_or_wrap except_deserialize (fs_deserialize f) data remainder)"

definition fixed_deserialize_start ::
  "('s, 'r) fixed_size \<Rightarrow> (unit, 'r \<times> bytes, exc, exactly_frame) gen_step"
where
  "fixed_deserialize_start f =
     then_step (fixed_after_read f) fst (exactly_start (fs_size f) (new_reader []))"

definition fixed_deserialize_send ::
  "('s, 'r) fixed_size \<Rightarrow> exactly_frame \<Rightarrow> bytes \<Rightarrow> (unit, 'r \<times> bytes, exc, exactly_frame) gen_step"
where
  "fixed_deserialize_send f k chunk =
     then_step (fixed_after_read f) fst (exactly_send (fs_size f) k chunk)"

section \<open>Both are stream parsers\<close>

text \<open>What \<open>deserialize_or_wrap\<close> means as a verdict.\<close>

definition wrap_verdict :: "handler \<Rightarrow> (bytes \<Rightarrow> exc + 'r) \<Rightarrow> bytes \<Rightarrow> bytes \<Rightarrow> 'r verdict" where
  "wrap_verdict h deser data rest =
     (case deser data of
        Inl e \<Rightarrow>
          (case h e of
             Some (msg, info) \<Rightarrow> Bad (IncrementalDeserializeError msg [] info) rest
           | None \<Rightarrow> Crash e)
      | Inr packet \<Rightarrow> Done packet rest)"

lemma wrap_verdict_step:
  "verdict_step (wrap_verdict h deser data rest) = Some (deserialize_or_wrap h deser data rest)"
  by (auto simp: wrap_verdict_def deserialize_or_wrap_def split: sum.split option.split)

lemma wrap_verdict_neq_More [simp]: "wrap_verdict h deser data rest \<noteq> More"
  by (auto simp: wrap_verdict_def split: sum.split option.split)

lemma wrap_verdict_DoneD: "wrap_verdict h deser data rest = Done p r \<Longrightarrow> r = rest \<and> deser data = Inr p"
  by (auto simp: wrap_verdict_def split: sum.splits option.splits)

lemma wrap_verdict_BadD:
  "wrap_verdict h deser data rest = Bad e r \<Longrightarrow>
     r = rest \<and> is_IncrementalDeserializeError e \<and> remaining_data e = []"
  by (auto simp: wrap_verdict_def split: sum.splits option.splits)

lemma wrap_verdict_neq_Overrun [simp]: "wrap_verdict h deser data rest \<noteq> Overrun e r"
  by (auto simp: wrap_verdict_def split: sum.split option.split)

lemma wrap_verdict_stable:
  "wrap_verdict h deser data rest = Done p r \<Longrightarrow> wrap_verdict h deser data (rest @ x) = Done p (r @ x)"
  "wrap_verdict h deser data rest = Bad e r \<Longrightarrow> wrap_verdict h deser data (rest @ x) = Bad e (r @ x)"
  "fatal (wrap_verdict h deser data rest) \<Longrightarrow> fatal (wrap_verdict h deser data (rest @ x))"
  by (auto simp: wrap_verdict_def split: sum.splits option.splits)

text \<open>The verdict of the separator framing, and of the fixed-size framing.\<close>

definition separated_out ::
  "bytes \<Rightarrow> int \<Rightarrow> bool \<Rightarrow> handler \<Rightarrow> (bytes \<Rightarrow> exc + 'r) \<Rightarrow> bytes \<Rightarrow> 'r verdict"
where
  "separated_out sep limit keep_end h deser d =
     (case read_until_spec sep limit keep_end d of
        UntilNeed \<Rightarrow> More
      | UntilLine data rest \<Rightarrow> wrap_verdict h deser data rest
      | UntilOverrun e \<Rightarrow> Overrun (with_remaining [] e) (remaining_data e))"

definition fixed_out :: "nat \<Rightarrow> (bytes \<Rightarrow> exc + 'r) \<Rightarrow> bytes \<Rightarrow> 'r verdict" where
  "fixed_out n deser d =
     (if length d < n then More else wrap_verdict except_deserialize deser (take n d) (drop n d))"

lemma read_until_spec_Overrun_id:
  "read_until_spec sep limit keep_end d = UntilOverrun e \<Longrightarrow>
     with_remaining (remaining_data e) (with_remaining [] e) = e"
  by (auto simp: read_until_spec_def limit_overrun_error_def split: option.splits if_splits)

lemma read_until_spec_Line_append:
  assumes "read_until_spec sep limit keep_end d = UntilLine x r"
  shows "read_until_spec sep limit keep_end (d @ z) = UntilLine x (r @ z)"
proof -
  from assms obtain i where i: "bfind sep d = Some i" "int i \<le> limit"
    "x = (if keep_end then take (i + length sep) d else take i d)" "r = drop (i + length sep) d"
    by (auto simp: read_until_spec_def split: option.splits if_splits)
  have "i + length sep \<le> length d" using i(1) by (rule bfind_SomeD)
  with i bfind_append_Some [OF i(1), of z] show ?thesis
    by (auto simp: read_until_spec_def)
qed

lemma read_until_spec_Overrun_append:
  assumes "read_until_spec sep limit keep_end d = UntilOverrun e"
  shows "\<exists>e'. read_until_spec sep limit keep_end (d @ z) = UntilOverrun e'"
proof (cases "bfind sep d")
  case (Some i)
  with assms bfind_append_Some [OF Some, of z] show ?thesis
    by (auto simp: read_until_spec_def split: if_splits)
next
  case None
  with assms have l: "length sep \<le> length d" "int (length d + 1 - length sep) > limit"
    by (auto simp: read_until_spec_def split: if_splits)
  show ?thesis
  proof (cases "bfind sep (d @ z)")
    case (Some i)
    with None have "length d < i + length sep" by (rule bfind_append_new)
    with l(2) have "int i > limit" by linarith
    with Some show ?thesis by (simp add: read_until_spec_def)
  next
    case None
    from l have "int (length (d @ z) + 1 - length sep) > limit" by simp
    with None l(1) show ?thesis by (simp add: read_until_spec_def)
  qed
qed

lemma framing_separated:
  assumes "sep \<noteq> []"
  shows "framing (separated_out sep limit keep_end h deser)"
proof
  show "separated_out sep limit keep_end h deser [] = More"
    using assms by (simp add: separated_out_def read_until_spec_def)
next
  fix d p r x
  assume "separated_out sep limit keep_end h deser d = Done p r"
  then obtain y s where "read_until_spec sep limit keep_end d = UntilLine y s" "wrap_verdict h deser y s = Done p r"
    by (auto simp: separated_out_def split: until_result.splits)
  then show "separated_out sep limit keep_end h deser (d @ x) = Done p (r @ x)"
    by (simp add: separated_out_def read_until_spec_Line_append wrap_verdict_stable)
next
  fix d e r x
  assume "separated_out sep limit keep_end h deser d = Bad e r"
  then obtain y s where "read_until_spec sep limit keep_end d = UntilLine y s" "wrap_verdict h deser y s = Bad e r"
    by (auto simp: separated_out_def split: until_result.splits)
  then show "separated_out sep limit keep_end h deser (d @ x) = Bad e (r @ x)"
    by (simp add: separated_out_def read_until_spec_Line_append wrap_verdict_stable)
next
  fix d x
  assume f: "fatal (separated_out sep limit keep_end h deser d)"
  show "fatal (separated_out sep limit keep_end h deser (d @ x))"
  proof (cases "read_until_spec sep limit keep_end d")
    case UntilNeed
    with f show ?thesis by (simp add: separated_out_def)
  next
    case (UntilLine y s)
    with f show ?thesis
      by (simp add: separated_out_def read_until_spec_Line_append wrap_verdict_stable)
  next
    case (UntilOverrun e)
    from read_until_spec_Overrun_append [OF this, of x] show ?thesis
      by (auto simp: separated_out_def)
  qed
qed

lemma framing_fixed:
  assumes "0 < n"
  shows "framing (fixed_out n deser)"
  by unfold_locales
    (use assms in \<open>auto simp: fixed_out_def wrap_verdict_stable split: if_splits\<close>)

text \<open>
  A generator that hands what \<^verbatim>\<open>read_until\<close> returns to a \<open>deserialize_or_wrap\<close> is a stream
  parser; the serializers built on it share this lemma.
\<close>

lemma stream_parser_read_until:
  fixes deser :: "bytes \<Rightarrow> exc + 'r"
  assumes "sep \<noteq> []" and "0 < limit"
    and after: "\<And>data rd. after (data, rd) = deserialize_or_wrap h deser data (rbuffer rd)"
  shows "stream_parser (separated_out sep limit keep_end h deser)
           (then_step after fst (until_start sep limit keep_end (new_reader [])))
           (\<lambda>k c. then_step after fst (until_send sep limit keep_end k c))
           (until_wf sep limit) until_received"
proof (intro stream_parser.intro stream_parser_axioms.intro)
  show "framing (separated_out sep limit keep_end h deser)"
    using assms(1) by (rule framing_separated)
  show "\<exists>k. then_step after fst (until_start sep limit keep_end (new_reader [])) = Yield () k
      \<and> until_wf sep limit k \<and> until_received k = []"
    using assms(1,2) by (simp add: until_start_def new_reader_def)
next
  fix k d
  assume "until_wf sep limit k" and "separated_out sep limit keep_end h deser (until_received k @ d) = More"
  with until_send_spec [of sep limit k keep_end d] show
    "\<exists>k'. then_step after fst (until_send sep limit keep_end k d) = Yield () k'
       \<and> until_wf sep limit k' \<and> until_received k' = until_received k @ d"
    by (auto simp: separated_out_def split: until_result.splits)
next
  fix k d and s :: "(unit, 'r \<times> bytes, exc, until_frame) gen_step"
  assume k: "until_wf sep limit k"
    and s: "verdict_step (separated_out sep limit keep_end h deser (until_received k @ d)) = Some s"
  show "then_step after fst (until_send sep limit keep_end k d) = s"
  proof (cases "read_until_spec sep limit keep_end (until_received k @ d)")
    case UntilNeed
    with s show ?thesis by (simp add: separated_out_def)
  next
    case (UntilLine y r)
    with s have "s = deserialize_or_wrap h deser y r"
      by (simp add: separated_out_def wrap_verdict_step)
    with UntilLine until_send_spec [OF k, of keep_end d] show ?thesis by (simp add: after)
  next
    case (UntilOverrun e)
    with s have "s = Raise e"
      by (simp add: separated_out_def read_until_spec_Overrun_id)
    with UntilOverrun until_send_spec [OF k, of keep_end d] show ?thesis by simp
  qed
qed

definition auto_out :: "('s, 'r) auto_separated \<Rightarrow> bytes \<Rightarrow> 'r verdict" where
  "auto_out a = separated_out (as_separator a) (as_limit a) False except_deserialize (as_deserialize a)"

lemma stream_parser_auto:
  assumes "as_separator a \<noteq> []" and "0 < as_limit a"
  shows "stream_parser (auto_out a) (auto_deserialize_start a) (auto_deserialize_send a)
           (until_wf (as_separator a) (as_limit a)) until_received"
proof -
  have "auto_after_read a (data, rd) = deserialize_or_wrap except_deserialize (as_deserialize a) data (rbuffer rd)" for data rd
    by (simp add: auto_after_read_def read_all_def)
  from stream_parser_read_until [where after = "auto_after_read a", OF assms this] show ?thesis
    by (simp add: auto_out_def auto_deserialize_start_def auto_deserialize_send_def [abs_def])
qed

lemma stream_parser_fixed:
  assumes "0 < fs_size f"
  shows "stream_parser (fixed_out (nat (fs_size f)) (fs_deserialize f))
           (fixed_deserialize_start f) (fixed_deserialize_send f)
           (exactly_wf (nat (fs_size f))) exactly_received"
proof (intro stream_parser.intro stream_parser_axioms.intro)
  show "framing (fixed_out (nat (fs_size f)) (fs_deserialize f))"
    using assms by (intro framing_fixed) simp
  show "\<exists>k. fixed_deserialize_start f = Yield () k \<and> exactly_wf (nat (fs_size f)) k \<and> exactly_received k = []"
    using assms by (simp add: fixed_deserialize_start_def exactly_start_def new_reader_def)
next
  fix k d
  assume k: "exactly_wf (nat (fs_size f)) k"
    and "fixed_out (nat (fs_size f)) (fs_deserialize f) (exactly_received k @ d) = More"
  then have "length (exactly_received k @ d) < nat (fs_size f)"
    by (simp add: fixed_out_def split: if_splits)
  from exactly_send_more [OF k this] assms
  show "\<exists>k'. fixed_deserialize_send f k d = Yield () k' \<and> exactly_wf (nat (fs_size f)) k'
      \<and> exactly_received k' = exactly_received k @ d"
    by (auto simp: fixed_deserialize_send_def)
next
  fix k d and s :: "(unit, 'b \<times> bytes, exc, exactly_frame) gen_step"
  assume k: "exactly_wf (nat (fs_size f)) k"
    and s: "verdict_step (fixed_out (nat (fs_size f)) (fs_deserialize f) (exactly_received k @ d)) = Some s"
  then have n: "nat (fs_size f) \<le> length (exactly_received k @ d)"
    by (auto simp: fixed_out_def split: if_splits)
  with s have "s = deserialize_or_wrap except_deserialize (fs_deserialize f) (take (nat (fs_size f)) (exactly_received k @ d))
      (drop (nat (fs_size f)) (exactly_received k @ d))"
    by (simp add: fixed_out_def wrap_verdict_step)
  with exactly_send_done [OF k n] assms show "fixed_deserialize_send f k d = s"
    by (simp add: fixed_deserialize_send_def fixed_after_read_def read_all_def)
qed

section \<open>Properties\<close>

text \<open>A line that is not complete is not complained about as long as it is not longer than the limit.\<close>

lemma separated_out_prefix:
  assumes "bfind sep frame = Some i" and "frame = u @ v" and "length u < i + length sep" and "int i \<le> limit"
  shows "separated_out sep limit keep_end h deser u = More"
proof -
  have "bfind sep u = None"
  proof (cases "bfind sep u")
    case (Some j)
    with assms(1,2) have "j = i" using bfind_append_Some [OF Some, of v] by simp
    with bfind_SomeD(1) [OF Some] assms(3) show ?thesis by simp
  qed
  moreover have "\<not> (length sep \<le> length u \<and> int (length u + 1 - length sep) > limit)"
    using assms(3,4) by auto
  ultimately show ?thesis by (simp add: separated_out_def read_until_spec_def)
qed

text \<open>
  what \<^verbatim>\<open>AutoSeparatedPacketSerializer\<close> writes for a packet, it reads back, from any pieces the bytes may
  arrive in, and leaves what follows untouched; for separators that do not overlap themselves.
\<close>

theorem auto_separated_roundtrip:
  assumes sep: "unbordered (as_separator a)" and check: "as_check a"
    and chunks: "auto_incremental_serialize a p = (cs, None)" "cs \<noteq> []"
    and data: "as_serialize a p = Inr data" "as_deserialize a (strip_suffixes (as_separator a) data) = Inr q"
    and limit: "0 < as_limit a" "int (length (strip_suffixes (as_separator a) data)) \<le> as_limit a"
    and stream: "concat ds @ d = concat cs @ rest" "length (concat ds) < length (concat cs)"
  shows "gen_feed (auto_deserialize_send a) (auto_deserialize_start a) (ds @ [d]) = Return (q, rest)"
proof -
  let ?sep = "as_separator a" and ?x = "strip_suffixes (as_separator a) data"
  have cs: "concat cs = ?x @ ?sep" "\<not> contains ?x ?sep"
    using chunks data(1) check by (auto simp: auto_incremental_serialize_def Let_def split: if_splits)
  have ne: "?sep \<noteq> []" using sep by (simp add: unbordered_def)
  have f: "bfind ?sep (?x @ ?sep) = Some (length ?x)" using sep cs(2) by (rule bfind_append_unbordered)
  have out: "auto_out a (concat ds @ d) = Done q rest"
    using bfind_append_Some [OF f, of rest] limit(2) data(2)
    by (simp add: stream(1) cs(1) auto_out_def separated_out_def read_until_spec_def wrap_verdict_def)
  have more: "auto_out a (concat (take i ds)) = More" if "i \<le> length ds" for i
  proof -
    have "prefix (concat (take i ds)) (concat ds)"
      by (metis append_take_drop_id concat_append prefixI)
    then obtain v where v: "concat ds = concat (take i ds) @ v" by (auto simp: prefix_def)
    with stream have "(?x @ ?sep) @ rest = concat (take i ds) @ (v @ d)" by (simp add: cs(1))
    with separated_out_prefix [OF bfind_append_Some [OF f, of rest] this _ limit(2)] stream(2) v cs(1)
    show ?thesis by (simp add: auto_out_def)
  qed
  from stream_parser.feed_start [OF stream_parser_auto [OF ne limit(1)], of ds d "Return (q, rest)"] out more
  show ?thesis by simp
qed

definition crlf_separated :: "(bytes, bytes) auto_separated" where
  "crlf_separated = \<lparr>as_separator = [CHR 0x0D, CHR 0x0A], as_limit = 20, as_check = True, as_debug = False,
     as_serialize = Inr, as_deserialize = Inr\<rparr>"

theorem auto_separated_roundtrip_witness:
  "gen_feed (auto_deserialize_send crlf_separated) (auto_deserialize_start crlf_separated)
     ([''ab'', [CHR 0x0D]] @ [[CHR 0x0A, CHR ''c'']]) = Return (''ab'', ''c'')"
proof (rule auto_separated_roundtrip [where cs = "[''ab'' @ [CHR 0x0D, CHR 0x0A]]" and data = "''ab''" and p = "''ab''"])
  show "unbordered (as_separator crlf_separated)"
    by (auto simp: crlf_separated_def unbordered_def less_Suc_eq numeral_2_eq_2)
qed code_simp+

text \<open>
  With a separator of two equal bytes the check of the serializer is not enough: data that ends with one
  such byte passes it, and the byte is lost on the other side, which finds the separator one byte
  earlier and starts the next packet with the byte left over.
\<close>

theorem auto_overlapping_separator:
  assumes "as_separator a = [c, c]" and "as_check a" and "as_serialize a p = Inr (u @ [c])" and "c \<notin> set u"
    and "u \<noteq> []" and "int (length u) \<le> as_limit a"
  shows "auto_incremental_serialize a p = ([u @ [c, c, c]], None)
    \<and> gen_feed (auto_deserialize_send a) (auto_deserialize_start a) [u @ [c, c, c] @ rest]
      = deserialize_or_wrap except_deserialize (as_deserialize a) u (c # rest)"
proof -
  have find: "bfind [c, c] (u @ c # y) = (case y of [] \<Rightarrow> None
      | z # zs \<Rightarrow> if z = c then Some (length u) else bfind [c, c] (u @ c # z # zs))" for y
    using assms(4)
  proof (induction u)
    case Nil
    then show ?case by (cases y) auto
  next
    case (Cons x xs)
    then have "\<not> prefix [c, c] ((x # xs) @ c # y)" by auto
    with Cons show ?case by (cases y) (auto split: if_splits)
  qed
  have "\<not> suffix [c, c] (u @ [c])"
  proof
    assume "suffix [c, c] (u @ [c])"
    then have "suffix [c] u" by (metis append_Cons append_Nil snoc_suffix_snoc)
    then have "c \<in> set u" by (auto simp: suffix_def)
    with assms(4) show False by simp
  qed
  then have strip: "strip_suffixes [c, c] (u @ [c]) = u @ [c]"
    by (subst strip_suffixes.simps) (simp add: endswith_def)
  have "auto_incremental_serialize a p = ([u @ [c, c, c]], None)"
    using assms(1-3) strip find [of "[]"]
    by (simp add: auto_incremental_serialize_def Let_def contains_def)
  moreover have "bfind [c, c] (u @ [c, c, c] @ rest) = Some (length u)" using find [of "c # c # rest"] by simp
  then have out: "auto_out a (u @ [c, c, c] @ rest) = wrap_verdict except_deserialize (as_deserialize a) u (c # rest)"
    using assms(1,6) by (simp add: auto_out_def separated_out_def read_until_spec_def)
  have "0 < as_limit a" using assms(5,6) by (cases u) auto
  with assms(1) have p: "stream_parser (auto_out a) (auto_deserialize_start a) (auto_deserialize_send a)
      (until_wf (as_separator a) (as_limit a)) until_received"
    by (intro stream_parser_auto) simp_all
  have "auto_out a [] = More" using assms(1) by (simp add: auto_out_def separated_out_def read_until_spec_def)
  with stream_parser.feed_start [OF p, of "[]" "u @ [c, c, c] @ rest"] out
  have "gen_feed (auto_deserialize_send a) (auto_deserialize_start a) [u @ [c, c, c] @ rest]
      = deserialize_or_wrap except_deserialize (as_deserialize a) u (c # rest)"
    by (simp add: wrap_verdict_step)
  ultimately show ?thesis by blast
qed

definition blank_line_separated :: "(bytes, bytes) auto_separated" where
  "blank_line_separated = \<lparr>as_separator = [CHR 0x0A, CHR 0x0A], as_limit = 20, as_check = True, as_debug = False,
     as_serialize = Inr, as_deserialize = Inr\<rparr>"

theorem auto_overlapping_separator_witness:
  "auto_incremental_serialize blank_line_separated (''ab'' @ [CHR 0x0A]) = ([''ab'' @ [CHR 0x0A, CHR 0x0A, CHR 0x0A]], None)
    \<and> gen_feed (auto_deserialize_send blank_line_separated) (auto_deserialize_start blank_line_separated)
        [''ab'' @ [CHR 0x0A, CHR 0x0A, CHR 0x0A] @ ''cd'']
      = deserialize_or_wrap except_deserialize (as_deserialize blank_line_separated) ''ab'' (CHR 0x0A # ''cd'')"
  by (rule auto_overlapping_separator) code_simp+

end
