(* ===== verification/Protocol.thy ===== *)
theory Protocol
  imports Serializers
begin

text \<open>
  Protocol objects (\<^verbatim>\<open>src/src/easynetwork/protocol.py\<close>) and packet converters
  (\<^verbatim>\<open>src/src/easynetwork/converter.py\<close>).

  The optional converter of a protocol is the record \<open>no_converter\<close> when it is absent: the source
  then leaves the packet as it is, which is what converting it with \<open>Inr\<close> does.
\<close>

section \<open>Converters\<close>

record ('sp, 'rp, 'sd, 'rd) converter =
  create_from_dto_packet :: "'rd \<Rightarrow> exc + 'rp"
  convert_to_dto_packet :: "'sp \<Rightarrow> exc + 'sd"

definition no_converter :: "('p, 'q, 'p, 'q) converter" where
  "no_converter = \<lparr>create_from_dto_packet = Inr, convert_to_dto_packet = Inr\<rparr>"

definition stapled_converter ::
  "('sp, 'x, 'sd, 'y) converter \<Rightarrow> ('u, 'rp, 'v, 'rd) converter \<Rightarrow> ('sp, 'rp, 'sd, 'rd) converter"
where
  "stapled_converter sent received =
     \<lparr>create_from_dto_packet = create_from_dto_packet received,
      convert_to_dto_packet = convert_to_dto_packet sent\<rparr>"

section \<open>DatagramProtocol\<close>

definition make_datagram ::
  "('sd, 'rd) packet_serializer \<Rightarrow> ('sp, 'rp, 'sd, 'rd) converter \<Rightarrow> 'sp \<Rightarrow> exc + bytes"
where
  "make_datagram ser conv packet =
     result_bind (convert_to_dto_packet conv packet) (serialize ser)"

definition build_packet_from_datagram ::
  "('sd, 'rd) packet_serializer \<Rightarrow> ('sp, 'rp, 'sd, 'rd) converter \<Rightarrow> bytes \<Rightarrow> exc + 'rp"
where
  "build_packet_from_datagram ser conv datagram =
     (case deserialize ser datagram of
        Inl e \<Rightarrow> Inl (if is_DeserializeError e then DatagramProtocolParseError e else e)
      | Inr packet \<Rightarrow>
          (case create_from_dto_packet conv packet of
             Inl e \<Rightarrow> Inl (if is_PacketConversionError e then DatagramProtocolParseError e else e)
           | Inr packet' \<Rightarrow> Inr packet'))"

section \<open>StreamProtocol\<close>

definition generate_chunks ::
  "('s \<Rightarrow> chunks) \<Rightarrow> ('sp, 'rp, 's, 'rd) converter \<Rightarrow> 'sp \<Rightarrow> chunks"
where
  "generate_chunks incr conv packet =
     (case convert_to_dto_packet conv packet of
        Inl e \<Rightarrow> ([], Some e)
      | Inr dto \<Rightarrow> incr dto)"

text \<open>The two \<^verbatim>\<open>except\<close> clauses around \<^verbatim>\<open>yield from\<close>, and the code after it.\<close>

definition stream_parse_error :: "exc \<Rightarrow> exc" where
  "stream_parse_error e =
     (if is_IncrementalDeserializeError e then StreamProtocolParseError (remaining_data e) e
      else if is_DeserializeError e
      then RuntimeError ''DeserializeError raised instead of IncrementalDeserializeError''
      else e)"

definition convert_received ::
  "('sp, 'rp, 'sd, 'rd) converter \<Rightarrow> 'rd \<times> bytes \<Rightarrow> ('y, 'rp \<times> bytes, exc, 'k) gen_step"
where
  "convert_received conv pr =
     (case pr of (packet, remaining) \<Rightarrow>
        (case create_from_dto_packet conv packet of
           Inl e \<Rightarrow> Raise (if is_PacketConversionError e then StreamProtocolParseError remaining e else e)
         | Inr packet' \<Rightarrow> Return (packet', remaining)))"

definition build_packet_start ::
  "('sp, 'rp, 'sd, 'rd) converter \<Rightarrow> ('y, 'rd \<times> bytes, exc, 'k) gen_step
     \<Rightarrow> ('y, 'rp \<times> bytes, exc, 'k) gen_step"
where
  "build_packet_start conv start = then_step (convert_received conv) stream_parse_error start"

definition build_packet_send ::
  "('sp, 'rp, 'sd, 'rd) converter \<Rightarrow> ('k \<Rightarrow> 'i \<Rightarrow> ('y, 'rd \<times> bytes, exc, 'k) gen_step)
     \<Rightarrow> 'k \<Rightarrow> 'i \<Rightarrow> ('y, 'rp \<times> bytes, exc, 'k) gen_step"
where
  "build_packet_send conv send k i =
     then_step (convert_received conv) stream_parse_error (send k i)"

section \<open>A protocol over a stream parser is a stream parser\<close>

definition protocol_out ::
  "('sp, 'rp, 'sd, 'rd) converter \<Rightarrow> (bytes \<Rightarrow> 'rd verdict) \<Rightarrow> bytes \<Rightarrow> 'rp verdict"
where
  "protocol_out conv out d =
     (case out d of
        More \<Rightarrow> More
      | Done p r \<Rightarrow>
          (case create_from_dto_packet conv p of
             Inl e \<Rightarrow> if is_PacketConversionError e then Bad (StreamProtocolParseError [] e) r else Crash e
           | Inr q \<Rightarrow> Done q r)
      | Bad e r \<Rightarrow> Bad (stream_parse_error e) r
      | Overrun e r \<Rightarrow> Overrun (stream_parse_error e) r
      | Crash e \<Rightarrow> Crash (stream_parse_error e))"

lemma with_remaining_stream_parse_error:
  "with_remaining r (stream_parse_error e) = stream_parse_error (with_remaining r e)"
  by (cases e) (simp_all add: stream_parse_error_def)

lemma with_remaining_conversion [simp]:
  "is_PacketConversionError e \<Longrightarrow> with_remaining r e = e"
  by (cases e) auto

lemma protocol_out_More_iff [simp]: "protocol_out conv out d = More \<longleftrightarrow> out d = More"
  by (auto simp: protocol_out_def split: verdict.splits sum.splits if_splits)

lemma protocol_verdict_step:
  assumes "verdict_step (protocol_out conv out d) = Some s"
  shows "\<exists>s0. verdict_step (out d) = Some s0 \<and> s = then_step (convert_received conv) stream_parse_error s0"
  using assms
  by (cases "out d")
     (auto simp: protocol_out_def convert_received_def with_remaining_stream_parse_error split: sum.splits if_splits)

context framing
begin

lemma framing_protocol: "framing (protocol_out conv out)"
proof
  show "protocol_out conv out [] = More" by (simp add: out_nil)
next
  fix d p r x
  assume "protocol_out conv out d = Done p r"
  then obtain p' where "out d = Done p' r" "create_from_dto_packet conv p' = Inr p"
    by (auto simp: protocol_out_def split: verdict.splits sum.splits if_splits)
  then show "protocol_out conv out (d @ x) = Done p (r @ x)"
    by (simp add: protocol_out_def done_stable)
next
  fix d e r x
  assume "protocol_out conv out d = Bad e r"
  then show "protocol_out conv out (d @ x) = Bad e (r @ x)"
    using done_stable [of d _ r x] bad_stable [of d _ r x]
    by (auto simp: protocol_out_def split: verdict.splits sum.splits if_splits)
next
  fix d x
  assume f: "fatal (protocol_out conv out d)"
  show "fatal (protocol_out conv out (d @ x))"
  proof (cases "out d")
    case (Done p r)
    with f done_stable [OF Done, of x] show ?thesis
      by (auto simp: protocol_out_def split: sum.splits if_splits)
  next
    case (Overrun e r)
    with fatal_stable [of d x] have "fatal (out (d @ x))" by simp
    then show ?thesis by (auto simp: protocol_out_def split: verdict.splits)
  next
    case (Crash e)
    with fatal_stable [of d x] have "fatal (out (d @ x))" by simp
    then show ?thesis by (auto simp: protocol_out_def split: verdict.splits)
  qed (use f in \<open>auto simp: protocol_out_def\<close>)
qed

end

text \<open>
  The contract of a stream protocol: a stream parser whose recoverable errors are all
  \<^verbatim>\<open>StreamProtocolParseError\<close>, the only exception the consumers can resume after.
\<close>

locale stream_protocol = stream_parser out start send wf received
  for out :: "bytes \<Rightarrow> 'r verdict" and start send and wf :: "'k \<Rightarrow> bool" and received +
  assumes bad_parse_error: "out d = Bad e r \<Longrightarrow> \<exists>e'. e = StreamProtocolParseError [] e'"
    and overrun_parse_error: "out d = Overrun e r \<Longrightarrow> \<exists>e'. e = StreamProtocolParseError [] e'"

text \<open>Serializers only raise \<^verbatim>\<open>IncrementalDeserializeError\<close> for malformed data.\<close>

definition incremental_errors :: "(bytes \<Rightarrow> 'r verdict) \<Rightarrow> bool" where
  "incremental_errors out \<longleftrightarrow>
     (\<forall>d e r. out d = Bad e r \<or> out d = Overrun e r \<longrightarrow>
        is_IncrementalDeserializeError e \<and> remaining_data e = [])"

context stream_parser
begin

lemma stream_parser_protocol:
  fixes conv :: "('sp, 'rp, 'sd, 'r) converter"
  shows "stream_parser (protocol_out conv out) (build_packet_start conv start) (build_packet_send conv send)
     wf received"
proof (intro stream_parser.intro stream_parser_axioms.intro)
  show "framing (protocol_out conv out)" by (rule framing_protocol)
  show "\<exists>k. build_packet_start conv start = Yield () k \<and> wf k \<and> received k = []"
    using start_yields by (auto simp: build_packet_start_def)
next
  fix k d
  assume "wf k" and "protocol_out conv out (received k @ d) = More"
  with send_more [of k d] show
    "\<exists>k'. build_packet_send conv send k d = Yield () k' \<and> wf k' \<and> received k' = received k @ d"
    by (auto simp: build_packet_send_def)
next
  fix k d and s :: "(unit, 'rp \<times> bytes, exc, 'k) gen_step"
  assume "wf k" and "verdict_step (protocol_out conv out (received k @ d)) = Some s"
  with protocol_verdict_step send_stop [of k d] show "build_packet_send conv send k d = s"
    by (fastforce simp: build_packet_send_def)
qed

lemma stream_protocol_protocol:
  assumes "incremental_errors out"
  shows "stream_protocol (protocol_out conv out) (build_packet_start conv start)
           (build_packet_send conv send) wf received"
proof (intro stream_protocol.intro stream_protocol_axioms.intro)
  show "stream_parser (protocol_out conv out) (build_packet_start conv start)
          (build_packet_send conv send) wf received"
    by (rule stream_parser_protocol)
next
  fix d e r
  assume "protocol_out conv out d = Bad e r"
  with assms show "\<exists>e'. e = StreamProtocolParseError [] e'"
    by (cases "out d")
       (auto simp: protocol_out_def incremental_errors_def stream_parse_error_def split: sum.splits if_splits)
next
  fix d e r
  assume "protocol_out conv out d = Overrun e r"
  with assms show "\<exists>e'. e = StreamProtocolParseError [] e'"
    by (cases "out d")
       (auto simp: protocol_out_def incremental_errors_def stream_parse_error_def split: sum.splits if_splits)
qed

end

lemma incremental_errors_separated: "incremental_errors (separated_out sep limit keep_end h deser)"
  by (auto simp: incremental_errors_def separated_out_def read_until_spec_def limit_overrun_error_def
        dest: wrap_verdict_BadD split: until_result.splits option.splits if_splits)

lemma incremental_errors_fixed: "incremental_errors (fixed_out n deser)"
  by (auto simp: incremental_errors_def fixed_out_def dest: wrap_verdict_BadD split: if_splits)

lemma stream_protocol_auto:
  assumes "as_separator a \<noteq> []" and "0 < as_limit a"
  shows "stream_protocol (protocol_out conv (auto_out a))
           (build_packet_start conv (auto_deserialize_start a))
           (build_packet_send conv (auto_deserialize_send a))
           (until_wf (as_separator a) (as_limit a)) until_received"
proof -
  have "incremental_errors (auto_out a)"
    by (simp add: auto_out_def incremental_errors_separated)
  with stream_parser_auto [OF assms] show ?thesis
    by (rule stream_parser.stream_protocol_protocol)
qed

lemma stream_protocol_fixed:
  assumes "0 < fs_size f"
  shows "stream_protocol (protocol_out conv (fixed_out (nat (fs_size f)) (fs_deserialize f)))
           (build_packet_start conv (fixed_deserialize_start f))
           (build_packet_send conv (fixed_deserialize_send f))
           (exactly_wf (nat (fs_size f))) exactly_received"
  using stream_parser_fixed [OF assms] incremental_errors_fixed
  by (rule stream_parser.stream_protocol_protocol)

end
