(* ===== verification/BufferedSerializers.thy ===== *)
theory BufferedSerializers
  imports Protocol
begin

text \<open>
  The receive paths of \<^verbatim>\<open>src/src/easynetwork/serializers/base_stream.py\<close> that parse in place, in a
  buffer the transport writes to: \<^verbatim>\<open>_buffered_readuntil\<close>, the two \<^verbatim>\<open>create_deserializer_buffer\<close> and
  \<^verbatim>\<open>buffered_incremental_deserialize\<close>, the adapter \<^verbatim>\<open>_wrap_generic_buffered_incremental_deserialize\<close>
  and \<^verbatim>\<open>BufferedStreamProtocol\<close> of \<^verbatim>\<open>src/src/easynetwork/protocol.py\<close>.

  The buffer is a mutable object shared by the generator and its caller.  The generators never
  write to it, so a model of one resumption is given the contents the buffer has at that moment
  together with the number of bytes just written: \<open>send k (buffer, n)\<close>.  What is yielded is the
  position at which the caller has to write next (\<open>None\<close> stands for \<^verbatim>\<open>yield\<close> without a value).
\<close>

type_synonym ('r, 'k) buffered_step = "(int option, 'r, exc, 'k) gen_step"

record created_buffer =
  cb_readonly :: bool
  cb_bytes :: bytes

definition bytearray :: "nat \<Rightarrow> created_buffer" where
  "bytearray n = \<lparr>cb_readonly = False, cb_bytes = replicate n (CHR 0x00)\<rparr>"

section \<open>\_buffered\_readuntil\<close>

text \<open>\<open>BufferedMore buflen offset\<close> is the \<^verbatim>\<open>yield buflen\<close> at the end of the loop.\<close>

datatype buffered_until_frame = BufferedWait | BufferedMore nat nat

definition buffered_readuntil_loop ::
  "bytes \<Rightarrow> bytes \<Rightarrow> nat \<Rightarrow> nat \<Rightarrow> (nat \<times> nat \<times> nat, buffered_until_frame) buffered_step"
where
  "buffered_readuntil_loop separator buffer buflen offset =
     (let last_idx = int (length buffer) - 1;
          seplen = length separator;
          limit = last_idx - int seplen in
      if int buflen - int offset \<ge> int seplen
      then (case bytes_find_within buffer separator offset buflen of
              Some sepidx \<Rightarrow> Return (sepidx, sepidx + seplen, buflen)
            | None \<Rightarrow>
                let offset' = buflen + 1 - seplen in
                if int offset' > limit
                then Raise (limit_overrun_error ''Separator is not found, and chunk exceed the limit''
                              buffer offset' separator)
                else Yield (Some (int buflen)) (BufferedMore buflen offset'))
      else Yield (Some (int buflen)) (BufferedMore buflen offset))"

definition buffered_readuntil_start :: "(nat \<times> nat \<times> nat, buffered_until_frame) buffered_step" where
  "buffered_readuntil_start = Yield (Some 0) BufferedWait"

fun buffered_readuntil_send ::
  "bytes \<Rightarrow> buffered_until_frame \<Rightarrow> bytes \<times> nat \<Rightarrow> (nat \<times> nat \<times> nat, buffered_until_frame) buffered_step"
where
  "buffered_readuntil_send separator BufferedWait (buffer, n) =
     buffered_readuntil_loop separator buffer n 0"
| "buffered_readuntil_send separator (BufferedMore buflen offset) (buffer, n) =
     buffered_readuntil_loop separator buffer (buflen + n) offset"

section \<open>AutoSeparatedPacketSerializer\<close>

definition auto_create_buffer :: "('s, 'r) auto_separated \<Rightarrow> int \<Rightarrow> exc + created_buffer" where
  "auto_create_buffer a sizehint = Inr (bytearray (nat (as_limit a)))"

definition auto_buffered_after ::
  "('s, 'r) auto_separated \<Rightarrow> bytes \<Rightarrow> nat \<times> nat \<times> nat \<Rightarrow> ('r \<times> bytes, buffered_until_frame) buffered_step"
where
  "auto_buffered_after a buffer found =
     (case found of (sepidx, offset, buflen) \<Rightarrow>
        deserialize_or_wrap except_deserialize (as_deserialize a) (take sepidx buffer) (drop offset (take buflen buffer)))"

definition auto_buffered_start ::
  "('s, 'r) auto_separated \<Rightarrow> bytes \<Rightarrow> ('r \<times> bytes, buffered_until_frame) buffered_step"
where
  "auto_buffered_start a buffer = then_step (auto_buffered_after a buffer) id buffered_readuntil_start"

definition auto_buffered_send ::
  "('s, 'r) auto_separated \<Rightarrow> buffered_until_frame \<Rightarrow> bytes \<times> nat
     \<Rightarrow> ('r \<times> bytes, buffered_until_frame) buffered_step"
where
  "auto_buffered_send a k bn =
     then_step (auto_buffered_after a (fst bn)) id (buffered_readuntil_send (as_separator a) k bn)"

section \<open>FixedSizePacketSerializer\<close>

datatype fixed_buffered_frame = Nread nat

definition fixed_create_buffer :: "('s, 'r) fixed_size \<Rightarrow> int \<Rightarrow> exc + created_buffer" where
  "fixed_create_buffer f sizehint = Inr (bytearray (nat (max (fs_size f) sizehint)))"

definition fixed_buffered_loop ::
  "('s, 'r) fixed_size \<Rightarrow> bytes \<Rightarrow> nat \<Rightarrow> ('r \<times> bytes, fixed_buffered_frame) buffered_step"
where
  "fixed_buffered_loop f buffer nread =
     (if int nread < fs_size f then Yield (Some (int nread)) (Nread nread)
      else let data = take (nat (fs_size f)) buffer;
               remainder = drop (nat (fs_size f)) (take nread buffer)
           in deserialize_or_wrap except_deserialize (fs_deserialize f) data remainder)"

definition fixed_buffered_start ::
  "('s, 'r) fixed_size \<Rightarrow> bytes \<Rightarrow> ('r \<times> bytes, fixed_buffered_frame) buffered_step"
where
  "fixed_buffered_start f buffer =
     (if int (length buffer) \<ge> fs_size f then fixed_buffered_loop f buffer 0
      else Raise (AssertionError ''''))"

fun fixed_buffered_send ::
  "('s, 'r) fixed_size \<Rightarrow> fixed_buffered_frame \<Rightarrow> bytes \<times> nat
     \<Rightarrow> ('r \<times> bytes, fixed_buffered_frame) buffered_step"
where
  "fixed_buffered_send f (Nread nread) (buffer, n) = fixed_buffered_loop f buffer (nread + n)"

section \<open>\_wrap\_generic\_buffered\_incremental\_deserialize\<close>

text \<open>
  The first \<^verbatim>\<open>next(gen)\<close> is not protected: a \<^verbatim>\<open>StopIteration\<close> there leaves a generator body, which
  Python turns into a \<^verbatim>\<open>RuntimeError\<close>.
\<close>

definition wrap_buffered_start ::
  "(unit, 'r \<times> bytes, exc, 'k) gen_step \<Rightarrow> bytes \<Rightarrow> ('r \<times> bytes, 'k) buffered_step"
where
  "wrap_buffered_start gstart buffer =
     (case gstart of
        Yield _ k \<Rightarrow> Yield None k
      | Return _ \<Rightarrow> Raise (RuntimeError ''generator raised StopIteration'')
      | Raise e \<Rightarrow> Raise e)"

definition wrap_buffered_send ::
  "('k \<Rightarrow> bytes \<Rightarrow> (unit, 'r \<times> bytes, exc, 'k) gen_step) \<Rightarrow> 'k \<Rightarrow> bytes \<times> nat
     \<Rightarrow> ('r \<times> bytes, 'k) buffered_step"
where
  "wrap_buffered_send gsend k bn =
     (case gsend k (take (snd bn) (fst bn)) of
        Yield _ k' \<Rightarrow> Yield None k'
      | Return pr \<Rightarrow> Return pr
      | Raise e \<Rightarrow> Raise e)"

section \<open>The contract of a buffered parser\<close>

definition position :: "int option \<Rightarrow> int" where
  "position y = (case y of None \<Rightarrow> 0 | Some i \<Rightarrow> i)"

text \<open>
  \<open>wfb k b\<close> says that frame \<open>k\<close> is well formed when the buffer holds \<open>b\<close>; the caller may write at
  \<open>pos k\<close> and beyond, \<open>received k b\<close> are the bytes received so far.  The laws follow those of
  \<open>stream_parser\<close>; nothing is promised about a call that exceeds the size limit.
\<close>

locale buffered_parser = framing out
  for out :: "bytes \<Rightarrow> 'r verdict" +
  fixes create :: "int \<Rightarrow> exc + created_buffer"
    and bstart :: "bytes \<Rightarrow> ('r \<times> bytes, 'k) buffered_step"
    and bsend :: "'k \<Rightarrow> bytes \<times> nat \<Rightarrow> ('r \<times> bytes, 'k) buffered_step"
    and wfb :: "'k \<Rightarrow> bytes \<Rightarrow> bool"
    and pos :: "'k \<Rightarrow> nat"
    and received :: "'k \<Rightarrow> bytes \<Rightarrow> bytes"
    and hint :: int
    and cap :: nat
  assumes cap_pos: "0 < cap"
    and create_ok: "\<exists>b. create hint = Inr b \<and> \<not> cb_readonly b \<and> length (cb_bytes b) = cap"
    and bstart_yields: "length b = cap \<Longrightarrow>
       \<exists>y k. bstart b = Yield y k \<and> position y = 0 \<and> pos k = 0 \<and> wfb k b \<and> received k b = []"
    and wf_space: "wfb k b \<Longrightarrow> length b = cap \<Longrightarrow> pos k < cap"
    and wf_cong: "wfb k b \<Longrightarrow> length b' = length b \<Longrightarrow> take (pos k) b' = take (pos k) b \<Longrightarrow>
       wfb k b' \<and> received k b' = received k b"
    and bsend_more: "wfb k b \<Longrightarrow> length b = cap \<Longrightarrow> 0 < n \<Longrightarrow> pos k + n \<le> cap \<Longrightarrow>
       out (received k b @ take n (drop (pos k) b)) = More \<Longrightarrow>
       \<exists>y k'. bsend k (b, n) = Yield y k' \<and> position y = int (pos k') \<and> wfb k' b
            \<and> received k' b = received k b @ take n (drop (pos k) b)"
    and bsend_stop: "wfb k b \<Longrightarrow> length b = cap \<Longrightarrow> 0 < n \<Longrightarrow> pos k + n \<le> cap \<Longrightarrow>
       out (received k b @ take n (drop (pos k) b)) = v \<Longrightarrow> \<forall>e r. v \<noteq> Overrun e r \<Longrightarrow>
       verdict_step v = Some s \<Longrightarrow> bsend k (b, n) = s"
    and rest_fits: "wfb k b \<Longrightarrow> length b = cap \<Longrightarrow> pos k + n \<le> cap \<Longrightarrow>
       out (received k b @ take n (drop (pos k) b)) = Done p r
         \<or> out (received k b @ take n (drop (pos k) b)) = Bad e r \<Longrightarrow> length r \<le> cap"

section \<open>The separator framing in a buffer\<close>

text \<open>
  What the in-place search promises in a buffer of \<open>cap\<close> bytes: a separator that ends before the
  last byte of the buffer is found however the bytes arrive.  A search that does not end before the last byte is an overrun.
\<close>

definition buffered_separated_out ::
  "bytes \<Rightarrow> nat \<Rightarrow> bool \<Rightarrow> handler \<Rightarrow> (bytes \<Rightarrow> exc + 'r) \<Rightarrow> bytes \<Rightarrow> 'r verdict"
where
  "buffered_separated_out sep cap keep_end h deser d =
     (let overrun = Overrun (LimitOverrunError ''Separator is not found, and chunk exceed the limit'' [] 0) [] in
      case bfind sep d of
        Some i \<Rightarrow>
          if i + length sep < cap
          then wrap_verdict h deser (if keep_end then take (i + length sep) d else take i d)
                 (drop (i + length sep) d)
          else overrun
      | None \<Rightarrow> if length sep \<le> length d \<and> cap \<le> length d + 1 then overrun else More)"

fun buffered_until_pos :: "buffered_until_frame \<Rightarrow> nat" where
  "buffered_until_pos BufferedWait = 0"
| "buffered_until_pos (BufferedMore buflen _) = buflen"

definition buffered_until_received :: "buffered_until_frame \<Rightarrow> bytes \<Rightarrow> bytes" where
  "buffered_until_received k b = take (buffered_until_pos k) b"

fun buffered_until_wf :: "bytes \<Rightarrow> nat \<Rightarrow> buffered_until_frame \<Rightarrow> bytes \<Rightarrow> bool" where
  "buffered_until_wf sep cap BufferedWait b \<longleftrightarrow> True"
| "buffered_until_wf sep cap (BufferedMore buflen offset) b \<longleftrightarrow>
     buflen < cap \<and> bfind sep (take buflen b) = None \<and>
     (if length sep \<le> buflen then offset = buflen + 1 - length sep \<and> buflen + 1 < cap else offset = 0)"

text \<open>One pass of the search loop, started at a correct offset.\<close>

lemma buffered_readuntil_loop_found:
  assumes "buflen \<le> length b" and "bytes_find_within b sep offset buflen = Some i"
    and "offset + length sep \<le> buflen"
  shows "buffered_readuntil_loop sep b buflen offset = Return (i, i + length sep, buflen)"
  using assms by (simp add: buffered_readuntil_loop_def Let_def)

lemma buffered_readuntil_loop_more:
  assumes "buflen \<le> length b" and "bytes_find_within b sep offset buflen = None" and "sep \<noteq> []"
    and "length sep \<le> buflen \<Longrightarrow> buflen + 1 < length b"
    and "buflen < offset + length sep \<Longrightarrow>
      if length sep \<le> buflen then offset = buflen + 1 - length sep else offset = 0"
  shows "buffered_readuntil_loop sep b buflen offset = Yield (Some (int buflen))
           (BufferedMore buflen (if length sep \<le> buflen then buflen + 1 - length sep else 0))"
proof (cases "offset + length sep \<le> buflen")
  case True
  then have "length sep \<le> buflen" by simp
  with assms(4) have "\<not> int (buflen + 1 - length sep) > int (length b) - 1 - int (length sep)" by simp
  with True assms(2) show ?thesis by (simp add: buffered_readuntil_loop_def Let_def)
next
  case False
  with assms(5) show ?thesis by (auto simp: buffered_readuntil_loop_def Let_def)
qed

lemma framing_buffered_separated:
  assumes "sep \<noteq> []"
  shows "framing (buffered_separated_out sep cap keep_end h deser)"
proof
  show "buffered_separated_out sep cap keep_end h deser [] = More"
    using assms by (simp add: buffered_separated_out_def Let_def)
next
  fix d p r x
  assume d: "buffered_separated_out sep cap keep_end h deser d = Done p r"
  then obtain i where i: "bfind sep d = Some i" "i + length sep < cap"
    "wrap_verdict h deser (if keep_end then take (i + length sep) d else take i d) (drop (i + length sep) d) = Done p r"
    by (auto simp: buffered_separated_out_def Let_def split: option.splits if_splits)
  have "i + length sep \<le> length d" using i(1) by (rule bfind_SomeD)
  with i(2) wrap_verdict_stable(1) [OF i(3), of x] bfind_append_Some [OF i(1), of x]
  show "buffered_separated_out sep cap keep_end h deser (d @ x) = Done p (r @ x)"
    by (cases keep_end) (simp_all add: buffered_separated_out_def)
next
  fix d e r x
  assume d: "buffered_separated_out sep cap keep_end h deser d = Bad e r"
  then obtain i where i: "bfind sep d = Some i" "i + length sep < cap"
    "wrap_verdict h deser (if keep_end then take (i + length sep) d else take i d) (drop (i + length sep) d) = Bad e r"
    by (auto simp: buffered_separated_out_def Let_def split: option.splits if_splits)
  have "i + length sep \<le> length d" using i(1) by (rule bfind_SomeD)
  with i(2) wrap_verdict_stable(2) [OF i(3), of x] bfind_append_Some [OF i(1), of x]
  show "buffered_separated_out sep cap keep_end h deser (d @ x) = Bad e (r @ x)"
    by (cases keep_end) (simp_all add: buffered_separated_out_def)
next
  fix d x
  assume f: "fatal (buffered_separated_out sep cap keep_end h deser d)"
  show "fatal (buffered_separated_out sep cap keep_end h deser (d @ x))"
  proof (cases "bfind sep d")
    case (Some i)
    have "i + length sep \<le> length d" using Some by (rule bfind_SomeD)
    with Some f bfind_append_Some [OF Some, of x] show ?thesis
      by (auto simp: buffered_separated_out_def Let_def wrap_verdict_stable split: if_splits)
  next
    case None
    with f have l: "length sep \<le> length d" "cap \<le> length d + 1"
      by (auto simp: buffered_separated_out_def Let_def split: if_splits)
    show ?thesis
    proof (cases "bfind sep (d @ x)")
      case (Some i)
      with None have "length d < i + length sep" by (rule bfind_append_new)
      with l(2) Some show ?thesis by (simp add: buffered_separated_out_def Let_def)
    next
      case None
      with l show ?thesis by (simp add: buffered_separated_out_def Let_def)
    qed
  qed
qed

text \<open>Sending the count of \<open>n\<close> new bytes, in terms of the bytes before the write position.\<close>

lemma bytes_find_within_resume:
  assumes wf: "buffered_until_wf sep cap (BufferedMore buflen offset) b"
    and n: "buflen + n \<le> length b" and sep: "sep \<noteq> []"
  shows "bytes_find_within b sep offset (buflen + n) = bfind sep (take (buflen + n) b)"
proof (cases "length sep \<le> buflen")
  case True
  have "take (buflen + n) b = take buflen b @ take n (drop buflen b)" by (rule take_add)
  with True wf n bytes_find_resume [of sep "take buflen b" "take n (drop buflen b)"] sep show ?thesis
    by (simp add: bytes_find_within_def)
next
  case False
  with wf show ?thesis by (simp add: bytes_find_within_def)
qed

lemma buffered_readuntil_send_spec:
  assumes wf: "buffered_until_wf sep (length b) k b" and sep: "sep \<noteq> []"
    and n: "0 < n" "buffered_until_pos k + n \<le> length b"
  defines "m \<equiv> buffered_until_pos k + n"
  shows "bfind sep (take m b) = Some i \<Longrightarrow>
           buffered_readuntil_send sep k (b, n) = Return (i, i + length sep, m)"
    and "bfind sep (take m b) = None \<Longrightarrow> (length sep \<le> m \<Longrightarrow> m + 1 < length b) \<Longrightarrow>
           buffered_readuntil_send sep k (b, n) = Yield (Some (int m))
             (BufferedMore m (if length sep \<le> m then m + 1 - length sep else 0))"
    and "bfind sep (take m b) = None \<Longrightarrow> length sep \<le> m \<Longrightarrow> length b \<le> m + 1 \<Longrightarrow>
           buffered_readuntil_send sep k (b, n) =
             Raise (limit_overrun_error ''Separator is not found, and chunk exceed the limit''
                      b (m + 1 - length sep) sep)"
proof -
  obtain offset where k: "buffered_readuntil_send sep k (b, n) = buffered_readuntil_loop sep b m offset"
    and find: "bytes_find_within b sep offset m = bfind sep (take m b)"
    and off: "offset + length sep \<le> m \<or> m < length sep \<and> offset = 0"
  proof (cases k)
    case BufferedWait
    show ?thesis
      by (rule that [of 0]) (use BufferedWait m_def in \<open>auto simp: bytes_find_within_def\<close>)
  next
    case (BufferedMore buflen offset)
    show ?thesis
    proof (rule that [of offset])
      show "buffered_readuntil_send sep k (b, n) = buffered_readuntil_loop sep b m offset"
        using BufferedMore by (simp add: m_def)
      show "bytes_find_within b sep offset m = bfind sep (take m b)"
        unfolding m_def BufferedMore buffered_until_pos.simps
        by (rule bytes_find_within_resume [where cap = "length b"]) (use wf sep n BufferedMore in \<open>auto split: if_splits\<close>)
      show "offset + length sep \<le> m \<or> m < length sep \<and> offset = 0"
        using wf n BufferedMore by (auto simp: m_def split: if_splits)
    qed
  qed
  have m: "m \<le> length b" using n by (simp add: m_def)
  show "buffered_readuntil_send sep k (b, n) = Return (i, i + length sep, m)"
    if "bfind sep (take m b) = Some i"
  proof -
    have "i + length sep \<le> m" using bfind_SomeD(1) [OF that] m by simp
    with off have "offset + length sep \<le> m" by auto
    with k find that m show ?thesis by (simp add: buffered_readuntil_loop_found)
  qed
  show "buffered_readuntil_send sep k (b, n) = Yield (Some (int m))
             (BufferedMore m (if length sep \<le> m then m + 1 - length sep else 0))"
    if "bfind sep (take m b) = None" "length sep \<le> m \<Longrightarrow> m + 1 < length b"
    unfolding k by (rule buffered_readuntil_loop_more [OF m]) (use that find sep off in auto)
  show "buffered_readuntil_send sep k (b, n) =
             Raise (limit_overrun_error ''Separator is not found, and chunk exceed the limit''
                      b (m + 1 - length sep) sep)"
    if "bfind sep (take m b) = None" "length sep \<le> m" "length b \<le> m + 1"
    using that find off k by (auto simp: buffered_readuntil_loop_def Let_def)
qed


definition auto_buffered_out :: "('s, 'r) auto_separated \<Rightarrow> bytes \<Rightarrow> 'r verdict" where
  "auto_buffered_out a = buffered_separated_out (as_separator a) (nat (as_limit a)) False except_deserialize (as_deserialize a)"

lemma buffered_until_received_append:
  "buffered_until_received k b @ take n (drop (buffered_until_pos k) b) = take (buffered_until_pos k + n) b"
  by (simp add: buffered_until_received_def take_add)

lemma buffered_parser_until:
  fixes deser :: "bytes \<Rightarrow> exc + 'r"
  assumes sep: "sep \<noteq> []" and cap: "length sep \<le> cap"
    and after: "\<And>b i m. i + length sep \<le> m \<Longrightarrow> m \<le> length b \<Longrightarrow> after b (i, i + length sep, m) =
      deserialize_or_wrap h deser (if keep_end then take (i + length sep) b else take i b)
        (drop (i + length sep) (take m b))"
  shows "buffered_parser (buffered_separated_out sep cap keep_end h deser) (\<lambda>_. Inr (bytearray cap))
           (\<lambda>b. then_step (after b) id buffered_readuntil_start)
           (\<lambda>k bn. then_step (after (fst bn)) id (buffered_readuntil_send sep k bn))
           (buffered_until_wf sep cap) buffered_until_pos buffered_until_received hint cap"
proof (intro buffered_parser.intro buffered_parser_axioms.intro)
  have c: "length sep \<le> cap" "0 < cap" using sep cap by (cases sep; simp)+
  show "framing (buffered_separated_out sep cap keep_end h deser)"
    by (rule framing_buffered_separated [OF sep])
  show "0 < cap" by fact
  show "\<exists>b. Inr (bytearray cap) = Inr b \<and> \<not> cb_readonly b \<and> length (cb_bytes b) = cap"
    by (simp add: bytearray_def)
  show "\<exists>y k. then_step (after b) id buffered_readuntil_start = Yield y k \<and> position y = 0 \<and> buffered_until_pos k = 0
      \<and> buffered_until_wf sep cap k b \<and> buffered_until_received k b = []" for b
    by (simp add: buffered_readuntil_start_def position_def buffered_until_received_def)
  show "buffered_until_pos k < cap" if "buffered_until_wf sep cap k b" for k b
    using that c by (cases k) auto
  show "buffered_until_wf sep cap k b' \<and> buffered_until_received k b' = buffered_until_received k b"
    if "buffered_until_wf sep cap k b" "take (buffered_until_pos k) b' = take (buffered_until_pos k) b" for k b b'
    using that by (cases k) (auto simp: buffered_until_received_def)
next
  fix k b n
  assume k: "buffered_until_wf sep cap k b" "length b = cap" "0 < n" "buffered_until_pos k + n \<le> cap"
    and "buffered_separated_out sep cap keep_end h deser (buffered_until_received k b @ take n (drop (buffered_until_pos k) b)) = More"
  then have none: "bfind sep (take (buffered_until_pos k + n) b) = None"
    and room: "length sep \<le> buffered_until_pos k + n \<Longrightarrow> buffered_until_pos k + n + 1 < length b"
    by (auto simp: buffered_separated_out_def buffered_until_received_append Let_def
        split: option.splits if_splits)
  have space: "buffered_until_pos k + n < cap"
    using room k cap by (cases "length sep \<le> buffered_until_pos k + n") auto
  from buffered_readuntil_send_spec(2) [of sep b k n] k sep none room space
  show "\<exists>y k'. then_step (after (fst (b, n))) id (buffered_readuntil_send sep k (b, n)) = Yield y k' \<and> position y = int (buffered_until_pos k')
      \<and> buffered_until_wf sep cap k' b
      \<and> buffered_until_received k' b = buffered_until_received k b @ take n (drop (buffered_until_pos k) b)"
    unfolding buffered_until_received_append
    by (auto simp: position_def buffered_until_received_def)
next
  fix k b n v and s :: "('r \<times> bytes, buffered_until_frame) buffered_step"
  assume k: "buffered_until_wf sep cap k b" "length b = cap" "0 < n" "buffered_until_pos k + n \<le> cap"
    and v: "buffered_separated_out sep cap keep_end h deser (buffered_until_received k b @ take n (drop (buffered_until_pos k) b)) = v"
    and ov: "\<forall>e r. v \<noteq> Overrun e r" and s: "verdict_step v = Some s"
  from v ov s obtain i where i: "bfind sep (take (buffered_until_pos k + n) b) = Some i"
    "v = wrap_verdict h deser (if keep_end then take (i + length sep) (take (buffered_until_pos k + n) b)
             else take i (take (buffered_until_pos k + n) b))
           (drop (i + length sep) (take (buffered_until_pos k + n) b))"
    by (auto simp: buffered_separated_out_def buffered_until_received_append Let_def
        split: option.splits if_splits)
  have le: "i + length sep \<le> buffered_until_pos k + n" using bfind_SomeD(1) [OF i(1)] by simp
  then have "take i (take (buffered_until_pos k + n) b) = take i b"
    "take (i + length sep) (take (buffered_until_pos k + n) b) = take (i + length sep) b" by simp_all
  with i s have "s = deserialize_or_wrap h deser (if keep_end then take (i + length sep) b else take i b)
      (drop (i + length sep) (take (buffered_until_pos k + n) b))"
    by (cases keep_end) (simp_all add: wrap_verdict_step)
  with after [OF le, of b] k have "s = after b (i, i + length sep, buffered_until_pos k + n)" by simp
  with buffered_readuntil_send_spec(1) [of sep b k n] k sep i(1)
  show "then_step (after (fst (b, n))) id (buffered_readuntil_send sep k (b, n)) = s" by simp
next
  fix k b n and p :: 'r and e r
  assume "length b = cap" "buffered_until_pos k + n \<le> cap"
    and "buffered_separated_out sep cap keep_end h deser (buffered_until_received k b @ take n (drop (buffered_until_pos k) b)) = Done p r
      \<or> buffered_separated_out sep cap keep_end h deser (buffered_until_received k b @ take n (drop (buffered_until_pos k) b)) = Bad e r"
  then show "length r \<le> cap"
    by (auto simp: buffered_separated_out_def buffered_until_received_append Let_def
        dest!: wrap_verdict_DoneD wrap_verdict_BadD split: option.splits if_splits)
qed

lemma buffered_parser_auto:
  assumes sep: "as_separator a \<noteq> []" and cap: "int (length (as_separator a)) \<le> as_limit a"
  shows "buffered_parser (auto_buffered_out a) (auto_create_buffer a) (auto_buffered_start a)
           (auto_buffered_send a) (buffered_until_wf (as_separator a) (nat (as_limit a)))
           buffered_until_pos buffered_until_received hint (nat (as_limit a))"
proof -
  have "length (as_separator a) \<le> nat (as_limit a)" using cap by simp
  moreover have "auto_buffered_after a b (i, i + length (as_separator a), m) =
      deserialize_or_wrap except_deserialize (as_deserialize a)
        (if False then take (i + length (as_separator a)) b else take i b)
        (drop (i + length (as_separator a)) (take m b))" for b i m
    by (simp add: auto_buffered_after_def)
  ultimately show ?thesis
    using buffered_parser_until [where after = "auto_buffered_after a", OF sep]
    unfolding auto_buffered_out_def auto_create_buffer_def [abs_def] auto_buffered_start_def [abs_def]
      auto_buffered_send_def [abs_def] by blast
qed

section \<open>The fixed-size framing in a buffer\<close>

fun fixed_buffered_pos :: "fixed_buffered_frame \<Rightarrow> nat" where
  "fixed_buffered_pos (Nread n) = n"

definition fixed_buffered_received :: "fixed_buffered_frame \<Rightarrow> bytes \<Rightarrow> bytes" where
  "fixed_buffered_received k b = take (fixed_buffered_pos k) b"

definition fixed_buffered_wf :: "nat \<Rightarrow> fixed_buffered_frame \<Rightarrow> bytes \<Rightarrow> bool" where
  "fixed_buffered_wf n k b \<longleftrightarrow> fixed_buffered_pos k < n"

lemma fixed_buffered_received_append:
  "fixed_buffered_received k b @ take n (drop (fixed_buffered_pos k) b) = take (fixed_buffered_pos k + n) b"
  by (simp add: fixed_buffered_received_def take_add)

lemma buffered_parser_fixed:
  assumes size: "0 < fs_size f"
  shows "buffered_parser (fixed_out (nat (fs_size f)) (fs_deserialize f)) (fixed_create_buffer f)
           (fixed_buffered_start f) (fixed_buffered_send f) (fixed_buffered_wf (nat (fs_size f)))
           fixed_buffered_pos fixed_buffered_received hint (nat (max (fs_size f) hint))"
proof (intro buffered_parser.intro buffered_parser_axioms.intro)
  let ?cap = "nat (max (fs_size f) hint)" and ?n = "nat (fs_size f)"
  show "framing (fixed_out ?n (fs_deserialize f))" using size by (intro framing_fixed) simp
  show "0 < ?cap" using size by simp
  show "\<exists>b. fixed_create_buffer f hint = Inr b \<and> \<not> cb_readonly b \<and> length (cb_bytes b) = ?cap"
    by (simp add: fixed_create_buffer_def bytearray_def)
  show "\<exists>y k. fixed_buffered_start f b = Yield y k \<and> position y = 0 \<and> fixed_buffered_pos k = 0
      \<and> fixed_buffered_wf ?n k b \<and> fixed_buffered_received k b = []" if "length b = ?cap" for b
    using size that
    by (auto simp: fixed_buffered_start_def fixed_buffered_loop_def position_def fixed_buffered_wf_def
        fixed_buffered_received_def)
  show "fixed_buffered_pos k < ?cap" if "fixed_buffered_wf ?n k b" for k b
    using that size by (simp add: fixed_buffered_wf_def)
  show "fixed_buffered_wf ?n k b' \<and> fixed_buffered_received k b' = fixed_buffered_received k b"
    if "fixed_buffered_wf ?n k b" "take (fixed_buffered_pos k) b' = take (fixed_buffered_pos k) b" for k b b'
    using that by (simp add: fixed_buffered_received_def fixed_buffered_wf_def)
next
  let ?cap = "nat (max (fs_size f) hint)" and ?n = "nat (fs_size f)"
  fix k b m
  assume k: "length b = ?cap" "fixed_buffered_pos k + m \<le> ?cap"
    and "fixed_out ?n (fs_deserialize f) (fixed_buffered_received k b @ take m (drop (fixed_buffered_pos k) b)) = More"
  then have "fixed_buffered_pos k + m < ?n"
    by (auto simp: fixed_out_def fixed_buffered_received_append split: if_splits)
  then show "\<exists>y k'. fixed_buffered_send f k (b, m) = Yield y k' \<and> position y = int (fixed_buffered_pos k')
      \<and> fixed_buffered_wf ?n k' b
      \<and> fixed_buffered_received k' b = fixed_buffered_received k b @ take m (drop (fixed_buffered_pos k) b)"
    unfolding fixed_buffered_received_append
    by (cases k) (auto simp: fixed_buffered_loop_def position_def fixed_buffered_received_def fixed_buffered_wf_def)
next
  let ?cap = "nat (max (fs_size f) hint)" and ?n = "nat (fs_size f)"
  fix k b m v and s :: "('b \<times> bytes, fixed_buffered_frame) buffered_step"
  assume k: "length b = ?cap" "fixed_buffered_pos k + m \<le> ?cap"
    and v: "fixed_out ?n (fs_deserialize f) (fixed_buffered_received k b @ take m (drop (fixed_buffered_pos k) b)) = v"
    and s: "verdict_step v = Some s"
  from v s k have n: "?n \<le> fixed_buffered_pos k + m"
    by (auto simp: fixed_out_def fixed_buffered_received_append split: if_splits)
  with v k have "v = wrap_verdict except_deserialize (fs_deserialize f) (take ?n b) (drop ?n (take (fixed_buffered_pos k + m) b))"
    by (auto simp: fixed_out_def fixed_buffered_received_append min_def split: if_splits)
  with s have "s = deserialize_or_wrap except_deserialize (fs_deserialize f) (take ?n b) (drop ?n (take (fixed_buffered_pos k + m) b))"
    by (simp add: wrap_verdict_step)
  moreover have "\<not> int (fixed_buffered_pos k + m) < fs_size f" using n size by linarith
  ultimately show "fixed_buffered_send f k (b, m) = s"
    by (cases k) (simp add: fixed_buffered_loop_def)
next
  let ?cap = "nat (max (fs_size f) hint)" and ?n = "nat (fs_size f)"
  fix k b m and p :: 'b and e r
  assume "length b = ?cap" "fixed_buffered_pos k + m \<le> ?cap"
    and "fixed_out ?n (fs_deserialize f) (fixed_buffered_received k b @ take m (drop (fixed_buffered_pos k) b)) = Done p r
      \<or> fixed_out ?n (fs_deserialize f) (fixed_buffered_received k b @ take m (drop (fixed_buffered_pos k) b)) = Bad e r"
  then show "length r \<le> ?cap"
    by (auto simp: fixed_out_def fixed_buffered_received_append dest: wrap_verdict_DoneD wrap_verdict_BadD
        split: if_splits)
qed

section \<open>BufferedStreamProtocol, and generic deserializers behind a buffer\<close>

context buffered_parser
begin

lemma buffered_parser_protocol:
  fixes conv :: "('sp, 'rp, 'sd, 'r) converter"
  shows "buffered_parser (protocol_out conv out) create (\<lambda>b. build_packet_start conv (bstart b))
           (build_packet_send conv bsend) wfb pos received hint cap"
proof (intro buffered_parser.intro buffered_parser_axioms.intro)
  show "framing (protocol_out conv out)" by (rule framing_protocol)
  show "0 < cap" by (rule cap_pos)
  show "\<exists>b. create hint = Inr b \<and> \<not> cb_readonly b \<and> length (cb_bytes b) = cap" by (rule create_ok)
  show "\<exists>y k. build_packet_start conv (bstart b) = Yield y k \<and> position y = 0 \<and> pos k = 0 \<and> wfb k b
      \<and> received k b = []" if "length b = cap" for b
    using bstart_yields [OF that] by (auto simp: build_packet_start_def)
  show "pos k < cap" if "wfb k b" "length b = cap" for k b using that by (rule wf_space)
  show "wfb k b' \<and> received k b' = received k b"
    if "wfb k b" "length b' = length b" "take (pos k) b' = take (pos k) b" for k b b'
    using that by (rule wf_cong)
next
  fix k b n
  assume k: "wfb k b" "length b = cap" "0 < n" "pos k + n \<le> cap"
    and "protocol_out conv out (received k b @ take n (drop (pos k) b)) = More"
  with bsend_more [OF k] show "\<exists>y k'. build_packet_send conv bsend k (b, n) = Yield y k'
      \<and> position y = int (pos k') \<and> wfb k' b \<and> received k' b = received k b @ take n (drop (pos k) b)"
    by (auto simp: build_packet_send_def)
next
  fix k b n v and s :: "('rp \<times> bytes, 'k) buffered_step"
  assume k: "wfb k b" "length b = cap" "0 < n" "pos k + n \<le> cap"
    and v: "protocol_out conv out (received k b @ take n (drop (pos k) b)) = v"
    and ov: "\<forall>e r. v \<noteq> Overrun e r" and s: "verdict_step v = Some s"
  have "\<forall>e r. out (received k b @ take n (drop (pos k) b)) \<noteq> Overrun e r"
    using v ov by (auto simp: protocol_out_def)
  moreover obtain s0 where "verdict_step (out (received k b @ take n (drop (pos k) b))) = Some s0"
    "s = then_step (convert_received conv) stream_parse_error s0"
    using protocol_verdict_step s v by blast
  ultimately show "build_packet_send conv bsend k (b, n) = s"
    using bsend_stop [OF k refl] by (simp add: build_packet_send_def)
next
  fix k b n and p :: 'rp and e r
  assume k: "wfb k b" "length b = cap" "pos k + n \<le> cap"
    and "protocol_out conv out (received k b @ take n (drop (pos k) b)) = Done p r
       \<or> protocol_out conv out (received k b @ take n (drop (pos k) b)) = Bad e r"
  then have "\<exists>p e. out (received k b @ take n (drop (pos k) b)) = Done p r
      \<or> out (received k b @ take n (drop (pos k) b)) = Bad e r"
    by (auto simp: protocol_out_def split: verdict.splits sum.splits if_splits)
  with rest_fits [OF k] show "length r \<le> cap" by blast
qed

end

context stream_parser
begin

lemma buffered_parser_wrapped:
  assumes "0 < cap" and "\<exists>b. create hint = Inr b \<and> \<not> cb_readonly b \<and> length (cb_bytes b) = cap"
    and fits: "\<And>k c p e r. wf k \<Longrightarrow> length c \<le> cap \<Longrightarrow>
      out (received k @ c) = Done p r \<or> out (received k @ c) = Bad e r \<Longrightarrow> length r \<le> cap"
  shows "buffered_parser out create (wrap_buffered_start start) (wrap_buffered_send send)
           (\<lambda>k b. wf k) (\<lambda>k. 0) (\<lambda>k b. received k) hint cap"
proof (intro buffered_parser.intro buffered_parser_axioms.intro)
  show "framing out" by unfold_locales
  show "\<exists>y k. wrap_buffered_start start b = Yield y k \<and> position y = 0 \<and> 0 = (0 :: nat) \<and> wf k
      \<and> received k = []" for b
    using start_yields by (auto simp: wrap_buffered_start_def position_def)
  show "\<exists>y k'. wrap_buffered_send send k (b, n) = Yield y k' \<and> position y = int 0 \<and> wf k'
      \<and> received k' = received k @ take n (drop 0 b)"
    if "wf k" "out (received k @ take n (drop 0 b)) = More" for k b n
    using send_more [OF that(1), of "take n b"] that(2) by (auto simp: wrap_buffered_send_def position_def)
  show "wrap_buffered_send send k (b, n) = s"
    if "wf k" "out (received k @ take n (drop 0 b)) = v" "verdict_step v = Some s"
    for k b n v and s :: "('r \<times> bytes, 'k) buffered_step"
  proof -
    from that(3) obtain s' :: "(unit, 'r \<times> bytes, exc, 'k) gen_step" where s': "verdict_step v = Some s'"
      and same: "s = (case s' of Return pr \<Rightarrow> Return pr | Raise e \<Rightarrow> Raise e | Yield _ k \<Rightarrow> Yield None k)"
      by (cases v) auto
    with send_stop [OF that(1), of "take n b" s'] that(2) show ?thesis
      by (cases v) (auto simp: wrap_buffered_send_def)
  qed
  show "length r \<le> cap"
    if "wf k" "length b = cap" "out (received k @ take n (drop 0 b)) = Done p r
        \<or> out (received k @ take n (drop 0 b)) = Bad e r" for k b n p e r
    using fits [OF that(1), of "take n b"] that by simp
qed (use assms in simp_all)

end

section \<open>Properties\<close>

text \<open>
  a line that fills the buffer to its last byte is found when it arrives in one read, and is refused with
  \<^verbatim>\<open>LimitOverrunError\<close> when the last byte of its separator arrives alone: whether such a line is within the
  limit depends on the fragmentation.
\<close>

theorem buffered_readuntil_boundary:
  assumes "sep \<noteq> []" and "length sep < length b" and "bfind sep b = Some (length b - length sep)"
  shows "buffered_readuntil_send sep BufferedWait (b, length b) =
           Return (length b - length sep, length b, length b)
    \<and> (\<exists>e. buffered_readuntil_send sep BufferedWait (b, length b - 1) = Raise e \<and> is_LimitOverrunError e)"
proof -
  have le: "length sep \<le> length b - 1" using assms(2) by simp
  have long: "Suc 0 < length b" "length b \<le> Suc (length b - Suc 0)" using assms(1,2) by (cases sep; simp)+
  have none: "bfind sep (take (length b - 1) b) = None"
  proof (cases "bfind sep (take (length b - 1) b)")
    case (Some j)
    from bfind_append_Some [OF Some, of "drop (length b - 1) b"] assms(3) have "j = length b - length sep" by simp
    with bfind_SomeD(1) [OF Some] assms(1,2) show ?thesis by simp
  qed
  have "buffered_readuntil_send sep BufferedWait (b, length b - 1) = Raise (limit_overrun_error
      ''Separator is not found, and chunk exceed the limit'' b (length b - 1 + 1 - length sep) sep)"
    using buffered_readuntil_send_spec(3) [of sep b BufferedWait "length b - 1"] none le assms(1,2) long by simp
  moreover have "buffered_readuntil_send sep BufferedWait (b, length b) =
      Return (length b - length sep, length b, length b)"
    using assms by (simp add: buffered_readuntil_loop_def bytes_find_within_def Let_def)
  ultimately show ?thesis by auto
qed

theorem buffered_readuntil_boundary_witness:
  "buffered_readuntil_send [CHR 0x0A] BufferedWait (''abc'' @ [CHR 0x0A], length (''abc'' @ [CHR 0x0A])) =
     Return (length (''abc'' @ [CHR 0x0A]) - length [CHR 0x0A], length (''abc'' @ [CHR 0x0A]), length (''abc'' @ [CHR 0x0A]))
   \<and> (\<exists>e. buffered_readuntil_send [CHR 0x0A] BufferedWait (''abc'' @ [CHR 0x0A], length (''abc'' @ [CHR 0x0A]) - 1) = Raise e
        \<and> is_LimitOverrunError e)"
  by (rule buffered_readuntil_boundary) code_simp+

section \<open>The two receive paths agree\<close>

text \<open>What the search in the buffer accepts is what the search in the received chunks accepts.\<close>

lemma auto_paths_agree:
  assumes "as_separator a \<noteq> []" and "\<not> fatal (auto_buffered_out a d)"
  shows "auto_out a d = auto_buffered_out a d"
proof (cases "bfind (as_separator a) d")
  case (Some i)
  with assms(2) have "i + length (as_separator a) < nat (as_limit a)
      \<or> wrap_verdict except_deserialize (as_deserialize a) (take i d) (drop (i + length (as_separator a)) d) = More"
    by (auto simp: auto_buffered_out_def buffered_separated_out_def Let_def split: if_splits)
  then have "i + length (as_separator a) < nat (as_limit a)" by simp
  moreover from this have "\<not> as_limit a < int i" by linarith
  ultimately show ?thesis
    using Some by (simp add: auto_out_def auto_buffered_out_def separated_out_def buffered_separated_out_def
        read_until_spec_def Let_def)
next
  case None
  with assms(2) have l: "\<not> (length (as_separator a) \<le> length d \<and> nat (as_limit a) \<le> length d + 1)"
    by (auto simp: auto_buffered_out_def buffered_separated_out_def Let_def split: if_splits)
  have "\<not> (length (as_separator a) \<le> length d \<and> int (length d + 1 - length (as_separator a)) > as_limit a)"
    using l assms(1) by (cases "as_separator a") auto
  with None l show ?thesis
    by (simp add: auto_out_def auto_buffered_out_def separated_out_def buffered_separated_out_def
        read_until_spec_def Let_def)
qed

lemma decodes_agree:
  assumes "\<And>d. \<not> fatal (out d) \<Longrightarrow> out' d = out d" and "decodes out d evs rest"
  shows "decodes out' d evs rest"
  using assms(2)
proof (induction rule: decodes.induct)
  case (decodes_more d)
  with assms(1) [of d] show ?case by (intro decodes.decodes_more) simp
next
  case (decodes_done d p r evs rest)
  with assms(1) [of d] show ?case by (intro decodes.decodes_done) simp_all
next
  case (decodes_bad d e r evs rest)
  with assms(1) [of d] show ?case by (intro decodes.decodes_bad) simp_all
qed

end
