(* ===== verification/StreamConsumer.thy ===== *)
theory StreamConsumer
  imports Protocol
begin

text \<open>
  \<^verbatim>\<open>StreamDataProducer\<close> and \<^verbatim>\<open>StreamDataConsumer\<close> of
  \<^verbatim>\<open>src/src/easynetwork/lowlevel/_stream.py\<close>, over any stream protocol.

  The abstract machine \<open>spec_next\<close> keeps only the bytes not yet turned into packets; the
  consumer, with its buffer and its suspended generator, is proved to refine it.
\<close>

section \<open>The producer\<close>

definition producer_generate :: "('p \<Rightarrow> chunks) \<Rightarrow> 'p \<Rightarrow> chunks" where
  "producer_generate generate packet =
     (case generate packet of
        (cs, None) \<Rightarrow> (cs, None)
      | (cs, Some e) \<Rightarrow> (cs, Some (RuntimeError ''protocol.generate_chunks() crashed'')))"

section \<open>The consumer\<close>

record 'k stream_consumer =
  sc_buffer :: bytes
  sc_consumer :: "'k option"

text \<open>\<open>Stop\<close> is \<^verbatim>\<open>StopIteration\<close>: no packet yet.\<close>

datatype 'r next_result = Stop | Packet 'r | Error exc

definition stream_consumer_init :: "'k stream_consumer" where
  "stream_consumer_init = \<lparr>sc_buffer = [], sc_consumer = None\<rparr>"

definition stream_consumer_clear :: "'k stream_consumer \<Rightarrow> 'k stream_consumer" where
  "stream_consumer_clear st = st\<lparr>sc_buffer := [], sc_consumer := None\<rparr>"

definition stream_consumer_get_buffer :: "'k stream_consumer \<Rightarrow> bytes" where
  "stream_consumer_get_buffer st = sc_buffer st"

text \<open>The second half of \<^verbatim>\<open>next\<close>: \<^verbatim>\<open>consumer.send(received_chunk)\<close> and its four outcomes.\<close>

definition consumer_send ::
  "('k \<Rightarrow> bytes \<Rightarrow> (unit, 'r \<times> bytes, exc, 'k) gen_step) \<Rightarrow> 'k \<Rightarrow> bytes
     \<Rightarrow> 'r next_result \<times> 'k stream_consumer"
where
  "consumer_send send k received_chunk =
     (let st = \<lparr>sc_buffer = [], sc_consumer = None\<rparr> in
      case send k received_chunk of
        Return (packet, remaining) \<Rightarrow> (Packet packet, st\<lparr>sc_buffer := remaining\<rparr>)
      | Raise e \<Rightarrow>
          if is_StreamProtocolParseError e then (Error e, st\<lparr>sc_buffer := remaining_data e\<rparr>)
          else (Error (RuntimeError ''protocol.build_packet_from_chunks() crashed''), st)
      | Yield _ k' \<Rightarrow> (Stop, st\<lparr>sc_consumer := Some k'\<rparr>))"

definition consumer_next ::
  "(unit, 'r \<times> bytes, exc, 'k) gen_step \<Rightarrow> ('k \<Rightarrow> bytes \<Rightarrow> (unit, 'r \<times> bytes, exc, 'k) gen_step)
     \<Rightarrow> 'k stream_consumer \<Rightarrow> bytes option \<Rightarrow> 'r next_result \<times> 'k stream_consumer"
where
  "consumer_next start send st received_chunk =
     (let chunk = (case received_chunk of
                     None \<Rightarrow> sc_buffer st
                   | Some c \<Rightarrow> if c = [] then sc_buffer st else sc_buffer st @ c) in
      if chunk = [] then (Stop, st)
      else (case sc_consumer st of
              Some k \<Rightarrow> consumer_send send k chunk
            | None \<Rightarrow>
                (case start of
                   Return _ \<Rightarrow>
                     (Error (RuntimeError ''protocol.build_packet_from_chunks() did not yield''),
                      st\<lparr>sc_buffer := chunk\<rparr>)
                 | Raise _ \<Rightarrow>
                     (Error (RuntimeError ''protocol.build_packet_from_chunks() crashed''),
                      st\<lparr>sc_buffer := chunk\<rparr>)
                 | Yield _ k \<Rightarrow> consumer_send send k chunk)))"

section \<open>The abstract machine\<close>

definition spec_error :: "string \<Rightarrow> exc \<Rightarrow> 'r next_result \<times> bytes" where
  "spec_error crash e =
     (if is_StreamProtocolParseError e then (Error e, remaining_data e) else (Error (RuntimeError crash), []))"

definition spec_next ::
  "string \<Rightarrow> (bytes \<Rightarrow> 'r verdict) \<Rightarrow> bytes \<Rightarrow> bytes \<Rightarrow> 'r next_result \<times> bytes"
where
  "spec_next crash out pending chunk =
     (let d = pending @ chunk in
      case out d of
        More \<Rightarrow> (Stop, d)
      | Done p r \<Rightarrow> (Packet p, r)
      | Bad e r \<Rightarrow> spec_error crash (with_remaining r e)
      | Overrun e r \<Rightarrow> spec_error crash (with_remaining r e)
      | Crash e \<Rightarrow> spec_error crash e)"

abbreviation chunks_crashed :: string where
  "chunks_crashed \<equiv> ''protocol.build_packet_from_chunks() crashed''"

lemma consumer_send_stop:
  assumes "verdict_step (out d) = Some s" and "send k c = s"
  shows "\<exists>st'. consumer_send send k c = (fst (spec_next chunks_crashed out [] d), st')
     \<and> sc_consumer st' = None \<and> sc_buffer st' = snd (spec_next chunks_crashed out [] d)"
  using assms
  by (cases "out d") (auto simp: consumer_send_def spec_next_def spec_error_def Let_def)

section \<open>Refinement\<close>

definition sc_pending :: "('k \<Rightarrow> bytes) \<Rightarrow> 'k stream_consumer \<Rightarrow> bytes" where
  "sc_pending received st =
     (case sc_consumer st of None \<Rightarrow> sc_buffer st | Some k \<Rightarrow> received k @ sc_buffer st)"

definition sc_inv ::
  "(bytes \<Rightarrow> 'r verdict) \<Rightarrow> ('k \<Rightarrow> bool) \<Rightarrow> ('k \<Rightarrow> bytes) \<Rightarrow> 'k stream_consumer \<Rightarrow> bool"
where
  "sc_inv out wfk received st \<longleftrightarrow>
     (case sc_consumer st of
        None \<Rightarrow> True
      | Some k \<Rightarrow> wfk k \<and> sc_buffer st = [] \<and> out (received k) = More)"

context stream_parser
begin

lemma consumer_send_refines:
  assumes "wf k"
  shows "case consumer_send send k c of (res, st') \<Rightarrow>
    sc_inv out wf received st' \<and>
    (res, sc_pending received st') = spec_next chunks_crashed out (received k) c"
proof (cases "out (received k @ c)")
  case More
  from send_more [OF assms this] obtain k'
    where "send k c = Yield () k'" "wf k'" "received k' = received k @ c" by blast
  with More show ?thesis
    by (simp add: consumer_send_def sc_inv_def sc_pending_def spec_next_def)
next
  case (Done p r)
  with send_stop [OF assms, of c] show ?thesis
    by (simp add: consumer_send_def sc_inv_def sc_pending_def spec_next_def)
next
  case (Bad e r)
  with send_stop [OF assms, of c] show ?thesis
    by (simp add: consumer_send_def sc_inv_def sc_pending_def spec_next_def spec_error_def)
next
  case (Overrun e r)
  with send_stop [OF assms, of c] show ?thesis
    by (simp add: consumer_send_def sc_inv_def sc_pending_def spec_next_def spec_error_def)
next
  case (Crash e)
  with send_stop [OF assms, of c] show ?thesis
    by (simp add: consumer_send_def sc_inv_def sc_pending_def spec_next_def spec_error_def)
qed

lemma consumer_next_refines:
  assumes "sc_inv out wf received st"
  shows "case consumer_next start send st chunk of (res, st') \<Rightarrow>
    sc_inv out wf received st' \<and>
    (res, sc_pending received st') =
      spec_next chunks_crashed out (sc_pending received st) (case chunk of None \<Rightarrow> [] | Some c \<Rightarrow> c)"
proof -
  let ?c = "case chunk of None \<Rightarrow> [] | Some c \<Rightarrow> c"
  have chunk: "(case chunk of None \<Rightarrow> sc_buffer st | Some c \<Rightarrow> if c = [] then sc_buffer st else sc_buffer st @ c)
      = sc_buffer st @ ?c"
    by (simp split: option.split)
  note all = consumer_next_def Let_def chunk
  obtain k0 where k0: "start = Yield () k0" "wf k0" "received k0 = []" using start_yields by blast
  show ?thesis
  proof (cases "sc_consumer st")
    case None
    with consumer_send_refines [OF k0(2), of "sc_buffer st @ ?c"] k0 show ?thesis
      unfolding all
      by (auto simp: sc_pending_def sc_inv_def out_nil spec_next_def split: prod.splits)
  next
    case (Some k)
    with assms have k: "wf k" "sc_buffer st = []" "out (received k) = More"
      by (auto simp: sc_inv_def)
    with Some consumer_send_refines [OF k(1), of ?c] show ?thesis
      unfolding all
      by (auto simp: sc_pending_def sc_inv_def spec_next_def split: prod.splits)
  qed
qed

lemma sc_inv_init: "sc_inv out wf received stream_consumer_init"
  by (simp add: sc_inv_def stream_consumer_init_def)

end

lemma sc_pending_init [simp]: "sc_pending received stream_consumer_init = []"
  by (simp add: sc_pending_def stream_consumer_init_def)

section \<open>Properties\<close>

text \<open>
  \<^verbatim>\<open>StreamDataConsumer.next\<close> with a separator-framed protocol refines the machine that keeps nothing but the bytes not
  yet turned into packets: same result, same bytes kept, whichever of the buffer and the suspended
  generator holds them, and the invariant is preserved.
\<close>

theorem stream_consumer_refines:
  assumes "as_separator a \<noteq> []" and "0 < as_limit a"
    and "sc_inv (protocol_out conv (auto_out a)) (until_wf (as_separator a) (as_limit a)) until_received st"
  shows "case consumer_next (build_packet_start conv (auto_deserialize_start a))
             (build_packet_send conv (auto_deserialize_send a)) st chunk of (res, st') \<Rightarrow>
           sc_inv (protocol_out conv (auto_out a)) (until_wf (as_separator a) (as_limit a)) until_received st'
           \<and> (res, sc_pending until_received st') =
               spec_next chunks_crashed (protocol_out conv (auto_out a)) (sc_pending until_received st)
                 (case chunk of None \<Rightarrow> [] | Some c \<Rightarrow> c)"
  by (rule stream_parser.consumer_next_refines [OF stream_protocol.axioms(1) [OF stream_protocol_auto [OF assms(1,2)]]
        assms(3)])

text \<open>A suspended generator that has received the first half of the separator.\<close>

definition half_received :: "until_frame stream_consumer" where
  "half_received = \<lparr>sc_buffer = [], sc_consumer = Some (UntilMore (''ab'' @ [CHR 0x0D]) 2)\<rparr>"

theorem stream_consumer_refines_witness:
  "case consumer_next (build_packet_start (no_converter :: (bytes, bytes, bytes, bytes) converter) (auto_deserialize_start crlf_separated))
      (build_packet_send (no_converter :: (bytes, bytes, bytes, bytes) converter) (auto_deserialize_send crlf_separated))
      half_received (Some [CHR 0x0A, CHR ''c'']) of (res, st') \<Rightarrow>
    sc_inv (protocol_out (no_converter :: (bytes, bytes, bytes, bytes) converter) (auto_out crlf_separated))
      (until_wf (as_separator crlf_separated) (as_limit crlf_separated)) until_received st'
    \<and> (res, sc_pending until_received st') =
        spec_next chunks_crashed (protocol_out (no_converter :: (bytes, bytes, bytes, bytes) converter) (auto_out crlf_separated))
          (sc_pending until_received half_received) (case Some [CHR 0x0A, CHR ''c''] of None \<Rightarrow> [] | Some c \<Rightarrow> c)"
proof (rule stream_consumer_refines)
  have "until_wf [CHR 0x0D, CHR 0x0A] 20 (UntilMore (''ab'' @ [CHR 0x0D]) 2)"
    "auto_out crlf_separated (''ab'' @ [CHR 0x0D]) = More" by code_simp+
  then show "sc_inv (protocol_out (no_converter :: (bytes, bytes, bytes, bytes) converter) (auto_out crlf_separated))
      (until_wf (as_separator crlf_separated) (as_limit crlf_separated)) until_received half_received"
    by (simp add: sc_inv_def half_received_def crlf_separated_def)
qed (simp_all add: crlf_separated_def)

end
