(* ===== verification/BufferedConsumer.thy ===== *)
theory BufferedConsumer
  imports BufferedSerializers StreamConsumer
begin

text \<open>
  \<^verbatim>\<open>BufferedStreamDataConsumer\<close> of \<^verbatim>\<open>src/src/easynetwork/lowlevel/_stream.py\<close>.

  The write buffer is the list of its bytes; a memoryview into it is a pair (offset, length).
  The suspended generator refers to the same buffer object as the attribute \<^verbatim>\<open>__buffer\<close>, whose
  contents it sees when it is resumed.  The transport writes into the exported view between two
  calls, which is \<open>fill_write_buffer\<close>.
\<close>

record ('r, 'k) buffered_protocol =
  bp_create_buffer :: "int \<Rightarrow> exc + created_buffer"
  bp_build_start :: "bytes \<Rightarrow> ('r \<times> bytes, 'k) buffered_step"
  bp_build_send :: "'k \<Rightarrow> bytes \<times> nat \<Rightarrow> ('r \<times> bytes, 'k) buffered_step"

type_synonym view = "nat \<times> nat"

record 'k buffered_consumer =
  bc_buffer :: "bytes option"
  bc_view :: "view option"
  bc_start :: int
  bc_written :: nat
  bc_sizehint :: int
  bc_consumer :: "'k option"

section \<open>Operations\<close>

definition buffered_consumer_init :: "int \<Rightarrow> exc + 'k buffered_consumer" where
  "buffered_consumer_init sizehint =
     (if sizehint \<le> 0 then Inl (ValueError ''buffer_size_hint'')
      else Inr \<lparr>bc_buffer = None, bc_view = None, bc_start = 0, bc_written = 0,
                bc_sizehint = sizehint, bc_consumer = None\<rparr>)"

definition buffered_consumer_clear :: "'k buffered_consumer \<Rightarrow> 'k buffered_consumer" where
  "buffered_consumer_clear st =
     st\<lparr>bc_view := None, bc_buffer := None, bc_start := 0, bc_written := 0, bc_consumer := None\<rparr>"

text \<open>The index at which the slice \<^verbatim>\<open>view[start:]\<close> of a view of \<open>len\<close> bytes begins.\<close>

definition slice_start :: "nat \<Rightarrow> int \<Rightarrow> nat" where
  "slice_start len start = (if start < 0 then nat (max 0 (int len + start)) else min len (nat start))"

definition validate_created_buffer :: "created_buffer \<Rightarrow> exc option" where
  "validate_created_buffer b =
     (if cb_readonly b then Some (ValueError ''protocol.create_buffer() returned a read-only buffer'')
      else if cb_bytes b = [] then Some (ValueError ''protocol.create_buffer() returned a null buffer'')
      else None)"

text \<open>The three parts of \<^verbatim>\<open>__new_write_buffer\<close>, each with the exception it may leave with.\<close>

definition ensure_buffer ::
  "('r, 'k) buffered_protocol \<Rightarrow> 'k buffered_consumer \<Rightarrow> exc option \<times> 'k buffered_consumer"
where
  "ensure_buffer P st =
     (if bc_buffer st \<noteq> None then (None, st)
      else if bc_consumer st \<noteq> None
      then (Some (AssertionError ''Buffer flushed while there is an active consumer.''), st)
      else (case bp_create_buffer P (bc_sizehint st) of
              Inl e \<Rightarrow> (Some e, st)
            | Inr whole_buffer \<Rightarrow>
                (case validate_created_buffer whole_buffer of
                   Some e \<Rightarrow> (Some e, st)
                 | None \<Rightarrow> (None, st\<lparr>bc_buffer := Some (cb_bytes whole_buffer)\<rparr>))))"

definition buffer_contents :: "'k buffered_consumer \<Rightarrow> bytes" where
  "buffer_contents st = (case bc_buffer st of None \<Rightarrow> [] | Some b \<Rightarrow> b)"

definition ensure_consumer ::
  "('r, 'k) buffered_protocol \<Rightarrow> 'k buffered_consumer \<Rightarrow> exc option \<times> 'k buffered_consumer"
where
  "ensure_consumer P st =
     (if bc_consumer st \<noteq> None then (None, st)
      else (case bp_build_start P (buffer_contents st) of
              Return _ \<Rightarrow> (Some (RuntimeError ''protocol.build_packet_from_buffer() did not yield''), st)
            | Raise _ \<Rightarrow>
                (Some (RuntimeError ''protocol.build_packet_from_buffer() crashed''), st\<lparr>bc_buffer := None\<rparr>)
            | Yield y k \<Rightarrow> (None, st\<lparr>bc_start := position y, bc_consumer := Some k\<rparr>)))"

definition write_view :: "'k buffered_consumer \<Rightarrow> view" where
  "write_view st =
     (let len = length (buffer_contents st);
          offset = min len (slice_start len (bc_start st) + bc_written st)
      in (offset, len - offset))"

definition new_write_buffer ::
  "('r, 'k) buffered_protocol \<Rightarrow> 'k buffered_consumer \<Rightarrow> (exc + view) \<times> 'k buffered_consumer"
where
  "new_write_buffer P st =
     (case ensure_buffer P st of
        (Some e, st1) \<Rightarrow> (Inl e, st1)
      | (None, st1) \<Rightarrow>
          (case ensure_consumer P st1 of
             (Some e, st2) \<Rightarrow> (Inl e, st2)
           | (None, st2) \<Rightarrow>
               if snd (write_view st2) = 0
               then (Inl (RuntimeError ''The start position is set to the end of the buffer''), st2)
               else (Inr (write_view st2), st2)))"

definition get_write_buffer ::
  "('r, 'k) buffered_protocol \<Rightarrow> 'k buffered_consumer \<Rightarrow> (exc + view) \<times> 'k buffered_consumer"
where
  "get_write_buffer P st =
     (case bc_view st of
        Some v \<Rightarrow> (Inr v, st)
      | None \<Rightarrow>
          (case new_write_buffer P st of
             (Inl e, st') \<Rightarrow> (Inl e, st')
           | (Inr v, st') \<Rightarrow> (Inr v, st'\<lparr>bc_view := Some v\<rparr>)))"

text \<open>Writing bytes at an offset of the buffer: \<^verbatim>\<open>view[:len(data)] = data\<close>.\<close>

definition write_at :: "nat \<Rightarrow> bytes \<Rightarrow> bytes \<Rightarrow> bytes" where
  "write_at offset data b = take offset b @ data @ drop (offset + length data) b"

definition fill_write_buffer :: "bytes \<Rightarrow> 'k buffered_consumer \<Rightarrow> 'k buffered_consumer" where
  "fill_write_buffer data st =
     (case bc_view st of
        None \<Rightarrow> st
      | Some (offset, _) \<Rightarrow> st\<lparr>bc_buffer := map_option (write_at offset data) (bc_buffer st)\<rparr>)"

definition save_remainder_in_buffer ::
  "('r, 'k) buffered_protocol \<Rightarrow> bytes \<Rightarrow> 'k buffered_consumer \<Rightarrow> exc option \<times> 'k buffered_consumer"
where
  "save_remainder_in_buffer P remaining st =
     (if remaining = [] then (None, st)
      else (case new_write_buffer P (st\<lparr>bc_buffer := None\<rparr>) of
              (Inl e, st') \<Rightarrow> (Some e, st')
            | (Inr (offset, len), st') \<Rightarrow>
                if length remaining > len
                then (Some (ValueError ''memoryview assignment: lvalue and rvalue have different structures''), st')
                else (None, st'\<lparr>bc_buffer := map_option (write_at offset remaining) (bc_buffer st'),
                                bc_written := bc_written st' + length remaining\<rparr>)))"

definition buffered_finish ::
  "('r, 'k) buffered_protocol \<Rightarrow> 'r next_result \<Rightarrow> bytes \<Rightarrow> 'k buffered_consumer
     \<Rightarrow> 'r next_result \<times> 'k buffered_consumer"
where
  "buffered_finish P res remaining st =
     (case save_remainder_in_buffer P remaining st of
        (Some e, st') \<Rightarrow> (Error e, st')
      | (None, st') \<Rightarrow> (res, st'))"

definition buffered_consumer_send ::
  "('r, 'k) buffered_protocol \<Rightarrow> 'k \<Rightarrow> nat \<Rightarrow> 'k buffered_consumer \<Rightarrow> 'r next_result \<times> 'k buffered_consumer"
where
  "buffered_consumer_send P k n st =
     (let st' = st\<lparr>bc_view := None, bc_consumer := None\<rparr> in
      case bp_build_send P k (buffer_contents st, n) of
        Return (packet, remaining) \<Rightarrow> buffered_finish P (Packet packet) remaining st'
      | Raise e \<Rightarrow>
          if is_StreamProtocolParseError e then buffered_finish P (Error e) (remaining_data e) st'
          else (Error (RuntimeError ''protocol.build_packet_from_buffer() crashed''), st'\<lparr>bc_buffer := None\<rparr>)
      | Yield y k' \<Rightarrow> (Stop, st'\<lparr>bc_start := position y, bc_consumer := Some k'\<rparr>))"

definition buffered_resume ::
  "('r, 'k) buffered_protocol \<Rightarrow> nat \<Rightarrow> 'k buffered_consumer \<Rightarrow> 'r next_result \<times> 'k buffered_consumer"
where
  "buffered_resume P nb_updated_bytes st =
     (case bc_consumer st of
        None \<Rightarrow> (Stop, st)
      | Some k \<Rightarrow>
          let n = nb_updated_bytes + bc_written st; st' = st\<lparr>bc_written := 0\<rparr> in
          if n = 0 then (Stop, st') else buffered_consumer_send P k n st')"

definition buffered_next ::
  "('r, 'k) buffered_protocol \<Rightarrow> 'k buffered_consumer \<Rightarrow> int option \<Rightarrow> 'r next_result \<times> 'k buffered_consumer"
where
  "buffered_next P st nb =
     (case nb of
        None \<Rightarrow> buffered_resume P 0 st
      | Some n \<Rightarrow>
          (case bc_view st of
             None \<Rightarrow>
               (Error (RuntimeError ''next() has been called whilst get_write_buffer() was never called''), st)
           | Some (_, len) \<Rightarrow>
               if \<not> (0 \<le> n \<and> n \<le> int len) then (Error (RuntimeError ''Invalid value given''), st)
               else buffered_resume P (nat n) st))"

definition buffered_get_value :: "'k buffered_consumer \<Rightarrow> bool \<Rightarrow> bytes option" where
  "buffered_get_value st full =
     (case bc_buffer st of
        None \<Rightarrow> None
      | Some b \<Rightarrow>
          if full then Some b
          else let nbytes = (if bc_start st < 0
                             then bc_start st + int (length b) + int (bc_written st)
                             else bc_start st + int (bc_written st))
               in Some (take (slice_start (length b) nbytes) b))"

definition buffered_buffer_size :: "'k buffered_consumer \<Rightarrow> nat" where
  "buffered_buffer_size st = (case bc_buffer st of None \<Rightarrow> 0 | Some b \<Rightarrow> length b)"

section \<open>Refinement\<close>

definition parser_protocol ::
  "(int \<Rightarrow> exc + created_buffer) \<Rightarrow> (bytes \<Rightarrow> ('r \<times> bytes, 'k) buffered_step)
     \<Rightarrow> ('k \<Rightarrow> bytes \<times> nat \<Rightarrow> ('r \<times> bytes, 'k) buffered_step) \<Rightarrow> ('r, 'k) buffered_protocol"
where
  "parser_protocol create bstart bsend =
     \<lparr>bp_create_buffer = create, bp_build_start = bstart, bp_build_send = bsend\<rparr>"

text \<open>\<^verbatim>\<open>BufferedStreamProtocol(serializer, converter)\<close>.\<close>

definition buffered_stream_protocol ::
  "('sp, 'rp, 'sd, 'rd) converter \<Rightarrow> (int \<Rightarrow> exc + created_buffer)
     \<Rightarrow> (bytes \<Rightarrow> ('rd \<times> bytes, 'k) buffered_step)
     \<Rightarrow> ('k \<Rightarrow> bytes \<times> nat \<Rightarrow> ('rd \<times> bytes, 'k) buffered_step) \<Rightarrow> ('rp, 'k) buffered_protocol"
where
  "buffered_stream_protocol conv create bstart bsend =
     parser_protocol create (\<lambda>b. build_packet_start conv (bstart b)) (build_packet_send conv bsend)"

abbreviation buffer_crashed :: string where
  "buffer_crashed \<equiv> ''protocol.build_packet_from_buffer() crashed''"

definition bc_pending ::
  "('k \<Rightarrow> nat) \<Rightarrow> ('k \<Rightarrow> bytes \<Rightarrow> bytes) \<Rightarrow> 'k buffered_consumer \<Rightarrow> bytes"
where
  "bc_pending pos received st =
     (case bc_consumer st of
        None \<Rightarrow> []
      | Some k \<Rightarrow> received k (buffer_contents st) @ take (bc_written st) (drop (pos k) (buffer_contents st)))"

definition bc_inv ::
  "(bytes \<Rightarrow> 'r verdict) \<Rightarrow> ('k \<Rightarrow> bytes \<Rightarrow> bool) \<Rightarrow> ('k \<Rightarrow> nat) \<Rightarrow> ('k \<Rightarrow> bytes \<Rightarrow> bytes) \<Rightarrow> int \<Rightarrow> nat
     \<Rightarrow> 'k buffered_consumer \<Rightarrow> bool"
where
  "bc_inv out wfb pos received hint cap st \<longleftrightarrow>
     bc_sizehint st = hint \<and>
     (case bc_buffer st of None \<Rightarrow> True | Some b \<Rightarrow> length b = cap) \<and>
     (case bc_consumer st of
        None \<Rightarrow> bc_written st = 0 \<and> bc_view st = None
      | Some k \<Rightarrow>
          bc_buffer st \<noteq> None \<and> wfb k (buffer_contents st) \<and> bc_start st = int (pos k) \<and>
          pos k + bc_written st \<le> cap \<and> out (received k (buffer_contents st)) = More \<and>
          (case bc_view st of
             None \<Rightarrow> True
           | Some v \<Rightarrow> v = (pos k + bc_written st, cap - (pos k + bc_written st)) \<and> pos k + bc_written st < cap))"

lemma length_write_at [simp]:
  "offset + length data \<le> length b \<Longrightarrow> length (write_at offset data b) = length b"
  by (simp add: write_at_def)

lemma take_write_at: "i \<le> offset \<Longrightarrow> offset \<le> length b \<Longrightarrow> take i (write_at offset data b) = take i b"
  by (simp add: write_at_def min_absorb1)

lemma take_drop_write_at:
  assumes "i \<le> offset" and "offset + length data \<le> length b"
  shows "take (offset - i + length data) (drop i (write_at offset data b)) = take (offset - i) (drop i b) @ data"
proof -
  have "drop i (write_at offset data b) = take (offset - i) (drop i b) @ data @ drop (offset + length data) b"
    using assms by (simp add: write_at_def drop_take)
  with assms show ?thesis by simp
qed

lemma slice_start_int [simp]: "slice_start len (int n) = min len n"
  by (simp add: slice_start_def)

lemma spec_next_append: "spec_next crash out pending c = spec_next crash out [] (pending @ c)"
  by (simp add: spec_next_def)

lemma spec_next_Stop_iff: "fst (spec_next crash out p c) = Stop \<longleftrightarrow> out (p @ c) = More"
  by (auto simp: spec_next_def spec_error_def Let_def split: verdict.split)

lemma bc_inv_init:
  "buffered_consumer_init hint = Inr st \<Longrightarrow>
     bc_inv out wfb pos received hint cap st \<and> bc_pending pos received st = []"
  by (auto simp: buffered_consumer_init_def bc_inv_def bc_pending_def split: if_splits)

context buffered_parser
begin

abbreviation "P \<equiv> parser_protocol create bstart bsend"
abbreviation "Inv \<equiv> bc_inv out wfb pos received hint cap"
abbreviation "Pending \<equiv> bc_pending pos received"

text \<open>A new buffer with a new generator.\<close>

lemma new_write_buffer_fresh:
  assumes "bc_buffer st = None" and "bc_consumer st = None" and "bc_sizehint st = hint"
    and "bc_written st = 0"
  shows "\<exists>b k. new_write_buffer P st =
      (Inr (0, cap), st\<lparr>bc_buffer := Some b, bc_start := 0, bc_consumer := Some k\<rparr>)
    \<and> length b = cap \<and> wfb k b \<and> pos k = 0 \<and> received k b = []"
proof -
  obtain cb where cb: "create hint = Inr cb" "\<not> cb_readonly cb" "length (cb_bytes cb) = cap"
    using create_ok by blast
  moreover obtain y k where "bstart (cb_bytes cb) = Yield y k" "position y = 0" "pos k = 0"
    "wfb k (cb_bytes cb)" "received k (cb_bytes cb) = []"
    using bstart_yields [OF cb(3)] by blast
  moreover have "cb_bytes cb \<noteq> []" using cb cap_pos by auto
  ultimately show ?thesis using assms cap_pos
    by (intro exI [of _ "cb_bytes cb"] exI [of _ k])
       (simp add: new_write_buffer_def ensure_buffer_def ensure_consumer_def validate_created_buffer_def
          parser_protocol_def write_view_def buffer_contents_def slice_start_def)
qed

lemma save_remainder_ok:
  assumes st: "bc_consumer st = None" "bc_view st = None" "bc_written st = 0" "bc_sizehint st = hint"
    "\<And>b. bc_buffer st = Some b \<Longrightarrow> length b = cap" and r: "length r \<le> cap"
  shows "\<exists>st'. save_remainder_in_buffer P r st = (None, st') \<and> Inv st' \<and> Pending st' = r"
proof (cases "r = []")
  case True
  with st show ?thesis
    by (auto simp: save_remainder_in_buffer_def bc_inv_def bc_pending_def split: option.splits)
next
  case False
  let ?st = "st\<lparr>bc_buffer := None\<rparr>"
  obtain b k where new: "new_write_buffer P ?st =
      (Inr (0, cap), ?st\<lparr>bc_buffer := Some b, bc_start := 0, bc_consumer := Some k\<rparr>)"
    and k: "length b = cap" "wfb k b" "pos k = 0" "received k b = []"
    using new_write_buffer_fresh [of ?st] st by auto
  have len: "length (write_at 0 r b) = length b" using r k by simp
  have wf: "wfb k (write_at 0 r b) \<and> received k (write_at 0 r b) = received k b"
    by (rule wf_cong [OF k(2) len]) (simp add: k)
  have "take (length r) (write_at 0 r b) = r" by (simp add: write_at_def)
  with new wf k len st r False out_nil show ?thesis
    by (simp add: save_remainder_in_buffer_def bc_inv_def bc_pending_def buffer_contents_def)
qed

text \<open>\<^verbatim>\<open>get_write_buffer\<close> gives a non-empty view behind everything received so far.\<close>

lemma get_write_buffer_ok:
  assumes inv: "Inv st" and room: "\<And>k. bc_consumer st = Some k \<Longrightarrow> pos k + bc_written st < cap"
  shows "\<exists>v st'. get_write_buffer P st = (Inr v, st') \<and> Inv st' \<and> bc_view st' = Some v
    \<and> Pending st' = Pending st \<and> 0 < snd v \<and> snd v \<le> cap"
proof (cases "bc_consumer st")
  case (Some k)
  with inv obtain b where b: "bc_buffer st = Some b" "length b = cap"
    by (auto simp: bc_inv_def split: option.splits)
  show ?thesis
  proof (cases "bc_view st")
    case None
    with Some inv b room [OF Some] show ?thesis
      by (auto simp: get_write_buffer_def new_write_buffer_def ensure_buffer_def ensure_consumer_def
          write_view_def buffer_contents_def bc_inv_def bc_pending_def Let_def)
  next
    case (Some v)
    with \<open>bc_consumer st = Some k\<close> inv b room show ?thesis
      by (auto simp: get_write_buffer_def bc_inv_def)
  qed
next
  case None
  with inv have v: "bc_view st = None" "bc_written st = 0" "bc_sizehint st = hint" by (auto simp: bc_inv_def)
  show ?thesis
  proof (cases "bc_buffer st")
    case b: None
    obtain b k where new: "new_write_buffer P st =
        (Inr (0, cap), st\<lparr>bc_buffer := Some b, bc_start := 0, bc_consumer := Some k\<rparr>)"
      and k: "length b = cap" "wfb k b" "pos k = 0" "received k b = []"
      using new_write_buffer_fresh [OF b None] v by auto
    with v None b cap_pos out_nil show ?thesis
      by (simp add: get_write_buffer_def bc_inv_def bc_pending_def buffer_contents_def)
  next
    case (Some b)
    with inv have b: "length b = cap" by (auto simp: bc_inv_def)
    obtain y k where "bstart b = Yield y k" "position y = 0" "pos k = 0" "wfb k b" "received k b = []"
      using bstart_yields [OF b] by blast
    with v None Some b cap_pos out_nil show ?thesis
      by (simp add: get_write_buffer_def bc_inv_def bc_pending_def buffer_contents_def new_write_buffer_def
          ensure_buffer_def ensure_consumer_def write_view_def parser_protocol_def slice_start_def)
  qed
qed

text \<open>Ending a call with a packet or a parse error.\<close>

lemma buffered_finish_ok:
  assumes "bc_consumer st = None" "bc_view st = None" "bc_written st = 0" "bc_sizehint st = hint"
    "\<And>b. bc_buffer st = Some b \<Longrightarrow> length b = cap" and "length r \<le> cap"
  shows "\<exists>st'. buffered_finish P res r st = (res, st') \<and> Inv st' \<and> Pending st' = r"
  using save_remainder_ok [OF assms] by (auto simp: buffered_finish_def)

lemma bad_is_parse_error: "\<forall>d e r. out d = Bad e r \<longrightarrow> (\<exists>e'. e = StreamProtocolParseError [] e') \<Longrightarrow>
    out d = Bad e r \<Longrightarrow> is_StreamProtocolParseError (with_remaining r e) \<and> remaining_data (with_remaining r e) = r"
  by fastforce

lemma buffered_consumer_send_refines:
  assumes st: "bc_buffer st = Some b" "length b = cap" "bc_written st = 0" "bc_sizehint st = hint"
    and k: "wfb k b" "0 < n" "pos k + n \<le> cap"
    and bad: "\<forall>d e r. out d = Bad e r \<longrightarrow> (\<exists>e'. e = StreamProtocolParseError [] e')"
    and ok: "\<not> fatal (out (received k b @ take n (drop (pos k) b)))"
  shows "\<exists>res st'. buffered_consumer_send P k n st = (res, st') \<and> Inv st'
    \<and> (res, Pending st') = spec_next buffer_crashed out (received k b) (take n (drop (pos k) b))
    \<and> (res = Stop \<longrightarrow> bc_written st' = 0)"
proof (cases "out (received k b @ take n (drop (pos k) b))")
  case More
  from bsend_more [OF k(1) st(2) k(2,3) More] obtain y k'
    where s: "bsend k (b, n) = Yield y k'" "position y = int (pos k')" "wfb k' b"
      "received k' b = received k b @ take n (drop (pos k) b)" by blast
  moreover have "pos k' < cap" using wf_space [OF s(3) st(2)] .
  ultimately show ?thesis using More st
    by (simp add: buffered_consumer_send_def parser_protocol_def spec_next_def bc_inv_def bc_pending_def
        buffer_contents_def)
next
  case (Done p r)
  from bsend_stop [OF k(1) st(2) k(2,3) Done] have "bsend k (b, n) = Return (p, r)" by simp
  moreover have "length r \<le> cap"
    using rest_fits [OF k(1) st(2) k(3), of p r] Done by blast
  ultimately show ?thesis
    using buffered_finish_ok [of "st\<lparr>bc_view := None, bc_consumer := None\<rparr>" r "Packet p"] Done st
    by (auto simp: buffered_consumer_send_def parser_protocol_def spec_next_def buffer_contents_def)
next
  case (Bad e r)
  from bsend_stop [OF k(1) st(2) k(2,3) Bad] have "bsend k (b, n) = Raise (with_remaining r e)" by simp
  moreover have "length r \<le> cap"
    using rest_fits [OF k(1) st(2) k(3), of _ r] Bad by blast
  moreover have "is_StreamProtocolParseError (with_remaining r e)" "remaining_data (with_remaining r e) = r"
    using bad_is_parse_error [OF bad Bad] by blast+
  ultimately show ?thesis
    using buffered_finish_ok [of "st\<lparr>bc_view := None, bc_consumer := None\<rparr>" r "Error (with_remaining r e)"] Bad st
    by (auto simp: buffered_consumer_send_def parser_protocol_def spec_next_def spec_error_def buffer_contents_def)
qed (use ok in simp_all)

text \<open>
  \<^verbatim>\<open>next\<close>: after the transport has written \<open>c\<close> into the exported view, or with nothing new.
  The consumer does what the abstract machine does with the same bytes.
\<close>

lemma buffered_resume_refines:
  assumes st: "Inv st" "bc_consumer st = Some k" "bc_buffer st = Some b" "pos k + (n + bc_written st) \<le> cap"
    and bad: "\<forall>d e r. out d = Bad e r \<longrightarrow> (\<exists>e'. e = StreamProtocolParseError [] e')"
    and ok: "\<not> fatal (out (received k b @ take (n + bc_written st) (drop (pos k) b)))"
  shows "\<exists>res st'. buffered_resume P n st = (res, st') \<and> Inv st'
    \<and> (res, Pending st') =
        spec_next buffer_crashed out (received k b) (take (n + bc_written st) (drop (pos k) b))
    \<and> (res = Stop \<longrightarrow> bc_written st' = 0)"
proof (cases "n + bc_written st = 0")
  case True
  then have "st\<lparr>bc_written := 0\<rparr> = st" by (cases st) simp
  with True st(2) have "buffered_resume P n st = (Stop, st)" by (simp add: buffered_resume_def)
  moreover have "out (received k b) = More" using st by (auto simp: bc_inv_def buffer_contents_def)
  ultimately show ?thesis using st True
    by (simp add: spec_next_def bc_pending_def buffer_contents_def)
next
  case False
  from st have "wfb k b" "length b = cap" "bc_sizehint st = hint"
    by (auto simp: bc_inv_def buffer_contents_def)
  with buffered_consumer_send_refines [of "st\<lparr>bc_written := 0\<rparr>" b k "n + bc_written st"] st False bad ok
  have "\<exists>res st'. buffered_consumer_send P k (n + bc_written st) (st\<lparr>bc_written := 0\<rparr>) = (res, st') \<and> Inv st'
    \<and> (res, Pending st') =
        spec_next buffer_crashed out (received k b) (take (n + bc_written st) (drop (pos k) b))
    \<and> (res = Stop \<longrightarrow> bc_written st' = 0)" by simp
  moreover have "buffered_resume P n st = buffered_consumer_send P k (n + bc_written st) (st\<lparr>bc_written := 0\<rparr>)"
    using False st(2) by (auto simp: buffered_resume_def Let_def)
  ultimately show ?thesis by simp
qed

lemma buffered_next_none_refines:
  assumes inv: "Inv st"
    and bad: "\<forall>d e r. out d = Bad e r \<longrightarrow> (\<exists>e'. e = StreamProtocolParseError [] e')"
    and ok: "\<not> fatal (out (Pending st))"
  shows "\<exists>res st'. buffered_next P st None = (res, st') \<and> Inv st'
    \<and> (res, Pending st') = spec_next buffer_crashed out (Pending st) []
    \<and> (res = Stop \<longrightarrow> bc_written st' = 0)"
proof (cases "bc_consumer st")
  case None
  with inv show ?thesis
    by (auto simp: buffered_next_def buffered_resume_def bc_pending_def spec_next_def out_nil bc_inv_def)
next
  case (Some k)
  with inv obtain b where b: "bc_buffer st = Some b" "pos k + bc_written st \<le> cap"
    by (auto simp: bc_inv_def split: option.splits)
  have "Pending st = received k b @ take (bc_written st) (drop (pos k) b)"
    using Some b by (simp add: bc_pending_def buffer_contents_def)
  with buffered_resume_refines [OF inv Some b(1), of 0] b bad ok
    spec_next_append [of buffer_crashed out "received k b"]
  show ?thesis by (simp add: buffered_next_def spec_next_append [of _ _ "received k b @ _"])
qed

lemma buffered_next_refines:
  assumes inv: "Inv st" and view: "bc_view st = Some (offset, len)" and c: "length c \<le> len"
    and bad: "\<forall>d e r. out d = Bad e r \<longrightarrow> (\<exists>e'. e = StreamProtocolParseError [] e')"
    and ok: "\<not> fatal (out (Pending st @ c))"
  shows "\<exists>res st'. buffered_next P (fill_write_buffer c st) (Some (int (length c))) = (res, st') \<and> Inv st'
    \<and> (res, Pending st') = spec_next buffer_crashed out (Pending st) c
    \<and> (res = Stop \<longrightarrow> bc_written st' = 0)"
proof -
  from inv view obtain k b where k: "bc_consumer st = Some k" and b: "bc_buffer st = Some b"
    by (auto simp: bc_inv_def split: option.splits)
  from inv view k b have wf: "wfb k b" "length b = cap" "bc_start st = int (pos k)" "out (received k b) = More"
    and off: "offset = pos k + bc_written st" "len = cap - offset" "offset < cap" "bc_sizehint st = hint"
    by (auto simp: bc_inv_def buffer_contents_def)
  let ?b = "write_at offset c b" and ?st = "fill_write_buffer c st"
  have len: "length ?b = length b" using c off wf(2) by (intro length_write_at) simp
  have "take (pos k) ?b = take (pos k) b" using off wf(2) by (intro take_write_at) simp_all
  with wf_cong [OF wf(1) len] have wfb: "wfb k ?b" "received k ?b = received k b" by auto
  have st: "?st = st\<lparr>bc_buffer := Some ?b\<rparr>"
    using view b by (simp add: fill_write_buffer_def)
  have inv': "Inv ?st"
    using inv k view off wf len wfb unfolding st by (auto simp: bc_inv_def buffer_contents_def)
  have "offset - pos k + length c = length c + bc_written st" using off by simp
  moreover have "pos k \<le> offset" "offset + length c \<le> length b" using off wf(2) c by simp_all
  ultimately have "take (length c + bc_written st) (drop (pos k) ?b) = take (offset - pos k) (drop (pos k) b) @ c"
    using take_drop_write_at [of "pos k" offset c b] by simp
  then have data: "take (length c + bc_written st) (drop (pos k) ?b) = take (bc_written st) (drop (pos k) b) @ c"
    using off by simp
  have pend: "Pending st = received k b @ take (bc_written st) (drop (pos k) b)"
    using k b by (simp add: bc_pending_def buffer_contents_def)
  have "pos k + (length c + bc_written ?st) \<le> cap" using off c by (simp add: st)
  moreover have "bc_consumer ?st = Some k" "bc_buffer ?st = Some ?b" "bc_written ?st = bc_written st"
    using k by (simp_all add: st)
  ultimately have "\<exists>res st'. buffered_resume P (length c) ?st = (res, st') \<and> Inv st'
    \<and> (res, Pending st') = spec_next buffer_crashed out (received k b) (take (bc_written st) (drop (pos k) b) @ c)
    \<and> (res = Stop \<longrightarrow> bc_written st' = 0)"
    using buffered_resume_refines [OF inv', of k ?b "length c"] bad ok data wfb pend by simp
  moreover have "buffered_next P ?st (Some (int (length c))) = buffered_resume P (length c) ?st"
    using view c by (simp add: buffered_next_def st)
  ultimately show ?thesis
    using spec_next_append [of buffer_crashed out "received k b"]
      spec_next_append [of buffer_crashed out "received k b @ take (bc_written st) (drop (pos k) b)" c]
    by (simp add: pend)
qed

end

end
