(* ===== verification/Timeouts.thy ===== *)
theory Timeouts
  imports Exceptions
begin

text \<open>
  Time limits, after \<^verbatim>\<open>src/src/easynetwork/lowlevel/_utils.py\<close>.

  A duration is a number of clock ticks or infinite (\<^verbatim>\<open>math.inf\<close>); what the program does with the
  \<^verbatim>\<open>float\<close> values is comparing and subtracting them.  A raw argument may also be a NaN, which
  \<^verbatim>\<open>validate_timeout_delay\<close> refuses.
\<close>

datatype delay = Finite int | Infinity

instantiation delay :: linorder
begin

fun less_eq_delay :: "delay \<Rightarrow> delay \<Rightarrow> bool" where
  "less_eq_delay (Finite i) (Finite j) \<longleftrightarrow> i \<le> j"
| "less_eq_delay _ Infinity \<longleftrightarrow> True"
| "less_eq_delay Infinity (Finite _) \<longleftrightarrow> False"

definition less_delay :: "delay \<Rightarrow> delay \<Rightarrow> bool" where
  "less_delay x y \<longleftrightarrow> x \<le> y \<and> \<not> y \<le> x"

instance
proof
  fix x y z :: delay
  show "(x < y) = (x \<le> y \<and> \<not> y \<le> x)" by (rule less_delay_def)
  show "x \<le> x" by (cases x) auto
  show "x \<le> y \<Longrightarrow> y \<le> z \<Longrightarrow> x \<le> z" by (cases x; cases y; cases z) auto
  show "x \<le> y \<Longrightarrow> y \<le> x \<Longrightarrow> x = y" by (cases x; cases y) auto
  show "x \<le> y \<or> y \<le> x" by (cases x; cases y) auto
qed

end

lemma Finite_less_iff [simp]: "Finite i < Finite j \<longleftrightarrow> i < j"
  "Finite i < Infinity" "\<not> Infinity < x"
  by (auto simp: less_delay_def)

datatype raw_delay = NaN | Delay delay

definition validate_timeout_delay :: "raw_delay \<Rightarrow> bool \<Rightarrow> exc + delay" where
  "validate_timeout_delay raw positive_check =
     (case raw of
        NaN \<Rightarrow> Inl (ValueError ''Invalid delay: NaN (not a number)'')
      | Delay d \<Rightarrow>
          if positive_check \<and> d < Finite 0 then Inl (ValueError ''Invalid delay: negative value'') else Inr d)"

definition validate_optional_timeout_delay :: "raw_delay option \<Rightarrow> bool \<Rightarrow> exc + delay" where
  "validate_optional_timeout_delay raw positive_check =
     (case raw of None \<Rightarrow> Inr Infinity | Some d \<Rightarrow> validate_timeout_delay d positive_check)"

text \<open>\<^verbatim>\<open>error_from_errno\<close>: the message is that of the errno.\<close>

definition error_from_errno :: "string \<Rightarrow> exc" where
  "error_from_errno errno = OSError errno ''''"

section \<open>ElapsedTime\<close>

record elapsed_time =
  et_start :: "int option"
  et_end :: "int option"

definition elapsed_init :: elapsed_time where
  "elapsed_init = \<lparr>et_start = None, et_end = None\<rparr>"

definition elapsed_enter :: "int \<Rightarrow> elapsed_time \<Rightarrow> exc + elapsed_time" where
  "elapsed_enter now t =
     (if et_start t \<noteq> None then Inl (RuntimeError ''Already entered'') else Inr (t\<lparr>et_start := Some now\<rparr>))"

definition elapsed_exit :: "int \<Rightarrow> elapsed_time \<Rightarrow> exc + elapsed_time" where
  "elapsed_exit now t =
     (if et_end t \<noteq> None then Inl (RuntimeError ''Already exited'') else Inr (t\<lparr>et_end := Some now\<rparr>))"

definition get_elapsed :: "elapsed_time \<Rightarrow> exc + int" where
  "get_elapsed t =
     (case et_start t of
        None \<Rightarrow> Inl (RuntimeError ''Not entered'')
      | Some start \<Rightarrow>
          (case et_end t of
             None \<Rightarrow> Inl (RuntimeError ''Within context'')
           | Some stop \<Rightarrow> Inr (stop - start)))"

text \<open>\<^verbatim>\<open>recompute_timeout\<close>, given the elapsed time.\<close>

fun reduce_delay :: "delay \<Rightarrow> int \<Rightarrow> delay" where
  "reduce_delay Infinity elapsed = Infinity"
| "reduce_delay (Finite i) elapsed = (let new = i - elapsed in Finite (if new < 0 then 0 else new))"

definition recompute_timeout :: "elapsed_time \<Rightarrow> delay \<Rightarrow> exc + delay" where
  "recompute_timeout t old = result_bind (get_elapsed t) (\<lambda>elapsed. Inr (reduce_delay old elapsed))"

text \<open>
  The code only uses the object as \<^verbatim>\<open>with ElapsedTime() as elapsed: ...\<close> followed by
  \<^verbatim>\<open>elapsed.recompute_timeout(timeout)\<close>; there it reduces the timeout by the difference of the two clock readings.
\<close>

lemma recompute_timeout_with:
  "result_bind (elapsed_enter start elapsed_init)
     (\<lambda>t. result_bind (elapsed_exit stop t) (\<lambda>t'. recompute_timeout t' old)) = Inr (reduce_delay old (stop - start))"
  by (simp add: elapsed_enter_def elapsed_exit_def elapsed_init_def recompute_timeout_def get_elapsed_def)

lemma reduce_delay_bounds:
  assumes "0 \<le> elapsed" and "Finite 0 \<le> t"
  shows "Finite 0 \<le> reduce_delay t elapsed" and "reduce_delay t elapsed \<le> t"
  using assms by (cases t; simp add: Let_def)+

section \<open>lock\_with\_timeout\<close>

text \<open>
  \<open>try_acquire\<close> stands for \<^verbatim>\<open>lock.acquire(blocking=False)\<close>, \<open>acquire\<close> for the blocking call with a
  timeout; both act on the state of the world, whose clock is read by \<open>clock\<close>.
\<close>

definition lock_enter ::
  "('w \<Rightarrow> int) \<Rightarrow> ('w \<Rightarrow> bool \<times> 'w) \<Rightarrow> (delay \<Rightarrow> 'w \<Rightarrow> bool \<times> 'w) \<Rightarrow> delay \<Rightarrow> 'w \<Rightarrow> (exc + delay) \<times> 'w"
where
  "lock_enter clock try_acquire acquire timeout w =
     (if timeout = Infinity then (Inr timeout, snd (acquire Infinity w))
      else (case try_acquire w of
              (True, w1) \<Rightarrow> (Inr timeout, w1)
            | (False, w1) \<Rightarrow>
                if timeout = Finite 0 then (Inl (error_from_errno ''ETIMEDOUT''), w1)
                else (case acquire timeout w1 of
                        (False, w2) \<Rightarrow> (Inl (error_from_errno ''ETIMEDOUT''), w2)
                      | (True, w2) \<Rightarrow> (Inr (reduce_delay timeout (clock w2 - clock w1)), w2))))"

section \<open>ResourceGuard and Flag\<close>

record resource_guard =
  rg_held :: bool
  rg_msg :: string

definition guard_enter :: "resource_guard \<Rightarrow> exc + resource_guard" where
  "guard_enter g = (if rg_held g then Inl (BusyResourceError (rg_msg g)) else Inr (g\<lparr>rg_held := True\<rparr>))"

definition guard_exit :: "resource_guard \<Rightarrow> exc + resource_guard" where
  "guard_exit g =
     (if \<not> rg_held g then Inl (AssertionError ''ResourceGuard released too many times'')
      else Inr (g\<lparr>rg_held := False\<rparr>))"

text \<open>\<^verbatim>\<open>with guard: body\<close>, for a body that runs while other tasks may enter the same guard.\<close>

definition with_guard ::
  "resource_guard \<Rightarrow> (resource_guard \<Rightarrow> (exc + 'a) \<times> resource_guard) \<Rightarrow> (exc + 'a) \<times> resource_guard"
where
  "with_guard g body =
     (case guard_enter g of
        Inl e \<Rightarrow> (Inl e, g)
      | Inr g1 \<Rightarrow>
          (case body g1 of
             (r, g2) \<Rightarrow>
               (case guard_exit g2 of
                  Inl e \<Rightarrow> (Inl e, g2)
                | Inr g3 \<Rightarrow> (r, g3))))"

text \<open>A nested use fails with \<^verbatim>\<open>BusyResourceError\<close> and leaves the outer use intact.\<close>

lemma with_guard_nested:
  assumes "\<not> rg_held g"
  shows "with_guard g (\<lambda>g1. with_guard g1 body) = (Inl (BusyResourceError (rg_msg g)), g)"
  using assms by (simp add: with_guard_def guard_enter_def guard_exit_def)

end
