(* ===== verification/SyncTransport.thy ===== *)
theory SyncTransport
  imports Timeouts
begin

text \<open>
  Blocking transports: \<^verbatim>\<open>src/src/easynetwork/lowlevel/api_sync/transports/\<close> \<^verbatim>\<open>abc.py\<close>,
  \<^verbatim>\<open>base_selector.py\<close> and the stream transport of \<^verbatim>\<open>socket.py\<close>.

  The operating system is a parameter: a record of functions on a state \<open>'w\<close> of the world
  (sockets, peer, clock).  A loop that may never end takes a number of passes as fuel and returns
  \<open>None\<close> when it needs more.
\<close>

section \<open>The operating system\<close>

datatype event = EventRead | EventWrite

text \<open>The result of a socket call: \<open>Blocking\<close> is \<^verbatim>\<open>BlockingIOError\<close> or \<^verbatim>\<open>InterruptedError\<close>.\<close>

datatype 'a os_result = Ok 'a | Blocking | OsFail exc

record 'w os =
  os_clock :: "'w \<Rightarrow> int"
  os_fileno :: "'w \<Rightarrow> int"
  os_select :: "event \<Rightarrow> delay \<Rightarrow> 'w \<Rightarrow> (exc + bool) \<times> 'w"
  os_recv :: "nat \<Rightarrow> 'w \<Rightarrow> bytes os_result \<times> 'w"
  os_send :: "bytes \<Rightarrow> 'w \<Rightarrow> nat os_result \<times> 'w"
  os_sendmsg :: "bytes list \<Rightarrow> 'w \<Rightarrow> nat os_result \<times> 'w"
  os_shutdown_write :: "'w \<Rightarrow> unit os_result \<times> 'w"

section \<open>SelectorBaseTransport.\_retry\<close>

datatype 'a attempt = Got 'a | WouldBlockOnRead | WouldBlockOnWrite | Failed exc

definition selector_init :: "raw_delay \<Rightarrow> exc + delay" where
  "selector_init retry_interval =
     result_bind (validate_timeout_delay retry_interval False)
       (\<lambda>d. if d \<le> Finite 0 then Inl (ValueError ''retry_interval must be a strictly positive float'') else Inr d)"

text \<open>
  The wait after a blocking attempt: \<open>Inr t\<close> is the timeout with which the loop goes on.
\<close>

definition retry_wait ::
  "'w os \<Rightarrow> delay \<Rightarrow> event \<Rightarrow> delay \<Rightarrow> 'w \<Rightarrow> (exc + delay) \<times> 'w"
where
  "retry_wait os retry_interval event timeout w =
     (if timeout \<le> Finite 0 then (Inl (error_from_errno ''ETIMEDOUT''), w)
      else
        let is_retry_interval = \<not> timeout \<le> retry_interval;
            wait_time = (if is_retry_interval then retry_interval else timeout) in
        if os_fileno os w < 0 then (Inl (error_from_errno ''EBADF''), w)
        else (case os_select os event wait_time w of
                (Inl e, w') \<Rightarrow> (Inl e, w')
              | (Inr available, w') \<Rightarrow>
                  if wait_time = Infinity
                  then (if available then Inr timeout
                        else Inl (RuntimeError ''timeout error with infinite timeout''), w')
                  else let timeout' = reduce_delay timeout (os_clock os w' - os_clock os w) in
                    (if \<not> available \<and> \<not> is_retry_interval then Inl (error_from_errno ''ETIMEDOUT'')
                     else Inr timeout', w')))"

fun retry_loop ::
  "nat \<Rightarrow> 'w os \<Rightarrow> delay \<Rightarrow> ('w \<Rightarrow> 'a attempt \<times> 'w) \<Rightarrow> delay \<Rightarrow> 'w \<Rightarrow> ((exc + 'a \<times> delay) \<times> 'w) option"
where
  "retry_loop 0 os retry_interval callback timeout w = None"
| "retry_loop (Suc fuel) os retry_interval callback timeout w =
     (case callback w of
        (Got r, w1) \<Rightarrow> Some (Inr (r, timeout), w1)
      | (Failed e, w1) \<Rightarrow> Some (Inl e, w1)
      | (WouldBlockOnRead, w1) \<Rightarrow>
          (case retry_wait os retry_interval EventRead timeout w1 of
             (Inl e, w2) \<Rightarrow> Some (Inl e, w2)
           | (Inr timeout', w2) \<Rightarrow> retry_loop fuel os retry_interval callback timeout' w2)
      | (WouldBlockOnWrite, w1) \<Rightarrow>
          (case retry_wait os retry_interval EventWrite timeout w1 of
             (Inl e, w2) \<Rightarrow> Some (Inl e, w2)
           | (Inr timeout', w2) \<Rightarrow> retry_loop fuel os retry_interval callback timeout' w2))"

definition retry ::
  "nat \<Rightarrow> 'w os \<Rightarrow> delay \<Rightarrow> ('w \<Rightarrow> 'a attempt \<times> 'w) \<Rightarrow> raw_delay \<Rightarrow> 'w \<Rightarrow> ((exc + 'a \<times> delay) \<times> 'w) option"
where
  "retry fuel os retry_interval callback timeout w =
     (case validate_timeout_delay timeout True of
        Inl e \<Rightarrow> Some (Inl e, w)
      | Inr t \<Rightarrow> retry_loop fuel os retry_interval callback t w)"

text \<open>\<^verbatim>\<open>self._retry(...)[0]\<close>, the body of the blocking operations.\<close>

definition retry_value :: "((exc + 'a \<times> delay) \<times> 'w) option \<Rightarrow> ((exc + 'a) \<times> 'w) option" where
  "retry_value r =
     (case r of
        None \<Rightarrow> None
      | Some (Inl e, w) \<Rightarrow> Some (Inl e, w)
      | Some (Inr (x, _), w) \<Rightarrow> Some (Inr x, w))"

section \<open>SocketStreamTransport\<close>

fun read_attempt :: "'a os_result \<Rightarrow> 'a attempt" where
  "read_attempt (Ok x) = Got x"
| "read_attempt Blocking = WouldBlockOnRead"
| "read_attempt (OsFail e) = Failed e"

fun write_attempt :: "'a os_result \<Rightarrow> 'a attempt" where
  "write_attempt (Ok x) = Got x"
| "write_attempt Blocking = WouldBlockOnWrite"
| "write_attempt (OsFail e) = Failed e"

definition socket_recv_noblock :: "'w os \<Rightarrow> nat \<Rightarrow> 'w \<Rightarrow> bytes attempt \<times> 'w" where
  "socket_recv_noblock os bufsize w = (case os_recv os bufsize w of (r, w') \<Rightarrow> (read_attempt r, w'))"

definition socket_send_noblock :: "'w os \<Rightarrow> bytes \<Rightarrow> 'w \<Rightarrow> nat attempt \<times> 'w" where
  "socket_send_noblock os data w = (case os_send os data w of (r, w') \<Rightarrow> (write_attempt r, w'))"

definition selector_recv ::
  "nat \<Rightarrow> 'w os \<Rightarrow> delay \<Rightarrow> nat \<Rightarrow> raw_delay \<Rightarrow> 'w \<Rightarrow> ((exc + bytes) \<times> 'w) option"
where
  "selector_recv fuel os interval bufsize timeout w =
     retry_value (retry fuel os interval (socket_recv_noblock os bufsize) timeout w)"

definition selector_send ::
  "nat \<Rightarrow> 'w os \<Rightarrow> delay \<Rightarrow> bytes \<Rightarrow> raw_delay \<Rightarrow> 'w \<Rightarrow> ((exc + nat) \<times> 'w) option"
where
  "selector_send fuel os interval data timeout w =
     retry_value (retry fuel os interval (socket_send_noblock os data) timeout w)"

definition socket_send_eof :: "'w os \<Rightarrow> 'w \<Rightarrow> exc option \<times> 'w" where
  "socket_send_eof os w =
     (if os_fileno os w < 0 then (None, w)
      else (case os_shutdown_write os w of
              (Ok _, w') \<Rightarrow> (None, w')
            | (Blocking, w') \<Rightarrow> (Some (OSError ''EAGAIN'' ''''), w')
            | (OsFail (OSError errno msg), w') \<Rightarrow>
                if errno \<in> {''ENOTCONN'', ''EINVAL'', ''ENOTSOCK'', ''EBADF''} then (None, w') else (Some (OSError errno msg), w')
            | (OsFail e, w') \<Rightarrow> (Some e, w')))"

section \<open>StreamWriteTransport.send\_all\<close>

text \<open>\<open>send\<close> is the transport's own \<^verbatim>\<open>send\<close>; it may return any integer.\<close>

fun send_all_loop ::
  "nat \<Rightarrow> ('w \<Rightarrow> int) \<Rightarrow> (bytes \<Rightarrow> delay \<Rightarrow> 'w \<Rightarrow> (exc + int) \<times> 'w) \<Rightarrow> bytes \<Rightarrow> nat \<Rightarrow> delay \<Rightarrow> 'w
     \<Rightarrow> (exc option \<times> 'w) option"
where
  "send_all_loop 0 clock send data total_sent timeout w = None"
| "send_all_loop (Suc fuel) clock send data total_sent timeout w =
     (if \<not> total_sent < length data then Some (None, w)
      else (case send (drop total_sent data) timeout w of
              (Inl e, w') \<Rightarrow> Some (Some e, w')
            | (Inr sent, w') \<Rightarrow>
                if sent < 0 then Some (Some (RuntimeError ''transport.send() returned a negative value''), w')
                else send_all_loop fuel clock send data (total_sent + nat sent)
                       (reduce_delay timeout (clock w' - clock w)) w'))"

definition send_all ::
  "nat \<Rightarrow> ('w \<Rightarrow> int) \<Rightarrow> (bytes \<Rightarrow> delay \<Rightarrow> 'w \<Rightarrow> (exc + int) \<times> 'w) \<Rightarrow> bytes \<Rightarrow> delay \<Rightarrow> 'w
     \<Rightarrow> (exc option \<times> 'w) option"
where
  "send_all fuel clock send data timeout w =
     (if data = []
      then (case send [] timeout w of
              (Inl e, w') \<Rightarrow> Some (Some e, w')
            | (Inr sent, w') \<Rightarrow>
                Some (if sent < 0 then Some (RuntimeError ''transport.send() returned a negative value'') else None, w'))
      else send_all_loop fuel clock send data 0 timeout w)"

text \<open>
  The default \<^verbatim>\<open>send_all_from_iterable\<close>.  The iterable is a generator: it gives its chunks and may end with an exception,
  which leaves the method before anything is sent.
\<close>

definition send_all_from_iterable ::
  "nat \<Rightarrow> ('w \<Rightarrow> int) \<Rightarrow> (bytes \<Rightarrow> delay \<Rightarrow> 'w \<Rightarrow> (exc + int) \<times> 'w) \<Rightarrow> bytes list \<times> exc option \<Rightarrow> delay \<Rightarrow> 'w
     \<Rightarrow> (exc option \<times> 'w) option"
where
  "send_all_from_iterable fuel clock send iterable timeout w =
     (case iterable of
        (_, Some e) \<Rightarrow> Some (Some e, w)
      | (cs, None) \<Rightarrow> send_all fuel clock send (concat cs) timeout w)"

section \<open>Scatter/gather sending\<close>

text \<open>\<^verbatim>\<open>adjust_leftover_buffer\<close>; popping from an empty deque raises.\<close>

fun adjust_leftover_buffer :: "bytes list \<Rightarrow> nat \<Rightarrow> exc + bytes list" where
  "adjust_leftover_buffer [] nbytes = (if nbytes = 0 then Inr [] else Inl (OtherError ''IndexError''))"
| "adjust_leftover_buffer (b # bs) nbytes =
     (if nbytes = 0 then Inr (b # bs)
      else if length b \<le> nbytes then adjust_leftover_buffer bs (nbytes - length b)
      else Inr (drop nbytes b # bs))"

text \<open>\<open>iov_max\<close> is \<^verbatim>\<open>constants.SC_IOV_MAX\<close>, a positive number when this method is defined at all.\<close>

definition try_sendmsg :: "'w os \<Rightarrow> nat \<Rightarrow> bytes list \<Rightarrow> 'w \<Rightarrow> nat attempt \<times> 'w" where
  "try_sendmsg os iov_max buffers w =
     (case os_sendmsg os (take iov_max buffers) w of (r, w') \<Rightarrow> (write_attempt r, w'))"

fun sendmsg_loop ::
  "nat \<Rightarrow> 'w os \<Rightarrow> delay \<Rightarrow> nat \<Rightarrow> bytes list \<Rightarrow> delay \<Rightarrow> 'w \<Rightarrow> (exc option \<times> 'w) option"
where
  "sendmsg_loop 0 os interval iov_max buffers timeout w = None"
| "sendmsg_loop (Suc fuel) os interval iov_max buffers timeout w =
     (case retry (Suc fuel) os interval (try_sendmsg os iov_max buffers) (Delay timeout) w of
        None \<Rightarrow> None
      | Some (Inl e, w') \<Rightarrow> Some (Some e, w')
      | Some (Inr (sent, timeout'), w') \<Rightarrow>
          (case adjust_leftover_buffer buffers sent of
             Inl e \<Rightarrow> Some (Some e, w')
           | Inr buffers' \<Rightarrow>
               if buffers' = [] then Some (None, w')
               else sendmsg_loop fuel os interval iov_max buffers' timeout' w'))"

definition socket_send_all_from_iterable ::
  "nat \<Rightarrow> 'w os \<Rightarrow> delay \<Rightarrow> nat \<Rightarrow> bytes list \<times> exc option \<Rightarrow> delay \<Rightarrow> 'w \<Rightarrow> (exc option \<times> 'w) option"
where
  "socket_send_all_from_iterable fuel os interval iov_max iterable timeout w =
     (case iterable of
        (_, Some e) \<Rightarrow> Some (Some e, w)
      | (cs, None) \<Rightarrow> sendmsg_loop fuel os interval iov_max cs timeout w)"

section \<open>Facts about retrying\<close>

text \<open>What the blocking attempts and the waits keep, the attempt that ends the loop starts from.\<close>

lemma retry_wait_state:
  assumes "retry_wait os interval ev t w = (r, w')"
  shows "w' = w \<or> (\<exists>wait. w' = snd (os_select os ev wait w))"
  using assms by (auto simp: retry_wait_def Let_def split: if_splits prod.splits sum.splits) (metis snd_conv)+

lemma retry_loop_inv:
  assumes "J w"
    and block: "\<And>w a w'. J w \<Longrightarrow> callback w = (a, w') \<Longrightarrow> a \<in> {WouldBlockOnRead, WouldBlockOnWrite} \<Longrightarrow> J w'"
    and select: "\<And>ev d w. J w \<Longrightarrow> J (snd (os_select os ev d w))"
    and "retry_loop fuel os interval callback t w = Some (res, w')"
  shows "case res of
      Inr (r, t') \<Rightarrow> \<exists>w1. J w1 \<and> callback w1 = (Got r, w')
    | Inl e \<Rightarrow> J w' \<or> (\<exists>w1. J w1 \<and> callback w1 = (Failed e, w'))"
  using assms(1,4)
proof (induction fuel arbitrary: t w)
  case (Suc fuel)
  obtain a w1 where cb: "callback w = (a, w1)" by (cases "callback w")
  show ?case
  proof (cases a)
    case (Got r)
    with Suc.prems cb show ?thesis by auto
  next
    case (Failed e)
    with Suc.prems cb show ?thesis by auto
  next
    case WouldBlockOnRead
    with block [OF Suc.prems(1) cb] have "J w1" by simp
    obtain o2 w2 where wait: "retry_wait os interval EventRead t w1 = (o2, w2)"
      by (cases "retry_wait os interval EventRead t w1")
    from retry_wait_state [OF this] \<open>J w1\<close> select have "J w2" by blast
    with Suc WouldBlockOnRead cb wait show ?thesis by (cases o2) auto
  next
    case WouldBlockOnWrite
    with block [OF Suc.prems(1) cb] have "J w1" by simp
    obtain o2 w2 where wait: "retry_wait os interval EventWrite t w1 = (o2, w2)"
      by (cases "retry_wait os interval EventWrite t w1")
    from retry_wait_state [OF this] \<open>J w1\<close> select have "J w2" by blast
    with Suc WouldBlockOnWrite cb wait show ?thesis by (cases o2) auto
  qed
qed simp

lemma retry_inv:
  assumes "J w"
    and "\<And>w a w'. J w \<Longrightarrow> callback w = (a, w') \<Longrightarrow> a \<in> {WouldBlockOnRead, WouldBlockOnWrite} \<Longrightarrow> J w'"
    and "\<And>ev d w. J w \<Longrightarrow> J (snd (os_select os ev d w))"
    and "retry fuel os interval callback t w = Some (res, w')"
  shows "case res of
      Inr (r, t') \<Rightarrow> \<exists>w1. J w1 \<and> callback w1 = (Got r, w')
    | Inl e \<Rightarrow> J w' \<or> (\<exists>w1. J w1 \<and> callback w1 = (Failed e, w'))"
proof (cases "validate_timeout_delay t True")
  case (Inl e)
  with assms(1,4) show ?thesis by (auto simp: retry_def)
next
  case (Inr d)
  with assms(4) have "retry_loop fuel os interval callback d w = Some (res, w')" by (simp add: retry_def)
  with assms(1-3) show ?thesis by (rule retry_loop_inv)
qed

text \<open>
  Time.  A selector that waits measures at least one tick, and all of the wait time when nothing
  happened; the callback does not turn the clock back.
\<close>

definition timely :: "'w os \<Rightarrow> bool" where
  "timely os \<longleftrightarrow> (\<forall>ev wait w r w'. os_select os ev (Finite wait) w = (r, w') \<longrightarrow>
     os_clock os w + 1 \<le> os_clock os w' \<and> (r = Inr False \<longrightarrow> os_clock os w + wait \<le> os_clock os w'))"

definition steady :: "'w os \<Rightarrow> ('w \<Rightarrow> 'a attempt \<times> 'w) \<Rightarrow> bool" where
  "steady os callback \<longleftrightarrow> (\<forall>w. os_clock os w \<le> os_clock os (snd (callback w)))"

lemma retry_wait_time:
  assumes timely: "timely os" and interval: "Finite 0 < interval" and t: "0 \<le> i"
    and wait: "retry_wait os interval ev (Finite i) w = (r, w')"
  shows "os_clock os w \<le> os_clock os w'"
    and "r = Inr t' \<Longrightarrow> \<exists>j. t' = Finite j \<and> 0 \<le> j \<and> 0 < i \<and> os_clock os w + 1 \<le> os_clock os w' \<and>
           j = max 0 (i - (os_clock os w' - os_clock os w))"
    and "r = Inl e \<Longrightarrow> 0 \<le> os_fileno os w \<Longrightarrow> (\<And>d. \<nexists>e. fst (os_select os ev d w) = Inl e) \<Longrightarrow>
           e = error_from_errno ''ETIMEDOUT'' \<and> os_clock os w + i \<le> os_clock os w'"
proof -
  define d where "d = (if \<not> Finite i \<le> interval then interval else Finite i)"
  have "\<exists>wt. d = Finite wt" by (cases interval) (auto simp: d_def)
  then obtain wt where wt: "d = Finite wt" by blast
  obtain a w2 where sel: "os_select os ev d w = (a, w2)" by (cases "os_select os ev d w")
  have time: "os_clock os w + 1 \<le> os_clock os w2" "a = Inr False \<Longrightarrow> os_clock os w + wt \<le> os_clock os w2"
    using timely sel unfolding timely_def wt by blast+
  have unfolded: "retry_wait os interval ev (Finite i) w =
      (if i \<le> 0 then (Inl (error_from_errno ''ETIMEDOUT''), w)
       else if os_fileno os w < 0 then (Inl (error_from_errno ''EBADF''), w)
       else case a of Inl e \<Rightarrow> (Inl e, w2)
        | Inr available \<Rightarrow>
           (if \<not> available \<and> Finite i \<le> interval then Inl (error_from_errno ''ETIMEDOUT'')
            else Inr (reduce_delay (Finite i) (os_clock os w2 - os_clock os w)), w2))"
    using sel wt unfolding d_def by (auto simp: retry_wait_def Let_def split: sum.split)
  show "os_clock os w \<le> os_clock os w'"
    using wait time(1) unfolding unfolded by (auto split: if_splits sum.splits)
  show "\<exists>j. t' = Finite j \<and> 0 \<le> j \<and> 0 < i \<and> os_clock os w + 1 \<le> os_clock os w' \<and>
           j = max 0 (i - (os_clock os w' - os_clock os w))" if "r = Inr t'"
    using wait time(1) that unfolding unfolded by (auto simp: Let_def split: if_splits sum.splits)
  show "e = error_from_errno ''ETIMEDOUT'' \<and> os_clock os w + i \<le> os_clock os w'"
    if "r = Inl e" "0 \<le> os_fileno os w" "\<And>d. \<nexists>e. fst (os_select os ev d w) = Inl e"
  proof -
    have "\<nexists>e. a = Inl e" using that(3) [of d] sel by simp
    moreover have "wt = i" if "Finite i \<le> interval" using that wt by (simp add: d_def)
    ultimately show ?thesis
      using wait time that t unfolding unfolded by (auto split: if_splits sum.splits)
  qed
qed

lemma retry_loop_time:
  assumes timely: "timely os" and steady: "steady os callback" and interval: "Finite 0 < interval"
    and "0 \<le> i" and "retry_loop fuel os interval callback (Finite i) w = Some (res, w')"
  shows "os_clock os w \<le> os_clock os w' \<and>
      (res = Inr (r, t') \<longrightarrow> t' \<le> Finite i \<and> Finite (i - (os_clock os w' - os_clock os w)) \<le> t')"
  using assms(4,5)
proof (induction fuel arbitrary: i w)
  case (Suc fuel)
  obtain a w1 where cb: "callback w = (a, w1)" by (cases "callback w")
  have c1: "os_clock os w \<le> os_clock os w1" using steady cb unfolding steady_def by (metis snd_conv)
  have step: "os_clock os w \<le> os_clock os w' \<and>
      (res = Inr (r, t') \<longrightarrow> t' \<le> Finite i \<and> Finite (i - (os_clock os w' - os_clock os w)) \<le> t')"
    if "a = WouldBlockOnRead \<and> ev = EventRead \<or> a = WouldBlockOnWrite \<and> ev = EventWrite" for ev
  proof -
    obtain o2 w2 where wait: "retry_wait os interval ev (Finite i) w1 = (o2, w2)"
      by (cases "retry_wait os interval ev (Finite i) w1")
    note time = retry_wait_time [OF timely interval Suc.prems(1) wait]
    show ?thesis
    proof (cases o2)
      case (Inl e)
      with Suc.prems that cb wait time(1) c1 show ?thesis by auto
    next
      case (Inr d)
      with time(2) obtain j where j: "d = Finite j" "0 \<le> j" "j = max 0 (i - (os_clock os w2 - os_clock os w1))"
        by auto
      with Suc.prems that cb wait Inr have "retry_loop fuel os interval callback (Finite j) w2 = Some (res, w')"
        by auto
      note ih = Suc.IH [OF j(2) this]
      show ?thesis
      proof (intro conjI impI)
        show "os_clock os w \<le> os_clock os w'" using ih time(1) c1 by simp
        assume res: "res = Inr (r, t')"
        note t' = ih [THEN conjunct2, rule_format, OF res]
        show "t' \<le> Finite i" using t' j time(1) Suc.prems by (cases t') auto
        show "Finite (i - (os_clock os w' - os_clock os w)) \<le> t'"
          using t' j time(1) c1 ih by (cases t') auto
      qed
    qed
  qed
  show ?case using Suc.prems step cb c1 by (cases a) auto
qed simp

lemma retry_loop_gives_up:
  assumes timely: "timely os" and steady: "steady os callback" and interval: "Finite 0 < interval"
    and ok: "\<And>w. 0 \<le> os_fileno os w" "\<And>w. \<nexists>e. fst (callback w) = Failed e"
      "\<And>ev d w. \<nexists>e. fst (os_select os ev d w) = Inl e"
    and "0 \<le> i" and "retry_loop fuel os interval callback (Finite i) w = Some (Inl e, w')"
  shows "e = error_from_errno ''ETIMEDOUT'' \<and> os_clock os w + i \<le> os_clock os w'"
  using assms(7,8)
proof (induction fuel arbitrary: i w)
  case (Suc fuel)
  obtain a w1 where cb: "callback w = (a, w1)" by (cases "callback w")
  have c1: "os_clock os w \<le> os_clock os w1" using steady cb unfolding steady_def by (metis snd_conv)
  have step: "e = error_from_errno ''ETIMEDOUT'' \<and> os_clock os w + i \<le> os_clock os w'"
    if "a = WouldBlockOnRead \<and> ev = EventRead \<or> a = WouldBlockOnWrite \<and> ev = EventWrite" for ev
  proof -
    obtain o2 w2 where wait: "retry_wait os interval ev (Finite i) w1 = (o2, w2)"
      by (cases "retry_wait os interval ev (Finite i) w1")
    note time = retry_wait_time [OF timely interval Suc.prems(1) wait]
    show ?thesis
    proof (cases o2)
      case (Inl e2)
      with Suc.prems that cb wait have "e2 = e" "w2 = w'" by auto
      with time(3) [OF Inl ok(1)] ok(3) c1 show ?thesis by fastforce
    next
      case (Inr d)
      with time(2) obtain j where j: "d = Finite j" "0 \<le> j" "j = max 0 (i - (os_clock os w2 - os_clock os w1))"
        by auto
      with Suc.prems that cb wait Inr have "retry_loop fuel os interval callback (Finite j) w2 = Some (Inl e, w')"
        by auto
      from Suc.IH [OF j(2) this] have "e = error_from_errno ''ETIMEDOUT''" "os_clock os w2 + j \<le> os_clock os w'"
        by auto
      moreover have "i \<le> j + (os_clock os w2 - os_clock os w1)" using j(3) by linarith
      ultimately show ?thesis using c1 by simp
    qed
  qed
  show ?case
  proof (cases a)
    case (Failed e)
    with ok(2) [of w] cb show ?thesis by auto
  qed (use Suc.prems cb step in auto)
qed simp

lemma retry_loop_terminates:
  assumes timely: "timely os" and steady: "steady os callback" and interval: "Finite 0 < interval"
    and "0 \<le> i" and "nat i + 1 < fuel"
  shows "retry_loop fuel os interval callback (Finite i) w \<noteq> None"
  using assms(4,5)
proof (induction fuel arbitrary: i w)
  case (Suc fuel)
  obtain a w1 where cb: "callback w = (a, w1)" by (cases "callback w")
  have step: "case retry_wait os interval ev (Finite i) w1 of
      (Inl e, w2) \<Rightarrow> True | (Inr d, w2) \<Rightarrow> retry_loop fuel os interval callback d w2 \<noteq> None" for ev
  proof -
    obtain o2 w2 where wait: "retry_wait os interval ev (Finite i) w1 = (o2, w2)"
      by (cases "retry_wait os interval ev (Finite i) w1")
    show ?thesis
    proof (cases o2)
      case (Inr d)
      with retry_wait_time(2) [OF timely interval Suc.prems(1) wait] obtain j
        where j: "d = Finite j" "0 \<le> j" "0 < i" "os_clock os w1 + 1 \<le> os_clock os w2"
          "j = max 0 (i - (os_clock os w2 - os_clock os w1))" by auto
      then have "j \<le> i - 1" by simp
      with j Suc.prems have "nat j + 1 < fuel" by linarith
      from Suc.IH [OF j(2) this] j Inr wait show ?thesis by simp
    qed (use wait in simp)
  qed
  from step [of EventRead] step [of EventWrite] show ?case
    by (cases a) (auto simp: cb split: prod.splits sum.splits)
qed simp

section \<open>Facts about sending\<close>

text \<open>
  \<open>written\<close> reads off the state of the world the bytes the peer has been sent so far.  A transport
  is \<open>accepting\<close> when \<^verbatim>\<open>send\<close> always takes at least one byte and sends what it says it sent.
\<close>

definition accepting :: "('w \<Rightarrow> bytes) \<Rightarrow> (bytes \<Rightarrow> delay \<Rightarrow> 'w \<Rightarrow> (exc + int) \<times> 'w) \<Rightarrow> bool" where
  "accepting written send \<longleftrightarrow> (\<forall>d t w. d \<noteq> [] \<longrightarrow>
     (\<exists>n w'. send d t w = (Inr (int n), w') \<and> 0 < n \<and> n \<le> length d \<and> written w' = written w @ take n d))"

lemma send_all_loop_accepting:
  assumes "accepting written send" and "length data - total_sent < fuel" and "total_sent \<le> length data"
  shows "\<exists>w'. send_all_loop fuel clock send data total_sent t w = Some (None, w')
    \<and> written w' = written w @ drop total_sent data"
  using assms(2,3)
proof (induction fuel arbitrary: total_sent t w)
  case (Suc fuel)
  show ?case
  proof (cases "total_sent < length data")
    case False
    with Suc.prems show ?thesis by simp
  next
    case True
    then obtain n w1 where n: "send (drop total_sent data) t w = (Inr (int n), w1)" "0 < n"
      "n \<le> length data - total_sent" "written w1 = written w @ take n (drop total_sent data)"
      using assms(1) unfolding accepting_def by (metis drop_eq_Nil2 length_drop linorder_not_le)
    then have "length data - (total_sent + n) < fuel" "total_sent + n \<le> length data"
      using Suc.prems True by linarith+
    from Suc.IH [OF this] obtain w' where
      "send_all_loop fuel clock send data (total_sent + n) (reduce_delay t (clock w1 - clock w)) w1 = Some (None, w')"
      "written w' = written w1 @ drop (total_sent + n) data" by blast
    moreover have "take n (drop total_sent data) @ drop (total_sent + n) data = drop total_sent data"
      by (metis add.commute append_take_drop_id drop_drop)
    ultimately show ?thesis using n True by simp
  qed
qed simp

lemma adjust_leftover_buffer_ok:
  assumes "n \<le> length (concat bs)"
  shows "\<exists>bs'. adjust_leftover_buffer bs n = Inr bs' \<and> concat bs' = drop n (concat bs)
    \<and> (list_all (\<lambda>b. b \<noteq> []) bs \<longrightarrow> list_all (\<lambda>b. b \<noteq> []) bs')"
  using assms
proof (induction bs n rule: adjust_leftover_buffer.induct)
  case (2 b bs n)
  show ?case
  proof (cases "n = 0 \<or> n < length b")
    case True
    then show ?thesis by auto
  next
    case False
    with 2 have "n - length b \<le> length (concat bs)" by auto
    with 2 False obtain bs' where "adjust_leftover_buffer bs (n - length b) = Inr bs'"
      "concat bs' = drop (n - length b) (concat bs)" "list_all (\<lambda>b. b \<noteq> []) bs \<longrightarrow> list_all (\<lambda>b. b \<noteq> []) bs'"
      by auto
    with False show ?thesis by auto
  qed
qed simp

text \<open>What the operating system does with \<^verbatim>\<open>sendmsg\<close>; waiting sends nothing.\<close>

definition gathers :: "('w \<Rightarrow> bytes) \<Rightarrow> 'w os \<Rightarrow> bool" where
  "gathers written os \<longleftrightarrow>
     (\<forall>bs w r w'. os_sendmsg os bs w = (r, w') \<longrightarrow>
        (case r of
           Ok n \<Rightarrow> n \<le> length (concat bs) \<and> written w' = written w @ take n (concat bs)
         | _ \<Rightarrow> written w' = written w)) \<and>
     (\<forall>ev d w. written (snd (os_select os ev d w)) = written w)"

lemma length_concat_take: "length (concat (take k bs)) \<le> length (concat bs)"
  by (metis append_take_drop_id concat_append le_add1 length_append)

lemma take_concat_take: "n \<le> length (concat (take k bs)) \<Longrightarrow> take n (concat (take k bs)) = take n (concat bs)"
  by (metis append_take_drop_id concat_append append_Nil2 diff_is_0_eq take0 take_append)

lemma retry_sendmsg:
  assumes "gathers written os"
    and "retry fuel os interval (try_sendmsg os iov_max buffers) t w = Some (res, w')"
  shows "case res of
      Inr (n, t') \<Rightarrow> n \<le> length (concat buffers) \<and> written w' = written w @ take n (concat buffers)
    | Inl e \<Rightarrow> written w' = written w"
proof -
  have "case res of
      Inr (r, t') \<Rightarrow> \<exists>w1. written w1 = written w \<and> try_sendmsg os iov_max buffers w1 = (Got r, w')
    | Inl e \<Rightarrow> written w' = written w
        \<or> (\<exists>w1. written w1 = written w \<and> try_sendmsg os iov_max buffers w1 = (Failed e, w'))"
  proof (rule retry_inv [where J = "\<lambda>w1. written w1 = written w", OF refl _ _ assms(2)])
    fix w1 a w2
    assume "written w1 = written w" "try_sendmsg os iov_max buffers w1 = (a, w2)"
      "a \<in> {WouldBlockOnRead, WouldBlockOnWrite}"
    with assms(1) show "written w2 = written w"
      unfolding gathers_def try_sendmsg_def
      by (cases "os_sendmsg os (take iov_max buffers) w1"; cases "fst (os_sendmsg os (take iov_max buffers) w1)")
         force+
  next
    show "written w1 = written w \<Longrightarrow> written (snd (os_select os ev d w1)) = written w" for ev d w1
      using assms(1) by (simp add: gathers_def)
  qed
  moreover have "n \<le> length (concat buffers) \<and> written w2 = written w1 @ take n (concat buffers)"
    if s: "try_sendmsg os iov_max buffers w1 = (Got n, w2)" for w1 w2 n
  proof -
    from s have "os_sendmsg os (take iov_max buffers) w1 = (Ok n, w2)"
      by (auto simp: try_sendmsg_def split: prod.splits elim: write_attempt.elims)
    with assms(1) have "n \<le> length (concat (take iov_max buffers))"
      "written w2 = written w1 @ take n (concat (take iov_max buffers))"
      unfolding gathers_def by fastforce+
    then show ?thesis
      using length_concat_take [of iov_max buffers] take_concat_take [of n iov_max buffers] by simp
  qed
  moreover have "written w2 = written w1" if s: "try_sendmsg os iov_max buffers w1 = (Failed e, w2)" for w1 w2 e
  proof -
    from s have "os_sendmsg os (take iov_max buffers) w1 = (OsFail e, w2)"
      by (auto simp: try_sendmsg_def split: prod.splits elim: write_attempt.elims)
    with assms(1) show ?thesis unfolding gathers_def by fastforce
  qed
  ultimately show ?thesis by (cases res) fastforce+
qed

text \<open>
  However the sends are cut and interrupted, the peer is sent a prefix of the data, and all of it when the call returns.
\<close>

lemma sendmsg_loop_written:
  assumes "gathers written os" and "sendmsg_loop fuel os interval iov_max buffers t w = Some (res, w')"
  shows "\<exists>sent. written w' = written w @ sent \<and> prefix sent (concat buffers)
    \<and> (res = None \<longrightarrow> sent = concat buffers)"
  using assms(2)
proof (induction fuel arbitrary: buffers t w)
  case (Suc fuel)
  from Suc.prems obtain r w1 where r:
    "retry (Suc fuel) os interval (try_sendmsg os iov_max buffers) (Delay t) w = Some (r, w1)"
    by (auto split: option.splits)
  note sent = retry_sendmsg [OF assms(1) r]
  show ?case
  proof (cases r)
    case (Inl e)
    with Suc.prems r sent show ?thesis by auto
  next
    case (Inr p)
    obtain n t' where p: "p = (n, t')" by (cases p)
    with sent Inr have n: "n \<le> length (concat buffers)" "written w1 = written w @ take n (concat buffers)" by auto
    from adjust_leftover_buffer_ok [OF n(1)] obtain bs
      where bs: "adjust_leftover_buffer buffers n = Inr bs" "concat bs = drop n (concat buffers)" by blast
    show ?thesis
    proof (cases "bs = []")
      case True
      with Suc.prems r Inr p bs n show ?thesis by auto
    next
      case False
      with Suc.prems r Inr p bs have "sendmsg_loop fuel os interval iov_max bs t' w1 = Some (res, w')" by simp
      from Suc.IH [OF this] obtain sent where s: "written w' = written w1 @ sent"
        "prefix sent (drop n (concat buffers))" "res = None \<longrightarrow> sent = drop n (concat buffers)"
        using bs(2) by auto
      have "prefix (take n (concat buffers) @ sent) (concat buffers)"
        using s(2) by (metis append_take_drop_id same_prefix_prefix)
      with s n(2) show ?thesis
        by (intro exI [of _ "take n (concat buffers) @ sent"]) simp
    qed
  qed
qed simp


text \<open>An operating system that always takes some of the data, and the divergence on an empty last chunk.\<close>

definition never_blocks :: "('w \<Rightarrow> bytes) \<Rightarrow> 'w os \<Rightarrow> bool" where
  "never_blocks written os \<longleftrightarrow> (\<forall>bs w. concat bs \<noteq> [] \<longrightarrow>
     (\<exists>n w'. os_sendmsg os bs w = (Ok n, w') \<and> 0 < n \<and> n \<le> length (concat bs)
        \<and> written w' = written w @ take n (concat bs)))"

lemma sendmsg_loop_completes:
  assumes "never_blocks written os" and "0 < iov_max" and "Finite 0 \<le> t"
    and "buffers \<noteq> []" and "list_all (\<lambda>b. b \<noteq> []) buffers" and "length (concat buffers) < fuel"
  shows "\<exists>w'. sendmsg_loop fuel os interval iov_max buffers t w = Some (None, w')
    \<and> written w' = written w @ concat buffers"
  using assms(4-6)
proof (induction fuel arbitrary: buffers w)
  case (Suc fuel)
  have "concat (take iov_max buffers) \<noteq> []" using Suc.prems assms(2) by (cases buffers; cases iov_max) auto
  with assms(1) obtain n w1 where n: "os_sendmsg os (take iov_max buffers) w = (Ok n, w1)" "0 < n"
    "n \<le> length (concat (take iov_max buffers))" "written w1 = written w @ take n (concat (take iov_max buffers))"
    unfolding never_blocks_def by blast
  then have n': "n \<le> length (concat buffers)" "written w1 = written w @ take n (concat buffers)"
    using length_concat_take [of iov_max buffers] take_concat_take [of n iov_max buffers] by simp_all
  from adjust_leftover_buffer_ok [OF n'(1)] obtain bs where bs: "adjust_leftover_buffer buffers n = Inr bs"
    "concat bs = drop n (concat buffers)" "list_all (\<lambda>b. b \<noteq> []) bs" using Suc.prems by blast
  have retry: "retry (Suc fuel) os interval (try_sendmsg os iov_max buffers) (Delay t) w = Some (Inr (n, t), w1)"
    using n(1) assms(3) by (simp add: retry_def validate_timeout_delay_def try_sendmsg_def)
  show ?case
  proof (cases "bs = []")
    case True
    with retry bs n' show ?thesis by simp
  next
    case False
    have "length (concat bs) < fuel" using bs(2) n(2) n'(1) Suc.prems by simp
    from Suc.IH [OF False bs(3) this] obtain w' where
      "sendmsg_loop fuel os interval iov_max bs t w1 = Some (None, w')" "written w' = written w1 @ concat bs"
      by blast
    with retry bs n' False show ?thesis by simp
  qed
qed simp

lemma sendmsg_loop_empty_diverges:
  assumes "\<And>w. \<exists>w'. os_sendmsg os [[]] w = (Ok 0, w')" and "0 < iov_max" and "Finite 0 \<le> t"
  shows "sendmsg_loop fuel os interval iov_max [[]] t w = None"
proof (induction fuel arbitrary: w)
  case (Suc fuel)
  obtain w1 where "os_sendmsg os [[]] w = (Ok 0, w1)" using assms(1) by blast
  moreover have "take iov_max [[]] = [[]]" using assms(2) by (cases iov_max) auto
  ultimately show ?case
    using assms(3) Suc by (simp add: retry_def validate_timeout_delay_def try_sendmsg_def)
qed simp

text \<open>A world for the examples: a clock and the bytes written, sends take two bytes at most.\<close>

record wire =
  wire_clock :: int
  wire_written :: bytes

definition wire_write :: "bytes \<Rightarrow> wire \<Rightarrow> nat os_result \<times> wire" where
  "wire_write data w = (Ok (length (take 2 data)), w\<lparr>wire_written := wire_written w @ take 2 data\<rparr>)"

definition wire_os :: "wire os" where
  "wire_os = \<lparr>os_clock = wire_clock, os_fileno = (\<lambda>_. 3),
     os_select = (\<lambda>ev d w. (Inr True, w\<lparr>wire_clock := wire_clock w + 1\<rparr>)),
     os_recv = (\<lambda>n w. (if wire_clock w < 2 then Blocking else Ok (take n ''hello''), w)),
     os_send = wire_write, os_sendmsg = (\<lambda>bs. wire_write (concat bs)),
     os_shutdown_write = (\<lambda>w. (Ok (), w))\<rparr>"

definition wire_send :: "bytes \<Rightarrow> delay \<Rightarrow> wire \<Rightarrow> (exc + int) \<times> wire" where
  "wire_send data t w = (case wire_write data w of (Ok n, w') \<Rightarrow> (Inr (int n), w') | (_, w') \<Rightarrow> (Inr 0, w'))"

lemma take_min_length: "take (min (length xs) n) xs = take n xs"
  by (simp add: min_def)

lemma wire_ok:
  "timely wire_os" "steady wire_os (socket_recv_noblock wire_os n)" "gathers wire_written wire_os"
  "never_blocks wire_written wire_os" "accepting wire_written wire_send"
  by (auto simp: timely_def steady_def gathers_def never_blocks_def accepting_def wire_os_def wire_write_def
      wire_send_def socket_recv_noblock_def take_min_length neq_Nil_conv numeral_2_eq_2)

section \<open>Properties\<close>

text \<open>
  C7: a blocking operation with a finite timeout always returns: with the result of an attempt, and then the
  timeout it hands on is not longer than what is left of the one it was given and not longer than that; or
  with \<^verbatim>\<open>ETIMEDOUT\<close>, and then not before the timeout is over.  The number of attempts is at most the timeout in clock
  ticks plus two.
\<close>

theorem retry_deadline:
  assumes "timely os" and "steady os callback" and "Finite 0 < interval"
    and "\<forall>w. 0 \<le> os_fileno os w" and "\<forall>w e. fst (callback w) \<noteq> Failed e"
    and "\<forall>ev d w e. fst (os_select os ev d w) \<noteq> Inl e"
    and "0 \<le> i" and "nat i + 1 < fuel"
  shows "\<exists>res w'. retry fuel os interval callback (Delay (Finite i)) w = Some (res, w')
    \<and> (case res of
         Inl e \<Rightarrow> e = error_from_errno ''ETIMEDOUT'' \<and> os_clock os w + i \<le> os_clock os w'
       | Inr (r, t') \<Rightarrow> t' \<le> Finite i \<and> Finite (i - (os_clock os w' - os_clock os w)) \<le> t')"
proof -
  have eq: "retry fuel os interval callback (Delay (Finite i)) w = retry_loop fuel os interval callback (Finite i) w"
    using assms(7) by (simp add: retry_def validate_timeout_delay_def)
  obtain res w' where run: "retry_loop fuel os interval callback (Finite i) w = Some (res, w')"
    using retry_loop_terminates [OF assms(1,2,3,7,8), of w] by auto
  show ?thesis
  proof (cases res)
    case (Inl e)
    with run have "retry_loop fuel os interval callback (Finite i) w = Some (Inl e, w')" by simp
    from retry_loop_gives_up [OF assms(1,2,3) _ _ _ assms(7) this] assms(4-6) Inl run show ?thesis
      by (simp add: eq)
  next
    case (Inr rt)
    obtain r t' where "rt = (r, t')" by fastforce
    with retry_loop_time [OF assms(1,2,3,7) run, of r t'] Inr run show ?thesis by (simp add: eq)
  qed
qed

theorem retry_deadline_witness:
  "\<exists>res w'. retry 8 wire_os (Finite 1) (socket_recv_noblock wire_os 3) (Delay (Finite 5)) \<lparr>wire_clock = 0, wire_written = []\<rparr>
      = Some (res, w')
    \<and> (case res of
         Inl e \<Rightarrow> e = error_from_errno ''ETIMEDOUT''
           \<and> os_clock wire_os \<lparr>wire_clock = 0, wire_written = []\<rparr> + 5 \<le> os_clock wire_os w'
       | Inr (r, t') \<Rightarrow> t' \<le> Finite 5
           \<and> Finite (5 - (os_clock wire_os w' - os_clock wire_os \<lparr>wire_clock = 0, wire_written = []\<rparr>)) \<le> t')"
  by (rule retry_deadline [OF wire_ok(1,2)]) (auto simp: wire_os_def socket_recv_noblock_def split: if_splits)

text \<open>
  \<^verbatim>\<open>send_all\<close> writes all of the data, in order and once, over a transport that takes at least one byte at a
  time; it needs no more calls than there are bytes.
\<close>

theorem send_all_delivers:
  assumes "accepting written send" and "data \<noteq> []" and "length data < fuel"
  shows "\<exists>w'. send_all fuel clock send data t w = Some (None, w') \<and> written w' = written w @ data"
  using send_all_loop_accepting [OF assms(1), of data 0 fuel clock t w] assms(2,3) by (simp add: send_all_def)

theorem send_all_delivers_witness:
  "\<exists>w'. send_all 6 wire_clock wire_send ''hello'' (Finite 3) \<lparr>wire_clock = 0, wire_written = ''x''\<rparr> = Some (None, w')
    \<and> wire_written w' = wire_written \<lparr>wire_clock = 0, wire_written = ''x''\<rparr> @ ''hello''"
  by (rule send_all_delivers [OF wire_ok(5)]) simp_all

text \<open>
  the scatter/gather version of sending a packet writes a prefix of the packet's bytes whatever happens, and all of
  them when it returns normally: no chunk is skipped, sent twice or sent out of order, for every limit on
  the number of buffers per call.
\<close>

theorem send_all_from_iterable_in_order:
  assumes "gathers written os"
    and "socket_send_all_from_iterable fuel os interval iov_max iterable t w = Some (res, w')"
  shows "\<exists>sent. written w' = written w @ sent \<and> prefix sent (concat (fst iterable))
           \<and> (res = None \<longrightarrow> sent = concat (fst iterable))"
proof (cases iterable)
  case (Pair cs err)
  show ?thesis
  proof (cases err)
    case None
    with Pair assms(2) sendmsg_loop_written [OF assms(1), of fuel interval iov_max cs t w res w'] show ?thesis
      by (simp add: socket_send_all_from_iterable_def)
  next
    case (Some e)
    with Pair assms(2) show ?thesis by (intro exI [of _ "[]"]) (auto simp: socket_send_all_from_iterable_def)
  qed
qed

theorem send_all_from_iterable_in_order_witness:
  "\<exists>w' sent. socket_send_all_from_iterable 9 wire_os (Finite 1) 1 ([''abc'', ''d''], None) (Finite 0)
       \<lparr>wire_clock = 0, wire_written = ''x''\<rparr> = Some (None, w')
     \<and> wire_written w' = wire_written \<lparr>wire_clock = 0, wire_written = ''x''\<rparr> @ sent
     \<and> prefix sent (concat (fst ([''abc'', ''d''], None :: exc option)))
     \<and> ((None :: exc option) = None \<longrightarrow> sent = concat (fst ([''abc'', ''d''], None :: exc option)))"
proof -
  have "\<exists>w'. socket_send_all_from_iterable 9 wire_os (Finite 1) 1 ([''abc'', ''d''], None) (Finite 0)
      \<lparr>wire_clock = 0, wire_written = ''x''\<rparr> = Some (None, w')"
    using sendmsg_loop_completes [OF wire_ok(4), of 1 "Finite 0" "[''abc'', ''d'']" 9]
    by (fastforce simp: socket_send_all_from_iterable_def)
  then obtain w' where w': "socket_send_all_from_iterable 9 wire_os (Finite 1) 1 ([''abc'', ''d''], None) (Finite 0)
      \<lparr>wire_clock = 0, wire_written = ''x''\<rparr> = Some (None, w')" by blast
  with send_all_from_iterable_in_order [OF wire_ok(3) w'] show ?thesis by blast
qed

text \<open>
  the scatter/gather version returns, with everything written, when all the chunks have bytes and the
  system always takes at least one of them.
\<close>

theorem send_all_from_iterable_completes:
  assumes "never_blocks written os" and "0 < iov_max" and "Finite 0 \<le> t"
    and "cs \<noteq> []" and "list_all (\<lambda>b. b \<noteq> []) cs" and "length (concat cs) < fuel"
  shows "\<exists>w'. socket_send_all_from_iterable fuel os interval iov_max (cs, None) t w = Some (None, w')
           \<and> written w' = written w @ concat cs"
  using sendmsg_loop_completes [OF assms] by (simp add: socket_send_all_from_iterable_def)

theorem send_all_from_iterable_completes_witness:
  "\<exists>w'. socket_send_all_from_iterable 9 wire_os (Finite 1) 1 ([''abc'', ''d''], None) (Finite 0)
       \<lparr>wire_clock = 0, wire_written = ''x''\<rparr> = Some (None, w')
     \<and> wire_written w' = wire_written \<lparr>wire_clock = 0, wire_written = ''x''\<rparr> @ concat [''abc'', ''d'']"
  by (rule send_all_from_iterable_completes [OF wire_ok(4)]) simp_all

lemma adjust_leftover_trailing_empty:
  assumes "n \<le> length (concat bs)" and "list_all (\<lambda>b. b \<noteq> []) bs"
  shows "\<exists>bs'. adjust_leftover_buffer (bs @ [[]]) n = Inr (bs' @ [[]]) \<and> list_all (\<lambda>b. b \<noteq> []) bs'"
  using assms
proof (induction bs arbitrary: n)
  case (Cons b bs)
  show ?case
  proof (cases "n = 0 \<or> \<not> length b \<le> n")
    case True
    then show ?thesis
    proof
      assume "n = 0"
      with Cons.prems show ?thesis by (intro exI [of _ "b # bs"]) simp
    next
      assume "\<not> length b \<le> n"
      with Cons.prems show ?thesis by (intro exI [of _ "drop n b # bs"]) simp
    qed
  next
    case False
    with Cons.IH [of "n - length b"] Cons.prems show ?thesis by auto
  qed
qed (auto intro: exI [of _ "[]"])

text \<open>
  a packet whose last chunk is empty is never done: once its bytes are written the loop goes on calling
  \<^verbatim>\<open>sendmsg\<close> with the empty buffer, which sends nothing and is never removed from the queue, so that the
  call does not return whatever the number of passes and the timeout.
\<close>

theorem send_trailing_empty_chunk_hangs:
  assumes "never_blocks written os" and "\<forall>w. \<exists>w'. os_sendmsg os [[]] w = (Ok 0, w')" and "0 < iov_max"
    and "Finite 0 \<le> t" and "list_all (\<lambda>b. b \<noteq> []) cs"
  shows "socket_send_all_from_iterable fuel os interval iov_max (cs @ [[]], None) t w = None"
proof -
  have "sendmsg_loop fuel os interval iov_max (cs @ [[]]) t w = None"
    using assms(5)
  proof (induction fuel arbitrary: cs w)
    case (Suc fuel)
    show ?case
    proof (cases "cs = []")
      case True
      with sendmsg_loop_empty_diverges [of os iov_max t "Suc fuel" interval w] assms(2-4) show ?thesis by simp
    next
      case False
      then obtain b bs where cs: "cs = b # bs" "b \<noteq> []" using Suc.prems by (cases cs) auto
      let ?sub = "take iov_max (cs @ [[]])"
      have "concat ?sub \<noteq> []" using cs assms(3) by (cases iov_max) auto
      with assms(1) obtain n w1 where n: "os_sendmsg os ?sub w = (Ok n, w1)" "n \<le> length (concat ?sub)"
        unfolding never_blocks_def by blast
      have "n \<le> length (concat cs)" using n(2) length_concat_take [of iov_max "cs @ [[]]"] by simp
      from adjust_leftover_trailing_empty [OF this Suc.prems] obtain bs' where
        bs': "adjust_leftover_buffer (cs @ [[]]) n = Inr (bs' @ [[]])" "list_all (\<lambda>b. b \<noteq> []) bs'" by blast
      have "retry (Suc fuel) os interval (try_sendmsg os iov_max (cs @ [[]])) (Delay t) w = Some (Inr (n, t), w1)"
        using n(1) assms(4) by (cases t) (simp_all add: retry_def validate_timeout_delay_def try_sendmsg_def)
      with bs' Suc.IH [OF bs'(2)] show ?thesis by simp
    qed
  qed simp
  then show ?thesis by (simp add: socket_send_all_from_iterable_def)
qed

theorem send_trailing_empty_chunk_hangs_witness:
  "socket_send_all_from_iterable 1000 wire_os (Finite 1) 16 ([''abc''] @ [[]], None) (Finite 5)
     \<lparr>wire_clock = 0, wire_written = []\<rparr> = None"
  by (rule send_trailing_empty_chunk_hangs [OF wire_ok(4)]) (simp_all add: wire_os_def wire_write_def)

end
