(* ===== verification/Endpoint.thy ===== *)
theory Endpoint
  imports BufferedConsumer SyncTransport
begin

text \<open>
  The blocking stream endpoint, \<^verbatim>\<open>src/src/easynetwork/lowlevel/api_sync/endpoints/stream.py\<close>:
  the two receiver implementations, the sender, and the end-of-stream flags.

  The transport is a function on the state \<open>'w\<close> of the world: \<open>recv n t w\<close> gives at most \<open>n\<close> bytes (none at
  the end of the stream) or raises.  \<^verbatim>\<open>recv_into(buffer, timeout)\<close> is the same function, the bytes
  being written to the buffer.  A receive loop takes the number of its passes as fuel.
\<close>

type_synonym 'w receive_fun = "nat \<Rightarrow> delay \<Rightarrow> 'w \<Rightarrow> (exc + bytes) \<times> 'w"

definition end_of_stream :: exc where
  "end_of_stream = OSError ''ECONNABORTED'' ''{strerror} (end-of-stream)''"

section \<open>\_DataReceiverImpl\<close>

record 'k data_receiver =
  dr_consumer :: "'k stream_consumer"
  dr_max_recv_size :: nat
  dr_eof_reached :: bool

text \<open>The code after the loop.\<close>

definition receive_failed :: "bool \<Rightarrow> exc" where
  "receive_failed eof_reached = (if eof_reached then end_of_stream else error_from_errno ''ETIMEDOUT'')"

fun data_receive_loop ::
  "nat \<Rightarrow> ('w \<Rightarrow> int) \<Rightarrow> 'w receive_fun \<Rightarrow> (unit, 'r \<times> bytes, exc, 'k) gen_step
     \<Rightarrow> ('k \<Rightarrow> bytes \<Rightarrow> (unit, 'r \<times> bytes, exc, 'k) gen_step)
     \<Rightarrow> delay \<Rightarrow> 'k data_receiver \<Rightarrow> 'w \<Rightarrow> ((exc + 'r) \<times> 'k data_receiver \<times> 'w) option"
where
  "data_receive_loop 0 clock recv start send timeout r w = None"
| "data_receive_loop (Suc fuel) clock recv start send timeout r w =
     (if dr_eof_reached r then Some (Inl (receive_failed True), r, w)
      else (case recv (dr_max_recv_size r) timeout w of
              (Inl e, w') \<Rightarrow> Some (Inl e, r, w')
            | (Inr chunk, w') \<Rightarrow>
                if chunk = []
                then data_receive_loop fuel clock recv start send timeout (r\<lparr>dr_eof_reached := True\<rparr>) w'
                else (case consumer_next start send (dr_consumer r) (Some chunk) of
                        (Packet p, c) \<Rightarrow> Some (Inr p, r\<lparr>dr_consumer := c\<rparr>, w')
                      | (Error e, c) \<Rightarrow> Some (Inl e, r\<lparr>dr_consumer := c\<rparr>, w')
                      | (Stop, c) \<Rightarrow>
                          let r' = r\<lparr>dr_consumer := c\<rparr> in
                          if timeout > Finite 0
                          then data_receive_loop fuel clock recv start send
                                 (reduce_delay timeout (clock w' - clock w)) r' w'
                          else if length chunk < dr_max_recv_size r then Some (Inl (receive_failed False), r', w')
                          else data_receive_loop fuel clock recv start send timeout r' w')))"

definition data_receive ::
  "nat \<Rightarrow> ('w \<Rightarrow> int) \<Rightarrow> 'w receive_fun \<Rightarrow> (unit, 'r \<times> bytes, exc, 'k) gen_step
     \<Rightarrow> ('k \<Rightarrow> bytes \<Rightarrow> (unit, 'r \<times> bytes, exc, 'k) gen_step)
     \<Rightarrow> delay \<Rightarrow> 'k data_receiver \<Rightarrow> 'w \<Rightarrow> ((exc + 'r) \<times> 'k data_receiver \<times> 'w) option"
where
  "data_receive fuel clock recv start send timeout r w =
     (case consumer_next start send (dr_consumer r) None of
        (Packet p, c) \<Rightarrow> Some (Inr p, r\<lparr>dr_consumer := c\<rparr>, w)
      | (Error e, c) \<Rightarrow> Some (Inl e, r\<lparr>dr_consumer := c\<rparr>, w)
      | (Stop, c) \<Rightarrow> data_receive_loop fuel clock recv start send timeout (r\<lparr>dr_consumer := c\<rparr>) w)"

section \<open>\_BufferedReceiverImpl\<close>

record 'k buffered_receiver =
  br_consumer :: "'k buffered_consumer"
  br_eof_reached :: bool

fun buffered_receive_loop ::
  "nat \<Rightarrow> ('w \<Rightarrow> int) \<Rightarrow> 'w receive_fun \<Rightarrow> ('r, 'k) buffered_protocol
     \<Rightarrow> delay \<Rightarrow> 'k buffered_receiver \<Rightarrow> 'w \<Rightarrow> ((exc + 'r) \<times> 'k buffered_receiver \<times> 'w) option"
where
  "buffered_receive_loop 0 clock recv P timeout r w = None"
| "buffered_receive_loop (Suc fuel) clock recv P timeout r w =
     (if br_eof_reached r then Some (Inl (receive_failed True), r, w)
      else (case get_write_buffer P (br_consumer r) of
              (Inl e, c) \<Rightarrow> Some (Inl e, r\<lparr>br_consumer := c\<rparr>, w)
            | (Inr (offset, bufsize), c) \<Rightarrow>
                (case recv bufsize timeout w of
                   (Inl e, w') \<Rightarrow> Some (Inl e, r\<lparr>br_consumer := c\<rparr>, w')
                 | (Inr chunk, w') \<Rightarrow>
                     let nbytes = length chunk; c1 = fill_write_buffer chunk c in
                     if nbytes = 0
                     then buffered_receive_loop fuel clock recv P timeout
                            (r\<lparr>br_consumer := c1, br_eof_reached := True\<rparr>) w'
                     else (case buffered_next P c1 (Some (int nbytes)) of
                             (Packet p, c2) \<Rightarrow> Some (Inr p, r\<lparr>br_consumer := c2\<rparr>, w')
                           | (Error e, c2) \<Rightarrow> Some (Inl e, r\<lparr>br_consumer := c2\<rparr>, w')
                           | (Stop, c2) \<Rightarrow>
                               let r' = r\<lparr>br_consumer := c2\<rparr> in
                               if timeout > Finite 0
                               then buffered_receive_loop fuel clock recv P
                                      (reduce_delay timeout (clock w' - clock w)) r' w'
                               else if nbytes < bufsize then Some (Inl (receive_failed False), r', w')
                               else buffered_receive_loop fuel clock recv P timeout r' w'))))"

definition buffered_receive ::
  "nat \<Rightarrow> ('w \<Rightarrow> int) \<Rightarrow> 'w receive_fun \<Rightarrow> ('r, 'k) buffered_protocol
     \<Rightarrow> delay \<Rightarrow> 'k buffered_receiver \<Rightarrow> 'w \<Rightarrow> ((exc + 'r) \<times> 'k buffered_receiver \<times> 'w) option"
where
  "buffered_receive fuel clock recv P timeout r w =
     (case buffered_next P (br_consumer r) None of
        (Packet p, c) \<Rightarrow> Some (Inr p, r\<lparr>br_consumer := c\<rparr>, w)
      | (Error e, c) \<Rightarrow> Some (Inl e, r\<lparr>br_consumer := c\<rparr>, w)
      | (Stop, c) \<Rightarrow> buffered_receive_loop fuel clock recv P timeout (r\<lparr>br_consumer := c\<rparr>) w)"

section \<open>Ancillary data\<close>

text \<open>
  One receive that also carries ancillary data; \<open>on_ancillary\<close> is the callback
  \<^verbatim>\<open>ancillary_data_received\<close>, which may raise.
\<close>

definition data_receive_with_ancillary ::
  "(nat \<Rightarrow> nat \<Rightarrow> delay \<Rightarrow> 'w \<Rightarrow> (exc + bytes \<times> 'a) \<times> 'w) \<Rightarrow> (unit, 'r \<times> bytes, exc, 'k) gen_step
     \<Rightarrow> ('k \<Rightarrow> bytes \<Rightarrow> (unit, 'r \<times> bytes, exc, 'k) gen_step) \<Rightarrow> nat \<Rightarrow> ('a \<Rightarrow> exc option)
     \<Rightarrow> delay \<Rightarrow> 'k data_receiver \<Rightarrow> 'w \<Rightarrow> (exc + 'r) \<times> 'k data_receiver \<times> 'w"
where
  "data_receive_with_ancillary recv start send ancillary_bufsize on_ancillary timeout r w =
     (case consumer_next start send (dr_consumer r) None of
        (Packet p, c) \<Rightarrow> (Inr p, r\<lparr>dr_consumer := c\<rparr>, w)
      | (Error e, c) \<Rightarrow> (Inl e, r\<lparr>dr_consumer := c\<rparr>, w)
      | (Stop, c) \<Rightarrow>
          let r = r\<lparr>dr_consumer := c\<rparr> in
          if dr_eof_reached r then (Inl end_of_stream, r, w)
          else (case recv (dr_max_recv_size r) ancillary_bufsize timeout w of
                  (Inl e, w') \<Rightarrow> (Inl e, r, w')
                | (Inr (data, ancdata), w') \<Rightarrow>
                    if data = [] then (Inl end_of_stream, r\<lparr>dr_eof_reached := True\<rparr>, w')
                    else if on_ancillary ancdata \<noteq> None
                    then (Inl (RuntimeError ''ancillary_data_received() crashed''), r, w')
                    else (case consumer_next start send (dr_consumer r) (Some data) of
                            (Packet p, c) \<Rightarrow> (Inr p, r\<lparr>dr_consumer := c\<rparr>, w')
                          | (Error e, c) \<Rightarrow> (Inl e, r\<lparr>dr_consumer := c\<rparr>, w')
                          | (Stop, c) \<Rightarrow> (Inl (EOFError ''Received partial packet data''), r\<lparr>dr_consumer := c\<rparr>, w'))))"

definition buffered_receive_with_ancillary ::
  "(nat \<Rightarrow> nat \<Rightarrow> delay \<Rightarrow> 'w \<Rightarrow> (exc + bytes \<times> 'a) \<times> 'w) \<Rightarrow> ('r, 'k) buffered_protocol \<Rightarrow> nat
     \<Rightarrow> ('a \<Rightarrow> exc option) \<Rightarrow> delay \<Rightarrow> 'k buffered_receiver \<Rightarrow> 'w \<Rightarrow> (exc + 'r) \<times> 'k buffered_receiver \<times> 'w"
where
  "buffered_receive_with_ancillary recv P ancillary_bufsize on_ancillary timeout r w =
     (case buffered_next P (br_consumer r) None of
        (Packet p, c) \<Rightarrow> (Inr p, r\<lparr>br_consumer := c\<rparr>, w)
      | (Error e, c) \<Rightarrow> (Inl e, r\<lparr>br_consumer := c\<rparr>, w)
      | (Stop, c) \<Rightarrow>
          let r = r\<lparr>br_consumer := c\<rparr> in
          if br_eof_reached r then (Inl end_of_stream, r, w)
          else (case get_write_buffer P c of
                  (Inl e, c) \<Rightarrow> (Inl e, r\<lparr>br_consumer := c\<rparr>, w)
                | (Inr (offset, bufsize), c) \<Rightarrow>
                    (case recv bufsize ancillary_bufsize timeout w of
                       (Inl e, w') \<Rightarrow> (Inl e, r\<lparr>br_consumer := c\<rparr>, w')
                     | (Inr (data, ancdata), w') \<Rightarrow>
                         let nbytes = length data; c = fill_write_buffer data c; r = r\<lparr>br_consumer := c\<rparr> in
                         if nbytes = 0 then (Inl end_of_stream, r\<lparr>br_eof_reached := True\<rparr>, w')
                         else if on_ancillary ancdata \<noteq> None
                         then (Inl (RuntimeError ''ancillary_data_received() crashed''), r, w')
                         else (case buffered_next P c (Some (int nbytes)) of
                                 (Packet p, c) \<Rightarrow> (Inr p, r\<lparr>br_consumer := c\<rparr>, w')
                               | (Error e, c) \<Rightarrow> (Inl e, r\<lparr>br_consumer := c\<rparr>, w')
                               | (Stop, c) \<Rightarrow> (Inl (EOFError ''Received partial packet data''), r\<lparr>br_consumer := c\<rparr>, w')))))"

section \<open>Sending, and the end of the write side\<close>

definition data_sender_send ::
  "('p \<Rightarrow> chunks) \<Rightarrow> (chunks \<Rightarrow> delay \<Rightarrow> 'w \<Rightarrow> (exc option \<times> 'w) option) \<Rightarrow> 'p \<Rightarrow> delay \<Rightarrow> 'w
     \<Rightarrow> (exc option \<times> 'w) option"
where
  "data_sender_send generate send_iterable packet timeout w =
     send_iterable (producer_generate generate packet) timeout w"

record endpoint =
  ep_eof_sent :: bool

definition endpoint_send_packet ::
  "('p \<Rightarrow> chunks) \<Rightarrow> (chunks \<Rightarrow> delay \<Rightarrow> 'w \<Rightarrow> (exc option \<times> 'w) option) \<Rightarrow> 'p \<Rightarrow> delay option
     \<Rightarrow> endpoint \<Rightarrow> 'w \<Rightarrow> (exc option \<times> 'w) option"
where
  "endpoint_send_packet generate send_iterable packet timeout ep w =
     (if ep_eof_sent ep then Some (Some (RuntimeError ''send_eof() has been called earlier''), w)
      else data_sender_send generate send_iterable packet
             (case timeout of None \<Rightarrow> Infinity | Some t \<Rightarrow> t) w)"

definition endpoint_send_eof ::
  "('w \<Rightarrow> exc option \<times> 'w) \<Rightarrow> endpoint \<Rightarrow> 'w \<Rightarrow> exc option \<times> endpoint \<times> 'w"
where
  "endpoint_send_eof transport_send_eof ep w =
     (if ep_eof_sent ep then (None, ep, w)
      else (case transport_send_eof w of
              (Some e, w') \<Rightarrow> (Some e, ep, w')
            | (None, w') \<Rightarrow> (None, ep\<lparr>ep_eof_sent := True\<rparr>, w')))"

section \<open>Construction\<close>

definition check_max_recv_size_value :: "int \<Rightarrow> exc option" where
  "check_max_recv_size_value n =
     (if n \<le> 0 then Some (ValueError '''max_recv_size' must be a strictly positive integer'') else None)"

definition data_receiver_init :: "int \<Rightarrow> exc + 'k data_receiver" where
  "data_receiver_init max_recv_size =
     (case check_max_recv_size_value max_recv_size of
        Some e \<Rightarrow> Inl e
      | None \<Rightarrow> Inr \<lparr>dr_consumer = stream_consumer_init, dr_max_recv_size = nat max_recv_size,
                     dr_eof_reached = False\<rparr>)"

definition buffered_receiver_init :: "int \<Rightarrow> exc + 'k buffered_receiver" where
  "buffered_receiver_init max_recv_size =
     (case check_max_recv_size_value max_recv_size of
        Some e \<Rightarrow> Inl e
      | None \<Rightarrow>
          result_bind (buffered_consumer_init max_recv_size)
            (\<lambda>c. Inr \<lparr>br_consumer = c, br_eof_reached = False\<rparr>))"

definition data_receiver_clear :: "'k data_receiver \<Rightarrow> 'k data_receiver" where
  "data_receiver_clear r = r\<lparr>dr_consumer := stream_consumer_clear (dr_consumer r)\<rparr>"

definition buffered_receiver_clear :: "'k buffered_receiver \<Rightarrow> 'k buffered_receiver" where
  "buffered_receiver_clear r = r\<lparr>br_consumer := buffered_consumer_clear (br_consumer r)\<rparr>"

section \<open>Properties\<close>

text \<open>
  closing the write side is final and idempotent: after \<^verbatim>\<open>send_eof\<close> has succeeded no packet can be sent, the
  transport is not touched by the attempt, and calling it again does nothing; when the transport fails to close
  its side, the endpoint stays open for sending.
\<close>

theorem send_eof_final:
  assumes "endpoint_send_eof transport_send_eof ep w = (res, ep', w')"
  shows "if res = None
     then endpoint_send_packet generate send_iterable packet timeout ep' w2
            = Some (Some (RuntimeError ''send_eof() has been called earlier''), w2)
        \<and> endpoint_send_eof transport_send_eof ep' w2 = (None, ep', w2)
     else ep' = ep \<and> \<not> ep_eof_sent ep"
  using assms
  by (auto simp: endpoint_send_eof_def endpoint_send_packet_def split: if_splits prod.splits option.splits)

theorem send_eof_final_witness:
  "endpoint_send_packet (\<lambda>p. ([p], None)) (\<lambda>cs t w. Some (None, w @ concat (fst cs))) ''ab'' None \<lparr>ep_eof_sent = True\<rparr> ''x''
     = Some (Some (RuntimeError ''send_eof() has been called earlier''), ''x'')
   \<and> endpoint_send_eof (\<lambda>w. (None, w @ ''!'')) \<lparr>ep_eof_sent = True\<rparr> ''x'' = (None, \<lparr>ep_eof_sent = True\<rparr>, ''x'')"
proof -
  have "endpoint_send_eof (\<lambda>w. (None, w @ ''!'')) \<lparr>ep_eof_sent = False\<rparr> ''x'' = (None, \<lparr>ep_eof_sent = True\<rparr>, ''x!'')"
    by (simp add: endpoint_send_eof_def)
  from send_eof_final [OF this, of "\<lambda>p. ([p], None)" "\<lambda>cs t w. Some (None, w @ concat (fst cs))" "''ab''" None "''x''"]
  show ?thesis by simp
qed

end
