(* ===== verification/Delivery.thy ===== *)
theory Delivery
  imports Endpoint
begin

text \<open>
  What a sequence of receive calls delivers.  The contract \<open>packet_receiver\<close> describes one receive
  call on an endpoint; both receiver implementations satisfy it, for every transport that hands on
  the bytes of the peer in pieces of its own choosing and may time out or fail at any moment.
\<close>

section \<open>The incoming stream\<close>

text \<open>
  \<open>incoming w\<close> are the bytes of the peer that have not been read yet.  Reading takes some of them,
  reports the end only when there are none, or fails and leaves them where they are.
\<close>

definition stream_source :: "('w \<Rightarrow> bytes) \<Rightarrow> 'w receive_fun \<Rightarrow> bool" where
  "stream_source incoming recv \<longleftrightarrow> (\<forall>n t w r w'. 0 < n \<longrightarrow> recv n t w = (r, w') \<longrightarrow>
     (case r of
        Inl e \<Rightarrow> \<not> is_StreamProtocolParseError e \<and> incoming w' = incoming w
      | Inr c \<Rightarrow> length c \<le> n \<and> incoming w = c @ incoming w' \<and> (c = [] \<longrightarrow> incoming w = [])))"

lemma stream_sourceD:
  assumes "stream_source incoming recv" and "0 < n"
  shows "recv n t w = (Inl e, w') \<Longrightarrow> \<not> is_StreamProtocolParseError e \<and> incoming w' = incoming w"
    and "recv n t w = (Inr c, w') \<Longrightarrow>
      length c \<le> n \<and> incoming w = c @ incoming w' \<and> (c = [] \<longrightarrow> incoming w = [])"
proof -
  have law: "case r of
        Inl e \<Rightarrow> \<not> is_StreamProtocolParseError e \<and> incoming w' = incoming w
      | Inr c \<Rightarrow> length c \<le> n \<and> incoming w = c @ incoming w' \<and> (c = [] \<longrightarrow> incoming w = [])"
    if "recv n t w = (r, w')" for r
    using assms that unfolding stream_source_def by blast
  show "recv n t w = (Inl e, w') \<Longrightarrow> \<not> is_StreamProtocolParseError e \<and> incoming w' = incoming w"
    using law [of "Inl e"] by simp
  show "recv n t w = (Inr c, w') \<Longrightarrow>
      length c \<le> n \<and> incoming w = c @ incoming w' \<and> (c = [] \<longrightarrow> incoming w = [])"
    using law [of "Inr c"] by auto
qed

text \<open>A decoded event and the result of a call: equal up to the remaining data an error carries.\<close>

fun result_of :: "exc + 'p \<Rightarrow> exc + 'p \<Rightarrow> bool" where
  "result_of (Inr p) (Inr q) \<longleftrightarrow> p = q"
| "result_of (Inl e) (Inl e') \<longleftrightarrow> (\<exists>r. e' = with_remaining r e) \<and> is_StreamProtocolParseError e'"
| "result_of _ _ \<longleftrightarrow> False"

text \<open>The results that carry a packet or a parse error, the others say that nothing was received.\<close>

fun is_delivery :: "exc + 'p \<Rightarrow> bool" where
  "is_delivery (Inr _) = True"
| "is_delivery (Inl e) = is_StreamProtocolParseError e"

lemma result_of_delivery: "result_of ev res \<Longrightarrow> is_delivery res"
  by (cases ev; cases res) auto

text \<open>
  The results of a sequence of calls against the events of the stream: those delivered so far are the first ones, in
  order, and all of them when \<open>at_end\<close> holds.
\<close>

definition delivered :: "(exc + 'p) list \<Rightarrow> (exc + 'p) list \<Rightarrow> bool \<Rightarrow> bool" where
  "delivered evs rs at_end \<longleftrightarrow>
     (\<exists>done todo. evs = done @ todo \<and> list_all2 result_of done (filter is_delivery rs) \<and> (at_end \<longrightarrow> todo = []))"

lemma delivered_Nil: "(at_end \<Longrightarrow> evs = []) \<Longrightarrow> delivered evs [] at_end"
  by (auto simp: delivered_def)

lemma delivered_event: "result_of ev res \<Longrightarrow> delivered evs rs at_end \<Longrightarrow> delivered (ev # evs) (res # rs) at_end"
proof -
  assume ev: "result_of ev res" and "delivered evs rs at_end"
  then obtain d td where "evs = d @ td" "list_all2 result_of d (filter is_delivery rs)" "at_end \<longrightarrow> td = []"
    unfolding delivered_def by blast
  with ev result_of_delivery [OF ev] show ?thesis
    unfolding delivered_def by (intro exI [of _ "ev # d"] exI [of _ td]) simp
qed

lemma delivered_other:
  "\<not> is_StreamProtocolParseError e \<Longrightarrow> delivered evs rs at_end \<Longrightarrow> delivered evs (Inl e # rs) at_end"
  by (simp add: delivered_def)

fun receive_calls ::
  "(delay \<Rightarrow> 'rx \<Rightarrow> 'w \<Rightarrow> ((exc + 'p) \<times> 'rx \<times> 'w) option) \<Rightarrow> delay list \<Rightarrow> 'rx \<Rightarrow> 'w
     \<Rightarrow> ((exc + 'p) list \<times> 'rx \<times> 'w) option"
where
  "receive_calls receive [] r w = Some ([], r, w)"
| "receive_calls receive (t # ts) r w =
     (case receive t r w of
        None \<Rightarrow> None
      | Some (res, r', w') \<Rightarrow>
          (case receive_calls receive ts r' w' of
             None \<Rightarrow> None
           | Some (rs, r'', w'') \<Rightarrow> Some (res # rs, r'', w'')))"

section \<open>The contract of a receiver\<close>

locale packet_receiver =
  fixes out :: "bytes \<Rightarrow> 'p verdict"
    and receive :: "delay \<Rightarrow> 'rx \<Rightarrow> 'w \<Rightarrow> ((exc + 'p) \<times> 'rx \<times> 'w) option"
    and inv :: "'rx \<Rightarrow> bool"
    and eof :: "'rx \<Rightarrow> bool"
    and pending :: "'rx \<Rightarrow> bytes"
    and incoming :: "'w \<Rightarrow> bytes"
  assumes eof_drained: "inv r \<Longrightarrow> eof r \<Longrightarrow> out (pending r) = More"
    and receive_step: "inv r \<Longrightarrow>
      decodes out (pending r @ (if eof r then [] else incoming w)) evs rest \<Longrightarrow>
      \<exists>res r' w'. receive t r w = Some (res, r', w') \<and> inv r'
        \<and> ((\<exists>ev evs'. evs = ev # evs' \<and> result_of ev res
              \<and> decodes out (pending r' @ (if eof r' then [] else incoming w')) evs' rest)
           \<or> (\<exists>e. res = Inl e \<and> \<not> is_StreamProtocolParseError e
              \<and> decodes out (pending r' @ (if eof r' then [] else incoming w')) evs rest))"
begin

text \<open>
  Any number of calls with any timeouts delivers the events of the stream in order, none lost and
  none twice; and all of them once the end of the stream is reported.
\<close>

lemma receive_calls_delivery:
  assumes "inv r" and "decodes out (pending r @ (if eof r then [] else incoming w)) evs rest"
  shows "\<exists>rs r' w' done todo. receive_calls receive ts r w = Some (rs, r', w')
    \<and> evs = done @ todo \<and> list_all2 result_of done (filter is_delivery rs) \<and> length rs = length ts
    \<and> (eof r' \<longrightarrow> todo = [] \<and> pending r' = rest) \<and> inv r'"
  using assms
proof (induction ts arbitrary: r w evs)
  case Nil
  have "evs = [] \<and> pending r = rest" if "eof r"
    using Nil eof_drained [OF Nil(1) that] that by (auto elim: decodes.cases)
  with Nil(1) show ?case by auto
next
  case (Cons t ts)
  from receive_step [OF Cons.prems, of t] obtain res r1 w1 where
    step: "receive t r w = Some (res, r1, w1)" "inv r1" and
    res: "(\<exists>ev evs'. evs = ev # evs' \<and> result_of ev res
              \<and> decodes out (pending r1 @ (if eof r1 then [] else incoming w1)) evs' rest)
           \<or> (\<exists>e. res = Inl e \<and> \<not> is_StreamProtocolParseError e
              \<and> decodes out (pending r1 @ (if eof r1 then [] else incoming w1)) evs rest)"
    by blast
  from res show ?case
  proof
    assume "\<exists>ev evs'. evs = ev # evs' \<and> result_of ev res
              \<and> decodes out (pending r1 @ (if eof r1 then [] else incoming w1)) evs' rest"
    then obtain ev evs' where ev: "evs = ev # evs'" "result_of ev res"
      "decodes out (pending r1 @ (if eof r1 then [] else incoming w1)) evs' rest" by blast
    from Cons.IH [OF step(2) ev(3)] obtain rs r' w' d td where
      "receive_calls receive ts r1 w1 = Some (rs, r', w')" "evs' = d @ td"
      "list_all2 result_of d (filter is_delivery rs)" "length rs = length ts"
      "eof r' \<longrightarrow> td = [] \<and> pending r' = rest" "inv r'" by blast
    with ev step result_of_delivery [OF ev(2)] show ?thesis
      by (intro exI [of _ "res # rs"] exI [of _ r'] exI [of _ w'] exI [of _ "ev # d"] exI [of _ td]) simp
  next
    assume "\<exists>e. res = Inl e \<and> \<not> is_StreamProtocolParseError e
              \<and> decodes out (pending r1 @ (if eof r1 then [] else incoming w1)) evs rest"
    then obtain e where e: "res = Inl e" "\<not> is_StreamProtocolParseError e"
      "decodes out (pending r1 @ (if eof r1 then [] else incoming w1)) evs rest" by blast
    from Cons.IH [OF step(2) e(3)] obtain rs r' w' d td where
      "receive_calls receive ts r1 w1 = Some (rs, r', w')" "evs = d @ td"
      "list_all2 result_of d (filter is_delivery rs)" "length rs = length ts"
      "eof r' \<longrightarrow> td = [] \<and> pending r' = rest" "inv r'" by blast
    with e step show ?thesis
      by (intro exI [of _ "res # rs"] exI [of _ r'] exI [of _ w'] exI [of _ d] exI [of _ td]) simp
  qed
qed

end

section \<open>The receiver over a chunk consumer\<close>

definition dr_inv ::
  "(bytes \<Rightarrow> 'r verdict) \<Rightarrow> ('k \<Rightarrow> bool) \<Rightarrow> ('k \<Rightarrow> bytes) \<Rightarrow> 'k data_receiver \<Rightarrow> bool"
where
  "dr_inv out wfk received r \<longleftrightarrow>
     sc_inv out wfk received (dr_consumer r) \<and> 0 < dr_max_recv_size r \<and>
     (dr_eof_reached r \<longrightarrow> out (sc_pending received (dr_consumer r)) = More)"

lemma spec_next_verdict:
  assumes "(res, m) = spec_next crash out p c"
  shows "out (p @ c) = More \<Longrightarrow> res = Stop \<and> m = p @ c"
    and "out (p @ c) = Done q r \<Longrightarrow> res = Packet q \<and> m = r"
    and "out (p @ c) = Bad (StreamProtocolParseError [] e) r \<Longrightarrow>
      \<exists>e'. res = Error e' \<and> m = r \<and> result_of (Inl (StreamProtocolParseError [] e)) (Inl e')"
  using assms
  by (auto simp: spec_next_def spec_error_def intro: exI [of _ r])

context stream_protocol
begin

abbreviation "pend r \<equiv> sc_pending received (dr_consumer r)"
abbreviation "rinv \<equiv> dr_inv out wf received"

text \<open>One call of \<^verbatim>\<open>consumer.next\<close> on the way to the events of the stream.\<close>

lemma consumer_next_decodes:
  assumes "sc_inv out wf received st"
    and dec: "decodes out ((sc_pending received st @ (case chunk of None \<Rightarrow> [] | Some c \<Rightarrow> c)) @ x) evs rest"
  shows "\<exists>res st'. consumer_next start send st chunk = (res, st') \<and> sc_inv out wf received st' \<and>
    (case res of
       Stop \<Rightarrow> out (sc_pending received st') = More \<and> decodes out (sc_pending received st' @ x) evs rest
     | Packet p \<Rightarrow> \<exists>evs'. evs = Inr p # evs' \<and> decodes out (sc_pending received st' @ x) evs' rest
     | Error e' \<Rightarrow> \<exists>e evs'. evs = Inl e # evs' \<and> result_of (Inl e) (Inl e' :: exc + 'r)
         \<and> decodes out (sc_pending received st' @ x) evs' rest)"
proof -
  let ?c = "case chunk of None \<Rightarrow> [] | Some c \<Rightarrow> c"
  let ?d = "sc_pending received st @ ?c"
  obtain res st' where n: "consumer_next start send st chunk = (res, st')" by fastforce
  with consumer_next_refines [OF assms(1), of chunk] have inv: "sc_inv out wf received st'"
    and ref: "(res, sc_pending received st') = spec_next chunks_crashed out (sc_pending received st) ?c" by auto
  note v = spec_next_verdict [OF ref]
  show ?thesis
  proof (cases "out ?d")
    case More
    with v(1) n inv dec show ?thesis by auto
  next
    case (Done p r)
    from decodes_after_done [OF dec Done] v(2) [OF Done] n inv show ?thesis by auto
  next
    case (Bad e r)
    then obtain e0 where e: "e = StreamProtocolParseError [] e0" using bad_parse_error by blast
    from decodes_after_bad [OF dec Bad] v(3) [OF Bad [unfolded e]] n inv e show ?thesis
      by (auto split: next_result.splits)
  qed (use decodes_not_fatal [OF dec] in auto)
qed

lemma data_receive_loop_step:
  assumes src: "stream_source incoming recv" and "rinv r" and "out (pend r) = More"
    and "decodes out (pend r @ (if dr_eof_reached r then [] else incoming w)) evs rest"
    and "length (incoming w) + 1 < fuel \<or> dr_eof_reached r \<and> 0 < fuel"
  shows "\<exists>res r' w'. data_receive_loop fuel clock recv start send t r w = Some (res, r', w') \<and> rinv r'
        \<and> ((\<exists>ev evs'. evs = ev # evs' \<and> result_of ev res
              \<and> decodes out (pend r' @ (if dr_eof_reached r' then [] else incoming w')) evs' rest)
           \<or> (\<exists>e. res = Inl e \<and> \<not> is_StreamProtocolParseError e
              \<and> decodes out (pend r' @ (if dr_eof_reached r' then [] else incoming w')) evs rest))"
  using assms(2-5)
proof (induction fuel arbitrary: t r w)
  case (Suc fuel)
  show ?case
  proof (cases "dr_eof_reached r")
    case True
    with Suc.prems show ?thesis by (auto simp: receive_failed_def end_of_stream_def)
  next
    case False
    have size: "0 < dr_max_recv_size r" using Suc.prems by (simp add: dr_inv_def)
    obtain o1 w1 where rcv: "recv (dr_max_recv_size r) t w = (o1, w1)" by fastforce
    show ?thesis
    proof (cases o1)
      case (Inl e)
      with stream_sourceD(1) [OF src size, of t w] rcv Suc.prems False show ?thesis by auto
    next
      case (Inr c)
      with stream_sourceD(2) [OF src size, of t w] rcv
      have c: "length c \<le> dr_max_recv_size r" "incoming w = c @ incoming w1" "c = [] \<longrightarrow> incoming w = []" by auto
      show ?thesis
      proof (cases "c = []")
        case True
        let ?r = "r\<lparr>dr_eof_reached := True\<rparr>"
        from Suc.prems have "rinv ?r" by (simp add: dr_inv_def)
        moreover have "0 < fuel" using Suc.prems False by auto
        ultimately show ?thesis
          using Suc.IH [of ?r w1 t] Suc.prems True False c rcv Inr by simp
      next
        case cne: False
        have "decodes out ((pend r @ (case Some c of None \<Rightarrow> [] | Some c \<Rightarrow> c)) @ incoming w1) evs rest"
          using Suc.prems c False by simp
        from consumer_next_decodes [OF _ this] Suc.prems obtain res st'
          where n: "consumer_next start send (dr_consumer r) (Some c) = (res, st')" "sc_inv out wf received st'"
            and res: "case res of
               Stop \<Rightarrow> out (sc_pending received st') = More
                 \<and> decodes out (sc_pending received st' @ incoming w1) evs rest
             | Packet p \<Rightarrow> \<exists>evs'. evs = Inr p # evs' \<and> decodes out (sc_pending received st' @ incoming w1) evs' rest
             | Error e' \<Rightarrow> \<exists>e evs'. evs = Inl e # evs' \<and> result_of (Inl e) (Inl e' :: exc + 'r)
                 \<and> decodes out (sc_pending received st' @ incoming w1) evs' rest"
          by (auto simp: dr_inv_def)
        let ?r = "r\<lparr>dr_consumer := st'\<rparr>"
        have inv: "rinv ?r" using n(2) size False by (simp add: dr_inv_def)
        show ?thesis
        proof (cases res)
          case Stop
          have "length (incoming w1) + 1 < fuel" using Suc.prems c cne False by (cases c) auto
          then have "\<exists>res r' w'. data_receive_loop fuel clock recv start send t' ?r w1 = Some (res, r', w') \<and> rinv r'
              \<and> ((\<exists>ev evs'. evs = ev # evs' \<and> result_of ev res
                    \<and> decodes out (pend r' @ (if dr_eof_reached r' then [] else incoming w')) evs' rest)
                 \<or> (\<exists>e. res = Inl e \<and> \<not> is_StreamProtocolParseError e
                    \<and> decodes out (pend r' @ (if dr_eof_reached r' then [] else incoming w')) evs rest))" for t'
            using Suc.IH [OF inv, of w1 t'] res Stop False by simp
          then show ?thesis
            using rcv Inr cne False n Stop inv res
            by (simp add: Let_def receive_failed_def error_from_errno_def)
        next
          case (Packet p)
          with rcv Inr cne False n inv res show ?thesis by auto
        next
          case (Error e)
          with rcv Inr cne False n inv res show ?thesis by fastforce
        qed
      qed
    qed
  qed
qed simp

lemma packet_receiver_data:
  assumes src: "stream_source incoming recv"
  shows "packet_receiver out
           (\<lambda>t r w. data_receive (length (incoming w) + 2) clock recv start send t r w)
           rinv dr_eof_reached pend incoming"
proof
  show "out (pend r) = More" if "rinv r" "dr_eof_reached r" for r using that by (simp add: dr_inv_def)
next
  fix r w evs rest t
  assume inv: "rinv r" and dec: "decodes out (pend r @ (if dr_eof_reached r then [] else incoming w)) evs rest"
  let ?x = "if dr_eof_reached r then [] else incoming w"
  from dec have "decodes out ((pend r @ (case None of None \<Rightarrow> [] | Some c \<Rightarrow> c)) @ ?x) evs rest" by simp
  from consumer_next_decodes [OF _ this] inv obtain res st'
    where n: "consumer_next start send (dr_consumer r) None = (res, st')" "sc_inv out wf received st'"
      and res: "case res of
         Stop \<Rightarrow> out (sc_pending received st') = More \<and> decodes out (sc_pending received st' @ ?x) evs rest
       | Packet p \<Rightarrow> \<exists>evs'. evs = Inr p # evs' \<and> decodes out (sc_pending received st' @ ?x) evs' rest
       | Error e' \<Rightarrow> \<exists>e evs'. evs = Inl e # evs' \<and> result_of (Inl e) (Inl e' :: exc + 'r)
           \<and> decodes out (sc_pending received st' @ ?x) evs' rest"
    by (auto simp: dr_inv_def)
  let ?r = "r\<lparr>dr_consumer := st'\<rparr>"
  have drained: "res = Stop" if "dr_eof_reached r"
  proof -
    have "evs = []" using dec inv that by (auto simp: dr_inv_def elim: decodes.cases)
    with res show ?thesis by (cases res) auto
  qed
  show "\<exists>res r' w'. data_receive (length (incoming w) + 2) clock recv start send t r w = Some (res, r', w') \<and> rinv r'
      \<and> ((\<exists>ev evs'. evs = ev # evs' \<and> result_of ev res
            \<and> decodes out (pend r' @ (if dr_eof_reached r' then [] else incoming w')) evs' rest)
         \<or> (\<exists>e. res = Inl e \<and> \<not> is_StreamProtocolParseError e
            \<and> decodes out (pend r' @ (if dr_eof_reached r' then [] else incoming w')) evs rest))"
  proof (cases res)
    case Stop
    then have "rinv ?r" using n(2) res inv by (simp add: dr_inv_def)
    from data_receive_loop_step [OF src this, of w evs rest "length (incoming w) + 2" clock t] Stop res n
    show ?thesis by (simp add: data_receive_def del: data_receive_loop.simps)
  next
    case (Packet p)
    with drained have "\<not> dr_eof_reached r" by auto
    with n inv Packet res show ?thesis by (auto simp: data_receive_def dr_inv_def)
  next
    case (Error e)
    with drained have "\<not> dr_eof_reached r" by auto
    with n inv Error res show ?thesis by (fastforce simp: data_receive_def dr_inv_def)
  qed
qed

end

section \<open>The receiver over a buffered consumer\<close>

definition br_inv ::
  "(bytes \<Rightarrow> 'r verdict) \<Rightarrow> ('k \<Rightarrow> bytes \<Rightarrow> bool) \<Rightarrow> ('k \<Rightarrow> nat) \<Rightarrow> ('k \<Rightarrow> bytes \<Rightarrow> bytes) \<Rightarrow> int \<Rightarrow> nat
     \<Rightarrow> 'k buffered_receiver \<Rightarrow> bool"
where
  "br_inv out wfb pos received hint cap r \<longleftrightarrow>
     bc_inv out wfb pos received hint cap (br_consumer r) \<and>
     (br_eof_reached r \<longrightarrow> out (bc_pending pos received (br_consumer r)) = More)"

lemma fill_write_buffer_Nil [simp]: "fill_write_buffer [] st = st"
proof -
  have "write_at offset [] b = b" for offset b by (simp add: write_at_def)
  then have "map_option (write_at offset []) (bc_buffer st) = bc_buffer st" for offset
    by (cases "bc_buffer st") simp_all
  then show ?thesis by (auto simp: fill_write_buffer_def split: option.split)
qed

locale buffered_packets = buffered_parser out create bstart bsend wfb pos received hint cap
  for out :: "bytes \<Rightarrow> 'r verdict" and create and bstart :: "bytes \<Rightarrow> ('r \<times> bytes, 'k) buffered_step"
    and bsend and wfb and pos and received and hint and cap +
  assumes bad_parse_error: "out d = Bad e r \<Longrightarrow> \<exists>e'. e = StreamProtocolParseError [] e'"
begin

abbreviation "bpend r \<equiv> Pending (br_consumer r)"
abbreviation "brinv \<equiv> br_inv out wfb pos received hint cap"

lemma bad_law: "\<forall>d e r. out d = Bad e r \<longrightarrow> (\<exists>e'. e = StreamProtocolParseError [] e')"
  using bad_parse_error by blast

definition next_decodes :: "'r next_result \<Rightarrow> 'k buffered_consumer \<Rightarrow> bytes \<Rightarrow> (exc + 'r) list \<Rightarrow> bytes \<Rightarrow> bool" where
  "next_decodes res st x evs rest \<longleftrightarrow> Inv st \<and>
    (case res of
       Stop \<Rightarrow> out (Pending st) = More \<and> decodes out (Pending st @ x) evs rest \<and> bc_written st = 0
     | Packet p \<Rightarrow> \<exists>evs'. evs = Inr p # evs' \<and> decodes out (Pending st @ x) evs' rest
     | Error e' \<Rightarrow> \<exists>e evs'. evs = Inl e # evs' \<and> result_of (Inl e) (Inl e' :: exc + 'r)
         \<and> decodes out (Pending st @ x) evs' rest)"

lemma spec_next_decodes:
  assumes ref: "(res, Pending st') = spec_next crash out p c" and "Inv st'" and "res = Stop \<longrightarrow> bc_written st' = 0"
    and dec: "decodes out ((p @ c) @ x) evs rest"
  shows "next_decodes res st' x evs rest"
proof -
  note v = spec_next_verdict [OF ref]
  show ?thesis
  proof (cases "out (p @ c)")
    case More
    with v(1) assms show ?thesis by (auto simp: next_decodes_def)
  next
    case (Done q r)
    from decodes_after_done [OF dec Done] v(2) [OF Done] assms show ?thesis by (auto simp: next_decodes_def)
  next
    case (Bad e r)
    then obtain e0 where e: "e = StreamProtocolParseError [] e0" using bad_parse_error by blast
    from decodes_after_bad [OF dec Bad] v(3) [OF Bad [unfolded e]] assms e show ?thesis
      by (auto simp: next_decodes_def split: next_result.splits)
  qed (use decodes_not_fatal [OF dec] in auto)
qed

lemma buffered_next_none_decodes:
  assumes "Inv st" and dec: "decodes out (Pending st @ x) evs rest"
  shows "\<exists>res st'. buffered_next P st None = (res, st') \<and> next_decodes res st' x evs rest"
proof -
  from buffered_next_none_refines [OF assms(1) bad_law decodes_not_fatal [OF dec]] obtain res st'
    where "buffered_next P st None = (res, st')" "Inv st'"
      "(res, Pending st') = spec_next buffer_crashed out (Pending st) []" "res = Stop \<longrightarrow> bc_written st' = 0"
    by blast
  with spec_next_decodes [of res st' _ "Pending st" "[]"] dec show ?thesis by auto
qed

text \<open>One reception into the buffer, between packets: there is room, and what was received can be parsed.\<close>

lemma buffered_reception:
  assumes "Inv st" and "out (Pending st) = More" and "bc_written st = 0"
  shows "\<exists>offset len st1. get_write_buffer P st = (Inr (offset, len), st1) \<and> Inv st1 \<and> Pending st1 = Pending st
    \<and> 0 < len \<and> (\<forall>c x evs rest. length c \<le> len \<longrightarrow> decodes out ((Pending st @ c) @ x) evs rest \<longrightarrow>
          (\<exists>res st'. buffered_next P (fill_write_buffer c st1) (Some (int (length c))) = (res, st')
             \<and> next_decodes res st' x evs rest))"
proof -
  have "pos k + bc_written st < cap" if "bc_consumer st = Some k" for k
    using assms that wf_space [of k "buffer_contents st"]
    by (auto simp: bc_inv_def buffer_contents_def split: option.splits)
  from get_write_buffer_ok [OF assms(1) this] obtain offset len st1
    where buf: "get_write_buffer P st = (Inr (offset, len), st1)" "Inv st1"
      "bc_view st1 = Some (offset, len)" "Pending st1 = Pending st" "0 < len" by auto
  have "\<exists>res st'. buffered_next P (fill_write_buffer c st1) (Some (int (length c))) = (res, st')
      \<and> next_decodes res st' x evs rest"
    if "length c \<le> len" and "decodes out ((Pending st @ c) @ x) evs rest" for c x evs rest
  proof -
    from that(2) buf(4) have dec: "decodes out ((Pending st1 @ c) @ x) evs rest" by simp
    from buffered_next_refines [OF buf(2,3) that(1) bad_law decodes_not_fatal [OF dec]] obtain res st'
      where "buffered_next P (fill_write_buffer c st1) (Some (int (length c))) = (res, st')" "Inv st'"
        "(res, Pending st') = spec_next buffer_crashed out (Pending st1) c" "res = Stop \<longrightarrow> bc_written st' = 0"
      by blast
    with spec_next_decodes [OF this(3,2,4) dec] show ?thesis by blast
  qed
  with buf show ?thesis by blast
qed

lemma buffered_receive_loop_step:
  assumes src: "stream_source incoming recv" and "brinv r" and "out (bpend r) = More"
    and "bc_written (br_consumer r) = 0"
    and "decodes out (bpend r @ (if br_eof_reached r then [] else incoming w)) evs rest"
    and "length (incoming w) + 1 < fuel \<or> br_eof_reached r \<and> 0 < fuel"
  shows "\<exists>res r' w'. buffered_receive_loop fuel clock recv P t r w = Some (res, r', w') \<and> brinv r'
        \<and> ((\<exists>ev evs'. evs = ev # evs' \<and> result_of ev res
              \<and> decodes out (bpend r' @ (if br_eof_reached r' then [] else incoming w')) evs' rest)
           \<or> (\<exists>e. res = Inl e \<and> \<not> is_StreamProtocolParseError e
              \<and> decodes out (bpend r' @ (if br_eof_reached r' then [] else incoming w')) evs rest))"
  using assms(2-6)
proof (induction fuel arbitrary: t r w)
  case (Suc fuel)
  show ?case
  proof (cases "br_eof_reached r")
    case True
    with Suc.prems show ?thesis by (auto simp: receive_failed_def end_of_stream_def)
  next
    case False
    have inv: "Inv (br_consumer r)" using Suc.prems by (simp add: br_inv_def)
    from buffered_reception [OF inv Suc.prems(2,3)] obtain offset len st
      where buf: "get_write_buffer P (br_consumer r) = (Inr (offset, len), st)" "Inv st" "Pending st = bpend r" "0 < len"
      and fill: "\<And>c x evs rest. length c \<le> len \<Longrightarrow> decodes out ((bpend r @ c) @ x) evs rest \<Longrightarrow>
          \<exists>res st'. buffered_next P (fill_write_buffer c st) (Some (int (length c))) = (res, st')
             \<and> next_decodes res st' x evs rest" by blast
    obtain o1 w1 where rcv: "recv len t w = (o1, w1)" by fastforce
    show ?thesis
    proof (cases o1)
      case (Inl e)
      with stream_sourceD(1) [OF src buf(4), of t w] rcv Suc.prems False buf show ?thesis
        by (auto simp: br_inv_def)
    next
      case (Inr c)
      with stream_sourceD(2) [OF src buf(4), of t w] rcv
      have c: "length c \<le> len" "incoming w = c @ incoming w1" "c = [] \<longrightarrow> incoming w = []" by auto
      show ?thesis
      proof (cases "c = []")
        case True
        let ?r = "r\<lparr>br_consumer := st, br_eof_reached := True\<rparr>"
        have "brinv ?r" using buf Suc.prems by (simp add: br_inv_def)
        moreover have "0 < fuel" using Suc.prems False by auto
        moreover from this obtain f where "fuel = Suc f" by (cases fuel) auto
        ultimately show ?thesis
          using Suc.prems True False c rcv Inr buf by (simp add: receive_failed_def end_of_stream_def)
      next
        case cne: False
        have "decodes out ((bpend r @ c) @ incoming w1) evs rest" using Suc.prems c False by simp
        from fill [OF c(1) this] obtain res st' where
          n: "buffered_next P (fill_write_buffer c st) (Some (int (length c))) = (res, st')"
          and nd: "next_decodes res st' (incoming w1) evs rest" by blast
        then have inv': "Inv st'" by (simp add: next_decodes_def)
        let ?r = "r\<lparr>br_consumer := st'\<rparr>"
        have rinv: "brinv ?r" using inv' False by (simp add: br_inv_def)
        show ?thesis
        proof (cases res)
          case Stop
          have "length (incoming w1) + 1 < fuel" using Suc.prems c cne False by (cases c) auto
          then have "\<exists>res r' w'. buffered_receive_loop fuel clock recv P t' ?r w1 = Some (res, r', w') \<and> brinv r'
              \<and> ((\<exists>ev evs'. evs = ev # evs' \<and> result_of ev res
                    \<and> decodes out (bpend r' @ (if br_eof_reached r' then [] else incoming w')) evs' rest)
                 \<or> (\<exists>e. res = Inl e \<and> \<not> is_StreamProtocolParseError e
                    \<and> decodes out (bpend r' @ (if br_eof_reached r' then [] else incoming w')) evs rest))" for t'
            using Suc.IH [OF rinv, of w1 t'] nd Stop False by (simp add: next_decodes_def)
          then show ?thesis
            using rcv Inr cne False n Stop rinv nd buf
            by (simp add: Let_def receive_failed_def error_from_errno_def next_decodes_def)
        next
          case (Packet p)
          with rcv Inr cne False n rinv nd buf show ?thesis by (auto simp: next_decodes_def)
        next
          case (Error e)
          with rcv Inr cne False n rinv nd buf show ?thesis by (fastforce simp: next_decodes_def)
        qed
      qed
    qed
  qed
qed simp

lemma packet_receiver_buffered:
  assumes src: "stream_source incoming recv"
  shows "packet_receiver out
           (\<lambda>t r w. buffered_receive (length (incoming w) + 2) clock recv P t r w)
           brinv br_eof_reached bpend incoming"
proof
  show "out (bpend r) = More" if "brinv r" "br_eof_reached r" for r using that by (simp add: br_inv_def)
next
  fix r w evs rest t
  assume inv: "brinv r" and dec: "decodes out (bpend r @ (if br_eof_reached r then [] else incoming w)) evs rest"
  let ?x = "if br_eof_reached r then [] else incoming w"
  from buffered_next_none_decodes [OF _ dec] inv obtain res st'
    where n: "buffered_next P (br_consumer r) None = (res, st')" and nd: "next_decodes res st' ?x evs rest"
    by (auto simp: br_inv_def)
  let ?r = "r\<lparr>br_consumer := st'\<rparr>"
  have drained: "res = Stop" if "br_eof_reached r"
  proof -
    have "evs = []" using dec inv that by (auto simp: br_inv_def elim: decodes.cases)
    with nd show ?thesis by (cases res) (auto simp: next_decodes_def)
  qed
  show "\<exists>res r' w'. buffered_receive (length (incoming w) + 2) clock recv P t r w = Some (res, r', w') \<and> brinv r'
      \<and> ((\<exists>ev evs'. evs = ev # evs' \<and> result_of ev res
            \<and> decodes out (bpend r' @ (if br_eof_reached r' then [] else incoming w')) evs' rest)
         \<or> (\<exists>e. res = Inl e \<and> \<not> is_StreamProtocolParseError e
            \<and> decodes out (bpend r' @ (if br_eof_reached r' then [] else incoming w')) evs rest))"
  proof (cases res)
    case Stop
    then have "brinv ?r" using nd inv by (simp add: br_inv_def next_decodes_def)
    from buffered_receive_loop_step [OF src this, of w evs rest "length (incoming w) + 2" clock t] Stop nd n
    show ?thesis by (simp add: buffered_receive_def next_decodes_def del: buffered_receive_loop.simps)
  next
    case (Packet p)
    with drained have "\<not> br_eof_reached r" by auto
    with n nd Packet show ?thesis by (auto simp: buffered_receive_def br_inv_def next_decodes_def)
  next
    case (Error e)
    with drained have "\<not> br_eof_reached r" by auto
    with n nd Error show ?thesis by (fastforce simp: buffered_receive_def br_inv_def next_decodes_def)
  qed
qed

end

end
