(* ===== verification/LineSerializer.thy ===== *)
theory LineSerializer
  imports BufferedSerializers
begin

text \<open>
  \<^verbatim>\<open>StringLineSerializer\<close> of \<^verbatim>\<open>src/src/easynetwork/serializers/line.py\<close>.

  A Python \<^verbatim>\<open>str\<close> is the list of its code points.  \<^verbatim>\<open>bytes(packet, encoding, errors)\<close> and
  \<^verbatim>\<open>str(data, encoding, errors)\<close> are the two fields of a codec; the default codec, strict ASCII, is
  written out.
\<close>

type_synonym str = "nat list"

record codec =
  codec_encode :: "str \<Rightarrow> exc + bytes"
  codec_decode :: "bytes \<Rightarrow> exc + str"

definition ascii_codec :: codec where
  "ascii_codec =
     \<lparr>codec_encode = (\<lambda>s. if list_all (\<lambda>c. c < 128) s then Inr (map char_of s) else Inl UnicodeError),
      codec_decode = (\<lambda>b. if list_all (\<lambda>c. of_char c < (128 :: nat)) b then Inr (map of_char b)
                          else Inl UnicodeError)\<rparr>"

lemma ascii_decode_encode:
  "codec_encode ascii_codec s = Inr b \<Longrightarrow> codec_decode ascii_codec b = Inr s"
proof -
  assume "codec_encode ascii_codec s = Inr b"
  then have s: "\<forall>c \<in> set s. c < 128" and b: "b = map char_of s"
    by (auto simp: ascii_codec_def list_all_iff split: if_splits)
  have "c mod 256 = c" if "c < 128" for c :: nat using that by simp
  with s show ?thesis
    by (auto simp: b ascii_codec_def list_all_iff comp_def intro!: map_idI)
qed

section \<open>The serializer\<close>

datatype newline = LF | CR | CRLF

fun newline_separator :: "newline \<Rightarrow> bytes" where
  "newline_separator LF = [CHR 0x0A]"
| "newline_separator CR = [CHR 0x0D]"
| "newline_separator CRLF = [CHR 0x0D, CHR 0x0A]"

record string_line =
  sl_separator :: bytes
  sl_limit :: int
  sl_keep_end :: bool
  sl_codec :: codec
  sl_debug :: bool

definition string_line_init :: "newline \<Rightarrow> codec \<Rightarrow> int \<Rightarrow> bool \<Rightarrow> bool \<Rightarrow> exc + string_line" where
  "string_line_init newline codec limit keep_end debug =
     (if limit \<le> 0 then Inl (ValueError ''limit must be a positive integer'')
      else Inr \<lparr>sl_separator = newline_separator newline, sl_limit = limit, sl_keep_end = keep_end,
                sl_codec = codec, sl_debug = debug\<rparr>)"

definition line_serialize :: "string_line \<Rightarrow> str \<Rightarrow> exc + bytes" where
  "line_serialize l packet = codec_encode (sl_codec l) packet"

definition line_incremental_serialize :: "string_line \<Rightarrow> str \<Rightarrow> chunks" where
  "line_incremental_serialize l packet =
     (case codec_encode (sl_codec l) packet of
        Inl e \<Rightarrow> ([], Some e)
      | Inr data \<Rightarrow>
          if data = [] then ([], None)
          else ([if endswith data (sl_separator l) then data else data @ sl_separator l], None))"

definition line_error_info :: "string_line \<Rightarrow> info" where
  "line_error_info l = (if sl_debug l then Some [''data''] else None)"

definition line_deserialize :: "string_line \<Rightarrow> bytes \<Rightarrow> exc + str" where
  "line_deserialize l data =
     (let data = (if sl_keep_end l then data else strip_suffixes (sl_separator l) data) in
      case codec_decode (sl_codec l) data of
        Inl UnicodeError \<Rightarrow> Inl (DeserializeError '''' (line_error_info l))
      | Inl e \<Rightarrow> Inl e
      | Inr packet \<Rightarrow> Inr packet)"

text \<open>The \<^verbatim>\<open>except UnicodeError\<close> clause of both incremental methods; the message is the codec's.\<close>

definition except_unicode :: "string_line \<Rightarrow> handler" where
  "except_unicode l e = (if e = UnicodeError then Some ('''', line_error_info l) else None)"

definition line_after_read ::
  "string_line \<Rightarrow> bytes \<times> reader \<Rightarrow> (unit, str \<times> bytes, exc, until_frame) gen_step"
where
  "line_after_read l dr =
     (case dr of (data, rd) \<Rightarrow>
        let (remainder, rd') = read_all rd
        in deserialize_or_wrap (except_unicode l) (codec_decode (sl_codec l)) data remainder)"

definition line_deserialize_start ::
  "string_line \<Rightarrow> (unit, str \<times> bytes, exc, until_frame) gen_step"
where
  "line_deserialize_start l =
     then_step (line_after_read l) fst
       (until_start (sl_separator l) (sl_limit l) (sl_keep_end l) (new_reader []))"

definition line_deserialize_send ::
  "string_line \<Rightarrow> until_frame \<Rightarrow> bytes \<Rightarrow> (unit, str \<times> bytes, exc, until_frame) gen_step"
where
  "line_deserialize_send l k chunk =
     then_step (line_after_read l) fst
       (until_send (sl_separator l) (sl_limit l) (sl_keep_end l) k chunk)"

definition line_create_buffer :: "string_line \<Rightarrow> int \<Rightarrow> exc + created_buffer" where
  "line_create_buffer l sizehint = Inr (bytearray (nat (sl_limit l)))"

definition line_buffered_after ::
  "string_line \<Rightarrow> bytes \<Rightarrow> nat \<times> nat \<times> nat \<Rightarrow> (str \<times> bytes, buffered_until_frame) buffered_step"
where
  "line_buffered_after l buffer found =
     (case found of (sepidx, offset, buflen) \<Rightarrow>
        deserialize_or_wrap (except_unicode l) (codec_decode (sl_codec l))
          (if sl_keep_end l then take offset buffer else take sepidx buffer) (drop offset (take buflen buffer)))"

definition line_buffered_start ::
  "string_line \<Rightarrow> bytes \<Rightarrow> (str \<times> bytes, buffered_until_frame) buffered_step"
where
  "line_buffered_start l buffer = then_step (line_buffered_after l buffer) id buffered_readuntil_start"

definition line_buffered_send ::
  "string_line \<Rightarrow> buffered_until_frame \<Rightarrow> bytes \<times> nat \<Rightarrow> (str \<times> bytes, buffered_until_frame) buffered_step"
where
  "line_buffered_send l k bn =
     then_step (line_buffered_after l (fst bn)) id (buffered_readuntil_send (sl_separator l) k bn)"

section \<open>Both receive paths are parsers of the same framing\<close>

definition line_out :: "string_line \<Rightarrow> bytes \<Rightarrow> str verdict" where
  "line_out l =
     separated_out (sl_separator l) (sl_limit l) (sl_keep_end l) (except_unicode l) (codec_decode (sl_codec l))"

definition line_buffered_out :: "string_line \<Rightarrow> bytes \<Rightarrow> str verdict" where
  "line_buffered_out l =
     buffered_separated_out (sl_separator l) (nat (sl_limit l)) (sl_keep_end l) (except_unicode l)
       (codec_decode (sl_codec l))"

definition line_ok :: "string_line \<Rightarrow> bool" where
  "line_ok l \<longleftrightarrow> unbordered (sl_separator l) \<and> int (length (sl_separator l)) \<le> sl_limit l"

lemma newline_unbordered: "unbordered (newline_separator n)"
proof (cases n)
  case CRLF
  then show ?thesis by (auto simp: unbordered_def less_Suc_eq numeral_2_eq_2)
qed simp_all

lemma line_okD: "line_ok l \<Longrightarrow> sl_separator l \<noteq> [] \<and> 0 < sl_limit l \<and> length (sl_separator l) \<le> nat (sl_limit l)"
  by (cases "sl_separator l") (auto simp: line_ok_def unbordered_def)

lemma string_line_init_ok:
  "string_line_init n c limit keep debug = Inr l \<Longrightarrow> 2 \<le> limit \<Longrightarrow> line_ok l"
  by (cases n) (auto simp: string_line_init_def line_ok_def newline_unbordered [of CRLF, simplified])

lemma stream_parser_line:
  assumes "line_ok l"
  shows "stream_parser (line_out l) (line_deserialize_start l) (line_deserialize_send l)
           (until_wf (sl_separator l) (sl_limit l)) until_received"
proof -
  have "line_after_read l (data, rd) =
      deserialize_or_wrap (except_unicode l) (codec_decode (sl_codec l)) data (rbuffer rd)" for data rd
    by (simp add: line_after_read_def read_all_def)
  with line_okD [OF assms] stream_parser_read_until [where after = "line_after_read l"] show ?thesis
    unfolding line_out_def line_deserialize_start_def line_deserialize_send_def [abs_def] by blast
qed

lemma buffered_parser_line:
  assumes "line_ok l"
  shows "buffered_parser (line_buffered_out l) (line_create_buffer l) (line_buffered_start l)
           (line_buffered_send l) (buffered_until_wf (sl_separator l) (nat (sl_limit l)))
           buffered_until_pos buffered_until_received hint (nat (sl_limit l))"
proof -
  have "line_buffered_after l b (i, i + length (sl_separator l), m) =
      deserialize_or_wrap (except_unicode l) (codec_decode (sl_codec l))
        (if sl_keep_end l then take (i + length (sl_separator l)) b else take i b)
        (drop (i + length (sl_separator l)) (take m b))" for b i m
    by (simp add: line_buffered_after_def)
  with line_okD [OF assms] buffered_parser_until [where after = "line_buffered_after l"] show ?thesis
    unfolding line_buffered_out_def line_create_buffer_def [abs_def] line_buffered_start_def [abs_def]
      line_buffered_send_def [abs_def] by blast
qed

text \<open>A line written by the serializer is read back, by either path.\<close>

lemma line_out_line:
  assumes "line_ok l" and "\<not> contains data (sl_separator l)" and "int (length data) \<le> sl_limit l"
    and "codec_decode (sl_codec l) (if sl_keep_end l then data @ sl_separator l else data) = Inr s"
  shows "line_out l (data @ sl_separator l @ rest) = Done s rest"
proof -
  have "bfind (sl_separator l) (data @ sl_separator l) = Some (length data)"
    using assms(1,2) by (intro bfind_append_unbordered) (auto simp: line_ok_def)
  from bfind_append_Some [OF this, of rest] assms(3,4) show ?thesis
    by (cases "sl_keep_end l") (simp_all add: line_out_def separated_out_def read_until_spec_def wrap_verdict_def)
qed

lemma line_buffered_out_line:
  assumes "line_ok l" and "\<not> contains data (sl_separator l)"
    and "int (length data + length (sl_separator l)) < sl_limit l"
    and "codec_decode (sl_codec l) (if sl_keep_end l then data @ sl_separator l else data) = Inr s"
  shows "line_buffered_out l (data @ sl_separator l @ rest) = Done s rest"
proof -
  have "bfind (sl_separator l) (data @ sl_separator l) = Some (length data)"
    using assms(1,2) by (intro bfind_append_unbordered) (auto simp: line_ok_def)
  from bfind_append_Some [OF this, of rest] assms(3,4) show ?thesis
    by (cases "sl_keep_end l") (simp_all add: line_buffered_out_def buffered_separated_out_def wrap_verdict_def)
qed

section \<open>The default serializer\<close>

text \<open>\<^verbatim>\<open>StringLineSerializer()\<close>, and the contracts of the two receive paths on it.\<close>

definition default_line :: string_line where
  "default_line = \<lparr>sl_separator = [CHR 0x0A], sl_limit = 65536, sl_keep_end = False,
     sl_codec = ascii_codec, sl_debug = False\<rparr>"

lemma default_line_init: "string_line_init LF ascii_codec 65536 False False = Inr default_line"
  by (simp add: string_line_init_def default_line_def)

lemma default_line_simps [simp]:
  "sl_separator default_line = [CHR 0x0A]" "sl_limit default_line = 65536"
  "sl_keep_end default_line = False" "sl_codec default_line = ascii_codec"
  by (simp_all add: default_line_def)

lemma line_ok_default [simp]: "line_ok default_line"
  by (simp add: line_ok_def)

text \<open>\<^verbatim>\<open>StreamProtocol(StringLineSerializer())\<close> has no converter.\<close>

abbreviation str_converter :: "(str, str, str, str) converter" where
  "str_converter \<equiv> no_converter"

interpretation default_framing: framing "line_out default_line"
  unfolding line_out_def by (rule framing_separated) simp

interpretation default_parser: stream_parser "line_out default_line" "line_deserialize_start default_line"
  "line_deserialize_send default_line" "until_wf [CHR 0x0A] 65536" until_received
  using stream_parser_line [OF line_ok_default] by simp

interpretation default_protocol: stream_protocol "protocol_out str_converter (line_out default_line)"
  "build_packet_start str_converter (line_deserialize_start default_line)"
  "build_packet_send str_converter (line_deserialize_send default_line)"
  "until_wf [CHR 0x0A] 65536" until_received
  using stream_parser_line [OF line_ok_default]
  by (intro stream_parser.stream_protocol_protocol) (simp_all add: line_out_def incremental_errors_separated)

interpretation default_buffered: buffered_parser "line_buffered_out default_line" "line_create_buffer default_line"
  "line_buffered_start default_line" "line_buffered_send default_line" "buffered_until_wf [CHR 0x0A] 65536"
  buffered_until_pos buffered_until_received 8192 65536
  using buffered_parser_line [OF line_ok_default, of 8192] by simp

end
