(* ===== verification/Json.thy ===== *)
theory Json
  imports LineSerializer
begin

text \<open>
  \<^verbatim>\<open>JSONSerializer\<close> and its \<^verbatim>\<open>_JSONParser\<close>, \<^verbatim>\<open>src/src/easynetwork/serializers/json.py\<close>.

  The encoder and the decoder of the \<^verbatim>\<open>json\<close> module are parameters; the framing of documents, by
  lines or by matching enclosures, is the code of this module and is written out.  The parser works
  on a buffer that it may also write to, so a resumption returns the buffer it leaves.
\<close>

section \<open>The serializer\<close>

record 'a json_serializer =
  js_encode :: "'a \<Rightarrow> exc + str"
  js_decode :: "str \<Rightarrow> exc + 'a"
  js_codec :: codec
  js_limit :: int
  js_use_lines :: bool
  js_debug :: bool

definition json_decode_error :: exc where
  "json_decode_error = OtherError ''JSONDecodeError''"

definition json_init ::
  "('a \<Rightarrow> exc + str) \<Rightarrow> (str \<Rightarrow> exc + 'a) \<Rightarrow> codec \<Rightarrow> int \<Rightarrow> bool \<Rightarrow> bool \<Rightarrow> exc + 'a json_serializer"
where
  "json_init enc dec codec limit use_lines debug =
     (if limit \<le> 0 then Inl (ValueError ''limit must be a positive integer'')
      else Inr \<lparr>js_encode = enc, js_decode = dec, js_codec = codec, js_limit = limit,
                js_use_lines = use_lines, js_debug = debug\<rparr>)"

definition json_serialize :: "'a json_serializer \<Rightarrow> 'a \<Rightarrow> exc + bytes" where
  "json_serialize j packet = result_bind (js_encode j packet) (codec_encode (js_codec j))"

text \<open>\<^verbatim>\<open>data.startswith((b"{", b"[", b'"'))\<close>.\<close>

definition starts_object :: "bytes \<Rightarrow> bool" where
  "starts_object data \<longleftrightarrow> data \<noteq> [] \<and> hd data \<in> {CHR ''{'', CHR ''['', CHR 0x22}"

definition json_incremental_serialize :: "'a json_serializer \<Rightarrow> 'a \<Rightarrow> chunks" where
  "json_incremental_serialize j packet =
     (case json_serialize j packet of
        Inl e \<Rightarrow> ([], Some e)
      | Inr data \<Rightarrow>
          ([if js_use_lines j \<or> \<not> starts_object data then data @ [CHR 0x0A] else data], None))"

text \<open>Decoding a document: the codec, then the JSON decoder, with the \<^verbatim>\<open>except\<close> clauses as a handler.\<close>

definition json_decode_document :: "'a json_serializer \<Rightarrow> bytes \<Rightarrow> exc + 'a" where
  "json_decode_document j data = result_bind (codec_decode (js_codec j) data) (js_decode j)"

definition json_errors :: "'a json_serializer \<Rightarrow> exc \<Rightarrow> (string \<times> info) option" where
  "json_errors j e =
     (if e = UnicodeError then Some (''Unicode decode error'', if js_debug j then Some [''data''] else None)
      else if e = json_decode_error
      then Some (''JSON decode error'',
                 if js_debug j then Some [''document'', ''position'', ''lineno'', ''colno''] else None)
      else None)"

definition json_deserialize :: "'a json_serializer \<Rightarrow> bytes \<Rightarrow> exc + 'a" where
  "json_deserialize j data =
     (case json_decode_document j data of
        Inl e \<Rightarrow> Inl (case json_errors j e of Some (msg, info) \<Rightarrow> DeserializeError msg info | None \<Rightarrow> e)
      | Inr packet \<Rightarrow> Inr packet)"

definition json_document ::
  "'a json_serializer \<Rightarrow> bytes \<times> bytes \<Rightarrow> ('y, 'a \<times> bytes, exc, 'k) gen_step"
where
  "json_document j dr =
     (case dr of (complete_document, remainder) \<Rightarrow>
        deserialize_or_wrap (json_errors j) (json_decode_document j) complete_document remainder)"

section \<open>\_JSONParser\<close>

definition json_ws :: "byte \<Rightarrow> bool" where
  "json_ws c \<longleftrightarrow> c \<in> {CHR '' '', CHR 0x09, CHR 0x0A, CHR 0x0D}"

definition json_printable :: "byte \<Rightarrow> bool" where
  "json_printable c \<longleftrightarrow> (of_char c :: nat) \<in> {32..126}"

definition escape_byte :: byte where "escape_byte = CHR 0x5C"
definition quote_byte :: byte where "quote_byte = CHR 0x22"

definition enclosure :: "byte \<Rightarrow> byte option" where
  "enclosure c =
     (if c = CHR ''{'' then Some (CHR ''}'') else if c = CHR ''['' then Some (CHR '']'')
      else if c = quote_byte then Some quote_byte else None)"

text \<open>The end of the match of \<^verbatim>\<open>[ \t\n\r]*\<close> in \<^verbatim>\<open>buffer[start:stop]\<close>.\<close>

definition ws_end :: "bytes \<Rightarrow> nat \<Rightarrow> nat \<Rightarrow> nat" where
  "ws_end buffer start stop = start + length (takeWhile json_ws (drop start (take stop buffer)))"

text \<open>
  The \<^verbatim>\<open>for enclosure_match in token_finder(...)\<close> loop, over the list of the bytes from \<open>idx\<close> on: a
  backslash makes a token with the byte after it, whatever that is; alone at the end it makes none.
\<close>

datatype scan_result = ScanClosed nat | ScanOpen nat bool

fun json_scan :: "byte \<Rightarrow> byte \<Rightarrow> bytes \<Rightarrow> nat \<Rightarrow> nat \<Rightarrow> bool \<Rightarrow> scan_result" where
  "json_scan open_enc close_enc [] idx enclosure_count between_quotes = ScanOpen enclosure_count between_quotes"
| "json_scan open_enc close_enc (x # xs) idx enclosure_count between_quotes =
     (if x = escape_byte
      then (case xs of
              [] \<Rightarrow> ScanOpen enclosure_count between_quotes
            | _ # ys \<Rightarrow> json_scan open_enc close_enc ys (idx + 2) enclosure_count between_quotes)
      else if x \<noteq> quote_byte \<and> (between_quotes \<or> x \<notin> {open_enc, close_enc})
      then json_scan open_enc close_enc xs (idx + 1) enclosure_count between_quotes
      else
        let between_quotes' = (if x = quote_byte then \<not> between_quotes else between_quotes);
            enclosure_count' = (if x = close_enc then enclosure_count - 1
                                else if x = open_enc then enclosure_count + 1 else enclosure_count)
        in if enclosure_count' = 0 then ScanClosed (idx + 1)
           else json_scan open_enc close_enc xs (idx + 1) enclosure_count' between_quotes')"

text \<open>
  The suspended parser: before a document; inside a document without enclosure, searched up to an
  index; inside an enclosed one, with the state of the scan.  The two latter are the \<^verbatim>\<open>yield\<close> of
  \<^verbatim>\<open>__read_data\<close>.
\<close>

datatype json_frame = JStart | JPlain nat | JEnclosed byte byte nat nat bool

type_synonym json_step = "(nat, bytes \<times> bytes, exc, json_frame) gen_step"

definition read_data :: "bytes \<Rightarrow> nat \<Rightarrow> int \<Rightarrow> json_frame \<Rightarrow> json_step" where
  "read_data buffer start_idx limit k =
     (if int start_idx \<ge> limit
      then Raise (limit_overrun_error ''JSON object's end frame is not found, and chunk exceed the limit''
                    buffer start_idx [])
      else Yield start_idx k)"

definition split_final_buffer :: "bytes \<Rightarrow> nat \<Rightarrow> nat \<Rightarrow> int \<Rightarrow> exc + bytes \<times> bytes" where
  "split_final_buffer buffer document_end_idx buffer_end_idx limit =
     (let remainder_start_idx = ws_end buffer document_end_idx buffer_end_idx in
      if int document_end_idx > limit
      then Inl (limit_overrun_error ''JSON object's end frame is found, but chunk is longer than limit''
                  buffer remainder_start_idx [])
      else Inr (take document_end_idx buffer, drop remainder_start_idx (take buffer_end_idx buffer)))"

text \<open>One pass of the loop for a document without enclosure.\<close>

definition plain_loop :: "int \<Rightarrow> bytes \<Rightarrow> nat \<Rightarrow> nat \<Rightarrow> json_step" where
  "plain_loop limit buffer search_start_idx buffer_end_idx =
     (let printable = takeWhile json_printable (drop search_start_idx (take buffer_end_idx buffer));
          stop = search_start_idx + length printable in
      if stop = buffer_end_idx then read_data buffer buffer_end_idx limit (JPlain buffer_end_idx)
      else (case split_final_buffer buffer stop buffer_end_idx limit of
              Inl e \<Rightarrow> Raise e
            | Inr (complete_document, partial_document) \<Rightarrow>
                if complete_document = [] then Return (partial_document, [])
                else Return (complete_document, partial_document)))"

text \<open>One pass of the loop for an enclosed document.\<close>

definition enclosed_loop :: "int \<Rightarrow> byte \<Rightarrow> byte \<Rightarrow> bytes \<Rightarrow> nat \<Rightarrow> nat \<Rightarrow> nat \<Rightarrow> bool \<Rightarrow> json_step" where
  "enclosed_loop limit open_enc close_enc buffer search_start_idx buffer_end_idx enclosure_count between_quotes =
     (case json_scan open_enc close_enc (drop search_start_idx (take buffer_end_idx buffer)) search_start_idx
             enclosure_count between_quotes of
        ScanClosed document_end_idx \<Rightarrow> finish (split_final_buffer buffer document_end_idx buffer_end_idx limit)
      | ScanOpen count quotes \<Rightarrow>
          read_data buffer buffer_end_idx limit (JEnclosed open_enc close_enc buffer_end_idx count quotes))"

text \<open>\<^verbatim>\<open>while buffer[search_start_idx - 1] == ESCAPE_BYTE: search_start_idx -= 1\<close>.\<close>

definition back_off :: "bytes \<Rightarrow> nat \<Rightarrow> nat" where
  "back_off buffer search_start_idx =
     search_start_idx - length (takeWhile (\<lambda>c. c = escape_byte) (rev (take search_start_idx buffer)))"

text \<open>\<^verbatim>\<open>__raw_parse_impl\<close>: resuming a frame with the number of new bytes in the buffer.\<close>

definition raw_parse_begin :: "int \<Rightarrow> bytes \<Rightarrow> nat \<Rightarrow> json_step \<times> bytes" where
  "raw_parse_begin limit buffer buffer_end_idx =
     (let start_idx = ws_end buffer 0 buffer_end_idx in
      if buffer_end_idx = start_idx then (Yield 0 JStart, buffer)
      else
        let e = buffer_end_idx - start_idx;
            b = (if start_idx > 0 then take e (drop start_idx buffer) @ drop e buffer else buffer) in
        (case enclosure (hd b) of
           None \<Rightarrow> (plain_loop limit b 0 e, b)
         | Some close_enc \<Rightarrow> (enclosed_loop limit (hd b) close_enc b 1 e 1 (hd b = quote_byte), b)))"

fun raw_parse_resume :: "int \<Rightarrow> json_frame \<Rightarrow> bytes \<Rightarrow> nat \<Rightarrow> json_step \<times> bytes" where
  "raw_parse_resume limit JStart buffer n = raw_parse_begin limit buffer n"
| "raw_parse_resume limit (JPlain start_idx) buffer n =
     (if n < 1 then Yield start_idx (JPlain start_idx) else plain_loop limit buffer start_idx (start_idx + n), buffer)"
| "raw_parse_resume limit (JEnclosed o1 c1 start_idx count quotes) buffer n =
     (if n < 1 then Yield start_idx (JEnclosed o1 c1 start_idx count quotes)
      else enclosed_loop limit o1 c1 buffer (back_off buffer start_idx) (start_idx + n) count quotes, buffer)"

text \<open>
  \<^verbatim>\<open>raw_parse\<close> owns its buffer; at its \<^verbatim>\<open>yield\<close> it has already dropped what lies behind the index it got.
\<close>

datatype raw_frame = RawFrame bytes json_frame

definition raw_next :: "json_step \<times> bytes \<Rightarrow> (unit, bytes \<times> bytes, exc, raw_frame) gen_step" where
  "raw_next sb =
     (case sb of
        (Yield start_idx k, buffer) \<Rightarrow> Yield () (RawFrame (take start_idx buffer) k)
      | (Return r, _) \<Rightarrow> Return r
      | (Raise e, _) \<Rightarrow> Raise e)"

definition raw_parse_start :: "int \<Rightarrow> (unit, bytes \<times> bytes, exc, raw_frame) gen_step" where
  "raw_parse_start limit =
     (if limit \<le> 0 then Raise (ValueError ''limit must be a positive integer'')
      else raw_next (Yield 0 JStart, []))"

fun raw_parse_send :: "int \<Rightarrow> raw_frame \<Rightarrow> bytes \<Rightarrow> (unit, bytes \<times> bytes, exc, raw_frame) gen_step" where
  "raw_parse_send limit (RawFrame buffer k) to_write =
     raw_next (raw_parse_resume limit k (buffer @ to_write) (length to_write))"

definition raw_parse_with_external_buffer_start :: "bytes \<Rightarrow> json_step" where
  "raw_parse_with_external_buffer_start buffer =
     (if length buffer = 0 then Raise (ValueError ''the buffer is empty'') else Yield 0 JStart)"

definition raw_parse_with_external_buffer_send :: "json_frame \<Rightarrow> bytes \<times> nat \<Rightarrow> json_step \<times> bytes" where
  "raw_parse_with_external_buffer_send k bn =
     raw_parse_resume (int (length (fst bn))) k (fst bn) (snd bn)"

section \<open>Incremental deserialization\<close>

datatype json_incremental_frame = JLines until_frame | JRaw raw_frame

fun map_frame :: "('k \<Rightarrow> 'l) \<Rightarrow> ('y, 'r, 'e, 'k) gen_step \<Rightarrow> ('y, 'r, 'e, 'l) gen_step" where
  "map_frame f (Yield y k) = Yield y (f k)"
| "map_frame f (Return r) = Return r"
| "map_frame f (Raise e) = Raise e"

definition json_after_read ::
  "'a json_serializer \<Rightarrow> bytes \<times> reader \<Rightarrow> (unit, 'a \<times> bytes, exc, 'k) gen_step"
where
  "json_after_read j dr = (case dr of (data, rd) \<Rightarrow> json_document j (data, fst (read_all rd)))"

definition json_deserialize_start ::
  "'a json_serializer \<Rightarrow> (unit, 'a \<times> bytes, exc, json_incremental_frame) gen_step"
where
  "json_deserialize_start j =
     (if js_use_lines j
      then then_step (json_after_read j) fst (map_frame JLines (until_start [CHR 0x0A] (js_limit j) False (new_reader [])))
      else then_step (json_document j) id (map_frame JRaw (raw_parse_start (js_limit j))))"

fun json_deserialize_send ::
  "'a json_serializer \<Rightarrow> json_incremental_frame \<Rightarrow> bytes
     \<Rightarrow> (unit, 'a \<times> bytes, exc, json_incremental_frame) gen_step"
where
  "json_deserialize_send j (JLines k) chunk =
     then_step (json_after_read j) fst (map_frame JLines (until_send [CHR 0x0A] (js_limit j) False k chunk))"
| "json_deserialize_send j (JRaw k) chunk =
     then_step (json_document j) id (map_frame JRaw (raw_parse_send (js_limit j) k chunk))"

section \<open>Buffered deserialization\<close>

text \<open>
  The two branches of \<^verbatim>\<open>buffered_incremental_deserialize\<close>: lines are searched in place, the raw parser
  may move the bytes of the buffer, so every resumption hands back the buffer it leaves.
\<close>

definition json_create_buffer :: "'a json_serializer \<Rightarrow> int \<Rightarrow> exc + created_buffer" where
  "json_create_buffer j sizehint = Inr (bytearray (nat (js_limit j)))"

datatype json_buffered_frame = JBufferedLines buffered_until_frame | JBufferedRaw json_frame

definition json_lines_after ::
  "'a json_serializer \<Rightarrow> bytes \<Rightarrow> nat \<times> nat \<times> nat \<Rightarrow> ('y, 'a \<times> bytes, exc, 'k) gen_step"
where
  "json_lines_after j buffer found =
     (case found of (sepidx, offset, buflen) \<Rightarrow>
        json_document j (take sepidx buffer, drop offset (take buflen buffer)))"

fun map_yield :: "('y \<Rightarrow> 'z) \<Rightarrow> ('y, 'r, 'e, 'k) gen_step \<Rightarrow> ('z, 'r, 'e, 'k) gen_step" where
  "map_yield f (Yield y k) = Yield (f y) k"
| "map_yield f (Return r) = Return r"
| "map_yield f (Raise e) = Raise e"

definition json_lines_buffered_start ::
  "'a json_serializer \<Rightarrow> bytes \<Rightarrow> ('a \<times> bytes, buffered_until_frame) buffered_step"
where
  "json_lines_buffered_start j buffer = then_step (json_lines_after j buffer) id buffered_readuntil_start"

definition json_lines_buffered_send ::
  "'a json_serializer \<Rightarrow> buffered_until_frame \<Rightarrow> bytes \<times> nat \<Rightarrow> ('a \<times> bytes, buffered_until_frame) buffered_step"
where
  "json_lines_buffered_send j k bn =
     then_step (json_lines_after j (fst bn)) id (buffered_readuntil_send [CHR 0x0A] k bn)"

definition json_raw_step ::
  "'a json_serializer \<Rightarrow> json_step \<Rightarrow> ('a \<times> bytes, json_buffered_frame) buffered_step"
where
  "json_raw_step j s = then_step (json_document j) id (map_yield (\<lambda>n. Some (int n)) (map_frame JBufferedRaw s))"

definition json_buffered_start ::
  "'a json_serializer \<Rightarrow> bytes \<Rightarrow> ('a \<times> bytes, json_buffered_frame) buffered_step"
where
  "json_buffered_start j buffer =
     (if js_use_lines j then map_frame JBufferedLines (json_lines_buffered_start j buffer)
      else json_raw_step j (raw_parse_with_external_buffer_start buffer))"

fun json_buffered_send ::
  "'a json_serializer \<Rightarrow> json_buffered_frame \<Rightarrow> bytes \<times> nat
     \<Rightarrow> ('a \<times> bytes, json_buffered_frame) buffered_step \<times> bytes"
where
  "json_buffered_send j (JBufferedLines k) bn =
     (map_frame JBufferedLines (json_lines_buffered_send j k bn), fst bn)"
| "json_buffered_send j (JBufferedRaw k) bn =
     (case raw_parse_with_external_buffer_send k bn of (s, buffer) \<Rightarrow> (json_raw_step j s, buffer))"

section \<open>The specification of the raw parser\<close>

text \<open>
  The document at the beginning of everything received, found by one scan: white space is skipped,
  then the enclosure is matched or the printable bytes are taken.
\<close>

datatype raw_result = RawNeed | RawDocument bytes bytes | RawOverrun

definition skip_ws :: "bytes \<Rightarrow> bytes" where
  "skip_ws b = dropWhile json_ws b"

definition raw_document_spec :: "int \<Rightarrow> bytes \<Rightarrow> raw_result" where
  "raw_document_spec limit t =
     (case enclosure (hd t) of
        None \<Rightarrow>
          let p = length (takeWhile json_printable t) in
          if p = length t then if int p \<ge> limit then RawOverrun else RawNeed
          else if int p > limit then RawOverrun
          else if p = 0 then RawDocument (skip_ws t) [] else RawDocument (take p t) (skip_ws (drop p t))
      | Some close_enc \<Rightarrow>
          (case json_scan (hd t) close_enc (tl t) 1 1 (hd t = quote_byte) of
             ScanClosed e \<Rightarrow>
               if int e > limit then RawOverrun else RawDocument (take e t) (skip_ws (drop e t))
           | ScanOpen _ _ \<Rightarrow> if int (length t) \<ge> limit then RawOverrun else RawNeed))"

definition raw_spec :: "int \<Rightarrow> bytes \<Rightarrow> raw_result" where
  "raw_spec limit d = (let t = skip_ws d in if t = [] then RawNeed else raw_document_spec limit t)"

text \<open>Resuming the scan behind the trailing backslashes of what has been scanned.\<close>

definition trailing_escapes :: "bytes \<Rightarrow> bytes" where
  "trailing_escapes xs = takeWhile (\<lambda>c. c = escape_byte) (rev xs)"

lemma trailing_escapes_id_iff: "trailing_escapes xs = xs \<longleftrightarrow> (\<forall>c \<in> set xs. c = escape_byte)"
proof
  assume "trailing_escapes xs = xs"
  then show "\<forall>c \<in> set xs. c = escape_byte"
    by (metis set_takeWhileD trailing_escapes_def)
next
  assume all: "\<forall>c \<in> set xs. c = escape_byte"
  then have "xs = replicate (length xs) escape_byte" by (induction xs) auto
  then have "rev xs = xs" by (metis rev_replicate)
  moreover have "takeWhile (\<lambda>c. c = escape_byte) xs = xs" using all by (simp add: takeWhile_eq_all_conv)
  ultimately show "trailing_escapes xs = xs" by (simp add: trailing_escapes_def)
qed

lemma trailing_escapes_Cons:
  "trailing_escapes (x # xs) =
     (if x = escape_byte \<and> trailing_escapes xs = xs then x # xs else trailing_escapes xs)"
proof (cases "\<forall>c \<in> set xs. c = escape_byte")
  case True
  show ?thesis
  proof (cases "x = escape_byte")
    case xe: True
    with True have "trailing_escapes (x # xs) = x # xs" by (simp add: trailing_escapes_id_iff)
    with xe True show ?thesis by (simp add: trailing_escapes_id_iff)
  next
    case False
    have "takeWhile (\<lambda>c. c = escape_byte) (rev xs @ [x])
        = rev xs @ takeWhile (\<lambda>c. c = escape_byte) [x]"
      using True by (intro takeWhile_append2) auto
    moreover have "takeWhile (\<lambda>c. c = escape_byte) (rev xs) = rev xs"
      using True by (simp add: takeWhile_eq_all_conv)
    ultimately have "trailing_escapes (x # xs) = trailing_escapes xs"
      using False by (simp only: trailing_escapes_def rev.simps takeWhile.simps if_False append_Nil2)
    with False show ?thesis by simp
  qed
next
  case False
  then obtain c where c: "c \<in> set (rev xs)" "c \<noteq> escape_byte" by auto
  then have "trailing_escapes (x # xs) = trailing_escapes xs"
    by (simp add: trailing_escapes_def takeWhile_append1)
  with False show ?thesis by (auto simp: trailing_escapes_id_iff)
qed

lemma length_trailing_escapes: "length (trailing_escapes xs) \<le> length xs"
  by (metis length_rev length_takeWhile_le trailing_escapes_def)

text \<open>One token: the scan ends there, or goes on with new counters whatever follows.\<close>

lemma json_scan_token:
  assumes "x \<noteq> escape_byte"
  shows "(\<forall>xs. json_scan o1 c1 (x # xs) i n q = ScanClosed (i + 1))
    \<or> (\<exists>n' q'. \<forall>xs. json_scan o1 c1 (x # xs) i n q = json_scan o1 c1 xs (i + 1) n' q')"
proof (cases "x \<noteq> quote_byte \<and> (q \<or> x \<notin> {o1, c1})")
  case True
  with assms show ?thesis by (intro disjI2 exI [of _ n] exI [of _ q]) simp
next
  case False
  define q' where "q' = (if x = quote_byte then \<not> q else q)"
  define n' where "n' = (if x = c1 then n - 1 else if x = o1 then n + 1 else n)"
  have step: "json_scan o1 c1 (x # xs) i n q
      = (if n' = 0 then ScanClosed (i + 1) else json_scan o1 c1 xs (i + 1) n' q')" for xs
    using assms False by (simp only: json_scan.simps if_False if_True Let_def q'_def n'_def simp_thms)
  show ?thesis
  proof (cases "n' = 0")
    case True
    then show ?thesis by (simp only: step if_True) simp
  next
    case False
    then show ?thesis by (simp only: step if_False) blast
  qed
qed

lemma json_scan_escape [simp]:
  "json_scan o1 c1 [escape_byte] i n q = ScanOpen n q"
  "json_scan o1 c1 (escape_byte # y # ys) i n q = json_scan o1 c1 ys (i + 2) n q"
  by (simp_all only: json_scan.simps list.case if_True simp_thms)

lemma json_scan_closed_append:
  "json_scan o1 c1 xs i n q = ScanClosed e \<Longrightarrow>
     json_scan o1 c1 (xs @ zs) i n q = ScanClosed e \<and> i < e \<and> e \<le> i + length xs"
proof (induction xs arbitrary: i n q rule: length_induct)
  case (1 xs)
  show ?case
  proof (cases xs)
    case Nil
    with 1 show ?thesis by simp
  next
    case xs: (Cons x xs')
    show ?thesis
    proof (cases "x = escape_byte")
      case True
      show ?thesis
      proof (cases xs')
        case Nil
        with 1 True xs show ?thesis by simp
      next
        case (Cons y ys)
        with 1(1) [rule_format, of ys "i + 2" n q] 1(2) True xs show ?thesis by simp
      qed
    next
      case False
      from json_scan_token [OF False, of o1 c1 i n q] show ?thesis
      proof (elim disjE exE)
        assume a: "\<forall>xs. json_scan o1 c1 (x # xs) i n q = ScanClosed (i + 1)"
        with 1(2) xs have "e = i + 1" by (simp del: json_scan.simps)
        with a xs show ?thesis by (simp del: json_scan.simps)
      next
        fix n' q'
        assume a: "\<forall>xs. json_scan o1 c1 (x # xs) i n q = json_scan o1 c1 xs (i + 1) n' q'"
        with 1(1) [rule_format, of xs' "i + 1" n' q'] 1(2) xs show ?thesis
          by (simp del: json_scan.simps)
      qed
    qed
  qed
qed

lemma json_scan_resume:
  assumes "json_scan o1 c1 xs i n q = ScanOpen n' q'"
  shows "json_scan o1 c1 (xs @ zs) i n q =
           json_scan o1 c1 (trailing_escapes xs @ zs) (i + (length xs - length (trailing_escapes xs))) n' q'"
  using assms
proof (induction xs arbitrary: i n q rule: length_induct)
  case (1 xs)
  show ?case
  proof (cases xs)
    case Nil
    with 1 show ?thesis by (simp add: trailing_escapes_def)
  next
    case xs: (Cons x xs')
    show ?thesis
    proof (cases "x = escape_byte")
      case True
      show ?thesis
      proof (cases xs')
        case Nil
        with 1 True xs show ?thesis by (simp add: trailing_escapes_def)
      next
        case (Cons y ys)
        with 1(1) [rule_format, of ys "i + 2" n q] 1(2) True xs
        have IH: "json_scan o1 c1 (ys @ zs) (i + 2) n q =
            json_scan o1 c1 (trailing_escapes ys @ zs) (i + 2 + (length ys - length (trailing_escapes ys))) n' q'"
          by simp
        show ?thesis
        proof (cases "y = escape_byte \<and> trailing_escapes ys = ys")
          case ye: True
          with IH Cons True xs show ?thesis by (simp add: trailing_escapes_Cons)
        next
          case False
          then have "trailing_escapes (y # ys) = trailing_escapes ys" by (auto simp: trailing_escapes_Cons)
          moreover have "trailing_escapes ys \<noteq> y # ys"
            using length_trailing_escapes [of ys] by (auto dest: arg_cong [where f = length])
          ultimately have "trailing_escapes xs = trailing_escapes ys"
            by (simp add: xs Cons trailing_escapes_Cons [of x])
          moreover have "Suc (Suc (length ys)) - length (trailing_escapes ys)
              = 2 + (length ys - length (trailing_escapes ys))"
            using length_trailing_escapes [of ys] by simp
          ultimately show ?thesis using IH Cons True xs by (simp add: add.assoc)
        qed
      qed
    next
      case False
      then have t: "trailing_escapes xs = trailing_escapes xs'" by (simp add: xs trailing_escapes_Cons)
      from json_scan_token [OF False, of o1 c1 i n q] show ?thesis
      proof (elim disjE exE)
        assume "\<forall>xs. json_scan o1 c1 (x # xs) i n q = ScanClosed (i + 1)"
        with 1(2) xs show ?thesis by (simp del: json_scan.simps)
      next
        fix n2 q2
        assume "\<forall>xs. json_scan o1 c1 (x # xs) i n q = json_scan o1 c1 xs (i + 1) n2 q2"
        with 1(1) [rule_format, of xs' "i + 1" n2 q2] 1(2) xs t length_trailing_escapes [of xs'] show ?thesis
          by (simp add: Suc_diff_le del: json_scan.simps)
      qed
    qed
  qed
qed

lemma trailing_escapes_rev: "rev (trailing_escapes xs) = trailing_escapes xs"
proof -
  have "\<forall>c \<in> set (trailing_escapes xs). c = escape_byte"
    by (auto simp: trailing_escapes_def dest: set_takeWhileD)
  then have "replicate (length (trailing_escapes xs)) escape_byte = trailing_escapes xs"
    by (intro replicate_length_same) simp
  then obtain n where "trailing_escapes xs = replicate n escape_byte" by metis
  then show ?thesis by simp
qed

lemma drop_trailing_escapes: "drop (length xs - length (trailing_escapes xs)) xs = trailing_escapes xs"
proof -
  let ?n = "length (trailing_escapes xs)"
  have "trailing_escapes xs = take ?n (rev xs)"
    unfolding trailing_escapes_def by (rule takeWhile_eq_take)
  then have "rev (trailing_escapes xs) = drop (length xs - ?n) xs"
    by (metis rev_take rev_rev_ident length_rev)
  then show ?thesis by (simp add: trailing_escapes_rev)
qed

section \<open>The raw parser is independent of the fragmentation\<close>

text \<open>
  \<open>raw_wf\<close> describes a frame by what was received behind the leading white space: the buffer is
  clean, and what has been scanned is remembered correctly.
\<close>

definition scan_state :: "byte \<Rightarrow> byte \<Rightarrow> bytes \<Rightarrow> scan_result" where
  "scan_state o1 c1 t = json_scan o1 c1 (tl t) 1 1 (hd t = quote_byte)"

fun raw_wf :: "int \<Rightarrow> raw_frame \<Rightarrow> bool" where
  "raw_wf limit (RawFrame b JStart) \<longleftrightarrow> b = []"
| "raw_wf limit (RawFrame b (JPlain n)) \<longleftrightarrow>
     b \<noteq> [] \<and> n = length b \<and> int n < limit \<and> \<not> json_ws (hd b) \<and> enclosure (hd b) = None
     \<and> (\<forall>c \<in> set b. json_printable c)"
| "raw_wf limit (RawFrame b (JEnclosed o1 c1 n count quotes)) \<longleftrightarrow>
     b \<noteq> [] \<and> n = length b \<and> int n < limit \<and> hd b = o1 \<and> enclosure o1 = Some c1
     \<and> scan_state o1 c1 b = ScanOpen count quotes"

fun raw_received :: "raw_frame \<Rightarrow> bytes" where
  "raw_received (RawFrame b _) = b"

text \<open>What the step after a chunk must be.\<close>

definition raw_step_ok ::
  "int \<Rightarrow> (unit, bytes \<times> bytes, exc, raw_frame) gen_step \<Rightarrow> bytes \<Rightarrow> bool"
where
  "raw_step_ok limit s t \<longleftrightarrow>
     (case raw_document_spec limit t of
        RawNeed \<Rightarrow> \<exists>k. s = Yield () k \<and> raw_wf limit k \<and> raw_received k = t
      | RawDocument doc rest \<Rightarrow> s = Return (doc, rest)
      | RawOverrun \<Rightarrow> \<exists>e. s = Raise e \<and> is_LimitOverrunError e)"

lemma take_ws_end: "drop (ws_end b i n) (take n b) = skip_ws (drop i (take n b))"
  by (simp add: ws_end_def skip_ws_def dropWhile_eq_drop add.commute)

lemma enclosure_not_ws: "enclosure c = Some c1 \<Longrightarrow> \<not> json_ws c \<and> c \<noteq> escape_byte"
  by (auto simp: enclosure_def json_ws_def escape_byte_def quote_byte_def split: if_splits)

lemma split_final_buffer_spec:
  "split_final_buffer b e n limit =
     (if int e > limit
      then Inl (limit_overrun_error ''JSON object's end frame is found, but chunk is longer than limit''
                  b (ws_end b e n) [])
      else Inr (take e b, skip_ws (drop e (take n b))))"
  by (simp add: split_final_buffer_def Let_def take_ws_end)

lemma plain_loop_spec:
  assumes t: "t = take n b" "n \<le> length b" "t \<noteq> []" and enc: "enclosure (hd t) = None" and ws: "\<not> json_ws (hd t)"
    and s: "s \<le> n" "\<forall>c \<in> set (take s b). json_printable c"
  shows "raw_step_ok limit (raw_next (plain_loop limit b s n, b)) t"
proof -
  let ?p = "length (takeWhile json_printable t)"
  have "t = take s b @ drop s t" using t(1) s(1) by (metis append_take_drop_id min.absorb1 take_take)
  then have "takeWhile json_printable t = take s b @ takeWhile json_printable (drop s t)"
    using s(2) by (metis takeWhile_append2)
  then have p: "s + length (takeWhile json_printable (drop s t)) = ?p" using s t(2) by simp
  have n: "length t = n" using t by simp
  have pn: "?p \<le> n" using length_takeWhile_le [of json_printable t] n by simp
  show ?thesis
  proof (cases "?p = n")
    case True
    then have all: "\<forall>c \<in> set t. json_printable c"
      using n by (metis takeWhile_eq_all_conv takeWhile_eq_take take_all order_refl)
    with True p n t enc ws show ?thesis
      by (auto simp: raw_step_ok_def raw_document_spec_def Let_def plain_loop_def read_data_def raw_next_def)
  next
    case False
    have tb: "take ?p b = take ?p t" using t(1) pn by simp
    with False p n t enc show ?thesis
      by (auto simp: raw_step_ok_def raw_document_spec_def Let_def plain_loop_def raw_next_def split_final_buffer_spec)
  qed
qed

lemma enclosed_loop_spec:
  assumes t: "t = take n b" "n \<le> length b" "t \<noteq> []" and enc: "enclosure (hd t) = Some c1"
    and scan: "json_scan (hd t) c1 (drop s t) s count quotes = scan_state (hd t) c1 t"
  shows "raw_step_ok limit (raw_next (enclosed_loop limit (hd t) c1 b s n count quotes, b)) t"
proof -
  have n: "length t = n" using t by simp
  show ?thesis
  proof (cases "scan_state (hd t) c1 t")
    case (ScanClosed e)
    then have "e \<le> n" using json_scan_closed_append [of "hd t" c1 "tl t" 1 1 _ e "[]"] n t(3)
      by (cases t) (auto simp: scan_state_def)
    then have "take e b = take e t" using t(1) by simp
    with ScanClosed scan n t enc show ?thesis
      by (auto simp: raw_step_ok_def raw_document_spec_def enclosed_loop_def raw_next_def split_final_buffer_spec
            scan_state_def)
  next
    case (ScanOpen count' quotes')
    with scan n t enc show ?thesis
      by (auto simp: raw_step_ok_def raw_document_spec_def enclosed_loop_def raw_next_def read_data_def scan_state_def)
  qed
qed

lemma skip_ws_no_ws [simp]: "b \<noteq> [] \<Longrightarrow> \<not> json_ws (hd b) \<Longrightarrow> skip_ws (b @ x) = b @ x"
  by (cases b) (simp_all add: skip_ws_def)

lemma skip_ws_hd: "skip_ws b \<noteq> [] \<Longrightarrow> \<not> json_ws (hd (skip_ws b))"
  unfolding skip_ws_def by (rule hd_dropWhile)

lemma skip_ws_append: "skip_ws (b @ x) = (if skip_ws b = [] then skip_ws x else skip_ws b @ x)"
proof (cases "skip_ws b = []")
  case True
  then have "\<forall>c \<in> set b. json_ws c" by (simp add: skip_ws_def dropWhile_eq_Nil_conv)
  with True show ?thesis by (simp add: skip_ws_def dropWhile_append2)
next
  case False
  then obtain c where "c \<in> set b" "\<not> json_ws c" by (auto simp: skip_ws_def dropWhile_eq_Nil_conv)
  then have "dropWhile json_ws (b @ x) = dropWhile json_ws b @ x" by (rule dropWhile_append1)
  moreover have "dropWhile json_ws b \<noteq> []" using False by (simp add: skip_ws_def)
  ultimately show ?thesis by (simp only: skip_ws_def if_False)
qed

lemma raw_begin_spec:
  assumes "skip_ws d \<noteq> []"
  shows "raw_step_ok limit (raw_next (raw_parse_begin limit d (length d))) (skip_ws d)"
proof -
  let ?s = "ws_end d 0 (length d)" and ?t = "skip_ws d"
  have t: "drop ?s d = ?t" using take_ws_end [of d 0 "length d"] by simp
  then have len: "length d - ?s = length ?t" by (metis length_drop)
  have "\<not> length d \<le> ?s" using t assms by auto
  define b where "b = (if ?s > 0 then take (length ?t) (drop ?s d) @ drop (length ?t) d else d)"
  have b: "take (length ?t) b = ?t" "length ?t \<le> length b" "hd b = hd ?t"
    using t assms by (auto simp: b_def)
  have begin_eq: "raw_parse_begin limit d (length d) =
      (case enclosure (hd ?t) of
         None \<Rightarrow> (plain_loop limit b 0 (length ?t), b)
       | Some c1 \<Rightarrow> (enclosed_loop limit (hd ?t) c1 b 1 (length ?t) 1 (hd ?t = quote_byte), b))"
    using \<open>\<not> length d \<le> ?s\<close> b(3) unfolding raw_parse_begin_def Let_def len b_def [symmetric] by (simp split: option.split)
  show ?thesis
  proof (cases "enclosure (hd ?t)")
    case None
    with plain_loop_spec [of ?t "length ?t" b 0 limit] b assms skip_ws_hd [OF assms] show ?thesis
      by (simp add: begin_eq)
  next
    case (Some c1)
    with enclosed_loop_spec [of ?t "length ?t" b c1 1 1 "hd ?t = quote_byte" limit] b assms show ?thesis
      by (simp add: begin_eq scan_state_def drop_Suc)
  qed
qed

lemma raw_send_spec:
  assumes "raw_wf limit k"
  shows "if skip_ws (raw_received k @ d) = []
     then \<exists>k'. raw_parse_send limit k d = Yield () k' \<and> raw_wf limit k' \<and> raw_received k' = []
     else raw_step_ok limit (raw_parse_send limit k d) (skip_ws (raw_received k @ d))"
proof (cases k)
  case (RawFrame b j)
  show ?thesis
  proof (cases j)
    case JStart
    with assms RawFrame have b: "b = []" by simp
    show ?thesis
    proof (cases "skip_ws d = []")
      case True
      then have "ws_end d 0 (length d) = length d"
        by (simp add: skip_ws_def ws_end_def dropWhile_eq_Nil_conv takeWhile_eq_all_conv [THEN iffD2])
      with True b RawFrame JStart show ?thesis by (simp add: raw_parse_begin_def raw_next_def)
    next
      case False
      with raw_begin_spec [OF False, of limit] b RawFrame JStart show ?thesis by simp
    qed
  next
    case (JPlain n)
    with assms RawFrame have b: "b \<noteq> []" "n = length b" "int n < limit" "\<not> json_ws (hd b)" "enclosure (hd b) = None"
      "\<forall>c \<in> set b. json_printable c" by auto
    show ?thesis
    proof (cases "d = []")
      case True
      have pw: "takeWhile json_printable b = b" using b(6) by (simp add: takeWhile_eq_all_conv)
      with True b RawFrame JPlain show ?thesis
        using skip_ws_no_ws [OF b(1,4), of "[]"]
        by (simp add: pw Let_def raw_step_ok_def raw_document_spec_def raw_next_def)
    next
      case False
      with b RawFrame JPlain plain_loop_spec [of "b @ d" "length b + length d" "b @ d" "length b" limit] show ?thesis
        by (simp add: Suc_le_eq)
    qed
  next
    case (JEnclosed o1 c1 n count quotes)
    with assms RawFrame have b: "b \<noteq> []" "n = length b" "int n < limit" "hd b = o1" "enclosure o1 = Some c1"
      "scan_state o1 c1 b = ScanOpen count quotes" by auto
    have nw: "\<not> json_ws (hd b)" "o1 \<noteq> escape_byte" using enclosure_not_ws [OF b(5)] b(4) by auto
    show ?thesis
    proof (cases "d = []")
      case True
      with b nw RawFrame JEnclosed show ?thesis
        using skip_ws_no_ws [OF b(1) nw(1), of "[]"]
        by (simp add: raw_step_ok_def raw_document_spec_def raw_next_def scan_state_def)
    next
      case False
      let ?e = "trailing_escapes (tl b)" and ?s = "back_off (b @ d) n"
      obtain xs where xs: "b = o1 # xs" using b(1,4) by (cases b) auto
      have te: "trailing_escapes b = ?e" using xs nw(2) by (simp add: trailing_escapes_Cons)
      have s: "?s = length b - length ?e" using b(2) te by (simp add: back_off_def trailing_escapes_def)
      have le: "length ?e \<le> length (tl b)" by (rule length_trailing_escapes)
      have "drop ?s b = ?e" using drop_trailing_escapes [of b] by (simp add: s te)
      then have drop: "drop ?s (b @ d) = ?e @ d" using s by simp
      have "json_scan o1 c1 (tl b) 1 1 (o1 = quote_byte) = ScanOpen count quotes"
        using b(6,4) by (simp add: scan_state_def)
      from json_scan_resume [OF this, of d] have "scan_state o1 c1 (b @ d)
          = json_scan o1 c1 (?e @ d) ?s count quotes"
        using xs le s by (simp add: scan_state_def Suc_diff_le del: json_scan.simps)
      with enclosed_loop_spec [of "b @ d" "length b + length d" "b @ d" c1 ?s count quotes limit] b drop
      have "raw_step_ok limit (raw_next (enclosed_loop limit o1 c1 (b @ d) ?s (length b + length d) count quotes, b @ d)) (b @ d)"
        by simp
      with False b nw RawFrame JEnclosed show ?thesis by (simp add: Suc_le_eq)
    qed
  qed
qed

text \<open>\<open>raw_spec\<close> after a chunk, from what the frame has kept.\<close>

lemma raw_received_skip:
  assumes "skip_ws d = raw_received k" and "raw_wf limit k"
  shows "skip_ws (d @ c) = skip_ws (raw_received k @ c)"
  using assms by (metis skip_ws_append append_Nil skip_ws_hd skip_ws_no_ws)

lemma raw_feed:
  assumes "\<forall>i \<le> length ds. raw_spec limit (concat (take i ds)) = RawNeed" and "0 < limit"
  shows "\<exists>k. gen_feed (raw_parse_send limit) (raw_parse_start limit) ds = Yield () k \<and> raw_wf limit k
           \<and> raw_received k = skip_ws (concat ds)"
  using assms(1)
proof (induction ds rule: rev_induct)
  case Nil
  then show ?case using assms(2) by (auto simp: raw_parse_start_def raw_next_def skip_ws_def)
next
  case (snoc c ds)
  have "\<forall>i \<le> length ds. raw_spec limit (concat (take i ds)) = RawNeed"
  proof (intro allI impI)
    fix i assume "i \<le> length ds"
    with snoc.prems [THEN spec, of i] show "raw_spec limit (concat (take i ds)) = RawNeed" by simp
  qed
  from snoc.IH [OF this] obtain k where k: "gen_feed (raw_parse_send limit) (raw_parse_start limit) ds = Yield () k"
    "raw_wf limit k" "raw_received k = skip_ws (concat ds)" by blast
  have need: "raw_spec limit (concat ds @ c) = RawNeed"
    using snoc.prems [THEN spec, of "Suc (length ds)"] by simp
  have eq: "skip_ws (concat ds @ c) = skip_ws (raw_received k @ c)"
    by (rule raw_received_skip [OF _ k(2)]) (simp add: k(3))
  from raw_send_spec [OF k(2), of c] need eq k(1) show ?case
    by (auto simp: gen_feed_append raw_spec_def raw_step_ok_def Let_def split: if_splits)
qed

section \<open>Lines of JSON\<close>

text \<open>The frames of the incremental deserializer wrap those of \<^verbatim>\<open>read_until\<close>.\<close>

lemma stream_parser_map_frame:
  fixes f :: "'k \<Rightarrow> 'l" and start :: "(unit, 'r \<times> bytes, exc, 'k) gen_step"
  assumes p: "stream_parser out start send wfk received"
    and wf: "\<And>k. wfl (f k) = wfk k" "\<And>l. wfl l \<Longrightarrow> \<exists>k. l = f k"
    and rcv: "\<And>k. received' (f k) = received k"
    and send: "\<And>k c. send' (f k) c = map_frame f (send k c)"
  shows "stream_parser out (map_frame f start) send' wfl received'"
proof (intro stream_parser.intro stream_parser_axioms.intro)
  show "framing out" using p by (rule stream_parser.axioms)
  show "\<exists>k. map_frame f start = Yield () k \<and> wfl k \<and> received' k = []"
    using stream_parser.start_yields [OF p] wf rcv by auto
next
  fix l d
  assume "wfl l" and "out (received' l @ d) = More"
  moreover obtain k where "l = f k" using wf(2) \<open>wfl l\<close> by blast
  ultimately show "\<exists>k'. send' l d = Yield () k' \<and> wfl k' \<and> received' k' = received' l @ d"
    using stream_parser.send_more [OF p, of k d] wf rcv send by auto
next
  fix l d and s :: "(unit, 'r \<times> bytes, exc, 'l) gen_step"
  assume l: "wfl l" and s: "verdict_step (out (received' l @ d)) = Some s"
  moreover obtain k where "l = f k" using wf(2) \<open>wfl l\<close> by blast
  ultimately show "send' l d = s"
    using stream_parser.send_stop [OF p, of k d] wf rcv send
    by (cases "out (received' l @ d)") auto
qed

fun json_lines_wf :: "int \<Rightarrow> json_incremental_frame \<Rightarrow> bool" where
  "json_lines_wf limit (JLines k) \<longleftrightarrow> until_wf [CHR 0x0A] limit k"
| "json_lines_wf limit (JRaw k) \<longleftrightarrow> False"

fun json_lines_received :: "json_incremental_frame \<Rightarrow> bytes" where
  "json_lines_received (JLines k) = until_received k"
| "json_lines_received (JRaw k) = []"

definition json_lines_out :: "'a json_serializer \<Rightarrow> bytes \<Rightarrow> 'a verdict" where
  "json_lines_out j =
     separated_out [CHR 0x0A] (js_limit j) False (json_errors j) (json_decode_document j)"

definition json_lines_buffered_out :: "'a json_serializer \<Rightarrow> bytes \<Rightarrow> 'a verdict" where
  "json_lines_buffered_out j =
     buffered_separated_out [CHR 0x0A] (nat (js_limit j)) False (json_errors j) (json_decode_document j)"

lemma json_after_read_eq:
  "json_after_read j (data, rd) = deserialize_or_wrap (json_errors j) (json_decode_document j) data (rbuffer rd)"
  by (simp add: json_after_read_def json_document_def read_all_def)

lemma json_then_step:
  "then_step (json_after_read j) fst (map_frame f s) = map_frame f (then_step (json_after_read j) fst s)"
  by (cases s)
     (auto simp: json_after_read_def json_document_def deserialize_or_wrap_def split: sum.split option.split prod.split)

lemma stream_parser_json_lines:
  assumes lines: "js_use_lines j" and limit: "0 < js_limit j"
  shows "stream_parser (json_lines_out j) (json_deserialize_start j) (json_deserialize_send j)
           (json_lines_wf (js_limit j)) json_lines_received"
proof -
  have p: "stream_parser (json_lines_out j)
      (then_step (json_after_read j) fst (until_start [CHR 0x0A] (js_limit j) False (new_reader [])))
      (\<lambda>k c. then_step (json_after_read j) fst (until_send [CHR 0x0A] (js_limit j) False k c))
      (until_wf [CHR 0x0A] (js_limit j)) until_received"
    unfolding json_lines_out_def by (rule stream_parser_read_until) (simp_all add: limit json_after_read_eq)
  have "stream_parser (json_lines_out j)
      (map_frame JLines (then_step (json_after_read j) fst (until_start [CHR 0x0A] (js_limit j) False (new_reader []))))
      (json_deserialize_send j) (json_lines_wf (js_limit j)) json_lines_received"
  proof (rule stream_parser_map_frame [OF p])
    show "json_lines_wf (js_limit j) l \<Longrightarrow> \<exists>k. l = JLines k" for l by (cases l) auto
  qed (simp_all add: json_then_step)
  then show ?thesis by (simp add: json_deserialize_start_def lines json_then_step)
qed

lemma incremental_errors_json_lines: "incremental_errors (json_lines_out j)"
  by (simp add: json_lines_out_def incremental_errors_separated)

lemma json_lines_after_eq:
  "json_lines_after j b (i, i + length [CHR 0x0A], m) =
     deserialize_or_wrap (json_errors j) (json_decode_document j) (take i b) (drop (i + 1) (take m b))"
  by (simp add: json_lines_after_def json_document_def)

lemma buffered_parser_json_lines:
  assumes "0 < js_limit j"
  shows "buffered_parser (json_lines_buffered_out j) (json_create_buffer j) (json_lines_buffered_start j)
           (json_lines_buffered_send j) (buffered_until_wf [CHR 0x0A] (nat (js_limit j)))
           buffered_until_pos buffered_until_received hint (nat (js_limit j))"
proof -
  have sep: "[CHR 0x0A] \<noteq> []" "length [CHR 0x0A] \<le> nat (js_limit j)" using assms by simp_all
  have after: "json_lines_after j b (i, i + length [CHR 0x0A], m) =
      deserialize_or_wrap (json_errors j) (json_decode_document j)
        (if False then take (i + length [CHR 0x0A]) b else take i b)
        (drop (i + length [CHR 0x0A]) (take m b))" for b i m
    unfolding json_lines_after_eq by simp
  show ?thesis
    using buffered_parser_until [where after = "json_lines_after j", OF sep after]
    unfolding json_lines_buffered_out_def json_create_buffer_def [abs_def] json_lines_buffered_start_def [abs_def]
      json_lines_buffered_send_def [abs_def] by blast
qed

lemma gen_feed_stopped: "gen_feed send s cs = Yield y k \<Longrightarrow> \<exists>y' k'. s = Yield y' k'"
  by (induction send s cs rule: gen_feed.induct) auto

lemma json_raw_feed:
  assumes "gen_feed (raw_parse_send (js_limit j)) (Yield () k) cs = Yield () k'"
  shows "gen_feed (json_deserialize_send j) (Yield () (JRaw k)) cs = Yield () (JRaw k')"
  using assms
proof (induction cs arbitrary: k)
  case (Cons c cs)
  from Cons.prems have *: "gen_feed (raw_parse_send (js_limit j)) (raw_parse_send (js_limit j) k c) cs = Yield () k'"
    by (simp only: gen_feed.simps)
  from gen_feed_stopped [OF this] obtain k1 where k1: "raw_parse_send (js_limit j) k c = Yield () k1" by auto
  with Cons.IH [of k1] * show ?case by (simp only: gen_feed.simps json_deserialize_send.simps map_frame.simps then_step.simps)
qed simp

section \<open>Properties\<close>

text \<open>
  C6: without lines, a document is found at the same place however the network cuts the stream, even
  in the middle of an escape sequence or of a string: the incremental deserializer ends with the
  document that one scan of everything received finds.
\<close>

theorem json_raw_fragmentation:
  assumes "\<not> js_use_lines j" and "0 < js_limit j"
    and "\<forall>i \<le> length ds. raw_spec (js_limit j) (concat (take i ds)) = RawNeed"
    and "raw_spec (js_limit j) (concat ds @ d) = RawDocument doc rest"
  shows "gen_feed (json_deserialize_send j) (json_deserialize_start j) (ds @ [d]) = json_document j (doc, rest)"
proof -
  obtain k0 where k0: "raw_parse_start (js_limit j) = Yield () k0" using assms(2) by (simp add: raw_parse_start_def raw_next_def)
  from raw_feed [OF assms(3,2)] obtain k where k: "gen_feed (raw_parse_send (js_limit j)) (Yield () k0) ds = Yield () k"
    "raw_wf (js_limit j) k" "raw_received k = skip_ws (concat ds)" by (auto simp: k0)
  have "skip_ws (concat ds @ d) = skip_ws (raw_received k @ d)"
    by (rule raw_received_skip [OF _ k(2)]) (simp add: k(3))
  with raw_send_spec [OF k(2), of d] assms(4) have "raw_parse_send (js_limit j) k d = Return (doc, rest)"
    by (auto simp: raw_spec_def raw_step_ok_def Let_def split: if_splits)
  with json_raw_feed [OF k(1)] assms(1) show ?thesis
    by (simp add: gen_feed_append json_deserialize_start_def k0 del: raw_parse_send.simps)
qed

definition raw_json_example :: "bytes json_serializer" where
  "raw_json_example = \<lparr>js_encode = (\<lambda>p. Inr (map of_char p)), js_decode = (\<lambda>s. Inr (map char_of s)),
     js_codec = ascii_codec, js_limit = 64, js_use_lines = False, js_debug = False\<rparr>"

text \<open>The stream \<^verbatim>\<open> {"}\"":1} 2\<close>, cut behind the backslash.\<close>

theorem json_raw_fragmentation_witness:
  "gen_feed (json_deserialize_send raw_json_example) (json_deserialize_start raw_json_example)
     ([[CHR '' '', CHR ''{'', CHR 0x22, CHR ''}'', CHR 0x5C]] @ [[CHR 0x22, CHR 0x22, CHR ''}'', CHR '' '', CHR ''2'']])
   = json_document raw_json_example
       ([CHR ''{'', CHR 0x22, CHR ''}'', CHR 0x5C, CHR 0x22, CHR 0x22, CHR ''}''], ''2'')"
proof (rule json_raw_fragmentation)
  have "raw_spec 64 (concat (take 0 [[CHR '' '', CHR ''{'', CHR 0x22, CHR ''}'', CHR 0x5C]])) = RawNeed"
    "raw_spec 64 (concat (take 1 [[CHR '' '', CHR ''{'', CHR 0x22, CHR ''}'', CHR 0x5C]])) = RawNeed"
    by code_simp+
  then show "\<forall>i \<le> length [[CHR '' '', CHR ''{'', CHR 0x22, CHR ''}'', CHR 0x5C]].
      raw_spec (js_limit raw_json_example) (concat (take i [[CHR '' '', CHR ''{'', CHR 0x22, CHR ''}'', CHR 0x5C]])) = RawNeed"
    by (simp add: le_Suc_eq raw_json_example_def)
  show "raw_spec (js_limit raw_json_example)
      (concat [[CHR '' '', CHR ''{'', CHR 0x22, CHR ''}'', CHR 0x5C]] @ [CHR 0x22, CHR 0x22, CHR ''}'', CHR '' '', CHR ''2''])
      = RawDocument [CHR ''{'', CHR 0x22, CHR ''}'', CHR 0x5C, CHR 0x22, CHR 0x22, CHR ''}''] ''2''"
    by code_simp
qed (simp_all add: raw_json_example_def)

text \<open>
  when the leading white space and an overlong document arrive in the same chunk, the bytes the
  parser hands back in the \<^verbatim>\<open>LimitOverrunError\<close> are not bytes that follow the document: the white
  space is removed by moving the document to the front, and what its move leaves behind at the
  end of the buffer, a copy of the last bytes of the document, is returned as remaining data.
\<close>

theorem json_raw_overrun_stale_bytes:
  assumes "ws \<noteq> []" and "\<forall>c \<in> set ws. json_ws c" and "enclosure o1 = Some c1"
    and "json_scan o1 c1 t 1 1 (o1 = quote_byte) = ScanOpen count quotes"
    and "limit \<le> int (length (o1 # t))"
  shows "\<exists>e. raw_parse_send limit (RawFrame [] JStart) (ws @ o1 # t) = Raise e
           \<and> remaining_data e = drop (length (o1 # t)) (ws @ o1 # t)"
proof -
  have tw: "takeWhile json_ws (ws @ o1 # t) = ws"
    using assms(2) enclosure_not_ws [OF assms(3)] by (simp add: takeWhile_append2 [OF bspec [OF assms(2)]])
  have ws_end: "ws_end (ws @ o1 # t) 0 (length (ws @ o1 # t)) = length ws"
    by (simp only: ws_end_def take_all order_refl drop_0 tw add_0)
  have "raw_parse_begin limit (ws @ o1 # t) (length (ws @ o1 # t)) =
      (let b = o1 # t @ drop (length (o1 # t)) (ws @ o1 # t)
       in (enclosed_loop limit o1 c1 b 1 (length (o1 # t)) 1 (o1 = quote_byte), b))"
    unfolding raw_parse_begin_def ws_end Let_def using assms(1,3) by simp
  with assms(4,5) show ?thesis
    by (simp add: raw_next_def enclosed_loop_def read_data_def limit_overrun_error_def limit_overrun_remaining_def Let_def)
qed

theorem json_raw_overrun_stale_bytes_witness:
  "\<exists>e. raw_parse_send 4 (RawFrame [] JStart) ([CHR 0x20, CHR 0x20] @ CHR ''['' # ''abc'') = Raise e
     \<and> remaining_data e = drop (length (CHR ''['' # ''abc'')) ([CHR 0x20, CHR 0x20] @ CHR ''['' # ''abc'')"
  by (rule json_raw_overrun_stale_bytes [where count = 1 and quotes = False and ?c1.0 = "CHR '']''"]; code_simp)

end
