(* ===== verification/Streams.thy ===== *)
theory Streams
  imports Delivery LineSerializer Json
begin

text \<open>
  What the stream endpoint delivers with the serializers of the library: the contracts of the
  receivers put together with those of the serializers, for both receive paths, and the round trip from the
  chunks a sender produces to the packets the receiver of the other side returns.
\<close>

section \<open>Protocols behind a receiver\<close>

lemma protocol_bad_parse_error:
  assumes "incremental_errors out" and "protocol_out conv out d = Bad e r"
  shows "\<exists>e'. e = StreamProtocolParseError [] e'"
  using assms
  by (cases "out d")
     (auto simp: protocol_out_def incremental_errors_def stream_parse_error_def split: sum.splits if_splits)

lemma buffered_packets_protocol:
  assumes "buffered_parser out create bstart bsend wfb pos received hint cap" and "incremental_errors out"
  shows "buffered_packets (protocol_out conv out) create (\<lambda>b. build_packet_start conv (bstart b))
           (build_packet_send conv bsend) wfb pos received hint cap"
proof (intro buffered_packets.intro buffered_packets_axioms.intro)
  show "buffered_parser (protocol_out conv out) create (\<lambda>b. build_packet_start conv (bstart b))
          (build_packet_send conv bsend) wfb pos received hint cap"
    using assms(1) by (rule buffered_parser.buffered_parser_protocol)
  show "\<exists>e'. e = StreamProtocolParseError [] e'" if "protocol_out conv out d = Bad e r" for d e r
    using assms(2) that by (rule protocol_bad_parse_error)
qed

lemma incremental_errors_buffered_separated:
  "incremental_errors (buffered_separated_out sep cap keep_end h deser)"
  by (auto simp: incremental_errors_def buffered_separated_out_def Let_def
        dest: wrap_verdict_BadD split: option.splits if_splits)

lemma buffered_packets_auto:
  assumes "as_separator a \<noteq> []" and "int (length (as_separator a)) \<le> as_limit a"
  shows "buffered_packets (protocol_out conv (auto_buffered_out a)) (auto_create_buffer a)
      (\<lambda>b. build_packet_start conv (auto_buffered_start a b)) (build_packet_send conv (auto_buffered_send a))
      (buffered_until_wf (as_separator a) (nat (as_limit a))) buffered_until_pos buffered_until_received hint
      (nat (as_limit a))"
  using buffered_parser_auto [OF assms, of hint]
  by (rule buffered_packets_protocol) (simp add: auto_buffered_out_def incremental_errors_buffered_separated)

text \<open>The state of a receiver that was just made, for the two implementations.\<close>

lemma data_receiver_init_inv:
  assumes "stream_protocol out start send wfk received" and "data_receiver_init n = Inr r"
  shows "dr_inv out wfk received r \<and> \<not> dr_eof_reached r \<and> sc_pending received (dr_consumer r) = []"
  using assms(2) stream_parser.sc_inv_init [OF stream_protocol.axioms(1) [OF assms(1)]]
  by (auto simp: data_receiver_init_def check_max_recv_size_value_def dr_inv_def split: if_splits)

lemma buffered_receiver_init_inv:
  assumes "buffered_receiver_init n = Inr r"
  shows "br_inv out wfb pos received n cap r \<and> \<not> br_eof_reached r \<and> bc_pending pos received (br_consumer r) = []"
proof -
  from assms obtain c where "buffered_consumer_init n = Inr c" "r = \<lparr>br_consumer = c, br_eof_reached = False\<rparr>"
    by (auto simp: buffered_receiver_init_def result_bind_def split: option.splits sum.splits)
  with bc_inv_init [of n c out wfb pos received cap] show ?thesis by (simp add: br_inv_def)
qed

text \<open>Calls on a fresh receiver.\<close>

lemma data_receiver_delivery:
  assumes "stream_protocol out start send wfk received" and "stream_source incoming recv"
    and "data_receiver_init n = Inr r" and "decodes out (incoming w) evs rest"
  shows "\<exists>rs r' w'. receive_calls (\<lambda>t r w. data_receive (length (incoming w) + 2) clock recv start send t r w) ts r w
           = Some (rs, r', w') \<and> length rs = length ts \<and> delivered evs rs (dr_eof_reached r')"
proof -
  note init = data_receiver_init_inv [OF assms(1,3)]
  have "decodes out (sc_pending received (dr_consumer r) @ (if dr_eof_reached r then [] else incoming w)) evs rest"
    using init assms(4) by simp
  with init packet_receiver.receive_calls_delivery [OF stream_protocol.packet_receiver_data [OF assms(1,2)]]
  show ?thesis unfolding delivered_def by fast
qed

lemma buffered_receiver_delivery:
  assumes "buffered_packets out create bstart bsend wfb pos received n cap" and "stream_source incoming recv"
    and "buffered_receiver_init n = Inr r" and "decodes out (incoming w) evs rest"
  shows "\<exists>rs r' w'. receive_calls (\<lambda>t r w. buffered_receive (length (incoming w) + 2) clock recv
             (parser_protocol create bstart bsend) t r w) ts r w
           = Some (rs, r', w') \<and> length rs = length ts \<and> delivered evs rs (br_eof_reached r')"
proof -
  have init: "br_inv out wfb pos received n cap r" "\<not> br_eof_reached r" "bc_pending pos received (br_consumer r) = []"
    using buffered_receiver_init_inv [OF assms(3)] by blast+
  have "decodes out (bc_pending pos received (br_consumer r) @ (if br_eof_reached r then [] else incoming w)) evs rest"
    using init assms(4) by simp
  with init packet_receiver.receive_calls_delivery [OF buffered_packets.packet_receiver_buffered [OF assms(1,2)]]
  show ?thesis unfolding delivered_def by fast
qed

section \<open>The stream of a sender\<close>

text \<open>All the bytes \<^verbatim>\<open>StreamDataProducer\<close> makes of a list of packets.\<close>

definition sent_stream :: "('p \<Rightarrow> chunks) \<Rightarrow> 'p list \<Rightarrow> bytes" where
  "sent_stream generate packets = concat (map (\<lambda>p. concat (fst (producer_generate generate p))) packets)"

lemma decodes_sent:
  assumes "out [] = More" and "\<And>p rest. p \<in> set packets \<Longrightarrow>
    out (concat (fst (producer_generate generate p)) @ rest) = Done p rest"
  shows "decodes out (sent_stream generate packets) (map Inr packets) []"
  using assms(2)
proof (induction packets)
  case Nil
  then show ?case using assms(1) by (simp add: sent_stream_def decodes_more)
next
  case (Cons p ps)
  have "out (sent_stream generate (p # ps)) = Done p (sent_stream generate ps)"
    using Cons.prems [of p] by (simp add: sent_stream_def)
  moreover have "decodes out (sent_stream generate ps) (map Inr ps) []" using Cons by simp
  ultimately show ?case by (auto intro: decodes_done)
qed

lemma delivered_packets:
  assumes "delivered (map Inr packets) rs at_end"
  shows "\<exists>k \<le> length packets. filter is_delivery rs = map Inr (take k packets) \<and> (at_end \<longrightarrow> k = length packets)"
proof -
  from assms obtain d td where d: "map Inr packets = d @ td" "list_all2 result_of d (filter is_delivery rs)"
    "at_end \<longrightarrow> td = []" by (auto simp: delivered_def)
  have "d = map Inr (take (length d) packets)"
    using d(1) by (metis append_eq_conv_conj take_map)
  moreover have "ys = map Inr xs" if "list_all2 result_of (map Inr xs) ys" for xs :: "'a list" and ys
    using that
  proof (induction xs arbitrary: ys)
    case (Cons x xs)
    then obtain y ys' where y: "ys = y # ys'" "result_of (Inr x) y" "list_all2 result_of (map Inr xs) ys'"
      by (auto simp: list_all2_Cons1)
    then have "y = Inr x" by (cases y) auto
    with y Cons.IH show ?case by simp
  qed simp
  ultimately have "filter is_delivery rs = map Inr (take (length d) packets)" using d(2) by metis
  moreover have "length d \<le> length packets" using d(1) by (metis length_map length_append le_add1)
  moreover have "length d = length packets" if at_end using d(1,3) that by (metis append_Nil2 length_map)
  ultimately show ?thesis by blast
qed

section \<open>A network that cuts the stream\<close>

text \<open>
  A world for the examples: the bytes to come and, for every read to come, the most bytes it gets; \<open>0\<close> makes
  the read time out.  When the script is used up, a read gets all it asked for.
\<close>

record net =
  net_incoming :: bytes
  net_script :: "nat list"

definition net_recv :: "net receive_fun" where
  "net_recv n t w =
     (case net_script w of
        [] \<Rightarrow> (Inr (take n (net_incoming w)), w\<lparr>net_incoming := drop n (net_incoming w)\<rparr>)
      | k # ks \<Rightarrow>
          let w' = w\<lparr>net_script := ks\<rparr> in
          if k = 0 then (Inl (error_from_errno ''ETIMEDOUT''), w')
          else (Inr (take (min n k) (net_incoming w)), w'\<lparr>net_incoming := drop (min n k) (net_incoming w)\<rparr>))"

lemma stream_source_net: "stream_source net_incoming net_recv"
  unfolding stream_source_def
  by (auto simp: net_recv_def error_from_errno_def Let_def min_def split: list.splits if_splits)

text \<open>The contracts on the default line serializer and this network.\<close>

interpretation default_receiver: packet_receiver "protocol_out str_converter (line_out default_line)"
  "\<lambda>t r w. data_receive (length (net_incoming w) + 2) (\<lambda>_. 0) net_recv
     (build_packet_start str_converter (line_deserialize_start default_line))
     (build_packet_send str_converter (line_deserialize_send default_line)) t r w"
  "dr_inv (protocol_out str_converter (line_out default_line)) (until_wf [CHR 0x0A] 65536) until_received"
  dr_eof_reached "\<lambda>r. sc_pending until_received (dr_consumer r)" net_incoming
  using stream_protocol.packet_receiver_data [OF default_protocol.stream_protocol_axioms stream_source_net] .

interpretation default_packets: buffered_packets "protocol_out str_converter (line_buffered_out default_line)"
  "line_create_buffer default_line" "\<lambda>b. build_packet_start str_converter (line_buffered_start default_line b)"
  "build_packet_send str_converter (line_buffered_send default_line)" "buffered_until_wf [CHR 0x0A] 65536"
  buffered_until_pos buffered_until_received 8192 65536
  using buffered_packets_protocol [OF default_buffered.buffered_parser_axioms]
  by (simp add: line_buffered_out_def incremental_errors_buffered_separated)

section \<open>Properties\<close>

text \<open>A sequence of \<^verbatim>\<open>recv_packet\<close> calls; the fuel of a call covers all its passes.\<close>

abbreviation data_receiver_calls where
  "data_receiver_calls incoming clock recv start send \<equiv>
     receive_calls (\<lambda>t r w. data_receive (length (incoming w) + 2) clock recv start send t r w)"

abbreviation buffered_receiver_calls where
  "buffered_receiver_calls incoming clock recv P \<equiv>
     receive_calls (\<lambda>t r w. buffered_receive (length (incoming w) + 2) clock recv P t r w)"

text \<open>
  C1: a stream endpoint with a separator-framed serializer and any converter returns, over a transport that cuts
  the stream anywhere, times out or fails at any call, exactly the packets and parse errors that the
  stream decodes to as a whole: in order, none lost, none twice, all of them by the time the end of the
  stream is reported; and every call returns.
\<close>

theorem data_endpoint_delivers:
  assumes "as_separator a \<noteq> []" and "0 < as_limit a" and "stream_source incoming recv"
    and "data_receiver_init n = Inr r" and "decodes (protocol_out conv (auto_out a)) (incoming w) evs rest"
  shows "\<exists>rs r' w'. data_receiver_calls incoming clock recv (build_packet_start conv (auto_deserialize_start a))
             (build_packet_send conv (auto_deserialize_send a)) ts r w = Some (rs, r', w')
           \<and> length rs = length ts \<and> delivered evs rs (dr_eof_reached r')"
  using data_receiver_delivery [OF stream_protocol_auto [OF assms(1,2)] assms(3-5)] .

definition plain_separated :: "(bytes, bytes) auto_separated" where
  "plain_separated = \<lparr>as_separator = [CHR ''|''], as_limit = 100, as_check = True, as_debug = False,
     as_serialize = Inr, as_deserialize = Inr\<rparr>"

lemma plain_separated_simps [simp]:
  "as_separator plain_separated = [CHR ''|'']" "as_limit plain_separated = 100"
  "as_serialize plain_separated = Inr" "as_deserialize plain_separated = Inr"
  by (simp_all add: plain_separated_def)

abbreviation bytes_converter :: "(bytes, bytes, bytes, bytes) converter" where
  "bytes_converter \<equiv> no_converter"

lemma plain_example_out:
  "protocol_out bytes_converter (auto_out plain_separated) ''ab|cd|e'' = Done ''ab'' ''cd|e''"
  "protocol_out bytes_converter (auto_out plain_separated) ''cd|e'' = Done ''cd'' ''e''"
  "protocol_out bytes_converter (auto_out plain_separated) ''e'' = More"
  by code_simp+

lemma plain_example_decodes:
  "decodes (protocol_out bytes_converter (auto_out plain_separated)) ''ab|cd|e'' [Inr ''ab'', Inr ''cd''] ''e''"
  using plain_example_out by (auto intro!: decodes.intros)

theorem data_endpoint_delivers_witness:
  "\<exists>rs r' w'. data_receiver_calls net_incoming (\<lambda>_. 0) net_recv
       (build_packet_start bytes_converter (auto_deserialize_start plain_separated))
       (build_packet_send bytes_converter (auto_deserialize_send plain_separated))
       [Infinity, Finite 0, Infinity] \<lparr>dr_consumer = stream_consumer_init, dr_max_recv_size = 3, dr_eof_reached = False\<rparr>
       \<lparr>net_incoming = ''ab|cd|e'', net_script = [1, 0, 2]\<rparr> = Some (rs, r', w')
     \<and> length rs = length [Infinity, Finite 0, Infinity]
     \<and> delivered [Inr ''ab'', Inr ''cd''] rs (dr_eof_reached r')"
proof (rule data_endpoint_delivers [where n = 3, OF _ _ stream_source_net])
  show "decodes (protocol_out bytes_converter (auto_out plain_separated))
      (net_incoming \<lparr>net_incoming = ''ab|cd|e'', net_script = [1, 0, 2]\<rparr>) [Inr ''ab'', Inr ''cd''] ''e''"
    using plain_example_decodes by simp
qed (simp_all add: data_receiver_init_def check_max_recv_size_value_def)


lemma plain_buffered_example:
  "decodes (protocol_out bytes_converter (auto_buffered_out plain_separated)) ''ab|cd|e'' [Inr ''ab'', Inr ''cd''] ''e''"
proof -
  have "protocol_out bytes_converter (auto_buffered_out plain_separated) ''ab|cd|e'' = Done ''ab'' ''cd|e''"
    "protocol_out bytes_converter (auto_buffered_out plain_separated) ''cd|e'' = Done ''cd'' ''e''"
    "protocol_out bytes_converter (auto_buffered_out plain_separated) ''e'' = More"
    by code_simp+
  then show ?thesis by (auto intro!: decodes.intros)
qed

definition fresh_buffered :: "int \<Rightarrow> 'k buffered_receiver" where
  "fresh_buffered n = (case buffered_receiver_init n of Inr r \<Rightarrow> r | Inl _ \<Rightarrow> undefined)"

lemma fresh_buffered: "0 < n \<Longrightarrow> buffered_receiver_init n = Inr (fresh_buffered n)"
  by (simp add: fresh_buffered_def buffered_receiver_init_def check_max_recv_size_value_def buffered_consumer_init_def)




text \<open>
  C3: round trip over the network: strings that the line serializer can send, written one after the other by
  the sender's producer, come out of the receiver of the other side as the same strings in the same order,
  whatever the network does to the boundaries.
\<close>

definition line_sendable :: "string_line \<Rightarrow> str \<Rightarrow> bool" where
  "line_sendable l s \<longleftrightarrow>
     (case line_serialize l s of
        Inl e \<Rightarrow> False
      | Inr data \<Rightarrow> data \<noteq> [] \<and> \<not> contains data (sl_separator l)
          \<and> int (length data + length (sl_separator l)) < sl_limit l
          \<and> codec_decode (sl_codec l) (if sl_keep_end l then data @ sl_separator l else data) = Inr s)"

lemma line_sent:
  assumes "line_ok l" and "line_sendable l s"
  shows "\<exists>data. concat (fst (producer_generate (generate_chunks (line_incremental_serialize l) str_converter) s))
      = data @ sl_separator l \<and> \<not> contains data (sl_separator l)
    \<and> int (length data + length (sl_separator l)) < sl_limit l
    \<and> codec_decode (sl_codec l) (if sl_keep_end l then data @ sl_separator l else data) = Inr s"
proof -
  from assms(2) obtain data where data: "codec_encode (sl_codec l) s = Inr data" "data \<noteq> []"
    "\<not> contains data (sl_separator l)" "int (length data + length (sl_separator l)) < sl_limit l"
    "codec_decode (sl_codec l) (if sl_keep_end l then data @ sl_separator l else data) = Inr s"
    by (auto simp: line_sendable_def line_serialize_def split: sum.splits)
  have "\<not> endswith data (sl_separator l)"
  proof
    assume "endswith data (sl_separator l)"
    then obtain u where "data = u @ sl_separator l" by (auto simp: endswith_def suffix_def)
    then have "prefix (sl_separator l) (drop (length u) data)" "length u \<le> length data" by simp_all
    with data(3) show False by (auto simp: contains_def bfind_None_iff)
  qed
  with data show ?thesis
    by (auto simp: producer_generate_def generate_chunks_def no_converter_def line_incremental_serialize_def)
qed

theorem line_endpoint_roundtrip:
  assumes "line_ok l" and "stream_source incoming recv" and "data_receiver_init n = Inr r"
    and "\<forall>s \<in> set packets. line_sendable l s"
    and "incoming w = sent_stream (generate_chunks (line_incremental_serialize l) str_converter) packets"
  shows "\<exists>rs r' w' k. data_receiver_calls incoming clock recv
             (build_packet_start str_converter (line_deserialize_start l))
             (build_packet_send str_converter (line_deserialize_send l)) ts r w = Some (rs, r', w')
           \<and> k \<le> length packets \<and> filter is_delivery rs = map Inr (take k packets)
           \<and> (dr_eof_reached r' \<longrightarrow> k = length packets)"
proof -
  let ?out = "protocol_out str_converter (line_out l)"
  have "?out (concat (fst (producer_generate (generate_chunks (line_incremental_serialize l) str_converter) s)) @ rest)
      = Done s rest" if "s \<in> set packets" for s rest
    using line_sent [OF assms(1)] assms(4) that line_out_line [OF assms(1)]
    by (fastforce simp: protocol_out_def no_converter_def)
  moreover have "?out [] = More" using line_okD [OF assms(1)]
    by (simp add: line_out_def separated_out_def read_until_spec_def)
  ultimately have dec: "decodes ?out (incoming w) (map Inr packets) []"
    unfolding assms(5) by (rule decodes_sent [rotated])
  have "incremental_errors (line_out l)" by (simp add: line_out_def incremental_errors_separated)
  with stream_parser_line [OF assms(1)] have "stream_protocol ?out
      (build_packet_start str_converter (line_deserialize_start l))
      (build_packet_send str_converter (line_deserialize_send l)) (until_wf (sl_separator l) (sl_limit l)) until_received"
    by (rule stream_parser.stream_protocol_protocol)
  from data_receiver_delivery [OF this assms(2,3) dec] show ?thesis using delivered_packets by blast
qed

lemma default_line_example: "line_sendable default_line [72, 105]" "line_sendable default_line [33]"
  by code_simp+

theorem line_endpoint_roundtrip_witness:
  "\<exists>rs r' w' k. data_receiver_calls net_incoming (\<lambda>_. 0) net_recv
       (build_packet_start str_converter (line_deserialize_start default_line))
       (build_packet_send str_converter (line_deserialize_send default_line))
       [Infinity, Infinity, Infinity]
       \<lparr>dr_consumer = stream_consumer_init, dr_max_recv_size = 3, dr_eof_reached = False\<rparr>
       \<lparr>net_incoming = sent_stream (generate_chunks (line_incremental_serialize default_line) str_converter)
          [[72, 105], [33]], net_script = [1, 0, 2]\<rparr> = Some (rs, r', w')
     \<and> k \<le> length [[72, 105], [33 :: nat]] \<and> filter is_delivery rs = map Inr (take k [[72, 105], [33]])
     \<and> (dr_eof_reached r' \<longrightarrow> k = length [[72, 105], [33 :: nat]])"
  by (rule line_endpoint_roundtrip [OF line_ok_default stream_source_net, where n = 3])
     (use default_line_example in \<open>simp_all add: data_receiver_init_def check_max_recv_size_value_def\<close>)

context buffered_packets
begin

lemma buffered_consumer_step:
  assumes inv: "Inv st" and "bc_written st = 0"
  shows "\<exists>offset len st1. get_write_buffer P st = (Inr (offset, len), st1) \<and> 0 < len
    \<and> (\<forall>c. length c \<le> len \<and> \<not> fatal (out (Pending st @ c)) \<longrightarrow>
         (\<exists>res st2. buffered_next P (fill_write_buffer c st1) (Some (int (length c))) = (res, st2) \<and> Inv st2
            \<and> (res, Pending st2) = spec_next buffer_crashed out (Pending st) c \<and> (res = Stop \<longrightarrow> bc_written st2 = 0)))"
proof -
  have "pos k + bc_written st < cap" if k: "bc_consumer st = Some k" for k
  proof -
    from inv k obtain b where "bc_buffer st = Some b" "length b = cap" "wfb k b"
      by (auto simp: bc_inv_def buffer_contents_def split: option.splits)
    with assms(2) wf_space show ?thesis by simp
  qed
  from get_write_buffer_ok [OF inv this] obtain v st1 where st1: "get_write_buffer P st = (Inr v, st1)" "Inv st1"
    "bc_view st1 = Some v" "Pending st1 = Pending st" "0 < snd v" by blast
  obtain offset len where v: "v = (offset, len)" by fastforce
  with st1 buffered_next_refines [OF st1(2), of offset len _] bad_law show ?thesis by auto
qed

end

text \<open>
  C4: the buffered consumer refines the same machine as the chunk consumer.  Between two receptions, when nothing is written
  that \<^verbatim>\<open>next\<close> has not seen (\<open>bc_written\<close> is 0, as after every \<^verbatim>\<open>StopIteration\<close>), the transport is given a non-empty
  part of the buffer, and once it has written bytes there, \<^verbatim>\<open>next\<close> answers as if these bytes had been appended
  to the bytes kept so far, unless their verdict is fatal: after a limit overrun or a crash of the parser the
  buffer keeps what was written, which the abstract machine drops.
\<close>

theorem buffered_consumer_refines:
  assumes "as_separator a \<noteq> []" and "int (length (as_separator a)) \<le> as_limit a"
    and "bc_inv (protocol_out conv (auto_buffered_out a)) (buffered_until_wf (as_separator a) (nat (as_limit a)))
           buffered_until_pos buffered_until_received hint (nat (as_limit a)) st" and "bc_written st = 0"
  shows "\<exists>offset len st1.
      get_write_buffer (buffered_stream_protocol conv (auto_create_buffer a) (auto_buffered_start a) (auto_buffered_send a)) st
        = (Inr (offset, len), st1) \<and> 0 < len
    \<and> (\<forall>c. length c \<le> len
           \<and> \<not> fatal (protocol_out conv (auto_buffered_out a) (bc_pending buffered_until_pos buffered_until_received st @ c)) \<longrightarrow>
         (\<exists>res st2. buffered_next
              (buffered_stream_protocol conv (auto_create_buffer a) (auto_buffered_start a) (auto_buffered_send a))
              (fill_write_buffer c st1) (Some (int (length c))) = (res, st2)
            \<and> bc_inv (protocol_out conv (auto_buffered_out a)) (buffered_until_wf (as_separator a) (nat (as_limit a)))
                buffered_until_pos buffered_until_received hint (nat (as_limit a)) st2
            \<and> (res, bc_pending buffered_until_pos buffered_until_received st2) =
                spec_next buffer_crashed (protocol_out conv (auto_buffered_out a))
                  (bc_pending buffered_until_pos buffered_until_received st) c
            \<and> (res = Stop \<longrightarrow> bc_written st2 = 0)))"
  using buffered_packets.buffered_consumer_step [OF buffered_packets_auto [OF assms(1,2)] assms(3,4)]
  unfolding buffered_stream_protocol_def .

definition fresh_consumer :: "int \<Rightarrow> 'k buffered_consumer" where
  "fresh_consumer n = br_consumer (fresh_buffered n)"

lemma fresh_consumer: "0 < n \<Longrightarrow> buffered_consumer_init n = Inr (fresh_consumer n)"
  by (simp add: fresh_consumer_def fresh_buffered_def buffered_receiver_init_def check_max_recv_size_value_def
      buffered_consumer_init_def)

theorem buffered_consumer_refines_witness:
  "\<exists>offset len st1.
      get_write_buffer (buffered_stream_protocol bytes_converter (auto_create_buffer plain_separated)
        (auto_buffered_start plain_separated) (auto_buffered_send plain_separated)) (fresh_consumer 8)
        = (Inr (offset, len), st1) \<and> 0 < len
    \<and> (\<forall>c. length c \<le> len
           \<and> \<not> fatal (protocol_out bytes_converter (auto_buffered_out plain_separated)
                 (bc_pending buffered_until_pos buffered_until_received (fresh_consumer 8) @ c)) \<longrightarrow>
         (\<exists>res st2. buffered_next (buffered_stream_protocol bytes_converter (auto_create_buffer plain_separated)
              (auto_buffered_start plain_separated) (auto_buffered_send plain_separated))
              (fill_write_buffer c st1) (Some (int (length c))) = (res, st2)
            \<and> bc_inv (protocol_out bytes_converter (auto_buffered_out plain_separated))
                (buffered_until_wf (as_separator plain_separated) (nat (as_limit plain_separated)))
                buffered_until_pos buffered_until_received 8 (nat (as_limit plain_separated)) st2
            \<and> (res, bc_pending buffered_until_pos buffered_until_received st2) =
                spec_next buffer_crashed (protocol_out bytes_converter (auto_buffered_out plain_separated))
                  (bc_pending buffered_until_pos buffered_until_received (fresh_consumer 8)) c
            \<and> (res = Stop \<longrightarrow> bc_written st2 = 0)))"
proof (rule buffered_consumer_refines)
  show "bc_inv (protocol_out bytes_converter (auto_buffered_out plain_separated))
      (buffered_until_wf (as_separator plain_separated) (nat (as_limit plain_separated)))
      buffered_until_pos buffered_until_received 8 (nat (as_limit plain_separated)) (fresh_consumer 8)"
    by (rule conjunct1 [OF bc_inv_init [OF fresh_consumer]]) simp
  show "bc_written (fresh_consumer 8 :: buffered_until_frame buffered_consumer) = 0"
    by (simp add: fresh_consumer_def fresh_buffered_def buffered_receiver_init_def check_max_recv_size_value_def
      buffered_consumer_init_def)
qed simp_all

text \<open>
  fixed-size packets: a stream that is the packets of a fixed-size serializer one after the other is
  delivered packet by packet by the buffered receiver, and a part of a packet at the end stays pending.
\<close>

theorem fixed_endpoint_delivers:
  assumes "0 < fs_size f" and "stream_source incoming recv" and "buffered_receiver_init n = Inr r"
    and "\<forall>d \<in> set frames. int (length d) = fs_size f \<and> result_bind (fs_deserialize f d) (create_from_dto_packet conv) = Inr (value d)"
    and "incoming w = concat frames @ partial" and "int (length partial) < fs_size f"
  shows "\<exists>rs r' w' k. buffered_receiver_calls incoming clock recv
             (buffered_stream_protocol conv (fixed_create_buffer f) (fixed_buffered_start f) (fixed_buffered_send f))
             ts r w = Some (rs, r', w')
           \<and> k \<le> length frames \<and> filter is_delivery rs = map Inr (take k (map value frames))
           \<and> (br_eof_reached r' \<longrightarrow> k = length frames)"
proof -
  let ?out = "protocol_out conv (fixed_out (nat (fs_size f)) (fs_deserialize f))"
  have dec: "decodes ?out (concat frames @ partial) (map Inr (map value frames)) partial"
    using assms(4)
  proof (induction frames)
    case Nil
    then show ?case using assms(6) by (simp add: decodes_more fixed_out_def zless_nat_eq_int_zless)
  next
    case (Cons d ds)
    then have "length d = nat (fs_size f)" by auto
    with Cons.prems have "?out (concat (d # ds) @ partial) = Done (value d) (concat ds @ partial)"
      by (auto simp: protocol_out_def result_bind_def fixed_out_def wrap_verdict_def split: sum.splits)
    with Cons show ?case by (auto intro: decodes_done)
  qed
  from buffered_packets_protocol [OF buffered_parser_fixed [OF assms(1)] incremental_errors_fixed]
  have p: "buffered_packets ?out (fixed_create_buffer f) (\<lambda>b. build_packet_start conv (fixed_buffered_start f b))
      (build_packet_send conv (fixed_buffered_send f)) (fixed_buffered_wf (nat (fs_size f))) fixed_buffered_pos
      fixed_buffered_received n (nat (max (fs_size f) n))" .
  have "decodes ?out (incoming w) (map Inr (map value frames)) partial" unfolding assms(5) by (rule dec)
  from buffered_receiver_delivery [OF p assms(2,3) this] obtain rs r' w' where
    "buffered_receiver_calls incoming clock recv (parser_protocol (fixed_create_buffer f)
      (\<lambda>b. build_packet_start conv (fixed_buffered_start f b)) (build_packet_send conv (fixed_buffered_send f)))
      ts r w = Some (rs, r', w')" "delivered (map Inr (map value frames)) rs (br_eof_reached r')" by blast
  with delivered_packets [of "map value frames" rs] show ?thesis
    unfolding buffered_stream_protocol_def by fastforce
qed

definition two_bytes :: "(bytes, bytes) fixed_size" where
  "two_bytes = \<lparr>fs_size = 2, fs_debug = False, fs_serialize = Inr, fs_deserialize = Inr\<rparr>"

theorem fixed_endpoint_delivers_witness:
  "\<exists>rs r' w' k. buffered_receiver_calls net_incoming (\<lambda>_. 0) net_recv
       (buffered_stream_protocol bytes_converter (fixed_create_buffer two_bytes) (fixed_buffered_start two_bytes)
          (fixed_buffered_send two_bytes))
       [Infinity, Infinity, Infinity] (fresh_buffered 8) \<lparr>net_incoming = concat [''ab'', ''cd''] @ ''e'', net_script = [1, 0, 2]\<rparr>
     = Some (rs, r', w')
     \<and> k \<le> length [''ab'', ''cd''] \<and> filter is_delivery rs = map Inr (take k (map id [''ab'', ''cd'']))
     \<and> (br_eof_reached r' \<longrightarrow> k = length [''ab'', ''cd''])"
  by (rule fixed_endpoint_delivers [OF _ stream_source_net fresh_buffered]) (auto simp: two_bytes_def no_converter_def)

text \<open>
  JSON documents, one per line, over a stream that the network cuts at will: the endpoint returns the documents and the
  decoding errors of the lines, in order, and a line that is not JSON does not disturb the next one.
\<close>

theorem json_lines_endpoint_delivers:
  assumes "js_use_lines j" and "0 < js_limit j" and "stream_source incoming recv" and "data_receiver_init n = Inr r"
    and "\<forall>d \<in> set documents. CHR 0x0A \<notin> set d \<and> int (length d) \<le> js_limit j"
    and "\<forall>d \<in> set documents. case json_decode_document j d of
           Inr p \<Rightarrow> (\<exists>q. create_from_dto_packet conv p = Inr q \<and> event d = Inr q)
         | Inl e \<Rightarrow> (\<exists>msg info. json_errors j e = Some (msg, info)
                     \<and> event d = Inl (StreamProtocolParseError [] (IncrementalDeserializeError msg [] info)))"
    and "incoming w = concat (map (\<lambda>d. d @ [CHR 0x0A]) documents)"
  shows "\<exists>rs r' w'. data_receiver_calls incoming clock recv
             (build_packet_start conv (json_deserialize_start j))
             (build_packet_send conv (json_deserialize_send j)) ts r w = Some (rs, r', w')
           \<and> length rs = length ts \<and> delivered (map event documents) rs (dr_eof_reached r')"
proof -
  let ?out = "protocol_out conv (json_lines_out j)"
  have "decodes ?out (concat (map (\<lambda>d. d @ [CHR 0x0A]) documents)) (map event documents) []"
    using assms(5,6)
  proof (induction documents)
    case Nil
    then show ?case by (simp add: decodes_more json_lines_out_def separated_out_def read_until_spec_def)
  next
    case (Cons d ds)
    let ?rest = "concat (map (\<lambda>d. d @ [CHR 0x0A]) ds)"
    have "\<not> contains d [CHR 0x0A]"
      using Cons.prems(1) bfind_SomeD(3) [of "[CHR 0x0A]" d]
      by (cases "bfind [CHR 0x0A] d") (auto simp: contains_def in_set_conv_decomp)
    from bfind_append_Some [OF bfind_append_unbordered [OF unbordered_single this], of ?rest]
    have out: "json_lines_out j (d @ CHR 0x0A # ?rest) = wrap_verdict (json_errors j) (json_decode_document j) d ?rest"
      using Cons.prems(1) by (simp add: json_lines_out_def separated_out_def read_until_spec_def)
    have IH: "decodes ?out ?rest (map event ds) []" using Cons by simp
    show ?case
    proof (cases "json_decode_document j d")
      case (Inl e)
      with Cons.prems(2) obtain msg info where "json_errors j e = Some (msg, info)"
        "event d = Inl (StreamProtocolParseError [] (IncrementalDeserializeError msg [] info))" by auto
      moreover from this Inl out
      have "?out (d @ CHR 0x0A # ?rest) = Bad (StreamProtocolParseError [] (IncrementalDeserializeError msg [] info)) ?rest"
        by (simp add: protocol_out_def wrap_verdict_def stream_parse_error_def)
      ultimately show ?thesis using IH by (auto intro!: decodes_bad)
    next
      case (Inr p)
      with Cons.prems(2) obtain q where "create_from_dto_packet conv p = Inr q" "event d = Inr q" by auto
      moreover from this Inr out have "?out (d @ CHR 0x0A # ?rest) = Done q ?rest"
        by (simp add: protocol_out_def wrap_verdict_def)
      ultimately show ?thesis using IH by (auto intro!: decodes_done)
    qed
  qed
  then have dec: "decodes ?out (incoming w) (map event documents) []" unfolding assms(7) .
  from stream_parser_json_lines [OF assms(1,2)] incremental_errors_json_lines
  have "stream_protocol ?out (build_packet_start conv (json_deserialize_start j))
      (build_packet_send conv (json_deserialize_send j)) (json_lines_wf (js_limit j)) json_lines_received"
    by (rule stream_parser.stream_protocol_protocol)
  from data_receiver_delivery [OF this assms(3,4) dec] show ?thesis .
qed

text \<open>A decoder that knows only the document \<^verbatim>\<open>1\<close>.\<close>

definition one_json :: "nat json_serializer" where
  "one_json = \<lparr>js_encode = (\<lambda>p. Inr [49]), js_decode = (\<lambda>s. if s = [49] then Inr 1 else Inl json_decode_error),
     js_codec = ascii_codec, js_limit = 64, js_use_lines = True, js_debug = False\<rparr>"

definition one_event :: "bytes \<Rightarrow> exc + nat" where
  "one_event d = (if d = ''1'' then Inr 1
     else Inl (StreamProtocolParseError [] (IncrementalDeserializeError ''JSON decode error'' [] None)))"

theorem json_lines_endpoint_delivers_witness:
  "\<exists>rs r' w'. data_receiver_calls net_incoming (\<lambda>_. 0) net_recv
       (build_packet_start (no_converter :: (nat, nat, nat, nat) converter) (json_deserialize_start one_json))
       (build_packet_send (no_converter :: (nat, nat, nat, nat) converter) (json_deserialize_send one_json))
       [Infinity, Infinity, Infinity]
       \<lparr>dr_consumer = stream_consumer_init, dr_max_recv_size = 3, dr_eof_reached = False\<rparr>
       \<lparr>net_incoming = concat (map (\<lambda>d. d @ [CHR 0x0A]) [''1'', ''x'', ''1'']), net_script = [1, 0, 2]\<rparr> = Some (rs, r', w')
     \<and> length rs = length [Infinity, Infinity, Infinity]
     \<and> delivered (map one_event [''1'', ''x'', ''1'']) rs (dr_eof_reached r')"
proof (rule json_lines_endpoint_delivers [OF _ _ stream_source_net, where n = 3])
  have "json_decode_document one_json ''1'' = Inr 1" "json_decode_document one_json ''x'' = Inl json_decode_error"
    "json_errors one_json json_decode_error = Some (''JSON decode error'', None)" by code_simp+
  then show "\<forall>d \<in> set [''1'', ''x'', ''1'']. case json_decode_document one_json d of
      Inr p \<Rightarrow> (\<exists>q. create_from_dto_packet (no_converter :: (nat, nat, nat, nat) converter) p = Inr q \<and> one_event d = Inr q)
    | Inl e \<Rightarrow> (\<exists>msg info. json_errors one_json e = Some (msg, info)
        \<and> one_event d = Inl (StreamProtocolParseError [] (IncrementalDeserializeError msg [] info)))"
    by (simp add: one_event_def no_converter_def)
qed (simp_all add: one_json_def data_receiver_init_def check_max_recv_size_value_def)

text \<open>
  once the end of the stream has been seen it is reported by every later call, without another read from the
  transport, and the bytes of an incomplete packet at the end are neither delivered nor lost.
\<close>

theorem end_of_stream_final:
  assumes "as_separator a \<noteq> []" and "0 < as_limit a" and "dr_eof_reached r" and "0 < fuel"
    and "dr_inv (protocol_out conv (auto_out a)) (until_wf (as_separator a) (as_limit a)) until_received r"
  shows "\<exists>r'. data_receive fuel clock recv (build_packet_start conv (auto_deserialize_start a))
             (build_packet_send conv (auto_deserialize_send a)) t r w = Some (Inl end_of_stream, r', w)
           \<and> dr_eof_reached r'
           \<and> sc_pending until_received (dr_consumer r') = sc_pending until_received (dr_consumer r)"
proof -
  from assms(3,5) have inv: "sc_inv (protocol_out conv (auto_out a)) (until_wf (as_separator a) (as_limit a)) until_received
      (dr_consumer r)" and more: "protocol_out conv (auto_out a) (sc_pending until_received (dr_consumer r)) = More"
    by (simp_all add: dr_inv_def)
  obtain res st' where n: "consumer_next (build_packet_start conv (auto_deserialize_start a))
      (build_packet_send conv (auto_deserialize_send a)) (dr_consumer r) None = (res, st')" by fastforce
  with stream_parser.consumer_next_refines [OF stream_protocol.axioms(1) [OF stream_protocol_auto [OF assms(1,2)]] inv, of None]
    more have "res = Stop" "sc_pending until_received st' = sc_pending until_received (dr_consumer r)"
    by (auto simp: spec_next_def)
  moreover obtain f where "fuel = Suc f" using assms(4) by (cases fuel) auto
  ultimately show ?thesis using n assms(3) by (simp add: data_receive_def receive_failed_def)
qed

theorem end_of_stream_final_witness:
  "\<exists>r'. data_receive 1 (\<lambda>_. 0) net_recv (build_packet_start bytes_converter (auto_deserialize_start plain_separated))
       (build_packet_send bytes_converter (auto_deserialize_send plain_separated)) Infinity
       \<lparr>dr_consumer = \<lparr>sc_buffer = ''ab'', sc_consumer = None\<rparr>, dr_max_recv_size = 3, dr_eof_reached = True\<rparr>
       \<lparr>net_incoming = [], net_script = []\<rparr> = Some (Inl end_of_stream, r', \<lparr>net_incoming = [], net_script = []\<rparr>)
     \<and> dr_eof_reached r'
     \<and> sc_pending until_received (dr_consumer r') = sc_pending until_received
         (dr_consumer \<lparr>dr_consumer = \<lparr>sc_buffer = ''ab'', sc_consumer = None\<rparr>, dr_max_recv_size = 3, dr_eof_reached = True\<rparr>)"
proof (rule end_of_stream_final)
  have "protocol_out bytes_converter (auto_out plain_separated) ''ab'' = More" by code_simp
  then show "dr_inv (protocol_out bytes_converter (auto_out plain_separated))
      (until_wf (as_separator plain_separated) (as_limit plain_separated)) until_received
      \<lparr>dr_consumer = \<lparr>sc_buffer = ''ab'', sc_consumer = None\<rparr>, dr_max_recv_size = 3, dr_eof_reached = True\<rparr>"
    by (simp add: dr_inv_def sc_inv_def sc_pending_def)
qed simp_all

end
