(* ===== verification/AsyncTransport.thy ===== *)
theory AsyncTransport
  imports Timeouts StreamConsumer
begin

text \<open>
  What the asynchronous code awaits: the transport interface \<^verbatim>\<open>lowlevel/api_async/transports/abc.py\<close>, the time
  limits of \<^verbatim>\<open>lowlevel/api_async/backend/abc.py\<close> (\<^verbatim>\<open>move_on_after\<close>, \<^verbatim>\<open>timeout\<close>), \<^verbatim>\<open>aclose_forcefully\<close>
  (\<^verbatim>\<open>transports/utils.py\<close>) and the stapled transports of \<^verbatim>\<open>transports/composite.py\<close>, blocking and asynchronous.

  Awaiting changes the world \<open>'w\<close> (what the peer sends, the clock, the other tasks) and returns or raises;
  a task that is cancelled while it waits sees \<open>CancelledError\<close>.
\<close>

section \<open>The backend: cancel scopes\<close>

text \<open>
  \<open>be_enter\<close> is \<^verbatim>\<open>CancelScope.__enter__\<close> of a scope with the delay given, \<open>be_exit\<close> its \<^verbatim>\<open>__exit__\<close>: for the
  exception that reaches it, whether it is suppressed and what \<^verbatim>\<open>cancelled_caught()\<close> says then.
  \<open>be_coro_yield\<close> is \<^verbatim>\<open>cancel_shielded_coro_yield\<close>, which no cancellation interrupts.
\<close>

record 'w backend =
  be_enter :: "delay \<Rightarrow> 'w \<Rightarrow> 'w"
  be_exit :: "exc option \<Rightarrow> 'w \<Rightarrow> (bool \<times> bool) \<times> 'w"
  be_coro_yield :: "'w \<Rightarrow> 'w"

definition move_on_after :: "'w backend \<Rightarrow> delay \<Rightarrow> ('w \<Rightarrow> exc option \<times> 'w) \<Rightarrow> 'w \<Rightarrow> exc option \<times> 'w" where
  "move_on_after B delay body w =
     (case body (be_enter B delay w) of
        (res, w1) \<Rightarrow>
          (case be_exit B res w1 of ((suppressed, caught), w2) \<Rightarrow> (if suppressed then None else res, w2)))"

text \<open>\<^verbatim>\<open>_timeout_scope.__exit__\<close>, given the exception that reaches it.\<close>

definition timeout_scope_exit :: "'w backend \<Rightarrow> exc option \<Rightarrow> 'w \<Rightarrow> exc option \<times> 'w" where
  "timeout_scope_exit B exc w =
     (case be_exit B exc w of
        ((suppressed, caught), w') \<Rightarrow>
          (if suppressed \<and> caught then Some (TimeoutError ''timed out'') else exc, w'))"

text \<open>
  A block that returns a value inside \<^verbatim>\<open>backend.timeout(delay)\<close>; \<open>None\<close> is a body that does not return.  The
  body has a state \<open>'s\<close> of its own.
\<close>

definition error_of :: "exc + 'a \<Rightarrow> exc option" where
  "error_of res = (case res of Inl e \<Rightarrow> Some e | Inr _ \<Rightarrow> None)"

definition within_timeout ::
  "'w backend \<Rightarrow> delay \<Rightarrow> ('w \<Rightarrow> ((exc + 'a) \<times> 's \<times> 'w) option) \<Rightarrow> 'w \<Rightarrow> ((exc + 'a) \<times> 's \<times> 'w) option"
where
  "within_timeout B delay body w =
     (case body (be_enter B delay w) of
        None \<Rightarrow> None
      | Some (res, s, w1) \<Rightarrow>
          (case timeout_scope_exit B (error_of res) w1 of
             (None, w2) \<Rightarrow> Some (res, s, w2)
           | (Some e, w2) \<Rightarrow> Some (Inl e, s, w2)))"

section \<open>Stream transports\<close>

record ('a, 'w) stream_transport =
  st_recv :: "nat \<Rightarrow> 'w \<Rightarrow> (exc + bytes) \<times> 'w"
  st_recv_with_ancillary :: "nat \<Rightarrow> nat \<Rightarrow> 'w \<Rightarrow> (exc + bytes \<times> 'a) \<times> 'w"
  st_send_all :: "bytes \<Rightarrow> 'w \<Rightarrow> exc option \<times> 'w"
  st_send_all_with_ancillary :: "chunks \<Rightarrow> 'a \<Rightarrow> 'w \<Rightarrow> exc option \<times> 'w"
  st_send_eof :: "'w \<Rightarrow> exc option \<times> 'w"
  st_is_closing :: "'w \<Rightarrow> bool"
  st_aclose :: "'w \<Rightarrow> exc option \<times> 'w"

text \<open>
  The default \<^verbatim>\<open>recv\<close> over \<^verbatim>\<open>recv_into\<close>; the bytes written are those \<open>recv_into\<close> gives, with the count it
  returns.
\<close>

definition default_recv :: "(nat \<Rightarrow> 'w \<Rightarrow> (exc + int \<times> bytes) \<times> 'w) \<Rightarrow> int \<Rightarrow> 'w \<Rightarrow> (exc + bytes) \<times> 'w" where
  "default_recv recv_into bufsize w =
     (if bufsize = 0 then (Inr [], w)
      else if bufsize < 0 then (Inl (ValueError '''bufsize' must be a positive or null integer''), w)
      else (case recv_into (nat bufsize) w of
              (Inl e, w') \<Rightarrow> (Inl e, w')
            | (Inr (nbytes, buffer), w') \<Rightarrow>
                (if nbytes < 0 then Inl (RuntimeError ''transport.recv_into() returned a negative value'')
                 else Inr (take (nat nbytes) buffer), w')))"

text \<open>The default \<^verbatim>\<open>send_all_from_iterable\<close> joins the chunks; a generator that raises does so before anything is sent.\<close>

definition default_send_all_from_iterable ::
  "(bytes \<Rightarrow> 'w \<Rightarrow> exc option \<times> 'w) \<Rightarrow> chunks \<Rightarrow> 'w \<Rightarrow> exc option \<times> 'w"
where
  "default_send_all_from_iterable send_all cs w =
     (case snd cs of Some e \<Rightarrow> (Some e, w) | None \<Rightarrow> send_all (concat (fst cs)) w)"

definition aclose_forcefully :: "'w backend \<Rightarrow> ('w \<Rightarrow> exc option \<times> 'w) \<Rightarrow> 'w \<Rightarrow> exc option \<times> 'w" where
  "aclose_forcefully B aclose w = move_on_after B (Finite 0) aclose w"

section \<open>Stapled transports\<close>

text \<open>The end of a \<^verbatim>\<open>try_graceful_close\<close> block: closing by force when an exception passes, and properly otherwise.\<close>

definition try_graceful_close ::
  "'w backend \<Rightarrow> ('w \<Rightarrow> exc option \<times> 'w) \<Rightarrow> exc option \<times> 'w \<Rightarrow> exc option \<times> 'w"
where
  "try_graceful_close B aclose body =
     (case body of
        (None, w) \<Rightarrow> aclose w
      | (Some e, w) \<Rightarrow>
          (case aclose_forcefully B aclose w of
             (None, w') \<Rightarrow> (Some e, w')
           | (Some e', w') \<Rightarrow> (Some e', w')))"

text \<open>\<^verbatim>\<open>_close_stapled_transports\<close>: the exit stack runs the block of the sending side first.\<close>

definition aclose_stapled ::
  "'w backend \<Rightarrow> ('w \<Rightarrow> exc option \<times> 'w) \<Rightarrow> ('w \<Rightarrow> exc option \<times> 'w) \<Rightarrow> 'w \<Rightarrow> exc option \<times> 'w"
where
  "aclose_stapled B send_aclose receive_aclose w =
     try_graceful_close B receive_aclose (try_graceful_close B send_aclose (None, w))"

text \<open>The blocking version: \<^verbatim>\<open>try: send.close() finally: receive.close()\<close>.\<close>

definition close_stapled ::
  "('w \<Rightarrow> exc option \<times> 'w) \<Rightarrow> ('w \<Rightarrow> exc option \<times> 'w) \<Rightarrow> 'w \<Rightarrow> exc option \<times> 'w"
where
  "close_stapled send_close receive_close w =
     (case send_close w of
        (res, w1) \<Rightarrow>
          (case receive_close w1 of
             (None, w2) \<Rightarrow> (res, w2)
           | (Some e, w2) \<Rightarrow> (Some e, w2)))"

definition is_closed_stapled :: "('w \<Rightarrow> bool) \<Rightarrow> ('w \<Rightarrow> bool) \<Rightarrow> 'w \<Rightarrow> bool" where
  "is_closed_stapled send_is_closed receive_is_closed w \<longleftrightarrow> send_is_closed w \<and> receive_is_closed w"

text \<open>
  \<^verbatim>\<open>send_eof\<close>, the same in both versions: \<open>send_eof\<close> is \<open>None\<close> for a transport that can only send, and may raise
  \<^verbatim>\<open>NotImplementedError\<close>; then the sending side is closed instead.
\<close>

definition not_implemented :: exc where
  "not_implemented = OtherError ''NotImplementedError''"

definition send_eof_stapled ::
  "('w \<Rightarrow> exc option \<times> 'w) option \<Rightarrow> ('w \<Rightarrow> exc option \<times> 'w) \<Rightarrow> 'w \<Rightarrow> exc option \<times> 'w"
where
  "send_eof_stapled send_eof close w =
     (case (case send_eof of None \<Rightarrow> (Some not_implemented, w) | Some f \<Rightarrow> f w) of
        (None, w') \<Rightarrow> (None, w')
      | (Some e, w') \<Rightarrow> if e = not_implemented then close w' else (Some e, w'))"

text \<open>The transport made of the two halves.\<close>

definition stapled_stream_transport ::
  "'w backend \<Rightarrow> bool \<Rightarrow> ('a, 'w) stream_transport \<Rightarrow> ('a, 'w) stream_transport \<Rightarrow> ('a, 'w) stream_transport"
where
  "stapled_stream_transport B full_duplex send receive =
     \<lparr>st_recv = st_recv receive,
      st_recv_with_ancillary = st_recv_with_ancillary receive,
      st_send_all = st_send_all send,
      st_send_all_with_ancillary = st_send_all_with_ancillary send,
      st_send_eof = send_eof_stapled (if full_duplex then Some (st_send_eof send) else None) (st_aclose send),
      st_is_closing = is_closed_stapled (st_is_closing send) (st_is_closing receive),
      st_aclose = aclose_stapled B (st_aclose send) (st_aclose receive)\<rparr>"

section \<open>Laws of the backend and of closing\<close>

text \<open>
  The documented behaviour of cancel scopes: leaving a scope suppresses only a \<open>CancelledError\<close>, and what
  \<open>view\<close> shows of the world is not changed by entering and leaving scopes or by yielding to the other tasks.
\<close>

definition scopes_keep :: "('w \<Rightarrow> 'v) \<Rightarrow> 'w backend \<Rightarrow> bool" where
  "scopes_keep view B \<longleftrightarrow>
     (\<forall>t w. view (be_enter B t w) = view w) \<and>
     (\<forall>e w. view (snd (be_exit B e w)) = view w \<and>
            (fst (fst (be_exit B e w)) \<longrightarrow> e = Some CancelledError)) \<and>
     (\<forall>w. view (be_coro_yield B w) = view w)"

lemma scopes_keepD:
  assumes "scopes_keep view B"
  shows "view (be_enter B t w) = view w"
    and "be_exit B e w = ((s, c), w') \<Longrightarrow> view w' = view w \<and> (s \<longrightarrow> e = Some CancelledError)"
    and "view (be_coro_yield B w) = view w"
  using assms unfolding scopes_keep_def by (simp, metis fst_conv snd_conv, simp)

text \<open>\<open>closes is_closed close\<close>: after \<open>close\<close>, even one that raises, the transport is closed.\<close>

definition closes :: "('w \<Rightarrow> bool) \<Rightarrow> ('w \<Rightarrow> exc option \<times> 'w) \<Rightarrow> bool" where
  "closes is_closed close \<longleftrightarrow> (\<forall>w. is_closed (snd (close w)))"

lemma closesD: "closes is_closed close \<Longrightarrow> close w = (r, w') \<Longrightarrow> is_closed w'"
  unfolding closes_def by (metis snd_conv)

text \<open>What does not reopen a closed transport.\<close>

definition stays_closed :: "('w \<Rightarrow> bool) \<Rightarrow> ('w \<Rightarrow> exc option \<times> 'w) \<Rightarrow> bool" where
  "stays_closed is_closed f \<longleftrightarrow> (\<forall>w. is_closed w \<longrightarrow> is_closed (snd (f w)))"

lemma stays_closedD: "stays_closed is_closed f \<Longrightarrow> is_closed w \<Longrightarrow> f w = (r, w') \<Longrightarrow> is_closed w'"
  unfolding stays_closed_def by (metis snd_conv)

lemma aclose_forcefully_closes:
  assumes "scopes_keep is_closed B" and "closes is_closed aclose"
  shows "closes is_closed (aclose_forcefully B aclose)"
  unfolding closes_def
proof
  fix w
  obtain r w1 where a: "aclose (be_enter B (Finite 0) w) = (r, w1)" by fastforce
  obtain s c w2 where b: "be_exit B r w1 = ((s, c), w2)" by (metis surj_pair)
  from closesD [OF assms(2) a] scopes_keepD(2) [OF assms(1) b] a b
  show "is_closed (snd (aclose_forcefully B aclose w))"
    by (simp add: aclose_forcefully_def move_on_after_def)
qed

lemma aclose_forcefully_stays_closed:
  assumes "scopes_keep is_closed B" and "stays_closed is_closed aclose"
  shows "stays_closed is_closed (aclose_forcefully B aclose)"
  unfolding stays_closed_def
proof (intro allI impI)
  fix w
  assume w: "is_closed w"
  obtain r w1 where a: "aclose (be_enter B (Finite 0) w) = (r, w1)" by fastforce
  obtain s c w2 where b: "be_exit B r w1 = ((s, c), w2)" by (metis surj_pair)
  from stays_closedD [OF assms(2) _ a] w scopes_keepD(1,2) [OF assms(1)] a b
  show "is_closed (snd (aclose_forcefully B aclose w))"
    by (fastforce simp: aclose_forcefully_def move_on_after_def)
qed


section \<open>Closing both halves\<close>

lemma try_graceful_close_closes:
  assumes "scopes_keep is_closed B" and "closes is_closed aclose"
  shows "is_closed (snd (try_graceful_close B aclose body))"
proof (cases body)
  case (Pair res w)
  show ?thesis
  proof (cases res)
    case None
    with Pair assms(2) show ?thesis by (simp add: try_graceful_close_def closes_def)
  next
    case (Some e)
    obtain r w' where "aclose_forcefully B aclose w = (r, w')" by fastforce
    with closesD [OF aclose_forcefully_closes [OF assms] this] Pair Some show ?thesis
      by (simp add: try_graceful_close_def split: option.split)
  qed
qed

lemma try_graceful_close_stays_closed:
  assumes "scopes_keep is_closed B" and "stays_closed is_closed aclose" and "is_closed (snd body)"
  shows "is_closed (snd (try_graceful_close B aclose body))"
proof (cases body)
  case (Pair res w)
  show ?thesis
  proof (cases res)
    case None
    with Pair assms(2,3) show ?thesis by (simp add: try_graceful_close_def stays_closed_def)
  next
    case (Some e)
    obtain r w' where "aclose_forcefully B aclose w = (r, w')" by fastforce
    with stays_closedD [OF aclose_forcefully_stays_closed [OF assms(1,2)] _ this] assms(3) Pair Some show ?thesis
      by (simp add: try_graceful_close_def split: option.split)
  qed
qed

lemma try_graceful_close_error:
  "fst (try_graceful_close B aclose body) = None \<longleftrightarrow> fst body = None \<and> fst (aclose (snd body)) = None"
  by (cases body) (auto simp: try_graceful_close_def split: option.splits prod.splits)

section \<open>Property\<close>

text \<open>
  closing a stapled transport closes both halves, whatever the first one does: it may fail or be cancelled.
  This holds of the blocking and of the asynchronous version, and both report success exactly when both halves
  were closed properly.
\<close>

theorem stapled_close_closes_both:
  assumes "scopes_keep send_closed B" and "scopes_keep receive_closed B"
    and "closes send_closed send_aclose" and "closes receive_closed receive_aclose"
    and "stays_closed send_closed receive_aclose"
  shows "is_closed_stapled send_closed receive_closed (snd (aclose_stapled B send_aclose receive_aclose w))
    \<and> is_closed_stapled send_closed receive_closed (snd (close_stapled send_aclose receive_aclose w))
    \<and> (fst (aclose_stapled B send_aclose receive_aclose w) = None
        \<longleftrightarrow> fst (send_aclose w) = None \<and> fst (receive_aclose (snd (send_aclose w))) = None)
    \<and> (fst (close_stapled send_aclose receive_aclose w) = None
        \<longleftrightarrow> fst (send_aclose w) = None \<and> fst (receive_aclose (snd (send_aclose w))) = None)"
proof (intro conjI)
  let ?inner = "try_graceful_close B send_aclose (None, w)"
  have inner: "?inner = send_aclose w" by (simp add: try_graceful_close_def)
  have "send_closed (snd (send_aclose w))" using assms(3) by (simp add: closes_def)
  with try_graceful_close_stays_closed [OF assms(1,5), of ?inner] try_graceful_close_closes [OF assms(2,4), of ?inner]
  show "is_closed_stapled send_closed receive_closed (snd (aclose_stapled B send_aclose receive_aclose w))"
    by (simp add: is_closed_stapled_def aclose_stapled_def inner)
  show "fst (aclose_stapled B send_aclose receive_aclose w) = None
        \<longleftrightarrow> fst (send_aclose w) = None \<and> fst (receive_aclose (snd (send_aclose w))) = None"
    by (simp add: aclose_stapled_def inner try_graceful_close_error)
  obtain r1 w1 where 1: "send_aclose w = (r1, w1)" by fastforce
  obtain r2 w2 where 2: "receive_aclose w1 = (r2, w2)" by fastforce
  from closesD [OF assms(3) 1] stays_closedD [OF assms(5) _ 2] closesD [OF assms(4) 2] 1 2
  show "is_closed_stapled send_closed receive_closed (snd (close_stapled send_aclose receive_aclose w))"
    by (simp add: is_closed_stapled_def close_stapled_def split: option.split)
  show "fst (close_stapled send_aclose receive_aclose w) = None
        \<longleftrightarrow> fst (send_aclose w) = None \<and> fst (receive_aclose (snd (send_aclose w))) = None"
    using 1 2 by (simp add: close_stapled_def split: option.split)
qed

text \<open>A backend whose scopes suppress every cancellation, and two halves of which the first fails to close.\<close>

definition suppressing_backend :: "'w backend" where
  "suppressing_backend =
     \<lparr>be_enter = (\<lambda>t w. w), be_exit = (\<lambda>e w. ((e = Some CancelledError, e = Some CancelledError), w)),
      be_coro_yield = (\<lambda>w. w)\<rparr>"

lemma scopes_keep_suppressing: "scopes_keep view suppressing_backend"
  by (simp add: scopes_keep_def suppressing_backend_def)

theorem stapled_close_closes_both_witness:
  "aclose_stapled suppressing_backend (\<lambda>(s, r). (Some (OSError ''EPIPE'' ''''), (True, r)))
       (\<lambda>(s, r). (Some CancelledError, (s, True))) (False, False) = (Some (OSError ''EPIPE'' ''''), (True, True))
   \<and> is_closed_stapled fst snd (snd (aclose_stapled suppressing_backend
         (\<lambda>(s, r). (Some (OSError ''EPIPE'' ''''), (True, r))) (\<lambda>(s, r). (Some CancelledError, (s, True))) (False, False)))"
proof
  show "aclose_stapled suppressing_backend (\<lambda>(s, r). (Some (OSError ''EPIPE'' ''''), (True, r)))
       (\<lambda>(s, r). (Some CancelledError, (s, True))) (False, False) = (Some (OSError ''EPIPE'' ''''), (True, True))"
    by (simp add: aclose_stapled_def try_graceful_close_def aclose_forcefully_def move_on_after_def
          suppressing_backend_def)
  show "is_closed_stapled fst snd (snd (aclose_stapled suppressing_backend
         (\<lambda>(s, r). (Some (OSError ''EPIPE'' ''''), (True, r))) (\<lambda>(s, r). (Some CancelledError, (s, True))) (False, False)))"
    using stapled_close_closes_both [OF scopes_keep_suppressing scopes_keep_suppressing,
        of fst "\<lambda>(s, r). (Some (OSError ''EPIPE'' ''''), (True, r))" snd
           "\<lambda>(s, r). (Some CancelledError, (s, True))" "(False, False)"]
    by (simp add: closes_def stays_closed_def split: prod.split)
qed

end
