(* ===== verification/AsyncEndpoint.thy ===== *)
theory AsyncEndpoint
  imports AsyncTransport Delivery
begin

text \<open>
  The asynchronous stream endpoint, \<^verbatim>\<open>src/src/easynetwork/lowlevel/api_async/endpoints/stream.py\<close>.  The receivers keep
  the same state as the blocking ones (\<open>Endpoint\<close>), so its records are used; there is no timeout, a caller cancels
  instead.  An endpoint guards each direction: a task that finds the guard held gets \<^verbatim>\<open>BusyResourceError\<close>.
\<close>

section \<open>\_DataReceiverImpl\<close>

fun async_data_receive_loop ::
  "nat \<Rightarrow> ('a, 'w) stream_transport \<Rightarrow> (unit, 'r \<times> bytes, exc, 'k) gen_step
     \<Rightarrow> ('k \<Rightarrow> bytes \<Rightarrow> (unit, 'r \<times> bytes, exc, 'k) gen_step)
     \<Rightarrow> 'k data_receiver \<Rightarrow> 'w \<Rightarrow> ((exc + 'r) \<times> 'k data_receiver \<times> 'w) option"
where
  "async_data_receive_loop 0 T start send r w = None"
| "async_data_receive_loop (Suc fuel) T start send r w =
     (if dr_eof_reached r then Some (Inl end_of_stream, r, w)
      else (case st_recv T (dr_max_recv_size r) w of
              (Inl e, w') \<Rightarrow> Some (Inl e, r, w')
            | (Inr chunk, w') \<Rightarrow>
                if chunk = [] then async_data_receive_loop fuel T start send (r\<lparr>dr_eof_reached := True\<rparr>) w'
                else (case consumer_next start send (dr_consumer r) (Some chunk) of
                        (Packet p, c) \<Rightarrow> Some (Inr p, r\<lparr>dr_consumer := c\<rparr>, w')
                      | (Error e, c) \<Rightarrow> Some (Inl e, r\<lparr>dr_consumer := c\<rparr>, w')
                      | (Stop, c) \<Rightarrow> async_data_receive_loop fuel T start send (r\<lparr>dr_consumer := c\<rparr>) w')))"

definition async_data_receive ::
  "nat \<Rightarrow> ('a, 'w) stream_transport \<Rightarrow> (unit, 'r \<times> bytes, exc, 'k) gen_step
     \<Rightarrow> ('k \<Rightarrow> bytes \<Rightarrow> (unit, 'r \<times> bytes, exc, 'k) gen_step)
     \<Rightarrow> 'k data_receiver \<Rightarrow> 'w \<Rightarrow> ((exc + 'r) \<times> 'k data_receiver \<times> 'w) option"
where
  "async_data_receive fuel T start send r w =
     (case consumer_next start send (dr_consumer r) None of
        (Packet p, c) \<Rightarrow> Some (Inr p, r\<lparr>dr_consumer := c\<rparr>, w)
      | (Error e, c) \<Rightarrow> Some (Inl e, r\<lparr>dr_consumer := c\<rparr>, w)
      | (Stop, c) \<Rightarrow> async_data_receive_loop fuel T start send (r\<lparr>dr_consumer := c\<rparr>) w)"

text \<open>\<^verbatim>\<open>receive_with_ancillary\<close> is the code of the blocking receiver, without the timeout.\<close>

definition async_data_receive_with_ancillary ::
  "('a, 'w) stream_transport \<Rightarrow> (unit, 'r \<times> bytes, exc, 'k) gen_step
     \<Rightarrow> ('k \<Rightarrow> bytes \<Rightarrow> (unit, 'r \<times> bytes, exc, 'k) gen_step) \<Rightarrow> nat \<Rightarrow> ('a \<Rightarrow> exc option)
     \<Rightarrow> 'k data_receiver \<Rightarrow> 'w \<Rightarrow> (exc + 'r) \<times> 'k data_receiver \<times> 'w"
where
  "async_data_receive_with_ancillary T start send ancillary_bufsize on_ancillary r w =
     (case consumer_next start send (dr_consumer r) None of
        (Packet p, c) \<Rightarrow> (Inr p, r\<lparr>dr_consumer := c\<rparr>, w)
      | (Error e, c) \<Rightarrow> (Inl e, r\<lparr>dr_consumer := c\<rparr>, w)
      | (Stop, c) \<Rightarrow>
          let r = r\<lparr>dr_consumer := c\<rparr> in
          if dr_eof_reached r then (Inl end_of_stream, r, w)
          else (case st_recv_with_ancillary T (dr_max_recv_size r) ancillary_bufsize w of
                  (Inl e, w') \<Rightarrow> (Inl e, r, w')
                | (Inr (data, ancdata), w') \<Rightarrow>
                    if data = [] then (Inl end_of_stream, r\<lparr>dr_eof_reached := True\<rparr>, w')
                    else if on_ancillary ancdata \<noteq> None
                    then (Inl (RuntimeError ''ancillary_data_received() crashed''), r, w')
                    else (case consumer_next start send (dr_consumer r) (Some data) of
                            (Packet p, c) \<Rightarrow> (Inr p, r\<lparr>dr_consumer := c\<rparr>, w')
                          | (Error e, c) \<Rightarrow> (Inl e, r\<lparr>dr_consumer := c\<rparr>, w')
                          | (Stop, c) \<Rightarrow> (Inl (EOFError ''Received partial packet data''), r\<lparr>dr_consumer := c\<rparr>, w'))))"

section \<open>\_BufferedReceiverImpl\<close>

text \<open>\<^verbatim>\<open>transport.recv_into(buffer)\<close> receives at most the length of the buffer and writes the bytes to it.\<close>

fun async_buffered_receive_loop ::
  "nat \<Rightarrow> ('a, 'w) stream_transport \<Rightarrow> ('r, 'k) buffered_protocol
     \<Rightarrow> 'k buffered_receiver \<Rightarrow> 'w \<Rightarrow> ((exc + 'r) \<times> 'k buffered_receiver \<times> 'w) option"
where
  "async_buffered_receive_loop 0 T P r w = None"
| "async_buffered_receive_loop (Suc fuel) T P r w =
     (if br_eof_reached r then Some (Inl end_of_stream, r, w)
      else (case get_write_buffer P (br_consumer r) of
              (Inl e, c) \<Rightarrow> Some (Inl e, r\<lparr>br_consumer := c\<rparr>, w)
            | (Inr (offset, bufsize), c) \<Rightarrow>
                (case st_recv T bufsize w of
                   (Inl e, w') \<Rightarrow> Some (Inl e, r\<lparr>br_consumer := c\<rparr>, w')
                 | (Inr chunk, w') \<Rightarrow>
                     let nbytes = length chunk; c1 = fill_write_buffer chunk c in
                     if nbytes = 0
                     then async_buffered_receive_loop fuel T P (r\<lparr>br_consumer := c1, br_eof_reached := True\<rparr>) w'
                     else (case buffered_next P c1 (Some (int nbytes)) of
                             (Packet p, c2) \<Rightarrow> Some (Inr p, r\<lparr>br_consumer := c2\<rparr>, w')
                           | (Error e, c2) \<Rightarrow> Some (Inl e, r\<lparr>br_consumer := c2\<rparr>, w')
                           | (Stop, c2) \<Rightarrow> async_buffered_receive_loop fuel T P (r\<lparr>br_consumer := c2\<rparr>) w'))))"

definition async_buffered_receive ::
  "nat \<Rightarrow> ('a, 'w) stream_transport \<Rightarrow> ('r, 'k) buffered_protocol
     \<Rightarrow> 'k buffered_receiver \<Rightarrow> 'w \<Rightarrow> ((exc + 'r) \<times> 'k buffered_receiver \<times> 'w) option"
where
  "async_buffered_receive fuel T P r w =
     (case buffered_next P (br_consumer r) None of
        (Packet p, c) \<Rightarrow> Some (Inr p, r\<lparr>br_consumer := c\<rparr>, w)
      | (Error e, c) \<Rightarrow> Some (Inl e, r\<lparr>br_consumer := c\<rparr>, w)
      | (Stop, c) \<Rightarrow> async_buffered_receive_loop fuel T P (r\<lparr>br_consumer := c\<rparr>) w)"

definition async_buffered_receive_with_ancillary ::
  "(nat \<Rightarrow> nat \<Rightarrow> 'w \<Rightarrow> (exc + bytes \<times> 'a) \<times> 'w) \<Rightarrow> ('r, 'k) buffered_protocol \<Rightarrow> nat \<Rightarrow> ('a \<Rightarrow> exc option)
     \<Rightarrow> 'k buffered_receiver \<Rightarrow> 'w \<Rightarrow> (exc + 'r) \<times> 'k buffered_receiver \<times> 'w"
where
  "async_buffered_receive_with_ancillary recv P ancillary_bufsize on_ancillary r w =
     (case buffered_next P (br_consumer r) None of
        (Packet p, c) \<Rightarrow> (Inr p, r\<lparr>br_consumer := c\<rparr>, w)
      | (Error e, c) \<Rightarrow> (Inl e, r\<lparr>br_consumer := c\<rparr>, w)
      | (Stop, c) \<Rightarrow>
          let r = r\<lparr>br_consumer := c\<rparr> in
          if br_eof_reached r then (Inl end_of_stream, r, w)
          else (case get_write_buffer P c of
                  (Inl e, c) \<Rightarrow> (Inl e, r\<lparr>br_consumer := c\<rparr>, w)
                | (Inr (offset, bufsize), c) \<Rightarrow>
                    (case recv bufsize ancillary_bufsize w of
                       (Inl e, w') \<Rightarrow> (Inl e, r\<lparr>br_consumer := c\<rparr>, w')
                     | (Inr (data, ancdata), w') \<Rightarrow>
                         let nbytes = length data; c = fill_write_buffer data c; r = r\<lparr>br_consumer := c\<rparr> in
                         if nbytes = 0 then (Inl end_of_stream, r\<lparr>br_eof_reached := True\<rparr>, w')
                         else if on_ancillary ancdata \<noteq> None
                         then (Inl (RuntimeError ''ancillary_data_received() crashed''), r, w')
                         else (case buffered_next P c (Some (int nbytes)) of
                                 (Packet p, c) \<Rightarrow> (Inr p, r\<lparr>br_consumer := c\<rparr>, w')
                               | (Error e, c) \<Rightarrow> (Inl e, r\<lparr>br_consumer := c\<rparr>, w')
                               | (Stop, c) \<Rightarrow> (Inl (EOFError ''Received partial packet data''), r\<lparr>br_consumer := c\<rparr>, w')))))"

section \<open>AsyncStreamEndpoint\<close>

text \<open>The state of an endpoint and, for each method, the world before and after.  The receiver is of either kind.\<close>

record 'rx async_endpoint =
  ae_send_guard :: resource_guard
  ae_recv_guard :: resource_guard
  ae_eof_sent :: bool
  ae_receiver :: 'rx

definition async_endpoint_init :: "exc + 'rx \<Rightarrow> exc + 'rx async_endpoint" where
  "async_endpoint_init receiver =
     result_bind receiver (\<lambda>rx.
       Inr \<lparr>ae_send_guard = \<lparr>rg_held = False, rg_msg = ''another task is currently sending data on this endpoint''\<rparr>,
            ae_recv_guard = \<lparr>rg_held = False, rg_msg = ''another task is currently receving data on this endpoint''\<rparr>,
            ae_eof_sent = False, ae_receiver = rx\<rparr>)"

text \<open>
  A method runs under its guard.  What happens while it waits is in the world; another task that calls a method
  with the same guard meanwhile is refused by \<open>guard_enter\<close>.
\<close>

definition async_recv_packet ::
  "('rx \<Rightarrow> 'w \<Rightarrow> ((exc + 'r) \<times> 'rx \<times> 'w) option) \<Rightarrow> 'rx async_endpoint \<Rightarrow> 'w
     \<Rightarrow> ((exc + 'r) \<times> 'rx async_endpoint \<times> 'w) option"
where
  "async_recv_packet receive ep w =
     (case guard_enter (ae_recv_guard ep) of
        Inl e \<Rightarrow> Some (Inl e, ep, w)
      | Inr g \<Rightarrow>
          (case receive (ae_receiver ep) w of
             None \<Rightarrow> None
           | Some (res, rx, w') \<Rightarrow>
               (case guard_exit g of
                  Inl e \<Rightarrow> Some (Inl e, ep\<lparr>ae_recv_guard := g, ae_receiver := rx\<rparr>, w')
                | Inr g' \<Rightarrow> Some (res, ep\<lparr>ae_recv_guard := g', ae_receiver := rx\<rparr>, w'))))"

definition under_send_guard ::
  "('rx async_endpoint \<Rightarrow> 'w \<Rightarrow> exc option \<times> 'rx async_endpoint \<times> 'w) \<Rightarrow> 'rx async_endpoint \<Rightarrow> 'w
     \<Rightarrow> exc option \<times> 'rx async_endpoint \<times> 'w"
where
  "under_send_guard body ep w =
     (case guard_enter (ae_send_guard ep) of
        Inl e \<Rightarrow> (Some e, ep, w)
      | Inr g \<Rightarrow>
          (case body (ep\<lparr>ae_send_guard := g\<rparr>) w of
             (res, ep', w') \<Rightarrow>
               (case guard_exit (ae_send_guard ep') of
                  Inl e \<Rightarrow> (Some e, ep', w')
                | Inr g' \<Rightarrow> (res, ep'\<lparr>ae_send_guard := g'\<rparr>, w'))))"

definition async_data_sender_send ::
  "('p \<Rightarrow> chunks) \<Rightarrow> (chunks \<Rightarrow> 'w \<Rightarrow> exc option \<times> 'w) \<Rightarrow> 'p \<Rightarrow> 'w \<Rightarrow> exc option \<times> 'w"
where
  "async_data_sender_send generate send_iterable packet w = send_iterable (producer_generate generate packet) w"

definition async_send_packet ::
  "('p \<Rightarrow> chunks) \<Rightarrow> (chunks \<Rightarrow> 'w \<Rightarrow> exc option \<times> 'w) \<Rightarrow> 'p \<Rightarrow> 'rx async_endpoint \<Rightarrow> 'w
     \<Rightarrow> exc option \<times> 'rx async_endpoint \<times> 'w"
where
  "async_send_packet generate send_iterable packet =
     under_send_guard (\<lambda>ep w.
       if ae_eof_sent ep then (Some (RuntimeError ''send_eof() has been called earlier''), ep, w)
       else (case async_data_sender_send generate send_iterable packet w of (res, w') \<Rightarrow> (res, ep, w')))"

definition async_send_eof ::
  "('a, 'w) stream_transport \<Rightarrow> 'rx async_endpoint \<Rightarrow> 'w \<Rightarrow> exc option \<times> 'rx async_endpoint \<times> 'w"
where
  "async_send_eof T =
     under_send_guard (\<lambda>ep w.
       if ae_eof_sent ep then (None, ep, w)
       else (case st_send_eof T w of
               (Some e, w') \<Rightarrow> (Some e, ep, w')
             | (None, w') \<Rightarrow> (None, ep\<lparr>ae_eof_sent := True\<rparr>, w')))"

definition async_endpoint_aclose ::
  "('a, 'w) stream_transport \<Rightarrow> ('rx \<Rightarrow> 'rx) \<Rightarrow> 'rx async_endpoint \<Rightarrow> 'w \<Rightarrow> exc option \<times> 'rx async_endpoint \<times> 'w"
where
  "async_endpoint_aclose T clear =
     under_send_guard (\<lambda>ep w.
       case st_aclose T w of (res, w') \<Rightarrow> (res, ep\<lparr>ae_receiver := clear (ae_receiver ep)\<rparr>, w'))"

section \<open>The receivers keep the contract\<close>

text \<open>Without a timeout to wear out, the loops are those of the blocking receivers.\<close>

lemma async_data_receive_blocking:
  "async_data_receive fuel T start send r w = data_receive fuel clock (\<lambda>n t. st_recv T n) start send Infinity r w"
proof -
  have "async_data_receive_loop fuel T start send r w
      = data_receive_loop fuel clock (\<lambda>n t. st_recv T n) start send Infinity r w" for r
  proof (induction fuel arbitrary: r w)
    case (Suc fuel)
    then show ?case by (simp add: receive_failed_def less_delay_def split: sum.split next_result.split prod.split)
  qed simp
  then show ?thesis by (simp add: async_data_receive_def data_receive_def split: prod.split next_result.split)
qed

lemma async_buffered_receive_blocking:
  "async_buffered_receive fuel T P r w = buffered_receive fuel clock (\<lambda>n t. st_recv T n) P Infinity r w"
proof -
  have "async_buffered_receive_loop fuel T P r w
      = buffered_receive_loop fuel clock (\<lambda>n t. st_recv T n) P Infinity r w" for r
  proof (induction fuel arbitrary: r w)
    case (Suc fuel)
    then show ?case
      by (simp add: receive_failed_def less_delay_def Let_def split: sum.split next_result.split prod.split)
  qed simp
  then show ?thesis by (simp add: async_buffered_receive_def buffered_receive_def split: prod.split next_result.split)
qed

lemma async_data_receive_with_ancillary_blocking:
  "async_data_receive_with_ancillary T start send m h r w
     = data_receive_with_ancillary (\<lambda>n m t. st_recv_with_ancillary T n m) start send m h timeout r w"
  by (simp only: async_data_receive_with_ancillary_def data_receive_with_ancillary_def)

lemma async_buffered_receive_with_ancillary_blocking:
  "async_buffered_receive_with_ancillary recv P m h r w
     = buffered_receive_with_ancillary (\<lambda>n m t. recv n m) P m h timeout r w"
  by (simp only: async_buffered_receive_with_ancillary_def buffered_receive_with_ancillary_def)

text \<open>\<^verbatim>\<open>recv_packet\<close> keeps the contract of its receiver, and leaves the guard free.\<close>

lemma packet_receiver_guarded:
  fixes rxinv :: "'rx \<Rightarrow> bool"
  assumes "packet_receiver out (\<lambda>t rx w. receive rx w) rxinv eof pending incoming"
  shows "packet_receiver out (\<lambda>t ep w. async_recv_packet receive ep w)
    (\<lambda>ep. \<not> rg_held (ae_recv_guard ep) \<and> rxinv (ae_receiver ep)) (\<lambda>ep. eof (ae_receiver ep))
    (\<lambda>ep. pending (ae_receiver ep)) incoming"
proof
  show "out (pending (ae_receiver ep)) = More"
    if "\<not> rg_held (ae_recv_guard ep) \<and> rxinv (ae_receiver ep)" "eof (ae_receiver ep)" for ep :: "'rx async_endpoint"
    using packet_receiver.eof_drained [OF assms] that by blast
next
  fix ep :: "'rx async_endpoint" and evs rest w and t :: delay
  assume inv: "\<not> rg_held (ae_recv_guard ep) \<and> rxinv (ae_receiver ep)"
    and dec: "decodes out (pending (ae_receiver ep) @ (if eof (ae_receiver ep) then [] else incoming w)) evs rest"
  from packet_receiver.receive_step [OF assms conjunct2 [OF inv] dec] obtain res rx w' where
    step: "receive (ae_receiver ep) w = Some (res, rx, w')" "rxinv rx"
      "(\<exists>ev evs'. evs = ev # evs' \<and> result_of ev res \<and> decodes out (pending rx @ (if eof rx then [] else incoming w')) evs' rest)
       \<or> (\<exists>e. res = Inl e \<and> \<not> is_StreamProtocolParseError e
            \<and> decodes out (pending rx @ (if eof rx then [] else incoming w')) evs rest)"
    by blast
  show "\<exists>res ep' w'. async_recv_packet receive ep w = Some (res, ep', w')
      \<and> (\<not> rg_held (ae_recv_guard ep') \<and> rxinv (ae_receiver ep'))
      \<and> ((\<exists>ev evs'. evs = ev # evs' \<and> result_of ev res
            \<and> decodes out (pending (ae_receiver ep') @ (if eof (ae_receiver ep') then [] else incoming w')) evs' rest)
         \<or> (\<exists>e. res = Inl e \<and> \<not> is_StreamProtocolParseError e
            \<and> decodes out (pending (ae_receiver ep') @ (if eof (ae_receiver ep') then [] else incoming w')) evs rest))"
    using step inv by (simp add: async_recv_packet_def guard_enter_def guard_exit_def)
qed

context stream_protocol
begin

lemma packet_receiver_async_data:
  assumes "stream_source incoming (\<lambda>n t. st_recv T n)"
  shows "packet_receiver out (\<lambda>t r w. async_data_receive (length (incoming w) + 2) T start send r w)
           rinv dr_eof_reached pend incoming"
proof -
  note * = packet_receiver_data [OF assms, where clock = "\<lambda>_. 0"]
  show ?thesis
  proof
    show "out (pend r) = More" if "rinv r" "dr_eof_reached r" for r
      using packet_receiver.eof_drained [OF *] that .
  next
    fix r evs rest w and t :: delay
    assume "rinv r" and "decodes out (pend r @ (if dr_eof_reached r then [] else incoming w)) evs rest"
    from packet_receiver.receive_step [OF * this, of Infinity]
    show "\<exists>res r' w'. async_data_receive (length (incoming w) + 2) T start send r w = Some (res, r', w') \<and> rinv r'
      \<and> ((\<exists>ev evs'. evs = ev # evs' \<and> result_of ev res
            \<and> decodes out (pend r' @ (if dr_eof_reached r' then [] else incoming w')) evs' rest)
         \<or> (\<exists>e. res = Inl e \<and> \<not> is_StreamProtocolParseError e
            \<and> decodes out (pend r' @ (if dr_eof_reached r' then [] else incoming w')) evs rest))"
      unfolding async_data_receive_blocking [where clock = "\<lambda>_. 0"] .
  qed
qed

end

context buffered_packets
begin

lemma packet_receiver_async_buffered:
  assumes "stream_source incoming (\<lambda>n t. st_recv T n)"
  shows "packet_receiver out (\<lambda>t r w. async_buffered_receive (length (incoming w) + 2) T P r w)
           brinv br_eof_reached bpend incoming"
proof -
  note * = packet_receiver_buffered [OF assms, where clock = "\<lambda>_. 0"]
  show ?thesis
  proof
    show "out (bpend r) = More" if "brinv r" "br_eof_reached r" for r
      using packet_receiver.eof_drained [OF *] that .
  next
    fix r evs rest w and t :: delay
    assume "brinv r" and "decodes out (bpend r @ (if br_eof_reached r then [] else incoming w)) evs rest"
    from packet_receiver.receive_step [OF * this, of Infinity]
    show "\<exists>res r' w'. async_buffered_receive (length (incoming w) + 2) T P r w = Some (res, r', w') \<and> brinv r'
      \<and> ((\<exists>ev evs'. evs = ev # evs' \<and> result_of ev res
            \<and> decodes out (bpend r' @ (if br_eof_reached r' then [] else incoming w')) evs' rest)
         \<or> (\<exists>e. res = Inl e \<and> \<not> is_StreamProtocolParseError e
            \<and> decodes out (bpend r' @ (if br_eof_reached r' then [] else incoming w')) evs rest))"
      unfolding async_buffered_receive_blocking [where clock = "\<lambda>_. 0"] .
  qed
qed

end

end
