(* ===== verification/RequestReceivers.thy ===== *)
theory RequestReceivers
  imports AsyncEndpoint
begin

text \<open>
  The request receivers of the stream server, \<^verbatim>\<open>src/src/easynetwork/lowlevel/api_async/servers/stream.py\<close>, the
  contract \<open>request_contract\<close> the coroutine of a client relies on, and the proof that both receivers keep it.
\<close>

section \<open>\_RequestReceiver\<close>

record 'k request_receiver =
  rr_consumer :: "'k stream_consumer"
  rr_max_recv_size :: nat
  rr_ancillary_bufsize :: "nat option"
  rr_disconnect_error_filter :: "(exc \<Rightarrow> bool) option"

text \<open>The \<^verbatim>\<open>except Exception\<close> clause around the reception.\<close>

definition disconnected :: "(exc \<Rightarrow> bool) option \<Rightarrow> exc \<Rightarrow> bool" where
  "disconnected error_filter e \<longleftrightarrow>
     is_Exception e \<and> (case error_filter of None \<Rightarrow> False | Some f \<Rightarrow> f e)"

fun request_next_loop ::
  "nat \<Rightarrow> ('a, 'w) stream_transport \<Rightarrow> (unit, 'r \<times> bytes, exc, 'k) gen_step
     \<Rightarrow> ('k \<Rightarrow> bytes \<Rightarrow> (unit, 'r \<times> bytes, exc, 'k) gen_step)
     \<Rightarrow> 'k request_receiver \<Rightarrow> 'w \<Rightarrow> ((exc + 'r) \<times> 'k request_receiver \<times> 'w) option"
where
  "request_next_loop 0 T start send r w = None"
| "request_next_loop (Suc fuel) T start send r w =
     (case st_recv T (rr_max_recv_size r) w of
        (Inl e, w') \<Rightarrow>
          Some (Inl (if disconnected (rr_disconnect_error_filter r) e then StopAsyncIteration else e), r, w')
      | (Inr data, w') \<Rightarrow>
          if data = [] then Some (Inl StopAsyncIteration, r, w')
          else (case consumer_next start send (rr_consumer r) (Some data) of
                  (Packet p, c) \<Rightarrow> Some (Inr p, r\<lparr>rr_consumer := c\<rparr>, w')
                | (Error e, c) \<Rightarrow> Some (Inl e, r\<lparr>rr_consumer := c\<rparr>, w')
                | (Stop, c) \<Rightarrow> request_next_loop fuel T start send (r\<lparr>rr_consumer := c\<rparr>) w'))"

definition request_next ::
  "nat \<Rightarrow> 'w backend \<Rightarrow> ('a, 'w) stream_transport \<Rightarrow> (unit, 'r \<times> bytes, exc, 'k) gen_step
     \<Rightarrow> ('k \<Rightarrow> bytes \<Rightarrow> (unit, 'r \<times> bytes, exc, 'k) gen_step)
     \<Rightarrow> 'k request_receiver \<Rightarrow> 'w \<Rightarrow> ((exc + 'r) \<times> 'k request_receiver \<times> 'w) option"
where
  "request_next fuel B T start send r w =
     (case consumer_next start send (rr_consumer r) None of
        (Packet p, c) \<Rightarrow> Some (Inr p, r\<lparr>rr_consumer := c\<rparr>, be_coro_yield B w)
      | (Error e, c) \<Rightarrow> Some (Inl e, r\<lparr>rr_consumer := c\<rparr>, w)
      | (Stop, c) \<Rightarrow> request_next_loop fuel T start send (r\<lparr>rr_consumer := c\<rparr>) w)"

definition no_ancillary_data :: exc where
  "no_ancillary_data =
     UnsupportedOperation ''The server is not configured to handle ancillary data (ancillary_bufsize=None).''"

definition request_next_with_ancillary ::
  "'w backend \<Rightarrow> ('a, 'w) stream_transport \<Rightarrow> (unit, 'r \<times> bytes, exc, 'k) gen_step
     \<Rightarrow> ('k \<Rightarrow> bytes \<Rightarrow> (unit, 'r \<times> bytes, exc, 'k) gen_step) \<Rightarrow> ('a \<Rightarrow> exc option)
     \<Rightarrow> 'k request_receiver \<Rightarrow> 'w \<Rightarrow> (exc + 'r) \<times> 'k request_receiver \<times> 'w"
where
  "request_next_with_ancillary B T start send data_received r w =
     (case rr_ancillary_bufsize r of
        None \<Rightarrow> (Inl no_ancillary_data, r, w)
      | Some ancillary_bufsize \<Rightarrow>
          (case consumer_next start send (rr_consumer r) None of
             (Packet p, c) \<Rightarrow> (Inr p, r\<lparr>rr_consumer := c\<rparr>, be_coro_yield B w)
           | (Error e, c) \<Rightarrow> (Inl e, r\<lparr>rr_consumer := c\<rparr>, w)
           | (Stop, c) \<Rightarrow>
               let r = r\<lparr>rr_consumer := c\<rparr> in
               (case st_recv_with_ancillary T (rr_max_recv_size r) ancillary_bufsize w of
                  (Inl e, w') \<Rightarrow>
                    (Inl (if disconnected (rr_disconnect_error_filter r) e then StopAsyncIteration else e), r, w')
                | (Inr (data, ancdata), w') \<Rightarrow>
                    if data = [] then (Inl StopAsyncIteration, r, w')
                    else if data_received ancdata \<noteq> None
                    then (Inl (RuntimeError ''RecvAncillaryDataParams.data_received() crashed''), r, w')
                    else (case consumer_next start send c (Some data) of
                            (Packet p, c) \<Rightarrow> (Inr p, r\<lparr>rr_consumer := c\<rparr>, w')
                          | (Error e, c) \<Rightarrow> (Inl e, r\<lparr>rr_consumer := c\<rparr>, w')
                          | (Stop, c) \<Rightarrow> (Inl (EOFError ''Received partial packet data''), r\<lparr>rr_consumer := c\<rparr>, w')))))"

section \<open>\_BufferedRequestReceiver\<close>

record 'k buffered_request_receiver =
  brr_consumer :: "'k buffered_consumer"
  brr_ancillary_bufsize :: "nat option"
  brr_disconnect_error_filter :: "(exc \<Rightarrow> bool) option"

fun buffered_request_next_loop ::
  "nat \<Rightarrow> ('a, 'w) stream_transport \<Rightarrow> ('r, 'k) buffered_protocol
     \<Rightarrow> 'k buffered_request_receiver \<Rightarrow> 'w \<Rightarrow> ((exc + 'r) \<times> 'k buffered_request_receiver \<times> 'w) option"
where
  "buffered_request_next_loop 0 T P r w = None"
| "buffered_request_next_loop (Suc fuel) T P r w =
     (case get_write_buffer P (brr_consumer r) of
        (Inl e, c) \<Rightarrow> Some (Inl e, r\<lparr>brr_consumer := c\<rparr>, w)
      | (Inr (offset, bufsize), c) \<Rightarrow>
          (case st_recv T bufsize w of
             (Inl e, w') \<Rightarrow>
               Some (Inl (if disconnected (brr_disconnect_error_filter r) e then StopAsyncIteration else e),
                     r\<lparr>brr_consumer := c\<rparr>, w')
           | (Inr chunk, w') \<Rightarrow>
               let nbytes = length chunk; c1 = fill_write_buffer chunk c in
               if nbytes = 0 then Some (Inl StopAsyncIteration, r\<lparr>brr_consumer := c1\<rparr>, w')
               else (case buffered_next P c1 (Some (int nbytes)) of
                       (Packet p, c2) \<Rightarrow> Some (Inr p, r\<lparr>brr_consumer := c2\<rparr>, w')
                     | (Error e, c2) \<Rightarrow> Some (Inl e, r\<lparr>brr_consumer := c2\<rparr>, w')
                     | (Stop, c2) \<Rightarrow> buffered_request_next_loop fuel T P (r\<lparr>brr_consumer := c2\<rparr>) w')))"

definition buffered_request_next ::
  "nat \<Rightarrow> 'w backend \<Rightarrow> ('a, 'w) stream_transport \<Rightarrow> ('r, 'k) buffered_protocol
     \<Rightarrow> 'k buffered_request_receiver \<Rightarrow> 'w \<Rightarrow> ((exc + 'r) \<times> 'k buffered_request_receiver \<times> 'w) option"
where
  "buffered_request_next fuel B T P r w =
     (case buffered_next P (brr_consumer r) None of
        (Packet p, c) \<Rightarrow> Some (Inr p, r\<lparr>brr_consumer := c\<rparr>, be_coro_yield B w)
      | (Error e, c) \<Rightarrow> Some (Inl e, r\<lparr>brr_consumer := c\<rparr>, w)
      | (Stop, c) \<Rightarrow> buffered_request_next_loop fuel T P (r\<lparr>brr_consumer := c\<rparr>) w)"

definition buffered_request_next_with_ancillary ::
  "'w backend \<Rightarrow> (nat \<Rightarrow> nat \<Rightarrow> 'w \<Rightarrow> (exc + bytes \<times> 'a) \<times> 'w) \<Rightarrow> ('r, 'k) buffered_protocol \<Rightarrow> ('a \<Rightarrow> exc option)
     \<Rightarrow> 'k buffered_request_receiver \<Rightarrow> 'w \<Rightarrow> (exc + 'r) \<times> 'k buffered_request_receiver \<times> 'w"
where
  "buffered_request_next_with_ancillary B recv P data_received r w =
     (case brr_ancillary_bufsize r of
        None \<Rightarrow> (Inl no_ancillary_data, r, w)
      | Some ancillary_bufsize \<Rightarrow>
          (case buffered_next P (brr_consumer r) None of
             (Packet p, c) \<Rightarrow> (Inr p, r\<lparr>brr_consumer := c\<rparr>, be_coro_yield B w)
           | (Error e, c) \<Rightarrow> (Inl e, r\<lparr>brr_consumer := c\<rparr>, w)
           | (Stop, c) \<Rightarrow>
               (case get_write_buffer P c of
                  (Inl e, c) \<Rightarrow> (Inl e, r\<lparr>brr_consumer := c\<rparr>, w)
                | (Inr (offset, bufsize), c) \<Rightarrow>
                    (case recv bufsize ancillary_bufsize w of
                       (Inl e, w') \<Rightarrow>
                         (Inl (if disconnected (brr_disconnect_error_filter r) e then StopAsyncIteration else e),
                          r\<lparr>brr_consumer := c\<rparr>, w')
                     | (Inr (data, ancdata), w') \<Rightarrow>
                         let nbytes = length data; c = fill_write_buffer data c; r = r\<lparr>brr_consumer := c\<rparr> in
                         if nbytes = 0 then (Inl StopAsyncIteration, r, w')
                         else if data_received ancdata \<noteq> None
                         then (Inl (RuntimeError ''RecvAncillaryDataParams.data_received() crashed''), r, w')
                         else (case buffered_next P c (Some (int nbytes)) of
                                 (Packet p, c) \<Rightarrow> (Inr p, r\<lparr>brr_consumer := c\<rparr>, w')
                               | (Error e, c) \<Rightarrow> (Inl e, r\<lparr>brr_consumer := c\<rparr>, w')
                               | (Stop, c) \<Rightarrow>
                                   (Inl (EOFError ''Received partial packet data''), r\<lparr>brr_consumer := c\<rparr>, w'))))))"

text \<open>
  The two methods of a request receiver, of either kind; \<open>None\<close> is out of fuel.
\<close>

record ('r, 'a, 'rx, 'w) request_source =
  rs_next :: "'rx \<Rightarrow> 'w \<Rightarrow> ((exc + 'r) \<times> 'rx \<times> 'w) option"
  rs_next_with_ancillary :: "('a \<Rightarrow> exc option) \<Rightarrow> 'rx \<Rightarrow> 'w \<Rightarrow> ((exc + 'r) \<times> 'rx \<times> 'w) option"

section \<open>The contract of a request receiver\<close>

text \<open>
  One call of a receiver against the events of the stream: it takes the first event, or raises something else and
  takes none; it says that the stream has ended only when no event is left, or because the application
  filters disconnection errors.  \<open>x\<close> are the bytes that are left.
\<close>

definition request_step ::
  "(bytes \<Rightarrow> 'r verdict) \<Rightarrow> bool \<Rightarrow> (exc + 'r) list \<Rightarrow> bytes \<Rightarrow> exc + 'r \<Rightarrow> bytes \<Rightarrow> bool"
where
  "request_step out filtered evs rest res x \<longleftrightarrow>
     (\<exists>ev evs'. evs = ev # evs' \<and> result_of ev res \<and> decodes out x evs' rest) \<or>
     (\<exists>e. res = Inl e \<and> \<not> is_StreamProtocolParseError e \<and> decodes out x evs rest
          \<and> (e = StopAsyncIteration \<longrightarrow> filtered \<or> evs = []))"

lemma request_step_event: "result_of ev res \<Longrightarrow> decodes out x evs rest \<Longrightarrow> request_step out f (ev # evs) rest res x"
  by (auto simp: request_step_def)

lemma request_step_error:
  "\<not> is_StreamProtocolParseError e \<Longrightarrow> decodes out x evs rest \<Longrightarrow> (e = StopAsyncIteration \<Longrightarrow> f \<or> evs = [])
     \<Longrightarrow> request_step out f evs rest (Inl e) x"
  by (auto simp: request_step_def)

locale request_contract =
  fixes out :: "bytes \<Rightarrow> 'r verdict"
    and S :: "('r, 'a, 'rx, 'w) request_source"
    and rxinv :: "'rx \<Rightarrow> bool"
    and pending :: "'rx \<Rightarrow> bytes"
    and incoming :: "'w \<Rightarrow> bytes"
    and filtered :: bool
  assumes next_step: "rxinv rx \<Longrightarrow> decodes out (pending rx @ incoming w) evs rest \<Longrightarrow>
      \<exists>res rx' w'. rs_next S rx w = Some (res, rx', w') \<and> rxinv rx'
        \<and> request_step out filtered evs rest res (pending rx' @ incoming w')"
    and next_ancillary_step: "rxinv rx \<Longrightarrow> decodes out (pending rx @ incoming w) evs rest \<Longrightarrow>
      (\<forall>a. data_received a = None) \<Longrightarrow>
      \<exists>res rx' w'. rs_next_with_ancillary S data_received rx w = Some (res, rx', w') \<and> rxinv rx'
        \<and> request_step out filtered evs rest res (pending rx' @ incoming w')"

section \<open>Both receivers keep the contract\<close>

text \<open>The sources made of the two receivers; \<open>passes\<close> bounds the passes of the receive loop.\<close>

definition data_request_source ::
  "('w \<Rightarrow> nat) \<Rightarrow> 'w backend \<Rightarrow> ('a, 'w) stream_transport \<Rightarrow> (unit, 'r \<times> bytes, exc, 'k) gen_step
     \<Rightarrow> ('k \<Rightarrow> bytes \<Rightarrow> (unit, 'r \<times> bytes, exc, 'k) gen_step) \<Rightarrow> ('r, 'a, 'k request_receiver, 'w) request_source"
where
  "data_request_source passes B T start send =
     \<lparr>rs_next = (\<lambda>rx w. request_next (passes w) B T start send rx w),
      rs_next_with_ancillary = (\<lambda>d rx w. Some (request_next_with_ancillary B T start send d rx w))\<rparr>"

definition buffered_request_source ::
  "('w \<Rightarrow> nat) \<Rightarrow> 'w backend \<Rightarrow> ('a, 'w) stream_transport \<Rightarrow> ('r, 'k) buffered_protocol
     \<Rightarrow> ('r, 'a, 'k buffered_request_receiver, 'w) request_source"
where
  "buffered_request_source passes B T P =
     \<lparr>rs_next = (\<lambda>rx w. buffered_request_next (passes w) B T P rx w),
      rs_next_with_ancillary =
        (\<lambda>d rx w. Some (buffered_request_next_with_ancillary B (st_recv_with_ancillary T) P d rx w))\<rparr>"

text \<open>
  What is asked of the transport of a client: both ways to receive hand on the bytes of the peer, and neither
  raises \<^verbatim>\<open>StopAsyncIteration\<close>.
\<close>

definition without_ancillary :: "('w \<Rightarrow> (exc + bytes \<times> 'a) \<times> 'w) \<Rightarrow> 'w \<Rightarrow> (exc + bytes) \<times> 'w" where
  "without_ancillary f w =
     (case f w of (Inl e, w') \<Rightarrow> (Inl e, w') | (Inr (data, ancdata), w') \<Rightarrow> (Inr data, w'))"

definition client_stream :: "('w \<Rightarrow> bytes) \<Rightarrow> ('a, 'w) stream_transport \<Rightarrow> bool" where
  "client_stream incoming T \<longleftrightarrow>
     stream_source incoming (\<lambda>n t. st_recv T n) \<and>
     (\<forall>m. stream_source incoming (\<lambda>n t. without_ancillary (st_recv_with_ancillary T n m))) \<and>
     (\<forall>n w w'. st_recv T n w \<noteq> (Inl StopAsyncIteration, w')) \<and>
     (\<forall>n m w w'. st_recv_with_ancillary T n m w \<noteq> (Inl StopAsyncIteration, w'))"

lemma client_streamD:
  assumes "client_stream incoming T" and "0 < n"
  shows "st_recv T n w = (Inl e, w') \<Longrightarrow>
      \<not> is_StreamProtocolParseError e \<and> e \<noteq> StopAsyncIteration \<and> incoming w' = incoming w"
    and "st_recv T n w = (Inr c, w') \<Longrightarrow>
      length c \<le> n \<and> incoming w = c @ incoming w' \<and> (c = [] \<longrightarrow> incoming w = [])"
    and "st_recv_with_ancillary T n m w = (Inl e, w') \<Longrightarrow>
      \<not> is_StreamProtocolParseError e \<and> e \<noteq> StopAsyncIteration \<and> incoming w' = incoming w"
    and "st_recv_with_ancillary T n m w = (Inr (c, a), w') \<Longrightarrow>
      length c \<le> n \<and> incoming w = c @ incoming w' \<and> (c = [] \<longrightarrow> incoming w = [])"
proof -
  from assms(1) have src: "stream_source incoming (\<lambda>n t. st_recv T n)"
      "stream_source incoming (\<lambda>n t. without_ancillary (st_recv_with_ancillary T n m))"
    and stop: "st_recv T n w \<noteq> (Inl StopAsyncIteration, w')"
      "st_recv_with_ancillary T n m w \<noteq> (Inl StopAsyncIteration, w')" for w w' m
    by (auto simp: client_stream_def)
  show "st_recv T n w = (Inl e, w') \<Longrightarrow>
      \<not> is_StreamProtocolParseError e \<and> e \<noteq> StopAsyncIteration \<and> incoming w' = incoming w"
    using stream_sourceD(1) [OF src(1) assms(2), where w = w and e = e and w' = w'] stop(1) by auto
  show "st_recv T n w = (Inr c, w') \<Longrightarrow>
      length c \<le> n \<and> incoming w = c @ incoming w' \<and> (c = [] \<longrightarrow> incoming w = [])"
    using stream_sourceD(2) [OF src(1) assms(2), where w = w and c = c and w' = w'] by auto
  show "st_recv_with_ancillary T n m w = (Inl e, w') \<Longrightarrow>
      \<not> is_StreamProtocolParseError e \<and> e \<noteq> StopAsyncIteration \<and> incoming w' = incoming w"
    using stream_sourceD(1) [OF src(2) [of m] assms(2), where w = w and e = e and w' = w'] stop(2)
    by (auto simp: without_ancillary_def)
  show "st_recv_with_ancillary T n m w = (Inr (c, a), w') \<Longrightarrow>
      length c \<le> n \<and> incoming w = c @ incoming w' \<and> (c = [] \<longrightarrow> incoming w = [])"
    using stream_sourceD(2) [OF src(2) [of m] assms(2), where w = w and c = c and w' = w'] by (auto simp: without_ancillary_def)
qed

definition rr_inv ::
  "(bytes \<Rightarrow> 'r verdict) \<Rightarrow> ('k \<Rightarrow> bool) \<Rightarrow> ('k \<Rightarrow> bytes) \<Rightarrow> bool \<Rightarrow> 'k request_receiver \<Rightarrow> bool"
where
  "rr_inv out wfk received filtered r \<longleftrightarrow>
     sc_inv out wfk received (rr_consumer r) \<and> 0 < rr_max_recv_size r \<and>
     (rr_disconnect_error_filter r \<noteq> None \<longrightarrow> filtered)"

lemma disconnected_filter: "disconnected f e \<Longrightarrow> f \<noteq> None"
  by (cases f) (auto simp: disconnected_def)

text \<open>The two ways a reception fails, against the contract.\<close>

lemma request_step_failed:
  assumes "\<not> is_StreamProtocolParseError e" and "e \<noteq> StopAsyncIteration" and "decodes out x evs rest"
    and "f \<noteq> None \<longrightarrow> filtered"
  shows "request_step out filtered evs rest (Inl (if disconnected f e then StopAsyncIteration else e)) x"
  using assms disconnected_filter [of f e] by (auto intro!: request_step_error)

lemma request_step_end:
  assumes "out x = More" and "decodes out x evs rest"
  shows "request_step out filtered evs rest (Inl StopAsyncIteration) x"
  using assms by (auto intro!: request_step_error elim: decodes.cases)

context stream_protocol
begin

abbreviation "rpend r \<equiv> sc_pending received (rr_consumer r)"
abbreviation "rrinv \<equiv> rr_inv out wf received"

lemma consumer_request_step:
  assumes "rrinv filtered r" and "decodes out ((rpend r @ (case chunk of None \<Rightarrow> [] | Some c \<Rightarrow> c)) @ x) evs rest"
  shows "\<exists>res st'. consumer_next start send (rr_consumer r) chunk = (res, st')
    \<and> rrinv filtered (r\<lparr>rr_consumer := st'\<rparr>)
    \<and> (case res of
         Stop \<Rightarrow> out (sc_pending received st') = More \<and> decodes out (sc_pending received st' @ x) evs rest
       | Packet p \<Rightarrow> request_step out filtered evs rest (Inr p) (sc_pending received st' @ x)
       | Error e \<Rightarrow> request_step out filtered evs rest (Inl e) (sc_pending received st' @ x))"
proof -
  have inv: "sc_inv out wf received (rr_consumer r)" using assms(1) by (simp add: rr_inv_def)
  from consumer_next_decodes [OF inv assms(2)] obtain res st' where
    n: "consumer_next start send (rr_consumer r) chunk = (res, st')" "sc_inv out wf received st'"
    and res: "case res of
       Stop \<Rightarrow> out (sc_pending received st') = More \<and> decodes out (sc_pending received st' @ x) evs rest
     | Packet p \<Rightarrow> \<exists>evs'. evs = Inr p # evs' \<and> decodes out (sc_pending received st' @ x) evs' rest
     | Error e' \<Rightarrow> \<exists>e evs'. evs = Inl e # evs' \<and> result_of (Inl e) (Inl e' :: exc + 'r)
         \<and> decodes out (sc_pending received st' @ x) evs' rest"
    by blast
  have "rrinv filtered (r\<lparr>rr_consumer := st'\<rparr>)" using n(2) assms(1) by (simp add: rr_inv_def)
  with n(1) res show ?thesis
    by (fastforce intro: request_step_event split: next_result.splits)
qed

lemma request_next_loop_step:
  assumes T: "client_stream incoming T" and "rrinv filtered r" and "out (rpend r) = More"
    and "decodes out (rpend r @ incoming w) evs rest" and "length (incoming w) < fuel"
  shows "\<exists>res r' w'. request_next_loop fuel T start send r w = Some (res, r', w')
    \<and> rrinv filtered r' \<and> request_step out filtered evs rest res (rpend r' @ incoming w')"
  using assms(2-5)
proof (induction fuel arbitrary: r w)
  case (Suc fuel)
  have size: "0 < rr_max_recv_size r" and flt: "rr_disconnect_error_filter r \<noteq> None \<longrightarrow> filtered"
    using Suc.prems by (auto simp: rr_inv_def)
  note recv = client_streamD [OF T size]
  obtain o1 w1 where rcv: "st_recv T (rr_max_recv_size r) w = (o1, w1)" by fastforce
  show ?case
  proof (cases o1)
    case (Inl e)
    with rcv recv(1) have "\<not> is_StreamProtocolParseError e" "e \<noteq> StopAsyncIteration" "incoming w1 = incoming w"
      by blast+
    with request_step_failed [OF this(1,2) _ flt, of out] Suc.prems rcv Inl show ?thesis by auto
  next
    case (Inr c)
    with rcv recv(2) have c: "incoming w = c @ incoming w1" "c = [] \<longrightarrow> incoming w = []" by blast+
    show ?thesis
    proof (cases "c = []")
      case True
      with c Suc.prems rcv Inr request_step_end [of out "rpend r" evs rest filtered] show ?thesis by simp
    next
      case False
      have "decodes out ((rpend r @ (case Some c of None \<Rightarrow> [] | Some c \<Rightarrow> c)) @ incoming w1) evs rest"
        using Suc.prems c by simp
      from consumer_request_step [OF Suc.prems(1) this] obtain res st' where
        n: "consumer_next start send (rr_consumer r) (Some c) = (res, st')"
          "rrinv filtered (r\<lparr>rr_consumer := st'\<rparr>)"
        and res: "case res of
           Stop \<Rightarrow> out (sc_pending received st') = More \<and> decodes out (sc_pending received st' @ incoming w1) evs rest
         | Packet p \<Rightarrow> request_step out filtered evs rest (Inr p) (sc_pending received st' @ incoming w1)
         | Error e \<Rightarrow> request_step out filtered evs rest (Inl e) (sc_pending received st' @ incoming w1)"
        by blast
      show ?thesis
      proof (cases res)
        case Stop
        have "length (incoming w1) < fuel" using Suc.prems c False by (cases c) auto
        with Suc.IH [OF n(2), of w1] Stop res n rcv Inr False show ?thesis by simp
      qed (use n res rcv Inr False in auto)
    qed
  qed
qed simp

text \<open>The first step of both methods, before anything is received.\<close>

lemma request_contract_data:
  assumes T: "client_stream incoming T" and B: "scopes_keep incoming B"
  shows "request_contract out (data_request_source (\<lambda>w. length (incoming w) + 1) B T start send)
     (rrinv filtered) rpend incoming filtered"
proof
  fix r w evs rest
  assume inv: "rrinv filtered r" and dec: "decodes out (rpend r @ incoming w) evs rest"
  have size: "0 < rr_max_recv_size r" and flt: "rr_disconnect_error_filter r \<noteq> None \<longrightarrow> filtered"
    using inv by (auto simp: rr_inv_def)
  note recv = client_streamD [OF T size]
  have yld: "incoming (be_coro_yield B w) = incoming w" by (rule scopes_keepD(3) [OF B])
  from dec have "decodes out ((rpend r @ (case None of None \<Rightarrow> [] | Some c \<Rightarrow> c)) @ incoming w) evs rest" by simp
  from consumer_request_step [OF inv this] obtain res st' where
    n: "consumer_next start send (rr_consumer r) None = (res, st')" "rrinv filtered (r\<lparr>rr_consumer := st'\<rparr>)"
    and res: "case res of
       Stop \<Rightarrow> out (sc_pending received st') = More \<and> decodes out (sc_pending received st' @ incoming w) evs rest
     | Packet p \<Rightarrow> request_step out filtered evs rest (Inr p) (sc_pending received st' @ incoming w)
     | Error e \<Rightarrow> request_step out filtered evs rest (Inl e) (sc_pending received st' @ incoming w)"
    by blast
  show "\<exists>res r' w'. rs_next (data_request_source (\<lambda>w. length (incoming w) + 1) B T start send) r w = Some (res, r', w')
      \<and> rrinv filtered r' \<and> request_step out filtered evs rest res (rpend r' @ incoming w')"
  proof (cases res)
    case Stop
    with res request_next_loop_step [OF T n(2), of w evs rest "length (incoming w) + 1"] n show ?thesis
      by (simp add: data_request_source_def request_next_def del: request_next_loop.simps)
  qed (use n res yld in \<open>auto simp: data_request_source_def request_next_def\<close>)
  fix data_received :: "'b \<Rightarrow> exc option"
  assume quiet: "\<forall>a. data_received a = None"
  let ?result = "\<lambda>res r' w'. rs_next_with_ancillary (data_request_source (\<lambda>w. length (incoming w) + 1) B T start send)
        data_received r w = Some (res, r', w')
      \<and> rrinv filtered r' \<and> request_step out filtered evs rest res (rpend r' @ incoming w')"
  show "\<exists>res r' w'. ?result res r' w'"
  proof (cases "rr_ancillary_bufsize r")
    case None
    with inv dec show ?thesis
      by (auto simp: data_request_source_def request_next_with_ancillary_def no_ancillary_data_def
            intro: request_step_error)
  next
    case (Some m)
    show ?thesis
    proof (cases res)
      case Stop
      obtain o1 w1 where rcv: "st_recv_with_ancillary T (rr_max_recv_size r) m w = (o1, w1)" by fastforce
      show ?thesis
      proof (cases o1)
        case (Inl e)
        with rcv recv(3) have "\<not> is_StreamProtocolParseError e" "e \<noteq> StopAsyncIteration" "incoming w1 = incoming w"
          by blast+
        with request_step_failed [OF this(1,2) _ flt, of out] Stop res n rcv Inl Some show ?thesis
          by (auto simp: data_request_source_def request_next_with_ancillary_def)
      next
        case (Inr ca)
        obtain c a where ca: "ca = (c, a)" by fastforce
        with rcv recv(4) Inr have c: "incoming w = c @ incoming w1" "c = [] \<longrightarrow> incoming w = []" by blast+
        show ?thesis
        proof (cases "c = []")
          case True
          with c Stop res n rcv Inr Some ca request_step_end [of out "sc_pending received st'" evs rest filtered]
          show ?thesis by (simp add: data_request_source_def request_next_with_ancillary_def)
        next
          case False
          have "decodes out ((rpend (r\<lparr>rr_consumer := st'\<rparr>) @ (case Some c of None \<Rightarrow> [] | Some c \<Rightarrow> c)) @ incoming w1) evs rest"
            using Stop res c by simp
          from consumer_request_step [OF n(2) this] obtain res2 st2 where
            n2: "consumer_next start send st' (Some c) = (res2, st2)" "rrinv filtered (r\<lparr>rr_consumer := st2\<rparr>)"
            and res2: "case res2 of
               Stop \<Rightarrow> out (sc_pending received st2) = More \<and> decodes out (sc_pending received st2 @ incoming w1) evs rest
             | Packet p \<Rightarrow> request_step out filtered evs rest (Inr p) (sc_pending received st2 @ incoming w1)
             | Error e \<Rightarrow> request_step out filtered evs rest (Inl e) (sc_pending received st2 @ incoming w1)"
            by auto
          have "request_step out filtered evs rest (Inl (EOFError ''Received partial packet data''))
              (sc_pending received st2 @ incoming w1)" if "res2 = Stop"
            using res2 that by (auto intro: request_step_error)
          with n n2 res2 Stop rcv Inr Some ca False quiet show ?thesis
            by (cases res2) (auto simp: data_request_source_def request_next_with_ancillary_def)
        qed
      qed
    qed (use n res yld Some in \<open>auto simp: data_request_source_def request_next_with_ancillary_def\<close>)
  qed
qed

end

definition brr_inv ::
  "(bytes \<Rightarrow> 'r verdict) \<Rightarrow> ('k \<Rightarrow> bytes \<Rightarrow> bool) \<Rightarrow> ('k \<Rightarrow> nat) \<Rightarrow> ('k \<Rightarrow> bytes \<Rightarrow> bytes) \<Rightarrow> int \<Rightarrow> nat \<Rightarrow> bool
     \<Rightarrow> 'k buffered_request_receiver \<Rightarrow> bool"
where
  "brr_inv out wfb pos received hint cap filtered r \<longleftrightarrow>
     bc_inv out wfb pos received hint cap (brr_consumer r) \<and> (brr_disconnect_error_filter r \<noteq> None \<longrightarrow> filtered)"

context buffered_packets
begin

abbreviation "brpend r \<equiv> Pending (brr_consumer r)"
abbreviation "brrinv \<equiv> brr_inv out wfb pos received hint cap"

lemma next_decodes_request_step:
  assumes "next_decodes res st x evs rest"
  shows "res = Packet p \<Longrightarrow> request_step out filtered evs rest (Inr p) (Pending st @ x)"
    and "res = Error e \<Longrightarrow> request_step out filtered evs rest (Inl e) (Pending st @ x)"
  using assms by (auto simp: next_decodes_def intro: request_step_event intro!: request_step_event [of "Inl _" "Inl _"])

lemma buffered_request_next_loop_step:
  assumes T: "client_stream incoming T" and "brrinv filtered r" and "out (brpend r) = More"
    and "bc_written (brr_consumer r) = 0"
    and "decodes out (brpend r @ incoming w) evs rest" and "length (incoming w) < fuel"
  shows "\<exists>res r' w'. buffered_request_next_loop fuel T P r w = Some (res, r', w')
    \<and> brrinv filtered r' \<and> request_step out filtered evs rest res (brpend r' @ incoming w')"
  using assms(2-6)
proof (induction fuel arbitrary: r w)
  case (Suc fuel)
  have inv: "Inv (brr_consumer r)" and flt: "brr_disconnect_error_filter r \<noteq> None \<longrightarrow> filtered"
    using Suc.prems by (auto simp: brr_inv_def)
  from buffered_reception [OF inv Suc.prems(2,3)] obtain offset len st1 where
    buf: "get_write_buffer P (brr_consumer r) = (Inr (offset, len), st1)" "Inv st1" "Pending st1 = brpend r" "0 < len"
    and fill: "\<And>c x evs rest. length c \<le> len \<Longrightarrow> decodes out ((brpend r @ c) @ x) evs rest \<Longrightarrow>
          \<exists>res st'. buffered_next P (fill_write_buffer c st1) (Some (int (length c))) = (res, st')
             \<and> next_decodes res st' x evs rest" by blast
  note recv = client_streamD [OF T buf(4)]
  have r1: "brrinv filtered (r\<lparr>brr_consumer := st\<rparr>)" if "Inv st" for st using that flt by (simp add: brr_inv_def)
  obtain o1 w1 where rcv: "st_recv T len w = (o1, w1)" by fastforce
  show ?case
  proof (cases o1)
    case (Inl e)
    with rcv recv(1) have "\<not> is_StreamProtocolParseError e" "e \<noteq> StopAsyncIteration" "incoming w1 = incoming w"
      by blast+
    with request_step_failed [OF this(1,2) _ flt, of out] Suc.prems rcv Inl buf r1 [OF buf(2)] show ?thesis by auto
  next
    case (Inr c)
    with rcv recv(2) have c: "length c \<le> len" "incoming w = c @ incoming w1" "c = [] \<longrightarrow> incoming w = []" by blast+
    show ?thesis
    proof (cases "c = []")
      case True
      with c Suc.prems rcv Inr buf r1 [OF buf(2)] request_step_end [of out "brpend r" evs rest filtered]
      show ?thesis by simp
    next
      case False
      have "decodes out ((brpend r @ c) @ incoming w1) evs rest" using Suc.prems c by simp
      from fill [OF c(1) this] obtain res st' where
        n: "buffered_next P (fill_write_buffer c st1) (Some (int (length c))) = (res, st')"
          "next_decodes res st' (incoming w1) evs rest" by blast
      then have inv': "Inv st'" by (simp add: next_decodes_def)
      note step = next_decodes_request_step [OF n(2), of _ filtered]
      show ?thesis
      proof (cases res)
        case Stop
        have "length (incoming w1) < fuel" using Suc.prems c False by (cases c) auto
        with Suc.IH [OF r1 [OF inv'], of w1] Stop n rcv Inr False buf show ?thesis by (simp add: next_decodes_def)
      qed (use n r1 [OF inv'] rcv Inr False buf step in auto)
    qed
  qed
qed simp

lemma request_contract_buffered:
  assumes T: "client_stream incoming T" and B: "scopes_keep incoming B"
  shows "request_contract out (buffered_request_source (\<lambda>w. length (incoming w) + 1) B T P)
     (brrinv filtered) brpend incoming filtered"
proof
  fix r w evs rest
  assume inv: "brrinv filtered r" and dec: "decodes out (brpend r @ incoming w) evs rest"
  have cinv: "Inv (brr_consumer r)" and flt: "brr_disconnect_error_filter r \<noteq> None \<longrightarrow> filtered"
    using inv by (auto simp: brr_inv_def)
  have yld: "incoming (be_coro_yield B w) = incoming w" by (rule scopes_keepD(3) [OF B])
  from buffered_next_none_decodes [OF cinv dec] obtain res st' where
    n: "buffered_next P (brr_consumer r) None = (res, st')" "next_decodes res st' (incoming w) evs rest" by blast
  then have inv': "Inv st'" by (simp add: next_decodes_def)
  have r1: "brrinv filtered (r\<lparr>brr_consumer := st\<rparr>)" if "Inv st" for st using that flt by (simp add: brr_inv_def)
  note step = next_decodes_request_step [OF n(2), of _ filtered]
  show "\<exists>res r' w'. rs_next (buffered_request_source (\<lambda>w. length (incoming w) + 1) B T P) r w = Some (res, r', w')
      \<and> brrinv filtered r' \<and> request_step out filtered evs rest res (brpend r' @ incoming w')"
  proof (cases res)
    case Stop
    with n buffered_request_next_loop_step [OF T r1 [OF inv'], of w evs rest "length (incoming w) + 1"]
    show ?thesis
      by (simp add: buffered_request_source_def buffered_request_next_def next_decodes_def
            del: buffered_request_next_loop.simps)
  qed (use n r1 [OF inv'] yld step in \<open>auto simp: buffered_request_source_def buffered_request_next_def\<close>)
  fix data_received :: "'b \<Rightarrow> exc option"
  assume quiet: "\<forall>a. data_received a = None"
  let ?result = "\<lambda>res r' w'. rs_next_with_ancillary (buffered_request_source (\<lambda>w. length (incoming w) + 1) B T P)
        data_received r w = Some (res, r', w')
      \<and> brrinv filtered r' \<and> request_step out filtered evs rest res (brpend r' @ incoming w')"
  show "\<exists>res r' w'. ?result res r' w'"
  proof (cases "brr_ancillary_bufsize r")
    case None
    with inv dec show ?thesis
      by (auto simp: buffered_request_source_def buffered_request_next_with_ancillary_def no_ancillary_data_def
            intro: request_step_error)
  next
    case (Some m)
    note defs = buffered_request_source_def buffered_request_next_with_ancillary_def
    show ?thesis
    proof (cases res)
      case Stop
      with n(2) have st': "out (Pending st') = More" "bc_written st' = 0"
        "decodes out (Pending st' @ incoming w) evs rest" by (auto simp: next_decodes_def)
      from buffered_reception [OF inv' st'(1,2)] obtain offset len st1 where
        buf: "get_write_buffer P st' = (Inr (offset, len), st1)" "Inv st1" "Pending st1 = Pending st'" "0 < len"
        and fill: "\<And>c x evs rest. length c \<le> len \<Longrightarrow> decodes out ((Pending st' @ c) @ x) evs rest \<Longrightarrow>
            \<exists>res st2. buffered_next P (fill_write_buffer c st1) (Some (int (length c))) = (res, st2)
               \<and> next_decodes res st2 x evs rest" by blast
      note recv = client_streamD [OF T buf(4)]
      obtain o1 w1 where rcv: "st_recv_with_ancillary T len m w = (o1, w1)" by fastforce
      show ?thesis
      proof (cases o1)
        case (Inl e)
        with rcv recv(3) have "\<not> is_StreamProtocolParseError e" "e \<noteq> StopAsyncIteration" "incoming w1 = incoming w"
          by blast+
        with request_step_failed [OF this(1,2) _ flt, of out] Stop st' n rcv Inl Some buf r1 [OF buf(2)]
        show ?thesis by (auto simp: defs)
      next
        case (Inr ca)
        obtain c a where ca: "ca = (c, a)" by fastforce
        with rcv recv(4) Inr have c: "length c \<le> len" "incoming w = c @ incoming w1" "c = [] \<longrightarrow> incoming w = []"
          by blast+
        show ?thesis
        proof (cases "c = []")
          case True
          with c Stop st' n rcv Inr Some ca buf r1 [OF buf(2)] request_step_end [of out "Pending st'" evs rest filtered]
          show ?thesis by (simp add: defs)
        next
          case False
          have "decodes out ((Pending st' @ c) @ incoming w1) evs rest" using st' c by simp
          from fill [OF c(1) this] obtain res2 st2 where
            n2: "buffered_next P (fill_write_buffer c st1) (Some (int (length c))) = (res2, st2)"
              "next_decodes res2 st2 (incoming w1) evs rest" by blast
          then have inv2: "Inv st2" by (simp add: next_decodes_def)
          note step2 = next_decodes_request_step [OF n2(2), of _ filtered]
          have "request_step out filtered evs rest (Inl (EOFError ''Received partial packet data''))
              (Pending st2 @ incoming w1)" if "res2 = Stop"
            using n2(2) that by (auto simp: next_decodes_def intro: request_step_error)
          with n n2 step2 Stop rcv Inr Some ca False quiet buf r1 [OF inv2] show ?thesis
            by (cases res2) (auto simp: defs Let_def)
        qed
      qed
    qed (use n r1 [OF inv'] yld Some step in \<open>auto simp: defs\<close>)
  qed
qed

end

end
