(* ===== verification/AsyncStreamServer.thy ===== *)
theory AsyncStreamServer
  imports RequestReceivers
begin

text \<open>
  The stream server, \<^verbatim>\<open>src/src/easynetwork/lowlevel/api_async/servers/stream.py\<close>: the coroutine that serves one client,
  which runs the request handler (an asynchronous generator of the application) against a request
  receiver; with the parameters of \<^verbatim>\<open>lowlevel/request_handler.py\<close>.

  The handler is a parameter: what it does when it is resumed, and what it yields then.  The coroutine keeps the
  history of the inputs it gave to the handler, for the specifications.
\<close>

section \<open>RecvParams\<close>

text \<open>What a handler may yield: \<^verbatim>\<open>None\<close>, the parameters of the next reception, or anything else.\<close>

record 'a recv_params =
  rp_timeout :: "raw_delay option"
  rp_recv_with_ancillary :: "('a \<Rightarrow> exc option) option"

datatype 'a yielded = YieldNone | YieldParams "'a recv_params" | YieldOther

definition rcv :: "'a yielded \<Rightarrow> exc + 'a recv_params" where
  "rcv param =
     (case param of
        YieldParams p \<Rightarrow> Inr p
      | YieldNone \<Rightarrow> Inr \<lparr>rp_timeout = None, rp_recv_with_ancillary = None\<rparr>
      | YieldOther \<Rightarrow> Inl (TypeError ''Expected a 'RecvParams' object''))"

section \<open>The request handler\<close>

text \<open>
  \<open>rh_anext\<close> runs the generator up to its first yield, \<open>rh_resume\<close> resumes it with \<^verbatim>\<open>athrow(e)\<close> (input \<open>Inl e\<close>)
  or \<^verbatim>\<open>asend(request)\<close> (input \<open>Inr request\<close>), \<open>rh_aclose\<close> is \<^verbatim>\<open>aclose()\<close> of a suspended generator.  \<open>Stops\<close> is
  \<^verbatim>\<open>StopAsyncIteration\<close>: the generator returned.
\<close>

datatype ('a, 'h) handler_output = Yields "'a yielded" 'h | Stops | Raises exc

record ('r, 'a, 'h, 'w) request_handler =
  rh_connect :: "'w \<Rightarrow> (exc + 'h) \<times> 'w"
  rh_anext :: "'h \<Rightarrow> 'w \<Rightarrow> ('a, 'h) handler_output \<times> 'w"
  rh_resume :: "exc + 'r \<Rightarrow> 'h \<Rightarrow> 'w \<Rightarrow> ('a, 'h) handler_output \<times> 'w"
  rh_aclose :: "'h \<Rightarrow> 'w \<Rightarrow> exc option \<times> 'w"

text \<open>\<^verbatim>\<open>aclose()\<close> in the \<^verbatim>\<open>finally\<close> clause; nothing happens when the generator has ended (\<open>None\<close>).\<close>

definition close_generator ::
  "('r, 'a, 'h, 'w) request_handler \<Rightarrow> 'h option \<Rightarrow> exc option \<Rightarrow> 'w \<Rightarrow> exc option \<times> 'w"
where
  "close_generator H h exc w =
     (case h of
        None \<Rightarrow> (exc, w)
      | Some h' \<Rightarrow>
          (case rh_aclose H h' w of
             (None, w') \<Rightarrow> (exc, w')
           | (Some e, w') \<Rightarrow> (Some e, w')))"

section \<open>The coroutine of a client\<close>

text \<open>The inner \<^verbatim>\<open>try\<close> block: the parameters, the time limit, the reception.\<close>

definition receive_request ::
  "'w backend \<Rightarrow> ('r, 'a, 'rx, 'w) request_source \<Rightarrow> 'a yielded \<Rightarrow> 'rx \<Rightarrow> 'w \<Rightarrow> ((exc + 'r) \<times> 'rx \<times> 'w) option"
where
  "receive_request B S y rx w =
     (case rcv y of
        Inl e \<Rightarrow> Some (Inl e, rx, w)
      | Inr params \<Rightarrow>
          (case validate_optional_timeout_delay (rp_timeout params) True of
             Inl e \<Rightarrow> Some (Inl e, rx, w)
           | Inr timeout \<Rightarrow>
               let body = (case rp_recv_with_ancillary params of
                             None \<Rightarrow> rs_next S rx
                           | Some data_received \<Rightarrow> rs_next_with_ancillary S data_received rx) in
               if timeout = Infinity then body w else within_timeout B timeout body w))"

text \<open>
  The loop, followed for \<open>n\<close> passes.  \<open>Running\<close>: it has not ended by then.  \<open>Closing\<close>: the transport is being closed.
  \<open>Stopped\<close>: a \<^verbatim>\<open>StopAsyncIteration\<close>, of the receiver (the generator is alive) or of the generator.
  The list is the history of the inputs.
\<close>

datatype loop_end = Running | Closing | Stopped | Crashed exc

fun client_loop ::
  "nat \<Rightarrow> 'w backend \<Rightarrow> ('a, 'w) stream_transport \<Rightarrow> ('r, 'a, 'h, 'w) request_handler
     \<Rightarrow> ('r, 'a, 'rx, 'w) request_source \<Rightarrow> 'a yielded \<Rightarrow> 'h \<Rightarrow> 'rx \<Rightarrow> 'w
     \<Rightarrow> (loop_end \<times> (exc + 'r) list \<times> 'h option \<times> 'rx \<times> 'w) option"
where
  "client_loop 0 B T H S y h rx w = Some (Running, [], Some h, rx, w)"
| "client_loop (Suc n) B T H S y h rx w =
     (if st_is_closing T w then Some (Closing, [], Some h, rx, w)
      else (case receive_request B S y rx w of
              None \<Rightarrow> None
            | Some (res, rx1, w1) \<Rightarrow>
                if res = Inl StopAsyncIteration then Some (Stopped, [], Some h, rx1, w1)
                else (case rh_resume H res h w1 of
                        (Stops, w2) \<Rightarrow> Some (Stopped, [res], None, rx1, w2)
                      | (Raises e, w2) \<Rightarrow> Some (Crashed e, [res], None, rx1, w2)
                      | (Yields y' h', w2) \<Rightarrow>
                          (case client_loop n B T H S y' h' rx1 w2 of
                             None \<Rightarrow> None
                           | Some (end, inputs, h'', rx2, w3) \<Rightarrow> Some (end, res # inputs, h'', rx2, w3)))))"

text \<open>The exit stacks: \<^verbatim>\<open>consumer.clear\<close> (when there is a consumer), the transport (closed by force unless the handler stopped normally), the log.\<close>

definition close_client_transport ::
  "'w backend \<Rightarrow> ('a, 'w) stream_transport \<Rightarrow> bool \<Rightarrow> exc option \<Rightarrow> 'w \<Rightarrow> exc option \<times> 'w"
where
  "close_client_transport B T gracefully exc w =
     (case (if gracefully then st_aclose T w else aclose_forcefully B (st_aclose T) w) of
        (None, w') \<Rightarrow> (exc, w')
      | (Some e, w') \<Rightarrow> (Some e, w'))"

text \<open>What is logged, and what goes on to the task group.\<close>

definition unhandled_exception_log :: "exc option \<Rightarrow> exc option \<times> exc option" where
  "unhandled_exception_log exc =
     (case exc of
        None \<Rightarrow> (None, None)
      | Some e \<Rightarrow> if is_Exception e then (Some e, None) else (None, Some e))"

record ('r, 'rx, 'w) client_end =
  ce_inputs :: "(exc + 'r) list"
  ce_gracefully :: bool
  ce_logged :: "exc option"
  ce_raised :: "exc option"
  ce_receiver :: "'rx option"
  ce_world :: 'w

definition end_client ::
  "'w backend \<Rightarrow> ('a, 'w) stream_transport \<Rightarrow> ('rx \<Rightarrow> 'rx) \<Rightarrow> (exc + 'r) list \<Rightarrow> bool \<Rightarrow> exc option \<times> 'w \<Rightarrow> 'rx option
     \<Rightarrow> ('r, 'rx, 'w) client_end"
where
  "end_client B T clear inputs gracefully body rx =
     (case close_client_transport B T gracefully (fst body) (snd body) of
        (exc, w) \<Rightarrow>
          (case unhandled_exception_log exc of
             (logged, raised) \<Rightarrow>
               \<lparr>ce_inputs = inputs, ce_gracefully = gracefully, ce_logged = logged, ce_raised = raised,
                ce_receiver = map_option clear rx, ce_world = w\<rparr>))"

definition loop_error :: "loop_end \<Rightarrow> exc option" where
  "loop_error end = (case end of Crashed e \<Rightarrow> Some e | _ \<Rightarrow> None)"

text \<open>\<open>None\<close> when the loop is still running after \<open>n\<close> passes.\<close>

definition client_coroutine ::
  "nat \<Rightarrow> 'w backend \<Rightarrow> ('a, 'w) stream_transport \<Rightarrow> ('r, 'a, 'h, 'w) request_handler
     \<Rightarrow> ('r, 'a, 'rx, 'w) request_source \<Rightarrow> ('rx \<Rightarrow> 'rx) \<Rightarrow> 'rx \<Rightarrow> 'w \<Rightarrow> ('r, 'rx, 'w) client_end option"
where
  "client_coroutine n B T H S clear rx w =
     (case rh_connect H w of
        (Inl e, w1) \<Rightarrow> Some (end_client B T clear [] False (Some e, w1) (Some rx))
      | (Inr h, w1) \<Rightarrow>
          (case rh_anext H h w1 of
             (Stops, w2) \<Rightarrow> Some (end_client B T clear [] False (close_generator H None None w2) (Some rx))
           | (Raises e, w2) \<Rightarrow> Some (end_client B T clear [] False (close_generator H None (Some e) w2) (Some rx))
           | (Yields y h', w2) \<Rightarrow>
               (case client_loop n B T H S y h' rx w2 of
                  None \<Rightarrow> None
                | Some (end, inputs, h'', rx', w3) \<Rightarrow>
                    if end = Running then None
                    else Some (end_client B T clear inputs (end = Stopped)
                                 (close_generator H h'' (loop_error end) w3) (Some rx')))))"

section \<open>Handlers against the contract\<close>

text \<open>
  Handlers that do not read the transport themselves (they send and may close it), and whose callbacks for
  ancillary data do not raise.
\<close>

fun quiet_yield :: "'a yielded \<Rightarrow> bool" where
  "quiet_yield (YieldParams p) \<longleftrightarrow>
     (case rp_recv_with_ancillary p of None \<Rightarrow> True | Some data_received \<Rightarrow> \<forall>a. data_received a = None)"
| "quiet_yield _ \<longleftrightarrow> True"

fun quiet_output :: "('a, 'h) handler_output \<Rightarrow> bool" where
  "quiet_output (Yields y _) \<longleftrightarrow> quiet_yield y"
| "quiet_output _ \<longleftrightarrow> True"

definition handler_keeps :: "('w \<Rightarrow> bytes) \<Rightarrow> ('r, 'a, 'h, 'w) request_handler \<Rightarrow> bool" where
  "handler_keeps incoming H \<longleftrightarrow>
     (\<forall>w. incoming (snd (rh_connect H w)) = incoming w) \<and>
     (\<forall>h w. incoming (snd (rh_anext H h w)) = incoming w \<and> quiet_output (fst (rh_anext H h w))) \<and>
     (\<forall>i h w. incoming (snd (rh_resume H i h w)) = incoming w \<and> quiet_output (fst (rh_resume H i h w)))"

lemma handler_keepsD:
  assumes "handler_keeps incoming H"
  shows "rh_connect H w = (c, w') \<Longrightarrow> incoming w' = incoming w"
    and "rh_anext H h w = (out, w') \<Longrightarrow> incoming w' = incoming w \<and> quiet_output out"
    and "rh_resume H i h w = (out, w') \<Longrightarrow> incoming w' = incoming w \<and> quiet_output out"
  using assms unfolding handler_keeps_def by (metis snd_conv, metis fst_conv snd_conv, metis fst_conv snd_conv)

lemma validate_timeout_error:
  assumes "validate_optional_timeout_delay t b = Inl e"
  shows "\<not> is_StreamProtocolParseError e \<and> e \<noteq> StopAsyncIteration"
  using assms
  by (auto simp: validate_optional_timeout_delay_def validate_timeout_delay_def split: option.splits raw_delay.splits if_splits)

context request_contract
begin

lemma within_timeout_step:
  assumes "scopes_keep incoming B" and "decodes out (pending rx @ incoming w) evs rest"
    and body: "\<And>w. decodes out (pending rx @ incoming w) evs rest \<Longrightarrow> \<exists>res rx' w'. body w = Some (res, rx', w') \<and> rxinv rx'
        \<and> request_step out filtered evs rest res (pending rx' @ incoming w')"
  shows "\<exists>res rx' w'. within_timeout B t body w = Some (res, rx', w') \<and> rxinv rx'
        \<and> request_step out filtered evs rest res (pending rx' @ incoming w')"
proof -
  have "incoming (be_enter B t w) = incoming w" by (rule scopes_keepD(1) [OF assms(1)])
  with body [of "be_enter B t w"] assms(2) obtain res rx' w1 where
    b: "body (be_enter B t w) = Some (res, rx', w1)" "rxinv rx'"
      "request_step out filtered evs rest res (pending rx' @ incoming w1)" by auto
  obtain s c w2 where e: "be_exit B (error_of res) w1 = ((s, c), w2)" by (metis surj_pair)
  note x = scopes_keepD(2) [OF assms(1) e]
  show ?thesis
  proof (cases "s \<and> c")
    case True
    with x have "res = Inl CancelledError" by (auto simp: error_of_def split: sum.splits)
    with b(3) have "decodes out (pending rx' @ incoming w2) evs rest"
      using x by (auto simp: request_step_def elim!: result_of.elims)
    with True b e show ?thesis
      by (auto simp: within_timeout_def timeout_scope_exit_def intro: request_step_error)
  next
    case False
    with x b e show ?thesis
      by (auto simp: within_timeout_def timeout_scope_exit_def error_of_def split: sum.splits option.splits)
  qed
qed

lemma receive_request_step:
  assumes "scopes_keep incoming B" and "quiet_yield y"
    and "rxinv rx" and "decodes out (pending rx @ incoming w) evs rest"
  shows "\<exists>res rx' w'. receive_request B S y rx w = Some (res, rx', w') \<and> rxinv rx'
        \<and> request_step out filtered evs rest res (pending rx' @ incoming w')"
proof (cases "rcv y")
  case (Inl e)
  with assms show ?thesis
    by (cases y) (auto simp: receive_request_def rcv_def intro: request_step_error)
next
  case (Inr params)
  show ?thesis
  proof (cases "validate_optional_timeout_delay (rp_timeout params) True")
    case e: (Inl e)
    from validate_timeout_error [OF e] assms(3,4) Inr e show ?thesis
      by (auto simp: receive_request_def intro: request_step_error)
  next
    case t: (Inr t)
    let ?body = "case rp_recv_with_ancillary params of None \<Rightarrow> rs_next S rx
                 | Some data_received \<Rightarrow> rs_next_with_ancillary S data_received rx"
    have "quiet_yield (YieldParams params)"
      using assms(2) Inr by (cases y) (auto simp: rcv_def)
    then have body: "\<exists>res rx' w'. ?body w = Some (res, rx', w') \<and> rxinv rx'
        \<and> request_step out filtered evs rest res (pending rx' @ incoming w')"
      if "decodes out (pending rx @ incoming w) evs rest" for w
      using next_step [OF assms(3) that] next_ancillary_step [OF assms(3) that]
      by (cases "rp_recv_with_ancillary params") auto
    have "\<exists>res rx' w'. within_timeout B t ?body w = Some (res, rx', w') \<and> rxinv rx'
        \<and> request_step out filtered evs rest res (pending rx' @ incoming w')"
      using assms(1,4) body by (rule within_timeout_step)
    with body [OF assms(4)] Inr t show ?thesis
      by (simp add: receive_request_def Let_def)
  qed
qed

text \<open>
  What the handler has been given when the loop is at any pass, or has ended: the first events of the stream, in
  order.
\<close>

lemma client_loop_delivers:
  assumes "scopes_keep incoming B" and "handler_keeps incoming H"
    and "quiet_yield y" and "rxinv rx" and "decodes out (pending rx @ incoming w) evs rest"
  shows "\<exists>end inputs h' rx' w'. client_loop n B T H S y h rx w = Some (end, inputs, h', rx', w')
     \<and> delivered evs inputs (end = Stopped \<and> h' \<noteq> None \<and> \<not> filtered)"
  using assms(3-5)
proof (induction n arbitrary: y h rx w evs)
  case 0
  then show ?case by (simp add: delivered_Nil)
next
  case (Suc n)
  show ?case
  proof (cases "st_is_closing T w")
    case True
    then show ?thesis by (simp add: delivered_Nil)
  next
    case False
    from receive_request_step [OF assms(1) Suc.prems] obtain res rx1 w1 where
      r: "receive_request B S y rx w = Some (res, rx1, w1)" "rxinv rx1"
        "request_step out filtered evs rest res (pending rx1 @ incoming w1)" by blast
    show ?thesis
    proof (cases "res = Inl StopAsyncIteration")
      case True
      with r(3) have "filtered \<or> evs = []" by (auto simp: request_step_def elim!: result_of.elims)
      then show ?thesis using False True r(1) by (auto simp: delivered_Nil)
    next
      case res: False
      obtain o2 w2 where h: "rh_resume H res h w1 = (o2, w2)" by fastforce
      from handler_keepsD(3) [OF assms(2) h] have w2: "incoming w2 = incoming w1" "quiet_output o2" by auto
      from r(3) obtain evs' where
        step: "delivered evs' inputs e \<Longrightarrow> delivered evs (res # inputs) e" "decodes out (pending rx1 @ incoming w2) evs' rest"
        for inputs e
        unfolding request_step_def w2(1) using delivered_event delivered_other by metis
      have last: "delivered evs [res] False" by (rule step(1)) (simp add: delivered_Nil)
      show ?thesis
      proof (cases o2)
        case (Yields y' h')
        with w2 have "quiet_yield y'" by simp
        from Suc.IH [OF this r(2) step(2)] obtain en inputs h'' rx' w' where
          "client_loop n B T H S y' h' rx1 w2 = Some (en, inputs, h'', rx', w')"
          "delivered evs' inputs (en = Stopped \<and> h'' \<noteq> None \<and> \<not> filtered)" by blast
        with step(1) False res r(1) h Yields show ?thesis by auto
      qed (use last False res r(1) h in auto)
    qed
  qed
qed

end

section \<open>The server\<close>

text \<open>The checks of \<^verbatim>\<open>AsyncStreamServer.__init__\<close> and of \<^verbatim>\<open>serve\<close>.\<close>

definition stream_server_init :: "int \<Rightarrow> exc + nat" where
  "stream_server_init max_recv_size =
     (if max_recv_size \<le> 0 then Inl (ValueError '''max_recv_size' must be a strictly positive integer'')
      else Inr (nat max_recv_size))"

definition serve_ancillary_bufsize :: "int option \<Rightarrow> exc + nat option" where
  "serve_ancillary_bufsize bufsize =
     (case bufsize of
        None \<Rightarrow> Inr None
      | Some n \<Rightarrow>
          if n \<le> 0 then Inl (ValueError ''ancillary_bufsize must be a strictly positive integer'')
          else Inr (Some (nat n)))"

text \<open>
  What the coroutine of a client runs for each of the two kinds of protocol.  \<open>n\<close> bounds the passes of its loop,
  the receive loops have a pass for every byte to come and one more.
\<close>

definition request_receiver_clear :: "'k request_receiver \<Rightarrow> 'k request_receiver" where
  "request_receiver_clear r = r\<lparr>rr_consumer := stream_consumer_clear (rr_consumer r)\<rparr>"

definition buffered_request_receiver_clear :: "'k buffered_request_receiver \<Rightarrow> 'k buffered_request_receiver" where
  "buffered_request_receiver_clear r = r\<lparr>brr_consumer := buffered_consumer_clear (brr_consumer r)\<rparr>"

definition serve_client ::
  "nat \<Rightarrow> ('w \<Rightarrow> bytes) \<Rightarrow> 'w backend \<Rightarrow> ('a, 'w) stream_transport \<Rightarrow> ('r, 'a, 'h, 'w) request_handler
     \<Rightarrow> (unit, 'r \<times> bytes, exc, 'k) gen_step \<Rightarrow> ('k \<Rightarrow> bytes \<Rightarrow> (unit, 'r \<times> bytes, exc, 'k) gen_step)
     \<Rightarrow> nat \<Rightarrow> nat option \<Rightarrow> (exc \<Rightarrow> bool) option \<Rightarrow> 'w \<Rightarrow> ('r, 'k request_receiver, 'w) client_end option"
where
  "serve_client n incoming B T H start send max_recv_size ancillary_bufsize error_filter w =
     client_coroutine n B T H (data_request_source (\<lambda>w. length (incoming w) + 1) B T start send)
       request_receiver_clear
       \<lparr>rr_consumer = stream_consumer_init, rr_max_recv_size = max_recv_size,
        rr_ancillary_bufsize = ancillary_bufsize, rr_disconnect_error_filter = error_filter\<rparr> w"

definition serve_client_buffered ::
  "nat \<Rightarrow> ('w \<Rightarrow> bytes) \<Rightarrow> 'w backend \<Rightarrow> ('a, 'w) stream_transport \<Rightarrow> ('r, 'a, 'h, 'w) request_handler
     \<Rightarrow> ('r, 'k) buffered_protocol \<Rightarrow> nat \<Rightarrow> nat option \<Rightarrow> (exc \<Rightarrow> bool) option \<Rightarrow> 'w
     \<Rightarrow> ('r, 'k buffered_request_receiver, 'w) client_end option"
where
  "serve_client_buffered n incoming B T H P max_recv_size ancillary_bufsize error_filter w =
     (case buffered_consumer_init (int max_recv_size) of
        Inl e \<Rightarrow> Some (end_client B T buffered_request_receiver_clear [] False (Some e, w) None)
      | Inr c \<Rightarrow>
          client_coroutine n B T H (buffered_request_source (\<lambda>w. length (incoming w) + 1) B T P)
            buffered_request_receiver_clear
            \<lparr>brr_consumer = c, brr_ancillary_bufsize = ancillary_bufsize,
             brr_disconnect_error_filter = error_filter\<rparr> w)"

section \<open>The whole coroutine\<close>

text \<open>Handlers that end on an error they do not expect, and handlers that serve as long as there are requests.\<close>

definition lets_errors_through :: "('r, 'a, 'h, 'w) request_handler \<Rightarrow> bool" where
  "lets_errors_through H \<longleftrightarrow>
     (\<forall>e h w y h'. \<not> is_StreamProtocolParseError e \<longrightarrow> fst (rh_resume H (Inl e) h w) \<noteq> Yields y h')"

definition serves_on :: "('r, 'a, 'h, 'w) request_handler \<Rightarrow> bool" where
  "serves_on H \<longleftrightarrow> (\<forall>i h w. fst (rh_resume H i h w) \<noteq> Stops)"

lemma client_loop_stopped:
  assumes "client_loop n B T H S y h rx w = Some (Stopped, inputs, None, rx', w')"
  shows "\<not> serves_on H"
  using assms
proof (induction n arbitrary: y h rx w inputs)
  case (Suc n)
  show ?case
  proof
    assume H: "serves_on H"
    then have "rh_resume H i h w \<noteq> (Stops, w1)" for i h w w1
      unfolding serves_on_def by (metis fst_conv)
    with Suc H show False
      by (auto split: if_splits option.splits prod.splits handler_output.splits)
  qed
qed simp

lemma end_client_simps [simp]:
  "ce_inputs (end_client B T clear inputs g body rx) = inputs"
  "ce_gracefully (end_client B T clear inputs g body rx) = g"
  "ce_receiver (end_client B T clear inputs g body rx) = map_option clear rx"
  by (simp_all add: end_client_def split: prod.split)

context request_contract
begin

text \<open>The loop ends within as many passes as there are events, and one more.\<close>

lemma client_loop_ends:
  assumes "scopes_keep incoming B" and "handler_keeps incoming H" and "lets_errors_through H"
    and "quiet_yield y" and "rxinv rx" and "decodes out (pending rx @ incoming w) evs rest" and "length evs < n"
  shows "\<exists>end x. client_loop n B T H S y h rx w = Some (end, x) \<and> end \<noteq> Running"
  using assms(4-)
proof (induction n arbitrary: y h rx w evs)
  case (Suc n)
  from receive_request_step [OF assms(1) Suc.prems(1-3)] obtain res rx1 w1 where
    r: "receive_request B S y rx w = Some (res, rx1, w1)" "rxinv rx1"
      "request_step out filtered evs rest res (pending rx1 @ incoming w1)" by blast
  obtain o2 w2 where h: "rh_resume H res h w1 = (o2, w2)" by fastforce
  from handler_keepsD(3) [OF assms(2) h] have w2: "incoming w2 = incoming w1" "quiet_output o2" by auto
  show ?case
  proof (cases "st_is_closing T w \<or> res = Inl StopAsyncIteration \<or> (\<nexists>y' h'. o2 = Yields y' h')")
    case True
    with r h show ?thesis by (cases o2) auto
  next
    case False
    then obtain y' h' where o2: "o2 = Yields y' h'" by blast
    have "\<exists>ev evs'. evs = ev # evs' \<and> decodes out (pending rx1 @ incoming w2) evs' rest"
      using r(3) assms(3) h o2 unfolding request_step_def lets_errors_through_def w2(1) by (metis fst_conv)
    then obtain ev evs' where evs: "evs = ev # evs'" "decodes out (pending rx1 @ incoming w2) evs' rest" by blast
    have "quiet_yield y'" using w2 o2 by simp
    from Suc.IH [OF this r(2) evs(2)] Suc.prems(4) evs(1) obtain en x where
      "client_loop n B T H S y' h' rx1 w2 = Some (en, x)" "en \<noteq> Running" by fastforce
    with False r h o2 show ?thesis by (cases x) auto
  qed
qed simp

lemma client_coroutine_delivers:
  assumes "scopes_keep incoming B" and "handler_keeps incoming H"
    and "rxinv rx" and "decodes out (pending rx @ incoming w) evs rest"
  shows "(lets_errors_through H \<and> length evs < n \<longrightarrow> client_coroutine n B T H S clear rx w \<noteq> None)
    \<and> (\<forall>ce. client_coroutine n B T H S clear rx w = Some ce \<longrightarrow>
         delivered evs (ce_inputs ce) (ce_gracefully ce \<and> serves_on H \<and> \<not> filtered))"
proof -
  have none: "delivered evs [] (False \<and> X)" for X by (simp add: delivered_Nil)
  obtain c w1 where c: "rh_connect H w = (c, w1)" by fastforce
  show ?thesis
  proof (cases c)
    case (Inl e)
    with c none show ?thesis by (simp add: client_coroutine_def)
  next
    case (Inr h)
    obtain o1 w2 where a: "rh_anext H h w1 = (o1, w2)" by fastforce
    show ?thesis
    proof (cases o1)
      case (Yields y h')
      have w2: "incoming w2 = incoming w" and y: "quiet_yield y"
        using handler_keepsD(1) [OF assms(2) c] handler_keepsD(2) [OF assms(2) a] Yields by auto
      have dec: "decodes out (pending rx @ incoming w2) evs rest" using assms(4) w2 by simp
      from client_loop_delivers [OF assms(1,2) y assms(3) dec] obtain en inputs h'' rx' w3 where
        l: "client_loop n B T H S y h' rx w2 = Some (en, inputs, h'', rx', w3)"
          "delivered evs inputs (en = Stopped \<and> h'' \<noteq> None \<and> \<not> filtered)" by blast
      have "en = Stopped \<and> h'' \<noteq> None" if "en = Stopped" "serves_on H"
        using client_loop_stopped [of n B T H S y h' rx w2 inputs rx' w3] l(1) that by (cases h'') auto
      with l(2) have "delivered evs inputs (en = Stopped \<and> serves_on H \<and> \<not> filtered)"
        unfolding delivered_def by blast
      moreover have "en \<noteq> Running" if "lets_errors_through H" "length evs < n"
        using client_loop_ends [OF assms(1,2) that(1) y assms(3) dec that(2), of T h'] l(1) by auto
      ultimately show ?thesis using c Inr a Yields l(1) by (auto simp: client_coroutine_def)
    qed (use c Inr a none in \<open>simp_all add: client_coroutine_def\<close>)
  qed
qed

end

section \<open>Cleaning up\<close>

text \<open>
  \<open>over w\<close>: in the world \<open>w\<close> no generator of the application is suspended.  The laws of generators: one that
  returned or raised is over, and so is one that was closed.
\<close>

definition generator_laws :: "('w \<Rightarrow> bool) \<Rightarrow> ('r, 'a, 'h, 'w) request_handler \<Rightarrow> bool" where
  "generator_laws over H \<longleftrightarrow>
     (\<forall>w e w'. rh_connect H w = (Inl e, w') \<longrightarrow> over w') \<and>
     (\<forall>h w out w'. rh_anext H h w = (out, w') \<longrightarrow> over w' \<or> (\<exists>y h'. out = Yields y h')) \<and>
     (\<forall>i h w out w'. rh_resume H i h w = (out, w') \<longrightarrow> over w' \<or> (\<exists>y h'. out = Yields y h')) \<and>
     (\<forall>h w. over (snd (rh_aclose H h w)))"

lemma client_loop_over:
  assumes "generator_laws over H" and "client_loop n B T H S y h rx w = Some (en, inputs, None, rx', w')"
  shows "over w'"
  using assms(2)
proof (induction n arbitrary: y h rx w inputs)
  case (Suc n)
  have "over w2" if "rh_resume H i h w1 = (Stops, w2) \<or> rh_resume H i h w1 = (Raises e, w2)" for i w1 w2 e
    using assms(1) that unfolding generator_laws_def by blast
  with Suc show ?case
    by (auto split: if_splits option.splits prod.splits handler_output.splits)
qed simp

lemma close_generator_over:
  assumes "generator_laws over H" and "h = None \<Longrightarrow> over w"
  shows "over (snd (close_generator H h exc w))"
proof (cases h)
  case (Some h')
  have "over (snd (rh_aclose H h' w))" using assms(1) by (simp add: generator_laws_def)
  then show ?thesis using Some by (auto simp: close_generator_def split: prod.split option.split)
qed (use assms(2) in \<open>simp add: close_generator_def\<close>)

lemma unhandled_exception_raised: "pred_option (\<lambda>e. \<not> is_Exception e) (snd (unhandled_exception_log exc))"
  by (auto simp: unhandled_exception_log_def split: option.split)

lemma end_client_clean:
  assumes "closes (st_is_closing T) (st_aclose T)" and "scopes_keep (st_is_closing T) B"
    and "stays_closed over (st_aclose T)" and "scopes_keep over B" and "over (snd body)"
  shows "st_is_closing T (ce_world (end_client B T clear inputs g body rx))
    \<and> over (ce_world (end_client B T clear inputs g body rx))
    \<and> pred_option (\<lambda>e. \<not> is_Exception e) (ce_raised (end_client B T clear inputs g body rx))"
proof -
  let ?close = "if g then st_aclose T else aclose_forcefully B (st_aclose T)"
  obtain r w' where c: "?close (snd body) = (r, w')" by fastforce
  have "closes (st_is_closing T) ?close" "stays_closed over ?close"
    using assms aclose_forcefully_closes [OF assms(2,1)] aclose_forcefully_stays_closed [OF assms(4,3)] by auto
  then have "st_is_closing T w'" "over w'"
    using c assms(5) unfolding closes_def stays_closed_def by (metis snd_conv)+
  moreover obtain exc where x: "close_client_transport B T g (fst body) (snd body) = (exc, w')"
    using c by (cases r) (auto simp: close_client_transport_def split: if_splits)
  ultimately show ?thesis
    using unhandled_exception_raised [of exc] by (auto simp: end_client_def x split: prod.split)
qed

end
