(* ===== verification/AsyncStreams.thy ===== *)
theory AsyncStreams
  imports Streams AsyncStreamServer
begin

text \<open>
  The asynchronous endpoint and the stream server with the serializers of the library: what \<^verbatim>\<open>recv_packet\<close>
  returns, and which requests the handler of the application is given, for both receive paths.
\<close>

section \<open>A connected client\<close>

text \<open>
  A world for the examples and for the interpretations: the network of \<open>Streams\<close>, whether the transport is closed,
  the packets sent to the client, and whether a generator of the application is suspended.
\<close>

record client_world =
  cw_net :: net
  cw_closed :: bool
  cw_sent :: "bytes list"
  cw_suspended :: bool

definition cw_incoming :: "client_world \<Rightarrow> bytes" where
  "cw_incoming w = net_incoming (cw_net w)"

definition client_transport :: "(unit, client_world) stream_transport" where
  "client_transport =
     \<lparr>st_recv = (\<lambda>n w. case net_recv n Infinity (cw_net w) of (r, m) \<Rightarrow> (r, w\<lparr>cw_net := m\<rparr>)),
      st_recv_with_ancillary = (\<lambda>n k w.
        case net_recv n Infinity (cw_net w) of
          (Inl e, m) \<Rightarrow> (Inl e, w\<lparr>cw_net := m\<rparr>)
        | (Inr d, m) \<Rightarrow> (Inr (d, ()), w\<lparr>cw_net := m\<rparr>)),
      st_send_all = (\<lambda>d w. (None, w\<lparr>cw_sent := cw_sent w @ [d]\<rparr>)),
      st_send_all_with_ancillary = (\<lambda>cs a w. (None, w\<lparr>cw_sent := cw_sent w @ fst cs\<rparr>)),
      st_send_eof = (\<lambda>w. (None, w)),
      st_is_closing = cw_closed,
      st_aclose = (\<lambda>w. (None, w\<lparr>cw_closed := True\<rparr>))\<rparr>"

lemma client_transport_simps [simp]:
  "st_recv client_transport n w = (case net_recv n Infinity (cw_net w) of (r, m) \<Rightarrow> (r, w\<lparr>cw_net := m\<rparr>))"
  "st_is_closing client_transport = cw_closed"
  "st_aclose client_transport w = (None, w\<lparr>cw_closed := True\<rparr>)"
  by (simp_all add: client_transport_def)

lemma stream_source_client: "stream_source cw_incoming (\<lambda>n t. st_recv client_transport n)"
  unfolding stream_source_def
proof (intro allI impI)
  fix n t w r w'
  assume "0 < n" and "st_recv client_transport n w = (r, w')"
  then obtain m where "net_recv n Infinity (cw_net w) = (r, m)" "w' = w\<lparr>cw_net := m\<rparr>"
    by (auto split: prod.splits)
  with stream_source_net \<open>0 < n\<close>
  show "case r of Inl e \<Rightarrow> \<not> is_StreamProtocolParseError e \<and> cw_incoming w' = cw_incoming w
      | Inr c \<Rightarrow> length c \<le> n \<and> cw_incoming w = c @ cw_incoming w' \<and> (c = [] \<longrightarrow> cw_incoming w = [])"
    unfolding stream_source_def cw_incoming_def by fastforce
qed

lemma net_recv_error: "net_recv n t w = (Inl e, w') \<Longrightarrow> e = error_from_errno ''ETIMEDOUT''"
  by (auto simp: net_recv_def Let_def split: list.splits if_splits)

lemma client_stream_client: "client_stream cw_incoming client_transport"
  unfolding client_stream_def
proof (intro conjI allI)
  show "stream_source cw_incoming (\<lambda>n t. st_recv client_transport n)" by (rule stream_source_client)
  have "without_ancillary (st_recv_with_ancillary client_transport n m) = st_recv client_transport n" for n m
    by (auto simp: without_ancillary_def client_transport_def fun_eq_iff split: prod.split sum.split)
  then show "stream_source cw_incoming
      (\<lambda>n t. without_ancillary (st_recv_with_ancillary client_transport n m))" for m
    using stream_source_client by simp
  show "st_recv client_transport n w \<noteq> (Inl StopAsyncIteration, w')" for n w w'
    by (auto dest: net_recv_error simp: error_from_errno_def split: prod.splits)
  show "st_recv_with_ancillary client_transport n m w \<noteq> (Inl StopAsyncIteration, w')" for n m w w'
    by (auto dest: net_recv_error simp: client_transport_def error_from_errno_def split: prod.splits sum.splits)
qed

text \<open>A handler that echoes every request, ignores malformed ones and ends on any other error.\<close>

definition echo_handler :: "(bytes, unit, unit, client_world) request_handler" where
  "echo_handler =
     \<lparr>rh_connect = (\<lambda>w. (Inr (), w)),
      rh_anext = (\<lambda>h w. (Yields YieldNone (), w\<lparr>cw_suspended := True\<rparr>)),
      rh_resume = (\<lambda>i h w.
        case i of
          Inr request \<Rightarrow> (Yields YieldNone (), w\<lparr>cw_sent := cw_sent w @ [request]\<rparr>)
        | Inl e \<Rightarrow> if is_StreamProtocolParseError e then (Yields YieldNone (), w)
                   else (Raises e, w\<lparr>cw_suspended := False\<rparr>)),
      rh_aclose = (\<lambda>h w. (None, w\<lparr>cw_suspended := False\<rparr>))\<rparr>"

lemma echo_handler_laws:
  "handler_keeps cw_incoming echo_handler" "lets_errors_through echo_handler" "serves_on echo_handler"
  "generator_laws (\<lambda>w. \<not> cw_suspended w) echo_handler"
  by (auto simp: handler_keeps_def lets_errors_through_def serves_on_def generator_laws_def echo_handler_def
        cw_incoming_def split: sum.splits if_splits)

section \<open>The contracts on the default line serializer\<close>

interpretation default_async_receiver: packet_receiver "protocol_out str_converter (line_out default_line)"
  "\<lambda>t r w. async_data_receive (length (cw_incoming w) + 2) client_transport
     (build_packet_start str_converter (line_deserialize_start default_line))
     (build_packet_send str_converter (line_deserialize_send default_line)) r w"
  "dr_inv (protocol_out str_converter (line_out default_line)) (until_wf [CHR 0x0A] 65536) until_received"
  dr_eof_reached "\<lambda>r. sc_pending until_received (dr_consumer r)" cw_incoming
  using stream_protocol.packet_receiver_async_data [OF default_protocol.stream_protocol_axioms stream_source_client] .

interpretation default_requests: request_contract "protocol_out str_converter (line_out default_line)"
  "data_request_source (\<lambda>w. length (cw_incoming w) + 1) suppressing_backend client_transport
     (build_packet_start str_converter (line_deserialize_start default_line))
     (build_packet_send str_converter (line_deserialize_send default_line))"
  "rr_inv (protocol_out str_converter (line_out default_line)) (until_wf [CHR 0x0A] 65536) until_received False"
  "\<lambda>r. sc_pending until_received (rr_consumer r)" cw_incoming False
  using stream_protocol.request_contract_data [OF default_protocol.stream_protocol_axioms client_stream_client
      scopes_keep_suppressing] .

interpretation default_buffered_requests: request_contract "protocol_out str_converter (line_buffered_out default_line)"
  "buffered_request_source (\<lambda>w. length (cw_incoming w) + 1) suppressing_backend client_transport
     (parser_protocol (line_create_buffer default_line)
       (\<lambda>b. build_packet_start str_converter (line_buffered_start default_line b))
       (build_packet_send str_converter (line_buffered_send default_line)))"
  "brr_inv (protocol_out str_converter (line_buffered_out default_line)) (buffered_until_wf [CHR 0x0A] 65536)
     buffered_until_pos buffered_until_received 8192 65536 False"
  "\<lambda>r. bc_pending buffered_until_pos buffered_until_received (brr_consumer r)" cw_incoming False
  using buffered_packets.request_contract_buffered [OF default_packets.buffered_packets_axioms client_stream_client
      scopes_keep_suppressing] .

section \<open>Properties\<close>

text \<open>A server with a separator-framed serializer.\<close>

abbreviation serve_separated where
  "serve_separated n incoming B T H conv a \<equiv>
     serve_client n incoming B T H (build_packet_start conv (auto_deserialize_start a))
       (build_packet_send conv (auto_deserialize_send a))"

abbreviation serve_separated_buffered where
  "serve_separated_buffered n incoming B T H conv a \<equiv>
     serve_client_buffered n incoming B T H
       (buffered_stream_protocol conv (auto_create_buffer a) (auto_buffered_start a) (auto_buffered_send a))"

text \<open>
  C8: the stream server gives the handler of a client, however the reception is cut, timed out or cancelled, the requests and
  parse errors the stream of the client decodes to: in order, none lost, none twice.  The handler may do what it likes
  with them as long as it does not read from the transport itself and its callbacks for ancillary data do not raise (\<open>handler_keeps\<close>).  It gets all of them when the coroutine stops
  because the stream ended, provided the handler never returns by itself (\<open>serves_on\<close>) and no error of the transport is
  filtered as a disconnection.  The coroutine returns, in as many passes as there are events and one more, when the handler ends at
  every error other than a parse error (\<open>lets_errors_through\<close>).
\<close>

theorem server_hands_requests:
  assumes "as_separator a \<noteq> []" and "0 < as_limit a" and "client_stream incoming T" and "scopes_keep incoming B"
    and "handler_keeps incoming H" and "0 < max_recv_size"
    and "decodes (protocol_out conv (auto_out a)) (incoming w) evs rest"
  shows "(lets_errors_through H \<and> length evs < n \<longrightarrow>
         serve_separated n incoming B T H conv a max_recv_size ancillary_bufsize error_filter w \<noteq> None)
    \<and> (\<forall>ce. serve_separated n incoming B T H conv a max_recv_size ancillary_bufsize error_filter w = Some ce \<longrightarrow>
         delivered evs (ce_inputs ce) (ce_gracefully ce \<and> serves_on H \<and> error_filter = None))"
proof -
  note proto = stream_protocol_auto [OF assms(1,2), of conv]
  let ?r = "\<lparr>rr_consumer = stream_consumer_init, rr_max_recv_size = max_recv_size,
             rr_ancillary_bufsize = ancillary_bufsize, rr_disconnect_error_filter = error_filter\<rparr>"
  have inv: "rr_inv (protocol_out conv (auto_out a)) (until_wf (as_separator a) (as_limit a)) until_received
      (error_filter \<noteq> None) ?r"
    using assms(6) stream_parser.sc_inv_init [OF stream_protocol.axioms(1) [OF proto]] by (simp add: rr_inv_def)
  have "decodes (protocol_out conv (auto_out a)) (sc_pending until_received (rr_consumer ?r) @ incoming w) evs rest"
    using assms(7) by simp
  from request_contract.client_coroutine_delivers [OF stream_protocol.request_contract_data [OF proto assms(3,4)]
      assms(4,5) inv this, where T = T and clear = request_receiver_clear and n = n]
  show ?thesis by (simp add: serve_client_def)
qed

theorem server_hands_requests_witness:
  "\<exists>ce. serve_separated 3 cw_incoming suppressing_backend client_transport echo_handler bytes_converter plain_separated
        3 None None \<lparr>cw_net = \<lparr>net_incoming = ''ab|cd|e'', net_script = [1, 2]\<rparr>, cw_closed = False, cw_sent = [],
                     cw_suspended = False\<rparr> = Some ce
     \<and> delivered [Inr ''ab'', Inr ''cd''] (ce_inputs ce) (ce_gracefully ce)"
proof -
  let ?w = "\<lparr>cw_net = \<lparr>net_incoming = ''ab|cd|e'', net_script = [1, 2]\<rparr>, cw_closed = False, cw_sent = [],
             cw_suspended = False\<rparr>"
  let ?serve = "serve_separated 3 cw_incoming suppressing_backend client_transport echo_handler bytes_converter
      plain_separated 3 None None ?w"
  have dec: "decodes (protocol_out bytes_converter (auto_out plain_separated)) (cw_incoming ?w)
      [Inr ''ab'', Inr ''cd''] ''e''"
    using plain_example_decodes by (simp add: cw_incoming_def)
  have c: "lets_errors_through echo_handler \<and> length [Inr ''ab'', Inr ''cd'' :: exc + bytes] < 3" "0 < (3 :: nat)"
    "as_separator plain_separated \<noteq> []" "0 < as_limit plain_separated"
    "int (length (as_separator plain_separated)) \<le> as_limit plain_separated"
    using echo_handler_laws(2) by simp_all
  note * = server_hands_requests [where a = plain_separated and incoming = cw_incoming and T = client_transport
      and B = suppressing_backend and H = echo_handler and max_recv_size = 3 and conv = bytes_converter and w = ?w
      and n = 3 and ancillary_bufsize = None and error_filter = None,
      OF c(3,4) client_stream_client scopes_keep_suppressing echo_handler_laws(1) c(2) dec]
  from conjunct1 [OF *] c(1) obtain ce where ce: "?serve = Some ce" by blast
  with conjunct2 [OF *] echo_handler_laws(3) have "delivered [Inr ''ab'', Inr ''cd''] (ce_inputs ce) (ce_gracefully ce)"
    by simp
  with ce show ?thesis by blast
qed

text \<open>
  the server of a protocol that is received into a buffer does the same, for every request that ends before the
  last byte of the buffer.
\<close>

theorem server_hands_requests_buffered:
  assumes "as_separator a \<noteq> []" and "int (length (as_separator a)) \<le> as_limit a" and "client_stream incoming T"
    and "scopes_keep incoming B" and "handler_keeps incoming H" and "0 < max_recv_size"
    and "decodes (protocol_out conv (auto_buffered_out a)) (incoming w) evs rest"
  shows "(lets_errors_through H \<and> length evs < n \<longrightarrow>
         serve_separated_buffered n incoming B T H conv a max_recv_size ancillary_bufsize error_filter w \<noteq> None)
    \<and> (\<forall>ce. serve_separated_buffered n incoming B T H conv a max_recv_size ancillary_bufsize error_filter w = Some ce \<longrightarrow>
         delivered evs (ce_inputs ce) (ce_gracefully ce \<and> serves_on H \<and> error_filter = None))"
proof -
  note packets = buffered_packets_auto [OF assms(1,2), of conv "int max_recv_size"]
  from assms(6) obtain c :: "buffered_until_frame buffered_consumer" where c: "buffered_consumer_init (int max_recv_size) = Inr c"
    by (auto simp: buffered_consumer_init_def)
  let ?r = "\<lparr>brr_consumer = c, brr_ancillary_bufsize = ancillary_bufsize, brr_disconnect_error_filter = error_filter\<rparr>"
  have inv: "brr_inv (protocol_out conv (auto_buffered_out a)) (buffered_until_wf (as_separator a) (nat (as_limit a)))
      buffered_until_pos buffered_until_received (int max_recv_size) (nat (as_limit a)) (error_filter \<noteq> None) ?r"
    by (simp add: brr_inv_def bc_inv_init [OF c])
  have "decodes (protocol_out conv (auto_buffered_out a))
      (bc_pending buffered_until_pos buffered_until_received (brr_consumer ?r) @ incoming w) evs rest"
    using assms(7) by (simp add: bc_inv_init [OF c])
  from request_contract.client_coroutine_delivers [OF buffered_packets.request_contract_buffered [OF packets assms(3,4)]
      assms(4,5) inv this, where T = T and clear = buffered_request_receiver_clear and n = n]
  show ?thesis by (simp add: serve_client_buffered_def buffered_stream_protocol_def c)
qed

theorem server_hands_requests_buffered_witness:
  "\<exists>ce. serve_separated_buffered 3 cw_incoming suppressing_backend client_transport echo_handler bytes_converter
        plain_separated 8 None None \<lparr>cw_net = \<lparr>net_incoming = ''ab|cd|e'', net_script = [1, 2]\<rparr>, cw_closed = False,
                     cw_sent = [], cw_suspended = False\<rparr> = Some ce
     \<and> delivered [Inr ''ab'', Inr ''cd''] (ce_inputs ce) (ce_gracefully ce)"
proof -
  let ?w = "\<lparr>cw_net = \<lparr>net_incoming = ''ab|cd|e'', net_script = [1, 2]\<rparr>, cw_closed = False, cw_sent = [],
             cw_suspended = False\<rparr>"
  let ?serve = "serve_separated_buffered 3 cw_incoming suppressing_backend client_transport echo_handler bytes_converter
      plain_separated 8 None None ?w"
  have dec: "decodes (protocol_out bytes_converter (auto_buffered_out plain_separated)) (cw_incoming ?w)
      [Inr ''ab'', Inr ''cd''] ''e''"
    using plain_buffered_example by (simp add: cw_incoming_def)
  have c: "lets_errors_through echo_handler \<and> length [Inr ''ab'', Inr ''cd'' :: exc + bytes] < 3" "0 < (8 :: nat)"
    "as_separator plain_separated \<noteq> []" "0 < as_limit plain_separated"
    "int (length (as_separator plain_separated)) \<le> as_limit plain_separated"
    using echo_handler_laws(2) by simp_all
  note * = server_hands_requests_buffered [where a = plain_separated and incoming = cw_incoming and T = client_transport
      and B = suppressing_backend and H = echo_handler and max_recv_size = 8 and conv = bytes_converter and w = ?w
      and n = 3 and ancillary_bufsize = None and error_filter = None,
      OF c(3,5) client_stream_client scopes_keep_suppressing echo_handler_laws(1) c(2) dec]
  from conjunct1 [OF *] c(1) obtain ce where ce: "?serve = Some ce" by blast
  with conjunct2 [OF *] echo_handler_laws(3) have "delivered [Inr ''ab'', Inr ''cd''] (ce_inputs ce) (ce_gracefully ce)"
    by simp
  with ce show ?thesis by blast
qed

text \<open>
  an asynchronous endpoint returns from a sequence of \<^verbatim>\<open>recv_packet\<close> calls, over a transport that cuts the stream
  anywhere and may fail or be cancelled at any call, the packets and parse errors the stream decodes to: in order,
  none lost, none twice, all of them by the time the end is reported; and it leaves its guard free.
\<close>

theorem async_endpoint_delivers:
  assumes "as_separator a \<noteq> []" and "0 < as_limit a" and "stream_source incoming (\<lambda>n t. st_recv T n)"
    and "async_endpoint_init (data_receiver_init n) = Inr ep"
    and "decodes (protocol_out conv (auto_out a)) (incoming w) evs rest"
  shows "\<exists>rs ep' w'. receive_calls (\<lambda>t ep w. async_recv_packet (\<lambda>r w. async_data_receive (length (incoming w) + 2) T
               (build_packet_start conv (auto_deserialize_start a)) (build_packet_send conv (auto_deserialize_send a)) r w)
               ep w) ts ep w = Some (rs, ep', w')
      \<and> length rs = length ts \<and> delivered evs rs (dr_eof_reached (ae_receiver ep'))
      \<and> \<not> rg_held (ae_recv_guard ep')"
proof -
  note proto = stream_protocol_auto [OF assms(1,2), of conv]
  from assms(4) obtain r where r: "data_receiver_init n = Inr r" and ep: "ae_receiver ep = r"
    and free: "\<not> rg_held (ae_recv_guard ep)"
    by (auto simp: async_endpoint_init_def result_bind_def split: sum.splits)
  note init = data_receiver_init_inv [OF proto r]
  note contract = packet_receiver_guarded [OF stream_protocol.packet_receiver_async_data [OF proto assms(3)]]
  have "decodes (protocol_out conv (auto_out a)) (sc_pending until_received (dr_consumer (ae_receiver ep))
      @ (if dr_eof_reached (ae_receiver ep) then [] else incoming w)) evs rest"
    using init assms(5) ep by simp
  from packet_receiver.receive_calls_delivery [OF contract _ this, of ts] init ep free obtain rs ep' w' d td where
    "receive_calls (\<lambda>t ep w. async_recv_packet (\<lambda>r w. async_data_receive (length (incoming w) + 2) T
         (build_packet_start conv (auto_deserialize_start a)) (build_packet_send conv (auto_deserialize_send a)) r w)
         ep w) ts ep w = Some (rs, ep', w')" "evs = d @ td" "list_all2 result_of d (filter is_delivery rs)"
    "length rs = length ts" "dr_eof_reached (ae_receiver ep') \<longrightarrow> td = []" "\<not> rg_held (ae_recv_guard ep')" by blast
  then show ?thesis unfolding delivered_def by blast
qed

theorem async_endpoint_delivers_witness:
  "\<exists>rs ep' w'. receive_calls (\<lambda>t ep w. async_recv_packet (\<lambda>r w. async_data_receive (length (cw_incoming w) + 2)
               client_transport (build_packet_start bytes_converter (auto_deserialize_start plain_separated))
               (build_packet_send bytes_converter (auto_deserialize_send plain_separated)) r w) ep w)
        [Infinity, Infinity]
        \<lparr>ae_send_guard = \<lparr>rg_held = False, rg_msg = ''another task is currently sending data on this endpoint''\<rparr>,
         ae_recv_guard = \<lparr>rg_held = False, rg_msg = ''another task is currently receving data on this endpoint''\<rparr>,
         ae_eof_sent = False,
         ae_receiver = \<lparr>dr_consumer = stream_consumer_init, dr_max_recv_size = 3, dr_eof_reached = False\<rparr>\<rparr>
        \<lparr>cw_net = \<lparr>net_incoming = ''ab|cd|e'', net_script = [1, 0, 2]\<rparr>, cw_closed = False, cw_sent = [],
         cw_suspended = False\<rparr> = Some (rs, ep', w')
      \<and> length rs = length [Infinity, Infinity]
      \<and> delivered [Inr ''ab'', Inr ''cd''] rs (dr_eof_reached (ae_receiver ep'))
      \<and> \<not> rg_held (ae_recv_guard ep')"
proof (rule async_endpoint_delivers [where n = 3, OF _ _ stream_source_client])
  show "decodes (protocol_out bytes_converter (auto_out plain_separated))
      (cw_incoming \<lparr>cw_net = \<lparr>net_incoming = ''ab|cd|e'', net_script = [1, 0, 2]\<rparr>, cw_closed = False, cw_sent = [],
         cw_suspended = False\<rparr>) [Inr ''ab'', Inr ''cd''] ''e''"
    using plain_example_decodes by (simp add: cw_incoming_def)
qed (simp_all add: async_endpoint_init_def result_bind_def data_receiver_init_def check_max_recv_size_value_def)

text \<open>
  C9: however the coroutine of a client ends (the peer closed the stream, the handler returned, raised or was
  cancelled, the transport failed, closing failed), the transport is closed, the generator of the
  application is over, the consumer is cleared, and nothing reaches the task group of the server but an exception that is
  no \<^verbatim>\<open>Exception\<close> (a cancellation, \<^verbatim>\<open>GeneratorExit\<close>, \<^verbatim>\<open>KeyboardInterrupt\<close>, \<^verbatim>\<open>SystemExit\<close>).
\<close>

theorem client_coroutine_cleans_up:
  assumes "client_coroutine n B T H S clear rx w = Some ce"
    and "closes (st_is_closing T) (st_aclose T)" and "scopes_keep (st_is_closing T) B"
    and "generator_laws over H" and "stays_closed over (st_aclose T)" and "scopes_keep over B"
  shows "st_is_closing T (ce_world ce) \<and> over (ce_world ce) \<and> (\<exists>rx'. ce_receiver ce = Some (clear rx'))
    \<and> pred_option (\<lambda>e. \<not> is_Exception e) (ce_raised ce)"
proof -
  note clean = end_client_clean [OF assms(2,3,5,6)]
  obtain c w1 where c: "rh_connect H w = (c, w1)" by fastforce
  show ?thesis
  proof (cases c)
    case (Inl e)
    then have "over w1" using c assms(4) unfolding generator_laws_def by blast
    with Inl c assms(1) clean [of "(Some e, w1)"] show ?thesis by (auto simp: client_coroutine_def)
  next
    case (Inr h)
    obtain o1 w2 where a: "rh_anext H h w1 = (o1, w2)" by fastforce
    show ?thesis
    proof (cases o1)
      case (Yields y h')
      with c Inr a assms(1) obtain en inputs h'' rx' w3 where
        l: "client_loop n B T H S y h' rx w2 = Some (en, inputs, h'', rx', w3)"
        and ce: "ce = end_client B T clear inputs (en = Stopped) (close_generator H h'' (loop_error en) w3) (Some rx')"
        by (auto simp: client_coroutine_def split: option.splits if_splits)
      have "over w3" if "h'' = None" using client_loop_over [OF assms(4) l [unfolded that]] .
      then have "over (snd (close_generator H h'' (loop_error en) w3))" by (rule close_generator_over [OF assms(4)])
      from clean [OF this] show ?thesis by (auto simp: ce)
    next
      case Stops
      then have "over w2" using a assms(4) unfolding generator_laws_def by blast
      then have "over (snd (close_generator H None None w2))" by (simp add: close_generator_def)
      from clean [OF this, where clear = clear and inputs = "[]" and g = False and rx = "Some rx"] c Inr a Stops assms(1)
      show ?thesis by (auto simp: client_coroutine_def)
    next
      case (Raises e)
      then have "over w2" using a assms(4) unfolding generator_laws_def by blast
      then have "over (snd (close_generator H None (Some e) w2))" by (simp add: close_generator_def)
      from clean [OF this, where clear = clear and inputs = "[]" and g = False and rx = "Some rx"] c Inr a Raises assms(1)
      show ?thesis by (auto simp: client_coroutine_def)
    qed
  qed
qed

theorem client_coroutine_cleans_up_witness:
  "\<exists>ce. serve_separated 3 cw_incoming suppressing_backend client_transport echo_handler bytes_converter plain_separated
        3 None None \<lparr>cw_net = \<lparr>net_incoming = ''ab|'', net_script = [1, 0]\<rparr>, cw_closed = False, cw_sent = [],
                     cw_suspended = False\<rparr> = Some ce
     \<and> cw_closed (ce_world ce) \<and> \<not> cw_suspended (ce_world ce)"
proof -
  let ?serve = "serve_separated 3 cw_incoming suppressing_backend client_transport echo_handler bytes_converter
      plain_separated 3 None None \<lparr>cw_net = \<lparr>net_incoming = ''ab|'', net_script = [1, 0]\<rparr>, cw_closed = False,
        cw_sent = [], cw_suspended = False\<rparr>"
  have "map_option ce_gracefully ?serve = Some False" by code_simp
  then obtain ce where ce: "?serve = Some ce" by auto
  have "closes (st_is_closing client_transport) (st_aclose client_transport)"
    "stays_closed (\<lambda>w. \<not> cw_suspended w) (st_aclose client_transport)"
    by (simp_all add: closes_def stays_closed_def client_transport_def)
  with client_coroutine_cleans_up [OF ce [unfolded serve_client_def] _ scopes_keep_suppressing echo_handler_laws(4) _
      scopes_keep_suppressing] ce
  show ?thesis by auto
qed

end
