(* ===== verification/Wrappers.thy ===== *)
theory Wrappers
  imports LineSerializer
begin

text \<open>
  Serializers built on others: \<^verbatim>\<open>wrapper/base64.py\<close>, \<^verbatim>\<open>wrapper/compressor.py\<close>, \<^verbatim>\<open>composite.py\<close> and the struct
  serializers \<^verbatim>\<open>struct.py\<close>, all under \<^verbatim>\<open>src/src/easynetwork/serializers/\<close>.

  The codecs of the standard library they call (base64, sha256, zlib or bz2, \<^verbatim>\<open>struct.pack\<close>) are
  parameters; what a property needs of them is among its hypotheses.
\<close>

section \<open>Base64EncoderSerializer\<close>

record ('s, 'r) base64 =
  b64_serializer :: "('s, 'r) packet_serializer"
  b64_checksum :: "(bytes \<Rightarrow> bytes) option"
  b64_encode :: "bytes \<Rightarrow> bytes"
  b64_decode :: "bytes \<Rightarrow> exc + bytes"

definition binascii_error :: exc where
  "binascii_error = OtherError ''binascii.Error''"

definition base64_serialize :: "('s, 'r) base64 \<Rightarrow> 's \<Rightarrow> exc + bytes" where
  "base64_serialize b packet =
     result_bind (serialize (b64_serializer b) packet) (\<lambda>data.
       Inr (b64_encode b (case b64_checksum b of None \<Rightarrow> data | Some checksum \<Rightarrow> data @ checksum data)))"

definition base64_deserialize :: "('s, 'r) base64 \<Rightarrow> bytes \<Rightarrow> exc + 'r" where
  "base64_deserialize b token =
     (case b64_decode b token of
        Inl e \<Rightarrow> Inl (if e = binascii_error then DeserializeError ''Invalid token'' None else e)
      | Inr raw \<Rightarrow>
          (case b64_checksum b of
             None \<Rightarrow> deserialize (b64_serializer b) raw
           | Some checksum \<Rightarrow>
               let data = take (length raw - 32) raw; digest = drop (length raw - 32) raw in
               if checksum data \<noteq> digest then Inl (DeserializeError ''Invalid token'' None)
               else deserialize (b64_serializer b) data))"

text \<open>\<^verbatim>\<open>separator.isspace()\<close>.\<close>

definition isspace :: "bytes \<Rightarrow> bool" where
  "isspace b \<longleftrightarrow> b \<noteq> [] \<and> list_all (\<lambda>c. c \<in> {CHR '' '', CHR 0x09, CHR 0x0A, CHR 0x0B, CHR 0x0C, CHR 0x0D}) b"

definition base64_init ::
  "('s, 'r) base64 \<Rightarrow> bytes \<Rightarrow> int \<Rightarrow> bool \<Rightarrow> exc + ('s, 'r) auto_separated"
where
  "base64_init b separator limit debug =
     auto_separated_init separator (\<not> isspace separator) limit debug (base64_serialize b) (base64_deserialize b)"

section \<open>AbstractCompressorSerializer\<close>

record 'c compressor =
  co_new :: 'c
  co_compress :: "'c \<Rightarrow> bytes \<Rightarrow> bytes \<times> 'c"
  co_flush :: "'c \<Rightarrow> bytes"

record 'd decompressor =
  de_new :: 'd
  de_decompress :: "'d \<Rightarrow> bytes \<Rightarrow> exc + bytes \<times> 'd"
  de_eof :: "'d \<Rightarrow> bool"
  de_unused_data :: "'d \<Rightarrow> bytes"

record ('s, 'r, 'c, 'd) compressor_serializer =
  cs_serializer :: "('s, 'r) packet_serializer"
  cs_expected :: "exc \<Rightarrow> bool"
  cs_debug :: bool
  cs_compressor :: "'c compressor"
  cs_decompressor :: "'d decompressor"

definition compressor_serialize :: "('s, 'r, 'c, 'd) compressor_serializer \<Rightarrow> 's \<Rightarrow> exc + bytes" where
  "compressor_serialize z packet =
     result_bind (serialize (cs_serializer z) packet) (\<lambda>data.
       let (out, c) = co_compress (cs_compressor z) (co_new (cs_compressor z)) data
       in Inr (out @ co_flush (cs_compressor z) c))"

definition compressor_incremental_serialize :: "('s, 'r, 'c, 'd) compressor_serializer \<Rightarrow> 's \<Rightarrow> chunks" where
  "compressor_incremental_serialize z packet =
     (case serialize (cs_serializer z) packet of
        Inl e \<Rightarrow> ([], Some e)
      | Inr data \<Rightarrow>
          let (out, c) = co_compress (cs_compressor z) (co_new (cs_compressor z)) data
          in ([out, co_flush (cs_compressor z) c], None))"

definition compressor_deserialize :: "('s, 'r, 'c, 'd) compressor_serializer \<Rightarrow> bytes \<Rightarrow> exc + 'r" where
  "compressor_deserialize z data =
     (let dz = cs_decompressor z in
      case de_decompress dz (de_new dz) data of
        Inl e \<Rightarrow> Inl (if cs_expected z e then DeserializeError '''' (if cs_debug z then Some [''data''] else None) else e)
      | Inr (out, d) \<Rightarrow>
          if \<not> de_eof dz d
          then Inl (DeserializeError ''Compressed data ended before the end-of-stream marker was reached''
                      (if cs_debug z then Some [''already_decompressed_data''] else None))
          else if de_unused_data dz d \<noteq> []
          then Inl (DeserializeError ''Trailing data error''
                      (if cs_debug z then Some [''decompressed_data'', ''extra''] else None))
          else deserialize (cs_serializer z) out)"

text \<open>A frame is the list \<open>results\<close> and the decompressor; \<open>compressor_finish\<close> is the code after the loop.\<close>

definition except_decompressed :: handler where
  "except_decompressed e =
     (if is_DeserializeError e then Some (''Error while deserializing decompressed data'', error_info e) else None)"

definition compressor_finish ::
  "('s, 'r, 'c, 'd) compressor_serializer \<Rightarrow> bytes list \<Rightarrow> 'd \<Rightarrow> (unit, 'r \<times> bytes, exc, bytes list \<times> 'd) gen_step"
where
  "compressor_finish z results d =
     (let data = (if length results = 1 then hd results else concat results)
      in deserialize_or_wrap except_decompressed (deserialize (cs_serializer z)) data
           (de_unused_data (cs_decompressor z) d))"

definition compressor_loop ::
  "('s, 'r, 'c, 'd) compressor_serializer \<Rightarrow> bytes list \<Rightarrow> 'd \<Rightarrow> (unit, 'r \<times> bytes, exc, bytes list \<times> 'd) gen_step"
where
  "compressor_loop z results d =
     (if \<not> de_eof (cs_decompressor z) d then Yield () (results, d) else compressor_finish z results d)"

definition compressor_deserialize_start ::
  "('s, 'r, 'c, 'd) compressor_serializer \<Rightarrow> (unit, 'r \<times> bytes, exc, bytes list \<times> 'd) gen_step"
where
  "compressor_deserialize_start z = compressor_loop z [] (de_new (cs_decompressor z))"

definition compressor_deserialize_send ::
  "('s, 'r, 'c, 'd) compressor_serializer \<Rightarrow> bytes list \<times> 'd \<Rightarrow> bytes
     \<Rightarrow> (unit, 'r \<times> bytes, exc, bytes list \<times> 'd) gen_step"
where
  "compressor_deserialize_send z k chunk =
     (case k of (results, d) \<Rightarrow>
        (case de_decompress (cs_decompressor z) d chunk of
           Inl e \<Rightarrow>
             Raise (if cs_expected z e
                    then IncrementalDeserializeError ''Decompression error'' []
                           (if cs_debug z then Some [''already_decompressed_chunks'', ''invalid_chunk''] else None)
                    else e)
         | Inr (out, d') \<Rightarrow> compressor_loop z (if out \<noteq> [] then results @ [out] else results) d'))"

definition compressor_create_buffer :: "int \<Rightarrow> exc + created_buffer" where
  "compressor_create_buffer sizehint = Inr (bytearray (nat sizehint))"

section \<open>Stapled serializers\<close>

text \<open>The three classes and the choice \<^verbatim>\<open>StapledPacketSerializer.__new__\<close> makes among them.\<close>

datatype serializer_kind = OneShot | Incremental | BufferedKind

definition stapled_new :: "serializer_kind \<Rightarrow> serializer_kind \<Rightarrow> serializer_kind \<Rightarrow> serializer_kind" where
  "stapled_new cls sent received =
     (if sent \<in> {Incremental, BufferedKind} \<and> received = BufferedKind \<and> cls \<in> {OneShot, Incremental} then BufferedKind
      else if sent \<in> {Incremental, BufferedKind} \<and> received \<in> {Incremental, BufferedKind} \<and> cls = OneShot
      then Incremental
      else cls)"

definition stapled_serializer ::
  "('s, 'x) packet_serializer \<Rightarrow> ('y, 'r) packet_serializer \<Rightarrow> ('s, 'r) packet_serializer"
where
  "stapled_serializer sent received = \<lparr>serialize = serialize sent, deserialize = deserialize received\<rparr>"

definition stapled_incremental ::
  "('s, 'x, 'k) incremental_serializer \<Rightarrow> ('y, 'r, 'l) incremental_serializer \<Rightarrow> ('s, 'r, 'l) incremental_serializer"
where
  "stapled_incremental sent received =
     \<lparr>serialize = serialize sent, deserialize = deserialize received,
      incremental_serialize = incremental_serialize sent,
      ideserialize_start = ideserialize_start received, ideserialize_send = ideserialize_send received\<rparr>"

section \<open>Struct serializers\<close>

record ('v, 's, 'r) struct_serializer =
  st_size :: int
  st_pack :: "'v \<Rightarrow> exc + bytes"
  st_unpack :: "bytes \<Rightarrow> exc + 'v"
  st_iter_values :: "'s \<Rightarrow> exc + 'v"
  st_from_tuple :: "'v \<Rightarrow> exc + 'r"
  st_debug :: bool

definition struct_error :: exc where
  "struct_error = OtherError ''struct.error''"

definition struct_format :: "string \<Rightarrow> string" where
  "struct_format fmt = (if fmt \<noteq> [] \<and> hd fmt \<notin> set ''@=<>!'' then CHR ''!'' # fmt else fmt)"

definition struct_serialize :: "('v, 's, 'r) struct_serializer \<Rightarrow> 's \<Rightarrow> exc + bytes" where
  "struct_serialize st packet = result_bind (st_iter_values st packet) (st_pack st)"

definition struct_deserialize :: "('v, 's, 'r) struct_serializer \<Rightarrow> bytes \<Rightarrow> exc + 'r" where
  "struct_deserialize st data =
     (case st_unpack st data of
        Inl e \<Rightarrow>
          Inl (if e = struct_error then DeserializeError ''Invalid value'' (if st_debug st then Some [''data''] else None)
               else e)
      | Inr packet_tuple \<Rightarrow> st_from_tuple st packet_tuple)"

definition struct_init :: "('v, 's, 'r) struct_serializer \<Rightarrow> exc + ('s, 'r) fixed_size" where
  "struct_init st = fixed_size_init (st_size st) (st_debug st) (struct_serialize st) (struct_deserialize st)"

section \<open>NamedTupleStructSerializer\<close>

text \<open>A field value; a named tuple is the list of its values, in the order of the fields.\<close>

datatype field_value = VInt int | VBytes bytes | VStr str

record named_tuple_struct =
  nt_string_fields :: "bool list"
  nt_encoding :: "codec option"
  nt_strip_trailing_nul :: bool
  nt_debug :: bool

definition isdecimal :: "string \<Rightarrow> bool" where
  "isdecimal s \<longleftrightarrow> s \<noteq> [] \<and> list_all (\<lambda>c. c \<in> set ''0123456789'') s"

definition isalpha :: "string \<Rightarrow> bool" where
  "isalpha s \<longleftrightarrow> s \<noteq> [] \<and>
     list_all (\<lambda>c. c \<in> set ''abcdefghijklmnopqrstuvwxyzABCDEFGHIJKLMNOPQRSTUVWXYZ'') s"

text \<open>Checking one field format; \<open>Inr True\<close> says it is a string field.\<close>

definition check_field_format :: "string \<Rightarrow> exc + bool" where
  "check_field_format fmt =
     (if list_ex (\<lambda>c. c \<in> set ''@=<>!'') fmt then Inl (ValueError ''Invalid field format'')
      else if fmt \<noteq> [] \<and> last fmt = CHR ''s''
      then (if 1 < length fmt \<and> \<not> isdecimal (butlast fmt) then Inl (ValueError ''Invalid field format'') else Inr True)
      else if length fmt \<noteq> 1 \<or> \<not> isalpha fmt then Inl (ValueError ''Invalid field format'')
      else Inr False)"

fun map_results :: "('a \<Rightarrow> exc + 'b) \<Rightarrow> 'a list \<Rightarrow> exc + 'b list" where
  "map_results f [] = Inr []"
| "map_results f (x # xs) =
     result_bind (f x) (\<lambda>y. result_bind (map_results f xs) (\<lambda>ys. Inr (y # ys)))"

fun encode_field :: "codec \<Rightarrow> bool \<times> field_value \<Rightarrow> exc + field_value" where
  "encode_field c (True, VStr s) = result_bind (codec_encode c s) (\<lambda>b. Inr (VBytes b))"
| "encode_field c (True, v) = Inl (TypeError ''encoding without a string argument'')"
| "encode_field c (False, v) = Inr v"

definition nt_iter_values :: "named_tuple_struct \<Rightarrow> field_value list \<Rightarrow> exc + field_value list" where
  "nt_iter_values nt packet =
     (case nt_encoding nt of
        None \<Rightarrow> Inr packet
      | Some c \<Rightarrow>
          if list_ex id (nt_string_fields nt) then map_results (encode_field c) (zip (nt_string_fields nt) packet)
          else Inr packet)"

definition rstrip_nul :: "bytes \<Rightarrow> bytes" where
  "rstrip_nul b = rev (dropWhile (\<lambda>c. c = CHR 0x00) (rev b))"

fun decode_field :: "named_tuple_struct \<Rightarrow> bool \<times> field_value \<Rightarrow> exc + field_value" where
  "decode_field nt (True, VBytes b) =
     (let value = (if nt_strip_trailing_nul nt then rstrip_nul b else b) in
      case nt_encoding nt of
        None \<Rightarrow> Inr (VBytes value)
      | Some c \<Rightarrow>
          (case codec_decode c value of
             Inl UnicodeError \<Rightarrow>
               Inl (DeserializeError ''UnicodeError when building packet from unpacked struct value''
                      (if nt_debug nt then Some [''unpacked_struct''] else None))
           | Inl e \<Rightarrow> Inl e
           | Inr s \<Rightarrow> Inr (VStr s)))"
| "decode_field nt (_, v) = Inr v"

definition nt_from_tuple :: "named_tuple_struct \<Rightarrow> field_value list \<Rightarrow> exc + field_value list" where
  "nt_from_tuple nt packet_tuple = map_results (decode_field nt) (zip (nt_string_fields nt) packet_tuple)"

section \<open>Facts\<close>

fun de_run :: "'d decompressor \<Rightarrow> 'd \<Rightarrow> bytes list \<Rightarrow> exc + bytes \<times> 'd" where
  "de_run dz d [] = Inr ([], d)"
| "de_run dz d (c # cs) =
     (case de_decompress dz d c of
        Inl e \<Rightarrow> Inl e
      | Inr (out, d') \<Rightarrow>
          (case de_run dz d' cs of
             Inl e \<Rightarrow> Inl e
           | Inr (rest, d'') \<Rightarrow> Inr (out @ rest, d'')))"

text \<open>
  \<open>inflates dz z x\<close>: whatever the cuts, the decompressor turns the non-empty \<open>z\<close> into \<open>x\<close>, is at its end exactly
  when it has all of \<open>z\<close>, and keeps what follows as unused data.
\<close>

definition inflates :: "'d decompressor \<Rightarrow> bytes \<Rightarrow> bytes \<Rightarrow> bool" where
  "inflates dz z x \<longleftrightarrow>
     (\<forall>ds. strict_prefix (concat ds) z \<longrightarrow> (\<exists>out d. de_run dz (de_new dz) ds = Inr (out, d) \<and> \<not> de_eof dz d)) \<and>
     (\<forall>ds c rest. strict_prefix (concat ds) z \<longrightarrow> concat ds @ c = z @ rest \<longrightarrow>
        (\<exists>d. de_run dz (de_new dz) (ds @ [c]) = Inr (x, d) \<and> de_eof dz d \<and> de_unused_data dz d = rest))"

lemma de_run_append:
  "de_run dz d (cs @ cs') =
     (case de_run dz d cs of
        Inl e \<Rightarrow> Inl e
      | Inr (out, d') \<Rightarrow>
          (case de_run dz d' cs' of Inl e \<Rightarrow> Inl e | Inr (rest, d'') \<Rightarrow> Inr (out @ rest, d'')))"
  by (induction cs arbitrary: d) (auto split: sum.splits)

lemma concat_one: "(if length results = 1 then hd results else concat results) = concat results"
  by (cases results) auto

lemma compressor_feed:
  assumes z: "inflates (cs_decompressor z) zd x" and ds: "strict_prefix (concat ds) zd"
  shows "\<exists>results d. gen_feed (compressor_deserialize_send z) (compressor_deserialize_start z) ds = Yield () (results, d)
    \<and> de_run (cs_decompressor z) (de_new (cs_decompressor z)) ds = Inr (concat results, d)"
  using ds
proof (induction ds rule: rev_induct)
  case Nil
  from z Nil obtain out d where "de_run (cs_decompressor z) (de_new (cs_decompressor z)) [] = Inr (out, d)"
    "\<not> de_eof (cs_decompressor z) d" unfolding inflates_def by blast
  then show ?case by (auto simp: compressor_deserialize_start_def compressor_loop_def)
next
  case (snoc c cs)
  let ?dz = "cs_decompressor z"
  have "strict_prefix (concat cs) zd" using snoc.prems by (auto simp: strict_prefix_def prefix_def)
  with snoc.IH obtain results d where ih:
    "gen_feed (compressor_deserialize_send z) (compressor_deserialize_start z) cs = Yield () (results, d)"
    "de_run ?dz (de_new ?dz) cs = Inr (concat results, d)" by blast
  from z snoc.prems obtain out d2 where run: "de_run ?dz (de_new ?dz) (cs @ [c]) = Inr (out, d2)" "\<not> de_eof ?dz d2"
    unfolding inflates_def by blast
  with ih(2) obtain o2 where o2: "de_decompress ?dz d c = Inr (o2, d2)" "out = concat results @ o2"
    by (auto simp: de_run_append split: sum.splits)
  then have "compressor_deserialize_send z (results, d) c =
      Yield () (if o2 \<noteq> [] then results @ [o2] else results, d2)"
    using run by (simp add: compressor_deserialize_send_def compressor_loop_def)
  with ih(1) run o2(2) show ?case by (auto simp: gen_feed_append)
qed

lemma compressor_feed_last:
  assumes z: "inflates (cs_decompressor z) zd x" and "strict_prefix (concat ds) zd" and "concat ds @ c = zd @ rest"
  shows "gen_feed (compressor_deserialize_send z) (compressor_deserialize_start z) (ds @ [c])
    = deserialize_or_wrap except_decompressed (deserialize (cs_serializer z)) x rest"
proof -
  let ?dz = "cs_decompressor z"
  from compressor_feed [OF assms(1,2)] obtain results d where feed:
    "gen_feed (compressor_deserialize_send z) (compressor_deserialize_start z) ds = Yield () (results, d)"
    "de_run ?dz (de_new ?dz) ds = Inr (concat results, d)" by blast
  from assms obtain d2 where run: "de_run ?dz (de_new ?dz) (ds @ [c]) = Inr (x, d2)" "de_eof ?dz d2"
    "de_unused_data ?dz d2 = rest" unfolding inflates_def by blast
  with feed(2) obtain o2 where o2: "de_decompress ?dz d c = Inr (o2, d2)" "x = concat results @ o2"
    by (auto simp: de_run_append split: sum.splits)
  then have "compressor_deserialize_send z (results, d) c =
      compressor_finish z (if o2 \<noteq> [] then results @ [o2] else results) d2"
    using run by (simp add: compressor_deserialize_send_def compressor_loop_def)
  also have "\<dots> = deserialize_or_wrap except_decompressed (deserialize (cs_serializer z)) x rest"
    unfolding compressor_finish_def concat_one using o2 run by simp
  finally show ?thesis using feed(1) by (simp add: gen_feed_append)
qed

text \<open>Fields padded by \<^verbatim>\<open>struct.pack\<close>.\<close>

fun padded :: "field_value \<Rightarrow> field_value \<Rightarrow> bool" where
  "padded (VBytes b) v \<longleftrightarrow> (\<exists>n. v = VBytes (b @ replicate n (CHR 0x00)))"
| "padded u v \<longleftrightarrow> v = u"

lemma rstrip_nul_padding: "rstrip_nul (b @ replicate n (CHR 0x00)) = rstrip_nul b"
  by (simp add: rstrip_nul_def dropWhile_append)

section \<open>Properties\<close>

text \<open>
  With a checksum, a base64 token is accepted exactly when it decodes to data followed by the
  checksum of that data; everything else is a \<^verbatim>\<open>DeserializeError\<close> and the wrapped serializer never sees it.
\<close>

theorem base64_checksum_guard:
  assumes "b64_checksum b = Some checksum" and "\<forall>x. length (checksum x) = 32"
    and "b64_decode b token = Inr raw"
  shows "base64_deserialize b token =
    (if \<exists>data. raw = data @ checksum data
     then deserialize (b64_serializer b) (take (length raw - 32) raw)
     else Inl (DeserializeError ''Invalid token'' None))"
proof (cases "\<exists>data. raw = data @ checksum data")
  case True
  then obtain data where "raw = data @ checksum data" by blast
  with assms show ?thesis by (auto simp: base64_deserialize_def Let_def)
next
  case False
  then have "checksum (take (length raw - 32) raw) \<noteq> drop (length raw - 32) raw"
    by (metis append_take_drop_id)
  with False assms show ?thesis by (simp add: base64_deserialize_def Let_def)
qed

text \<open>
  A compressed packet is recognised however its bytes are cut: the deserializer yields until the
  compressed stream is complete, then decodes exactly the decompressed data and keeps exactly the bytes that follow; the result does not
  depend on the cuts.
\<close>

theorem compressor_fragmentation:
  assumes "inflates (cs_decompressor z) zd x" and "strict_prefix (concat ds) zd" and "concat ds @ c = zd @ rest"
  shows "gen_feed (compressor_deserialize_send z) (compressor_deserialize_start z) (ds @ [c]) =
    (case deserialize (cs_serializer z) x of
       Inr p \<Rightarrow> Return (p, rest)
     | Inl e \<Rightarrow> Raise (if is_DeserializeError e
                 then IncrementalDeserializeError ''Error while deserializing decompressed data'' rest (error_info e)
                 else e))"
  using compressor_feed_last [OF assms]
  by (auto simp: deserialize_or_wrap_def except_decompressed_def split: sum.split)

text \<open>
  A named tuple survives \<^verbatim>\<open>iter_values\<close>, the padding of its string fields and \<^verbatim>\<open>from_tuple\<close>, for any
  codec that decodes what it encodes and strings whose encoding does not end in a NUL byte.
\<close>

theorem named_tuple_roundtrip:
  assumes "nt_encoding nt = Some c" and "nt_strip_trailing_nul nt" and "list_ex id (nt_string_fields nt)"
    and "\<forall>s b. codec_encode c s = Inr b \<longrightarrow> codec_decode c b = Inr s"
    and "\<forall>s b. VStr s \<in> set packet \<longrightarrow> codec_encode c s = Inr b \<longrightarrow> rstrip_nul b = b"
    and "length packet = length (nt_string_fields nt)"
    and "nt_iter_values nt packet = Inr vs" and "list_all2 padded vs vs'"
    and "\<forall>b. VBytes b \<notin> set packet"
  shows "nt_from_tuple nt vs' = Inr packet"
proof -
  have iter: "map_results (encode_field c) (zip (nt_string_fields nt) packet) = Inr vs"
    using assms(1,3,7) by (simp add: nt_iter_values_def)
  have "map_results (decode_field nt) (zip fs vs') = Inr packet"
    if "length packet = length fs" "map_results (encode_field c) (zip fs packet) = Inr vs" "list_all2 padded vs vs'"
      "\<forall>s b. VStr s \<in> set packet \<longrightarrow> codec_encode c s = Inr b \<longrightarrow> rstrip_nul b = b" "\<forall>b. VBytes b \<notin> set packet"
    for fs
    using that
  proof (induction packet arbitrary: fs vs vs')
    case (Cons v packet)
    then obtain f fs' where fs: "fs = f # fs'" by (cases fs) auto
    with Cons.prems(2) obtain u us where u: "encode_field c (f, v) = Inr u"
      "map_results (encode_field c) (zip fs' packet) = Inr us" "vs = u # us"
      by (auto simp: result_bind_def split: sum.splits)
    with Cons.prems(3) obtain u' us' where u': "vs' = u' # us'" "padded u u'" "list_all2 padded us us'"
      by (auto simp: list_all2_Cons1)
    have rest: "map_results (decode_field nt) (zip fs' us') = Inr packet"
      using Cons.IH [of fs' us us'] Cons.prems fs u u' by simp
    have "decode_field nt (f, u') = Inr v"
    proof (cases f)
      case True
      with u(1) obtain s b where s: "v = VStr s" "codec_encode c s = Inr b" "u = VBytes b"
        by (cases v) (auto simp: result_bind_def split: sum.splits)
      with u'(2) obtain n where "u' = VBytes (b @ replicate n (CHR 0x00))" by auto
      moreover have "rstrip_nul b = b" using Cons.prems(4) s by auto
      ultimately show ?thesis using True s assms by (simp add: rstrip_nul_padding)
    next
      case False
      with u(1) have "u = v" by (cases v) auto
      with False u'(2) Cons.prems(5) show ?thesis by (cases v) auto
    qed
    with rest fs u' show ?case by simp
  qed simp
  from this [OF assms(6) iter assms(8,5,9)] show ?thesis by (simp add: nt_from_tuple_def)
qed

section \<open>Witnesses\<close>

text \<open>A token codec and a 32-byte checksum simple enough to compute with.\<close>

definition sum_checksum :: "bytes \<Rightarrow> bytes" where
  "sum_checksum b = char_of (sum_list (map of_char b) :: nat) # replicate 31 (CHR 0x00)"

definition plain_serializer :: "(bytes, bytes) packet_serializer" where
  "plain_serializer = \<lparr>serialize = Inr, deserialize = Inr\<rparr>"

definition plain_base64 :: "(bytes, bytes) base64" where
  "plain_base64 = \<lparr>b64_serializer = plain_serializer, b64_checksum = Some sum_checksum,
     b64_encode = id, b64_decode = Inr\<rparr>"

theorem base64_checksum_guard_witness:
  "base64_deserialize plain_base64 (''ok'' @ sum_checksum ''ok'') =
    (if \<exists>data. ''ok'' @ sum_checksum ''ok'' = data @ sum_checksum data
     then deserialize (b64_serializer plain_base64)
            (take (length (''ok'' @ sum_checksum ''ok'') - 32) (''ok'' @ sum_checksum ''ok''))
     else Inl (DeserializeError ''Invalid token'' None))"
proof (rule base64_checksum_guard)
  show "b64_checksum plain_base64 = Some sum_checksum" by (simp add: plain_base64_def)
  show "\<forall>x. length (sum_checksum x) = 32" by (simp add: sum_checksum_def)
qed (simp add: plain_base64_def)

text \<open>A codec whose streams end with a NUL byte; its state is the unused data once the NUL was seen.\<close>

definition nul_decompressor :: "(bytes option) decompressor" where
  "nul_decompressor = \<lparr>de_new = None,
     de_decompress = (\<lambda>d b. Inr (takeWhile (\<lambda>c. c \<noteq> CHR 0x00) b,
        if CHR 0x00 \<in> set b then Some (tl (dropWhile (\<lambda>c. c \<noteq> CHR 0x00) b)) else None)),
     de_eof = (\<lambda>d. d \<noteq> None), de_unused_data = (\<lambda>d. case d of None \<Rightarrow> [] | Some u \<Rightarrow> u)\<rparr>"

lemma nul_run: "CHR 0x00 \<notin> set (concat ds) \<Longrightarrow> de_run nul_decompressor None ds = Inr (concat ds, None)"
proof (induction ds)
  case (Cons a ds)
  then have "takeWhile (\<lambda>c. c \<noteq> CHR 0x00) a = a" "CHR 0x00 \<notin> set a" by (auto simp: takeWhile_eq_all_conv)
  with Cons show ?case by (simp add: nul_decompressor_def)
qed simp

lemma nul_inflates:
  assumes x: "CHR 0x00 \<notin> set x"
  shows "inflates nul_decompressor (x @ [CHR 0x00]) x"
  unfolding inflates_def
proof (intro conjI allI impI)
  have new: "de_new nul_decompressor = None" by (simp add: nul_decompressor_def)
  have pre: "prefix (concat ds) x" if "strict_prefix (concat ds) (x @ [CHR 0x00])" for ds :: "bytes list"
    using that by (auto simp: strict_prefix_def)
  have nonul: "CHR 0x00 \<notin> set (concat ds)" if "prefix (concat ds) x" for ds :: "bytes list"
    using that x set_mono_prefix [OF that] by blast
  fix ds :: "bytes list"
  assume "strict_prefix (concat ds) (x @ [CHR 0x00])"
  then have n: "CHR 0x00 \<notin> set (concat ds)" and p: "prefix (concat ds) x" using pre nonul by blast+
  from nul_run [OF n]
  show "\<exists>out d. de_run nul_decompressor (de_new nul_decompressor) ds = Inr (out, d) \<and> \<not> de_eof nul_decompressor d"
    by (simp add: new) (simp add: nul_decompressor_def)
  fix c rest
  assume "concat ds @ c = (x @ [CHR 0x00]) @ rest"
  moreover from p obtain y where y: "x = concat ds @ y" by (auto simp: prefix_def)
  ultimately have c: "c = y @ CHR 0x00 # rest" by simp
  have "CHR 0x00 \<notin> set y" using x y by simp
  then have "takeWhile (\<lambda>a. a \<noteq> CHR 0x00) c = y" "dropWhile (\<lambda>a. a \<noteq> CHR 0x00) c = CHR 0x00 # rest"
    unfolding c by (auto simp: takeWhile_append dropWhile_append)
  with c y have "de_run nul_decompressor None [c] = Inr (y, Some rest)"
    by (simp add: nul_decompressor_def)
  with nul_run [OF n] y
  show "\<exists>d. de_run nul_decompressor (de_new nul_decompressor) (ds @ [c]) = Inr (x, d)
      \<and> de_eof nul_decompressor d \<and> de_unused_data nul_decompressor d = rest"
    by (simp add: new de_run_append) (simp add: nul_decompressor_def)
qed

definition nul_serializer :: "(bytes, bytes, unit, bytes option) compressor_serializer" where
  "nul_serializer = \<lparr>cs_serializer = plain_serializer, cs_expected = (\<lambda>_. False), cs_debug = False,
     cs_compressor = \<lparr>co_new = (), co_compress = (\<lambda>_ b. (b, ())), co_flush = (\<lambda>_. [CHR 0x00])\<rparr>,
     cs_decompressor = nul_decompressor\<rparr>"

theorem compressor_fragmentation_witness:
  "gen_feed (compressor_deserialize_send nul_serializer) (compressor_deserialize_start nul_serializer)
     ([''a'', ''b''] @ [CHR 0x00 # ''XY'']) = Return (''ab'', ''XY'')"
proof -
  have "inflates (cs_decompressor nul_serializer) (''ab'' @ [CHR 0x00]) ''ab''"
    unfolding nul_serializer_def compressor_serializer.simps by (rule nul_inflates) simp
  from compressor_fragmentation [OF this, of "[''a'', ''b'']" "CHR 0x00 # ''XY''" "''XY''"]
  show ?thesis by (simp add: strict_prefix_def nul_serializer_def plain_serializer_def)
qed

theorem named_tuple_roundtrip_witness:
  "nt_from_tuple \<lparr>nt_string_fields = [True, False], nt_encoding = Some ascii_codec, nt_strip_trailing_nul = True,
      nt_debug = False\<rparr> [VBytes (''J'' @ replicate 3 (CHR 0x00)), VInt 20] = Inr [VStr [74], VInt 20]"
proof (rule named_tuple_roundtrip [where c = ascii_codec and vs = "[VBytes ''J'', VInt 20]"])
  show "\<forall>s b. codec_encode ascii_codec s = Inr b \<longrightarrow> codec_decode ascii_codec b = Inr s"
    using ascii_decode_encode by blast
  show "list_all2 padded [VBytes ''J'', VInt 20] [VBytes (''J'' @ replicate 3 (CHR 0x00)), VInt 20]"
    by (auto intro: exI [of _ 3])
  have J: "char_of (74 :: nat) = CHR ''J''" by code_simp
  show "\<forall>s b. VStr s \<in> set [VStr [74], VInt 20] \<longrightarrow> codec_encode ascii_codec s = Inr b \<longrightarrow> rstrip_nul b = b"
    by (auto simp: ascii_codec_def rstrip_nul_def J)
  show "nt_iter_values \<lparr>nt_string_fields = [True, False], nt_encoding = Some ascii_codec, nt_strip_trailing_nul = True,
      nt_debug = False\<rparr> [VStr [74], VInt 20] = Inr [VBytes ''J'', VInt 20]"
    by (simp add: nt_iter_values_def ascii_codec_def J)
qed auto

end
