(* ===== verification/FileBased.thy ===== *)
theory FileBased
  imports BufferedSerializers
begin

text \<open>
  \<^verbatim>\<open>FileBasedPacketSerializer\<close> of \<^verbatim>\<open>src/src/easynetwork/serializers/base_stream.py\<close>.

  The abstract methods \<^verbatim>\<open>dump_to_file\<close> and \<^verbatim>\<open>load_from_file\<close> are parameters: \<open>fb_dump\<close> gives the bytes
  written to the file, \<open>fb_load content\<close> runs the loader on a file with these contents from position 0 and gives its result
  together with the position at which it left the file.  A \<^verbatim>\<open>BytesIO\<close> object is its contents and a position.
\<close>

record ('s, 'r) file_based =
  fb_expected :: "exc \<Rightarrow> bool"
  fb_limit :: int
  fb_debug :: bool
  fb_dump :: "'s \<Rightarrow> exc + bytes"
  fb_load :: "bytes \<Rightarrow> (exc + 'r) \<times> nat"

definition file_based_init ::
  "(exc \<Rightarrow> bool) \<Rightarrow> int \<Rightarrow> bool \<Rightarrow> ('s \<Rightarrow> exc + bytes) \<Rightarrow> (bytes \<Rightarrow> (exc + 'r) \<times> nat) \<Rightarrow> exc + ('s, 'r) file_based"
where
  "file_based_init expected limit debug dump load =
     (if limit \<le> 0 then Inl (ValueError ''limit must be a positive integer'')
      else Inr \<lparr>fb_expected = expected, fb_limit = limit, fb_debug = debug, fb_dump = dump, fb_load = load\<rparr>)"

fun is_EOFError :: "exc \<Rightarrow> bool" where
  "is_EOFError (EOFError _) = True"
| "is_EOFError _ = False"

definition file_serialize :: "('s, 'r) file_based \<Rightarrow> 's \<Rightarrow> exc + bytes" where
  "file_serialize f packet = fb_dump f packet"

definition file_deserialize :: "('s, 'r) file_based \<Rightarrow> bytes \<Rightarrow> exc + 'r" where
  "file_deserialize f data =
     (case fb_load f data of
        (Inl e, _) \<Rightarrow>
          if is_EOFError e
          then Inl (DeserializeError ''Missing data to create packet'' (if fb_debug f then Some [''data''] else None))
          else if fb_expected f e then Inl (DeserializeError '''' (if fb_debug f then Some [''data''] else None))
          else Inl e
      | (Inr packet, pos) \<Rightarrow>
          if drop pos data \<noteq> []
          then Inl (DeserializeError ''Extra data caught'' (if fb_debug f then Some [''packet'', ''extra''] else None))
          else Inr packet)"

definition file_incremental_serialize :: "('s, 'r) file_based \<Rightarrow> 's \<Rightarrow> chunks" where
  "file_incremental_serialize f packet =
     (case fb_dump f packet of
        Inl e \<Rightarrow> ([], Some e)
      | Inr data \<Rightarrow> if length data = 0 then ([], None) else ([data], None))"

section \<open>The generic incremental deserializer\<close>

text \<open>\<open>FileFirst\<close> is the \<^verbatim>\<open>yield\<close> in \<^verbatim>\<open>BytesIO((yield))\<close>, \<open>FileMore content pos\<close> the one in \<^verbatim>\<open>buffer.write((yield))\<close>.\<close>

datatype file_frame = FileFirst | FileMore bytes nat

definition check_file_buffer_limit :: "('s, 'r) file_based \<Rightarrow> bytes \<Rightarrow> exc option" where
  "check_file_buffer_limit f content =
     (if int (length content) > fb_limit f
      then Some (limit_overrun_error ''chunk exceeded buffer limit'' content (length content) [])
      else None)"

definition file_loop ::
  "('s, 'r) file_based \<Rightarrow> bytes \<Rightarrow> (unit, 'r \<times> bytes, exc, file_frame) gen_step"
where
  "file_loop f content =
     (case check_file_buffer_limit f content of
        Some e \<Rightarrow> Raise e
      | None \<Rightarrow>
          (case fb_load f content of
             (Inl e, pos) \<Rightarrow>
               if is_EOFError e then Yield () (FileMore content pos)
               else if fb_expected f e
               then Raise (IncrementalDeserializeError ''Deserialize error'' (drop pos content)
                             (if fb_debug f then Some [''data''] else None))
               else Raise e
           | (Inr packet, pos) \<Rightarrow> Return (packet, drop pos content)))"

definition file_deserialize_start :: "(unit, 'r \<times> bytes, exc, file_frame) gen_step" where
  "file_deserialize_start = Yield () FileFirst"

fun file_deserialize_send ::
  "('s, 'r) file_based \<Rightarrow> file_frame \<Rightarrow> bytes \<Rightarrow> (unit, 'r \<times> bytes, exc, file_frame) gen_step"
where
  "file_deserialize_send f FileFirst chunk = file_loop f chunk"
| "file_deserialize_send f (FileMore content pos) chunk =
     file_loop f (take pos content @ chunk @ drop (pos + length chunk) content)"

definition file_create_buffer :: "('s, 'r) file_based \<Rightarrow> int \<Rightarrow> exc + created_buffer" where
  "file_create_buffer f sizehint = Inr (bytearray (nat (min sizehint (fb_limit f))))"

definition file_buffered_start :: "bytes \<Rightarrow> ('r \<times> bytes, file_frame) buffered_step" where
  "file_buffered_start buffer = wrap_buffered_start file_deserialize_start buffer"

definition file_buffered_send ::
  "('s, 'r) file_based \<Rightarrow> file_frame \<Rightarrow> bytes \<times> nat \<Rightarrow> ('r \<times> bytes, file_frame) buffered_step"
where
  "file_buffered_send f k bn = wrap_buffered_send (file_deserialize_send f) k bn"

section \<open>Reading a packet that arrives in pieces\<close>

text \<open>
  A loader reads \<open>data\<close> as \<open>p\<close> when it stops right behind it, whatever follows, and reaches the end of the file with an \<^verbatim>\<open>EOFError\<close>
  on each shorter part of it.
\<close>

definition loads :: "('s, 'r) file_based \<Rightarrow> bytes \<Rightarrow> 'r \<Rightarrow> bool" where
  "loads f data p \<longleftrightarrow>
     (\<forall>rest. fb_load f (data @ rest) = (Inr p, length data)) \<and>
     (\<forall>d. strict_prefix d data \<longrightarrow> (\<exists>m. fb_load f d = (Inl (EOFError m), length d)))"

lemma file_feed:
  assumes l: "loads f data p" and "int (length (data @ rest)) \<le> fb_limit f"
    and "concat ds @ d = data @ rest" and "strict_prefix (concat ds) data"
  shows "gen_feed (file_deserialize_send f) file_deserialize_start (ds @ [d]) = Return (p, rest)"
proof -
  have fit: "check_file_buffer_limit f c = None" if "prefix c (data @ rest)" for c
    using assms(2) prefix_length_le [OF that] by (simp add: check_file_buffer_limit_def)
  have more: "file_loop f c = Yield () (FileMore c (length c))" if "strict_prefix c data" for c
  proof -
    from l that obtain m where "fb_load f c = (Inl (EOFError m), length c)" unfolding loads_def by blast
    moreover have "prefix c (data @ rest)" using that by (auto simp: strict_prefix_def intro: prefix_prefix)
    ultimately show ?thesis using fit by (simp add: file_loop_def)
  qed
  have last: "file_loop f (data @ rest) = Return (p, rest)"
    using l fit [of "data @ rest"] by (simp add: file_loop_def loads_def)
  let ?done = "\<lambda>k c. k = FileMore c (length c) \<or> c = [] \<and> k = FileFirst"
  have feed: "\<exists>k'. gen_feed (file_deserialize_send f) (Yield () k) ds = Yield () k' \<and> ?done k' (c @ concat ds)"
    if "strict_prefix (c @ concat ds) data" "?done k c" for k c ds
    using that
  proof (induction ds arbitrary: k c)
    case (Cons x xs)
    have sp: "strict_prefix (c @ x) data"
      using Cons.prems(1) by (auto simp: strict_prefix_def prefix_def)
    have "file_deserialize_send f k x = Yield () (FileMore (c @ x) (length (c @ x)))"
      using Cons.prems(2) more [OF sp] by auto
    with Cons.IH [of "c @ x" "FileMore (c @ x) (length (c @ x))"] Cons.prems(1) show ?case by simp
  qed simp
  from feed [of "[]" ds FileFirst] assms(4) obtain k'
    where k': "gen_feed (file_deserialize_send f) (Yield () FileFirst) ds = Yield () k'" "?done k' (concat ds)"
    by auto
  have "file_deserialize_send f k' d = file_loop f (concat ds @ d)"
    using k'(2) by (auto simp del: concat_eq_Nil_conv)
  with assms(3) last have "file_deserialize_send f k' d = Return (p, rest)" by simp
  with k'(1) show ?thesis by (simp add: gen_feed_append file_deserialize_start_def)
qed

section \<open>Properties\<close>

text \<open>
  A packet written through a file API is read back from the stream however it is cut: when the
  loader reads \<open>data\<close> as \<open>p\<close> and the whole input stays within the limit, the incremental
  deserializer yields until \<open>data\<close> is complete and then returns \<open>p\<close> with exactly the bytes behind it.
\<close>

theorem file_based_fragmentation:
  assumes "loads f data p" and "int (length (data @ rest)) \<le> fb_limit f"
    and "concat ds @ d = data @ rest" and "strict_prefix (concat ds) data"
  shows "gen_feed (file_deserialize_send f) file_deserialize_start (ds @ [d]) = Return (p, rest)
    \<and> file_deserialize f data = Inr p"
proof
  show "gen_feed (file_deserialize_send f) file_deserialize_start (ds @ [d]) = Return (p, rest)"
    using assms by (rule file_feed)
  have "fb_load f (data @ []) = (Inr p, length data)" using assms(1) unfolding loads_def by blast
  then show "file_deserialize f data = Inr p" by (simp add: file_deserialize_def)
qed

text \<open>
  The limit of the file-based serializers is on the bytes held, not on the packet: input longer than the
  limit is refused with \<^verbatim>\<open>LimitOverrunError\<close> and dropped entirely, even when it begins with a
  complete packet that is shorter than the limit.
\<close>

theorem file_based_limit_drops_all:
  assumes "fb_limit f < int (length chunk)"
  shows "file_deserialize_send f FileFirst chunk
    = Raise (LimitOverrunError ''chunk exceeded buffer limit'' [] (length chunk))"
  using assms
  by (simp add: file_loop_def check_file_buffer_limit_def limit_overrun_error_def limit_overrun_remaining_def)

section \<open>Witnesses\<close>

text \<open>A loader of packets of one length byte and a body.\<close>

definition sized_load :: "bytes \<Rightarrow> (exc + bytes) \<times> nat" where
  "sized_load b =
     (case b of
        [] \<Rightarrow> (Inl (EOFError ''''), 0)
      | c # cs \<Rightarrow>
          if length cs < of_char c then (Inl (EOFError ''''), length b)
          else (Inr (take (of_char c) cs), 1 + of_char c))"

definition sized_serializer :: "int \<Rightarrow> (bytes, bytes) file_based" where
  "sized_serializer limit = \<lparr>fb_expected = (\<lambda>_. False), fb_limit = limit, fb_debug = False,
     fb_dump = (\<lambda>b. Inr (char_of (length b) # b)), fb_load = sized_load\<rparr>"

lemma sized_loads: "loads (sized_serializer limit) (CHR 0x02 # ''ab'') ''ab''"
  unfolding loads_def
proof (intro conjI allI impI)
  show "fb_load (sized_serializer limit) ((CHR 0x02 # ''ab'') @ rest) = (Inr ''ab'', length (CHR 0x02 # ''ab''))" for rest
    by (simp add: sized_serializer_def sized_load_def)
next
  fix d assume "strict_prefix d (CHR 0x02 # ''ab'')"
  then have "length d < 3" and "d = [] \<or> hd d = CHR 0x02"
    using prefix_length_less by (fastforce, cases d) (auto simp: strict_prefix_def)
  then show "\<exists>m. fb_load (sized_serializer limit) d = (Inl (EOFError m), length d)"
    by (cases d) (auto simp: sized_serializer_def sized_load_def)
qed

theorem file_based_fragmentation_witness:
  "gen_feed (file_deserialize_send (sized_serializer 8)) file_deserialize_start [[CHR 0x02, CHR ''a''], ''bXY'']
     = Return (''ab'', ''XY'')
   \<and> file_deserialize (sized_serializer 8) (CHR 0x02 # ''ab'') = Inr ''ab''"
  using file_based_fragmentation [OF sized_loads, of "''XY''" 8 "[[CHR 0x02, CHR ''a'']]" "''bXY''"]
  by (simp add: sized_serializer_def strict_prefix_def)

theorem file_based_limit_drops_all_witness:
  "file_deserialize_send (sized_serializer 4) FileFirst (CHR 0x02 # ''abXY'')
    = Raise (LimitOverrunError ''chunk exceeded buffer limit'' [] 5)
   \<and> file_deserialize_send (sized_serializer 4) FileFirst (CHR 0x02 # ''ab'') = Return (''ab'', '''')"
  using file_based_limit_drops_all [of "sized_serializer 4" "CHR 0x02 # ''abXY''"]
  by (simp add: sized_serializer_def file_loop_def check_file_buffer_limit_def sized_load_def)

end
