(* ===== verification/DatagramServer.thy ===== *)
theory DatagramServer
  imports Protocol
begin

text \<open>
  The per-client part of \<^verbatim>\<open>AsyncDatagramServer\<close>,
  \<^verbatim>\<open>src/src/easynetwork/lowlevel/api_async/servers/datagram.py\<close>: \<^verbatim>\<open>_ClientData\<close>, the datagram handler of
  \<^verbatim>\<open>serve\<close>, the start and the end of the client coroutine, and the parsing of a datagram.

  One client (one address) is followed.  Code between two suspension points runs without
  interruption, so it is one step.
\<close>

section \<open>\_ClientData\<close>

datatype client_state = TASK_PENDING | TASK_RUNNING

text \<open>A datagram with the ancillary data received with it, if the server asks for it.\<close>

type_synonym 'a datagram = "bytes \<times> 'a option"

record 'a client_data =
  cd_state :: "client_state option"
  cd_queue :: "'a datagram list"

definition client_data_init :: "'a client_data" where
  "client_data_init = \<lparr>cd_state = None, cd_queue = []\<rparr>"

definition inconsistent_state_error :: exc where
  "inconsistent_state_error =
     RuntimeError ''The server has created too many tasks and ends up in an inconsistent state.''"

definition mark_pending :: "'a client_data \<Rightarrow> exc + 'a client_data" where
  "mark_pending c = (if cd_state c \<noteq> None then Inl inconsistent_state_error else Inr (c\<lparr>cd_state := Some TASK_PENDING\<rparr>))"

definition mark_done :: "'a client_data \<Rightarrow> exc + 'a client_data" where
  "mark_done c =
     (if cd_state c \<noteq> Some TASK_RUNNING then Inl inconsistent_state_error else Inr (c\<lparr>cd_state := None\<rparr>))"

definition mark_running :: "'a client_data \<Rightarrow> exc + 'a client_data" where
  "mark_running c =
     (if cd_state c \<noteq> Some TASK_PENDING then Inl inconsistent_state_error
      else Inr (c\<lparr>cd_state := Some TASK_RUNNING\<rparr>))"

definition queue_is_empty :: "'a client_data \<Rightarrow> bool" where
  "queue_is_empty c \<longleftrightarrow> cd_queue c = []"

text \<open>
  \<^verbatim>\<open>push_datagram\<close> up to its suspension point.  The flag tells whether it has to notify the
  condition, which means waiting for the condition's lock.
\<close>

definition push_datagram :: "'a datagram \<Rightarrow> 'a client_data \<Rightarrow> bool \<times> 'a client_data" where
  "push_datagram datagram c = (cd_state c \<noteq> None, c\<lparr>cd_queue := cd_queue c @ [datagram]\<rparr>)"

text \<open>Popping from an empty deque raises \<^verbatim>\<open>IndexError\<close>.\<close>

definition pop_datagram_no_wait :: "'a client_data \<Rightarrow> exc + 'a datagram \<times> 'a client_data" where
  "pop_datagram_no_wait c =
     (case cd_queue c of
        [] \<Rightarrow> Inl (OtherError ''IndexError'')
      | d # ds \<Rightarrow> Inr (d, c\<lparr>cd_queue := ds\<rparr>))"

text \<open>\<^verbatim>\<open>pop_datagram\<close>: \<open>None\<close> as long as the task has to wait on the condition.\<close>

definition pop_datagram :: "'a client_data \<Rightarrow> ('a datagram \<times> 'a client_data) option" where
  "pop_datagram c = (case cd_queue c of [] \<Rightarrow> None | d # ds \<Rightarrow> Some (d, c\<lparr>cd_queue := ds\<rparr>))"

definition parse_datagram :: "(bytes \<Rightarrow> exc + 'p) \<Rightarrow> bytes \<Rightarrow> exc + 'p" where
  "parse_datagram build datagram =
     (case build datagram of
        Inr p \<Rightarrow> Inr p
      | Inl e \<Rightarrow>
          Inl (if is_DatagramProtocolParseError e \<or> \<not> is_Exception e then e
               else RuntimeError ''protocol.build_packet_from_datagram() crashed''))"

definition send_packet_to :: "('p \<Rightarrow> exc + bytes) \<Rightarrow> ('a \<Rightarrow> bytes \<Rightarrow> 'w \<Rightarrow> exc option \<times> 'w) \<Rightarrow> 'p \<Rightarrow> 'a \<Rightarrow> 'w \<Rightarrow> exc option \<times> 'w"
where
  "send_packet_to make_dg send_to packet address w =
     (case make_dg packet of
        Inl e \<Rightarrow> (Some (if is_Exception e then RuntimeError ''protocol.make_datagram() crashed'' else e), w)
      | Inr datagram \<Rightarrow> send_to address datagram w)"

definition send_packet_with_ancillary_to ::
  "('p \<Rightarrow> exc + bytes) \<Rightarrow> ('c \<Rightarrow> 'a \<Rightarrow> bytes \<Rightarrow> 'w \<Rightarrow> exc option \<times> 'w) \<Rightarrow> 'p \<Rightarrow> 'a \<Rightarrow> 'c \<Rightarrow> 'w \<Rightarrow> exc option \<times> 'w"
where
  "send_packet_with_ancillary_to make_dg send_with_ancillary_to packet ancillary_data address w =
     send_packet_to make_dg (\<lambda>address datagram. send_with_ancillary_to address ancillary_data datagram) packet address w"

section \<open>The tasks of one client\<close>

text \<open>
  \<open>srv_notifying\<close> counts the handlers suspended in \<^verbatim>\<open>push_datagram\<close>, \<open>srv_scheduled\<close> the client
  coroutines handed to \<^verbatim>\<open>task_group.start_soon\<close> that have not begun, \<open>srv_running\<close> those that run.
  Three variables are histories: \<open>srv_taken\<close> of the datagrams given to request handlers, \<open>srv_arrived\<close> of
  the datagrams received, and \<open>srv_interrupted\<close>, whether a task of the client was cancelled or could not be started.
\<close>

record 'a server =
  srv_client :: "'a client_data"
  srv_notifying :: nat
  srv_scheduled :: nat
  srv_running :: nat
  srv_taken :: "'a datagram list"
  srv_arrived :: "'a datagram list"
  srv_interrupted :: bool

definition server_init :: "'a server" where
  "server_init = \<lparr>srv_client = client_data_init, srv_notifying = 0, srv_scheduled = 0, srv_running = 0,
     srv_taken = [], srv_arrived = [], srv_interrupted = False\<rparr>"

text \<open>
  \<^verbatim>\<open>__on_client_coroutine_task_done\<close>.  \<open>starts\<close> tells whether \<^verbatim>\<open>task_group.start_soon\<close> accepts the task; it raises
  \<^verbatim>\<open>RuntimeError\<close> in a group that is aborting, which the caller logs: the client then stays pending, with no task.
\<close>

definition client_task_done :: "bool \<Rightarrow> 'a server \<Rightarrow> exc + 'a server" where
  "client_task_done starts s =
     (if queue_is_empty (srv_client s) then Inr s
      else result_bind (mark_pending (srv_client s)) (\<lambda>c.
        Inr (if starts then s\<lparr>srv_client := c, srv_scheduled := srv_scheduled s + 1\<rparr>
             else s\<lparr>srv_client := c, srv_interrupted := True\<rparr>)))"

text \<open>
  The end of \<^verbatim>\<open>__client_coroutine\<close>.  \<open>failure\<close> is what the request handler raised, \<open>None\<close> when it returned:
  \<^verbatim>\<open>mark_done\<close> is called in any case, \<^verbatim>\<open>__on_client_coroutine_task_done\<close> only after a normal end or an \<^verbatim>\<open>Exception\<close>,
  which is logged; a cancellation leaves the coroutine at once.
\<close>

definition end_coroutine :: "exc option \<Rightarrow> bool \<Rightarrow> 'a server \<Rightarrow> exc + 'a server" where
  "end_coroutine failure starts s =
     result_bind (mark_done (srv_client s)) (\<lambda>c.
       let s' = s\<lparr>srv_client := c, srv_running := srv_running s - 1\<rparr> in
       case failure of
         Some e \<Rightarrow> if is_Exception e then client_task_done starts s' else Inr (s'\<lparr>srv_interrupted := True\<rparr>)
       | None \<Rightarrow> client_task_done starts s')"

text \<open>
  The beginning of \<^verbatim>\<open>__client_coroutine\<close>: \<^verbatim>\<open>mark_running\<close>, the call of \<^verbatim>\<open>datagram_received_cb\<close>, which may raise
  (\<open>cb\<close>), then \<^verbatim>\<open>pop_datagram_no_wait\<close> before the request handler first runs.
\<close>

definition begin_coroutine :: "exc option \<Rightarrow> bool \<Rightarrow> 'a server \<Rightarrow> exc + 'a server" where
  "begin_coroutine cb starts s =
     result_bind (mark_running (srv_client s)) (\<lambda>c.
       let s' = s\<lparr>srv_client := c, srv_running := srv_running s + 1\<rparr> in
       case cb of
         Some e \<Rightarrow> end_coroutine (Some e) starts s'
       | None \<Rightarrow>
           (case pop_datagram_no_wait c of
              Inl e \<Rightarrow> end_coroutine (Some e) starts s'
            | Inr (d, c') \<Rightarrow> Inr (s'\<lparr>srv_client := c', srv_taken := srv_taken s @ [d]\<rparr>)))"

text \<open>The handler after \<^verbatim>\<open>push_datagram\<close>: it runs a coroutine when there is none.\<close>

definition handler_after_push :: "exc option \<Rightarrow> bool \<Rightarrow> 'a server \<Rightarrow> exc + 'a server" where
  "handler_after_push cb starts s =
     (if cd_state (srv_client s) = None \<and> 0 < length (cd_queue (srv_client s))
      then result_bind (mark_pending (srv_client s)) (\<lambda>c. begin_coroutine cb starts (s\<lparr>srv_client := c\<rparr>))
      else Inr s)"

definition handler :: "'a datagram \<Rightarrow> exc option \<Rightarrow> bool \<Rightarrow> 'a server \<Rightarrow> exc + 'a server" where
  "handler datagram cb starts s =
     (let (notify, c) = push_datagram datagram (srv_client s);
          s' = s\<lparr>srv_client := c, srv_arrived := srv_arrived s @ [datagram]\<rparr> in
      if notify then Inr (s'\<lparr>srv_notifying := srv_notifying s' + 1\<rparr>) else handler_after_push cb starts s')"

text \<open>
  The events: a datagram, a handler that has notified the condition or is cancelled while it waits for it, a scheduled
  coroutine that begins or is cancelled before it does, a running coroutine that takes a datagram or ends.  Where a coroutine may begin
  or end they carry what \<^verbatim>\<open>datagram_received_cb\<close> or the handler raises and whether a task can be started.
\<close>

datatype 'a server_event =
    Datagram "'a datagram" "exc option" bool
  | Notified "exc option" bool
  | NotifyCancelled
  | Begin "exc option" bool
  | BeginCancelled
  | Take
  | End "exc option" bool

text \<open>\<open>None\<close> when the event cannot happen in the state.\<close>

fun server_apply :: "'a server_event \<Rightarrow> 'a server \<Rightarrow> (exc + 'a server) option" where
  "server_apply (Datagram d cb starts) s = Some (handler d cb starts s)"
| "server_apply (Notified cb starts) s =
     (if 0 < srv_notifying s
      then Some (handler_after_push cb starts (s\<lparr>srv_notifying := srv_notifying s - 1\<rparr>)) else None)"
| "server_apply NotifyCancelled s =
     (if 0 < srv_notifying s
      then Some (Inr (s\<lparr>srv_notifying := srv_notifying s - 1, srv_interrupted := True\<rparr>)) else None)"
| "server_apply (Begin cb starts) s =
     (if 0 < srv_scheduled s
      then Some (begin_coroutine cb starts (s\<lparr>srv_scheduled := srv_scheduled s - 1\<rparr>)) else None)"
| "server_apply BeginCancelled s =
     (if 0 < srv_scheduled s
      then Some (Inr (s\<lparr>srv_scheduled := srv_scheduled s - 1, srv_interrupted := True\<rparr>)) else None)"
| "server_apply Take s =
     (if 0 < srv_running s
      then (case pop_datagram (srv_client s) of
              None \<Rightarrow> None
            | Some (d, c) \<Rightarrow> Some (Inr (s\<lparr>srv_client := c, srv_taken := srv_taken s @ [d]\<rparr>)))
      else None)"
| "server_apply (End failure starts) s =
     (if 0 < srv_running s then Some (end_coroutine failure starts s) else None)"

inductive server_reachable :: "'a server \<Rightarrow> bool" where
  server_start: "server_reachable server_init"
| server_step: "server_reachable s \<Longrightarrow> server_apply e s = Some (Inr s') \<Longrightarrow> server_reachable s'"

section \<open>The invariant\<close>

definition server_inv :: "'a server \<Rightarrow> bool" where
  "server_inv s \<longleftrightarrow>
     srv_arrived s = srv_taken s @ cd_queue (srv_client s) \<and>
     (case cd_state (srv_client s) of
        None \<Rightarrow> srv_scheduled s = 0 \<and> srv_running s = 0 \<and> (cd_queue (srv_client s) = [] \<or> srv_interrupted s)
      | Some TASK_PENDING \<Rightarrow>
          srv_running s = 0 \<and> cd_queue (srv_client s) \<noteq> [] \<and>
          (srv_scheduled s = 1 \<or> srv_scheduled s = 0 \<and> srv_interrupted s)
      | Some TASK_RUNNING \<Rightarrow> srv_scheduled s = 0 \<and> srv_running s = 1)"

text \<open>The four ways to leave a state in which no operation of the client is under way.\<close>

lemma client_task_done_inv:
  assumes "cd_state (srv_client s) = None" and "srv_scheduled s = 0" and "srv_running s = 0"
    and "srv_arrived s = srv_taken s @ cd_queue (srv_client s)"
  shows "\<exists>s'. client_task_done starts s = Inr s' \<and> server_inv s'"
  using assms by (cases starts) (auto simp: client_task_done_def queue_is_empty_def mark_pending_def server_inv_def)

lemma end_coroutine_inv:
  assumes "cd_state (srv_client s) = Some TASK_RUNNING" and "srv_scheduled s = 0" and "srv_running s = 1"
    and "srv_arrived s = srv_taken s @ cd_queue (srv_client s)"
  shows "\<exists>s'. end_coroutine failure starts s = Inr s' \<and> server_inv s'"
proof -
  let ?s = "s\<lparr>srv_client := (srv_client s)\<lparr>cd_state := None\<rparr>, srv_running := 0\<rparr>"
  have "end_coroutine failure starts s =
      (case failure of
         Some e \<Rightarrow> if is_Exception e then client_task_done starts ?s else Inr (?s\<lparr>srv_interrupted := True\<rparr>)
       | None \<Rightarrow> client_task_done starts ?s)"
    using assms by (simp add: end_coroutine_def mark_done_def Let_def cong: option.case_cong)
  moreover have "\<exists>s'. client_task_done starts ?s = Inr s' \<and> server_inv s'"
    by (rule client_task_done_inv) (simp_all add: assms)
  moreover have "server_inv (?s\<lparr>srv_interrupted := True\<rparr>)" using assms by (simp add: server_inv_def)
  ultimately show ?thesis by (auto split: option.split)
qed

lemma begin_coroutine_inv:
  assumes "cd_state (srv_client s) = Some TASK_PENDING" and "srv_scheduled s = 0" and "srv_running s = 0"
    and "cd_queue (srv_client s) \<noteq> []" and "srv_arrived s = srv_taken s @ cd_queue (srv_client s)"
  shows "\<exists>s'. begin_coroutine cb starts s = Inr s' \<and> server_inv s'"
proof (cases cb)
  case None
  with assms show ?thesis
    by (auto simp: begin_coroutine_def mark_running_def pop_datagram_no_wait_def server_inv_def neq_Nil_conv)
next
  case (Some e)
  let ?s = "s\<lparr>srv_client := (srv_client s)\<lparr>cd_state := Some TASK_RUNNING\<rparr>, srv_running := 1\<rparr>"
  have "begin_coroutine cb starts s = end_coroutine (Some e) starts ?s"
    using assms Some by (simp add: begin_coroutine_def mark_running_def)
  moreover have "\<exists>s'. end_coroutine (Some e) starts ?s = Inr s' \<and> server_inv s'"
    by (rule end_coroutine_inv) (simp_all add: assms)
  ultimately show ?thesis by simp
qed

lemma handler_after_push_inv:
  assumes "cd_state (srv_client s) = None" and "srv_scheduled s = 0" and "srv_running s = 0"
    and "cd_queue (srv_client s) \<noteq> []" and "srv_arrived s = srv_taken s @ cd_queue (srv_client s)"
  shows "\<exists>s'. handler_after_push cb starts s = Inr s' \<and> server_inv s'"
proof -
  let ?s = "s\<lparr>srv_client := (srv_client s)\<lparr>cd_state := Some TASK_PENDING\<rparr>\<rparr>"
  have "handler_after_push cb starts s = begin_coroutine cb starts ?s"
    using assms by (simp add: handler_after_push_def mark_pending_def)
  moreover have "\<exists>s'. begin_coroutine cb starts ?s = Inr s' \<and> server_inv s'"
    by (rule begin_coroutine_inv) (simp_all add: assms)
  ultimately show ?thesis by simp
qed

lemma handler_after_push_idle:
  assumes "cd_state (srv_client s) \<noteq> None \<or> cd_queue (srv_client s) = []"
  shows "handler_after_push cb starts s = Inr s"
  using assms by (auto simp: handler_after_push_def)

lemma server_inv_counters:
  "server_inv (s\<lparr>srv_notifying := n\<rparr>) = server_inv s"
  "server_inv s \<Longrightarrow> server_inv (s\<lparr>srv_interrupted := True\<rparr>)"
  by (auto simp: server_inv_def split: option.splits client_state.splits)

lemma server_inv_cases [consumes 1, case_names idle pending running]:
  assumes "server_inv s"
  obtains "cd_state (srv_client s) = None" "srv_scheduled s = 0" "srv_running s = 0"
      "cd_queue (srv_client s) = [] \<or> srv_interrupted s" "srv_arrived s = srv_taken s @ cd_queue (srv_client s)"
    | "cd_state (srv_client s) = Some TASK_PENDING" "srv_running s = 0" "cd_queue (srv_client s) \<noteq> []"
      "srv_scheduled s = 1 \<or> srv_scheduled s = 0 \<and> srv_interrupted s" "srv_arrived s = srv_taken s @ cd_queue (srv_client s)"
    | "cd_state (srv_client s) = Some TASK_RUNNING" "srv_scheduled s = 0" "srv_running s = 1"
      "srv_arrived s = srv_taken s @ cd_queue (srv_client s)"
  using assms by (auto simp: server_inv_def split: option.splits client_state.splits)

lemma after_push_inv:
  assumes "server_inv s"
  shows "\<exists>s'. handler_after_push cb starts s = Inr s' \<and> server_inv s'"
proof (cases "cd_state (srv_client s) \<noteq> None \<or> cd_queue (srv_client s) = []")
  case True
  with assms show ?thesis by (simp add: handler_after_push_idle)
next
  case False
  with assms show ?thesis by (cases rule: server_inv_cases) (auto intro!: handler_after_push_inv)
qed

lemma handler_inv:
  assumes "server_inv s"
  shows "\<exists>s'. handler d cb starts s = Inr s' \<and> server_inv s'"
proof (cases "cd_state (srv_client s) = None")
  case True
  let ?s = "s\<lparr>srv_client := (srv_client s)\<lparr>cd_queue := cd_queue (srv_client s) @ [d]\<rparr>, srv_arrived := srv_arrived s @ [d]\<rparr>"
  have "handler d cb starts s = handler_after_push cb starts ?s"
    using True by (simp add: handler_def push_datagram_def)
  moreover have "\<exists>s'. handler_after_push cb starts ?s = Inr s' \<and> server_inv s'"
    by (rule handler_after_push_inv) (use assms True in \<open>simp_all add: server_inv_def\<close>)
  ultimately show ?thesis by simp
next
  case False
  with assms show ?thesis
    by (auto simp: handler_def push_datagram_def server_inv_def split: option.splits client_state.splits)
qed

text \<open>Every event that can happen succeeds and keeps the invariant.\<close>

lemma server_inv_apply:
  assumes "server_inv s" and "server_apply e s = Some r"
  shows "\<exists>s'. r = Inr s' \<and> server_inv s'"
proof (cases e)
  case (Datagram d cb starts)
  with assms handler_inv [OF assms(1), of d cb starts] show ?thesis by simp
next
  case (Notified cb starts)
  let ?s = "s\<lparr>srv_notifying := srv_notifying s - 1\<rparr>"
  have "r = handler_after_push cb starts ?s" using Notified assms(2) by (simp split: if_splits)
  moreover have "\<exists>s'. handler_after_push cb starts ?s = Inr s' \<and> server_inv s'"
    by (rule after_push_inv) (simp add: server_inv_counters assms(1))
  ultimately show ?thesis by simp
next
  case NotifyCancelled
  have "server_inv (s\<lparr>srv_notifying := srv_notifying s - 1, srv_interrupted := True\<rparr>)"
    using assms(1) by (intro server_inv_counters(2)) (simp add: server_inv_counters)
  with NotifyCancelled assms(2) show ?thesis by (auto split: if_splits)
next
  case (Begin cb starts)
  let ?s = "s\<lparr>srv_scheduled := srv_scheduled s - 1\<rparr>"
  have "r = begin_coroutine cb starts ?s" and "0 < srv_scheduled s" using Begin assms(2) by (simp_all split: if_splits)
  moreover have "\<exists>s'. begin_coroutine cb starts ?s = Inr s' \<and> server_inv s'"
    by (rule begin_coroutine_inv; use assms(1) \<open>0 < srv_scheduled s\<close> in \<open>cases rule: server_inv_cases\<close>) simp_all
  ultimately show ?thesis by simp
next
  case BeginCancelled
  with assms show ?thesis by (auto simp: server_inv_def split: if_splits option.splits client_state.splits)
next
  case Take
  with assms show ?thesis
    by (auto simp: server_inv_def pop_datagram_def split: if_splits option.splits client_state.splits list.splits)
next
  case (End failure starts)
  have "r = end_coroutine failure starts s" and "0 < srv_running s" using End assms(2) by (simp_all split: if_splits)
  moreover have "\<exists>s'. end_coroutine failure starts s = Inr s' \<and> server_inv s'"
    by (rule end_coroutine_inv; use assms(1) \<open>0 < srv_running s\<close> in \<open>cases rule: server_inv_cases\<close>) simp_all
  ultimately show ?thesis by simp
qed

lemma server_inv_reachable: "server_reachable s \<Longrightarrow> server_inv s"
proof (induction rule: server_reachable.induct)
  case server_start
  show ?case by (simp add: server_inv_def server_init_def client_data_init_def)
next
  case (server_step s e s')
  then show ?case using server_inv_apply by fastforce
qed

section \<open>Properties\<close>

text \<open>
  C13: the server never runs two request handlers for one client, and never gets into the
  inconsistent state its \<^verbatim>\<open>_ClientData\<close> guards against.  In every reachable state at most one
  coroutine exists, a scheduled one finds a datagram in the queue, and no event raises: a datagram, a handler waking up after
  its notification, a coroutine beginning, taking a datagram, ending or failing, a task being cancelled or not
  accepted by the task group.  Unless a task was cancelled or not accepted, datagrams wait in the queue only while a
  coroutine exists.
\<close>

theorem datagram_server_one_handler:
  assumes "server_reachable s" and "server_apply e s = Some r"
  shows "srv_scheduled s + srv_running s \<le> 1
    \<and> (0 < srv_scheduled s \<longrightarrow> cd_queue (srv_client s) \<noteq> [])
    \<and> (\<not> srv_interrupted s \<longrightarrow> cd_queue (srv_client s) = [] \<or> srv_scheduled s + srv_running s = 1)
    \<and> (\<exists>s'. r = Inr s')"
proof -
  have inv: "server_inv s" using assms(1) by (rule server_inv_reachable)
  note succeeds = server_inv_apply [OF inv assms(2)]
  from inv show ?thesis by (cases rule: server_inv_cases) (use succeeds in auto)
qed

text \<open>
  The datagrams of a client reach its request handlers in the order of their arrival, none is
  lost or given twice, whatever is cancelled.
\<close>

theorem datagram_server_fifo:
  assumes "server_reachable s"
  shows "srv_arrived s = srv_taken s @ cd_queue (srv_client s)"
  using server_inv_reachable [OF assms] by (simp add: server_inv_def)

text \<open>
  Parsing a datagram yields the packet or a \<^verbatim>\<open>DatagramProtocolParseError\<close>; every other
  \<^verbatim>\<open>Exception\<close> of the protocol, its serializer or its converter becomes a \<^verbatim>\<open>RuntimeError\<close>.
\<close>

theorem parse_datagram_outcome:
  "parse_datagram (build_packet_from_datagram ser conv) d =
     (case deserialize ser d of
        Inl e \<Rightarrow> Inl (if is_DeserializeError e then DatagramProtocolParseError e
                      else if is_DatagramProtocolParseError e \<or> \<not> is_Exception e then e
                      else RuntimeError ''protocol.build_packet_from_datagram() crashed'')
      | Inr x \<Rightarrow>
          (case create_from_dto_packet conv x of
             Inl e \<Rightarrow> Inl (if is_PacketConversionError e then DatagramProtocolParseError e
                           else if is_DatagramProtocolParseError e \<or> \<not> is_Exception e then e
                           else RuntimeError ''protocol.build_packet_from_datagram() crashed'')
           | Inr p \<Rightarrow> Inr p))"
  by (auto simp: parse_datagram_def build_packet_from_datagram_def split: sum.split)

section \<open>Witnesses\<close>

text \<open>
  Three datagrams: the coroutine of the first is cancelled while the second waits, the third finds no coroutine and starts one,
  which takes the second and fails.
\<close>

definition server_example :: "bytes server" where
  "server_example = \<lparr>srv_client = \<lparr>cd_state = Some TASK_PENDING, cd_queue = [(''c'', None)]\<rparr>, srv_notifying = 1,
     srv_scheduled = 1, srv_running = 0, srv_taken = [(''a'', None), (''b'', None)],
     srv_arrived = [(''a'', None), (''b'', None), (''c'', None)], srv_interrupted = True\<rparr>"

fun datagram_run :: "'a server_event list \<Rightarrow> 'a server \<Rightarrow> 'a server option" where
  "datagram_run [] s = Some s"
| "datagram_run (e # es) s = (case server_apply e s of Some (Inr s') \<Rightarrow> datagram_run es s' | _ \<Rightarrow> None)"

lemma datagram_run_reachable: "server_reachable s \<Longrightarrow> datagram_run es s = Some s' \<Longrightarrow> server_reachable s'"
  by (induction es arbitrary: s) (auto intro: server_step split: option.splits sum.splits)

lemma server_example_reachable: "server_reachable server_example"
proof (rule datagram_run_reachable [OF server_start])
  show "datagram_run [Datagram (''a'', None) None True, Datagram (''b'', None) None True, End (Some CancelledError) True,
      Datagram (''c'', None) None True, End (Some (ValueError ''x'')) True] server_init = Some server_example"
    by code_simp
qed

theorem datagram_server_one_handler_witness:
  "srv_scheduled server_example + srv_running server_example \<le> 1
     \<and> (\<exists>s'. handler (''d'', None) None True server_example = Inr s')"
  using datagram_server_one_handler [OF server_example_reachable, of "Datagram (''d'', None) None True"] by simp

theorem datagram_server_fifo_witness:
  "srv_arrived server_example = srv_taken server_example @ cd_queue (srv_client server_example)"
  by (rule datagram_server_fifo [OF server_example_reachable])

end
