(* ===== verification/DatagramHandlers.thy ===== *)
theory DatagramHandlers
  imports DatagramServer AsyncStreamServer
begin

text \<open>
  The coroutine that serves the datagrams of one client,
  \<^verbatim>\<open>src/src/easynetwork/lowlevel/api_async/servers/datagram.py\<close> (\<^verbatim>\<open>__client_coroutine\<close>): it runs the request handler, an
  asynchronous generator of the application, against the queue of \<^verbatim>\<open>_ClientData\<close> and the parser of the protocol.

  The handler, \<^verbatim>\<open>RecvParams\<close> and the backend are those of \<open>AsyncStreamServer\<close>.  The client data is a part of the world,
  which other tasks change whenever the coroutine awaits.
\<close>

section \<open>Waiting for a datagram\<close>

text \<open>
  Access to the client data, and the condition variable: \<open>cq_acquire\<close> is entering \<^verbatim>\<open>async with queue_condition\<close>,
  \<open>cq_wait\<close> is \<^verbatim>\<open>await queue_condition.wait()\<close>; both raise when the task is cancelled.
\<close>

record ('a, 'w) client_queue =
  cq_get :: "'w \<Rightarrow> 'a client_data"
  cq_put :: "'a client_data \<Rightarrow> 'w \<Rightarrow> 'w"
  cq_acquire :: "'w \<Rightarrow> exc option \<times> 'w"
  cq_wait :: "'w \<Rightarrow> exc option \<times> 'w"

text \<open>The loop of \<^verbatim>\<open>pop_datagram\<close>; \<open>None\<close> is a task that is woken up for ever with nothing in the queue.\<close>

partial_function (option) pop_datagram_loop ::
  "('a, 'w) client_queue \<Rightarrow> 'w \<Rightarrow> ((exc + 'a datagram) \<times> 'w) option"
where
  "pop_datagram_loop Q w =
     (case pop_datagram (cq_get Q w) of
        Some (d, c) \<Rightarrow> Some (Inr d, cq_put Q c w)
      | None \<Rightarrow>
          (case cq_wait Q w of
             (Some e, w') \<Rightarrow> Some (Inl e, w')
           | (None, w') \<Rightarrow> pop_datagram_loop Q w'))"

definition pop_datagram_wait ::
  "('a, 'w) client_queue \<Rightarrow> 'w \<Rightarrow> ((exc + 'a datagram) \<times> unit \<times> 'w) option"
where
  "pop_datagram_wait Q w =
     (case cq_acquire Q w of
        (Some e, w') \<Rightarrow> Some (Inl e, (), w')
      | (None, w') \<Rightarrow> map_option (\<lambda>(r, w''). (r, (), w'')) (pop_datagram_loop Q w'))"

section \<open>Ancillary data and parsing\<close>

text \<open>\<open>\_ServerAncillaryDataParams\<close>; \<open>None\<close> for a server that does not ask for ancillary data.\<close>

record ('a, 'c) ancillary_params =
  ap_bufsize :: nat
  ap_data_unused :: "('a \<Rightarrow> 'c \<Rightarrow> exc option) option"

definition callback_crashed :: "string \<Rightarrow> exc option \<Rightarrow> exc option" where
  "callback_crashed msg r = (case r of None \<Rightarrow> None | Some e \<Rightarrow> Some (if is_Exception e then RuntimeError msg else e))"

definition handle_ancillary_data ::
  "'a option \<Rightarrow> ('a \<Rightarrow> exc option) option \<Rightarrow> ('a, 'c) ancillary_params option \<Rightarrow> 'c \<Rightarrow> exc option"
where
  "handle_ancillary_data ancillary recv_with_ancillary params address =
     (case params of
        None \<Rightarrow>
          (case recv_with_ancillary of
             None \<Rightarrow> None
           | Some _ \<Rightarrow> Some (UnsupportedOperation ''The server is not configured to handle ancillary data.''))
      | Some p \<Rightarrow>
          (case ancillary of
             None \<Rightarrow> None
           | Some a \<Rightarrow>
               (case recv_with_ancillary of
                  Some data_received \<Rightarrow>
                    callback_crashed ''RecvAncillaryDataParams.data_received() crashed'' (data_received a)
                | None \<Rightarrow>
                    (case ap_data_unused p of
                       None \<Rightarrow> None
                     | Some unused \<Rightarrow> callback_crashed ''ancillary_data_unused() crashed'' (unused a address)))))"

text \<open>What one server has for all its clients, and the address of the client.\<close>

record ('r, 'a, 'c) datagram_context =
  dc_build_packet :: "bytes \<Rightarrow> exc + 'r"
  dc_ancillary :: "('a, 'c) ancillary_params option"
  dc_address :: 'c

definition accept_datagram ::
  "('r, 'a, 'c) datagram_context \<Rightarrow> ('a \<Rightarrow> exc option) option \<Rightarrow> 'a datagram \<Rightarrow> exc + 'r"
where
  "accept_datagram C recv_with_ancillary d =
     (case handle_ancillary_data (snd d) recv_with_ancillary (dc_ancillary C) (dc_address C) of
        Some e \<Rightarrow> Inl e
      | None \<Rightarrow> parse_datagram (dc_build_packet C) (fst d))"

section \<open>The coroutine\<close>

text \<open>
  The first datagram has been taken from the queue before the handler runs: its parameters are checked (the
  time limit has nothing to wait for), then the ancillary data is handled in any case.
\<close>

definition first_request :: "('r, 'a, 'c) datagram_context \<Rightarrow> 'a yielded \<Rightarrow> 'a datagram \<Rightarrow> exc + 'r" where
  "first_request C y d =
     (let params = rcv y;
          checked = result_bind params (\<lambda>p. validate_optional_timeout_delay (rp_timeout p) True);
          recv_with_ancillary = (case params of Inl _ \<Rightarrow> None | Inr p \<Rightarrow> rp_recv_with_ancillary p) in
      case handle_ancillary_data (snd d) recv_with_ancillary (dc_ancillary C) (dc_address C) of
        Some e \<Rightarrow> Inl e
      | None \<Rightarrow> result_bind checked (\<lambda>_. parse_datagram (dc_build_packet C) (fst d)))"

text \<open>A pass of the loop: the parameters, the next datagram within the time limit, its packet.\<close>

definition next_request ::
  "'w backend \<Rightarrow> ('a, 'w) client_queue \<Rightarrow> ('r, 'a, 'c) datagram_context \<Rightarrow> 'a yielded \<Rightarrow> 'w \<Rightarrow> ((exc + 'r) \<times> 'w) option"
where
  "next_request B Q C y w =
     (case rcv y of
        Inl e \<Rightarrow> Some (Inl e, w)
      | Inr params \<Rightarrow>
          (case validate_optional_timeout_delay (rp_timeout params) True of
             Inl e \<Rightarrow> Some (Inl e, w)
           | Inr timeout \<Rightarrow>
               (case (if timeout = Infinity then pop_datagram_wait Q w
                      else within_timeout B timeout (pop_datagram_wait Q) w) of
                  None \<Rightarrow> None
                | Some (Inl e, _, w') \<Rightarrow> Some (Inl e, w')
                | Some (Inr d, _, w') \<Rightarrow> Some (accept_datagram C (rp_recv_with_ancillary params) d, w'))))"

text \<open>
  The loop, followed for \<open>n\<close> passes; the list is the history of what the handler was resumed with.
\<close>

fun datagram_loop ::
  "nat \<Rightarrow> 'w backend \<Rightarrow> ('a, 'w) client_queue \<Rightarrow> ('r, 'a, 'h, 'w) request_handler \<Rightarrow> ('r, 'a, 'c) datagram_context
     \<Rightarrow> 'a yielded \<Rightarrow> 'h \<Rightarrow> 'w \<Rightarrow> (loop_end \<times> (exc + 'r) list \<times> 'h option \<times> 'w) option"
where
  "datagram_loop 0 B Q H C y h w = Some (Running, [], Some h, w)"
| "datagram_loop (Suc n) B Q H C y h w =
     (case next_request B Q C y w of
        None \<Rightarrow> None
      | Some (res, w1) \<Rightarrow>
          (case rh_resume H res h w1 of
             (Stops, w2) \<Rightarrow> Some (Stopped, [res], None, w2)
           | (Raises e, w2) \<Rightarrow> Some (Crashed e, [res], None, w2)
           | (Yields y' h', w2) \<Rightarrow>
               (case datagram_loop n B Q H C y' h' w2 of
                  None \<Rightarrow> None
                | Some (end, inputs, h'', w3) \<Rightarrow> Some (end, res # inputs, h'', w3))))"

text \<open>
  \<^verbatim>\<open>__client_coroutine_inner_loop\<close>: the exception it raises and the inputs of the handler.  \<open>None\<close>: still running after
  \<open>n\<close> passes, or a wait that does not end.
\<close>

definition client_inner_loop ::
  "nat \<Rightarrow> 'w backend \<Rightarrow> ('a, 'w) client_queue \<Rightarrow> ('r, 'a, 'h, 'w) request_handler \<Rightarrow> ('r, 'a, 'c) datagram_context
     \<Rightarrow> 'h \<Rightarrow> 'w \<Rightarrow> ((exc + 'r) list \<times> exc option \<times> 'w) option"
where
  "client_inner_loop n B Q H C h w =
     (let finish = (\<lambda>(inputs, h', exc, w'). Some (inputs, close_generator H h' exc w')) in
      case pop_datagram_no_wait (cq_get Q w) of
        Inl e \<Rightarrow> finish ([], Some h, Some e, w)
      | Inr (d, c) \<Rightarrow>
          (case rh_anext H h (cq_put Q c w) of
             (Stops, w2) \<Rightarrow> finish ([], None, handle_ancillary_data (snd d) None (dc_ancillary C) (dc_address C), w2)
           | (Raises e, w2) \<Rightarrow> finish ([], None, Some e, w2)
           | (Yields y h', w2) \<Rightarrow>
               let res = first_request C y d in
               (case rh_resume H res h' w2 of
                  (Stops, w3) \<Rightarrow> finish ([res], None, None, w3)
                | (Raises e, w3) \<Rightarrow> finish ([res], None, Some e, w3)
                | (Yields y' h'', w3) \<Rightarrow>
                    (case datagram_loop n B Q H C y' h'' w3 of
                       None \<Rightarrow> None
                     | Some (end, inputs, h3, w4) \<Rightarrow>
                         if end = Running then None else finish (res # inputs, h3, loop_error end, w4)))))"

record ('r, 'w) datagram_client_end =
  de_inputs :: "(exc + 'r) list"
  de_logged :: "exc list"
  de_raised :: "exc option"
  de_scheduled :: bool
  de_world :: 'w

text \<open>\<^verbatim>\<open>__on_client_coroutine_task_done\<close>: whether a new coroutine is started.\<close>

definition on_client_coroutine_task_done :: "('a, 'w) client_queue \<Rightarrow> 'w \<Rightarrow> exc + bool \<times> 'w" where
  "on_client_coroutine_task_done Q w =
     (if queue_is_empty (cq_get Q w) then Inr (False, w)
      else result_bind (mark_pending (cq_get Q w)) (\<lambda>c. Inr (True, cq_put Q c w)))"

text \<open>
  \<^verbatim>\<open>__client_coroutine\<close>.  The generator is made by \<^verbatim>\<open>datagram_received_cb(client_ctx)\<close> (\<open>rh_connect\<close>); errors of
  the first \<^verbatim>\<open>mark_running\<close> and of \<^verbatim>\<open>mark_done\<close> are raised, the others logged.
\<close>

definition end_datagram_client ::
  "('a, 'w) client_queue \<Rightarrow> (exc + 'r) list \<times> exc option \<times> 'w \<Rightarrow> ('r, 'w) datagram_client_end"
where
  "end_datagram_client Q body =
     (case body of (inputs, exc, w) \<Rightarrow>
        (case unhandled_exception_log exc of (logged, raised) \<Rightarrow>
           let log = (case logged of None \<Rightarrow> [] | Some e \<Rightarrow> [e]);
               stop = (\<lambda>log raised scheduled w'. \<lparr>de_inputs = inputs, de_logged = log, de_raised = raised,
                         de_scheduled = scheduled, de_world = w'\<rparr>) in
           case mark_done (cq_get Q w) of
             Inl e \<Rightarrow> stop log (Some e) False w
           | Inr c \<Rightarrow>
               (if raised \<noteq> None then stop log raised False (cq_put Q c w)
                else (case on_client_coroutine_task_done Q (cq_put Q c w) of
                        Inl e \<Rightarrow> stop (log @ [e]) None False (cq_put Q c w)
                      | Inr (scheduled, w') \<Rightarrow> stop log None scheduled w'))))"

definition datagram_client_coroutine ::
  "nat \<Rightarrow> 'w backend \<Rightarrow> ('a, 'w) client_queue \<Rightarrow> ('r, 'a, 'h, 'w) request_handler \<Rightarrow> ('r, 'a, 'c) datagram_context
     \<Rightarrow> 'w \<Rightarrow> ('r, 'w) datagram_client_end option"
where
  "datagram_client_coroutine n B Q H C w =
     (case mark_running (cq_get Q w) of
        Inl e \<Rightarrow> Some \<lparr>de_inputs = [], de_logged = [], de_raised = Some e, de_scheduled = False, de_world = w\<rparr>
      | Inr c \<Rightarrow>
          (case rh_connect H (cq_put Q c w) of
             (Inl e, w1) \<Rightarrow> Some (end_datagram_client Q ([], Some e, w1))
           | (Inr h, w1) \<Rightarrow> map_option (end_datagram_client Q) (client_inner_loop n B Q H C h w1)))"

section \<open>The interface of the queue\<close>

text \<open>
  What is given to the handlers of a client, in order: \<open>datagram_trace parse ds inputs rest\<close> says that \<open>inputs\<close> are the
  outcomes of parsing the datagrams of \<open>ds\<close> up to those of \<open>rest\<close>, each once, mixed with time-outs and cancellations.
\<close>

definition interruption :: "exc \<Rightarrow> bool" where
  "interruption e \<longleftrightarrow> e = CancelledError \<or> e = TimeoutError ''timed out''"

inductive datagram_trace ::
  "('a datagram \<Rightarrow> exc + 'r) \<Rightarrow> 'a datagram list \<Rightarrow> (exc + 'r) list \<Rightarrow> 'a datagram list \<Rightarrow> bool"
  for parse
where
  trace_Nil: "datagram_trace parse ds [] ds"
| trace_datagram: "datagram_trace parse ds inputs rest \<Longrightarrow> datagram_trace parse (d # ds) (parse d # inputs) rest"
| trace_interruption: "interruption e \<Longrightarrow> datagram_trace parse ds inputs rest \<Longrightarrow> datagram_trace parse ds (Inl e # inputs) rest"

inductive_cases datagram_trace_NilE: "datagram_trace parse ds [] rest"

lemma datagram_trace_suffix: "datagram_trace parse ds inputs rest \<Longrightarrow> \<exists>taken. ds = taken @ rest \<and> length taken \<le> length inputs"
proof (induction rule: datagram_trace.induct)
  case (trace_datagram ds inputs rest d)
  then obtain taken where "ds = taken @ rest" "length taken \<le> length inputs" by blast
  then have "d # ds = (d # taken) @ rest \<and> length (d # taken) \<le> length (parse d # inputs)" by simp
  then show ?case by blast
qed fastforce+

text \<open>
  \<open>future\<close>: the datagrams that will arrive later.  While a task waits, datagrams are only added to the end of the queue; it
  is only stopped from waiting by a notification (there are \<open>wakeups\<close> of them to come) or a cancellation; and only the
  coroutine changes the state of the client.
\<close>

locale datagram_source =
  fixes Q :: "('a, 'w) client_queue" and future :: "'w \<Rightarrow> 'a datagram list" and wakeups :: "'w \<Rightarrow> nat"
  assumes get_put: "cq_get Q (cq_put Q c w) = c"
    and future_put: "future (cq_put Q c w) = future w"
    and acquire_keeps: "cq_acquire Q w = (r, w') \<Longrightarrow>
      cd_queue (cq_get Q w') @ future w' = cd_queue (cq_get Q w) @ future w \<and> cd_state (cq_get Q w') = cd_state (cq_get Q w)
      \<and> (r = None \<or> r = Some CancelledError)"
    and wait_keeps: "cq_wait Q w = (r, w') \<Longrightarrow>
      cd_queue (cq_get Q w') @ future w' = cd_queue (cq_get Q w) @ future w \<and> cd_state (cq_get Q w') = cd_state (cq_get Q w)
      \<and> (r = None \<or> r = Some CancelledError)"
    and wait_wakeup: "cq_wait Q w = (None, w') \<Longrightarrow> wakeups w' < wakeups w"
begin

definition coming :: "'w \<Rightarrow> 'a datagram list \<times> client_state option" where
  "coming w = (cd_queue (cq_get Q w) @ future w, cd_state (cq_get Q w))"

lemma coming_put: "coming (cq_put Q c w) = (cd_queue c @ future w, cd_state c)"
  by (simp add: coming_def get_put future_put)

text \<open>A wait takes the next datagram or is cancelled.\<close>

definition popped :: "'w \<Rightarrow> exc + 'a datagram \<Rightarrow> 'w \<Rightarrow> bool" where
  "popped w r w' \<longleftrightarrow>
     (case r of
        Inr d \<Rightarrow> coming w = (d # fst (coming w'), snd (coming w'))
      | Inl e \<Rightarrow> e = CancelledError \<and> coming w' = coming w)"

lemma popped_cong: "coming w1 = coming w \<Longrightarrow> popped w1 r w' = popped w r w'"
  by (simp add: popped_def split: sum.split)

lemma pop_loop: "\<exists>r w'. pop_datagram_loop Q w = Some (r, w') \<and> popped w r w'"
proof (induction "wakeups w" arbitrary: w rule: less_induct)
  case less
  show ?case
  proof (cases "cd_queue (cq_get Q w)")
    case (Cons d ds)
    then have "pop_datagram_loop Q w = Some (Inr d, cq_put Q ((cq_get Q w)\<lparr>cd_queue := ds\<rparr>) w)"
      by (subst pop_datagram_loop.simps) (simp add: pop_datagram_def)
    then show ?thesis using Cons by (simp add: popped_def coming_put) (simp add: coming_def)
  next
    case Nil
    obtain r w1 where w1: "cq_wait Q w = (r, w1)" by fastforce
    from wait_keeps [OF w1] have c: "coming w1 = coming w" "r = None \<or> r = Some CancelledError"
      by (auto simp: coming_def)
    show ?thesis
    proof (cases r)
      case None
      from less [OF wait_wakeup [OF w1 [unfolded None]]] obtain r' w' where
        "pop_datagram_loop Q w1 = Some (r', w')" "popped w1 r' w'" by blast
      then show ?thesis using Nil w1 None popped_cong [OF c(1)]
        by (subst pop_datagram_loop.simps) (simp add: pop_datagram_def)
    next
      case (Some e)
      with c Nil w1 show ?thesis
        by (subst pop_datagram_loop.simps) (simp add: pop_datagram_def popped_def)
    qed
  qed
qed

lemma pop_wait: "\<exists>r w'. pop_datagram_wait Q w = Some (r, (), w') \<and> popped w r w'"
proof -
  obtain r w1 where w1: "cq_acquire Q w = (r, w1)" by fastforce
  from acquire_keeps [OF w1] have c: "coming w1 = coming w" "r = None \<or> r = Some CancelledError"
    by (auto simp: coming_def)
  from pop_loop [of w1] obtain r' w' where "pop_datagram_loop Q w1 = Some (r', w')" "popped w1 r' w'" by blast
  with w1 popped_cong [OF c(1)] have "r = None \<Longrightarrow> ?thesis" by (simp add: pop_datagram_wait_def)
  with w1 c show ?thesis by (auto simp: pop_datagram_wait_def popped_def)
qed

text \<open>Under a time limit it may also time out, and then no datagram has been taken.\<close>

definition popped_in_time :: "'w \<Rightarrow> exc + 'a datagram \<Rightarrow> 'w \<Rightarrow> bool" where
  "popped_in_time w r w' \<longleftrightarrow>
     (case r of
        Inr d \<Rightarrow> coming w = (d # fst (coming w'), snd (coming w'))
      | Inl e \<Rightarrow> interruption e \<and> coming w' = coming w)"

lemma popped_popped_in_time: "popped w r w' \<Longrightarrow> popped_in_time w r w'"
  by (auto simp: popped_def popped_in_time_def interruption_def split: sum.splits)

lemma pop_in_time:
  assumes "scopes_keep coming B"
  shows "\<exists>r w'. within_timeout B t (pop_datagram_wait Q) w = Some (r, (), w') \<and> popped_in_time w r w'"
proof -
  let ?w = "be_enter B t w"
  from pop_wait [of ?w] obtain r w1 where r: "pop_datagram_wait Q ?w = Some (r, (), w1)" "popped ?w r w1" by blast
  obtain s c w2 where e: "be_exit B (error_of r) w1 = ((s, c), w2)" by (metis surj_pair)
  note x = scopes_keepD(2) [OF assms e]
  have same: "coming ?w = coming w" using assms by (rule scopes_keepD(1))
  show ?thesis
  proof (cases r)
    case (Inl exc)
    with e have "be_exit B (Some exc) w1 = ((s, c), w2)" by (simp add: error_of_def)
    with Inl r x same show ?thesis
      by (cases "s \<and> c") (auto simp: within_timeout_def timeout_scope_exit_def error_of_def popped_def popped_in_time_def interruption_def)
  next
    case (Inr d)
    with x have "\<not> s" by (simp add: error_of_def)
    with Inr r x same e show ?thesis
      by (simp add: within_timeout_def timeout_scope_exit_def error_of_def popped_def popped_in_time_def)
  qed
qed

end

section \<open>Handlers against the interface\<close>

text \<open>
  A legal yield: \<^verbatim>\<open>None\<close> or parameters with a valid time limit; ancillary data is asked for only if the server
  receives it, and the callbacks do not raise.
\<close>

definition legal_yield :: "('r, 'a, 'c) datagram_context \<Rightarrow> 'a yielded \<Rightarrow> bool" where
  "legal_yield C y \<longleftrightarrow>
     (case rcv y of
        Inl _ \<Rightarrow> False
      | Inr p \<Rightarrow>
          (\<exists>t. validate_optional_timeout_delay (rp_timeout p) True = Inr t) \<and>
          (\<forall>a. handle_ancillary_data a (rp_recv_with_ancillary p) (dc_ancillary C) (dc_address C) = None))"

fun legal_output :: "('r, 'a, 'c) datagram_context \<Rightarrow> ('a, 'h) handler_output \<Rightarrow> bool" where
  "legal_output C (Yields y _) \<longleftrightarrow> legal_yield C y"
| "legal_output C _ \<longleftrightarrow> True"

text \<open>The handler does not touch what \<open>view\<close> shows of the world, and its yields are legal.\<close>

definition legal_handler ::
  "('w \<Rightarrow> 'v) \<Rightarrow> ('r, 'a, 'c) datagram_context \<Rightarrow> ('r, 'a, 'h, 'w) request_handler \<Rightarrow> bool"
where
  "legal_handler view C H \<longleftrightarrow>
     (\<forall>w. view (snd (rh_connect H w)) = view w) \<and>
     (\<forall>h w. view (snd (rh_anext H h w)) = view w \<and> legal_output C (fst (rh_anext H h w))) \<and>
     (\<forall>i h w. view (snd (rh_resume H i h w)) = view w \<and> legal_output C (fst (rh_resume H i h w))) \<and>
     (\<forall>h w. view (snd (rh_aclose H h w)) = view w)"

lemma legal_handlerD:
  assumes "legal_handler view C H"
  shows "rh_connect H w = (c, w') \<Longrightarrow> view w' = view w"
    and "rh_anext H h w = (out, w') \<Longrightarrow> view w' = view w \<and> legal_output C out"
    and "rh_resume H i h w = (out, w') \<Longrightarrow> view w' = view w \<and> legal_output C out"
    and "rh_aclose H h w = (r, w') \<Longrightarrow> view w' = view w"
  using assms unfolding legal_handler_def
  by (metis snd_conv, metis fst_conv snd_conv, metis fst_conv snd_conv, metis snd_conv)

lemma close_generator_view:
  assumes "legal_handler view C H" and "close_generator H h exc w = (r, w')"
  shows "view w' = view w"
  using assms(2) legal_handlerD(4) [OF assms(1)]
  by (auto simp: close_generator_def split: option.splits prod.splits)

text \<open>Handlers that end when they are interrupted.\<close>

definition ends_when_interrupted :: "('r, 'a, 'h, 'w) request_handler \<Rightarrow> bool" where
  "ends_when_interrupted H \<longleftrightarrow> (\<forall>e h w y h'. interruption e \<longrightarrow> fst (rh_resume H (Inl e) h w) \<noteq> Yields y h')"

abbreviation parsed :: "('r, 'a, 'c) datagram_context \<Rightarrow> 'a datagram \<Rightarrow> exc + 'r" where
  "parsed C d \<equiv> parse_datagram (dc_build_packet C) (fst d)"

lemma first_request_legal: "legal_yield C y \<Longrightarrow> first_request C y d = parsed C d"
  by (auto simp: legal_yield_def first_request_def result_bind_def Let_def split: sum.splits)

lemma accept_datagram_legal:
  "legal_yield C y \<Longrightarrow> rcv y = Inr p \<Longrightarrow> accept_datagram C (rp_recv_with_ancillary p) d = parsed C d"
  by (simp add: legal_yield_def accept_datagram_def)

text \<open>Calling the generator function runs nothing of the application but the call: no other task runs meanwhile.\<close>

definition connects_at_once :: "('a, 'w) client_queue \<Rightarrow> ('r, 'a, 'h, 'w) request_handler \<Rightarrow> bool" where
  "connects_at_once Q H \<longleftrightarrow> (\<forall>w. cq_get Q (snd (rh_connect H w)) = cq_get Q w)"

context datagram_source
begin

text \<open>What a pass gives to the handler: the next datagram, parsed, or an interruption.\<close>

lemma next_request_step:
  assumes "scopes_keep coming B" and "legal_yield C y"
  shows "\<exists>res w'. next_request B Q C y w = Some (res, w') \<and> snd (coming w') = snd (coming w)
    \<and> ((\<exists>d. fst (coming w) = d # fst (coming w') \<and> res = parsed C d)
        \<or> (\<exists>e. res = Inl e \<and> interruption e \<and> coming w' = coming w))"
proof -
  obtain p t where p: "rcv y = Inr p" "validate_optional_timeout_delay (rp_timeout p) True = Inr t"
    using assms(2) by (auto simp: legal_yield_def split: sum.splits)
  obtain r w' where r: "(if t = Infinity then pop_datagram_wait Q w else within_timeout B t (pop_datagram_wait Q) w)
      = Some (r, (), w')" "popped_in_time w r w'"
    using pop_wait [of w] pop_in_time [OF assms(1), of t w] popped_popped_in_time by (cases "t = Infinity") auto
  have "next_request B Q C y w = (case r of Inl e \<Rightarrow> Some (Inl e, w') | Inr d \<Rightarrow> Some (parsed C d, w'))"
    unfolding next_request_def using p r(1) accept_datagram_legal [OF assms(2) p(1)] by (simp split: sum.split)
  with r(2) show ?thesis by (cases r) (auto simp: popped_in_time_def)
qed

lemma datagram_loop_delivers:
  assumes "scopes_keep coming B" and "legal_handler coming C H" and "legal_yield C y"
  shows "\<exists>end inputs h' w'. datagram_loop n B Q H C y h w = Some (end, inputs, h', w')
    \<and> datagram_trace (parsed C) (fst (coming w)) inputs (fst (coming w')) \<and> snd (coming w') = snd (coming w)
    \<and> (ends_when_interrupted H \<and> length (fst (coming w)) < n \<longrightarrow> end \<noteq> Running)"
  using assms(3)
proof (induction n arbitrary: y h w)
  case 0
  show ?case by (simp add: trace_Nil)
next
  case (Suc n)
  from next_request_step [OF assms(1) Suc.prems, of w] obtain res w1 where
    r: "next_request B Q C y w = Some (res, w1)" "snd (coming w1) = snd (coming w)"
      "(\<exists>d. fst (coming w) = d # fst (coming w1) \<and> res = parsed C d)
        \<or> (\<exists>e. res = Inl e \<and> interruption e \<and> coming w1 = coming w)" by blast
  obtain o2 w2 where h: "rh_resume H res h w1 = (o2, w2)" by fastforce
  from legal_handlerD(3) [OF assms(2) h] have w2: "coming w2 = coming w1" "legal_output C o2" by auto
  have step: "datagram_trace (parsed C) (fst (coming w)) (res # inputs) rest"
    if "datagram_trace (parsed C) (fst (coming w1)) inputs rest" for inputs rest
    using that r(3) trace_datagram [of "parsed C"] trace_interruption [of _ "parsed C"] by fastforce
  show ?case
  proof (cases o2)
    case (Yields y' h')
    with w2 have "legal_yield C y'" by simp
    from Suc.IH [OF this, of h' w2] obtain en inputs h'' w' where
      l: "datagram_loop n B Q H C y' h' w2 = Some (en, inputs, h'', w')"
        "datagram_trace (parsed C) (fst (coming w1)) inputs (fst (coming w'))" "snd (coming w') = snd (coming w1)"
        "ends_when_interrupted H \<and> length (fst (coming w1)) < n \<longrightarrow> en \<noteq> Running"
      unfolding w2(1) by blast
    have "length (fst (coming w1)) < n" if "ends_when_interrupted H" "length (fst (coming w)) < Suc n"
    proof -
      from that(1) h Yields have "\<not> (\<exists>e. res = Inl e \<and> interruption e)"
        unfolding ends_when_interrupted_def by (metis fst_conv)
      with r(3) that(2) show ?thesis by auto
    qed
    with step [OF l(2)] r(1,2) h Yields l(1,3,4) show ?thesis by auto
  qed (use step [OF trace_Nil] r(1,2) h w2(1) in auto)
qed

text \<open>The whole coroutine, from a client with a coroutine pending and a datagram in the queue.\<close>

lemma end_datagram_client_world:
  assumes "snd (coming w) = Some TASK_RUNNING"
  shows "de_inputs (end_datagram_client Q (inputs, exc, w)) = inputs
    \<and> fst (coming (de_world (end_datagram_client Q (inputs, exc, w)))) = fst (coming w)
    \<and> de_raised (end_datagram_client Q (inputs, exc, w)) = snd (unhandled_exception_log exc)
    \<and> cd_state (cq_get Q (de_world (end_datagram_client Q (inputs, exc, w))))
        = (if de_scheduled (end_datagram_client Q (inputs, exc, w)) then Some TASK_PENDING else None)
    \<and> (de_raised (end_datagram_client Q (inputs, exc, w)) = None \<longrightarrow>
         (de_scheduled (end_datagram_client Q (inputs, exc, w))
           \<longleftrightarrow> cd_queue (cq_get Q (de_world (end_datagram_client Q (inputs, exc, w)))) \<noteq> []))"
  using assms
  by (auto simp: end_datagram_client_def coming_def mark_done_def on_client_coroutine_task_done_def mark_pending_def
      queue_is_empty_def result_bind_def get_put future_put Let_def split: prod.split)

lemma inner_loop_delivers:
  assumes "scopes_keep coming B" and "legal_handler coming C H"
    and "cd_queue (cq_get Q w) = d # ds" and "rh_anext H h (cq_put Q ((cq_get Q w)\<lparr>cd_queue := ds\<rparr>) w) = (Yields y h', w2)"
  shows "(\<forall>inputs exc w'. client_inner_loop n B Q H C h w = Some (inputs, exc, w') \<longrightarrow>
        datagram_trace (parsed C) (fst (coming w)) inputs (fst (coming w')) \<and> snd (coming w') = snd (coming w))
    \<and> (ends_when_interrupted H \<and> length (fst (coming w)) \<le> n \<longrightarrow> client_inner_loop n B Q H C h w \<noteq> None)"
proof -
  let ?w1 = "cq_put Q ((cq_get Q w)\<lparr>cd_queue := ds\<rparr>) w"
  have w1: "coming w = (d # fst (coming ?w1), snd (coming ?w1))"
    using assms(3) by (simp add: coming_put) (simp add: coming_def)
  from legal_handlerD(2) [OF assms(2,4)] have w2: "coming w2 = coming ?w1" and y: "legal_yield C y" by auto
  obtain o3 w3 where h: "rh_resume H (parsed C d) h' w2 = (o3, w3)" by fastforce
  from legal_handlerD(3) [OF assms(2) h] have w3: "coming w3 = coming ?w1" "legal_output C o3" using w2 by auto
  have trace: "datagram_trace (parsed C) (fst (coming w)) (parsed C d # inputs) rest"
    if "datagram_trace (parsed C) (fst (coming w3)) inputs rest" for inputs rest
    using that w1 w3(1) trace_datagram [of "parsed C"] by (metis fst_conv)
  have state: "snd (coming w3) = snd (coming w)" using w1 w3(1) by (metis snd_conv)
  have pop: "pop_datagram_no_wait (cq_get Q w) = Inr (d, (cq_get Q w)\<lparr>cd_queue := ds\<rparr>)"
    using assms(3) by (simp add: pop_datagram_no_wait_def)
  have close: "coming w' = coming w4"
    if "close_generator H h3 exc w4 = (r, w')" for h3 exc r w4 w'
    using close_generator_view [OF assms(2) that] .
  note start = client_inner_loop_def pop assms(4) first_request_legal [OF y] h
  show ?thesis
  proof (cases o3)
    case (Yields y' h'')
    with w3 have "legal_yield C y'" by simp
    from datagram_loop_delivers [OF assms(1,2) this, of n h'' w3] obtain en inputs h3 w4 where
      l: "datagram_loop n B Q H C y' h'' w3 = Some (en, inputs, h3, w4)"
        "datagram_trace (parsed C) (fst (coming w3)) inputs (fst (coming w4))" "snd (coming w4) = snd (coming w3)"
        "ends_when_interrupted H \<and> length (fst (coming w3)) < n \<longrightarrow> en \<noteq> Running" by blast
    have "length (fst (coming w3)) < n" if "length (fst (coming w)) \<le> n"
      using that w1 w3(1) by (metis Suc_le_lessD fst_conv length_Cons)
    then show ?thesis
      using trace [OF l(2)] state l close by (auto simp: start Yields Let_def)
  qed (use trace [OF trace_Nil] state close in \<open>auto simp: start Let_def\<close>)
qed

text \<open>A handler that ends before its first yield takes the first datagram with it.\<close>

lemma inner_loop_ends_early:
  assumes "legal_handler coming C H" and "cd_queue (cq_get Q w) = d # ds"
    and "rh_anext H h (cq_put Q ((cq_get Q w)\<lparr>cd_queue := ds\<rparr>) w) = (out, w2)" and "\<nexists>y h'. out = Yields y h'"
  shows "\<exists>exc w'. client_inner_loop n B Q H C h w = Some ([], exc, w')
    \<and> coming w = (d # fst (coming w'), snd (coming w'))"
proof -
  have w2: "coming w2 = coming (cq_put Q ((cq_get Q w)\<lparr>cd_queue := ds\<rparr>) w)"
    using legal_handlerD(2) [OF assms(1,3)] by blast
  have w: "coming w = (d # fst (coming w2), snd (coming w2))"
    using assms(2) unfolding w2 by (simp add: coming_put) (simp add: coming_def)
  show ?thesis
    using assms(2-4) w
    by (cases out) (auto simp: client_inner_loop_def pop_datagram_no_wait_def close_generator_def)
qed

lemma coroutine_delivers:
  assumes "scopes_keep coming B" and "legal_handler coming C H" and "connects_at_once Q H"
    and "cd_state (cq_get Q w) = Some TASK_PENDING" and "cd_queue (cq_get Q w) \<noteq> []"
  shows "(\<forall>de. datagram_client_coroutine n B Q H C w = Some de \<longrightarrow>
        (datagram_trace (parsed C) (fst (coming w)) (de_inputs de) (fst (coming (de_world de)))
          \<or> de_inputs de = [] \<and> (\<exists>d. fst (coming w) = d # fst (coming (de_world de))))
        \<and> pred_option (\<lambda>e. \<not> is_Exception e) (de_raised de)
        \<and> cd_state (cq_get Q (de_world de)) = (if de_scheduled de then Some TASK_PENDING else None)
        \<and> (de_raised de = None \<longrightarrow> (de_scheduled de \<longleftrightarrow> cd_queue (cq_get Q (de_world de)) \<noteq> [])))
    \<and> (ends_when_interrupted H \<and> length (fst (coming w)) \<le> n \<longrightarrow> datagram_client_coroutine n B Q H C w \<noteq> None)"
proof -
  let ?c = "(cq_get Q w)\<lparr>cd_state := Some TASK_RUNNING\<rparr>"
  have run: "mark_running (cq_get Q w) = Inr ?c" using assms(4) by (simp add: mark_running_def)
  obtain d ds where queue: "cd_queue (cq_get Q w) = d # ds" using assms(5) by (cases "cd_queue (cq_get Q w)") auto
  have w0: "coming (cq_put Q ?c w) = (fst (coming w), Some TASK_RUNNING)"
    by (simp add: coming_put) (simp add: coming_def)
  obtain o1 w1 where c: "rh_connect H (cq_put Q ?c w) = (o1, w1)" by fastforce
  from legal_handlerD(1) [OF assms(2) c] w0 have w1: "coming w1 = (fst (coming w), Some TASK_RUNNING)" by simp
  have ends: "(datagram_trace (parsed C) (fst (coming w)) (de_inputs de) (fst (coming (de_world de)))
          \<or> de_inputs de = [] \<and> (\<exists>d. fst (coming w) = d # fst (coming (de_world de))))
        \<and> pred_option (\<lambda>e. \<not> is_Exception e) (de_raised de)
        \<and> cd_state (cq_get Q (de_world de)) = (if de_scheduled de then Some TASK_PENDING else None)
        \<and> (de_raised de = None \<longrightarrow> (de_scheduled de \<longleftrightarrow> cd_queue (cq_get Q (de_world de)) \<noteq> []))"
    if "de = end_datagram_client Q (inputs, exc, w')" "snd (coming w') = Some TASK_RUNNING"
      "datagram_trace (parsed C) (fst (coming w)) inputs (fst (coming w'))
        \<or> inputs = [] \<and> (\<exists>d. fst (coming w) = d # fst (coming w'))" for de inputs exc w'
    using that(3) end_datagram_client_world [OF that(2), of inputs exc] unhandled_exception_raised [of exc]
    unfolding that(1) by auto
  show ?thesis
  proof (cases o1)
    case (Inl e)
    with ends [of _ "[]" "Some e" w1] w1 c run show ?thesis
      by (auto simp: datagram_client_coroutine_def trace_Nil)
  next
    case (Inr h)
    have "cq_get Q w1 = ?c" using assms(3) c unfolding connects_at_once_def by (metis get_put snd_conv)
    then have q1: "cd_queue (cq_get Q w1) = d # ds" using queue by simp
    obtain o2 w2 where a: "rh_anext H h (cq_put Q ((cq_get Q w1)\<lparr>cd_queue := ds\<rparr>) w1) = (o2, w2)"
      by fastforce
    have de: "datagram_client_coroutine n B Q H C w = map_option (end_datagram_client Q) (client_inner_loop n B Q H C h w1)"
      using run c Inr by (simp add: datagram_client_coroutine_def)
    show ?thesis
    proof (cases "\<exists>y h'. o2 = Yields y h'")
      case True
      then obtain y h' where "o2 = Yields y h'" by blast
      note l = inner_loop_delivers [OF assms(1,2) q1 a [unfolded this], of n]
      show ?thesis
      proof (cases "client_inner_loop n B Q H C h w1")
        case None
        with l w1 show ?thesis unfolding de by simp
      next
        case (Some r)
        obtain inputs exc w' where r: "r = (inputs, exc, w')" by (cases r)
        have "datagram_trace (parsed C) (fst (coming w)) inputs (fst (coming w'))" "snd (coming w') = Some TASK_RUNNING"
          using l Some w1 unfolding r by auto
        with ends [OF refl, of w' inputs exc] Some show ?thesis unfolding de r by simp
      qed
    next
      case False
      from inner_loop_ends_early [OF assms(2) q1 a False, of n B] obtain exc w' where
        l: "client_inner_loop n B Q H C h w1 = Some ([], exc, w')" "coming w1 = (d # fst (coming w'), snd (coming w'))"
        by blast
      then have "snd (coming w') = Some TASK_RUNNING" "fst (coming w) = d # fst (coming w')" using w1 by auto
      with ends [of _ "[]" exc w'] l(1) show ?thesis unfolding de by auto
    qed
  qed
qed

end

section \<open>The queue of the server\<close>

text \<open>
  The client data of the server as it is used by its coroutine: what the other tasks do while the coroutine waits is a script
  of datagrams pushed by the listener's handler, notifications of the condition and cancellations; when
  nothing more happens, the server shuts down, which cancels the task.  \<open>ct_app\<close> is the rest of the world.
\<close>

datatype 'a task_event = PushDatagram "'a datagram" | Notify | CancelTask

record ('a, 'v) client_task =
  ct_client :: "'a client_data"
  ct_script :: "'a task_event list"
  ct_app :: 'v

fun condition_wait :: "'a client_data \<Rightarrow> 'a task_event list \<Rightarrow> exc option \<times> 'a client_data \<times> 'a task_event list" where
  "condition_wait c [] = (Some CancelledError, c, [])"
| "condition_wait c (PushDatagram d # es) = condition_wait (snd (push_datagram d c)) es"
| "condition_wait c (Notify # es) = (None, c, es)"
| "condition_wait c (CancelTask # es) = (Some CancelledError, c, es)"

fun pushes :: "'a task_event list \<Rightarrow> 'a datagram list" where
  "pushes [] = []"
| "pushes (PushDatagram d # es) = d # pushes es"
| "pushes (_ # es) = pushes es"

definition task_queue :: "('a, ('a, 'v) client_task) client_queue" where
  "task_queue =
     \<lparr>cq_get = ct_client,
      cq_put = (\<lambda>c w. w\<lparr>ct_client := c\<rparr>),
      cq_acquire = (\<lambda>w. (None, w)),
      cq_wait = (\<lambda>w. case condition_wait (ct_client w) (ct_script w) of
                        (r, c, es) \<Rightarrow> (r, w\<lparr>ct_client := c, ct_script := es\<rparr>))\<rparr>"

definition task_future :: "('a, 'v) client_task \<Rightarrow> 'a datagram list" where
  "task_future w = pushes (ct_script w)"

definition task_wakeups :: "('a, 'v) client_task \<Rightarrow> nat" where
  "task_wakeups w = length (ct_script w)"

definition task_coming :: "('a, 'v) client_task \<Rightarrow> 'a datagram list \<times> client_state option" where
  "task_coming w = (cd_queue (ct_client w) @ pushes (ct_script w), cd_state (ct_client w))"

lemma condition_wait_keeps:
  "condition_wait c es = (r, c', es') \<Longrightarrow>
     cd_queue c' @ pushes es' = cd_queue c @ pushes es \<and> cd_state c' = cd_state c
     \<and> (r = None \<or> r = Some CancelledError) \<and> (r = None \<longrightarrow> length es' < length es)"
  by (induction c es rule: condition_wait.induct) (fastforce simp: push_datagram_def)+

interpretation dsrc: datagram_source task_queue task_future task_wakeups
proof
  fix w :: "('a, 'v) client_task" and r w'
  assume "cq_wait task_queue w = (r, w')"
  then obtain c es where w': "condition_wait (ct_client w) (ct_script w) = (r, c, es)" "w' = w\<lparr>ct_client := c, ct_script := es\<rparr>"
    by (auto simp: task_queue_def split: prod.splits)
  show "cd_queue (cq_get task_queue w') @ task_future w' = cd_queue (cq_get task_queue w) @ task_future w \<and>
      cd_state (cq_get task_queue w') = cd_state (cq_get task_queue w) \<and> (r = None \<or> r = Some CancelledError)"
    using condition_wait_keeps [OF w'(1)] by (simp add: w'(2) task_queue_def task_future_def)
next
  fix w w' :: "('a, 'v) client_task"
  assume "cq_wait task_queue w = (None, w')"
  then obtain c es where w': "condition_wait (ct_client w) (ct_script w) = (None, c, es)" "w' = w\<lparr>ct_client := c, ct_script := es\<rparr>"
    by (auto simp: task_queue_def split: prod.splits)
  show "task_wakeups w' < task_wakeups w"
    using condition_wait_keeps [OF w'(1)] by (simp add: w'(2) task_wakeups_def)
qed (auto simp: task_queue_def task_future_def)

lemma dsrc_coming: "dsrc.coming = task_coming"
proof
  fix w :: "('a, 'v) client_task"
  show "dsrc.coming w = task_coming w"
    unfolding dsrc.coming_def by (simp add: task_coming_def task_queue_def task_future_def)
qed

section \<open>Properties\<close>

text \<open>
  C12: the coroutine of a client gives its request handler the datagrams of the client in the order of their
  arrival, each once, as the packet or the parse error it contains, mixed only with time-outs and cancellations; what
  it has not given is still in the queue (or to come) when it ends, so that the next coroutine begins there, except that a handler
  that ends before its first yield drops one datagram.  It ends within a pass per datagram if the handler ends when it is interrupted by a
  time-out or a cancellation.  What the handler yields is valid (\<open>legal_handler\<close>).
\<close>

theorem datagram_handler_requests:
  fixes w :: "('a, 'v) client_task"
  assumes "scopes_keep task_coming B" and "legal_handler task_coming C H" and "connects_at_once task_queue H"
    and "cd_state (ct_client w) = Some TASK_PENDING" and "cd_queue (ct_client w) \<noteq> []"
  shows "(\<forall>de. datagram_client_coroutine n B task_queue H C w = Some de \<longrightarrow>
        datagram_trace (parsed C) (fst (task_coming w)) (de_inputs de) (fst (task_coming (de_world de)))
          \<or> de_inputs de = [] \<and> (\<exists>d. fst (task_coming w) = d # fst (task_coming (de_world de))))
    \<and> (ends_when_interrupted H \<and> length (fst (task_coming w)) \<le> n \<longrightarrow>
         datagram_client_coroutine n B task_queue H C w \<noteq> None)"
  using dsrc.coroutine_delivers [of B C H w n] assms unfolding dsrc_coming by (simp add: task_queue_def)

text \<open>
  however the coroutine of a client ends, its client is idle with an empty queue, or a new coroutine has been started for
  the datagrams left; only what is no \<^verbatim>\<open>Exception\<close> goes on to the task group, every other error of the handler is logged.
\<close>

theorem datagram_client_restarts:
  fixes w :: "('a, 'v) client_task"
  assumes "scopes_keep task_coming B" and "legal_handler task_coming C H" and "connects_at_once task_queue H"
    and "cd_state (ct_client w) = Some TASK_PENDING" and "cd_queue (ct_client w) \<noteq> []"
    and "datagram_client_coroutine n B task_queue H C w = Some de"
  shows "pred_option (\<lambda>e. \<not> is_Exception e) (de_raised de)
    \<and> cd_state (ct_client (de_world de)) = (if de_scheduled de then Some TASK_PENDING else None)
    \<and> (de_raised de = None \<longrightarrow> (de_scheduled de \<longleftrightarrow> cd_queue (ct_client (de_world de)) \<noteq> []))"
  using dsrc.coroutine_delivers [of B C H w n] assms unfolding dsrc_coming by (simp add: task_queue_def)

section \<open>Witnesses\<close>

text \<open>A handler that serves until it is interrupted, a client with a datagram and another one to come.\<close>

definition serving_handler :: "(bytes, bytes, unit, 'w) request_handler" where
  "serving_handler =
     \<lparr>rh_connect = (\<lambda>w. (Inr (), w)),
      rh_anext = (\<lambda>h w. (Yields YieldNone (), w)),
      rh_resume = (\<lambda>i h w. (case i of Inl e \<Rightarrow> if interruption e then Stops else Yields YieldNone () | Inr r \<Rightarrow> Yields YieldNone (), w)),
      rh_aclose = (\<lambda>h w. (None, w))\<rparr>"

definition echo_context :: "(bytes, bytes, unit) datagram_context" where
  "echo_context = \<lparr>dc_build_packet = Inr, dc_ancillary = None, dc_address = ()\<rparr>"

definition example_task :: "(bytes, unit) client_task" where
  "example_task = \<lparr>ct_client = \<lparr>cd_state = Some TASK_PENDING, cd_queue = [(''a'', None)]\<rparr>,
     ct_script = [PushDatagram (''b'', None), Notify], ct_app = ()\<rparr>"

lemma serving_handler_laws:
  "legal_handler view echo_context serving_handler" "connects_at_once Q serving_handler"
  "ends_when_interrupted serving_handler"
  by (auto simp: legal_handler_def serving_handler_def legal_yield_def echo_context_def rcv_def
      validate_optional_timeout_delay_def handle_ancillary_data_def connects_at_once_def ends_when_interrupted_def
      split: sum.split)

theorem datagram_handler_requests_witness:
  "\<exists>de. datagram_client_coroutine 2 suppressing_backend task_queue serving_handler echo_context example_task = Some de
     \<and> (datagram_trace (parsed echo_context) [(''a'', None), (''b'', None)] (de_inputs de) (fst (task_coming (de_world de)))
         \<or> de_inputs de = [] \<and> (\<exists>d. [(''a'', None), (''b'', None)] = d # fst (task_coming (de_world de))))"
proof -
  have w: "cd_state (ct_client example_task) = Some TASK_PENDING" "cd_queue (ct_client example_task) \<noteq> []"
    "fst (task_coming example_task) = [(''a'', None), (''b'', None)]"
    by (simp_all add: example_task_def task_coming_def)
  from datagram_handler_requests [OF scopes_keep_suppressing serving_handler_laws(1,2) w(1,2), of 2]
  show ?thesis using serving_handler_laws(3) unfolding w(3) by auto
qed

theorem datagram_client_restarts_witness:
  "\<exists>de. datagram_client_coroutine 2 suppressing_backend task_queue serving_handler echo_context example_task = Some de
     \<and> pred_option (\<lambda>e. \<not> is_Exception e) (de_raised de)
     \<and> cd_state (ct_client (de_world de)) = (if de_scheduled de then Some TASK_PENDING else None)"
proof -
  have w: "cd_state (ct_client example_task) = Some TASK_PENDING" "cd_queue (ct_client example_task) \<noteq> []"
    by (simp_all add: example_task_def)
  obtain de where de: "datagram_client_coroutine 2 suppressing_backend task_queue serving_handler echo_context example_task = Some de"
    by (simp add: datagram_client_coroutine_def example_task_def serving_handler_def echo_context_def task_queue_def
        mark_running_def client_inner_loop_def pop_datagram_no_wait_def first_request_def rcv_def numeral_2_eq_2 Let_def
        validate_optional_timeout_delay_def handle_ancillary_data_def parse_datagram_def result_bind_def
        next_request_def pop_datagram_wait_def pop_datagram_loop.simps pop_datagram_def push_datagram_def accept_datagram_def
        interruption_def)
  from datagram_client_restarts [OF scopes_keep_suppressing serving_handler_laws(1,2) w de] de
  show ?thesis by blast
qed

end
