(* ===== verification/FlowControl.thy ===== *)
theory FlowControl
  imports Exceptions
begin

text \<open>
  \<^verbatim>\<open>WriteFlowControl\<close>,
  \<^verbatim>\<open>src/src/easynetwork/lowlevel/api_async/backend/_asyncio/_flow_control.py\<close>.

  A drain waiter is a future, named by the task that waits for it.  \<^verbatim>\<open>drain\<close> is cut at its two
  suspension points: the \<^verbatim>\<open>coro_yield\<close> of a closing transport and the future.  The callback that
  removes a done future from the deque runs later, as an event of its own.
\<close>

datatype future = Pending | Finished | Excepted exc | Cancelled

record flow_control =
  fc_write_paused :: bool
  fc_connection_lost :: bool
  fc_connection_lost_errno :: string
  fc_connection_lost_exception :: "exc option"
  fc_drain_waiters :: "(nat \<times> future) list"

definition flow_init :: "string \<Rightarrow> flow_control" where
  "flow_init errno = \<lparr>fc_write_paused = False, fc_connection_lost = False, fc_connection_lost_errno = errno,
     fc_connection_lost_exception = None, fc_drain_waiters = []\<rparr>"

definition writing_paused :: "flow_control \<Rightarrow> bool" where
  "writing_paused f = fc_write_paused f"

datatype drain_result = DrainYield | DrainRaise exc | DrainDone | DrainWait

text \<open>The errno error or the exception the connection was lost with.\<close>

definition lost_error :: "flow_control \<Rightarrow> exc option \<Rightarrow> exc" where
  "lost_error f exc = (case exc of Some e \<Rightarrow> e | None \<Rightarrow> OSError (fc_connection_lost_errno f) '''')"

text \<open>\<^verbatim>\<open>drain\<close> from after the \<^verbatim>\<open>coro_yield\<close>, and from its start.\<close>

definition drain_continue :: "nat \<Rightarrow> flow_control \<Rightarrow> drain_result \<times> flow_control" where
  "drain_continue t f =
     (if fc_connection_lost f then (DrainRaise (lost_error f (fc_connection_lost_exception f)), f)
      else if \<not> fc_write_paused f then (DrainDone, f)
      else (DrainWait, f\<lparr>fc_drain_waiters := fc_drain_waiters f @ [(t, Pending)]\<rparr>))"

definition drain :: "bool \<Rightarrow> nat \<Rightarrow> flow_control \<Rightarrow> drain_result \<times> flow_control" where
  "drain is_closing t f = (if is_closing then (DrainYield, f) else drain_continue t f)"

definition pause_writing :: "flow_control \<Rightarrow> flow_control" where
  "pause_writing f = f\<lparr>fc_write_paused := True\<rparr>"

text \<open>\<open>settle fut\<close> completes the futures that are not done.\<close>

definition settle :: "future \<Rightarrow> nat \<times> future \<Rightarrow> nat \<times> future" where
  "settle fut w = (case w of (t, Pending) \<Rightarrow> (t, fut) | _ \<Rightarrow> w)"

definition resume_writing :: "flow_control \<Rightarrow> flow_control" where
  "resume_writing f =
     f\<lparr>fc_write_paused := False, fc_drain_waiters := map (settle Finished) (fc_drain_waiters f)\<rparr>"

definition connection_lost :: "exc option \<Rightarrow> flow_control \<Rightarrow> flow_control" where
  "connection_lost exc f =
     (if fc_connection_lost f then f
      else f\<lparr>fc_write_paused := False, fc_connection_lost := True, fc_connection_lost_exception := exc,
              fc_drain_waiters := map (settle (Excepted (lost_error f exc))) (fc_drain_waiters f)\<rparr>)"

section \<open>Steps\<close>

text \<open>
  \<open>DrainStart t c\<close> and \<open>DrainResume t\<close> are the two halves of a call of \<^verbatim>\<open>drain\<close>, \<open>CancelWaiter\<close> the cancellation
  of a waiting task, \<open>Callback\<close> the removal of a future that is done.
\<close>

datatype flow_event =
  DrainStart nat bool | DrainResume nat | PauseWriting | ResumeWriting | ConnectionLost "exc option"
| CancelWaiter nat | Callback nat future

definition cancel_waiter :: "nat \<Rightarrow> flow_control \<Rightarrow> flow_control" where
  "cancel_waiter t f =
     f\<lparr>fc_drain_waiters := map (\<lambda>w. if fst w = t then settle Cancelled w else w) (fc_drain_waiters f)\<rparr>"

fun flow_apply :: "flow_event \<Rightarrow> flow_control \<Rightarrow> flow_control" where
  "flow_apply (DrainStart t c) f = snd (drain c t f)"
| "flow_apply (DrainResume t) f = snd (drain_continue t f)"
| "flow_apply PauseWriting f = pause_writing f"
| "flow_apply ResumeWriting f = resume_writing f"
| "flow_apply (ConnectionLost e) f = connection_lost e f"
| "flow_apply (CancelWaiter t) f = cancel_waiter t f"
| "flow_apply (Callback t fut) f =
     (if fut = Pending then f else f\<lparr>fc_drain_waiters := remove1 (t, fut) (fc_drain_waiters f)\<rparr>)"

inductive flow_reachable :: "flow_control \<Rightarrow> bool" where
  flow_start: "flow_reachable (flow_init errno)"
| flow_step: "flow_reachable f \<Longrightarrow> flow_reachable (flow_apply e f)"

definition flow_inv :: "flow_control \<Rightarrow> bool" where
  "flow_inv f \<longleftrightarrow> (\<forall>w \<in> set (fc_drain_waiters f). snd w = Pending \<longrightarrow> fc_write_paused f \<and> \<not> fc_connection_lost f)"

lemma settle_Pending [simp]: "snd (settle fut w) = Pending \<longleftrightarrow> fut = Pending \<and> snd w = Pending"
  by (cases w; cases "snd w") (auto simp: settle_def)

lemma flow_inv_apply: "flow_inv f \<Longrightarrow> flow_inv (flow_apply e f)"
  by (cases e)
    (auto simp: flow_inv_def drain_def drain_continue_def pause_writing_def resume_writing_def connection_lost_def
       cancel_waiter_def split: if_splits dest: set_remove1_subset [THEN subsetD])

lemma flow_inv_reachable: "flow_reachable f \<Longrightarrow> flow_inv f"
  by (induction rule: flow_reachable.induct) (simp_all add: flow_inv_apply, simp add: flow_inv_def flow_init_def)

section \<open>Properties\<close>

text \<open>
  No task is stuck in \<^verbatim>\<open>drain\<close>.  Whatever the order of pauses, resumptions, connection loss,
  drains and cancellations, a waiter is pending only while writing is paused and the connection is up.
\<close>

theorem flow_no_stuck_waiter:
  assumes "flow_reachable f" and "(t, Pending) \<in> set (fc_drain_waiters f)"
  shows "fc_write_paused f \<and> \<not> fc_connection_lost f"
  using flow_inv_reachable [OF assms(1)] assms(2) by (fastforce simp: flow_inv_def)

text \<open>
  Losing the connection wakes every waiting task with the error of the connection, and every
  later \<^verbatim>\<open>drain\<close> raises that same error once past its yield, whatever is called in between.
\<close>

theorem flow_connection_lost:
  assumes "\<not> fc_connection_lost f" and "(t, Pending) \<in> set (fc_drain_waiters f)"
  shows "(t, Excepted (lost_error f exc)) \<in> set (fc_drain_waiters (connection_lost exc f))
    \<and> fst (drain_continue u (fold flow_apply es (connection_lost exc f))) = DrainRaise (lost_error f exc)"
proof
  have "settle (Excepted (lost_error f exc)) (t, Pending) = (t, Excepted (lost_error f exc))" by (simp add: settle_def)
  with assms show "(t, Excepted (lost_error f exc)) \<in> set (fc_drain_waiters (connection_lost exc f))"
    by (auto simp: connection_lost_def image_iff) (metis (mono_tags))
  let ?lost = "\<lambda>g. fc_connection_lost g \<and> fc_connection_lost_exception g = exc
    \<and> fc_connection_lost_errno g = fc_connection_lost_errno f"
  have "?lost (flow_apply e g)" if "?lost g" for e g
    using that by (cases e) (auto simp: drain_def drain_continue_def pause_writing_def resume_writing_def
        connection_lost_def cancel_waiter_def)
  then have keep: "?lost (fold flow_apply es g)" if "?lost g" for g
    using that by (induction es arbitrary: g) auto
  have "?lost (connection_lost exc f)" using assms(1) by (simp add: connection_lost_def)
  from keep [OF this]
  show "fst (drain_continue u (fold flow_apply es (connection_lost exc f))) = DrainRaise (lost_error f exc)"
    by (cases exc) (simp_all add: drain_continue_def lost_error_def)
qed

section \<open>Witnesses\<close>

definition flow_example :: flow_control where
  "flow_example = flow_apply (DrainStart 7 False) (flow_apply PauseWriting (flow_init ''ECONNABORTED''))"

lemma flow_example_reachable: "flow_reachable flow_example"
  unfolding flow_example_def by (intro flow_step flow_start)

lemma flow_example_waiter: "(7, Pending) \<in> set (fc_drain_waiters flow_example)"
  by (simp add: flow_example_def flow_init_def drain_def drain_continue_def pause_writing_def)

theorem flow_no_stuck_waiter_witness: "fc_write_paused flow_example \<and> \<not> fc_connection_lost flow_example"
  by (rule flow_no_stuck_waiter [OF flow_example_reachable flow_example_waiter])

theorem flow_connection_lost_witness:
  "(7, Excepted (lost_error flow_example None)) \<in> set (fc_drain_waiters (connection_lost None flow_example))
    \<and> fst (drain_continue 8 (fold flow_apply [PauseWriting] (connection_lost None flow_example)))
        = DrainRaise (lost_error flow_example None)"
  by (rule flow_connection_lost [OF _ flow_example_waiter])
    (simp add: flow_example_def flow_init_def drain_def drain_continue_def pause_writing_def)

end
