(* ===== verification/FairLock.thy ===== *)
theory FairLock
  imports Exceptions
begin

text \<open>
  \<^verbatim>\<open>FairLock\<close>, \<^verbatim>\<open>src/src/easynetwork/lowlevel/api_async/backend/_common/fair_lock.py\<close>.

  The event loop runs one task at a time and switches only where a task waits.  The code of
  \<^verbatim>\<open>acquire\<close> is therefore cut at \<^verbatim>\<open>await waiter.wait()\<close>: what comes before it, what follows when the event has been set,
  and what follows when the task is cancelled there.  Each task creates one event of its own, so
  an event is named by its task.
\<close>

type_synonym task = nat

record lock =
  lk_waiters :: "task list"
  lk_locked :: bool
  lk_set :: "task set"

definition lock_init :: lock where
  "lock_init = \<lparr>lk_waiters = [], lk_locked = False, lk_set = {}\<rparr>"

definition wake_up_first :: "lock \<Rightarrow> lock" where
  "wake_up_first l =
     (case lk_waiters l of [] \<Rightarrow> l | waiter # _ \<Rightarrow> l\<lparr>lk_set := insert waiter (lk_set l)\<rparr>)"

text \<open>\<open>acquire_enter\<close> tells whether the task has to wait.\<close>

definition acquire_enter :: "task \<Rightarrow> lock \<Rightarrow> bool \<times> lock" where
  "acquire_enter t l =
     (if lk_locked l \<or> lk_waiters l \<noteq> [] then (True, l\<lparr>lk_waiters := lk_waiters l @ [t]\<rparr>)
      else (False, l\<lparr>lk_locked := True\<rparr>))"

definition remove_waiter :: "task \<Rightarrow> lock \<Rightarrow> lock" where
  "remove_waiter t l = l\<lparr>lk_waiters := remove1 t (lk_waiters l), lk_set := lk_set l - {t}\<rparr>"

definition acquire_resume :: "task \<Rightarrow> lock \<Rightarrow> lock" where
  "acquire_resume t l = (remove_waiter t l)\<lparr>lk_locked := True\<rparr>"

definition acquire_cancelled :: "task \<Rightarrow> lock \<Rightarrow> lock" where
  "acquire_cancelled t l =
     (let l' = remove_waiter t l in if \<not> lk_locked l' then wake_up_first l' else l')"

definition lock_release :: "lock \<Rightarrow> exc + lock" where
  "lock_release l =
     (if lk_locked l then Inr (wake_up_first (l\<lparr>lk_locked := False\<rparr>))
      else Inl (RuntimeError ''Lock not acquired''))"

section \<open>Tasks that use the lock\<close>

text \<open>
  \<open>holders\<close> are the tasks between \<^verbatim>\<open>acquire\<close> and \<^verbatim>\<open>release\<close>.  The two histories are ghosts:
  \<open>arrived\<close> the tasks that called \<^verbatim>\<open>acquire\<close> and were not cancelled, \<open>acquired\<close> those that got the lock,
  both in order of time.  A task that has released the lock may use it again under a fresh name.
\<close>

record lock_system =
  ls_lock :: lock
  ls_holders :: "task list"
  ls_arrived :: "task list"
  ls_acquired :: "task list"

datatype lock_event = Enter task | Resume task | Cancel task | Release task

inductive lock_step :: "lock_system \<Rightarrow> lock_event \<Rightarrow> lock_system \<Rightarrow> bool" where
  enter_wait:
    "t \<notin> set (ls_arrived s) \<Longrightarrow> acquire_enter t (ls_lock s) = (True, l) \<Longrightarrow>
     lock_step s (Enter t) (s\<lparr>ls_lock := l, ls_arrived := ls_arrived s @ [t]\<rparr>)"
| enter_now:
    "t \<notin> set (ls_arrived s) \<Longrightarrow> acquire_enter t (ls_lock s) = (False, l) \<Longrightarrow>
     lock_step s (Enter t) (s\<lparr>ls_lock := l, ls_arrived := ls_arrived s @ [t],
        ls_acquired := ls_acquired s @ [t], ls_holders := t # ls_holders s\<rparr>)"
| resume:
    "t \<in> set (lk_waiters (ls_lock s)) \<Longrightarrow> t \<in> lk_set (ls_lock s) \<Longrightarrow>
     lock_step s (Resume t) (s\<lparr>ls_lock := acquire_resume t (ls_lock s),
        ls_acquired := ls_acquired s @ [t], ls_holders := t # ls_holders s\<rparr>)"
| cancel:
    "t \<in> set (lk_waiters (ls_lock s)) \<Longrightarrow>
     lock_step s (Cancel t) (s\<lparr>ls_lock := acquire_cancelled t (ls_lock s),
        ls_arrived := remove1 t (ls_arrived s)\<rparr>)"
| release:
    "t \<in> set (ls_holders s) \<Longrightarrow> lock_release (ls_lock s) = Inr l \<Longrightarrow>
     lock_step s (Release t) (s\<lparr>ls_lock := l, ls_holders := remove1 t (ls_holders s)\<rparr>)"

inductive_cases lock_stepE: "lock_step s e s'"

definition lock_system_init :: lock_system where
  "lock_system_init = \<lparr>ls_lock = lock_init, ls_holders = [], ls_arrived = [], ls_acquired = []\<rparr>"

inductive lock_reachable :: "lock_system \<Rightarrow> bool" where
  reach_init: "lock_reachable lock_system_init"
| reach_step: "lock_reachable s \<Longrightarrow> lock_step s e s' \<Longrightarrow> lock_reachable s'"

section \<open>The invariant\<close>

text \<open>
  The event that is set is exactly that of the first waiter of a free lock: no wake-up is lost and
  none is given twice.
\<close>

definition lock_inv :: "lock_system \<Rightarrow> bool" where
  "lock_inv s \<longleftrightarrow>
     distinct (ls_arrived s) \<and>
     ls_arrived s = ls_acquired s @ lk_waiters (ls_lock s) \<and>
     length (ls_holders s) = (if lk_locked (ls_lock s) then 1 else 0) \<and>
     lk_set (ls_lock s) =
       (if lk_locked (ls_lock s) \<or> lk_waiters (ls_lock s) = [] then {} else {hd (lk_waiters (ls_lock s))})"

lemma wake_up_first_simps [simp]:
  "lk_waiters (wake_up_first l) = lk_waiters l" "lk_locked (wake_up_first l) = lk_locked l"
  "lk_set (wake_up_first l) = (if lk_waiters l = [] then lk_set l else insert (hd (lk_waiters l)) (lk_set l))"
  by (simp_all add: wake_up_first_def split: list.split)

lemma lock_inv_init: "lock_inv lock_system_init"
  by (simp add: lock_inv_def lock_system_init_def lock_init_def)

lemma remove1_middle: "distinct (xs @ ys) \<Longrightarrow> t \<in> set ys \<Longrightarrow> remove1 t (xs @ ys) = xs @ remove1 t ys"
  by (auto simp: remove1_append)

lemma lock_inv_step: "lock_step s e s' \<Longrightarrow> lock_inv s \<Longrightarrow> lock_inv s'"
proof (induction rule: lock_step.induct)
  case (enter_wait t s l)
  then show ?case by (auto simp: lock_inv_def acquire_enter_def split: if_splits)
next
  case (enter_now t s l)
  then show ?case by (auto simp: lock_inv_def acquire_enter_def split: if_splits)
next
  case (resume t s)
  then obtain ws where "lk_waiters (ls_lock s) = t # ws" "\<not> lk_locked (ls_lock s)"
    by (cases "lk_waiters (ls_lock s)") (auto simp: lock_inv_def split: if_splits)
  with resume show ?case
    by (auto simp: lock_inv_def acquire_resume_def remove_waiter_def)
next
  case (cancel t s)
  let ?ws = "lk_waiters (ls_lock s)"
  have d: "distinct (ls_acquired s @ ?ws)" and arr: "ls_arrived s = ls_acquired s @ ?ws"
    using cancel(2) by (auto simp: lock_inv_def)
  have "remove1 t (ls_arrived s) = ls_acquired s @ remove1 t ?ws"
    unfolding arr using d cancel(1) by (rule remove1_middle)
  moreover have "hd ?ws \<noteq> hd (remove1 t ?ws) \<Longrightarrow> remove1 t ?ws \<noteq> [] \<Longrightarrow> hd ?ws = t"
    by (cases ?ws) (auto split: if_splits)
  moreover have "remove1 t ?ws = [] \<Longrightarrow> hd ?ws = t"
    using cancel(1) by (cases ?ws) (auto split: if_splits)
  moreover have "hd (remove1 t ?ws) \<noteq> t" if "remove1 t ?ws \<noteq> []"
  proof -
    have "t \<notin> set (remove1 t ?ws)" using d by simp
    with that show ?thesis by (metis hd_in_set)
  qed
  ultimately show ?case
    using cancel d by (auto simp: lock_inv_def acquire_cancelled_def remove_waiter_def Let_def distinct_remove1)
next
  case (release t s l)
  then have "lk_locked (ls_lock s)" "l = wake_up_first ((ls_lock s)\<lparr>lk_locked := False\<rparr>)"
    by (auto simp: lock_release_def split: if_splits)
  with release show ?case
    by (auto simp: lock_inv_def length_remove1)
qed

lemma lock_inv_reachable: "lock_reachable s \<Longrightarrow> lock_inv s"
  by (induction rule: lock_reachable.induct) (auto intro: lock_inv_init lock_inv_step)

text \<open>The steps as a function, to run a concrete schedule.\<close>

fun lock_apply :: "lock_event \<Rightarrow> lock_system \<Rightarrow> lock_system option" where
  "lock_apply (Enter t) s =
     (if t \<in> set (ls_arrived s) then None
      else (case acquire_enter t (ls_lock s) of
              (True, l) \<Rightarrow> Some (s\<lparr>ls_lock := l, ls_arrived := ls_arrived s @ [t]\<rparr>)
            | (False, l) \<Rightarrow> Some (s\<lparr>ls_lock := l, ls_arrived := ls_arrived s @ [t],
                ls_acquired := ls_acquired s @ [t], ls_holders := t # ls_holders s\<rparr>)))"
| "lock_apply (Resume t) s =
     (if t \<in> set (lk_waiters (ls_lock s)) \<and> t \<in> lk_set (ls_lock s)
      then Some (s\<lparr>ls_lock := acquire_resume t (ls_lock s),
        ls_acquired := ls_acquired s @ [t], ls_holders := t # ls_holders s\<rparr>)
      else None)"
| "lock_apply (Cancel t) s =
     (if t \<in> set (lk_waiters (ls_lock s))
      then Some (s\<lparr>ls_lock := acquire_cancelled t (ls_lock s), ls_arrived := remove1 t (ls_arrived s)\<rparr>)
      else None)"
| "lock_apply (Release t) s =
     (if t \<in> set (ls_holders s)
      then (case lock_release (ls_lock s) of
              Inl e \<Rightarrow> None
            | Inr l \<Rightarrow> Some (s\<lparr>ls_lock := l, ls_holders := remove1 t (ls_holders s)\<rparr>))
      else None)"

fun lock_run :: "lock_event list \<Rightarrow> lock_system \<Rightarrow> lock_system option" where
  "lock_run [] s = Some s"
| "lock_run (e # es) s = (case lock_apply e s of None \<Rightarrow> None | Some s' \<Rightarrow> lock_run es s')"

lemma lock_apply_step: "lock_apply e s = Some s' \<longleftrightarrow> lock_step s e s'"
proof
  show "lock_apply e s = Some s' \<Longrightarrow> lock_step s e s'"
    by (cases e) (auto split: if_splits prod.splits bool.splits sum.splits intro: lock_step.intros)
  show "lock_step s e s' \<Longrightarrow> lock_apply e s = Some s'"
    by (erule lock_stepE) auto
qed

lemma lock_run_reachable: "lock_run es s = Some s' \<Longrightarrow> lock_reachable s \<Longrightarrow> lock_reachable s'"
  by (induction es arbitrary: s) (auto simp: lock_apply_step split: option.splits intro: reach_step)

section \<open>Properties\<close>

text \<open>
  C10: Mutual exclusion.  At any moment of any schedule of acquisitions, wake-ups, cancellations
  and releases at most one task holds the lock, and the lock says it is locked exactly when one does.
\<close>

theorem fair_lock_mutual_exclusion:
  assumes "lock_reachable s"
  shows "length (ls_holders s) \<le> 1 \<and> (lk_locked (ls_lock s) \<longleftrightarrow> ls_holders s \<noteq> [])"
  using lock_inv_reachable [OF assms] by (auto simp: lock_inv_def)

text \<open>
  First come, first served.  The tasks get the lock in the order in which they asked for it;
  those that have asked and neither got it nor were cancelled are the queue, in that order.
\<close>

theorem fair_lock_fifo:
  assumes "lock_reachable s"
  shows "ls_arrived s = ls_acquired s @ lk_waiters (ls_lock s) \<and> distinct (ls_arrived s)"
  using lock_inv_reachable [OF assms] by (auto simp: lock_inv_def)

text \<open>
  C11: No lost wake-up.  When the lock is free and tasks wait, the first of them, and no other task,
  can go on and get the lock; in particular a cancelled task has passed its wake-up on.
\<close>

theorem fair_lock_wakes_first:
  assumes "lock_reachable s" and "\<not> lk_locked (ls_lock s)" and "lk_waiters (ls_lock s) = t # ws"
  shows "(\<exists>s'. lock_step s (Resume t) s' \<and> ls_holders s' = [t]) \<and> (\<forall>u s''. lock_step s (Resume u) s'' \<longrightarrow> u = t)"
proof -
  have inv: "ls_holders s = []" "lk_set (ls_lock s) = {t}"
    using lock_inv_reachable [OF assms(1)] assms(2,3) by (auto simp: lock_inv_def)
  then have "lock_step s (Resume t) (s\<lparr>ls_lock := acquire_resume t (ls_lock s),
      ls_acquired := ls_acquired s @ [t], ls_holders := t # ls_holders s\<rparr>)"
    using assms(3) by (intro lock_step.resume) auto
  with inv show ?thesis by (fastforce elim: lock_stepE)
qed

section \<open>Witnesses\<close>

text \<open>Three tasks; the second is cancelled after it was woken up.\<close>

definition lock_schedule :: "lock_event list" where
  "lock_schedule = [Enter 1, Enter 2, Enter 3, Release 1, Cancel 2]"

definition lock_scheduled :: lock_system where
  "lock_scheduled = \<lparr>ls_lock = \<lparr>lk_waiters = [3], lk_locked = False, lk_set = {3}\<rparr>, ls_holders = [],
     ls_arrived = [1, 3], ls_acquired = [1]\<rparr>"

lemma lock_scheduled_reachable: "lock_reachable lock_scheduled"
proof (rule lock_run_reachable [OF _ reach_init])
  show "lock_run lock_schedule lock_system_init = Some lock_scheduled"
    by (simp add: lock_schedule_def lock_scheduled_def lock_system_init_def lock_init_def acquire_enter_def
        lock_release_def wake_up_first_def acquire_cancelled_def remove_waiter_def Let_def)
qed

theorem fair_lock_mutual_exclusion_witness:
  "length (ls_holders lock_scheduled) \<le> 1 \<and> (lk_locked (ls_lock lock_scheduled) \<longleftrightarrow> ls_holders lock_scheduled \<noteq> [])"
  by (rule fair_lock_mutual_exclusion [OF lock_scheduled_reachable])

theorem fair_lock_fifo_witness:
  "ls_arrived lock_scheduled = ls_acquired lock_scheduled @ lk_waiters (ls_lock lock_scheduled)
     \<and> distinct (ls_arrived lock_scheduled)"
  by (rule fair_lock_fifo [OF lock_scheduled_reachable])

theorem fair_lock_wakes_first_witness:
  "(\<exists>s'. lock_step lock_scheduled (Resume 3) s' \<and> ls_holders s' = [3])
     \<and> (\<nexists>s''. lock_step lock_scheduled (Resume 5) s'')"
proof -
  have "(\<exists>s'. lock_step lock_scheduled (Resume 3) s' \<and> ls_holders s' = [3])
      \<and> (\<forall>u s''. lock_step lock_scheduled (Resume u) s'' \<longrightarrow> u = 3)"
    by (rule fair_lock_wakes_first [OF lock_scheduled_reachable]) (simp_all add: lock_scheduled_def)
  then show ?thesis by fastforce
qed

end
