(* ===== verification/ReaderProtocol.thy ===== *)
theory ReaderProtocol
  imports FlowControl Timeouts
begin

text \<open>
  \<^verbatim>\<open>StreamReaderBufferedProtocol\<close>,
  \<^verbatim>\<open>src/src/easynetwork/lowlevel/api_async/backend/_asyncio/stream/socket.py\<close>: the protocol object between an asyncio
  transport, which calls it when bytes arrive, and the coroutine that receives them.

  Only the bytes written matter of the preallocated buffer, so \<open>rp_buffer\<close> holds those; \<open>None\<close> is the released
  buffer.  When a coroutine waits in \<^verbatim>\<open>receive_data_into\<close> the transport writes directly into the caller's buffer
  (\<open>rp_external\<close>, its size).  Code between two suspension points is one step; the future a coroutine waits for is done
  before the coroutine runs again, and a task can be cancelled in between.
\<close>

section \<open>State\<close>

datatype receive_call = ReceiveData nat | ReceiveInto nat

text \<open>
  The future: pending, woken up (\<^verbatim>\<open>set_result(None)\<close>), completed with the bytes written to the caller's buffer
  (\<^verbatim>\<open>set_result(nbytes)\<close>), failed, or cancelled.
\<close>

datatype read_future = ReadPending | ReadWoken | ReadInto bytes | ReadFailed exc | ReadCancelled

text \<open>
  A suspended call with its future; \<open>rw_must_cancel\<close> is asyncio's mark on a task cancelled when it had nothing to wait for
  any more.
\<close>

record read_waiter =
  rw_call :: receive_call
  rw_future :: read_future
  rw_must_cancel :: bool

record reader_protocol =
  rp_max_size :: nat
  rp_buffer :: "bytes option"
  rp_external :: "nat option"
  rp_transport :: bool
  rp_can_pause :: bool
  rp_over_ssl :: bool
  rp_closed :: bool
  rp_write_flow :: flow_control
  rp_waiter :: "read_waiter option"
  rp_read_paused :: bool
  rp_high_water :: nat
  rp_low_water :: nat
  rp_connection_lost :: bool
  rp_lost_exception :: "exc option"
  rp_eof_reached :: bool

text \<open>\<^verbatim>\<open>_compute_read_buffer_limits\<close> with the defaults of \<^verbatim>\<open>add_flowcontrol_defaults\<close>: high and low water.\<close>

definition flowcontrol_defaults :: "nat option \<Rightarrow> nat option \<Rightarrow> nat \<Rightarrow> exc + nat \<times> nat" where
  "flowcontrol_defaults high low kb =
     (let hi = (case high of Some h \<Rightarrow> h | None \<Rightarrow> (case low of None \<Rightarrow> kb * 1024 | Some l \<Rightarrow> 4 * l));
          lo = (case low of None \<Rightarrow> hi div 4 | Some l \<Rightarrow> l) in
      if lo \<le> hi then Inr (hi, lo) else Inl (ValueError ''high must be >= low must be >= 0''))"

definition read_buffer_limits :: "nat \<Rightarrow> exc + nat \<times> nat" where
  "read_buffer_limits max_size = flowcontrol_defaults None None (max_size div 1024 * 3 div 4)"

text \<open>
  \<^verbatim>\<open>__init__\<close> and \<^verbatim>\<open>connection_made\<close>; \<open>can_pause\<close> tells whether the transport implements \<^verbatim>\<open>pause_reading\<close>.
\<close>

definition reader_init :: "nat \<Rightarrow> bool \<Rightarrow> bool \<Rightarrow> exc + reader_protocol" where
  "reader_init max_size can_pause over_ssl =
     result_bind (read_buffer_limits max_size) (\<lambda>(high, low).
       Inr \<lparr>rp_max_size = max_size, rp_buffer = Some [], rp_external = None, rp_transport = True,
            rp_can_pause = can_pause, rp_over_ssl = over_ssl, rp_closed = False,
            rp_write_flow = flow_init ''ECONNRESET'', rp_waiter = None, rp_read_paused = False,
            rp_high_water = high, rp_low_water = low, rp_connection_lost = False, rp_lost_exception = None,
            rp_eof_reached = False\<rparr>)"

definition buffered :: "reader_protocol \<Rightarrow> bytes" where
  "buffered p = (case rp_buffer p of None \<Rightarrow> [] | Some b \<Rightarrow> b)"

section \<open>Callbacks of the transport\<close>

text \<open>\<^verbatim>\<open>_read_waiter_fut\<close>: completes the future of the waiting coroutine if it is pending.\<close>

definition complete_waiter :: "read_future \<Rightarrow> reader_protocol \<Rightarrow> reader_protocol" where
  "complete_waiter fut p =
     (case rp_waiter p of
        None \<Rightarrow> p
      | Some w \<Rightarrow> if rw_future w = ReadPending then p\<lparr>rp_waiter := Some (w\<lparr>rw_future := fut\<rparr>)\<rparr> else p)"

definition wakeup_read_waiter :: "exc option \<Rightarrow> reader_protocol \<Rightarrow> reader_protocol" where
  "wakeup_read_waiter exc p = complete_waiter (case exc of None \<Rightarrow> ReadWoken | Some e \<Rightarrow> ReadFailed e) p"

definition maybe_pause_transport :: "reader_protocol \<Rightarrow> reader_protocol" where
  "maybe_pause_transport p =
     (if rp_high_water p \<le> length (buffered p) \<and> \<not> rp_read_paused p \<and> rp_transport p
      then if rp_can_pause p then p\<lparr>rp_read_paused := True\<rparr> else p\<lparr>rp_transport := False\<rparr>
      else p)"

definition maybe_resume_transport :: "reader_protocol \<Rightarrow> reader_protocol" where
  "maybe_resume_transport p =
     (if rp_read_paused p \<and> rp_transport p \<and> length (buffered p) \<le> rp_low_water p
      then p\<lparr>rp_read_paused := False\<rparr> else p)"

text \<open>\<^verbatim>\<open>get_buffer\<close>: whose buffer, and how many bytes fit.\<close>

datatype buffer_target = External nat | Internal nat

definition get_buffer :: "reader_protocol \<Rightarrow> exc + buffer_target" where
  "get_buffer p =
     (case rp_external p of
        Some n \<Rightarrow> Inr (External n)
      | None \<Rightarrow>
          (case rp_buffer p of
             None \<Rightarrow> Inl (OtherError ''BufferError'')
           | Some b \<Rightarrow> Inr (Internal (rp_max_size p - length b))))"

text \<open>
  \<^verbatim>\<open>buffer_updated(len(data))\<close>, for the bytes \<open>data\<close> that the transport has written to the buffer it got.
\<close>

definition buffer_updated :: "bytes \<Rightarrow> reader_protocol \<Rightarrow> exc + reader_protocol" where
  "buffer_updated data p =
     (if rp_connection_lost p then Inl (AssertionError ''buffer_updated() after connection_lost()'')
      else if rp_eof_reached p then Inl (AssertionError ''buffer_updated() after eof_received()'')
      else if rp_external p \<noteq> None then Inr (complete_waiter (ReadInto data) (p\<lparr>rp_external := None\<rparr>))
      else
        (let p' = p\<lparr>rp_buffer := Some (buffered p @ data)\<rparr> in
         if length (buffered p') \<le> rp_max_size p
         then Inr (maybe_pause_transport (wakeup_read_waiter None p'))
         else Inl (AssertionError '''')))"

text \<open>\<^verbatim>\<open>eof_received\<close>; its result tells the transport whether to stay open.\<close>

definition eof_received :: "reader_protocol \<Rightarrow> bool \<times> reader_protocol" where
  "eof_received p =
     (\<not> rp_over_ssl p, wakeup_read_waiter None (p\<lparr>rp_external := None, rp_eof_reached := True\<rparr>))"

definition reader_connection_lost :: "exc option \<Rightarrow> reader_protocol \<Rightarrow> reader_protocol" where
  "reader_connection_lost exc p =
     (if rp_connection_lost p then p
      else
        (let exc' = (if exc = None \<and> buffered p \<noteq> [] then Some (error_from_errno ''ECONNRESET'') else exc);
             p1 = p\<lparr>rp_connection_lost := True, rp_read_paused := False, rp_lost_exception := exc',
                    rp_eof_reached := (rp_eof_reached p \<or> exc' = None), rp_buffer := None, rp_closed := True\<rparr>;
             p2 = wakeup_read_waiter exc' p1 in
         p2\<lparr>rp_write_flow := connection_lost exc' (rp_write_flow p2), rp_transport := False\<rparr>))"

text \<open>
  \<^verbatim>\<open>pause_writing\<close>, \<^verbatim>\<open>resume_writing\<close> and \<^verbatim>\<open>writer_drain\<close> (to its first suspension) are those of the flow control;
  \<^verbatim>\<open>_get_close_waiter\<close> is the flag \<open>rp_closed\<close>.
\<close>

definition reader_pause_writing :: "reader_protocol \<Rightarrow> reader_protocol" where
  "reader_pause_writing p = p\<lparr>rp_write_flow := pause_writing (rp_write_flow p)\<rparr>"

definition reader_resume_writing :: "reader_protocol \<Rightarrow> reader_protocol" where
  "reader_resume_writing p = p\<lparr>rp_write_flow := resume_writing (rp_write_flow p)\<rparr>"

definition writer_drain :: "bool \<Rightarrow> nat \<Rightarrow> reader_protocol \<Rightarrow> drain_result \<times> reader_protocol" where
  "writer_drain is_closing t p =
     (let (r, f) = drain is_closing t (rp_write_flow p) in (r, p\<lparr>rp_write_flow := f\<rparr>))"

section \<open>Receiving\<close>

datatype receive_outcome = Returned bytes | Raised exc | Suspended

text \<open>
  \<^verbatim>\<open>receive_data(n)\<close> and \<^verbatim>\<open>receive_data_into(buffer)\<close> up to the first suspension.
\<close>

fun call_size :: "receive_call \<Rightarrow> nat" where
  "call_size (ReceiveData n) = n"
| "call_size (ReceiveInto n) = n"

fun call_buffer :: "receive_call \<Rightarrow> nat option" where
  "call_buffer (ReceiveData n) = None"
| "call_buffer (ReceiveInto n) = Some n"

definition wait_for_data :: "receive_call \<Rightarrow> reader_protocol \<Rightarrow> receive_outcome \<times> reader_protocol" where
  "wait_for_data call p =
     (if rp_waiter p \<noteq> None
      then (Raised (RuntimeError ''called while another coroutine is already waiting for incoming data''), p)
      else if buffered p \<noteq> [] \<or> rp_eof_reached p
      then (Suspended, p\<lparr>rp_waiter := Some \<lparr>rw_call = call, rw_future = ReadWoken, rw_must_cancel = False\<rparr>\<rparr>)
      else if rp_read_paused p then (Raised (AssertionError ''transport reading is paused''), p)
      else if \<not> rp_transport p then (Raised (error_from_errno ''ECONNABORTED''), p)
      else (Suspended, p\<lparr>rp_external := call_buffer call,
                         rp_waiter := Some \<lparr>rw_call = call, rw_future = ReadPending, rw_must_cancel = False\<rparr>\<rparr>))"

definition receive_start :: "receive_call \<Rightarrow> reader_protocol \<Rightarrow> receive_outcome \<times> reader_protocol" where
  "receive_start call p =
     (case rp_lost_exception p of
        Some e \<Rightarrow> (Raised e, p)
      | None \<Rightarrow> if call_size call = 0 then (Returned [], p) else wait_for_data call p)"

text \<open>What both do with the protocol's own buffer after they were woken up.\<close>

definition take_buffered :: "nat \<Rightarrow> reader_protocol \<Rightarrow> receive_outcome \<times> reader_protocol" where
  "take_buffered n p =
     (Returned (take n (buffered p)),
      maybe_resume_transport (p\<lparr>rp_buffer := map_option (drop n) (rp_buffer p)\<rparr>))"

text \<open>The coroutine runs again: the \<^verbatim>\<open>finally\<close> clauses, then the result of the future.\<close>

definition receive_resume :: "read_waiter \<Rightarrow> reader_protocol \<Rightarrow> receive_outcome \<times> reader_protocol" where
  "receive_resume w p =
     (let p' = p\<lparr>rp_external := None, rp_waiter := None\<rparr> in
      if rw_must_cancel w then (Raised CancelledError, p')
      else (case rw_future w of
              ReadCancelled \<Rightarrow> (Raised CancelledError, p')
            | ReadFailed e \<Rightarrow> (Raised e, p')
            | ReadInto data \<Rightarrow> (Returned data, p')
            | _ \<Rightarrow>
                (case rp_lost_exception p' of
                   Some e \<Rightarrow> (Raised e, p')
                 | None \<Rightarrow> take_buffered (call_size (rw_call w)) p')))"

text \<open>\<^verbatim>\<open>task.cancel()\<close> on the task that receives: the future if it is pending, else the mark.\<close>

definition cancel_reader :: "read_waiter \<Rightarrow> reader_protocol \<Rightarrow> reader_protocol" where
  "cancel_reader w p =
     p\<lparr>rp_waiter := Some (if rw_future w = ReadPending then w\<lparr>rw_future := ReadCancelled\<rparr>
                          else w\<lparr>rw_must_cancel := True\<rparr>)\<rparr>"

section \<open>Steps\<close>

text \<open>
  The event loop: the transport reads while it is connected, not paused and not at the end of the stream, and takes at
  most what the buffer it gets can hold.  Where the buffer is empty, which happens when the transport cannot be paused and
  the coroutines do not keep up, asyncio ends the connection: an event \<open>Lost\<close>.  \<open>rd_arrived\<close> is the history of the bytes it has read, \<open>rd_returned\<close>
  that of the bytes returned to the coroutines; \<open>rd_clean\<close> says that no task was cancelled while the
  transport could write, or had written, to its own buffer.
\<close>

record reading =
  rd_protocol :: reader_protocol
  rd_arrived :: bytes
  rd_returned :: bytes
  rd_clean :: bool

definition transport_reads :: "reader_protocol \<Rightarrow> bool" where
  "transport_reads p \<longleftrightarrow> \<not> rp_connection_lost p \<and> \<not> rp_read_paused p \<and> \<not> rp_eof_reached p"

definition target_size :: "buffer_target \<Rightarrow> nat" where
  "target_size t = (case t of External n \<Rightarrow> n | Internal n \<Rightarrow> n)"

datatype reader_event =
  Arrives bytes | EofReceived | Lost "exc option" | Receive receive_call | CancelReader | Resume
| PauseWrites | ResumeWrites | WriterDrain bool nat

text \<open>A future that lets its coroutine run.\<close>

definition runnable :: "read_waiter \<Rightarrow> bool" where
  "runnable w \<longleftrightarrow> rw_future w \<noteq> ReadPending \<or> rw_must_cancel w"

definition direct_read :: "read_waiter \<Rightarrow> bool" where
  "direct_read w \<longleftrightarrow>
     (case rw_future w of
        ReadPending \<Rightarrow> call_buffer (rw_call w) \<noteq> None
      | ReadInto data \<Rightarrow> True
      | _ \<Rightarrow> False)"

definition note_outcome :: "receive_outcome \<times> reader_protocol \<Rightarrow> reading \<Rightarrow> reading" where
  "note_outcome r s =
     s\<lparr>rd_protocol := snd r,
       rd_returned := rd_returned s @ (case fst r of Returned d \<Rightarrow> d | _ \<Rightarrow> [])\<rparr>"

text \<open>\<open>None\<close>: the event cannot happen; \<open>Inl\<close>: an assertion of the protocol failed.\<close>

fun reading_apply :: "reader_event \<Rightarrow> reading \<Rightarrow> (exc + reading) option" where
  "reading_apply (Arrives data) s =
     (if \<not> transport_reads (rd_protocol s) \<or> data = [] then None
      else (case get_buffer (rd_protocol s) of
              Inl e \<Rightarrow> Some (Inl e)
            | Inr target \<Rightarrow>
                if target_size target < length data then None
                else (case buffer_updated data (rd_protocol s) of
                        Inl e \<Rightarrow> Some (Inl e)
                      | Inr p \<Rightarrow> Some (Inr (s\<lparr>rd_protocol := p, rd_arrived := rd_arrived s @ data\<rparr>)))))"
| "reading_apply EofReceived s =
     (if transport_reads (rd_protocol s) then Some (Inr (s\<lparr>rd_protocol := snd (eof_received (rd_protocol s))\<rparr>)) else None)"
| "reading_apply (Lost e) s = Some (Inr (s\<lparr>rd_protocol := reader_connection_lost e (rd_protocol s)\<rparr>))"
| "reading_apply (Receive call) s = Some (Inr (note_outcome (receive_start call (rd_protocol s)) s))"
| "reading_apply CancelReader s =
     (case rp_waiter (rd_protocol s) of
        None \<Rightarrow> None
      | Some w \<Rightarrow> Some (Inr (s\<lparr>rd_protocol := cancel_reader w (rd_protocol s), rd_clean := (rd_clean s \<and> \<not> direct_read w)\<rparr>)))"
| "reading_apply Resume s =
     (case rp_waiter (rd_protocol s) of
        None \<Rightarrow> None
      | Some w \<Rightarrow>
          if runnable w then Some (Inr (note_outcome (receive_resume w (rd_protocol s)) s)) else None)"
| "reading_apply PauseWrites s = Some (Inr (s\<lparr>rd_protocol := reader_pause_writing (rd_protocol s)\<rparr>))"
| "reading_apply ResumeWrites s = Some (Inr (s\<lparr>rd_protocol := reader_resume_writing (rd_protocol s)\<rparr>))"
| "reading_apply (WriterDrain is_closing t) s =
     Some (Inr (s\<lparr>rd_protocol := snd (writer_drain is_closing t (rd_protocol s))\<rparr>))"

inductive reading_reachable :: "reading \<Rightarrow> bool" where
  reading_start: "reader_init max_size can_pause ssl = Inr p \<Longrightarrow> 0 < max_size \<Longrightarrow>
    reading_reachable \<lparr>rd_protocol = p, rd_arrived = [], rd_returned = [], rd_clean = True\<rparr>"
| reading_step: "reading_reachable s \<Longrightarrow> reading_apply e s = Some (Inr s') \<Longrightarrow> reading_reachable s'"

inductive_cases reading_reachableE: "reading_reachable s"

section \<open>The invariant\<close>

text \<open>The bytes in the caller's buffer that its coroutine has not seen yet.\<close>

definition in_flight :: "reader_protocol \<Rightarrow> bytes" where
  "in_flight p =
     (case rp_waiter p of
        None \<Rightarrow> []
      | Some w \<Rightarrow> (case rw_future w of ReadInto data \<Rightarrow> data | _ \<Rightarrow> []))"

definition waiter_inv :: "reader_protocol \<Rightarrow> bool" where
  "waiter_inv p \<longleftrightarrow>
     (case rp_waiter p of
        None \<Rightarrow> rp_external p = None
      | Some w \<Rightarrow> 0 < call_size (rw_call w) \<and>
          (case rw_future w of
             ReadPending \<Rightarrow> rp_external p = call_buffer (rw_call w) \<and> \<not> rw_must_cancel w \<and>
               rp_transport p \<and> \<not> rp_read_paused p \<and> \<not> rp_eof_reached p \<and> \<not> rp_connection_lost p \<and> buffered p = []
           | ReadCancelled \<Rightarrow> rp_external p = None \<or> rp_external p = call_buffer (rw_call w)
           | ReadWoken \<Rightarrow> (rp_external p = None \<or> rp_connection_lost p) \<and>
               (buffered p \<noteq> [] \<or> rp_eof_reached p \<or> rp_lost_exception p \<noteq> None)
           | _ \<Rightarrow> rp_external p = None \<or> rp_connection_lost p))"

definition water_inv :: "reader_protocol \<Rightarrow> bool" where
  "water_inv p \<longleftrightarrow>
     0 < rp_max_size p \<and> rp_low_water p \<le> rp_high_water p \<and> rp_high_water p \<le> rp_max_size p \<and>
     (rp_high_water p = 0 \<or> rp_low_water p < rp_high_water p) \<and>
     length (buffered p) \<le> rp_max_size p \<and>
     (rp_read_paused p \<longrightarrow> rp_low_water p < length (buffered p) \<and> \<not> rp_connection_lost p \<and> rp_can_pause p) \<and>
     (rp_can_pause p \<and> \<not> rp_read_paused p \<longrightarrow> buffered p = [] \<or> length (buffered p) < rp_high_water p)"

definition lost_inv :: "reader_protocol \<Rightarrow> bool" where
  "lost_inv p \<longleftrightarrow>
     (rp_buffer p = None \<longleftrightarrow> rp_connection_lost p) \<and> (rp_transport p \<longrightarrow> \<not> rp_connection_lost p) \<and>
     (rp_can_pause p \<and> \<not> rp_connection_lost p \<longrightarrow> rp_transport p) \<and>
     (rp_lost_exception p \<noteq> None \<longrightarrow> rp_connection_lost p) \<and>
     (rp_connection_lost p \<longrightarrow> rp_lost_exception p \<noteq> None \<or> rp_eof_reached p)"

lemma buffered_update [simp]: "buffered (p\<lparr>rp_buffer := Some b\<rparr>) = b" "buffered (p\<lparr>rp_buffer := None\<rparr>) = []"
  "buffered (p\<lparr>rp_buffer := map_option (drop n) (rp_buffer p)\<rparr>) = drop n (buffered p)"
  "buffered (p\<lparr>rp_external := x\<rparr>) = buffered p" "buffered (p\<lparr>rp_waiter := y\<rparr>) = buffered p"
  "buffered (p\<lparr>rp_read_paused := b1\<rparr>) = buffered p" "buffered (p\<lparr>rp_transport := b2\<rparr>) = buffered p"
  "buffered (p\<lparr>rp_eof_reached := b3\<rparr>) = buffered p"
  by (auto simp: buffered_def split: option.split)

definition proto_inv :: "reader_protocol \<Rightarrow> bool" where
  "proto_inv p \<longleftrightarrow> waiter_inv p \<and> water_inv p \<and> lost_inv p"

lemma receive_start_cases:
  assumes "receive_start call p = (r, p')"
  shows "p' = p \<and> (r = Returned [] \<or> (\<exists>e. r = Raised e))
    \<or> r = Suspended \<and> rp_waiter p = None \<and> 0 < call_size call
       \<and> ((buffered p \<noteq> [] \<or> rp_eof_reached p)
             \<and> p' = p\<lparr>rp_waiter := Some \<lparr>rw_call = call, rw_future = ReadWoken, rw_must_cancel = False\<rparr>\<rparr>
          \<or> buffered p = [] \<and> \<not> rp_eof_reached p \<and> \<not> rp_read_paused p \<and> rp_transport p
             \<and> p' = p\<lparr>rp_external := call_buffer call,
                      rp_waiter := Some \<lparr>rw_call = call, rw_future = ReadPending, rw_must_cancel = False\<rparr>\<rparr>)"
  using assms by (auto simp: receive_start_def wait_for_data_def split: option.splits if_splits)

lemma proto_inv_receive:
  assumes "proto_inv p" and "receive_start call p = (r, p')"
  shows "proto_inv p' \<and> buffered p' = buffered p \<and> in_flight p' = in_flight p
    \<and> rp_lost_exception p' = rp_lost_exception p \<and> (r = Suspended \<or> r = Returned [] \<or> (\<exists>e. r = Raised e))"
  using receive_start_cases [OF assms(2)] assms(1)
  by (elim disjE conjE) (auto simp: proto_inv_def waiter_inv_def water_inv_def lost_inv_def in_flight_def)

lemma proto_inv_cancel:
  assumes "proto_inv p" and "rp_waiter p = Some w"
  shows "proto_inv (cancel_reader w p)"
  using assms
  by (cases "rw_future w")
    (auto simp: proto_inv_def waiter_inv_def water_inv_def lost_inv_def cancel_reader_def)

text \<open>Completing the future of a waiting coroutine, in a protocol that it waits for no longer.\<close>

lemma complete_waiter_simps [simp]:
  "buffered (complete_waiter f p) = buffered p" "rp_external (complete_waiter f p) = rp_external p"
  "rp_read_paused (complete_waiter f p) = rp_read_paused p" "rp_max_size (complete_waiter f p) = rp_max_size p"
  "rp_transport (complete_waiter f p) = rp_transport p" "rp_eof_reached (complete_waiter f p) = rp_eof_reached p"
  "rp_connection_lost (complete_waiter f p) = rp_connection_lost p" "rp_can_pause (complete_waiter f p) = rp_can_pause p"
  "rp_high_water (complete_waiter f p) = rp_high_water p" "rp_low_water (complete_waiter f p) = rp_low_water p"
  "rp_lost_exception (complete_waiter f p) = rp_lost_exception p" "rp_buffer (complete_waiter f p) = rp_buffer p"
  by (auto simp: complete_waiter_def buffered_def split: option.split)

lemma complete_waiter_result:
  "rp_waiter (complete_waiter f p) =
     map_option (\<lambda>w. if rw_future w = ReadPending then w\<lparr>rw_future := f\<rparr> else w) (rp_waiter p)"
  by (auto simp: complete_waiter_def split: option.split)

lemma target_size_positive:
  assumes "proto_inv p" and "rp_can_pause p" and "transport_reads p"
  shows "\<exists>t. get_buffer p = Inr t \<and> 0 < target_size t"
proof (cases "rp_external p")
  case None
  with assms show ?thesis
    by (auto simp: proto_inv_def water_inv_def lost_inv_def transport_reads_def get_buffer_def target_size_def
          buffered_def split: option.split option.splits)
next
  case (Some n)
  then obtain w where "rp_waiter p = Some w" "call_buffer (rw_call w) = Some n" "0 < call_size (rw_call w)"
    using assms by (auto simp: proto_inv_def waiter_inv_def transport_reads_def split: option.splits read_future.splits)
  with Some show ?thesis by (cases "rw_call w") (auto simp: get_buffer_def target_size_def)
qed

lemma buffer_updated_external:
  assumes "proto_inv p" and "transport_reads p" and "rp_external p = Some n"
  shows "\<exists>p'. buffer_updated data p = Inr p' \<and> proto_inv p' \<and> buffered p' = buffered p
    \<and> rp_lost_exception p' = rp_lost_exception p
    \<and> (\<exists>w. rp_waiter p = Some w \<and>
         (if rw_future w = ReadPending
          then in_flight p' = data \<and> in_flight p = [] \<and> buffered p = []
             \<and> rp_waiter p' = Some (w\<lparr>rw_future := ReadInto data\<rparr>) \<and> \<not> rw_must_cancel w
          else rw_future w = ReadCancelled \<and> p' = p\<lparr>rp_external := None\<rparr>))"
proof -
  obtain w where w: "rp_waiter p = Some w" "rw_future w = ReadPending \<or> rw_future w = ReadCancelled"
    using assms by (auto simp: proto_inv_def waiter_inv_def transport_reads_def split: option.splits read_future.splits)
  let ?p = "complete_waiter (ReadInto data) (p\<lparr>rp_external := None\<rparr>)"
  have u: "buffer_updated data p = Inr ?p"
    using assms by (simp add: buffer_updated_def transport_reads_def)
  show ?thesis
  proof (cases "rw_future w")
    case ReadPending
    then have "proto_inv ?p"
      using assms(1) w by (auto simp: proto_inv_def waiter_inv_def water_inv_def lost_inv_def complete_waiter_result)
    with u w ReadPending assms(1) show ?thesis
      by (auto simp: in_flight_def complete_waiter_result proto_inv_def waiter_inv_def)
  next
    case ReadCancelled
    then have p: "?p = p\<lparr>rp_external := None\<rparr>" using w by (simp add: complete_waiter_def)
    have "proto_inv (p\<lparr>rp_external := None\<rparr>)"
      using assms(1) w ReadCancelled by (auto simp: proto_inv_def waiter_inv_def water_inv_def lost_inv_def)
    with u w ReadCancelled show ?thesis unfolding p by simp
  qed (use w in auto)
qed

lemma buffer_updated_internal:
  assumes "proto_inv p" and "transport_reads p" and "rp_external p = None"
    and "length data \<le> rp_max_size p - length (buffered p)" and "data \<noteq> []"
  shows "\<exists>p'. buffer_updated data p = Inr p' \<and> proto_inv p' \<and> buffered p' = buffered p @ data
    \<and> rp_lost_exception p' = rp_lost_exception p \<and> in_flight p' = in_flight p \<and> rp_external p' = None
    \<and> rp_waiter p' = map_option (\<lambda>w. if rw_future w = ReadPending then w\<lparr>rw_future := ReadWoken\<rparr> else w) (rp_waiter p)"
proof -
  let ?p1 = "complete_waiter ReadWoken (p\<lparr>rp_buffer := Some (buffered p @ data)\<rparr>)"
  let ?p = "maybe_pause_transport ?p1"
  have water: "length (buffered p) \<le> rp_max_size p" "rp_can_pause p \<longrightarrow> rp_transport p" "\<not> rp_connection_lost p"
    using assms(1,2) by (auto simp: proto_inv_def water_inv_def lost_inv_def transport_reads_def)
  then have u: "buffer_updated data p = Inr ?p"
    using assms by (simp add: buffer_updated_def wakeup_read_waiter_def transport_reads_def)
  have pause: "?p = (if rp_high_water p \<le> length (buffered p @ data) \<and> rp_transport p
      then if rp_can_pause p then ?p1\<lparr>rp_read_paused := True\<rparr> else ?p1\<lparr>rp_transport := False\<rparr> else ?p1)"
    using assms(2) by (simp add: maybe_pause_transport_def transport_reads_def)
  have "waiter_inv ?p1"
    using assms(1,3,5) by (auto simp: proto_inv_def waiter_inv_def complete_waiter_result
        split: option.splits read_future.splits)
  then have "waiter_inv ?p"
    unfolding pause by (auto simp: waiter_inv_def complete_waiter_result split: option.splits read_future.splits)
  moreover have "water_inv ?p" "lost_inv ?p"
    using assms water unfolding pause
    by (auto simp: proto_inv_def water_inv_def lost_inv_def transport_reads_def)
  moreover have "in_flight ?p = in_flight p"
    unfolding pause by (auto simp: in_flight_def complete_waiter_result split: option.splits)
  ultimately show ?thesis
    using u assms(3) unfolding pause by (auto simp: proto_inv_def complete_waiter_result)
qed

lemma proto_inv_eof:
  assumes "proto_inv p" and "transport_reads p"
  shows "proto_inv (snd (eof_received p)) \<and> buffered (snd (eof_received p)) = buffered p
    \<and> in_flight (snd (eof_received p)) = in_flight p \<and> rp_lost_exception (snd (eof_received p)) = rp_lost_exception p
    \<and> rp_external (snd (eof_received p)) = None
    \<and> rp_waiter (snd (eof_received p))
        = map_option (\<lambda>w. if rw_future w = ReadPending then w\<lparr>rw_future := ReadWoken\<rparr> else w) (rp_waiter p)"
  using assms
  by (auto simp: proto_inv_def waiter_inv_def water_inv_def lost_inv_def in_flight_def eof_received_def
        wakeup_read_waiter_def complete_waiter_result transport_reads_def split: option.splits read_future.splits)

text \<open>What a lost connection leaves.\<close>

lemma lost_waiter:
  "rp_waiter (reader_connection_lost exc p) =
     (if rp_connection_lost p then rp_waiter p
      else map_option (\<lambda>w. if rw_future w = ReadPending
             then w\<lparr>rw_future := (case (if exc = None \<and> buffered p \<noteq> [] then Some (error_from_errno ''ECONNRESET'') else exc) of
                                   None \<Rightarrow> ReadWoken | Some e \<Rightarrow> ReadFailed e)\<rparr>
             else w) (rp_waiter p))"
  by (simp add: reader_connection_lost_def Let_def wakeup_read_waiter_def complete_waiter_result)

lemma proto_inv_lost:
  assumes "proto_inv p"
  shows "proto_inv (reader_connection_lost exc p) \<and> in_flight (reader_connection_lost exc p) = in_flight p
    \<and> (rp_lost_exception (reader_connection_lost exc p) = None \<longrightarrow>
         buffered (reader_connection_lost exc p) = buffered p \<and> rp_lost_exception p = None)
    \<and> rp_external (reader_connection_lost exc p) = rp_external p"
proof (cases "rp_connection_lost p")
  case False
  let ?p = "reader_connection_lost exc p"
  have p: "buffered ?p = []" "rp_connection_lost ?p" "\<not> rp_read_paused ?p" "\<not> rp_transport ?p" "rp_buffer ?p = None"
    "rp_max_size ?p = rp_max_size p" "rp_high_water ?p = rp_high_water p" "rp_low_water ?p = rp_low_water p"
    "rp_can_pause ?p = rp_can_pause p" "rp_external ?p = rp_external p"
    "rp_lost_exception ?p = (if exc = None \<and> buffered p \<noteq> [] then Some (error_from_errno ''ECONNRESET'') else exc)"
    "rp_lost_exception ?p = None \<longrightarrow> rp_eof_reached ?p"
    using False by (auto simp: reader_connection_lost_def wakeup_read_waiter_def Let_def buffered_def)
  have lost: "rp_lost_exception p = None" using assms False by (auto simp: proto_inv_def lost_inv_def)
  have "water_inv ?p" "lost_inv ?p" using assms p by (auto simp: proto_inv_def water_inv_def lost_inv_def)
  moreover have "waiter_inv ?p"
    using assms False p(2) p(12) unfolding proto_inv_def waiter_inv_def lost_waiter p(10)
    by (cases "rp_waiter p") (auto split: option.splits read_future.splits)
  moreover have "in_flight ?p = in_flight p"
    using False by (auto simp: in_flight_def lost_waiter split: option.splits)
  ultimately show ?thesis using p lost by (auto simp: proto_inv_def split: if_splits)
qed (use assms in \<open>simp add: reader_connection_lost_def\<close>)

lemma proto_inv_cleared:
  assumes "proto_inv p"
  shows "proto_inv (p\<lparr>rp_external := None, rp_waiter := None\<rparr>)"
  using assms by (auto simp: proto_inv_def waiter_inv_def water_inv_def lost_inv_def)

lemma proto_inv_take:
  assumes "proto_inv p" and "take_buffered n p = (r, p')" and "rp_waiter p = None"
  shows "proto_inv p' \<and> r = Returned (take n (buffered p)) \<and> buffered p' = drop n (buffered p)
    \<and> rp_lost_exception p' = rp_lost_exception p \<and> rp_waiter p' = rp_waiter p \<and> rp_external p' = rp_external p
    \<and> rp_eof_reached p' = rp_eof_reached p"
proof -
  let ?p = "p\<lparr>rp_buffer := map_option (drop n) (rp_buffer p)\<rparr>"
  have p': "p' = (if rp_read_paused p \<and> rp_transport p \<and> length (drop n (buffered p)) \<le> rp_low_water p
               then ?p\<lparr>rp_read_paused := False\<rparr> else ?p)"
    and r: "r = Returned (take n (buffered p))"
    using assms(2) by (auto simp: take_buffered_def maybe_resume_transport_def)
  have "waiter_inv p'"
    using assms(1,3) unfolding p' by (auto simp: proto_inv_def waiter_inv_def)
  moreover have "lost_inv p'"
    using assms(1) unfolding p' by (auto simp: proto_inv_def lost_inv_def)
  moreover have "water_inv p'"
    using assms(1) unfolding p' by (auto simp: proto_inv_def water_inv_def lost_inv_def)
  ultimately show ?thesis using r unfolding p' by (auto simp: proto_inv_def)
qed

text \<open>
  The bytes read are those returned, those in flight and those kept, except what a lost connection drops.  In a clean
  history a cancelled coroutine leaves no buffer behind.
\<close>

definition bytes_inv :: "reading \<Rightarrow> bool" where
  "bytes_inv s \<longleftrightarrow>
     prefix (rd_returned s @ in_flight (rd_protocol s)) (rd_arrived s) \<and>
     (rp_lost_exception (rd_protocol s) = None \<longrightarrow>
        rd_arrived s = rd_returned s @ in_flight (rd_protocol s) @ buffered (rd_protocol s)) \<and>
     (case rp_waiter (rd_protocol s) of
        None \<Rightarrow> True
      | Some w \<Rightarrow>
          (case rw_future w of
             ReadInto data \<Rightarrow> \<not> rw_must_cancel w \<and> data \<noteq> []
           | ReadCancelled \<Rightarrow> rp_external (rd_protocol s) = None
           | _ \<Rightarrow> True))"

definition reading_inv :: "reading \<Rightarrow> bool" where
  "reading_inv s \<longleftrightarrow> proto_inv (rd_protocol s) \<and> (rd_clean s \<longrightarrow> bytes_inv s)"

lemma reading_inv_arrives:
  assumes "reading_inv s" and "reading_apply (Arrives data) s = Some r"
  shows "\<exists>s'. r = Inr s' \<and> reading_inv s'"
proof -
  let ?p = "rd_protocol s"
  from assms(2) have reads: "transport_reads ?p" "data \<noteq> []" by (auto split: if_splits)
  have inv: "proto_inv ?p" using assms(1) by (simp add: reading_inv_def)
  show ?thesis
  proof (cases "rp_external ?p")
    case None
    then have "get_buffer ?p = Inr (Internal (rp_max_size ?p - length (buffered ?p)))"
      using inv reads by (auto simp: get_buffer_def proto_inv_def lost_inv_def transport_reads_def buffered_def split: option.splits)
    with assms(2) reads have fits: "length data \<le> rp_max_size ?p - length (buffered ?p)"
      by (auto simp: target_size_def split: if_splits)
    from buffer_updated_internal [OF inv reads(1) None this reads(2)] obtain p' where
      p': "buffer_updated data ?p = Inr p'" "proto_inv p'" "buffered p' = buffered ?p @ data"
        "rp_lost_exception p' = rp_lost_exception ?p" "in_flight p' = in_flight ?p" "rp_external p' = None"
        "rp_waiter p' = map_option (\<lambda>w. if rw_future w = ReadPending then w\<lparr>rw_future := ReadWoken\<rparr> else w) (rp_waiter ?p)"
      by blast
    have r: "r = Inr (s\<lparr>rd_protocol := p', rd_arrived := rd_arrived s @ data\<rparr>)"
      using assms(2) reads p'(1) \<open>get_buffer ?p = _\<close> by (auto split: if_splits)
    have "bytes_inv (s\<lparr>rd_protocol := p', rd_arrived := rd_arrived s @ data\<rparr>)" if "bytes_inv s"
      using that p' by (auto simp: bytes_inv_def intro: prefix_prefix split: option.splits read_future.splits)
    with r p'(2) assms(1) show ?thesis by (auto simp: reading_inv_def)
  next
    case (Some n)
    from buffer_updated_external [OF inv reads(1) Some, of data] obtain p' w where
      p': "buffer_updated data ?p = Inr p'" "proto_inv p'" "buffered p' = buffered ?p"
        "rp_lost_exception p' = rp_lost_exception ?p"
      and w: "rp_waiter ?p = Some w"
        "if rw_future w = ReadPending
          then in_flight p' = data \<and> in_flight ?p = [] \<and> buffered ?p = []
             \<and> rp_waiter p' = Some (w\<lparr>rw_future := ReadInto data\<rparr>) \<and> \<not> rw_must_cancel w
          else rw_future w = ReadCancelled \<and> p' = ?p\<lparr>rp_external := None\<rparr>" by blast
    have r: "r = Inr (s\<lparr>rd_protocol := p', rd_arrived := rd_arrived s @ data\<rparr>)"
      using assms(2) reads p'(1) Some by (auto simp: get_buffer_def split: if_splits)
    have lost: "rp_lost_exception ?p = None"
      using inv reads(1) by (auto simp: proto_inv_def lost_inv_def transport_reads_def)
    have "bytes_inv (s\<lparr>rd_protocol := p', rd_arrived := rd_arrived s @ data\<rparr>)" if "bytes_inv s"
      using that p' w lost Some reads(2) by (auto simp: bytes_inv_def split: if_splits)
    with r p'(2) assms(1) show ?thesis by (auto simp: reading_inv_def)
  qed
qed

lemma bytes_inv_returned:
  assumes "bytes_inv s" and "rp_waiter p' = None" and "rp_lost_exception p' = rp_lost_exception (rd_protocol s)"
    and "d @ buffered p' = in_flight (rd_protocol s) @ buffered (rd_protocol s)"
    and "d = in_flight (rd_protocol s) \<or> rp_lost_exception p' = None"
  shows "bytes_inv (s\<lparr>rd_protocol := p', rd_returned := rd_returned s @ d\<rparr>)"
proof -
  have eq: "rd_arrived s = rd_returned s @ d @ buffered p'" if "rp_lost_exception p' = None"
    using assms(1,3,4) that by (simp add: bytes_inv_def)
  moreover have "prefix (rd_returned s @ d) (rd_arrived s)"
    using assms(1,5) eq by (auto simp: bytes_inv_def)
  ultimately show ?thesis using assms(2) by (simp add: bytes_inv_def in_flight_def)
qed

lemma reading_inv_resume:
  assumes "reading_inv s" and "rp_waiter (rd_protocol s) = Some w" and "runnable w"
    and "receive_resume w (rd_protocol s) = (r, p')"
  shows "reading_inv (note_outcome (r, p') s)
    \<and> (rd_clean s \<longrightarrow> r = Returned [] \<longrightarrow> rd_returned s = rd_arrived s \<and> rp_eof_reached p')"
proof -
  let ?p = "rd_protocol s" and ?q = "(rd_protocol s)\<lparr>rp_external := None, rp_waiter := None\<rparr>"
  have inv: "proto_inv ?p" using assms(1) by (simp add: reading_inv_def)
  note cleared = proto_inv_cleared [OF inv]
  have q: "buffered ?q = buffered ?p" "in_flight ?q = []" "rp_lost_exception ?q = rp_lost_exception ?p"
    "rp_eof_reached ?q = rp_eof_reached ?p"
    by (simp_all add: in_flight_def)
  have into: "in_flight ?p = (case rw_future w of ReadInto data \<Rightarrow> data | _ \<Rightarrow> [])"
    using assms(2) by (simp add: in_flight_def)
  have kept: "in_flight ?p = []" if "bytes_inv s" "rw_must_cancel w"
    using that assms(2) into by (cases "rw_future w") (auto simp: bytes_inv_def)
  consider e where "r = Raised e" "p' = ?q" "bytes_inv s \<longrightarrow> in_flight ?p = []"
    | data where "rw_future w = ReadInto data" "r = Returned data" "p' = ?q"
    | "rw_future w = ReadWoken" "rp_lost_exception ?p = None" "take_buffered (call_size (rw_call w)) ?q = (r, p')"
  proof (cases "rw_must_cancel w")
    case True
    with assms(4) have "r = Raised CancelledError" "p' = ?q" by (simp_all add: receive_resume_def Let_def)
    with kept True that(1) show thesis by blast
  next
    case False
    show thesis
    proof (cases "rw_future w")
      case ReadPending
      with False assms(3) show thesis by (simp add: runnable_def)
    next
      case ReadWoken
      show thesis
      proof (cases "rp_lost_exception ?p")
        case None
        with False ReadWoken assms(4) that(3) show thesis by (simp add: receive_resume_def Let_def)
      next
        case (Some e)
        with False ReadWoken assms(4) have "r = Raised e" "p' = ?q" by (simp_all add: receive_resume_def Let_def)
        with that(1) into ReadWoken show thesis by simp
      qed
    next
      case (ReadInto data)
      with False assms(4) have "r = Returned data" "p' = ?q" by (simp_all add: receive_resume_def Let_def)
      with that(2) ReadInto show thesis by blast
    next
      case (ReadFailed e)
      with False assms(4) have "r = Raised e" "p' = ?q" by (simp_all add: receive_resume_def Let_def)
      with that(1) into ReadFailed show thesis by simp
    next
      case ReadCancelled
      with False assms(4) have "r = Raised CancelledError" "p' = ?q" by (simp_all add: receive_resume_def Let_def)
      with that(1) into ReadCancelled show thesis by simp
    qed
  qed
  then show ?thesis
  proof cases
    case (1 e)
    have "bytes_inv (s\<lparr>rd_protocol := ?q, rd_returned := rd_returned s @ []\<rparr>)" if "bytes_inv s"
      by (rule bytes_inv_returned [OF that]) (use 1 q that in simp_all)
    with cleared 1 assms(1) show ?thesis unfolding reading_inv_def note_outcome_def by simp
  next
    case (2 data)
    with into have d: "in_flight ?p = data" by simp
    have "bytes_inv (s\<lparr>rd_protocol := ?q, rd_returned := rd_returned s @ data\<rparr>)" if "bytes_inv s"
      by (rule bytes_inv_returned [OF that]) (use d q in simp_all)
    moreover have "data \<noteq> []" if "bytes_inv s" using that assms(2) 2(1) by (simp add: bytes_inv_def)
    ultimately show ?thesis using cleared 2 assms(1) unfolding reading_inv_def note_outcome_def by auto
  next
    case 3
    let ?n = "call_size (rw_call w)"
    from proto_inv_take [OF cleared 3(3)] q have p': "proto_inv p'" "r = Returned (take ?n (buffered ?p))"
      "buffered p' = drop ?n (buffered ?p)" "rp_lost_exception p' = None" "rp_waiter p' = None"
      "rp_eof_reached p' = rp_eof_reached ?p"
      using 3(2) by auto
    have n: "0 < ?n" and woken: "buffered ?p \<noteq> [] \<or> rp_eof_reached ?p"
      using inv assms(2) 3(1,2) by (auto simp: proto_inv_def waiter_inv_def)
    from 3 into have flight: "in_flight ?p = []" by simp
    have "bytes_inv (s\<lparr>rd_protocol := p', rd_returned := rd_returned s @ take ?n (buffered ?p)\<rparr>)" if "bytes_inv s"
      by (rule bytes_inv_returned [OF that p'(5)]) (use p' 3(2) flight in simp_all)
    moreover have "rd_returned s = rd_arrived s \<and> rp_eof_reached p'" if "bytes_inv s" "take ?n (buffered ?p) = []"
      using that n woken flight 3(2) p'(6) by (auto simp: bytes_inv_def)
    ultimately show ?thesis using p'(1,2) assms(1) unfolding reading_inv_def note_outcome_def by auto
  qed
qed

text \<open>The write side does not touch what is read.\<close>

lemma reading_inv_write_flow:
  assumes "reading_inv s"
  shows "reading_inv (s\<lparr>rd_protocol := (rd_protocol s)\<lparr>rp_write_flow := f\<rparr>\<rparr>)"
proof -
  have eq: "buffered (p\<lparr>rp_write_flow := f\<rparr>) = buffered p" "in_flight (p\<lparr>rp_write_flow := f\<rparr>) = in_flight p" for p
    by (simp_all add: buffered_def in_flight_def)
  then have "proto_inv (p\<lparr>rp_write_flow := f\<rparr>) = proto_inv p" for p
    by (cases "rp_waiter p"; cases "rw_future (the (rp_waiter p))")
      (simp_all add: proto_inv_def waiter_inv_def water_inv_def lost_inv_def)
  moreover have "bytes_inv (s\<lparr>rd_protocol := (rd_protocol s)\<lparr>rp_write_flow := f\<rparr>\<rparr>) = bytes_inv s"
    by (cases "rp_waiter (rd_protocol s)"; cases "rw_future (the (rp_waiter (rd_protocol s)))")
      (simp_all add: bytes_inv_def eq)
  ultimately show ?thesis using assms by (simp add: reading_inv_def)
qed

lemma reading_inv_apply:
  assumes "reading_inv s" and "reading_apply e s = Some r"
  shows "\<exists>s'. r = Inr s' \<and> reading_inv s'"
proof (cases e)
  case (Arrives data)
  with assms reading_inv_arrives show ?thesis by blast
next
  case EofReceived
  with assms(2) have r: "transport_reads (rd_protocol s)" "r = Inr (s\<lparr>rd_protocol := snd (eof_received (rd_protocol s))\<rparr>)"
    by (auto split: if_splits)
  from assms(1) proto_inv_eof [OF _ r(1)] show ?thesis
    unfolding r(2) by (auto simp: reading_inv_def bytes_inv_def split: option.splits read_future.splits)
next
  case (Lost exc)
  with assms(2) have r: "r = Inr (s\<lparr>rd_protocol := reader_connection_lost exc (rd_protocol s)\<rparr>)" by simp
  from assms(1) proto_inv_lost [of "rd_protocol s" exc] lost_waiter [of exc "rd_protocol s"] show ?thesis
    unfolding r by (auto simp: reading_inv_def bytes_inv_def split: option.splits read_future.splits if_splits)
next
  case (Receive call)
  obtain o1 p' where p': "receive_start call (rd_protocol s) = (o1, p')" by fastforce
  with assms(2) Receive have r: "r = Inr (note_outcome (o1, p') s)" by simp
  from assms(1) proto_inv_receive [OF _ p'] receive_start_cases [OF p'] show ?thesis
    unfolding r
    by (auto simp: reading_inv_def note_outcome_def bytes_inv_def split: option.splits read_future.splits)
next
  case CancelReader
  with assms(2) obtain w where w: "rp_waiter (rd_protocol s) = Some w"
    and r: "r = Inr (s\<lparr>rd_protocol := cancel_reader w (rd_protocol s), rd_clean := (rd_clean s \<and> \<not> direct_read w)\<rparr>)"
    by (auto split: option.splits)
  have "bytes_inv (s\<lparr>rd_protocol := cancel_reader w (rd_protocol s), rd_clean := c\<rparr>)"
    if "bytes_inv s" "\<not> direct_read w" "proto_inv (rd_protocol s)" for c
    using that w
    by (cases "rw_future w")
      (auto simp: bytes_inv_def cancel_reader_def in_flight_def direct_read_def proto_inv_def waiter_inv_def)
  with assms(1) proto_inv_cancel [OF _ w] show ?thesis
    unfolding r reading_inv_def by auto
next
  case Resume
  with assms(2) obtain w where w: "rp_waiter (rd_protocol s) = Some w" "runnable w"
    and r: "r = Inr (note_outcome (receive_resume w (rd_protocol s)) s)"
    by (auto split: option.splits if_splits)
  obtain o1 p' where p': "receive_resume w (rd_protocol s) = (o1, p')" by fastforce
  from reading_inv_resume [OF assms(1) w p'] show ?thesis unfolding r p' by blast
next
  case (WriterDrain is_closing t)
  have "snd (writer_drain is_closing t p)
          = p\<lparr>rp_write_flow := snd (drain is_closing t (rp_write_flow p))\<rparr>" for p
    by (simp add: writer_drain_def case_prod_beta)
  with WriterDrain assms reading_inv_write_flow show ?thesis by auto
qed (use assms reading_inv_write_flow in \<open>auto simp: reader_pause_writing_def reader_resume_writing_def\<close>)

lemma flowcontrol_defaults_max:
  assumes "read_buffer_limits max_size = Inr (hi, lo)"
  shows "lo \<le> hi \<and> hi \<le> max_size \<and> (hi = 0 \<or> lo < hi)"
proof -
  have "hi = max_size div 1024 * 3 div 4 * 1024" "lo = hi div 4"
    using assms by (auto simp: read_buffer_limits_def flowcontrol_defaults_def Let_def split: if_splits)
  then show ?thesis by auto
qed

lemma reading_inv_reachable: "reading_reachable s \<Longrightarrow> reading_inv s"
proof (induction rule: reading_reachable.induct)
  case (reading_start max_size ssl p)
  then obtain hi lo where limits: "read_buffer_limits max_size = Inr (hi, lo)"
    by (auto simp: reader_init_def result_bind_def split: sum.splits)
  from flowcontrol_defaults_max [OF limits] reading_start limits show ?case
    by (auto simp: reader_init_def reading_inv_def proto_inv_def waiter_inv_def water_inv_def lost_inv_def bytes_inv_def
          in_flight_def buffered_def)
next
  case (reading_step s e s')
  with reading_inv_apply show ?case by fastforce
qed

section \<open>Properties\<close>

text \<open>
  C14: what the coroutines that receive return, by either method, is always a prefix of what arrived from the transport: nothing
  is repeated, reordered or left out in between.  While the connection is up the rest is kept, for the coroutine that
  waits or in the buffer; \<^verbatim>\<open>connection_lost\<close> discards what is buffered, and every reception then fails.  The end of
  the stream is reported only when everything has been returned, even if the connection was lost with bytes pending.  This
  holds for transports with and without \<^verbatim>\<open>pause_reading\<close>, as long as no task is cancelled while the transport writes to the task's own buffer
  (\<open>rd_clean\<close>).
\<close>

theorem reader_keeps_bytes:
  assumes "reading_reachable s" and "rd_clean s"
  shows "prefix (rd_returned s) (rd_arrived s)
    \<and> (\<not> rp_connection_lost (rd_protocol s) \<longrightarrow>
         rd_arrived s = rd_returned s @ in_flight (rd_protocol s) @ buffered (rd_protocol s))
    \<and> (\<forall>w p'. rp_waiter (rd_protocol s) = Some w \<longrightarrow> runnable w \<longrightarrow>
         receive_resume w (rd_protocol s) = (Returned [], p') \<longrightarrow> rd_returned s = rd_arrived s \<and> rp_eof_reached p')"
proof -
  have inv: "reading_inv s" using assms(1) by (rule reading_inv_reachable)
  then have "bytes_inv s" "lost_inv (rd_protocol s)" using assms(2) by (auto simp: reading_inv_def proto_inv_def)
  then show ?thesis
    using reading_inv_resume [OF inv] assms(2) unfolding bytes_inv_def lost_inv_def by (auto dest: append_prefixD)
qed


text \<open>A history of events.\<close>

fun reading_run :: "reader_event list \<Rightarrow> reading \<Rightarrow> (exc + reading) option" where
  "reading_run [] s = Some (Inr s)"
| "reading_run (e # es) s =
     (case reading_apply e s of
        Some (Inr s') \<Rightarrow> reading_run es s'
      | r \<Rightarrow> r)"

lemma reading_run_reachable: "reading_reachable s \<Longrightarrow> reading_run es s = Some (Inr s') \<Longrightarrow> reading_reachable s'"
proof (induction es arbitrary: s)
  case (Cons e es)
  from Cons.prems(2) obtain s1 where "reading_apply e s = Some (Inr s1)" "reading_run es s1 = Some (Inr s')"
    by (auto split: option.splits sum.splits)
  with Cons reading_step show ?case by blast
qed simp

text \<open>A new protocol with the default limits.\<close>

definition new_reading :: "nat \<Rightarrow> bool \<Rightarrow> exc + reading" where
  "new_reading max_size ssl =
     result_bind (reader_init max_size True ssl) (\<lambda>p.
       Inr \<lparr>rd_protocol = p, rd_arrived = [], rd_returned = [], rd_clean = True\<rparr>)"

lemma new_reading_reachable: "new_reading max_size ssl = Inr s \<Longrightarrow> 0 < max_size \<Longrightarrow> reading_reachable s"
  by (auto simp: new_reading_def result_bind_def split: sum.splits intro: reading_start)

text \<open>
  a coroutine that receives into its own buffer and is cancelled between the arrival of the bytes and its next turn
  (or between the cancellation and the arrival) loses them: they are neither returned nor kept, the connection is up, and the
  next call returns what follows.
\<close>

theorem cancelled_direct_read_loses_bytes:
  assumes "new_reading max_size ssl = Inr s0" and "data \<noteq> []" and "length data \<le> n" and "data2 \<noteq> []"
    and "length data2 \<le> m" and "es = [Arrives data, CancelReader] \<or> es = [CancelReader, Arrives data]"
  shows "\<exists>s. reading_run (Receive (ReceiveInto n) # es @ [Resume, Receive (ReceiveInto m), Arrives data2, Resume]) s0
             = Some (Inr s)
      \<and> rd_arrived s = data @ data2 \<and> rd_returned s = data2 \<and> buffered (rd_protocol s) = []
      \<and> in_flight (rd_protocol s) = [] \<and> \<not> rp_connection_lost (rd_protocol s)"
proof -
  obtain hi lo where s0: "s0 = \<lparr>rd_protocol = \<lparr>rp_max_size = max_size, rp_buffer = Some [], rp_external = None,
      rp_transport = True, rp_can_pause = True, rp_over_ssl = ssl, rp_closed = False,
      rp_write_flow = flow_init ''ECONNRESET'', rp_waiter = None, rp_read_paused = False,
      rp_high_water = hi, rp_low_water = lo, rp_connection_lost = False, rp_lost_exception = None,
      rp_eof_reached = False\<rparr>, rd_arrived = [], rd_returned = [], rd_clean = True\<rparr>"
    using assms(1) by (auto simp: new_reading_def reader_init_def result_bind_def split: sum.splits)
  have n: "n \<noteq> 0" "m \<noteq> 0" using assms(2-5) by (cases data; cases data2; simp)+
  show ?thesis
    using assms(6) n assms(2-5) unfolding s0
    by (elim disjE)
      (simp_all add: receive_start_def wait_for_data_def note_outcome_def transport_reads_def get_buffer_def target_size_def
        buffer_updated_def complete_waiter_def cancel_reader_def runnable_def receive_resume_def in_flight_def buffered_def)
qed

text \<open>Two bytes received directly, then one buffered for a second coroutine that has not run again yet.\<close>

definition reader_example :: reading where
  "reader_example =
     \<lparr>rd_protocol = \<lparr>rp_max_size = 8192, rp_buffer = Some ''C'', rp_external = None,
        rp_transport = True, rp_can_pause = True, rp_over_ssl = False, rp_closed = False,
        rp_write_flow = flow_init ''ECONNRESET'',
        rp_waiter = Some \<lparr>rw_call = ReceiveData 4, rw_future = ReadWoken, rw_must_cancel = False\<rparr>,
        rp_read_paused = False, rp_high_water = 6144, rp_low_water = 1536, rp_connection_lost = False,
        rp_lost_exception = None, rp_eof_reached = False\<rparr>,
      rd_arrived = ''ABC'', rd_returned = ''AB'', rd_clean = True\<rparr>"

lemma reader_example_run:
  "\<exists>s0. new_reading 8192 False = Inr s0
     \<and> reading_run [Receive (ReceiveInto 2), Arrives ''AB'', Resume, Receive (ReceiveData 4), Arrives ''C''] s0
         = Some (Inr reader_example)"
  by (simp add: new_reading_def reader_init_def read_buffer_limits_def flowcontrol_defaults_def result_bind_def
      receive_start_def wait_for_data_def note_outcome_def transport_reads_def get_buffer_def target_size_def
      buffer_updated_def complete_waiter_def runnable_def receive_resume_def buffered_def wakeup_read_waiter_def
      maybe_pause_transport_def reader_example_def Let_def)

lemma reader_example_reachable: "reading_reachable reader_example"
  using reader_example_run new_reading_reachable reading_run_reachable by fastforce

theorem reader_keeps_bytes_witness:
  "prefix (rd_returned reader_example) (rd_arrived reader_example)
     \<and> rd_arrived reader_example
         = rd_returned reader_example @ in_flight (rd_protocol reader_example) @ buffered (rd_protocol reader_example)
     \<and> fst (receive_resume \<lparr>rw_call = ReceiveData 4, rw_future = ReadWoken, rw_must_cancel = False\<rparr>
               (rd_protocol reader_example)) = Returned ''C''"
  using reader_keeps_bytes [OF reader_example_reachable]
  by (simp add: reader_example_def receive_resume_def take_buffered_def buffered_def)


theorem cancelled_direct_read_loses_bytes_witness:
  "\<exists>s0 s. new_reading 8192 False = Inr s0
     \<and> reading_run (Receive (ReceiveInto 2) # [Arrives ''A'', CancelReader] @
           [Resume, Receive (ReceiveInto 2), Arrives ''B'', Resume]) s0 = Some (Inr s)
     \<and> rd_arrived s = ''A'' @ ''B'' \<and> rd_returned s = ''B''"
proof -
  obtain s0 where s0: "new_reading 8192 False = Inr s0" using reader_example_run by blast
  from cancelled_direct_read_loses_bytes [OF s0, of "''A''" 2 "''B''" 2 "[Arrives ''A'', CancelReader]"] s0
  show ?thesis by (auto simp del: reading_run.simps)
qed

end
