(* ===== verification/CancelScopes.thy ===== *)
theory CancelScopes
  imports Timeouts
begin

text \<open>
  \<^verbatim>\<open>CancelScope\<close> and the cancellation helpers of \<^verbatim>\<open>TaskUtils\<close>,
  \<^verbatim>\<open>src/src/easynetwork/lowlevel/api_async/backend/_asyncio/tasks.py\<close>, for one task on an asyncio event loop.

  The state holds the task as asyncio keeps it (the counter of \<^verbatim>\<open>cancelling()\<close>, the mark \<^verbatim>\<open>_must_cancel\<close>, the future it
  waits for), its scopes, and the callbacks given to \<^verbatim>\<open>call_soon\<close>, in order.  A callback, or a piece of the
  task between two suspension points, is one step.  A handle that is cancelled is removed from the callbacks.
\<close>

section \<open>State\<close>

text \<open>
  The reason of a scope contains its identity; \<open>Message\<close> is any other message of \<^verbatim>\<open>Task.cancel\<close>.
\<close>

datatype cancel_message = Scoped nat string | Message string

datatype scope_state = CREATED | ENTERED | EXITED

text \<open>
  \<open>sc_host_task\<close> tells whether the scope has its host task; \<open>sc_timeout_handle\<close> is the time of the timer,
  \<open>sc_cancel_handle\<close> says that \<^verbatim>\<open>__deliver_cancellation\<close> is among the callbacks.
\<close>

record cancel_scope =
  sc_state :: scope_state
  sc_host_task :: bool
  sc_host_task_cancelling :: nat
  sc_host_task_cancel_calls :: nat
  sc_cancel_called :: bool
  sc_cancel_reason :: "cancel_message option"
  sc_cancelled_caught :: bool
  sc_deadline :: delay
  sc_timeout_handle :: "int option"
  sc_cancel_handle :: bool

text \<open>
  What the task does: it runs, it has given way to the loop, it waits for a future, or that future is done or was
  cancelled (with the message given).
\<close>

datatype task_wait = Running | Yielded | Waiting | WaitDone | WaitCancelled "cancel_message option"

datatype loop_callback =
  Deliver nat | CancelUnlessDone nat "cancel_message option" | PopDelayed | StepTask

text \<open>
  \<open>ht_scopes\<close> are the scopes by identity, \<open>ht_stack\<close> those the task is in, the innermost first.  \<open>ht_delayed\<close> is the entry of
  \<^verbatim>\<open>__delayed_task_cancel_dict\<close>, the number of the handle and the message.  \<open>ht_shielded\<close>: the task is suspended in one of the
  shielded helpers, which keeps the last cancellation it has absorbed in \<open>ht_absorbed\<close>; \<open>ht_thrown\<close> is the
  cancellation raised in the task when it was resumed.  \<open>ht_clears\<close> is the behaviour of \<^verbatim>\<open>Task.uncancel\<close> from Python 3.13 on.
  \<open>ht_external\<close> counts the cancellations that did not come from a scope.
\<close>

record host =
  ht_scopes :: "nat \<Rightarrow> cancel_scope"
  ht_stack :: "nat list"
  ht_cancelling :: nat
  ht_must_cancel :: bool
  ht_cancel_message :: "cancel_message option"
  ht_wait :: task_wait
  ht_shielded :: bool
  ht_absorbed :: "cancel_message option option"
  ht_thrown :: "cancel_message option option"
  ht_delayed :: "(nat \<times> cancel_message option) option"
  ht_next_handle :: nat
  ht_ready :: "loop_callback list"
  ht_time :: int
  ht_clears :: bool
  ht_external :: nat

definition update_scope :: "nat \<Rightarrow> (cancel_scope \<Rightarrow> cancel_scope) \<Rightarrow> host \<Rightarrow> host" where
  "update_scope s f h = h\<lparr>ht_scopes := (ht_scopes h)(s := f (ht_scopes h s))\<rparr>"

definition call_soon :: "loop_callback \<Rightarrow> host \<Rightarrow> host" where
  "call_soon c h = h\<lparr>ht_ready := ht_ready h @ [c]\<rparr>"

section \<open>Tasks of asyncio\<close>

text \<open>\<^verbatim>\<open>Task.cancel(msg)\<close> of a task that is not done, and \<^verbatim>\<open>Task.uncancel()\<close>.\<close>

definition task_cancel :: "cancel_message option \<Rightarrow> host \<Rightarrow> host" where
  "task_cancel msg h =
     (let h' = h\<lparr>ht_cancelling := ht_cancelling h + 1\<rparr> in
      if ht_wait h = Waiting then call_soon StepTask (h'\<lparr>ht_wait := WaitCancelled msg\<rparr>)
      else h'\<lparr>ht_must_cancel := True, ht_cancel_message := msg\<rparr>)"

definition task_uncancel :: "host \<Rightarrow> host" where
  "task_uncancel h =
     (if ht_cancelling h = 0 then h
      else h\<lparr>ht_cancelling := ht_cancelling h - 1,
             ht_must_cancel := (ht_must_cancel h \<and> \<not> (ht_clears h \<and> ht_cancelling h = 1))\<rparr>)"

text \<open>The loop resumes the task: the exception thrown into it, if any.\<close>

definition thrown_on_resume :: "host \<Rightarrow> cancel_message option option" where
  "thrown_on_resume h =
     (case ht_wait h of
        WaitCancelled m \<Rightarrow> Some m
      | _ \<Rightarrow> if ht_must_cancel h then Some (ht_cancel_message h) else None)"

definition step_task :: "host \<Rightarrow> host" where
  "step_task h =
     (let exc = thrown_on_resume h; h' = h\<lparr>ht_wait := Running, ht_must_cancel := False, ht_shielded := False\<rparr> in
      if ht_shielded h
      then h'\<lparr>ht_absorbed := (case exc of None \<Rightarrow> ht_absorbed h | Some m \<Rightarrow> Some m), ht_thrown := None\<rparr>
      else h'\<lparr>ht_thrown := exc\<rparr>)"

definition suspend :: "bool \<Rightarrow> bool \<Rightarrow> host \<Rightarrow> host" where
  "suspend for_future shielded h =
     (let h' = h\<lparr>ht_shielded := shielded\<rparr> in
      if for_future then h'\<lparr>ht_wait := Waiting\<rparr> else call_soon StepTask (h'\<lparr>ht_wait := Yielded\<rparr>))"

section \<open>CancelScope\<close>

definition deliver_cancellation :: "nat \<Rightarrow> host \<Rightarrow> host" where
  "deliver_cancellation s h =
     (let sc = ht_scopes h s in
      if \<not> sc_host_task sc then h
      else (case ht_delayed h of
              Some (_, message) \<Rightarrow>
                if message = sc_cancel_reason sc
                then call_soon (Deliver s) (update_scope s (\<lambda>sc. sc\<lparr>sc_cancel_handle := True\<rparr>) h)
                else update_scope s (\<lambda>sc. sc\<lparr>sc_cancel_handle := False\<rparr>) h
            | None \<Rightarrow>
                let h' = (if \<not> ht_must_cancel h \<and> ht_wait h \<noteq> Running
                          then update_scope s (\<lambda>sc. sc\<lparr>sc_host_task_cancel_calls := sc_host_task_cancel_calls sc + 1\<rparr>)
                                 (task_cancel (sc_cancel_reason sc) h)
                          else h) in
                call_soon (Deliver s) (update_scope s (\<lambda>sc. sc\<lparr>sc_cancel_handle := True\<rparr>) h')))"

text \<open>\<^verbatim>\<open>cancel(reason)\<close>; \<open>text\<close> is what follows the identity in the message.\<close>

definition scope_cancel :: "nat \<Rightarrow> string \<Rightarrow> host \<Rightarrow> host" where
  "scope_cancel s text h =
     (if sc_cancel_called (ht_scopes h s) then h
      else deliver_cancellation s
             (update_scope s (\<lambda>sc. sc\<lparr>sc_cancel_called := True, sc_cancel_reason := Some (Scoped s text),
                                     sc_timeout_handle := None\<rparr>) h))"

definition setup_cancellation_by_timeout :: "nat \<Rightarrow> host \<Rightarrow> host" where
  "setup_cancellation_by_timeout s h =
     (case sc_deadline (ht_scopes h s) of
        Infinity \<Rightarrow> h
      | Finite d \<Rightarrow>
          if d \<le> ht_time h then scope_cancel s ''deadline exceeded'' h
          else update_scope s (\<lambda>sc. sc\<lparr>sc_timeout_handle := Some d\<rparr>) h)"

definition checked_deadline :: "raw_delay \<Rightarrow> exc + delay" where
  "checked_deadline when =
     (case when of
        NaN \<Rightarrow> Inl (ValueError ''deadline is NaN'')
      | Delay d \<Rightarrow> Inr (max d (Finite 0)))"

definition scope_reschedule :: "nat \<Rightarrow> raw_delay \<Rightarrow> host \<Rightarrow> exc + host" where
  "scope_reschedule s when h =
     result_bind (checked_deadline when) (\<lambda>d.
       let h' = update_scope s (\<lambda>sc. sc\<lparr>sc_deadline := d, sc_timeout_handle := None\<rparr>) h in
       Inr (if sc_state (ht_scopes h s) = ENTERED \<and> \<not> sc_cancel_called (ht_scopes h s)
            then setup_cancellation_by_timeout s h' else h'))"

definition scope_init :: "raw_delay \<Rightarrow> exc + cancel_scope" where
  "scope_init deadline =
     result_bind (checked_deadline deadline) (\<lambda>d.
       Inr \<lparr>sc_state = CREATED, sc_host_task = False, sc_host_task_cancelling = 0, sc_host_task_cancel_calls = 0,
            sc_cancel_called = False, sc_cancel_reason = None, sc_cancelled_caught = False, sc_deadline = d,
            sc_timeout_handle = None, sc_cancel_handle = False\<rparr>)"

definition scope_enter :: "nat \<Rightarrow> host \<Rightarrow> exc + host" where
  "scope_enter s h =
     (if sc_state (ht_scopes h s) \<noteq> CREATED then Inl (RuntimeError ''CancelScope entered twice'')
      else
        (let h' = update_scope s (\<lambda>sc. sc\<lparr>sc_host_task := True, sc_host_task_cancelling := ht_cancelling h,
                                          sc_state := ENTERED\<rparr>) (h\<lparr>ht_stack := s # ht_stack h\<rparr>) in
         Inr (if sc_cancel_called (ht_scopes h s) then deliver_cancellation s h' else setup_cancellation_by_timeout s h')))"

text \<open>
  The exception that leaves the scope, as the exceptions it is made of (the leaves of a group): a \<^verbatim>\<open>CancelledError\<close>, given by the
  messages of it and of the \<^verbatim>\<open>CancelledError\<close>s in its context, or another one.
\<close>

datatype leaf = LeafCancelled "cancel_message option list" | LeafOther exc

definition is_my_cancellation :: "cancel_scope \<Rightarrow> leaf \<Rightarrow> bool" where
  "is_my_cancellation sc l =
     (case l of LeafCancelled messages \<Rightarrow> sc_cancel_reason sc \<in> set messages | LeafOther _ \<Rightarrow> False)"

fun uncancel_loop :: "nat \<Rightarrow> nat \<Rightarrow> host \<Rightarrow> host" where
  "uncancel_loop 0 cancelling h = h"
| "uncancel_loop (Suc calls) cancelling h =
     (let h' = task_uncancel h in if ht_cancelling h' \<le> cancelling then h' else uncancel_loop calls cancelling h')"

definition check_pending_cancellation :: "host \<Rightarrow> host" where
  "check_pending_cancellation h =
     (case find (\<lambda>s. sc_cancel_called (ht_scopes h s)) (ht_stack h) of
        None \<Rightarrow> h
      | Some s \<Rightarrow> if sc_cancel_handle (ht_scopes h s) then h else deliver_cancellation s h)"

definition drop_delayed :: "nat \<Rightarrow> host \<Rightarrow> host" where
  "drop_delayed s h =
     (case ht_delayed h of
        None \<Rightarrow> h
      | Some (hid, message) \<Rightarrow>
          if message = sc_cancel_reason (ht_scopes h s)
          then h\<lparr>ht_delayed := None, ht_ready := filter (\<lambda>c. c \<noteq> CancelUnlessDone hid message) (ht_ready h)\<rparr>
          else h)"

text \<open>What \<^verbatim>\<open>__exit__\<close> does with a scope that was cancelled: whether the exception may be suppressed.\<close>

definition exit_cancelled :: "nat \<Rightarrow> leaf list option \<Rightarrow> host \<Rightarrow> bool \<times> host" where
  "exit_cancelled s exc h =
     (let sc = ht_scopes h s;
          h1 = update_scope s (\<lambda>sc. sc\<lparr>sc_host_task_cancel_calls := 0\<rparr>)
                 (uncancel_loop (sc_host_task_cancel_calls sc) (sc_host_task_cancelling sc) h) in
      case exc of
        None \<Rightarrow> (True, drop_delayed s h1)
      | Some ls \<Rightarrow>
          (list_all (is_my_cancellation sc) ls,
           drop_delayed s (update_scope s (\<lambda>sc'. sc'\<lparr>sc_cancelled_caught := list_ex (is_my_cancellation sc) ls\<rparr>) h1)))"

definition scope_exit :: "nat \<Rightarrow> leaf list option \<Rightarrow> host \<Rightarrow> exc + bool \<times> host" where
  "scope_exit s exc h =
     (if sc_state (ht_scopes h s) \<noteq> ENTERED then Inl (RuntimeError ''This cancel scope is not active'')
      else if ht_wait h \<noteq> Running
      then Inl (RuntimeError ''Attempted to exit cancel scope in a different task than it was entered in'')
      else if hd (ht_stack h) \<noteq> s
      then Inl (RuntimeError ''Attempted to exit a cancel scope that isn't the current tasks's current cancel scope'')
      else
        (let h1 = update_scope s (\<lambda>sc. sc\<lparr>sc_state := EXITED, sc_timeout_handle := None, sc_cancel_handle := False,
                                          sc_host_task := False\<rparr>)
                    (h\<lparr>ht_ready := filter (\<lambda>c. c \<noteq> Deliver s) (ht_ready h), ht_stack := tl (ht_stack h)\<rparr>);
             (should_suppress, h2) = (if sc_cancel_called (ht_scopes h s) then exit_cancelled s exc h1 else (True, h1));
             h3 = check_pending_cancellation h2 in
         Inr (sc_cancelled_caught (ht_scopes h3 s) \<and> should_suppress, h3)))"

section \<open>Shielded helpers\<close>

definition reschedule_delayed_task_cancel :: "cancel_message option \<Rightarrow> host \<Rightarrow> exc + host" where
  "reschedule_delayed_task_cancel message h =
     (if ht_delayed h \<noteq> None
      then Inl (AssertionError ''_reschedule_delayed_task_cancel() called too many times.'')
      else Inr (call_soon PopDelayed (call_soon (CancelUnlessDone (ht_next_handle h) message)
             (h\<lparr>ht_delayed := Some (ht_next_handle h, message), ht_next_handle := ht_next_handle h + 1\<rparr>))))"

text \<open>
  The end of \<^verbatim>\<open>cancel_shielded_coro_yield\<close>, or of one suspension in \<^verbatim>\<open>cancel_shielded_await\<close>: the last cancellation it has
  absorbed is sent again.
\<close>

definition end_shield :: "host \<Rightarrow> exc + host" where
  "end_shield h =
     (case ht_absorbed h of
        None \<Rightarrow> Inr h
      | Some m \<Rightarrow> reschedule_delayed_task_cancel m (h\<lparr>ht_absorbed := None\<rparr>))"

definition cancel_task_unless_done :: "cancel_message option \<Rightarrow> host \<Rightarrow> host" where
  "cancel_task_unless_done message h = task_cancel message (task_uncancel h)"

section \<open>Steps\<close>

text \<open>The next callback of the loop.\<close>

definition run_callback :: "loop_callback \<Rightarrow> host \<Rightarrow> host" where
  "run_callback c h =
     (case c of
        Deliver s \<Rightarrow> deliver_cancellation s h
      | CancelUnlessDone _ message \<Rightarrow> cancel_task_unless_done message h
      | PopDelayed \<Rightarrow> h\<lparr>ht_delayed := None\<rparr>
      | StepTask \<Rightarrow> step_task h)"

text \<open>
  \<open>NewScope\<close>, \<open>Enter\<close>, \<open>Exit\<close>, \<open>Suspend\<close>, \<open>EndShield\<close> and \<open>CheckPending\<close> (the end of \<^verbatim>\<open>cancel_shielded_await\<close>) are done by the task;
  \<open>DropAbsorbed\<close> is the case of a shielded future that was itself cancelled: its own error is raised instead.
  \<open>CancelScope\<close>, \<open>Reschedule\<close> and \<open>CancelTask\<close> by anybody; the others by the loop.
\<close>

datatype scope_event =
  NewScope nat raw_delay | Enter nat | Exit nat "leaf list option" | Suspend bool bool | EndShield | DropAbsorbed | CheckPending
| CancelScope nat string | Reschedule nat raw_delay | CancelTask string
| FutureDone | RunCallback | TimerFires nat | Tick nat

definition at_work :: "host \<Rightarrow> bool" where
  "at_work h \<longleftrightarrow> ht_wait h = Running \<and> ht_absorbed h = None"

definition possible :: "bool \<Rightarrow> 'a \<Rightarrow> 'a option" where
  "possible c x = (if c then Some x else None)"

fun scope_apply :: "scope_event \<Rightarrow> host \<Rightarrow> (exc + host) option" where
  "scope_apply (NewScope s deadline) h =
     possible (at_work h \<and> sc_state (ht_scopes h s) = CREATED \<and> \<not> sc_cancel_called (ht_scopes h s))
       (result_bind (scope_init deadline) (\<lambda>sc. Inr (update_scope s (\<lambda>_. sc) h)))"
| "scope_apply (Enter s) h = possible (at_work h) (scope_enter s h)"
| "scope_apply (Exit s exc) h = possible (at_work h) (result_bind (scope_exit s exc h) (\<lambda>(_, h'). Inr h'))"
| "scope_apply (Suspend for_future shielded) h =
     possible (ht_wait h = Running \<and> (shielded \<or> ht_absorbed h = None)) (Inr (suspend for_future shielded h))"
| "scope_apply EndShield h = possible (ht_wait h = Running) (end_shield h)"
| "scope_apply DropAbsorbed h = possible (ht_wait h = Running) (Inr (h\<lparr>ht_absorbed := None\<rparr>))"
| "scope_apply CheckPending h = possible (at_work h) (Inr (check_pending_cancellation h))"
| "scope_apply (CancelScope s text) h = Some (Inr (scope_cancel s text h))"
| "scope_apply (Reschedule s d) h = Some (scope_reschedule s d h)"
| "scope_apply (CancelTask text) h =
     Some (Inr (task_cancel (Some (Message text)) (h\<lparr>ht_external := ht_external h + 1\<rparr>)))"
| "scope_apply FutureDone h =
     possible (ht_wait h = Waiting) (Inr (call_soon StepTask (h\<lparr>ht_wait := WaitDone\<rparr>)))"
| "scope_apply RunCallback h =
     (case ht_ready h of
        [] \<Rightarrow> None
      | c # cs \<Rightarrow> possible (ht_wait h \<noteq> Running) (Inr (run_callback c (h\<lparr>ht_ready := cs\<rparr>))))"
| "scope_apply (TimerFires s) h =
     possible (ht_wait h \<noteq> Running \<and> (\<exists>d \<in> set_option (sc_timeout_handle (ht_scopes h s)). d \<le> ht_time h))
       (Inr (scope_cancel s ''deadline exceeded'' h))"
| "scope_apply (Tick n) h = Some (Inr (h\<lparr>ht_time := ht_time h + int n\<rparr>))"

definition fresh_scope :: cancel_scope where
  "fresh_scope =
     \<lparr>sc_state = CREATED, sc_host_task = False, sc_host_task_cancelling = 0, sc_host_task_cancel_calls = 0,
      sc_cancel_called = False, sc_cancel_reason = None, sc_cancelled_caught = False, sc_deadline = Infinity,
      sc_timeout_handle = None, sc_cancel_handle = False\<rparr>"

definition host_init :: "bool \<Rightarrow> host" where
  "host_init clears =
     \<lparr>ht_scopes = (\<lambda>_. fresh_scope), ht_stack = [], ht_cancelling = 0, ht_must_cancel = False, ht_cancel_message = None,
      ht_wait = Running, ht_shielded = False, ht_absorbed = None, ht_thrown = None, ht_delayed = None, ht_next_handle = 0,
      ht_ready = [], ht_time = 0, ht_clears = clears, ht_external = 0\<rparr>"

inductive scope_reachable :: "host \<Rightarrow> bool" where
  scope_start: "scope_reachable (host_init clears)"
| scope_step: "scope_reachable h \<Longrightarrow> scope_apply e h = Some (Inr h') \<Longrightarrow> scope_reachable h'"

fun scope_run :: "scope_event list \<Rightarrow> host \<Rightarrow> (exc + host) option" where
  "scope_run [] h = Some (Inr h)"
| "scope_run (e # es) h = (case scope_apply e h of Some (Inr h') \<Rightarrow> scope_run es h' | r \<Rightarrow> r)"

section \<open>The invariants\<close>

subsection \<open>Scopes\<close>

text \<open>
  A scope is on the stack exactly while it is entered; only such a scope has callbacks and timers, and it has
  a timer exactly as long as it has a deadline and has not been cancelled.
\<close>

definition scope_ok :: "nat list \<Rightarrow> nat \<Rightarrow> cancel_scope \<Rightarrow> bool" where
  "scope_ok stack s sc \<longleftrightarrow>
     (sc_state sc = ENTERED \<longleftrightarrow> s \<in> set stack) \<and> (sc_host_task sc \<longleftrightarrow> s \<in> set stack) \<and>
     (0 < sc_host_task_cancel_calls sc \<longrightarrow> sc_cancel_called sc \<and> s \<in> set stack) \<and>
     (if sc_cancel_called sc then \<exists>t. sc_cancel_reason sc = Some (Scoped s t) else sc_cancel_reason sc = None) \<and>
     (sc_cancel_handle sc \<longrightarrow> s \<in> set stack \<and> sc_cancel_called sc) \<and>
     (sc_cancelled_caught sc \<longrightarrow> sc_state sc = EXITED) \<and>
     sc_timeout_handle sc =
       (if s \<in> set stack \<and> \<not> sc_cancel_called sc then (case sc_deadline sc of Finite d \<Rightarrow> Some d | Infinity \<Rightarrow> None) else None)"

definition scopes_ok :: "host \<Rightarrow> bool" where
  "scopes_ok h \<longleftrightarrow> distinct (ht_stack h) \<and> (\<forall>s. scope_ok (ht_stack h) s (ht_scopes h s))"

subsection \<open>The counter of cancellations\<close>

definition calls_of :: "(nat \<Rightarrow> cancel_scope) \<Rightarrow> nat list \<Rightarrow> nat" where
  "calls_of scopes stack = sum_list (map (\<lambda>s. sc_host_task_cancel_calls (scopes s)) stack)"

fun bases_ok :: "nat \<Rightarrow> (nat \<Rightarrow> cancel_scope) \<Rightarrow> nat list \<Rightarrow> bool" where
  "bases_ok ext scopes [] \<longleftrightarrow> True"
| "bases_ok ext scopes (s # ss) \<longleftrightarrow>
     sc_host_task_cancelling (scopes s) \<le> ext + calls_of scopes ss \<and> bases_ok ext scopes ss"

definition accounts_ok :: "host \<Rightarrow> bool" where
  "accounts_ok h \<longleftrightarrow>
     ht_cancelling h = ht_external h + calls_of (ht_scopes h) (ht_stack h) \<and>
     bases_ok (ht_external h) (ht_scopes h) (ht_stack h)"

subsection \<open>The callbacks\<close>

fun is_deliver :: "loop_callback \<Rightarrow> bool" where
  "is_deliver (Deliver _) \<longleftrightarrow> True"
| "is_deliver _ \<longleftrightarrow> False"

text \<open>
  Besides the deliveries (one for each scope that has a handle) there are at most the two callbacks of a delayed cancellation and, behind
  them, the step of the task.
\<close>

definition delayed_callbacks :: "task_wait \<Rightarrow> (nat \<times> cancel_message option) option \<Rightarrow> loop_callback list \<Rightarrow> bool" where
  "delayed_callbacks wait delayed cs \<longleftrightarrow>
     (case delayed of
        None \<Rightarrow> cs = [] \<or> cs = [PopDelayed]
      | Some (hid, m) \<Rightarrow> cs = [CancelUnlessDone hid m, PopDelayed] \<or> cs = [PopDelayed] \<and> wait \<noteq> Running)"

definition task_callbacks :: "task_wait \<Rightarrow> loop_callback list" where
  "task_callbacks wait = (if wait = Running \<or> wait = Waiting then [] else [StepTask])"

definition queue_form ::
  "task_wait \<Rightarrow> (nat \<times> cancel_message option) option \<Rightarrow> cancel_message option option \<Rightarrow> loop_callback list \<Rightarrow> bool"
where
  "queue_form wait delayed absorbed others \<longleftrightarrow>
     (\<exists>cs. others = cs @ task_callbacks wait \<and> delayed_callbacks wait delayed cs \<and>
           (absorbed \<noteq> None \<longrightarrow> cs = [] \<and> delayed = None))"

definition queue_ok :: "host \<Rightarrow> bool" where
  "queue_ok h \<longleftrightarrow> queue_form (ht_wait h) (ht_delayed h) (ht_absorbed h) (filter (\<lambda>c. \<not> is_deliver c) (ht_ready h))"

definition handles_ok :: "host \<Rightarrow> bool" where
  "handles_ok h \<longleftrightarrow> (\<forall>s. count_list (ht_ready h) (Deliver s) = (if sc_cancel_handle (ht_scopes h s) then 1 else 0))"

subsection \<open>Messages under way\<close>

definition pending_message :: "host \<Rightarrow> cancel_message option \<Rightarrow> bool" where
  "pending_message h m \<longleftrightarrow>
     ht_wait h = WaitCancelled m \<or> ht_must_cancel h \<and> ht_cancel_message h = m \<or> ht_absorbed h = Some m \<or>
     (\<exists>hid. CancelUnlessDone hid m \<in> set (ht_ready h))"

definition delayed_message :: "host \<Rightarrow> cancel_message option \<Rightarrow> bool" where
  "delayed_message h m \<longleftrightarrow> (\<exists>hid. ht_delayed h = Some (hid, m))"

text \<open>Every cancellation under way comes from outside or from a scope that will take it back.\<close>

definition owned_message :: "host \<Rightarrow> cancel_message option \<Rightarrow> bool" where
  "owned_message h m \<longleftrightarrow>
     (\<exists>s \<in> set (ht_stack h). m = sc_cancel_reason (ht_scopes h s) \<and> 0 < sc_host_task_cancel_calls (ht_scopes h s))"

definition messages_ok :: "host \<Rightarrow> bool" where
  "messages_ok h \<longleftrightarrow>
     (\<forall>m. pending_message h m \<longrightarrow> 0 < ht_external h \<or> owned_message h m) \<and>
     (ht_wait h = Running \<and> ht_must_cancel h \<longrightarrow> 0 < ht_external h)"

text \<open>
  Without cancellations from outside: the scope a message under way belongs to (or the scope \<open>s\<close> that is about to be delivered) has
  a handle, and so has some scope when any is cancelled.
\<close>

definition live_except :: "nat option \<Rightarrow> host \<Rightarrow> bool" where
  "live_except x h \<longleftrightarrow>
     (\<forall>m. pending_message h m \<or> delayed_message h m \<longrightarrow>
        (\<exists>s \<in> set (ht_stack h). m = sc_cancel_reason (ht_scopes h s) \<and> (sc_cancel_handle (ht_scopes h s) \<or> x = Some s))) \<and>
     (\<forall>m m'. delayed_message h m \<longrightarrow> pending_message h m' \<longrightarrow> m' = m)"

definition some_handle :: "host \<Rightarrow> bool" where
  "some_handle h \<longleftrightarrow>
     (\<exists>s \<in> set (ht_stack h). sc_cancel_called (ht_scopes h s)) \<longrightarrow> (\<exists>s \<in> set (ht_stack h). sc_cancel_handle (ht_scopes h s))"

definition host_inv :: "host \<Rightarrow> bool" where
  "host_inv h \<longleftrightarrow> scopes_ok h \<and> accounts_ok h \<and> queue_ok h \<and> handles_ok h \<and> messages_ok h \<and>
     (ht_external h = 0 \<longrightarrow> live_except None h \<and> some_handle h)"

text \<open>The scope \<open>s\<close>, cancelled and entered, is about to be delivered: its handle is not (or no longer) among the callbacks.\<close>

definition deliver_inv :: "nat \<Rightarrow> host \<Rightarrow> bool" where
  "deliver_inv s h \<longleftrightarrow> scopes_ok h \<and> accounts_ok h \<and> queue_ok h \<and> messages_ok h \<and>
     (\<forall>s'. count_list (ht_ready h) (Deliver s') = (if sc_cancel_handle (ht_scopes h s') \<and> s' \<noteq> s then 1 else 0)) \<and>
     s \<in> set (ht_stack h) \<and> sc_cancel_called (ht_scopes h s) \<and>
     (ht_external h = 0 \<longrightarrow> live_except (Some s) h)"

lemma calls_of_update:
  "distinct stack \<Longrightarrow> calls_of (scopes(s := sc)) stack + (if s \<in> set stack then sc_host_task_cancel_calls (scopes s) else 0)
     = calls_of scopes stack + (if s \<in> set stack then sc_host_task_cancel_calls sc else 0)"
  by (induction stack) (auto simp: calls_of_def)

lemma calls_of_Suc:
  assumes "distinct stack" and "s \<in> set stack"
  shows "calls_of (scopes(s := (scopes s)\<lparr>sc_host_task_cancel_calls := Suc (sc_host_task_cancel_calls (scopes s))\<rparr>)) stack
    = Suc (calls_of scopes stack)"
proof -
  let ?sc = "(scopes s)\<lparr>sc_host_task_cancel_calls := Suc (sc_host_task_cancel_calls (scopes s))\<rparr>"
  from calls_of_update [OF assms(1), of scopes s ?sc] assms(2) show ?thesis by simp
qed

lemma calls_of_cong:
  "(\<And>s. s \<in> set stack \<Longrightarrow> sc_host_task_cancel_calls (scopes s) = sc_host_task_cancel_calls (scopes' s)) \<Longrightarrow>
     calls_of scopes stack = calls_of scopes' stack"
  by (induction stack) (auto simp: calls_of_def)

lemma bases_ok_mono:
  assumes "bases_ok ext scopes stack"
    and "\<And>s. s \<in> set stack \<Longrightarrow> sc_host_task_cancelling (scopes' s) = sc_host_task_cancelling (scopes s)
               \<and> sc_host_task_cancel_calls (scopes s) \<le> sc_host_task_cancel_calls (scopes' s)"
    and "ext \<le> ext'"
  shows "bases_ok ext' scopes' stack"
  using assms(1,2)
proof (induction stack)
  case (Cons s ss)
  have "calls_of scopes ss \<le> calls_of scopes' ss"
    unfolding calls_of_def by (rule sum_list_mono) (use Cons.prems(2) in auto)
  with Cons assms(3) show ?case by fastforce
qed simp

lemma count_list_filter [simp]: "count_list (filter P xs) x = (if P x then count_list xs x else 0)"
  by (induction xs) auto

section \<open>Delivering a cancellation\<close>

lemmas state_defs = update_scope_def call_soon_def

lemma scope_of_deliver_inv:
  assumes "deliver_inv s h"
  shows "sc_host_task (ht_scopes h s)" "\<exists>t. sc_cancel_reason (ht_scopes h s) = Some (Scoped s t)"
  using assms unfolding deliver_inv_def scopes_ok_def scope_ok_def by (auto split: if_splits)

text \<open>Giving the scope its handle ends the delivery.\<close>

lemma set_handle_inv:
  assumes "deliver_inv s h"
  shows "host_inv (call_soon (Deliver s) (update_scope s (\<lambda>sc. sc\<lparr>sc_cancel_handle := True\<rparr>) h))" (is "host_inv ?h")
proof -
  have scopes: "scopes_ok ?h"
    using assms by (auto simp: deliver_inv_def scopes_ok_def scope_ok_def state_defs)
  have "calls_of (ht_scopes ?h) (ht_stack h) = calls_of (ht_scopes h) (ht_stack h)"
    by (rule calls_of_cong) (simp add: state_defs)
  moreover have "bases_ok (ht_external h) (ht_scopes ?h) (ht_stack h)"
    by (rule bases_ok_mono [of "ht_external h" "ht_scopes h"])
      (use assms in \<open>auto simp: deliver_inv_def accounts_ok_def state_defs\<close>)
  ultimately have accounts: "accounts_ok ?h"
    using assms by (simp add: deliver_inv_def accounts_ok_def state_defs)
  have queue: "queue_ok ?h"
    using assms by (simp add: deliver_inv_def queue_ok_def state_defs)
  have handles: "handles_ok ?h"
    using assms by (auto simp: deliver_inv_def handles_ok_def state_defs)
  have pending: "pending_message ?h m = pending_message h m" "delayed_message ?h m = delayed_message h m" for m
    by (auto simp: pending_message_def delayed_message_def state_defs)
  have "messages_ok h" using assms by (simp add: deliver_inv_def)
  then have messages: "messages_ok ?h"
    unfolding messages_ok_def pending owned_message_def by (auto simp: state_defs)
  have live: "live_except None ?h" if "live_except (Some s) h"
    using that unfolding live_except_def pending by (auto simp: state_defs)
  have "some_handle ?h" using assms by (auto simp: deliver_inv_def some_handle_def state_defs)
  with scopes accounts queue handles messages live assms show ?thesis
    by (simp add: host_inv_def deliver_inv_def) (simp add: state_defs)
qed

text \<open>A delayed cancellation of another scope makes it give up.\<close>

lemma give_up_inv:
  assumes "deliver_inv s h" and "ht_delayed h = Some (hid, m)" and "m \<noteq> sc_cancel_reason (ht_scopes h s)"
  shows "host_inv (update_scope s (\<lambda>sc. sc\<lparr>sc_cancel_handle := False\<rparr>) h)" (is "host_inv ?h")
proof -
  have scopes: "scopes_ok ?h"
    using assms(1) by (auto simp: deliver_inv_def scopes_ok_def scope_ok_def state_defs)
  have "calls_of (ht_scopes ?h) (ht_stack h) = calls_of (ht_scopes h) (ht_stack h)"
    by (rule calls_of_cong) (simp add: state_defs)
  moreover have "bases_ok (ht_external h) (ht_scopes ?h) (ht_stack h)"
    by (rule bases_ok_mono [of "ht_external h" "ht_scopes h"])
      (use assms(1) in \<open>auto simp: deliver_inv_def accounts_ok_def state_defs\<close>)
  ultimately have accounts: "accounts_ok ?h"
    using assms(1) by (simp add: deliver_inv_def accounts_ok_def state_defs)
  have queue: "queue_ok ?h"
    using assms(1) by (simp add: deliver_inv_def queue_ok_def state_defs)
  have handles: "handles_ok ?h"
    using assms(1) by (auto simp: deliver_inv_def handles_ok_def state_defs)
  have pending: "pending_message ?h m = pending_message h m" "delayed_message ?h m = delayed_message h m" for m
    by (auto simp: pending_message_def delayed_message_def state_defs)
  have "messages_ok h" using assms(1) by (simp add: deliver_inv_def)
  then have messages: "messages_ok ?h"
    unfolding messages_ok_def pending owned_message_def by (auto simp: state_defs)
  have d: "delayed_message h m" using assms(2) by (auto simp: delayed_message_def)
  have live: "live_except None ?h \<and> some_handle ?h" if l: "live_except (Some s) h"
  proof -
    have only: "m' = m" if "pending_message h m' \<or> delayed_message h m'" for m'
      using that l d assms(2) by (auto simp: live_except_def delayed_message_def)
    from l d obtain s' where "s' \<in> set (ht_stack h)" "m = sc_cancel_reason (ht_scopes h s')"
      "sc_cancel_handle (ht_scopes h s') \<or> Some s = Some s'" unfolding live_except_def by blast
    with assms(3) have "s' \<in> set (ht_stack ?h)" "m = sc_cancel_reason (ht_scopes ?h s')" "sc_cancel_handle (ht_scopes ?h s')"
      by (auto simp: state_defs)
    with only show ?thesis unfolding live_except_def some_handle_def pending by blast
  qed
  from scopes accounts queue handles messages live assms(1) show ?thesis
    by (simp add: host_inv_def deliver_inv_def) (simp add: state_defs)
qed

text \<open>What \<^verbatim>\<open>Task.cancel\<close> does to the state.\<close>

lemma task_cancel_simps [simp]:
  "ht_scopes (task_cancel m h) = ht_scopes h" "ht_stack (task_cancel m h) = ht_stack h"
  "ht_cancelling (task_cancel m h) = ht_cancelling h + 1" "ht_absorbed (task_cancel m h) = ht_absorbed h"
  "ht_delayed (task_cancel m h) = ht_delayed h" "ht_external (task_cancel m h) = ht_external h"
  "ht_time (task_cancel m h) = ht_time h"
  "ht_wait (task_cancel m h) = (if ht_wait h = Waiting then WaitCancelled m else ht_wait h)"
  "ht_must_cancel (task_cancel m h) = (ht_wait h \<noteq> Waiting \<or> ht_must_cancel h)"
  "ht_cancel_message (task_cancel m h) = (if ht_wait h = Waiting then ht_cancel_message h else m)"
  "ht_ready (task_cancel m h) = ht_ready h @ (if ht_wait h = Waiting then [StepTask] else [])"
  by (simp_all add: task_cancel_def call_soon_def Let_def)

lemma queue_ok_task_cancel: "queue_ok h \<Longrightarrow> queue_ok (task_cancel m h)"
  by (auto simp: queue_ok_def queue_form_def task_callbacks_def delayed_callbacks_def split: option.splits)

lemma pending_task_cancel: "pending_message (task_cancel m h) m' \<Longrightarrow> pending_message h m' \<or> m' = m"
  by (auto simp: pending_message_def split: if_splits)

lemma delayed_task_cancel [simp]: "delayed_message (task_cancel m h) = delayed_message h"
  by (simp add: delayed_message_def fun_eq_iff)

lemma cancel_and_count_inv:
  assumes "deliver_inv s h" and "ht_delayed h = None" and "ht_wait h \<noteq> Running"
  shows "deliver_inv s (update_scope s (\<lambda>sc. sc\<lparr>sc_host_task_cancel_calls := sc_host_task_cancel_calls sc + 1\<rparr>)
           (task_cancel (sc_cancel_reason (ht_scopes h s)) h))" (is "deliver_inv s ?h")
proof -
  let ?r = "sc_cancel_reason (ht_scopes h s)"
  have s: "s \<in> set (ht_stack h)" "sc_cancel_called (ht_scopes h s)" "distinct (ht_stack h)"
    using assms(1) by (auto simp: deliver_inv_def scopes_ok_def)
  have scopes: "scopes_ok ?h"
    using assms(1) by (auto simp: deliver_inv_def scopes_ok_def scope_ok_def state_defs)
  have "calls_of (ht_scopes ?h) (ht_stack h) = calls_of (ht_scopes h) (ht_stack h) + 1"
    using s(1,3) by (simp add: state_defs calls_of_Suc)
  moreover have "bases_ok (ht_external h) (ht_scopes ?h) (ht_stack h)"
    by (rule bases_ok_mono [of "ht_external h" "ht_scopes h"])
      (use assms(1) in \<open>auto simp: deliver_inv_def accounts_ok_def state_defs\<close>)
  ultimately have accounts: "accounts_ok ?h"
    using assms(1) by (simp add: deliver_inv_def accounts_ok_def state_defs)
  have queue: "queue_ok ?h"
    using queue_ok_task_cancel [of h ?r] assms(1) by (simp add: deliver_inv_def queue_ok_def state_defs)
  have pending: "pending_message h m \<or> m = ?r" if "pending_message ?h m" for m
    using that pending_task_cancel [of ?r h m] by (simp add: pending_message_def state_defs)
  have delayed: "delayed_message ?h m = False" for m
    using assms(2) by (simp add: delayed_message_def state_defs)
  have m: "messages_ok h" using assms(1) by (simp add: deliver_inv_def)
  have same: "sc_cancel_reason (ht_scopes ?h s') = sc_cancel_reason (ht_scopes h s')"
    "sc_cancel_handle (ht_scopes ?h s') = sc_cancel_handle (ht_scopes h s')" "ht_stack ?h = ht_stack h"
    "ht_external ?h = ht_external h" "ht_wait ?h \<noteq> Running" for s'
    using assms(3) by (auto simp: state_defs)
  have "owned_message h m \<Longrightarrow> owned_message ?h m" for m
    by (auto simp: owned_message_def state_defs)
  moreover have "owned_message ?h ?r" using s(1) by (auto simp: owned_message_def state_defs)
  ultimately have messages: "messages_ok ?h"
    using m pending same(5) unfolding messages_ok_def same(4) by blast
  have live: "live_except (Some s) ?h" if "live_except (Some s) h"
    using that s(1) pending unfolding live_except_def delayed same(1-3) by blast
  have count: "\<forall>s'. count_list (ht_ready ?h) (Deliver s') = (if sc_cancel_handle (ht_scopes ?h s') \<and> s' \<noteq> s then 1 else 0)"
  proof
    fix s'
    have "count_list (ht_ready h) (Deliver s') = (if sc_cancel_handle (ht_scopes h s') \<and> s' \<noteq> s then 1 else 0)"
      using assms(1) unfolding deliver_inv_def by blast
    then show "count_list (ht_ready ?h) (Deliver s') = (if sc_cancel_handle (ht_scopes ?h s') \<and> s' \<noteq> s then 1 else 0)"
      unfolding same(2) by (simp add: update_scope_def)
  qed
  have called: "sc_cancel_called (ht_scopes ?h s)" using s(2) by (simp add: state_defs)
  have "ht_external h = 0 \<longrightarrow> live_except (Some s) h" using assms(1) by (simp add: deliver_inv_def)
  with scopes accounts queue messages live count called s(1) show ?thesis
    unfolding deliver_inv_def same(3,4) by blast
qed

lemma deliver_host_inv:
  assumes "deliver_inv s h"
  shows "host_inv (deliver_cancellation s h)"
proof (cases "ht_delayed h")
  case None
  with assms cancel_and_count_inv [OF assms] set_handle_inv scope_of_deliver_inv(1) [OF assms] show ?thesis
    by (simp add: deliver_cancellation_def Let_def)
next
  case (Some hm)
  obtain hid m where "hm = (hid, m)" by (cases hm)
  with Some assms set_handle_inv give_up_inv [OF assms, of hid m] scope_of_deliver_inv(1) [OF assms] show ?thesis
    by (simp add: deliver_cancellation_def Let_def)
qed

lemma deliver_cancellation_simps [simp]:
  "ht_stack (deliver_cancellation s h) = ht_stack h" "ht_external (deliver_cancellation s h) = ht_external h"
  "ht_time (deliver_cancellation s h) = ht_time h" "ht_absorbed (deliver_cancellation s h) = ht_absorbed h"
  "sc_cancel_called (ht_scopes (deliver_cancellation s h) s') = sc_cancel_called (ht_scopes h s')"
  "sc_state (ht_scopes (deliver_cancellation s h) s') = sc_state (ht_scopes h s')"
  "sc_cancelled_caught (ht_scopes (deliver_cancellation s h) s') = sc_cancelled_caught (ht_scopes h s')"
  by (auto simp: deliver_cancellation_def Let_def state_defs split: option.split)

text \<open>The invariant but for \<open>some_handle\<close>, which \<^verbatim>\<open>_check_pending_cancellation\<close> establishes.\<close>

definition base_inv :: "host \<Rightarrow> bool" where
  "base_inv h \<longleftrightarrow> scopes_ok h \<and> accounts_ok h \<and> queue_ok h \<and> handles_ok h \<and> messages_ok h \<and>
     (ht_external h = 0 \<longrightarrow> live_except None h)"

lemma host_inv_base: "host_inv h \<longleftrightarrow> base_inv h \<and> (ht_external h = 0 \<longrightarrow> some_handle h)"
  by (auto simp: host_inv_def base_inv_def)

lemma base_invD:
  assumes "base_inv h"
  shows "scopes_ok h" "accounts_ok h" "queue_ok h" "handles_ok h" "messages_ok h"
    and "ht_external h = 0 \<Longrightarrow> live_except None h"
  using assms unfolding base_inv_def by blast+

lemma base_invI:
  assumes "scopes_ok h" "accounts_ok h" "queue_ok h" "handles_ok h" "messages_ok h"
    and "ht_external h = 0 \<Longrightarrow> live_except None h"
  shows "base_inv h"
  using assms unfolding base_inv_def by blast

lemma live_except_weaken: "live_except None h \<Longrightarrow> live_except x h"
  unfolding live_except_def by blast

lemma deliver_invI:
  assumes "base_inv h" and "s \<in> set (ht_stack h)" and "sc_cancel_called (ht_scopes h s)" and "\<not> sc_cancel_handle (ht_scopes h s)"
  shows "deliver_inv s h"
proof -
  have "\<forall>s'. count_list (ht_ready h) (Deliver s') = (if sc_cancel_handle (ht_scopes h s') \<and> s' \<noteq> s then 1 else 0)"
    using base_invD(4) [OF assms(1)] assms(4) unfolding handles_ok_def by auto
  with assms base_invD [OF assms(1)] show ?thesis
    unfolding deliver_inv_def using live_except_weaken by blast
qed

lemma check_pending_inv:
  assumes "base_inv h"
  shows "host_inv (check_pending_cancellation h)"
proof (cases "find (\<lambda>s. sc_cancel_called (ht_scopes h s)) (ht_stack h)")
  case None
  then have "\<not> (\<exists>s \<in> set (ht_stack h). sc_cancel_called (ht_scopes h s))" by (simp add: find_None_iff)
  with assms None show ?thesis
    by (simp add: check_pending_cancellation_def host_inv_base some_handle_def)
next
  case (Some s)
  then have s: "s \<in> set (ht_stack h)" "sc_cancel_called (ht_scopes h s)"
    by (auto simp: find_Some_iff)
  show ?thesis
  proof (cases "sc_cancel_handle (ht_scopes h s)")
    case True
    with Some s assms show ?thesis
      by (auto simp: check_pending_cancellation_def host_inv_base some_handle_def)
  next
    case False
    with Some deliver_host_inv [OF deliver_invI [OF assms s False]] show ?thesis
      by (simp add: check_pending_cancellation_def)
  qed
qed

section \<open>Changes of one scope\<close>

text \<open>
  A change of one scope that leaves its identity, its handle and its counters alone; the scope must be fit for its new state.
\<close>

lemma update_scope_base_inv:
  assumes "base_inv h" and "scope_ok (ht_stack h) s (f (ht_scopes h s))"
    and "sc_cancel_handle (f (ht_scopes h s)) = sc_cancel_handle (ht_scopes h s)"
    and "sc_host_task_cancel_calls (f (ht_scopes h s)) = sc_host_task_cancel_calls (ht_scopes h s)"
    and "s \<in> set (ht_stack h) \<Longrightarrow> sc_host_task_cancelling (f (ht_scopes h s)) = sc_host_task_cancelling (ht_scopes h s)"
    and "sc_cancel_called (ht_scopes h s) \<Longrightarrow> sc_cancel_reason (f (ht_scopes h s)) = sc_cancel_reason (ht_scopes h s)"
  shows "base_inv (update_scope s f h)"
proof -
  let ?h = "update_scope s f h"
  note inv = base_invD [OF assms(1)]
  have ok: "scope_ok (ht_stack h) s (ht_scopes h s)" using inv(1) by (simp add: scopes_ok_def)
  have same: "sc_cancel_handle (ht_scopes ?h s') = sc_cancel_handle (ht_scopes h s')"
    "sc_host_task_cancel_calls (ht_scopes ?h s') = sc_host_task_cancel_calls (ht_scopes h s')"
    for s'
    using assms(3,4) by (simp_all add: update_scope_def)
  have base: "sc_host_task_cancelling (ht_scopes ?h s') = sc_host_task_cancelling (ht_scopes h s')"
    if "s' \<in> set (ht_stack h)" for s'
    using assms(5) that by (cases "s' = s") (simp_all add: update_scope_def)
  have reason: "sc_cancel_reason (ht_scopes ?h s') = sc_cancel_reason (ht_scopes h s')"
    if "0 < sc_host_task_cancel_calls (ht_scopes h s') \<or> sc_cancel_handle (ht_scopes h s')" for s'
    using that ok assms(6) by (auto simp: update_scope_def scope_ok_def)
  have fields: "ht_stack ?h = ht_stack h" "ht_external ?h = ht_external h" "ht_ready ?h = ht_ready h" "ht_wait ?h = ht_wait h"
    "ht_must_cancel ?h = ht_must_cancel h" "ht_cancelling ?h = ht_cancelling h"
    by (simp_all add: update_scope_def)
  have pending: "pending_message ?h = pending_message h" "delayed_message ?h = delayed_message h"
    by (simp_all add: fun_eq_iff pending_message_def delayed_message_def update_scope_def)
  show ?thesis
  proof (rule base_invI)
    show "scopes_ok ?h" using inv(1) assms(2) by (simp add: scopes_ok_def update_scope_def)
    have "calls_of (ht_scopes ?h) (ht_stack h) = calls_of (ht_scopes h) (ht_stack h)"
      by (rule calls_of_cong) (rule same)
    moreover have "bases_ok (ht_external h) (ht_scopes ?h) (ht_stack h)"
      by (rule bases_ok_mono [of "ht_external h" "ht_scopes h"]) (use inv(2) same base in \<open>auto simp: accounts_ok_def\<close>)
    ultimately show "accounts_ok ?h" using inv(2) unfolding accounts_ok_def fields by simp
    show "queue_ok ?h" using inv(3) by (simp add: queue_ok_def update_scope_def)
    show "handles_ok ?h" using inv(4) unfolding handles_ok_def fields same .
    have "owned_message h m \<Longrightarrow> owned_message ?h m" for m
      unfolding owned_message_def fields same using reason by metis
    then show "messages_ok ?h" using inv(5) unfolding messages_ok_def fields pending by blast
    show "live_except None ?h" if "ht_external ?h = 0"
      using inv(6) that reason unfolding live_except_def fields pending same by (metis option.distinct(1))
  qed
qed

lemma update_scope_host_inv:
  assumes "host_inv h" and "scope_ok (ht_stack h) s (f (ht_scopes h s))"
    and "sc_cancel_handle (f (ht_scopes h s)) = sc_cancel_handle (ht_scopes h s)"
    and "sc_host_task_cancel_calls (f (ht_scopes h s)) = sc_host_task_cancel_calls (ht_scopes h s)"
    and "s \<in> set (ht_stack h) \<Longrightarrow> sc_host_task_cancelling (f (ht_scopes h s)) = sc_host_task_cancelling (ht_scopes h s)"
    and "sc_cancel_called (ht_scopes h s) \<Longrightarrow> sc_cancel_reason (f (ht_scopes h s)) = sc_cancel_reason (ht_scopes h s)"
    and "sc_cancel_called (f (ht_scopes h s)) \<Longrightarrow> s \<in> set (ht_stack h) \<Longrightarrow> sc_cancel_called (ht_scopes h s)"
  shows "host_inv (update_scope s f h)"
proof -
  have "base_inv (update_scope s f h)"
    by (rule update_scope_base_inv) (use assms in \<open>simp_all add: host_inv_base\<close>)
  moreover have "some_handle (update_scope s f h)" if "some_handle h"
  proof -
    let ?h = "update_scope s f h"
    have "ht_stack ?h = ht_stack h" by (simp add: update_scope_def)
    moreover have "sc_cancel_handle (ht_scopes ?h s') = sc_cancel_handle (ht_scopes h s')" for s'
      using assms(3) by (simp add: update_scope_def)
    moreover have "sc_cancel_called (ht_scopes h s')" if "s' \<in> set (ht_stack h)" "sc_cancel_called (ht_scopes ?h s')" for s'
      using assms(7) that by (auto simp: update_scope_def split: if_splits)
    ultimately show ?thesis using that unfolding some_handle_def by metis
  qed
  moreover have "ht_external (update_scope s f h) = ht_external h" by (simp add: update_scope_def)
  ultimately show ?thesis using assms(1) unfolding host_inv_base by simp
qed

lemma host_inv_scope: "host_inv h \<Longrightarrow> scope_ok (ht_stack h) s (ht_scopes h s)"
  by (simp add: host_inv_def scopes_ok_def)

lemma scope_cancel_inv:
  assumes "host_inv h"
  shows "host_inv (scope_cancel s text h)"
proof (cases "sc_cancel_called (ht_scopes h s)")
  case False
  let ?f = "\<lambda>sc. sc\<lparr>sc_cancel_called := True, sc_cancel_reason := Some (Scoped s text), sc_timeout_handle := None\<rparr>"
  have ok: "scope_ok (ht_stack h) s (ht_scopes h s)" using assms by (rule host_inv_scope)
  have f: "scope_ok (ht_stack h) s (?f (ht_scopes h s))" using ok False by (auto simp: scope_ok_def)
  have c: "scope_cancel s text h = deliver_cancellation s (update_scope s ?f h)" using False by (simp add: scope_cancel_def)
  show ?thesis
  proof (cases "s \<in> set (ht_stack h)")
    case True
    have "base_inv (update_scope s ?f h)"
      by (rule update_scope_base_inv) (use assms f False in \<open>simp_all add: host_inv_base\<close>)
    then have "deliver_inv s (update_scope s ?f h)"
      by (rule deliver_invI) (use True False ok in \<open>auto simp: update_scope_def scope_ok_def\<close>)
    then show ?thesis unfolding c by (rule deliver_host_inv)
  next
    case outside: False
    have "host_inv (update_scope s ?f h)"
      by (rule update_scope_host_inv) (use assms f False outside in simp_all)
    moreover have "\<not> sc_host_task (ht_scopes h s)" using ok outside by (simp add: scope_ok_def)
    ultimately show ?thesis unfolding c by (simp add: deliver_cancellation_def update_scope_def)
  qed
qed (use assms in \<open>simp add: scope_cancel_def\<close>)

text \<open>Starting the timer of a scope that has none, in a state that is good but for that timer.\<close>

definition deadline_timer :: "delay \<Rightarrow> int option" where
  "deadline_timer d = (case d of Finite i \<Rightarrow> Some i | Infinity \<Rightarrow> None)"

definition with_timer :: "nat \<Rightarrow> host \<Rightarrow> host" where
  "with_timer s h = update_scope s (\<lambda>sc. sc\<lparr>sc_timeout_handle := deadline_timer (sc_deadline sc)\<rparr>) h"

lemma scope_cancel_with_timer: "scope_cancel s text (with_timer s h) = scope_cancel s text h"
  if "\<not> sc_cancel_called (ht_scopes h s)"
  using that by (simp add: scope_cancel_def with_timer_def update_scope_def)

lemma setup_timeout_inv:
  assumes "host_inv (with_timer s h)" and "sc_timeout_handle (ht_scopes h s) = None" and "\<not> sc_cancel_called (ht_scopes h s)"
  shows "host_inv (setup_cancellation_by_timeout s h)"
proof (cases "sc_deadline (ht_scopes h s)")
  case (Finite d)
  show ?thesis
  proof (cases "d \<le> ht_time h")
    case True
    with Finite scope_cancel_inv [OF assms(1), of s] scope_cancel_with_timer [OF assms(3)] show ?thesis
      by (simp add: setup_cancellation_by_timeout_def)
  next
    case False
    with Finite assms(1) show ?thesis
      by (simp add: setup_cancellation_by_timeout_def with_timer_def deadline_timer_def update_scope_def)
  qed
next
  case Infinity
  then have "with_timer s h = h"
    using assms(2) by (simp add: with_timer_def update_scope_def deadline_timer_def fun_upd_idem)
  with assms(1) Infinity show ?thesis by (simp add: setup_cancellation_by_timeout_def)
qed

lemma reschedule_inv:
  assumes "host_inv h" and "scope_reschedule s when h = Inr h'"
  shows "host_inv h'"
proof -
  obtain d where d: "checked_deadline when = Inr d"
    using assms(2) by (auto simp: scope_reschedule_def result_bind_def split: sum.splits)
  let ?h = "update_scope s (\<lambda>sc. sc\<lparr>sc_deadline := d, sc_timeout_handle := None\<rparr>) h"
  have ok: "scope_ok (ht_stack h) s (ht_scopes h s)" using assms(1) by (rule host_inv_scope)
  show ?thesis
  proof (cases "sc_state (ht_scopes h s) = ENTERED \<and> \<not> sc_cancel_called (ht_scopes h s)")
    case True
    have "host_inv (update_scope s (\<lambda>sc. sc\<lparr>sc_deadline := d, sc_timeout_handle := deadline_timer d\<rparr>) h)"
      by (rule update_scope_host_inv) (use assms(1) ok True in \<open>auto simp: scope_ok_def deadline_timer_def\<close>)
    then have "host_inv (with_timer s ?h)" by (simp add: with_timer_def update_scope_def)
    then have "host_inv (setup_cancellation_by_timeout s ?h)"
      by (rule setup_timeout_inv) (use True in \<open>simp_all add: update_scope_def\<close>)
    with True d assms(2) show ?thesis by (simp add: scope_reschedule_def result_bind_def Let_def)
  next
    case False
    have "host_inv ?h"
      by (rule update_scope_host_inv) (use assms(1) ok False in \<open>auto simp: scope_ok_def\<close>)
    with False d assms(2) show ?thesis by (auto simp: scope_reschedule_def result_bind_def Let_def)
  qed
qed

lemma new_scope_inv:
  assumes "host_inv h" and "sc_state (ht_scopes h s) = CREATED" and "\<not> sc_cancel_called (ht_scopes h s)"
    and "scope_init deadline = Inr sc"
  shows "host_inv (update_scope s (\<lambda>_. sc) h)"
proof -
  have ok: "scope_ok (ht_stack h) s (ht_scopes h s)" using assms(1) by (rule host_inv_scope)
  have sc: "sc_state sc = CREATED" "\<not> sc_host_task sc" "sc_host_task_cancel_calls sc = 0" "\<not> sc_cancel_called sc"
    "sc_cancel_reason sc = None" "\<not> sc_cancel_handle sc" "sc_timeout_handle sc = None"
    "sc_host_task_cancelling sc = 0" "\<not> sc_cancelled_caught sc"
    using assms(4) by (auto simp: scope_init_def result_bind_def split: sum.splits)
  have s: "s \<notin> set (ht_stack h)" "\<not> sc_cancel_handle (ht_scopes h s)" "sc_host_task_cancel_calls (ht_scopes h s) = 0"
    using ok assms(2,3) by (auto simp: scope_ok_def)
  show ?thesis
    by (rule update_scope_host_inv) (use assms(1,3) sc s in \<open>simp_all add: scope_ok_def\<close>)
qed

section \<open>Entering and leaving\<close>

lemma scope_enter_inv:
  assumes "host_inv h" and "scope_enter s h = Inr h'"
  shows "host_inv h'"
proof -
  have created: "sc_state (ht_scopes h s) = CREATED" using assms(2) by (auto simp: scope_enter_def split: if_splits)
  have ok: "scope_ok (ht_stack h) s (ht_scopes h s)" using assms(1) by (rule host_inv_scope)
  then have s: "s \<notin> set (ht_stack h)" "\<not> sc_cancel_handle (ht_scopes h s)" "sc_host_task_cancel_calls (ht_scopes h s) = 0"
    "sc_timeout_handle (ht_scopes h s) = None"
    using created by (auto simp: scope_ok_def)
  define f where "f = (\<lambda>t (sc :: cancel_scope). sc\<lparr>sc_host_task := True, sc_host_task_cancelling := ht_cancelling h, sc_state := ENTERED,
                             sc_timeout_handle := t\<rparr>)"
  define pushed where "pushed = (\<lambda>t. update_scope s (f t) (h\<lparr>ht_stack := s # ht_stack h\<rparr>))"
  note inv = base_invD [OF assms(1) [unfolded host_inv_base, THEN conjunct1]]
  have base: "base_inv (pushed t)" if t: "t = (if sc_cancel_called (ht_scopes h s) then None else deadline_timer (sc_deadline (ht_scopes h s)))" for t
  proof (rule base_invI)
    have other: "ht_scopes (pushed t) s' = ht_scopes h s'" if "s' \<noteq> s" for s'
      using that by (simp add: pushed_def update_scope_def)
    have fields: "ht_stack (pushed t) = s # ht_stack h" "ht_external (pushed t) = ht_external h" "ht_ready (pushed t) = ht_ready h"
      "ht_wait (pushed t) = ht_wait h" "ht_must_cancel (pushed t) = ht_must_cancel h" "ht_cancelling (pushed t) = ht_cancelling h"
      "ht_delayed (pushed t) = ht_delayed h" "ht_absorbed (pushed t) = ht_absorbed h"
      by (simp_all add: pushed_def update_scope_def)
    have self: "ht_scopes (pushed t) s = f t (ht_scopes h s)" by (simp add: pushed_def update_scope_def)
    have same: "sc_cancel_handle (ht_scopes (pushed t) s') = sc_cancel_handle (ht_scopes h s')"
      "sc_host_task_cancel_calls (ht_scopes (pushed t) s') = sc_host_task_cancel_calls (ht_scopes h s')"
      "sc_cancel_reason (ht_scopes (pushed t) s') = sc_cancel_reason (ht_scopes h s')" for s'
      by (simp_all add: pushed_def update_scope_def f_def)
    have pending: "pending_message (pushed t) = pending_message h" "delayed_message (pushed t) = delayed_message h"
      by (simp_all add: fun_eq_iff pending_message_def delayed_message_def pushed_def update_scope_def)
    have ok_self: "scope_ok (s # ht_stack h) s (f t (ht_scopes h s))"
      using ok s created by (auto simp: scope_ok_def f_def t deadline_timer_def split: delay.split)
    have ok_other: "scope_ok (s # ht_stack h) s' (ht_scopes h s')" if "s' \<noteq> s" for s'
      using inv(1) that by (simp add: scopes_ok_def scope_ok_def)
    have "scope_ok (s # ht_stack h) s' (ht_scopes (pushed t) s')" for s'
      using ok_self ok_other other self by (cases "s' = s") simp_all
    moreover have "distinct (s # ht_stack h)" using inv(1) s(1) by (simp add: scopes_ok_def)
    ultimately show "scopes_ok (pushed t)" unfolding scopes_ok_def fields by blast
    have calls: "calls_of (ht_scopes (pushed t)) (ht_stack h) = calls_of (ht_scopes h) (ht_stack h)"
      by (rule calls_of_cong) (rule same)
    have below: "ht_scopes (pushed t) s' = ht_scopes h s'" if "s' \<in> set (ht_stack h)" for s'
      using that other s(1) by metis
    have "bases_ok (ht_external h) (ht_scopes h) (ht_stack h)" using inv(2) by (simp add: accounts_ok_def)
    then have "bases_ok (ht_external h) (ht_scopes (pushed t)) (ht_stack h)"
      by (rule bases_ok_mono) (simp_all only: below order_refl)
    moreover have "sc_host_task_cancelling (ht_scopes (pushed t) s) = ht_cancelling h" by (simp add: self f_def)
    moreover have "calls_of (ht_scopes (pushed t)) (s # ht_stack h) = calls_of (ht_scopes h) (ht_stack h)"
      using calls s(3) same(2) [of s] by (simp add: calls_of_def)
    ultimately show "accounts_ok (pushed t)" using inv(2) calls unfolding accounts_ok_def fields by simp
    show "queue_ok (pushed t)" using inv(3) unfolding queue_ok_def fields .
    show "handles_ok (pushed t)" using inv(4) unfolding handles_ok_def fields same .
    have "owned_message h m \<Longrightarrow> owned_message (pushed t) m" for m
      unfolding owned_message_def fields same by auto
    then show "messages_ok (pushed t)" using inv(5) unfolding messages_ok_def fields pending by blast
    show "live_except None (pushed t)" if "ht_external (pushed t) = 0"
    proof -
      have "live_except None h" using inv(6) that unfolding fields by blast
      then show ?thesis unfolding live_except_def fields pending same by (metis list.set_intros(2))
    qed
  qed
  have pushed_eq: "pushed None = update_scope s (\<lambda>sc. sc\<lparr>sc_host_task := True, sc_host_task_cancelling := ht_cancelling h,
                                          sc_state := ENTERED\<rparr>) (h\<lparr>ht_stack := s # ht_stack h\<rparr>)"
  proof -
    have "f None (ht_scopes h s) = (ht_scopes h s)\<lparr>sc_host_task := True, sc_host_task_cancelling := ht_cancelling h,
            sc_state := ENTERED\<rparr>"
      using s(4) unfolding f_def by (cases "ht_scopes h s") simp
    then show ?thesis by (simp add: pushed_def update_scope_def)
  qed
  show ?thesis
  proof (cases "sc_cancel_called (ht_scopes h s)")
    case True
    have "deliver_inv s (pushed None)"
      by (rule deliver_invI [OF base]) (use True s in \<open>simp_all add: pushed_def update_scope_def f_def\<close>)
    with True assms(2) created show ?thesis
      using deliver_host_inv unfolding scope_enter_def pushed_eq by (auto simp: Let_def)
  next
    case False
    have eq: "with_timer s (pushed None) = pushed (deadline_timer (sc_deadline (ht_scopes h s)))"
      by (simp add: with_timer_def pushed_def update_scope_def f_def)
    have "some_handle (pushed t)" if h: "some_handle h" for t
    proof -
      have "sc_cancel_called (ht_scopes (pushed t) s') = sc_cancel_called (ht_scopes h s')"
        "sc_cancel_handle (ht_scopes (pushed t) s') = sc_cancel_handle (ht_scopes h s')"
        "ht_stack (pushed t) = s # ht_stack h" for s'
        by (simp_all add: pushed_def update_scope_def f_def)
      with h False show ?thesis unfolding some_handle_def by (metis list.set_intros(2) set_ConsD)
    qed
    moreover have "ht_external (pushed t) = ht_external h" for t by (simp add: pushed_def update_scope_def)
    ultimately have "host_inv (with_timer s (pushed None))"
      unfolding eq using base False assms(1) by (simp add: host_inv_base)
    then have "host_inv (setup_cancellation_by_timeout s (pushed None))"
      by (rule setup_timeout_inv) (use False in \<open>simp_all add: pushed_def update_scope_def f_def\<close>)
    with False assms(2) created show ?thesis unfolding scope_enter_def pushed_eq by (auto simp: Let_def)
  qed
qed

text \<open>Steps that leave the scopes alone.\<close>

lemma loop_step_inv:
  assumes "base_inv h" and "queue_ok h'"
    and "ht_scopes h' = ht_scopes h" "ht_stack h' = ht_stack h" "ht_external h' = ht_external h" "ht_cancelling h' = ht_cancelling h"
    and count: "\<And>s. count_list (ht_ready h') (Deliver s) = count_list (ht_ready h) (Deliver s)"
    and pending: "\<And>m. pending_message h' m \<Longrightarrow> pending_message h m"
    and delayed: "\<And>m. delayed_message h' m \<Longrightarrow> delayed_message h m \<or> pending_message h m"
    and must: "ht_wait h' = Running \<Longrightarrow> ht_must_cancel h' \<Longrightarrow> ht_wait h = Running \<and> ht_must_cancel h"
    and only: "\<And>m m'. ht_external h = 0 \<Longrightarrow> delayed_message h' m \<Longrightarrow> pending_message h' m' \<Longrightarrow> m' = m"
  shows "base_inv h'" and "host_inv h \<Longrightarrow> host_inv h'"
proof -
  note inv = base_invD [OF assms(1)]
  note same = assms(3-6)
  show base: "base_inv h'"
  proof (rule base_invI)
    show "scopes_ok h'" using inv(1) unfolding scopes_ok_def same .
    show "accounts_ok h'" using inv(2) unfolding accounts_ok_def same .
    show "queue_ok h'" by (rule assms(2))
    show "handles_ok h'" using inv(4) count unfolding handles_ok_def same by simp
    show "messages_ok h'" using inv(5) pending must unfolding messages_ok_def owned_message_def same by blast
    show "live_except None h'" if "ht_external h' = 0"
      using inv(6) that pending delayed only unfolding live_except_def same by blast
  qed
  show "host_inv h'" if "host_inv h"
    using base that unfolding host_inv_base some_handle_def same by blast
qed

text \<open>A delayed cancellation is dropped with the scope it belongs to.\<close>

lemma cancel_unless_done_delayed:
  assumes "queue_ok h" and "CancelUnlessDone hid m \<in> set (ht_ready h)"
  shows "ht_delayed h = Some (hid, m)"
proof -
  obtain cs where cs: "filter (\<lambda>c. \<not> is_deliver c) (ht_ready h) = cs @ task_callbacks (ht_wait h)"
    "delayed_callbacks (ht_wait h) (ht_delayed h) cs"
    using assms(1) unfolding queue_ok_def queue_form_def by blast
  have "CancelUnlessDone hid m \<in> set (filter (\<lambda>c. \<not> is_deliver c) (ht_ready h))" using assms(2) by simp
  then have "CancelUnlessDone hid m \<in> set cs" unfolding cs(1) by (auto simp: task_callbacks_def split: if_splits)
  with cs(2) show ?thesis by (auto simp: delayed_callbacks_def split: option.splits)
qed

lemma running_pending:
  assumes "base_inv h" and "at_work h" and "pending_message h m"
  shows "0 < ht_external h \<or> delayed_message h m"
proof -
  note inv = base_invD [OF assms(1)]
  have "ht_must_cancel h \<or> (\<exists>hid. CancelUnlessDone hid m \<in> set (ht_ready h))"
    using assms(2,3) by (auto simp: pending_message_def at_work_def)
  then show ?thesis
    using cancel_unless_done_delayed [OF inv(3)] inv(5) assms(2) unfolding delayed_message_def messages_ok_def at_work_def by blast
qed

lemma filter_others_filter:
  "\<not> is_deliver c \<Longrightarrow> filter (\<lambda>c'. \<not> is_deliver c') (filter (\<lambda>c'. c' \<noteq> c) cs) = filter (\<lambda>c'. c' \<noteq> c) (filter (\<lambda>c'. \<not> is_deliver c') cs)"
  "is_deliver c \<Longrightarrow> filter (\<lambda>c'. \<not> is_deliver c') (filter (\<lambda>c'. c' \<noteq> c) cs) = filter (\<lambda>c'. \<not> is_deliver c') cs"
  by (induction cs) auto

lemma drop_delayed_inv:
  assumes "base_inv h" and "at_work h"
  shows "base_inv (drop_delayed s h) \<and> \<not> delayed_message (drop_delayed s h) (sc_cancel_reason (ht_scopes h s))"
proof (cases "delayed_message h (sc_cancel_reason (ht_scopes h s))")
  case False
  then have "drop_delayed s h = h"
    by (auto simp: drop_delayed_def delayed_message_def split: option.split)
  with assms(1) False show ?thesis by simp
next
  case True
  let ?r = "sc_cancel_reason (ht_scopes h s)"
  obtain hid where d: "ht_delayed h = Some (hid, ?r)" using True by (auto simp: delayed_message_def)
  then have h': "drop_delayed s h = h\<lparr>ht_delayed := None, ht_ready := filter (\<lambda>c. c \<noteq> CancelUnlessDone hid ?r) (ht_ready h)\<rparr>"
    (is "_ = ?h") by (simp add: drop_delayed_def)
  note inv = base_invD [OF assms(1)]
  have pending: "pending_message ?h m \<Longrightarrow> pending_message h m" "\<not> delayed_message ?h m" for m
    by (auto simp: pending_message_def delayed_message_def)
  have "filter (\<lambda>c. \<not> is_deliver c) (ht_ready h) = [CancelUnlessDone hid ?r, PopDelayed]"
    using inv(3) assms(2) d by (auto simp: queue_ok_def queue_form_def delayed_callbacks_def task_callbacks_def at_work_def)
  then have "filter (\<lambda>c. \<not> is_deliver c) (ht_ready ?h) = [PopDelayed]" by (simp add: filter_others_filter del: filter_filter)
  then have "queue_ok ?h"
    using assms(2) by (simp add: queue_ok_def queue_form_def delayed_callbacks_def task_callbacks_def at_work_def)
  then have "base_inv ?h"
    by (rule loop_step_inv(1) [OF assms(1)]) (use pending in simp_all)
  with pending(2) show ?thesis unfolding h' by blast
qed

lemma scope_ok_stack: "(s \<in> set stack \<longleftrightarrow> s \<in> set stack') \<Longrightarrow> scope_ok stack s sc = scope_ok stack' s sc"
  by (simp add: scope_ok_def)

text \<open>What is left of the state when the innermost scope is gone, before the outer scopes are looked at.\<close>

definition left_scope :: "nat \<Rightarrow> host \<Rightarrow> host \<Rightarrow> bool" where
  "left_scope s h h' \<longleftrightarrow>
     ht_stack h' = tl (ht_stack h) \<and> ht_external h' = ht_external h \<and> ht_wait h' = ht_wait h \<and>
     ht_absorbed h' = ht_absorbed h \<and> (ht_must_cancel h' \<longrightarrow> ht_must_cancel h) \<and> ht_cancel_message h' = ht_cancel_message h \<and>
     ht_cancelling h' = ht_cancelling h - sc_host_task_cancel_calls (ht_scopes h s) \<and>
     ht_delayed h' = ht_delayed h \<and> ht_ready h' = filter (\<lambda>c. c \<noteq> Deliver s) (ht_ready h) \<and>
     (\<forall>s'. s' \<noteq> s \<longrightarrow> ht_scopes h' s' = ht_scopes h s') \<and>
     sc_state (ht_scopes h' s) = EXITED \<and> \<not> sc_host_task (ht_scopes h' s) \<and> \<not> sc_cancel_handle (ht_scopes h' s) \<and>
     sc_timeout_handle (ht_scopes h' s) = None \<and> sc_host_task_cancel_calls (ht_scopes h' s) = 0 \<and>
     sc_cancel_called (ht_scopes h' s) = sc_cancel_called (ht_scopes h s) \<and>
     sc_cancel_reason (ht_scopes h' s) = sc_cancel_reason (ht_scopes h s)"

lemma left_scopeD:
  assumes "left_scope s h h'"
  shows "ht_stack h' = tl (ht_stack h)" "ht_external h' = ht_external h" "ht_wait h' = ht_wait h"
    "ht_absorbed h' = ht_absorbed h" "ht_must_cancel h' \<Longrightarrow> ht_must_cancel h" "ht_cancel_message h' = ht_cancel_message h"
    "ht_cancelling h' = ht_cancelling h - sc_host_task_cancel_calls (ht_scopes h s)"
    "ht_delayed h' = ht_delayed h" "ht_ready h' = filter (\<lambda>c. c \<noteq> Deliver s) (ht_ready h)"
    "s' \<noteq> s \<Longrightarrow> ht_scopes h' s' = ht_scopes h s'"
    "sc_state (ht_scopes h' s) = EXITED" "\<not> sc_host_task (ht_scopes h' s)" "\<not> sc_cancel_handle (ht_scopes h' s)"
    "sc_timeout_handle (ht_scopes h' s) = None" "sc_host_task_cancel_calls (ht_scopes h' s) = 0"
    "sc_cancel_called (ht_scopes h' s) = sc_cancel_called (ht_scopes h s)"
    "sc_cancel_reason (ht_scopes h' s) = sc_cancel_reason (ht_scopes h s)"
  using assms unfolding left_scope_def by blast+

lemma left_scope_inv:
  assumes "base_inv h" and "at_work h" and "ht_stack h = s # ss" and "left_scope s h h'"
    and mine: "sc_cancel_called (ht_scopes h s) \<Longrightarrow> \<not> delayed_message h (sc_cancel_reason (ht_scopes h s))"
  shows "base_inv h'"
proof -
  note inv = base_invD [OF assms(1)]
  note l = left_scopeD [OF assms(4)]
  have ok: "scope_ok (ht_stack h) s (ht_scopes h s)" using inv(1) by (simp add: scopes_ok_def)
  have ss: "distinct ss" "s \<notin> set ss" using inv(1) assms(3) by (auto simp: scopes_ok_def)
  have fields: "ht_stack h' = ss" "ht_external h' = ht_external h" "ht_wait h' = Running" "ht_absorbed h' = None"
    "ht_cancelling h' = ht_cancelling h - sc_host_task_cancel_calls (ht_scopes h s)"
    using l(1-4,7) assms(2,3) by (simp_all add: at_work_def)
  have below: "s' \<in> set ss \<Longrightarrow> ht_scopes h' s' = ht_scopes h s'" for s' using l(10) ss(2) by metis
  have pending: "pending_message h m" if "pending_message h' m" for m
    using that l(3-6,9) unfolding pending_message_def by auto
  have delayed: "delayed_message h' = delayed_message h"
    by (simp add: delayed_message_def l(8) fun_eq_iff)
  have others: "m \<noteq> sc_cancel_reason (ht_scopes h s) \<or> \<not> sc_cancel_called (ht_scopes h s)"
    if "pending_message h m \<or> delayed_message h m" "ht_external h = 0" for m
    using running_pending [OF assms(1,2)] that mine by auto
  show ?thesis
  proof (rule base_invI)
    have self: "scope_ok ss s (ht_scopes h' s)"
      using l(11-17) ok ss(2) by (auto simp: scope_ok_def)
    have "scope_ok ss s' (ht_scopes h' s')" for s'
    proof (cases "s' = s")
      case False
      have "scope_ok (s # ss) s' (ht_scopes h s')" using inv(1) assms(3) unfolding scopes_ok_def by metis
      then show ?thesis using scope_ok_stack [of s' "s # ss" ss] False l(10) [OF False] by simp
    qed (use self in simp)
    then show "scopes_ok h'" using ss(1) unfolding scopes_ok_def fields by blast
    have "calls_of (ht_scopes h') ss = calls_of (ht_scopes h) ss"
      by (rule calls_of_cong) (simp only: below)
    moreover have "bases_ok (ht_external h) (ht_scopes h) ss" using inv(2) assms(3) by (simp add: accounts_ok_def)
    then have "bases_ok (ht_external h) (ht_scopes h') ss" by (rule bases_ok_mono) (simp_all only: below order_refl)
    moreover have "calls_of (ht_scopes h) (s # ss) = sc_host_task_cancel_calls (ht_scopes h s) + calls_of (ht_scopes h) ss"
      by (simp add: calls_of_def)
    ultimately show "accounts_ok h'" using inv(2) unfolding accounts_ok_def fields assms(3) by simp
    show "queue_ok h'"
      using inv(3) assms(2) unfolding queue_ok_def l(8,9) fields(3,4) by (simp add: filter_others_filter at_work_def del: filter_filter)
    show "handles_ok h'"
      unfolding handles_ok_def
    proof
      fix s'
      show "count_list (ht_ready h') (Deliver s') = (if sc_cancel_handle (ht_scopes h' s') then 1 else 0)"
        using inv(4) l(10,13) unfolding handles_ok_def l(9) by (cases "s' = s") simp_all
    qed
    have "owned_message h' m" if own: "owned_message h m" "ht_external h = 0" "pending_message h m" for m
    proof -
      obtain s' where s': "s' \<in> set (s # ss)" "m = sc_cancel_reason (ht_scopes h s')" "0 < sc_host_task_cancel_calls (ht_scopes h s')"
        using own(1) unfolding owned_message_def assms(3) by blast
      have "s' \<noteq> s" using s'(2,3) others [OF _ own(2)] own(3) ok by (auto simp: scope_ok_def)
      with s' below show ?thesis unfolding owned_message_def fields by auto
    qed
    then show "messages_ok h'"
      using inv(5) pending l(5) assms(2) unfolding messages_ok_def fields at_work_def by blast
    show "live_except None h'" if "ht_external h' = 0"
    proof -
      have ext: "ht_external h = 0" using that fields by simp
      from inv(6) [OF ext] have live: "\<exists>s' \<in> set (s # ss). m = sc_cancel_reason (ht_scopes h s') \<and> sc_cancel_handle (ht_scopes h s')"
        if "pending_message h m \<or> delayed_message h m" for m
        using that unfolding live_except_def assms(3) by blast
      have "\<exists>s' \<in> set ss. m = sc_cancel_reason (ht_scopes h' s') \<and> sc_cancel_handle (ht_scopes h' s')"
        if m: "pending_message h m \<or> delayed_message h m" for m
      proof -
        obtain s' where s': "s' \<in> set (s # ss)" "m = sc_cancel_reason (ht_scopes h s')" "sc_cancel_handle (ht_scopes h s')"
          using live [OF m] by blast
        have "s' \<noteq> s" using s'(2,3) others [OF m ext] ok by (auto simp: scope_ok_def)
        with s' below show ?thesis by auto
      qed
      with inv(6) [OF ext] pending show ?thesis unfolding live_except_def fields delayed by blast
    qed
  qed
qed

text \<open>The loop of \<^verbatim>\<open>uncancel()\<close> takes back the calls of the scope, no more and no less.\<close>

lemma uncancel_loop_result:
  assumes "cancelling + calls \<le> ht_cancelling h"
  shows "\<exists>b. uncancel_loop calls cancelling h = h\<lparr>ht_cancelling := ht_cancelling h - calls, ht_must_cancel := b\<rparr>
    \<and> (b \<longrightarrow> ht_must_cancel h)"
  using assms
proof (induction calls arbitrary: h)
  case 0
  show ?case by (intro exI [of _ "ht_must_cancel h"]) simp
next
  case (Suc calls)
  let ?h = "task_uncancel h"
  have u: "?h = h\<lparr>ht_cancelling := ht_cancelling h - 1, ht_must_cancel := (ht_must_cancel h \<and> \<not> (ht_clears h \<and> ht_cancelling h = 1))\<rparr>"
    using Suc.prems by (simp add: task_uncancel_def)
  show ?case
  proof (cases "ht_cancelling ?h \<le> cancelling")
    case True
    with Suc.prems have "calls = 0" unfolding u by simp
    with True show ?thesis unfolding u uncancel_loop.simps Let_def by (auto simp: u)
  next
    case False
    have "cancelling + calls \<le> ht_cancelling ?h" using Suc.prems unfolding u by simp
    from Suc.IH [OF this] obtain b where
      b: "uncancel_loop calls cancelling ?h = ?h\<lparr>ht_cancelling := ht_cancelling ?h - calls, ht_must_cancel := b\<rparr>"
        "b \<longrightarrow> ht_must_cancel ?h" by blast
    have "uncancel_loop (Suc calls) cancelling h = h\<lparr>ht_cancelling := ht_cancelling h - Suc calls, ht_must_cancel := b\<rparr>"
      using False b(1) by (simp add: u)
    moreover have "b \<longrightarrow> ht_must_cancel h" using b(2) by (simp add: u)
    ultimately show ?thesis by blast
  qed
qed

lemma drop_delayed_simps [simp]:
  "ht_scopes (drop_delayed s h) = ht_scopes h" "ht_stack (drop_delayed s h) = ht_stack h"
  "ht_external (drop_delayed s h) = ht_external h" "ht_wait (drop_delayed s h) = ht_wait h"
  "ht_absorbed (drop_delayed s h) = ht_absorbed h" "ht_must_cancel (drop_delayed s h) = ht_must_cancel h"
  "ht_cancel_message (drop_delayed s h) = ht_cancel_message h" "ht_cancelling (drop_delayed s h) = ht_cancelling h"
  by (auto simp: drop_delayed_def split: option.split)

lemma exit_cancelled_left:
  assumes "ht_stack h = s # ss" and "sc_host_task_cancelling (ht_scopes h s) + sc_host_task_cancel_calls (ht_scopes h s) \<le> ht_cancelling h"
    and "h1 = update_scope s (\<lambda>sc. sc\<lparr>sc_state := EXITED, sc_timeout_handle := None, sc_cancel_handle := False,
                                          sc_host_task := False\<rparr>)
                (h\<lparr>ht_ready := filter (\<lambda>c. c \<noteq> Deliver s) (ht_ready h), ht_stack := tl (ht_stack h)\<rparr>)"
    and "exit_cancelled s exc h1 = (b, h2)"
  shows "left_scope s (drop_delayed s h) h2"
proof -
  let ?calls = "sc_host_task_cancel_calls (ht_scopes h s)" and ?base = "sc_host_task_cancelling (ht_scopes h s)"
  have "?base + ?calls \<le> ht_cancelling h1" using assms(2) by (simp add: assms(3) update_scope_def)
  from uncancel_loop_result [OF this] obtain mc where
    u: "uncancel_loop ?calls ?base h1 = h1\<lparr>ht_cancelling := ht_cancelling h1 - ?calls, ht_must_cancel := mc\<rparr>"
      "mc \<longrightarrow> ht_must_cancel h1" by blast
  define h3 where "h3 = h1\<lparr>ht_cancelling := ht_cancelling h1 - ?calls, ht_must_cancel := mc\<rparr>"
  have sc: "sc_host_task_cancel_calls (ht_scopes h1 s) = ?calls" "sc_host_task_cancelling (ht_scopes h1 s) = ?base"
    by (simp_all add: assms(3) update_scope_def)
  obtain f where h2: "h2 = drop_delayed s (update_scope s f h3)"
    and f: "f (ht_scopes h3 s) = (ht_scopes h3 s)\<lparr>sc_host_task_cancel_calls := 0, sc_cancelled_caught := sc_cancelled_caught (f (ht_scopes h3 s))\<rparr>"
  proof (cases exc)
    case None
    show thesis
      by (rule that [of "\<lambda>sc. sc\<lparr>sc_host_task_cancel_calls := 0\<rparr>"])
        (use assms(4) None u(1) sc in \<open>simp_all add: exit_cancelled_def Let_def h3_def\<close>)
  next
    case (Some ls)
    show thesis
      by (rule that [of "\<lambda>sc. sc\<lparr>sc_host_task_cancel_calls := 0, sc_cancelled_caught := list_ex (is_my_cancellation (ht_scopes h1 s)) ls\<rparr>"])
        (use assms(4) Some u(1) sc in \<open>auto simp: exit_cancelled_def Let_def h3_def update_scope_def\<close>)
  qed
  let ?h4 = "update_scope s f h3"
  have self: "ht_scopes ?h4 s = f (ht_scopes h3 s)" and other: "s' \<noteq> s \<Longrightarrow> ht_scopes ?h4 s' = ht_scopes h s'" for s'
    by (simp_all add: update_scope_def h3_def assms(3))
  have h3: "ht_scopes h3 s = (ht_scopes h s)\<lparr>sc_state := EXITED, sc_timeout_handle := None, sc_cancel_handle := False,
      sc_host_task := False\<rparr>" by (simp add: h3_def assms(3) update_scope_def)
  have scope: "sc_state (ht_scopes ?h4 s) = EXITED" "\<not> sc_host_task (ht_scopes ?h4 s)" "\<not> sc_cancel_handle (ht_scopes ?h4 s)"
    "sc_timeout_handle (ht_scopes ?h4 s) = None" "sc_host_task_cancel_calls (ht_scopes ?h4 s) = 0"
    "sc_cancel_called (ht_scopes ?h4 s) = sc_cancel_called (ht_scopes h s)"
    "sc_cancel_reason (ht_scopes ?h4 s) = sc_cancel_reason (ht_scopes h s)"
    unfolding self by (subst f; simp add: h3)+
  have rest: "ht_stack ?h4 = tl (ht_stack h)" "ht_external ?h4 = ht_external h" "ht_wait ?h4 = ht_wait h" "ht_absorbed ?h4 = ht_absorbed h"
    "ht_must_cancel ?h4 \<longrightarrow> ht_must_cancel h" "ht_cancel_message ?h4 = ht_cancel_message h"
    "ht_cancelling ?h4 = ht_cancelling h - ?calls" "ht_delayed ?h4 = ht_delayed h"
    "ht_ready ?h4 = filter (\<lambda>c. c \<noteq> Deliver s) (ht_ready h)"
    using u(2) by (simp_all add: update_scope_def h3_def assms(3))
  have "ht_delayed (drop_delayed s ?h4) = ht_delayed (drop_delayed s h)
      \<and> ht_ready (drop_delayed s ?h4) = filter (\<lambda>c. c \<noteq> Deliver s) (ht_ready (drop_delayed s h))"
    using rest(8,9) scope(7) by (auto simp: drop_delayed_def conj_commute split: option.split)
  with rest scope other show ?thesis unfolding h2 left_scope_def by simp
qed

lemma scope_exit_inv:
  assumes "host_inv h" and "at_work h" and "scope_exit s exc h = Inr (b, h')"
  shows "host_inv h'"
proof -
  note base = assms(1) [unfolded host_inv_base, THEN conjunct1]
  note inv = base_invD [OF base]
  have state: "sc_state (ht_scopes h s) = ENTERED" "hd (ht_stack h) = s"
    using assms(3) by (auto simp: scope_exit_def split: if_splits)
  have ok: "scope_ok (ht_stack h) s (ht_scopes h s)" using inv(1) by (simp add: scopes_ok_def)
  then obtain ss where stack: "ht_stack h = s # ss" using state by (cases "ht_stack h") (auto simp: scope_ok_def)
  define h1 where "h1 = update_scope s (\<lambda>sc. sc\<lparr>sc_state := EXITED, sc_timeout_handle := None, sc_cancel_handle := False,
                                          sc_host_task := False\<rparr>)
                (h\<lparr>ht_ready := filter (\<lambda>c. c \<noteq> Deliver s) (ht_ready h), ht_stack := tl (ht_stack h)\<rparr>)"
  obtain should h2 where h2: "(if sc_cancel_called (ht_scopes h s) then exit_cancelled s exc h1 else (True, h1)) = (should, h2)"
    by fastforce
  have h': "h' = check_pending_cancellation h2"
    using assms(2,3) state h2 unfolding scope_exit_def h1_def [symmetric] at_work_def by (auto simp: Let_def)
  have "base_inv h2"
  proof (cases "sc_cancel_called (ht_scopes h s)")
    case False
    then have "left_scope s h h1"
      using ok by (auto simp: left_scope_def h1_def update_scope_def scope_ok_def)
    from left_scope_inv [OF base assms(2) stack this] False h2 show ?thesis by simp
  next
    case True
    have "sc_host_task_cancelling (ht_scopes h s) + sc_host_task_cancel_calls (ht_scopes h s) \<le> ht_cancelling h"
      using inv(2) by (simp add: accounts_ok_def stack calls_of_def)
    with True h2 have "left_scope s (drop_delayed s h) h2" by (intro exit_cancelled_left [OF stack _ h1_def]) simp_all
    with drop_delayed_inv [OF base assms(2), of s] assms(2) stack show ?thesis
      by (intro left_scope_inv [of "drop_delayed s h" s ss h2]) (simp_all add: at_work_def)
  qed
  then show ?thesis unfolding h' by (rule check_pending_inv)
qed

section \<open>The loop and the task\<close>

lemmas queue_defs = queue_ok_def queue_form_def delayed_callbacks_def task_callbacks_def

lemma message_defs: "pending_message h m \<longleftrightarrow>
     ht_wait h = WaitCancelled m \<or> ht_must_cancel h \<and> ht_cancel_message h = m \<or> ht_absorbed h = Some m \<or>
     (\<exists>hid. CancelUnlessDone hid m \<in> set (ht_ready h))" "delayed_message h m \<longleftrightarrow> (\<exists>hid. ht_delayed h = Some (hid, m))"
  by (simp_all add: pending_message_def delayed_message_def)

lemma live_only:
  assumes "base_inv h" and "ht_external h = 0" and "delayed_message h m" and "pending_message h m'"
  shows "m' = m"
  using base_invD(6) [OF assms(1,2)] assms(3,4) unfolding live_except_def by blast

lemma step_task_inv:
  assumes "host_inv h" and "ht_ready h = StepTask # cs"
  shows "host_inv (step_task (h\<lparr>ht_ready := cs\<rparr>))" (is "host_inv ?h")
proof -
  note base = assms(1) [unfolded host_inv_base, THEN conjunct1]
  note inv = base_invD [OF base]
  have q: "ht_delayed h = None" "filter (\<lambda>c. \<not> is_deliver c) cs = []" "ht_wait h \<noteq> Running" "ht_wait h \<noteq> Waiting"
    using inv(3) assms(2) by (cases "ht_delayed h"; auto simp: queue_defs split: if_splits)+
  have fields: "ht_scopes ?h = ht_scopes h" "ht_stack ?h = ht_stack h" "ht_external ?h = ht_external h"
    "ht_cancelling ?h = ht_cancelling h" "ht_ready ?h = cs" "ht_delayed ?h = None" "ht_wait ?h = Running" "\<not> ht_must_cancel ?h"
    using q(1) by (simp_all add: step_task_def Let_def)
  have absorbed: "ht_absorbed ?h = Some m \<Longrightarrow> ht_absorbed h = Some m \<or> thrown_on_resume h = Some m" for m
    by (auto simp: step_task_def Let_def thrown_on_resume_def split: if_splits option.splits task_wait.splits)
  have thrown: "thrown_on_resume h = Some m \<Longrightarrow> pending_message h m" for m
    by (auto simp: thrown_on_resume_def message_defs split: task_wait.splits if_splits)
  have pending: "pending_message ?h m \<Longrightarrow> pending_message h m" for m
    using absorbed thrown [unfolded message_defs] assms(2) fields(8) unfolding message_defs fields(5,7) by auto
  have queue: "queue_ok ?h" using q(2) by (simp add: queue_defs fields)
  show ?thesis
    by (rule loop_step_inv(2) [OF base queue _ _ _ _ _ _ _ _ _ assms(1)])
      (use fields pending assms(2) in \<open>simp_all add: delayed_message_def\<close>)
qed

lemma suspend_inv:
  assumes "host_inv h" and "ht_wait h = Running"
  shows "host_inv (suspend for_future shielded h)" (is "host_inv ?h")
proof -
  note base = assms(1) [unfolded host_inv_base, THEN conjunct1]
  note inv = base_invD [OF base]
  have queue: "queue_ok ?h"
    using inv(3) assms(2) by (auto simp: queue_defs suspend_def call_soon_def Let_def split: option.splits)
  have pending: "pending_message ?h m \<Longrightarrow> pending_message h m" "delayed_message ?h m \<Longrightarrow> delayed_message h m" for m
    by (auto simp: message_defs suspend_def call_soon_def Let_def split: if_splits)
  show ?thesis
    by (rule loop_step_inv(2) [OF base queue _ _ _ _ _ _ _ _ _ assms(1)])
      (use pending live_only [OF base] in \<open>auto simp: suspend_def call_soon_def Let_def split: if_splits\<close>)
qed

lemma end_shield_inv:
  assumes "host_inv h" and "ht_wait h = Running"
  shows "\<exists>h'. end_shield h = Inr h' \<and> host_inv h'"
proof (cases "ht_absorbed h")
  case (Some m)
  note base = assms(1) [unfolded host_inv_base, THEN conjunct1]
  note inv = base_invD [OF base]
  have q: "ht_delayed h = None" "filter (\<lambda>c. \<not> is_deliver c) (ht_ready h) = []"
    using inv(3) assms(2) Some by (auto simp: queue_defs)
  let ?h = "call_soon PopDelayed (call_soon (CancelUnlessDone (ht_next_handle h) m)
             (h\<lparr>ht_absorbed := None, ht_delayed := Some (ht_next_handle h, m), ht_next_handle := ht_next_handle h + 1\<rparr>))"
  have e: "end_shield h = Inr ?h"
    using Some q(1) by (simp add: end_shield_def reschedule_delayed_task_cancel_def)
  have queue: "queue_ok ?h" using q assms(2) by (simp add: queue_defs call_soon_def)
  have none: "CancelUnlessDone hid m' \<notin> set (ht_ready h)" for hid m'
    using q(2) by (auto simp: filter_empty_conv)
  have pm: "pending_message h m" using Some by (simp add: message_defs)
  have pending: "pending_message ?h m' \<Longrightarrow> pending_message h m'" "delayed_message ?h m' \<Longrightarrow> m' = m" for m'
    using Some by (auto simp: message_defs call_soon_def)
  have only: "m'' = m'" if "ht_external h = 0" "delayed_message ?h m'" "pending_message ?h m''" for m' m''
    using that none inv(5) assms(2) by (auto simp: message_defs call_soon_def messages_ok_def)
  have "host_inv ?h"
    by (rule loop_step_inv(2) [OF base queue _ _ _ _ _ _ _ _ _ assms(1)])
      (use pending only pm in \<open>auto simp: call_soon_def\<close>)
  with e show ?thesis by blast
qed (use assms in \<open>simp add: end_shield_def\<close>)

lemma drop_absorbed_inv:
  assumes "host_inv h"
  shows "host_inv (h\<lparr>ht_absorbed := None\<rparr>)" (is "host_inv ?h")
proof -
  note base = assms(1) [unfolded host_inv_base, THEN conjunct1]
  note inv = base_invD [OF base]
  have queue: "queue_ok ?h" using inv(3) by (auto simp: queue_defs)
  have pending: "pending_message ?h m \<Longrightarrow> pending_message h m" "delayed_message ?h m \<Longrightarrow> delayed_message h m" for m
    by (auto simp: message_defs)
  show ?thesis
    by (rule loop_step_inv(2) [OF base queue _ _ _ _ _ _ _ _ _ assms(1)]) (use pending live_only [OF base] in auto)
qed

lemma future_done_inv:
  assumes "host_inv h" and "ht_wait h = Waiting"
  shows "host_inv (call_soon StepTask (h\<lparr>ht_wait := WaitDone\<rparr>))" (is "host_inv ?h")
proof -
  note base = assms(1) [unfolded host_inv_base, THEN conjunct1]
  note inv = base_invD [OF base]
  have queue: "queue_ok ?h" using inv(3) assms(2) by (auto simp: queue_defs call_soon_def split: option.splits)
  have pending: "pending_message ?h m \<Longrightarrow> pending_message h m" "delayed_message ?h m \<Longrightarrow> delayed_message h m" for m
    by (auto simp: message_defs call_soon_def)
  show ?thesis
    by (rule loop_step_inv(2) [OF base queue _ _ _ _ _ _ _ _ _ assms(1)])
      (use pending live_only [OF base] in \<open>auto simp: call_soon_def\<close>)
qed

lemma pop_delayed_inv:
  assumes "host_inv h" and "ht_ready h = PopDelayed # cs"
  shows "host_inv (h\<lparr>ht_ready := cs, ht_delayed := None\<rparr>)" (is "host_inv ?h")
proof -
  note base = assms(1) [unfolded host_inv_base, THEN conjunct1]
  note inv = base_invD [OF base]
  have queue: "queue_ok ?h" using inv(3) assms(2) by (auto simp: queue_defs split: option.splits if_splits)
  have pending: "pending_message ?h m \<Longrightarrow> pending_message h m" "\<not> delayed_message ?h m" for m
    using assms(2) by (auto simp: message_defs)
  show ?thesis
    by (rule loop_step_inv(2) [OF base queue _ _ _ _ _ _ _ _ _ assms(1)]) (use pending assms(2) in auto)
qed

text \<open>A cancellation from outside.\<close>

lemma external_cancel_inv:
  assumes "host_inv h"
  shows "host_inv (task_cancel m (h\<lparr>ht_external := ht_external h + 1\<rparr>))" (is "host_inv ?h")
proof -
  note base = assms(1) [unfolded host_inv_base, THEN conjunct1]
  note inv = base_invD [OF base]
  have fields: "ht_scopes ?h = ht_scopes h" "ht_stack ?h = ht_stack h" "ht_external ?h = ht_external h + 1"
    "ht_cancelling ?h = ht_cancelling h + 1"
    by simp_all
  have "base_inv ?h"
  proof (rule base_invI)
    show "scopes_ok ?h" using inv(1) unfolding scopes_ok_def fields .
    have "bases_ok (ht_external h) (ht_scopes h) (ht_stack h)" using inv(2) by (simp add: accounts_ok_def)
    then have "bases_ok (ht_external h + 1) (ht_scopes h) (ht_stack h)" by (rule bases_ok_mono) simp_all
    then show "accounts_ok ?h" using inv(2) unfolding accounts_ok_def fields by simp
    have "queue_ok (h\<lparr>ht_external := ht_external h + 1\<rparr>)" using inv(3) by (simp add: queue_ok_def)
    then show "queue_ok ?h" by (rule queue_ok_task_cancel)
    show "handles_ok ?h" using inv(4) by (simp add: handles_ok_def)
    show "messages_ok ?h" unfolding messages_ok_def fields by simp
    show "live_except None ?h" if "ht_external ?h = 0" using that by simp
  qed
  then show ?thesis by (simp add: host_inv_base)
qed

text \<open>The delayed cancellation is carried out: \<^verbatim>\<open>uncancel()\<close> and \<^verbatim>\<open>cancel()\<close> leave the counter as it was.\<close>

lemma delayed_cancel_inv:
  assumes "host_inv h" and "ht_ready h = CancelUnlessDone hid m # cs" and "ht_wait h \<noteq> Running"
  shows "host_inv (cancel_task_unless_done m (h\<lparr>ht_ready := cs\<rparr>))" (is "host_inv ?h")
proof -
  note base = assms(1) [unfolded host_inv_base, THEN conjunct1]
  note inv = base_invD [OF base]
  have d: "ht_delayed h = Some (hid, m)"
    using cancel_unless_done_delayed [OF inv(3)] assms(2) by simp
  have absorbed: "ht_absorbed h = None" using inv(3) d by (auto simp: queue_defs)
  have others: "filter (\<lambda>c. \<not> is_deliver c) cs = PopDelayed # task_callbacks (ht_wait h)"
    using inv(3) assms(2) d by (auto simp: queue_ok_def queue_form_def delayed_callbacks_def)
  have pm: "pending_message h m" using assms(2) by (auto simp: message_defs)
  have "0 < ht_cancelling h"
  proof -
    have "0 < ht_external h \<or> owned_message h m" using inv(5) pm unfolding messages_ok_def by blast
    moreover have "0 < calls_of (ht_scopes h) (ht_stack h)" if "owned_message h m"
    proof -
      from that obtain s where "s \<in> set (ht_stack h)" "0 < sc_host_task_cancel_calls (ht_scopes h s)"
        unfolding owned_message_def by blast
      moreover from this have "sc_host_task_cancel_calls (ht_scopes h s) \<le> calls_of (ht_scopes h) (ht_stack h)"
        unfolding calls_of_def by (intro member_le_sum_list) simp_all
      ultimately show ?thesis by simp
    qed
    ultimately show ?thesis using inv(2) by (auto simp: accounts_ok_def)
  qed
  then obtain b where u: "task_uncancel (h\<lparr>ht_ready := cs\<rparr>)
      = h\<lparr>ht_ready := cs, ht_cancelling := ht_cancelling h - 1, ht_must_cancel := b\<rparr>" "b \<longrightarrow> ht_must_cancel h"
    by (auto simp: task_uncancel_def)
  have fields: "ht_scopes ?h = ht_scopes h" "ht_stack ?h = ht_stack h" "ht_external ?h = ht_external h"
    "ht_cancelling ?h = ht_cancelling h" "ht_delayed ?h = ht_delayed h"
    using \<open>0 < ht_cancelling h\<close> by (simp_all add: cancel_task_unless_done_def u(1))
  have queue: "queue_ok ?h"
    using others d absorbed assms(3) by (auto simp: cancel_task_unless_done_def u(1) queue_defs filter_append split: if_splits)
  have pending: "pending_message ?h m' \<Longrightarrow> pending_message h m'" for m'
    using pm u(2) assms(2) by (auto simp: cancel_task_unless_done_def u(1) message_defs split: if_splits)
  have delayed: "delayed_message ?h m' = delayed_message h m'" for m'
    by (simp add: delayed_message_def fields)
  show ?thesis
    by (rule loop_step_inv(2) [OF base queue fields(1-4) _ _ _ _ _ assms(1)])
      (use pending delayed live_only [OF base] assms(2,3) in \<open>auto simp: cancel_task_unless_done_def u(1) split: if_splits\<close>)
qed

text \<open>A delivery is taken from the callbacks.\<close>

lemma deliver_callback_inv:
  assumes "host_inv h" and "ht_ready h = Deliver s # cs"
  shows "host_inv (deliver_cancellation s (h\<lparr>ht_ready := cs\<rparr>))"
proof (rule deliver_host_inv)
  note base = assms(1) [unfolded host_inv_base, THEN conjunct1]
  note inv = base_invD [OF base]
  let ?h = "h\<lparr>ht_ready := cs\<rparr>"
  have handle: "sc_cancel_handle (ht_scopes h s)"
  proof (rule ccontr)
    assume "\<not> sc_cancel_handle (ht_scopes h s)"
    with inv(4) have "count_list (ht_ready h) (Deliver s) = 0" unfolding handles_ok_def by simp
    with assms(2) show False by simp
  qed
  have "scope_ok (ht_stack h) s (ht_scopes h s)" using assms(1) by (rule host_inv_scope)
  with handle have s: "s \<in> set (ht_stack h)" "sc_cancel_called (ht_scopes h s)" by (auto simp: scope_ok_def)
  have count: "count_list cs (Deliver s') = (if sc_cancel_handle (ht_scopes h s') \<and> s' \<noteq> s then 1 else 0)" for s'
  proof -
    have "count_list (ht_ready h) (Deliver s') = (if sc_cancel_handle (ht_scopes h s') then 1 else 0)"
      using inv(4) unfolding handles_ok_def by blast
    then show ?thesis using assms(2) handle by (auto split: if_splits)
  qed
  have pending: "pending_message ?h = pending_message h" "delayed_message ?h = delayed_message h"
    using assms(2) by (auto simp: message_defs fun_eq_iff)
  have scopes: "scopes_ok ?h" using inv(1) by (simp add: scopes_ok_def)
  have accounts: "accounts_ok ?h" using inv(2) by (simp add: accounts_ok_def)
  have queue: "queue_ok ?h" using inv(3) assms(2) by (simp add: queue_ok_def)
  have "owned_message ?h = owned_message h" by (simp add: owned_message_def fun_eq_iff)
  then have messages: "messages_ok ?h" using inv(5) unfolding messages_ok_def pending by simp
  have "live_except None ?h" if "ht_external h = 0"
    using inv(6) [OF that] unfolding live_except_def pending by simp
  then have live: "live_except (Some s) ?h" if "ht_external h = 0" using that live_except_weaken by blast
  show "deliver_inv s ?h"
    unfolding deliver_inv_def using scopes accounts queue messages live count s by simp
qed

section \<open>Reachable states\<close>

lemma host_inv_init: "host_inv (host_init clears)"
  by (simp add: host_inv_def host_init_def fresh_scope_def scopes_ok_def scope_ok_def accounts_ok_def calls_of_def queue_defs
      handles_ok_def messages_ok_def live_except_def some_handle_def message_defs)

lemma host_inv_run_callback:
  assumes "host_inv h" and "ht_ready h = c # cs" and "ht_wait h \<noteq> Running"
  shows "host_inv (run_callback c (h\<lparr>ht_ready := cs\<rparr>))"
  using assms step_task_inv delayed_cancel_inv pop_delayed_inv deliver_callback_inv
  by (cases c) (auto simp: run_callback_def)

text \<open>Every step keeps the invariant; only misuse of a scope by the task, or a NaN, can raise.\<close>

lemma host_inv_apply:
  assumes "host_inv h" and "scope_apply e h = Some (Inr h')"
  shows "host_inv h'"
proof (cases e)
  case (NewScope s d)
  with assms new_scope_inv show ?thesis
    by (auto simp: possible_def result_bind_def at_work_def split: if_splits sum.splits)
next
  case (Enter s)
  with assms scope_enter_inv show ?thesis by (auto simp: possible_def split: if_splits)
next
  case (Exit s exc)
  with assms scope_exit_inv show ?thesis by (auto simp: possible_def result_bind_def split: if_splits sum.splits)
next
  case (Suspend f sh)
  with assms suspend_inv show ?thesis by (auto simp: possible_def split: if_splits)
next
  case EndShield
  with assms end_shield_inv [OF assms(1)] show ?thesis by (auto simp: possible_def split: if_splits)
next
  case DropAbsorbed
  with assms drop_absorbed_inv show ?thesis by (auto simp: possible_def split: if_splits)
next
  case CheckPending
  with assms check_pending_inv show ?thesis by (auto simp: possible_def host_inv_base split: if_splits)
next
  case (CancelScope s msg)
  with assms scope_cancel_inv show ?thesis by auto
next
  case (Reschedule s d)
  with assms reschedule_inv show ?thesis by auto
next
  case (CancelTask msg)
  with assms external_cancel_inv show ?thesis by auto
next
  case FutureDone
  with assms future_done_inv show ?thesis by (auto simp: possible_def split: if_splits)
next
  case RunCallback
  with assms host_inv_run_callback show ?thesis by (auto simp: possible_def split: if_splits list.splits)
next
  case (TimerFires s)
  with assms scope_cancel_inv show ?thesis by (auto simp: possible_def split: if_splits)
next
  case (Tick n)
  have "host_inv (h\<lparr>ht_time := t\<rparr>) = host_inv h" for t
    by (simp add: host_inv_def scopes_ok_def accounts_ok_def queue_ok_def handles_ok_def messages_ok_def owned_message_def
        live_except_def some_handle_def message_defs)
  with Tick assms show ?thesis by auto
qed

lemma host_inv_reachable: "scope_reachable h \<Longrightarrow> host_inv h"
proof (induction rule: scope_reachable.induct)
  case (scope_start clears)
  show ?case by (rule host_inv_init)
next
  case (scope_step h e h')
  with host_inv_apply show ?case by blast
qed

lemma uncancel_loop_scopes [simp]: "ht_scopes (uncancel_loop calls cancelling h) = ht_scopes h"
  by (induction calls cancelling h rule: uncancel_loop.induct) (simp_all add: task_uncancel_def Let_def)

lemma check_pending_scopes [simp]:
  "sc_state (ht_scopes (check_pending_cancellation h) s) = sc_state (ht_scopes h s)"
  "sc_cancelled_caught (ht_scopes (check_pending_cancellation h) s) = sc_cancelled_caught (ht_scopes h s)"
  by (simp_all add: check_pending_cancellation_def split: option.split)

lemma scope_exit_result:
  assumes "scope_exit s exc h = Inr (b, h')" and "\<not> sc_cancelled_caught (ht_scopes h s)"
  shows "sc_state (ht_scopes h' s) = EXITED
    \<and> (b \<longrightarrow> sc_cancel_called (ht_scopes h s)
         \<and> (\<exists>ls. exc = Some ls \<and> ls \<noteq> [] \<and> (\<forall>l \<in> set ls. is_my_cancellation (ht_scopes h s) l)))"
proof -
  let ?f = "\<lambda>sc. sc\<lparr>sc_state := EXITED, sc_timeout_handle := None, sc_cancel_handle := False, sc_host_task := False\<rparr>"
  define h1 where "h1 = update_scope s ?f (h\<lparr>ht_ready := filter (\<lambda>c. c \<noteq> Deliver s) (ht_ready h), ht_stack := tl (ht_stack h)\<rparr>)"
  have h1: "ht_scopes h1 s = ?f (ht_scopes h s)" by (simp add: h1_def update_scope_def)
  obtain should h2 where h2: "(if sc_cancel_called (ht_scopes h s) then exit_cancelled s exc h1 else (True, h1)) = (should, h2)"
    by fastforce
  have r: "b \<longleftrightarrow> sc_cancelled_caught (ht_scopes h2 s) \<and> should" "h' = check_pending_cancellation h2"
    using assms(1) h2 unfolding scope_exit_def h1_def [symmetric] by (auto simp: Let_def split: if_splits)
  have mine: "is_my_cancellation (?f sc) l = is_my_cancellation sc l" for sc l
    by (simp add: is_my_cancellation_def split: leaf.split)
  have "sc_state (ht_scopes h2 s) = EXITED
    \<and> (sc_cancelled_caught (ht_scopes h2 s) \<and> should \<longrightarrow> sc_cancel_called (ht_scopes h s)
         \<and> (\<exists>ls. exc = Some ls \<and> ls \<noteq> [] \<and> (\<forall>l \<in> set ls. is_my_cancellation (ht_scopes h s) l)))"
  proof (cases "sc_cancel_called (ht_scopes h s)")
    case False
    with h2 h1 assms(2) show ?thesis by auto
  next
    case True
    with h2 h1 assms(2) mine show ?thesis
      by (cases exc) (auto simp: exit_cancelled_def Let_def update_scope_def list_all_iff list_ex_iff)
  qed
  with r show ?thesis by simp
qed

section \<open>Properties\<close>

text \<open>
  C16: the counter of \<^verbatim>\<open>Task.cancelling()\<close> is always the number of cancellations from outside plus the calls of the scopes
  that are still entered: a scope that is left takes back exactly its own cancellations, so that after the
  last one only those from outside remain, whatever was shielded, delayed or cancelled meanwhile.  A delayed
  cancellation is never registered while another one is, so the assertion of \<^verbatim>\<open>_reschedule_delayed_task_cancel\<close> cannot fail.
\<close>

theorem scope_cancellation_counter:
  assumes "scope_reachable h"
  shows "ht_cancelling h = ht_external h + sum_list (map (\<lambda>s. sc_host_task_cancel_calls (ht_scopes h s)) (ht_stack h))
    \<and> (ht_wait h = Running \<longrightarrow> (\<exists>h'. end_shield h = Inr h'))"
  using host_inv_reachable [OF assms] end_shield_inv [of h]
  by (auto simp: host_inv_def accounts_ok_def calls_of_def)

text \<open>
  \<^verbatim>\<open>__exit__\<close> suppresses an exception only if the scope was cancelled and every exception of which it consists is a cancellation
  of this scope; and a scope that is not entered has no timer, no delivery and, as long as there is no cancellation from
  outside, no message on its way to the task: it cannot cancel what runs after it.
\<close>

theorem scope_exit_is_final:
  assumes "scope_reachable h" and "scope_apply (Exit s exc) h = Some (Inr h')"
  shows "(\<exists>suppressed. scope_exit s exc h = Inr (suppressed, h')
      \<and> (suppressed \<longrightarrow> sc_cancel_called (ht_scopes h s)
           \<and> (\<exists>ls. exc = Some ls \<and> ls \<noteq> [] \<and> (\<forall>l \<in> set ls. is_my_cancellation (ht_scopes h s) l))))
    \<and> s \<notin> set (ht_stack h') \<and> sc_timeout_handle (ht_scopes h' s) = None \<and> Deliver s \<notin> set (ht_ready h')
    \<and> (ht_external h' = 0 \<longrightarrow> \<not> pending_message h' (Some (Scoped s t)) \<and> \<not> delayed_message h' (Some (Scoped s t)))"
proof -
  obtain b where e: "at_work h" "scope_exit s exc h = Inr (b, h')"
    using assms(2) by (auto simp: possible_def result_bind_def split: if_splits sum.splits)
  have inv: "host_inv h" using assms(1) by (rule host_inv_reachable)
  from scope_exit_inv [OF this e] have inv': "host_inv h'" .
  note base = base_invD [OF inv' [unfolded host_inv_base, THEN conjunct1]]
  have ok: "scope_ok (ht_stack h) s (ht_scopes h s)" using inv by (rule host_inv_scope)
  have ok': "scope_ok (ht_stack h') s (ht_scopes h' s)" using inv' by (rule host_inv_scope)
  have "s \<in> set (ht_stack h)" using e(2) ok by (auto simp: scope_exit_def scope_ok_def split: if_splits)
  then have "\<not> sc_cancelled_caught (ht_scopes h s)" using ok by (auto simp: scope_ok_def)
  note result = scope_exit_result [OF e(2) this]
  then have s: "s \<notin> set (ht_stack h')" "sc_timeout_handle (ht_scopes h' s) = None" "\<not> sc_cancel_handle (ht_scopes h' s)"
    using ok' by (auto simp: scope_ok_def)
  have "count_list (ht_ready h') (Deliver s) = 0" using base(4) s(3) unfolding handles_ok_def by simp
  then have "Deliver s \<notin> set (ht_ready h')" by (simp add: count_list_0_iff)
  moreover have "\<not> pending_message h' (Some (Scoped s t)) \<and> \<not> delayed_message h' (Some (Scoped s t))"
    if "ht_external h' = 0"
  proof -
    have "sc_cancel_reason (ht_scopes h' s') \<noteq> Some (Scoped s t)" if "s' \<in> set (ht_stack h')" for s'
      using host_inv_scope [OF inv', of s'] that s(1) by (auto simp: scope_ok_def split: if_splits)
    with base(6) [OF that] show ?thesis unfolding live_except_def by metis
  qed
  ultimately show ?thesis using e(2) s result by blast
qed

lemma deliver_reaches_task:
  assumes "ht_wait h \<noteq> Running" and "ht_delayed h = None" and "sc_host_task (ht_scopes h s)"
  shows "ht_must_cancel (deliver_cancellation s h)
    \<or> ht_wait (deliver_cancellation s h) = WaitCancelled (sc_cancel_reason (ht_scopes h s))"
proof (cases "ht_must_cancel h")
  case True
  with assms show ?thesis by (simp add: deliver_cancellation_def Let_def state_defs)
next
  case False
  with assms have "ht_must_cancel (deliver_cancellation s h) = (ht_wait h \<noteq> Waiting)"
    "ht_wait (deliver_cancellation s h)
       = (if ht_wait h = Waiting then WaitCancelled (sc_cancel_reason (ht_scopes h s)) else ht_wait h)"
    by (simp_all add: deliver_cancellation_def Let_def state_defs)
  then show ?thesis by simp
qed

text \<open>
  C17: no cancellation of a scope is forgotten, as long as the task is cancelled by scopes only: while some scope of the task is
  cancelled, the delivery of one of them is among the callbacks of the loop; running it cancels the task if it is suspended and not
  cancelled already.  And a scope that is entered and not cancelled has a timer at its deadline.
\<close>

theorem scope_cancellation_live:
  assumes "scope_reachable h"
  shows "(ht_external h = 0 \<and> (\<exists>s \<in> set (ht_stack h). sc_cancel_called (ht_scopes h s)) \<longrightarrow>
      (\<exists>s \<in> set (ht_stack h). sc_cancel_called (ht_scopes h s) \<and> Deliver s \<in> set (ht_ready h)
         \<and> (ht_wait h \<noteq> Running \<and> ht_delayed h = None \<longrightarrow>
              ht_must_cancel (deliver_cancellation s h)
              \<or> ht_wait (deliver_cancellation s h) = WaitCancelled (sc_cancel_reason (ht_scopes h s)))))
    \<and> (\<forall>s \<in> set (ht_stack h). \<not> sc_cancel_called (ht_scopes h s) \<longrightarrow>
         sc_timeout_handle (ht_scopes h s) = deadline_timer (sc_deadline (ht_scopes h s)))"
proof -
  have inv: "host_inv h" using assms by (rule host_inv_reachable)
  have "\<exists>s \<in> set (ht_stack h). sc_cancel_called (ht_scopes h s) \<and> Deliver s \<in> set (ht_ready h)
         \<and> (ht_wait h \<noteq> Running \<and> ht_delayed h = None \<longrightarrow>
              ht_must_cancel (deliver_cancellation s h)
              \<or> ht_wait (deliver_cancellation s h) = WaitCancelled (sc_cancel_reason (ht_scopes h s)))"
    if "ht_external h = 0" "\<exists>s \<in> set (ht_stack h). sc_cancel_called (ht_scopes h s)"
  proof -
    have "some_handle h" using inv that(1) unfolding host_inv_def by blast
    with that(2) obtain s where s: "s \<in> set (ht_stack h)" "sc_cancel_handle (ht_scopes h s)"
      unfolding some_handle_def by blast
    have ok: "scope_ok (ht_stack h) s (ht_scopes h s)" using inv by (rule host_inv_scope)
    have "handles_ok h" using inv unfolding host_inv_def by blast
    then have "count_list (ht_ready h) (Deliver s) \<noteq> 0" using s(2) unfolding handles_ok_def by simp
    then have "Deliver s \<in> set (ht_ready h)" by (simp add: count_list_0_iff)
    have host: "sc_host_task (ht_scopes h s)" "sc_cancel_called (ht_scopes h s)"
      using ok s unfolding scope_ok_def by blast+
    show ?thesis
    proof (intro bexI [OF _ s(1)] conjI impI)
      assume "ht_wait h \<noteq> Running \<and> ht_delayed h = None"
      then show "ht_must_cancel (deliver_cancellation s h)
          \<or> ht_wait (deliver_cancellation s h) = WaitCancelled (sc_cancel_reason (ht_scopes h s))"
        using deliver_reaches_task [OF _ _ host(1)] by (elim conjE) assumption
    qed (fact host(2), fact)
  qed
  moreover have "sc_timeout_handle (ht_scopes h s) = deadline_timer (sc_deadline (ht_scopes h s))"
    if "s \<in> set (ht_stack h)" "\<not> sc_cancel_called (ht_scopes h s)" for s
    using host_inv_scope [OF inv, of s] that by (simp add: scope_ok_def deadline_timer_def)
  ultimately show ?thesis by blast
qed

lemma scope_run_reachable: "scope_reachable h \<Longrightarrow> scope_run es h = Some (Inr h') \<Longrightarrow> scope_reachable h'"
proof (induction es arbitrary: h)
  case (Cons e es)
  from Cons.prems(2) obtain h1 where "scope_apply e h = Some (Inr h1)" "scope_run es h1 = Some (Inr h')"
    by (auto split: option.splits sum.splits)
  with Cons scope_step show ?case by blast
qed simp

text \<open>
  with a cancellation from outside, a scope can lose its own: the task is cancelled in a shielded wait, the scope is
  cancelled before that cancellation has been sent again, and the task catches the cancellation and goes on inside
  the scope.  Then nothing is left that would cancel the task, though the scope is cancelled and the task suspended in it.
\<close>

definition lost_cancellation_events :: "string \<Rightarrow> string \<Rightarrow> bool \<Rightarrow> scope_event list" where
  "lost_cancellation_events msg reason in_step =
     [Enter 0, Suspend False True, CancelTask msg, RunCallback, EndShield]
     @ (if in_step then [CancelScope 0 reason, Suspend True False] else [Suspend True False, CancelScope 0 reason])
     @ [RunCallback, RunCallback, RunCallback, Suspend True False]"

theorem scope_cancellation_lost:
  "\<exists>h. scope_run (lost_cancellation_events msg reason in_step) (host_init clears) = Some (Inr h)
     \<and> ht_stack h = [0] \<and> sc_cancel_called (ht_scopes h 0) \<and> ht_wait h = Waiting \<and> ht_ready h = []
     \<and> \<not> ht_must_cancel h \<and> \<not> sc_cancel_handle (ht_scopes h 0) \<and> sc_timeout_handle (ht_scopes h 0) = None"
  by (cases in_step)
    (simp_all add: lost_cancellation_events_def host_init_def fresh_scope_def possible_def at_work_def scope_enter_def
      setup_cancellation_by_timeout_def suspend_def task_cancel_def run_callback_def step_task_def thrown_on_resume_def
      end_shield_def reschedule_delayed_task_cancel_def scope_cancel_def deliver_cancellation_def cancel_task_unless_done_def
      task_uncancel_def state_defs Let_def)

section \<open>Witnesses\<close>

text \<open>A task cancelled by its scope while it waits, resumed with the cancellation.\<close>

definition cancelled_events :: "scope_event list" where
  "cancelled_events = [Enter 0, Suspend True False, CancelScope 0 ''x'', RunCallback]"

definition cancelled_host :: host where
  "cancelled_host =
     \<lparr>ht_scopes = (\<lambda>_. fresh_scope)(0 := \<lparr>sc_state = ENTERED, sc_host_task = True, sc_host_task_cancelling = 0,
          sc_host_task_cancel_calls = 1, sc_cancel_called = True, sc_cancel_reason = Some (Scoped 0 ''x''),
          sc_cancelled_caught = False, sc_deadline = Infinity, sc_timeout_handle = None, sc_cancel_handle = True\<rparr>),
      ht_stack = [0], ht_cancelling = 1, ht_must_cancel = False, ht_cancel_message = None, ht_wait = Running,
      ht_shielded = False, ht_absorbed = None, ht_thrown = Some (Some (Scoped 0 ''x'')), ht_delayed = None, ht_next_handle = 0,
      ht_ready = [Deliver 0], ht_time = 0, ht_clears = True, ht_external = 0\<rparr>"

lemmas scope_run_defs =
  host_init_def fresh_scope_def possible_def at_work_def scope_enter_def setup_cancellation_by_timeout_def suspend_def
  task_cancel_def run_callback_def step_task_def thrown_on_resume_def scope_cancel_def deliver_cancellation_def state_defs Let_def

lemma cancelled_host_run: "scope_run cancelled_events (host_init True) = Some (Inr cancelled_host)"
  by (simp add: cancelled_events_def cancelled_host_def scope_run_defs)

lemma cancelled_host_reachable: "scope_reachable cancelled_host"
  using scope_start cancelled_host_run by (rule scope_run_reachable)

theorem scope_cancellation_counter_witness:
  "ht_cancelling cancelled_host
     = ht_external cancelled_host
        + sum_list (map (\<lambda>s. sc_host_task_cancel_calls (ht_scopes cancelled_host s)) (ht_stack cancelled_host))
   \<and> (\<exists>h'. end_shield cancelled_host = Inr h')"
  using scope_cancellation_counter [OF cancelled_host_reachable] by (simp add: cancelled_host_def)

theorem scope_exit_is_final_witness:
  "\<exists>h'. scope_exit 0 (Some [LeafCancelled [Some (Scoped 0 ''x'')]]) cancelled_host = Inr (True, h')
     \<and> 0 \<notin> set (ht_stack h') \<and> Deliver 0 \<notin> set (ht_ready h') \<and> \<not> pending_message h' (Some (Scoped 0 ''x''))"
proof -
  let ?exc = "Some [LeafCancelled [Some (Scoped 0 ''x'')]]"
  obtain h' where e: "scope_exit 0 ?exc cancelled_host = Inr (True, h')" "ht_external h' = 0"
    by (simp add: cancelled_host_def scope_exit_def exit_cancelled_def task_uncancel_def is_my_cancellation_def drop_delayed_def
        check_pending_cancellation_def state_defs Let_def)
  then have "scope_apply (Exit 0 ?exc) cancelled_host = Some (Inr h')"
    by (simp add: possible_def at_work_def result_bind_def) (simp add: cancelled_host_def)
  from scope_exit_is_final [OF cancelled_host_reachable this, of "''x''"] e show ?thesis by auto
qed

theorem scope_cancellation_live_witness:
  "\<exists>s \<in> set (ht_stack cancelled_host). sc_cancel_called (ht_scopes cancelled_host s) \<and> Deliver s \<in> set (ht_ready cancelled_host)"
proof -
  have "ht_external cancelled_host = 0 \<and> (\<exists>s \<in> set (ht_stack cancelled_host). sc_cancel_called (ht_scopes cancelled_host s))"
    by (simp add: cancelled_host_def)
  with scope_cancellation_live [OF cancelled_host_reachable] show ?thesis by blast
qed

end
