(* ===== verification/Tls.thy ===== *)
theory Tls
  imports AsyncTransport
begin

text \<open>
  TLS over an asynchronous transport: \<^verbatim>\<open>src/src/easynetwork/lowlevel/api_async/transports/tls.py\<close>, with
  \<^verbatim>\<open>is_ssl_eof_error\<close> of \<^verbatim>\<open>lowlevel/_utils.py\<close>.

  The engine is the standard library's \<^verbatim>\<open>SSLObject\<close>: it reads and writes the two memory BIOs and
  is a parameter; the BIOs themselves are written out.  The state of a transport holds the engine, the
  BIOs, the backlog of plaintext, and, in \<open>tls_world\<close>, everything else.  While a task awaits, other tasks
  run: an awaited operation may change the whole state, so its type is that of the stream transports over
  the state \<open>('o, 'w) tls\<close>.
\<close>

section \<open>Errors of the ssl module\<close>

text \<open>The classes of \<^verbatim>\<open>ssl\<close>, all derived from \<^verbatim>\<open>SSLError\<close>, itself an \<^verbatim>\<open>OSError\<close>; the second field is \<^verbatim>\<open>strerror\<close>.\<close>

definition ssl_error :: "string \<Rightarrow> exc" where
  "ssl_error strerror = OSError ''SSLError'' strerror"

definition ssl_want_read :: exc where "ssl_want_read = OSError ''SSLWantReadError'' ''''"
definition ssl_want_write :: exc where "ssl_want_write = OSError ''SSLWantWriteError'' ''''"
definition ssl_zero_return :: exc where "ssl_zero_return = OSError ''SSLZeroReturnError'' ''''"
definition ssl_eof :: exc where "ssl_eof = OSError ''SSLEOFError'' ''''"

fun is_SSLError :: "exc \<Rightarrow> bool" where
  "is_SSLError (OSError name _) \<longleftrightarrow>
     name \<in> {''SSLError'', ''SSLWantReadError'', ''SSLWantWriteError'', ''SSLZeroReturnError'', ''SSLEOFError'',
              ''SSLSyscallError'', ''SSLCertVerificationError''}"
| "is_SSLError _ \<longleftrightarrow> False"

fun is_SSLWantReadError :: "exc \<Rightarrow> bool" where
  "is_SSLWantReadError (OSError name _) \<longleftrightarrow> name = ''SSLWantReadError''"
| "is_SSLWantReadError _ \<longleftrightarrow> False"

fun is_SSLWantWriteError :: "exc \<Rightarrow> bool" where
  "is_SSLWantWriteError (OSError name _) \<longleftrightarrow> name = ''SSLWantWriteError''"
| "is_SSLWantWriteError _ \<longleftrightarrow> False"

fun is_SSLZeroReturnError :: "exc \<Rightarrow> bool" where
  "is_SSLZeroReturnError (OSError name _) \<longleftrightarrow> name = ''SSLZeroReturnError''"
| "is_SSLZeroReturnError _ \<longleftrightarrow> False"

fun is_ssl_eof_error :: "exc \<Rightarrow> bool" where
  "is_ssl_eof_error (OSError name strerror) \<longleftrightarrow>
     name = ''SSLEOFError'' \<or> is_SSLError (OSError name strerror) \<and> contains strerror ''UNEXPECTED_EOF_WHILE_READING''"
| "is_ssl_eof_error _ \<longleftrightarrow> False"

section \<open>Memory BIOs\<close>

record bio =
  bio_data :: bytes
  bio_eof :: bool

definition memory_bio :: bio where
  "memory_bio = \<lparr>bio_data = [], bio_eof = False\<rparr>"

definition bio_write :: "bytes \<Rightarrow> bio \<Rightarrow> exc option \<times> bio" where
  "bio_write b q =
     (if bio_eof q then (Some (ssl_error ''cannot write() after write_eof()''), q)
      else (None, q\<lparr>bio_data := bio_data q @ b\<rparr>))"

definition bio_write_eof :: "bio \<Rightarrow> bio" where
  "bio_write_eof q = q\<lparr>bio_eof := True\<rparr>"

text \<open>\<^verbatim>\<open>read()\<close> without a size takes everything.\<close>

definition bio_read :: "bio \<Rightarrow> bytes \<times> bio" where
  "bio_read q = (bio_data q, q\<lparr>bio_data := []\<rparr>)"

section \<open>State and parameters\<close>

record ('o, 'w) tls =
  tls_object :: 'o
  read_bio :: bio
  write_bio :: bio
  data_deque :: "bytes list"
  tls_closing :: bool
  tls_closed :: bool
  reader_buffer :: bool
  tls_world :: 'w

text \<open>
  The methods of an \<^verbatim>\<open>SSLObject\<close> act on the engine and its two BIOs (incoming, outgoing); before
  \<^verbatim>\<open>SSLContext.wrap_bio\<close> the engine is the bare context.  \<open>ssl_read_into\<close> gets the
  size asked for and that of the buffer, and gives the bytes it writes there.
\<close>

type_synonym 'o engine = "'o \<times> bio \<times> bio"

record 'o ssl_object =
  ssl_wrap_bio :: "bool \<Rightarrow> string option \<Rightarrow> 'o engine \<Rightarrow> exc option \<times> 'o engine"
  ssl_do_handshake :: "'o engine \<Rightarrow> (exc + unit) \<times> 'o engine"
  ssl_getpeercert :: "'o engine \<Rightarrow> (exc + unit) \<times> 'o engine"
  ssl_read :: "int \<Rightarrow> 'o engine \<Rightarrow> (exc + bytes) \<times> 'o engine"
  ssl_read_into :: "nat \<Rightarrow> nat \<Rightarrow> 'o engine \<Rightarrow> (exc + bytes) \<times> 'o engine"
  ssl_write :: "bytes \<Rightarrow> 'o engine \<Rightarrow> (exc + nat) \<times> 'o engine"
  ssl_unwrap :: "'o engine \<Rightarrow> (exc + unit) \<times> 'o engine"

text \<open>A lock of the backend, as used by \<^verbatim>\<open>async with\<close>; waiting for it may be cancelled.\<close>

record 's async_lock =
  al_acquire :: "'s \<Rightarrow> exc option \<times> 's"
  al_release :: "'s \<Rightarrow> 's"

definition holding :: "'s async_lock \<Rightarrow> ('s \<Rightarrow> exc option \<times> 's) \<Rightarrow> 's \<Rightarrow> exc option \<times> 's" where
  "holding L body s =
     (case al_acquire L s of
        (Some e, s1) \<Rightarrow> (Some e, s1)
      | (None, s1) \<Rightarrow> (case body s1 of (res, s2) \<Rightarrow> (res, al_release L s2)))"

text \<open>The same with a body that may wait for ever, \<open>None\<close>; the lock is then never released.\<close>

definition holding_wait :: "'s async_lock \<Rightarrow> ('s \<Rightarrow> (exc option \<times> 's) option) \<Rightarrow> 's \<Rightarrow> (exc option \<times> 's) option" where
  "holding_wait L body s =
     (case al_acquire L s of
        (Some e, s1) \<Rightarrow> Some (Some e, s1)
      | (None, s1) \<Rightarrow> map_option (\<lambda>(res, s2). (res, al_release L s2)) (body s1))"

text \<open>
  \<open>te_recv_into\<close> is \<^verbatim>\<open>recv_into\<close> of the transport below with a buffer of the size given: the bytes it wrote there.  It is
  \<open>None\<close> where the call never returns: the peer is silent, keeps the connection open, and nothing cancels the task.
\<close>

record ('a, 'o, 'w) tls_env =
  te_transport :: "('a, ('o, 'w) tls) stream_transport"
  te_recv_into :: "nat \<Rightarrow> ('o, 'w) tls \<Rightarrow> ((exc + bytes) \<times> ('o, 'w) tls) option"
  te_backend :: "('o, 'w) tls backend"
  te_send_lock :: "('o, 'w) tls async_lock"
  te_recv_lock :: "('o, 'w) tls async_lock"
  te_ssl :: "'o ssl_object"
  te_standard_compatible :: bool
  te_shutdown_timeout :: delay
  te_closed_wait :: "('o, 'w) tls \<Rightarrow> exc option \<times> ('o, 'w) tls"

definition run_engine :: "('o engine \<Rightarrow> 'r \<times> 'o engine) \<Rightarrow> ('o, 'w) tls \<Rightarrow> 'r \<times> ('o, 'w) tls" where
  "run_engine m s =
     (case m (tls_object s, read_bio s, write_bio s) of
        (r, (obj, rb, wb)) \<Rightarrow> (r, s\<lparr>tls_object := obj, read_bio := rb, write_bio := wb\<rparr>))"

definition write_eof_both :: "('o, 'w) tls \<Rightarrow> ('o, 'w) tls" where
  "write_eof_both s = s\<lparr>read_bio := bio_write_eof (read_bio s), write_bio := bio_write_eof (write_bio s)\<rparr>"

definition bios_at_eof :: "('o, 'w) tls \<Rightarrow> bool" where
  "bios_at_eof s \<longleftrightarrow> bio_eof (read_bio s) \<and> bio_eof (write_bio s)"

section \<open>Moving ciphertext\<close>

definition incoming_max_size :: nat where
  "incoming_max_size = 256 * 1024"

text \<open>\<^verbatim>\<open>_IncomingDataReader.readinto\<close>; after \<^verbatim>\<open>close\<close> its view is released.\<close>

definition readinto :: "('a, 'o, 'w) tls_env \<Rightarrow> ('o, 'w) tls \<Rightarrow> (exc option \<times> ('o, 'w) tls) option" where
  "readinto E s =
     (if \<not> reader_buffer s then Some (Some (ValueError ''operation forbidden on released memoryview object''), s)
      else (case te_recv_into E incoming_max_size s of
        None \<Rightarrow> None
      | Some (Inl e, s1) \<Rightarrow> Some (Some e, s1)
      | Some (Inr b, s1) \<Rightarrow> Some
          (if b \<noteq> []
           then if \<not> reader_buffer s1 then (Some (ValueError ''operation forbidden on released memoryview object''), s1)
                else (case bio_write b (read_bio s1) of (res, q) \<Rightarrow> (res, s1\<lparr>read_bio := q\<rparr>))
           else (None, s1\<lparr>read_bio := bio_write_eof (read_bio s1)\<rparr>))))"

definition send_write_bio :: "('a, 'o, 'w) tls_env \<Rightarrow> ('o, 'w) tls \<Rightarrow> exc option \<times> ('o, 'w) tls" where
  "send_write_bio E s =
     (case bio_read (write_bio s) of
        (b, q) \<Rightarrow> st_send_all (te_transport E) b (s\<lparr>write_bio := q\<rparr>))"

definition send_pending :: "('a, 'o, 'w) tls_env \<Rightarrow> ('o, 'w) tls \<Rightarrow> exc option \<times> ('o, 'w) tls" where
  "send_pending E s = (if bio_data (write_bio s) \<noteq> [] then send_write_bio E s else (None, s))"

text \<open>The clause for \<^verbatim>\<open>SSLWantReadError\<close>: send what is pending, then wait for more of what the peer sends.\<close>

definition want_read :: "('a, 'o, 'w) tls_env \<Rightarrow> ('o, 'w) tls \<Rightarrow> (exc option \<times> ('o, 'w) tls) option" where
  "want_read E s =
     (case (case holding (te_send_lock E) (send_pending E) s of
              (Some e, s1) \<Rightarrow> Some (Some e, s1)
            | (None, s1) \<Rightarrow> holding_wait (te_recv_lock E) (readinto E) s1) of
        None \<Rightarrow> None
      | Some (Some e, s2) \<Rightarrow> Some (Some e, if is_OSError e then write_eof_both s2 else s2)
      | Some (None, s2) \<Rightarrow> Some (None, s2))"

section \<open>\_retry\_ssl\_method\<close>

partial_function (option) retry_ssl_method ::
  "('a, 'o, 'w) tls_env \<Rightarrow> (('o, 'w) tls \<Rightarrow> ((exc + 'r) \<times> ('o, 'w) tls) option) \<Rightarrow> ('o, 'w) tls
    \<Rightarrow> ((exc + 'r) \<times> ('o, 'w) tls) option"
where
  "retry_ssl_method E m s =
     (case m s of
        None \<Rightarrow> None
      | Some (Inr result, s1) \<Rightarrow>
          (case holding (te_send_lock E) (send_pending E) s1 of
             (None, s2) \<Rightarrow> Some (Inr result, s2)
           | (Some e, s2) \<Rightarrow> Some (Inl e, s2))
      | Some (Inl e, s1) \<Rightarrow>
          if is_SSLWantReadError e then
            (case want_read E s1 of
               None \<Rightarrow> None
             | Some (None, s2) \<Rightarrow> retry_ssl_method E m s2
             | Some (Some e', s2) \<Rightarrow> Some (Inl e', s2))
          else if is_SSLWantWriteError e then
            (case holding (te_send_lock E) (send_write_bio E) s1 of
               (None, s2) \<Rightarrow> retry_ssl_method E m s2
             | (Some e', s2) \<Rightarrow> Some (Inl e', s2))
          else if is_SSLError e then Some (Inl e, write_eof_both s1)
          else Some (Inl e, s1))"

text \<open>A method of the engine as an argument of the loop.\<close>

definition engine_method ::
  "('o engine \<Rightarrow> (exc + 'r) \<times> 'o engine) \<Rightarrow> ('o, 'w) tls \<Rightarrow> ((exc + 'r) \<times> ('o, 'w) tls) option"
where
  "engine_method m s = Some (run_engine m s)"

section \<open>Receiving\<close>

definition tls_recv_outcome :: "bool \<Rightarrow> 'r \<Rightarrow> exc + 'r \<Rightarrow> exc + 'r" where
  "tls_recv_outcome standard_compatible nothing res =
     (case res of
        Inr r \<Rightarrow> Inr r
      | Inl e \<Rightarrow>
          if is_SSLZeroReturnError e then Inr nothing
          else if is_SSLError e \<and> is_ssl_eof_error e \<and> \<not> standard_compatible then Inr nothing
          else Inl e)"

definition tls_recv ::
  "('a, 'o, 'w) tls_env \<Rightarrow> int \<Rightarrow> ('o, 'w) tls \<Rightarrow> ((exc + bytes) \<times> ('o, 'w) tls) option"
where
  "tls_recv E bufsize s =
     (case retry_ssl_method E (engine_method (ssl_read (te_ssl E) bufsize)) s of
        None \<Rightarrow> None
      | Some (res, s') \<Rightarrow> Some (tls_recv_outcome (te_standard_compatible E) [] res, s'))"

text \<open>\<^verbatim>\<open>recv_into\<close> with a buffer of \<open>cap\<close> bytes: the bytes written to it; their number is what the source returns.\<close>

definition tls_recv_into ::
  "('a, 'o, 'w) tls_env \<Rightarrow> nat \<Rightarrow> ('o, 'w) tls \<Rightarrow> ((exc + bytes) \<times> ('o, 'w) tls) option"
where
  "tls_recv_into E cap s =
     (let nbytes = (if cap \<noteq> 0 then cap else 1024) in
      case retry_ssl_method E (engine_method (ssl_read_into (te_ssl E) nbytes cap)) s of
        None \<Rightarrow> None
      | Some (res, s') \<Rightarrow> Some (tls_recv_outcome (te_standard_compatible E) [] res, s'))"

section \<open>Sending\<close>

text \<open>\<^verbatim>\<open>__write_all_to_ssl_object\<close>; it does not end if the engine takes nothing of some data.\<close>

partial_function (option) write_all_to_ssl_object ::
  "'o ssl_object \<Rightarrow> ('o, 'w) tls \<Rightarrow> ((exc + unit) \<times> ('o, 'w) tls) option"
where
  "write_all_to_ssl_object S s =
     (case data_deque s of
        [] \<Rightarrow> Some (Inr (), s)
      | data # rest \<Rightarrow>
          (case run_engine (ssl_write S data) s of
             (Inl e, s1) \<Rightarrow> Some (Inl e, s1)
           | (Inr sent, s1) \<Rightarrow>
               write_all_to_ssl_object S
                 (if sent < length data then s1\<lparr>data_deque := drop sent data # rest\<rparr>
                  else s1\<lparr>data_deque := rest\<rparr>)))"

definition flush_data_to_send ::
  "('a, 'o, 'w) tls_env \<Rightarrow> ('o, 'w) tls \<Rightarrow> (exc option \<times> ('o, 'w) tls) option"
where
  "flush_data_to_send E s =
     (case retry_ssl_method E (write_all_to_ssl_object (te_ssl E)) s of
        None \<Rightarrow> None
      | Some (Inr _, s') \<Rightarrow> Some (None, s')
      | Some (Inl e, s') \<Rightarrow>
          Some (Some (if is_SSLZeroReturnError e then error_from_errno ''ECONNRESET'' else e), s'))"

definition tls_send_all ::
  "('a, 'o, 'w) tls_env \<Rightarrow> bytes \<Rightarrow> ('o, 'w) tls \<Rightarrow> (exc option \<times> ('o, 'w) tls) option"
where
  "tls_send_all E data s =
     (if tls_closing s then Some (Some (error_from_errno ''ECONNABORTED''), s)
      else flush_data_to_send E (s\<lparr>data_deque := data_deque s @ [data]\<rparr>))"

text \<open>The iterable may raise; \<^verbatim>\<open>deque.extend\<close> has appended what came before.\<close>

definition tls_send_all_from_iterable ::
  "('a, 'o, 'w) tls_env \<Rightarrow> chunks \<Rightarrow> ('o, 'w) tls \<Rightarrow> (exc option \<times> ('o, 'w) tls) option"
where
  "tls_send_all_from_iterable E cs s =
     (if tls_closing s then Some (Some (error_from_errno ''ECONNABORTED''), s)
      else let s1 = s\<lparr>data_deque := data_deque s @ fst cs\<rparr> in
        (case snd cs of
           Some e \<Rightarrow> Some (Some e, s1)
         | None \<Rightarrow> flush_data_to_send E s1))"

definition tls_send_eof :: "('o, 'w) tls \<Rightarrow> exc option \<times> ('o, 'w) tls" where
  "tls_send_eof s = (Some (UnsupportedOperation ''SSL/TLS API does not support sending EOF.''), s)"

section \<open>Closing\<close>

text \<open>The \<^verbatim>\<open>try\<close> block of \<^verbatim>\<open>aclose\<close>: the closing handshake, whose operating system errors are ignored.\<close>

definition tls_shutdown ::
  "('a, 'o, 'w) tls_env \<Rightarrow> ('o, 'w) tls \<Rightarrow> (exc option \<times> ('o, 'w) tls) option"
where
  "tls_shutdown E s =
     (case retry_ssl_method E (engine_method (ssl_unwrap (te_ssl E))) s of
        None \<Rightarrow> None
      | Some (res, s1) \<Rightarrow>
          (case error_of res of
             Some e \<Rightarrow>
               if is_OSError e then Some (None, write_eof_both s1)
               else (case aclose_forcefully (te_backend E) (st_aclose (te_transport E)) s1 of
                       (None, s2) \<Rightarrow> Some (Some e, s2)
                     | (Some e', s2) \<Rightarrow> Some (Some e', s2))
           | None \<Rightarrow> Some (None, write_eof_both s1)))"

definition tls_close_transport ::
  "('a, 'o, 'w) tls_env \<Rightarrow> ('o, 'w) tls \<Rightarrow> (exc option \<times> ('o, 'w) tls) option"
where
  "tls_close_transport E s =
     (if te_standard_compatible E \<and> \<not> st_is_closing (te_transport E) s then
        (case tls_shutdown E (be_enter (te_backend E) (te_shutdown_timeout E) s) of
           None \<Rightarrow> None
         | Some (res, s1) \<Rightarrow>
             (case be_exit (te_backend E) res s1 of
                ((suppressed, caught), s2) \<Rightarrow>
                  if res \<noteq> None \<and> \<not> suppressed then Some (res, s2)
                  else if caught then Some (None, s2)
                  else Some (st_aclose (te_transport E) s2)))
      else Some (st_aclose (te_transport E) s))"

text \<open>The exit stack: clear the backlog, release the reader's buffer, set the event.\<close>

definition tls_closing_callbacks :: "('o, 'w) tls \<Rightarrow> ('o, 'w) tls" where
  "tls_closing_callbacks s = s\<lparr>data_deque := [], reader_buffer := False, tls_closed := True\<rparr>"

definition tls_aclose ::
  "('a, 'o, 'w) tls_env \<Rightarrow> ('o, 'w) tls \<Rightarrow> (exc option \<times> ('o, 'w) tls) option"
where
  "tls_aclose E s =
     (if tls_closing s then Some (te_closed_wait E s)
      else case tls_close_transport E (s\<lparr>tls_closing := True\<rparr>) of
        None \<Rightarrow> None
      | Some (res, s') \<Rightarrow> Some (res, tls_closing_callbacks s'))"

section \<open>wrap\<close>

definition tls_server_side :: "bool option \<Rightarrow> string option \<Rightarrow> bool" where
  "tls_server_side server_side hostname =
     (case server_side of Some b \<Rightarrow> b | None \<Rightarrow> hostname = None \<or> hostname = Some [])"

definition ssl_handshake_timeout :: delay where "ssl_handshake_timeout = Finite 60"
definition ssl_shutdown_timeout :: delay where "ssl_shutdown_timeout = Finite 30"

definition timeout_or :: "delay \<Rightarrow> delay option \<Rightarrow> delay" where
  "timeout_or dflt t = (case t of None \<Rightarrow> dflt | Some d \<Rightarrow> d)"

definition tls_init :: "'o \<Rightarrow> 'w \<Rightarrow> ('o, 'w) tls" where
  "tls_init context w =
     \<lparr>tls_object = context, read_bio = memory_bio, write_bio = memory_bio, data_deque = [], tls_closing = False,
      tls_closed = False, reader_buffer = True, tls_world = w\<rparr>"

definition tls_handshake ::
  "('a, 'o, 'w) tls_env \<Rightarrow> delay \<Rightarrow> ('o, 'w) tls \<Rightarrow> (exc option \<times> ('o, 'w) tls) option"
where
  "tls_handshake E handshake_timeout s =
     (case within_timeout (te_backend E) handshake_timeout
             (\<lambda>s. map_option (\<lambda>(res, s'). (res, (), s')) (retry_ssl_method E (engine_method (ssl_do_handshake (te_ssl E))) s))
             s of
        None \<Rightarrow> None
      | Some (Inl e, _, s1) \<Rightarrow> Some (Some e, s1)
      | Some (Inr _, _, s1) \<Rightarrow> (case run_engine (ssl_getpeercert (te_ssl E)) s1 of (res, s2) \<Rightarrow> Some (error_of res, s2)))"

definition tls_wrap ::
  "('a, 'o, 'w) tls_env \<Rightarrow> bool option \<Rightarrow> string option \<Rightarrow> delay option \<Rightarrow> ('o, 'w) tls
    \<Rightarrow> (exc option \<times> ('o, 'w) tls) option"
where
  "tls_wrap E server_side hostname handshake_timeout s =
     (case run_engine (ssl_wrap_bio (te_ssl E) (tls_server_side server_side hostname) hostname) s of
        (Some e, s1) \<Rightarrow> Some (Some e, s1)
      | (None, s1) \<Rightarrow>
          (case tls_handshake E (timeout_or ssl_handshake_timeout handshake_timeout) s1 of
             None \<Rightarrow> None
           | Some (None, s2) \<Rightarrow> Some (None, s2)
           | Some (Some e, s2) \<Rightarrow>
               (case aclose_forcefully (te_backend E) (st_aclose (te_transport E)) (s2\<lparr>tls_closing := True\<rparr>) of
                  (None, s3) \<Rightarrow> Some (Some e, s3)
                | (Some e', s3) \<Rightarrow> Some (Some e', s3))))"

section \<open>The listener\<close>

text \<open>
  \<^verbatim>\<open>tls_handler_wrapper\<close> of \<^verbatim>\<open>AsyncTLSListener.serve\<close>: what is raised, what is logged and the state at the end.
\<close>

definition tls_handshake_failed ::
  "(exc \<Rightarrow> ('o, 'w) tls \<Rightarrow> exc option \<times> ('o, 'w) tls) option \<Rightarrow> exc \<Rightarrow> ('o, 'w) tls
    \<Rightarrow> exc option \<times> exc list \<times> ('o, 'w) tls"
where
  "tls_handshake_failed error_handler e s =
     (case error_handler of
        None \<Rightarrow> (None, [e], s)
      | Some h \<Rightarrow>
          (case h e s of
             (None, s') \<Rightarrow> (None, [], s')
           | (Some e', s') \<Rightarrow> if is_Exception e' then (None, [e'], s') else (Some e', [], s')))"

definition tls_handler_wrapper ::
  "('a, 'o, 'w) tls_env \<Rightarrow> delay option \<Rightarrow> (exc \<Rightarrow> ('o, 'w) tls \<Rightarrow> exc option \<times> ('o, 'w) tls) option
    \<Rightarrow> (('o, 'w) tls \<Rightarrow> (exc option \<times> ('o, 'w) tls) option) \<Rightarrow> ('o, 'w) tls
    \<Rightarrow> (exc option \<times> exc list \<times> ('o, 'w) tls) option"
where
  "tls_handler_wrapper E handshake_timeout error_handler client_handler s =
     (case tls_wrap E (Some True) None handshake_timeout s of
        None \<Rightarrow> None
      | Some (None, s1) \<Rightarrow> map_option (\<lambda>(res, s2). (res, [], s2)) (client_handler s1)
      | Some (Some e, s1) \<Rightarrow>
          (case aclose_forcefully (te_backend E) (st_aclose (te_transport E)) s1 of
             (Some e', s2) \<Rightarrow> Some (Some e', [], s2)
           | (None, s2) \<Rightarrow>
               if \<not> is_Exception e then Some (Some e, [], s2)
               else Some (tls_handshake_failed error_handler e s2)))"

section \<open>What happens while a task awaits\<close>

text \<open>
  \<open>await_relation R E\<close>: the awaited operations only do what \<open>R\<close> allows, and \<open>R\<close> is a preorder that looks at
  nothing of the BIOs but that an end of file stays.  Then the loop does what \<open>R\<close> allows whenever the method it runs
  does.
\<close>

definition await_relation :: "(('o, 'w) tls \<Rightarrow> ('o, 'w) tls \<Rightarrow> bool) \<Rightarrow> ('a, 'o, 'w) tls_env \<Rightarrow> bool" where
  "await_relation R E \<longleftrightarrow>
     (\<forall>s. R s s) \<and> (\<forall>s t u. R s t \<longrightarrow> R t u \<longrightarrow> R s u) \<and>
     (\<forall>s q r. (bio_eof (read_bio s) \<longrightarrow> bio_eof q) \<longrightarrow> (bio_eof (write_bio s) \<longrightarrow> bio_eof r) \<longrightarrow>
        R s (s\<lparr>read_bio := q, write_bio := r\<rparr>)) \<and>
     (\<forall>s. R s (snd (al_acquire (te_send_lock E) s))) \<and> (\<forall>s. R s (al_release (te_send_lock E) s)) \<and>
     (\<forall>s. R s (snd (al_acquire (te_recv_lock E) s))) \<and> (\<forall>s. R s (al_release (te_recv_lock E) s)) \<and>
     (\<forall>b s. R s (snd (st_send_all (te_transport E) b s))) \<and>
     (\<forall>n s res s'. te_recv_into E n s = Some (res, s') \<longrightarrow> R s s')"

lemma await_relationD:
  assumes "await_relation R E"
  shows "R s s" and "R s t \<Longrightarrow> R t u \<Longrightarrow> R s u"
    and "R s (write_eof_both s)" and "(bio_eof (read_bio s) \<Longrightarrow> bio_eof q) \<Longrightarrow> R s (s\<lparr>read_bio := q\<rparr>)"
    and "(bio_eof (write_bio s) \<Longrightarrow> bio_eof r) \<Longrightarrow> R s (s\<lparr>write_bio := r\<rparr>)"
    and "R s (snd (al_acquire (te_send_lock E) s))" and "R s (al_release (te_send_lock E) s)"
    and "R s (snd (al_acquire (te_recv_lock E) s))" and "R s (al_release (te_recv_lock E) s)"
    and "R s (snd (st_send_all (te_transport E) b s))" and "te_recv_into E n s = Some (res, s') \<Longrightarrow> R s s'"
proof -
  have bios: "(bio_eof (read_bio s) \<longrightarrow> bio_eof q) \<Longrightarrow> (bio_eof (write_bio s) \<longrightarrow> bio_eof r) \<Longrightarrow>
      R s (s\<lparr>read_bio := q, write_bio := r\<rparr>)" for s q r
    using assms by (simp add: await_relation_def)
  from bios [where s = s and q = q and r = "write_bio s"] show "(bio_eof (read_bio s) \<Longrightarrow> bio_eof q) \<Longrightarrow> R s (s\<lparr>read_bio := q\<rparr>)"
    by simp
  from bios [where s = s and q = "read_bio s" and r = r] show "(bio_eof (write_bio s) \<Longrightarrow> bio_eof r) \<Longrightarrow> R s (s\<lparr>write_bio := r\<rparr>)"
    by simp
  show "R s (write_eof_both s)"
    unfolding write_eof_both_def by (rule bios) (simp_all add: bio_write_eof_def)
qed (use assms in \<open>unfold await_relation_def, blast+\<close>)

lemma holding_within:
  assumes "\<And>s. R s s" and trans: "\<And>s t u. R s t \<Longrightarrow> R t u \<Longrightarrow> R s u"
    and acquire: "\<And>s. R s (snd (al_acquire L s))" and release: "\<And>s. R s (al_release L s)" and body: "\<And>s. R s (snd (body s))"
  shows "R s (snd (holding L body s))"
proof -
  obtain res s1 where 1: "al_acquire L s = (res, s1)" by fastforce
  obtain res' s2 where 2: "body s1 = (res', s2)" by fastforce
  have "R s s1" "R s1 s2" "R s2 (al_release L s2)"
    using acquire [of s] body [of s1] release 1 2 by auto
  then have "R s s1" "R s (al_release L s2)" by (blast intro: trans)+
  with 1 2 show ?thesis by (simp add: holding_def split: option.split)
qed

lemma holding_wait_within:
  assumes trans: "\<And>s t u. R s t \<Longrightarrow> R t u \<Longrightarrow> R s u"
    and acquire: "\<And>s. R s (snd (al_acquire L s))" and release: "\<And>s. R s (al_release L s)"
    and body: "\<And>s res s'. body s = Some (res, s') \<Longrightarrow> R s s'"
    and run: "holding_wait L body s = Some (res, s')"
  shows "R s s'"
proof -
  obtain r s1 where 1: "al_acquire L s = (r, s1)" by fastforce
  then have first: "R s s1" using acquire [of s] by simp
  show ?thesis
  proof (cases r)
    case None
    with run 1 obtain s2 where "body s1 = Some (res, s2)" and s': "s' = al_release L s2"
      by (auto simp: holding_wait_def)
    then have "R s1 s2" by (intro body)
    with first have "R s s2" by (rule trans)
    then show ?thesis unfolding s' using release by (rule trans)
  next
    case (Some e)
    with run 1 first show ?thesis by (simp add: holding_wait_def)
  qed
qed

lemma send_write_bio_within:
  assumes "await_relation R E"
  shows "R s (snd (send_write_bio E s))"
proof -
  note R = await_relationD [OF assms]
  let ?s = "s\<lparr>write_bio := (write_bio s)\<lparr>bio_data := []\<rparr>\<rparr>"
  have "R s ?s" by (rule R(5)) simp
  moreover have "R ?s (snd (st_send_all (te_transport E) (bio_data (write_bio s)) ?s))" by (rule R(10))
  ultimately show ?thesis by (simp add: send_write_bio_def bio_read_def R(2))
qed

lemma send_pending_within: "await_relation R E \<Longrightarrow> R s (snd (send_pending E s))"
  by (simp add: send_pending_def send_write_bio_within await_relationD(1))

lemma readinto_within:
  assumes "await_relation R E"
  assumes run: "readinto E s = Some (r', s')"
  shows "R s s'"
proof (cases "reader_buffer s")
  case False
  with run await_relationD(1) [OF assms(1)] show ?thesis by (simp add: readinto_def)
next
  case True
  note R = await_relationD [OF assms(1)]
  obtain res s1 where 1: "te_recv_into E incoming_max_size s = Some (res, s1)"
    using run True by (auto simp: readinto_def split: option.splits)
  then have "R s s1" by (rule R(11))
  have *: "R s (s1\<lparr>read_bio := q\<rparr>)" if "bio_eof (read_bio s1) \<Longrightarrow> bio_eof q" for q
    using \<open>R s s1\<close> R(4) [OF that] by (rule R(2))
  show ?thesis
  proof (cases res)
    case (Inl e)
    with 1 \<open>R s s1\<close> run True show ?thesis by (simp add: readinto_def)
  next
    case (Inr b)
    obtain r q where w: "bio_write b (read_bio s1) = (r, q)" by fastforce
    then have "bio_eof (read_bio s1) \<Longrightarrow> bio_eof q" by (auto simp: bio_write_def split: if_splits)
    from * [OF this] * [of "bio_write_eof (read_bio s1)"] have
      "R s (s1\<lparr>read_bio := q\<rparr>)" "R s (s1\<lparr>read_bio := bio_write_eof (read_bio s1)\<rparr>)"
      by (simp_all add: bio_write_eof_def)
    with 1 Inr w \<open>R s s1\<close> run True show ?thesis by (auto simp: readinto_def split: if_splits)
  qed
qed

lemma locked_sends_within:
  assumes "await_relation R E"
  shows "R s (snd (holding (te_send_lock E) (send_pending E) s))"
    and "R s (snd (holding (te_send_lock E) (send_write_bio E) s))"
    and "holding_wait (te_recv_lock E) (readinto E) s = Some (res, s') \<Longrightarrow> R s s'"
proof -
  note R = await_relationD [OF assms]
  note within = send_pending_within [OF assms] send_write_bio_within [OF assms] readinto_within [OF assms]
  show "R s (snd (holding (te_send_lock E) (send_pending E) s))"
    by (rule holding_within [of R]) (blast intro: R within)+
  show "R s (snd (holding (te_send_lock E) (send_write_bio E) s))"
    by (rule holding_within [of R]) (blast intro: R within)+
  show "R s s'" if "holding_wait (te_recv_lock E) (readinto E) s = Some (res, s')"
    by (rule holding_wait_within [of R, OF _ _ _ _ that]) (blast intro: R within)+
qed

lemmas write_eof_both_within = await_relationD(3)

lemma want_read_within:
  assumes "await_relation R E"
  assumes run: "want_read E s = Some (r, s')"
  shows "R s s'"
proof -
  note R = await_relationD [OF assms(1)]
  obtain res s1 where 1: "holding (te_send_lock E) (send_pending E) s = (res, s1)" by fastforce
  then have "R s s1" using locked_sends_within(1) [OF assms(1), of s] by simp
  then have *: "R s s1" "R s (write_eof_both s1)" by (blast intro: R(2) write_eof_both_within [OF assms(1)])+
  show ?thesis
  proof (cases res)
    case None
    with 1 run obtain res' s2 where 2: "holding_wait (te_recv_lock E) (readinto E) s1 = Some (res', s2)"
      by (auto simp: want_read_def split: option.splits)
    then have "R s1 s2" by (rule locked_sends_within(3) [OF assms(1)])
    with \<open>R s s1\<close> have "R s s2" "R s (write_eof_both s2)"
      by (blast intro: R(2) write_eof_both_within [OF assms(1)])+
    with None 1 2 run show ?thesis by (cases res') (auto simp: want_read_def split: if_splits)
  next
    case (Some e)
    with 1 * run show ?thesis by (auto simp: want_read_def split: if_splits)
  qed
qed


text \<open>
  The loop: it ends after a last run of the method, whose result it returns or after whose error it gives up.
\<close>

abbreviation retry_body ::
  "('a, 'o, 'w) tls_env \<Rightarrow> (('o, 'w) tls \<Rightarrow> ((exc + 'r) \<times> ('o, 'w) tls) option)
    \<Rightarrow> (('o, 'w) tls \<Rightarrow> ((exc + 'r) \<times> ('o, 'w) tls) option) \<Rightarrow> ('o, 'w) tls \<Rightarrow> ((exc + 'r) \<times> ('o, 'w) tls) option"
where
  "retry_body E m rec s \<equiv>
     (case m s of
        None \<Rightarrow> None
      | Some (Inr result, s1) \<Rightarrow>
          (case holding (te_send_lock E) (send_pending E) s1 of
             (None, s2) \<Rightarrow> Some (Inr result, s2)
           | (Some e, s2) \<Rightarrow> Some (Inl e, s2))
      | Some (Inl e, s1) \<Rightarrow>
          if is_SSLWantReadError e then
            (case want_read E s1 of
               None \<Rightarrow> None
             | Some (None, s2) \<Rightarrow> rec s2
             | Some (Some e', s2) \<Rightarrow> Some (Inl e', s2))
          else if is_SSLWantWriteError e then
            (case holding (te_send_lock E) (send_write_bio E) s1 of
               (None, s2) \<Rightarrow> rec s2
             | (Some e', s2) \<Rightarrow> Some (Inl e', s2))
          else if is_SSLError e then Some (Inl e, write_eof_both s1)
          else Some (Inl e, s1))"

lemma retry_induct [consumes 1, case_names step]:
  assumes "retry_ssl_method E m s = Some y"
    and step: "\<And>rec s y. (\<And>s y. rec s = Some y \<Longrightarrow> P s y) \<Longrightarrow> retry_body E m rec s = Some y \<Longrightarrow> P s y"
  shows "P s y"
proof -
  have "E = E \<longrightarrow> m = m \<longrightarrow> P s y"
  proof (rule retry_ssl_method.raw_induct [where P = "\<lambda>E' m' s y. E' = E \<longrightarrow> m' = m \<longrightarrow> P s y", OF _ assms(1)], intro impI)
    fix rec E' m' s y
    assume 1: "\<And>E' m' s y. rec E' m' s = Some y \<Longrightarrow> E' = E \<longrightarrow> m' = m \<longrightarrow> P s y" and eq: "E' = E" "m' = m"
      and 2: "retry_body E' m' (rec E' m') s = Some y"
    show "P s y"
    proof (rule step [of "rec E m"])
      show "P s y" if "rec E m s = Some y" for s y using 1 [OF that] by blast
      show "retry_body E m (rec E m) s = Some y" using 2 by (simp only: eq)
    qed
  qed
  then show ?thesis by simp
qed

definition loop_within ::
  "(('o, 'w) tls \<Rightarrow> ('o, 'w) tls \<Rightarrow> bool) \<Rightarrow> (('o, 'w) tls \<Rightarrow> ((exc + 'r) \<times> ('o, 'w) tls) option) \<Rightarrow> ('o, 'w) tls
    \<Rightarrow> (exc + 'r) \<times> ('o, 'w) tls \<Rightarrow> bool"
where
  "loop_within R m s y \<longleftrightarrow>
     R s (snd y) \<and> (\<forall>r. fst y = Inr r \<longrightarrow> (\<exists>s1 s2. R s s1 \<and> m s1 = Some (Inr r, s2) \<and> R s2 (snd y)))"

lemma loop_within_trans: "transp R \<Longrightarrow> R s t \<Longrightarrow> loop_within R m t y \<Longrightarrow> loop_within R m s y"
  unfolding loop_within_def by (meson transpE)

lemma loop_within_error: "R s t \<Longrightarrow> loop_within R m s (Inl e, t)"
  by (simp add: loop_within_def)

lemma retry_within:
  assumes "await_relation R E" and m: "\<And>s r s'. m s = Some (r, s') \<Longrightarrow> R s s'"
    and "retry_ssl_method E m s = Some y"
  shows "loop_within R m s y"
  using assms(3)
proof (induction rule: retry_induct)
  case (step rec s y)
  note R = await_relationD [OF assms(1)]
  have trans: "transp R" using R(2) by (auto intro: transpI)
  note within = locked_sends_within [OF assms(1)] want_read_within [OF assms(1)] write_eof_both_within [OF assms(1)]
  from step(2) obtain r s1 where run: "m s = Some (r, s1)" by (cases "m s") auto
  with m have 1: "R s s1" by blast
  show ?case
  proof (cases r)
    case (Inr result)
    obtain res s2 where f: "holding (te_send_lock E) (send_pending E) s1 = (res, s2)" by fastforce
    with within(1) [of s1] have 2: "R s1 s2" by simp
    then have "R s s2" using 1 by (rule R(2) [rotated])
    with 1 2 R(1) [of s] run Inr f step(2) show ?thesis by (cases res) (auto simp: loop_within_def)
  next
    case (Inl e)
    consider "is_SSLWantReadError e" | "\<not> is_SSLWantReadError e" "is_SSLWantWriteError e"
      | "\<not> is_SSLWantReadError e" "\<not> is_SSLWantWriteError e" by blast
    then show ?thesis
    proof cases
      case 1
      obtain res s2 where f: "want_read E s1 = Some (res, s2)"
        using step(2) run Inl 1 by (cases "want_read E s1") auto
      then have "R s1 s2" by (rule within(4))
      with \<open>R s s1\<close> have 2: "R s s2" by (rule R(2))
      show ?thesis
      proof (cases res)
        case None
        with step(2) run Inl 1 f have "rec s2 = Some y" by simp
        from loop_within_trans [OF trans 2 step(1) [OF this]] show ?thesis .
      next
        case (Some e')
        with step(2) run Inl 1 f have "y = (Inl e', s2)" by simp
        with 2 show ?thesis by (simp add: loop_within_error)
      qed
    next
      case 2
      obtain res s2 where f: "holding (te_send_lock E) (send_write_bio E) s1 = (res, s2)" by fastforce
      with within(2) [of s1] have "R s1 s2" by simp
      with \<open>R s s1\<close> have 3: "R s s2" by (rule R(2))
      show ?thesis
      proof (cases res)
        case None
        with step(2) run Inl 2 f have "rec s2 = Some y" by simp
        from loop_within_trans [OF trans 3 step(1) [OF this]] show ?thesis .
      next
        case (Some e')
        with step(2) run Inl 2 f have "y = (Inl e', s2)" by simp
        with 3 show ?thesis by (simp add: loop_within_error)
      qed
    next
      case 3
      have "R s (write_eof_both s1)" using 1 within(5) by (rule R(2))
      with 1 3 step(2) run Inl show ?thesis
        by (cases "is_SSLError e") (auto simp: loop_within_error)
    qed
  qed
qed

section \<open>The plaintext handed to the engine\<close>

text \<open>
  \<open>accepted\<close> shows the plaintext an engine has accepted so far.  \<^verbatim>\<open>SSLObject.write\<close> accepts a beginning of the
  data and says how much; when it raises it has accepted nothing.
\<close>

definition ssl_accepts :: "('o \<Rightarrow> bytes) \<Rightarrow> 'o ssl_object \<Rightarrow> bool" where
  "ssl_accepts accepted S \<longleftrightarrow>
     (\<forall>d obj rb wb r obj' rb' wb'. ssl_write S d (obj, rb, wb) = (r, (obj', rb', wb')) \<longrightarrow>
        (case r of
           Inl _ \<Rightarrow> accepted obj' = accepted obj
         | Inr n \<Rightarrow> n \<le> length d \<and> accepted obj' = accepted obj @ take n d))"

text \<open>The plaintext of a transport: what the engine has accepted and what waits in the backlog.\<close>

definition plaintext :: "('o \<Rightarrow> bytes) \<Rightarrow> ('o, 'w) tls \<Rightarrow> bytes" where
  "plaintext accepted s = accepted (tls_object s) @ concat (data_deque s)"

text \<open>What the other tasks may do: send more, so that plaintext is only appended to, and close the transport.\<close>

definition plaintext_grows :: "('o \<Rightarrow> bytes) \<Rightarrow> ('o, 'w) tls \<Rightarrow> ('o, 'w) tls \<Rightarrow> bool" where
  "plaintext_grows accepted s s' \<longleftrightarrow>
     (tls_closing s \<longrightarrow> tls_closing s') \<and> prefix (accepted (tls_object s)) (accepted (tls_object s')) \<and>
     (\<not> tls_closing s' \<longrightarrow> prefix (plaintext accepted s) (plaintext accepted s'))"

lemma write_all_keeps:
  assumes "ssl_accepts accepted S" and "write_all_to_ssl_object S s = Some y"
  shows "plaintext accepted (snd y) = plaintext accepted s \<and> tls_closing (snd y) = tls_closing s
    \<and> prefix (accepted (tls_object s)) (accepted (tls_object (snd y)))
    \<and> (\<forall>u. fst y = Inr u \<longrightarrow> data_deque (snd y) = [])"
proof -
  let ?Q = "\<lambda>s y. plaintext accepted (snd y) = plaintext accepted s \<and> tls_closing (snd y) = tls_closing s
    \<and> prefix (accepted (tls_object s)) (accepted (tls_object (snd y)))
    \<and> (\<forall>u. fst y = Inr u \<longrightarrow> data_deque (snd y) = [])"
  have "S = S \<longrightarrow> ?Q s y"
  proof (rule write_all_to_ssl_object.raw_induct [where P = "\<lambda>S' s y. S' = S \<longrightarrow> ?Q s y", OF _ assms(2)], intro impI)
    fix rec S' s y
    assume IH: "\<And>S' s y. rec S' s = Some y \<Longrightarrow> S' = S \<longrightarrow> ?Q s y" and eq: "S' = S"
      and run: "(case data_deque s of [] \<Rightarrow> Some (Inr (), s)
        | data # rest \<Rightarrow>
          (case run_engine (ssl_write S' data) s of
             (Inl e, s1) \<Rightarrow> Some (Inl e, s1)
           | (Inr sent, s1) \<Rightarrow>
               rec S' (if sent < length data then s1\<lparr>data_deque := drop sent data # rest\<rparr>
                       else s1\<lparr>data_deque := rest\<rparr>))) = Some y"
    show "?Q s y"
    proof (cases "data_deque s")
      case Nil
      with run have "y = (Inr (), s)" by simp
      with Nil show ?thesis by simp
    next
      case (Cons data rest)
      obtain r obj rb wb where w: "ssl_write S data (tls_object s, read_bio s, write_bio s) = (r, (obj, rb, wb))"
        by (metis prod_cases4)
      let ?s = "s\<lparr>tls_object := obj, read_bio := rb, write_bio := wb\<rparr>"
      from assms(1) w have acc: "case r of Inl _ \<Rightarrow> accepted obj = accepted (tls_object s)
          | Inr n \<Rightarrow> n \<le> length data \<and> accepted obj = accepted (tls_object s) @ take n data"
        unfolding ssl_accepts_def by blast
      show ?thesis
      proof (cases r)
        case (Inl e)
        with run Cons w eq have "y = (Inl e, ?s)" by (simp add: run_engine_def)
        with Inl acc show ?thesis by (simp add: plaintext_def)
      next
        case (Inr n)
        let ?t = "if n < length data then ?s\<lparr>data_deque := drop n data # rest\<rparr> else ?s\<lparr>data_deque := rest\<rparr>"
        from run Cons w eq Inr have "rec S ?t = Some y" by (simp add: run_engine_def split: if_splits)
        with IH have Q: "?Q ?t y" by blast
        have a: "accepted (tls_object ?t) = accepted (tls_object s) @ take n data" using acc Inr by simp
        have "take n data @ concat (data_deque ?t) = concat (data_deque s)" using acc Inr Cons by simp
        then have "plaintext accepted ?t = plaintext accepted s" by (simp only: plaintext_def a append_assoc)
        moreover have "prefix (accepted (tls_object s)) (accepted (tls_object ?t))" by (simp only: a prefixI)
        moreover have "tls_closing ?t = tls_closing s" by simp
        moreover have "prefix (accepted (tls_object s)) (accepted (tls_object (snd y)))"
          using calculation(2) Q by (blast intro: prefix_order.trans)
        ultimately show ?thesis using Q by argo
      qed
    qed
  qed
  then show ?thesis by simp
qed

lemma flush_keeps:
  assumes "ssl_accepts accepted (te_ssl E)" and "await_relation (plaintext_grows accepted) E"
    and "flush_data_to_send E s = Some (res, s')"
  shows "plaintext_grows accepted s s'"
    and "res = None \<Longrightarrow> \<not> tls_closing s' \<Longrightarrow> prefix (plaintext accepted s) (accepted (tls_object s'))"
proof -
  let ?R = "plaintext_grows accepted"
  from assms(3) obtain r where retry: "retry_ssl_method E (write_all_to_ssl_object (te_ssl E)) s = Some (r, s')"
    and r: "res = None \<Longrightarrow> r = Inr ()"
    by (auto simp: flush_data_to_send_def split: option.splits sum.splits)
  have m: "?R s s'" if "write_all_to_ssl_object (te_ssl E) s = Some (r, s')" for s r s'
    using write_all_keeps [OF assms(1) that] by (simp add: plaintext_grows_def)
  have loop: "loop_within ?R (write_all_to_ssl_object (te_ssl E)) s (r, s')"
    using retry_within [OF assms(2) m retry] .
  then show "?R s s'" by (simp add: loop_within_def)
  assume "res = None" and open': "\<not> tls_closing s'"
  with r loop obtain s1 s2 where 1: "?R s s1" and w: "write_all_to_ssl_object (te_ssl E) s1 = Some (Inr (), s2)"
    and 2: "?R s2 s'" by (auto simp: loop_within_def)
  note k = write_all_keeps [OF assms(1) w, simplified]
  from 2 open' have "\<not> tls_closing s2" "prefix (accepted (tls_object s2)) (accepted (tls_object s'))"
    by (auto simp: plaintext_grows_def)
  moreover have "data_deque s2 = []" "plaintext accepted s2 = plaintext accepted s1" using k by simp_all
  then have "accepted (tls_object s2) = plaintext accepted s1" by (simp add: plaintext_def)
  ultimately show "prefix (plaintext accepted s) (accepted (tls_object s'))"
    using 1 k by (auto simp: plaintext_grows_def intro: prefix_order.trans)
qed

text \<open>
  C18: what is sent over TLS reaches the engine in order, each byte once, whatever the other tasks send meanwhile, as long as none
  closes the transport.  When \<^verbatim>\<open>send_all_from_iterable\<close> returns normally with the transport still open, the engine has accepted
  all the plaintext sent before and all the chunks; when it fails or is cancelled with the transport still open,
  nothing is lost either: what the engine has not accepted waits in the backlog, in its place before what is sent later.  On
  a closing transport nothing is done; an \<^verbatim>\<open>aclose\<close> meanwhile drops the backlog, even if the call then returns normally.
\<close>

theorem tls_send_keeps_plaintext:
  assumes "ssl_accepts accepted (te_ssl E)" and "await_relation (plaintext_grows accepted) E"
    and "tls_send_all_from_iterable E (ds, err) s = Some (res, s')"
  shows "if tls_closing s then res = Some (error_from_errno ''ECONNABORTED'') \<and> s' = s
    else \<not> tls_closing s' \<longrightarrow>
      prefix (plaintext accepted s @ concat ds) (plaintext accepted s')
      \<and> (res = None \<longrightarrow> prefix (plaintext accepted s @ concat ds) (accepted (tls_object s')))"
proof (cases "tls_closing s")
  case True
  with assms(3) show ?thesis by (simp add: tls_send_all_from_iterable_def)
next
  case False
  let ?s = "s\<lparr>data_deque := data_deque s @ ds\<rparr>"
  have p: "plaintext accepted ?s = plaintext accepted s @ concat ds" by (simp add: plaintext_def)
  show ?thesis
  proof (cases err)
    case None
    with False assms(3) have f: "flush_data_to_send E ?s = Some (res, s')"
      by (simp add: tls_send_all_from_iterable_def)
    show ?thesis
      using flush_keeps [OF assms(1,2) f] False by (simp add: p plaintext_grows_def)
  next
    case (Some e)
    with False assms(3) have "res = Some e" "s' = ?s" by (simp_all add: tls_send_all_from_iterable_def Let_def)
    with False p show ?thesis by simp
  qed
qed

lemma tls_send_all_iterable: "tls_send_all E d s = tls_send_all_from_iterable E ([d], None) s"
  by (simp add: tls_send_all_def tls_send_all_from_iterable_def)

section \<open>The loop ends\<close>

text \<open>
  How much the peer still sends is measured by \<open>remaining\<close>: receiving bytes makes it smaller.  An engine whose incoming
  BIO is at its end asks for nothing more (it raises \<^verbatim>\<open>SSLEOFError\<close> then), and a memory BIO has
  always room, so it never waits to write.
\<close>

definition tls_measure :: "('w \<Rightarrow> nat) \<Rightarrow> ('o, 'w) tls \<Rightarrow> nat" where
  "tls_measure remaining s = (if bio_eof (read_bio s) then 0 else Suc (remaining (tls_world s)))"

text \<open>
  Every receive of the transport below returns (the peer sends or closes, or a time limit or a
  cancellation interrupts it), and what the peer sends is finite.
\<close>

definition finite_peer :: "('w \<Rightarrow> nat) \<Rightarrow> ('a, 'o, 'w) tls_env \<Rightarrow> bool" where
  "finite_peer remaining E \<longleftrightarrow>
     await_relation (\<lambda>s s'. tls_measure remaining s' \<le> tls_measure remaining s) E \<and>
     (\<forall>n s. te_recv_into E n s \<noteq> None) \<and>
     (\<forall>n s b s'. te_recv_into E n s = Some (Inr b, s') \<longrightarrow> b \<noteq> [] \<longrightarrow>
        bio_eof (read_bio s') \<or> remaining (tls_world s') < remaining (tls_world s))"

definition asks_before_eof ::
  "(('o, 'w) tls \<Rightarrow> ((exc + 'r) \<times> ('o, 'w) tls) option) \<Rightarrow> bool"
where
  "asks_before_eof m \<longleftrightarrow>
     (\<forall>s. \<exists>r s'. m s = Some (r, s') \<and> tls_world s' = tls_world s \<and> bio_eof (read_bio s') = bio_eof (read_bio s) \<and>
        (\<forall>e. r = Inl e \<longrightarrow> \<not> is_SSLWantWriteError e \<and> (is_SSLWantReadError e \<longrightarrow> \<not> bio_eof (read_bio s))))"

definition engine_asks_before_eof :: "('o engine \<Rightarrow> (exc + 'r) \<times> 'o engine) \<Rightarrow> bool" where
  "engine_asks_before_eof m \<longleftrightarrow>
     (\<forall>obj rb wb r obj' rb' wb'. m (obj, rb, wb) = (r, (obj', rb', wb')) \<longrightarrow>
        bio_eof rb' = bio_eof rb \<and>
        (\<forall>e. r = Inl e \<longrightarrow> \<not> is_SSLWantWriteError e \<and> (is_SSLWantReadError e \<longrightarrow> \<not> bio_eof rb)))"

lemma run_engine_asks:
  assumes "engine_asks_before_eof m" and "run_engine m s = (r, s')"
  shows "tls_world s' = tls_world s" "data_deque s' = data_deque s" "bio_eof (read_bio s') = bio_eof (read_bio s)"
    "r = Inl e \<Longrightarrow> \<not> is_SSLWantWriteError e \<and> (is_SSLWantReadError e \<longrightarrow> \<not> bio_eof (read_bio s))"
proof -
  obtain r1 obj rb wb where m: "m (tls_object s, read_bio s, write_bio s) = (r1, (obj, rb, wb))"
    by (metis prod_cases4)
  with assms(2) have s': "s' = s\<lparr>tls_object := obj, read_bio := rb, write_bio := wb\<rparr>" "r1 = r"
    by (simp_all add: run_engine_def)
  from assms(1) m have *: "bio_eof rb = bio_eof (read_bio s) \<and>
      (\<forall>e. r1 = Inl e \<longrightarrow> \<not> is_SSLWantWriteError e \<and> (is_SSLWantReadError e \<longrightarrow> \<not> bio_eof (read_bio s)))"
    unfolding engine_asks_before_eof_def by blast
  then show "tls_world s' = tls_world s" "data_deque s' = data_deque s" "bio_eof (read_bio s') = bio_eof (read_bio s)"
    "r = Inl e \<Longrightarrow> \<not> is_SSLWantWriteError e \<and> (is_SSLWantReadError e \<longrightarrow> \<not> bio_eof (read_bio s))"
    by (simp_all add: s')
qed

lemma engine_method_asks: "engine_asks_before_eof m \<Longrightarrow> asks_before_eof (engine_method m)"
  unfolding asks_before_eof_def engine_method_def by (metis run_engine_asks(1,3,4) surj_pair)

text \<open>A round of waiting for the peer uses up something of what it sends, or meets the end.\<close>

lemma want_read_returns:
  assumes "finite_peer remaining E"
  shows "\<exists>r s'. want_read E s = Some (r, s')"
proof -
  from assms have recv: "te_recv_into E n s \<noteq> None" for n s by (simp add: finite_peer_def)
  have "readinto E s \<noteq> None" for s
    using recv [of incoming_max_size s] by (auto simp: readinto_def split: option.split sum.split)
  then have "holding_wait L (readinto E) s \<noteq> None" for L s
    by (auto simp: holding_wait_def split: option.split prod.split)
  then show ?thesis by (auto simp: want_read_def split: option.split prod.split)
qed

lemma want_read_progress:
  assumes "finite_peer remaining E" and "want_read E s = Some (None, s')" and "\<not> bio_eof (read_bio s)"
  shows "tls_measure remaining s' < tls_measure remaining s"
proof -
  let ?M = "tls_measure remaining"
  from assms(1) have rel: "await_relation (\<lambda>s s'. ?M s' \<le> ?M s) E" by (simp add: finite_peer_def)
  note R = await_relationD [OF rel]
  obtain r1 s1 where 1: "holding (te_send_lock E) (send_pending E) s = (r1, s1)" by fastforce
  with assms(2) have r1: "r1 = None" by (cases r1) (simp_all add: want_read_def)
  obtain r2 s2 where 2: "al_acquire (te_recv_lock E) s1 = (r2, s2)" by fastforce
  with assms(2) 1 r1 have r2: "r2 = None" by (cases r2) (simp_all add: want_read_def holding_wait_def)
  obtain r3 s3 where 3: "readinto E s2 = Some (r3, s3)"
    using assms(2) 1 r1 2 r2 by (auto simp: want_read_def holding_wait_def split: option.splits)
  with assms(2) 1 r1 2 r2 have s': "r3 = None" "s' = al_release (te_recv_lock E) s3"
    by (simp_all add: want_read_def holding_wait_def split: option.splits)
  have "?M s1 \<le> ?M s" using locked_sends_within(1) [OF rel, of s] 1 by simp
  moreover have "?M s2 \<le> ?M s1" using R(8) [of s1] 2 by simp
  ultimately have le: "?M s2 \<le> ?M s" by simp
  have pos: "0 < ?M s" using assms(3) by (simp add: tls_measure_def)
  have "?M s3 < ?M s"
  proof -
    have buffer: "reader_buffer s2" using 3 s'(1) by (cases "reader_buffer s2") (simp_all add: readinto_def)
    with 3 obtain rb s4 where 4: "te_recv_into E incoming_max_size s2 = Some (rb, s4)"
      by (auto simp: readinto_def split: option.splits)
    have le4: "?M s4 \<le> ?M s2" using 4 by (rule R(11))
    show ?thesis
    proof (cases rb)
      case (Inl e)
      with 3 4 s'(1) show ?thesis by (simp add: readinto_def split: if_splits)
    next
      case (Inr b)
      show ?thesis
      proof (cases "b = []")
        case True
        with 3 4 Inr s'(1) have "s3 = s4\<lparr>read_bio := bio_write_eof (read_bio s4)\<rparr>"
          by (simp add: readinto_def split: if_splits)
        with pos show ?thesis by (simp add: tls_measure_def bio_write_eof_def)
      next
        case False
        with 3 4 Inr s'(1) have "bio_write b (read_bio s4) = (None, read_bio s3)" "tls_world s3 = tls_world s4"
          by (auto simp: readinto_def split: if_splits prod.splits)
        then have "\<not> bio_eof (read_bio s4)" "read_bio s3 = (read_bio s4)\<lparr>bio_data := bio_data (read_bio s4) @ b\<rparr>"
          by (simp_all add: bio_write_def split: if_splits)
        then have eof: "\<not> bio_eof (read_bio s4)" "\<not> bio_eof (read_bio s3)" by simp_all
        with assms(1) 4 Inr False have "remaining (tls_world s4) < remaining (tls_world s2)"
          unfolding finite_peer_def by blast
        with eof \<open>tls_world s3 = tls_world s4\<close> le le4 pos show ?thesis
          by (auto simp: tls_measure_def split: if_splits)
      qed
    qed
  qed
  moreover have "?M s' \<le> ?M s3" using R(9) [of s3] s'(2) by simp
  ultimately show ?thesis by simp
qed

lemma retry_returns:
  assumes "finite_peer remaining E" and "asks_before_eof m"
  shows "\<exists>y. retry_ssl_method E m s = Some y"
proof (induction "tls_measure remaining s" arbitrary: s rule: less_induct)
  case less
  let ?M = "tls_measure remaining"
  from assms(2) obtain r s1 where m: "m s = Some (r, s1)" and same: "tls_world s1 = tls_world s"
      "bio_eof (read_bio s1) = bio_eof (read_bio s)"
    and asks: "\<And>e. r = Inl e \<Longrightarrow> \<not> is_SSLWantWriteError e \<and> (is_SSLWantReadError e \<longrightarrow> \<not> bio_eof (read_bio s))"
    unfolding asks_before_eof_def by blast
  have M: "?M s1 = ?M s" using same by (simp add: tls_measure_def)
  show ?case
  proof (cases r)
    case (Inr result)
    obtain res s2 where "holding (te_send_lock E) (send_pending E) s1 = (res, s2)" by fastforce
    with m Inr show ?thesis by (subst retry_ssl_method.simps) (simp split: option.split)
  next
    case (Inl e)
    note asks [OF Inl]
    show ?thesis
    proof (cases "is_SSLWantReadError e")
      case True
      obtain res s2 where w: "want_read E s1 = Some (res, s2)" using want_read_returns [OF assms(1)] by blast
      show ?thesis
      proof (cases res)
        case None
        have "?M s2 < ?M s1"
          by (rule want_read_progress [OF assms(1)]) (use w None asks [OF Inl] True same in simp_all)
        with less M obtain y where "retry_ssl_method E m s2 = Some y" by fastforce
        with m Inl True w None show ?thesis by (subst retry_ssl_method.simps) simp
      next
        case (Some e')
        with m Inl True w show ?thesis by (subst retry_ssl_method.simps) simp
      qed
    next
      case False
      with m Inl asks [OF Inl] show ?thesis by (subst retry_ssl_method.simps) simp
    qed
  qed
qed

text \<open>Sending: the engine takes at least a byte of data that has one.\<close>

definition ssl_takes :: "'o ssl_object \<Rightarrow> bool" where
  "ssl_takes S \<longleftrightarrow>
     (\<forall>d. engine_asks_before_eof (ssl_write S d)) \<and>
     (\<forall>d eng n eng'. ssl_write S d eng = (Inr n, eng') \<longrightarrow> d \<noteq> [] \<longrightarrow> 0 < n)"

lemma write_all_asks:
  assumes "ssl_takes S"
  shows "asks_before_eof (write_all_to_ssl_object S)"
  unfolding asks_before_eof_def
proof
  fix s
  show "\<exists>r s'. write_all_to_ssl_object S s = Some (r, s') \<and> tls_world s' = tls_world s \<and>
    bio_eof (read_bio s') = bio_eof (read_bio s) \<and>
    (\<forall>e. r = Inl e \<longrightarrow> \<not> is_SSLWantWriteError e \<and> (is_SSLWantReadError e \<longrightarrow> \<not> bio_eof (read_bio s)))"
  proof (induction "\<Sum>d\<leftarrow>data_deque s. Suc (length d)" arbitrary: s rule: less_induct)
    case less
    show ?case
    proof (cases "data_deque s")
      case Nil
      then show ?thesis by (subst write_all_to_ssl_object.simps) simp
    next
      case (Cons data rest)
      obtain r s1 where w: "run_engine (ssl_write S data) s = (r, s1)" by fastforce
      from assms have eng: "engine_asks_before_eof (ssl_write S data)" by (simp add: ssl_takes_def)
      note run = run_engine_asks [OF eng w]
      show ?thesis
      proof (cases r)
        case (Inl e)
        with Cons w run show ?thesis by (subst write_all_to_ssl_object.simps) simp
      next
        case (Inr n)
        let ?t = "if n < length data then s1\<lparr>data_deque := drop n data # rest\<rparr> else s1\<lparr>data_deque := rest\<rparr>"
        obtain eng' where "ssl_write S data (tls_object s, read_bio s, write_bio s) = (Inr n, eng')"
          using w Inr by (auto simp: run_engine_def split: prod.splits)
        with assms have "0 < n" if "data \<noteq> []"
          using that unfolding ssl_takes_def by blast
        then have "(\<Sum>d\<leftarrow>data_deque ?t. Suc (length d)) < (\<Sum>d\<leftarrow>data_deque s. Suc (length d))"
          using Cons by (cases data) auto
        from less [OF this] obtain r' s' where IH: "write_all_to_ssl_object S ?t = Some (r', s')"
          "tls_world s' = tls_world ?t" "bio_eof (read_bio s') = bio_eof (read_bio ?t)"
          "\<forall>e. r' = Inl e \<longrightarrow> \<not> is_SSLWantWriteError e \<and> (is_SSLWantReadError e \<longrightarrow> \<not> bio_eof (read_bio ?t))"
          by blast
        have t: "tls_world ?t = tls_world s" "bio_eof (read_bio ?t) = bio_eof (read_bio s)" using run by simp_all
        have "write_all_to_ssl_object S s = Some (r', s')"
          using Cons w Inr IH(1) by (subst write_all_to_ssl_object.simps) simp
        with IH(2-4) t show ?thesis by simp
      qed
    qed
  qed
qed

text \<open>
  C19: no operation of a TLS transport goes round in its retry loop for ever.  Provided every receive of the transport below
  returns and the peer sends a finite amount (\<open>finite_peer\<close>; the waits for the locks and for sending are taken to
  return), the loop ends: it waits for the peer in every round it repeats, each time using up something the peer sent or meeting its
  end, after which the engine asks no more.  This holds of the handshake, of receiving, sending and of closing.
\<close>

theorem tls_operations_return:
  assumes "finite_peer remaining E" and "ssl_takes (te_ssl E)"
    and "engine_asks_before_eof (ssl_do_handshake (te_ssl E))" and "engine_asks_before_eof (ssl_unwrap (te_ssl E))"
    and "\<And>n. engine_asks_before_eof (ssl_read (te_ssl E) n)" and "\<And>n k. engine_asks_before_eof (ssl_read_into (te_ssl E) n k)"
  shows "(\<exists>y. tls_wrap E side hostname t s = Some y) \<and> (\<exists>y. tls_recv E bufsize s = Some y)
    \<and> (\<exists>y. tls_recv_into E cap s = Some y) \<and> (\<exists>y. tls_send_all_from_iterable E cs s = Some y)
    \<and> (\<exists>y. tls_aclose E s = Some y)"
proof (intro conjI)
  note returns = retry_returns [OF assms(1)]
  have handshake: "\<exists>y. tls_handshake E t s = Some y" for t s
  proof -
    from returns [OF engine_method_asks [OF assms(3)]]
    obtain y where y: "retry_ssl_method E (engine_method (ssl_do_handshake (te_ssl E))) (be_enter (te_backend E) t s) = Some y"
      by blast
    show ?thesis
      by (cases y) (simp add: y tls_handshake_def within_timeout_def split: prod.split option.split sum.split)
  qed
  show "\<exists>y. tls_wrap E side hostname t s = Some y"
  proof -
    obtain r s1 where 1: "run_engine (ssl_wrap_bio (te_ssl E) (tls_server_side side hostname) hostname) s = (r, s1)" by fastforce
    obtain y where "tls_handshake E (timeout_or ssl_handshake_timeout t) s1 = Some y" using handshake by blast
    with 1 show ?thesis
      by (cases y) (simp add: tls_wrap_def split: option.split prod.split)
  qed
  from returns [OF engine_method_asks [OF assms(5)]]
  show "\<exists>y. tls_recv E bufsize s = Some y" by (fastforce simp: tls_recv_def split: option.split)
  from returns [OF engine_method_asks [OF assms(6)]]
  obtain y where "retry_ssl_method E (engine_method (ssl_read_into (te_ssl E) (if cap \<noteq> 0 then cap else 1024) cap)) s
      = Some y" by blast
  then show "\<exists>y. tls_recv_into E cap s = Some y" by (cases y) (simp add: tls_recv_into_def Let_def)
  from returns [OF write_all_asks [OF assms(2)]]
  have flush: "\<exists>y. flush_data_to_send E s = Some y" for s
    by (fastforce simp: flush_data_to_send_def split: option.split sum.split)
  then show "\<exists>y. tls_send_all_from_iterable E cs s = Some y"
    by (simp add: tls_send_all_from_iterable_def Let_def split: option.split)
  have shutdown: "\<exists>y. tls_shutdown E s = Some y" for s
    using returns [OF engine_method_asks [OF assms(4)], of s]
    by (auto simp: tls_shutdown_def split: option.split prod.split)
  have "\<exists>y. tls_close_transport E s = Some y" for s
  proof -
    obtain y where "tls_shutdown E (be_enter (te_backend E) (te_shutdown_timeout E) s) = Some y" using shutdown by blast
    then show ?thesis by (cases y) (simp add: tls_close_transport_def split: prod.split)
  qed
  then obtain y where "tls_close_transport E (s\<lparr>tls_closing := True\<rparr>) = Some y" by blast
  then show "\<exists>y. tls_aclose E s = Some y" by (cases y) (simp add: tls_aclose_def)
qed

text \<open>Without that, a receive waits as long as the transport below does: the operation has no time limit of its own.\<close>

lemma silent_peer_blocks:
  assumes "run_engine m s = (Inl e, s1)" and "is_SSLWantReadError e" and "want_read E s1 = None"
  shows "retry_ssl_method E (engine_method m) s = None"
  using assms by (subst retry_ssl_method.simps) (simp add: engine_method_def)

section \<open>Closing closes\<close>

text \<open>
  What closing relies on: the transport below closes whenever it is told to, its state of being closed is its
  own, cancel scopes suppress cancellations only and say so, and nobody reopens.
\<close>

definition lower_closes :: "('a, 'o, 'w) tls_env \<Rightarrow> bool" where
  "lower_closes E \<longleftrightarrow>
     scopes_keep (st_is_closing (te_transport E)) (te_backend E) \<and>
     (\<forall>e s c s'. be_exit (te_backend E) e s = ((False, c), s') \<longrightarrow> \<not> c) \<and>
     closes (st_is_closing (te_transport E)) (st_aclose (te_transport E)) \<and>
     (\<forall>s s'. tls_world s = tls_world s' \<longrightarrow> st_is_closing (te_transport E) s = st_is_closing (te_transport E) s')"

lemma lower_closesD:
  assumes "lower_closes E"
  shows "scopes_keep (st_is_closing (te_transport E)) (te_backend E)"
    and "be_exit (te_backend E) e s = ((False, c), s') \<Longrightarrow> \<not> c"
    and "closes (st_is_closing (te_transport E)) (st_aclose (te_transport E))"
    and "closes (st_is_closing (te_transport E)) (aclose_forcefully (te_backend E) (st_aclose (te_transport E)))"
    and "tls_world s = tls_world t \<Longrightarrow> st_is_closing (te_transport E) s = st_is_closing (te_transport E) t"
  using assms aclose_forcefully_closes unfolding lower_closes_def by blast+

lemma tls_shutdown_error_closes:
  assumes "lower_closes E" and "tls_shutdown E s = Some (Some e, s')"
  shows "st_is_closing (te_transport E) s'"
  using assms(2) closesD [OF lower_closesD(4) [OF assms(1)]]
  by (auto simp: tls_shutdown_def split: option.splits if_splits prod.splits)

lemma tls_close_transport_closes:
  assumes "lower_closes E" and "tls_close_transport E s = Some (res, s')"
  shows "st_is_closing (te_transport E) s'"
proof (cases "te_standard_compatible E \<and> \<not> st_is_closing (te_transport E) s")
  case False
  with assms(2) closesD [OF lower_closesD(3) [OF assms(1)]] show ?thesis
    by (auto simp: tls_close_transport_def)
next
  case True
  with assms(2) obtain r s1 where 1: "tls_shutdown E (be_enter (te_backend E) (te_shutdown_timeout E) s) = Some (r, s1)"
    by (auto simp: tls_close_transport_def split: option.splits)
  obtain suppressed caught s2 where 2: "be_exit (te_backend E) r s1 = ((suppressed, caught), s2)"
    by (metis surj_pair)
  from scopes_keepD(2) [OF lower_closesD(1) [OF assms(1)] 2]
  have keep: "st_is_closing (te_transport E) s2 = st_is_closing (te_transport E) s1"
    and cancelled: "suppressed \<Longrightarrow> r = Some CancelledError" by simp_all
  have failed: "st_is_closing (te_transport E) s2" if "r \<noteq> None"
    using tls_shutdown_error_closes [OF assms(1)] 1 that keep by auto
  have "\<not> caught" if "\<not> suppressed" using lower_closesD(2) [OF assms(1)] 2 that by auto
  then consider "r \<noteq> None" "s' = s2" | "st_aclose (te_transport E) s2 = (res, s')"
    using True 1 2 assms(2) cancelled by (fastforce simp: tls_close_transport_def split: if_splits)
  then show ?thesis
    using failed closesD [OF lower_closesD(3) [OF assms(1)]] by cases auto
qed

text \<open>
  closing a TLS transport always closes the transport below and wakes the tasks that wait for it to be
  closed, however the closing handshake ends: normally, with an error of the engine or of the system, by its
  time limit or by a cancellation.  No plaintext is left in the backlog, and closing again only waits.
\<close>

theorem tls_aclose_closes:
  assumes "lower_closes E" and "tls_aclose E s = Some (res, s')"
  shows "if tls_closing s then (res, s') = te_closed_wait E s
    else st_is_closing (te_transport E) s' \<and> tls_closed s' \<and> data_deque s' = [] \<and> \<not> reader_buffer s'"
proof (cases "tls_closing s")
  case False
  with assms(2) obtain s1 where 1: "tls_close_transport E (s\<lparr>tls_closing := True\<rparr>) = Some (res, s1)"
    and s': "s' = tls_closing_callbacks s1" by (auto simp: tls_aclose_def split: option.splits)
  have "tls_world s' = tls_world s1" by (simp add: s' tls_closing_callbacks_def)
  from lower_closesD(5) [OF assms(1) this] tls_close_transport_closes [OF assms(1) 1]
  have "st_is_closing (te_transport E) s'" by simp
  with False show ?thesis by (simp add: s' tls_closing_callbacks_def)
qed (use assms(2) in \<open>simp add: tls_aclose_def\<close>)

text \<open>
  The listener never hands a connection to the client handler before its handshake has succeeded.  When
  wrapping fails, with any error, the transport is closed, the client handler plays no role, only what
  is no \<^verbatim>\<open>Exception\<close> (a cancellation of the handshake or of the error handler) or a failure to close is raised, and an
  ordinary error is given to the error handler or logged.
\<close>

theorem tls_failed_handshake_is_contained:
  assumes "lower_closes E" and "tls_wrap E (Some True) None t s = Some (Some e, s1)"
    and keeps: "\<And>h e s. error_handler = Some h \<Longrightarrow> st_is_closing (te_transport E) s \<Longrightarrow>
      st_is_closing (te_transport E) (snd (h e s))"
  shows "\<exists>res logged s'. (\<forall>client_handler. tls_handler_wrapper E t error_handler client_handler s = Some (res, logged, s'))
    \<and> st_is_closing (te_transport E) s'
    \<and> (pred_option (\<lambda>e. \<not> is_Exception e) res
        \<or> res = fst (aclose_forcefully (te_backend E) (st_aclose (te_transport E)) s1))
    \<and> (error_handler = None \<and> res = None \<longrightarrow> logged = [e]) \<and> (\<not> is_Exception e \<longrightarrow> res \<noteq> None)"
proof -
  obtain r2 s2 where 2: "aclose_forcefully (te_backend E) (st_aclose (te_transport E)) s1 = (r2, s2)" by fastforce
  then have closed: "st_is_closing (te_transport E) s2" by (rule closesD [OF lower_closesD(4) [OF assms(1)]])
  consider (fails) e' where "r2 = Some e'" | (cancelled) "r2 = None" "\<not> is_Exception e"
    | (handled) "r2 = None" "is_Exception e" by (cases r2) auto
  then show ?thesis
  proof cases
    case fails
    with assms(2) 2 closed show ?thesis
      by (intro exI [of _ "Some e'"] exI [of _ "[]"] exI [of _ s2]) (simp add: tls_handler_wrapper_def)
  next
    case cancelled
    with assms(2) 2 closed show ?thesis
      by (intro exI [of _ "Some e"] exI [of _ "[]"] exI [of _ s2])
        (simp add: tls_handler_wrapper_def)
  next
    case handled
    obtain res logged s' where f: "tls_handshake_failed error_handler e s2 = (res, logged, s')"
      by (metis prod_cases3)
    have run: "tls_handler_wrapper E t error_handler client_handler s = Some (res, logged, s')" for client_handler
      using assms(2) 2 handled f by (simp add: tls_handler_wrapper_def)
    have "st_is_closing (te_transport E) s' \<and> pred_option (\<lambda>e. \<not> is_Exception e) res
        \<and> (error_handler = None \<and> res = None \<longrightarrow> logged = [e])"
    proof (cases error_handler)
      case None
      with f closed show ?thesis by (auto simp: tls_handshake_failed_def)
    next
      case (Some h)
      obtain r3 s3 where h: "h e s2 = (r3, s3)" by fastforce
      with keeps [OF Some closed, of e] have "st_is_closing (te_transport E) s3" by simp
      with f h Some show ?thesis
        by (auto simp: tls_handshake_failed_def split: option.splits if_splits)
    qed
    with run handled(2) show ?thesis by blast
  qed
qed

text \<open>
  A failed handshake has closed the transport already in \<^verbatim>\<open>wrap\<close>.
\<close>

lemma tls_wrap_failure_closes:
  assumes "lower_closes E" and "tls_wrap E side hostname t s = Some (Some e, s')"
    and "run_engine (ssl_wrap_bio (te_ssl E) (tls_server_side side hostname) hostname) s = (None, s1)"
  shows "st_is_closing (te_transport E) s'"
  using assms(2,3) closesD [OF lower_closesD(4) [OF assms(1)]]
  by (auto simp: tls_wrap_def split: option.splits prod.splits)

section \<open>Receiving\<close>

text \<open>
  \<^verbatim>\<open>recv\<close> cancelled at the wrong moment loses bytes.  When the engine has decrypted data, \<^verbatim>\<open>_retry_ssl_method\<close>
  still waits for the send lock, even with nothing to send; if another task holds it (its send is blocked by
  the peer) and the receiving task is cancelled there, as by a time limit, the decrypted bytes are neither
  returned nor kept, although the transport stays usable.
\<close>

theorem tls_cancelled_recv_loses_bytes:
  assumes "ssl_read (te_ssl E) bufsize (tls_object s, read_bio s, write_bio s) = (Inr b, (obj, rb, wb))"
    and "al_acquire (te_send_lock E) (s\<lparr>tls_object := obj, read_bio := rb, write_bio := wb\<rparr>) = (Some CancelledError, s')"
  shows "tls_recv E bufsize s = Some (Inl CancelledError, s')"
proof -
  have "retry_ssl_method E (engine_method (ssl_read (te_ssl E) bufsize)) s = Some (Inl CancelledError, s')"
    by (subst retry_ssl_method.simps) (simp add: engine_method_def run_engine_def assms holding_def)
  then show ?thesis by (simp add: tls_recv_def tls_recv_outcome_def)
qed

section \<open>Witnesses\<close>

declare retry_ssl_method.simps [code] write_all_to_ssl_object.simps [code]

text \<open>
  An engine that does not encrypt and takes two bytes at a time, over a transport whose world is what the peer
  sends, what was sent and whether it is closed.
\<close>

definition plain_ssl :: "bytes ssl_object" where
  "plain_ssl =
     \<lparr>ssl_wrap_bio = (\<lambda>side host eng. (None, eng)),
      ssl_do_handshake = (\<lambda>(obj, rb, wb).
        if bio_data rb = [] then (Inl (if bio_eof rb then ssl_eof else ssl_want_read), (obj, rb, wb))
        else (Inr (), (obj, rb\<lparr>bio_data := tl (bio_data rb)\<rparr>, wb))),
      ssl_getpeercert = (\<lambda>eng. (Inr (), eng)),
      ssl_read = (\<lambda>n (obj, rb, wb).
        if bio_data rb = [] then (Inl (if bio_eof rb then ssl_eof else ssl_want_read), (obj, rb, wb))
        else (Inr (take (nat n) (bio_data rb)), (obj, rb\<lparr>bio_data := drop (nat n) (bio_data rb)\<rparr>, wb))),
      ssl_read_into = (\<lambda>n k (obj, rb, wb).
        if bio_data rb = [] then (Inl (if bio_eof rb then ssl_eof else ssl_want_read), (obj, rb, wb))
        else (Inr (take n (bio_data rb)), (obj, rb\<lparr>bio_data := drop n (bio_data rb)\<rparr>, wb))),
      ssl_write = (\<lambda>d (obj, rb, wb).
        (Inr (min 2 (length d)), (obj @ take 2 d, rb, wb\<lparr>bio_data := bio_data wb @ take 2 d\<rparr>))),
      ssl_unwrap = (\<lambda>eng. (Inr (), eng))\<rparr>"

type_synonym plain_world = "bytes list \<times> bytes \<times> bool"

definition plain_recv :: "nat \<Rightarrow> (bytes, plain_world) tls \<Rightarrow> (exc + bytes) \<times> (bytes, plain_world) tls" where
  "plain_recv n s =
     (case tls_world s of
        ([], w) \<Rightarrow> (Inr [], s)
      | (b # bs, w) \<Rightarrow> (Inr b, s\<lparr>tls_world := (bs, w)\<rparr>))"

definition plain_transport :: "(unit, (bytes, plain_world) tls) stream_transport" where
  "plain_transport =
     \<lparr>st_recv = plain_recv,
      st_recv_with_ancillary = (\<lambda>_ _ s. (Inl (UnsupportedOperation ''''), s)),
      st_send_all = (\<lambda>b s. case tls_world s of (p, sent, c) \<Rightarrow> (None, s\<lparr>tls_world := (p, sent @ b, c)\<rparr>)),
      st_send_all_with_ancillary = (\<lambda>_ _ s. (Some (UnsupportedOperation ''''), s)),
      st_send_eof = (\<lambda>s. (None, s)),
      st_is_closing = (\<lambda>s. snd (snd (tls_world s))),
      st_aclose = (\<lambda>s. case tls_world s of (p, sent, c) \<Rightarrow> (None, s\<lparr>tls_world := (p, sent, True)\<rparr>))\<rparr>"

definition free_lock :: "'s async_lock" where
  "free_lock = \<lparr>al_acquire = (\<lambda>s. (None, s)), al_release = (\<lambda>s. s)\<rparr>"

definition held_lock :: "'s async_lock" where
  "held_lock = \<lparr>al_acquire = (\<lambda>s. (Some CancelledError, s)), al_release = (\<lambda>s. s)\<rparr>"

definition plain_env :: "(bytes, plain_world) tls async_lock \<Rightarrow> (unit, bytes, plain_world) tls_env" where
  "plain_env L =
     \<lparr>te_transport = plain_transport, te_recv_into = (\<lambda>n s. Some (plain_recv n s)), te_backend = suppressing_backend,
      te_send_lock = L, te_recv_lock = free_lock, te_ssl = plain_ssl, te_standard_compatible = True,
      te_shutdown_timeout = ssl_shutdown_timeout, te_closed_wait = (\<lambda>s. (None, s))\<rparr>"

lemmas plain_defs = plain_env_def plain_transport_def plain_recv_def plain_ssl_def free_lock_def

lemma plain_accepts: "ssl_accepts id (te_ssl (plain_env L))"
  by (auto simp: ssl_accepts_def plain_defs min_def)

lemma plain_await:
  assumes "\<And>s. R s s" and "\<And>s t u. R s t \<Longrightarrow> R t u \<Longrightarrow> R s u"
    and "\<And>s q r. (bio_eof (read_bio s) \<longrightarrow> bio_eof q) \<Longrightarrow> (bio_eof (write_bio s) \<longrightarrow> bio_eof r) \<Longrightarrow>
        R s (s\<lparr>read_bio := q, write_bio := r\<rparr>)"
    and "\<And>s w. length (fst w) \<le> length (fst (tls_world s)) \<Longrightarrow> R s (s\<lparr>tls_world := w\<rparr>)"
  shows "await_relation R (plain_env free_lock)"
proof -
  have "R s (s\<lparr>tls_world := (p, w)\<rparr>)" if "tls_world s = (p', w')" "length p \<le> length p'" for s p w p' w'
    using assms(4) [of "(p, w)" s] that by simp
  then show ?thesis
    unfolding await_relation_def using assms(1-3)
    by (auto simp: plain_defs split: list.split prod.split)
qed

theorem tls_send_keeps_plaintext_witness:
  "\<exists>s'. tls_send_all_from_iterable (plain_env free_lock) ([''abc'', ''de''], None) (tls_init [] ([], [], False)) = Some (None, s')
    \<and> prefix ''abcde'' (id (tls_object s')) \<and> fst (snd (tls_world s')) = ''abcde''"
proof -
  have run: "tls_send_all_from_iterable (plain_env free_lock) ([''abc'', ''de''], None) (tls_init [] ([], [], False)) =
      Some (None, \<lparr>tls_object = ''abcde'', read_bio = memory_bio, write_bio = memory_bio, data_deque = [],
        tls_closing = False, tls_closed = False, reader_buffer = True, tls_world = ([], ''abcde'', False)\<rparr>)"
    by code_simp
  have rel: "await_relation (plaintext_grows id) (plain_env free_lock)"
    by (rule plain_await) (auto simp: plaintext_grows_def plaintext_def)
  from tls_send_keeps_plaintext [OF plain_accepts rel run] show ?thesis
    unfolding run by (simp add: plaintext_def tls_init_def)
qed

lemma plain_finite: "finite_peer (\<lambda>w. length (fst w)) (plain_env free_lock)"
  unfolding finite_peer_def
proof (intro conjI allI impI)
  show "await_relation (\<lambda>s s'. tls_measure (\<lambda>w. length (fst w)) s' \<le> tls_measure (\<lambda>w. length (fst w)) s)
      (plain_env free_lock)"
    by (rule plain_await) (auto simp: tls_measure_def)
  show "te_recv_into (plain_env free_lock) n s \<noteq> None" for n s by (simp add: plain_env_def)
  fix n b and s s' :: "(bytes, plain_world) tls"
  assume "te_recv_into (plain_env free_lock) n s = Some (Inr b, s')" "b \<noteq> []"
  then show "bio_eof (read_bio s') \<or> length (fst (tls_world s')) < length (fst (tls_world s))"
    by (auto simp: plain_env_def plain_recv_def split: prod.splits list.splits)
qed

lemma plain_takes: "ssl_takes (te_ssl (plain_env L))"
  by (auto simp: ssl_takes_def engine_asks_before_eof_def plain_defs min_def)

text \<open>The peer sends one byte of handshake and then a packet, cut in two.\<close>

theorem tls_operations_return_witness:
  "(\<exists>y. tls_wrap (plain_env free_lock) (Some True) None None (tls_init [] ([''A'', ''b''], [], False)) = Some y)
   \<and> (\<exists>y. tls_recv (plain_env free_lock) 10 (tls_init [] ([''A'', ''b''], [], False)) = Some y)
   \<and> (\<exists>y. tls_recv_into (plain_env free_lock) 10 (tls_init [] ([''A'', ''b''], [], False)) = Some y)
   \<and> (\<exists>y. tls_send_all_from_iterable (plain_env free_lock) ([''abc''], None) (tls_init [] ([''A'', ''b''], [], False)) = Some y)
   \<and> (\<exists>y. tls_aclose (plain_env free_lock) (tls_init [] ([''A'', ''b''], [], False)) = Some y)"
  by (rule tls_operations_return [OF plain_finite plain_takes])
    (auto simp: engine_asks_before_eof_def plain_env_def plain_ssl_def ssl_eof_def ssl_want_read_def)

lemma plain_closes: "lower_closes (plain_env L)"
  by (auto simp: lower_closes_def scopes_keep_def closes_def plain_env_def plain_transport_def suppressing_backend_def
      split: prod.splits)

theorem tls_aclose_closes_witness:
  "\<exists>s'. tls_aclose (plain_env free_lock) (tls_init [] ([], [], False)) = Some (None, s')
    \<and> snd (snd (tls_world s')) \<and> tls_closed s' \<and> data_deque s' = []"
proof -
  have run: "tls_aclose (plain_env free_lock) (tls_init [] ([], [], False)) =
      Some (None, \<lparr>tls_object = [], read_bio = \<lparr>bio_data = [], bio_eof = True\<rparr>,
        write_bio = \<lparr>bio_data = [], bio_eof = True\<rparr>, data_deque = [], tls_closing = True, tls_closed = True,
        reader_buffer = False, tls_world = ([], [], True)\<rparr>)"
    by code_simp
  from tls_aclose_closes [OF plain_closes run] show ?thesis
    unfolding run by (simp add: tls_init_def)
qed

theorem tls_failed_handshake_is_contained_witness:
  "\<exists>s'. (\<forall>client_handler. tls_handler_wrapper (plain_env free_lock) None None client_handler (tls_init [] ([], [], False)) =
      Some (None, [ssl_eof], s')) \<and> snd (snd (tls_world s'))"
proof -
  let ?s1 = "\<lparr>tls_object = [], read_bio = \<lparr>bio_data = [], bio_eof = True\<rparr>,
        write_bio = \<lparr>bio_data = [], bio_eof = True\<rparr>, data_deque = [], tls_closing = True, tls_closed = False,
        reader_buffer = True, tls_world = ([], [], True)\<rparr>"
  let ?retry = "retry_ssl_method (plain_env free_lock) (engine_method (ssl_do_handshake (te_ssl (plain_env free_lock))))"
  have "?retry (tls_init [] ([], [], False)) = ?retry (tls_init [] ([], [], False)\<lparr>read_bio := \<lparr>bio_data = [], bio_eof = True\<rparr>\<rparr>)"
    by (subst retry_ssl_method.simps)
      (simp add: plain_defs engine_method_def run_engine_def tls_init_def memory_bio_def ssl_want_read_def want_read_def
        holding_def holding_wait_def send_pending_def readinto_def bio_write_eof_def)
  also have "\<dots> = Some (Inl ssl_eof, ?s1\<lparr>tls_closing := False, tls_world := ([], [], False)\<rparr>)"
    by (subst retry_ssl_method.simps)
      (simp add: plain_defs engine_method_def run_engine_def tls_init_def memory_bio_def ssl_eof_def
        write_eof_both_def bio_write_eof_def)
  finally have run: "tls_wrap (plain_env free_lock) (Some True) None None (tls_init [] ([], [], False)) = Some (Some ssl_eof, ?s1)"
    by (simp add: tls_wrap_def tls_handshake_def within_timeout_def timeout_scope_exit_def aclose_forcefully_def
        move_on_after_def suppressing_backend_def error_of_def run_engine_def tls_init_def ssl_eof_def memory_bio_def
        plain_env_def plain_ssl_def plain_transport_def)
  have forced: "fst (aclose_forcefully (te_backend (plain_env free_lock)) (st_aclose (te_transport (plain_env free_lock))) ?s1) = None"
    by code_simp
  have eof: "is_Exception ssl_eof" by (simp add: ssl_eof_def is_Exception_simps)
  from tls_failed_handshake_is_contained [OF plain_closes run, of None]
  obtain res logged s' where w:
    "\<And>ch. tls_handler_wrapper (plain_env free_lock) None None ch (tls_init [] ([], [], False)) = Some (res, logged, s')"
    "st_is_closing (te_transport (plain_env free_lock)) s'" "res = None \<longrightarrow> logged = [ssl_eof]" by auto
  have "tls_handler_wrapper (plain_env free_lock) None None (\<lambda>s. None) (tls_init [] ([], [], False)) = Some (None, [ssl_eof], ?s1)"
    unfolding tls_handler_wrapper_def run by code_simp
  with w(1) [of "\<lambda>s. None"] have "res = None" "logged = [ssl_eof]" by simp_all
  with w show ?thesis by (simp add: plain_env_def plain_transport_def)
qed

theorem tls_cancelled_recv_loses_bytes_witness:
  "\<exists>s'. tls_recv (plain_env held_lock) 10 (tls_init [] ([], [], False)\<lparr>read_bio := \<lparr>bio_data = ''xy'', bio_eof = False\<rparr>\<rparr>)
      = Some (Inl CancelledError, s')
    \<and> bio_data (read_bio s') = [] \<and> \<not> tls_closing s' \<and> \<not> snd (snd (tls_world s'))"
proof -
  let ?s = "tls_init [] ([], [], False)\<lparr>read_bio := \<lparr>bio_data = ''xy'', bio_eof = False\<rparr>\<rparr> :: (bytes, plain_world) tls"
  have "tls_recv (plain_env held_lock) 10 ?s = Some (Inl CancelledError, ?s\<lparr>read_bio := memory_bio\<rparr>)"
    by (rule tls_cancelled_recv_loses_bytes [of _ _ _ "''xy''" "[]" memory_bio memory_bio])
      (simp_all add: plain_env_def plain_ssl_def held_lock_def tls_init_def memory_bio_def)
  then show ?thesis by (simp add: memory_bio_def tls_init_def)
qed

end
