(* ===== verification/SocketTools.thy ===== *)
theory SocketTools
  imports Exceptions
begin

text \<open>
  \<^verbatim>\<open>src/src/easynetwork/lowlevel/socket.py\<close>: socket addresses, the values of the linger option and the ancillary data of
  Unix sockets, with \<^verbatim>\<open>lowlevel/_unix_utils.py\<close> and the attribute lookup of \<^verbatim>\<open>lowlevel/typed_attr.py\<close>.

  A Python \<^verbatim>\<open>str\<close> is the list of its code points.  The layouts of \<^verbatim>\<open>struct\<close> and \<^verbatim>\<open>array\<close> are those of a
  little-endian platform with 4-byte integers; the constants are those of Linux.
\<close>

type_synonym pystr = "nat list"

section \<open>Unix socket addresses\<close>

text \<open>The field \<^verbatim>\<open>__addr\<close>, which is \<^verbatim>\<open>None\<close>, a \<^verbatim>\<open>str\<close> or a \<^verbatim>\<open>bytes\<close>, and what \<^verbatim>\<open>from_raw\<close> may be given.\<close>

datatype unix_address = AddrNone | AddrStr pystr | AddrBytes bytes

datatype raw_address = RawStr pystr | RawBytes bytes | RawNone | RawOther | RawPath pystr | RawAddress unix_address

text \<open>\<^verbatim>\<open>os.fsencode\<close> and \<^verbatim>\<open>os.fsdecode\<close>, and whether the platform is Linux.\<close>

record platform =
  fsencode :: "pystr \<Rightarrow> exc + bytes"
  fsdecode :: "bytes \<Rightarrow> pystr"
  is_linux :: bool

text \<open>
  Documented behaviour: any file system name survives decoding and encoding (the error handler \<^verbatim>\<open>surrogateescape\<close>).
\<close>

definition fs_laws :: "platform \<Rightarrow> bool" where
  "fs_laws P \<longleftrightarrow> (\<forall>b. fsencode P (fsdecode P b) = Inr b)"

definition unnamed_address :: unix_address where
  "unnamed_address = AddrNone"

definition from_pathname_unchecked :: "pystr \<Rightarrow> exc + unix_address" where
  "from_pathname_unchecked path =
     (if 0 \<in> set path then Inl (ValueError ''paths must not contain interior null bytes'')
      else Inr (if path = [] then AddrNone else AddrStr path))"

text \<open>\<^verbatim>\<open>from_pathname\<close>: \<open>None\<close> stands for a path whose \<^verbatim>\<open>os.fspath\<close> is not a \<^verbatim>\<open>str\<close>.\<close>

definition from_pathname :: "pystr option \<Rightarrow> exc + unix_address" where
  "from_pathname path =
     (case path of
        None \<Rightarrow> Inl (TypeError ''Expected a str object or an os.PathLike object'')
      | Some p \<Rightarrow> from_pathname_unchecked p)"

definition from_abstract_name_unchecked :: "bytes \<Rightarrow> exc + unix_address" where
  "from_abstract_name_unchecked name =
     (case name of
        [] \<Rightarrow> Inl (OtherError ''IndexError'')
      | c # _ \<Rightarrow> if c = CHR 0x00 then Inr (AddrBytes name) else Inl (AssertionError ''Should start with a NUL byte.''))"

text \<open>\<^verbatim>\<open>from_abstract_name\<close>; \<^verbatim>\<open>os.fsencode\<close> leaves bytes alone.\<close>

definition from_abstract_name :: "platform \<Rightarrow> raw_address \<Rightarrow> exc + unix_address" where
  "from_abstract_name P name =
     (case name of
        RawStr s \<Rightarrow> result_bind (fsencode P s) (\<lambda>b. from_abstract_name_unchecked (CHR 0x00 # b))
      | RawBytes b \<Rightarrow> from_abstract_name_unchecked (CHR 0x00 # b)
      | _ \<Rightarrow> Inl (TypeError ''Expected a str object or a bytes object''))"

definition from_raw :: "platform \<Rightarrow> raw_address \<Rightarrow> exc + unix_address" where
  "from_raw P addr =
     (case addr of
        RawStr s \<Rightarrow>
          if s \<noteq> [] \<and> hd s = 0 \<and> is_linux P then result_bind (fsencode P s) from_abstract_name_unchecked
          else from_pathname_unchecked s
      | RawBytes b \<Rightarrow>
          if b \<noteq> [] \<and> hd b = CHR 0x00 \<and> is_linux P then from_abstract_name_unchecked b
          else from_pathname_unchecked (fsdecode P b)
      | RawNone \<Rightarrow> Inr unnamed_address
      | _ \<Rightarrow> Inl (TypeError ''Cannot convert to a UnixSocketAddress''))"

definition is_unnamed :: "unix_address \<Rightarrow> bool" where
  "is_unnamed a \<longleftrightarrow> a = AddrNone"

definition as_pathname :: "unix_address \<Rightarrow> pystr option" where
  "as_pathname a = (case a of AddrStr s \<Rightarrow> Some s | _ \<Rightarrow> None)"

definition as_abstract_name :: "unix_address \<Rightarrow> bytes option" where
  "as_abstract_name a = (case a of AddrBytes b \<Rightarrow> Some (drop 1 b) | _ \<Rightarrow> None)"

text \<open>\<^verbatim>\<open>self.__addr or ""\<close>.\<close>

definition as_raw :: "unix_address \<Rightarrow> raw_address" where
  "as_raw a =
     (case a of
        AddrNone \<Rightarrow> RawStr []
      | AddrStr s \<Rightarrow> RawStr s
      | AddrBytes b \<Rightarrow> if b = [] then RawStr [] else RawBytes b)"

text \<open>\<^verbatim>\<open>convert_unix_socket_address\<close>: a path object is neither a string nor an address.\<close>

definition convert_unix_socket_address :: "platform \<Rightarrow> raw_address \<Rightarrow> exc + raw_address" where
  "convert_unix_socket_address P addr =
     (case addr of
        RawStr s \<Rightarrow> result_bind (from_raw P addr) (\<lambda>a. Inr (as_raw a))
      | RawBytes b \<Rightarrow> result_bind (from_raw P addr) (\<lambda>a. Inr (as_raw a))
      | RawAddress a \<Rightarrow> Inr (as_raw a)
      | RawPath p \<Rightarrow> result_bind (from_pathname (Some p)) (\<lambda>a. Inr (as_raw a))
      | _ \<Rightarrow> result_bind (from_pathname None) (\<lambda>a. Inr (as_raw a)))"

definition convert_optional_unix_socket_address :: "platform \<Rightarrow> raw_address option \<Rightarrow> exc + raw_address option" where
  "convert_optional_unix_socket_address P addr =
     (case addr of
        None \<Rightarrow> Inr None
      | Some a \<Rightarrow> result_bind (convert_unix_socket_address P a) (\<lambda>r. Inr (Some r)))"

text \<open>What every address satisfies: a path has no null byte, an abstract name begins with one.\<close>

definition address_wf :: "platform \<Rightarrow> unix_address \<Rightarrow> bool" where
  "address_wf P a \<longleftrightarrow>
     (case a of
        AddrNone \<Rightarrow> True
      | AddrStr s \<Rightarrow> s \<noteq> [] \<and> 0 \<notin> set s
      | AddrBytes b \<Rightarrow> is_linux P \<and> b \<noteq> [] \<and> hd b = CHR 0x00)"

lemma from_pathname_unchecked_wf: "from_pathname_unchecked s = Inr a \<Longrightarrow> address_wf P a"
  by (auto simp: from_pathname_unchecked_def address_wf_def split: if_splits)

lemma from_abstract_name_unchecked_wf: "is_linux P \<Longrightarrow> from_abstract_name_unchecked b = Inr a \<Longrightarrow> address_wf P a"
  by (auto simp: from_abstract_name_unchecked_def address_wf_def split: list.splits if_splits)

lemma from_raw_wf: "from_raw P r = Inr a \<Longrightarrow> address_wf P a"
  by (auto simp: from_raw_def unnamed_address_def result_bind_def address_wf_def [of P AddrNone]
      intro: from_pathname_unchecked_wf from_abstract_name_unchecked_wf
      split: raw_address.splits if_splits sum.splits)

lemma from_raw_as_raw: "address_wf P a \<Longrightarrow> from_raw P (as_raw a) = Inr a"
  by (cases a) (auto simp: address_wf_def from_raw_def as_raw_def from_pathname_unchecked_def
      from_abstract_name_unchecked_def neq_Nil_conv)

text \<open>
  However an address is made (unnamed, from a path, from an abstract name or from what the socket module
  gives), it is well formed, that is, unnamed, a non-empty path without null byte, or, on Linux only, a
  name that begins with a null byte; in particular the three predicates are exclusive.
\<close>

theorem unix_address_well_formed:
  assumes "a = unnamed_address \<or> from_pathname path = Inr a \<or> from_raw P r = Inr a
    \<or> is_linux P \<and> from_abstract_name P name = Inr a"
  shows "address_wf P a
    \<and> (is_unnamed a \<and> as_pathname a = None \<and> as_abstract_name a = None
      \<or> \<not> is_unnamed a \<and> (\<exists>s. as_pathname a = Some s \<and> s \<noteq> [] \<and> 0 \<notin> set s) \<and> as_abstract_name a = None
      \<or> \<not> is_unnamed a \<and> as_pathname a = None \<and> (\<exists>b. as_abstract_name a = Some b))"
proof -
  have wf: "address_wf P a"
    using assms from_raw_wf from_pathname_unchecked_wf from_abstract_name_unchecked_wf
    by (auto simp: unnamed_address_def address_wf_def [of P AddrNone] from_pathname_def from_abstract_name_def result_bind_def
        split: option.splits raw_address.splits sum.splits)
  then show ?thesis
    by (cases a) (auto simp: address_wf_def is_unnamed_def as_pathname_def as_abstract_name_def)
qed

text \<open>
  An address survives the trip through the socket module: made again from its raw form it is the same
  address, and the raw form of an address made of bytes encodes to these bytes.  What
  \<^verbatim>\<open>convert_unix_socket_address\<close> returns it leaves alone.
\<close>

theorem unix_address_roundtrip:
  assumes "fs_laws P" and "address_wf P a"
  shows "from_raw P (as_raw a) = Inr a
    \<and> (from_raw P (RawBytes b) = Inr a \<longrightarrow> as_raw a = RawBytes b \<or> (\<exists>s. as_raw a = RawStr s \<and> fsencode P s = Inr b))
    \<and> (convert_unix_socket_address P r = Inr r' \<and> (\<forall>b. r = RawAddress b \<longrightarrow> address_wf P b)
        \<longrightarrow> convert_unix_socket_address P r' = Inr r')"
proof -
  have bytes: "as_raw a = RawBytes b \<or> (\<exists>s. as_raw a = RawStr s \<and> fsencode P s = Inr b)"
    if "from_raw P (RawBytes b) = Inr a"
  proof (cases "b \<noteq> [] \<and> hd b = CHR 0x00 \<and> is_linux P")
    case True
    with that show ?thesis
      by (auto simp: from_raw_def from_abstract_name_unchecked_def as_raw_def neq_Nil_conv)
  next
    case False
    with that have "a = (if fsdecode P b = [] then AddrNone else AddrStr (fsdecode P b))"
      by (auto simp: from_raw_def from_pathname_unchecked_def split: if_splits)
    moreover have "fsencode P (fsdecode P b) = Inr b" using assms(1) by (simp add: fs_laws_def)
    ultimately show ?thesis by (auto simp: as_raw_def split: if_splits)
  qed
  have raw: "convert_unix_socket_address P (as_raw b) = Inr (as_raw b)" if "address_wf P b" for b
    using from_raw_as_raw [OF that] by (cases b) (auto simp: convert_unix_socket_address_def as_raw_def)
  have "\<exists>b. address_wf P b \<and> r' = as_raw b"
    if "convert_unix_socket_address P r = Inr r'" "\<forall>b. r = RawAddress b \<longrightarrow> address_wf P b"
    using that from_raw_wf from_pathname_unchecked_wf
    by (fastforce simp: convert_unix_socket_address_def from_pathname_def result_bind_def
        split: raw_address.splits sum.splits)
  with raw from_raw_as_raw [OF assms(2)] bytes show ?thesis by blast
qed

text \<open>Witnesses: file names in Latin-1 on Linux.\<close>

definition ascii_platform :: platform where
  "ascii_platform =
     \<lparr>fsencode = (\<lambda>s. if \<forall>c \<in> set s. c < 256 then Inr (map char_of s) else Inl UnicodeError),
      fsdecode = map of_char, is_linux = True\<rparr>"

lemma ascii_fs_laws: "fs_laws ascii_platform"
  by (simp add: fs_laws_def ascii_platform_def o_def)

theorem unix_address_well_formed_witness:
  "from_raw ascii_platform (RawStr [0, 97, 98]) = Inr (AddrBytes (CHR 0x00 # ''ab''))
    \<and> address_wf ascii_platform (AddrBytes (CHR 0x00 # ''ab''))"
proof -
  have "from_raw ascii_platform (RawStr [0, 97, 98]) = Inr (AddrBytes (CHR 0x00 # ''ab''))" by code_simp
  with unix_address_well_formed [of "AddrBytes (CHR 0x00 # ''ab'')" None ascii_platform "RawStr [0, 97, 98]" RawNone]
  show ?thesis by blast
qed

theorem unix_address_roundtrip_witness:
  "from_raw ascii_platform (as_raw (AddrStr [47, 97])) = Inr (AddrStr [47, 97])
    \<and> convert_unix_socket_address ascii_platform (RawBytes ''/a'') = Inr (RawStr [47, 97])
    \<and> convert_unix_socket_address ascii_platform (RawStr [47, 97]) = Inr (RawStr [47, 97])"
proof -
  have "address_wf ascii_platform (AddrStr [47, 97])" by code_simp
  moreover have "convert_unix_socket_address ascii_platform (RawBytes ''/a'') = Inr (RawStr [47, 97])" by code_simp
  ultimately show ?thesis
    using unix_address_roundtrip [of ascii_platform "AddrStr [47, 97]" "''/a''" "RawBytes ''/a''" "RawStr [47, 97]"]
      ascii_fs_laws by simp
qed

section \<open>Internet socket addresses\<close>

datatype ('h, 'p) socket_address = IPv4SocketAddress 'h 'p | IPv6SocketAddress 'h 'p nat nat

datatype address_family = AF_INET | AF_INET6 | AF_UNIX | AF_OTHER

text \<open>An address tuple of the socket module has a host, a port and perhaps flow information and scope.\<close>

fun new_socket_address :: "'h \<times> 'p \<times> nat list \<Rightarrow> address_family \<Rightarrow> exc + ('h, 'p) socket_address" where
  "new_socket_address (h, p, []) AF_INET = Inr (IPv4SocketAddress h p)"
| "new_socket_address (h, p, _) AF_INET = Inl (TypeError '''')"
| "new_socket_address (h, p, []) AF_INET6 = Inr (IPv6SocketAddress h p 0 0)"
| "new_socket_address (h, p, [flowinfo]) AF_INET6 = Inr (IPv6SocketAddress h p flowinfo 0)"
| "new_socket_address (h, p, [flowinfo, scope_id]) AF_INET6 = Inr (IPv6SocketAddress h p flowinfo scope_id)"
| "new_socket_address (h, p, _) AF_INET6 = Inl (TypeError '''')"
| "new_socket_address _ _ = Inl (ValueError ''Unsupported address family'')"

fun for_connection :: "('h, 'p) socket_address \<Rightarrow> 'h \<times> 'p" where
  "for_connection (IPv4SocketAddress h p) = (h, p)"
| "for_connection (IPv6SocketAddress h p _ _) = (h, p)"

section \<open>Numbers as bytes\<close>

fun le_bytes :: "nat \<Rightarrow> nat \<Rightarrow> bytes" where
  "le_bytes 0 n = []"
| "le_bytes (Suc k) n = char_of (n mod 256) # le_bytes k (n div 256)"

fun le_value :: "bytes \<Rightarrow> nat" where
  "le_value [] = 0"
| "le_value (c # cs) = of_char c + 256 * le_value cs"

definition int32_pack :: "int \<Rightarrow> bytes" where
  "int32_pack i = le_bytes 4 (nat (i mod 2 ^ 32))"

definition int32_unpack :: "bytes \<Rightarrow> int" where
  "int32_unpack b = (let n = le_value b in if n < 2 ^ 31 then int n else int n - 2 ^ 32)"

definition int32_range :: "int \<Rightarrow> bool" where
  "int32_range i \<longleftrightarrow> - (2 ^ 31) \<le> i \<and> i < 2 ^ 31"

definition uint32_range :: "int \<Rightarrow> bool" where
  "uint32_range i \<longleftrightarrow> 0 \<le> i \<and> i < 2 ^ 32"

lemma length_le_bytes [simp]: "length (le_bytes k n) = k"
  by (induction k n rule: le_bytes.induct) simp_all

lemma length_int32_pack [simp]: "length (int32_pack i) = 4"
  by (simp add: int32_pack_def)

lemma le_value_le_bytes: "le_value (le_bytes k n) = n mod 256 ^ k"
proof (induction k n rule: le_bytes.induct)
  case (2 k n)
  have "n mod (256 * 256 ^ k) = 256 * (n div 256 mod 256 ^ k) + n mod 256" by (rule mod_mult2_eq)
  with 2 show ?case by simp
qed simp

lemma le_bytes_le_value: "le_bytes (length b) (le_value b) = b"
  by (induction b) simp_all

lemma digit_less: "c < 256 \<Longrightarrow> v < p \<Longrightarrow> c + 256 * v < 256 * p" for c v p :: nat
  by linarith

lemma le_value_less: "le_value b < 256 ^ length b"
proof (induction b)
  case (Cons c b)
  from digit_less [OF nat_of_char_less_256 Cons, of c] show ?case by simp
qed simp

lemma int32_unpack_pack: "int32_range i \<Longrightarrow> int32_unpack (int32_pack i) = i"
proof -
  assume r: "int32_range i"
  have n: "le_value (int32_pack i) = nat (i mod 2 ^ 32)"
    by (simp add: int32_pack_def le_value_le_bytes nat_mod_distrib [symmetric] flip: nat_power_eq)
  show ?thesis
  proof (cases "0 \<le> i")
    case True
    with r n show ?thesis by (simp add: int32_unpack_def int32_range_def Let_def)
  next
    case False
    have "i mod 2 ^ 32 = (i + 2 ^ 32) mod 2 ^ 32" by simp
    also have "\<dots> = i + 2 ^ 32"
      using r False by (intro mod_pos_pos_trivial) (auto simp: int32_range_def)
    finally have "i mod 2 ^ 32 = i + 2 ^ 32" .
    with r n False show ?thesis by (simp add: int32_unpack_def int32_range_def Let_def)
  qed
qed

section \<open>Ancillary data\<close>

definition sol_socket :: int where "sol_socket = 1"
definition scm_rights :: int where "scm_rights = 1"
definition scm_credentials :: int where "scm_credentials = 2"

text \<open>
  \<^verbatim>\<open>_RawSCMRights\<close> holds an \<^verbatim>\<open>array('i')\<close>, \<^verbatim>\<open>_RawSCMCredentials\<close> a \<^verbatim>\<open>bytearray\<close> of packed structures \<^verbatim>\<open>@iII\<close>.
\<close>

datatype raw_scm = RawSCMRights "int list" | RawSCMCredentials bytes

fun itemsize :: "raw_scm \<Rightarrow> nat" where
  "itemsize (RawSCMRights _) = 4"
| "itemsize (RawSCMCredentials _) = 12"

fun scm_is_empty :: "raw_scm \<Rightarrow> bool" where
  "scm_is_empty (RawSCMRights fds) \<longleftrightarrow> fds = []"
| "scm_is_empty (RawSCMCredentials b) \<longleftrightarrow> b = []"

fun split_items :: "nat \<Rightarrow> bytes \<Rightarrow> bytes list" where
  "split_items n b = (if n = 0 \<or> b = [] then [] else take n b # split_items n (drop n b))"

declare split_items.simps [simp del]

text \<open>\<^verbatim>\<open>append_raw\<close>; \<^verbatim>\<open>frombytes\<close> refuses a length that is no multiple of the item size.\<close>

fun append_raw :: "bytes \<Rightarrow> raw_scm \<Rightarrow> exc + raw_scm" where
  "append_raw b (RawSCMRights fds) =
     (if length b mod 4 \<noteq> 0 then Inl (ValueError ''bytes length not a multiple of item size'')
      else Inr (RawSCMRights (fds @ map int32_unpack (split_items 4 b))))"
| "append_raw b (RawSCMCredentials data) = Inr (RawSCMCredentials (data @ b))"

fun scm_as_raw :: "raw_scm \<Rightarrow> bytes" where
  "scm_as_raw (RawSCMRights fds) = concat (map int32_pack fds)"
| "scm_as_raw (RawSCMCredentials b) = b"

type_synonym credential = "int \<times> int \<times> int"

datatype scm_message = SCMRights "int list" | SCMCredentials "credential list"

definition unpack_credential :: "bytes \<Rightarrow> credential" where
  "unpack_credential b =
     (int32_unpack (take 4 b), int (le_value (take 4 (drop 4 b))), int (le_value (take 4 (drop 8 b))))"

fun scm_messages :: "raw_scm \<Rightarrow> scm_message" where
  "scm_messages (RawSCMRights fds) = SCMRights fds"
| "scm_messages (RawSCMCredentials b) = SCMCredentials (map unpack_credential (split_items 12 b))"

text \<open>\<^verbatim>\<open>array.extend\<close> stops at the first number that is no C \<^verbatim>\<open>int\<close>.\<close>

fun rights_append :: "int list \<Rightarrow> int list \<Rightarrow> exc option \<times> int list" where
  "rights_append old [] = (None, old)"
| "rights_append old (fd # fds) =
     (if int32_range fd then rights_append (old @ [fd]) fds else (Some (OtherError ''OverflowError''), old))"

definition pack_credential :: "int \<Rightarrow> credential \<Rightarrow> exc + bytes" where
  "pack_credential own_pid c =
     (case c of
        (pid, uid, gid) \<Rightarrow>
          let p = (if pid = 0 then own_pid else pid) in
          if int32_range p \<and> uint32_range uid \<and> uint32_range gid
          then Inr (int32_pack p @ le_bytes 4 (nat uid) @ le_bytes 4 (nat gid))
          else Inl (OtherError ''struct.error''))"

text \<open>All are packed before the first is added.\<close>

fun pack_credentials :: "int \<Rightarrow> credential list \<Rightarrow> exc + bytes" where
  "pack_credentials own_pid [] = Inr []"
| "pack_credentials own_pid (c # cs) =
     result_bind (pack_credential own_pid c) (\<lambda>b. result_bind (pack_credentials own_pid cs) (\<lambda>bs. Inr (b @ bs)))"

text \<open>\<^verbatim>\<open>SocketAncillary\<close>: a dictionary, in order of insertion.\<close>

type_synonym ancillary = "((int \<times> int) \<times> raw_scm) list"

definition ancillary_init :: ancillary where
  "ancillary_init = []"

definition determine_scm_data_type :: "int \<times> int \<Rightarrow> raw_scm option" where
  "determine_scm_data_type key =
     (if key = (sol_socket, scm_rights) then Some (RawSCMRights [])
      else if key = (sol_socket, scm_credentials) then Some (RawSCMCredentials [])
      else None)"

fun anc_update :: "int \<times> int \<Rightarrow> raw_scm \<Rightarrow> ancillary \<Rightarrow> ancillary" where
  "anc_update key v [] = [(key, v)]"
| "anc_update key v ((k, u) # a) = (if k = key then (k, v) # a else (k, u) # anc_update key v a)"

definition get_or_insert :: "int \<times> int \<Rightarrow> ancillary \<Rightarrow> raw_scm option \<times> ancillary" where
  "get_or_insert key a =
     (case map_of a key of
        Some v \<Rightarrow> (Some v, a)
      | None \<Rightarrow>
          (case determine_scm_data_type key of
             None \<Rightarrow> (None, a)
           | Some v \<Rightarrow> (Some v, anc_update key v a)))"

definition add_fds :: "int list \<Rightarrow> ancillary \<Rightarrow> exc option \<times> ancillary" where
  "add_fds fds a =
     (case get_or_insert (sol_socket, scm_rights) a of
        (Some (RawSCMRights old), a1) \<Rightarrow>
          (case rights_append old fds of
             (r, new) \<Rightarrow> (r, anc_update (sol_socket, scm_rights) (RawSCMRights new) a1))
      | (_, a1) \<Rightarrow> (Some (AssertionError ''scm_rights''), a1))"

definition add_creds :: "int \<Rightarrow> credential list \<Rightarrow> ancillary \<Rightarrow> exc option \<times> ancillary" where
  "add_creds own_pid cs a =
     (case get_or_insert (sol_socket, scm_credentials) a of
        (Some (RawSCMCredentials old), a1) \<Rightarrow>
          (case pack_credentials own_pid cs of
             Inl e \<Rightarrow> (Some e, a1)
           | Inr b \<Rightarrow> (None, anc_update (sol_socket, scm_credentials) (RawSCMCredentials (old @ b)) a1))
      | (_, a1) \<Rightarrow> (Some (AssertionError ''scm_creds''), a1))"

definition messages :: "ancillary \<Rightarrow> scm_message list" where
  "messages a = map (\<lambda>(k, v). scm_messages v) (filter (\<lambda>(k, v). \<not> scm_is_empty v) a)"

definition iter_fds :: "ancillary \<Rightarrow> int list" where
  "iter_fds a = concat (map (\<lambda>m. case m of SCMRights fds \<Rightarrow> fds | SCMCredentials _ \<Rightarrow> []) (messages a))"

definition ancillary_as_raw :: "ancillary \<Rightarrow> ((int \<times> int) \<times> bytes) list" where
  "ancillary_as_raw a = map (\<lambda>(k, v). (k, scm_as_raw v)) (filter (\<lambda>(k, v). \<not> scm_is_empty v) a)"

definition shrink_truncated_data :: "bytes \<Rightarrow> nat \<Rightarrow> bytes" where
  "shrink_truncated_data b n = take (length b - length b mod n) b"

text \<open>
  \<^verbatim>\<open>update_from_raw\<close>: the errors collected (an \<^verbatim>\<open>ExceptionGroup\<close> is raised when there are any) and the new state.
  An item \<open>Inl e\<close> cannot be unpacked; \<open>Inr (key, Inl e)\<close> has no buffer for data, which is found when its entry exists, made
  for it if need be.
\<close>

fun update_from_raw :: "(exc + (int \<times> int) \<times> (exc + bytes)) list \<Rightarrow> ancillary \<Rightarrow> exc list \<times> ancillary" where
  "update_from_raw [] a = ([], a)"
| "update_from_raw (Inl e # ms) a = (case update_from_raw ms a of (es, a') \<Rightarrow> (e # es, a'))"
| "update_from_raw (Inr (key, data) # ms) a =
     (case get_or_insert key a of
        (None, a1) \<Rightarrow> update_from_raw ms a1
      | (Some v, a1) \<Rightarrow>
          (case result_bind data (\<lambda>b. append_raw (shrink_truncated_data b (itemsize v)) v) of
             Inl e \<Rightarrow> (case update_from_raw ms a1 of (es, a') \<Rightarrow> (e # es, a'))
           | Inr v' \<Rightarrow> update_from_raw ms (anc_update key v' a1)))"

text \<open>\<^verbatim>\<open>close_fds_in_socket_ancillary\<close>: every descriptor is closed, whatever fails; the errors are raised together.\<close>

fun close_fds :: "(int \<Rightarrow> 'w \<Rightarrow> exc option \<times> 'w) \<Rightarrow> int list \<Rightarrow> 'w \<Rightarrow> exc list \<times> 'w" where
  "close_fds close [] w = ([], w)"
| "close_fds close (fd # fds) w =
     (case close fd w of
        (None, w1) \<Rightarrow> close_fds close fds w1
      | (Some e, w1) \<Rightarrow> (case close_fds close fds w1 of (es, w2) \<Rightarrow> (e # es, w2)))"

definition close_fds_in_socket_ancillary ::
  "(int \<Rightarrow> 'w \<Rightarrow> exc option \<times> 'w) \<Rightarrow> ancillary \<Rightarrow> 'w \<Rightarrow> exc list \<times> 'w"
where
  "close_fds_in_socket_ancillary close a w = close_fds close (iter_fds a) w"

section \<open>The invariant of ancillary data\<close>

definition scm_wf :: "int \<times> int \<Rightarrow> raw_scm \<Rightarrow> bool" where
  "scm_wf key v \<longleftrightarrow>
     (case v of
        RawSCMRights fds \<Rightarrow> key = (sol_socket, scm_rights) \<and> (\<forall>fd \<in> set fds. int32_range fd)
      | RawSCMCredentials b \<Rightarrow> key = (sol_socket, scm_credentials) \<and> length b mod 12 = 0)"

definition ancillary_wf :: "ancillary \<Rightarrow> bool" where
  "ancillary_wf a \<longleftrightarrow> distinct (map fst a) \<and> (\<forall>(k, v) \<in> set a. scm_wf k v)"

lemma anc_update_keys: "fst ` set (anc_update k v a) = insert k (fst ` set a)"
  by (induction k v a rule: anc_update.induct) auto

lemma anc_update_set: "(k', v') \<in> set (anc_update k v a) \<Longrightarrow> (k', v') = (k, v) \<or> (k', v') \<in> set a"
  by (induction k v a rule: anc_update.induct) (auto split: if_splits)

lemma distinct_anc_update: "distinct (map fst a) \<Longrightarrow> distinct (map fst (anc_update k v a))"
proof (induction k v a rule: anc_update.induct)
  case (2 key v k u a)
  then show ?case by (cases "k = key") (simp_all add: anc_update_keys)
qed simp

lemma map_of_anc_update [simp]: "map_of (anc_update k v a) = (map_of a)(k \<mapsto> v)"
  by (induction k v a rule: anc_update.induct) auto

lemma ancillary_wf_init: "ancillary_wf ancillary_init"
  by (simp add: ancillary_wf_def ancillary_init_def)

lemma ancillary_wf_update: "ancillary_wf a \<Longrightarrow> scm_wf k v \<Longrightarrow> ancillary_wf (anc_update k v a)"
  unfolding ancillary_wf_def using distinct_anc_update anc_update_set by fast

lemma determine_scm_wf: "determine_scm_data_type k = Some v \<Longrightarrow> scm_wf k v \<and> scm_is_empty v"
  by (auto simp: determine_scm_data_type_def scm_wf_def split: if_splits)

lemma get_or_insert_wf:
  assumes "ancillary_wf a" and "get_or_insert k a = (r, a')"
  shows "ancillary_wf a'" and "r = Some v \<Longrightarrow> scm_wf k v \<and> map_of a' k = Some v"
    and "r = None \<Longrightarrow> k \<noteq> (sol_socket, scm_rights) \<and> k \<noteq> (sol_socket, scm_credentials)"
proof -
  have *: "ancillary_wf a' \<and> (\<forall>v. r = Some v \<longrightarrow> scm_wf k v \<and> map_of a' k = Some v)
      \<and> (r = None \<longrightarrow> k \<noteq> (sol_socket, scm_rights) \<and> k \<noteq> (sol_socket, scm_credentials))"
  proof (cases "map_of a k")
    case (Some v)
    with assms have "r = Some v" "a' = a" by (simp_all add: get_or_insert_def)
    moreover have "scm_wf k v" using map_of_SomeD [OF Some] assms(1) by (auto simp: ancillary_wf_def)
    ultimately show ?thesis using assms(1) Some by simp
  next
    case None
    show ?thesis
    proof (cases "determine_scm_data_type k")
      case (Some v)
      with None assms have "r = Some v" "a' = anc_update k v a" by (simp_all add: get_or_insert_def)
      with determine_scm_wf [OF Some] ancillary_wf_update [OF assms(1)] show ?thesis by simp
    next
      case unknown: None
      with None assms have "r = None" "a' = a" by (simp_all add: get_or_insert_def)
      with unknown assms(1) show ?thesis by (auto simp: determine_scm_data_type_def split: if_splits)
    qed
  qed
  then show "ancillary_wf a'" "r = Some v \<Longrightarrow> scm_wf k v \<and> map_of a' k = Some v"
    "r = None \<Longrightarrow> k \<noteq> (sol_socket, scm_rights) \<and> k \<noteq> (sol_socket, scm_credentials)" by blast+
qed

lemma int32_unpack_range: "length b = 4 \<Longrightarrow> int32_range (int32_unpack b)"
  using le_value_less [of b] by (simp add: int32_range_def int32_unpack_def Let_def)

lemma split_items_length: "n dvd length b \<Longrightarrow> x \<in> set (split_items n b) \<Longrightarrow> length x = n"
proof (induction n b rule: split_items.induct)
  case (1 n b)
  show ?case
  proof (cases "n = 0 \<or> b = []")
    case False
    with 1(2) have "n \<le> length b" by (auto intro: dvd_imp_le)
    with 1(2) have "n dvd length (drop n b)" by simp
    with 1 False \<open>n \<le> length b\<close> show ?thesis by (subst (asm) (2) split_items.simps) auto
  qed (use 1 in \<open>simp add: split_items.simps\<close>)
qed

lemma shrink_length: "n dvd length (shrink_truncated_data b n)"
proof -
  have "length (shrink_truncated_data b n) = length b - length b mod n"
    by (simp add: shrink_truncated_data_def)
  also have "\<dots> = n * (length b div n)" by (rule minus_mod_eq_mult_div)
  finally show ?thesis by simp
qed

lemma append_raw_wf:
  assumes "scm_wf k v"
  shows "\<exists>v'. append_raw (shrink_truncated_data b (itemsize v)) v = Inr v' \<and> scm_wf k v'"
proof (cases v)
  case (RawSCMRights fds)
  have "4 dvd length (shrink_truncated_data b 4)" by (rule shrink_length)
  with assms RawSCMRights show ?thesis
    by (auto simp: scm_wf_def dvd_eq_mod_eq_0 [symmetric] intro: int32_unpack_range split_items_length)
next
  case (RawSCMCredentials d)
  have "12 dvd length (shrink_truncated_data b 12)" by (rule shrink_length)
  with assms RawSCMCredentials show ?thesis
    by (auto simp: scm_wf_def dvd_eq_mod_eq_0 [symmetric])
qed

lemma rights_append_range:
  "rights_append old fds = (r, new) \<Longrightarrow> \<forall>fd \<in> set old. int32_range fd \<Longrightarrow> \<forall>fd \<in> set new. int32_range fd"
  by (induction old fds rule: rights_append.induct) (auto split: if_splits)

lemma pack_credentials_length: "pack_credentials p cs = Inr b \<Longrightarrow> length b = 12 * length cs"
proof (induction p cs arbitrary: b rule: pack_credentials.induct)
  case (2 p c cs)
  then show ?case
    by (auto simp: result_bind_def pack_credential_def Let_def split: sum.splits prod.splits if_splits)
qed simp

lemma add_fds_wf: "ancillary_wf a \<Longrightarrow> ancillary_wf (snd (add_fds fds a))"
proof -
  assume wf: "ancillary_wf a"
  obtain r a1 where g: "get_or_insert (sol_socket, scm_rights) a = (r, a1)" by fastforce
  note get_or_insert_wf [OF wf g]
  moreover from this obtain old where "r = Some (RawSCMRights old)"
    by (cases r) (auto simp: scm_wf_def scm_rights_def scm_credentials_def split: raw_scm.splits)
  moreover obtain e new where "rights_append old fds = (e, new)" by fastforce
  ultimately show ?thesis
    using rights_append_range [of old fds e new] g
    by (auto simp: add_fds_def scm_wf_def intro!: ancillary_wf_update)
qed

lemma add_creds_wf: "ancillary_wf a \<Longrightarrow> ancillary_wf (snd (add_creds p cs a))"
proof -
  assume wf: "ancillary_wf a"
  obtain r a1 where g: "get_or_insert (sol_socket, scm_credentials) a = (r, a1)" by fastforce
  note get_or_insert_wf [OF wf g]
  moreover from this obtain old where "r = Some (RawSCMCredentials old)"
    by (cases r) (auto simp: scm_wf_def scm_rights_def scm_credentials_def split: raw_scm.splits)
  ultimately show ?thesis
    using pack_credentials_length [of p cs] g
    by (auto simp: add_creds_def scm_wf_def mod_add_left_eq [symmetric] split: sum.split intro!: ancillary_wf_update)
qed

lemma update_from_raw_wf: "ancillary_wf a \<Longrightarrow> ancillary_wf (snd (update_from_raw ms a))"
proof (induction ms a rule: update_from_raw.induct)
  case (3 key data ms a)
  obtain r a1 where g: "get_or_insert key a = (r, a1)" by fastforce
  note g' = get_or_insert_wf [OF 3(4) g]
  show ?case
  proof (cases r)
    case None
    with 3 g g' show ?thesis by simp
  next
    case (Some v)
    show ?thesis
    proof (cases data)
      case (Inl e)
      with 3 g g' Some show ?thesis by (cases "update_from_raw ms a1") (auto simp: result_bind_def)
    next
      case (Inr b)
      with g' Some obtain v' where "append_raw (shrink_truncated_data b (itemsize v)) v = Inr v'" "scm_wf key v'"
        using append_raw_wf by blast
      with 3 g g' Some Inr show ?thesis by (simp add: ancillary_wf_update result_bind_def)
    qed
  qed
qed (auto split: prod.split)

text \<open>The errors of what is received: of unreadable items, and of items without data whose type is known.\<close>

definition unreadable :: "exc + (int \<times> int) \<times> (exc + bytes) \<Rightarrow> exc list" where
  "unreadable item =
     (case item of
        Inl e \<Rightarrow> [e]
      | Inr (key, Inl e) \<Rightarrow> if determine_scm_data_type key = None then [] else [e]
      | Inr (key, Inr _) \<Rightarrow> [])"

lemma get_or_insert_known:
  assumes "ancillary_wf a" and "get_or_insert key a = (r, a1)"
  shows "r = None \<longleftrightarrow> determine_scm_data_type key = None"
proof (cases "map_of a key")
  case (Some v)
  with assms(1) have "scm_wf key v" by (auto simp: ancillary_wf_def dest: map_of_SomeD)
  then have "determine_scm_data_type key \<noteq> None"
    by (cases v) (auto simp: scm_wf_def determine_scm_data_type_def)
  with Some assms(2) show ?thesis by (auto simp: get_or_insert_def)
qed (use assms(2) in \<open>auto simp: get_or_insert_def split: option.splits\<close>)

lemma update_from_raw_errors:
  "ancillary_wf a \<Longrightarrow> fst (update_from_raw ms a) = concat (map unreadable ms)"
proof (induction ms a rule: update_from_raw.induct)
  case (3 key data ms a)
  obtain r a1 where g: "get_or_insert key a = (r, a1)" by fastforce
  note g' = get_or_insert_wf [OF 3(4) g] and known = get_or_insert_known [OF 3(4) g]
  show ?case
  proof (cases r)
    case None
    with 3 g g' known show ?thesis by (simp add: unreadable_def split: sum.split)
  next
    case (Some v)
    show ?thesis
    proof (cases data)
      case (Inl e)
      with 3 g g' Some known show ?thesis
        by (cases "update_from_raw ms a1") (auto simp: result_bind_def unreadable_def)
    next
      case (Inr b)
      with g' Some obtain v' where "append_raw (shrink_truncated_data b (itemsize v)) v = Inr v'" "scm_wf key v'"
        using append_raw_wf by blast
      with 3 g g' Some Inr show ?thesis by (simp add: ancillary_wf_update result_bind_def unreadable_def)
    qed
  qed
qed (auto simp: unreadable_def split: prod.split)

text \<open>
  C20: the state of ancillary data is always well typed: file descriptors are C integers under their key,
  credentials are whole structures under theirs, and there is one entry for a key, whatever was added or received
  (truncated by the system or not).  For this reason receiving fails only on a message that cannot be
  read, and the assertions of \<^verbatim>\<open>add_fds\<close> and \<^verbatim>\<open>add_creds\<close> hold.
\<close>

theorem ancillary_well_typed:
  assumes "ancillary_wf a"
  shows "ancillary_wf (snd (add_fds fds a)) \<and> ancillary_wf (snd (add_creds pid cs a))
    \<and> ancillary_wf (snd (update_from_raw ms a))
    \<and> fst (update_from_raw ms a) = concat (map unreadable ms)
    \<and> (\<forall>e. fst (add_fds fds a) = Some e \<longrightarrow> e = OtherError ''OverflowError'')
    \<and> (\<forall>e. fst (add_creds pid cs a) = Some e \<longrightarrow> e = OtherError ''struct.error'')"
proof (intro conjI allI impI)
  show "ancillary_wf (snd (add_fds fds a))" "ancillary_wf (snd (add_creds pid cs a))"
    "ancillary_wf (snd (update_from_raw ms a))"
    using assms by (simp_all add: add_fds_wf add_creds_wf update_from_raw_wf)
  show "fst (update_from_raw ms a) = concat (map unreadable ms)" by (rule update_from_raw_errors [OF assms])
  fix e
  have overflow: "rights_append old fds = (r, new) \<Longrightarrow> r = None \<or> r = Some (OtherError ''OverflowError'')" for old r new
    by (induction old fds rule: rights_append.induct) (auto split: if_splits)
  obtain r a1 where g: "get_or_insert (sol_socket, scm_rights) a = (r, a1)" by fastforce
  from get_or_insert_wf [OF assms g] obtain old where old: "r = Some (RawSCMRights old)"
    by (cases r) (auto simp: scm_wf_def scm_rights_def scm_credentials_def split: raw_scm.splits)
  show "e = OtherError ''OverflowError''" if "fst (add_fds fds a) = Some e"
    using that g old overflow [of old] by (auto simp: add_fds_def split: prod.splits)
  have struct: "pack_credentials pid cs = Inl e \<Longrightarrow> e = OtherError ''struct.error''" for e
    by (induction pid cs rule: pack_credentials.induct)
      (auto simp: result_bind_def pack_credential_def Let_def split: sum.splits prod.splits if_splits)
  obtain r' a2 where h: "get_or_insert (sol_socket, scm_credentials) a = (r', a2)" by fastforce
  from get_or_insert_wf [OF assms h] obtain old' where old': "r' = Some (RawSCMCredentials old')"
    by (cases r') (auto simp: scm_wf_def scm_rights_def scm_credentials_def split: raw_scm.splits)
  show "e = OtherError ''struct.error''" if "fst (add_creds pid cs a) = Some e"
    using that h old' struct by (auto simp: add_creds_def split: sum.splits)
qed

section \<open>Ancillary data through the socket\<close>

lemma split_items_nil [simp]: "split_items n [] = []"
  by (simp add: split_items.simps)

lemma split_items_append: "0 < n \<Longrightarrow> length x = n \<Longrightarrow> split_items n (x @ b) = x # split_items n b"
  by (subst split_items.simps) auto

lemma split_rights: "split_items 4 (concat (map int32_pack fds)) = map int32_pack fds"
  by (induction fds) (simp_all add: split_items_append)

lemma unpack_rights: "\<forall>fd \<in> set fds. int32_range fd \<Longrightarrow> map (int32_unpack \<circ> int32_pack) fds = fds"
  by (induction fds) (simp_all add: int32_unpack_pack)

lemma length_rights: "length (concat (map int32_pack fds)) = 4 * length fds"
  by (induction fds) simp_all

lemma shrink_id: "n dvd length b \<Longrightarrow> shrink_truncated_data b n = b"
  by (simp add: shrink_truncated_data_def)

text \<open>A message received under a key that has none yet.\<close>

lemma append_raw_as_raw:
  assumes "scm_wf k v" and "determine_scm_data_type k = Some u"
  shows "append_raw (shrink_truncated_data (scm_as_raw v) (itemsize u)) u = Inr v"
proof (cases v)
  case (RawSCMRights fds)
  with assms have "u = RawSCMRights []" by (auto simp: scm_wf_def determine_scm_data_type_def)
  with assms RawSCMRights show ?thesis
    by (simp add: shrink_id length_rights split_rights unpack_rights scm_wf_def)
next
  case (RawSCMCredentials b)
  with assms have "u = RawSCMCredentials []"
    by (auto simp: scm_wf_def determine_scm_data_type_def scm_rights_def scm_credentials_def)
  with assms RawSCMCredentials show ?thesis
    by (simp add: shrink_id scm_wf_def dvd_eq_mod_eq_0)
qed

lemma anc_update_new: "k \<notin> fst ` set a \<Longrightarrow> anc_update k v a = a @ [(k, v)]"
  by (induction k v a rule: anc_update.induct) auto

lemma anc_update_last: "k \<notin> fst ` set a \<Longrightarrow> anc_update k v (a @ [(k, u)]) = a @ [(k, v)]"
  by (induction a) auto

lemma update_from_as_raw:
  assumes "ancillary_wf a" and "fst ` set a \<inter> fst ` set b = {}"
  shows "update_from_raw (map (\<lambda>(k, d). Inr (k, Inr d)) (ancillary_as_raw a)) b = ([], b @ filter (\<lambda>(k, v). \<not> scm_is_empty v) a)"
  using assms
proof (induction a arbitrary: b)
  case (Cons kv a)
  obtain k v where kv: "kv = (k, v)" by fastforce
  have wf: "ancillary_wf a" "scm_wf k v" "k \<notin> fst ` set a"
    using Cons.prems(1) by (auto simp: ancillary_wf_def kv)
  have b: "fst ` set a \<inter> fst ` set b = {}" and k: "k \<notin> fst ` set b" using Cons.prems(2) by (auto simp: kv)
  show ?case
  proof (cases "scm_is_empty v")
    case True
    with Cons.IH [OF wf(1) b] show ?thesis by (simp add: kv ancillary_as_raw_def)
  next
    case False
    obtain u where u: "determine_scm_data_type k = Some u"
      using wf(2) by (cases v) (auto simp: scm_wf_def determine_scm_data_type_def scm_rights_def scm_credentials_def)
    have "map_of b k = None" using k by (simp add: map_of_eq_None_iff)
    with u k have g: "get_or_insert k b = (Some u, b @ [(k, u)])"
      by (simp add: get_or_insert_def anc_update_new)
    have "fst ` set a \<inter> fst ` set (b @ [(k, v)]) = {}" using b wf(3) by auto
    from Cons.IH [OF wf(1) this] False g append_raw_as_raw [OF wf(2) u] k show ?thesis
      by (simp add: kv ancillary_as_raw_def anc_update_last)
  qed
qed (simp add: ancillary_as_raw_def)

text \<open>
  what one side puts into its ancillary data the other side finds: the raw form, received into empty
  ancillary data, gives no errors and the same messages in the same order, the same descriptors in particular.
\<close>

theorem ancillary_roundtrip:
  assumes "ancillary_wf a" and "update_from_raw (map (\<lambda>(k, d). Inr (k, Inr d)) (ancillary_as_raw a)) ancillary_init = (errors, received)"
  shows "errors = [] \<and> messages received = messages a \<and> iter_fds received = iter_fds a"
proof -
  have "errors = []" and r: "received = filter (\<lambda>(k, v). \<not> scm_is_empty v) a"
    using update_from_as_raw [OF assms(1), of ancillary_init] assms(2) by (simp_all add: ancillary_init_def)
  moreover have "messages received = messages a" by (simp add: r messages_def)
  ultimately show ?thesis by (simp add: iter_fds_def)
qed

text \<open>
  Closing the descriptors received closes every one of them, in order, even when closing some of them fails; the
  errors are all reported.
\<close>

lemma close_fds_all:
  "close_fds (\<lambda>fd tried. (if fails fd then Some (OSError ''EIO'' '''') else None, tried @ [fd])) fds tried
    = (map (\<lambda>fd. OSError ''EIO'' '''') (filter fails fds), tried @ fds)"
  by (induction fds arbitrary: tried) auto

text \<open>Witnesses.\<close>

definition sample_ancillary :: ancillary where
  "sample_ancillary = snd (add_fds [8] (snd (add_fds [7] ancillary_init)))"

lemma sample_ancillary_wf: "ancillary_wf sample_ancillary"
  by (simp add: sample_ancillary_def add_fds_wf ancillary_wf_init)

theorem ancillary_well_typed_witness:
  "ancillary_wf (snd (update_from_raw [Inr ((1, 1), Inr ''abcdefg''), Inl (TypeError ''''), Inr ((5, 5), Inr ''x'')] sample_ancillary))
    \<and> fst (update_from_raw [Inr ((1, 1), Inr ''abcdefg''), Inl (TypeError ''''), Inr ((5, 5), Inr ''x'')] sample_ancillary)
        = [TypeError '''']"
  using ancillary_well_typed [OF sample_ancillary_wf, of "[]" 1 "[]"
      "[Inr ((1, 1), Inr ''abcdefg''), Inl (TypeError ''''), Inr ((5, 5), Inr ''x'')]"]
  by (simp add: unreadable_def del: update_from_raw.simps)

theorem ancillary_roundtrip_witness:
  "\<exists>received. update_from_raw (map (\<lambda>(k, d). Inr (k, Inr d)) (ancillary_as_raw sample_ancillary)) ancillary_init = ([], received)
    \<and> messages received = [SCMRights [7, 8]] \<and> iter_fds received = [7, 8]"
proof -
  obtain errors received where run: "update_from_raw (map (\<lambda>(k, d). Inr (k, Inr d)) (ancillary_as_raw sample_ancillary)) ancillary_init = (errors, received)"
    by fastforce
  have "messages sample_ancillary = [SCMRights [7, 8]]" "iter_fds sample_ancillary = [7, 8]" by code_simp+
  with run ancillary_roundtrip [OF sample_ancillary_wf run] show ?thesis by simp
qed

section \<open>The linger option\<close>

text \<open>The structure \<^verbatim>\<open>@ii\<close>.\<close>

definition linger_pack :: "bool \<Rightarrow> int \<Rightarrow> exc + bytes" where
  "linger_pack enabled timeout =
     (if int32_range timeout then Inr (int32_pack (if enabled then 1 else 0) @ int32_pack timeout)
      else Inl (OtherError ''struct.error''))"

definition linger_unpack :: "bytes \<Rightarrow> exc + int \<times> int" where
  "linger_unpack b =
     (if length b = 8 then Inr (int32_unpack (take 4 b), int32_unpack (drop 4 b)) else Inl (OtherError ''struct.error''))"

definition get_socket_linger :: "(nat \<Rightarrow> 'w \<Rightarrow> exc + bytes) \<Rightarrow> 'w \<Rightarrow> exc + bool \<times> int" where
  "get_socket_linger getsockopt w =
     result_bind (getsockopt 8 w) (\<lambda>b. result_bind (linger_unpack b) (\<lambda>(enabled, timeout). Inr (enabled \<noteq> 0, timeout)))"

definition enable_socket_linger :: "(bytes \<Rightarrow> 'w \<Rightarrow> exc + 'w) \<Rightarrow> int \<Rightarrow> 'w \<Rightarrow> exc + 'w" where
  "enable_socket_linger setsockopt timeout w = result_bind (linger_pack True timeout) (\<lambda>b. setsockopt b w)"

definition disable_socket_linger :: "(bytes \<Rightarrow> 'w \<Rightarrow> exc + 'w) \<Rightarrow> 'w \<Rightarrow> exc + 'w" where
  "disable_socket_linger setsockopt w = result_bind (linger_pack False 0) (\<lambda>b. setsockopt b w)"

text \<open>A system that keeps the option: what is set is read back; a time that is no C integer is refused.\<close>

lemma linger_roundtrip:
  assumes keeps: "\<And>b w w' n. setsockopt b w = Inr w' \<Longrightarrow> getsockopt (length b) w' = Inr b"
  shows "enable_socket_linger setsockopt timeout w = Inr w' \<Longrightarrow> get_socket_linger getsockopt w' = Inr (True, timeout)"
    and "disable_socket_linger setsockopt w = Inr w' \<Longrightarrow> get_socket_linger getsockopt w' = Inr (False, 0)"
proof -
  have *: "get_socket_linger getsockopt w' = Inr (enabled, timeout)"
    if "result_bind (linger_pack enabled timeout) (\<lambda>b. setsockopt b w) = Inr w'" for enabled timeout
  proof -
    from that have r: "int32_range timeout"
      and set: "setsockopt (int32_pack (if enabled then 1 else 0) @ int32_pack timeout) w = Inr w'"
      by (auto simp: linger_pack_def split: if_splits)
    have "int32_range (if enabled then 1 else 0)" by (simp add: int32_range_def)
    with r keeps [OF set] show ?thesis
      by (simp add: get_socket_linger_def linger_unpack_def int32_unpack_pack)
  qed
  show "enable_socket_linger setsockopt timeout w = Inr w' \<Longrightarrow> get_socket_linger getsockopt w' = Inr (True, timeout)"
    unfolding enable_socket_linger_def by (rule *)
  show "disable_socket_linger setsockopt w = Inr w' \<Longrightarrow> get_socket_linger getsockopt w' = Inr (False, 0)"
    unfolding disable_socket_linger_def by (rule *)
qed

section \<open>Peer credentials\<close>

text \<open>\<^verbatim>\<open>__get_ucred_impl\<close> on Linux: the structure \<^verbatim>\<open>@iII\<close> of \<^verbatim>\<open>SO_PEERCRED\<close>, and the container that asks once.\<close>

definition get_peer_credentials :: "int \<Rightarrow> (nat \<Rightarrow> exc + bytes) \<Rightarrow> exc + credential" where
  "get_peer_credentials fileno getsockopt =
     (if fileno < 0 then Inl (OSError ''EBADF'' '''')
      else result_bind (getsockopt 12) (\<lambda>b.
        if length b \<noteq> 12 then Inl (OtherError ''struct.error'')
        else (case unpack_credential b of
                (pid, uid, gid) \<Rightarrow>
                  if pid = 0 \<or> uid = 2 ^ 32 - 1 \<or> gid = 2 ^ 32 - 1 then Inl (OSError ''EINVAL'' '''')
                  else Inr (pid, uid, gid))))"

definition creds_container_get :: "(unit \<Rightarrow> exc + credential) \<Rightarrow> credential option \<Rightarrow> (exc + credential) \<times> credential option" where
  "creds_container_get get cached =
     (case cached of
        Some c \<Rightarrow> (Inr c, cached)
      | None \<Rightarrow> (case get () of Inl e \<Rightarrow> (Inl e, None) | Inr c \<Rightarrow> (Inr c, Some c)))"

lemma creds_container_get_again:
  "creds_container_get get cached = (Inr c, cached') \<Longrightarrow> creds_container_get get' cached' = (Inr c, cached')"
  by (cases c; cases cached; cases "get ()") (auto simp: creds_container_get_def)

section \<open>Typed attributes\<close>

text \<open>\<^verbatim>\<open>TypedAttributeProvider.extra\<close>: an attribute that is missing, or whose value is not available, has the default.\<close>

fun is_TypedAttributeLookupError :: "exc \<Rightarrow> bool" where
  "is_TypedAttributeLookupError (TypedAttributeLookupError _) \<longleftrightarrow> True"
| "is_TypedAttributeLookupError _ \<longleftrightarrow> False"

definition extra :: "('k \<rightharpoonup> (unit \<Rightarrow> exc + 'v)) \<Rightarrow> 'k \<Rightarrow> 'v option \<Rightarrow> exc + 'v" where
  "extra extra_attributes attribute dflt =
     (case (case extra_attributes attribute of
              None \<Rightarrow> Inl (TypedAttributeLookupError ''Attribute not found'')
            | Some f \<Rightarrow> f ()) of
        Inr v \<Rightarrow> Inr v
      | Inl e \<Rightarrow>
          if is_TypedAttributeLookupError e then (case dflt of None \<Rightarrow> Inl e | Some d \<Rightarrow> Inr d)
          else Inl e)"

definition address_or_lookup_error :: "(unit \<Rightarrow> exc + int) \<Rightarrow> (unit \<Rightarrow> exc + 'v) \<Rightarrow> exc + 'v" where
  "address_or_lookup_error fileno getsockaddr =
     (case result_bind (fileno ()) (\<lambda>fd. if fd < 0 then Inl (OSError ''EBADF'' '''') else getsockaddr ()) of
        Inl e \<Rightarrow> Inl (if is_OSError e then TypedAttributeLookupError ''address not available'' else e)
      | Inr v \<Rightarrow> Inr v)"

definition value_or_lookup_error :: "'v option \<Rightarrow> exc + 'v" where
  "value_or_lookup_error v =
     (case v of None \<Rightarrow> Inl (TypedAttributeLookupError ''value not available'') | Some x \<Rightarrow> Inr x)"

text \<open>\<^verbatim>\<open>sockname\<close> and \<^verbatim>\<open>peername\<close> of a socket that is closed or not connected are simply not available.\<close>

lemma extra_address_default:
  assumes "attrs k = Some (\<lambda>_. address_or_lookup_error fileno getsockaddr)"
    and "\<And>e. fileno () = Inl e \<or> getsockaddr () = Inl e \<Longrightarrow> is_OSError e"
  shows "\<exists>v. extra attrs k (Some d) = Inr v \<and> (v = d \<or> getsockaddr () = Inr v)"
  using assms(2)
  by (auto simp: extra_def assms(1) address_or_lookup_error_def result_bind_def split: sum.split)

end
