(* ===== verification/RawTransport.thy ===== *)
theory RawTransport
  imports AsyncTransport SyncTransport FairLock
begin

text \<open>
  Asynchronous transports on bare sockets: \<^verbatim>\<open>_asyncio/_base_raw_transport.py\<close> and the Unix adapters of
  \<^verbatim>\<open>_asyncio/stream/socket.py\<close> and \<^verbatim>\<open>_asyncio/datagram/socket.py\<close> (all under
  \<^verbatim>\<open>src/src/easynetwork/lowlevel/api_async/backend/\<close>).

  A coroutine that reads or writes is inside a cancel scope of its own, which \<^verbatim>\<open>aclose\<close> may cancel.  Coroutines are
  named by tasks.  The state holds \<^verbatim>\<open>__socket\<close> (set or \<^verbatim>\<open>None\<close>), whether the descriptor is open, the two scopes,
  and the rest of the world; an awaited operation may change all of it.
\<close>



text \<open>
  \<open>rs_cancelled\<close>: the scope was cancelled; \<open>rs_socket\<close>: the context was entered with a socket (\<^verbatim>\<open>send_eof\<close> also enters
  it on a closed transport).
\<close>

record raw_scope =
  rs_task :: task
  rs_cancelled :: bool
  rs_socket :: bool

record 'w raw =
  raw_socket :: bool
  raw_fd :: bool
  raw_read :: "raw_scope option"
  raw_write :: "raw_scope option"
  raw_world :: 'w

definition raw_init :: "'w \<Rightarrow> 'w raw" where
  "raw_init w = \<lparr>raw_socket = True, raw_fd = True, raw_read = None, raw_write = None, raw_world = w\<rparr>"

definition raw_is_closing :: "'w raw \<Rightarrow> bool" where
  "raw_is_closing s \<longleftrightarrow> \<not> raw_socket s \<or> \<not> raw_fd s"

section \<open>The contexts of readers and writers\<close>

definition read_context_enter :: "task \<Rightarrow> 'w raw \<Rightarrow> exc + 'w raw" where
  "read_context_enter t s =
     (if raw_read s \<noteq> None
      then Inl (BusyResourceError ''called while another coroutine is already waiting for incoming data'')
      else if \<not> raw_socket s then Inl (error_from_errno ''EBADF'')
      else Inr (s\<lparr>raw_read := Some \<lparr>rs_task = t, rs_cancelled = False, rs_socket = True\<rparr>\<rparr>))"

definition write_context_enter :: "bool \<Rightarrow> task \<Rightarrow> 'w raw \<Rightarrow> exc + 'w raw" where
  "write_context_enter accept_closed_sockets t s =
     (if raw_write s \<noteq> None
      then Inl (BusyResourceError ''called while another coroutine is already sending data'')
      else if \<not> raw_socket s \<and> \<not> accept_closed_sockets then Inl (error_from_errno ''EBADF'')
      else Inr (s\<lparr>raw_write := Some \<lparr>rs_task = t, rs_cancelled = False, rs_socket = raw_socket s\<rparr>\<rparr>))"

text \<open>
  Leaving: the scope suppresses what it says it has caught, and then \<^verbatim>\<open>EBADF\<close> is raised.  Setting the future of the writer
  is removing its scope.
\<close>

definition read_context_exit :: "'w raw backend \<Rightarrow> (exc + 'r) \<times> 'w raw \<Rightarrow> (exc + 'r) \<times> 'w raw" where
  "read_context_exit B body =
     (case body of
        (res, s) \<Rightarrow>
          (case be_exit B (error_of res) (s\<lparr>raw_read := None\<rparr>) of
             ((suppressed, caught), s') \<Rightarrow> (if caught then Inl (error_from_errno ''EBADF'') else res, s')))"

definition write_context_exit :: "'w raw backend \<Rightarrow> (exc + 'r) \<times> 'w raw \<Rightarrow> (exc + 'r) \<times> 'w raw" where
  "write_context_exit B body =
     (case body of
        (res, s) \<Rightarrow>
          (case be_exit B (error_of res) (s\<lparr>raw_write := None\<rparr>) of
             ((suppressed, caught), s') \<Rightarrow> (if caught then Inl (error_from_errno ''EBADF'') else res, s')))"

section \<open>Loops over a non-blocking socket\<close>

text \<open>
  A socket call gives an \<open>os_result\<close>, \<open>Blocking\<close> for \<^verbatim>\<open>BlockingIOError\<close> and \<^verbatim>\<open>InterruptedError\<close>; then the coroutine waits until
  the descriptor is ready, unless it is cancelled there.
\<close>

partial_function (option) sock_loop ::
  "('s \<Rightarrow> 'r os_result \<times> 's) \<Rightarrow> ('s \<Rightarrow> exc option \<times> 's) \<Rightarrow> 's \<Rightarrow> ((exc + 'r) \<times> 's) option"
where
  "sock_loop call wait_until_ready s =
     (case call s of
        (Ok r, s1) \<Rightarrow> Some (Inr r, s1)
      | (OsFail e, s1) \<Rightarrow> Some (Inl e, s1)
      | (Blocking, s1) \<Rightarrow>
          (case wait_until_ready s1 of
             (Some e, s2) \<Rightarrow> Some (Inl e, s2)
           | (None, s2) \<Rightarrow> sock_loop call wait_until_ready s2))"

partial_function (option) sock_send_all_loop ::
  "('d \<Rightarrow> 's \<Rightarrow> 'r os_result \<times> 's) \<Rightarrow> ('r \<Rightarrow> 'd \<Rightarrow> exc + 'd) \<Rightarrow> ('d \<Rightarrow> bool) \<Rightarrow> ('s \<Rightarrow> exc option \<times> 's)
    \<Rightarrow> 'd \<Rightarrow> 's \<Rightarrow> ((exc + unit) \<times> 's) option"
where
  "sock_send_all_loop send send_success retry_send wait_until_writable data s =
     (case send data s of
        (Ok result, s1) \<Rightarrow>
          (case send_success result data of
             Inl e \<Rightarrow> Some (Inl e, s1)
           | Inr data' \<Rightarrow>
               if retry_send data' then sock_send_all_loop send send_success retry_send wait_until_writable data' s1
               else Some (Inr (), s1))
      | (OsFail e, s1) \<Rightarrow> Some (Inl e, s1)
      | (Blocking, s1) \<Rightarrow>
          (case wait_until_writable s1 of
             (Some e, s2) \<Rightarrow> Some (Inl e, s2)
           | (None, s2) \<Rightarrow> sock_send_all_loop send send_success retry_send wait_until_writable data s2))"

text \<open>The shortcut by the event loop's own method, which may be missing.\<close>

definition try_async_or ::
  "('s \<Rightarrow> (exc + 'r) \<times> 's) option \<Rightarrow> ('s \<Rightarrow> ((exc + 'r) \<times> 's) option) \<Rightarrow> 's \<Rightarrow> ((exc + 'r) \<times> 's) option"
where
  "try_async_or try_async fallback s =
     (case try_async of
        None \<Rightarrow> fallback s
      | Some f \<Rightarrow>
          (case f s of
             (Inl e, s1) \<Rightarrow> if e = not_implemented then fallback s1 else Some (Inl e, s1)
           | (Inr r, s1) \<Rightarrow> Some (Inr r, s1)))"

definition sock_recv ::
  "'w raw backend \<Rightarrow> task \<Rightarrow> ('w raw \<Rightarrow> 'r os_result \<times> 'w raw) \<Rightarrow> ('w raw \<Rightarrow> (exc + 'r) \<times> 'w raw) option
    \<Rightarrow> ('w raw \<Rightarrow> exc option \<times> 'w raw) \<Rightarrow> 'w raw \<Rightarrow> ((exc + 'r) \<times> 'w raw) option"
where
  "sock_recv B t recv try_async_recv wait_until_readable s =
     (case read_context_enter t s of
        Inl e \<Rightarrow> Some (Inl e, s)
      | Inr s1 \<Rightarrow>
          map_option (read_context_exit B)
            (try_async_or try_async_recv (sock_loop recv wait_until_readable) (be_enter B Infinity s1)))"

definition sock_send ::
  "'w raw backend \<Rightarrow> task \<Rightarrow> ('w raw \<Rightarrow> 'r os_result \<times> 'w raw) \<Rightarrow> ('w raw \<Rightarrow> (exc + 'r) \<times> 'w raw) option
    \<Rightarrow> ('w raw \<Rightarrow> exc option \<times> 'w raw) \<Rightarrow> 'w raw \<Rightarrow> ((exc + 'r) \<times> 'w raw) option"
where
  "sock_send B t send try_async_send wait_until_writable s =
     (case write_context_enter False t s of
        Inl e \<Rightarrow> Some (Inl e, s)
      | Inr s1 \<Rightarrow>
          map_option (write_context_exit B)
            (try_async_or try_async_send (sock_loop send wait_until_writable) (be_enter B Infinity s1)))"

definition sock_send_all ::
  "'w raw backend \<Rightarrow> task \<Rightarrow> ('d \<Rightarrow> 'w raw \<Rightarrow> 'r os_result \<times> 'w raw) \<Rightarrow> ('r \<Rightarrow> 'd \<Rightarrow> exc + 'd) \<Rightarrow> ('d \<Rightarrow> bool)
    \<Rightarrow> ('d \<Rightarrow> 'w raw \<Rightarrow> (exc + unit) \<times> 'w raw) option \<Rightarrow> ('w raw \<Rightarrow> exc option \<times> 'w raw) \<Rightarrow> 'd \<Rightarrow> 'w raw
    \<Rightarrow> ((exc + unit) \<times> 'w raw) option"
where
  "sock_send_all B t send send_success retry_send try_async_send wait_until_writable data s =
     (case write_context_enter False t s of
        Inl e \<Rightarrow> Some (Inl e, s)
      | Inr s1 \<Rightarrow>
          map_option (write_context_exit B)
            (try_async_or (map_option (\<lambda>f. f data) try_async_send)
               (sock_send_all_loop send send_success retry_send wait_until_writable data) (be_enter B Infinity s1)))"

section \<open>The Unix adapters\<close>

text \<open>The socket and the loop: \<open>ro_sock_sendall\<close> is the loop's own \<^verbatim>\<open>sock_sendall\<close>, and so on.\<close>

record ('a, 'w) raw_ops =
  ro_recv :: "nat \<Rightarrow> 'w raw \<Rightarrow> bytes os_result \<times> 'w raw"
  ro_sock_recv :: "nat \<Rightarrow> 'w raw \<Rightarrow> (exc + bytes) \<times> 'w raw"
  ro_recvmsg :: "nat \<Rightarrow> nat \<Rightarrow> 'w raw \<Rightarrow> (bytes \<times> 'a) os_result \<times> 'w raw"
  ro_send :: "bytes \<Rightarrow> 'w raw \<Rightarrow> nat os_result \<times> 'w raw"
  ro_sock_sendall :: "bytes \<Rightarrow> 'w raw \<Rightarrow> (exc + unit) \<times> 'w raw"
  ro_sendmsg :: "bytes list \<Rightarrow> 'a option \<Rightarrow> 'w raw \<Rightarrow> nat os_result \<times> 'w raw"
  ro_shutdown_write :: "'w raw \<Rightarrow> unit os_result \<times> 'w raw"
  ro_wait_readable :: "'w raw \<Rightarrow> exc option \<times> 'w raw"
  ro_wait_writable :: "'w raw \<Rightarrow> exc option \<times> 'w raw"
  ro_yield :: "'w raw \<Rightarrow> exc option \<times> 'w raw"
  ro_wait_writer :: "task \<Rightarrow> 'w raw \<Rightarrow> exc option \<times> 'w raw"

definition raw_recv where
  "raw_recv B O' t bufsize =
     sock_recv B t (ro_recv O' bufsize) (Some (ro_sock_recv O' bufsize)) (ro_wait_readable O')"

definition raw_recv_with_ancillary where
  "raw_recv_with_ancillary B O' t bufsize ancillary_bufsize =
     sock_recv B t (ro_recvmsg O' bufsize ancillary_bufsize) None (ro_wait_readable O')"

definition raw_send_all where
  "raw_send_all B O' t data =
     sock_send_all B t (ro_send O') (\<lambda>sent d. Inr (drop sent d)) (\<lambda>d. 0 < length d) (Some (ro_sock_sendall O'))
       (ro_wait_writable O') data"

definition raw_send_all_from_iterable where
  "raw_send_all_from_iterable B O' t iov_max buffers =
     sock_send_all B t (\<lambda>bs. ro_sendmsg O' (take iov_max bs) None) (\<lambda>sent bs. adjust_leftover_buffer bs sent)
       (\<lambda>bs. bs \<noteq> []) None (ro_wait_writable O') buffers"

text \<open>Ancillary data goes with the first call only, so that there is only one.\<close>

definition raw_send_all_with_ancillary ::
  "'w raw backend \<Rightarrow> ('a, 'w) raw_ops \<Rightarrow> task \<Rightarrow> nat \<Rightarrow> bytes list \<Rightarrow> 'a \<Rightarrow> 'w raw \<Rightarrow> (exc option \<times> 'w raw) option"
where
  "raw_send_all_with_ancillary B O' t iov_max buffers ancillary s =
     (case sock_send B t (ro_sendmsg O' (take iov_max buffers) (Some ancillary)) None (ro_wait_writable O') s of
        None \<Rightarrow> None
      | Some (Inl e, s1) \<Rightarrow> Some (Some e, s1)
      | Some (Inr sent, s1) \<Rightarrow>
          (case adjust_leftover_buffer buffers sent of
             Inl e \<Rightarrow> Some (Some e, s1)
           | Inr buffers' \<Rightarrow> Some (if buffers' \<noteq> [] then Some (error_from_errno ''EMSGSIZE'') else None, s1)))"

definition not_connected_errnos :: "string list" where
  "not_connected_errnos = [''ENOTCONN'', ''EINVAL'']"

definition closed_socket_errnos :: "string list" where
  "closed_socket_errnos = [''EBADF'', ''ENOTSOCK'']"

definition raw_shutdown_error :: "exc \<Rightarrow> exc option" where
  "raw_shutdown_error e =
     (case e of
        OSError errno _ \<Rightarrow> if errno \<in> set not_connected_errnos \<or> errno \<in> set closed_socket_errnos then None else Some e
      | _ \<Rightarrow> Some e)"

definition raw_send_eof :: "'w raw backend \<Rightarrow> ('a, 'w) raw_ops \<Rightarrow> task \<Rightarrow> 'w raw \<Rightarrow> (exc + unit) \<times> 'w raw" where
  "raw_send_eof B O' t s =
     (case write_context_enter True t s of
        Inl e \<Rightarrow> (Inl e, s)
      | Inr s1 \<Rightarrow>
          write_context_exit B
            (case ro_yield O' (be_enter B Infinity s1) of
               (Some e, s2) \<Rightarrow> (Inl e, s2)
             | (None, s2) \<Rightarrow>
                 if \<not> raw_socket s \<or> \<not> raw_fd s2 then (Inr (), s2)
                 else (case ro_shutdown_write O' s2 of
                         (Ok _, s3) \<Rightarrow> (Inr (), s3)
                       | (Blocking, s3) \<Rightarrow> (Inl (OSError ''EAGAIN'' ''''), s3)
                       | (OsFail e, s3) \<Rightarrow> (case raw_shutdown_error e of None \<Rightarrow> (Inr (), s3) | Some e' \<Rightarrow> (Inl e', s3)))))"

text \<open>The datagram adapter: one call for a datagram.\<close>

definition raw_datagram_send where
  "raw_datagram_send B O' t data s =
     map_option (\<lambda>(res, s'). (error_of res, s')) (sock_send B t (ro_send O' data) None (ro_wait_writable O') s)"

definition raw_datagram_send_with_ancillary where
  "raw_datagram_send_with_ancillary B O' t data ancillary s =
     map_option (\<lambda>(res, s'). (error_of res, s'))
       (sock_send B t (ro_sendmsg O' [data] (Some ancillary)) None (ro_wait_writable O') s)"

section \<open>aclose\<close>

text \<open>
  The pieces between the suspension points: \<open>close_begin\<close> up to the yield (it says whether there is one),
  \<open>close_fd\<close> the end of the \<^verbatim>\<open>contextlib.closing\<close> block, which every way out passes.
\<close>

definition cancel_scope_of :: "raw_scope \<Rightarrow> raw_scope option \<Rightarrow> raw_scope option" where
  "cancel_scope_of sc current =
     (case current of
        None \<Rightarrow> None
      | Some c \<Rightarrow> Some (if rs_task c = rs_task sc then c\<lparr>rs_cancelled := True\<rparr> else c))"

definition close_begin :: "'w raw \<Rightarrow> bool \<times> 'w raw" where
  "close_begin s =
     (let s1 = s\<lparr>raw_socket := False\<rparr> in
      case raw_read s1 of
        None \<Rightarrow> (False, s1)
      | Some sc \<Rightarrow> (True, s1\<lparr>raw_read := cancel_scope_of sc (raw_read s1)\<rparr>))"

definition close_fd :: "'w raw \<Rightarrow> 'w raw" where
  "close_fd s = s\<lparr>raw_fd := False\<rparr>"

definition cancel_writer :: "raw_scope \<Rightarrow> 'w raw \<Rightarrow> 'w raw" where
  "cancel_writer sc s = s\<lparr>raw_write := cancel_scope_of sc (raw_write s)\<rparr>"

definition close_rest :: "('a, 'w) raw_ops \<Rightarrow> 'w raw \<Rightarrow> exc option \<times> 'w raw" where
  "close_rest O' s =
     (case raw_write s of
        None \<Rightarrow> (None, s)
      | Some sc \<Rightarrow>
          (case ro_wait_writer O' (rs_task sc) s of
             (None, s1) \<Rightarrow> (None, s1)
           | (Some e, s1) \<Rightarrow> (Some e, if e = CancelledError then cancel_writer sc s1 else s1)))"

definition raw_aclose :: "('a, 'w) raw_ops \<Rightarrow> 'w raw \<Rightarrow> exc option \<times> 'w raw" where
  "raw_aclose O' s =
     (if \<not> raw_socket s then (None, s)
      else case (case close_begin s of
                   (False, s1) \<Rightarrow> close_rest O' s1
                 | (True, s1) \<Rightarrow>
                     (case ro_yield O' s1 of
                        (Some e, s2) \<Rightarrow> (Some e, s2)
                      | (None, s2) \<Rightarrow> close_rest O' s2)) of
        (res, s') \<Rightarrow> (res, close_fd s'))"

section \<open>Interleavings\<close>

text \<open>
  The steps of the coroutines that use one transport.  \<open>rc_close\<close> is where the closing task is suspended; only
  one gets past the test of \<^verbatim>\<open>__socket\<close>.  A name is used for one call.
\<close>

datatype close_point = NotClosing | Yielding | WaitingFor raw_scope | Closed

record 'w raw_system =
  rc_raw :: "'w raw"
  rc_close :: close_point
  rc_interrupted :: bool

definition after_yield :: "'w raw_system \<Rightarrow> 'w raw_system" where
  "after_yield c =
     (case raw_write (rc_raw c) of
        None \<Rightarrow> c\<lparr>rc_raw := close_fd (rc_raw c), rc_close := Closed\<rparr>
      | Some sc \<Rightarrow> c\<lparr>rc_close := WaitingFor sc\<rparr>)"

inductive raw_step :: "'w raw_system \<Rightarrow> 'w raw_system \<Rightarrow> bool" where
  read_enter: "read_context_enter t (rc_raw c) = Inr s \<Longrightarrow> raw_step c (c\<lparr>rc_raw := s\<rparr>)"
| read_exit: "raw_read (rc_raw c) = Some sc \<Longrightarrow> raw_step c (c\<lparr>rc_raw := (rc_raw c)\<lparr>raw_read := None\<rparr>\<rparr>)"
| write_enter: "write_context_enter accept t (rc_raw c) = Inr s \<Longrightarrow> raw_step c (c\<lparr>rc_raw := s\<rparr>)"
| write_exit: "raw_write (rc_raw c) = Some sc \<Longrightarrow> raw_step c (c\<lparr>rc_raw := (rc_raw c)\<lparr>raw_write := None\<rparr>\<rparr>)"
| close_now: "raw_socket (rc_raw c) \<Longrightarrow> close_begin (rc_raw c) = (False, s) \<Longrightarrow> raw_step c (after_yield (c\<lparr>rc_raw := s\<rparr>))"
| close_yield: "raw_socket (rc_raw c) \<Longrightarrow> close_begin (rc_raw c) = (True, s) \<Longrightarrow>
    raw_step c (c\<lparr>rc_raw := s, rc_close := Yielding\<rparr>)"
| close_resume: "rc_close c = Yielding \<Longrightarrow> raw_step c (after_yield c)"
| close_written: "rc_close c = WaitingFor sc \<Longrightarrow> \<forall>u. raw_write (rc_raw c) = Some u \<longrightarrow> rs_task u \<noteq> rs_task sc \<Longrightarrow>
    raw_step c (c\<lparr>rc_raw := close_fd (rc_raw c), rc_close := Closed\<rparr>)"
| cancel_yield: "rc_close c = Yielding \<Longrightarrow>
    raw_step c (c\<lparr>rc_raw := close_fd (rc_raw c), rc_close := Closed, rc_interrupted := True\<rparr>)"
| cancel_wait: "rc_close c = WaitingFor sc \<Longrightarrow>
    raw_step c (c\<lparr>rc_raw := close_fd (cancel_writer sc (rc_raw c)), rc_close := Closed\<rparr>)"

definition raw_system_init :: "'w \<Rightarrow> 'w raw_system" where
  "raw_system_init w = \<lparr>rc_raw = raw_init w, rc_close = NotClosing, rc_interrupted = False\<rparr>"

inductive raw_reachable :: "'w raw_system \<Rightarrow> bool" where
  raw_start: "raw_reachable (raw_system_init w)"
| raw_next: "raw_reachable c \<Longrightarrow> raw_step c c' \<Longrightarrow> raw_reachable c'"

text \<open>
  The descriptor is open as long as the transport is, and while the closing task waits.  Once it is closed a
  coroutine that got the socket and is still suspended has been told so.
\<close>

fun wait_ok :: "close_point \<Rightarrow> raw_scope option \<Rightarrow> bool" where
  "wait_ok (WaitingFor sc) w \<longleftrightarrow> pred_option (\<lambda>w. rs_socket w \<longrightarrow> rs_task w = rs_task sc) w"
| "wait_ok _ _ \<longleftrightarrow> True"

definition raw_inv :: "'w raw_system \<Rightarrow> bool" where
  "raw_inv c \<longleftrightarrow>
     (raw_socket (rc_raw c) \<longleftrightarrow> rc_close c = NotClosing) \<and> (raw_fd (rc_raw c) \<longleftrightarrow> rc_close c \<noteq> Closed) \<and>
     pred_option (\<lambda>r. rs_socket r \<and> (rc_close c = NotClosing \<or> rs_cancelled r)) (raw_read (rc_raw c)) \<and>
     (rc_close c = NotClosing \<longrightarrow> pred_option (\<lambda>w. rs_socket w \<and> \<not> rs_cancelled w) (raw_write (rc_raw c))) \<and>
     wait_ok (rc_close c) (raw_write (rc_raw c)) \<and>
     (rc_close c = Closed \<longrightarrow> \<not> rc_interrupted c \<longrightarrow>
        pred_option (\<lambda>w. rs_socket w \<longrightarrow> rs_cancelled w) (raw_write (rc_raw c)))"

lemma raw_inv_init: "raw_inv (raw_system_init w)"
  by (simp add: raw_inv_def raw_system_init_def raw_init_def)

lemma raw_inv_after_yield:
  assumes "\<not> raw_socket (rc_raw c)" and "pred_option (\<lambda>r. rs_socket r \<and> rs_cancelled r) (raw_read (rc_raw c))"
    and "raw_fd (rc_raw c)"
  shows "raw_inv (after_yield c)"
  using assms by (cases "raw_write (rc_raw c)") (simp_all add: after_yield_def raw_inv_def close_fd_def option.pred_True)

lemma raw_inv_step: "raw_step c c' \<Longrightarrow> raw_inv c \<Longrightarrow> raw_inv c'"
proof (induction rule: raw_step.induct)
  case (read_enter t c s)
  then have "raw_socket (rc_raw c)"
    "s = (rc_raw c)\<lparr>raw_read := Some \<lparr>rs_task = t, rs_cancelled = False, rs_socket = True\<rparr>\<rparr>"
    by (simp_all add: read_context_enter_def split: if_splits)
  with read_enter(2) show ?case by (simp add: raw_inv_def)
next
  case (read_exit c sc)
  then show ?case by (simp add: raw_inv_def)
next
  case (write_enter accept t c s)
  then have "s = (rc_raw c)\<lparr>raw_write := Some \<lparr>rs_task = t, rs_cancelled = False, rs_socket = raw_socket (rc_raw c)\<rparr>\<rparr>"
    by (simp add: write_context_enter_def split: if_splits)
  with write_enter(2) show ?case by (cases "rc_close c") (simp_all add: raw_inv_def)
next
  case (write_exit c sc)
  then show ?case by (cases "rc_close c") (simp_all add: raw_inv_def)
next
  case (close_now c s)
  then have "s = (rc_raw c)\<lparr>raw_socket := False\<rparr>" "raw_read (rc_raw c) = None"
    by (simp_all add: close_begin_def Let_def split: option.splits)
  with close_now show ?case by (intro raw_inv_after_yield) (simp_all add: raw_inv_def)
next
  case (close_yield c s)
  then obtain sc where "raw_read (rc_raw c) = Some sc"
    "s = (rc_raw c)\<lparr>raw_socket := False, raw_read := Some (sc\<lparr>rs_cancelled := True\<rparr>)\<rparr>"
    by (simp add: close_begin_def Let_def cancel_scope_of_def split: option.splits)
  with close_yield show ?case by (simp add: raw_inv_def)
next
  case (close_resume c)
  then show ?case by (intro raw_inv_after_yield) (simp_all add: raw_inv_def)
next
  case (close_written c sc)
  then show ?case by (cases "raw_write (rc_raw c)") (auto simp: raw_inv_def close_fd_def)
next
  case (cancel_yield c)
  then show ?case by (simp add: raw_inv_def close_fd_def)
next
  case (cancel_wait c sc)
  then show ?case
    by (cases "raw_write (rc_raw c)") (auto simp: raw_inv_def close_fd_def cancel_writer_def cancel_scope_of_def)
qed

lemma raw_inv_reachable: "raw_reachable c \<Longrightarrow> raw_inv c"
  by (induction rule: raw_reachable.induct) (auto intro: raw_inv_init raw_inv_step)

section \<open>Sending in order\<close>

text \<open>A rule for the sending loop: what holds before every call, and what then holds at the end.\<close>

lemma sock_send_all_loop_rule:
  assumes run: "sock_send_all_loop send success again wait data s = Some (res, s')"
    and start: "J data s"
    and sent: "\<And>data s r s1. J data s \<Longrightarrow> send data s = (Ok r, s1) \<Longrightarrow>
      (case success r data of Inl e \<Rightarrow> Q (Inl e) s1 | Inr d \<Rightarrow> if again d then J d s1 else Q (Inr ()) s1)"
    and failed: "\<And>data s e s1. J data s \<Longrightarrow> send data s = (OsFail e, s1) \<Longrightarrow> Q (Inl e) s1"
    and blocked: "\<And>data s s1. J data s \<Longrightarrow> send data s = (Blocking, s1) \<Longrightarrow>
      (case wait s1 of (None, s2) \<Rightarrow> J data s2 | (Some e, s2) \<Rightarrow> Q (Inl e) s2)"
  shows "Q res s'"
proof -
  let ?P = "\<lambda>send' success' again' wait' data s y.
    send' = send \<longrightarrow> success' = success \<longrightarrow> again' = again \<longrightarrow> wait' = wait \<longrightarrow> J data s \<longrightarrow> Q (fst y) (snd y)"
  have "?P send success again wait data s (res, s')"
  proof (rule sock_send_all_loop.raw_induct [where P = ?P, OF _ run], intro impI)
    fix rec send' success' again' wait' data s y
    assume IH: "\<And>send' success' again' wait' data s y. rec send' success' again' wait' data s = Some y \<Longrightarrow>
        ?P send' success' again' wait' data s y"
      and eq: "send' = send" "success' = success" "again' = again" "wait' = wait" and J: "J data s"
      and body: "(case send' data s of
        (Ok result, s1) \<Rightarrow>
          (case success' result data of
             Inl e \<Rightarrow> Some (Inl e, s1)
           | Inr data' \<Rightarrow> if again' data' then rec send' success' again' wait' data' s1 else Some (Inr (), s1))
      | (Blocking, s1) \<Rightarrow>
          (case wait' s1 of
             (None, s2) \<Rightarrow> rec send' success' again' wait' data s2
           | (Some e, s2) \<Rightarrow> Some (Inl e, s2))
      | (OsFail e, s1) \<Rightarrow> Some (Inl e, s1)) = Some y"
    obtain r s1 where call: "send data s = (r, s1)" by fastforce
    show "Q (fst y) (snd y)"
    proof (cases r)
      case (Ok n)
      with sent [OF J] call have *: "case success n data of Inl e \<Rightarrow> Q (Inl e) s1
          | Inr d \<Rightarrow> if again d then J d s1 else Q (Inr ()) s1" by simp
      show ?thesis
      proof (cases "success n data")
        case (Inl e)
        with body call Ok eq * show ?thesis by auto
      next
        case (Inr d)
        show ?thesis
        proof (cases "again d")
          case True
          with body call Ok eq Inr have "rec send success again wait d s1 = Some y" by simp
          from IH [OF this] True * Inr show ?thesis by simp
        next
          case False
          with body call Ok eq Inr * show ?thesis by auto
        qed
      qed
    next
      case (OsFail e)
      with body call eq failed [OF J, of e s1] show ?thesis by auto
    next
      case Blocking
      obtain w s2 where wait: "wait s1 = (w, s2)" by fastforce
      with blocked [OF J] call Blocking have *: "case w of None \<Rightarrow> J data s2 | Some e \<Rightarrow> Q (Inl e) s2"
        by (fastforce split: option.splits)
      show ?thesis
      proof (cases w)
        case None
        with body call eq Blocking wait have "rec send success again wait data s2 = Some y" by simp
        from IH [OF this] None * show ?thesis by simp
      next
        case (Some e)
        with body call eq Blocking wait * show ?thesis by auto
      qed
    qed
  qed
  with start show ?thesis by simp
qed

text \<open>
  What the system does with a send: it takes a beginning of the bytes and says how many; waiting and scopes write nothing.
\<close>

definition raw_sends :: "('w raw \<Rightarrow> bytes) \<Rightarrow> 'w raw backend \<Rightarrow> ('a, 'w) raw_ops \<Rightarrow> bool" where
  "raw_sends written B O' \<longleftrightarrow>
     scopes_keep written B \<and>
     (\<forall>s sc. written (s\<lparr>raw_write := sc\<rparr>) = written s) \<and>
     (\<forall>s. written (snd (ro_wait_writable O' s)) = written s) \<and>
     (\<forall>d s. case ro_send O' d s of
        (Ok n, s') \<Rightarrow> n \<le> length d \<and> written s' = written s @ take n d
      | (_, s') \<Rightarrow> written s' = written s) \<and>
     (\<forall>bs a s. case ro_sendmsg O' bs a s of
        (Ok n, s') \<Rightarrow> n \<le> length (concat bs) \<and> written s' = written s @ take n (concat bs)
      | (_, s') \<Rightarrow> written s' = written s) \<and>
     (\<forall>d s. case ro_sock_sendall O' d s of
        (Inr _, s') \<Rightarrow> written s' = written s @ d
      | (Inl e, s') \<Rightarrow> \<exists>n. written s' = written s @ take n d \<and> (e = not_implemented \<longrightarrow> n = 0))"

lemma raw_sendsD:
  assumes "raw_sends written B O'"
  shows "scopes_keep written B" and "written (s\<lparr>raw_write := sc\<rparr>) = written s"
    and "ro_wait_writable O' s = (r, s') \<Longrightarrow> written s' = written s"
    and "ro_send O' d s = (Ok n, s') \<Longrightarrow> n \<le> length d \<and> written s' = written s @ take n d"
    and "ro_send O' d s = (OsFail e, s') \<Longrightarrow> written s' = written s" and "ro_send O' d s = (Blocking, s') \<Longrightarrow> written s' = written s"
    and "ro_sendmsg O' bs a s = (Ok n, s') \<Longrightarrow> n \<le> length (concat bs) \<and> written s' = written s @ take n (concat bs)"
    and "ro_sendmsg O' bs a s = (OsFail e, s') \<Longrightarrow> written s' = written s"
    and "ro_sendmsg O' bs a s = (Blocking, s') \<Longrightarrow> written s' = written s"
    and "ro_sock_sendall O' d s = (Inr u, s') \<Longrightarrow> written s' = written s @ d"
    and "ro_sock_sendall O' d s = (Inl e, s') \<Longrightarrow> \<exists>n. written s' = written s @ take n d \<and> (e = not_implemented \<longrightarrow> n = 0)"
proof -
  have s: "case ro_send O' d s of (Ok n, s') \<Rightarrow> n \<le> length d \<and> written s' = written s @ take n d
      | (_, s') \<Rightarrow> written s' = written s" for d s
    using assms by (simp add: raw_sends_def)
  have m: "case ro_sendmsg O' bs a s of (Ok n, s') \<Rightarrow> n \<le> length (concat bs) \<and> written s' = written s @ take n (concat bs)
      | (_, s') \<Rightarrow> written s' = written s" for bs a s
    using assms by (simp add: raw_sends_def)
  have a: "case ro_sock_sendall O' d s of (Inr _, s') \<Rightarrow> written s' = written s @ d
      | (Inl e, s') \<Rightarrow> \<exists>n. written s' = written s @ take n d \<and> (e = not_implemented \<longrightarrow> n = 0)" for d s
    using assms by (simp add: raw_sends_def)
  show "scopes_keep written B" "written (s\<lparr>raw_write := sc\<rparr>) = written s"
    using assms unfolding raw_sends_def by blast+
  show "ro_wait_writable O' s = (r, s') \<Longrightarrow> written s' = written s"
    using assms unfolding raw_sends_def by (metis snd_conv)
  show "ro_send O' d s = (Ok n, s') \<Longrightarrow> n \<le> length d \<and> written s' = written s @ take n d"
    "ro_send O' d s = (OsFail e, s') \<Longrightarrow> written s' = written s" "ro_send O' d s = (Blocking, s') \<Longrightarrow> written s' = written s"
    using s [where d = d and s = s] by simp_all
  show "ro_sendmsg O' bs a s = (Ok n, s') \<Longrightarrow> n \<le> length (concat bs) \<and> written s' = written s @ take n (concat bs)"
    "ro_sendmsg O' bs a s = (OsFail e, s') \<Longrightarrow> written s' = written s"
    "ro_sendmsg O' bs a s = (Blocking, s') \<Longrightarrow> written s' = written s"
    using m [where bs = bs and a = a and s = s] by simp_all
  show "ro_sock_sendall O' d s = (Inr u, s') \<Longrightarrow> written s' = written s @ d"
    "ro_sock_sendall O' d s = (Inl e, s') \<Longrightarrow> \<exists>n. written s' = written s @ take n d \<and> (e = not_implemented \<longrightarrow> n = 0)"
    using a [where d = d and s = s] by simp_all
qed

text \<open>\<open>wrote\<close>: a beginning of the data, all of it if the call returned normally.\<close>

definition wrote :: "('s \<Rightarrow> bytes) \<Rightarrow> bytes \<Rightarrow> 's \<Rightarrow> exc + unit \<Rightarrow> 's \<Rightarrow> bool" where
  "wrote written data s res s' \<longleftrightarrow>
     (\<exists>sent. written s' = written s @ sent \<and> prefix sent data \<and> (res = Inr () \<longrightarrow> sent = data))"

lemma send_loop_wrote:
  assumes "raw_sends written B O'"
    and "sock_send_all_loop (ro_send O') (\<lambda>sent d. Inr (drop sent d)) (\<lambda>d. 0 < length d) (ro_wait_writable O') data s
      = Some (res, s')"
  shows "wrote written data s res s'"
proof -
  note D = raw_sendsD [OF assms(1)]
  let ?J = "\<lambda>d t. \<exists>sent. data = sent @ d \<and> written t = written s @ sent"
  have prefix: "wrote written data s (Inl e) t" if "?J d u" "written t = written u" for d t u e
    using that by (auto simp: wrote_def)
  show ?thesis
  proof (rule sock_send_all_loop_rule [OF assms(2), of ?J])
    show "?J data s" by simp
    fix d t n t1
    assume J: "?J d t" and "ro_send O' d t = (Ok n, t1)"
    with D(4) have n: "n \<le> length d" "written t1 = written t @ take n d" by blast+
    from J obtain sent where sent: "data = sent @ d" "written t = written s @ sent" by blast
    then have "data = (sent @ take n d) @ drop n d" "written t1 = written s @ (sent @ take n d)" using n by simp_all
    then show "case Inr (drop n d) of Inl e \<Rightarrow> wrote written data s (Inl e) t1
        | Inr d \<Rightarrow> if 0 < length d then ?J d t1 else wrote written data s (Inr ()) t1"
      by (auto simp: wrote_def)
  next
    fix d t e t1
    assume "?J d t" "ro_send O' d t = (OsFail e, t1)"
    with D(5) prefix show "wrote written data s (Inl e) t1" by blast
  next
    fix d t t1
    assume J: "?J d t" and "ro_send O' d t = (Blocking, t1)"
    with D(6) have w: "written t1 = written t" by blast
    obtain r t2 where wait: "ro_wait_writable O' t1 = (r, t2)" by fastforce
    with D(3) w have "written t2 = written t" by simp
    with J prefix [OF J] wait show "case ro_wait_writable O' t1 of (None, s2) \<Rightarrow> ?J d s2
        | (Some e, s2) \<Rightarrow> wrote written data s (Inl e) s2" by (auto split: option.split)
  qed
qed

lemma sendmsg_loop_wrote:
  assumes "raw_sends written B O'"
    and "sock_send_all_loop (\<lambda>bs. ro_sendmsg O' (take iov_max bs) None) (\<lambda>sent bs. adjust_leftover_buffer bs sent)
      (\<lambda>bs. bs \<noteq> []) (ro_wait_writable O') buffers s = Some (res, s')"
  shows "wrote written (concat buffers) s res s'"
proof -
  note D = raw_sendsD [OF assms(1)]
  let ?J = "\<lambda>bs t. \<exists>sent. concat buffers = sent @ concat bs \<and> written t = written s @ sent"
  have prefix: "wrote written (concat buffers) s (Inl e) t" if "?J bs u" "written t = written u" for bs t u e
    using that by (auto simp: wrote_def)
  show ?thesis
  proof (rule sock_send_all_loop_rule [OF assms(2), of ?J])
    show "?J buffers s" by simp
    fix bs t n t1
    assume J: "?J bs t" and "ro_sendmsg O' (take iov_max bs) None t = (Ok n, t1)"
    with D(7) have n: "n \<le> length (concat (take iov_max bs))" "written t1 = written t @ take n (concat (take iov_max bs))"
      by blast+
    then have n': "n \<le> length (concat bs)" "written t1 = written t @ take n (concat bs)"
      using length_concat_take [of iov_max bs] take_concat_take [of n iov_max bs] by simp_all
    from adjust_leftover_buffer_ok [OF n'(1)] obtain bs'
      where bs': "adjust_leftover_buffer bs n = Inr bs'" "concat bs' = drop n (concat bs)" by blast
    from J obtain sent where sent: "concat buffers = sent @ concat bs" "written t = written s @ sent" by blast
    then have "concat buffers = (sent @ take n (concat bs)) @ concat bs'"
      "written t1 = written s @ (sent @ take n (concat bs))" using n' bs'(2) by simp_all
    then show "case adjust_leftover_buffer bs n of Inl e \<Rightarrow> wrote written (concat buffers) s (Inl e) t1
        | Inr bs \<Rightarrow> if bs \<noteq> [] then ?J bs t1 else wrote written (concat buffers) s (Inr ()) t1"
      using bs'(1) by (auto simp: wrote_def)
  next
    fix bs t e t1
    assume "?J bs t" "ro_sendmsg O' (take iov_max bs) None t = (OsFail e, t1)"
    with D(8) prefix show "wrote written (concat buffers) s (Inl e) t1" by blast
  next
    fix bs t t1
    assume J: "?J bs t" and "ro_sendmsg O' (take iov_max bs) None t = (Blocking, t1)"
    with D(9) have w: "written t1 = written t" by blast
    obtain r t2 where wait: "ro_wait_writable O' t1 = (r, t2)" by fastforce
    with D(3) w have "written t2 = written t" by simp
    with J prefix [OF J] wait show "case ro_wait_writable O' t1 of (None, s2) \<Rightarrow> ?J bs s2
        | (Some e, s2) \<Rightarrow> wrote written (concat buffers) s (Inl e) s2" by (auto split: option.split)
  qed
qed

lemma write_context_exit_cases:
  assumes "raw_sends written B O'" and "write_context_exit B (r, s) = (r', s')"
  shows "written s' = written s" and "r' = r \<or> r' = Inl (error_from_errno ''EBADF'')"
proof -
  obtain suppressed caught s1 where e: "be_exit B (error_of r) (s\<lparr>raw_write := None\<rparr>) = ((suppressed, caught), s1)"
    by (metis surj_pair)
  from scopes_keepD(2) [OF raw_sendsD(1) [OF assms(1)] e] raw_sendsD(2) [OF assms(1)]
  have "written s1 = written s" by simp
  with assms(2) e show "written s' = written s" "r' = r \<or> r' = Inl (error_from_errno ''EBADF'')"
    by (auto simp: write_context_exit_def split: if_splits)
qed

lemma write_context_entered:
  assumes "raw_sends written B O'" and "write_context_enter accept t s = Inr s1"
  shows "written (be_enter B Infinity s1) = written s"
  using assms(2) scopes_keepD(1) [OF raw_sendsD(1) [OF assms(1)]] raw_sendsD(2) [OF assms(1)]
  by (auto simp: write_context_enter_def split: if_splits)

lemma wrote_nothing: "wrote written data s (Inl e) s"
  by (auto simp: wrote_def)

lemma wrote_start: "written s1 = written s \<Longrightarrow> wrote written data s1 r s' \<Longrightarrow> wrote written data s r s'"
  by (simp add: wrote_def)

lemma wrote_exit:
  assumes "raw_sends written B O'" and "wrote written data s r s1" and "write_context_exit B (r, s1) = (r', s')"
  shows "wrote written data s r' s'"
  using assms(2) write_context_exit_cases [OF assms(1,3)] by (auto simp: wrote_def)

lemma raw_send_all_wrote:
  assumes "raw_sends written B O'" and "raw_send_all B O' t data s = Some (res, s')"
  shows "wrote written data s res s'"
proof (cases "write_context_enter False t s")
  case (Inl e)
  with assms(2) have "res = Inl e" "s' = s" by (simp_all add: raw_send_all_def sock_send_all_def)
  then show ?thesis by (simp add: wrote_nothing)
next
  case (Inr s1)
  note D = raw_sendsD [OF assms(1)]
  let ?s = "be_enter B Infinity s1"
  let ?loop = "sock_send_all_loop (ro_send O') (\<lambda>sent d. Inr (drop sent d)) (\<lambda>d. 0 < length d) (ro_wait_writable O') data"
  have start: "written ?s = written s" by (rule write_context_entered [OF assms(1) Inr])
  obtain r s2 where async: "ro_sock_sendall O' data ?s = (r, s2)" by fastforce
  have exit: ?thesis if "wrote written data s q u" "write_context_exit B (q, u) = (res, s')" for q u
    by (rule wrote_exit [OF assms(1) that])
  consider (loop) "r = Inl not_implemented" | (fails) e where "r = Inl e" "e \<noteq> not_implemented" | (returns) "r = Inr ()"
    by (cases r) auto
  then show ?thesis
  proof cases
    case loop
    with D(11) async have "written s2 = written s" using start by fastforce
    moreover obtain q u where l: "?loop s2 = Some (q, u)" "write_context_exit B (q, u) = (res, s')"
      using assms(2) Inr async loop by (auto simp: raw_send_all_def sock_send_all_def try_async_or_def)
    ultimately show ?thesis using wrote_start [OF _ send_loop_wrote [OF assms(1) l(1)]] exit [OF _ l(2)] by blast
  next
    case fails
    with D(11) async start obtain n where "written s2 = written s @ take n data" by fastforce
    then have "wrote written data s (Inl e) s2" by (auto simp: wrote_def intro: take_is_prefix)
    with exit show ?thesis
      using assms(2) Inr async fails by (simp add: raw_send_all_def sock_send_all_def try_async_or_def)
  next
    case returns
    with D(10) async start have "wrote written data s (Inr ()) s2" by (auto simp: wrote_def)
    with exit show ?thesis
      using assms(2) Inr async returns by (simp add: raw_send_all_def sock_send_all_def try_async_or_def)
  qed
qed

lemma raw_send_all_from_iterable_wrote:
  assumes "raw_sends written B O'" and "raw_send_all_from_iterable B O' t iov_max buffers s = Some (res, s')"
  shows "wrote written (concat buffers) s res s'"
proof (cases "write_context_enter False t s")
  case (Inl e)
  with assms(2) have "res = Inl e" "s' = s" by (simp_all add: raw_send_all_from_iterable_def sock_send_all_def)
  then show ?thesis by (simp add: wrote_nothing)
next
  case (Inr s1)
  let ?s = "be_enter B Infinity s1"
  let ?loop = "sock_send_all_loop (\<lambda>bs. ro_sendmsg O' (take iov_max bs) None) (\<lambda>sent bs. adjust_leftover_buffer bs sent)
      (\<lambda>bs. bs \<noteq> []) (ro_wait_writable O') buffers"
  have start: "written ?s = written s" by (rule write_context_entered [OF assms(1) Inr])
  obtain q u where l: "?loop ?s = Some (q, u)" "write_context_exit B (q, u) = (res, s')"
    using assms(2) Inr by (auto simp: raw_send_all_from_iterable_def sock_send_all_def try_async_or_def)
  show ?thesis
    using wrote_exit [OF assms(1) wrote_start [OF start sendmsg_loop_wrote [OF assms(1) l(1)]] l(2)] .
qed

text \<open>
  C21: on a bare Unix socket, too, sending writes a beginning of the data whatever happens (the socket blocks, the
  task is cancelled, the transport is closed meanwhile), and all of it when it returns normally, in one piece
  or gathered from chunks.
\<close>

theorem raw_sends_in_order:
  assumes "raw_sends written B O'"
  shows "(raw_send_all B O' t data s = Some (res, s') \<longrightarrow> wrote written data s res s')
    \<and> (raw_send_all_from_iterable B O' t iov_max buffers s = Some (res, s') \<longrightarrow> wrote written (concat buffers) s res s')"
  using raw_send_all_wrote [OF assms] raw_send_all_from_iterable_wrote [OF assms] by blast

section \<open>Closing\<close>

text \<open>
  C22: a descriptor is never closed under a coroutine that still uses it without its knowing.  In every interleaving of
  readers, writers and one closing task, while the closing task waits the descriptor is open, and once it is
  closed every coroutine that had got the socket and is still suspended has had its scope cancelled, unless
  the closing task itself was interrupted while it yielded to the reader.  No coroutine gets the socket after
  closing has begun.
\<close>

theorem raw_close_strands_nobody:
  assumes "raw_reachable c"
  shows "(rc_close c \<noteq> Closed \<longrightarrow> raw_fd (rc_raw c))
    \<and> (\<not> raw_fd (rc_raw c) \<and> raw_read (rc_raw c) = Some r \<longrightarrow> rs_cancelled r)
    \<and> (\<not> raw_fd (rc_raw c) \<and> \<not> rc_interrupted c \<and> raw_write (rc_raw c) = Some w \<and> rs_socket w \<longrightarrow> rs_cancelled w)
    \<and> (rc_close c \<noteq> NotClosing \<longrightarrow> (\<exists>e. read_context_enter t (rc_raw c) = Inl e)
        \<and> (\<exists>e. write_context_enter False t (rc_raw c) = Inl e))"
proof -
  note inv = raw_inv_reachable [OF assms, unfolded raw_inv_def]
  have fd: "raw_fd (rc_raw c) \<longleftrightarrow> rc_close c \<noteq> Closed"
    and r: "pred_option (\<lambda>r. rs_socket r \<and> (rc_close c = NotClosing \<or> rs_cancelled r)) (raw_read (rc_raw c))"
    and w: "rc_close c = Closed \<Longrightarrow> \<not> rc_interrupted c \<Longrightarrow>
      pred_option (\<lambda>w. rs_socket w \<longrightarrow> rs_cancelled w) (raw_write (rc_raw c))" using inv by blast+
  have "rs_cancelled r" if "\<not> raw_fd (rc_raw c)" "raw_read (rc_raw c) = Some r"
    using r fd that by simp
  moreover have "rs_cancelled w" if "\<not> raw_fd (rc_raw c)" "\<not> rc_interrupted c" "raw_write (rc_raw c) = Some w" "rs_socket w"
    using w fd that by simp
  moreover have "\<not> raw_socket (rc_raw c)" if "rc_close c \<noteq> NotClosing" using inv that by blast
  ultimately show ?thesis using fd by (simp add: read_context_enter_def write_context_enter_def)
qed

text \<open>
  when the closing task is cancelled while it yields to a reader it has just cancelled, the descriptor is closed under the
  writer: its scope has not been cancelled, and nothing that happens later cancels it, so that a coroutine
  waiting to write waits for ever.  This is what closing by force does to a transport with a reader and a writer, since a
  scope without time left interrupts the first suspension.
\<close>

definition raw_steps :: "'w raw_system \<Rightarrow> 'w raw_system \<Rightarrow> bool" where
  "raw_steps = raw_step\<^sup>*\<^sup>*"

lemma raw_step_closed:
  assumes "raw_step c c'" and "rc_close c = Closed" and "\<not> raw_socket (rc_raw c)"
    and "pred_option (\<lambda>w. \<not> rs_cancelled w) (raw_write (rc_raw c))"
  shows "rc_close c' = Closed \<and> \<not> raw_socket (rc_raw c') \<and> pred_option (\<lambda>w. \<not> rs_cancelled w) (raw_write (rc_raw c'))"
  using assms
proof (induction rule: raw_step.induct)
  case (read_enter t c s)
  then show ?case by (simp add: read_context_enter_def split: if_splits)
next
  case (write_enter accept t c s)
  then have "s = (rc_raw c)\<lparr>raw_write := Some \<lparr>rs_task = t, rs_cancelled = False, rs_socket = raw_socket (rc_raw c)\<rparr>\<rparr>"
    by (simp add: write_context_enter_def split: if_splits)
  with write_enter show ?case by simp
qed simp_all

theorem interrupted_close_abandons_writer:
  assumes "raw_reachable c" and "rc_close c = Yielding" and "raw_write (rc_raw c) = Some w" and "\<not> rs_cancelled w"
  shows "\<exists>c'. raw_step c c' \<and> \<not> raw_fd (rc_raw c') \<and> raw_write (rc_raw c') = Some w
    \<and> (\<forall>c''. raw_steps c' c'' \<longrightarrow> (\<forall>w'. raw_write (rc_raw c'') = Some w' \<longrightarrow> \<not> rs_cancelled w'))"
proof -
  let ?c = "c\<lparr>rc_raw := close_fd (rc_raw c), rc_close := Closed, rc_interrupted := True\<rparr>"
  have "\<not> raw_socket (rc_raw c)" using raw_inv_reachable [OF assms(1)] assms(2) by (simp add: raw_inv_def)
  then have start: "rc_close ?c = Closed \<and> \<not> raw_socket (rc_raw ?c) \<and> pred_option (\<lambda>w. \<not> rs_cancelled w) (raw_write (rc_raw ?c))"
    using assms(3,4) by (simp add: close_fd_def)
  have "rc_close c'' = Closed \<and> \<not> raw_socket (rc_raw c'') \<and> pred_option (\<lambda>w. \<not> rs_cancelled w) (raw_write (rc_raw c''))"
    if "raw_steps ?c c''" for c''
    using that unfolding raw_steps_def
  proof (induction rule: rtranclp_induct)
    case base
    show ?case by (rule start)
  next
    case (step c1 c2)
    with raw_step_closed [OF step(2)] show ?case by blast
  qed
  then have "\<forall>c''. raw_steps ?c c'' \<longrightarrow> (\<forall>w'. raw_write (rc_raw c'') = Some w' \<longrightarrow> \<not> rs_cancelled w')"
    by (metis option.pred_inject(2))
  moreover have "raw_step c ?c" by (rule cancel_yield) (rule assms(2))
  ultimately show ?thesis using assms(3) by (intro exI [of _ ?c]) (simp add: close_fd_def)
qed

text \<open>
  Sending with ancillary data reports that the message was too long although all of it was sent, when the last
  chunk is empty: the empty buffer is not removed from the queue.
\<close>

theorem ancillary_send_spurious_error:
  assumes enter: "write_context_enter False t s = Inr s1"
    and all: "ro_sendmsg O' (take iov_max (bs @ [[]])) (Some a) (be_enter B Infinity s1) = (Ok (length (concat bs)), s2)"
    and exit: "be_exit B None (s2\<lparr>raw_write := None\<rparr>) = ((False, False), s3)" and "list_all (\<lambda>b. b \<noteq> []) bs"
  shows "raw_send_all_with_ancillary B O' t iov_max (bs @ [[]]) a s = Some (Some (error_from_errno ''EMSGSIZE''), s3)"
proof -
  have "adjust_leftover_buffer (bs @ [[]]) (length (concat bs)) = Inr [[]]"
    using assms(4) by (induction bs) auto
  moreover have "sock_loop (ro_sendmsg O' (take iov_max (bs @ [[]])) (Some a)) (ro_wait_writable O') (be_enter B Infinity s1)
      = Some (Inr (length (concat bs)), s2)"
    by (subst sock_loop.simps) (simp add: all del: take_append)
  ultimately show ?thesis
    using enter exit
    by (simp add: raw_send_all_with_ancillary_def sock_send_def try_async_or_def write_context_exit_def error_of_def)
qed

section \<open>Witnesses\<close>

declare sock_send_all_loop.simps [code] sock_loop.simps [code]

text \<open>A socket that takes two bytes at a time; its world is what was written.\<close>

definition two_bytes :: "bytes \<Rightarrow> bytes raw \<Rightarrow> nat os_result \<times> bytes raw" where
  "two_bytes d s = (Ok (length (take 2 d)), s\<lparr>raw_world := raw_world s @ take 2 d\<rparr>)"

definition pipe_ops :: "(unit, bytes) raw_ops" where
  "pipe_ops =
     \<lparr>ro_recv = (\<lambda>n s. (Ok (take n ''x''), s)), ro_sock_recv = (\<lambda>n s. (Inr (take n ''x''), s)),
      ro_recvmsg = (\<lambda>n m s. (Ok (take n ''x'', ()), s)), ro_send = two_bytes,
      ro_sock_sendall = (\<lambda>d s. (Inl not_implemented, s)),
      ro_sendmsg = (\<lambda>bs a. two_bytes (concat bs)),
      ro_shutdown_write = (\<lambda>s. (Ok (), s)), ro_wait_readable = (\<lambda>s. (None, s)), ro_wait_writable = (\<lambda>s. (None, s)),
      ro_yield = (\<lambda>s. (None, s)), ro_wait_writer = (\<lambda>t s. (None, s))\<rparr>"

lemma pipe_sends: "raw_sends raw_world suppressing_backend pipe_ops"
  by (auto simp: raw_sends_def scopes_keep_suppressing pipe_ops_def two_bytes_def take_min_length min_def)

theorem raw_sends_in_order_witness:
  "\<exists>s'. raw_send_all_from_iterable suppressing_backend pipe_ops 1 16 [''abc'', ''d''] (raw_init ''x'') = Some (Inr (), s')
    \<and> wrote raw_world (concat [''abc'', ''d'']) (raw_init ''x'') (Inr ()) s' \<and> raw_world s' = ''xabcd''"
proof -
  have run: "raw_send_all_from_iterable suppressing_backend pipe_ops 1 16 [''abc'', ''d''] (raw_init ''x'') =
      Some (Inr (), \<lparr>raw_socket = True, raw_fd = True, raw_read = None, raw_write = None, raw_world = ''xabcd''\<rparr>)"
    by code_simp
  with raw_sends_in_order [OF pipe_sends, of 1 "[]" "raw_init ''x''" "Inr ()" _ 16 "[''abc'', ''d'']"] show ?thesis
    by simp
qed

text \<open>Task 1 reads, task 2 writes, and a third task closes.\<close>

definition raw_scope_of :: "task \<Rightarrow> bool \<Rightarrow> raw_scope" where
  "raw_scope_of t cancelled = \<lparr>rs_task = t, rs_cancelled = cancelled, rs_socket = True\<rparr>"

definition yielding_state :: "unit raw_system" where
  "yielding_state =
     \<lparr>rc_raw = \<lparr>raw_socket = False, raw_fd = True, raw_read = Some (raw_scope_of 1 True),
        raw_write = Some (raw_scope_of 2 False), raw_world = ()\<rparr>, rc_close = Yielding, rc_interrupted = False\<rparr>"

lemmas raw_state_defs = yielding_state_def raw_scope_of_def raw_system_init_def raw_init_def read_context_enter_def
  write_context_enter_def close_begin_def cancel_scope_of_def

lemma yielding_reachable: "raw_reachable yielding_state"
proof -
  let ?c0 = "raw_system_init ()"
  let ?s1 = "(rc_raw ?c0)\<lparr>raw_read := Some (raw_scope_of 1 False)\<rparr>"
  let ?s2 = "?s1\<lparr>raw_write := Some (raw_scope_of 2 False)\<rparr>"
  let ?s3 = "?s2\<lparr>raw_socket := False, raw_read := Some (raw_scope_of 1 True)\<rparr>"
  have "raw_reachable (?c0\<lparr>rc_raw := ?s1\<rparr>)"
    by (rule raw_next [OF raw_start read_enter [of 1]]) (simp add: raw_state_defs)
  then have "raw_reachable (?c0\<lparr>rc_raw := ?s1\<rparr>\<lparr>rc_raw := ?s2\<rparr>)"
    by (rule raw_next [OF _ write_enter [of False 2]]) (simp add: raw_state_defs)
  then have "raw_reachable (?c0\<lparr>rc_raw := ?s2\<rparr>)" by simp
  then have "raw_reachable (?c0\<lparr>rc_raw := ?s2\<rparr>\<lparr>rc_raw := ?s3, rc_close := Yielding\<rparr>)"
    by (rule raw_next [OF _ close_yield]) (simp_all add: raw_state_defs)
  then show ?thesis by (simp add: raw_state_defs)
qed

theorem raw_close_strands_nobody_witness:
  "\<exists>c :: unit raw_system. raw_reachable c \<and> \<not> raw_fd (rc_raw c) \<and> raw_write (rc_raw c) = Some (raw_scope_of 2 True)
    \<and> rs_cancelled (raw_scope_of 2 True) \<and> (\<exists>e. read_context_enter 7 (rc_raw c) = Inl e)"
proof -
  let ?c1 = "after_yield yielding_state"
  let ?c2 = "?c1\<lparr>rc_raw := close_fd (cancel_writer (raw_scope_of 2 False) (rc_raw ?c1)), rc_close := Closed\<rparr>"
  have "raw_reachable ?c1"
    by (rule raw_next [OF yielding_reachable close_resume]) (simp add: yielding_state_def)
  then have c2: "raw_reachable ?c2"
    by (rule raw_next [OF _ cancel_wait]) (simp add: after_yield_def yielding_state_def)
  have "\<not> raw_fd (rc_raw ?c2)" "\<not> rc_interrupted ?c2" "raw_write (rc_raw ?c2) = Some (raw_scope_of 2 True)"
    "rc_close ?c2 \<noteq> NotClosing"
    by (simp_all add: after_yield_def close_fd_def cancel_writer_def raw_state_defs)
  with c2 raw_close_strands_nobody [OF c2, of _ "raw_scope_of 2 True" 7] show ?thesis
    by (intro exI [of _ ?c2]) (simp add: raw_scope_of_def)
qed

theorem interrupted_close_abandons_writer_witness:
  "\<exists>c'. raw_step yielding_state c' \<and> \<not> raw_fd (rc_raw c') \<and> raw_write (rc_raw c') = Some (raw_scope_of 2 False)
    \<and> (\<forall>c''. raw_steps c' c'' \<longrightarrow> (\<forall>w'. raw_write (rc_raw c'') = Some w' \<longrightarrow> \<not> rs_cancelled w'))"
  by (rule interrupted_close_abandons_writer [OF yielding_reachable]) (simp_all add: yielding_state_def raw_scope_of_def)

theorem ancillary_send_spurious_error_witness:
  "\<exists>s'. raw_send_all_with_ancillary suppressing_backend pipe_ops 1 16 ([''ab''] @ [[]]) () (raw_init [])
      = Some (Some (error_from_errno ''EMSGSIZE''), s') \<and> raw_world s' = ''ab''"
proof -
  let ?s1 = "(raw_init [])\<lparr>raw_write := Some \<lparr>rs_task = 1, rs_cancelled = False, rs_socket = True\<rparr>\<rparr> :: bytes raw"
  have "raw_send_all_with_ancillary suppressing_backend pipe_ops 1 16 ([''ab''] @ [[]]) () (raw_init [])
      = Some (Some (error_from_errno ''EMSGSIZE''), ?s1\<lparr>raw_write := None, raw_world := ''ab''\<rparr>)"
    by (rule ancillary_send_spurious_error [of 1 _ ?s1 _ _ _ _ _ "?s1\<lparr>raw_world := ''ab''\<rparr>"])
      (simp_all add: write_context_enter_def raw_init_def pipe_ops_def two_bytes_def suppressing_backend_def)
  then show ?thesis by simp
qed

end
