(* ===== verification/AsyncioDatagram.thy ===== *)
theory AsyncioDatagram
  imports AsyncTransport FlowControl
begin

text \<open>
  Datagrams and stream sockets on asyncio transports, under
  \<^verbatim>\<open>src/src/easynetwork/lowlevel/api_async/backend/_asyncio/\<close>: \<^verbatim>\<open>datagram/endpoint.py\<close>, the
  protocol of \<^verbatim>\<open>datagram/listener.py\<close>, and the adapters that close an asyncio transport
  (\<^verbatim>\<open>datagram/socket.py\<close>, \<^verbatim>\<open>stream/socket.py\<close>).

  The event loop calls the methods of the protocol; a coroutine receives.  Both endpoints above allow one receiving
  coroutine at a time.
\<close>

section \<open>The endpoint\<close>

text \<open>
  The queue of what was received, where \<open>None\<close> wakes the receiver up for an exception or the end, and the
  queue of exceptions.  \<open>ep_transport\<close>: the protocol's \<^verbatim>\<open>__transport\<close> is set; \<open>ep_closing\<close>:
  \<^verbatim>\<open>is_closing()\<close> of the asyncio transport.  \<open>ep_waiting\<close> and \<open>ep_woken\<close> are the waiter of
  \<^verbatim>\<open>asyncio.Queue\<close>.
\<close>

record 'addr dgram_endpoint =
  ep_queue :: "(bytes \<times> 'addr) option list"
  ep_excs :: "exc list"
  ep_transport :: bool
  ep_closing :: bool
  ep_lost :: bool
  ep_closed :: bool
  ep_flow :: flow_control
  ep_waiting :: bool
  ep_woken :: bool

text \<open>After \<^verbatim>\<open>connection_made\<close>.\<close>

definition endpoint_init :: "'addr dgram_endpoint" where
  "endpoint_init =
     \<lparr>ep_queue = [], ep_excs = [], ep_transport = True, ep_closing = False, ep_lost = False, ep_closed = False,
      ep_flow = flow_init ''EBADF'', ep_waiting = False, ep_woken = False\<rparr>"

text \<open>\<^verbatim>\<open>asyncio.Queue.put_nowait\<close> wakes a waiting getter.\<close>

definition recv_put :: "(bytes \<times> 'addr) option \<Rightarrow> 'addr dgram_endpoint \<Rightarrow> 'addr dgram_endpoint" where
  "recv_put x p = p\<lparr>ep_queue := ep_queue p @ [x], ep_woken := ep_waiting p\<rparr>"

definition datagram_received :: "bytes \<Rightarrow> 'addr \<Rightarrow> 'addr dgram_endpoint \<Rightarrow> 'addr dgram_endpoint" where
  "datagram_received data addr p = (if ep_transport p then recv_put (Some (data, addr)) p else p)"

definition error_received :: "exc \<Rightarrow> 'addr dgram_endpoint \<Rightarrow> 'addr dgram_endpoint" where
  "error_received e p = (if ep_transport p then recv_put None (p\<lparr>ep_excs := ep_excs p @ [e]\<rparr>) else p)"

definition endpoint_connection_lost :: "exc option \<Rightarrow> 'addr dgram_endpoint \<Rightarrow> 'addr dgram_endpoint" where
  "endpoint_connection_lost e p =
     (let p1 = p\<lparr>ep_lost := True, ep_closed := True, ep_flow := connection_lost e (ep_flow p)\<rparr> in
      if ep_transport p1
      then (let p2 = recv_put None (p1\<lparr>ep_transport := False\<rparr>) in
            case e of None \<Rightarrow> p2 | Some x \<Rightarrow> p2\<lparr>ep_excs := ep_excs p2 @ [x]\<rparr>)
      else p1)"

definition close_nowait :: "'addr dgram_endpoint \<Rightarrow> 'addr dgram_endpoint" where
  "close_nowait p = p\<lparr>ep_closing := True\<rparr>"

definition check_exceptions :: "exc \<Rightarrow> 'addr dgram_endpoint \<Rightarrow> exc \<times> 'addr dgram_endpoint" where
  "check_exceptions otherwise p =
     (case ep_excs p of [] \<Rightarrow> (otherwise, p) | e # es \<Rightarrow> (e, p\<lparr>ep_excs := es\<rparr>))"

datatype 'addr recv_outcome = RecvReturn "bytes \<times> 'addr" | RecvRaise exc | RecvWait

text \<open>What \<^verbatim>\<open>recvfrom\<close> does with an item of the queue; \<open>closing_seen\<close>: it took the branch of a closing transport.\<close>

definition recv_item :: "bool \<Rightarrow> (bytes \<times> 'addr) option \<Rightarrow> 'addr dgram_endpoint \<Rightarrow> 'addr recv_outcome \<times> 'addr dgram_endpoint" where
  "recv_item closing_seen item p =
     (case item of
        Some d \<Rightarrow> (RecvReturn d, p)
      | None \<Rightarrow>
          (case check_exceptions
                  (if closing_seen \<or> ep_closing p then error_from_errno ''EBADF'' else AssertionError '''') p of
             (e, p') \<Rightarrow> (RecvRaise e, p')))"

text \<open>\<^verbatim>\<open>recvfrom\<close> up to where it waits, and from there when it is woken; the queue may be empty again only in theory.\<close>

definition recvfrom_start :: "'addr dgram_endpoint \<Rightarrow> 'addr recv_outcome \<times> 'addr dgram_endpoint" where
  "recvfrom_start p =
     (if ep_closing p then
        (case ep_queue p of
           [] \<Rightarrow> recv_item True None p
         | x # xs \<Rightarrow> recv_item True x (p\<lparr>ep_queue := xs\<rparr>))
      else
        (case ep_queue p of
           [] \<Rightarrow> (RecvWait, p\<lparr>ep_waiting := True, ep_woken := False\<rparr>)
         | x # xs \<Rightarrow> recv_item False x (p\<lparr>ep_queue := xs\<rparr>)))"

definition recvfrom_resume :: "'addr dgram_endpoint \<Rightarrow> 'addr recv_outcome \<times> 'addr dgram_endpoint" where
  "recvfrom_resume p =
     (case ep_queue p of
        [] \<Rightarrow> (RecvWait, p\<lparr>ep_woken := False\<rparr>)
      | x # xs \<Rightarrow> recv_item False x (p\<lparr>ep_queue := xs, ep_waiting := False, ep_woken := False\<rparr>))"

definition recvfrom_cancelled :: "'addr dgram_endpoint \<Rightarrow> 'addr dgram_endpoint" where
  "recvfrom_cancelled p = p\<lparr>ep_waiting := False, ep_woken := False\<rparr>"

text \<open>\<^verbatim>\<open>sendto\<close>: the transport takes the datagram (or raises), then the flow control is awaited.\<close>

definition endpoint_sendto ::
  "(bytes \<Rightarrow> 'addr option \<Rightarrow> 'w \<Rightarrow> exc option \<times> 'w) \<Rightarrow> nat \<Rightarrow> bytes \<Rightarrow> 'addr option \<Rightarrow> 'addr dgram_endpoint \<Rightarrow> 'w
    \<Rightarrow> drain_result \<times> 'addr dgram_endpoint \<times> 'w"
where
  "endpoint_sendto transport_sendto t data address p w =
     (case transport_sendto data address w of
        (Some e, w') \<Rightarrow> (DrainRaise e, p, w')
      | (None, w') \<Rightarrow> (case drain (ep_closing p) t (ep_flow p) of (r, f) \<Rightarrow> (r, p\<lparr>ep_flow := f\<rparr>, w')))"

section \<open>Interleavings\<close>

text \<open>
  Histories: the datagrams and errors the loop reported while the transport was set, the datagrams returned
  and the exceptions taken from the exception queue.
\<close>

record 'addr endpoint_system =
  es_endpoint :: "'addr dgram_endpoint"
  es_received :: "(bytes \<times> 'addr) list"
  es_errors :: "exc list"
  es_returned :: "(bytes \<times> 'addr) list"
  es_raised :: "exc list"

definition record_outcome :: "'addr recv_outcome \<times> 'addr dgram_endpoint \<Rightarrow> 'addr endpoint_system \<Rightarrow> 'addr endpoint_system" where
  "record_outcome out s =
     (case out of (r, p) \<Rightarrow>
        let s1 = s\<lparr>es_endpoint := p\<rparr> in
        (case r of
           RecvReturn d \<Rightarrow> s1\<lparr>es_returned := es_returned s @ [d]\<rparr>
         | RecvRaise e \<Rightarrow>
             if ep_excs (es_endpoint s) = [] then s1 else s1\<lparr>es_raised := es_raised s @ [e]\<rparr>
         | RecvWait \<Rightarrow> s1))"

datatype 'addr endpoint_event =
    Datagram bytes 'addr
  | Error exc
  | Lost "exc option"
  | CloseNow
  | RecvStart
  | RecvResume
  | RecvCancel

text \<open>
  asyncio reports nothing after \<^verbatim>\<open>connection_lost\<close> and calls that on a closing transport; one coroutine receives at a
  time.
\<close>

fun endpoint_enabled :: "'addr endpoint_event \<Rightarrow> 'addr dgram_endpoint \<Rightarrow> bool" where
  "endpoint_enabled (Lost _) p \<longleftrightarrow> ep_closing p \<and> \<not> ep_lost p"
| "endpoint_enabled RecvStart p \<longleftrightarrow> \<not> ep_waiting p"
| "endpoint_enabled RecvResume p \<longleftrightarrow> ep_waiting p \<and> ep_woken p"
| "endpoint_enabled RecvCancel p \<longleftrightarrow> ep_waiting p"
| "endpoint_enabled _ p \<longleftrightarrow> True"

fun endpoint_apply :: "'addr endpoint_event \<Rightarrow> 'addr endpoint_system \<Rightarrow> 'addr endpoint_system" where
  "endpoint_apply (Datagram d a) s =
     s\<lparr>es_endpoint := datagram_received d a (es_endpoint s),
       es_received := es_received s @ (if ep_transport (es_endpoint s) then [(d, a)] else [])\<rparr>"
| "endpoint_apply (Error e) s =
     s\<lparr>es_endpoint := error_received e (es_endpoint s),
       es_errors := es_errors s @ (if ep_transport (es_endpoint s) then [e] else [])\<rparr>"
| "endpoint_apply (Lost e) s =
     s\<lparr>es_endpoint := endpoint_connection_lost e (es_endpoint s),
       es_errors := es_errors s @ (case e of Some x \<Rightarrow> if ep_transport (es_endpoint s) then [x] else [] | None \<Rightarrow> [])\<rparr>"
| "endpoint_apply CloseNow s = s\<lparr>es_endpoint := close_nowait (es_endpoint s)\<rparr>"
| "endpoint_apply RecvStart s = record_outcome (recvfrom_start (es_endpoint s)) s"
| "endpoint_apply RecvResume s = record_outcome (recvfrom_resume (es_endpoint s)) s"
| "endpoint_apply RecvCancel s = s\<lparr>es_endpoint := recvfrom_cancelled (es_endpoint s)\<rparr>"

definition endpoint_system_init :: "'addr endpoint_system" where
  "endpoint_system_init =
     \<lparr>es_endpoint = endpoint_init, es_received = [], es_errors = [], es_returned = [], es_raised = []\<rparr>"

inductive endpoint_reachable :: "'addr endpoint_system \<Rightarrow> bool" where
  endpoint_start: "endpoint_reachable endpoint_system_init"
| endpoint_next: "endpoint_reachable s \<Longrightarrow> endpoint_enabled e (es_endpoint s) \<Longrightarrow> endpoint_reachable (endpoint_apply e s)"

fun endpoint_run :: "'addr endpoint_event list \<Rightarrow> 'addr endpoint_system \<Rightarrow> 'addr endpoint_system option" where
  "endpoint_run [] s = Some s"
| "endpoint_run (e # es) s = (if endpoint_enabled e (es_endpoint s) then endpoint_run es (endpoint_apply e s) else None)"

lemma endpoint_run_reachable: "endpoint_run es s = Some s' \<Longrightarrow> endpoint_reachable s \<Longrightarrow> endpoint_reachable s'"
  by (induction es arbitrary: s) (auto split: if_splits intro: endpoint_next)

section \<open>The invariant\<close>

definition datagrams :: "(bytes \<times> 'addr) option list \<Rightarrow> (bytes \<times> 'addr) list" where
  "datagrams q = map the (filter (\<lambda>x. x \<noteq> None) q)"

definition wakeups :: "(bytes \<times> 'addr) option list \<Rightarrow> nat" where
  "wakeups q = length (filter (\<lambda>x. x = None) q)"

lemma queue_simps [simp]:
  "datagrams [] = []" "datagrams (q @ r) = datagrams q @ datagrams r"
  "datagrams (Some d # q) = d # datagrams q" "datagrams (None # q) = datagrams q"
  "wakeups [] = 0" "wakeups (q @ r) = wakeups q + wakeups r" "wakeups (Some d # q) = wakeups q"
  "wakeups (None # q) = Suc (wakeups q)"
  by (simp_all add: datagrams_def wakeups_def)

text \<open>
  Every exception has its wake-up; there are more wake-ups than exceptions only when the connection is lost.  A
  coroutine waits without having been woken only on an empty queue while the connection is there.
\<close>

definition endpoint_inv :: "'addr endpoint_system \<Rightarrow> bool" where
  "endpoint_inv s \<longleftrightarrow>
     (let p = es_endpoint s in
      es_received s = es_returned s @ datagrams (ep_queue p) \<and> es_errors s = es_raised s @ ep_excs p \<and>
      length (ep_excs p) \<le> wakeups (ep_queue p) \<and>
      (length (ep_excs p) < wakeups (ep_queue p) \<longrightarrow> ep_closing p) \<and>
      (ep_transport p \<longleftrightarrow> \<not> ep_lost p) \<and> (ep_lost p \<longrightarrow> ep_closing p) \<and>
      (ep_waiting p \<longrightarrow> ep_woken p \<and> ep_queue p \<noteq> [] \<or> ep_queue p = [] \<and> \<not> ep_lost p))"

lemma endpoint_inv_init: "endpoint_inv endpoint_system_init"
  by (simp add: endpoint_inv_def endpoint_system_init_def endpoint_init_def)

lemma endpoint_inv_recv:
  assumes "endpoint_inv s" and "ep_queue (es_endpoint s) = x # xs"
    and "q = (es_endpoint s)\<lparr>ep_queue := xs, ep_waiting := w, ep_woken := k\<rparr>" and "\<not> w"
  shows "endpoint_inv (record_outcome (recv_item c x q) s)"
proof (cases x)
  case (Some d)
  with assms show ?thesis by (simp add: recv_item_def record_outcome_def endpoint_inv_def Let_def)
next
  case None
  with assms show ?thesis
    by (cases "ep_excs (es_endpoint s)")
      (auto simp: recv_item_def record_outcome_def check_exceptions_def endpoint_inv_def Let_def)
qed

lemma endpoint_inv_step:
  assumes "endpoint_inv s" and "endpoint_enabled e (es_endpoint s)"
  shows "endpoint_inv (endpoint_apply e s)"
proof (cases e)
  case (Datagram d a)
  with assms show ?thesis by (auto simp: endpoint_inv_def Let_def datagram_received_def recv_put_def)
next
  case (Error x)
  with assms show ?thesis by (auto simp: endpoint_inv_def Let_def error_received_def recv_put_def)
next
  case (Lost x)
  with assms show ?thesis
    by (cases x) (auto simp: endpoint_inv_def Let_def endpoint_connection_lost_def recv_put_def)
next
  case CloseNow
  with assms show ?thesis by (auto simp: endpoint_inv_def Let_def close_nowait_def)
next
  case RecvStart
  let ?p = "es_endpoint s"
  show ?thesis
  proof (cases "ep_queue ?p")
    case Nil
    show ?thesis
    proof (cases "ep_closing ?p")
      case True
      have "ep_excs ?p = []" using assms(1) Nil by (simp add: endpoint_inv_def Let_def)
      with RecvStart Nil True assms show ?thesis
        by (simp add: recvfrom_start_def recv_item_def check_exceptions_def record_outcome_def)
    next
      case False
      with RecvStart Nil assms show ?thesis
        by (auto simp: recvfrom_start_def record_outcome_def endpoint_inv_def Let_def)
    qed
  next
    case (Cons x xs)
    with RecvStart assms have w: "\<not> ep_waiting ?p" by simp
    have "endpoint_apply e s = record_outcome (recv_item (ep_closing ?p) x
        (?p\<lparr>ep_queue := xs, ep_waiting := ep_waiting ?p, ep_woken := ep_woken ?p\<rparr>)) s"
      using RecvStart Cons by (simp add: recvfrom_start_def)
    moreover have "endpoint_inv (record_outcome (recv_item (ep_closing ?p) x
        (?p\<lparr>ep_queue := xs, ep_waiting := ep_waiting ?p, ep_woken := ep_woken ?p\<rparr>)) s)"
      by (rule endpoint_inv_recv [OF assms(1) Cons refl w])
    ultimately show ?thesis by simp
  qed
next
  case RecvResume
  show ?thesis
  proof (cases "ep_queue (es_endpoint s)")
    case Nil
    with RecvResume assms show ?thesis
      by (auto simp: recvfrom_resume_def record_outcome_def endpoint_inv_def Let_def)
  next
    case (Cons x xs)
    with RecvResume endpoint_inv_recv [OF assms(1) Cons refl, of False False False] show ?thesis
      by (simp add: recvfrom_resume_def)
  qed
next
  case RecvCancel
  with assms show ?thesis by (auto simp: endpoint_inv_def Let_def recvfrom_cancelled_def)
qed

lemma endpoint_inv_reachable: "endpoint_reachable s \<Longrightarrow> endpoint_inv s"
  by (induction rule: endpoint_reachable.induct) (auto intro: endpoint_inv_init endpoint_inv_step)

section \<open>Properties of the endpoint\<close>

text \<open>
  the endpoint loses, repeats and reorders nothing.  Whatever the interleaving of receptions, errors, the loss of
  the connection, closing, and receiving coroutines that are cancelled, the datagrams returned are those received, in
  their order, up to those still queued, and the exceptions raised are those reported, up to those still queued.
\<close>

theorem endpoint_delivers:
  assumes "endpoint_reachable s"
  shows "es_received s = es_returned s @ datagrams (ep_queue (es_endpoint s)) \<and>
    es_errors s = es_raised s @ ep_excs (es_endpoint s)"
  using endpoint_inv_reachable [OF assms] by (simp_all add: endpoint_inv_def Let_def)

text \<open>
  No receiver is stuck, and the assertion of \<^verbatim>\<open>recvfrom\<close> holds.  A coroutine that waits either has been woken and
  will find an item, or nothing is queued and the connection is there; woken, it ends with a datagram queued, an error
  reported by the loop, or \<open>EBADF\<close> on a closing transport.
\<close>

theorem endpoint_receiver_wakes:
  assumes "endpoint_reachable s" and "ep_waiting (es_endpoint s)"
  shows "if ep_queue (es_endpoint s) = [] then \<not> ep_lost (es_endpoint s)
    else ep_woken (es_endpoint s) \<and>
      (case fst (recvfrom_resume (es_endpoint s)) of
         RecvReturn d \<Rightarrow> hd (ep_queue (es_endpoint s)) = Some d
       | RecvRaise e \<Rightarrow>
           if ep_excs (es_endpoint s) = [] then ep_closing (es_endpoint s) \<and> e = error_from_errno ''EBADF''
           else e = hd (ep_excs (es_endpoint s))
       | RecvWait \<Rightarrow> False)"
proof (cases "ep_queue (es_endpoint s)")
  case Nil
  with endpoint_inv_reachable [OF assms(1)] assms(2) show ?thesis by (auto simp: endpoint_inv_def Let_def)
next
  case (Cons x xs)
  with endpoint_inv_reachable [OF assms(1)] assms(2) show ?thesis
    by (cases x; cases "ep_excs (es_endpoint s)")
      (auto simp: endpoint_inv_def Let_def recvfrom_resume_def recv_item_def check_exceptions_def)
qed

text \<open>A datagram, an error, the loss of the connection; the first receiver is cancelled.\<close>

definition endpoint_example :: "nat endpoint_event list" where
  "endpoint_example =
     [RecvStart, RecvCancel, Datagram ''a'' 7, RecvStart, Error (OSError ''ECONNREFUSED'' ''''), Datagram ''b'' 8,
      RecvStart, RecvStart, RecvStart, CloseNow, Lost None]"

definition endpoint_example_end :: "nat endpoint_system" where
  "endpoint_example_end = the (endpoint_run endpoint_example endpoint_system_init)"

lemma endpoint_example_runs: "endpoint_run endpoint_example endpoint_system_init = Some endpoint_example_end"
  unfolding endpoint_example_end_def endpoint_example_def by code_simp

lemma endpoint_example_reachable: "endpoint_reachable endpoint_example_end"
  by (rule endpoint_run_reachable [OF endpoint_example_runs endpoint_start])

lemma endpoint_example_values:
  "es_returned endpoint_example_end = [(''a'', 7), (''b'', 8)]"
  "es_raised endpoint_example_end = [OSError ''ECONNREFUSED'' '''']"
  "ep_queue (es_endpoint endpoint_example_end) = [None]"
  "ep_excs (es_endpoint endpoint_example_end) = []"
  "ep_waiting (es_endpoint endpoint_example_end)"
  unfolding endpoint_example_end_def endpoint_example_def by code_simp+

theorem endpoint_delivers_witness:
  "es_received endpoint_example_end = [(''a'', 7), (''b'', 8)] \<and> es_errors endpoint_example_end = [OSError ''ECONNREFUSED'' '''']"
  using endpoint_delivers [OF endpoint_example_reachable] by (simp add: endpoint_example_values)

theorem endpoint_receiver_wakes_witness:
  "ep_woken (es_endpoint endpoint_example_end) \<and>
   fst (recvfrom_resume (es_endpoint endpoint_example_end)) = RecvRaise (error_from_errno ''EBADF'')"
  using endpoint_receiver_wakes [OF endpoint_example_reachable]
  by (simp add: endpoint_example_values split: recv_outcome.splits)

section \<open>The protocol of the listener\<close>

text \<open>
  \<^verbatim>\<open>DatagramListenerProtocol\<close>.  \<open>lp_ctx\<close> is the serve context, named by its handler; \<^verbatim>\<open>handle\<close> hands a
  datagram to the task group, \<open>lp_handled\<close> being what was handed over.  \<open>lp_serve_cancelled\<close>:
  \<^verbatim>\<open>__serve_forever_fut\<close> is cancelled; nothing else ever completes it.
\<close>

record 'addr listener_protocol =
  lp_ctx :: "nat option"
  lp_delayed :: "(bytes \<times> 'addr) list"
  lp_transport :: bool
  lp_lost :: bool
  lp_closed :: bool
  lp_serve_cancelled :: bool
  lp_flow :: flow_control
  lp_handled :: "(nat \<times> bytes \<times> 'addr) list"
  lp_logged :: "exc list"

definition listener_init :: "'addr listener_protocol" where
  "listener_init =
     \<lparr>lp_ctx = None, lp_delayed = [], lp_transport = False, lp_lost = False, lp_closed = False,
      lp_serve_cancelled = False, lp_flow = flow_init ''EBADF'', lp_handled = [], lp_logged = []\<rparr>"

definition listener_connection_made :: "'addr listener_protocol \<Rightarrow> exc + 'addr listener_protocol" where
  "listener_connection_made p =
     (if lp_lost p then Inl (AssertionError ''connection_lost() was called'')
      else if lp_transport p then Inl (AssertionError ''Transport already set'')
      else Inr (p\<lparr>lp_transport := True, lp_flow := flow_init ''EBADF''\<rparr>))"

definition handle_datagram :: "nat \<Rightarrow> bytes \<times> 'addr \<Rightarrow> 'addr listener_protocol \<Rightarrow> 'addr listener_protocol" where
  "handle_datagram h d p = p\<lparr>lp_handled := lp_handled p @ [(h, d)]\<rparr>"

definition listener_datagram_received :: "bytes \<Rightarrow> 'addr \<Rightarrow> 'addr listener_protocol \<Rightarrow> 'addr listener_protocol" where
  "listener_datagram_received data addr p =
     (case lp_ctx p of
        None \<Rightarrow> p\<lparr>lp_delayed := lp_delayed p @ [(data, addr)]\<rparr>
      | Some h \<Rightarrow> handle_datagram h (data, addr) p)"

definition listener_error_received :: "exc \<Rightarrow> 'addr listener_protocol \<Rightarrow> 'addr listener_protocol" where
  "listener_error_received e p = (if lp_lost p then p else p\<lparr>lp_logged := lp_logged p @ [e]\<rparr>)"

definition listener_connection_lost :: "exc option \<Rightarrow> 'addr listener_protocol \<Rightarrow> 'addr listener_protocol" where
  "listener_connection_lost e p =
     p\<lparr>lp_lost := True, lp_serve_cancelled := True, lp_closed := True, lp_flow := connection_lost e (lp_flow p),
       lp_transport := False, lp_delayed := []\<rparr>"

text \<open>
  \<^verbatim>\<open>serve\<close>: \<open>None\<close> when it waits, else the exception it raises.  A cancelled future is passed on by
  \<^verbatim>\<open>asyncio.shield\<close> at once; \<open>serve_resume\<close> is the end of the wait, by a cancelled future or a cancelled task.
\<close>

fun serve_delayed :: "nat \<Rightarrow> (bytes \<times> 'addr) list \<Rightarrow> 'addr listener_protocol \<Rightarrow> 'addr listener_protocol" where
  "serve_delayed h [] p = p"
| "serve_delayed h (d # ds) p = serve_delayed h ds (handle_datagram h d (p\<lparr>lp_delayed := ds\<rparr>))"

definition serve_start :: "nat \<Rightarrow> 'addr listener_protocol \<Rightarrow> exc option \<times> 'addr listener_protocol" where
  "serve_start h p =
     (if lp_ctx p \<noteq> None then (Some (RuntimeError ''DatagramListenerProtocol.serve() awaited twice''), p)
      else (let p1 = serve_delayed h (lp_delayed p) (p\<lparr>lp_ctx := Some h\<rparr>) in
            if lp_serve_cancelled p1 then (Some CancelledError, p1\<lparr>lp_ctx := None\<rparr>) else (None, p1)))"

definition serve_resume :: "'addr listener_protocol \<Rightarrow> exc option \<times> 'addr listener_protocol" where
  "serve_resume p = (Some CancelledError, p\<lparr>lp_ctx := None\<rparr>)"

text \<open>
  What happens to a listener once connected: asyncio reports no datagram after the loss of the connection, which it
  reports once; the task that serves may be cancelled at any time.
\<close>

datatype 'addr listener_event =
    ListenerDatagram bytes 'addr
  | ListenerError exc
  | ListenerLost "exc option"
  | ServeStart nat
  | ServeResume

fun listener_enabled :: "'addr listener_event \<Rightarrow> 'addr listener_protocol \<Rightarrow> bool" where
  "listener_enabled (ListenerDatagram _ _) p \<longleftrightarrow> \<not> lp_lost p"
| "listener_enabled (ListenerLost _) p \<longleftrightarrow> \<not> lp_lost p"
| "listener_enabled ServeResume p \<longleftrightarrow> lp_ctx p \<noteq> None"
| "listener_enabled _ p \<longleftrightarrow> True"

fun listener_apply :: "'addr listener_event \<Rightarrow> 'addr listener_protocol \<Rightarrow> 'addr listener_protocol" where
  "listener_apply (ListenerDatagram d a) p = listener_datagram_received d a p"
| "listener_apply (ListenerError e) p = listener_error_received e p"
| "listener_apply (ListenerLost e) p = listener_connection_lost e p"
| "listener_apply (ServeStart h) p = snd (serve_start h p)"
| "listener_apply ServeResume p = snd (serve_resume p)"

fun listener_run :: "'addr listener_event list \<Rightarrow> 'addr listener_protocol \<Rightarrow> 'addr listener_protocol option" where
  "listener_run [] p = Some p"
| "listener_run (e # es) p = (if listener_enabled e p then listener_run es (listener_apply e p) else None)"

text \<open>The datagrams the events report.\<close>

fun reported :: "'addr listener_event list \<Rightarrow> (bytes \<times> 'addr) list" where
  "reported [] = []"
| "reported (ListenerDatagram d a # es) = (d, a) # reported es"
| "reported (_ # es) = reported es"

text \<open>While a handler serves, nothing is delayed, and once the connection is lost nothing is delayed any more.\<close>

definition listener_inv :: "'addr listener_protocol \<Rightarrow> bool" where
  "listener_inv p \<longleftrightarrow> (lp_ctx p \<noteq> None \<or> lp_lost p \<longrightarrow> lp_delayed p = []) \<and> (lp_serve_cancelled p \<longleftrightarrow> lp_lost p)"

lemma serve_delayed_eq:
  "serve_delayed h ds p =
     p\<lparr>lp_delayed := if ds = [] then lp_delayed p else [], lp_handled := lp_handled p @ map (Pair h) ds\<rparr>"
  by (induction ds arbitrary: p) (auto simp: handle_datagram_def)

lemma listener_inv_step: "listener_inv p \<Longrightarrow> listener_enabled e p \<Longrightarrow> listener_inv (listener_apply e p)"
  by (cases e)
    (auto simp: listener_inv_def listener_datagram_received_def handle_datagram_def listener_error_received_def
       listener_connection_lost_def serve_start_def serve_delayed_eq serve_resume_def Let_def split: option.splits)

text \<open>A step moves a datagram reported to the delayed ones or to the handler; only the loss of the connection drops some.\<close>

lemma listener_step_delivers:
  assumes "listener_inv p" and "listener_enabled e p" and "\<not> lp_lost (listener_apply e p)"
  shows "map snd (lp_handled (listener_apply e p)) @ lp_delayed (listener_apply e p) =
    map snd (lp_handled p) @ lp_delayed p @ reported [e]"
  using assms
  by (cases e)
    (auto simp: listener_inv_def listener_datagram_received_def handle_datagram_def listener_error_received_def
       listener_connection_lost_def serve_start_def serve_delayed_eq serve_resume_def Let_def comp_def split: option.splits)

lemma reported_Cons: "reported (e # es) = reported [e] @ reported es"
  by (cases e) simp_all

lemma lost_for_ever: "lp_lost p \<Longrightarrow> lp_lost (listener_apply e p)"
  by (cases e)
    (auto simp: listener_datagram_received_def handle_datagram_def listener_error_received_def
       listener_connection_lost_def serve_start_def serve_delayed_eq serve_resume_def Let_def split: option.splits)

lemma lost_run: "listener_run es p = Some p' \<Longrightarrow> lp_lost p \<Longrightarrow> lp_lost p'"
  by (induction es arbitrary: p) (auto split: if_splits dest: lost_for_ever)

lemma listener_run_delivers:
  assumes "listener_run es p = Some p'" and "listener_inv p"
  shows "listener_inv p' \<and> (\<not> lp_lost p' \<longrightarrow>
    map snd (lp_handled p') @ lp_delayed p' = map snd (lp_handled p) @ lp_delayed p @ reported es)"
  using assms
proof (induction es arbitrary: p)
  case (Cons e es)
  then have e: "listener_enabled e p" and run: "listener_run es (listener_apply e p) = Some p'"
    by (simp_all split: if_splits)
  from Cons.IH [OF run listener_inv_step [OF Cons.prems(2) e]] listener_step_delivers [OF Cons.prems(2) e]
    lost_run [OF run]
  show ?case by (metis reported_Cons append_assoc)
qed simp

lemma listener_connected_inv: "listener_connection_made listener_init = Inr p \<Longrightarrow> listener_inv p"
  by (auto simp: listener_connection_made_def listener_init_def listener_inv_def)

text \<open>
  a listener hands over every datagram, once and in the order of reception, whoever serves and whenever: those
  that came before \<^verbatim>\<open>serve\<close> or between two calls of it are delayed and come first; none is delayed while someone
  serves.
\<close>

theorem listener_hands_over:
  assumes "listener_connection_made listener_init = Inr p" and "listener_run es p = Some p'" and "\<not> lp_lost p'"
  shows "map snd (lp_handled p') @ lp_delayed p' = reported es \<and> (lp_ctx p' \<noteq> None \<longrightarrow> lp_delayed p' = [])"
proof -
  from assms(1) have "lp_handled p = []" "lp_delayed p = []"
    by (auto simp: listener_connection_made_def listener_init_def)
  with listener_run_delivers [OF assms(2) listener_connected_inv [OF assms(1)]] assms(3) show ?thesis
    by (simp add: listener_inv_def)
qed

definition listener_example :: "nat listener_event list" where
  "listener_example =
     [ListenerDatagram ''a'' 7, ListenerDatagram ''b'' 8, ServeStart 1, ListenerDatagram ''c'' 7, ServeResume,
      ListenerDatagram ''d'' 9]"

definition listener_example_start :: "nat listener_protocol" where
  "listener_example_start = listener_init\<lparr>lp_transport := True, lp_flow := flow_init ''EBADF''\<rparr>"

definition listener_example_end :: "nat listener_protocol" where
  "listener_example_end = the (listener_run listener_example listener_example_start)"

lemma listener_example_runs:
  "listener_connection_made listener_init = Inr listener_example_start"
  "listener_run listener_example listener_example_start = Some listener_example_end"
  "lp_handled listener_example_end = [(1, ''a'', 7), (1, ''b'', 8), (1, ''c'', 7)]"
  "\<not> lp_lost listener_example_end"
  unfolding listener_example_end_def listener_example_def listener_example_start_def by code_simp+

theorem listener_hands_over_witness:
  "lp_delayed listener_example_end = [(''d'', 9)]"
  using listener_hands_over [OF listener_example_runs(1,2,4)]
  by (simp add: listener_example_runs(3)) (simp add: listener_example_def)

section \<open>The adapters over an asyncio transport\<close>

text \<open>
  \<^verbatim>\<open>AsyncioTransportStreamSocketAdapter\<close>.  The asyncio transport and the reader protocol are parameters.
  \<open>tr_wait_closed\<close> awaits \<^verbatim>\<open>asyncio.shield(protocol._get_close_waiter())\<close>.  The flag \<open>sa_closing\<close> is the
  adapter's own, because \<^verbatim>\<open>is_closing()\<close> of the asyncio transport may change by itself.
\<close>

record 'w asyncio_transport =
  tr_is_closing :: "'w \<Rightarrow> bool"
  tr_can_write_eof :: "'w \<Rightarrow> bool"
  tr_write_eof :: "'w \<Rightarrow> exc option \<times> 'w"
  tr_write :: "bytes \<Rightarrow> 'w \<Rightarrow> exc option \<times> 'w"
  tr_writelines :: "chunks \<Rightarrow> 'w \<Rightarrow> exc option \<times> 'w"
  tr_close :: "'w \<Rightarrow> 'w"
  tr_wait_closed :: "'w \<Rightarrow> exc option \<times> 'w"
  tr_writer_drain :: "'w \<Rightarrow> exc option \<times> 'w"
  tr_coro_yield :: "'w \<Rightarrow> exc option \<times> 'w"
  tr_over_ssl :: bool
  tr_has_socket :: bool

definition adapter_init :: "'w asyncio_transport \<Rightarrow> exc + bool" where
  "adapter_init T =
     (if \<not> tr_has_socket T then Inl (AssertionError ''Writer transport must be a socket transport'')
      else if tr_over_ssl T then Inl not_implemented
      else Inr False)"

text \<open>
  \<^verbatim>\<open>aclose\<close>: the \<^verbatim>\<open>finally\<close> closes the transport whatever \<^verbatim>\<open>write_eof\<close> does, and an \<^verbatim>\<open>OSError\<close> is dropped
  both there and when the loss of the connection is awaited.
\<close>

definition drop_os_error :: "exc option \<Rightarrow> exc option" where
  "drop_os_error res = (case res of Some e \<Rightarrow> if is_OSError e then None else Some e | None \<Rightarrow> None)"

definition adapter_aclose :: "'w asyncio_transport \<Rightarrow> bool \<times> 'w \<Rightarrow> exc option \<times> bool \<times> 'w" where
  "adapter_aclose T s =
     (let w = snd s;
          (res, w1) =
            (if tr_is_closing T w then (None, w)
             else (case (if tr_can_write_eof T w then tr_write_eof T w else (None, w)) of
                     (r, w') \<Rightarrow> (drop_os_error r, tr_close T w')))
      in case res of
           Some e \<Rightarrow> (Some e, True, w1)
         | None \<Rightarrow> (case tr_wait_closed T w1 of (r, w2) \<Rightarrow> (drop_os_error r, True, w2)))"

definition adapter_is_closing :: "bool \<times> 'w \<Rightarrow> bool" where
  "adapter_is_closing s = fst s"

definition adapter_send_all :: "'w asyncio_transport \<Rightarrow> bytes \<Rightarrow> bool \<times> 'w \<Rightarrow> exc option \<times> bool \<times> 'w" where
  "adapter_send_all T data s =
     (case tr_write T data (snd s) of
        (Some e, w) \<Rightarrow> (Some e, fst s, w)
      | (None, w) \<Rightarrow> (case tr_writer_drain T w of (r, w') \<Rightarrow> (r, fst s, w')))"

text \<open>\<^verbatim>\<open>writelines\<close> goes through the iterable itself, which may raise.\<close>

definition adapter_send_all_from_iterable :: "'w asyncio_transport \<Rightarrow> chunks \<Rightarrow> bool \<times> 'w \<Rightarrow> exc option \<times> bool \<times> 'w" where
  "adapter_send_all_from_iterable T cs s =
     (case tr_writelines T cs (snd s) of
        (Some e, w) \<Rightarrow> (Some e, fst s, w)
      | (None, w) \<Rightarrow> (case tr_writer_drain T w of (r, w') \<Rightarrow> (r, fst s, w')))"

definition adapter_send_eof :: "'w asyncio_transport \<Rightarrow> bool \<times> 'w \<Rightarrow> exc option \<times> bool \<times> 'w" where
  "adapter_send_eof T s =
     (if \<not> tr_can_write_eof T (snd s)
      then (Some (UnsupportedOperation ''transport does not support sending EOF''), s)
      else (case tr_write_eof T (snd s) of
              (Some e, w) \<Rightarrow> (Some e, fst s, w)
            | (None, w) \<Rightarrow> (case tr_coro_yield T w of (r, w') \<Rightarrow> (r, fst s, w'))))"

text \<open>\<^verbatim>\<open>AsyncioTransportDatagramSocketAdapter\<close> and \<^verbatim>\<open>DatagramListenerSocketAdapter\<close> close without a word to the peer.\<close>

definition endpoint_aclose :: "'w asyncio_transport \<Rightarrow> bool \<times> 'w \<Rightarrow> exc option \<times> bool \<times> 'w" where
  "endpoint_aclose T s =
     (case tr_wait_closed T (if tr_is_closing T (snd s) then snd s else tr_close T (snd s)) of (r, w) \<Rightarrow> (r, True, w))"

definition datagram_adapter_recv :: "'addr dgram_endpoint \<Rightarrow> (exc + bytes) option \<times> 'addr dgram_endpoint" where
  "datagram_adapter_recv p =
     (case recvfrom_start p of
        (RecvReturn (d, _), p') \<Rightarrow> (Some (Inr d), p')
      | (RecvRaise e, p') \<Rightarrow> (Some (Inl e), p')
      | (RecvWait, p') \<Rightarrow> (None, p'))"

lemma drop_os_error_OSError: "drop_os_error r = Some e \<Longrightarrow> \<not> is_OSError e"
  by (auto simp: drop_os_error_def split: option.splits if_splits)

text \<open>
  Closing an adapter leaves no open transport behind: the adapter is closing whatever happens, and unless the asyncio
  transport was closing already, it has been told to close, even when sending the end of the stream fails or the wait
  for the loss of the connection is cancelled.  No error of the operating system reaches the caller.
\<close>

theorem adapter_aclose_closes:
  assumes "\<And>w. tr_is_closing T (tr_close T w)" and "\<And>w r w'. tr_is_closing T w \<Longrightarrow> tr_wait_closed T w = (r, w') \<Longrightarrow> tr_is_closing T w'"
    and "adapter_aclose T s = (res, s')"
  shows "adapter_is_closing s' \<and> tr_is_closing T (snd s') \<and> (\<forall>e. res = Some e \<longrightarrow> \<not> is_OSError e)"
proof -
  let ?w = "snd s"
  obtain r w1 where first: "(if tr_is_closing T ?w then (None, ?w)
      else (case (if tr_can_write_eof T ?w then tr_write_eof T ?w else (None, ?w)) of
              (r, w') \<Rightarrow> (drop_os_error r, tr_close T w'))) = (r, w1)"
    by fastforce
  then have "tr_is_closing T w1" and "\<forall>e. r = Some e \<longrightarrow> \<not> is_OSError e"
    using assms(1) by (auto split: if_splits prod.splits dest: drop_os_error_OSError)
  with first assms(2,3) show ?thesis
    by (cases r; cases "tr_wait_closed T w1")
      (auto simp: adapter_aclose_def adapter_is_closing_def Let_def dest: drop_os_error_OSError)
qed

text \<open>A transport whose peer is gone, so that the end of the stream cannot be sent; the flag is that of being closed.\<close>

definition broken_transport :: "bool asyncio_transport" where
  "broken_transport =
     \<lparr>tr_is_closing = (\<lambda>w. w), tr_can_write_eof = (\<lambda>w. True), tr_write_eof = (\<lambda>w. (Some (OSError ''ENOTCONN'' ''''), w)),
      tr_write = (\<lambda>_ w. (None, w)), tr_writelines = (\<lambda>_ w. (None, w)), tr_close = (\<lambda>w. True),
      tr_wait_closed = (\<lambda>w. (Some CancelledError, w)), tr_writer_drain = (\<lambda>w. (None, w)),
      tr_coro_yield = (\<lambda>w. (None, w)), tr_over_ssl = False, tr_has_socket = True\<rparr>"

theorem adapter_aclose_closes_witness:
  "adapter_aclose broken_transport (False, False) = (Some CancelledError, True, True) \<and>
   tr_is_closing broken_transport True"
proof -
  have run: "adapter_aclose broken_transport (False, False) = (Some CancelledError, True, True)"
    by code_simp
  with adapter_aclose_closes [OF _ _ run] show ?thesis by (simp add: broken_transport_def)
qed

end
