(* ===== verification/ServerLifecycle.thy ===== *)
theory ServerLifecycle
  imports Timeouts
begin

text \<open>
  \<^verbatim>\<open>BaseAsyncNetworkServerImpl\<close>, \<^verbatim>\<open>src/src/easynetwork/servers/_base.py\<close>: the life of an asynchronous server.

  One task may run \<^verbatim>\<open>serve_forever\<close>; any task may call \<^verbatim>\<open>server_activate\<close>, \<^verbatim>\<open>server_close\<close> and \<^verbatim>\<open>shutdown\<close> at any time.
  What runs without interruption between two suspension points is one event.  The listeners, the service and the clients
  are those of the environment: they end and fail as they like, but a factory whose cancel scope is cancelled while it is
  suspended does not return.
\<close>

section \<open>The state\<close>

text \<open>
  A listener is named by a number.  \<open>sv_factory\<close>: \<^verbatim>\<open>__servers_factory_cb\<close> is not \<^verbatim>\<open>None\<close>.  A cancel scope is known by
  whether it is cancelled.  \<open>sv_activating\<close> holds \<^verbatim>\<open>__server_activation_lock\<close> while the factory runs, \<open>sv_closing\<close> is the
  call that holds \<^verbatim>\<open>__server_close_lock\<close>: the listeners it is to close, and whether it still waits for the
  server tasks.
  \<open>sv_started\<close> are the tasks of the listeners, which become \<^verbatim>\<open>__server_tasks\<close> at the end of the set-up (\<open>sv_published\<close>).
  \<open>sv_clients\<close> counts the clients attached.  \<open>sv_opened\<close> and \<open>sv_closed\<close> are histories.
\<close>

datatype run_state = Idle | Activating | Initializing | Starting | Serving | Stopping | Cleaning

datatype activator = ByRun | ByUser

datatype listener_task = TaskServing | TaskCancelled | TaskDone

record net_server =
  sv_factory :: bool
  sv_factory_scope :: "bool option"
  sv_activating :: "activator option"
  sv_run_scope :: "bool option"
  sv_close_guard :: resource_guard
  sv_closing :: "(nat list \<times> bool) option"
  sv_servers :: "nat list"
  sv_is_shutdown :: bool
  sv_started :: "listener_task list"
  sv_published :: bool
  sv_active_tasks :: int
  sv_run :: run_state
  sv_raised :: "exc option"
  sv_waiting_shutdowns :: nat
  sv_clients :: nat
  sv_opened :: "nat list"
  sv_closed :: "nat list"

definition net_server_init :: net_server where
  "net_server_init =
     \<lparr>sv_factory = True, sv_factory_scope = None, sv_activating = None, sv_run_scope = None,
      sv_close_guard = \<lparr>rg_held = False, rg_msg = ''Cannot close server during serve_forever() setup.''\<rparr>,
      sv_closing = None, sv_servers = [], sv_is_shutdown = True, sv_started = [], sv_published = False,
      sv_active_tasks = 0, sv_run = Idle, sv_raised = None, sv_waiting_shutdowns = 0, sv_clients = 0,
      sv_opened = [], sv_closed = []\<rparr>"

definition server_tasks :: "net_server \<Rightarrow> listener_task list" where
  "server_tasks s = (if sv_published s then sv_started s else [])"

definition is_listening :: "net_server \<Rightarrow> bool" where
  "is_listening s \<longleftrightarrow> sv_servers s \<noteq> [] \<and> list_all (\<lambda>l. l \<notin> set (sv_closed s)) (sv_servers s)"

definition is_serving :: "net_server \<Rightarrow> bool" where
  "is_serving s \<longleftrightarrow> server_tasks s \<noteq> [] \<and> list_all (\<lambda>t. t \<noteq> TaskDone) (server_tasks s) \<and> is_listening s"

section \<open>The counter of active tasks\<close>

definition cancel_run_scope :: "net_server \<Rightarrow> net_server" where
  "cancel_run_scope s = s\<lparr>sv_run_scope := map_option (\<lambda>_. True) (sv_run_scope s)\<rparr>"

definition attach_server :: "net_server \<Rightarrow> net_server" where
  "attach_server s = s\<lparr>sv_active_tasks := sv_active_tasks s + 1\<rparr>"

definition detach_server :: "net_server \<Rightarrow> exc option \<times> net_server" where
  "detach_server s =
     (let s1 = s\<lparr>sv_active_tasks := sv_active_tasks s - 1\<rparr> in
      if sv_active_tasks s1 < 0 then (Some (AssertionError ''self.__active_tasks < 0''), s1)
      else if sv_active_tasks s1 = 0 then (None, cancel_run_scope s1)
      else (None, s1))"

section \<open>server\_activate\<close>

datatype activation = ActReturn | ActRaise exc | ActSuspended

text \<open>Up to the \<^verbatim>\<open>coro_yield\<close>, once the lock is acquired; then the end of the factory.\<close>

definition server_activate_start :: "activator \<Rightarrow> net_server \<Rightarrow> activation \<times> net_server" where
  "server_activate_start a s =
     (if sv_factory_scope s \<noteq> None then (ActRaise (AssertionError ''''), s)
      else if \<not> sv_factory s then (ActRaise ServerClosedError, s)
      else if sv_servers s \<noteq> [] then (ActReturn, s)
      else (ActSuspended, s\<lparr>sv_activating := Some a, sv_factory_scope := Some False\<rparr>))"

datatype factory_end = FactoryReturns "nat list" | FactoryRaises exc | FactoryCancelled

definition server_activate_end :: "factory_end \<Rightarrow> net_server \<Rightarrow> activation \<times> net_server" where
  "server_activate_end f s =
     (let s1 = s\<lparr>sv_activating := None, sv_factory_scope := None\<rparr> in
      case f of
        FactoryRaises e \<Rightarrow> (ActRaise e, s1)
      | FactoryCancelled \<Rightarrow> (ActRaise ServerClosedError, s1)
      | FactoryReturns ls \<Rightarrow>
          if ls = [] then (ActRaise (OSError '''' ''empty listeners list''), s1)
          else (ActReturn, s1\<lparr>sv_servers := ls, sv_opened := sv_opened s @ ls\<rparr>))"

section \<open>serve\_forever\<close>

definition serve_forever_start :: "net_server \<Rightarrow> exc option \<times> net_server" where
  "serve_forever_start s =
     (if \<not> sv_is_shutdown s then (Some ServerAlreadyRunning, s)
      else (None, s\<lparr>sv_is_shutdown := False, sv_run_scope := Some False, sv_run := Activating, sv_raised := None\<rparr>))"

text \<open>The task groups cancel their tasks when an exception leaves them.\<close>

fun cancel_task :: "listener_task \<Rightarrow> listener_task" where
  "cancel_task TaskServing = TaskCancelled"
| "cancel_task t = t"

definition run_interrupted :: "exc \<Rightarrow> net_server \<Rightarrow> net_server" where
  "run_interrupted e s =
     (let s1 = s\<lparr>sv_run := Stopping, sv_raised := Some e, sv_started := map cancel_task (sv_started s)\<rparr> in
      case sv_run s of
        Initializing \<Rightarrow> s1\<lparr>sv_close_guard := (sv_close_guard s)\<lparr>rg_held := False\<rparr>\<rparr>
      | Starting \<Rightarrow> s1\<lparr>sv_close_guard := (sv_close_guard s)\<lparr>rg_held := False\<rparr>\<rparr>
      | Serving \<Rightarrow> s1\<lparr>sv_run_scope := None\<rparr>
      | _ \<Rightarrow> s1)"

definition setup_enter :: "net_server \<Rightarrow> exc + net_server" where
  "setup_enter s =
     (if sv_servers s = [] then Inl (AssertionError '''')
      else (case guard_enter (sv_close_guard s) of
              Inl e \<Rightarrow> Inl e
            | Inr g \<Rightarrow> Inr (s\<lparr>sv_close_guard := g, sv_run := Initializing\<rparr>)))"

text \<open>What \<^verbatim>\<open>serve_forever\<close> does when its \<^verbatim>\<open>server_activate\<close> ends; nothing for the other callers.\<close>

definition after_activation :: "activator \<Rightarrow> activation \<times> net_server \<Rightarrow> net_server" where
  "after_activation a out =
     (case out of (r, s) \<Rightarrow>
        if a = ByUser then s
        else (case r of
                ActSuspended \<Rightarrow> s
              | ActRaise e \<Rightarrow> run_interrupted e s
              | ActReturn \<Rightarrow> (case setup_enter s of Inl e \<Rightarrow> run_interrupted e s | Inr s' \<Rightarrow> s')))"

definition service_initialized :: "net_server \<Rightarrow> net_server" where
  "service_initialized s = s\<lparr>sv_active_tasks := 0, sv_started := [], sv_run := Starting\<rparr>"

definition listener_starts :: "net_server \<Rightarrow> net_server" where
  "listener_starts s = attach_server (s\<lparr>sv_started := sv_started s @ [TaskServing]\<rparr>)"

definition setup_done :: "net_server \<Rightarrow> net_server" where
  "setup_done s =
     s\<lparr>sv_published := True, sv_close_guard := (sv_close_guard s)\<lparr>rg_held := False\<rparr>, sv_run := Serving\<rparr>"

definition listener_ends :: "nat \<Rightarrow> net_server \<Rightarrow> net_server" where
  "listener_ends i s = snd (detach_server (s\<lparr>sv_started := (sv_started s)[i := TaskDone]\<rparr>))"

definition client_starts :: "net_server \<Rightarrow> net_server" where
  "client_starts s = attach_server (s\<lparr>sv_clients := sv_clients s + 1\<rparr>)"

definition client_ends :: "net_server \<Rightarrow> net_server" where
  "client_ends s = snd (detach_server (s\<lparr>sv_clients := sv_clients s - 1\<rparr>))"

text \<open>The exit stack: the task groups and \<^verbatim>\<open>__server_tasks.clear\<close>, then the service, the scope and the event.\<close>

definition groups_exit :: "net_server \<Rightarrow> net_server" where
  "groups_exit s = s\<lparr>sv_started := [], sv_published := False, sv_run := Cleaning\<rparr>"

definition serve_forever_end :: "net_server \<Rightarrow> exc option \<times> net_server" where
  "serve_forever_end s =
     (sv_raised s, s\<lparr>sv_run_scope := None, sv_is_shutdown := True, sv_waiting_shutdowns := 0, sv_run := Idle\<rparr>)"

section \<open>shutdown and server\_close\<close>

definition shutdown_start :: "net_server \<Rightarrow> net_server" where
  "shutdown_start s =
     (let s1 = cancel_run_scope s in
      if sv_is_shutdown s then s1 else s1\<lparr>sv_waiting_shutdowns := sv_waiting_shutdowns s + 1\<rparr>)"

text \<open>
  \<^verbatim>\<open>server_close\<close> once it has the lock, up to the wait for the tasks; the closing of the listeners, which happens even
  when the wait is cancelled.
\<close>

definition server_close_start :: "net_server \<Rightarrow> exc option \<times> net_server" where
  "server_close_start s =
     (case guard_enter (sv_close_guard s) of
        Inl e \<Rightarrow> (Some e, s)
      | Inr g \<Rightarrow>
          (None,
           s\<lparr>sv_close_guard := g, sv_factory_scope := map_option (\<lambda>_. True) (sv_factory_scope s), sv_factory := False,
             sv_closing := Some (sv_servers s, True),
             sv_started := (if sv_published s then map cancel_task (sv_started s) else sv_started s)\<rparr>))"

definition server_close_waited :: "net_server \<Rightarrow> net_server" where
  "server_close_waited s = s\<lparr>sv_closing := map_option (\<lambda>(ls, _). (ls, False)) (sv_closing s)\<rparr>"

definition server_close_end :: "net_server \<Rightarrow> net_server" where
  "server_close_end s =
     (case sv_closing s of
        None \<Rightarrow> s
      | Some (ls, _) \<Rightarrow>
          s\<lparr>sv_closed := sv_closed s @ ls, sv_servers := [], sv_closing := None,
            sv_close_guard := (sv_close_guard s)\<lparr>rg_held := False\<rparr>\<rparr>)"

section \<open>Histories of a server\<close>

text \<open>
  \<open>ServeForever\<close>, \<open>Activate\<close>, \<open>Close\<close> and \<open>Shutdown\<close> are calls; the run enters its activation, and a close its body,
  when they get their lock.  \<open>RunRaises\<close> is an exception that reaches \<^verbatim>\<open>serve_forever\<close> where it waits: of the service, of a
  task group, or a cancellation.  \<open>CloseInterrupted\<close> is a cancellation of \<^verbatim>\<open>server_close\<close> while it waits for the tasks.
\<close>

datatype server_event =
    ServeForever
  | Activate activator
  | FactoryEnds factory_end
  | ServiceInitialized
  | ListenerStarts
  | SetupDone
  | RunRaises exc
  | ListenerEnds nat
  | ClientStarts
  | ClientEnds
  | GroupsExit
  | RunEnds
  | Shutdown
  | Close
  | CloseWaited
  | CloseInterrupted
  | CloseEnds

definition in_groups :: "run_state \<Rightarrow> bool" where
  "in_groups r \<longleftrightarrow> r = Starting \<or> r = Serving \<or> r = Stopping"

text \<open>
  When an event can happen.  A factory returns fresh listeners, and only if its scope is not cancelled; \<open>FactoryCancelled\<close>
  is the scope catching its own cancellation.  \<^verbatim>\<open>sleep_forever\<close> ends by an exception only.  A task group ends
  when its tasks have; clients are served by tasks of such a group.
\<close>

fun event_enabled :: "server_event \<Rightarrow> net_server \<Rightarrow> bool" where
  "event_enabled ServeForever s \<longleftrightarrow> True"
| "event_enabled (Activate a) s \<longleftrightarrow> sv_activating s = None \<and> (a = ByRun \<longrightarrow> sv_run s = Activating)"
| "event_enabled (FactoryEnds f) s \<longleftrightarrow> sv_activating s \<noteq> None \<and>
     (case f of
        FactoryReturns ls \<Rightarrow> sv_factory_scope s = Some False \<and> distinct ls \<and> set ls \<inter> set (sv_opened s) = {}
      | FactoryCancelled \<Rightarrow> sv_factory_scope s = Some True
      | FactoryRaises _ \<Rightarrow> True)"
| "event_enabled ServiceInitialized s \<longleftrightarrow> sv_run s = Initializing"
| "event_enabled ListenerStarts s \<longleftrightarrow> sv_run s = Starting \<and> length (sv_started s) < length (sv_servers s)"
| "event_enabled SetupDone s \<longleftrightarrow> sv_run s = Starting \<and> length (sv_started s) = length (sv_servers s)"
| "event_enabled (RunRaises _) s \<longleftrightarrow>
     sv_run s = Initializing \<or> sv_run s = Starting \<or> sv_run s = Serving \<or> sv_run s = Activating \<and> sv_activating s \<noteq> Some ByRun"
| "event_enabled (ListenerEnds i) s \<longleftrightarrow> i < length (sv_started s) \<and> sv_started s ! i \<noteq> TaskDone"
| "event_enabled ClientStarts s \<longleftrightarrow> in_groups (sv_run s) \<and> sv_started s \<noteq> []"
| "event_enabled ClientEnds s \<longleftrightarrow> 0 < sv_clients s"
| "event_enabled GroupsExit s \<longleftrightarrow>
     sv_run s = Stopping \<and> list_all (\<lambda>t. t = TaskDone) (sv_started s) \<and> sv_clients s = 0"
| "event_enabled RunEnds s \<longleftrightarrow> sv_run s = Cleaning"
| "event_enabled Shutdown s \<longleftrightarrow> True"
| "event_enabled Close s \<longleftrightarrow> sv_closing s = None"
| "event_enabled CloseWaited s \<longleftrightarrow>
     map_option snd (sv_closing s) = Some True \<and> list_all (\<lambda>t. t = TaskDone) (server_tasks s)"
| "event_enabled CloseInterrupted s \<longleftrightarrow> map_option snd (sv_closing s) = Some True"
| "event_enabled CloseEnds s \<longleftrightarrow> map_option snd (sv_closing s) = Some False"

fun event_apply :: "server_event \<Rightarrow> net_server \<Rightarrow> net_server" where
  "event_apply ServeForever s = snd (serve_forever_start s)"
| "event_apply (Activate a) s = after_activation a (server_activate_start a s)"
| "event_apply (FactoryEnds f) s = after_activation (the (sv_activating s)) (server_activate_end f s)"
| "event_apply ServiceInitialized s = service_initialized s"
| "event_apply ListenerStarts s = listener_starts s"
| "event_apply SetupDone s = setup_done s"
| "event_apply (RunRaises e) s = run_interrupted e s"
| "event_apply (ListenerEnds i) s = listener_ends i s"
| "event_apply ClientStarts s = client_starts s"
| "event_apply ClientEnds s = client_ends s"
| "event_apply GroupsExit s = groups_exit s"
| "event_apply RunEnds s = snd (serve_forever_end s)"
| "event_apply Shutdown s = shutdown_start s"
| "event_apply Close s = snd (server_close_start s)"
| "event_apply CloseWaited s = server_close_waited s"
| "event_apply CloseInterrupted s = server_close_waited s"
| "event_apply CloseEnds s = server_close_end s"

inductive lifecycle_reachable :: "net_server \<Rightarrow> bool" where
  server_start: "lifecycle_reachable net_server_init"
| server_event: "lifecycle_reachable s \<Longrightarrow> event_enabled e s \<Longrightarrow> lifecycle_reachable (event_apply e s)"

fun server_run :: "server_event list \<Rightarrow> net_server \<Rightarrow> net_server option" where
  "server_run [] s = Some s"
| "server_run (e # es) s = (if event_enabled e s then server_run es (event_apply e s) else None)"

lemma server_run_reachable: "server_run es s = Some s' \<Longrightarrow> lifecycle_reachable s \<Longrightarrow> lifecycle_reachable s'"
  by (induction es arbitrary: s) (auto split: if_splits intro: server_event)

lemma server_run_append:
  "server_run (es @ fs) s = (case server_run es s of None \<Rightarrow> None | Some s' \<Rightarrow> server_run fs s')"
  by (induction es arbitrary: s) simp_all

section \<open>The invariant\<close>

definition live_tasks :: "listener_task list \<Rightarrow> nat" where
  "live_tasks ts = length (filter (\<lambda>t. t \<noteq> TaskDone) ts)"

lemma live_tasks_simps [simp]:
  "live_tasks [] = 0" "live_tasks (ts @ [TaskServing]) = Suc (live_tasks ts)"
  by (simp_all add: live_tasks_def)

lemma live_tasks_cancel [simp]: "live_tasks (map cancel_task ts) = live_tasks ts"
proof (induction ts)
  case (Cons t ts)
  then show ?case by (cases t) (simp_all add: live_tasks_def)
qed simp

lemma live_tasks_done:
  assumes "i < length ts" and "ts ! i \<noteq> TaskDone"
  shows "live_tasks ts = Suc (live_tasks (ts[i := TaskDone]))"
  using assms
proof (induction ts arbitrary: i)
  case (Cons t ts)
  then show ?case by (cases i) (auto simp: live_tasks_def)
qed simp

lemma live_tasks_0: "live_tasks ts = 0 \<longleftrightarrow> list_all (\<lambda>t. t = TaskDone) ts"
  by (induction ts) (simp_all add: live_tasks_def)

lemma live_tasks_pos: "t \<in> set ts \<Longrightarrow> t \<noteq> TaskDone \<Longrightarrow> 0 < live_tasks ts"
  using live_tasks_0 [of ts] by (auto simp: list_all_iff)

text \<open>
  What holds in a phase of the run.  A shutdown waits only for a run whose scope is cancelled or that is stopping; when the
  counter of active tasks is back at zero the scope is cancelled.
\<close>

definition shutdown_heard :: "net_server \<Rightarrow> bool" where
  "shutdown_heard s \<longleftrightarrow> (0 < sv_waiting_shutdowns s \<longrightarrow> sv_run_scope s = Some True)"

definition counted :: "net_server \<Rightarrow> bool" where
  "counted s \<longleftrightarrow> sv_active_tasks s = int (live_tasks (sv_started s)) + int (sv_clients s)"

definition nothing_runs :: "net_server \<Rightarrow> bool" where
  "nothing_runs s \<longleftrightarrow> sv_started s = [] \<and> sv_clients s = 0 \<and> \<not> sv_published s"

fun phase_ok :: "run_state \<Rightarrow> net_server \<Rightarrow> bool" where
  "phase_ok Idle s \<longleftrightarrow> nothing_runs s \<and> sv_run_scope s = None \<and> sv_waiting_shutdowns s = 0"
| "phase_ok Activating s \<longleftrightarrow> nothing_runs s \<and> sv_run_scope s \<noteq> None \<and> shutdown_heard s"
| "phase_ok Initializing s \<longleftrightarrow> nothing_runs s \<and> sv_run_scope s \<noteq> None \<and> shutdown_heard s"
| "phase_ok Starting s \<longleftrightarrow> \<not> sv_published s \<and> counted s \<and> sv_run_scope s \<noteq> None \<and> shutdown_heard s \<and>
     (sv_started s = [] \<longrightarrow> sv_clients s = 0) \<and>
     (sv_started s \<noteq> [] \<and> sv_active_tasks s = 0 \<longrightarrow> sv_run_scope s = Some True)"
| "phase_ok Serving s \<longleftrightarrow> sv_published s \<and> counted s \<and> sv_run_scope s \<noteq> None \<and> shutdown_heard s \<and> sv_started s \<noteq> [] \<and>
     (sv_active_tasks s = 0 \<longrightarrow> sv_run_scope s = Some True)"
| "phase_ok Stopping s \<longleftrightarrow> nothing_runs s \<or> sv_started s \<noteq> [] \<and> counted s"
| "phase_ok Cleaning s \<longleftrightarrow> nothing_runs s"

definition run_inv :: "net_server \<Rightarrow> bool" where
  "run_inv s \<longleftrightarrow> phase_ok (sv_run s) s \<and> (sv_is_shutdown s \<longleftrightarrow> sv_run s = Idle)"

text \<open>
  The guard is held by the set-up of a run, which has listeners to serve, or by a close.  While the factory runs there are no
  listeners; without a factory, and unless a close is in progress, there are none either.
\<close>

fun guard_ok :: "run_state \<Rightarrow> net_server \<Rightarrow> bool" where
  "guard_ok Initializing s \<longleftrightarrow> rg_held (sv_close_guard s) \<and> sv_closing s = None \<and> sv_servers s \<noteq> [] \<and> sv_factory s"
| "guard_ok Starting s \<longleftrightarrow> rg_held (sv_close_guard s) \<and> sv_closing s = None \<and> sv_servers s \<noteq> [] \<and> sv_factory s"
| "guard_ok _ s \<longleftrightarrow> (rg_held (sv_close_guard s) \<longleftrightarrow> sv_closing s \<noteq> None)"

definition factory_ok :: "net_server \<Rightarrow> bool" where
  "factory_ok s \<longleftrightarrow>
     (sv_activating s = None \<longleftrightarrow> sv_factory_scope s = None) \<and>
     (sv_activating s = Some ByRun \<longrightarrow> sv_run s = Activating) \<and>
     (sv_factory_scope s = Some False \<longrightarrow> sv_factory s) \<and>
     (sv_factory_scope s \<noteq> None \<longrightarrow> sv_servers s = [])"

definition listeners_ok :: "net_server \<Rightarrow> bool" where
  "listeners_ok s \<longleftrightarrow>
     (sv_closing s = None \<and> \<not> sv_factory s \<longrightarrow> sv_servers s = []) \<and>
     pred_option (\<lambda>c. \<not> sv_factory s \<and> fst c = sv_servers s) (sv_closing s) \<and>
     set (sv_opened s) = set (sv_servers s) \<union> set (sv_closed s) \<and> set (sv_servers s) \<inter> set (sv_closed s) = {}"

definition lifecycle_inv :: "net_server \<Rightarrow> bool" where
  "lifecycle_inv s \<longleftrightarrow> run_inv s \<and> guard_ok (sv_run s) s \<and> factory_ok s \<and> listeners_ok s"

lemma lifecycle_inv_init: "lifecycle_inv net_server_init"
  by (simp add: lifecycle_inv_def run_inv_def factory_ok_def listeners_ok_def net_server_init_def nothing_runs_def)

lemmas activation_defs =
  after_activation_def server_activate_start_def server_activate_end_def setup_enter_def guard_enter_def run_interrupted_def
lemmas counter_defs =
  attach_server_def detach_server_def cancel_run_scope_def listener_starts_def listener_ends_def client_starts_def client_ends_def
lemmas phase_defs =
  serve_forever_start_def service_initialized_def setup_done_def groups_exit_def serve_forever_end_def
lemmas close_defs =
  server_close_start_def server_close_waited_def server_close_end_def guard_enter_def shutdown_start_def cancel_run_scope_def
lemmas inv_defs =
  lifecycle_inv_def run_inv_def factory_ok_def listeners_ok_def nothing_runs_def counted_def shutdown_heard_def Let_def

text \<open>The clauses about locks and listeners do not look at the tasks of the run.\<close>

lemma guard_frame [simp]:
  "guard_ok r (s\<lparr>sv_active_tasks := x0\<rparr>) = guard_ok r s"
  "guard_ok r (s\<lparr>sv_started := x1\<rparr>) = guard_ok r s"
  "guard_ok r (s\<lparr>sv_clients := x2\<rparr>) = guard_ok r s"
  "guard_ok r (s\<lparr>sv_run_scope := x3\<rparr>) = guard_ok r s"
  "guard_ok r (s\<lparr>sv_waiting_shutdowns := x4\<rparr>) = guard_ok r s"
  "guard_ok r (s\<lparr>sv_is_shutdown := x5\<rparr>) = guard_ok r s"
  "guard_ok r (s\<lparr>sv_raised := x6\<rparr>) = guard_ok r s"
  "guard_ok r (s\<lparr>sv_published := x7\<rparr>) = guard_ok r s"
  "guard_ok r (s\<lparr>sv_run := x8\<rparr>) = guard_ok r s"
  "guard_ok r (s\<lparr>sv_activating := y0\<rparr>) = guard_ok r s"
  "guard_ok r (s\<lparr>sv_factory_scope := y1\<rparr>) = guard_ok r s"
  "guard_ok r (s\<lparr>sv_opened := y2\<rparr>) = guard_ok r s"
  "guard_ok r (s\<lparr>sv_closed := y3\<rparr>) = guard_ok r s"
  by (cases r; simp)+

lemma factory_frame [simp]:
  "factory_ok (s\<lparr>sv_active_tasks := x0\<rparr>) = factory_ok s"
  "factory_ok (s\<lparr>sv_started := x1\<rparr>) = factory_ok s"
  "factory_ok (s\<lparr>sv_clients := x2\<rparr>) = factory_ok s"
  "factory_ok (s\<lparr>sv_run_scope := x3\<rparr>) = factory_ok s"
  "factory_ok (s\<lparr>sv_waiting_shutdowns := x4\<rparr>) = factory_ok s"
  "factory_ok (s\<lparr>sv_is_shutdown := x5\<rparr>) = factory_ok s"
  "factory_ok (s\<lparr>sv_raised := x6\<rparr>) = factory_ok s"
  "factory_ok (s\<lparr>sv_published := x7\<rparr>) = factory_ok s"
  "factory_ok (s\<lparr>sv_close_guard := y0\<rparr>) = factory_ok s"
  "factory_ok (s\<lparr>sv_closing := y1\<rparr>) = factory_ok s"
  "factory_ok (s\<lparr>sv_opened := y2\<rparr>) = factory_ok s"
  "factory_ok (s\<lparr>sv_closed := y3\<rparr>) = factory_ok s"
  by (simp_all add: factory_ok_def)

lemma listeners_frame [simp]:
  "listeners_ok (s\<lparr>sv_active_tasks := x0\<rparr>) = listeners_ok s"
  "listeners_ok (s\<lparr>sv_started := x1\<rparr>) = listeners_ok s"
  "listeners_ok (s\<lparr>sv_clients := x2\<rparr>) = listeners_ok s"
  "listeners_ok (s\<lparr>sv_run_scope := x3\<rparr>) = listeners_ok s"
  "listeners_ok (s\<lparr>sv_waiting_shutdowns := x4\<rparr>) = listeners_ok s"
  "listeners_ok (s\<lparr>sv_is_shutdown := x5\<rparr>) = listeners_ok s"
  "listeners_ok (s\<lparr>sv_raised := x6\<rparr>) = listeners_ok s"
  "listeners_ok (s\<lparr>sv_published := x7\<rparr>) = listeners_ok s"
  "listeners_ok (s\<lparr>sv_run := x8\<rparr>) = listeners_ok s"
  "listeners_ok (s\<lparr>sv_activating := y0\<rparr>) = listeners_ok s"
  "listeners_ok (s\<lparr>sv_factory_scope := y1\<rparr>) = listeners_ok s"
  "listeners_ok (s\<lparr>sv_close_guard := y2\<rparr>) = listeners_ok s"
  by (simp_all add: listeners_ok_def)

lemma phase_frame [simp]:
  "phase_ok r (s\<lparr>sv_factory := x0\<rparr>) = phase_ok r s"
  "phase_ok r (s\<lparr>sv_factory_scope := x1\<rparr>) = phase_ok r s"
  "phase_ok r (s\<lparr>sv_activating := x2\<rparr>) = phase_ok r s"
  "phase_ok r (s\<lparr>sv_close_guard := x3\<rparr>) = phase_ok r s"
  "phase_ok r (s\<lparr>sv_closing := x4\<rparr>) = phase_ok r s"
  "phase_ok r (s\<lparr>sv_servers := x5\<rparr>) = phase_ok r s"
  "phase_ok r (s\<lparr>sv_opened := x6\<rparr>) = phase_ok r s"
  "phase_ok r (s\<lparr>sv_closed := x7\<rparr>) = phase_ok r s"
  "phase_ok r (s\<lparr>sv_raised := x8\<rparr>) = phase_ok r s"
  "phase_ok r (s\<lparr>sv_is_shutdown := x9\<rparr>) = phase_ok r s"
  "phase_ok r (s\<lparr>sv_run := x10\<rparr>) = phase_ok r s"
  by (cases r; simp add: nothing_runs_def counted_def shutdown_heard_def)+

lemma phase_ok_cong:
  assumes "sv_started t = sv_started s \<or> sv_started t = map cancel_task (sv_started s)"
    and "sv_clients t = sv_clients s" and "sv_published t = sv_published s" and "sv_run_scope t = sv_run_scope s"
    and "sv_active_tasks t = sv_active_tasks s" and "sv_waiting_shutdowns t = sv_waiting_shutdowns s"
  shows "phase_ok r t = phase_ok r s"
proof -
  have "live_tasks (sv_started t) = live_tasks (sv_started s)" and "sv_started t = [] \<longleftrightarrow> sv_started s = []"
    using assms(1) by auto
  with assms(2-) show ?thesis by (cases r) (simp_all add: nothing_runs_def counted_def shutdown_heard_def)
qed

text \<open>The tasks of a run.\<close>

lemmas task_defs = lifecycle_inv_def run_inv_def nothing_runs_def counted_def shutdown_heard_def Let_def in_groups_def

lemma inv_listener_starts:
  "lifecycle_inv s \<Longrightarrow> event_enabled ListenerStarts s \<Longrightarrow> lifecycle_inv (event_apply ListenerStarts s)"
  by (simp add: task_defs counter_defs)

lemma inv_client_starts:
  "lifecycle_inv s \<Longrightarrow> event_enabled ClientStarts s \<Longrightarrow> lifecycle_inv (event_apply ClientStarts s)"
  by (cases "sv_run s") (simp_all add: task_defs counter_defs)

lemma inv_client_ends:
  "lifecycle_inv s \<Longrightarrow> event_enabled ClientEnds s \<Longrightarrow> lifecycle_inv (event_apply ClientEnds s)"
  by (cases "sv_run s"; cases "sv_run_scope s") (auto simp: task_defs counter_defs)

lemma inv_listener_ends:
  assumes "lifecycle_inv s" and "event_enabled (ListenerEnds i) s"
  shows "lifecycle_inv (event_apply (ListenerEnds i) s)"
proof -
  from assms(2) live_tasks_done [of i "sv_started s"]
  have "live_tasks (sv_started s) = Suc (live_tasks ((sv_started s)[i := TaskDone]))" and "sv_started s \<noteq> []" by auto
  with assms(1) show ?thesis
    by (cases "sv_run s"; cases "sv_run_scope s") (auto simp: task_defs counter_defs)
qed

lemma cancel_tasks_counted [simp]: "counted (s\<lparr>sv_started := map cancel_task (sv_started s)\<rparr>) = counted s"
  by (simp add: counted_def)

text \<open>The phases of a run.\<close>

lemma inv_run_raises:
  assumes "lifecycle_inv s" and "event_enabled (RunRaises e) s"
  shows "lifecycle_inv (event_apply (RunRaises e) s)"
proof -
  from assms consider "sv_run s = Initializing" | "sv_run s = Starting" | "sv_run s = Serving"
    | "sv_run s = Activating" "sv_activating s \<noteq> Some ByRun" by auto
  then show ?thesis
    by cases (use assms in \<open>auto simp: task_defs run_interrupted_def factory_ok_def listeners_ok_def\<close>)
qed

lemma inv_serve_forever: "lifecycle_inv s \<Longrightarrow> lifecycle_inv (event_apply ServeForever s)"
  by (cases "sv_is_shutdown s") (auto simp: task_defs serve_forever_start_def factory_ok_def listeners_ok_def)

lemma inv_service_initialized:
  "lifecycle_inv s \<Longrightarrow> event_enabled ServiceInitialized s \<Longrightarrow> lifecycle_inv (event_apply ServiceInitialized s)"
  by (auto simp: task_defs service_initialized_def factory_ok_def listeners_ok_def)

lemma inv_setup_done: "lifecycle_inv s \<Longrightarrow> event_enabled SetupDone s \<Longrightarrow> lifecycle_inv (event_apply SetupDone s)"
  by (auto simp: task_defs setup_done_def factory_ok_def listeners_ok_def)

lemma inv_groups_exit: "lifecycle_inv s \<Longrightarrow> event_enabled GroupsExit s \<Longrightarrow> lifecycle_inv (event_apply GroupsExit s)"
  by (auto simp: task_defs groups_exit_def factory_ok_def listeners_ok_def)

lemma inv_run_ends: "lifecycle_inv s \<Longrightarrow> event_enabled RunEnds s \<Longrightarrow> lifecycle_inv (event_apply RunEnds s)"
  by (auto simp: task_defs serve_forever_end_def factory_ok_def listeners_ok_def)

lemma inv_shutdown: "lifecycle_inv s \<Longrightarrow> lifecycle_inv (event_apply Shutdown s)"
  by (cases "sv_run s"; cases "sv_run_scope s") (auto simp: task_defs shutdown_start_def cancel_run_scope_def)

text \<open>Activation and closing.\<close>

lemma inv_run_interrupted:
  assumes "lifecycle_inv s" and "sv_run s = Activating" and "sv_activating s \<noteq> Some ByRun"
  shows "lifecycle_inv (run_interrupted e s)"
  using assms by (auto simp: task_defs run_interrupted_def factory_ok_def listeners_ok_def)

lemma inv_setup_enter:
  assumes "lifecycle_inv s" and "sv_run s = Activating" and "sv_activating s \<noteq> Some ByRun" and "sv_factory s" and "sv_servers s \<noteq> []"
  obtains s' where "setup_enter s = Inr s'" and "lifecycle_inv s'"
proof -
  from assms have "sv_closing s = None" by (cases "sv_closing s") (auto simp: lifecycle_inv_def listeners_ok_def)
  with assms that show ?thesis
    by (auto simp: task_defs setup_enter_def guard_enter_def factory_ok_def listeners_ok_def)
qed

lemma inv_activate:
  assumes "lifecycle_inv s" and "event_enabled (Activate a) s"
  shows "lifecycle_inv (event_apply (Activate a) s)"
proof (cases "sv_factory s \<and> sv_servers s = []")
  case True
  with assms have "factory_ok (s\<lparr>sv_activating := Some a, sv_factory_scope := Some False\<rparr>)"
    by (cases a) (auto simp: lifecycle_inv_def factory_ok_def)
  moreover have "after_activation a (ActSuspended, s') = s'" for s' by (simp add: after_activation_def)
  ultimately show ?thesis
    using assms True by (simp add: lifecycle_inv_def run_inv_def server_activate_start_def factory_ok_def [of s])
next
  case False
  have free: "sv_factory_scope s = None" using assms by (simp add: lifecycle_inv_def factory_ok_def)
  show ?thesis
  proof (cases a)
    case ByRun
    with assms have r: "sv_run s = Activating" "sv_activating s \<noteq> Some ByRun" by auto
    show ?thesis
    proof (cases "sv_factory s")
      case True
      with False obtain s' where "setup_enter s = Inr s'" "lifecycle_inv s'"
        using inv_setup_enter [OF assms(1) r] by blast
      with True False free ByRun show ?thesis by (simp add: after_activation_def server_activate_start_def)
    next
      case no: False
      with free ByRun inv_run_interrupted [OF assms(1) r] show ?thesis
        by (simp add: after_activation_def server_activate_start_def)
    qed
  qed (use assms(1) free False in \<open>simp add: after_activation_def server_activate_start_def\<close>)
qed

text \<open>The end of the factory, before the caller goes on.\<close>

lemma guard_ok_other:
  "r \<noteq> Initializing \<Longrightarrow> r \<noteq> Starting \<Longrightarrow> guard_ok r s \<longleftrightarrow> (rg_held (sv_close_guard s) \<longleftrightarrow> sv_closing s \<noteq> None)"
  by (cases r) simp_all

lemma inv_activation_ends:
  assumes "lifecycle_inv s" and "event_enabled (FactoryEnds f) s" and "server_activate_end f s = (r, s1)"
  shows "lifecycle_inv s1 \<and> sv_activating s1 = None \<and> sv_run s1 = sv_run s \<and> r \<noteq> ActSuspended
    \<and> (r = ActReturn \<longrightarrow> sv_factory s1 \<and> sv_servers s1 \<noteq> [])"
proof (cases f)
  case (FactoryReturns ls)
  with assms have "sv_factory_scope s = Some False" by simp
  then have s: "sv_factory s" "sv_servers s = []" using assms(1) by (auto simp: lifecycle_inv_def factory_ok_def)
  have c: "sv_closing s = None" using assms(1) s(1) by (cases "sv_closing s") (auto simp: lifecycle_inv_def listeners_ok_def)
  have r: "sv_run s \<noteq> Initializing" "sv_run s \<noteq> Starting" using assms(1) s(2) by (auto simp: lifecycle_inv_def)
  let ?s = "s\<lparr>sv_activating := None, sv_factory_scope := None\<rparr>"
  have s': "lifecycle_inv ?s" using assms(1) s c r by (simp add: lifecycle_inv_def run_inv_def factory_ok_def listeners_ok_def)
  show ?thesis
  proof (cases "ls = []")
    case True
    with s' FactoryReturns assms(3) show ?thesis by (auto simp: server_activate_end_def Let_def)
  next
    case False
    have "set ls \<inter> set (sv_closed s) = {}"
      using assms FactoryReturns by (auto simp: lifecycle_inv_def listeners_ok_def)
    then have l: "listeners_ok (s\<lparr>sv_servers := ls, sv_opened := sv_opened s @ ls\<rparr>)"
      using assms(1) s c by (auto simp: lifecycle_inv_def listeners_ok_def)
    have "guard_ok (sv_run s) (s\<lparr>sv_servers := ls, sv_opened := sv_opened s @ ls\<rparr>)"
      using assms(1) r by (simp add: lifecycle_inv_def guard_ok_other)
    moreover have "listeners_ok (?s\<lparr>sv_servers := ls, sv_opened := sv_opened s @ ls\<rparr>)" using l by (simp add: listeners_ok_def)
    moreover have "guard_ok (sv_run s) (?s\<lparr>sv_servers := ls, sv_opened := sv_opened s @ ls\<rparr>)"
      using calculation(1) r by (simp add: guard_ok_other)
    moreover have "factory_ok (?s\<lparr>sv_servers := ls, sv_opened := sv_opened s @ ls\<rparr>)" by (simp add: factory_ok_def)
    ultimately have "lifecycle_inv (?s\<lparr>sv_servers := ls, sv_opened := sv_opened s @ ls\<rparr>)"
      using s' by (simp add: lifecycle_inv_def run_inv_def)
    with False FactoryReturns assms(3) s show ?thesis by (auto simp: server_activate_end_def Let_def)
  qed
next
  case (FactoryRaises e)
  have "lifecycle_inv (s\<lparr>sv_activating := None, sv_factory_scope := None\<rparr>)"
    using assms(1) by (simp add: lifecycle_inv_def run_inv_def factory_ok_def)
  with FactoryRaises assms(3) show ?thesis by (auto simp: server_activate_end_def Let_def)
next
  case FactoryCancelled
  have "lifecycle_inv (s\<lparr>sv_activating := None, sv_factory_scope := None\<rparr>)"
    using assms(1) by (simp add: lifecycle_inv_def run_inv_def factory_ok_def)
  with FactoryCancelled assms(3) show ?thesis by (auto simp: server_activate_end_def Let_def)
qed

lemma inv_factory_ends:
  assumes "lifecycle_inv s" and "event_enabled (FactoryEnds f) s"
  shows "lifecycle_inv (event_apply (FactoryEnds f) s)"
proof -
  from assms(2) obtain a where a: "sv_activating s = Some a" by auto
  obtain r s1 where e: "server_activate_end f s = (r, s1)" by fastforce
  note s1 = inv_activation_ends [OF assms e]
  show ?thesis
  proof (cases a)
    case ByRun
    with a assms(1) s1 have run: "sv_run s1 = Activating" "sv_activating s1 \<noteq> Some ByRun"
      by (auto simp: lifecycle_inv_def factory_ok_def)
    show ?thesis
    proof (cases r)
      case ActReturn
      with inv_setup_enter [OF _ run] s1 obtain s' where "setup_enter s1 = Inr s'" "lifecycle_inv s'" by blast
      with ActReturn a e ByRun show ?thesis by (simp add: after_activation_def)
    next
      case (ActRaise x)
      with inv_run_interrupted [OF _ run] s1 a e ByRun show ?thesis by (simp add: after_activation_def)
    qed (use s1 in simp)
  qed (use s1 a e in \<open>simp add: after_activation_def\<close>)
qed

lemma inv_close:
  assumes "lifecycle_inv s" and "event_enabled Close s"
  shows "lifecycle_inv (event_apply Close s)"
proof (cases "rg_held (sv_close_guard s)")
  case False
  with assms have "sv_run s \<noteq> Initializing" "sv_run s \<noteq> Starting" by (auto simp: lifecycle_inv_def)
  moreover have "phase_ok (sv_run s) (event_apply Close s) = phase_ok (sv_run s) s"
    using False by (intro phase_ok_cong) (simp_all add: server_close_start_def guard_enter_def)
  moreover have "sv_run (event_apply Close s) = sv_run s" "sv_is_shutdown (event_apply Close s) = sv_is_shutdown s"
    using False by (simp_all add: server_close_start_def guard_enter_def)
  moreover have "guard_ok (sv_run s) (event_apply Close s)"
    using False calculation(1,2) by (cases "sv_run s") (simp_all add: server_close_start_def guard_enter_def)
  moreover have "factory_ok (event_apply Close s)" "listeners_ok (event_apply Close s)"
    using False assms
    by (auto simp: lifecycle_inv_def server_close_start_def guard_enter_def factory_ok_def listeners_ok_def)
  ultimately show ?thesis using assms(1) by (simp add: lifecycle_inv_def run_inv_def del: event_apply.simps)
qed (use assms in \<open>simp add: server_close_start_def guard_enter_def\<close>)

lemma inv_close_continues:
  assumes "lifecycle_inv s" and "event_enabled CloseInterrupted s"
  shows "lifecycle_inv (server_close_waited s)"
proof -
  from assms obtain ls where c: "sv_closing s = Some (ls, True)" by auto
  with assms(1) have r: "sv_run s \<noteq> Initializing" "sv_run s \<noteq> Starting" by (auto simp: lifecycle_inv_def)
  have "listeners_ok (server_close_waited s)"
    using assms(1) c by (auto simp: lifecycle_inv_def server_close_waited_def listeners_ok_def)
  with assms(1) c r show ?thesis
    by (simp add: lifecycle_inv_def run_inv_def server_close_waited_def guard_ok_other)
qed

lemma inv_close_ends:
  assumes "lifecycle_inv s" and "event_enabled CloseEnds s"
  shows "lifecycle_inv (event_apply CloseEnds s)"
proof -
  from assms obtain ls where c: "sv_closing s = Some (ls, False)" by auto
  with assms(1) have r: "sv_run s \<noteq> Initializing" "sv_run s \<noteq> Starting" by (auto simp: lifecycle_inv_def)
  have "listeners_ok (server_close_end s)" "factory_ok (server_close_end s)"
    using assms(1) c by (auto simp: lifecycle_inv_def server_close_end_def listeners_ok_def factory_ok_def)
  with assms(1) c r show ?thesis
    by (simp add: lifecycle_inv_def run_inv_def server_close_end_def guard_ok_other)
qed

lemma lifecycle_inv_step: "lifecycle_inv s \<Longrightarrow> event_enabled e s \<Longrightarrow> lifecycle_inv (event_apply e s)"
proof (cases e)
  case CloseWaited
  then show "lifecycle_inv s \<Longrightarrow> event_enabled e s \<Longrightarrow> lifecycle_inv (event_apply e s)"
    by (simp add: inv_close_continues)
next
  case CloseInterrupted
  then show "lifecycle_inv s \<Longrightarrow> event_enabled e s \<Longrightarrow> lifecycle_inv (event_apply e s)"
    by (simp add: inv_close_continues)
qed (simp_all only: inv_serve_forever inv_activate inv_factory_ends inv_service_initialized inv_listener_starts inv_setup_done
    inv_run_raises inv_listener_ends inv_client_starts inv_client_ends inv_groups_exit inv_run_ends inv_shutdown inv_close
    inv_close_ends)

lemma lifecycle_inv_reachable: "lifecycle_reachable s \<Longrightarrow> lifecycle_inv s"
  by (induction rule: lifecycle_reachable.induct) (simp_all only: lifecycle_inv_init lifecycle_inv_step)

section \<open>Properties\<close>

text \<open>
  C24: \<^verbatim>\<open>serve_forever\<close> runs once at a time, and the assertions of the server hold in every interleaving of runs,
  activations, shutdowns, closes, clients and failures: a second call raises \<^verbatim>\<open>ServerAlreadyRunning\<close> and changes nothing,
  an activation finds no factory running, a run that is activated has listeners and finds the guard free, and the counter of
  active tasks does not become negative.  Closing is refused exactly while a run is being set up.
\<close>

theorem server_assertions_hold:
  assumes "lifecycle_reachable s"
  shows "(sv_is_shutdown s \<longleftrightarrow> sv_run s = Idle)
    \<and> (sv_run s \<noteq> Idle \<longrightarrow> serve_forever_start s = (Some ServerAlreadyRunning, s))
    \<and> (event_enabled (Activate a) s \<longrightarrow> sv_factory_scope s = None)
    \<and> (event_enabled (Activate ByRun) s \<and> fst (server_activate_start ByRun s) = ActReturn \<longrightarrow> (\<exists>s'. setup_enter s = Inr s'))
    \<and> (sv_activating s = Some ByRun \<and> event_enabled (FactoryEnds f) s \<and> fst (server_activate_end f s) = ActReturn
        \<longrightarrow> (\<exists>s'. setup_enter (snd (server_activate_end f s)) = Inr s'))
    \<and> (event_enabled (ListenerEnds i) s \<or> event_enabled ClientEnds s \<longrightarrow> fst (detach_server s) = None)
    \<and> (event_enabled Close s \<longrightarrow> (fst (server_close_start s) \<noteq> None \<longleftrightarrow> sv_run s = Initializing \<or> sv_run s = Starting))"
proof (intro conjI impI)
  note lifecycle_inv = lifecycle_inv_reachable [OF assms]
  show "sv_is_shutdown s \<longleftrightarrow> sv_run s = Idle" using lifecycle_inv by (simp add: lifecycle_inv_def run_inv_def)
  then show "serve_forever_start s = (Some ServerAlreadyRunning, s)" if "sv_run s \<noteq> Idle"
    using that by (simp add: serve_forever_start_def)
  show "sv_factory_scope s = None" if "event_enabled (Activate a) s"
    using that lifecycle_inv by (simp add: lifecycle_inv_def factory_ok_def)
  show "\<exists>s'. setup_enter s = Inr s'"
    if "event_enabled (Activate ByRun) s \<and> fst (server_activate_start ByRun s) = ActReturn"
  proof -
    from that have "sv_run s = Activating" "sv_activating s \<noteq> Some ByRun" "sv_factory s" "sv_servers s \<noteq> []"
      by (auto simp: server_activate_start_def split: if_splits)
    from inv_setup_enter [OF lifecycle_inv this] show ?thesis by blast
  qed
  show "\<exists>s'. setup_enter (snd (server_activate_end f s)) = Inr s'"
    if e: "sv_activating s = Some ByRun \<and> event_enabled (FactoryEnds f) s \<and> fst (server_activate_end f s) = ActReturn"
  proof -
    obtain r s1 where s1: "server_activate_end f s = (r, s1)" by fastforce
    have "sv_run s = Activating" using e lifecycle_inv by (simp add: lifecycle_inv_def factory_ok_def)
    with inv_activation_ends [OF lifecycle_inv _ s1] e s1 have "lifecycle_inv s1" "sv_run s1 = Activating" "sv_activating s1 \<noteq> Some ByRun"
      "sv_factory s1" "sv_servers s1 \<noteq> []" by auto
    from inv_setup_enter [OF this] s1 show ?thesis by (metis snd_conv)
  qed
  show "fst (detach_server s) = None" if "event_enabled (ListenerEnds i) s \<or> event_enabled ClientEnds s"
  proof -
    from that live_tasks_done [of i "sv_started s"] have "0 < live_tasks (sv_started s) + sv_clients s" by auto
    moreover from this have "counted s"
      using lifecycle_inv by (cases "sv_run s") (auto simp: lifecycle_inv_def run_inv_def nothing_runs_def)
    ultimately have "0 < sv_active_tasks s" by (auto simp: counted_def)
    then show ?thesis by (simp add: detach_server_def Let_def)
  qed
  show "fst (server_close_start s) \<noteq> None \<longleftrightarrow> sv_run s = Initializing \<or> sv_run s = Starting" if "event_enabled Close s"
    using that lifecycle_inv
    by (cases "sv_run s") (auto simp: lifecycle_inv_def server_close_start_def guard_enter_def)
qed

text \<open>Without a factory nothing is opened any more.\<close>

lemma closed_step:
  assumes "lifecycle_inv s" and "\<not> sv_factory s" and "event_enabled e s"
  shows "\<not> sv_factory (event_apply e s) \<and> sv_opened (event_apply e s) = sv_opened s
    \<and> set (sv_servers (event_apply e s)) \<subseteq> set (sv_servers s)"
proof (cases e)
  case (FactoryEnds f)
  have "sv_factory_scope s \<noteq> Some False" using assms by (auto simp: lifecycle_inv_def factory_ok_def)
  with FactoryEnds assms show ?thesis
    by (cases f)
      (auto simp: after_activation_def server_activate_end_def run_interrupted_def setup_enter_def guard_enter_def Let_def
         split: run_state.split)
next
  case (Activate a)
  with assms show ?thesis
    by (auto simp: after_activation_def server_activate_start_def run_interrupted_def Let_def split: run_state.split)
next
  case (RunRaises x)
  with assms show ?thesis by (auto simp: run_interrupted_def Let_def split: run_state.split)
qed (use assms in \<open>auto simp: serve_forever_start_def service_initialized_def setup_done_def groups_exit_def serve_forever_end_def
      attach_server_def detach_server_def cancel_run_scope_def listener_starts_def listener_ends_def client_starts_def
      client_ends_def shutdown_start_def server_close_start_def server_close_waited_def server_close_end_def Let_def
      split: option.split sum.split prod.split\<close>)

lemma closed_run:
  assumes "server_run es s = Some s'" and "lifecycle_inv s" and "\<not> sv_factory s"
  shows "lifecycle_inv s' \<and> \<not> sv_factory s' \<and> sv_opened s' = sv_opened s \<and> set (sv_servers s') \<subseteq> set (sv_servers s)"
  using assms
proof (induction es arbitrary: s)
  case (Cons e es)
  then have e: "event_enabled e s" and run: "server_run es (event_apply e s) = Some s'" by (simp_all split: if_splits)
  with Cons.IH [OF run] closed_step [OF Cons.prems(2,3) e] lifecycle_inv_step [OF Cons.prems(2) e] show ?case by auto
qed simp

text \<open>
  C25: closing a server is final.  When a close has ended, interrupted or not, every listener ever opened is closed, the server
  does not listen or serve, and whatever happens afterwards it opens no listener again; a new run, and a new call of \<^verbatim>\<open>server_activate\<close>, ends with
  \<^verbatim>\<open>ServerClosedError\<close>.
\<close>

theorem server_close_is_final:
  assumes "lifecycle_reachable s" and "sv_closing s = Some (ls, False)" and "server_run (CloseEnds # es) s = Some s'"
  shows "set (sv_opened s) \<subseteq> set (sv_closed (server_close_end s))
    \<and> sv_opened s' = sv_opened s \<and> \<not> is_serving s' \<and> \<not> is_listening s'
    \<and> (event_enabled (Activate a) s' \<longrightarrow> server_activate_start a s' = (ActRaise ServerClosedError, s'))"
proof -
  note s = lifecycle_inv_reachable [OF assms(1)]
  have run: "server_run es (server_close_end s) = Some s'" using assms(2,3) by (simp split: if_splits)
  have c: "lifecycle_inv (server_close_end s)" "\<not> sv_factory (server_close_end s)"
    using inv_close_ends [OF s] assms(2) s by (simp_all add: lifecycle_inv_def listeners_ok_def server_close_end_def)
  note s' = closed_run [OF run c]
  have o: "set (sv_opened s) \<subseteq> set (sv_closed (server_close_end s))"
    using s assms(2) by (auto simp: lifecycle_inv_def listeners_ok_def server_close_end_def)
  have "sv_servers s' = []" using s' assms(2) by (simp add: server_close_end_def)
  then have "\<not> is_listening s'" by (simp add: is_listening_def)
  with o s' assms(2) show ?thesis
    by (auto simp: is_serving_def server_activate_start_def server_close_end_def lifecycle_inv_def factory_ok_def)
qed

section \<open>The end of a run\<close>

text \<open>
  A run that stops has its own events left: the tasks of the listeners and of the clients end, then the task groups do, then the run.
\<close>

definition stopping :: "net_server \<Rightarrow> bool" where
  "stopping s \<longleftrightarrow> sv_run s = Stopping \<or> sv_run s = Cleaning"

definition own_event :: "server_event \<Rightarrow> bool" where
  "own_event e \<longleftrightarrow> (case e of ListenerEnds _ \<Rightarrow> True | ClientEnds \<Rightarrow> True | GroupsExit \<Rightarrow> True | _ \<Rightarrow> False)"

text \<open>The cancellation of the scope of the run, where the run waits: in its factory or elsewhere.\<close>

definition scope_interrupts :: "server_event \<Rightarrow> bool" where
  "scope_interrupts e \<longleftrightarrow> e = RunRaises CancelledError \<or> e = FactoryEnds (FactoryRaises CancelledError)"

definition work_left :: "net_server \<Rightarrow> nat" where
  "work_left s = live_tasks (sv_started s) + sv_clients s + (if sv_run s = Stopping then 1 else 0)"

lemma waiting_kept:
  assumes "e \<noteq> RunEnds"
  shows "sv_waiting_shutdowns s \<le> sv_waiting_shutdowns (event_apply e s)"
proof (cases e)
  case (Activate a)
  then show ?thesis
    by (auto simp: after_activation_def server_activate_start_def setup_enter_def guard_enter_def run_interrupted_def Let_def
        split: run_state.split)
next
  case (FactoryEnds f)
  then show ?thesis
    by (cases f) (auto simp: after_activation_def server_activate_end_def setup_enter_def guard_enter_def run_interrupted_def Let_def
        split: run_state.split)
next
  case (RunRaises x)
  then show ?thesis by (auto simp: run_interrupted_def Let_def split: run_state.split)
qed (use assms in \<open>auto simp: phase_defs counter_defs close_defs Let_def split: option.split\<close>)

lemma user_activation_keeps:
  assumes "after_activation ByUser (server_activate_end f s) = t \<or> after_activation ByUser (server_activate_start a s) = t"
  shows "sv_run t = sv_run s \<and> sv_started t = sv_started s \<and> sv_clients t = sv_clients s"
  using assms
  by (cases f) (auto simp: after_activation_def server_activate_end_def server_activate_start_def Let_def)

text \<open>
  Every event of a stopping run, its end apart, leaves it stopping; its own events use up the work left, to which only
  new clients add.
\<close>

lemma stopping_step:
  assumes "lifecycle_inv s" and "stopping s" and "event_enabled e s" and "e \<noteq> RunEnds"
  shows "stopping (event_apply e s)
    \<and> work_left (event_apply e s) + (if own_event e then 1 else 0) \<le> work_left s + (if e = ClientStarts then 1 else 0)"
proof (cases e)
  case (Activate a)
  with assms(2,3) have "a = ByUser" by (cases a) (auto simp: stopping_def)
  with Activate user_activation_keeps [of FactoryCancelled s _ a, OF disjI2 [OF refl]] assms(2) show ?thesis
    by (auto simp: stopping_def work_left_def own_event_def)
next
  case (FactoryEnds f)
  with assms have "sv_activating s = Some ByUser"
    by (cases "the (sv_activating s)") (auto simp: stopping_def lifecycle_inv_def factory_ok_def)
  with FactoryEnds user_activation_keeps [of f s _ ByUser, OF disjI1 [OF refl]] assms(2) show ?thesis
    by (auto simp: stopping_def work_left_def own_event_def)
next
  case (ListenerEnds i)
  with assms(3) live_tasks_done [of i "sv_started s"]
  have "live_tasks (sv_started s) = Suc (live_tasks ((sv_started s)[i := TaskDone]))" by simp
  with ListenerEnds assms(2) show ?thesis
    by (auto simp: stopping_def work_left_def own_event_def counter_defs Let_def)
next
  case GroupsExit
  with assms(3) show ?thesis by (auto simp: stopping_def work_left_def own_event_def groups_exit_def)
next
  case ServeForever
  have "\<not> sv_is_shutdown s" using assms(1,2) by (auto simp: stopping_def lifecycle_inv_def run_inv_def)
  with ServeForever assms(2) show ?thesis by (simp add: serve_forever_start_def own_event_def)
next
  case ClientStarts
  with assms(2) show ?thesis by (auto simp: stopping_def work_left_def own_event_def counter_defs)
next
  case ClientEnds
  with assms(2,3) show ?thesis by (auto simp: stopping_def work_left_def own_event_def counter_defs Let_def)
next
  case Shutdown
  with assms(2) show ?thesis by (auto simp: stopping_def work_left_def own_event_def close_defs Let_def)
next
  case Close
  with assms(2) show ?thesis by (auto simp: stopping_def work_left_def own_event_def close_defs split: sum.split)
next
  case CloseWaited
  with assms(2) show ?thesis by (auto simp: stopping_def work_left_def own_event_def close_defs)
next
  case CloseInterrupted
  with assms(2) show ?thesis by (auto simp: stopping_def work_left_def own_event_def close_defs)
next
  case CloseEnds
  with assms(2) show ?thesis by (auto simp: stopping_def work_left_def own_event_def close_defs split: option.split)
qed (use assms in \<open>auto simp: stopping_def\<close>)

lemma stopping_run:
  assumes "lifecycle_inv s" and "stopping s" and "server_run es s = Some s'" and "RunEnds \<notin> set es"
  shows "stopping s'
    \<and> work_left s' + length (filter own_event es) \<le> work_left s + length (filter (\<lambda>e. e = ClientStarts) es)"
  using assms
proof (induction es arbitrary: s)
  case (Cons e es)
  then have e: "event_enabled e s" "e \<noteq> RunEnds" and run: "server_run es (event_apply e s) = Some s'" "RunEnds \<notin> set es"
    by (auto split: if_splits)
  note step = stopping_step [OF Cons.prems(1,2) e]
  from Cons.IH [OF lifecycle_inv_step [OF Cons.prems(1) e(1)] conjunct1 [OF step] run] step show ?case
    by (simp split: if_splits)
qed simp

lemma waiting_kept_run:
  assumes "server_run es s = Some s'" and "RunEnds \<notin> set es"
  shows "sv_waiting_shutdowns s \<le> sv_waiting_shutdowns s'"
  using assms
proof (induction es arbitrary: s)
  case (Cons e es)
  then have "e \<noteq> RunEnds" and "server_run es (event_apply e s) = Some s'" and "RunEnds \<notin> set es" by (auto split: if_splits)
  with Cons.IH waiting_kept [of e s] show ?case by fastforce
qed simp

lemma stopping_progress:
  assumes "stopping s"
  shows "\<exists>e. (own_event e \<or> e = RunEnds) \<and> event_enabled e s"
proof (cases "sv_run s = Cleaning")
  case False
  with assms have run: "sv_run s = Stopping" by (simp add: stopping_def)
  show ?thesis
  proof (cases "list_all (\<lambda>t. t = TaskDone) (sv_started s)")
    case True
    show ?thesis
    proof (cases "sv_clients s = 0")
      case True
      with run \<open>list_all _ _\<close> have "event_enabled GroupsExit s" by simp
      then show ?thesis by (intro exI [of _ GroupsExit]) (simp add: own_event_def)
    qed (intro exI [of _ ClientEnds], simp add: own_event_def)
  next
    case False
    then obtain i where "event_enabled (ListenerEnds i) s" by (auto simp: list_all_length)
    then show ?thesis by (intro exI [of _ "ListenerEnds i"]) (simp add: own_event_def)
  qed
qed (intro exI [of _ RunEnds], simp)

lemma cancelled_scope_interrupts:
  assumes "lifecycle_inv s" and "sv_run_scope s = Some True" and "\<not> stopping s"
  shows "\<exists>e. scope_interrupts e \<and> event_enabled e s \<and> stopping (event_apply e s)
    \<and> sv_waiting_shutdowns (event_apply e s) = sv_waiting_shutdowns s"
proof (cases "sv_run s = Activating \<and> sv_activating s = Some ByRun")
  case True
  then show ?thesis
    by (intro exI [of _ "FactoryEnds (FactoryRaises CancelledError)"])
      (simp add: scope_interrupts_def stopping_def after_activation_def server_activate_end_def run_interrupted_def Let_def)
next
  case False
  have "sv_run s \<noteq> Idle" using assms(1,2) by (auto simp: lifecycle_inv_def run_inv_def)
  with assms(3) False show ?thesis
    by (intro exI [of _ "RunRaises CancelledError"]; cases "sv_run s")
      (simp_all add: scope_interrupts_def stopping_def run_interrupted_def Let_def)
qed

text \<open>
  C26: a shutdown is always heard.  Whatever happens until the run ends, a call of \<^verbatim>\<open>shutdown\<close> that waits goes on waiting for a run
  that is stopping or whose scope is cancelled; a run without an active task left has its scope cancelled too.  A run with
  a cancelled scope can be interrupted, and then stops.  A run that stops does not go back: the events of its
  own left before its end are at most its live listener tasks, its clients, one, and one for every client that still
  starts; one of them, or its end, is always possible, whatever else happens.  The end of the run wakes every call that waits.
\<close>

theorem shutdown_is_heard:
  assumes "lifecycle_reachable s" and "server_run es s = Some s'" and "RunEnds \<notin> set es"
  shows "sv_waiting_shutdowns s \<le> sv_waiting_shutdowns s'
    \<and> (0 < sv_waiting_shutdowns s' \<longrightarrow> stopping s' \<or> sv_run s' \<noteq> Idle \<and> sv_run_scope s' = Some True)
    \<and> (sv_run s' = Serving \<and> sv_active_tasks s' = 0 \<longrightarrow> sv_run_scope s' = Some True)
    \<and> (sv_run_scope s' = Some True \<and> \<not> stopping s' \<longrightarrow>
         (\<exists>e. scope_interrupts e \<and> event_enabled e s' \<and> stopping (event_apply e s')
            \<and> sv_waiting_shutdowns (event_apply e s') = sv_waiting_shutdowns s'))
    \<and> (stopping s \<longrightarrow> stopping s'
         \<and> length (filter own_event es)
             \<le> live_tasks (sv_started s) + sv_clients s + 1 + length (filter (\<lambda>e. e = ClientStarts) es))
    \<and> (stopping s' \<longrightarrow> (\<exists>e. (own_event e \<or> e = RunEnds) \<and> event_enabled e s'))
    \<and> sv_waiting_shutdowns (event_apply RunEnds s') = 0"
proof (intro conjI impI)
  note s = lifecycle_inv_reachable [OF assms(1)]
  have s': "lifecycle_inv s'" by (rule lifecycle_inv_reachable) (rule server_run_reachable [OF assms(2,1)])
  show "sv_waiting_shutdowns s \<le> sv_waiting_shutdowns s'" by (rule waiting_kept_run [OF assms(2,3)])
  show "stopping s' \<or> sv_run s' \<noteq> Idle \<and> sv_run_scope s' = Some True" if "0 < sv_waiting_shutdowns s'"
    using s' that by (cases "sv_run s'") (auto simp: stopping_def lifecycle_inv_def run_inv_def shutdown_heard_def)
  show "sv_run_scope s' = Some True" if "sv_run s' = Serving \<and> sv_active_tasks s' = 0"
    using s' that by (auto simp: lifecycle_inv_def run_inv_def)
  show "\<exists>e. scope_interrupts e \<and> event_enabled e s' \<and> stopping (event_apply e s')
      \<and> sv_waiting_shutdowns (event_apply e s') = sv_waiting_shutdowns s'" if "sv_run_scope s' = Some True \<and> \<not> stopping s'"
    using cancelled_scope_interrupts [OF s'] that by blast
  show "stopping s'" if "stopping s" using stopping_run [OF s that assms(2,3)] ..
  show "length (filter own_event es)
      \<le> live_tasks (sv_started s) + sv_clients s + 1 + length (filter (\<lambda>e. e = ClientStarts) es)" if "stopping s"
    using stopping_run [OF s that assms(2,3)] by (simp add: work_left_def split: if_splits)
  show "\<exists>e. (own_event e \<or> e = RunEnds) \<and> event_enabled e s'" if "stopping s'" by (rule stopping_progress [OF that])
qed (simp add: serve_forever_end_def)

section \<open>Witnesses\<close>

text \<open>Two listeners, a client, a shutdown while serving; then the server is closed.\<close>

definition life_example :: "server_event list" where
  "life_example =
     [ServeForever, Activate ByRun, FactoryEnds (FactoryReturns [1, 2]), ServiceInitialized, ListenerStarts, ListenerStarts,
      SetupDone, ClientStarts, Shutdown]"

definition serving_server :: net_server where
  "serving_server = the (server_run life_example net_server_init)"

definition closing_server :: net_server where
  "closing_server =
     the (server_run
       [RunRaises CancelledError, ClientEnds, ListenerEnds 0, ListenerEnds 1, GroupsExit, RunEnds, Close, CloseWaited]
       serving_server)"

definition closed_server :: net_server where
  "closed_server = the (server_run [CloseEnds, ServeForever] closing_server)"

lemma example_servers:
  "server_run life_example net_server_init = Some serving_server"
  "server_run
     [RunRaises CancelledError, ClientEnds, ListenerEnds 0, ListenerEnds 1, GroupsExit, RunEnds, Close, CloseWaited]
     serving_server = Some closing_server"
  "sv_run serving_server = Serving" "sv_waiting_shutdowns serving_server = 1" "sv_run_scope serving_server = Some True"
  "sv_active_tasks serving_server = 3" "sv_activating serving_server = None"
  "sv_closing serving_server = None"
  "sv_closing closing_server = Some ([1, 2], False)" "server_run [CloseEnds, ServeForever] closing_server = Some closed_server"
  "event_enabled (Activate ByRun) closed_server"
  unfolding closed_server_def closing_server_def serving_server_def life_example_def by code_simp+

lemma example_servers_reachable: "lifecycle_reachable serving_server" "lifecycle_reachable closing_server"
  using server_run_reachable [OF example_servers(1) server_start] server_run_reachable [OF example_servers(2)] by simp_all

theorem server_assertions_hold_witness:
  "serve_forever_start serving_server = (Some ServerAlreadyRunning, serving_server) \<and> fst (server_close_start serving_server) = None"
  using server_assertions_hold [OF example_servers_reachable(1), where a = ByRun and f = FactoryCancelled and i = 0]
  by (simp add: example_servers)

theorem server_close_is_final_witness:
  "\<not> is_listening closed_server \<and> server_activate_start ByRun closed_server = (ActRaise ServerClosedError, closed_server)"
  using server_close_is_final [OF example_servers_reachable(2) example_servers(9,10), of ByRun] example_servers(11) by blast

text \<open>The run of the example is interrupted; while it stops, another call of \<^verbatim>\<open>shutdown\<close> comes and the server tasks end.\<close>

theorem shutdown_is_heard_witness:
  "case server_run [RunRaises CancelledError, ClientEnds, Shutdown, ListenerEnds 0, ListenerEnds 1] serving_server of
     None \<Rightarrow> False
   | Some s \<Rightarrow> 1 \<le> sv_waiting_shutdowns s \<and> stopping s \<and> (\<exists>e. (own_event e \<or> e = RunEnds) \<and> event_enabled e s)"
proof -
  let ?es = "[RunRaises CancelledError, ClientEnds, Shutdown, ListenerEnds 0, ListenerEnds 1]"
  have run: "server_run ?es serving_server \<noteq> None" "stopping (the (server_run ?es serving_server))"
    unfolding serving_server_def life_example_def by code_simp+
  then obtain s where s: "server_run ?es serving_server = Some s" "stopping s" by auto
  have "RunEnds \<notin> set ?es" by simp
  from shutdown_is_heard [OF example_servers_reachable(1) s(1) this] s show ?thesis by (simp add: example_servers(4))
qed

end
