(* ===== verification/HandlerBuilder.thy ===== *)
theory HandlerBuilder
  imports DatagramHandlers
begin

text \<open>
  \<^verbatim>\<open>src/src/easynetwork/servers/misc.py\<close>: the asynchronous generators that connect the request handlers of an application
  (\<^verbatim>\<open>servers/handlers.py\<close>) to the coroutines of \<open>AsyncStreamServer\<close> and \<open>DatagramHandlers\<close>, and \<^verbatim>\<open>ClientErrorHandler\<close> of
  \<^verbatim>\<open>servers/_base.py\<close>, one of the contexts they run in.
\<close>

section \<open>The application\<close>

text \<open>
  What the server calls: the context manager of the initializer (which may have no client to give), the methods of the request
  handler, the client it gets.  \<open>ap_on_connection\<close> is awaited (\<open>Inl\<close>: the exception it raises), or is a generator.
  \<open>ap_exit\<close> is given the exception that leaves the context and says what goes on.  \<open>ap_anext\<close>, \<open>ap_resume\<close> and
  \<open>ap_gclose\<close> drive a generator, as for the low-level handlers.
\<close>

record ('r, 'a, 'c, 'g, 'w) application =
  ap_enter :: "'w \<Rightarrow> (exc + 'c option) \<times> 'w"
  ap_exit :: "'c option \<Rightarrow> exc option \<Rightarrow> 'w \<Rightarrow> exc option \<times> 'w"
  ap_on_connection :: "'c \<Rightarrow> 'w \<Rightarrow> (exc option + 'g) \<times> 'w"
  ap_handle :: "'c \<Rightarrow> 'w \<Rightarrow> 'g \<times> 'w"
  ap_on_disconnection :: "'c \<Rightarrow> 'w \<Rightarrow> exc option \<times> 'w"
  ap_anext :: "'g \<Rightarrow> 'w \<Rightarrow> ('a, 'g) handler_output \<times> 'w"
  ap_resume :: "exc + 'r \<Rightarrow> 'g \<Rightarrow> 'w \<Rightarrow> ('a, 'g) handler_output \<times> 'w"
  ap_gclose :: "'g \<Rightarrow> 'w \<Rightarrow> exc option \<times> 'w"
  ap_is_closing :: "'c \<Rightarrow> 'w \<Rightarrow> bool"
  ap_aclose :: "'c \<Rightarrow> 'w \<Rightarrow> exc option \<times> 'w"

text \<open>The classes derived from \<^verbatim>\<open>ConnectionError\<close>: an \<^verbatim>\<open>OSError\<close> made with one of these errnos is one.\<close>

definition is_ConnectionError :: "exc \<Rightarrow> bool" where
  "is_ConnectionError e \<longleftrightarrow>
     (case e of
        ClientClosedError \<Rightarrow> True
      | OSError errno _ \<Rightarrow> errno \<in> set [''EPIPE'', ''ESHUTDOWN'', ''ECONNABORTED'', ''ECONNREFUSED'', ''ECONNRESET'']
      | _ \<Rightarrow> False)"

section \<open>The generator of a stream client\<close>

text \<open>
  Where the generator is suspended: not started, in the generator of \<^verbatim>\<open>on_connection\<close>, or in one of \<^verbatim>\<open>handle\<close>.
\<close>

datatype ('c, 'g) stage = Unstarted | InConnection 'c 'g | InHandle 'c 'g

definition generator_exit :: exc where
  "generator_exit = OtherError ''GeneratorExit''"

definition disconnect_client :: "('r, 'a, 'c, 'g, 'w) application \<Rightarrow> 'c \<Rightarrow> exc option \<times> 'w \<Rightarrow> exc option \<times> 'w" where
  "disconnect_client A c body =
     (case ap_on_disconnection A c (snd body) of
        (None, w) \<Rightarrow> (fst body, w)
      | (Some e, w) \<Rightarrow> (if is_ConnectionError e then fst body else Some e, w))"

text \<open>The exit stack (with \<^verbatim>\<open>disconnect_client\<close> once it is pushed) and the end of the generator.\<close>

definition end_generator :: "exc option \<times> 'w \<Rightarrow> ('a, 'h) handler_output \<times> 'w" where
  "end_generator res = (case res of (None, w) \<Rightarrow> (Stops, w) | (Some e, w) \<Rightarrow> (Raises e, w))"

definition leave_context :: "('r, 'a, 'c, 'g, 'w) application \<Rightarrow> 'c option \<Rightarrow> exc option \<times> 'w \<Rightarrow> exc option \<times> 'w" where
  "leave_context A c body = ap_exit A c (fst body) (snd body)"

definition leave_client :: "('r, 'a, 'c, 'g, 'w) application \<Rightarrow> 'c \<Rightarrow> exc option \<times> 'w \<Rightarrow> exc option \<times> 'w" where
  "leave_client A c body = leave_context A (Some c) (disconnect_client A c body)"

text \<open>One turn of \<^verbatim>\<open>while not client_is_closing()\<close>; a generator that yields nothing ends the client.\<close>

definition next_handle ::
  "'w backend \<Rightarrow> ('r, 'a, 'c, 'g, 'w) application \<Rightarrow> 'c \<Rightarrow> 'w \<Rightarrow> ('a, ('c, 'g) stage) handler_output \<times> 'w"
where
  "next_handle B A c w =
     (if ap_is_closing A c w then end_generator (leave_client A c (None, w))
      else (case ap_handle A c w of
              (g, w1) \<Rightarrow>
                (case ap_anext A g w1 of
                   (Yields y g', w2) \<Rightarrow> (Yields y (InHandle c g'), w2)
                 | (Stops, w2) \<Rightarrow> end_generator (leave_client A c (aclose_forcefully B (ap_aclose A c) w2))
                 | (Raises e, w2) \<Rightarrow> end_generator (leave_client A c (Some e, w2)))))"

text \<open>What happens after a generator of \<^verbatim>\<open>on_connection\<close>, or of \<^verbatim>\<open>handle\<close>, has been resumed.\<close>

definition after_connection ::
  "'w backend \<Rightarrow> ('r, 'a, 'c, 'g, 'w) application \<Rightarrow> 'c \<Rightarrow> ('a, 'g) handler_output \<times> 'w
     \<Rightarrow> ('a, ('c, 'g) stage) handler_output \<times> 'w"
where
  "after_connection B A c out =
     (case out of
        (Yields y g, w) \<Rightarrow> (Yields y (InConnection c g), w)
      | (Stops, w) \<Rightarrow> next_handle B A c w
      | (Raises e, w) \<Rightarrow> end_generator (leave_context A (Some c) (Some e, w)))"

definition after_handle ::
  "'w backend \<Rightarrow> ('r, 'a, 'c, 'g, 'w) application \<Rightarrow> 'c \<Rightarrow> ('a, 'g) handler_output \<times> 'w
     \<Rightarrow> ('a, ('c, 'g) stage) handler_output \<times> 'w"
where
  "after_handle B A c out =
     (case out of
        (Yields y g, w) \<Rightarrow> (Yields y (InHandle c g), w)
      | (Stops, w) \<Rightarrow> next_handle B A c w
      | (Raises e, w) \<Rightarrow> end_generator (leave_client A c (Some e, w)))"

text \<open>The generator runs to its first \<^verbatim>\<open>yield\<close>; it is asked for that only once.\<close>

definition built_anext ::
  "'w backend \<Rightarrow> ('r, 'a, 'c, 'g, 'w) application \<Rightarrow> 'w \<Rightarrow> ('a, ('c, 'g) stage) handler_output \<times> 'w"
where
  "built_anext B A w =
     (case ap_enter A w of
        (Inl e, w1) \<Rightarrow> (Raises e, w1)
      | (Inr None, w1) \<Rightarrow> end_generator (leave_context A None (None, w1))
      | (Inr (Some c), w1) \<Rightarrow>
          (case ap_on_connection A c w1 of
             (Inl None, w2) \<Rightarrow> next_handle B A c w2
           | (Inl (Some e), w2) \<Rightarrow> end_generator (leave_context A (Some c) (Some e, w2))
           | (Inr g, w2) \<Rightarrow> after_connection B A c (ap_anext A g w2)))"

fun built_resume ::
  "'w backend \<Rightarrow> ('r, 'a, 'c, 'g, 'w) application \<Rightarrow> exc + 'r \<Rightarrow> ('c, 'g) stage \<Rightarrow> 'w
     \<Rightarrow> ('a, ('c, 'g) stage) handler_output \<times> 'w"
where
  "built_resume B A i (InConnection c g) w = after_connection B A c (ap_resume A i g w)"
| "built_resume B A i (InHandle c g) w = after_handle B A c (ap_resume A i g w)"
| "built_resume B A i Unstarted w =
     (case i of Inl e \<Rightarrow> (Raises e, w) | Inr _ \<Rightarrow> (Raises (TypeError ''can't send non-None value to a just-started async generator''), w))"

text \<open>
  \<^verbatim>\<open>aclose()\<close> raises \<^verbatim>\<open>GeneratorExit\<close> where the generator is suspended: the generator of the application is closed, the
  contexts are left.
\<close>

definition close_result :: "exc option \<times> 'w \<Rightarrow> exc option \<times> 'w" where
  "close_result res = (if fst res = Some generator_exit then None else fst res, snd res)"

definition generator_closed :: "exc option \<times> 'w \<Rightarrow> exc option \<times> 'w" where
  "generator_closed res = (case res of (None, w) \<Rightarrow> (Some generator_exit, w) | (Some e, w) \<Rightarrow> (Some e, w))"

fun built_aclose :: "('r, 'a, 'c, 'g, 'w) application \<Rightarrow> ('c, 'g) stage \<Rightarrow> 'w \<Rightarrow> exc option \<times> 'w" where
  "built_aclose A Unstarted w = (None, w)"
| "built_aclose A (InConnection c g) w =
     close_result (leave_context A (Some c) (generator_closed (ap_gclose A g w)))"
| "built_aclose A (InHandle c g) w = close_result (leave_client A c (generator_closed (ap_gclose A g w)))"

definition build_stream_handler ::
  "'w backend \<Rightarrow> ('r, 'a, 'c, 'g, 'w) application \<Rightarrow> ('r, 'a, ('c, 'g) stage, 'w) request_handler"
where
  "build_stream_handler B A =
     \<lparr>rh_connect = (\<lambda>w. (Inr Unstarted, w)), rh_anext = (\<lambda>_. built_anext B A), rh_resume = built_resume B A,
      rh_aclose = built_aclose A\<rparr>"

section \<open>The generator of a datagram client\<close>

text \<open>No hooks and one generator of \<^verbatim>\<open>handle\<close>: the client is served again when its next datagram comes.\<close>

definition after_datagram_handle ::
  "('r, 'a, 'c, 'g, 'w) application \<Rightarrow> 'c \<Rightarrow> ('a, 'g) handler_output \<times> 'w \<Rightarrow> ('a, ('c, 'g) stage) handler_output \<times> 'w"
where
  "after_datagram_handle A c out =
     (case out of
        (Yields y g, w) \<Rightarrow> (Yields y (InHandle c g), w)
      | (Stops, w) \<Rightarrow> end_generator (leave_context A (Some c) (None, w))
      | (Raises e, w) \<Rightarrow> end_generator (leave_context A (Some c) (Some e, w)))"

definition datagram_anext ::
  "('r, 'a, 'c, 'g, 'w) application \<Rightarrow> 'w \<Rightarrow> ('a, ('c, 'g) stage) handler_output \<times> 'w"
where
  "datagram_anext A w =
     (case ap_enter A w of
        (Inl e, w1) \<Rightarrow> (Raises e, w1)
      | (Inr None, w1) \<Rightarrow> end_generator (leave_context A None (None, w1))
      | (Inr (Some c), w1) \<Rightarrow>
          (case ap_handle A c w1 of (g, w2) \<Rightarrow> after_datagram_handle A c (ap_anext A g w2)))"

fun datagram_resume ::
  "('r, 'a, 'c, 'g, 'w) application \<Rightarrow> exc + 'r \<Rightarrow> ('c, 'g) stage \<Rightarrow> 'w \<Rightarrow> ('a, ('c, 'g) stage) handler_output \<times> 'w"
where
  "datagram_resume A i (InHandle c g) w = after_datagram_handle A c (ap_resume A i g w)"
| "datagram_resume A i _ w =
     (case i of Inl e \<Rightarrow> (Raises e, w) | Inr _ \<Rightarrow> (Raises (TypeError ''can't send non-None value to a just-started async generator''), w))"

fun datagram_aclose :: "('r, 'a, 'c, 'g, 'w) application \<Rightarrow> ('c, 'g) stage \<Rightarrow> 'w \<Rightarrow> exc option \<times> 'w" where
  "datagram_aclose A (InHandle c g) w = close_result (leave_context A (Some c) (generator_closed (ap_gclose A g w)))"
| "datagram_aclose A _ w = (None, w)"

definition build_datagram_handler ::
  "('r, 'a, 'c, 'g, 'w) application \<Rightarrow> ('r, 'a, ('c, 'g) stage, 'w) request_handler"
where
  "build_datagram_handler A =
     \<lparr>rh_connect = (\<lambda>w. (Inr Unstarted, w)), rh_anext = (\<lambda>_. datagram_anext A), rh_resume = datagram_resume A,
      rh_aclose = datagram_aclose A\<rparr>"

section \<open>Observing the application\<close>

text \<open>
  The same application, with a history of the calls it gets beside its world.  A generator is marked with whether it is one
  of \<^verbatim>\<open>on_connection\<close>; its end is seen by the call that resumes it.
\<close>

datatype 'r call =
    Enter bool
  | OnConnection
  | ConnectionDone bool
  | Handle
  | Input "exc + 'r"
  | HandleDone
  | CloseClient
  | OnDisconnection
  | Exit

definition log_call :: "'r call list \<Rightarrow> 'x \<times> 'w \<times> 'r call list \<Rightarrow> 'x \<times> 'w \<times> 'r call list" where
  "log_call cs = (\<lambda>(x, w, l). (x, w, l @ cs))"

definition generator_done :: "bool \<Rightarrow> bool \<Rightarrow> 'r call" where
  "generator_done k ok = (if k then ConnectionDone ok else HandleDone)"

definition observe_output ::
  "bool \<Rightarrow> 'r call list \<Rightarrow> ('a, 'g) handler_output \<times> 'w \<Rightarrow> ('a, bool \<times> 'g) handler_output \<times> 'w \<times> 'r call list"
where
  "observe_output k l out =
     (case out of
        (Yields y g, w) \<Rightarrow> (Yields y (k, g), w, l)
      | (Stops, w) \<Rightarrow> (Stops, w, l @ [generator_done k True])
      | (Raises e, w) \<Rightarrow> (Raises e, w, l @ [generator_done k False]))"

definition observe ::
  "('r, 'a, 'c, 'g, 'w) application \<Rightarrow> ('r, 'a, 'c, bool \<times> 'g, 'w \<times> 'r call list) application"
where
  "observe A =
     \<lparr>ap_enter = (\<lambda>(w, l). case ap_enter A w of (r, w') \<Rightarrow> (r, w', l @ [Enter (\<not> isl r)])),
      ap_exit = (\<lambda>c e (w, l). case ap_exit A c e w of (r, w') \<Rightarrow> (r, w', l @ [Exit])),
      ap_on_connection = (\<lambda>c (w, l).
        case ap_on_connection A c w of
          (Inl r, w') \<Rightarrow> (Inl r, w', l @ [OnConnection, ConnectionDone (r = None)])
        | (Inr g, w') \<Rightarrow> (Inr (True, g), w', l @ [OnConnection])),
      ap_handle = (\<lambda>c (w, l). case ap_handle A c w of (g, w') \<Rightarrow> ((False, g), w', l @ [Handle])),
      ap_on_disconnection = (\<lambda>c (w, l). case ap_on_disconnection A c w of (r, w') \<Rightarrow> (r, w', l @ [OnDisconnection])),
      ap_anext = (\<lambda>(k, g) (w, l). observe_output k l (ap_anext A g w)),
      ap_resume = (\<lambda>i (k, g) (w, l). observe_output k (l @ [Input i]) (ap_resume A i g w)),
      ap_gclose = (\<lambda>(k, g) (w, l). case ap_gclose A g w of (r, w') \<Rightarrow> (r, w', l @ [generator_done k False])),
      ap_is_closing = (\<lambda>c (w, l). ap_is_closing A c w),
      ap_aclose = (\<lambda>c (w, l). case ap_aclose A c w of (r, w') \<Rightarrow> (r, w', l @ [CloseClient]))\<rparr>"

text \<open>
  The protocol of the calls: \<^verbatim>\<open>on_connection\<close> first; generators of \<^verbatim>\<open>handle\<close> only once it has succeeded, one after the other;
  \<^verbatim>\<open>on_disconnection\<close> once, when the last one is over, and only if \<^verbatim>\<open>on_connection\<close> succeeded; the context of the initializer
  around everything; inputs only to a suspended generator.
\<close>

datatype protocol = Fresh | Entered | Connecting | Connected | Running | Unconnected | Disconnected | Left

fun call_step :: "protocol \<Rightarrow> 'r call \<Rightarrow> protocol option" where
  "call_step Fresh (Enter ok) = Some (if ok then Entered else Left)"
| "call_step Entered OnConnection = Some Connecting"
| "call_step Entered Exit = Some Left"
| "call_step Connecting (Input _) = Some Connecting"
| "call_step Connecting (ConnectionDone ok) = Some (if ok then Connected else Unconnected)"
| "call_step Unconnected Exit = Some Left"
| "call_step Connected Handle = Some Running"
| "call_step Connected CloseClient = Some Connected"
| "call_step Connected OnDisconnection = Some Disconnected"
| "call_step Running (Input _) = Some Running"
| "call_step Running HandleDone = Some Connected"
| "call_step Disconnected Exit = Some Left"
| "call_step _ _ = None"

definition calls_state :: "'r call list \<Rightarrow> protocol option" where
  "calls_state cs = fold (\<lambda>c s. Option.bind s (\<lambda>p. call_step p c)) cs (Some Fresh)"

lemma calls_state_simps [simp]:
  "calls_state [] = Some Fresh"
  "calls_state (cs @ [c]) = Option.bind (calls_state cs) (\<lambda>p. call_step p c)"
  "calls_state (cs @ [c, d]) = Option.bind (Option.bind (calls_state cs) (\<lambda>p. call_step p c)) (\<lambda>p. call_step p d)"
  by (simp_all add: calls_state_def)

fun inputs_of :: "'r call list \<Rightarrow> (exc + 'r) list" where
  "inputs_of [] = []"
| "inputs_of (Input i # cs) = i # inputs_of cs"
| "inputs_of (_ # cs) = inputs_of cs"

lemma inputs_of_append [simp]: "inputs_of (cs @ ds) = inputs_of cs @ inputs_of ds"
  by (induction cs rule: inputs_of.induct) simp_all

text \<open>What a suspended generator has to do with the calls so far; \<open>inputs\<close> are those given to it.\<close>

fun stage_calls :: "('c, bool \<times> 'g) stage \<Rightarrow> protocol" where
  "stage_calls Unstarted = Fresh"
| "stage_calls (InConnection c g) = Connecting"
| "stage_calls (InHandle c g) = Running"

fun stage_marks :: "('c, bool \<times> 'g) stage \<Rightarrow> bool" where
  "stage_marks Unstarted \<longleftrightarrow> False"
| "stage_marks (InConnection c g) \<longleftrightarrow> fst g"
| "stage_marks (InHandle c g) \<longleftrightarrow> \<not> fst g"

definition calls_ok :: "(exc + 'r) list \<Rightarrow> ('a, ('c, bool \<times> 'g) stage) handler_output \<times> 'w \<times> 'r call list \<Rightarrow> bool" where
  "calls_ok inputs out \<longleftrightarrow>
     (case out of (r, w, l) \<Rightarrow>
        inputs_of l = inputs \<and>
        (case r of
           Yields y h \<Rightarrow> calls_state l = Some (stage_calls h) \<and> stage_marks h
         | _ \<Rightarrow> calls_state l = Some Left))"

lemma leave_context_calls:
  assumes "leave_context (observe A) c (e, w, l) = (r, w', l')" and "calls_state l = Some p" and "p = Entered \<or> p = Unconnected \<or> p = Disconnected"
  shows "calls_state l' = Some Left \<and> inputs_of l' = inputs_of l"
  using assms by (auto simp: leave_context_def observe_def split: prod.splits)

lemma leave_client_calls:
  assumes "leave_client (observe A) c (e, w, l) = (r, w', l')" and "calls_state l = Some Connected"
  shows "calls_state l' = Some Left \<and> inputs_of l' = inputs_of l"
proof -
  obtain r1 w1 where d: "ap_on_disconnection A c w = (r1, w1)" by fastforce
  then obtain e' where "disconnect_client (observe A) c (e, w, l) = (e', w1, l @ [OnDisconnection])"
    by (cases r1) (auto simp: disconnect_client_def observe_def)
  with assms leave_context_calls [of A "Some c" e' w1 "l @ [OnDisconnection]" r w' l' Disconnected] show ?thesis
    by (simp add: leave_client_def)
qed

lemma end_generator_calls:
  assumes "calls_state (snd (snd res)) = Some Left" and "inputs_of (snd (snd res)) = inputs"
  shows "calls_ok inputs (end_generator res)"
  using assms by (auto simp: calls_ok_def end_generator_def split: prod.splits option.splits)

lemma close_client_calls:
  assumes "scopes_keep snd B" and "aclose_forcefully B (ap_aclose (observe A) c) (w, l) = (r, w', l')"
    and "calls_state l = Some Connected"
  shows "calls_state l' = Some Connected \<and> inputs_of l' = inputs_of l"
proof -
  obtain w1 l1 where 1: "be_enter B (Finite 0) (w, l) = (w1, l1)" by fastforce
  then have l1: "l1 = l" using scopes_keepD(1) [OF assms(1), of "Finite 0" "(w, l)"] by simp
  obtain r2 w2 where 2: "ap_aclose A c w1 = (r2, w2)" by fastforce
  obtain s k w3 l3 where 3: "be_exit B r2 (w2, l @ [CloseClient]) = ((s, k), w3, l3)" by (metis surj_pair)
  then have "l3 = l @ [CloseClient]" using scopes_keepD(2) [OF assms(1) 3] by simp
  with 1 2 3 l1 assms(2,3) show ?thesis
    by (auto simp: aclose_forcefully_def move_on_after_def observe_def)
qed

lemma next_handle_calls:
  assumes "scopes_keep snd B" and "calls_state l = Some Connected"
  shows "calls_ok (inputs_of l) (next_handle B (observe A) c (w, l))"
proof (cases "ap_is_closing A c w")
  case True
  obtain r w' l' where *: "leave_client (observe A) c (None, w, l) = (r, w', l')" by (metis surj_pair)
  from leave_client_calls [OF this assms(2)] True * show ?thesis
    by (auto simp: next_handle_def observe_def [of A] intro!: end_generator_calls)
next
  case False
  obtain g w1 where h: "ap_handle A c w = (g, w1)" by fastforce
  obtain out w2 where a: "ap_anext A g w1 = (out, w2)" by fastforce
  have eq: "next_handle B (observe A) c (w, l) =
      (case observe_output False (l @ [Handle]) (out, w2) of
         (Yields y g', w2) \<Rightarrow> (Yields y (InHandle c g'), w2)
       | (Stops, w2) \<Rightarrow> end_generator (leave_client (observe A) c (aclose_forcefully B (ap_aclose (observe A) c) w2))
       | (Raises e, w2) \<Rightarrow> end_generator (leave_client (observe A) c (Some e, w2)))"
    using False h a by (simp add: next_handle_def) (simp add: observe_def)
  show ?thesis
  proof (cases out)
    case (Yields y g')
    with assms(2) show ?thesis by (simp add: eq observe_output_def calls_ok_def)
  next
    case Stops
    let ?l = "l @ [Handle, HandleDone]"
    obtain r3 w3 l3 where 3: "aclose_forcefully B (ap_aclose (observe A) c) (w2, ?l) = (r3, w3, l3)" by (metis surj_pair)
    have "calls_state ?l = Some Connected" using assms(2) by simp
    note closed = close_client_calls [OF assms(1) 3 this]
    obtain r4 w4 l4 where 4: "leave_client (observe A) c (r3, w3, l3) = (r4, w4, l4)" by (metis surj_pair)
    from leave_client_calls [OF 4] closed 3 4 Stops show ?thesis
      by (auto simp: eq observe_output_def generator_done_def intro!: end_generator_calls)
  next
    case (Raises e)
    let ?l = "l @ [Handle, HandleDone]"
    obtain r4 w4 l4 where 4: "leave_client (observe A) c (Some e, w2, ?l) = (r4, w4, l4)" by (metis surj_pair)
    have "calls_state ?l = Some Connected" using assms(2) by simp
    from leave_client_calls [OF 4 this] 4 Raises show ?thesis
      by (auto simp: eq observe_output_def generator_done_def intro!: end_generator_calls)
  qed
qed

lemma after_connection_calls:
  assumes "scopes_keep snd B" and "calls_state l = Some Connecting"
  shows "calls_ok (inputs_of l) (after_connection B (observe A) c (observe_output True l out))"
proof (cases "fst out")
  case (Yields y g)
  with assms(2) show ?thesis
    by (cases out) (simp add: after_connection_def observe_output_def calls_ok_def)
next
  case Stops
  have "calls_state (l @ [ConnectionDone True]) = Some Connected" using assms(2) by simp
  from next_handle_calls [OF assms(1) this, of A c "snd out"] Stops show ?thesis
    by (cases out) (simp add: after_connection_def observe_output_def generator_done_def)
next
  case (Raises e)
  obtain r w' l' where 1: "leave_context (observe A) (Some c) (Some e, snd out, l @ [ConnectionDone False]) = (r, w', l')"
    by (metis surj_pair)
  from leave_context_calls [OF this, of Unconnected] 1 assms(2) Raises show ?thesis
    by (cases out) (auto simp: after_connection_def observe_output_def generator_done_def intro!: end_generator_calls)
qed

lemma after_handle_calls:
  assumes "scopes_keep snd B" and "calls_state l = Some Running"
  shows "calls_ok (inputs_of l) (after_handle B (observe A) c (observe_output False l out))"
proof (cases "fst out")
  case (Yields y g)
  with assms(2) show ?thesis
    by (cases out) (simp add: after_handle_def observe_output_def calls_ok_def)
next
  case Stops
  have "calls_state (l @ [HandleDone]) = Some Connected" using assms(2) by simp
  from next_handle_calls [OF assms(1) this, of A c "snd out"] Stops show ?thesis
    by (cases out) (simp add: after_handle_def observe_output_def generator_done_def)
next
  case (Raises e)
  obtain r w' l' where 1: "leave_client (observe A) c (Some e, snd out, l @ [HandleDone]) = (r, w', l')"
    by (metis surj_pair)
  from leave_client_calls [OF this] 1 assms(2) Raises show ?thesis
    by (cases out) (auto simp: after_handle_def observe_output_def generator_done_def intro!: end_generator_calls)
qed

lemma built_anext_calls:
  assumes "scopes_keep snd B"
  shows "calls_ok [] (built_anext B (observe A) (w, []))"
proof -
  obtain r w1 where e: "ap_enter A w = (r, w1)" by fastforce
  show ?thesis
  proof (cases r)
    case (Inl x)
    with e show ?thesis by (simp add: built_anext_def calls_ok_def) (simp add: observe_def calls_state_def)
  next
    case (Inr c)
    have enter: "ap_enter (observe A) (w, []) = (Inr c, w1, [Enter True])" using e Inr by (simp add: observe_def)
    have entered: "calls_state [Enter True] = Some Entered" by (simp add: calls_state_def)
    show ?thesis
    proof (cases c)
      case None
      obtain r2 w2 l2 where 2: "leave_context (observe A) None (None, w1, [Enter True]) = (r2, w2, l2)" by (metis surj_pair)
      from leave_context_calls [OF 2 entered] 2 None enter show ?thesis
        by (auto simp: built_anext_def intro!: end_generator_calls)
    next
      case (Some c')
      obtain r2 w2 where 2: "ap_on_connection A c' w1 = (r2, w2)" by fastforce
      consider "r2 = Inl None" | x where "r2 = Inl (Some x)" | g where "r2 = Inr g" by (cases r2) auto
      then show ?thesis
      proof cases
        case 1
        have "ap_on_connection (observe A) c' (w1, [Enter True]) = (Inl None, w2, [Enter True, OnConnection, ConnectionDone True])"
          using 2 1 by (simp add: observe_def)
        moreover have "calls_state [Enter True, OnConnection, ConnectionDone True] = Some Connected" by (simp add: calls_state_def)
        ultimately show ?thesis
          using next_handle_calls [OF assms, of "[Enter True, OnConnection, ConnectionDone True]" A c' w2] Some enter
          by (simp add: built_anext_def)
      next
        case (2 x)
        let ?l = "[Enter True, OnConnection, ConnectionDone False]"
        have "ap_on_connection (observe A) c' (w1, [Enter True]) = (Inl (Some x), w2, ?l)"
          using \<open>ap_on_connection A c' w1 = (r2, w2)\<close> 2 by (simp add: observe_def)
        moreover obtain r3 w3 l3 where 3: "leave_context (observe A) (Some c') (Some x, w2, ?l) = (r3, w3, l3)" by (metis surj_pair)
        moreover have "calls_state l3 = Some Left \<and> inputs_of l3 = []"
          using leave_context_calls [OF 3, of Unconnected] by (simp add: calls_state_def)
        ultimately show ?thesis
          using Some enter by (auto simp: built_anext_def intro!: end_generator_calls)
      next
        case (3 g)
        have "ap_on_connection (observe A) c' (w1, [Enter True]) = (Inr (True, g), w2, [Enter True, OnConnection])"
          using 2 3 by (simp add: observe_def)
        moreover have "ap_anext (observe A) (True, g) (w2, [Enter True, OnConnection])
            = observe_output True [Enter True, OnConnection] (ap_anext A g w2)" by (simp add: observe_def)
        moreover have "calls_state [Enter True, OnConnection] = Some Connecting" by (simp add: calls_state_def)
        ultimately show ?thesis
          using after_connection_calls [OF assms, of "[Enter True, OnConnection]" A c' "ap_anext A g w2"] Some enter
          by (simp add: built_anext_def)
      qed
    qed
  qed
qed

lemma built_resume_calls:
  assumes "scopes_keep snd B" and "calls_state l = Some (stage_calls h)" and "stage_marks h"
  shows "calls_ok (inputs_of l @ [i]) (built_resume B (observe A) i h (w, l))"
proof -
  have resume: "ap_resume (observe A) i g (w, l) = observe_output (fst g) (l @ [Input i]) (ap_resume A i (snd g) w)" for g
    by (cases g) (simp add: observe_def)
  from assms(2-) show ?thesis
    using after_connection_calls [OF assms(1), of "l @ [Input i]" A] after_handle_calls [OF assms(1), of "l @ [Input i]" A]
    by (cases h) (simp_all add: resume)
qed

lemma built_aclose_calls:
  assumes "built_aclose (observe A) h (w, l) = (r, w', l')" and "calls_state l = Some (stage_calls h)" and "stage_marks h"
  shows "calls_state l' = Some Left \<and> inputs_of l' = inputs_of l"
proof -
  have gclose: "\<exists>r w1. ap_gclose (observe A) g (w, l) = (r, w1, l @ [generator_done (fst g) False])" for g
    by (cases g) (simp add: observe_def split: prod.split)
  show ?thesis
  proof (cases h)
    case (InConnection c g)
    obtain r1 w1 where 1: "ap_gclose (observe A) g (w, l) = (r1, w1, l @ [ConnectionDone False])"
      using gclose [of g] assms(3) InConnection by (auto simp: generator_done_def)
    then obtain e where 2: "generator_closed (ap_gclose (observe A) g (w, l)) = (Some e, w1, l @ [ConnectionDone False])"
      by (cases r1) (auto simp: generator_closed_def)
    obtain r3 w3 l3 where 3: "leave_context (observe A) (Some c) (Some e, w1, l @ [ConnectionDone False]) = (r3, w3, l3)"
      by (metis surj_pair)
    from leave_context_calls [OF 3, of Unconnected] assms(1,2) InConnection 2 3 show ?thesis by (simp add: close_result_def)
  next
    case (InHandle c g)
    obtain r1 w1 where 1: "ap_gclose (observe A) g (w, l) = (r1, w1, l @ [HandleDone])"
      using gclose [of g] assms(3) InHandle by (auto simp: generator_done_def)
    then obtain e where 2: "generator_closed (ap_gclose (observe A) g (w, l)) = (Some e, w1, l @ [HandleDone])"
      by (cases r1) (auto simp: generator_closed_def)
    obtain r3 w3 l3 where 3: "leave_client (observe A) c (Some e, w1, l @ [HandleDone]) = (r3, w3, l3)"
      by (metis surj_pair)
    from leave_client_calls [OF 3] assms(1,2) InHandle 2 3 show ?thesis by (simp add: close_result_def)
  qed (use assms(3) in simp)
qed

section \<open>The handlers in the coroutine of a stream client\<close>

text \<open>Receiving a request does not call the application.\<close>

definition source_keeps :: "('w \<Rightarrow> 'v) \<Rightarrow> ('r, 'a, 'rx, 'w) request_source \<Rightarrow> bool" where
  "source_keeps view S \<longleftrightarrow>
     (\<forall>rx w res rx' w'. rs_next S rx w = Some (res, rx', w') \<longrightarrow> view w' = view w) \<and>
     (\<forall>f rx w res rx' w'. rs_next_with_ancillary S f rx w = Some (res, rx', w') \<longrightarrow> view w' = view w)"

lemma within_timeout_keeps:
  assumes "scopes_keep view B" and "\<And>w res rx' w'. body w = Some (res, rx', w') \<Longrightarrow> view w' = view w"
    and "within_timeout B t body w = Some (res, rx', w')"
  shows "view w' = view w"
proof -
  from assms(3) obtain r x w1 where 1: "body (be_enter B t w) = Some (r, x, w1)"
    by (auto simp: within_timeout_def split: option.splits)
  obtain s c w2 where 2: "be_exit B (error_of r) w1 = ((s, c), w2)" by (metis surj_pair)
  have "view w2 = view w" using assms(2) [OF 1] scopes_keepD(1,2) [OF assms(1)] 2 by metis
  with assms(3) 1 2 show ?thesis
    by (auto simp: within_timeout_def timeout_scope_exit_def split: if_splits option.splits)
qed

lemma receive_request_keeps:
  assumes "scopes_keep view B" and "source_keeps view S" and "receive_request B S y rx w = Some (res, rx', w')"
  shows "view w' = view w"
proof (cases "\<exists>p t. rcv y = Inr p \<and> validate_optional_timeout_delay (rp_timeout p) True = Inr t")
  case True
  then obtain p t where p: "rcv y = Inr p" "validate_optional_timeout_delay (rp_timeout p) True = Inr t" by blast
  let ?body = "case rp_recv_with_ancillary p of None \<Rightarrow> rs_next S rx | Some f \<Rightarrow> rs_next_with_ancillary S f rx"
  have body: "view w' = view w" if "?body w = Some (res, rx', w')" for w res rx' w'
    using that assms(2) by (cases "rp_recv_with_ancillary p") (auto simp: source_keeps_def)
  from assms(3) p within_timeout_keeps [OF assms(1) body, where t = t] body show ?thesis
    by (auto simp: receive_request_def Let_def split: if_splits)
next
  case False
  with assms(3) show ?thesis
    by (auto simp: receive_request_def split: sum.splits)
qed

text \<open>The loop of the client, from a suspended generator.\<close>

lemma client_loop_calls:
  assumes "scopes_keep snd B" and "source_keeps snd S"
    and "client_loop n B T (build_stream_handler B (observe A)) S y h rx w = Some (en, inputs, h', rx', w')"
    and "calls_state (snd w) = Some (stage_calls h)" and "stage_marks h"
  shows "inputs_of (snd w') = inputs_of (snd w) @ inputs
    \<and> (case h' of
         None \<Rightarrow> calls_state (snd w') = Some Left
       | Some h \<Rightarrow> calls_state (snd w') = Some (stage_calls h) \<and> stage_marks h)"
  using assms(3-)
proof (induction n arbitrary: y h rx w inputs)
  case (Suc n)
  show ?case
  proof (cases "st_is_closing T w")
    case True
    with Suc.prems show ?thesis by auto
  next
    case False
    with Suc.prems obtain res rx1 w1 where r: "receive_request B S y rx w = Some (res, rx1, w1)"
      by (auto split: option.splits)
    have l: "snd w1 = snd w" by (rule receive_request_keeps [OF assms(1,2) r])
    then obtain v where v: "w1 = (v, snd w)" by (cases w1) simp
    show ?thesis
    proof (cases "res = Inl StopAsyncIteration")
      case True
      with False r l Suc.prems show ?thesis by auto
    next
      case res: False
      obtain out w2 where o: "built_resume B (observe A) res h w1 = (out, w2)" by (metis surj_pair)
      have ok: "calls_ok (inputs_of (snd w) @ [res]) (out, w2)"
        using built_resume_calls [OF assms(1) Suc.prems(2,3), of res A v] o v by simp
      show ?thesis
      proof (cases out)
        case (Yields y' h2)
        with ok have ok: "inputs_of (snd w2) = inputs_of (snd w) @ [res]" "calls_state (snd w2) = Some (stage_calls h2)"
          "stage_marks h2" by (cases w2; simp add: calls_ok_def)+
        from Yields False r res o Suc.prems(1) obtain inputs' where
          n: "client_loop n B T (build_stream_handler B (observe A)) S y' h2 rx1 w2 = Some (en, inputs', h', rx', w')"
          "inputs = res # inputs'" by (auto simp: build_stream_handler_def split: option.splits)
        from Suc.IH [OF n(1) ok(2,3)] ok(1) n(2) show ?thesis by (auto split: option.splits)
      next
        case Stops
        with ok False r res o Suc.prems(1) show ?thesis
          by (cases w2) (auto simp: build_stream_handler_def calls_ok_def)
      next
        case (Raises e)
        with ok False r res o Suc.prems(1) show ?thesis
          by (cases w2) (auto simp: build_stream_handler_def calls_ok_def)
      qed
    qed
  qed
qed auto

lemma end_client_keeps:
  assumes "scopes_keep view B" and "\<And>w. view (snd (st_aclose T w)) = view w"
  shows "view (ce_world (end_client B T clear inputs g body rx)) = view (snd body)"
proof -
  obtain r w2 where c: "(if g then st_aclose T (snd body) else aclose_forcefully B (st_aclose T) (snd body)) = (r, w2)"
    by fastforce
  have "view w2 = view (snd body)"
  proof (cases g)
    case True
    with c assms(2) [of "snd body"] show ?thesis by simp
  next
    case False
    obtain r1 w1 where 1: "st_aclose T (be_enter B (Finite 0) (snd body)) = (r1, w1)" by fastforce
    obtain s k w3 where 2: "be_exit B r1 w1 = ((s, k), w3)" by (metis surj_pair)
    from 1 2 c False assms(2) [of "be_enter B (Finite 0) (snd body)"] scopes_keepD(1) [OF assms(1)] scopes_keepD(2) [OF assms(1) 2]
    show ?thesis by (simp add: aclose_forcefully_def move_on_after_def)
  qed
  with c show ?thesis
    by (cases r) (auto simp: end_client_def close_client_transport_def split: prod.split)
qed

text \<open>
  C23: in every run of the coroutine of a stream client the methods of the application are called as its interface
  promises: \<^verbatim>\<open>on_connection\<close> once and first; \<^verbatim>\<open>handle\<close> only when it has succeeded, a new generator only when the one before is
  over; \<^verbatim>\<open>on_disconnection\<close> once, after all of them, exactly if \<^verbatim>\<open>on_connection\<close> has succeeded, however the client ends;
  everything inside the context of the initializer, which is left.  Every input of the low-level handler is
  given, in order and once, to a generator of the application.
\<close>

theorem application_protocol:
  assumes "scopes_keep snd B" and "source_keeps snd S" and "\<And>w. snd (snd (st_aclose T w)) = snd w"
    and "client_coroutine n B T (build_stream_handler B (observe A)) S clear rx (w, []) = Some ce"
  shows "calls_state (snd (ce_world ce)) = Some Left \<and> inputs_of (snd (ce_world ce)) = ce_inputs ce"
proof -
  let ?H = "build_stream_handler B (observe A)"
  note fin = end_client_keeps [OF assms(1,3)]
  obtain out w2 where o: "built_anext B (observe A) (w, []) = (out, w2)" by (metis surj_pair)
  note first = built_anext_calls [OF assms(1), of A w, unfolded o]
  show ?thesis
  proof (cases out)
    case (Yields y h)
    with first have ok: "calls_state (snd w2) = Some (stage_calls h)" "stage_marks h" "inputs_of (snd w2) = []"
      by (cases w2; simp add: calls_ok_def)+
    from Yields o assms(4) obtain en inputs h' rx' w3 where
      l: "client_loop n B T ?H S y h rx w2 = Some (en, inputs, h', rx', w3)"
      and ce: "ce = end_client B T clear inputs (en = Stopped) (close_generator ?H h' (loop_error en) w3) (Some rx')"
      by (auto simp: client_coroutine_def build_stream_handler_def split: option.splits if_splits)
    note calls = client_loop_calls [OF assms(1,2) l ok(1,2)]
    have "calls_state (snd (snd (close_generator ?H h' x w3))) = Some Left
        \<and> inputs_of (snd (snd (close_generator ?H h' x w3))) = inputs" for x
    proof (cases h')
      case None
      with calls ok(3) show ?thesis by (simp add: close_generator_def)
    next
      case (Some h2)
      obtain r w4 l4 where c: "built_aclose (observe A) h2 (fst w3, snd w3) = (r, w4, l4)" by (metis surj_pair)
      from built_aclose_calls [OF c] calls Some ok(3) have "calls_state l4 = Some Left \<and> inputs_of l4 = inputs" by simp
      with c Some show ?thesis
        by (simp add: close_generator_def build_stream_handler_def split: option.split)
    qed
    then show ?thesis by (simp add: ce fin)
  next
    case Stops
    with first o assms(4) show ?thesis
      by (cases w2) (auto simp: client_coroutine_def build_stream_handler_def close_generator_def calls_ok_def fin)
  next
    case (Raises e)
    with first o assms(4) show ?thesis
      by (cases w2) (auto simp: client_coroutine_def build_stream_handler_def close_generator_def calls_ok_def fin)
  qed
qed

section \<open>An example\<close>

text \<open>
  A client that logs in with a generator of \<^verbatim>\<open>on_connection\<close>; then a generator handles two requests.  A generator is the number
  of requests it still takes; the world is the requests to come.
\<close>

definition counting_application :: "(nat, unit, unit, nat, nat list) application" where
  "counting_application =
     \<lparr>ap_enter = (\<lambda>w. (Inr (Some ()), w)), ap_exit = (\<lambda>c e w. (e, w)), ap_on_connection = (\<lambda>c w. (Inr 1, w)),
      ap_handle = (\<lambda>c w. (2, w)), ap_on_disconnection = (\<lambda>c w. (Some ClientClosedError, w)),
      ap_anext = (\<lambda>g w. (Yields YieldNone g, w)),
      ap_resume = (\<lambda>i g w. case i of Inl e \<Rightarrow> (Raises e, w) | Inr r \<Rightarrow> if g \<le> 1 then (Stops, w) else (Yields YieldNone (g - 1), w)),
      ap_gclose = (\<lambda>g w. (None, w)), ap_is_closing = (\<lambda>c w. False), ap_aclose = (\<lambda>c w. (None, w))\<rparr>"

definition waiting_requests :: "(nat, unit, unit, nat list \<times> nat call list) request_source" where
  "waiting_requests =
     \<lparr>rs_next = (\<lambda>rx (w, l). Some (case w of [] \<Rightarrow> (Inl StopAsyncIteration, rx, w, l) | r # w' \<Rightarrow> (Inr r, rx, w', l))),
      rs_next_with_ancillary = (\<lambda>f rx w. Some (Inl StopAsyncIteration, rx, w))\<rparr>"

definition still_backend :: "'w backend" where
  "still_backend = \<lparr>be_enter = (\<lambda>t w. w), be_exit = (\<lambda>e w. ((False, False), w)), be_coro_yield = (\<lambda>w. w)\<rparr>"

definition still_transport :: "(unit, 'w) stream_transport" where
  "still_transport =
     \<lparr>st_recv = (\<lambda>n w. (Inr [], w)), st_recv_with_ancillary = (\<lambda>n m w. (Inr ([], ()), w)), st_send_all = (\<lambda>d w. (None, w)),
      st_send_all_with_ancillary = (\<lambda>cs a w. (None, w)), st_send_eof = (\<lambda>w. (None, w)), st_is_closing = (\<lambda>w. False),
      st_aclose = (\<lambda>w. (None, w))\<rparr>"

lemma still_laws:
  "scopes_keep view still_backend" "source_keeps snd waiting_requests" "snd (snd (st_aclose still_transport w)) = snd w"
  by (auto simp: scopes_keep_def still_backend_def source_keeps_def waiting_requests_def still_transport_def split: list.splits)

definition example_client :: "(nat, unit, nat list \<times> nat call list) client_end" where
  "example_client =
     the (client_coroutine 9 still_backend still_transport (build_stream_handler still_backend (observe counting_application))
            waiting_requests (\<lambda>x. x) () ([10, 20, 30, 40], []))"

theorem application_protocol_witness:
  "snd (ce_world example_client) =
     [Enter True, OnConnection, Input (Inr 10), ConnectionDone True, Handle, Input (Inr 20), Input (Inr 30), HandleDone, Handle,
      Input (Inr 40), HandleDone, OnDisconnection, Exit]
   \<and> inputs_of (snd (ce_world example_client)) = [Inr 10, Inr 20, Inr 30, Inr 40]"
proof -
  have "client_coroutine 9 still_backend still_transport (build_stream_handler still_backend (observe counting_application))
      waiting_requests (\<lambda>x. x) () ([10, 20, 30, 40], []) = Some example_client"
    "ce_inputs example_client = [Inr 10, Inr 20, Inr 30, Inr 40]"
    "snd (ce_world example_client) =
       [Enter True, OnConnection, Input (Inr 10), ConnectionDone True, Handle, Input (Inr 20), Input (Inr 30), HandleDone,
        Handle, Input (Inr 40), HandleDone, OnDisconnection, Exit]"
    unfolding example_client_def by code_simp+
  with application_protocol [OF still_laws(1) still_laws(2) still_laws(3) this(1)] show ?thesis by simp
qed

end
