(* ===== verification/ClientConnect.thy ===== *)
theory ClientConnect
  imports Timeouts
begin

text \<open>
  \<^verbatim>\<open>src/src/easynetwork/clients/_base.py\<close>: \<^verbatim>\<open>DeferredAsyncEndpointInit\<close> and \<^verbatim>\<open>_AsyncTransportConnector\<close>, the lazy connection of
  the asynchronous clients.  Tasks call \<^verbatim>\<open>connect\<close> (from \<^verbatim>\<open>wait_connected\<close>, \<^verbatim>\<open>send_packet\<close>, \<^verbatim>\<open>recv_packet\<close>) and \<^verbatim>\<open>aclose\<close> in any
  order; the one that holds the lock runs the factory.  What runs between two suspension points is one event.
\<close>

section \<open>The state\<close>

text \<open>
  The connector has one cancel scope, which can be entered once.  \<open>cc_connector\<close>: \<^verbatim>\<open>__transport_connector\<close> is not \<^verbatim>\<open>None\<close>.
  \<open>cc_connecting\<close> is where the task that holds the lock is suspended: in the factory, or in \<^verbatim>\<open>aclose_forcefully\<close> of an
  endpoint.  An endpoint is named by a number; \<open>cc_opened\<close> and \<open>cc_results\<close> are the histories of the endpoints made and of
  what the calls of \<^verbatim>\<open>connect\<close> gave, \<open>cc_closed\<close> the endpoints that are closing.
\<close>

datatype connect_scope = Created | Entered | Exited

datatype connecting = InFactory | ForceClosing nat

record connector =
  cc_connector :: bool
  cc_scope :: connect_scope
  cc_cancel_called :: bool
  cc_endpoint :: "nat option"
  cc_connecting :: "connecting option"
  cc_opened :: "nat list"
  cc_closed :: "nat list"
  cc_results :: "(exc + nat) list"

definition connector_init :: connector where
  "connector_init =
     \<lparr>cc_connector = True, cc_scope = Created, cc_cancel_called = False, cc_endpoint = None, cc_connecting = None,
      cc_opened = [], cc_closed = [], cc_results = []\<rparr>"

definition endpoint_closing :: "connector \<Rightarrow> bool" where
  "endpoint_closing s \<longleftrightarrow> pred_option (\<lambda>e. e \<in> set (cc_closed s)) (cc_endpoint s)"

definition client_is_closing :: "connector \<Rightarrow> bool" where
  "client_is_closing s \<longleftrightarrow> (if cc_connector s then False else cc_endpoint s = None \<or> endpoint_closing s)"

definition client_is_connected :: "connector \<Rightarrow> bool" where
  "client_is_connected s \<longleftrightarrow> cc_endpoint s \<noteq> None"

definition get_sync :: "connector \<Rightarrow> exc + nat" where
  "get_sync s =
     (case cc_endpoint s of
        None \<Rightarrow> Inl (if cc_connector s then error_from_errno ''ENOTCONN'' else ClientClosedError)
      | Some e \<Rightarrow> if endpoint_closing s then Inl ClientClosedError else Inr e)"

section \<open>connect\<close>

definition connect_returns :: "exc + nat \<Rightarrow> connector \<Rightarrow> connector" where
  "connect_returns r s = s\<lparr>cc_connecting := None, cc_results := cc_results s @ [r]\<rparr>"

text \<open>The end of \<^verbatim>\<open>connect\<close>, once there is an endpoint.\<close>

definition connect_finish :: "nat \<Rightarrow> connector \<Rightarrow> connector" where
  "connect_finish e s = connect_returns (if endpoint_closing s then Inl ClientClosedError else Inr e) s"

text \<open>With the lock acquired, up to the factory.\<close>

definition connect_start :: "connector \<Rightarrow> connector" where
  "connect_start s =
     (case cc_endpoint s of
        Some e \<Rightarrow> connect_finish e s
      | None \<Rightarrow>
          if \<not> cc_connector s then connect_returns (Inl ClientClosedError) s
          else if cc_scope s \<noteq> Created then connect_returns (Inl (RuntimeError ''CancelScope entered twice'')) s
          else s\<lparr>cc_scope := Entered, cc_connecting := Some InFactory\<rparr>)"

text \<open>The factory returns an endpoint; it is cancelled by the scope; it raises (a cancellation from outside included).\<close>

definition factory_returns :: "nat \<Rightarrow> connector \<Rightarrow> connector" where
  "factory_returns e s =
     (let s1 = s\<lparr>cc_scope := Exited, cc_opened := cc_opened s @ [e]\<rparr> in
      if cc_cancel_called s then s1\<lparr>cc_connecting := Some (ForceClosing e)\<rparr>
      else connect_finish e (s1\<lparr>cc_connector := False, cc_endpoint := Some e\<rparr>))"

definition no_endpoint :: "connector \<Rightarrow> connector" where
  "no_endpoint s = connect_returns (Inl ClientClosedError) (s\<lparr>cc_connector := False\<rparr>)"

definition factory_cancelled :: "connector \<Rightarrow> connector" where
  "factory_cancelled s = no_endpoint (s\<lparr>cc_scope := Exited\<rparr>)"

definition factory_raises :: "exc \<Rightarrow> connector \<Rightarrow> connector" where
  "factory_raises x s = connect_returns (Inl x) (s\<lparr>cc_scope := Exited\<rparr>)"

text \<open>\<^verbatim>\<open>aclose_forcefully\<close> has closed the endpoint, and returns or raises.\<close>

definition force_closed :: "nat \<Rightarrow> exc option \<Rightarrow> connector \<Rightarrow> connector" where
  "force_closed e r s =
     (let s1 = s\<lparr>cc_closed := cc_closed s @ [e]\<rparr> in
      case r of None \<Rightarrow> no_endpoint s1 | Some x \<Rightarrow> connect_returns (Inl x) s1)"

section \<open>aclose\<close>

text \<open>\<^verbatim>\<open>aclose\<close> up to the close of the endpoint, which is closing from then on.\<close>

definition connector_aclose :: "connector \<Rightarrow> connector" where
  "connector_aclose s =
     (let s1 = (if cc_connector s then s\<lparr>cc_cancel_called := True, cc_connector := False\<rparr> else s) in
      case cc_endpoint s1 of None \<Rightarrow> s1 | Some e \<Rightarrow> s1\<lparr>cc_closed := cc_closed s1 @ [e]\<rparr>)"

section \<open>Histories\<close>

text \<open>A factory makes a new endpoint; an endpoint may also close by itself, when the connection is lost.\<close>

datatype connect_event =
    ConnectStart
  | FactoryReturns nat
  | FactoryCancelled
  | FactoryRaises exc
  | ForceClosed "exc option"
  | Aclose
  | EndpointCloses

fun connect_enabled :: "connect_event \<Rightarrow> connector \<Rightarrow> bool" where
  "connect_enabled ConnectStart s \<longleftrightarrow> cc_connecting s = None"
| "connect_enabled (FactoryReturns e) s \<longleftrightarrow> cc_connecting s = Some InFactory \<and> e \<notin> set (cc_opened s)"
| "connect_enabled FactoryCancelled s \<longleftrightarrow> cc_connecting s = Some InFactory \<and> cc_cancel_called s"
| "connect_enabled (FactoryRaises x) s \<longleftrightarrow> cc_connecting s = Some InFactory"
| "connect_enabled (ForceClosed r) s \<longleftrightarrow> (case cc_connecting s of Some (ForceClosing e) \<Rightarrow> True | _ \<Rightarrow> False)"
| "connect_enabled Aclose s \<longleftrightarrow> True"
| "connect_enabled EndpointCloses s \<longleftrightarrow> cc_endpoint s \<noteq> None"

fun connect_apply :: "connect_event \<Rightarrow> connector \<Rightarrow> connector" where
  "connect_apply ConnectStart s = connect_start s"
| "connect_apply (FactoryReturns e) s = factory_returns e s"
| "connect_apply FactoryCancelled s = factory_cancelled s"
| "connect_apply (FactoryRaises x) s = factory_raises x s"
| "connect_apply (ForceClosed r) s =
     (case cc_connecting s of Some (ForceClosing e) \<Rightarrow> force_closed e r s | _ \<Rightarrow> s)"
| "connect_apply Aclose s = connector_aclose s"
| "connect_apply EndpointCloses s =
     (case cc_endpoint s of None \<Rightarrow> s | Some e \<Rightarrow> s\<lparr>cc_closed := cc_closed s @ [e]\<rparr>)"

inductive connect_reachable :: "connector \<Rightarrow> bool" where
  connect_init: "connect_reachable connector_init"
| connect_step: "connect_reachable s \<Longrightarrow> connect_enabled e s \<Longrightarrow> connect_reachable (connect_apply e s)"

fun connect_run :: "connect_event list \<Rightarrow> connector \<Rightarrow> connector option" where
  "connect_run [] s = Some s"
| "connect_run (e # es) s = (if connect_enabled e s then connect_run es (connect_apply e s) else None)"

lemma connect_run_reachable: "connect_run es s = Some s' \<Longrightarrow> connect_reachable s \<Longrightarrow> connect_reachable s'"
  by (induction es arbitrary: s) (auto split: if_splits intro: connect_step)

section \<open>The invariant\<close>

text \<open>
  Every endpoint ever made is the one of the client, is being closed, or is closed.  The scope is created until the first
  attempt, entered while the factory runs, and cancelled only by a close, which takes the connector away.
\<close>

definition connect_inv :: "connector \<Rightarrow> bool" where
  "connect_inv s \<longleftrightarrow>
     (\<forall>e \<in> set (cc_opened s). e \<in> set (cc_closed s) \<or> cc_endpoint s = Some e \<or> cc_connecting s = Some (ForceClosing e)) \<and>
     (cc_endpoint s \<noteq> None \<longrightarrow> \<not> cc_connector s \<and> cc_connecting s = None \<and> \<not> cc_cancel_called s) \<and>
     (cc_connecting s = Some InFactory \<longleftrightarrow> cc_scope s = Entered) \<and>
     (cc_cancel_called s \<longrightarrow> \<not> cc_connector s) \<and>
     (\<not> cc_connector s \<and> cc_endpoint s = None \<longrightarrow> cc_cancel_called s) \<and>
     (\<forall>e. cc_connecting s = Some (ForceClosing e) \<longrightarrow> cc_cancel_called s) \<and>
     (\<forall>e. Inr e \<in> set (cc_results s) \<longrightarrow> cc_endpoint s = Some e)"

lemma connect_inv_init: "connect_inv connector_init"
  by (simp add: connect_inv_def connector_init_def)

lemmas connect_defs =
  connect_start_def connect_finish_def connect_returns_def factory_returns_def no_endpoint_def factory_cancelled_def
  factory_raises_def force_closed_def connector_aclose_def Let_def

lemma connect_inv_step: "connect_inv s \<Longrightarrow> connect_enabled e s \<Longrightarrow> connect_inv (connect_apply e s)"
proof (cases e)
  case (ForceClosed r)
  assume "connect_inv s" and "connect_enabled e s"
  with ForceClosed show ?thesis
    by (cases r) (auto simp: connect_inv_def connect_defs split: option.splits connecting.splits)
qed (auto simp: connect_inv_def connect_defs split: option.splits if_splits)

lemma connect_inv_reachable: "connect_reachable s \<Longrightarrow> connect_inv s"
  by (induction rule: connect_reachable.induct) (simp_all add: connect_inv_init connect_inv_step)

section \<open>Properties\<close>

text \<open>Once the client is closed, it stays so and no call succeeds any more.\<close>

definition closed_inv :: "connector \<Rightarrow> connector \<Rightarrow> bool" where
  "closed_inv s0 s \<longleftrightarrow>
     connect_inv s \<and> \<not> cc_connector s \<and> pred_option (\<lambda>e. e \<in> set (cc_closed s)) (cc_endpoint s) \<and>
     (\<exists>rs. cc_results s = cc_results s0 @ rs \<and> list_all isl rs)"

lemma closed_inv_step:
  assumes "closed_inv s0 s" and "connect_enabled e s"
  shows "closed_inv s0 (connect_apply e s)"
proof -
  have inv: "connect_inv (connect_apply e s)" using connect_inv_step assms by (simp add: closed_inv_def)
  obtain rs where rs: "cc_results s = cc_results s0 @ rs" "list_all isl rs" using assms(1) by (auto simp: closed_inv_def)
  have c: "\<not> cc_connector s" "pred_option (\<lambda>e. e \<in> set (cc_closed s)) (cc_endpoint s)" "connect_inv s"
    using assms(1) by (simp_all add: closed_inv_def)
  have "cc_connecting s = Some InFactory \<Longrightarrow> cc_cancel_called s" using c by (auto simp: connect_inv_def)
  with c rs assms(2) have "\<not> cc_connector (connect_apply e s)
      \<and> pred_option (\<lambda>i. i \<in> set (cc_closed (connect_apply e s))) (cc_endpoint (connect_apply e s))
      \<and> (\<exists>rs. cc_results (connect_apply e s) = cc_results s0 @ rs \<and> list_all isl rs)"
    by (cases e; cases "cc_endpoint s")
      (auto simp: connect_defs endpoint_closing_def split: option.splits connecting.splits)
  with inv show ?thesis by (simp add: closed_inv_def)
qed

lemma closed_inv_run: "connect_run es s = Some s' \<Longrightarrow> closed_inv s0 s \<Longrightarrow> closed_inv s0 s'"
  by (induction es arbitrary: s) (auto split: if_splits intro: closed_inv_step)

text \<open>
  C27: the lazy connection leaks no endpoint, gives the same one to all, and closing is final.  Whatever the order of the calls of
  \<^verbatim>\<open>connect\<close>, their cancellations, the end of the factory and \<^verbatim>\<open>aclose\<close>, every endpoint the factory made is the one of the
  client, is closed or is being closed by force, and all calls that succeed return the endpoint of the client.  After
  \<^verbatim>\<open>aclose\<close> the client is closing for ever and every call of \<^verbatim>\<open>connect\<close> that ends fails, even one that was waiting for
  the factory; when none is in progress every endpoint is closed.
\<close>

theorem connect_leaks_nothing:
  assumes "connect_reachable s"
  shows "(\<forall>e \<in> set (cc_opened s). e \<in> set (cc_closed s) \<or> cc_endpoint s = Some e \<or> cc_connecting s = Some (ForceClosing e))
    \<and> (\<forall>e. Inr e \<in> set (cc_results s) \<longrightarrow> cc_endpoint s = Some e)
    \<and> (\<forall>es s'. connect_run es (connector_aclose s) = Some s' \<longrightarrow>
         client_is_closing s' \<and> (\<exists>rs. cc_results s' = cc_results s @ rs \<and> list_all isl rs)
         \<and> (cc_connecting s' = None \<longrightarrow> set (cc_opened s') \<subseteq> set (cc_closed s')))"
proof (intro conjI allI impI)
  note inv = connect_inv_reachable [OF assms]
  show "\<forall>e \<in> set (cc_opened s). e \<in> set (cc_closed s) \<or> cc_endpoint s = Some e \<or> cc_connecting s = Some (ForceClosing e)"
    using inv by (simp add: connect_inv_def)
  show "cc_endpoint s = Some e" if "Inr e \<in> set (cc_results s)" for e using inv that by (simp add: connect_inv_def)
  fix es s'
  assume run: "connect_run es (connector_aclose s) = Some s'"
  have "closed_inv s (connector_aclose s)"
    using connect_inv_step [OF inv, of Aclose] by (auto simp: closed_inv_def connector_aclose_def Let_def split: option.splits)
  note closed = closed_inv_run [OF run this]
  then show "client_is_closing s'" by (auto simp: closed_inv_def client_is_closing_def endpoint_closing_def)
  show "\<exists>rs. cc_results s' = cc_results s @ rs \<and> list_all isl rs" using closed by (simp add: closed_inv_def)
  show "set (cc_opened s') \<subseteq> set (cc_closed s')" if "cc_connecting s' = None"
    using closed that unfolding closed_inv_def connect_inv_def by (metis option.distinct(1) option.pred_inject(2) subsetI)
qed

text \<open>
  a connection attempt that failed or was cancelled cannot be repeated: the connector is still there, with a cancel scope that
  has been used.  Every later call of \<^verbatim>\<open>connect\<close> raises \<^verbatim>\<open>RuntimeError\<close>, the calls that were waiting for the attempt to
  end included, while the client says it is not closing; only \<^verbatim>\<open>aclose\<close> changes that.
\<close>

definition poisoned :: "exc + nat" where
  "poisoned = Inl (RuntimeError ''CancelScope entered twice'')"

lemma poisoned_run:
  assumes "connect_run es s = Some s'" and "Aclose \<notin> set es"
    and "cc_connector s" and "cc_scope s = Exited" and "cc_endpoint s = None" and "cc_connecting s = None"
  shows "\<exists>n. cc_results s' = cc_results s @ replicate n poisoned \<and> cc_endpoint s' = None \<and> \<not> client_is_closing s'"
  using assms
proof (induction es arbitrary: s)
  case Nil
  then show ?case by (auto simp: client_is_closing_def intro!: exI [of _ 0])
next
  case (Cons e es)
  then have e: "e = ConnectStart" by (cases e) (auto split: if_splits)
  let ?s = "connect_apply e s"
  have s: "?s = s\<lparr>cc_results := cc_results s @ [poisoned]\<rparr>"
    using e Cons.prems by (simp add: connect_start_def connect_returns_def poisoned_def)
  from Cons.prems(1) have "connect_run es ?s = Some s'" by (simp split: if_splits)
  with Cons.IH [of ?s] Cons.prems(2-) obtain n where
    "cc_results s' = (cc_results s @ [poisoned]) @ replicate n poisoned" "cc_endpoint s' = None" "\<not> client_is_closing s'"
    by (auto simp: s simp del: connect_apply.simps)
  then show ?case by (intro exI [of _ "Suc n"]) simp
qed

theorem failed_connect_is_not_repeated:
  assumes "connect_reachable s" and "cc_connecting s = Some InFactory" and "\<not> cc_cancel_called s"
    and "connect_run es (factory_raises x s) = Some s'" and "Aclose \<notin> set es"
  shows "(\<exists>n. cc_results s' = cc_results s @ Inl x # replicate n poisoned) \<and> \<not> client_is_connected s' \<and> \<not> client_is_closing s'"
proof -
  note inv = connect_inv_reachable [OF assms(1), unfolded connect_inv_def]
  have "cc_endpoint s = None" using inv assms(2) by force
  moreover from this have "cc_connector s" using inv assms(3) by blast
  ultimately obtain n where "cc_results s' = cc_results (factory_raises x s) @ replicate n poisoned" "cc_endpoint s' = None"
    "\<not> client_is_closing s'"
    using poisoned_run [OF assms(4,5)] by (auto simp: factory_raises_def connect_returns_def)
  then show ?thesis by (auto simp: factory_raises_def connect_returns_def client_is_connected_def)
qed

section \<open>Witnesses\<close>

definition connecting_example :: connector where
  "connecting_example = the (connect_run [ConnectStart] connector_init)"

lemma connecting_example:
  "connect_run [ConnectStart] connector_init = Some connecting_example"
  "cc_connecting connecting_example = Some InFactory" "\<not> cc_cancel_called connecting_example"
  unfolding connecting_example_def by code_simp+

lemma connecting_example_reachable: "connect_reachable connecting_example"
  by (rule connect_run_reachable [OF connecting_example(1) connect_init])

text \<open>The client is closed while the factory runs; the factory returns all the same.\<close>

theorem connect_leaks_nothing_witness:
  "\<exists>s'. connect_run [FactoryReturns 5, ForceClosed None, ConnectStart] (connector_aclose connecting_example) = Some s'
     \<and> client_is_closing s' \<and> set (cc_opened s') \<subseteq> set (cc_closed s')"
proof -
  have "map_option cc_connecting
      (connect_run [FactoryReturns 5, ForceClosed None, ConnectStart] (connector_aclose connecting_example)) = Some None"
    unfolding connecting_example_def by code_simp
  then obtain s' where
    "connect_run [FactoryReturns 5, ForceClosed None, ConnectStart] (connector_aclose connecting_example) = Some s'"
    "cc_connecting s' = None" by auto
  with connect_leaks_nothing [OF connecting_example_reachable] show ?thesis by blast
qed

theorem failed_connect_is_not_repeated_witness:
  "\<exists>s' n. connect_run [ConnectStart] (factory_raises (OSError ''ECONNREFUSED'' '''') connecting_example) = Some s'
     \<and> cc_results s' = Inl (OSError ''ECONNREFUSED'' '''') # replicate n poisoned \<and> \<not> client_is_closing s'"
proof -
  have "map_option (\<lambda>_. ()) (connect_run [ConnectStart] (factory_raises (OSError ''ECONNREFUSED'' '''') connecting_example)) = Some ()"
    and e: "cc_results connecting_example = []"
    unfolding connecting_example_def by code_simp+
  then obtain s' where run: "connect_run [ConnectStart] (factory_raises (OSError ''ECONNREFUSED'' '''') connecting_example) = Some s'"
    by auto
  from failed_connect_is_not_repeated [OF connecting_example_reachable connecting_example(2,3) run] run e show ?thesis by auto
qed

end
