(* ===== verification/Clients.thy ===== *)
theory Clients
  imports Tls HandlerBuilder
begin

text \<open>
  The operations of the high-level clients, \<^verbatim>\<open>src/src/easynetwork/clients/\<close> (\<^verbatim>\<open>tcp.py\<close>, \<^verbatim>\<open>udp.py\<close>, \<^verbatim>\<open>async_tcp.py\<close>,
  \<^verbatim>\<open>_base.py\<close>), and of the clients a server hands to its request handler (\<^verbatim>\<open>servers/async_tcp.py\<close>): locks around an
  endpoint, and the translation of socket errors.  The endpoints are those of \<open>Endpoint\<close> and \<open>AsyncEndpoint\<close>, here parameters,
  as are the locks.
\<close>

section \<open>Socket errors\<close>

definition is_closed_errno :: "exc \<Rightarrow> bool" where
  "is_closed_errno e \<longleftrightarrow> (case e of OSError errno _ \<Rightarrow> errno \<in> set [''EBADF'', ''ENOTSOCK''] | _ \<Rightarrow> False)"

definition connection_aborted :: exc where
  "connection_aborted = error_from_errno ''ECONNABORTED''"

text \<open>
  \<^verbatim>\<open>__convert_socket_error\<close> of the TCP clients, blocking and asynchronous, and of the UDP client; \<open>closed\<close>: the endpoint is
  closed when the exception arrives.
\<close>

definition convert_closed_errno :: "bool \<Rightarrow> exc \<Rightarrow> exc" where
  "convert_closed_errno closed e = (if is_closed_errno e \<and> closed then ClientClosedError else e)"

definition tcp_convert_socket_error :: "bool \<Rightarrow> exc \<Rightarrow> exc" where
  "tcp_convert_socket_error closed e =
     (if is_ConnectionError e then connection_aborted
      else if is_SSLError e then (if is_ssl_eof_error e then connection_aborted else e)
      else convert_closed_errno closed e)"

definition async_tcp_convert_socket_error :: "bool \<Rightarrow> exc \<Rightarrow> exc" where
  "async_tcp_convert_socket_error closed e =
     (if is_ConnectionError e then (if closed then ClientClosedError else connection_aborted)
      else if is_SSLError e then (if is_ssl_eof_error e then connection_aborted else e)
      else convert_closed_errno closed e)"

definition udp_convert_socket_error :: "bool \<Rightarrow> exc \<Rightarrow> exc" where
  "udp_convert_socket_error closed e = convert_closed_errno closed e"

text \<open>\<^verbatim>\<open>check_real_socket_state\<close>: the error saved by the socket; \<open>so_error\<close> reads it, \<open>None\<close> being zero.\<close>

definition check_real_socket_state ::
  "('w \<Rightarrow> int) \<Rightarrow> ('w \<Rightarrow> (exc + string option) \<times> 'w) \<Rightarrow> 'w \<Rightarrow> exc option \<times> 'w"
where
  "check_real_socket_state fileno so_error w =
     (if fileno w < 0 then (None, w)
      else (case so_error w of
              (Inl e, w') \<Rightarrow> (Some e, w')
            | (Inr errno, w') \<Rightarrow> (map_option error_from_errno errno, w')))"

section \<open>The blocking clients\<close>

text \<open>
  \<open>bc_enter\<close> is \<^verbatim>\<open>lock_with_timeout(lock, timeout)\<close> (\<open>lock_enter\<close> in \<open>Timeouts\<close>); the other fields are the endpoint.  \<open>None\<close>: a call
  that does not return.
\<close>

record 'w client_lock =
  lc_enter :: "delay \<Rightarrow> 'w \<Rightarrow> (exc + delay) \<times> 'w"
  lc_release :: "'w \<Rightarrow> 'w"

record ('p, 'q, 'w) blocking_endpoint =
  be_is_closed :: "'w \<Rightarrow> bool"
  be_send_packet :: "'p \<Rightarrow> delay \<Rightarrow> 'w \<Rightarrow> (exc option \<times> 'w) option"
  be_recv_packet :: "delay \<Rightarrow> 'w \<Rightarrow> ((exc + 'q) \<times> 'w) option"
  be_send_eof :: "'w \<Rightarrow> exc option \<times> 'w"
  be_close :: "'w \<Rightarrow> exc option \<times> 'w"
  be_fileno :: "'w \<Rightarrow> int"
  be_so_error :: "'w \<Rightarrow> (exc + string option) \<times> 'w"

text \<open>A block under a lock, and the translation of the error that leaves the endpoint.\<close>

definition with_client_lock ::
  "'w client_lock \<Rightarrow> delay \<Rightarrow> (delay \<Rightarrow> 'w \<Rightarrow> ((exc + 'r) \<times> 'w) option) \<Rightarrow> 'w \<Rightarrow> ((exc + 'r) \<times> 'w) option"
where
  "with_client_lock L timeout body w =
     (case lc_enter L timeout w of
        (Inl e, w1) \<Rightarrow> Some (Inl e, w1)
      | (Inr t, w1) \<Rightarrow> map_option (\<lambda>(r, w2). (r, lc_release L w2)) (body t w1))"

definition converting :: "(bool \<Rightarrow> exc \<Rightarrow> exc) \<Rightarrow> ('w \<Rightarrow> bool) \<Rightarrow> (exc + 'r) \<times> 'w \<Rightarrow> (exc + 'r) \<times> 'w" where
  "converting convert is_closed out =
     (case out of
        (Inl e, w) \<Rightarrow> (Inl (if is_OSError e then convert (is_closed w) e else e), w)
      | (Inr r, w) \<Rightarrow> (Inr r, w))"

definition client_send_packet ::
  "(bool \<Rightarrow> exc \<Rightarrow> exc) \<Rightarrow> 'w client_lock \<Rightarrow> ('p, 'q, 'w) blocking_endpoint \<Rightarrow> 'p \<Rightarrow> delay \<Rightarrow> 'w
     \<Rightarrow> ((exc + unit) \<times> 'w) option"
where
  "client_send_packet convert L E packet timeout w =
     with_client_lock L timeout
       (\<lambda>t w1. if be_is_closed E w1 then Some (Inl ClientClosedError, w1)
               else map_option
                      (\<lambda>(r, w2). converting convert (be_is_closed E)
                         (case r of
                            Some e \<Rightarrow> (Inl e, w2)
                          | None \<Rightarrow>
                              (case check_real_socket_state (be_fileno E) (be_so_error E) w2 of
                                 (Some e, w3) \<Rightarrow> (Inl e, w3)
                               | (None, w3) \<Rightarrow> (Inr (), w3))))
                      (be_send_packet E packet t w1)) w"

definition client_recv_packet ::
  "(bool \<Rightarrow> exc \<Rightarrow> exc) \<Rightarrow> 'w client_lock \<Rightarrow> ('p, 'q, 'w) blocking_endpoint \<Rightarrow> delay \<Rightarrow> 'w \<Rightarrow> ((exc + 'q) \<times> 'w) option"
where
  "client_recv_packet convert L E timeout w =
     with_client_lock L timeout
       (\<lambda>t w1. if be_is_closed E w1 then Some (Inl ClientClosedError, w1)
               else map_option (converting convert (be_is_closed E)) (be_recv_packet E t w1)) w"

definition client_send_eof ::
  "(bool \<Rightarrow> exc \<Rightarrow> exc) \<Rightarrow> 'w client_lock \<Rightarrow> ('p, 'q, 'w) blocking_endpoint \<Rightarrow> 'w \<Rightarrow> ((exc + unit) \<times> 'w) option"
where
  "client_send_eof convert L E w =
     with_client_lock L Infinity
       (\<lambda>t w1. if be_is_closed E w1 then Some (Inr (), w1)
               else Some (converting convert (be_is_closed E)
                      (case be_send_eof E w1 of (Some e, w2) \<Rightarrow> (Inl e, w2) | (None, w2) \<Rightarrow> (Inr (), w2)))) w"

definition client_close :: "'w client_lock \<Rightarrow> ('p, 'q, 'w) blocking_endpoint \<Rightarrow> 'w \<Rightarrow> ((exc + unit) \<times> 'w) option" where
  "client_close L E w =
     with_client_lock L Infinity
       (\<lambda>t w1. Some (case be_close E w1 of (Some e, w2) \<Rightarrow> (Inl e, w2) | (None, w2) \<Rightarrow> (Inr (), w2))) w"

section \<open>The asynchronous client\<close>

text \<open>
  \<open>ac_connect\<close> is \<^verbatim>\<open>connect\<close> of \<open>ClientConnect\<close>; after it the endpoint is the one of the client.  The last two fields are those of
  \<^verbatim>\<open>DeferredAsyncEndpointInit\<close>.
\<close>

record ('p, 'q, 'w) async_client =
  ac_send_lock :: "'w async_lock"
  ac_receive_lock :: "'w async_lock"
  ac_connect :: "'w \<Rightarrow> exc option \<times> 'w"
  ac_send_packet :: "'p \<Rightarrow> 'w \<Rightarrow> exc option \<times> 'w"
  ac_recv_packet :: "'w \<Rightarrow> (exc + 'q) \<times> 'w"
  ac_send_eof :: "'w \<Rightarrow> exc option \<times> 'w"
  ac_fileno :: "'w \<Rightarrow> int"
  ac_so_error :: "'w \<Rightarrow> (exc + string option) \<times> 'w"
  ac_is_closing :: "'w \<Rightarrow> bool"
  ac_aclose :: "'w \<Rightarrow> exc option \<times> 'w"

definition converting_async ::
  "('p, 'q, 'w) async_client \<Rightarrow> exc option \<times> 'w \<Rightarrow> exc option \<times> 'w"
where
  "converting_async C out =
     (case out of
        (Some e, w) \<Rightarrow> (Some (if is_OSError e then async_tcp_convert_socket_error (ac_is_closing C w) e else e), w)
      | (None, w) \<Rightarrow> (None, w))"

definition async_client_send_packet :: "('p, 'q, 'w) async_client \<Rightarrow> 'p \<Rightarrow> 'w \<Rightarrow> exc option \<times> 'w" where
  "async_client_send_packet C packet w =
     holding (ac_send_lock C)
       (\<lambda>w1. case ac_connect C w1 of
               (Some e, w2) \<Rightarrow> (Some e, w2)
             | (None, w2) \<Rightarrow>
                 converting_async C
                   (case ac_send_packet C packet w2 of
                      (Some e, w3) \<Rightarrow> (Some e, w3)
                    | (None, w3) \<Rightarrow> check_real_socket_state (ac_fileno C) (ac_so_error C) w3)) w"

definition async_client_send_eof :: "('p, 'q, 'w) async_client \<Rightarrow> 'w \<Rightarrow> exc option \<times> 'w" where
  "async_client_send_eof C w =
     holding (ac_send_lock C)
       (\<lambda>w1. case ac_connect C w1 of
               (Some e, w2) \<Rightarrow> (if e = ClientClosedError then None else Some e, w2)
             | (None, w2) \<Rightarrow> converting_async C (ac_send_eof C w2)) w"

definition async_client_recv_packet :: "('p, 'q, 'w) async_client \<Rightarrow> 'w \<Rightarrow> (exc + 'q) \<times> 'w" where
  "async_client_recv_packet C w =
     (case al_acquire (ac_receive_lock C) w of
        (Some e, w1) \<Rightarrow> (Inl e, w1)
      | (None, w1) \<Rightarrow>
          (case (case ac_connect C w1 of
                   (Some e, w2) \<Rightarrow> (Inl e, w2)
                 | (None, w2) \<Rightarrow> converting async_tcp_convert_socket_error (ac_is_closing C) (ac_recv_packet C w2)) of
             (r, w3) \<Rightarrow> (r, al_release (ac_receive_lock C) w3)))"

text \<open>\<^verbatim>\<open>aclose\<close>: a cancellation while it waits for the lock closes by force.\<close>

definition async_client_aclose :: "'w backend \<Rightarrow> ('p, 'q, 'w) async_client \<Rightarrow> 'w \<Rightarrow> exc option \<times> 'w" where
  "async_client_aclose B C w =
     (case al_acquire (ac_send_lock C) w of
        (None, w1) \<Rightarrow> (case ac_aclose C w1 of (r, w2) \<Rightarrow> (r, al_release (ac_send_lock C) w2))
      | (Some e, w1) \<Rightarrow>
          if e = CancelledError \<and> \<not> ac_is_closing C w1
          then (case aclose_forcefully B (ac_aclose C) w1 of (None, w2) \<Rightarrow> (Some e, w2) | (Some e', w2) \<Rightarrow> (Some e', w2))
          else (Some e, w1))"

section \<open>The client of a request handler\<close>

text \<open>\<^verbatim>\<open>_ConnectedClientAPI\<close>: a flag, a fair lock and the low-level client.\<close>

record 'w server_client =
  sc_set_closing :: "'w \<Rightarrow> 'w"
  sc_closing :: "'w \<Rightarrow> bool"
  sc_send_lock :: "'w async_lock"
  sc_aclose :: "'w \<Rightarrow> exc option \<times> 'w"

definition server_client_send_packet :: "'w server_client \<Rightarrow> ('w \<Rightarrow> exc option \<times> 'w) \<Rightarrow> 'w \<Rightarrow> exc option \<times> 'w" where
  "server_client_send_packet C send w =
     holding (sc_send_lock C) (\<lambda>w1. if sc_closing C w1 then (Some ClientClosedError, w1) else send w1) w"

definition server_client_aclose :: "'w backend \<Rightarrow> 'w server_client \<Rightarrow> 'w \<Rightarrow> exc option \<times> 'w" where
  "server_client_aclose B C w =
     (case al_acquire (sc_send_lock C) w of
        (None, w1) \<Rightarrow>
          (case sc_aclose C (sc_set_closing C w1) of (r, w2) \<Rightarrow> (r, al_release (sc_send_lock C) w2))
      | (Some e, w1) \<Rightarrow>
          if e = CancelledError \<and> \<not> sc_closing C w1
          then (case aclose_forcefully B (sc_aclose C) (sc_set_closing C w1) of
                  (None, w2) \<Rightarrow> (Some e, w2)
                | (Some e', w2) \<Rightarrow> (Some e', w2))
          else (Some e, w1))"

definition server_client_on_disconnect :: "'w server_client \<Rightarrow> 'w \<Rightarrow> exc option \<times> 'w" where
  "server_client_on_disconnect C w = holding (sc_send_lock C) (\<lambda>w1. (None, w1)) (sc_set_closing C w)"

section \<open>Which errors a client raises\<close>

text \<open>
  A lock raises only time-outs; being closed is not changed by releasing a lock.
\<close>

definition lock_times_out :: "'w client_lock \<Rightarrow> bool" where
  "lock_times_out L \<longleftrightarrow> (\<forall>t w e w'. lc_enter L t w = (Inl e, w') \<longrightarrow> e = error_from_errno ''ETIMEDOUT'')"

definition release_keeps :: "('w \<Rightarrow> 'v) \<Rightarrow> ('w \<Rightarrow> 'w) \<Rightarrow> bool" where
  "release_keeps view release \<longleftrightarrow> (\<forall>w. view (release w) = view w)"

text \<open>What a caller may see, given whether the endpoint is closed.\<close>

definition documented_error :: "bool \<Rightarrow> exc \<Rightarrow> bool" where
  "documented_error closed e \<longleftrightarrow>
     (is_ConnectionError e \<longrightarrow> e = ClientClosedError \<or> e = connection_aborted) \<and>
     (is_closed_errno e \<longrightarrow> \<not> closed) \<and> \<not> is_ssl_eof_error e"

lemma documented_constants:
  "documented_error c ClientClosedError" "documented_error c connection_aborted"
  "documented_error c (error_from_errno ''ETIMEDOUT'')"
  by (simp_all add: documented_error_def is_ConnectionError_def is_closed_errno_def connection_aborted_def error_from_errno_def)

lemma ssl_eof_is_SSLError: "is_ssl_eof_error e \<Longrightarrow> is_SSLError e"
  by (cases e) (auto split: if_splits)

lemma SSLError_is_OSError: "is_SSLError e \<Longrightarrow> \<not> is_closed_errno e \<and> \<not> is_ConnectionError e"
  by (cases e) (auto simp: is_closed_errno_def is_ConnectionError_def)

lemma convert_documented:
  "documented_error closed (tcp_convert_socket_error closed e)"
  "documented_error closed (async_tcp_convert_socket_error closed e)"
proof -
  have "documented_error closed (convert_closed_errno closed e)" if "\<not> is_ConnectionError e" "\<not> is_SSLError e"
    using that ssl_eof_is_SSLError [of e] documented_constants(1)
    by (auto simp: convert_closed_errno_def documented_error_def)
  then show "documented_error closed (tcp_convert_socket_error closed e)"
    "documented_error closed (async_tcp_convert_socket_error closed e)"
    using documented_constants SSLError_is_OSError [of e]
    by (auto simp: tcp_convert_socket_error_def async_tcp_convert_socket_error_def documented_error_def)
qed

lemma not_OSError_documented: "\<not> is_OSError e \<Longrightarrow> documented_error closed e"
  by (cases e) (auto simp: documented_error_def is_ConnectionError_def is_closed_errno_def)

lemma converting_documented:
  assumes "converting convert is_closed out = (Inl e, w)" and "\<And>c e. documented_error c (convert c e)"
  shows "documented_error (is_closed w) e"
  using assms not_OSError_documented
  by (auto simp: converting_def split: prod.splits sum.splits if_splits)

lemma with_client_lock_documented:
  assumes "lock_times_out L" and "release_keeps is_closed (lc_release L)"
    and "with_client_lock L t body w = Some (Inl e, w')"
    and "\<And>t w1 e w2. body t w1 = Some (Inl e, w2) \<Longrightarrow> documented_error (is_closed w2) e"
  shows "documented_error (is_closed w') e"
  using assms(3)
proof (cases "lc_enter L t w")
  case (Pair r w1)
  show ?thesis
  proof (cases r)
    case (Inl x)
    with Pair assms(1,3) documented_constants(3) show ?thesis by (auto simp: with_client_lock_def lock_times_out_def)
  next
    case (Inr t1)
    with Pair assms(3) obtain w2 where "body t1 w1 = Some (Inl e, w2)" and w': "w' = lc_release L w2"
      by (auto simp: with_client_lock_def)
    from assms(4) [OF this(1)] assms(2) w' show ?thesis by (simp add: release_keeps_def)
  qed
qed

text \<open>
  C28: the blocking TCP client raises the errors it documents.  Whatever fails (the connection, the TLS layer, the file descriptor closed
  by another thread, the time limit), a connection error reaches the caller only as \<^verbatim>\<open>ClientClosedError\<close> or
  \<^verbatim>\<open>ECONNABORTED\<close>, the end of a TLS stream never as an \<^verbatim>\<open>SSLError\<close>, and a closed descriptor of a closed client always as
  \<^verbatim>\<open>ClientClosedError\<close>.
\<close>

theorem tcp_client_errors:
  assumes "lock_times_out L" and "release_keeps (be_is_closed E) (lc_release L)"
  shows "(client_send_packet tcp_convert_socket_error L E packet t w = Some (Inl e, w') \<longrightarrow> documented_error (be_is_closed E w') e)
    \<and> (client_recv_packet tcp_convert_socket_error L E t w = Some (Inl e, w') \<longrightarrow> documented_error (be_is_closed E w') e)
    \<and> (client_send_eof tcp_convert_socket_error L E w = Some (Inl e, w') \<longrightarrow> documented_error (be_is_closed E w') e)"
proof (intro conjI impI)
  note locked = with_client_lock_documented [OF assms]
  note converted = converting_documented [OF _ convert_documented(1)]
  show "documented_error (be_is_closed E w') e"
    if "client_send_packet tcp_convert_socket_error L E packet t w = Some (Inl e, w')"
    by (rule locked [OF that [unfolded client_send_packet_def]])
      (auto split: if_splits intro: documented_constants(1) converted)
  show "documented_error (be_is_closed E w') e"
    if "client_recv_packet tcp_convert_socket_error L E t w = Some (Inl e, w')"
    by (rule locked [OF that [unfolded client_recv_packet_def]])
      (auto split: if_splits intro: documented_constants(1) converted)
  show "documented_error (be_is_closed E w') e"
    if "client_send_eof tcp_convert_socket_error L E w = Some (Inl e, w')"
    by (rule locked [OF that [unfolded client_send_eof_def]])
      (auto split: if_splits intro: documented_constants(1) converted)
qed

section \<open>The time limit of a client\<close>

text \<open>A call that returns, not before it was made and within \<open>i\<close> time units.\<close>

definition returns_within :: "('w \<Rightarrow> int) \<Rightarrow> int \<Rightarrow> 'w \<Rightarrow> ('r \<times> 'w) option \<Rightarrow> bool" where
  "returns_within clock i w out \<longleftrightarrow>
     (case out of None \<Rightarrow> False | Some (r, w') \<Rightarrow> clock w \<le> clock w' \<and> clock w' \<le> clock w + i)"

lemma returns_withinI: "out = Some (r, w') \<Longrightarrow> clock w \<le> clock w' \<Longrightarrow> clock w' \<le> clock w + i \<Longrightarrow> returns_within clock i w out"
  by (simp add: returns_within_def)

lemma returns_withinE:
  assumes "returns_within clock i w out"
  obtains r w' where "out = Some (r, w')" and "clock w \<le> clock w'" and "clock w' \<le> clock w + i"
  using assms by (auto simp: returns_within_def split: option.splits)

text \<open>
  The lock is a real one and the endpoint keeps a time limit that is not negative; asking the socket for its error and releasing
  the lock takes no time.
\<close>

definition keeps_time :: "('w \<Rightarrow> int) \<Rightarrow> 'w client_lock \<Rightarrow> ('p, 'q, 'w) blocking_endpoint \<Rightarrow> bool" where
  "keeps_time clock L E \<longleftrightarrow>
     (\<exists>try_acquire acquire. lc_enter L = lock_enter clock try_acquire acquire \<and>
        (\<forall>w. clock (snd (try_acquire w)) = clock w) \<and>
        (\<forall>i w b w'. 0 \<le> i \<longrightarrow> acquire (Finite i) w = (b, w') \<longrightarrow> clock w \<le> clock w' \<and> clock w' \<le> clock w + i)) \<and>
     (\<forall>w. clock (lc_release L w) = clock w) \<and> (\<forall>w. clock (snd (be_so_error E w)) = clock w) \<and>
     (\<forall>p i w. 0 \<le> i \<longrightarrow> returns_within clock i w (be_send_packet E p (Finite i) w)) \<and>
     (\<forall>i w. 0 \<le> i \<longrightarrow> returns_within clock i w (be_recv_packet E (Finite i) w))"

lemma keeps_time_enter:
  assumes "keeps_time clock L E" and "lc_enter L (Finite i) w = (r, w')" and "0 \<le> i"
  shows "clock w \<le> clock w' \<and> clock w' \<le> clock w + i
    \<and> (\<forall>t. r = Inr t \<longrightarrow> (\<exists>j. t = Finite j \<and> 0 \<le> j \<and> clock w' + j \<le> clock w + i))"
proof -
  obtain try_acquire acquire where enter: "lc_enter L = lock_enter clock try_acquire acquire"
    and try_acquire: "\<And>w. clock (snd (try_acquire w)) = clock w"
    and acquire: "\<And>i w b w'. 0 \<le> i \<Longrightarrow> acquire (Finite i) w = (b, w') \<Longrightarrow> clock w \<le> clock w' \<and> clock w' \<le> clock w + i"
    using assms(1) by (auto simp: keeps_time_def)
  obtain b w1 where 1: "try_acquire w = (b, w1)" by fastforce
  then have c1: "clock w1 = clock w" using try_acquire [of w] by simp
  show ?thesis
  proof (cases "b \<or> i = 0")
    case True
    with 1 c1 assms(2,3) show ?thesis by (cases b) (auto simp: enter lock_enter_def)
  next
    case False
    obtain b2 w2 where 2: "acquire (Finite i) w1 = (b2, w2)" by fastforce
    from acquire [OF assms(3) this] have "clock w1 \<le> clock w2 \<and> clock w2 \<le> clock w1 + i" .
    with False 1 2 c1 assms(2) show ?thesis
      by (auto simp: enter lock_enter_def Let_def split: bool.splits)
  qed
qed

lemma with_client_lock_time:
  assumes "keeps_time clock L E" and "0 \<le> i"
    and "\<And>j w1. 0 \<le> j \<Longrightarrow> returns_within clock j w1 (body (Finite j) w1)"
  shows "returns_within clock i w (with_client_lock L (Finite i) body w)"
proof -
  obtain r1 w1 where 1: "lc_enter L (Finite i) w = (r1, w1)" by fastforce
  note enter = keeps_time_enter [OF assms(1) 1 assms(2)]
  show ?thesis
  proof (cases r1)
    case (Inl e)
    with 1 enter show ?thesis by (simp add: with_client_lock_def returns_within_def)
  next
    case (Inr t)
    with enter obtain j where j: "t = Finite j" "0 \<le> j" "clock w1 + j \<le> clock w + i" by auto
    from assms(3) [OF j(2)] obtain r w2 where 2: "body (Finite j) w1 = Some (r, w2)" "clock w1 \<le> clock w2" "clock w2 \<le> clock w1 + j"
      by (rule returns_withinE)
    have "clock (lc_release L w2) = clock w2" using assms(1) by (simp add: keeps_time_def)
    with 1 2 Inr j enter show ?thesis by (simp add: with_client_lock_def returns_within_def)
  qed
qed

lemma converting_world: "snd (converting convert is_closed out) = snd out"
  by (cases out; cases "fst out") (auto simp: converting_def)

lemma converting_time:
  "returns_within clock i w (Some out) \<Longrightarrow> returns_within clock i w (Some (converting convert is_closed out))"
  using converting_world [of convert is_closed out] by (auto simp: returns_within_def split: prod.splits)

lemma socket_state_time:
  "keeps_time clock L E \<Longrightarrow> clock (snd (check_real_socket_state (be_fileno E) (be_so_error E) w)) = clock w"
  by (auto simp: check_real_socket_state_def keeps_time_def split: prod.split sum.split) (metis snd_conv)+

lemma client_send_packet_time:
  assumes "keeps_time clock L E" and "0 \<le> i"
  shows "returns_within clock i w (client_send_packet convert L E packet (Finite i) w)"
  unfolding client_send_packet_def
proof (rule with_client_lock_time [OF assms])
  fix j :: int and w1
  assume "0 \<le> j"
  then have "returns_within clock j w1 (be_send_packet E packet (Finite j) w1)"
    using assms(1) by (simp add: keeps_time_def)
  then obtain x w3 where 3: "be_send_packet E packet (Finite j) w1 = Some (x, w3)" "clock w1 \<le> clock w3" "clock w3 \<le> clock w1 + j"
    by (rule returns_withinE)
  obtain y w4 where 4: "check_real_socket_state (be_fileno E) (be_so_error E) w3 = (y, w4)" by fastforce
  with socket_state_time [OF assms(1), of w3] 3 have "clock w1 \<le> clock w4" "clock w4 \<le> clock w1 + j" by simp_all
  with 3 4 \<open>0 \<le> j\<close> show "returns_within clock j w1
      (if be_is_closed E w1 then Some (Inl ClientClosedError, w1)
       else map_option (\<lambda>(r, w2). converting convert (be_is_closed E)
              (case r of Some e \<Rightarrow> (Inl e, w2)
               | None \<Rightarrow> (case check_real_socket_state (be_fileno E) (be_so_error E) w2 of
                           (Some e, w3) \<Rightarrow> (Inl e, w3) | (None, w3) \<Rightarrow> (Inr (), w3))))
              (be_send_packet E packet (Finite j) w1))"
    by (cases x; cases y) (auto intro!: converting_time simp: returns_within_def [of clock j w1 "Some (_, _)"])
qed

lemma client_recv_packet_time:
  assumes "keeps_time clock L E" and "0 \<le> i"
  shows "returns_within clock i w (client_recv_packet convert L E (Finite i) w)"
  unfolding client_recv_packet_def
proof (rule with_client_lock_time [OF assms])
  fix j :: int and w1
  assume "0 \<le> j"
  then have "returns_within clock j w1 (be_recv_packet E (Finite j) w1)" using assms(1) by (simp add: keeps_time_def)
  then obtain x w3 where 3: "be_recv_packet E (Finite j) w1 = Some (x, w3)" "clock w1 \<le> clock w3" "clock w3 \<le> clock w1 + j"
    by (rule returns_withinE)
  with \<open>0 \<le> j\<close> show "returns_within clock j w1
      (if be_is_closed E w1 then Some (Inl ClientClosedError, w1)
       else map_option (converting convert (be_is_closed E)) (be_recv_packet E (Finite j) w1))"
    by (auto intro!: converting_time simp: returns_within_def [of clock j w1 "Some (_, _)"])
qed

text \<open>
  C29: the time limit of a client's operation covers everything it does: waiting for the lock, which is taken off the limit given
  to the endpoint, sending or receiving, and asking for the state of the socket.  Where the endpoint returns within
  its limits and waiting for a lock ends in time, the call returns, with a result or an error, by the limit.
\<close>

theorem client_operation_within_timeout:
  assumes "keeps_time clock L E" and "0 \<le> i"
  shows "returns_within clock i w (client_send_packet convert L E packet (Finite i) w)
    \<and> returns_within clock i w (client_recv_packet convert L E (Finite i) w)"
  using client_send_packet_time [OF assms] client_recv_packet_time [OF assms] by blast

text \<open>Examples: a client whose connection breaks, and one that has to wait two time units for its lock.\<close>

definition free_lock :: "'w client_lock" where
  "free_lock = \<lparr>lc_enter = \<lambda>t w. (Inr t, w), lc_release = \<lambda>w. w\<rparr>"

definition broken_endpoint :: "(string, string, bool) blocking_endpoint" where
  "broken_endpoint =
     \<lparr>be_is_closed = \<lambda>closed. closed,
      be_send_packet = \<lambda>_ _ closed. Some (Some (OSError ''EPIPE'' ''''), closed),
      be_recv_packet = \<lambda>_ closed. Some (Inl (OSError ''EBADF'' ''''), True),
      be_send_eof = \<lambda>closed. (Some (OSError ''SSLEOFError'' ''''), closed),
      be_close = \<lambda>_. (None, True), be_fileno = \<lambda>_. 3, be_so_error = \<lambda>closed. (Inr None, closed)\<rparr>"

lemma broken_endpoint_closed: "be_is_closed broken_endpoint = (\<lambda>closed. closed)"
  by (simp add: broken_endpoint_def)

theorem tcp_client_errors_witness:
  "(\<exists>e. client_send_packet tcp_convert_socket_error free_lock broken_endpoint ''p'' Infinity False = Some (Inl e, False)
      \<and> e = connection_aborted \<and> documented_error False e)
   \<and> (\<exists>e. client_recv_packet tcp_convert_socket_error free_lock broken_endpoint Infinity False = Some (Inl e, True)
      \<and> e = ClientClosedError \<and> documented_error True e)"
proof (intro conjI)
  have hyps: "lock_times_out free_lock" "release_keeps (be_is_closed broken_endpoint) (lc_release free_lock)"
    by (simp_all add: lock_times_out_def release_keeps_def free_lock_def)
  note defs = client_send_packet_def client_recv_packet_def with_client_lock_def converting_def free_lock_def
    broken_endpoint_def tcp_convert_socket_error_def convert_closed_errno_def is_closed_errno_def is_ConnectionError_def
  have "client_send_packet tcp_convert_socket_error free_lock broken_endpoint ''p'' Infinity False
      = Some (Inl connection_aborted, False)"
    by (simp add: defs)
  with tcp_client_errors [OF hyps, where packet = "''p''" and t = Infinity and w = False and e = connection_aborted and w' = False]
  show "\<exists>e. client_send_packet tcp_convert_socket_error free_lock broken_endpoint ''p'' Infinity False = Some (Inl e, False)
      \<and> e = connection_aborted \<and> documented_error False e"
    by (simp add: broken_endpoint_closed)
  have "client_recv_packet tcp_convert_socket_error free_lock broken_endpoint Infinity False = Some (Inl ClientClosedError, True)"
    by (simp add: defs)
  with tcp_client_errors [OF hyps, where t = Infinity and w = False and e = ClientClosedError and w' = True]
  show "\<exists>e. client_recv_packet tcp_convert_socket_error free_lock broken_endpoint Infinity False = Some (Inl e, True)
      \<and> e = ClientClosedError \<and> documented_error True e"
    by (simp add: broken_endpoint_closed)
qed

definition late_lock :: "int client_lock" where
  "late_lock =
     \<lparr>lc_enter = lock_enter (\<lambda>w. w) (\<lambda>w. (False, w))
        (\<lambda>t w. case t of Finite i \<Rightarrow> (2 \<le> i, w + min (max 0 i) 2) | Infinity \<Rightarrow> (True, w + 2)),
      lc_release = \<lambda>w. w\<rparr>"

definition timely_endpoint :: "(string, string, int) blocking_endpoint" where
  "timely_endpoint =
     \<lparr>be_is_closed = \<lambda>w. False,
      be_send_packet = \<lambda>_ t w. Some
        (case t of
           Finite i \<Rightarrow> if i < 0 then (Some (ValueError ''invalid delay''), w)
                       else if i < 3 then (Some (error_from_errno ''ETIMEDOUT''), w + i) else (None, w + 3)
         | Infinity \<Rightarrow> (None, w + 3)),
      be_recv_packet = \<lambda>t w. Some
        (case t of
           Finite i \<Rightarrow> if i < 0 then (Inl (ValueError ''invalid delay''), w)
                       else if i < 3 then (Inl (error_from_errno ''ETIMEDOUT''), w + i) else (Inr ''q'', w + 3)
         | Infinity \<Rightarrow> (Inr ''q'', w + 3)),
      be_send_eof = \<lambda>w. (None, w),
      be_close = \<lambda>w. (None, w), be_fileno = \<lambda>_. 3, be_so_error = \<lambda>w. (Inr None, w)\<rparr>"

text \<open>Two of five units wait for the lock, three are left; of four units two are left, and the endpoint times out.\<close>

theorem client_operation_within_timeout_witness:
  "client_send_packet tcp_convert_socket_error late_lock timely_endpoint ''p'' (Finite 5) 10 = Some (Inr (), 15)
   \<and> (case client_recv_packet tcp_convert_socket_error late_lock timely_endpoint (Finite 4) 10 of
        None \<Rightarrow> False | Some (r, w) \<Rightarrow> 10 \<le> w \<and> w \<le> 10 + 4)"
proof
  let ?acquire = "\<lambda>t w. case t of Finite i \<Rightarrow> (2 \<le> i, w + min (max 0 i) 2) | Infinity \<Rightarrow> (True, w + 2)"
  have "lc_enter late_lock = lock_enter (\<lambda>w. w) (\<lambda>w. (False, w)) ?acquire"
    by (simp add: late_lock_def)
  moreover have "\<forall>i w b w'. 0 \<le> i \<longrightarrow> ?acquire (Finite i) w = (b, w') \<longrightarrow> w \<le> w' \<and> w' \<le> w + i" by auto
  ultimately have "\<exists>try_acquire acquire. lc_enter late_lock = lock_enter (\<lambda>w. w) try_acquire acquire \<and>
        (\<forall>w. snd (try_acquire w) = w) \<and>
        (\<forall>i w b w'. 0 \<le> i \<longrightarrow> acquire (Finite i) w = (b, w') \<longrightarrow> w \<le> w' \<and> w' \<le> w + i)"
    by (intro exI conjI) (assumption | simp)+
  then have hyp: "keeps_time (\<lambda>w. w) late_lock timely_endpoint"
    by (simp add: keeps_time_def) (simp add: late_lock_def timely_endpoint_def returns_within_def)
  show "client_send_packet tcp_convert_socket_error late_lock timely_endpoint ''p'' (Finite 5) 10 = Some (Inr (), 15)"
    by (simp add: client_send_packet_def with_client_lock_def late_lock_def timely_endpoint_def lock_enter_def
        converting_def check_real_socket_state_def)
  from client_operation_within_timeout [OF hyp, of 4 10 tcp_convert_socket_error "''p''"]
  show "case client_recv_packet tcp_convert_socket_error late_lock timely_endpoint (Finite 4) 10 of
      None \<Rightarrow> False | Some (r, w) \<Rightarrow> 10 \<le> w \<and> w \<le> 10 + 4"
    by (simp add: returns_within_def)
qed

section \<open>Closing a client\<close>

text \<open>
  A client is closing after \<^verbatim>\<open>aclose\<close>, the call being cancelled while it waits for the lock or not; the client of a request handler sends
  nothing from then on.
\<close>

definition only_cancelled :: "'w async_lock \<Rightarrow> bool" where
  "only_cancelled L \<longleftrightarrow> (\<forall>w e w'. al_acquire L w = (Some e, w') \<longrightarrow> e = CancelledError)"

lemma async_client_aclose_closes:
  assumes "only_cancelled (ac_send_lock C)" and "closes (ac_is_closing C) (ac_aclose C)" and "scopes_keep (ac_is_closing C) B"
    and "release_keeps (ac_is_closing C) (al_release (ac_send_lock C))"
  shows "ac_is_closing C (snd (async_client_aclose B C w))"
proof (cases "al_acquire (ac_send_lock C) w")
  case (Pair r w1)
  show ?thesis
  proof (cases r)
    case None
    obtain r2 w2 where 2: "ac_aclose C w1 = (r2, w2)" by fastforce
    with closesD [OF assms(2) 2] assms(4) Pair None show ?thesis by (simp add: async_client_aclose_def release_keeps_def)
  next
    case (Some e)
    with Pair assms(1) have "e = CancelledError" by (auto simp: only_cancelled_def)
    obtain r2 w2 where 2: "aclose_forcefully B (ac_aclose C) w1 = (r2, w2)" by fastforce
    with closesD [OF aclose_forcefully_closes [OF assms(3,2)] 2] Pair Some \<open>e = CancelledError\<close>
    show ?thesis by (cases r2) (simp_all add: async_client_aclose_def)
  qed
qed

lemma server_client_aclose_closes:
  assumes "only_cancelled (sc_send_lock C)" and "stays_closed (sc_closing C) (sc_aclose C)" and "scopes_keep (sc_closing C) B"
    and "release_keeps (sc_closing C) (al_release (sc_send_lock C))" and "\<And>w. sc_closing C (sc_set_closing C w)"
  shows "sc_closing C (snd (server_client_aclose B C w))"
proof (cases "al_acquire (sc_send_lock C) w")
  case (Pair r w1)
  show ?thesis
  proof (cases r)
    case None
    obtain r2 w2 where 2: "sc_aclose C (sc_set_closing C w1) = (r2, w2)" by fastforce
    with stays_closedD [OF assms(2) assms(5) 2] assms(4) Pair None
    show ?thesis by (simp add: server_client_aclose_def release_keeps_def)
  next
    case (Some e)
    with Pair assms(1) have "e = CancelledError" by (auto simp: only_cancelled_def)
    obtain r2 w2 where 2: "aclose_forcefully B (sc_aclose C) (sc_set_closing C w1) = (r2, w2)" by fastforce
    with stays_closedD [OF aclose_forcefully_stays_closed [OF assms(3,2)] assms(5) 2] Pair Some \<open>e = CancelledError\<close>
    show ?thesis by (cases r2) (simp_all add: server_client_aclose_def)
  qed
qed

lemma server_client_sends_nothing:
  assumes "sc_closing C w1" and "al_acquire (sc_send_lock C) w = (None, w1)"
  shows "server_client_send_packet C send w = (Some ClientClosedError, al_release (sc_send_lock C) w1)"
  using assms by (simp add: server_client_send_packet_def holding_def)

end
