(* ===== verification/ClientErrors.thy ===== *)
theory ClientErrors
  imports Tls HandlerBuilder "HOL-Library.Multiset"
begin

text \<open>
  What a server does with the exceptions of one client: \<^verbatim>\<open>ClientErrorHandler\<close> of \<^verbatim>\<open>src/src/easynetwork/servers/_base.py\<close>,
  the filters of \<^verbatim>\<open>servers/async_tcp.py\<close>, \<^verbatim>\<open>iterate_exceptions\<close> of \<^verbatim>\<open>lowlevel/_utils.py\<close>, and the checks of the arguments of
  clients and servers (\<^verbatim>\<open>clients/_base.py\<close>, \<^verbatim>\<open>servers/_base.py\<close>).
\<close>

section \<open>Exception groups\<close>

text \<open>
  The standard library's groups.  A group of \<^verbatim>\<open>Exception\<close>s only is an \<^verbatim>\<open>ExceptionGroup\<close>, which is an \<^verbatim>\<open>Exception\<close>;
  Python refuses to make an empty one.
\<close>

datatype exc_group = Single exc | Group "exc_group list"

fun iterate_exceptions :: "exc_group \<Rightarrow> exc list" where
  "iterate_exceptions (Single e) = [e]"
| "iterate_exceptions (Group es) = concat (map iterate_exceptions es)"

fun group_is_Exception :: "exc_group \<Rightarrow> bool" where
  "group_is_Exception (Single e) = is_Exception e"
| "group_is_Exception (Group es) = list_all group_is_Exception es"

fun proper_group :: "exc_group \<Rightarrow> bool" where
  "proper_group (Single e) = True"
| "proper_group (Group es) \<longleftrightarrow> es \<noteq> [] \<and> list_all proper_group es"

text \<open>\<^verbatim>\<open>BaseExceptionGroup.split\<close> by a class that is not one of groups: the part that matches, and the part that does not.\<close>

fun matching :: "(exc \<Rightarrow> bool) \<Rightarrow> exc_group \<Rightarrow> exc_group option" where
  "matching P (Single e) = (if P e then Some (Single e) else None)"
| "matching P (Group es) =
     (case concat (map (\<lambda>g. case matching P g of None \<Rightarrow> [] | Some g' \<Rightarrow> [g']) es) of
        [] \<Rightarrow> None
      | es' \<Rightarrow> Some (Group es'))"

definition split_group :: "(exc \<Rightarrow> bool) \<Rightarrow> exc_group \<Rightarrow> exc_group option \<times> exc_group option" where
  "split_group P g = (matching P g, matching (\<lambda>e. \<not> P e) g)"

section \<open>ClientErrorHandler\<close>

text \<open>
  \<^verbatim>\<open>__exit__\<close>: the exception that leaves the block, and what is logged; \<open>suppress\<close> tells the classes \<^verbatim>\<open>suppress_errors\<close>.
\<close>

datatype client_log = ClosedClientWarning exc_group | RequestError exc_group

definition client_error_exit ::
  "(exc \<Rightarrow> bool) \<Rightarrow> exc_group option \<Rightarrow> exc_group option \<times> client_log list"
where
  "client_error_exit suppress exc_val =
     (case exc_val of
        None \<Rightarrow> (None, [])
      | Some (Group es) \<Rightarrow>
          (case split_group (\<lambda>e. e = ClientClosedError) (Group es) of
             (closed, rest) \<Rightarrow>
               (let logs = (case closed of None \<Rightarrow> [] | Some c \<Rightarrow> [ClosedClientWarning c]) in
                case (case rest of None \<Rightarrow> None | Some r \<Rightarrow> snd (split_group suppress r)) of
                  None \<Rightarrow> (None, logs)
                | Some r \<Rightarrow> if group_is_Exception r then (None, logs @ [RequestError r]) else (Some r, logs)))
      | Some (Single e) \<Rightarrow>
          if e = ClientClosedError then (None, [ClosedClientWarning (Single e)])
          else if is_Exception e then (None, if suppress e then [] else [RequestError (Single e)])
          else (Some (Single e), []))"

section \<open>The filters of the TCP server\<close>

text \<open>\<^verbatim>\<open>disconnect_error_filter\<close>: the errors of \<^verbatim>\<open>recv\<close> that mean the client is gone.\<close>

definition disconnect_error_filter :: "exc \<Rightarrow> bool" where
  "disconnect_error_filter e \<longleftrightarrow> is_ConnectionError e \<or> is_ssl_eof_error e"

text \<open>\<^verbatim>\<open>__client_tls_handshake_error_handler\<close>: whether a warning is logged.\<close>

definition handshake_error_is_logged :: "exc \<Rightarrow> bool" where
  "handshake_error_is_logged e \<longleftrightarrow>
     (case e of
        TimeoutError _ \<Rightarrow> False
      | OSError errno _ \<Rightarrow>
          errno \<noteq> ''ETIMEDOUT'' \<and>
          \<not> (is_ConnectionError e \<or> is_ssl_eof_error e \<or> errno \<in> set [''ENOTCONN'', ''EINVAL''])
      | _ \<Rightarrow> \<not> is_ConnectionError e)"

section \<open>Arguments\<close>

text \<open>\<open>None\<close> is Python's; what is not an integer is refused by the type here.\<close>

definition default_stream_bufsize :: int where
  "default_stream_bufsize = 16 * 1024"

definition validate_max_recv_size :: "int option \<Rightarrow> exc + int" where
  "validate_max_recv_size max_recv_size =
     (let n = (case max_recv_size of None \<Rightarrow> default_stream_bufsize | Some n \<Rightarrow> n) in
      if n \<le> 0 then Inl (ValueError ''max_recv_size must be a strictly positive integer'') else Inr n)"

text \<open>The default of the size of the ancillary data is asked of the platform, once.\<close>

definition validate_unix_socket_ancillary_buffer_size :: "int \<Rightarrow> int option \<Rightarrow> exc + int" where
  "validate_unix_socket_ancillary_buffer_size default_bufsize ancillary_bufsize =
     (let n = (case ancillary_bufsize of None \<Rightarrow> default_bufsize | Some n \<Rightarrow> n) in
      if n \<le> 0 then Inl (ValueError ''ancillary_bufsize must be a strictly positive integer'') else Inr n)"

text \<open>\<open>ssl\<close>: the argument is true; the others say which arguments were given.\<close>

definition server_validate_ssl_arguments :: "bool \<Rightarrow> bool \<Rightarrow> bool \<Rightarrow> bool \<Rightarrow> exc option" where
  "server_validate_ssl_arguments ssl handshake_timeout shutdown_timeout standard_compatible =
     (if handshake_timeout \<and> \<not> ssl then Some (ValueError ''ssl_handshake_timeout is only meaningful with ssl'')
      else if shutdown_timeout \<and> \<not> ssl then Some (ValueError ''ssl_shutdown_timeout is only meaningful with ssl'')
      else if standard_compatible \<and> \<not> ssl then Some (ValueError ''ssl_standard_compatible is only meaningful with ssl'')
      else None)"

definition client_validate_ssl_arguments :: "bool \<Rightarrow> bool \<Rightarrow> bool \<Rightarrow> bool \<Rightarrow> bool \<Rightarrow> exc option" where
  "client_validate_ssl_arguments ssl server_hostname handshake_timeout shutdown_timeout standard_compatible =
     (if server_hostname \<and> \<not> ssl then Some (ValueError ''server_hostname is only meaningful with ssl'')
      else server_validate_ssl_arguments ssl handshake_timeout shutdown_timeout standard_compatible)"

definition resolve_server_hostname_for_ssl :: "string option \<Rightarrow> string \<Rightarrow> exc + string option" where
  "resolve_server_hostname_for_ssl server_hostname host_address =
     (case server_hostname of
        Some h \<Rightarrow> Inr (Some h)
      | None \<Rightarrow>
          if host_address = [] then Inl (ValueError ''You must set server_hostname when using ssl without a host'')
          else Inr (Some host_address))"

lemma validated_positive:
  "validate_max_recv_size m = Inr n \<Longrightarrow> 0 < n"
  "validate_unix_socket_ancillary_buffer_size d m = Inr n \<Longrightarrow> 0 < n"
  by (auto simp: validate_max_recv_size_def validate_unix_socket_ancillary_buffer_size_def Let_def split: if_splits)

section \<open>Splitting a group\<close>

lemma matching_leaves:
  "(case matching P g of None \<Rightarrow> [] | Some g' \<Rightarrow> iterate_exceptions g') = filter P (iterate_exceptions g)"
proof (induction g)
  case (Group es)
  have "concat (map iterate_exceptions (concat (map (\<lambda>g. case matching P g of None \<Rightarrow> [] | Some g' \<Rightarrow> [g']) es)))
      = filter P (concat (map iterate_exceptions es))"
    using Group.IH
  proof (induction es)
    case (Cons a es)
    then show ?case using Cons.prems [of a] by (cases "matching P a") simp_all
  qed simp
  moreover have "(case matching P (Group es) of None \<Rightarrow> [] | Some g' \<Rightarrow> iterate_exceptions g')
      = concat (map iterate_exceptions (concat (map (\<lambda>g. case matching P g of None \<Rightarrow> [] | Some g' \<Rightarrow> [g']) es)))"
    by (cases "concat (map (\<lambda>g. case matching P g of None \<Rightarrow> [] | Some g' \<Rightarrow> [g']) es)") (simp_all del: concat_eq_Nil_conv)
  ultimately show ?case by simp
qed simp

lemma matching_Some: "matching P g = Some g' \<Longrightarrow> iterate_exceptions g' = filter P (iterate_exceptions g)"
  using matching_leaves [of P g] by simp

lemma proper_group_leaves: "proper_group g \<Longrightarrow> iterate_exceptions g \<noteq> []"
  by (induction g) (auto simp: neq_Nil_conv)

lemma matching_None: "matching P g = None \<Longrightarrow> filter P (iterate_exceptions g) = []"
  using matching_leaves [of P g] by simp

lemma matching_proper: "matching P g = Some g' \<Longrightarrow> proper_group g'"
proof (induction g arbitrary: g')
  case (Single e)
  then show ?case by (auto split: if_splits)
next
  case (Group es)
  then have "g' = Group (concat (map (\<lambda>g. case matching P g of None \<Rightarrow> [] | Some g' \<Rightarrow> [g']) es))" and "g' \<noteq> Group []"
    by (auto split: list.splits)
  moreover have "\<forall>x\<in>set (concat (map (\<lambda>g. case matching P g of None \<Rightarrow> [] | Some g' \<Rightarrow> [g']) es)). proper_group x"
    using Group.IH by (auto split: option.splits)
  ultimately show ?case by (auto simp: list_all_iff)
qed

lemma group_is_Exception_iff: "group_is_Exception g \<longleftrightarrow> (\<forall>e\<in>set (iterate_exceptions g). is_Exception e)"
  by (induction g) (auto simp: list_all_iff)

section \<open>Every exception of a client is accounted for\<close>

fun logged_leaves :: "client_log \<Rightarrow> exc list" where
  "logged_leaves (ClosedClientWarning g) = iterate_exceptions g"
| "logged_leaves (RequestError g) = iterate_exceptions g"

definition left_leaves :: "exc_group option \<Rightarrow> exc list" where
  "left_leaves out = (case out of None \<Rightarrow> [] | Some g \<Rightarrow> iterate_exceptions g)"

lemma partition3:
  "mset xs = mset (filter P xs) + mset (filter (\<lambda>x. \<not> Q x) (filter (\<lambda>x. \<not> P x) xs)) + mset (filter (\<lambda>x. \<not> P x \<and> Q x) xs)"
  by (induction xs) (simp_all add: ac_simps flip: mset_filter)

text \<open>What a group leaves behind: the warning about closed clients, the errors not suppressed.\<close>

definition closed_warnings :: "exc_group \<Rightarrow> client_log list" where
  "closed_warnings g = (case matching (\<lambda>e. e = ClientClosedError) g of None \<Rightarrow> [] | Some c \<Rightarrow> [ClosedClientWarning c])"

definition unsuppressed :: "(exc \<Rightarrow> bool) \<Rightarrow> exc_group \<Rightarrow> exc_group option" where
  "unsuppressed suppress g =
     (case matching (\<lambda>e. e \<noteq> ClientClosedError) g of None \<Rightarrow> None | Some r \<Rightarrow> matching (\<lambda>e. \<not> suppress e) r)"

lemma client_error_exit_group:
  "client_error_exit suppress (Some (Group es)) =
     (case unsuppressed suppress (Group es) of
        None \<Rightarrow> (None, closed_warnings (Group es))
      | Some r \<Rightarrow>
          if group_is_Exception r then (None, closed_warnings (Group es) @ [RequestError r])
          else (Some r, closed_warnings (Group es)))"
  unfolding client_error_exit_def split_group_def unsuppressed_def closed_warnings_def Let_def
  by (simp del: matching.simps cong: option.case_cong)

lemma closed_warnings_leaves:
  "concat (map logged_leaves (closed_warnings g)) = filter (\<lambda>e. e = ClientClosedError) (iterate_exceptions g)"
  using matching_leaves [of "\<lambda>e. e = ClientClosedError" g] by (auto simp: closed_warnings_def split: option.splits)

lemma closed_warnings_only:
  "RequestError r \<notin> set (closed_warnings g)"
  "ClosedClientWarning c \<in> set (closed_warnings g) \<Longrightarrow> set (iterate_exceptions c) = {ClientClosedError}"
  using matching_Some [of "\<lambda>e. e = ClientClosedError" g c] matching_proper [of "\<lambda>e. e = ClientClosedError" g c]
    proper_group_leaves [of c]
  by (auto simp: closed_warnings_def filter_empty_conv split: option.splits)

lemma unsuppressed_leaves:
  "left_leaves (unsuppressed suppress g)
     = filter (\<lambda>e. \<not> suppress e) (filter (\<lambda>e. \<not> e = ClientClosedError) (iterate_exceptions g))"
proof (cases "matching (\<lambda>e. e \<noteq> ClientClosedError) g")
  case None
  with matching_None [of "\<lambda>e. e \<noteq> ClientClosedError" g] show ?thesis by (simp add: unsuppressed_def left_leaves_def)
next
  case (Some r)
  with matching_Some [of "\<lambda>e. e \<noteq> ClientClosedError" g r] matching_leaves [of "\<lambda>e. \<not> suppress e" r]
  show ?thesis by (simp add: unsuppressed_def left_leaves_def)
qed

lemma unsuppressed_Some:
  assumes "unsuppressed suppress g = Some r"
  shows "set (iterate_exceptions r) = {e \<in> set (iterate_exceptions g). \<not> suppress e \<and> e \<noteq> ClientClosedError}"
  using unsuppressed_leaves [of suppress g] by (auto simp: left_leaves_def assms)

lemma group_accounted:
  "mset (iterate_exceptions g) = mset (concat (map logged_leaves (closed_warnings g))) + mset (left_leaves (unsuppressed suppress g))
     + mset (filter (\<lambda>e. e \<noteq> ClientClosedError \<and> suppress e) (iterate_exceptions g))"
  using partition3 [of "iterate_exceptions g" "\<lambda>e. e = ClientClosedError" suppress]
  by (simp add: closed_warnings_leaves unsuppressed_leaves)

lemma is_Exception_closed: "is_Exception ClientClosedError"
  by (simp add: is_Exception_simps)

lemma group_cancelled:
  assumes "\<forall>e. suppress e \<longrightarrow> is_Exception e"
  shows "(\<exists>e\<in>set (iterate_exceptions g). \<not> is_Exception e)
    \<longleftrightarrow> (case unsuppressed suppress g of None \<Rightarrow> False | Some r \<Rightarrow> \<not> group_is_Exception r)"
proof -
  have "(\<exists>e\<in>set (iterate_exceptions g). \<not> is_Exception e) \<longleftrightarrow> (\<exists>e\<in>set (left_leaves (unsuppressed suppress g)). \<not> is_Exception e)"
    using assms is_Exception_closed by (auto simp: unsuppressed_leaves)
  then show ?thesis by (cases "unsuppressed suppress g") (simp_all add: left_leaves_def group_is_Exception_iff)
qed

text \<open>
  C30: no exception of a client is lost, and none stops the server.  Whatever a request handler raises, a group of
  exceptions in groups included, every exception in it is either logged, once, or one of the classes the server was told to suppress, or
  leaves the block, and it leaves the block exactly when an exception that is no \<^verbatim>\<open>Exception\<close> is in it: a cancellation, \<^verbatim>\<open>GeneratorExit\<close>, \<^verbatim>\<open>KeyboardInterrupt\<close> or \<^verbatim>\<open>SystemExit\<close>.
  An operation on a closed client gives a warning, even where \<^verbatim>\<open>ClientClosedError\<close> is one of the classes suppressed.
\<close>

theorem client_errors_accounted:
  assumes "\<forall>e. suppress e \<longrightarrow> is_Exception e" and "client_error_exit suppress (Some g) = (out, logs)"
  shows "mset (iterate_exceptions g)
      = mset (concat (map logged_leaves logs)) + mset (left_leaves out)
        + mset (filter (\<lambda>e. e \<noteq> ClientClosedError \<and> suppress e) (iterate_exceptions g))
    \<and> (out \<noteq> None \<longleftrightarrow> (\<exists>e\<in>set (iterate_exceptions g). \<not> is_Exception e))
    \<and> (\<forall>c. ClosedClientWarning c \<in> set logs \<longrightarrow> set (iterate_exceptions c) = {ClientClosedError})
    \<and> (\<forall>r. RequestError r \<in> set logs \<longrightarrow> (\<forall>e\<in>set (iterate_exceptions r). \<not> suppress e \<and> e \<noteq> ClientClosedError))"
proof (cases g)
  case (Single e)
  with Single assms is_Exception_closed show ?thesis by (auto simp: client_error_exit_def left_leaves_def split: if_splits)
next
  case (Group es)
  note facts = group_accounted [of g suppress] group_cancelled [OF assms(1), of g]
  note exit = assms(2) [unfolded Group client_error_exit_group, folded Group]
  show ?thesis
  proof (cases "unsuppressed suppress g")
    case None
    with exit facts closed_warnings_only show ?thesis by (auto simp: left_leaves_def)
  next
    case (Some r)
    show ?thesis
    proof (cases "group_is_Exception r")
      case True
      with exit Some have out: "out = None" "logs = closed_warnings g @ [RequestError r]" by simp_all
      show ?thesis
        unfolding out using facts closed_warnings_only unsuppressed_Some [OF Some] True
        by (auto simp: Some left_leaves_def)
    next
      case False
      with exit Some have "out = Some r" "logs = closed_warnings g" by simp_all
      with facts closed_warnings_only False show ?thesis by (auto simp: Some)
    qed
  qed
qed

text \<open>Example: an operation on a closed client, a lost connection and an error of the application, in nested groups.\<close>

definition failed_client :: exc_group where
  "failed_client =
     Group [Single ClientClosedError, Group [Single (OSError ''EPIPE'' ''''), Single (ValueError ''x'')], Group [Single ClientClosedError]]"

theorem client_errors_accounted_witness:
  "client_error_exit is_ConnectionError (Some failed_client)
     = (None, [ClosedClientWarning (Group [Single ClientClosedError, Group [Single ClientClosedError]]),
               RequestError (Group [Group [Single (ValueError ''x'')]])])
   \<and> mset (iterate_exceptions failed_client)
     = {# ClientClosedError, ClientClosedError, ValueError ''x'' #} + {# OSError ''EPIPE'' '''' #}
   \<and> list_all is_Exception (iterate_exceptions failed_client)"
proof (intro conjI)
  show exit: "client_error_exit is_ConnectionError (Some failed_client)
     = (None, [ClosedClientWarning (Group [Single ClientClosedError, Group [Single ClientClosedError]]),
               RequestError (Group [Group [Single (ValueError ''x'')]])])"
    by code_simp
  have "\<forall>e. is_ConnectionError e \<longrightarrow> is_Exception e" by (auto simp: is_ConnectionError_def is_Exception_simps)
  note accounted = client_errors_accounted [OF this exit]
  have "filter (\<lambda>e. e \<noteq> ClientClosedError \<and> is_ConnectionError e) (iterate_exceptions failed_client) = [OSError ''EPIPE'' '''']"
    by code_simp
  with accounted show "mset (iterate_exceptions failed_client)
     = {# ClientClosedError, ClientClosedError, ValueError ''x'' #} + {# OSError ''EPIPE'' '''' #}"
    by (simp add: left_leaves_def)
  from accounted show "list_all is_Exception (iterate_exceptions failed_client)" by (auto simp: list_all_iff)
qed

end
