(* ===== verification/StandaloneServer.thy ===== *)
theory StandaloneServer
  imports Exceptions
begin

text \<open>
  \<^verbatim>\<open>BaseStandaloneNetworkServerImpl\<close> of \<^verbatim>\<open>src/src/easynetwork/servers/_base.py\<close>: the blocking server, whose methods are called
  by threads.  Two locks and two events order the threads; the calls into the event loop of the server go through a portal.
  What a thread does between two operations that other threads can see is one event.
\<close>

section \<open>The state\<close>

text \<open>
  Who uses the portal (\<^verbatim>\<open>_run_sync_or_else\<close> and \<^verbatim>\<open>shutdown\<close>); a \<open>ForShutdown\<close> says whether it has a time limit.  Then where a thread is.
  \<^verbatim>\<open>serve_forever\<close>: it waits for the first lock, for the second, sets up the server and its portal, serves; its portal waits
  for the calls under way; it waits for the bootstrap lock again, resets the values, sets the event, leaves.  The flag
  of the last ones: the set-up failed, so that the locks were never released.
\<close>

datatype caller = ForClose | ForShutdown bool | ForIsServing

datatype thread_phase =
    Out
  | ServeWantClose
  | ServeWantBootstrap
  | Booting
  | Running
  | PortalClosing
  | WantReset bool
  | Resetting bool
  | Announcing bool
  | Leaving bool
  | CloseWantClose
  | UseWant caller
  | UseHeld caller
  | UseCalling caller
  | CloseSetting
  | ShutdownWaiting bool

text \<open>
  The locks are reentrant: a lock is its owner.  \<open>sa_loop\<close>: \<^verbatim>\<open>__loop\<close> of the portal is set; \<open>sa_calls\<close> counts the calls in its task
  group.  \<open>sa_runner\<close> and \<open>sa_stop_requested\<close> are histories: the thread that has cleared \<^verbatim>\<open>__is_shutdown\<close>, and whether its run has been
  asked to stop.
\<close>

record standalone =
  sa_close_lock :: "nat option"
  sa_bootstrap_lock :: "nat option"
  sa_portal :: bool
  sa_server :: bool
  sa_loop :: bool
  sa_calls :: nat
  sa_is_shutdown :: bool
  sa_is_closed :: bool
  sa_threads :: "nat \<Rightarrow> thread_phase"
  sa_raised :: "(nat \<times> exc) list"
  sa_runner :: "nat option"
  sa_stop_requested :: bool

definition standalone_init :: standalone where
  "standalone_init =
     \<lparr>sa_close_lock = None, sa_bootstrap_lock = None, sa_portal = False, sa_server = False, sa_loop = False, sa_calls = 0,
      sa_is_shutdown = True, sa_is_closed = False, sa_threads = \<lambda>_. Out, sa_raised = [], sa_runner = None,
      sa_stop_requested = False\<rparr>"

definition thread_goes :: "nat \<Rightarrow> thread_phase \<Rightarrow> standalone \<Rightarrow> standalone" where
  "thread_goes t p s = s\<lparr>sa_threads := (sa_threads s)(t := p)\<rparr>"

definition thread_raises :: "nat \<Rightarrow> exc \<Rightarrow> standalone \<Rightarrow> standalone" where
  "thread_raises t e s = (thread_goes t Out s)\<lparr>sa_raised := sa_raised s @ [(t, e)]\<rparr>"

section \<open>serve\_forever\<close>

text \<open>With the close lock acquired; with the bootstrap lock.\<close>

definition serve_checks_closed :: "nat \<Rightarrow> standalone \<Rightarrow> standalone" where
  "serve_checks_closed t s =
     (if sa_is_closed s then thread_raises t ServerClosedError s
      else thread_goes t ServeWantBootstrap (s\<lparr>sa_close_lock := Some t\<rparr>))"

definition serve_checks_running :: "nat \<Rightarrow> standalone \<Rightarrow> standalone" where
  "serve_checks_running t s =
     (if \<not> sa_is_shutdown s then thread_raises t ServerAlreadyRunning (s\<lparr>sa_close_lock := None\<rparr>)
      else thread_goes t Booting
             (s\<lparr>sa_bootstrap_lock := Some t, sa_is_shutdown := False, sa_runner := Some t, sa_stop_requested := False\<rparr>))"

text \<open>
  The coroutine releases the locks and starts the asynchronous \<^verbatim>\<open>serve_forever\<close> in one step of the loop.  If the set-up fails the
  server may already be known, the portal is not.
\<close>

definition boot_succeeds :: "nat \<Rightarrow> standalone \<Rightarrow> standalone" where
  "boot_succeeds t s =
     thread_goes t Running
       (s\<lparr>sa_server := True, sa_portal := True, sa_loop := True, sa_close_lock := None, sa_bootstrap_lock := None\<rparr>)"

definition boot_fails :: "nat \<Rightarrow> bool \<Rightarrow> standalone \<Rightarrow> standalone" where
  "boot_fails t server_known s = thread_goes t (WantReset True) (s\<lparr>sa_server := server_known\<rparr>)"

text \<open>The asynchronous \<^verbatim>\<open>serve_forever\<close> ends: the portal refuses calls from now on.  \<^verbatim>\<open>bootstrap\<close> returns when its calls have ended.\<close>

definition serve_ends :: "nat \<Rightarrow> standalone \<Rightarrow> standalone" where
  "serve_ends t s = thread_goes t PortalClosing (s\<lparr>sa_loop := False\<rparr>)"

definition bootstrap_returns :: "nat \<Rightarrow> standalone \<Rightarrow> standalone" where
  "bootstrap_returns t s = thread_goes t (WantReset False) s"

text \<open>The callbacks of the exit stack.\<close>

definition reacquire_bootstrap_lock :: "nat \<Rightarrow> bool \<Rightarrow> standalone \<Rightarrow> standalone" where
  "reacquire_bootstrap_lock t held s = thread_goes t (Resetting held) (s\<lparr>sa_bootstrap_lock := Some t\<rparr>)"

definition reset_values :: "nat \<Rightarrow> bool \<Rightarrow> standalone \<Rightarrow> standalone" where
  "reset_values t held s = thread_goes t (Announcing held) (s\<lparr>sa_portal := False, sa_server := False\<rparr>)"

text \<open>\<^verbatim>\<open>__is_shutdown.set\<close> wakes every thread that waits for it.\<close>

fun woken :: "thread_phase \<Rightarrow> thread_phase" where
  "woken (ShutdownWaiting b) = Out"
| "woken p = p"

definition set_shutdown :: "nat \<Rightarrow> bool \<Rightarrow> standalone \<Rightarrow> standalone" where
  "set_shutdown t held s =
     thread_goes t (Leaving held)
       (s\<lparr>sa_is_shutdown := True, sa_runner := None, sa_threads := woken \<circ> sa_threads s\<rparr>)"

definition release_locks :: "nat \<Rightarrow> bool \<Rightarrow> standalone \<Rightarrow> standalone" where
  "release_locks t held s =
     thread_goes t Out
       (s\<lparr>sa_bootstrap_lock := None, sa_close_lock := (if held then None else sa_close_lock s)\<rparr>)"

section \<open>The other methods\<close>

text \<open>
  What follows the use of the portal, with the bootstrap lock released: \<^verbatim>\<open>server_close\<close> sets its event, \<^verbatim>\<open>shutdown\<close> waits for the
  other one, \<^verbatim>\<open>is_serving\<close> returns.
\<close>

fun after_use :: "caller \<Rightarrow> thread_phase" where
  "after_use ForClose = CloseSetting"
| "after_use (ForShutdown timeout) = ShutdownWaiting timeout"
| "after_use ForIsServing = Out"

definition use_ends :: "nat \<Rightarrow> caller \<Rightarrow> standalone \<Rightarrow> standalone" where
  "use_ends t c s = thread_goes t (after_use c) (s\<lparr>sa_bootstrap_lock := None\<rparr>)"

text \<open>
  With the bootstrap lock: nothing to call, or a portal that does not run and raises \<^verbatim>\<open>RuntimeError\<close>, which is suppressed, or a
  call.  \<open>call_ends\<close>: the call returned, or was cancelled by the portal, which is suppressed too.
\<close>

fun asks_to_stop :: "caller \<Rightarrow> bool" where
  "asks_to_stop (ForShutdown _) = True"
| "asks_to_stop _ = False"

definition call_portal :: "nat \<Rightarrow> caller \<Rightarrow> standalone \<Rightarrow> standalone" where
  "call_portal t c s =
     (if sa_portal s \<and> sa_server s \<and> sa_loop s
      then thread_goes t (UseCalling c)
             (s\<lparr>sa_calls := sa_calls s + 1, sa_stop_requested := (sa_stop_requested s \<or> asks_to_stop c)\<rparr>)
      else use_ends t c s)"

definition call_ends :: "nat \<Rightarrow> caller \<Rightarrow> standalone \<Rightarrow> standalone" where
  "call_ends t c s = use_ends t c (s\<lparr>sa_calls := sa_calls s - 1\<rparr>)"

definition set_closed :: "nat \<Rightarrow> standalone \<Rightarrow> standalone" where
  "set_closed t s = thread_goes t Out (s\<lparr>sa_is_closed := True, sa_close_lock := None\<rparr>)"

section \<open>Histories\<close>

text \<open>The calls come first; the other events are what a thread that is inside a method does next.\<close>

datatype thread_event =
    CallServeForever nat
  | CallServerClose nat
  | CallShutdown nat bool
  | CallIsServing nat
  | AcquireClose nat
  | AcquireBootstrap nat
  | BootSucceeds nat
  | BootFails nat bool
  | ServeEnds nat
  | BootstrapReturns nat
  | Reset nat
  | SetShutdown nat
  | ReleaseLocks nat
  | CallPortal nat
  | CallEnds nat
  | SetClosed nat
  | WaitReturns nat
  | WaitTimesOut nat

text \<open>
  \<open>AcquireBootstrap\<close> of a thread that owns the lock already succeeds.  The coroutine of a \<^verbatim>\<open>shutdown\<close> without a time limit ends
  after the run (\<open>ServerLifecycle\<close>); the other calls end at any time.
\<close>

fun thread_enabled :: "thread_event \<Rightarrow> standalone \<Rightarrow> bool" where
  "thread_enabled (CallServeForever t) s \<longleftrightarrow> sa_threads s t = Out"
| "thread_enabled (CallServerClose t) s \<longleftrightarrow> sa_threads s t = Out"
| "thread_enabled (CallShutdown t _) s \<longleftrightarrow> sa_threads s t = Out"
| "thread_enabled (CallIsServing t) s \<longleftrightarrow> sa_threads s t = Out"
| "thread_enabled (AcquireClose t) s \<longleftrightarrow>
     sa_close_lock s = None \<and> (case sa_threads s t of ServeWantClose \<Rightarrow> True | CloseWantClose \<Rightarrow> True | _ \<Rightarrow> False)"
| "thread_enabled (AcquireBootstrap t) s \<longleftrightarrow>
     (sa_bootstrap_lock s = None \<or> sa_bootstrap_lock s = Some t) \<and>
     (case sa_threads s t of ServeWantBootstrap \<Rightarrow> True | UseWant _ \<Rightarrow> True | WantReset _ \<Rightarrow> True | _ \<Rightarrow> False)"
| "thread_enabled (BootSucceeds t) s \<longleftrightarrow> sa_threads s t = Booting"
| "thread_enabled (BootFails t _) s \<longleftrightarrow> sa_threads s t = Booting"
| "thread_enabled (ServeEnds t) s \<longleftrightarrow> sa_threads s t = Running"
| "thread_enabled (BootstrapReturns t) s \<longleftrightarrow> sa_threads s t = PortalClosing \<and> sa_calls s = 0"
| "thread_enabled (Reset t) s \<longleftrightarrow> (case sa_threads s t of Resetting _ \<Rightarrow> True | _ \<Rightarrow> False)"
| "thread_enabled (SetShutdown t) s \<longleftrightarrow> (case sa_threads s t of Announcing _ \<Rightarrow> True | _ \<Rightarrow> False)"
| "thread_enabled (ReleaseLocks t) s \<longleftrightarrow> (case sa_threads s t of Leaving _ \<Rightarrow> True | _ \<Rightarrow> False)"
| "thread_enabled (CallPortal t) s \<longleftrightarrow> (case sa_threads s t of UseHeld _ \<Rightarrow> True | _ \<Rightarrow> False)"
| "thread_enabled (CallEnds t) s \<longleftrightarrow>
     (case sa_threads s t of UseCalling c \<Rightarrow> c = ForShutdown False \<longrightarrow> \<not> sa_loop s | _ \<Rightarrow> False)"
| "thread_enabled (SetClosed t) s \<longleftrightarrow> sa_threads s t = CloseSetting"
| "thread_enabled (WaitReturns t) s \<longleftrightarrow> sa_is_shutdown s \<and> (case sa_threads s t of ShutdownWaiting _ \<Rightarrow> True | _ \<Rightarrow> False)"
| "thread_enabled (WaitTimesOut t) s \<longleftrightarrow> sa_threads s t = ShutdownWaiting True"

fun thread_apply :: "thread_event \<Rightarrow> standalone \<Rightarrow> standalone" where
  "thread_apply (CallServeForever t) s = thread_goes t ServeWantClose s"
| "thread_apply (CallServerClose t) s = thread_goes t CloseWantClose s"
| "thread_apply (CallShutdown t timeout) s = thread_goes t (UseWant (ForShutdown timeout)) s"
| "thread_apply (CallIsServing t) s = thread_goes t (UseWant ForIsServing) s"
| "thread_apply (AcquireClose t) s =
     (case sa_threads s t of
        CloseWantClose \<Rightarrow> thread_goes t (UseWant ForClose) (s\<lparr>sa_close_lock := Some t\<rparr>)
      | _ \<Rightarrow> serve_checks_closed t s)"
| "thread_apply (AcquireBootstrap t) s =
     (case sa_threads s t of
        UseWant c \<Rightarrow> thread_goes t (UseHeld c) (s\<lparr>sa_bootstrap_lock := Some t\<rparr>)
      | WantReset held \<Rightarrow> reacquire_bootstrap_lock t held s
      | _ \<Rightarrow> serve_checks_running t s)"
| "thread_apply (BootSucceeds t) s = boot_succeeds t s"
| "thread_apply (BootFails t b) s = boot_fails t b s"
| "thread_apply (ServeEnds t) s = serve_ends t s"
| "thread_apply (BootstrapReturns t) s = bootstrap_returns t s"
| "thread_apply (Reset t) s = (case sa_threads s t of Resetting held \<Rightarrow> reset_values t held s | _ \<Rightarrow> s)"
| "thread_apply (SetShutdown t) s = (case sa_threads s t of Announcing held \<Rightarrow> set_shutdown t held s | _ \<Rightarrow> s)"
| "thread_apply (ReleaseLocks t) s = (case sa_threads s t of Leaving held \<Rightarrow> release_locks t held s | _ \<Rightarrow> s)"
| "thread_apply (CallPortal t) s = (case sa_threads s t of UseHeld c \<Rightarrow> call_portal t c s | _ \<Rightarrow> s)"
| "thread_apply (CallEnds t) s = (case sa_threads s t of UseCalling c \<Rightarrow> call_ends t c s | _ \<Rightarrow> s)"
| "thread_apply (SetClosed t) s = set_closed t s"
| "thread_apply (WaitReturns t) s = thread_goes t Out s"
| "thread_apply (WaitTimesOut t) s = thread_goes t Out s"

inductive standalone_reachable :: "standalone \<Rightarrow> bool" where
  standalone_start: "standalone_reachable standalone_init"
| standalone_step: "standalone_reachable s \<Longrightarrow> thread_enabled e s \<Longrightarrow> standalone_reachable (thread_apply e s)"

fun standalone_run :: "thread_event list \<Rightarrow> standalone \<Rightarrow> standalone option" where
  "standalone_run [] s = Some s"
| "standalone_run (e # es) s = (if thread_enabled e s then standalone_run es (thread_apply e s) else None)"

lemma standalone_run_reachable: "standalone_reachable s \<Longrightarrow> standalone_run es s = Some s' \<Longrightarrow> standalone_reachable s'"
  by (induction es arbitrary: s) (auto intro: standalone_step split: if_splits)

section \<open>The invariant\<close>

text \<open>Which phases own the locks, and which lie between the clearing and the setting of \<^verbatim>\<open>__is_shutdown\<close>.\<close>

fun owns_close :: "thread_phase \<Rightarrow> bool" where
  "owns_close ServeWantBootstrap = True"
| "owns_close Booting = True"
| "owns_close (WantReset held) = held"
| "owns_close (Resetting held) = held"
| "owns_close (Announcing held) = held"
| "owns_close (Leaving held) = held"
| "owns_close (UseWant c) \<longleftrightarrow> c = ForClose"
| "owns_close (UseHeld c) \<longleftrightarrow> c = ForClose"
| "owns_close (UseCalling c) \<longleftrightarrow> c = ForClose"
| "owns_close CloseSetting = True"
| "owns_close _ = False"

fun owns_bootstrap :: "thread_phase \<Rightarrow> bool" where
  "owns_bootstrap Booting = True"
| "owns_bootstrap (WantReset held) = held"
| "owns_bootstrap (Resetting _) = True"
| "owns_bootstrap (Announcing _) = True"
| "owns_bootstrap (Leaving _) = True"
| "owns_bootstrap (UseHeld _) = True"
| "owns_bootstrap (UseCalling _) = True"
| "owns_bootstrap _ = False"

fun runs :: "thread_phase \<Rightarrow> bool" where
  "runs Booting = True"
| "runs Running = True"
| "runs PortalClosing = True"
| "runs (WantReset _) = True"
| "runs (Resetting _) = True"
| "runs (Announcing _) = True"
| "runs _ = False"

text \<open>What the runner's phase says of the shared values.\<close>

fun values_ok :: "thread_phase \<Rightarrow> standalone \<Rightarrow> bool" where
  "values_ok Running s \<longleftrightarrow> sa_portal s \<and> sa_server s \<and> sa_loop s"
| "values_ok PortalClosing s \<longleftrightarrow> sa_portal s \<and> sa_server s \<and> \<not> sa_loop s"
| "values_ok (WantReset held) s \<longleftrightarrow> sa_portal s = (\<not> held) \<and> \<not> sa_loop s \<and> sa_calls s = 0"
| "values_ok (Resetting held) s \<longleftrightarrow> sa_portal s = (\<not> held) \<and> \<not> sa_loop s \<and> sa_calls s = 0"
| "values_ok _ s \<longleftrightarrow> \<not> sa_portal s \<and> \<not> sa_server s \<and> \<not> sa_loop s \<and> sa_calls s = 0"

fun calling :: "thread_phase \<Rightarrow> bool" where
  "calling (UseCalling _) = True"
| "calling _ = False"

fun serve_holds_close :: "thread_phase \<Rightarrow> bool" where
  "serve_holds_close ServeWantBootstrap = True"
| "serve_holds_close Booting = True"
| "serve_holds_close (WantReset held) = held"
| "serve_holds_close (Resetting held) = held"
| "serve_holds_close (Announcing held) = held"
| "serve_holds_close (Leaving held) = held"
| "serve_holds_close _ = False"

definition locks_ok :: "standalone \<Rightarrow> bool" where
  "locks_ok s \<longleftrightarrow>
     (\<forall>t. owns_close (sa_threads s t) \<longleftrightarrow> sa_close_lock s = Some t) \<and>
     (\<forall>t. owns_bootstrap (sa_threads s t) \<longleftrightarrow> sa_bootstrap_lock s = Some t)"

definition runner_ok :: "standalone \<Rightarrow> bool" where
  "runner_ok s \<longleftrightarrow>
     (\<forall>t. runs (sa_threads s t) \<longleftrightarrow> sa_runner s = Some t) \<and> (sa_is_shutdown s \<longleftrightarrow> sa_runner s = None) \<and>
     values_ok (case sa_runner s of None \<Rightarrow> Out | Some t \<Rightarrow> sa_threads s t) s"

definition calls_counted :: "standalone \<Rightarrow> bool" where
  "calls_counted s \<longleftrightarrow>
     sa_calls s = (case sa_bootstrap_lock s of None \<Rightarrow> 0 | Some t \<Rightarrow> if calling (sa_threads s t) then 1 else 0) \<and>
     (\<forall>t b. sa_threads s t = UseCalling (ForShutdown b) \<longrightarrow> sa_stop_requested s)"

definition closed_ok :: "standalone \<Rightarrow> bool" where
  "closed_ok s \<longleftrightarrow> (sa_is_closed s \<longrightarrow> (\<forall>t. \<not> serve_holds_close (sa_threads s t)))"

definition standalone_inv :: "standalone \<Rightarrow> bool" where
  "standalone_inv s \<longleftrightarrow> locks_ok s \<and> runner_ok s \<and> calls_counted s \<and> closed_ok s"


lemma standalone_inv_init: "standalone_inv standalone_init"
  by (simp add: standalone_inv_def locks_ok_def runner_ok_def calls_counted_def closed_ok_def standalone_init_def)

lemmas thread_steps = thread_goes_def thread_raises_def serve_checks_closed_def serve_checks_running_def boot_succeeds_def
  boot_fails_def serve_ends_def bootstrap_returns_def reacquire_bootstrap_lock_def reset_values_def release_locks_def use_ends_def
  call_portal_def call_ends_def set_closed_def set_shutdown_def

lemma woken_simps:
  "owns_close (woken p) = owns_close p" "owns_bootstrap (woken p) = owns_bootstrap p" "runs (woken p) = runs p"
  "calling (woken p) = calling p" "serve_holds_close (woken p) = serve_holds_close p"
  "woken p = UseCalling c \<longleftrightarrow> p = UseCalling c"
  by (cases p; simp)+

lemma after_use_simps:
  "owns_close (after_use c) \<longleftrightarrow> c = ForClose" "\<not> owns_bootstrap (after_use c)" "\<not> runs (after_use c)"
  "\<not> calling (after_use c)" "\<not> serve_holds_close (after_use c)" "after_use c \<noteq> UseCalling c'"
  by (cases c; simp)+

fun thread_of :: "thread_event \<Rightarrow> nat" where
  "thread_of (CallServeForever t) = t"
| "thread_of (CallServerClose t) = t"
| "thread_of (CallShutdown t _) = t"
| "thread_of (CallIsServing t) = t"
| "thread_of (AcquireClose t) = t"
| "thread_of (AcquireBootstrap t) = t"
| "thread_of (BootSucceeds t) = t"
| "thread_of (BootFails t _) = t"
| "thread_of (ServeEnds t) = t"
| "thread_of (BootstrapReturns t) = t"
| "thread_of (Reset t) = t"
| "thread_of (SetShutdown t) = t"
| "thread_of (ReleaseLocks t) = t"
| "thread_of (CallPortal t) = t"
| "thread_of (CallEnds t) = t"
| "thread_of (SetClosed t) = t"
| "thread_of (WaitReturns t) = t"
| "thread_of (WaitTimesOut t) = t"

lemma locks_okD:
  assumes "standalone_inv s"
  shows "owns_close (sa_threads s t) \<longleftrightarrow> sa_close_lock s = Some t" "owns_bootstrap (sa_threads s t) \<longleftrightarrow> sa_bootstrap_lock s = Some t"
  using assms by (simp_all add: standalone_inv_def locks_ok_def)

lemma inv_locks:
  assumes "standalone_inv s" and "thread_enabled e s"
  shows "locks_ok (thread_apply e s)"
proof -
  note locks = locks_okD [OF assms(1)]
  obtain p where p: "sa_threads s (thread_of e) = p" by simp
  note phase = locks [of "thread_of e", unfolded p]
  show ?thesis
    using assms(2) p phase unfolding locks_ok_def
    by (cases e; cases p) (auto simp: thread_steps woken_simps after_use_simps locks split: if_splits)
qed

lemma runner_okD:
  assumes "standalone_inv s"
  shows "runs (sa_threads s t) \<longleftrightarrow> sa_runner s = Some t" "sa_is_shutdown s \<longleftrightarrow> sa_runner s = None"
    "sa_runner s = None \<Longrightarrow> values_ok Out s" "sa_runner s = Some t \<Longrightarrow> values_ok (sa_threads s t) s"
  using assms by (auto simp: standalone_inv_def runner_ok_def)

lemma calls_countedD:
  assumes "standalone_inv s"
  shows "calling (sa_threads s t) \<Longrightarrow> sa_calls s = 1" "0 < sa_calls s \<Longrightarrow> sa_bootstrap_lock s \<noteq> None"
    "sa_bootstrap_lock s = Some t \<Longrightarrow> sa_calls s = (if calling (sa_threads s t) then 1 else 0)"
    "sa_bootstrap_lock s = None \<Longrightarrow> sa_calls s = 0"
    "sa_threads s t = UseCalling (ForShutdown b) \<Longrightarrow> sa_stop_requested s"
proof -
  show "sa_calls s = 1" if "calling (sa_threads s t)"
  proof -
    from that have "owns_bootstrap (sa_threads s t)" by (cases "sa_threads s t") simp_all
    with locks_okD(2) [OF assms] that assms show ?thesis by (simp add: standalone_inv_def calls_counted_def)
  qed
qed (use assms in \<open>auto simp: standalone_inv_def calls_counted_def split: option.splits\<close>)

lemma values_ok_frame:
  "sa_portal s' = sa_portal s \<Longrightarrow> sa_server s' = sa_server s \<Longrightarrow> sa_loop s' = sa_loop s \<Longrightarrow> sa_calls s' = sa_calls s \<Longrightarrow>
   values_ok p s' = values_ok p s"
  by (cases p) simp_all

lemma calling_owns:
  assumes "standalone_inv s" and "sa_threads s t = UseCalling c"
  shows "sa_bootstrap_lock s = Some t"
  using locks_okD(2) [OF assms(1), of t] assms(2) by simp

lemma inv_calls:
  assumes "standalone_inv s" and "thread_enabled e s"
  shows "calls_counted (thread_apply e s)"
proof -
  note inv = locks_okD [OF assms(1)] calls_countedD(3-5) [OF assms(1)]
  obtain p where p: "sa_threads s (thread_of e) = p" by simp
  note phase = locks_okD [OF assms(1), of "thread_of e", unfolded p] calls_countedD(1) [OF assms(1), of "thread_of e", unfolded p]
  show ?thesis
    using assms(2) p phase unfolding calls_counted_def
    by (cases e; cases p)
      (auto simp: thread_steps woken_simps after_use_simps inv dest: calling_owns [OF assms(1)] split: if_splits option.splits)
qed

lemma closed_okD: "standalone_inv s \<Longrightarrow> sa_is_closed s \<Longrightarrow> \<not> serve_holds_close (sa_threads s t)"
  by (simp add: standalone_inv_def closed_ok_def)

lemma serve_holds_close_owns: "serve_holds_close p \<Longrightarrow> owns_close p"
  by (cases p) auto

lemma inv_closed:
  assumes "standalone_inv s" and "thread_enabled e s"
  shows "closed_ok (thread_apply e s)"
proof -
  obtain p where p: "sa_threads s (thread_of e) = p" by simp
  note phase = locks_okD(1) [OF assms(1), of "thread_of e", unfolded p] closed_okD [OF assms(1), of "thread_of e", unfolded p]
  have owner: "sa_close_lock s = Some t" if "serve_holds_close (sa_threads s t)" for t
    using serve_holds_close_owns [OF that] locks_okD(1) [OF assms(1)] by simp
  show ?thesis
    using assms(2) p phase closed_okD [OF assms(1)] unfolding closed_ok_def
    by (cases e; cases p) (auto simp: thread_steps woken_simps after_use_simps dest: owner split: if_splits)
qed

lemma inv_runner:
  assumes "standalone_inv s" and "thread_enabled e s"
  shows "(\<forall>t. runs (sa_threads (thread_apply e s) t) \<longleftrightarrow> sa_runner (thread_apply e s) = Some t)
    \<and> (sa_is_shutdown (thread_apply e s) \<longleftrightarrow> sa_runner (thread_apply e s) = None)"
proof -
  note inv = runner_okD(1) [OF assms(1)]
  obtain p where p: "sa_threads s (thread_of e) = p" by simp
  note phase = inv [of "thread_of e", unfolded p]
  show ?thesis
    using assms(2) p phase runner_okD(2) [OF assms(1)]
    by (cases e; cases p) (auto simp: thread_steps woken_simps after_use_simps inv split: if_splits)
qed

definition shared_values :: "standalone \<Rightarrow> bool \<times> bool \<times> bool \<times> nat" where
  "shared_values s = (sa_portal s, sa_server s, sa_loop s, sa_calls s)"

lemma values_ok_shared: "shared_values s' = shared_values s \<Longrightarrow> values_ok p s' = values_ok p s"
  by (cases p) (simp_all add: shared_values_def)

text \<open>A thread that is not the runner changes the shared values only by calls, while the runner lets them in or waits for them.\<close>

lemma other_keeps_values:
  assumes "standalone_inv s" and "thread_enabled e s" and "\<not> runs (sa_threads s (thread_of e))"
    and "\<not> runs (sa_threads (thread_apply e s) (thread_of e))" and "values_ok q s"
  shows "values_ok q (thread_apply e s)"
proof -
  obtain p where p: "sa_threads s (thread_of e) = p" by simp
  note phase = calls_countedD(1) [OF assms(1), of "thread_of e", unfolded p]
  have "shared_values (thread_apply e s) = shared_values s \<or> sa_loop s \<and> shared_values (thread_apply e s) = (sa_portal s, sa_server s, sa_loop s, sa_calls s + 1)
      \<or> sa_calls s = 1 \<and> shared_values (thread_apply e s) = (sa_portal s, sa_server s, sa_loop s, 0)"
    using assms(2-4) p phase
    by (cases e; cases p) (auto simp: thread_steps shared_values_def split: if_splits)
  then show ?thesis
  proof (elim disjE conjE)
    assume "shared_values (thread_apply e s) = shared_values s"
    with values_ok_shared assms(5) show ?thesis by blast
  qed (use assms(5) in \<open>cases q; simp add: shared_values_def\<close>)+
qed

definition runner_phase :: "standalone \<Rightarrow> thread_phase" where
  "runner_phase s = (case sa_runner s of None \<Rightarrow> Out | Some t \<Rightarrow> sa_threads s t)"

lemma inv_values:
  assumes "standalone_inv s" and "thread_enabled e s"
  shows "values_ok (runner_phase (thread_apply e s)) (thread_apply e s)"
proof -
  obtain p where p: "sa_threads s (thread_of e) = p" by simp
  note runner = runner_okD(1) [OF assms(1)]
  have ok: "values_ok (runner_phase s) s" using assms(1) by (simp add: standalone_inv_def runner_ok_def runner_phase_def)
  show ?thesis
  proof (cases "runs p")
    case True
    with runner p have r: "sa_runner s = Some (thread_of e)" by auto
    with ok p have "values_ok p s" by (simp add: runner_phase_def)
    with assms(2) p r True show ?thesis
      by (cases e; cases p) (auto simp: thread_steps runner_phase_def split: if_splits)
  next
    case not_runner: False
    with runner p have r: "sa_runner s \<noteq> Some (thread_of e)" by auto
    show ?thesis
    proof (cases "runs (sa_threads (thread_apply e s) (thread_of e))")
      case True
      have "values_ok Out s" if "sa_is_shutdown s" using that runner_okD(2,3) [OF assms(1)] by blast
      with assms(2) p not_runner True show ?thesis
        by (cases e; cases p) (auto simp: thread_steps runner_phase_def after_use_simps split: if_splits)
    next
      case False
      have "sa_runner (thread_apply e s) = sa_runner s"
        "\<And>u. u \<noteq> thread_of e \<Longrightarrow> sa_threads (thread_apply e s) u = sa_threads s u"
        using assms(2) p not_runner False by (cases e; cases p; auto simp: thread_steps split: if_splits)+
      then have "runner_phase (thread_apply e s) = runner_phase s"
        using r by (auto simp: runner_phase_def split: option.split)
      with other_keeps_values [OF assms] not_runner False p ok show ?thesis by simp
    qed
  qed
qed

lemma standalone_inv_step:
  assumes "standalone_inv s" and "thread_enabled e s"
  shows "standalone_inv (thread_apply e s)"
  using inv_locks [OF assms] inv_calls [OF assms] inv_closed [OF assms] inv_runner [OF assms] inv_values [OF assms]
  by (simp add: standalone_inv_def runner_ok_def runner_phase_def)

lemma standalone_inv_reachable: "standalone_reachable s \<Longrightarrow> standalone_inv s"
  by (induction rule: standalone_reachable.induct) (simp_all only: standalone_inv_init standalone_inv_step)

section \<open>One run at a time, and no call into a server that is gone\<close>

text \<open>
  C31: threads may call \<^verbatim>\<open>serve_forever\<close>, \<^verbatim>\<open>server_close\<close>, \<^verbatim>\<open>shutdown\<close> and \<^verbatim>\<open>is_serving\<close> of a blocking server in any interleaving.  At most one of them runs
  the server; the two locks are never owned by two threads; \<^verbatim>\<open>__is_shutdown\<close> is set exactly when no run is under way,
  and then no portal and no server is left; a thread that calls through the portal owns the bootstrap lock, and the portal and the server it
  uses are those of a run that cannot finish before the call does.
\<close>

theorem standalone_threads_safe:
  assumes "standalone_reachable s"
  shows "(runs (sa_threads s t) \<and> runs (sa_threads s u) \<longrightarrow> t = u)
    \<and> (owns_close (sa_threads s t) \<and> owns_close (sa_threads s u) \<longrightarrow> t = u)
    \<and> (owns_bootstrap (sa_threads s t) \<and> owns_bootstrap (sa_threads s u) \<longrightarrow> t = u)
    \<and> (sa_is_shutdown s \<longleftrightarrow> (\<forall>t. \<not> runs (sa_threads s t)))
    \<and> (sa_is_shutdown s \<longrightarrow> \<not> sa_portal s \<and> \<not> sa_server s)
    \<and> (calling (sa_threads s t) \<longrightarrow>
         sa_bootstrap_lock s = Some t \<and> sa_portal s \<and> sa_server s
         \<and> (\<exists>r. runs (sa_threads s r) \<and> \<not> thread_enabled (BootstrapReturns r) s \<and> \<not> thread_enabled (Reset r) s))"
proof -
  note inv = standalone_inv_reachable [OF assms]
  note locks = locks_okD [OF inv] and runner = runner_okD [OF inv] and calls = calls_countedD(1) [OF inv]
  have calling: "sa_portal s \<and> sa_server s \<and> (\<exists>r. runs (sa_threads s r) \<and> (sa_threads s r = Running \<or> sa_threads s r = PortalClosing))"
    if "calling (sa_threads s t)"
  proof (cases "sa_runner s")
    case None
    with runner(3) calls [OF that] show ?thesis by simp
  next
    case (Some r)
    with runner(4) calls [OF that] have "sa_threads s r = Running \<or> sa_threads s r = PortalClosing"
      by (cases "sa_threads s r") auto
    with runner(1,4) Some show ?thesis by (metis values_ok.simps(1,2))
  qed
  show ?thesis
  proof (intro conjI impI)
    show "t = u" if "runs (sa_threads s t) \<and> runs (sa_threads s u)" using that runner(1) by (metis option.inject)
    show "t = u" if "owns_close (sa_threads s t) \<and> owns_close (sa_threads s u)" using that locks(1) by (metis option.inject)
    show "t = u" if "owns_bootstrap (sa_threads s t) \<and> owns_bootstrap (sa_threads s u)" using that locks(2) by (metis option.inject)
    show "sa_is_shutdown s \<longleftrightarrow> (\<forall>t. \<not> runs (sa_threads s t))" using runner(1,2) by (metis not_None_eq)
    show "\<not> sa_portal s" "\<not> sa_server s" if "sa_is_shutdown s" using runner(2,3) that by simp_all
    show "sa_bootstrap_lock s = Some t" if "calling (sa_threads s t)"
      using that calling_owns [OF inv] by (cases "sa_threads s t") auto
    show "sa_portal s" "sa_server s" if "calling (sa_threads s t)" using calling [OF that] by simp_all
    show "\<exists>r. runs (sa_threads s r) \<and> \<not> thread_enabled (BootstrapReturns r) s \<and> \<not> thread_enabled (Reset r) s"
      if "calling (sa_threads s t)"
    proof -
      from calling [OF that] obtain r where "runs (sa_threads s r)" "sa_threads s r = Running \<or> sa_threads s r = PortalClosing"
        by blast
      with calls [OF that] show ?thesis by (intro exI [of _ r]) auto
    qed
  qed
qed

section \<open>Closing\<close>

lemma standalone_closed_step:
  assumes "standalone_inv s" and "sa_is_closed s" and "thread_enabled e s"
  shows "sa_is_closed (thread_apply e s) \<and> (sa_runner (thread_apply e s) = sa_runner s \<or> sa_runner (thread_apply e s) = None)"
proof -
  obtain p where p: "sa_threads s (thread_of e) = p" by simp
  note phase = closed_okD [OF assms(1,2), of "thread_of e", unfolded p]
  show ?thesis
    using assms(2,3) p phase by (cases e; cases p) (auto simp: thread_steps split: if_splits)
qed

lemma standalone_closed_run:
  assumes "standalone_run es s = Some s'" and "standalone_inv s" and "sa_is_closed s"
  shows "standalone_inv s' \<and> sa_is_closed s' \<and> (sa_runner s' = sa_runner s \<or> sa_runner s' = None)"
  using assms
proof (induction es arbitrary: s)
  case (Cons e es)
  then have e: "thread_enabled e s" and run: "standalone_run es (thread_apply e s) = Some s'" by (simp_all split: if_splits)
  note next_state = standalone_inv_step [OF Cons.prems(2) e] standalone_closed_step [OF Cons.prems(2,3) e]
  from Cons.IH [OF run] next_state show ?case by auto
qed simp

text \<open>
  \<^verbatim>\<open>server_close\<close> of a blocking server is final.  Once it has set its event, whatever the threads do, no run starts any more: only
  the run that was under way can still be, after it the server stays shut down, and a thread that calls \<^verbatim>\<open>serve_forever\<close>
  gets \<^verbatim>\<open>ServerClosedError\<close>, also if it called before and was waiting for the lock.
\<close>

theorem standalone_close_is_final:
  assumes "standalone_reachable s" and "sa_is_closed s" and "standalone_run es s = Some s'"
  shows "sa_is_closed s'
    \<and> (runs (sa_threads s' t) \<longrightarrow> runs (sa_threads s t))
    \<and> (sa_is_shutdown s \<longrightarrow> sa_is_shutdown s' \<and> \<not> sa_server s')
    \<and> (sa_threads s' t = ServeWantClose \<and> thread_enabled (AcquireClose t) s' \<longrightarrow>
         sa_raised (thread_apply (AcquireClose t) s') = sa_raised s' @ [(t, ServerClosedError)])"
proof -
  note inv = standalone_inv_reachable [OF assms(1)]
  from standalone_closed_run [OF assms(3) inv assms(2)] have s': "standalone_inv s'" "sa_is_closed s'"
    and runner: "sa_runner s' = sa_runner s \<or> sa_runner s' = None" by auto
  note r = runner_okD [OF inv] and r' = runner_okD [OF s'(1)]
  show ?thesis
  proof (intro conjI impI)
    show "sa_is_closed s'" by (rule s'(2))
    show "runs (sa_threads s t)" if "runs (sa_threads s' t)" using that r(1) r'(1) runner by auto
    show "sa_is_shutdown s'" if "sa_is_shutdown s" using that r(2) r'(2) runner by auto
    then show "\<not> sa_server s'" if "sa_is_shutdown s" using that r'(2,3) by simp
    show "sa_raised (thread_apply (AcquireClose t) s') = sa_raised s' @ [(t, ServerClosedError)]"
      if "sa_threads s' t = ServeWantClose \<and> thread_enabled (AcquireClose t) s'"
      using that s'(2) by (simp add: thread_steps)
  qed
qed

section \<open>No deadlock\<close>

text \<open>
  Which events happen by themselves: a call does not, nor a time-out, and a run that nobody asked to stop may go on for ever.
\<close>

fun wants_lock :: "thread_phase \<Rightarrow> bool" where
  "wants_lock ServeWantClose = True"
| "wants_lock ServeWantBootstrap = True"
| "wants_lock (WantReset _) = True"
| "wants_lock CloseWantClose = True"
| "wants_lock (UseWant _) = True"
| "wants_lock _ = False"

fun happens_by_itself :: "thread_event \<Rightarrow> standalone \<Rightarrow> bool" where
  "happens_by_itself (CallServeForever _) s = False"
| "happens_by_itself (CallServerClose _) s = False"
| "happens_by_itself (CallShutdown _ _) s = False"
| "happens_by_itself (CallIsServing _) s = False"
| "happens_by_itself (ServeEnds _) s = sa_stop_requested s"
| "happens_by_itself (WaitTimesOut _) s = False"
| "happens_by_itself _ s = True"

definition goes_on :: "standalone \<Rightarrow> bool" where
  "goes_on s \<longleftrightarrow> (\<exists>e. thread_enabled e s \<and> happens_by_itself e s)"

lemma goes_onI: "thread_enabled e s \<Longrightarrow> happens_by_itself e s \<Longrightarrow> goes_on s"
  by (auto simp: goes_on_def)

lemma bootstrap_owner_goes_on:
  assumes inv: "standalone_inv s" and "sa_bootstrap_lock s = Some u"
  shows "goes_on s"
proof -
  have owns: "owns_bootstrap (sa_threads s u)" using locks_okD(2) [OF inv] assms(2) by simp
  show ?thesis
  proof (cases "sa_threads s u")
    case Booting
    then show ?thesis by (intro goes_onI [of "BootSucceeds u"]) simp_all
  next
    case (WantReset held)
    with assms(2) show ?thesis by (intro goes_onI [of "AcquireBootstrap u"]) simp_all
  next
    case (Resetting held)
    then show ?thesis by (intro goes_onI [of "Reset u"]) simp_all
  next
    case (Announcing held)
    then show ?thesis by (intro goes_onI [of "SetShutdown u"]) simp_all
  next
    case (Leaving held)
    then show ?thesis by (intro goes_onI [of "ReleaseLocks u"]) simp_all
  next
    case (UseHeld c)
    then show ?thesis by (intro goes_onI [of "CallPortal u"]) simp_all
  next
    case calling: (UseCalling c)
    show ?thesis
    proof (cases "c = ForShutdown False \<and> sa_loop s")
      case False
      with calling show ?thesis by (intro goes_onI [of "CallEnds u"]) simp_all
    next
      case True
      with calling have "sa_stop_requested s" using calls_countedD(5) [OF inv] by simp
      moreover obtain r where "sa_runner s = Some r" using True runner_okD(3) [OF inv] by (cases "sa_runner s") auto
      with runner_okD(4) [OF inv this] True have "sa_threads s r = Running" by (cases "sa_threads s r") auto
      ultimately show ?thesis by (intro goes_onI [of "ServeEnds r"]) simp_all
    qed
  qed (use owns in simp_all)
qed

text \<open>
  C32: the locks of a blocking server do not deadlock.  Whenever a thread waits for one of them, some thread can take a step
  that does not depend on a new call, on a time-out, or on a run ending that was not asked to: in particular a \<^verbatim>\<open>shutdown\<close> that owns
  the bootstrap lock while it waits for the end of the run, which needs the same lock to end, does not block it.
\<close>

theorem standalone_locks_live:
  assumes "standalone_reachable s" and "wants_lock (sa_threads s t)"
  shows "goes_on s"
proof (cases "sa_bootstrap_lock s")
  case (Some u)
  with bootstrap_owner_goes_on [OF standalone_inv_reachable [OF assms(1)]] show ?thesis .
next
  case bootstrap: None
  note locks = locks_okD [OF standalone_inv_reachable [OF assms(1)]]
  show ?thesis
  proof (cases "sa_close_lock s")
    case None
    with bootstrap assms(2) show ?thesis
      by (cases "sa_threads s t") (auto intro: goes_onI [of "AcquireClose t"] goes_onI [of "AcquireBootstrap t"])
  next
    case (Some u)
    then have "owns_close (sa_threads s u)" "\<not> owns_bootstrap (sa_threads s u)" using locks bootstrap by simp_all
    with bootstrap show ?thesis
      by (cases "sa_threads s u") (auto intro: goes_onI [of "AcquireBootstrap u"] goes_onI [of "SetClosed u"])
  qed
qed

section \<open>What \<^verbatim>\<open>shutdown\<close> does not promise\<close>

text \<open>A thread that waits for a run, and one that waits for the bootstrap lock, while the run and the owner of the lock stay.\<close>

lemma waiting_step:
  assumes "standalone_inv s" and "sa_threads s t = ShutdownWaiting False" and "sa_threads s u = Running"
    and "thread_enabled e s" and "e \<noteq> ServeEnds u"
  shows "sa_threads (thread_apply e s) t = ShutdownWaiting False \<and> sa_threads (thread_apply e s) u = Running"
proof -
  have r: "sa_runner s = Some u" using runner_okD(1) [OF assms(1), of u] assms(3) by simp
  obtain p where p: "sa_threads s (thread_of e) = p" by simp
  note phase = runner_okD(1) [OF assms(1), of "thread_of e", unfolded p r] runner_okD(2) [OF assms(1), unfolded r]
  show ?thesis
    using assms(2-5) p phase by (cases e; cases p) (auto simp: thread_steps split: if_splits)
qed

lemma waiting_run:
  assumes "standalone_run es s = Some s'" and "standalone_inv s" and "sa_threads s t = ShutdownWaiting False"
    and "sa_threads s u = Running" and "ServeEnds u \<notin> set es"
  shows "sa_threads s' t = ShutdownWaiting False"
  using assms
proof (induction es arbitrary: s)
  case (Cons e es)
  then have e: "thread_enabled e s" "e \<noteq> ServeEnds u" and run: "standalone_run es (thread_apply e s) = Some s'"
    by (auto split: if_splits)
  from waiting_step [OF Cons.prems(2,3,4) e] Cons.IH [OF run standalone_inv_step [OF Cons.prems(2) e(1)]] Cons.prems(5)
  show ?case by simp
qed simp

lemma locked_out_step:
  assumes "standalone_inv s" and "sa_threads s t = UseWant c" and "sa_threads s u = UseCalling c'"
    and "thread_enabled e s" and "e \<noteq> CallEnds u"
  shows "sa_threads (thread_apply e s) t = UseWant c \<and> sa_threads (thread_apply e s) u = UseCalling c'"
proof -
  have b: "sa_bootstrap_lock s = Some u" by (rule calling_owns [OF assms(1,3)])
  obtain p where p: "sa_threads s (thread_of e) = p" by simp
  note phase = locks_okD(2) [OF assms(1), of "thread_of e", unfolded p b]
  show ?thesis
    using assms(2-5) p phase b by (cases e; cases p) (auto simp: thread_steps split: if_splits)
qed

lemma locked_out_run:
  assumes "standalone_run es s = Some s'" and "standalone_inv s" and "sa_threads s t = UseWant c"
    and "sa_threads s u = UseCalling c'" and "CallEnds u \<notin> set es"
  shows "sa_threads s' t = UseWant c"
  using assms
proof (induction es arbitrary: s)
  case (Cons e es)
  then have e: "thread_enabled e s" "e \<noteq> CallEnds u" and run: "standalone_run es (thread_apply e s) = Some s'"
    by (auto split: if_splits)
  from locked_out_step [OF Cons.prems(2,3,4) e] Cons.IH [OF run standalone_inv_step [OF Cons.prems(2) e(1)]] Cons.prems(5)
  show ?case by simp
qed simp

text \<open>
  The first: thread 1 calls \<^verbatim>\<open>shutdown\<close> on a server that does not run, and before it waits for the event thread 2 starts
  the server.  The second: thread 1 waits in \<^verbatim>\<open>shutdown\<close> for the end of the run, and thread 3 calls it with a time limit.
\<close>

definition missed_shutdown :: "thread_event list" where
  "missed_shutdown =
     [CallShutdown 1 False, AcquireBootstrap 1, CallPortal 1,
      CallServeForever 2, AcquireClose 2, AcquireBootstrap 2, BootSucceeds 2]"

definition locked_shutdown :: "thread_event list" where
  "locked_shutdown =
     [CallServeForever 2, AcquireClose 2, AcquireBootstrap 2, BootSucceeds 2,
      CallShutdown 1 False, AcquireBootstrap 1, CallPortal 1, CallShutdown 3 True]"

text \<open>
  \<^verbatim>\<open>shutdown\<close> can wait for a run it never asked to stop: it finds no run, and one starts before it waits for the event.
  Then it returns only when that run ends for another reason.
\<close>

theorem shutdown_waits_for_unasked_run:
  "\<exists>s. standalone_run missed_shutdown standalone_init = Some s \<and> \<not> sa_stop_requested s \<and> sa_threads s 2 = Running \<and>
     (\<forall>es. ServeEnds 2 \<in> set es \<or> pred_option (\<lambda>s'. sa_threads s' 1 = ShutdownWaiting False) (standalone_run es s))"
proof -
  have "map_option (\<lambda>s. (sa_stop_requested s, sa_threads s 2, sa_threads s 1)) (standalone_run missed_shutdown standalone_init)
      = Some (False, Running, ShutdownWaiting False)"
    by code_simp
  then obtain s where s: "standalone_run missed_shutdown standalone_init = Some s" "\<not> sa_stop_requested s"
    "sa_threads s 2 = Running" "sa_threads s 1 = ShutdownWaiting False" by auto
  note inv = standalone_inv_reachable [OF standalone_run_reachable [OF standalone_start s(1)]]
  from waiting_run [OF _ inv s(4,3)] s(1-3) show ?thesis by (auto simp: option.pred_set)
qed

text \<open>
  The time limit of \<^verbatim>\<open>shutdown\<close> does not cover the bootstrap lock, which another \<^verbatim>\<open>shutdown\<close> keeps until the run has ended; so do
  \<^verbatim>\<open>is_serving\<close> and \<^verbatim>\<open>server_close\<close> wait for it.
\<close>

theorem shutdown_time_limit_not_kept:
  "\<exists>s. standalone_run locked_shutdown standalone_init = Some s \<and>
     (\<forall>es. CallEnds 1 \<in> set es \<or> pred_option (\<lambda>s'. sa_threads s' 3 = UseWant (ForShutdown True)) (standalone_run es s))"
proof -
  have "map_option (\<lambda>s. (sa_threads s 3, sa_threads s 1)) (standalone_run locked_shutdown standalone_init)
      = Some (UseWant (ForShutdown True), UseCalling (ForShutdown False))"
    by code_simp
  then obtain s where s: "standalone_run locked_shutdown standalone_init = Some s"
    "sa_threads s 3 = UseWant (ForShutdown True)" "sa_threads s 1 = UseCalling (ForShutdown False)" by auto
  note inv = standalone_inv_reachable [OF standalone_run_reachable [OF standalone_start s(1)]]
  from locked_out_run [OF _ inv s(2,3)] s(1) show ?thesis by (auto simp: option.pred_set)
qed

section \<open>Witnesses\<close>

lemma standalone_run_Some:
  "map_option f (standalone_run es standalone_init) = Some x \<Longrightarrow>
   \<exists>s. standalone_run es standalone_init = Some s \<and> standalone_reachable s \<and> f s = x"
  using standalone_run_reachable [OF standalone_start] by auto

theorem standalone_threads_safe_witness:
  "\<exists>s. standalone_run locked_shutdown standalone_init = Some s \<and> sa_threads s 1 = UseCalling (ForShutdown False)
     \<and> sa_bootstrap_lock s = Some 1 \<and> sa_portal s"
proof -
  have "map_option (\<lambda>s. sa_threads s 1) (standalone_run locked_shutdown standalone_init) = Some (UseCalling (ForShutdown False))"
    by code_simp
  from standalone_run_Some [OF this] obtain s where s: "standalone_run locked_shutdown standalone_init = Some s"
    "standalone_reachable s" "sa_threads s 1 = UseCalling (ForShutdown False)" by blast
  from standalone_threads_safe [OF s(2), of 1 1] s show ?thesis by auto
qed

definition closing_while_served :: "thread_event list" where
  "closing_while_served =
     [CallServeForever 2, AcquireClose 2, AcquireBootstrap 2, BootSucceeds 2, CallServeForever 4,
      CallServerClose 1, AcquireClose 1, AcquireBootstrap 1, CallPortal 1, CallEnds 1, SetClosed 1]"

theorem standalone_close_is_final_witness:
  "\<exists>s s'. standalone_run closing_while_served standalone_init = Some s \<and> standalone_run [ServeEnds 2] s = Some s'
     \<and> sa_raised (thread_apply (AcquireClose 4) s') = [(4, ServerClosedError)]"
proof -
  have "map_option sa_is_closed (standalone_run closing_while_served standalone_init) = Some True"
    by code_simp
  from standalone_run_Some [OF this] obtain s where s: "standalone_run closing_while_served standalone_init = Some s"
    "standalone_reachable s" "sa_is_closed s" by auto
  have "map_option (\<lambda>s. (sa_threads s 4, thread_enabled (AcquireClose 4) s, sa_raised s))
      (Option.bind (standalone_run closing_while_served standalone_init) (standalone_run [ServeEnds 2]))
      = Some (ServeWantClose, True, [])"
    by code_simp
  with s(1) obtain s' where s': "standalone_run [ServeEnds 2] s = Some s'" "sa_threads s' 4 = ServeWantClose"
    "thread_enabled (AcquireClose 4) s'" "sa_raised s' = []" by auto
  from standalone_close_is_final [OF s(2,3) s'(1), of 4] s s' show ?thesis by auto
qed

theorem standalone_locks_live_witness:
  "\<exists>s. standalone_run locked_shutdown standalone_init = Some s \<and> wants_lock (sa_threads s 3) \<and> goes_on s"
proof -
  have "map_option (\<lambda>s. wants_lock (sa_threads s 3)) (standalone_run locked_shutdown standalone_init) = Some True"
    by code_simp
  from standalone_run_Some [OF this] obtain s where s: "standalone_run locked_shutdown standalone_init = Some s"
    "standalone_reachable s" "wants_lock (sa_threads s 3)" by auto
  from standalone_locks_live [OF s(2,3)] s show ?thesis by auto
qed

end
