(* ===== verification/Connecting.thy ===== *)
theory Connecting
  imports ClientErrors
begin

text \<open>
  How connections and listeners get their sockets: \<^verbatim>\<open>src/src/easynetwork/lowlevel/api_async/backend/_common/dns_resolver.py\<close>
  (\<^verbatim>\<open>BaseAsyncDNSResolver\<close>, the order of the addresses, the race of connection attempts) and
  \<^verbatim>\<open>open_listener_sockets_from_getaddrinfo_result\<close> of \<^verbatim>\<open>lowlevel/_utils.py\<close>.
\<close>

section \<open>Sockets\<close>

text \<open>
  An address as \<^verbatim>\<open>getaddrinfo\<close> gives it, less the constants; a socket is the number of its creation.  The histories of the
  sockets created and closed are kept beside the rest of the world, on which the system calls act.
\<close>

datatype family = AF_INET | AF_INET6 | OtherFamily nat

record 'a addrinfo =
  ai_family :: family
  ai_addr :: 'a

record 'w sockets =
  sk_opened :: nat
  sk_closed :: "nat list"
  sk_world :: 'w

record ('a, 'w) socket_calls =
  sys_socket :: "family \<Rightarrow> 'w \<Rightarrow> exc option \<times> 'w"
  sys_bind :: "nat \<Rightarrow> 'a \<Rightarrow> 'w \<Rightarrow> exc option \<times> 'w"
  sys_connect :: "nat \<Rightarrow> 'a \<Rightarrow> 'w \<Rightarrow> exc option \<times> 'w"

definition open_socket :: "('a, 'w) socket_calls \<Rightarrow> family \<Rightarrow> 'w sockets \<Rightarrow> (exc + nat) \<times> 'w sockets" where
  "open_socket O' family w =
     (case sys_socket O' family (sk_world w) of
        (Some e, w') \<Rightarrow> (Inl e, w\<lparr>sk_world := w'\<rparr>)
      | (None, w') \<Rightarrow> (Inr (sk_opened w), w\<lparr>sk_opened := sk_opened w + 1, sk_world := w'\<rparr>))"

definition close_socket :: "nat \<Rightarrow> 'w sockets \<Rightarrow> 'w sockets" where
  "close_socket s w = w\<lparr>sk_closed := sk_closed w @ [s]\<rparr>"

definition on_world :: "('w \<Rightarrow> exc option \<times> 'w) \<Rightarrow> 'w sockets \<Rightarrow> exc option \<times> 'w sockets" where
  "on_world f w = (case f (sk_world w) of (r, w') \<Rightarrow> (r, w\<lparr>sk_world := w'\<rparr>))"

text \<open>\<^verbatim>\<open>convert_socket_bind_error\<close>: the errno is kept, \<^verbatim>\<open>EINVAL\<close> if there is none (here, the empty name).\<close>

fun convert_socket_bind_error :: "exc \<Rightarrow> exc" where
  "convert_socket_bind_error (OSError errno msg) =
     (if errno \<noteq> [] then OSError errno (''error while attempting to bind on address: '' @ msg)
      else OSError ''EINVAL'' (''error while attempting to bind on address: '' @ msg))"
| "convert_socket_bind_error e = OSError ''EINVAL'' ''error while attempting to bind on address''"

section \<open>One connection\<close>

text \<open>
  The loop over the local addresses: bound, all attempts failed, or an exception that is no \<^verbatim>\<open>OSError\<close>.  Addresses of another family
  are skipped.
\<close>

datatype bind_result = Bound | BindFailed "exc list" | BindRaised exc

fun bind_local ::
  "('a, 'w) socket_calls \<Rightarrow> nat \<Rightarrow> family \<Rightarrow> 'a addrinfo list \<Rightarrow> exc list \<Rightarrow> 'w sockets \<Rightarrow> bind_result \<times> 'w sockets"
where
  "bind_local O' s family [] bind_errors w = (BindFailed bind_errors, w)"
| "bind_local O' s family (l # locals) bind_errors w =
     (if ai_family l \<noteq> family then bind_local O' s family locals bind_errors w
      else (case on_world (sys_bind O' s (ai_addr l)) w of
              (None, w1) \<Rightarrow> (Bound, w1)
            | (Some e, w1) \<Rightarrow>
                if is_OSError e then bind_local O' s family locals (bind_errors @ [convert_socket_bind_error e]) w1
                else (BindRaised e, w1)))"

text \<open>
  One turn of \<^verbatim>\<open>_create_connection_impl\<close>: the socket, the errors to go on with, or an exception that leaves.  \<open>locals\<close> is \<open>None\<close>
  without a local address.
\<close>

datatype attempt_result = Connected nat | Failed "exc list" | Raised exc

definition connect_bound :: "('a, 'w) socket_calls \<Rightarrow> nat \<Rightarrow> 'a \<Rightarrow> 'w sockets \<Rightarrow> attempt_result \<times> 'w sockets" where
  "connect_bound O' s address w =
     (case on_world (sys_connect O' s address) w of
        (None, w1) \<Rightarrow> (Connected s, w1)
      | (Some e, w1) \<Rightarrow> (if is_OSError e then Failed [e] else Raised e, close_socket s w1))"

definition no_matching_local_address :: exc where
  "no_matching_local_address = OSError [] ''no matching local address found''"

definition attempt_connection ::
  "('a, 'w) socket_calls \<Rightarrow> 'a addrinfo list option \<Rightarrow> 'a addrinfo \<Rightarrow> 'w sockets \<Rightarrow> attempt_result \<times> 'w sockets"
where
  "attempt_connection O' locals r w =
     (case open_socket O' (ai_family r) w of
        (Inl e, w1) \<Rightarrow> (if is_OSError e then Failed [e] else Raised e, w1)
      | (Inr s, w1) \<Rightarrow>
          (case locals of
             None \<Rightarrow> connect_bound O' s (ai_addr r) w1
           | Some ls \<Rightarrow>
               (case bind_local O' s (ai_family r) ls [] w1 of
                  (Bound, w2) \<Rightarrow> connect_bound O' s (ai_addr r) w2
                | (BindFailed errs, w2) \<Rightarrow>
                    (Failed (if errs \<noteq> [] then errs else [no_matching_local_address]), close_socket s w2)
                | (BindRaised e, w2) \<Rightarrow> (Raised e, close_socket s w2))))"

fun create_connection_loop ::
  "('a, 'w) socket_calls \<Rightarrow> 'a addrinfo list option \<Rightarrow> 'a addrinfo list \<Rightarrow> exc list \<Rightarrow> 'w sockets
     \<Rightarrow> (exc_group + nat) \<times> 'w sockets"
where
  "create_connection_loop O' locals [] errors w =
     (if errors = [] then (Inl (Single (AssertionError '''')), w) else (Inl (Group (map Single errors)), w))"
| "create_connection_loop O' locals (r # rs) errors w =
     (case attempt_connection O' locals r w of
        (Connected s, w1) \<Rightarrow> (Inr s, w1)
      | (Failed errs, w1) \<Rightarrow> create_connection_loop O' locals rs (errors @ errs) w1
      | (Raised e, w1) \<Rightarrow> (Inl (Single e), w1))"

definition create_connection_impl ::
  "('a, 'w) socket_calls \<Rightarrow> 'a addrinfo list option \<Rightarrow> 'a addrinfo list \<Rightarrow> 'w sockets \<Rightarrow> (exc_group + nat) \<times> 'w sockets"
where
  "create_connection_impl O' locals remote w = create_connection_loop O' locals remote [] w"

section \<open>Listener sockets\<close>

text \<open>
  \<open>prepare\<close>: the options set before \<^verbatim>\<open>bind\<close>, whose errors leave; \<open>on_bind_success\<close>: what the caller does with a bound socket.
\<close>

datatype listen_result = Listening | ListenFailed exc | ListenRaised exc

definition prepare_listener ::
  "('a, 'w) socket_calls \<Rightarrow> (nat \<Rightarrow> 'w \<Rightarrow> exc option \<times> 'w) \<Rightarrow> (nat \<Rightarrow> 'w \<Rightarrow> exc option \<times> 'w) \<Rightarrow> nat \<Rightarrow> 'a
     \<Rightarrow> 'w sockets \<Rightarrow> listen_result \<times> 'w sockets"
where
  "prepare_listener O' prepare on_bind_success s address w =
     (case on_world (prepare s) w of
        (Some e, w1) \<Rightarrow> (ListenRaised e, w1)
      | (None, w1) \<Rightarrow>
          (case on_world (sys_bind O' s address) w1 of
             (Some e, w2) \<Rightarrow> (if is_OSError e then ListenFailed (convert_socket_bind_error e) else ListenRaised e, w2)
           | (None, w2) \<Rightarrow>
               (case on_world (on_bind_success s) w2 of
                  (Some e, w3) \<Rightarrow> (if is_OSError e then ListenFailed e else ListenRaised e, w3)
                | (None, w3) \<Rightarrow> (Listening, w3))))"

text \<open>The exit stack closes the sockets, the last one first, unless there were no errors.\<close>

definition close_sockets :: "nat list \<Rightarrow> 'w sockets \<Rightarrow> 'w sockets" where
  "close_sockets ss w = foldl (\<lambda>w s. close_socket s w) w (rev ss)"

fun open_listener_sockets_loop ::
  "('a, 'w) socket_calls \<Rightarrow> (nat \<Rightarrow> 'w \<Rightarrow> exc option \<times> 'w) \<Rightarrow> (nat \<Rightarrow> 'w \<Rightarrow> exc option \<times> 'w) \<Rightarrow> 'a addrinfo list
     \<Rightarrow> nat list \<Rightarrow> exc list \<Rightarrow> 'w sockets \<Rightarrow> (exc_group + nat list) \<times> 'w sockets"
where
  "open_listener_sockets_loop O' prepare on_bind_success [] sockets errors w =
     (if errors \<noteq> [] then (Inl (Group (map Single errors)), close_sockets sockets w) else (Inr sockets, w))"
| "open_listener_sockets_loop O' prepare on_bind_success (a # infos) sockets errors w =
     (case open_socket O' (ai_family a) w of
        (Inl e, w1) \<Rightarrow>
          if is_OSError e then open_listener_sockets_loop O' prepare on_bind_success infos sockets errors w1
          else (Inl (Single e), close_sockets sockets w1)
      | (Inr s, w1) \<Rightarrow>
          (case prepare_listener O' prepare on_bind_success s (ai_addr a) w1 of
             (Listening, w2) \<Rightarrow>
               open_listener_sockets_loop O' prepare on_bind_success infos (sockets @ [s]) errors w2
           | (ListenFailed e, w2) \<Rightarrow>
               open_listener_sockets_loop O' prepare on_bind_success infos (sockets @ [s]) (errors @ [e]) w2
           | (ListenRaised e, w2) \<Rightarrow> (Inl (Single e), close_sockets (sockets @ [s]) w2)))"

definition open_listener_sockets where
  "open_listener_sockets O' prepare on_bind_success infos w =
     open_listener_sockets_loop O' prepare on_bind_success infos [] [] w"

section \<open>Resolving\<close>

text \<open>
  \<^verbatim>\<open>ensure_resolved\<close>: a numeric address needs no lookup; \<open>numeric\<close> is what \<^verbatim>\<open>socket.getaddrinfo\<close> gives with the numeric flags.
\<close>

definition not_numeric :: exc where
  "not_numeric = OSError ''EAI_NONAME'' ''''"

definition ensure_resolved :: "exc + 'i list \<Rightarrow> ('w \<Rightarrow> (exc + 'i list) \<times> 'w) \<Rightarrow> 'w \<Rightarrow> (exc + 'i list) \<times> 'w" where
  "ensure_resolved numeric lookup w =
     (case (case numeric of Inl e \<Rightarrow> if e = not_numeric then lookup w else (Inl e, w) | Inr info \<Rightarrow> (Inr info, w)) of
        (Inl e, w') \<Rightarrow> (Inl e, w')
      | (Inr info, w') \<Rightarrow> (if info = [] then Inl (OSError [] ''getaddrinfo returned empty list'') else Inr info, w'))"

lemma ensure_resolved_nonempty: "ensure_resolved numeric lookup w = (Inr info, w') \<Longrightarrow> info \<noteq> []"
  by (auto simp: ensure_resolved_def split: prod.splits sum.splits if_splits)

section \<open>The order of the addresses\<close>

fun prioritize_loop :: "'a addrinfo list \<Rightarrow> bool \<Rightarrow> bool \<Rightarrow> 'a addrinfo list \<Rightarrow> 'a addrinfo list" where
  "prioritize_loop [] v6_found v4_found reordered = reordered"
| "prioritize_loop (a # as) v6_found v4_found reordered =
     (if ai_family a = AF_INET6 \<and> \<not> v6_found then prioritize_loop as True v4_found (a # reordered)
      else if ai_family a = AF_INET \<and> \<not> v4_found \<and> v6_found
      then prioritize_loop as v6_found True (take 1 reordered @ a # drop 1 reordered)
      else prioritize_loop as v6_found v4_found (reordered @ [a]))"

definition prioritize_ipv6_over_ipv4 :: "'a addrinfo list \<Rightarrow> 'a addrinfo list" where
  "prioritize_ipv6_over_ipv4 addrinfos = prioritize_loop addrinfos False False []"

text \<open>The ordered dictionary of the lists per family, and \<^verbatim>\<open>zip_longest\<close>, chained.\<close>

fun add_to_family :: "'a addrinfo \<Rightarrow> (family \<times> 'a addrinfo list) list \<Rightarrow> (family \<times> 'a addrinfo list) list" where
  "add_to_family a [] = [(ai_family a, [a])]"
| "add_to_family a ((f, as) # fs) = (if f = ai_family a then (f, as @ [a]) # fs else (f, as) # add_to_family a fs)"

definition addrinfos_by_family :: "'a addrinfo list \<Rightarrow> (family \<times> 'a addrinfo list) list" where
  "addrinfos_by_family addrinfos = foldl (\<lambda>fs a. add_to_family a fs) [] addrinfos"

function zip_chain :: "'b list list \<Rightarrow> 'b list" where
  "zip_chain xss =
     (let yss = filter (\<lambda>xs. xs \<noteq> []) xss in if yss = [] then [] else map hd yss @ zip_chain (map tl yss))"
  by pat_completeness auto

lemma filter_tl_smaller:
  "filter (\<lambda>xs. xs \<noteq> []) xss \<noteq> [] \<Longrightarrow> sum_list (map length (map tl (filter (\<lambda>xs. xs \<noteq> []) xss))) < sum_list (map length xss)"
proof (induction xss)
  case (Cons xs xss)
  show ?case
  proof (cases "filter (\<lambda>xs. xs \<noteq> []) xss = []")
    case True
    with Cons.prems show ?thesis by (cases xs) auto
  next
    case False
    from Cons.IH [OF this] show ?thesis by (cases xs) auto
  qed
qed simp

termination zip_chain
  by (relation "measure (\<lambda>xss. sum_list (map length xss))") (use filter_tl_smaller in auto)

declare zip_chain.simps [simp del]

definition interleave_addrinfos :: "'a addrinfo list \<Rightarrow> 'a addrinfo list" where
  "interleave_addrinfos addrinfos = zip_chain (map snd (addrinfos_by_family addrinfos))"

definition happy_eyeballs_order :: "'a addrinfo list \<Rightarrow> 'a addrinfo list" where
  "happy_eyeballs_order addrinfos = interleave_addrinfos (prioritize_ipv6_over_ipv4 addrinfos)"

section \<open>No socket leaks\<close>

lemma on_world_frame: "on_world f w = (r, w') \<Longrightarrow> sk_opened w' = sk_opened w \<and> sk_closed w' = sk_closed w"
  by (auto simp: on_world_def split: prod.splits)

lemma open_socket_frame:
  "open_socket O' f w = (r, w') \<Longrightarrow>
   (case r of Inl _ \<Rightarrow> sk_opened w' = sk_opened w | Inr s \<Rightarrow> s = sk_opened w \<and> sk_opened w' = Suc s) \<and> sk_closed w' = sk_closed w"
  by (auto simp: open_socket_def split: prod.splits option.splits)

lemma bind_local_frame: "bind_local O' s f ls errs w = (r, w') \<Longrightarrow> sk_opened w' = sk_opened w \<and> sk_closed w' = sk_closed w"
  by (induction O' s f ls errs w rule: bind_local.induct) (auto split: if_splits prod.splits option.splits dest: on_world_frame)

lemma close_socket_frame [simp]:
  "sk_opened (close_socket s w) = sk_opened w" "sk_closed (close_socket s w) = sk_closed w @ [s]"
  by (simp_all add: close_socket_def)

lemma connect_bound_frame:
  assumes "connect_bound O' s a w = (r, w')"
  shows "sk_opened w' = sk_opened w \<and> (case r of Connected s' \<Rightarrow> s' = s \<and> sk_closed w' = sk_closed w
    | Failed errs \<Rightarrow> errs \<noteq> [] \<and> sk_closed w' = sk_closed w @ [s] | Raised e \<Rightarrow> sk_closed w' = sk_closed w @ [s])"
  using assms by (auto simp: connect_bound_def split: prod.splits option.splits if_splits dest: on_world_frame)

lemma attempt_connection_frame:
  assumes "attempt_connection O' ls a w = (r, w')"
  shows "(case r of
      Connected s \<Rightarrow> s = sk_opened w \<and> sk_opened w' = Suc s \<and> sk_closed w' = sk_closed w
    | Failed errs \<Rightarrow> errs \<noteq> [] \<and> sk_opened w \<le> sk_opened w' \<and> sk_closed w' = sk_closed w @ [sk_opened w..<sk_opened w']
    | Raised e \<Rightarrow> sk_opened w \<le> sk_opened w' \<and> sk_closed w' = sk_closed w @ [sk_opened w..<sk_opened w'])"
proof -
  obtain x w1 where 1: "open_socket O' (ai_family a) w = (x, w1)" by fastforce
  note f1 = open_socket_frame [OF 1]
  show ?thesis
  proof (cases x)
    case (Inl e)
    with 1 f1 assms show ?thesis by (auto simp: attempt_connection_def)
  next
    case (Inr s)
    show ?thesis
    proof (cases ls)
      case None
      with 1 Inr f1 assms connect_bound_frame [of O' s "ai_addr a" w1 r w'] show ?thesis
        by (auto simp: attempt_connection_def split: attempt_result.splits if_splits)
    next
      case (Some l)
      obtain b w2 where 2: "bind_local O' s (ai_family a) l [] w1 = (b, w2)" by fastforce
      with 1 Inr Some f1 assms bind_local_frame [OF 2] connect_bound_frame [of O' s "ai_addr a" w2 r w'] show ?thesis
        by (cases b) (auto simp: attempt_connection_def split: attempt_result.splits if_splits)
    qed
  qed
qed

lemma create_connection_loop_accounts:
  assumes "create_connection_loop O' ls rs errors w = (r, w')"
  shows "(case r of
      Inr s \<Rightarrow> sk_opened w \<le> s \<and> sk_opened w' = Suc s \<and> sk_closed w' = sk_closed w @ [sk_opened w..<s]
    | Inl g \<Rightarrow> sk_opened w \<le> sk_opened w' \<and> sk_closed w' = sk_closed w @ [sk_opened w..<sk_opened w'])"
  using assms
proof (induction O' ls rs errors w rule: create_connection_loop.induct)
  case (1 O' ls errors w)
  then show ?case by (auto split: if_splits)
next
  case (2 O' ls a rs errors w)
  obtain x w1 where 1: "attempt_connection O' ls a w = (x, w1)" by fastforce
  note f = attempt_connection_frame [OF 1]
  show ?case
  proof (cases x)
    case (Connected s)
    with 1 f "2.prems" show ?thesis by auto
  next
    case (Raised e)
    with 1 f "2.prems" show ?thesis by auto
  next
    case (Failed errs)
    with 1 "2.prems" have rest: "create_connection_loop O' ls rs (errors @ errs) w1 = (r, w')" by simp
    have split: "[sk_opened w..<k] = [sk_opened w..<sk_opened w1] @ [sk_opened w1..<k]" if "sk_opened w1 \<le> k" for k
      using f Failed that upt_add_eq_append [of "sk_opened w" "sk_opened w1" "k - sk_opened w1"] by simp
    have closed: "sk_opened w \<le> sk_opened w1" "sk_closed w1 = sk_closed w @ [sk_opened w..<sk_opened w1]"
      using f Failed by auto
    note IH = "2.IH" [OF 1 [symmetric] Failed rest]
    show ?thesis
    proof (cases r)
      case (Inl g)
      with IH have "sk_opened w1 \<le> sk_opened w'" "sk_closed w' = sk_closed w1 @ [sk_opened w1..<sk_opened w']" by simp_all
      with closed split [of "sk_opened w'"] Inl show ?thesis by (simp del: upt_Suc)
    next
      case (Inr s)
      with IH have "sk_opened w1 \<le> s" "sk_opened w' = Suc s" "sk_closed w' = sk_closed w1 @ [sk_opened w1..<s]" by simp_all
      with closed split [of s] Inr show ?thesis by (simp del: upt_Suc)
    qed
  qed
qed

lemma create_connection_loop_errors:
  assumes "create_connection_loop O' ls rs errors w = (Inl g, w')"
  shows "(\<exists>e. g = Single e) \<or> length errors + length rs \<le> length (iterate_exceptions g)"
  using assms
proof (induction O' ls rs errors w rule: create_connection_loop.induct)
  case (1 O' ls errors w)
  have "concat (map iterate_exceptions (map Single errors)) = errors" by (induction errors) simp_all
  with 1 show ?case by (auto split: if_splits)
next
  case (2 O' ls a rs errors w)
  obtain x w1 where 1: "attempt_connection O' ls a w = (x, w1)" by fastforce
  note f = attempt_connection_frame [OF 1]
  show ?case
  proof (cases x)
    case (Failed errs)
    with 1 "2.prems" have "create_connection_loop O' ls rs (errors @ errs) w1 = (Inl g, w')" by simp
    from "2.IH" [OF 1 [symmetric] Failed this] f Failed show ?thesis by (cases errs) auto
  qed (use 1 "2.prems" in auto)
qed

lemma prepare_listener_frame:
  "prepare_listener O' prepare ready s a w = (r, w') \<Longrightarrow> sk_opened w' = sk_opened w \<and> sk_closed w' = sk_closed w"
  by (auto simp: prepare_listener_def split: prod.splits option.splits dest!: on_world_frame)

lemma foldl_close_socket:
  "sk_opened (foldl (\<lambda>w s. close_socket s w) w xs) = sk_opened w"
  "sk_closed (foldl (\<lambda>w s. close_socket s w) w xs) = sk_closed w @ xs"
  by (induction xs arbitrary: w) simp_all

lemma close_sockets_frame [simp]:
  "sk_opened (close_sockets ss w) = sk_opened w" "sk_closed (close_sockets ss w) = sk_closed w @ rev ss"
  by (simp_all add: close_sockets_def foldl_close_socket)

lemma open_listener_sockets_accounts:
  assumes "open_listener_sockets_loop O' prepare ready infos ss errors w = (r, w')" and "ss = [k..<sk_opened w]" and "k \<le> sk_opened w"
  shows "k \<le> sk_opened w' \<and> (case r of
      Inr ss' \<Rightarrow> ss' = [k..<sk_opened w'] \<and> sk_closed w' = sk_closed w \<and> errors = []
    | Inl g \<Rightarrow> sk_closed w' = sk_closed w @ rev [k..<sk_opened w'])"
  using assms
proof (induction infos arbitrary: ss errors w)
  case Nil
  then show ?case by (auto split: if_splits)
next
  case (Cons a infos)
  obtain x w1 where 1: "open_socket O' (ai_family a) w = (x, w1)" by fastforce
  note f1 = open_socket_frame [OF 1]
  show ?case
  proof (cases x)
    case (Inl e)
    show ?thesis
    proof (cases "is_OSError e")
      case True
      with 1 Inl Cons.prems(1) have "open_listener_sockets_loop O' prepare ready infos ss errors w1 = (r, w')" by simp
      from Cons.IH [OF this] Cons.prems(2,3) f1 Inl show ?thesis by (cases r) simp_all
    next
      case False
      with 1 Inl Cons.prems f1 show ?thesis by auto
    qed
  next
    case (Inr s)
    obtain y w2 where 2: "prepare_listener O' prepare ready s (ai_addr a) w1 = (y, w2)" by fastforce
    note f2 = prepare_listener_frame [OF 2]
    have ss: "ss @ [s] = [k..<sk_opened w2]" "k \<le> sk_opened w2" using f1 f2 Inr Cons.prems(2,3) by simp_all
    show ?thesis
    proof (cases y)
      case (ListenRaised e)
      with 1 2 Inr Cons.prems(1) have "w' = close_sockets (ss @ [s]) w2" "r = Inl (Single e)" by simp_all
      with ss f1 f2 Inr show ?thesis by simp
    next
      case Listening
      with 1 2 Inr Cons.prems(1) have "open_listener_sockets_loop O' prepare ready infos (ss @ [s]) errors w2 = (r, w')" by simp
      from Cons.IH [OF this ss] f1 f2 Inr show ?thesis by (cases r) simp_all
    next
      case (ListenFailed e)
      with 1 2 Inr Cons.prems(1) have "open_listener_sockets_loop O' prepare ready infos (ss @ [s]) (errors @ [e]) w2 = (r, w')" by simp
      from Cons.IH [OF this ss] f1 f2 Inr show ?thesis by (cases r) simp_all
    qed
  qed
qed


section \<open>Nothing but the order changes\<close>

fun alternate :: "'b list \<Rightarrow> 'b list \<Rightarrow> 'b list" where
  "alternate (x # xs) (y # ys) = x # y # alternate xs ys"
| "alternate xs [] = xs"
| "alternate [] ys = ys"

lemma zip_chain_singleton: "zip_chain [xs] = xs"
  by (induction xs) (simp_all add: zip_chain.simps Let_def)

lemma zip_chain_alternate: "zip_chain [xs, ys] = alternate xs ys"
proof (induction xs ys rule: alternate.induct)
  case (1 x xs y ys)
  then show ?case by (simp add: zip_chain.simps [of "[x # xs, y # ys]"] Let_def)
next
  case (2 xs)
  then show ?case
  proof (cases xs)
    case Nil
    then show ?thesis by (simp add: zip_chain.simps [of "[[], []]"])
  next
    case (Cons x zs)
    then show ?thesis by (simp add: zip_chain.simps [of "[x # zs, []]"] zip_chain_singleton Let_def)
  qed
next
  case (3 y ys)
  then show ?case by (simp add: zip_chain.simps [of "[[], y # ys]"] zip_chain_singleton Let_def)
qed

lemma mset_zip_chain: "mset (zip_chain xss) = mset (concat xss)"
proof (induction xss rule: zip_chain.induct)
  case (1 xss)
  let ?yss = "filter (\<lambda>xs. xs \<noteq> []) xss"
  have heads: "mset (map hd yss) + mset (concat (map tl yss)) = mset (concat yss)" if "\<forall>xs\<in>set yss. xs \<noteq> []" for yss :: "'a list list"
    using that
  proof (induction yss)
    case (Cons xs yss)
    then show ?case by (cases xs) (simp_all add: ac_simps)
  qed simp
  have "concat ?yss = concat xss" by (induction xss) auto
  then show ?case
    using 1 heads [of ?yss] by (cases "?yss = []") (simp_all add: zip_chain.simps [of xss] Let_def)
qed

lemma mset_add_to_family: "mset (concat (map snd (add_to_family a fs))) = add_mset a (mset (concat (map snd fs)))"
  by (induction a fs rule: add_to_family.induct) auto

lemma mset_by_family: "mset (concat (map snd (addrinfos_by_family as))) = mset as"
proof -
  have "mset (concat (map snd (foldl (\<lambda>fs a. add_to_family a fs) fs as))) = mset (concat (map snd fs)) + mset as" for fs
    by (induction as arbitrary: fs) (simp_all add: mset_add_to_family)
  then show ?thesis by (simp add: addrinfos_by_family_def)
qed

lemma mset_prioritize_loop: "mset (prioritize_loop as b c acc) = mset as + mset acc"
proof (induction as b c acc rule: prioritize_loop.induct)
  case (2 a as b c acc)
  have "mset (take 1 acc @ a # drop 1 acc) = add_mset a (mset acc)"
    by (cases acc) simp_all
  with 2 show ?case by (auto simp del: take_Suc_conv_app_nth)
qed simp

lemma mset_happy_eyeballs_order: "mset (happy_eyeballs_order as) = mset as"
  by (simp add: happy_eyeballs_order_def interleave_addrinfos_def mset_zip_chain mset_by_family
      prioritize_ipv6_over_ipv4_def mset_prioritize_loop)

text \<open>The IPv6 addresses stay in their order, and one of them comes first; the first IPv4 address behind it is moved up.\<close>

definition of_family :: "family \<Rightarrow> 'a addrinfo list \<Rightarrow> 'a addrinfo list" where
  "of_family f as = filter (\<lambda>a. ai_family a = f) as"

lemma prioritize_v6_found:
  assumes "acc \<noteq> []" and "ai_family (hd acc) = AF_INET6"
  shows "of_family AF_INET6 (prioritize_loop as True c acc) = of_family AF_INET6 acc @ of_family AF_INET6 as
    \<and> hd (prioritize_loop as True c acc) = hd acc"
  using assms
proof (induction as arbitrary: c acc)
  case (Cons a as)
  from Cons.prems obtain x xs where acc: "acc = x # xs" "ai_family x = AF_INET6" by (cases acc) auto
  with Cons.IH [of "x # a # xs" True] Cons.IH [of "x # xs @ [a]" c] show ?case by (simp add: of_family_def)
qed (simp add: of_family_def)

lemma prioritize_v6_missing:
  assumes "\<forall>a\<in>set acc. ai_family a \<noteq> AF_INET6"
  shows "of_family AF_INET6 (prioritize_loop as False False acc) = of_family AF_INET6 as
    \<and> (of_family AF_INET6 as \<noteq> [] \<longrightarrow> hd (prioritize_loop as False False acc) = hd (of_family AF_INET6 as))
    \<and> (of_family AF_INET6 as = [] \<longrightarrow> prioritize_loop as False False acc = acc @ as)"
  using assms
proof (induction as arbitrary: acc)
  case Nil
  then show ?case by (auto simp: of_family_def filter_empty_conv)
next
  case (Cons a as)
  show ?case
  proof (cases "ai_family a = AF_INET6")
    case True
    have "of_family AF_INET6 acc = []" using Cons.prems by (auto simp: of_family_def filter_empty_conv)
    with True prioritize_v6_found [of "a # acc" as False] show ?thesis by (simp add: of_family_def)
  next
    case False
    with Cons.IH [of "acc @ [a]"] Cons.prems show ?thesis by (simp add: of_family_def)
  qed
qed

lemma by_family_two:
  assumes "\<forall>a\<in>set as. ai_family a = AF_INET \<or> ai_family a = AF_INET6"
  shows "foldl (\<lambda>fs a. add_to_family a fs) [(AF_INET6, xs), (AF_INET, ys)] as
      = [(AF_INET6, xs @ of_family AF_INET6 as), (AF_INET, ys @ of_family AF_INET as)]"
    and "foldl (\<lambda>fs a. add_to_family a fs) [(AF_INET6, xs)] as
      = (if of_family AF_INET as = [] then [(AF_INET6, xs @ of_family AF_INET6 as)]
         else [(AF_INET6, xs @ of_family AF_INET6 as), (AF_INET, of_family AF_INET as)])"
  using assms
proof (induction as arbitrary: xs ys)
  case (Cons a as)
  {
    case 1
    with Cons.IH(1) show ?case by (auto simp: of_family_def)
  next
    case 2
    with Cons.IH(1) [of "xs" "[a]"] Cons.IH(2) show ?case by (auto simp: of_family_def)
  }
qed (simp_all add: of_family_def)

text \<open>
  the order in which addresses are tried.  No address is lost or tried twice; if there are IPv6 addresses, one is tried first and
  the families alternate as long as both have addresses left, the IPv6 addresses in the order of the resolver; if there are
  none, nothing changes.
\<close>

theorem happy_eyeballs_order_alternates:
  assumes "\<forall>a\<in>set as. ai_family a = AF_INET \<or> ai_family a = AF_INET6"
  shows "mset (happy_eyeballs_order as) = mset as
    \<and> (if of_family AF_INET6 as = [] then happy_eyeballs_order as = as
       else \<exists>v4. happy_eyeballs_order as = alternate (of_family AF_INET6 as) v4 \<and> mset v4 = mset (of_family AF_INET as))"
proof (intro conjI)
  show "mset (happy_eyeballs_order as) = mset as" by (rule mset_happy_eyeballs_order)
  let ?ps = "prioritize_ipv6_over_ipv4 as"
  note p = prioritize_v6_missing [of "[]" as, folded prioritize_ipv6_over_ipv4_def, simplified]
  have mset: "mset ?ps = mset as" by (simp add: prioritize_ipv6_over_ipv4_def mset_prioritize_loop)
  then have set: "set ?ps = set as" by (rule mset_eq_setD)
  show "if of_family AF_INET6 as = [] then happy_eyeballs_order as = as
     else \<exists>v4. happy_eyeballs_order as = alternate (of_family AF_INET6 as) v4 \<and> mset v4 = mset (of_family AF_INET as)"
  proof (cases "of_family AF_INET6 as = []")
    case True
    then have v4: "\<forall>a\<in>set as. ai_family a = AF_INET" using assms by (auto simp: of_family_def filter_empty_conv)
    have "foldl (\<lambda>fs a. add_to_family a fs) [(AF_INET, xs)] bs = [(AF_INET, xs @ bs)]"
      if "\<forall>a\<in>set bs. ai_family a = AF_INET" for xs bs :: "'a addrinfo list"
      using that by (induction bs arbitrary: xs) simp_all
    with v4 have "addrinfos_by_family as = (if as = [] then [] else [(AF_INET, as)])"
      by (cases as) (simp_all add: addrinfos_by_family_def)
    then have "interleave_addrinfos as = as"
      by (simp add: interleave_addrinfos_def zip_chain_singleton zip_chain.simps [of "[]"])
    with True p show ?thesis by (simp add: happy_eyeballs_order_def)
  next
    case False
    with p have v6: "of_family AF_INET6 ?ps = of_family AF_INET6 as" and hd: "hd ?ps = hd (of_family AF_INET6 as)" by auto
    from False have "ai_family (hd (of_family AF_INET6 as)) = AF_INET6"
      using hd_in_set [of "of_family AF_INET6 as"] by (auto simp: of_family_def)
    moreover obtain x xs where ps: "?ps = x # xs" using mset False by (cases ?ps) (auto simp: of_family_def)
    ultimately have x: "ai_family x = AF_INET6" using hd by simp
    have "\<forall>a\<in>set xs. ai_family a = AF_INET \<or> ai_family a = AF_INET6" using assms set ps by auto
    from by_family_two(2) [OF this, of "[x]"] ps x
    have "addrinfos_by_family ?ps = (if of_family AF_INET ?ps = [] then [(AF_INET6, of_family AF_INET6 ?ps)]
        else [(AF_INET6, of_family AF_INET6 ?ps), (AF_INET, of_family AF_INET ?ps)])"
      by (simp add: addrinfos_by_family_def of_family_def)
    then have "happy_eyeballs_order as = alternate (of_family AF_INET6 as) (of_family AF_INET ?ps)"
      by (simp add: happy_eyeballs_order_def interleave_addrinfos_def v6 zip_chain_singleton zip_chain_alternate)
    moreover have "mset (of_family AF_INET ?ps) = mset (of_family AF_INET as)" by (simp add: of_family_def mset)
    ultimately show ?thesis using False by auto
  qed
qed

section \<open>The race of attempts\<close>

text \<open>
  \<^verbatim>\<open>_staggered_race_connection_impl\<close>: the main task starts one attempt after another, waiting each time until the attempt ends or the delay has
  passed, then waits for them all.  \<open>rc_connected\<close> is the history of the sockets the attempts connected; \<open>rc_failures\<close>: what broke
  the task group; \<open>rc_external\<close>: a cancellation that is not the one of \<^verbatim>\<open>connection_scope\<close>.
\<close>

datatype race_main = Starting | Joining | Finished "exc_group + nat"

record 'a race =
  rc_todo :: "'a addrinfo list"
  rc_trying :: "'a addrinfo list"
  rc_main :: race_main
  rc_winner :: "nat option"
  rc_errors :: "exc list"
  rc_connected :: "nat list"
  rc_closed :: "nat list"
  rc_cancelled :: bool
  rc_external :: bool
  rc_failures :: "exc list"

definition race_init :: "'a addrinfo list \<Rightarrow> 'a race" where
  "race_init addrinfos =
     \<lparr>rc_todo = happy_eyeballs_order addrinfos, rc_trying = [], rc_main = Starting, rc_winner = None, rc_errors = [],
      rc_connected = [], rc_closed = [], rc_cancelled = False, rc_external = False, rc_failures = []\<rparr>"

definition start_attempt :: "'a race \<Rightarrow> 'a race" where
  "start_attempt s =
     (case rc_todo s of
        [] \<Rightarrow> s\<lparr>rc_main := Joining\<rparr>
      | a # as \<Rightarrow> s\<lparr>rc_todo := as, rc_trying := rc_trying s @ [a]\<rparr>)"

text \<open>\<^verbatim>\<open>try_connect\<close>, by what \<^verbatim>\<open>_create_connection_impl\<close> does.\<close>

definition attempt_connects :: "'a addrinfo \<Rightarrow> nat \<Rightarrow> 'a race \<Rightarrow> 'a race" where
  "attempt_connects a k s =
     (let s1 = s\<lparr>rc_trying := remove1 a (rc_trying s), rc_connected := rc_connected s @ [k]\<rparr> in
      if rc_winner s = None then s1\<lparr>rc_winner := Some k, rc_cancelled := True\<rparr>
      else s1\<lparr>rc_closed := rc_closed s @ [k]\<rparr>)"

definition attempt_fails :: "'a addrinfo \<Rightarrow> exc list \<Rightarrow> 'a race \<Rightarrow> 'a race" where
  "attempt_fails a errs s = s\<lparr>rc_trying := remove1 a (rc_trying s), rc_errors := rc_errors s @ errs\<rparr>"

definition attempt_raises :: "'a addrinfo \<Rightarrow> exc \<Rightarrow> 'a race \<Rightarrow> 'a race" where
  "attempt_raises a e s =
     s\<lparr>rc_trying := remove1 a (rc_trying s), rc_failures := (if e = CancelledError then rc_failures s else rc_failures s @ [e])\<rparr>"

text \<open>The main task is interrupted where it waits; the task group ends when no attempt is left.\<close>

definition main_interrupted :: "'a race \<Rightarrow> 'a race" where
  "main_interrupted s = s\<lparr>rc_main := Joining\<rparr>"

definition close_winner :: "'a race \<Rightarrow> 'a race" where
  "close_winner s = (case rc_winner s of None \<Rightarrow> s | Some k \<Rightarrow> s\<lparr>rc_closed := rc_closed s @ [k]\<rparr>)"

definition group_exits :: "'a race \<Rightarrow> 'a race" where
  "group_exits s =
     (if rc_failures s \<noteq> [] then (close_winner s)\<lparr>rc_main := Finished (Inl (Group (map Single (rc_failures s))))\<rparr>
      else if rc_external s then (close_winner s)\<lparr>rc_main := Finished (Inl (Single CancelledError))\<rparr>
      else (case rc_winner s of
              Some k \<Rightarrow> s\<lparr>rc_main := Finished (Inr k)\<rparr>
            | None \<Rightarrow>
                s\<lparr>rc_main := Finished (Inl (if rc_errors s = [] then Single (ValueError ''second argument must be a non-empty sequence'')
                                         else Group (map Single (rc_errors s))))\<rparr>))"

datatype 'a race_event =
    StartAttempt
  | AttemptConnects "'a addrinfo" nat
  | AttemptFails "'a addrinfo" "exc list"
  | AttemptRaises "'a addrinfo" exc
  | ExternalCancel
  | MainInterrupted
  | GroupExits

text \<open>
  A socket is new; an attempt that fails reports an error (\<open>opening_leaks_no_socket\<close>); it is cancelled by its scope, by the task
  group, or from outside, and so is the main task.
\<close>

definition interrupted :: "'a race \<Rightarrow> bool" where
  "interrupted s \<longleftrightarrow> rc_cancelled s \<or> rc_external s \<or> rc_failures s \<noteq> []"

fun race_enabled :: "'a race_event \<Rightarrow> 'a race \<Rightarrow> bool" where
  "race_enabled StartAttempt s \<longleftrightarrow> rc_main s = Starting"
| "race_enabled (AttemptConnects a k) s \<longleftrightarrow> a \<in> set (rc_trying s) \<and> k \<notin> set (rc_connected s)"
| "race_enabled (AttemptFails a errs) s \<longleftrightarrow> a \<in> set (rc_trying s) \<and> errs \<noteq> []"
| "race_enabled (AttemptRaises a e) s \<longleftrightarrow> a \<in> set (rc_trying s) \<and> (e = CancelledError \<longrightarrow> interrupted s)"
| "race_enabled ExternalCancel s \<longleftrightarrow> rc_main s = Starting \<or> rc_main s = Joining"
| "race_enabled MainInterrupted s \<longleftrightarrow> rc_main s = Starting \<and> interrupted s"
| "race_enabled GroupExits s \<longleftrightarrow> rc_main s = Joining \<and> rc_trying s = []"

fun race_apply :: "'a race_event \<Rightarrow> 'a race \<Rightarrow> 'a race" where
  "race_apply StartAttempt s = start_attempt s"
| "race_apply (AttemptConnects a k) s = attempt_connects a k s"
| "race_apply (AttemptFails a errs) s = attempt_fails a errs s"
| "race_apply (AttemptRaises a e) s = attempt_raises a e s"
| "race_apply ExternalCancel s = s\<lparr>rc_external := True\<rparr>"
| "race_apply MainInterrupted s = main_interrupted s"
| "race_apply GroupExits s = group_exits s"

inductive race_reachable :: "'a addrinfo list \<Rightarrow> 'a race \<Rightarrow> bool" for addrinfos where
  race_start: "race_reachable addrinfos (race_init addrinfos)"
| race_step: "race_reachable addrinfos s \<Longrightarrow> race_enabled e s \<Longrightarrow> race_reachable addrinfos (race_apply e s)"

fun race_run :: "'a race_event list \<Rightarrow> 'a race \<Rightarrow> 'a race option" where
  "race_run [] s = Some s"
| "race_run (e # es) s = (if race_enabled e s then race_run es (race_apply e s) else None)"

lemma race_run_reachable: "race_reachable as s \<Longrightarrow> race_run es s = Some s' \<Longrightarrow> race_reachable as s'"
  by (induction es arbitrary: s) (auto intro: race_step split: if_splits)

text \<open>
  The invariant: the first socket connected is the winner, the others are closed at once; without an interruption every address is
  waiting, tried, or has reported an error.
\<close>

definition race_inv :: "'a addrinfo list \<Rightarrow> 'a race \<Rightarrow> bool" where
  "race_inv as s \<longleftrightarrow>
     distinct (rc_connected s) \<and>
     (rc_winner s = (if rc_connected s = [] then None else Some (hd (rc_connected s)))) \<and>
     (rc_cancelled s \<longleftrightarrow> rc_connected s \<noteq> []) \<and>
     (case rc_main s of
        Finished (Inl _) \<Rightarrow> mset (rc_closed s) = mset (rc_connected s)
      | Finished (Inr k) \<Rightarrow> rc_connected s \<noteq> [] \<and> k = hd (rc_connected s) \<and> rc_closed s = tl (rc_connected s)
      | _ \<Rightarrow> rc_closed s = tl (rc_connected s)) \<and>
     (\<not> interrupted s \<longrightarrow> length as \<le> length (rc_todo s) + length (rc_trying s) + length (rc_errors s)) \<and>
     (rc_main s \<noteq> Starting \<and> \<not> interrupted s \<longrightarrow> rc_todo s = []) \<and>
     (\<forall>r. rc_main s = Finished r \<longrightarrow> rc_trying s = [] \<and>
        (rc_failures s = [] \<and> \<not> rc_external s \<longrightarrow>
           (if rc_connected s \<noteq> [] then r = Inr (hd (rc_connected s))
            else rc_errors s \<noteq> [] \<longrightarrow> r = Inl (Group (map Single (rc_errors s))))))"

lemma race_inv_init: "race_inv as (race_init as)"
  using arg_cong [OF mset_happy_eyeballs_order [of as], of size] by (simp add: race_inv_def race_init_def)

lemma tl_snoc: "xs \<noteq> [] \<Longrightarrow> tl (xs @ [x]) = tl xs @ [x]"
  by (cases xs) simp_all

lemma race_running:
  assumes "race_inv as s" and "a \<in> set (rc_trying s)"
  shows "rc_main s = Starting \<or> rc_main s = Joining"
  using assms by (cases "rc_main s") (auto simp: race_inv_def)

lemma race_inv_connects:
  assumes inv: "race_inv as s" and "race_enabled (AttemptConnects a k) s"
  shows "race_inv as (attempt_connects a k s)"
proof -
  have "rc_main s = Starting \<or> rc_main s = Joining" using race_running [OF inv, of a] assms(2) by simp
  with inv [unfolded race_inv_def] assms(2) show ?thesis
    unfolding race_inv_def attempt_connects_def Let_def interrupted_def
    by (cases "rc_connected s"; elim disjE) (simp_all add: tl_snoc)
qed

lemma race_inv_fails:
  assumes inv: "race_inv as s" and "race_enabled (AttemptFails a errs) s"
  shows "race_inv as (attempt_fails a errs s)"
proof -
  have m: "rc_main s = Starting \<or> rc_main s = Joining" using race_running [OF inv, of a] assms(2) by simp
  have "length (rc_trying s) = Suc (length (remove1 a (rc_trying s)))"
    using assms(2) length_pos_if_in_set [of a "rc_trying s"] by (simp add: length_remove1)
  with m inv [unfolded race_inv_def] assms(2) show ?thesis
    unfolding race_inv_def attempt_fails_def interrupted_def
    by (cases errs; elim disjE) (simp_all, auto)
qed

lemma race_inv_step:
  assumes "race_inv as s" and "race_enabled e s"
  shows "race_inv as (race_apply e s)"
proof (cases e)
  case StartAttempt
  with assms(2) assms(1) [unfolded race_inv_def] show ?thesis
    by (cases "rc_todo s") (simp_all add: race_inv_def start_attempt_def interrupted_def)
next
  case (AttemptConnects a k)
  with assms race_inv_connects show ?thesis by simp
next
  case (AttemptFails a errs)
  with assms race_inv_fails show ?thesis by simp
next
  case (AttemptRaises a x)
  then have "rc_main s = Starting \<or> rc_main s = Joining" using race_running [OF assms(1), of a] assms(2) by simp
  with AttemptRaises assms(2) assms(1) [unfolded race_inv_def] show ?thesis
    by (cases "x = CancelledError"; elim disjE) (simp_all add: race_inv_def attempt_raises_def interrupted_def)
next
  case ExternalCancel
  with assms(2) assms(1) [unfolded race_inv_def] show ?thesis
    by (auto simp add: race_inv_def interrupted_def)
next
  case MainInterrupted
  with assms(2) assms(1) [unfolded race_inv_def] show ?thesis by (simp add: race_inv_def main_interrupted_def interrupted_def)
next
  case GroupExits
  with assms(2) assms(1) [unfolded race_inv_def] show ?thesis
    by (cases "rc_connected s") (simp_all add: race_inv_def group_exits_def close_winner_def interrupted_def, auto)
qed

lemma race_inv_reachable: "race_reachable as s \<Longrightarrow> race_inv as s"
  by (induction rule: race_reachable.induct) (simp_all add: race_inv_init race_inv_step)

text \<open>
  C33: the race of connection attempts (happy eyeballs) leaks no socket and reports what happened.  In every schedule of attempts that
  connect, fail, raise or are cancelled, when it returns a socket that is the first one connected, and every other one is
  closed; when it raises, all are closed.  If no attempt broke off and nobody cancelled the race from outside, it returns the first socket
  connected, and if there is none it raises at least one error for every address.
\<close>

theorem race_leaks_no_socket:
  assumes "race_reachable addrinfos s" and "rc_main s = Finished r"
  shows "distinct (rc_connected s)
    \<and> (case r of
         Inr k \<Rightarrow> rc_connected s = k # rc_closed s
       | Inl g \<Rightarrow> mset (rc_closed s) = mset (rc_connected s))
    \<and> (rc_failures s = [] \<and> \<not> rc_external s \<and> addrinfos \<noteq> [] \<longrightarrow>
         (if rc_connected s \<noteq> [] then r = Inr (hd (rc_connected s))
          else r = Inl (Group (map Single (rc_errors s))) \<and> length addrinfos \<le> length (rc_errors s)))"
proof (intro conjI)
  note inv = race_inv_reachable [OF assms(1)]
  show "distinct (rc_connected s)" using inv by (simp add: race_inv_def)
  show "case r of
         Inr k \<Rightarrow> rc_connected s = k # rc_closed s
       | Inl g \<Rightarrow> mset (rc_closed s) = mset (rc_connected s)"
    using inv assms(2) by (cases r; cases "rc_connected s") (auto simp: race_inv_def)
  show "rc_failures s = [] \<and> \<not> rc_external s \<and> addrinfos \<noteq> [] \<longrightarrow>
         (if rc_connected s \<noteq> [] then r = Inr (hd (rc_connected s))
          else r = Inl (Group (map Single (rc_errors s))) \<and> length addrinfos \<le> length (rc_errors s))"
    using inv assms(2) by (cases "rc_errors s") (auto simp: race_inv_def interrupted_def)
qed

section \<open>Witnesses\<close>

definition four_addresses :: "nat addrinfo list" where
  "four_addresses =
     [\<lparr>ai_family = AF_INET, ai_addr = 1\<rparr>, \<lparr>ai_family = AF_INET6, ai_addr = 2\<rparr>,
      \<lparr>ai_family = AF_INET, ai_addr = 3\<rparr>, \<lparr>ai_family = AF_INET6, ai_addr = 4\<rparr>]"

theorem happy_eyeballs_order_alternates_witness:
  "\<exists>v4. happy_eyeballs_order four_addresses
      = alternate [\<lparr>ai_family = AF_INET6, ai_addr = 2\<rparr>, \<lparr>ai_family = AF_INET6, ai_addr = 4\<rparr>] v4 \<and> length v4 = 2"
proof -
  have "\<forall>a\<in>set four_addresses. ai_family a = AF_INET \<or> ai_family a = AF_INET6" by (simp add: four_addresses_def)
  from happy_eyeballs_order_alternates [OF this] obtain v4 where
    "happy_eyeballs_order four_addresses = alternate (of_family AF_INET6 four_addresses) v4"
    "mset v4 = mset (of_family AF_INET four_addresses)"
    by (auto simp: four_addresses_def of_family_def)
  moreover from this(2) have "length v4 = 2"
    by (auto simp: four_addresses_def of_family_def dest: arg_cong [of "mset v4" _ size])
  ultimately show ?thesis by (auto simp: four_addresses_def of_family_def)
qed

text \<open>Two attempts connect, the second after the scope was cancelled; a third is cancelled.\<close>

definition racing_events :: "nat race_event list" where
  "racing_events =
     [StartAttempt, StartAttempt, StartAttempt,
      AttemptConnects \<lparr>ai_family = AF_INET, ai_addr = 3\<rparr> 7, MainInterrupted,
      AttemptConnects \<lparr>ai_family = AF_INET6, ai_addr = 2\<rparr> 8,
      AttemptRaises \<lparr>ai_family = AF_INET6, ai_addr = 4\<rparr> CancelledError, GroupExits]"

theorem race_leaks_no_socket_witness:
  "\<exists>s. race_run racing_events (race_init four_addresses) = Some s \<and> rc_main s = Finished (Inr 7) \<and> rc_closed s = [8]"
proof -
  have "zip_chain [[\<lparr>ai_family = AF_INET6, ai_addr = 2\<rparr>, \<lparr>ai_family = AF_INET6, ai_addr = 4 :: nat\<rparr>],
      [\<lparr>ai_family = AF_INET, ai_addr = 3\<rparr>, \<lparr>ai_family = AF_INET, ai_addr = 1\<rparr>]]
      = [\<lparr>ai_family = AF_INET6, ai_addr = 2\<rparr>, \<lparr>ai_family = AF_INET, ai_addr = 3\<rparr>,
         \<lparr>ai_family = AF_INET6, ai_addr = 4\<rparr>, \<lparr>ai_family = AF_INET, ai_addr = 1\<rparr>]"
    by (simp add: zip_chain_alternate)
  then have order: "happy_eyeballs_order four_addresses =
      [\<lparr>ai_family = AF_INET6, ai_addr = 2\<rparr>, \<lparr>ai_family = AF_INET, ai_addr = 3\<rparr>,
       \<lparr>ai_family = AF_INET6, ai_addr = 4\<rparr>, \<lparr>ai_family = AF_INET, ai_addr = 1\<rparr>]"
    by (simp add: happy_eyeballs_order_def interleave_addrinfos_def prioritize_ipv6_over_ipv4_def addrinfos_by_family_def
        four_addresses_def)
  have "map_option (\<lambda>s. (rc_main s, rc_closed s)) (race_run racing_events (race_init four_addresses))
      = Some (Finished (Inr 7), [8])"
    by (simp add: racing_events_def race_init_def order start_attempt_def attempt_connects_def attempt_raises_def
        main_interrupted_def group_exits_def interrupted_def)
  then obtain s where s: "race_run racing_events (race_init four_addresses) = Some s" "rc_main s = Finished (Inr 7)" by auto
  from race_leaks_no_socket [OF race_run_reachable [OF race_start s(1)] s(2)] s
    \<open>map_option (\<lambda>s. (rc_main s, rc_closed s)) (race_run racing_events (race_init four_addresses)) = Some (Finished (Inr 7), [8])\<close>
  show ?thesis by auto
qed

end
