(* ===== verification/Listener.thy ===== *)
theory Listener
  imports RawTransport "HOL-Library.Multiset"
begin

text \<open>
  The stream listener of asyncio, \<^verbatim>\<open>src/src/easynetwork/lowlevel/api_async/backend/_asyncio/stream/listener.py\<close>:
  \<^verbatim>\<open>ListenerSocketAdapter\<close> with the callbacks of its accept loop, the tasks that turn an accepted socket into a transport, and its
  closing.  A callback, and what a task does between two suspension points, is one event.
\<close>

section \<open>The state\<close>

text \<open>
  The errnos of \<^verbatim>\<open>lowlevel/constants.py\<close>: the system is short of something; the connection is gone, or not allowed.
\<close>

definition accept_capacity_errnos :: "string set" where
  "accept_capacity_errnos = set [''EMFILE'', ''ENFILE'', ''ENOMEM'', ''ENOBUFS'']"

definition ignorable_accept_errnos :: "string set" where
  "ignorable_accept_errnos =
     set [''EPERM'', ''ECONNABORTED'', ''EPROTO'', ''ENETDOWN'', ''ENOPROTOOPT'', ''EHOSTDOWN'', ''ENONET'', ''EHOSTUNREACH'',
          ''EOPNOTSUPP'', ''ENETUNREACH'', ''ENOSR'', ''ESOCKTNOSUPPORT'', ''EPROTONOSUPPORT'', ''ETIMEDOUT'', ''ECONNRESET'']"

text \<open>
  \<open>la_future\<close> is the future \<^verbatim>\<open>serve\<close> waits for; \<open>la_callback\<close>: its done callback is scheduled.  A retry is a timer of the loop:
  \<open>la_timers\<close> are those neither fired nor cancelled, \<open>la_handles\<close> what \<^verbatim>\<open>delayed_retry_handles\<close> holds.  A connection is a number; its
  task has not started, is in \<^verbatim>\<open>connect\<close>, or has ended: with a transport given to the handler, or without.
\<close>

datatype serve_future = Pending | FutureRaised exc | FutureCancelled

record acceptor =
  la_socket :: bool
  la_open :: bool
  la_future :: serve_future
  la_callback :: bool
  la_reader :: bool
  la_timers :: "nat list"
  la_handles :: "nat list"
  la_next_timer :: nat
  la_accepted :: "nat list"
  la_waiting :: "nat list"
  la_connecting :: "nat list"
  la_served :: "nat list"
  la_closed :: "nat list"
  la_dropped :: "nat list"
  la_logged :: "exc list"

definition acceptor_init :: acceptor where
  "acceptor_init =
     \<lparr>la_socket = True, la_open = True, la_future = Pending, la_callback = False, la_reader = True, la_timers = [], la_handles = [],
      la_next_timer = 0, la_accepted = [], la_waiting = [], la_connecting = [], la_served = [], la_closed = [], la_dropped = [],
      la_logged = []\<rparr>"

section \<open>The accept loop\<close>

text \<open>\<^verbatim>\<open>listener_ready\<close>: what the calls of \<^verbatim>\<open>accept\<close> give, up to the backlog; after the last one no connection is waiting.\<close>

datatype accept_outcome = Accepted nat | WouldBlock | AcceptError string | AcceptRaises exc

definition finish_serving :: "serve_future \<Rightarrow> acceptor \<Rightarrow> acceptor" where
  "finish_serving f s = s\<lparr>la_future := f, la_callback := True\<rparr>"

definition accept_connection :: "nat \<Rightarrow> acceptor \<Rightarrow> acceptor" where
  "accept_connection c s = s\<lparr>la_accepted := la_accepted s @ [c], la_waiting := la_waiting s @ [c]\<rparr>"

definition retry_later :: "string \<Rightarrow> acceptor \<Rightarrow> acceptor" where
  "retry_later errno s =
     s\<lparr>la_reader := False, la_timers := la_timers s @ [la_next_timer s], la_handles := la_handles s @ [la_next_timer s],
       la_next_timer := la_next_timer s + 1, la_logged := la_logged s @ [OSError errno '''']\<rparr>"

fun accept_turns :: "nat \<Rightarrow> accept_outcome list \<Rightarrow> acceptor \<Rightarrow> acceptor" where
  "accept_turns 0 outs s = s"
| "accept_turns (Suc n) [] s = s"
| "accept_turns (Suc n) (Accepted c # outs) s = accept_turns n outs (accept_connection c s)"
| "accept_turns (Suc n) (WouldBlock # outs) s = s"
| "accept_turns (Suc n) (AcceptError errno # outs) s =
     (if errno \<in> accept_capacity_errnos then retry_later errno s
      else if errno \<in> ignorable_accept_errnos then accept_turns n outs s
      else finish_serving (FutureRaised (OSError errno '''')) (s\<lparr>la_reader := False\<rparr>))"
| "accept_turns (Suc n) (AcceptRaises e # outs) s = finish_serving (FutureRaised e) s"

definition listener_ready :: "nat \<Rightarrow> accept_outcome list \<Rightarrow> acceptor \<Rightarrow> acceptor" where
  "listener_ready backlog outs s =
     (let s1 = s\<lparr>la_handles := []\<rparr> in if la_future s1 \<noteq> Pending then s1 else accept_turns backlog outs s1)"

definition retry_fires :: "nat \<Rightarrow> acceptor \<Rightarrow> acceptor" where
  "retry_fires t s = s\<lparr>la_timers := remove1 t (la_timers s), la_reader := True\<rparr>"

definition on_serve_done :: "acceptor \<Rightarrow> acceptor" where
  "on_serve_done s =
     s\<lparr>la_reader := False, la_timers := filter (\<lambda>t. t \<notin> set (la_handles s)) (la_timers s), la_handles := [], la_callback := False\<rparr>"

section \<open>Connections\<close>

text \<open>
  \<^verbatim>\<open>client_connection_task\<close>: it starts; \<^verbatim>\<open>connect\<close> returns, raises, is cancelled.  The stream goes to a task of the handler, unless
  \<^verbatim>\<open>task_group.start_soon\<close> raises (not \<open>starts\<close>), as it does in a group that is aborting: then nobody has the stream.
\<close>

definition connection_starts :: "nat \<Rightarrow> acceptor \<Rightarrow> acceptor" where
  "connection_starts c s = s\<lparr>la_waiting := remove1 c (la_waiting s), la_connecting := la_connecting s @ [c]\<rparr>"

definition connection_served :: "bool \<Rightarrow> nat \<Rightarrow> acceptor \<Rightarrow> acceptor" where
  "connection_served starts c s =
     (let s1 = s\<lparr>la_connecting := remove1 c (la_connecting s)\<rparr> in
      if starts then s1\<lparr>la_served := la_served s @ [c]\<rparr> else s1\<lparr>la_dropped := la_dropped s @ [c]\<rparr>)"

definition is_not_connected :: "exc \<Rightarrow> bool" where
  "is_not_connected e \<longleftrightarrow> (case e of OSError errno _ \<Rightarrow> errno \<in> set not_connected_errnos | _ \<Rightarrow> False)"

definition connection_fails :: "nat \<Rightarrow> exc \<Rightarrow> acceptor \<Rightarrow> acceptor" where
  "connection_fails c e s =
     s\<lparr>la_connecting := remove1 c (la_connecting s), la_closed := la_closed s @ [c],
       la_logged := (if \<not> is_Exception e \<or> is_not_connected e then la_logged s else la_logged s @ [e])\<rparr>"

text \<open>A task cancelled before it has started never runs its body.\<close>

definition connection_dropped :: "nat \<Rightarrow> acceptor \<Rightarrow> acceptor" where
  "connection_dropped c s = s\<lparr>la_waiting := remove1 c (la_waiting s), la_dropped := la_dropped s @ [c]\<rparr>"

section \<open>Closing\<close>

text \<open>
  A cancellation, by the scope of \<^verbatim>\<open>aclose\<close> or from outside, cancels the future.  \<^verbatim>\<open>aclose\<close> yields once to the loop, behind the done
  callback, before the socket is closed.
\<close>

definition serve_cancelled :: "acceptor \<Rightarrow> acceptor" where
  "serve_cancelled s = (if la_future s = Pending then finish_serving FutureCancelled s else s)"

definition listener_aclose_start :: "acceptor \<Rightarrow> acceptor" where
  "listener_aclose_start s = (if la_socket s then serve_cancelled (s\<lparr>la_socket := False\<rparr>) else s)"

definition listener_aclose_end :: "acceptor \<Rightarrow> acceptor" where
  "listener_aclose_end s = s\<lparr>la_open := False\<rparr>"

section \<open>Histories\<close>

datatype listener_event =
    ListenerReady "accept_outcome list"
  | RetryFires nat
  | ServeDone
  | ServeCancelled
  | AcloseStart
  | AcloseEnd
  | ConnectionStarts nat
  | ConnectionMade nat bool
  | ConnectionFails nat exc
  | ConnectionDropped nat

text \<open>
  The accepted connections are new.  The task group of the connections is cancelled when the future is done, so a connection
  may be cancelled then; and the group of the handlers aborts only together with the task that serves.
\<close>

fun accepted_in :: "accept_outcome list \<Rightarrow> nat list" where
  "accepted_in [] = []"
| "accepted_in (Accepted c # outs) = c # accepted_in outs"
| "accepted_in (_ # outs) = accepted_in outs"

fun listener_enabled :: "listener_event \<Rightarrow> acceptor \<Rightarrow> bool" where
  "listener_enabled (ListenerReady outs) s \<longleftrightarrow> la_reader s \<and> distinct (la_accepted s @ accepted_in outs)"
| "listener_enabled (RetryFires t) s \<longleftrightarrow> t \<in> set (la_timers s)"
| "listener_enabled ServeDone s \<longleftrightarrow> la_callback s"
| "listener_enabled ServeCancelled s \<longleftrightarrow> True"
| "listener_enabled AcloseStart s \<longleftrightarrow> True"
| "listener_enabled AcloseEnd s \<longleftrightarrow> \<not> la_socket s \<and> \<not> la_callback s"
| "listener_enabled (ConnectionStarts c) s \<longleftrightarrow> c \<in> set (la_waiting s)"
| "listener_enabled (ConnectionMade c starts) s \<longleftrightarrow> c \<in> set (la_connecting s) \<and> (starts \<or> la_future s \<noteq> Pending)"
| "listener_enabled (ConnectionFails c e) s \<longleftrightarrow> c \<in> set (la_connecting s) \<and> (is_Exception e \<or> la_future s \<noteq> Pending)"
| "listener_enabled (ConnectionDropped c) s \<longleftrightarrow> c \<in> set (la_waiting s) \<and> la_future s \<noteq> Pending"

fun listener_apply_event :: "nat \<Rightarrow> listener_event \<Rightarrow> acceptor \<Rightarrow> acceptor" where
  "listener_apply_event backlog (ListenerReady outs) s = listener_ready backlog outs s"
| "listener_apply_event backlog (RetryFires t) s = retry_fires t s"
| "listener_apply_event backlog ServeDone s = on_serve_done s"
| "listener_apply_event backlog ServeCancelled s = serve_cancelled s"
| "listener_apply_event backlog AcloseStart s = listener_aclose_start s"
| "listener_apply_event backlog AcloseEnd s = listener_aclose_end s"
| "listener_apply_event backlog (ConnectionStarts c) s = connection_starts c s"
| "listener_apply_event backlog (ConnectionMade c starts) s = connection_served starts c s"
| "listener_apply_event backlog (ConnectionFails c e) s = connection_fails c e s"
| "listener_apply_event backlog (ConnectionDropped c) s = connection_dropped c s"

inductive listener_reachable :: "nat \<Rightarrow> acceptor \<Rightarrow> bool" for backlog where
  listener_begin: "listener_reachable backlog acceptor_init"
| listener_step: "listener_reachable backlog s \<Longrightarrow> listener_enabled e s \<Longrightarrow> listener_reachable backlog (listener_apply_event backlog e s)"

fun listener_run :: "nat \<Rightarrow> listener_event list \<Rightarrow> acceptor \<Rightarrow> acceptor option" where
  "listener_run backlog [] s = Some s"
| "listener_run backlog (e # es) s =
     (if listener_enabled e s then listener_run backlog es (listener_apply_event backlog e s) else None)"

lemma listener_run_reachable:
  "listener_reachable backlog s \<Longrightarrow> listener_run backlog es s = Some s' \<Longrightarrow> listener_reachable backlog s'"
  by (induction es arbitrary: s) (auto intro: listener_step split: if_splits)

section \<open>The invariant\<close>

text \<open>
  The loop is watched by the reader or by one timer that the deque knows, while the future is pending; nothing watches it once the
  done callback has run.
\<close>

definition watched :: "acceptor \<Rightarrow> bool" where
  "watched s \<longleftrightarrow>
     (\<exists>t. \<not> la_reader s \<and> la_timers s = [t] \<and> la_handles s = [t]) \<or> la_reader s \<and> la_timers s = []"

definition watch_inv :: "acceptor \<Rightarrow> bool" where
  "watch_inv s \<longleftrightarrow>
     (la_future s = Pending \<longrightarrow> \<not> la_callback s \<and> watched s \<and> la_socket s) \<and>
     (set (la_timers s) \<subseteq> set (la_handles s)) \<and> (la_reader s \<longrightarrow> la_timers s = []) \<and>
     (la_timers s = [] \<or> (\<exists>t. la_timers s = [t])) \<and>
     (la_future s \<noteq> Pending \<and> \<not> la_callback s \<longrightarrow> \<not> la_reader s \<and> la_timers s = []) \<and>
     (\<not> la_open s \<longrightarrow> la_future s \<noteq> Pending \<and> \<not> la_callback s)"

definition accounted :: "acceptor \<Rightarrow> bool" where
  "accounted s \<longleftrightarrow>
     mset (la_accepted s) = mset (la_waiting s) + mset (la_connecting s) + mset (la_served s) + mset (la_closed s) + mset (la_dropped s)
     \<and> distinct (la_accepted s) \<and> (la_dropped s \<noteq> [] \<longrightarrow> la_future s \<noteq> Pending)"

lemma accept_turns_connections:
  "accounted s \<Longrightarrow> distinct (la_accepted s @ accepted_in outs) \<Longrightarrow>
   accounted (accept_turns n outs s) \<and> length (la_accepted (accept_turns n outs s)) \<le> length (la_accepted s) + n"
proof (induction n outs s rule: accept_turns.induct)
  case (3 n c outs s)
  then show ?case by (auto simp: accounted_def accept_connection_def)
next
  case (5 n errno outs s)
  then show ?case by (auto simp: accounted_def retry_later_def finish_serving_def)
qed (auto simp: accounted_def finish_serving_def)

lemma accept_turns_watch:
  "watch_inv s \<Longrightarrow> la_future s = Pending \<Longrightarrow> la_reader s \<Longrightarrow> la_handles s = [] \<Longrightarrow> watch_inv (accept_turns n outs s)"
proof (induction n outs s rule: accept_turns.induct)
  case (3 n c outs s)
  then show ?case by (simp add: watch_inv_def watched_def accept_connection_def)
next
  case (5 n errno outs s)
  then show ?case by (auto simp: watch_inv_def watched_def retry_later_def finish_serving_def)
next
  case (6 n e outs s)
  then show ?case by (auto simp: watch_inv_def watched_def finish_serving_def)
qed simp_all

lemma watch_inv_step:
  assumes "watch_inv s" and "listener_enabled e s"
  shows "watch_inv (listener_apply_event backlog e s)"
proof (cases e)
  case (ListenerReady outs)
  with assms have "watch_inv (s\<lparr>la_handles := []\<rparr>)" by (auto simp: watch_inv_def watched_def)
  with ListenerReady assms(2) accept_turns_watch [of "s\<lparr>la_handles := []\<rparr>"] show ?thesis
    by (simp add: listener_ready_def Let_def)
next
  case (RetryFires t)
  with assms show ?thesis by (auto simp: watch_inv_def watched_def retry_fires_def)
next
  case ServeDone
  with assms show ?thesis by (auto simp: watch_inv_def watched_def on_serve_done_def filter_empty_conv)
qed (use assms in \<open>auto simp: watch_inv_def watched_def serve_cancelled_def finish_serving_def listener_aclose_start_def
    listener_aclose_end_def connection_starts_def connection_served_def connection_fails_def connection_dropped_def Let_def\<close>)

lemma accounted_step:
  assumes "accounted s" and "listener_enabled e s"
  shows "accounted (listener_apply_event backlog e s)"
proof (cases e)
  case (ListenerReady outs)
  have "accounted (s\<lparr>la_handles := []\<rparr>)" using assms(1) by (simp add: accounted_def)
  with ListenerReady assms(2) accept_turns_connections [of "s\<lparr>la_handles := []\<rparr>"] show ?thesis
    by (simp add: listener_ready_def Let_def)
qed (use assms in \<open>auto simp: accounted_def retry_fires_def on_serve_done_def serve_cancelled_def finish_serving_def
    listener_aclose_start_def listener_aclose_end_def connection_starts_def connection_served_def connection_fails_def
    connection_dropped_def Let_def\<close>)

lemma listener_inv_reachable: "listener_reachable backlog s \<Longrightarrow> watch_inv s \<and> accounted s"
proof (induction rule: listener_reachable.induct)
  case listener_begin
  show ?case by (simp add: watch_inv_def watched_def accounted_def acceptor_init_def)
next
  case (listener_step s e)
  then show ?case using watch_inv_step accounted_step by blast
qed

text \<open>
  C35: the accept loop never stalls and leaves nothing behind.  While \<^verbatim>\<open>serve\<close> waits, the listening socket is watched, or, after
  the system was short of something, exactly one timer will watch it again, a timer that the clean-up knows; a wake-up accepts at most
  \<^verbatim>\<open>backlog\<close> connections.  Once the future is done and its callback has run, and always when the descriptor is closed, no
  reader and no timer is left.  Every accepted connection is waiting for its task, being set up, given to the handler or closed,
  exactly one of them, unless its task was cancelled before it started, or the group of the handlers, which is aborting, refused
  to start its handler; both happen only while the listener stops.
\<close>

theorem accept_loop_never_stalls:
  assumes "listener_reachable backlog s"
  shows "(la_future s = Pending \<longrightarrow>
        la_reader s \<and> la_timers s = [] \<or> \<not> la_reader s \<and> (\<exists>t. la_timers s = [t] \<and> t \<in> set (la_handles s)))
    \<and> (listener_enabled (ListenerReady outs) s \<longrightarrow>
        length (la_accepted (listener_ready backlog outs s)) \<le> length (la_accepted s) + backlog)
    \<and> (la_future s \<noteq> Pending \<and> \<not> la_callback s \<or> \<not> la_open s \<longrightarrow> \<not> la_reader s \<and> la_timers s = [])
    \<and> mset (la_accepted s) = mset (la_waiting s @ la_connecting s @ la_served s @ la_closed s @ la_dropped s)
    \<and> distinct (la_waiting s @ la_connecting s @ la_served s @ la_closed s @ la_dropped s)
    \<and> (la_dropped s \<noteq> [] \<longrightarrow> la_future s \<noteq> Pending)"
proof (intro conjI)
  have inv: "watch_inv s" and acc: "accounted s" using listener_inv_reachable [OF assms] by simp_all
  show "la_future s = Pending \<longrightarrow>
      la_reader s \<and> la_timers s = [] \<or> \<not> la_reader s \<and> (\<exists>t. la_timers s = [t] \<and> t \<in> set (la_handles s))"
    using inv by (auto simp: watch_inv_def watched_def)
  show "listener_enabled (ListenerReady outs) s \<longrightarrow>
      length (la_accepted (listener_ready backlog outs s)) \<le> length (la_accepted s) + backlog"
  proof
    assume e: "listener_enabled (ListenerReady outs) s"
    have "accounted (s\<lparr>la_handles := []\<rparr>)" using acc by (simp add: accounted_def)
    from accept_turns_connections [OF this, of outs backlog] e
    show "length (la_accepted (listener_ready backlog outs s)) \<le> length (la_accepted s) + backlog"
      by (simp add: listener_ready_def Let_def)
  qed
  show "la_future s \<noteq> Pending \<and> \<not> la_callback s \<or> \<not> la_open s \<longrightarrow> \<not> la_reader s \<and> la_timers s = []"
    using inv by (auto simp: watch_inv_def)
  show m: "mset (la_accepted s) = mset (la_waiting s @ la_connecting s @ la_served s @ la_closed s @ la_dropped s)"
    using acc by (simp add: accounted_def ac_simps)
  show "distinct (la_waiting s @ la_connecting s @ la_served s @ la_closed s @ la_dropped s)"
    using acc mset_eq_imp_distinct_iff [OF m] by (simp add: accounted_def)
  show "la_dropped s \<noteq> [] \<longrightarrow> la_future s \<noteq> Pending" using acc by (simp add: accounted_def)
qed

text \<open>A connection accepted in the turn in which the listener is closed: its task is cancelled before it starts, and nobody closes it.\<close>

definition dropped_connection :: "listener_event list" where
  "dropped_connection =
     [ListenerReady [AcceptError ''EMFILE''], RetryFires 0, ListenerReady [Accepted 5, AcceptError ''ECONNABORTED'', Accepted 6, WouldBlock],
      ConnectionStarts 5, AcloseStart, ConnectionFails 5 CancelledError, ConnectionDropped 6, ServeDone, AcloseEnd]"

theorem accept_loop_never_stalls_witness:
  "\<exists>s. listener_run 100 dropped_connection acceptor_init = Some s \<and> la_closed s = [5] \<and> la_dropped s = [6] \<and> \<not> la_open s
     \<and> \<not> la_reader s \<and> la_timers s = []"
proof -
  have "map_option (\<lambda>s. (la_closed s, la_dropped s, la_open s)) (listener_run 100 dropped_connection acceptor_init)
      = Some ([5], [6], False)"
    by code_simp
  then obtain s where s: "listener_run 100 dropped_connection acceptor_init = Some s" "la_closed s = [5]" "la_dropped s = [6]"
    "\<not> la_open s" by auto
  from accept_loop_never_stalls [OF listener_run_reachable [OF listener_begin s(1)]] s show ?thesis by blast
qed

end
