(* ===== verification/SyncSockets.thy ===== *)
theory SyncSockets
  imports SyncTransport DatagramServer Tls
begin

text \<open>
  The blocking transports over TLS and over datagram sockets, \<^verbatim>\<open>src/src/easynetwork/lowlevel/api_sync/transports/socket.py\<close>
  (\<^verbatim>\<open>SSLStreamTransport\<close>, \<^verbatim>\<open>SocketDatagramTransport\<close>), and the datagram endpoints, blocking
  (\<^verbatim>\<open>lowlevel/api_sync/endpoints/datagram.py\<close>) and asynchronous (\<^verbatim>\<open>lowlevel/api_async/endpoints/datagram.py\<close>).
\<close>

section \<open>SSLStreamTransport\<close>

text \<open>The methods of the standard library's \<^verbatim>\<open>SSLSocket\<close>, which raise its own exceptions, and its closing.\<close>

record 'w ssl_socket =
  sl_do_handshake :: "'w \<Rightarrow> (exc + unit) \<times> 'w"
  sl_unwrap :: "'w \<Rightarrow> (exc + unit) \<times> 'w"
  sl_recv :: "nat \<Rightarrow> 'w \<Rightarrow> (exc + bytes) \<times> 'w"
  sl_send :: "bytes \<Rightarrow> 'w \<Rightarrow> (exc + nat) \<times> 'w"
  sl_shutdown :: "'w \<Rightarrow> exc option \<times> 'w"
  sl_close :: "'w \<Rightarrow> exc option \<times> 'w"

fun is_ssl_error_named :: "string \<Rightarrow> exc \<Rightarrow> bool" where
  "is_ssl_error_named class_name (OSError name _) \<longleftrightarrow> name = class_name"
| "is_ssl_error_named class_name _ \<longleftrightarrow> False"

definition try_ssl_method :: "('w \<Rightarrow> (exc + 'r) \<times> 'w) \<Rightarrow> 'w \<Rightarrow> 'r attempt \<times> 'w" where
  "try_ssl_method socket_method w =
     (case socket_method w of
        (Inr r, w') \<Rightarrow> (Got r, w')
      | (Inl e, w') \<Rightarrow>
          (if is_ssl_error_named ''SSLWantReadError'' e \<or> is_ssl_error_named ''SSLSyscallError'' e then WouldBlockOnRead
           else if is_ssl_error_named ''SSLWantWriteError'' e then WouldBlockOnWrite
           else Failed e, w'))"

definition ssl_recv_noblock :: "'w ssl_socket \<Rightarrow> nat \<Rightarrow> 'w \<Rightarrow> bytes attempt \<times> 'w" where
  "ssl_recv_noblock S bufsize w =
     (case try_ssl_method (sl_recv S bufsize) w of
        (Failed e, w') \<Rightarrow> (if is_ssl_error_named ''SSLZeroReturnError'' e then Got [] else Failed e, w')
      | r \<Rightarrow> r)"

definition ssl_send_noblock :: "'w ssl_socket \<Rightarrow> bytes \<Rightarrow> 'w \<Rightarrow> nat attempt \<times> 'w" where
  "ssl_send_noblock S data w =
     (case try_ssl_method (sl_send S data) w of
        (Failed e, w') \<Rightarrow>
          (Failed (if is_ssl_error_named ''SSLZeroReturnError'' e then error_from_errno ''ECONNRESET'' else e), w')
      | r \<Rightarrow> r)"

text \<open>\<^verbatim>\<open>finally: close()\<close>: an exception of the clean-up replaces the one that is passing.\<close>

definition finally_close :: "('w \<Rightarrow> exc option \<times> 'w) \<Rightarrow> exc option \<times> 'w \<Rightarrow> exc option \<times> 'w" where
  "finally_close close body =
     (case body of (e, w) \<Rightarrow> (case close w of (None, w') \<Rightarrow> (e, w') | (Some e', w') \<Rightarrow> (Some e', w')))"

definition close_stream_socket :: "'w ssl_socket \<Rightarrow> 'w \<Rightarrow> exc option \<times> 'w" where
  "close_stream_socket S w =
     finally_close (sl_close S)
       (case sl_shutdown S w of
          (Some e, w') \<Rightarrow> (if is_OSError e then None else Some e, w')
        | (None, w') \<Rightarrow> (None, w'))"

definition result_error :: "(exc + 'r) \<times> 'w \<Rightarrow> exc option \<times> 'w" where
  "result_error out = (case out of (Inl e, w) \<Rightarrow> (Some e, w) | (Inr _, w) \<Rightarrow> (None, w))"

text \<open>The handshake of the constructor, which closes the socket when it fails; \<^verbatim>\<open>close\<close>.\<close>

definition ssl_handshake ::
  "nat \<Rightarrow> 'w os \<Rightarrow> 'w ssl_socket \<Rightarrow> delay \<Rightarrow> raw_delay \<Rightarrow> 'w \<Rightarrow> (exc option \<times> 'w) option"
where
  "ssl_handshake fuel os S interval handshake_timeout w =
     map_option
       (\<lambda>out. case result_error out of
          (None, w') \<Rightarrow> (None, w')
        | (Some e, w') \<Rightarrow> finally_close (sl_close S) (Some e, w'))
       (retry fuel os interval (try_ssl_method (sl_do_handshake S)) handshake_timeout w)"

fun is_ValueError :: "exc \<Rightarrow> bool" where
  "is_ValueError (ValueError _) = True"
| "is_ValueError _ = False"

text \<open>The closing handshake, whose failure on the connection does not matter.\<close>

definition ssl_unwrap_quietly ::
  "nat \<Rightarrow> 'w os \<Rightarrow> 'w ssl_socket \<Rightarrow> delay \<Rightarrow> raw_delay \<Rightarrow> 'w \<Rightarrow> (exc option \<times> 'w) option"
where
  "ssl_unwrap_quietly fuel os S interval shutdown_timeout w =
     map_option
       (\<lambda>out. case result_error out of
          (Some e, w') \<Rightarrow> (if is_OSError e \<or> is_ValueError e then None else Some e, w')
        | (None, w') \<Rightarrow> (None, w'))
       (retry fuel os interval (try_ssl_method (sl_unwrap S)) shutdown_timeout w)"

definition ssl_close ::
  "nat \<Rightarrow> 'w os \<Rightarrow> 'w ssl_socket \<Rightarrow> delay \<Rightarrow> raw_delay \<Rightarrow> bool \<Rightarrow> 'w \<Rightarrow> (exc option \<times> 'w) option"
where
  "ssl_close fuel os S interval shutdown_timeout standard_compatible w =
     map_option (finally_close (close_stream_socket S))
       (if standard_compatible \<and> os_fileno os w \<ge> 0 then ssl_unwrap_quietly fuel os S interval shutdown_timeout w
        else Some (None, w))"

section \<open>SocketDatagramTransport\<close>

text \<open>A datagram is received whole, cut at the maximum size, and sent whole.\<close>

definition socket_datagram_recv :: "nat \<Rightarrow> 'w os \<Rightarrow> delay \<Rightarrow> nat \<Rightarrow> raw_delay \<Rightarrow> 'w \<Rightarrow> ((exc + bytes) \<times> 'w) option" where
  "socket_datagram_recv fuel os interval max_datagram_size timeout w =
     retry_value (retry fuel os interval (socket_recv_noblock os max_datagram_size) timeout w)"

definition socket_datagram_send :: "nat \<Rightarrow> 'w os \<Rightarrow> delay \<Rightarrow> bytes \<Rightarrow> raw_delay \<Rightarrow> 'w \<Rightarrow> (exc option \<times> 'w) option" where
  "socket_datagram_send fuel os interval data timeout w =
     map_option result_error (retry fuel os interval (socket_send_noblock os data) timeout w)"

section \<open>The blocking endpoint\<close>

definition datagram_sender_send ::
  "('p \<Rightarrow> exc + bytes) \<Rightarrow> (bytes \<Rightarrow> raw_delay \<Rightarrow> 'w \<Rightarrow> (exc option \<times> 'w) option) \<Rightarrow> 'p \<Rightarrow> raw_delay \<Rightarrow> 'w
     \<Rightarrow> (exc option \<times> 'w) option"
where
  "datagram_sender_send make_dg send packet timeout w =
     (case make_dg packet of
        Inl e \<Rightarrow> Some (Some (if is_Exception e then RuntimeError ''protocol.make_datagram() crashed'' else e), w)
      | Inr datagram \<Rightarrow> send datagram timeout w)"

definition datagram_receiver_receive ::
  "(bytes \<Rightarrow> exc + 'p) \<Rightarrow> (raw_delay \<Rightarrow> 'w \<Rightarrow> ((exc + bytes) \<times> 'w) option) \<Rightarrow> raw_delay \<Rightarrow> 'w \<Rightarrow> ((exc + 'p) \<times> 'w) option"
where
  "datagram_receiver_receive build recv timeout w =
     map_option (\<lambda>(r, w'). (result_bind r (parse_datagram build), w')) (recv timeout w)"

definition datagram_receiver_receive_with_ancillary ::
  "(bytes \<Rightarrow> exc + 'p) \<Rightarrow> (raw_delay \<Rightarrow> 'w \<Rightarrow> ((exc + bytes \<times> 'a) \<times> 'w) option) \<Rightarrow> ('a \<Rightarrow> 'w \<Rightarrow> exc option \<times> 'w)
     \<Rightarrow> raw_delay \<Rightarrow> 'w \<Rightarrow> ((exc + 'p) \<times> 'w) option"
where
  "datagram_receiver_receive_with_ancillary build recv_with_ancillary ancillary_data_received timeout w =
     map_option
       (\<lambda>(r, w1). case r of
          Inl e \<Rightarrow> (Inl e, w1)
        | Inr (datagram, ancdata) \<Rightarrow>
            (case ancillary_data_received ancdata w1 of
               (Some e, w2) \<Rightarrow> (Inl (if is_Exception e then RuntimeError ''ancillary_data_received() crashed'' else e), w2)
             | (None, w2) \<Rightarrow> (parse_datagram build datagram, w2)))
       (recv_with_ancillary timeout w)"

text \<open>\<^verbatim>\<open>None\<close> is no limit.\<close>

definition endpoint_timeout :: "raw_delay option \<Rightarrow> raw_delay" where
  "endpoint_timeout timeout = (case timeout of None \<Rightarrow> Delay Infinity | Some t \<Rightarrow> t)"

definition datagram_endpoint_send where
  "datagram_endpoint_send make_dg send packet timeout w = datagram_sender_send make_dg send packet (endpoint_timeout timeout) w"

definition datagram_endpoint_recv where
  "datagram_endpoint_recv build recv timeout w = datagram_receiver_receive build recv (endpoint_timeout timeout) w"

section \<open>The asynchronous endpoint\<close>

text \<open>
  One guard for sending and one for receiving, read and written in the state; while the transport awaits other tasks run, so that
  the guard is entered before the operation and left after it, in the state it finds then.
\<close>

record 'w guard_place =
  gp_get :: "'w \<Rightarrow> resource_guard"
  gp_put :: "resource_guard \<Rightarrow> 'w \<Rightarrow> 'w"

definition guarded :: "'w guard_place \<Rightarrow> ('w \<Rightarrow> (exc + 'r) \<times> 'w) \<Rightarrow> 'w \<Rightarrow> (exc + 'r) \<times> 'w" where
  "guarded G body w =
     (case guard_enter (gp_get G w) of
        Inl e \<Rightarrow> (Inl e, w)
      | Inr g \<Rightarrow>
          (case body (gp_put G g w) of
             (r, w') \<Rightarrow>
               (case guard_exit (gp_get G w') of
                  Inl e \<Rightarrow> (Inl e, w')
                | Inr g' \<Rightarrow> (r, gp_put G g' w'))))"

definition async_datagram_send ::
  "('p \<Rightarrow> exc + bytes) \<Rightarrow> (bytes \<Rightarrow> 'w \<Rightarrow> (exc + unit) \<times> 'w) \<Rightarrow> 'w guard_place \<Rightarrow> 'p \<Rightarrow> 'w \<Rightarrow> (exc + unit) \<times> 'w"
where
  "async_datagram_send make_dg send G packet w =
     guarded G
       (\<lambda>w1. case make_dg packet of
          Inl e \<Rightarrow> (Inl (if is_Exception e then RuntimeError ''protocol.make_datagram() crashed'' else e), w1)
        | Inr datagram \<Rightarrow> send datagram w1) w"

definition async_datagram_recv ::
  "(bytes \<Rightarrow> exc + 'p) \<Rightarrow> ('w \<Rightarrow> (exc + bytes) \<times> 'w) \<Rightarrow> 'w guard_place \<Rightarrow> 'w \<Rightarrow> (exc + 'p) \<times> 'w"
where
  "async_datagram_recv build recv G w =
     guarded G (\<lambda>w1. case recv w1 of (r, w2) \<Rightarrow> (result_bind r (parse_datagram build), w2)) w"

section \<open>Closing a blocking TLS transport\<close>

lemma finally_close_closes: "closes is_closed close \<Longrightarrow> is_closed (snd (finally_close close body))"
  by (cases body) (auto simp: finally_close_def closes_def split: prod.splits option.splits, (metis snd_conv)+)

lemma close_stream_socket_closes: "closes is_closed (sl_close S) \<Longrightarrow> closes is_closed (close_stream_socket S)"
  by (simp add: closes_def close_stream_socket_def finally_close_closes [unfolded closes_def])

lemma deadline_retry_returns:
  assumes "timely os" and "steady os callback" and "Finite 0 < interval" and "0 \<le> i" and "nat i + 1 < fuel"
  shows "\<exists>out. retry fuel os interval callback (Delay (Finite i)) w = Some out"
  using retry_loop_terminates [OF assms, of w] assms(4) by (auto simp: retry_def validate_timeout_delay_def)

text \<open>
  Upper bounds of time.  A selector overshoots the time it is asked to wait by at most \<open>d\<close>, and an operation that does not
  block takes at most \<open>c\<close>.
\<close>

definition prompt :: "int \<Rightarrow> 'w os \<Rightarrow> bool" where
  "prompt d os \<longleftrightarrow> (\<forall>ev wait w. 0 < wait \<longrightarrow> os_clock os (snd (os_select os ev (Finite wait) w)) \<le> os_clock os w + wait + d)"

definition takes_at_most :: "int \<Rightarrow> 'w os \<Rightarrow> ('w \<Rightarrow> 'r \<times> 'w) \<Rightarrow> bool" where
  "takes_at_most c os act \<longleftrightarrow>
     (\<forall>w. os_clock os w \<le> os_clock os (snd (act w)) \<and> os_clock os (snd (act w)) \<le> os_clock os w + c)"

definition quick_socket :: "int \<Rightarrow> 'w os \<Rightarrow> 'w ssl_socket \<Rightarrow> bool" where
  "quick_socket c os S \<longleftrightarrow>
     takes_at_most c os (sl_unwrap S) \<and> takes_at_most c os (sl_do_handshake S) \<and>
     takes_at_most c os (sl_shutdown S) \<and> takes_at_most c os (sl_close S)"

lemma takes_at_mostD:
  assumes "takes_at_most c os act" and "act w = (r, w')"
  shows "os_clock os w \<le> os_clock os w'" and "os_clock os w' \<le> os_clock os w + c" and "0 \<le> c"
proof -
  have "os_clock os w \<le> os_clock os (snd (act w)) \<and> os_clock os (snd (act w)) \<le> os_clock os w + c"
    using assms(1) unfolding takes_at_most_def by blast
  with assms(2) show "os_clock os w \<le> os_clock os w'" and "os_clock os w' \<le> os_clock os w + c" and "0 \<le> c" by auto
qed

lemma try_ssl_method_time: "takes_at_most c os m \<Longrightarrow> takes_at_most c os (try_ssl_method m)"
  by (simp add: takes_at_most_def try_ssl_method_def split_beta split: sum.split)

lemma takes_steady: "takes_at_most c os act \<Longrightarrow> steady os act"
  by (simp add: takes_at_most_def steady_def)

lemma retry_wait_at_most:
  assumes "prompt d os" and "Finite 0 < interval" and "0 \<le> i" and "0 \<le> d"
    and "retry_wait os interval ev (Finite i) w = (r, w')"
  shows "os_clock os w' \<le> os_clock os w + (if 0 < i then i + d else 0)"
proof (cases "0 < i")
  case False
  with assms(3,5) show ?thesis by (simp add: retry_wait_def)
next
  case True
  define wait where "wait = (if \<not> Finite i \<le> interval then interval else Finite i)"
  have "\<exists>j. wait = Finite j \<and> 0 < j \<and> j \<le> i"
    using assms(2) True by (cases interval) (simp_all add: wait_def)
  then obtain j where j: "wait = Finite j" "0 < j" "j \<le> i" by blast
  obtain a w2 where sel: "os_select os ev wait w = (a, w2)" by fastforce
  have "os_clock os (snd (os_select os ev (Finite j) w)) \<le> os_clock os w + j + d"
    using assms(1) j(2) unfolding prompt_def by blast
  with sel j have "os_clock os w2 \<le> os_clock os w + i + d" by simp
  moreover have "w' = w \<or> w' = w2"
    using assms(5) sel unfolding wait_def by (auto simp: retry_wait_def Let_def split: if_splits sum.splits)
  ultimately show ?thesis using True assms(4) by auto
qed

lemma retry_loop_at_most:
  assumes "timely os" and "prompt d os" and "takes_at_most c os callback" and "Finite 0 < interval" and "0 \<le> d"
    and "0 \<le> i" and "retry_loop fuel os interval callback (Finite i) w = Some (res, w')"
  shows "os_clock os w' \<le> os_clock os w + (if 0 < i then i + d else 0) + (i + 2) * c"
  using assms(6,7)
proof (induction fuel arbitrary: i w)
  case (Suc fuel)
  obtain a w1 where cb: "callback w = (a, w1)" by fastforce
  note t1 = takes_at_mostD [OF assms(3) cb]
  have c: "c \<le> (i + 2) * c" using mult_right_mono [of 1 "i + 2" c] t1(3) Suc.prems(1) by simp
  have step: ?case if "a = WouldBlockOnRead \<and> ev = EventRead \<or> a = WouldBlockOnWrite \<and> ev = EventWrite" for ev
  proof -
    obtain o2 w2 where wait: "retry_wait os interval ev (Finite i) w1 = (o2, w2)" by fastforce
    note least = retry_wait_time [OF assms(1,4) Suc.prems(1) wait]
    note most = retry_wait_at_most [OF assms(2,4) Suc.prems(1) assms(5) wait]
    show ?thesis
    proof (cases o2)
      case (Inl e)
      with Suc.prems(2) that cb wait have "w' = w2" by auto
      with most t1 c show ?thesis by (simp split: if_splits)
    next
      case (Inr t)
      with least(2) obtain j where j: "t = Finite j" "0 \<le> j" "0 < i" "os_clock os w1 + 1 \<le> os_clock os w2"
        "j = max 0 (i - (os_clock os w2 - os_clock os w1))" by auto
      with Suc.prems(2) that cb wait Inr have "retry_loop fuel os interval callback (Finite j) w2 = Some (res, w')" by auto
      from Suc.IH [OF j(2) this] have ih: "os_clock os w' \<le> os_clock os w2 + (if 0 < j then j + d else 0) + (j + 2) * c" .
      have "(j + 3) * c \<le> (i + 2) * c" using j t1(3) by (intro mult_right_mono) auto
      then have "(j + 2) * c + c \<le> (i + 2) * c" by (simp add: algebra_simps)
      with ih most t1 j show ?thesis by (auto split: if_splits)
    qed
  qed
  show ?case
  proof (cases a)
    case (Got r)
    with Suc.prems cb have "w' = w1" by auto
    with t1 c Suc.prems(1) assms(5) show ?thesis by auto
  next
    case (Failed e)
    with Suc.prems cb have "w' = w1" by auto
    with t1 c Suc.prems(1) assms(5) show ?thesis by auto
  qed (use step in auto)
qed simp

lemma deadline_retry_time:
  assumes "timely os" and "prompt d os" and "takes_at_most c os callback" and "Finite 0 < interval" and "0 \<le> d"
    and "0 \<le> i" and "nat i + 1 < fuel"
  obtains res w' where "retry fuel os interval callback (Delay (Finite i)) w = Some (res, w')"
    and "os_clock os w' \<le> os_clock os w + i + d + (i + 2) * c"
proof -
  from deadline_retry_returns [OF assms(1) takes_steady [OF assms(3)] assms(4,6,7)] obtain res w'
    where run: "retry fuel os interval callback (Delay (Finite i)) w = Some (res, w')" by fastforce
  then have "retry_loop fuel os interval callback (Finite i) w = Some (res, w')"
    using assms(6) by (simp add: retry_def validate_timeout_delay_def)
  from retry_loop_at_most [OF assms(1-6) this] assms(5,6)
  have "os_clock os w' \<le> os_clock os w + i + d + (i + 2) * c" by (auto split: if_splits)
  with run that show ?thesis by blast
qed

lemma finally_close_time:
  assumes "takes_at_most c os close" and "finally_close close (e, w) = (r, w')"
  shows "os_clock os w' \<le> os_clock os w + c"
proof -
  obtain x w1 where x: "close w = (x, w1)" by fastforce
  with assms(2) have "w' = w1" by (auto simp: finally_close_def split: option.splits)
  with takes_at_mostD(2) [OF assms(1) x] show ?thesis by simp
qed

lemma close_stream_socket_time:
  assumes "quick_socket c os S" and "finally_close (close_stream_socket S) (e, w) = (r, w')"
  shows "os_clock os w' \<le> os_clock os w + 2 * c"
proof -
  have quick: "takes_at_most c os (sl_shutdown S)" "takes_at_most c os (sl_close S)"
    using assms(1) by (simp_all add: quick_socket_def)
  obtain x w1 where x: "sl_shutdown S w = (x, w1)" by fastforce
  obtain y w2 where y: "close_stream_socket S w = (y, w2)" by fastforce
  with assms(2) have "w' = w2" by (auto simp: finally_close_def split: option.splits)
  moreover have "finally_close (sl_close S) (case x of Some e \<Rightarrow> if is_OSError e then None else Some e | None \<Rightarrow> None, w1) = (y, w2)"
    using x y by (cases x) (simp_all add: close_stream_socket_def)
  from finally_close_time [OF quick(2) this] takes_at_mostD(2) [OF quick(1) x]
  have "os_clock os w2 \<le> os_clock os w + 2 * c" by simp
  ultimately show ?thesis by simp
qed

lemma ssl_close_time:
  assumes "timely os" and "prompt d os" and "quick_socket c os S" and "Finite 0 < interval" and "0 \<le> d"
    and "0 \<le> i" and "nat i + 1 < fuel"
  shows "\<exists>r w' body. ssl_close fuel os S interval (Delay (Finite i)) standard_compatible w = Some (r, w')
    \<and> (r, w') = finally_close (close_stream_socket S) body
    \<and> os_clock os w' \<le> os_clock os w + i + d + (i + 4) * c"
proof -
  have quick: "takes_at_most c os (try_ssl_method (sl_unwrap S))"
    using assms(3) by (simp add: quick_socket_def try_ssl_method_time)
  then have "0 \<le> c" using takes_at_mostD(3) by fastforce
  obtain res w1 where run: "retry fuel os interval (try_ssl_method (sl_unwrap S)) (Delay (Finite i)) w = Some (res, w1)"
    and w1: "os_clock os w1 \<le> os_clock os w + i + d + (i + 2) * c"
    by (rule deadline_retry_time [OF assms(1,2) quick assms(4-7)])
  then obtain e where quiet: "ssl_unwrap_quietly fuel os S interval (Delay (Finite i)) w = Some (e, w1)"
    by (cases res) (auto simp: ssl_unwrap_quietly_def result_error_def)
  obtain e0 w0 where body: "ssl_close fuel os S interval (Delay (Finite i)) standard_compatible w
      = Some (finally_close (close_stream_socket S) (e0, w0))" and w0: "os_clock os w0 \<le> os_clock os w + i + d + (i + 2) * c"
  proof (cases "standard_compatible \<and> 0 \<le> os_fileno os w")
    case True
    with quiet w1 that [of e w1] show ?thesis by (simp add: ssl_close_def)
  next
    case False
    have "0 \<le> (i + 2) * c" using \<open>0 \<le> c\<close> assms(6) by simp
    with False that [of None w] assms(5,6) show ?thesis by (auto simp: ssl_close_def)
  qed
  obtain r w' where r: "finally_close (close_stream_socket S) (e0, w0) = (r, w')" by fastforce
  have "os_clock os w' \<le> os_clock os w + i + d + (i + 4) * c"
    using close_stream_socket_time [OF assms(3) r] w0 by (simp add: algebra_simps)
  with body r show ?thesis by (intro exI [of _ r] exI [of _ w'] exI [of _ "(e0, w0)"]) simp
qed

lemma ssl_handshake_time:
  assumes "timely os" and "prompt d os" and "quick_socket c os S" and "Finite 0 < interval" and "0 \<le> d"
    and "0 \<le> i" and "nat i + 1 < fuel"
  shows "\<exists>r w'. ssl_handshake fuel os S interval (Delay (Finite i)) w = Some (r, w')
    \<and> (r = None \<or> (\<exists>body. (r, w') = finally_close (sl_close S) body))
    \<and> os_clock os w' \<le> os_clock os w + i + d + (i + 4) * c"
proof -
  have quick: "takes_at_most c os (try_ssl_method (sl_do_handshake S))" "takes_at_most c os (sl_close S)"
    using assms(3) by (simp_all add: quick_socket_def try_ssl_method_time)
  then have "0 \<le> c" using takes_at_mostD(3) by fastforce
  obtain res w1 where run: "retry fuel os interval (try_ssl_method (sl_do_handshake S)) (Delay (Finite i)) w = Some (res, w1)"
    and w1: "os_clock os w1 \<le> os_clock os w + i + d + (i + 2) * c"
    by (rule deadline_retry_time [OF assms(1,2) quick(1) assms(4-7)])
  show ?thesis
  proof (cases res)
    case (Inr x)
    have "(i + 2) * c \<le> (i + 4) * c" using \<open>0 \<le> c\<close> by (intro mult_right_mono) simp_all
    with Inr run w1 show ?thesis by (auto simp: ssl_handshake_def result_error_def)
  next
    case (Inl e)
    obtain r w' where r: "finally_close (sl_close S) (Some e, w1) = (r, w')" by fastforce
    have "os_clock os w' \<le> os_clock os w + i + d + (i + 4) * c"
      using finally_close_time [OF quick(2) r] w1 \<open>0 \<le> c\<close> by (simp add: algebra_simps)
    with Inl run r [symmetric] show ?thesis
      by (intro exI [of _ r] exI [of _ w']) (auto simp: ssl_handshake_def result_error_def)
  qed
qed

text \<open>
  C36: closing a blocking TLS transport, and opening one whose handshake fails, do not hang on the peer and leave no open
  descriptor.  Whatever the SSL object does, the call returns, the socket is closed when it has (or the handshake succeeded), and it takes no longer than its
  time limit \<open>i\<close>, the overshoot \<open>d\<close> of a single wait, and the time \<open>c\<close> of each operation that does not block, of which
  there are at most \<open>i + 4\<close>.
\<close>

theorem blocking_tls_close_returns:
  assumes "timely os" and "prompt d os" and "quick_socket c os S" and "Finite 0 < interval" and "0 \<le> d"
    and "0 \<le> i" and "nat i + 1 < fuel" and "closes is_closed (sl_close S)"
  shows "(\<exists>r w'. ssl_close fuel os S interval (Delay (Finite i)) standard_compatible w = Some (r, w') \<and> is_closed w'
      \<and> os_clock os w' \<le> os_clock os w + i + d + (i + 4) * c)
    \<and> (\<exists>r w'. ssl_handshake fuel os S interval (Delay (Finite i)) w = Some (r, w') \<and> (r = None \<or> is_closed w')
      \<and> os_clock os w' \<le> os_clock os w + i + d + (i + 4) * c)"
  using ssl_close_time [OF assms(1-7), of standard_compatible w] ssl_handshake_time [OF assms(1-7), of w]
    finally_close_closes [OF close_stream_socket_closes [OF assms(8)]] finally_close_closes [OF assms(8)]
  by (metis snd_conv)

section \<open>Datagrams arrive as packets\<close>

text \<open>
  Two histories of the world: the datagrams that were given to the network, and those that were taken from it, cut at the maximum
  size.  Nothing is said of how the network gets the second from the first: it may lose, reorder, repeat and block.
\<close>

locale datagram_channel =
  fixes sent got :: "'w \<Rightarrow> bytes list"
    and send :: "bytes \<Rightarrow> raw_delay \<Rightarrow> 'w \<Rightarrow> (exc option \<times> 'w) option"
    and recv :: "raw_delay \<Rightarrow> 'w \<Rightarrow> ((exc + bytes) \<times> 'w) option"
    and limited :: "raw_delay \<Rightarrow> bool"
  assumes sends: "send d t w = Some (r, w') \<Longrightarrow> got w' = got w \<and> sent w' = (if r = None then sent w @ [d] else sent w)"
    and receives: "recv t w = Some (out, w') \<Longrightarrow>
      sent w' = sent w \<and> got w' = (case out of Inl _ \<Rightarrow> got w | Inr d \<Rightarrow> got w @ [d])"
    and returns: "limited t \<Longrightarrow> send d t w \<noteq> None" "limited t \<Longrightarrow> recv t w \<noteq> None"

primrec send_packets where
  "send_packets make_dg send [] timeout w = Some ([], w)"
| "send_packets make_dg send (p # ps) timeout w =
     Option.bind (datagram_endpoint_send make_dg send p timeout w)
       (\<lambda>(r, w1). map_option (\<lambda>(rs, w2). (r # rs, w2)) (send_packets make_dg send ps timeout w1))"

primrec receive_packets where
  "receive_packets build recv 0 timeout w = Some ([], w)"
| "receive_packets build recv (Suc n) timeout w =
     Option.bind (datagram_endpoint_recv build recv timeout w)
       (\<lambda>(r, w1). map_option (\<lambda>(rs, w2). (r # rs, w2)) (receive_packets build recv n timeout w1))"

text \<open>What sending a packet gives: the error of serializing it, an error of the transport, or \<open>None\<close> and the datagram is sent.\<close>

definition make_error :: "exc \<Rightarrow> exc" where
  "make_error e = (if is_Exception e then RuntimeError ''protocol.make_datagram() crashed'' else e)"

definition send_result :: "('p \<Rightarrow> exc + bytes) \<Rightarrow> 'p \<Rightarrow> exc option \<Rightarrow> bool" where
  "send_result make_dg p r \<longleftrightarrow> (case make_dg p of Inl e \<Rightarrow> r = Some (make_error e) | Inr _ \<Rightarrow> True)"

definition sent_for :: "('p \<Rightarrow> exc + bytes) \<Rightarrow> 'p \<times> exc option \<Rightarrow> bytes list" where
  "sent_for make_dg out = (case make_dg (fst out) of Inl _ \<Rightarrow> [] | Inr d \<Rightarrow> if snd out = None then [d] else [])"

text \<open>The datagrams among the outcomes of the transport.\<close>

definition taken :: "(exc + bytes) list \<Rightarrow> bytes list" where
  "taken outs = concat (map (\<lambda>out. case out of Inl _ \<Rightarrow> [] | Inr d \<Rightarrow> [d]) outs)"

context datagram_channel begin

lemma sends_packets:
  assumes "limited (endpoint_timeout timeout)"
  shows "\<exists>rs w'. send_packets make_dg send ps timeout w = Some (rs, w') \<and> list_all2 (send_result make_dg) ps rs
    \<and> sent w' = sent w @ concat (map (sent_for make_dg) (zip ps rs)) \<and> got w' = got w"
proof (induction ps arbitrary: w)
  case (Cons p ps)
  have "\<exists>r w1. datagram_endpoint_send make_dg send p timeout w = Some (r, w1) \<and> send_result make_dg p r
    \<and> sent w1 = sent w @ sent_for make_dg (p, r) \<and> got w1 = got w"
  proof (cases "make_dg p")
    case (Inl e)
    then show ?thesis
      by (simp add: datagram_endpoint_send_def datagram_sender_send_def send_result_def sent_for_def make_error_def)
  next
    case (Inr d)
    obtain r w1 where 1: "send d (endpoint_timeout timeout) w = Some (r, w1)" using returns(1) [OF assms, of d w] by auto
    with Inr sends [OF 1] show ?thesis
      by (auto simp: datagram_endpoint_send_def datagram_sender_send_def send_result_def sent_for_def)
  qed
  then obtain r w1 where 1: "datagram_endpoint_send make_dg send p timeout w = Some (r, w1)" "send_result make_dg p r"
    "sent w1 = sent w @ sent_for make_dg (p, r)" "got w1 = got w" by blast
  from Cons [of w1] obtain rs w2 where "send_packets make_dg send ps timeout w1 = Some (rs, w2)"
    "list_all2 (send_result make_dg) ps rs" "sent w2 = sent w1 @ concat (map (sent_for make_dg) (zip ps rs))" "got w2 = got w1"
    by blast
  with 1 show ?case by (intro exI [of _ "r # rs"] exI [of _ w2]) simp
qed simp

lemma receives_packets:
  assumes "limited (endpoint_timeout timeout)"
  shows "\<exists>outs w'. receive_packets build recv n timeout w = Some (map (\<lambda>out. result_bind out (parse_datagram build)) outs, w')
    \<and> length outs = n \<and> got w' = got w @ taken outs \<and> sent w' = sent w"
proof (induction n arbitrary: w)
  case (Suc n)
  obtain out w1 where 1: "recv (endpoint_timeout timeout) w = Some (out, w1)" using returns(2) [OF assms, of w] by auto
  note h = receives [OF 1]
  from Suc [of w1] obtain outs w2 where
    "receive_packets build recv n timeout w1 = Some (map (\<lambda>out. result_bind out (parse_datagram build)) outs, w2)"
    "length outs = n" "got w2 = got w1 @ taken outs" "sent w2 = sent w1" by blast
  with 1 h show ?case
    by (intro exI [of _ "out # outs"] exI [of _ w2])
      (auto simp: datagram_endpoint_recv_def datagram_receiver_receive_def taken_def split: sum.split)
qed (simp add: taken_def)

end

text \<open>
  The sockets are such a channel, whatever the network does, when the histories are kept by the operating system: an accepted
  datagram is sent, a datagram that is returned is taken.  A limit is finite, with enough fuel for its ticks.
\<close>

definition keeps_history :: "('w \<Rightarrow> bytes list) \<Rightarrow> ('w \<Rightarrow> bytes list) \<Rightarrow> 'w os \<Rightarrow> bool" where
  "keeps_history sent got os \<longleftrightarrow>
     (\<forall>d w r w'. os_send os d w = (r, w') \<longrightarrow>
        got w' = got w \<and> sent w' = (case r of Ok _ \<Rightarrow> sent w @ [d] | _ \<Rightarrow> sent w)) \<and>
     (\<forall>n w r w'. os_recv os n w = (r, w') \<longrightarrow>
        sent w' = sent w \<and> got w' = (case r of Ok d \<Rightarrow> got w @ [d] | _ \<Rightarrow> got w)) \<and>
     (\<forall>ev t w. sent (snd (os_select os ev t w)) = sent w \<and> got (snd (os_select os ev t w)) = got w)"

definition limited_by :: "nat \<Rightarrow> raw_delay \<Rightarrow> bool" where
  "limited_by fuel t \<longleftrightarrow> (case t of NaN \<Rightarrow> 0 < fuel | Delay (Finite i) \<Rightarrow> nat i + 1 < fuel | Delay Infinity \<Rightarrow> False)"

lemma limited_retry_returns:
  assumes "timely os" and "steady os callback" and "Finite 0 < interval" and "limited_by fuel t"
  shows "retry fuel os interval callback t w \<noteq> None"
proof (cases "validate_timeout_delay t True")
  case (Inr d)
  with assms(4) obtain i where "t = Delay (Finite i)" "0 \<le> i" "nat i + 1 < fuel"
    by (auto simp: limited_by_def validate_timeout_delay_def split: raw_delay.splits delay.splits if_splits)
  with deadline_retry_returns [OF assms(1-3)] show ?thesis by fastforce
qed (simp add: retry_def)

lemma sockets_are_channel:
  assumes "keeps_history sent got os" and "timely os" and "Finite 0 < interval"
    and "\<And>d. steady os (socket_send_noblock os d)" and "steady os (socket_recv_noblock os max_size)"
  shows "datagram_channel sent got (socket_datagram_send fuel os interval) (socket_datagram_recv fuel os interval max_size)
    (limited_by fuel)"
proof
  note send_hist = conjunct1 [OF assms(1) [unfolded keeps_history_def]]
  note recv_hist = conjunct1 [OF conjunct2 [OF assms(1) [unfolded keeps_history_def]]]
  note select_hist = conjunct2 [OF conjunct2 [OF assms(1) [unfolded keeps_history_def]]]
  fix t w
  show "got w' = got w \<and> sent w' = (if r = None then sent w @ [d] else sent w)"
    if send: "socket_datagram_send fuel os interval d t w = Some (r, w')" for d r w'
  proof -
    let ?J = "\<lambda>v. got v = got w \<and> sent v = sent w"
    obtain res where run: "retry fuel os interval (socket_send_noblock os d) t w = Some (res, w')"
      and r: "r = (case res of Inl e \<Rightarrow> Some e | Inr _ \<Rightarrow> None)"
      using send unfolding socket_datagram_send_def result_error_def
      by (cases "retry fuel os interval (socket_send_noblock os d) t w") (auto split: prod.splits sum.splits)
    have step: "got v' = got v \<and> sent v' = (case a of Got _ \<Rightarrow> sent v @ [d] | _ \<Rightarrow> sent v)"
      if "socket_send_noblock os d v = (a, v')" for v a v'
      using that send_hist by (auto simp: socket_send_noblock_def split: prod.splits os_result.splits)
    have "case res of Inr (x, t') \<Rightarrow> \<exists>v. ?J v \<and> socket_send_noblock os d v = (Got x, w')
        | Inl e \<Rightarrow> ?J w' \<or> (\<exists>v. ?J v \<and> socket_send_noblock os d v = (Failed e, w'))"
      by (rule retry_inv [where J = ?J, OF _ _ _ run]) (use step select_hist in \<open>auto split: attempt.splits\<close>)
    then show ?thesis unfolding r using step by (auto split: sum.splits)
  qed
  show "sent w' = sent w \<and> got w' = (case out of Inl _ \<Rightarrow> got w | Inr d \<Rightarrow> got w @ [d])"
    if recv: "socket_datagram_recv fuel os interval max_size t w = Some (out, w')" for out w'
  proof -
    let ?J = "\<lambda>v. sent v = sent w \<and> got v = got w"
    obtain res where run: "retry fuel os interval (socket_recv_noblock os max_size) t w = Some (res, w')"
      and out: "out = (case res of Inl e \<Rightarrow> Inl e | Inr (d, _) \<Rightarrow> Inr d)"
      using recv by (auto simp: socket_datagram_recv_def retry_value_def split: option.splits sum.splits)
    have step: "sent v' = sent v \<and> got v' = (case a of Got d \<Rightarrow> got v @ [d] | _ \<Rightarrow> got v)"
      if "socket_recv_noblock os max_size v = (a, v')" for v a v'
      using that recv_hist by (auto simp: socket_recv_noblock_def split: prod.splits os_result.splits)
    have "case res of Inr (x, t') \<Rightarrow> \<exists>v. ?J v \<and> socket_recv_noblock os max_size v = (Got x, w')
        | Inl e \<Rightarrow> ?J w' \<or> (\<exists>v. ?J v \<and> socket_recv_noblock os max_size v = (Failed e, w'))"
      by (rule retry_inv [where J = ?J, OF _ _ _ run]) (use step select_hist in \<open>auto split: attempt.splits\<close>)
    then show ?thesis unfolding out using step by (auto split: sum.splits)
  qed
  show "socket_datagram_send fuel os interval d t w \<noteq> None" if "limited_by fuel t" for d
    using limited_retry_returns [OF assms(2,4,3) that] by (simp add: socket_datagram_send_def)
  show "socket_datagram_recv fuel os interval max_size t w \<noteq> None" if "limited_by fuel t"
    using limited_retry_returns [OF assms(2,5,3) that, of w]
    by (auto simp: socket_datagram_recv_def retry_value_def split: option.split sum.split)
qed

text \<open>A network that loses the datagrams of one byte and delivers the others in reverse order.\<close>

record network =
  nw_clock :: int
  nw_flight :: "bytes list"
  nw_sent :: "bytes list"
  nw_got :: "bytes list"

definition lossy_os :: "network os" where
  "lossy_os =
     \<lparr>os_clock = nw_clock, os_fileno = \<lambda>w. 3,
      os_select = \<lambda>ev d w. (Inr False, w\<lparr>nw_clock := nw_clock w + (case d of Finite i \<Rightarrow> max 1 i | Infinity \<Rightarrow> 1)\<rparr>),
      os_recv = \<lambda>n w. (case nw_flight w of
                         [] \<Rightarrow> (Blocking, w)
                       | d # ds \<Rightarrow> (Ok (take n d), w\<lparr>nw_flight := ds, nw_got := nw_got w @ [take n d]\<rparr>)),
      os_send = \<lambda>d w. (Ok (length d), w\<lparr>nw_sent := nw_sent w @ [d],
                                       nw_flight := (if length d = 1 then nw_flight w else d # nw_flight w)\<rparr>),
      os_sendmsg = \<lambda>ds w. (Blocking, w), os_shutdown_write = \<lambda>w. (Ok (), w)\<rparr>"

lemma lossy_network:
  "keeps_history nw_sent nw_got lossy_os" "timely lossy_os" "steady lossy_os (socket_send_noblock lossy_os d)"
  "steady lossy_os (socket_recv_noblock lossy_os max_size)"
proof -
  show "keeps_history nw_sent nw_got lossy_os" by (auto simp: keeps_history_def lossy_os_def split: list.splits)
  show "timely lossy_os" by (auto simp: timely_def lossy_os_def)
  show "steady lossy_os (socket_send_noblock lossy_os d)" "steady lossy_os (socket_recv_noblock lossy_os max_size)"
    by (auto simp: steady_def lossy_os_def socket_send_noblock_def socket_recv_noblock_def split: list.split)
qed

interpretation lossy: datagram_channel nw_sent nw_got "socket_datagram_send fuel lossy_os (Finite 1)"
    "socket_datagram_recv fuel lossy_os (Finite 1) max_size" "limited_by fuel" for fuel max_size
  by (rule sockets_are_channel [OF lossy_network(1,2) _ lossy_network(3,4)]) simp

lemma received_packets_sent:
  assumes "set (taken outs) \<subseteq> {d. \<exists>p\<in>set ps. make_dg p = Inr d}"
    and "list_all (\<lambda>p. case make_dg p of Inl _ \<Rightarrow> True | Inr d \<Rightarrow> build d = Inr (f p)) ps"
  shows "list_all (\<lambda>out. case out of
      Inl _ \<Rightarrow> True | Inr d \<Rightarrow> (\<exists>p\<in>set ps. make_dg p = Inr d \<and> parse_datagram build d = Inr (f p))) outs"
proof -
  have "\<exists>p\<in>set ps. make_dg p = Inr d \<and> parse_datagram build d = Inr (f p)" if "Inr d \<in> set outs" for d
  proof -
    have "d \<in> set (taken outs)" using that by (force simp: taken_def)
    with assms(1) obtain p where p: "p \<in> set ps" "make_dg p = Inr d" by blast
    with assms(2) have "build d = Inr (f p)" by (auto simp: list_all_iff dest!: bspec)
    with p show ?thesis by (auto simp: parse_datagram_def)
  qed
  then show ?thesis by (auto simp: list_all_iff split: sum.split)
qed

text \<open>
  C37: datagram endpoints send packets as datagrams and receive datagrams as packets, one for one, over any network, within a finite
  time limit for each call.  Every call returns.  Sending gives the network exactly the datagrams of the packets whose call
  reported no error, in order; a packet that cannot be serialized gives its error and sends nothing.  Every reception either fails
  without taking a datagram, or takes one and gives the packet it stands for or the error of parsing it, so that an invalid datagram costs itself only.  If
  the protocol reads back what it writes and the network delivers only datagrams that were sent for these packets, whole, then every reception
  gives one of the packets or the error of the transport.
\<close>

theorem datagram_endpoints_deliver:
  assumes "keeps_history sent got os" and "timely os" and "Finite 0 < interval"
    and "\<And>d. steady os (socket_send_noblock os d)" and "steady os (socket_recv_noblock os max_size)"
    and "limited_by fuel (endpoint_timeout timeout)"
  shows "(\<exists>rs w'. send_packets make_dg (socket_datagram_send fuel os interval) ps timeout w = Some (rs, w')
      \<and> list_all2 (send_result make_dg) ps rs
      \<and> sent w' = sent w @ concat (map (sent_for make_dg) (zip ps rs)) \<and> got w' = got w)
    \<and> (\<exists>outs v'. receive_packets build (socket_datagram_recv fuel os interval max_size) n timeout v
          = Some (map (\<lambda>out. result_bind out (parse_datagram build)) outs, v')
      \<and> length outs = n \<and> got v' = got v @ taken outs \<and> sent v' = sent v
      \<and> (set (taken outs) \<subseteq> {d. \<exists>p\<in>set ps. make_dg p = Inr d}
           \<and> list_all (\<lambda>p. case make_dg p of Inl _ \<Rightarrow> True | Inr d \<Rightarrow> build d = Inr (f p)) ps \<longrightarrow>
         list_all (\<lambda>out. case out of
             Inl _ \<Rightarrow> True | Inr d \<Rightarrow> (\<exists>p\<in>set ps. make_dg p = Inr d \<and> parse_datagram build d = Inr (f p))) outs))"
proof
  note channel = sockets_are_channel [OF assms(1-5), of fuel]
  from datagram_channel.sends_packets [OF channel assms(6)]
  show "\<exists>rs w'. send_packets make_dg (socket_datagram_send fuel os interval) ps timeout w = Some (rs, w')
      \<and> list_all2 (send_result make_dg) ps rs
      \<and> sent w' = sent w @ concat (map (sent_for make_dg) (zip ps rs)) \<and> got w' = got w" .
  from datagram_channel.receives_packets [OF channel assms(6), of build n v] obtain outs v' where
    outs: "receive_packets build (socket_datagram_recv fuel os interval max_size) n timeout v
        = Some (map (\<lambda>out. result_bind out (parse_datagram build)) outs, v')"
      "length outs = n" "got v' = got v @ taken outs" "sent v' = sent v" by blast
  show "\<exists>outs v'. receive_packets build (socket_datagram_recv fuel os interval max_size) n timeout v
          = Some (map (\<lambda>out. result_bind out (parse_datagram build)) outs, v')
      \<and> length outs = n \<and> got v' = got v @ taken outs \<and> sent v' = sent v
      \<and> (set (taken outs) \<subseteq> {d. \<exists>p\<in>set ps. make_dg p = Inr d}
           \<and> list_all (\<lambda>p. case make_dg p of Inl _ \<Rightarrow> True | Inr d \<Rightarrow> build d = Inr (f p)) ps \<longrightarrow>
         list_all (\<lambda>out. case out of
             Inl _ \<Rightarrow> True | Inr d \<Rightarrow> (\<exists>p\<in>set ps. make_dg p = Inr d \<and> parse_datagram build d = Inr (f p))) outs)"
    by (intro exI [of _ outs] exI [of _ v'] conjI impI outs) (elim conjE, rule received_packets_sent)
qed

text \<open>A peer that never answers the closing handshake: waiting for it lasts as long as asked, one tick at least.\<close>

definition silent_peer_os :: "(int \<times> bool) os" where
  "silent_peer_os =
     \<lparr>os_clock = fst, os_fileno = \<lambda>w. if snd w then -1 else 3,
      os_select = \<lambda>ev d w. (Inr False, fst w + (case d of Finite i \<Rightarrow> max 1 i | Infinity \<Rightarrow> 1), snd w),
      os_recv = \<lambda>n w. (Blocking, w), os_send = \<lambda>d w. (Ok (length d), w), os_sendmsg = \<lambda>ds w. (Ok (length (concat ds)), w),
      os_shutdown_write = \<lambda>w. (Ok (), w)\<rparr>"

definition silent_peer_tls :: "(int \<times> bool) ssl_socket" where
  "silent_peer_tls =
     \<lparr>sl_do_handshake = \<lambda>w. (Inr (), w), sl_unwrap = \<lambda>w. (Inl (OSError ''SSLWantReadError'' []), w),
      sl_recv = \<lambda>n w. (Inr [], w), sl_send = \<lambda>d w. (Inr (length d), w),
      sl_shutdown = \<lambda>w. (Some (error_from_errno ''ENOTCONN''), w), sl_close = \<lambda>w. (None, fst w, True)\<rparr>"

theorem blocking_tls_close_returns_witness:
  "\<exists>r w'. ssl_close 9 silent_peer_os silent_peer_tls (Finite 1) (Delay (Finite 5)) True (0, False) = Some (r, w') \<and> snd w'
    \<and> fst w' \<le> 5"
proof -
  have "timely silent_peer_os" "prompt 0 silent_peer_os" "quick_socket 0 silent_peer_os silent_peer_tls"
    "closes snd (sl_close silent_peer_tls)"
    by (auto simp: timely_def prompt_def quick_socket_def takes_at_most_def closes_def silent_peer_os_def silent_peer_tls_def)
  from blocking_tls_close_returns [OF this(1-3) _ _ _ _ this(4), of "Finite 1" 5 9 True "(0, False)"]
  show ?thesis by (simp add: silent_peer_os_def)
qed

text \<open>Three packets are sent, one of which is lost; of three receptions two find a datagram.\<close>

definition empty_network :: network where
  "empty_network = \<lparr>nw_clock = 0, nw_flight = [], nw_sent = [], nw_got = []\<rparr>"

theorem datagram_endpoints_deliver_witness:
  "(\<exists>rs w'. send_packets Inr (socket_datagram_send 9 lossy_os (Finite 1)) [''ab'', ''c'', ''de''] (Some (Delay (Finite 5))) empty_network
       = Some (rs, w') \<and> nw_sent w' = concat (map (sent_for Inr) (zip [''ab'', ''c'', ''de''] rs)))
   \<and> (\<exists>outs v'. receive_packets Inr (socket_datagram_recv 9 lossy_os (Finite 1) 65536) 3 (Some (Delay (Finite 5)))
          (empty_network\<lparr>nw_flight := [''de'', ''ab'']\<rparr>) = Some (map (\<lambda>out. result_bind out (parse_datagram Inr)) outs, v')
       \<and> length outs = 3 \<and> nw_got v' = taken outs)"
proof -
  have limit: "limited_by 9 (endpoint_timeout (Some (Delay (Finite 5))))"
    by (simp add: limited_by_def endpoint_timeout_def)
  from datagram_endpoints_deliver [OF lossy_network(1,2) _ lossy_network(3,4) limit, of "Finite 1" Inr "[''ab'', ''c'', ''de'']"
      empty_network Inr 65536 3 "empty_network\<lparr>nw_flight := [''de'', ''ab'']\<rparr>" "\<lambda>p. p"]
  show ?thesis by (auto simp: empty_network_def)
qed

end
