(* ===== verification/Adapters.thy ===== *)
theory Adapters
  imports FileBased
begin

text \<open>
  The serializers built on the libraries \<^verbatim>\<open>pickle\<close>, \<^verbatim>\<open>cbor2\<close> and \<^verbatim>\<open>msgpack\<close>: \<^verbatim>\<open>pickle.py\<close>, \<^verbatim>\<open>cbor.py\<close> and
  \<^verbatim>\<open>msgpack.py\<close> of \<^verbatim>\<open>src/src/easynetwork/serializers/\<close>.

  The libraries are parameters.  Reading from a file gives a result and the position at which the library left the file; \<open>str_exc\<close> is
  \<^verbatim>\<open>str(exc)\<close>, which the messages of the errors are made of.
\<close>

section \<open>Configurations\<close>

text \<open>An argument for a configuration is left out, is an object of the right class, or of another one.\<close>

datatype 'c config_arg = NoConfig | Config 'c | OtherObject

definition check_config :: "string \<Rightarrow> 'c \<Rightarrow> 'c config_arg \<Rightarrow> exc + 'c" where
  "check_config message default_config arg =
     (case arg of NoConfig \<Rightarrow> Inr default_config | Config c \<Rightarrow> Inr c | OtherObject \<Rightarrow> Inl (TypeError message))"

record pickler_config =
  pc_protocol :: int
  pc_fix_imports :: bool

record unpickler_config =
  uc_fix_imports :: bool
  uc_encoding :: string
  uc_errors :: string

definition default_pickler_config :: "int \<Rightarrow> pickler_config" where
  "default_pickler_config default_protocol = \<lparr>pc_protocol = default_protocol, pc_fix_imports = False\<rparr>"

definition default_unpickler_config :: unpickler_config where
  "default_unpickler_config = \<lparr>uc_fix_imports = False, uc_encoding = ''utf-8'', uc_errors = ''strict''\<rparr>"

text \<open>\<open>'h\<close> is the type of the hooks and other objects handed through to the library.\<close>

record 'h cbor_encoder_config =
  ce_datetime_as_timestamp :: bool
  ce_timezone :: "'h option"
  ce_value_sharing :: bool
  ce_default :: "'h option"
  ce_canonical :: bool
  ce_date_as_datetime :: bool
  ce_string_referencing :: bool
  ce_indefinite_containers :: bool

record 'h cbor_decoder_config =
  cd_object_hook :: "'h option"
  cd_tag_hook :: "'h option"
  cd_semantic_decoders :: "'h option"
  cd_str_errors :: string
  cd_max_depth :: int
  cd_allow_indefinite :: bool
  cd_allow_duplicate_keys :: bool
  cd_immutable :: bool

definition default_cbor_encoder_config :: "'h cbor_encoder_config" where
  "default_cbor_encoder_config =
     \<lparr>ce_datetime_as_timestamp = False, ce_timezone = None, ce_value_sharing = False, ce_default = None, ce_canonical = False,
      ce_date_as_datetime = False, ce_string_referencing = False, ce_indefinite_containers = False\<rparr>"

definition default_cbor_decoder_config :: "'h cbor_decoder_config" where
  "default_cbor_decoder_config =
     \<lparr>cd_object_hook = None, cd_tag_hook = None, cd_semantic_decoders = None, cd_str_errors = ''strict'', cd_max_depth = 400,
      cd_allow_indefinite = True, cd_allow_duplicate_keys = True, cd_immutable = False\<rparr>"

record 'h packer_config =
  mp_default :: "'h option"
  mp_use_single_float :: bool
  mp_use_bin_type :: bool
  mp_datetime :: bool
  mp_strict_types :: bool
  mp_unicode_errors :: string

record 'h unpacker_config =
  mu_raw :: bool
  mu_use_list :: bool
  mu_timestamp :: int
  mu_strict_map_key :: bool
  mu_unicode_errors :: string
  mu_object_hook :: "'h option"
  mu_object_pairs_hook :: "'h option"
  mu_ext_hook :: "'h option"

definition default_packer_config :: "'h packer_config" where
  "default_packer_config =
     \<lparr>mp_default = None, mp_use_single_float = False, mp_use_bin_type = True, mp_datetime = False, mp_strict_types = False,
      mp_unicode_errors = ''strict''\<rparr>"

definition default_unpacker_config :: "'h unpacker_config" where
  "default_unpacker_config =
     \<lparr>mu_raw = False, mu_use_list = True, mu_timestamp = 0, mu_strict_map_key = True, mu_unicode_errors = ''strict'',
      mu_object_hook = None, mu_object_pairs_hook = None, mu_ext_hook = None\<rparr>"

section \<open>PickleSerializer\<close>

text \<open>The library: a pickler and an unpickler for each configuration.\<close>

record ('s, 'r) pickle_library =
  pk_default_protocol :: int
  pk_dump :: "pickler_config \<Rightarrow> 's \<Rightarrow> exc + bytes"
  pk_load :: "unpickler_config \<Rightarrow> bytes \<Rightarrow> (exc + 'r) \<times> nat"
  pk_optimize :: "bytes \<Rightarrow> exc + bytes"

record ('s, 'r) pickle_serializer =
  ps_optimize :: "(bytes \<Rightarrow> exc + bytes) option"
  ps_dump :: "'s \<Rightarrow> exc + bytes"
  ps_load :: "bytes \<Rightarrow> (exc + 'r) \<times> nat"
  ps_debug :: bool

definition pickle_init ::
  "('s, 'r) pickle_library \<Rightarrow> pickler_config config_arg \<Rightarrow> unpickler_config config_arg \<Rightarrow> bool \<Rightarrow> bool \<Rightarrow> exc + ('s, 'r) pickle_serializer"
where
  "pickle_init lib pickler_config_arg unpickler_config_arg pickler_optimize debug =
     result_bind (check_config ''Invalid pickler config'' (default_pickler_config (pk_default_protocol lib)) pickler_config_arg)
       (\<lambda>pc. result_bind (check_config ''Invalid unpickler config'' default_unpickler_config unpickler_config_arg)
         (\<lambda>uc. Inr \<lparr>ps_optimize = (if pickler_optimize then Some (pk_optimize lib) else None),
                      ps_dump = pk_dump lib pc, ps_load = pk_load lib uc, ps_debug = debug\<rparr>))"

definition pickle_serialize :: "('s, 'r) pickle_serializer \<Rightarrow> 's \<Rightarrow> exc + bytes" where
  "pickle_serialize S packet =
     result_bind (ps_dump S packet) (\<lambda>pickle. case ps_optimize S of None \<Rightarrow> Inr pickle | Some optimize \<Rightarrow> optimize pickle)"

definition invalid_token :: "(exc \<Rightarrow> string) \<Rightarrow> exc \<Rightarrow> string" where
  "invalid_token str_exc e = (if str_exc e = [] then ''Invalid token'' else str_exc e)"

definition pickle_deserialize :: "(exc \<Rightarrow> string) \<Rightarrow> ('s, 'r) pickle_serializer \<Rightarrow> bytes \<Rightarrow> exc + 'r" where
  "pickle_deserialize str_exc S data =
     (case ps_load S data of
        (Inl e, _) \<Rightarrow>
          if is_Exception e
          then Inl (DeserializeError (invalid_token str_exc e) (if ps_debug S then Some [''data''] else None))
          else Inl e
      | (Inr packet, pos) \<Rightarrow>
          if drop pos data \<noteq> []
          then Inl (DeserializeError ''Extra data caught'' (if ps_debug S then Some [''packet'', ''extra''] else None))
          else Inr packet)"

section \<open>CBORSerializer\<close>

text \<open>
  The library with its two classes of errors; the decoder also takes the number of bytes it reads from the file at a time.
\<close>

record ('h, 's, 'r) cbor_library =
  cb_encode :: "'h cbor_encoder_config \<Rightarrow> 's \<Rightarrow> exc + bytes"
  cb_decode :: "'h cbor_decoder_config \<Rightarrow> nat \<Rightarrow> bool \<Rightarrow> bytes \<Rightarrow> (exc + 'r) \<times> nat"
  cb_is_CBORDecodeError :: "exc \<Rightarrow> bool"
  cb_is_CBORDecodeEOF :: "exc \<Rightarrow> bool"

definition cbor_dump_to_file where
  "cbor_dump_to_file lib encoder_config packet = cb_encode lib encoder_config packet"

definition cbor_load_from_file ::
  "('h, 's, 'r) cbor_library \<Rightarrow> 'h cbor_decoder_config \<Rightarrow> bytes \<Rightarrow> (exc + 'r) \<times> nat"
where
  "cbor_load_from_file lib decoder_config content =
     (case cb_decode lib decoder_config 1 (cd_immutable decoder_config) content of
        (Inl e, pos) \<Rightarrow> (Inl (if cb_is_CBORDecodeEOF lib e then EOFError '''' else e), pos)
      | r \<Rightarrow> r)"

definition cbor_init ::
  "('h, 's, 'r) cbor_library \<Rightarrow> 'h cbor_encoder_config config_arg \<Rightarrow> 'h cbor_decoder_config config_arg \<Rightarrow> int \<Rightarrow> bool
     \<Rightarrow> exc + ('s, 'r) file_based"
where
  "cbor_init lib encoder_config_arg decoder_config_arg limit debug =
     (if limit \<le> 0 then Inl (ValueError ''limit must be a positive integer'')
      else
        result_bind (check_config ''Invalid encoder config'' default_cbor_encoder_config encoder_config_arg)
          (\<lambda>ec. result_bind (check_config ''Invalid decoder config'' default_cbor_decoder_config decoder_config_arg)
            (\<lambda>dc. file_based_init (\<lambda>e. cb_is_CBORDecodeError lib e \<or> e = UnicodeError) limit debug
                    (cbor_dump_to_file lib ec) (cbor_load_from_file lib dc))))"

section \<open>MessagePackSerializer\<close>

text \<open>
  The library: packing, unpacking a whole byte string, and unpacking the first object of a file, which gives the object and the
  number of bytes it takes.
\<close>

record ('h, 's, 'r) msgpack_library =
  mk_pack :: "'h packer_config \<Rightarrow> 's \<Rightarrow> exc + bytes"
  mk_unpackb :: "'h unpacker_config \<Rightarrow> bytes \<Rightarrow> exc + 'r"
  mk_unpack :: "'h unpacker_config \<Rightarrow> int \<Rightarrow> bytes \<Rightarrow> (exc + 'r \<times> nat) \<times> nat"
  mk_ExtType :: 'h
  mk_is_OutOfData :: "exc \<Rightarrow> bool"
  mk_is_ExtraData :: "exc \<Rightarrow> bool"

record ('s, 'r) msgpack_serializer =
  ms_packb :: "'s \<Rightarrow> exc + bytes"
  ms_unpackb :: "bytes \<Rightarrow> exc + 'r"
  ms_is_ExtraData :: "exc \<Rightarrow> bool"
  ms_file :: "('s, 'r) file_based"

definition msgpack_dump_to_file where
  "msgpack_dump_to_file lib packer_config packet = mk_pack lib packer_config packet"

definition msgpack_load_from_file ::
  "('h, 's, 'r) msgpack_library \<Rightarrow> 'h unpacker_config \<Rightarrow> int \<Rightarrow> bytes \<Rightarrow> (exc + 'r) \<times> nat"
where
  "msgpack_load_from_file lib unpacker_config limit content =
     (case mk_unpack lib unpacker_config limit content of
        (Inl e, pos) \<Rightarrow> (Inl (if mk_is_OutOfData lib e then EOFError '''' else e), pos)
      | (Inr (packet, n), pos) \<Rightarrow> (Inr packet, 0 + n))"

definition msgpack_init ::
  "('h, 's, 'r) msgpack_library \<Rightarrow> 'h packer_config config_arg \<Rightarrow> 'h unpacker_config config_arg \<Rightarrow> int \<Rightarrow> bool
     \<Rightarrow> exc + ('s, 'r) msgpack_serializer"
where
  "msgpack_init lib packer_config_arg unpacker_config_arg limit debug =
     (if limit \<le> 0 then Inl (ValueError ''limit must be a positive integer'')
      else
        result_bind (check_config ''Invalid packer config'' default_packer_config packer_config_arg)
          (\<lambda>pc. result_bind (check_config ''Invalid unpacker config'' default_unpacker_config unpacker_config_arg)
            (\<lambda>uc. let uc' = (if mu_ext_hook uc = None then uc\<lparr>mu_ext_hook := Some (mk_ExtType lib)\<rparr> else uc) in
              result_bind (file_based_init is_Exception limit debug (msgpack_dump_to_file lib pc) (msgpack_load_from_file lib uc' limit))
                (\<lambda>f. Inr \<lparr>ms_packb = mk_pack lib pc, ms_unpackb = mk_unpackb lib uc', ms_is_ExtraData = mk_is_ExtraData lib,
                            ms_file = f\<rparr>))))"

definition msgpack_serialize :: "('s, 'r) msgpack_serializer \<Rightarrow> 's \<Rightarrow> exc + bytes" where
  "msgpack_serialize S packet = ms_packb S packet"

fun is_ValueError_class :: "exc \<Rightarrow> bool" where
  "is_ValueError_class (ValueError _) = True"
| "is_ValueError_class UnicodeError = True"
| "is_ValueError_class _ = False"

definition msgpack_deserialize :: "(exc \<Rightarrow> string) \<Rightarrow> ('s, 'r) msgpack_serializer \<Rightarrow> bytes \<Rightarrow> exc + 'r" where
  "msgpack_deserialize str_exc S data =
     (case ms_unpackb S data of
        Inr packet \<Rightarrow> Inr packet
      | Inl e \<Rightarrow>
          if ms_is_ExtraData S e
          then Inl (DeserializeError ''Extra data caught'' (if fb_debug (ms_file S) then Some [''packet'', ''extra''] else None))
          else if is_Exception e
          then let msg = invalid_token str_exc e;
                   msg' = (if is_ValueError_class e \<and> contains msg ''incomplete input'' then ''Missing data to create packet'' else msg)
               in Inl (DeserializeError msg' (if fb_debug (ms_file S) then Some [''data''] else None))
          else Inl e)"

section \<open>The configured serializers\<close>

definition config_of :: "'c \<Rightarrow> 'c config_arg \<Rightarrow> 'c" where
  "config_of default_config arg = (case arg of Config c \<Rightarrow> c | _ \<Rightarrow> default_config)"

lemma check_config_Inr: "check_config m d arg = Inr c \<Longrightarrow> c = config_of d arg"
  by (auto simp: check_config_def config_of_def split: config_arg.splits)

lemma cbor_init_Inr:
  assumes "cbor_init lib ea da limit debug = Inr f"
  shows "f = \<lparr>fb_expected = (\<lambda>e. cb_is_CBORDecodeError lib e \<or> e = UnicodeError), fb_limit = limit, fb_debug = debug,
              fb_dump = cbor_dump_to_file lib (config_of default_cbor_encoder_config ea),
              fb_load = cbor_load_from_file lib (config_of default_cbor_decoder_config da)\<rparr>"
  using assms by (auto simp: cbor_init_def result_bind_def file_based_init_def split: if_splits sum.splits dest!: check_config_Inr)

text \<open>The options of the unpacker: application data of an unknown kind is \<^verbatim>\<open>ExtType\<close> unless a hook is given.\<close>

definition unpacker_options :: "('h, 's, 'r) msgpack_library \<Rightarrow> 'h unpacker_config config_arg \<Rightarrow> 'h unpacker_config" where
  "unpacker_options lib ua =
     (let uc = config_of default_unpacker_config ua in
      if mu_ext_hook uc = None then uc\<lparr>mu_ext_hook := Some (mk_ExtType lib)\<rparr> else uc)"

lemma msgpack_init_Inr:
  assumes "msgpack_init lib pa ua limit debug = Inr S"
  shows "S = \<lparr>ms_packb = mk_pack lib (config_of default_packer_config pa), ms_unpackb = mk_unpackb lib (unpacker_options lib ua),
              ms_is_ExtraData = mk_is_ExtraData lib,
              ms_file = \<lparr>fb_expected = is_Exception, fb_limit = limit, fb_debug = debug,
                         fb_dump = msgpack_dump_to_file lib (config_of default_packer_config pa),
                         fb_load = msgpack_load_from_file lib (unpacker_options lib ua) limit\<rparr>\<rparr>"
  using assms
  by (auto simp: msgpack_init_def result_bind_def file_based_init_def unpacker_options_def Let_def
      split: if_splits sum.splits dest!: check_config_Inr)

section \<open>Packets in pieces\<close>

text \<open>
  What is relied on: the libraries read back what they write, and report the end of the file on every shorter part of it, having read
  all of it.  The CBOR decoder that reads one byte at a time stops right behind the object; the \<^verbatim>\<open>Unpacker\<close>, which reads ahead, says how
  many bytes the object takes.
\<close>

definition cbor_reads :: "('h, 's, 'r) cbor_library \<Rightarrow> 'h cbor_decoder_config \<Rightarrow> bytes \<Rightarrow> 'r \<Rightarrow> bool" where
  "cbor_reads lib dc data p \<longleftrightarrow>
     (\<forall>rest. cb_decode lib dc 1 (cd_immutable dc) (data @ rest) = (Inr p, length data)) \<and>
     (\<forall>d. strict_prefix d data \<longrightarrow>
        (\<exists>e. cb_decode lib dc 1 (cd_immutable dc) d = (Inl e, length d) \<and> cb_is_CBORDecodeEOF lib e))"

definition msgpack_reads :: "('h, 's, 'r) msgpack_library \<Rightarrow> 'h unpacker_config \<Rightarrow> int \<Rightarrow> bytes \<Rightarrow> 'r \<Rightarrow> bool" where
  "msgpack_reads lib uc limit data p \<longleftrightarrow>
     (\<forall>rest. \<exists>pos. mk_unpack lib uc limit (data @ rest) = (Inr (p, length data), pos)) \<and>
     (\<forall>d. strict_prefix d data \<longrightarrow> (\<exists>e. mk_unpack lib uc limit d = (Inl e, length d) \<and> mk_is_OutOfData lib e))"

lemma cbor_loads:
  assumes "cbor_init lib ea da limit debug = Inr f" and "cbor_reads lib (config_of default_cbor_decoder_config da) data p"
  shows "loads f data p"
  unfolding loads_def
proof (intro conjI allI impI)
  show "fb_load f (data @ rest) = (Inr p, length data)" for rest
    using assms(2) by (simp add: cbor_init_Inr [OF assms(1)] cbor_load_from_file_def cbor_reads_def)
next
  fix d assume "strict_prefix d data"
  with assms(2) obtain e where "cb_decode lib (config_of default_cbor_decoder_config da) 1
      (cd_immutable (config_of default_cbor_decoder_config da)) d = (Inl e, length d)" "cb_is_CBORDecodeEOF lib e"
    unfolding cbor_reads_def by blast
  then show "\<exists>m. fb_load f d = (Inl (EOFError m), length d)"
    by (simp add: cbor_init_Inr [OF assms(1)] cbor_load_from_file_def)
qed

lemma msgpack_loads:
  assumes "msgpack_init lib pa ua limit debug = Inr S" and "msgpack_reads lib (unpacker_options lib ua) limit data p"
  shows "loads (ms_file S) data p"
  unfolding loads_def
proof (intro conjI allI impI)
  fix rest
  obtain pos where "mk_unpack lib (unpacker_options lib ua) limit (data @ rest) = (Inr (p, length data), pos)"
    using assms(2) unfolding msgpack_reads_def by blast
  then show "fb_load (ms_file S) (data @ rest) = (Inr p, length data)"
    by (simp add: msgpack_init_Inr [OF assms(1)] msgpack_load_from_file_def)
next
  fix d assume "strict_prefix d data"
  with assms(2) obtain e where "mk_unpack lib (unpacker_options lib ua) limit d = (Inl e, length d)" "mk_is_OutOfData lib e"
    unfolding msgpack_reads_def by blast
  then show "\<exists>m. fb_load (ms_file S) d = (Inl (EOFError m), length d)"
    by (simp add: msgpack_init_Inr [OF assms(1)] msgpack_load_from_file_def)
qed

text \<open>
  A packet written by a CBOR or MessagePack serializer is read back from the stream however it is cut, with exactly the bytes behind
  it left: though the two libraries read the file in different ways, what the serializers built on them leave of the input is the
  same.
\<close>

theorem library_packets_in_pieces:
  assumes "cbor_init lib ea da limit debug = Inr f" and "cbor_reads lib (config_of default_cbor_decoder_config da) data p"
    and "msgpack_init lib' pa ua limit' debug' = Inr S" and "msgpack_reads lib' (unpacker_options lib' ua) limit' data' p'"
    and "int (length (data @ rest)) \<le> limit" and "concat ds @ d = data @ rest" and "strict_prefix (concat ds) data"
    and "int (length (data' @ rest')) \<le> limit'" and "concat ds' @ d' = data' @ rest'" and "strict_prefix (concat ds') data'"
  shows "gen_feed (file_deserialize_send f) file_deserialize_start (ds @ [d]) = Return (p, rest)
    \<and> gen_feed (file_deserialize_send (ms_file S)) file_deserialize_start (ds' @ [d']) = Return (p', rest')"
proof
  show "gen_feed (file_deserialize_send f) file_deserialize_start (ds @ [d]) = Return (p, rest)"
    by (rule file_feed [OF cbor_loads [OF assms(1,2)] _ assms(6,7)])
      (use assms(5) in \<open>simp add: cbor_init_Inr [OF assms(1)]\<close>)
  show "gen_feed (file_deserialize_send (ms_file S)) file_deserialize_start (ds' @ [d']) = Return (p', rest')"
    by (rule file_feed [OF msgpack_loads [OF assms(3,4)] _ assms(9,10)])
      (use assms(8) in \<open>simp add: msgpack_init_Inr [OF assms(3)]\<close>)
qed

section \<open>Errors of the one-shot methods\<close>

lemma pickle_deserialize_error:
  "pickle_deserialize str_exc S data = Inl e \<Longrightarrow> is_Exception e \<Longrightarrow> is_DeserializeError e"
  by (cases "ps_load S data"; cases "fst (ps_load S data)") (auto simp: pickle_deserialize_def split: if_splits)

lemma msgpack_deserialize_error:
  "msgpack_deserialize str_exc M data = Inl e \<Longrightarrow> is_Exception e \<Longrightarrow> is_DeserializeError e"
  by (cases "ms_unpackb M data")
    (auto simp: msgpack_deserialize_def Let_def split: if_split_asm)

lemma pickle_deserialize_exact:
  "ps_load S (data @ rest) = (Inr p, length data) \<Longrightarrow> pickle_deserialize str_exc S (data @ rest) = Inr p \<longleftrightarrow> rest = []"
  by (simp add: pickle_deserialize_def)

text \<open>
  Whatever the library raises on invalid data, \<^verbatim>\<open>deserialize\<close> of the pickle and MessagePack serializers raises
  \<^verbatim>\<open>DeserializeError\<close> (only what is not an \<^verbatim>\<open>Exception\<close> passes through); data behind the packet is an error too.
\<close>

theorem library_deserialize_errors:
  "(pickle_deserialize str_exc S data = Inl e \<longrightarrow> is_Exception e \<longrightarrow> is_DeserializeError e)
    \<and> (msgpack_deserialize str_exc M data = Inl e \<longrightarrow> is_Exception e \<longrightarrow> is_DeserializeError e)
    \<and> (ps_load S (data @ rest) = (Inr p, length data) \<longrightarrow> (pickle_deserialize str_exc S (data @ rest) = Inr p \<longleftrightarrow> rest = []))"
  by (intro conjI impI)
    (erule (1) pickle_deserialize_error, erule (1) msgpack_deserialize_error, erule pickle_deserialize_exact)

section \<open>Going on after an invalid packet\<close>

text \<open>
  After an invalid packet a CBOR stream goes on with the bytes behind it.  The \<^verbatim>\<open>Unpacker\<close> of MessagePack has
  read ahead, to the end of what was received when that is less than it reads at a time; the position of the file is moved back only
  when an object was read.  So the error carries no remaining data, and complete packets received together with the invalid one are
  lost.
\<close>

theorem msgpack_error_drops_what_follows:
  assumes "cbor_init lib ea da limit debug = Inr f" and "msgpack_init lib' pa ua limit debug = Inr S"
    and "cb_decode lib (config_of default_cbor_decoder_config da) 1 (cd_immutable (config_of default_cbor_decoder_config da)) (bad @ rest)
           = (Inl e, length bad)"
    and "cb_is_CBORDecodeError lib e" and "\<not> cb_is_CBORDecodeEOF lib e" and "\<not> is_EOFError e"
    and "mk_unpack lib' (unpacker_options lib' ua) limit (bad @ rest) = (Inl e', length (bad @ rest))"
    and "\<not> mk_is_OutOfData lib' e'" and "\<not> is_EOFError e'" and "is_Exception e'"
    and "int (length (bad @ rest)) \<le> limit"
  shows "(\<exists>i. file_deserialize_send f FileFirst (bad @ rest) = Raise (IncrementalDeserializeError ''Deserialize error'' rest i))
    \<and> (\<exists>i. file_deserialize_send (ms_file S) FileFirst (bad @ rest) = Raise (IncrementalDeserializeError ''Deserialize error'' [] i))"
proof
  have fit: "\<not> int (length bad) + int (length rest) > limit" using assms(11) by simp
  show "\<exists>i. file_deserialize_send f FileFirst (bad @ rest) = Raise (IncrementalDeserializeError ''Deserialize error'' rest i)"
    using assms(3-6) fit
    by (simp add: cbor_init_Inr [OF assms(1)] file_loop_def check_file_buffer_limit_def cbor_load_from_file_def)
  show "\<exists>i. file_deserialize_send (ms_file S) FileFirst (bad @ rest) = Raise (IncrementalDeserializeError ''Deserialize error'' [] i)"
    using assms(7-10) fit
    by (simp add: msgpack_init_Inr [OF assms(2)] file_loop_def check_file_buffer_limit_def msgpack_load_from_file_def)
qed

section \<open>Witnesses\<close>

text \<open>
  Libraries for packets of a length byte below 128 and a body; a length of 128 or more is an error of the format, found behind that
  byte.
\<close>

definition toy_read :: "bytes \<Rightarrow> (exc + bytes \<times> nat) \<times> nat" where
  "toy_read b =
     (case b of
        [] \<Rightarrow> (Inl (OtherError ''end''), 0)
      | c # cs \<Rightarrow>
          if 128 \<le> (of_char c :: nat) then (Inl (OtherError ''format''), 1)
          else if length cs < of_char c then (Inl (OtherError ''end''), length b)
          else (Inr (take (of_char c) cs, 1 + of_char c), 1 + of_char c))"

definition toy_cbor :: "(unit, bytes, bytes) cbor_library" where
  "toy_cbor =
     \<lparr>cb_encode = \<lambda>_ b. Inr (char_of (length b) # b),
      cb_decode = \<lambda>_ _ _ b. (case toy_read b of (Inl e, pos) \<Rightarrow> (Inl e, pos) | (Inr (p, n), pos) \<Rightarrow> (Inr p, pos)),
      cb_is_CBORDecodeError = \<lambda>e. e = OtherError ''format'' \<or> e = OtherError ''end'', cb_is_CBORDecodeEOF = \<lambda>e. e = OtherError ''end''\<rparr>"

definition toy_msgpack :: "(unit, bytes, bytes) msgpack_library" where
  "toy_msgpack =
     \<lparr>mk_pack = \<lambda>_ b. Inr (char_of (length b) # b), mk_unpackb = \<lambda>_ b. map_sum id fst (fst (toy_read b)),
      mk_unpack = \<lambda>_ _ b. (fst (toy_read b), length b),
      mk_ExtType = (), mk_is_OutOfData = \<lambda>e. e = OtherError ''end'', mk_is_ExtraData = \<lambda>e. False\<rparr>"

definition toy_cbor_serializer :: "(bytes, bytes) file_based" where
  "toy_cbor_serializer =
     \<lparr>fb_expected = (\<lambda>e. cb_is_CBORDecodeError toy_cbor e \<or> e = UnicodeError), fb_limit = 16, fb_debug = False,
      fb_dump = cbor_dump_to_file toy_cbor default_cbor_encoder_config, fb_load = cbor_load_from_file toy_cbor default_cbor_decoder_config\<rparr>"

definition toy_msgpack_serializer :: "(bytes, bytes) msgpack_serializer" where
  "toy_msgpack_serializer =
     \<lparr>ms_packb = mk_pack toy_msgpack default_packer_config, ms_unpackb = mk_unpackb toy_msgpack (unpacker_options toy_msgpack NoConfig),
      ms_is_ExtraData = mk_is_ExtraData toy_msgpack,
      ms_file = \<lparr>fb_expected = is_Exception, fb_limit = 16, fb_debug = False,
                 fb_dump = msgpack_dump_to_file toy_msgpack default_packer_config,
                 fb_load = msgpack_load_from_file toy_msgpack (unpacker_options toy_msgpack NoConfig) 16\<rparr>\<rparr>"

lemma toy_inits:
  "cbor_init toy_cbor NoConfig NoConfig 16 False = Inr toy_cbor_serializer"
  "msgpack_init toy_msgpack NoConfig NoConfig 16 False = Inr toy_msgpack_serializer"
  by (simp_all add: cbor_init_def msgpack_init_def check_config_def result_bind_def file_based_init_def toy_cbor_serializer_def
      toy_msgpack_serializer_def unpacker_options_def config_of_def Let_def)

lemma toy_read_prefix:
  assumes "strict_prefix d (CHR 0x02 # ''ab'')"
  shows "toy_read d = (Inl (OtherError ''end''), length d)"
proof -
  from assms have "length d < 3" and "d = [] \<or> hd d = CHR 0x02"
    using prefix_length_less by (fastforce, cases d) (auto simp: strict_prefix_def)
  then show ?thesis by (cases d) (auto simp: toy_read_def)
qed

lemma toy_reads:
  "cbor_reads toy_cbor dc (CHR 0x02 # ''ab'') ''ab''"
  "msgpack_reads toy_msgpack uc limit (CHR 0x02 # ''ab'') ''ab''"
  using toy_read_prefix
  by (auto simp: cbor_reads_def msgpack_reads_def toy_cbor_def toy_msgpack_def) (simp_all add: toy_read_def)

theorem library_packets_in_pieces_witness:
  "gen_feed (file_deserialize_send toy_cbor_serializer) file_deserialize_start [[CHR 0x02, CHR ''a''], ''bXY''] = Return (''ab'', ''XY'')
   \<and> gen_feed (file_deserialize_send (ms_file toy_msgpack_serializer)) file_deserialize_start [[CHR 0x02, CHR ''a''], ''bXY'']
       = Return (''ab'', ''XY'')"
  using library_packets_in_pieces [OF toy_inits(1) toy_reads(1) toy_inits(2) toy_reads(2), of "''XY''" "[[CHR 0x02, CHR ''a'']]" "''bXY''"
      "''XY''" "[[CHR 0x02, CHR ''a'']]" "''bXY''"]
  by (simp add: strict_prefix_def)

theorem library_deserialize_errors_witness:
  "case msgpack_deserialize (\<lambda>_. []) toy_msgpack_serializer ''x'' of Inl e \<Rightarrow> is_DeserializeError e | Inr _ \<Rightarrow> False"
proof -
  have 1: "msgpack_deserialize (\<lambda>_. []) toy_msgpack_serializer ''x'' = Inl (DeserializeError ''Invalid token'' None)"
    by (simp add: msgpack_deserialize_def toy_msgpack_serializer_def toy_msgpack_def toy_read_def is_Exception_simps invalid_token_def Let_def)
  from library_deserialize_errors [where M = toy_msgpack_serializer and str_exc = "\<lambda>_. []" and data = "''x''" and e = "DeserializeError ''Invalid token'' None"] 1
  show ?thesis by (simp add: is_Exception_simps)
qed

theorem msgpack_error_drops_what_follows_witness:
  "(\<exists>i. file_deserialize_send toy_cbor_serializer FileFirst (CHR 0xFF # CHR 0x02 # ''ab'')
          = Raise (IncrementalDeserializeError ''Deserialize error'' (CHR 0x02 # ''ab'') i))
   \<and> (\<exists>i. file_deserialize_send (ms_file toy_msgpack_serializer) FileFirst (CHR 0xFF # CHR 0x02 # ''ab'')
          = Raise (IncrementalDeserializeError ''Deserialize error'' [] i))"
  using msgpack_error_drops_what_follows [OF toy_inits, of "[CHR 0xFF]" "CHR 0x02 # ''ab''" "OtherError ''format''" "OtherError ''format''"]
  by (simp add: toy_cbor_def toy_msgpack_def toy_read_def is_Exception_simps)

end
