(* ===== verification/Portal.thy ===== *)
theory Portal
  imports Exceptions "HOL-Library.Multiset"
begin

text \<open>
  \<^verbatim>\<open>ThreadsPortal\<close> of \<^verbatim>\<open>src/src/easynetwork/lowlevel/api_async/backend/_asyncio/threads.py\<close>: calls of other threads into the
  event loop.

  The state holds the queue of the loop (handles run one by one, in order), the futures of the calls, the tasks of the group and
  how far \<^verbatim>\<open>__aexit__\<close> is.  A piece of code under the portal's lock, a handle, and a piece of a coroutine between two suspension
  points are one event each, so that threads and the loop interleave in any order.
\<close>

section \<open>Concurrent futures\<close>

text \<open>\<^verbatim>\<open>concurrent.futures.Future\<close> as documented; \<open>None\<close>: the call raises because the state is not one it expects.\<close>

datatype 'r cfuture = CPending | CRunning | CCancelled | CNotified | CFinished "exc + 'r"

fun cf_cancel :: "'r cfuture \<Rightarrow> bool \<times> 'r cfuture" where
  "cf_cancel CPending = (True, CCancelled)"
| "cf_cancel CCancelled = (True, CCancelled)"
| "cf_cancel CNotified = (True, CNotified)"
| "cf_cancel CRunning = (False, CRunning)"
| "cf_cancel (CFinished r) = (False, CFinished r)"

fun cf_cancelled :: "'r cfuture \<Rightarrow> bool" where
  "cf_cancelled CCancelled = True"
| "cf_cancelled CNotified = True"
| "cf_cancelled _ = False"

fun cf_set_running_or_notify_cancel :: "'r cfuture \<Rightarrow> (bool \<times> 'r cfuture) option" where
  "cf_set_running_or_notify_cancel CPending = Some (True, CRunning)"
| "cf_set_running_or_notify_cancel CCancelled = Some (False, CNotified)"
| "cf_set_running_or_notify_cancel _ = None"

fun cf_set :: "exc + 'r \<Rightarrow> 'r cfuture \<Rightarrow> 'r cfuture option" where
  "cf_set r CPending = Some (CFinished r)"
| "cf_set r CRunning = Some (CFinished r)"
| "cf_set r _ = None"

section \<open>The state\<close>

text \<open>
  What a scheduled callback does: call the function, whose outcome is given, or create the task of a coroutine, whose future is
  given.  The handles of the loop: that callback, the discarding of a waiter that has its result, the first step of a task,
  \<^verbatim>\<open>task.cancel\<close>.
\<close>

datatype 'r job = Call "exc + 'r" | Schedule nat

datatype 'r handle = RunCallback nat nat "'r job" | Discard nat | StartTask nat nat | CancelTask nat

datatype portal_phase = Outside | Inside | Draining | Grouping | Left

text \<open>A task is named by the future of its coroutine; it waits for its first step (with the waiter it will set) or has had it.\<close>

record 'r portal =
  pt_loop :: bool
  pt_phase :: portal_phase
  pt_in_flight :: "(nat \<times> nat \<times> 'r job) list"
  pt_ready :: "'r handle list"
  pt_waiters :: "nat list"
  pt_next_waiter :: nat
  pt_future :: "nat \<Rightarrow> 'r cfuture"
  pt_next_future :: nat
  pt_tasks :: "(nat \<times> nat option) list"
  pt_watched :: "nat list"
  pt_cancelling :: "nat list"
  pt_given :: "nat list"
  pt_called :: "nat list"
  pt_handled :: "nat list"
  pt_unretrieved :: "exc list"
  pt_broken :: bool

definition portal_init :: "'r portal" where
  "portal_init =
     \<lparr>pt_loop = False, pt_phase = Outside, pt_in_flight = [], pt_ready = [], pt_waiters = [], pt_next_waiter = 0, pt_future = \<lambda>_. CPending,
      pt_next_future = 0, pt_tasks = [], pt_watched = [], pt_cancelling = [], pt_given = [], pt_called = [], pt_handled = [],
      pt_unretrieved = [], pt_broken = False\<rparr>"

text \<open>\<^verbatim>\<open>__aenter__\<close>: the task group cannot be entered again either.\<close>

definition portal_enter :: "'r portal \<Rightarrow> exc + 'r portal" where
  "portal_enter s =
     (if pt_loop s then Inl (RuntimeError ''ThreadsPortal entered twice.'')
      else if pt_phase s \<noteq> Outside then Inl (RuntimeError ''TaskGroup has already been entered'')
      else Inr (s\<lparr>pt_loop := True, pt_phase := Inside\<rparr>))"

section \<open>Calls of a thread\<close>

definition check_loop :: "bool \<Rightarrow> 'r portal \<Rightarrow> exc option" where
  "check_loop in_loop_thread s =
     (if \<not> pt_loop s then Some (RuntimeError ''ThreadsPortal not running.'')
      else if in_loop_thread then Some (RuntimeError ''This function must be called in a different OS thread'')
      else None)"

definition register_waiter :: "'r portal \<Rightarrow> nat \<times> 'r portal" where
  "register_waiter s =
     (pt_next_waiter s, s\<lparr>pt_waiters := pt_waiters s @ [pt_next_waiter s], pt_next_waiter := pt_next_waiter s + 1\<rparr>)"

definition new_future :: "'r portal \<Rightarrow> nat \<times> 'r portal" where
  "new_future s =
     (pt_next_future s, s\<lparr>pt_future := (pt_future s)(pt_next_future s := CPending), pt_next_future := pt_next_future s + 1\<rparr>)"

text \<open>
  \<^verbatim>\<open>run_sync_soon\<close>: under the lock the call is accepted and gets its waiter; then, the lock being free, the callback is scheduled.
\<close>

definition run_sync_soon :: "bool \<Rightarrow> 'r job \<Rightarrow> 'r portal \<Rightarrow> exc + nat \<times> 'r portal" where
  "run_sync_soon in_loop_thread job s =
     (case check_loop in_loop_thread s of
        Some e \<Rightarrow> Inl e
      | None \<Rightarrow>
          (case register_waiter s of
             (w, s1) \<Rightarrow>
               (case new_future s1 of
                  (f, s2) \<Rightarrow> Inr (f, s2\<lparr>pt_in_flight := pt_in_flight s2 @ [(f, w, job)]\<rparr>))))"

definition call_soon_threadsafe :: "nat \<times> nat \<times> 'r job \<Rightarrow> 'r portal \<Rightarrow> 'r portal" where
  "call_soon_threadsafe call s =
     (case call of
        (f, w, job) \<Rightarrow>
          s\<lparr>pt_in_flight := remove1 call (pt_in_flight s), pt_ready := pt_ready s @ [RunCallback f w job],
            pt_called := pt_called s @ [f]\<rparr>)"

text \<open>A function: its future is given to the caller.  A coroutine: its future is, and the caller waits until the task exists.\<close>

definition call_function :: "bool \<Rightarrow> exc + 'r \<Rightarrow> 'r portal \<Rightarrow> exc + nat \<times> 'r portal" where
  "call_function in_loop_thread out s =
     (case run_sync_soon in_loop_thread (Call out) s of
        Inl e \<Rightarrow> Inl e
      | Inr (f, s1) \<Rightarrow> Inr (f, s1\<lparr>pt_given := pt_given s1 @ [f]\<rparr>))"

definition run_coroutine_soon :: "bool \<Rightarrow> 'r portal \<Rightarrow> exc + nat \<times> 'r portal" where
  "run_coroutine_soon in_loop_thread s =
     (case new_future s of
        (c, s1) \<Rightarrow>
          (case run_sync_soon in_loop_thread (Schedule c) s1 of
             Inl e \<Rightarrow> Inl e
           | Inr (f, s2) \<Rightarrow> Inr (c, s2\<lparr>pt_given := pt_given s2 @ [c]\<rparr>)))"

text \<open>
  \<^verbatim>\<open>future.cancel()\<close>: the first time it succeeds the callbacks of the future run, and \<open>on_fut_done\<close> has the task cancelled, if the task
  has registered it.
\<close>

definition cancel_future :: "nat \<Rightarrow> 'r portal \<Rightarrow> 'r portal" where
  "cancel_future f s =
     (let s1 = s\<lparr>pt_future := (pt_future s)(f := snd (cf_cancel (pt_future s f)))\<rparr> in
      if pt_future s f = CPending \<and> f \<in> set (pt_watched s) then s1\<lparr>pt_ready := pt_ready s1 @ [CancelTask f]\<rparr> else s1)"

section \<open>The loop\<close>

text \<open>Setting the result of a waiter schedules the callback that discards it.\<close>

definition set_waiter :: "nat \<Rightarrow> 'r portal \<Rightarrow> 'r portal" where
  "set_waiter w s = s\<lparr>pt_ready := pt_ready s @ [Discard w]\<rparr>"

definition set_future :: "nat \<Rightarrow> exc + 'r \<Rightarrow> 'r portal \<Rightarrow> 'r portal" where
  "set_future f r s =
     (case cf_set r (pt_future s f) of
        None \<Rightarrow> s\<lparr>pt_broken := True\<rparr>
      | Some st \<Rightarrow> s\<lparr>pt_future := (pt_future s)(f := st)\<rparr>)"

text \<open>\<^verbatim>\<open>TaskGroup.create_task\<close> refuses when the group is finished.\<close>

definition schedule_task :: "nat \<Rightarrow> 'r portal \<Rightarrow> 'r portal" where
  "schedule_task c s =
     (case register_waiter s of
        (w, s1) \<Rightarrow>
          if pt_phase s1 \<notin> {Inside, Draining} then s1\<lparr>pt_broken := True\<rparr>
          else s1\<lparr>pt_tasks := pt_tasks s1 @ [(c, Some w)], pt_ready := pt_ready s1 @ [StartTask c w]\<rparr>)"

definition run_callback :: "'r \<Rightarrow> nat \<Rightarrow> nat \<Rightarrow> 'r job \<Rightarrow> 'r portal \<Rightarrow> 'r portal" where
  "run_callback unit_value f w job s =
     (let s1 = set_waiter w (s\<lparr>pt_handled := pt_handled s @ [f]\<rparr>) in
      case cf_set_running_or_notify_cancel (pt_future s1 f) of
        None \<Rightarrow> s1\<lparr>pt_broken := True\<rparr>
      | Some (False, st) \<Rightarrow> s1\<lparr>pt_future := (pt_future s1)(f := st)\<rparr>
      | Some (True, st) \<Rightarrow>
          (let s2 = s1\<lparr>pt_future := (pt_future s1)(f := st)\<rparr> in
           case job of
             Call out \<Rightarrow> set_future f out s2
           | Schedule c \<Rightarrow> set_future f (Inr unit_value) (schedule_task c s2)))"

text \<open>The first step of a task, to the start of the coroutine.\<close>

definition start_task :: "nat \<Rightarrow> nat \<Rightarrow> 'r portal \<Rightarrow> 'r portal" where
  "start_task c w s =
     (let s1 = set_waiter w (s\<lparr>pt_tasks := map (\<lambda>(d, t). if d = c then (d, None) else (d, t)) (pt_tasks s)\<rparr>) in
      if cf_cancelled (pt_future s1 c) then s1\<lparr>pt_ready := pt_ready s1 @ [CancelTask c]\<rparr>
      else s1\<lparr>pt_watched := pt_watched s1 @ [c]\<rparr>)"

definition task_cancel :: "nat \<Rightarrow> 'r portal \<Rightarrow> 'r portal" where
  "task_cancel c s = (if c \<in> set (map fst (pt_tasks s)) then s\<lparr>pt_cancelling := pt_cancelling s @ [c]\<rparr> else s)"

definition loop_step :: "'r \<Rightarrow> 'r portal \<Rightarrow> 'r portal" where
  "loop_step unit_value s =
     (case pt_ready s of
        [] \<Rightarrow> s
      | h # hs \<Rightarrow>
          (let s1 = s\<lparr>pt_ready := hs\<rparr> in
           case h of
             RunCallback f w job \<Rightarrow> run_callback unit_value f w job s1
           | Discard w \<Rightarrow> s1\<lparr>pt_waiters := remove1 w (pt_waiters s1)\<rparr>
           | StartTask c w \<Rightarrow> start_task c w s1
           | CancelTask c \<Rightarrow> task_cancel c s1))"

text \<open>The end of a coroutine: cancelled, with another exception, with a result.\<close>

definition coroutine_ends :: "nat \<Rightarrow> exc + 'r \<Rightarrow> 'r portal \<Rightarrow> 'r portal" where
  "coroutine_ends c out s =
     (let s0 = s\<lparr>pt_tasks := filter (\<lambda>t. fst t \<noteq> c) (pt_tasks s)\<rparr>;
          s1 = (if out = Inl CancelledError then cancel_future c s0 else s0) in
      case cf_set_running_or_notify_cancel (pt_future s1 c) of
        None \<Rightarrow> s1\<lparr>pt_broken := True\<rparr>
      | Some (running, st) \<Rightarrow>
          (let s2 = s1\<lparr>pt_future := (pt_future s1)(c := st)\<rparr> in
           if out = Inl CancelledError then s2
           else if running then set_future c out s2
           else (case out of Inl e \<Rightarrow> s2\<lparr>pt_unretrieved := pt_unretrieved s2 @ [e]\<rparr> | Inr _ \<Rightarrow> s2)))"

text \<open>
  \<^verbatim>\<open>__aexit__\<close>: no more calls; the waiters; the tasks, which the group cancels when the block has failed.
\<close>

definition exit_begins :: "'r portal \<Rightarrow> 'r portal" where
  "exit_begins s = s\<lparr>pt_loop := False, pt_phase := Draining\<rparr>"

definition exit_drained :: "bool \<Rightarrow> 'r portal \<Rightarrow> 'r portal" where
  "exit_drained failed s =
     s\<lparr>pt_phase := Grouping, pt_cancelling := (if failed then pt_cancelling s @ map fst (pt_tasks s) else pt_cancelling s)\<rparr>"

definition exit_ends :: "'r portal \<Rightarrow> 'r portal" where
  "exit_ends s = s\<lparr>pt_phase := Left\<rparr>"

section \<open>Schedules\<close>

datatype 'r portal_event =
    Enter
  | CallFunction "exc + 'r"
  | RunCoroutine
  | ThreadSchedules "nat \<times> nat \<times> 'r job"
  | CancelFuture nat
  | LoopStep
  | CoroutineEnds nat "exc + 'r"
  | ExitBegins
  | ExitDrained bool
  | ExitEnds

definition portal_enabled :: "'r portal \<Rightarrow> 'r portal_event \<Rightarrow> bool" where
  "portal_enabled s ev =
     (case ev of
        Enter \<Rightarrow> True
      | CallFunction _ \<Rightarrow> True
      | RunCoroutine \<Rightarrow> True
      | ThreadSchedules call \<Rightarrow> call \<in> set (pt_in_flight s)
      | CancelFuture f \<Rightarrow> f \<in> set (pt_given s)
      | LoopStep \<Rightarrow> pt_ready s \<noteq> []
      | CoroutineEnds c _ \<Rightarrow> (c, None) \<in> set (pt_tasks s)
      | ExitBegins \<Rightarrow> pt_phase s = Inside
      | ExitDrained _ \<Rightarrow> pt_phase s = Draining \<and> pt_waiters s = []
      | ExitEnds \<Rightarrow> pt_phase s = Grouping \<and> pt_tasks s = [])"

definition kept :: "'r portal \<Rightarrow> exc + nat \<times> 'r portal \<Rightarrow> 'r portal" where
  "kept s r = (case r of Inl _ \<Rightarrow> s | Inr (_, s') \<Rightarrow> s')"

definition portal_apply :: "'r \<Rightarrow> 'r portal_event \<Rightarrow> 'r portal \<Rightarrow> 'r portal" where
  "portal_apply unit_value ev s =
     (case ev of
        Enter \<Rightarrow> (case portal_enter s of Inl _ \<Rightarrow> s | Inr s' \<Rightarrow> s')
      | CallFunction out \<Rightarrow> kept s (call_function False out s)
      | RunCoroutine \<Rightarrow> kept s (run_coroutine_soon False s)
      | ThreadSchedules call \<Rightarrow> call_soon_threadsafe call s
      | CancelFuture f \<Rightarrow> cancel_future f s
      | LoopStep \<Rightarrow> loop_step unit_value s
      | CoroutineEnds c out \<Rightarrow> coroutine_ends c out s
      | ExitBegins \<Rightarrow> exit_begins s
      | ExitDrained failed \<Rightarrow> exit_drained failed s
      | ExitEnds \<Rightarrow> exit_ends s)"

inductive portal_reachable :: "'r \<Rightarrow> 'r portal \<Rightarrow> bool" for unit_value where
  start: "portal_reachable unit_value portal_init"
| step: "portal_reachable unit_value s \<Longrightarrow> portal_enabled s ev \<Longrightarrow> portal_reachable unit_value (portal_apply unit_value ev s)"

section \<open>The invariant\<close>

fun job_futures :: "'r job \<Rightarrow> nat list" where
  "job_futures (Call out) = []"
| "job_futures (Schedule c) = [c]"

fun handle_futures :: "'r handle \<Rightarrow> nat list" where
  "handle_futures (RunCallback f w job) = f # job_futures job"
| "handle_futures _ = []"

fun handle_waiters :: "'r handle \<Rightarrow> nat list" where
  "handle_waiters (RunCallback f w job) = [w]"
| "handle_waiters (Discard w) = [w]"
| "handle_waiters (StartTask c w) = [w]"
| "handle_waiters (CancelTask c) = []"

fun handle_starts :: "'r handle \<Rightarrow> (nat \<times> nat option) list" where
  "handle_starts (StartTask c w) = [(c, Some w)]"
| "handle_starts _ = []"

fun handle_calls :: "'r handle \<Rightarrow> nat list" where
  "handle_calls (RunCallback f w job) = [f]"
| "handle_calls _ = []"

definition in_flight_futures :: "(nat \<times> nat \<times> 'r job) list \<Rightarrow> nat list" where
  "in_flight_futures calls = concat (map (\<lambda>(f, w, job). f # job_futures job) calls)"

definition in_flight_waiters :: "(nat \<times> nat \<times> 'r job) list \<Rightarrow> nat list" where
  "in_flight_waiters calls = map (\<lambda>(f, w, job). w) calls"

definition open_futures :: "'r portal \<Rightarrow> nat multiset" where
  "open_futures s =
     mset (in_flight_futures (pt_in_flight s)) + mset (concat (map handle_futures (pt_ready s))) + mset (map fst (pt_tasks s))"

fun unsettled :: "'r cfuture \<Rightarrow> bool" where
  "unsettled CPending = True"
| "unsettled CCancelled = True"
| "unsettled _ = False"

fun settled :: "'r cfuture \<Rightarrow> bool" where
  "settled CNotified = True"
| "settled (CFinished r) = True"
| "settled _ = False"

text \<open>
  Each future is settled or is in exactly one place that will settle it; the waiters are those of the calls under way, the callbacks,
  the first steps and the discards.
\<close>

definition accounts :: "nat multiset \<Rightarrow> nat \<Rightarrow> (nat \<Rightarrow> 'r cfuture) \<Rightarrow> bool" where
  "accounts M n st \<longleftrightarrow>
     (\<forall>f. count M f \<le> 1) \<and> (\<forall>f. f \<in># M \<longrightarrow> f < n \<and> unsettled (st f)) \<and> (\<forall>f. f < n \<longrightarrow> f \<notin># M \<longrightarrow> settled (st f))"

definition futures_inv :: "'r portal \<Rightarrow> bool" where
  "futures_inv s \<longleftrightarrow> accounts (open_futures s) (pt_next_future s) (pt_future s)"

definition inner_inv :: "'r portal \<Rightarrow> bool" where
  "inner_inv s \<longleftrightarrow>
     (\<forall>f w c. (f, w, Schedule c) \<in> set (pt_in_flight s) \<or> RunCallback f w (Schedule c) \<in> set (pt_ready s) \<longrightarrow>
        f \<notin> set (pt_given s) \<and> pt_future s f = CPending) \<and>
     (\<forall>f. f \<in> set (pt_given s) \<longrightarrow> f < pt_next_future s)"

definition waiters_inv :: "'r portal \<Rightarrow> bool" where
  "waiters_inv s \<longleftrightarrow>
     mset (pt_waiters s) = mset (in_flight_waiters (pt_in_flight s)) + mset (concat (map handle_waiters (pt_ready s)))"

definition starts_inv :: "'r portal \<Rightarrow> bool" where
  "starts_inv s \<longleftrightarrow>
     mset (concat (map handle_starts (pt_ready s))) = filter_mset (\<lambda>t. snd t \<noteq> None) (mset (pt_tasks s))"

definition phase_inv :: "'r portal \<Rightarrow> bool" where
  "phase_inv s \<longleftrightarrow>
     (pt_loop s \<longleftrightarrow> pt_phase s = Inside) \<and>
     (pt_phase s = Outside \<longrightarrow> pt_waiters s = [] \<and> pt_tasks s = []) \<and>
     (pt_phase s \<in> {Grouping, Left} \<longrightarrow> pt_waiters s = []) \<and> (pt_phase s = Left \<longrightarrow> pt_tasks s = []) \<and>
     pt_handled s @ concat (map handle_calls (pt_ready s)) = pt_called s"

definition portal_inv :: "'r portal \<Rightarrow> bool" where
  "portal_inv s \<longleftrightarrow>
     futures_inv s \<and> inner_inv s \<and> waiters_inv s \<and> starts_inv s \<and> phase_inv s \<and> \<not> pt_broken s"

lemma accounts_new: "accounts M n st \<Longrightarrow> accounts (add_mset n M) (Suc n) (st(n := CPending))"
  by (auto simp: accounts_def not_in_iff less_Suc_eq)

lemma accounts_settle:
  assumes "accounts (add_mset f M) n st" and "settled x"
  shows "accounts M n (st(f := x))"
proof -
  have "count (add_mset f M) f \<le> 1" using assms(1) unfolding accounts_def by blast
  then have new: "f \<notin># M" by (simp add: not_in_iff)
  have "count M g \<le> 1" for g
  proof -
    have "count (add_mset f M) g \<le> 1" using assms(1) unfolding accounts_def by blast
    then show ?thesis by (simp split: if_splits)
  qed
  with new assms show ?thesis by (auto simp: accounts_def)
qed

lemma accounts_change: "accounts M n st \<Longrightarrow> f \<in># M \<Longrightarrow> unsettled x \<Longrightarrow> accounts M n (st(f := x))"
  by (auto simp: accounts_def)

lemma unsettled_cases: "unsettled x \<Longrightarrow> x = CPending \<or> x = CCancelled"
  by (cases x) auto

lemma settled_not_unsettled: "settled x \<longleftrightarrow> \<not> unsettled x \<and> x \<noteq> CRunning"
  by (cases x) auto

lemma cancel_settled: "settled x \<Longrightarrow> snd (cf_cancel x) = x"
  by (cases x) auto

lemma cancel_unsettled: "unsettled x \<Longrightarrow> snd (cf_cancel x) = CCancelled"
  by (cases x) auto

lemma accounts_cancel: "accounts M n st \<Longrightarrow> f < n \<Longrightarrow> accounts M n (st(f := snd (cf_cancel (st f))))"
proof (cases "f \<in># M")
  case True
  moreover assume a: "accounts M n st"
  ultimately have "snd (cf_cancel (st f)) = CCancelled" by (simp add: accounts_def cancel_unsettled)
  with accounts_change [OF a True] show ?thesis by simp
next
  case False
  moreover assume "accounts M n st" "f < n"
  ultimately show ?thesis by (simp add: accounts_def cancel_settled)
qed

lemma remove1_in_flight:
  "call \<in> set calls \<Longrightarrow>
     mset (in_flight_futures calls) = mset (fst call # job_futures (snd (snd call))) + mset (in_flight_futures (remove1 call calls))"
  "call \<in> set calls \<Longrightarrow> mset (in_flight_waiters calls) = add_mset (fst (snd call)) (mset (in_flight_waiters (remove1 call calls)))"
  by (induction calls) (auto simp: in_flight_futures_def in_flight_waiters_def split: prod.splits)

lemma in_flight_append [simp]:
  "in_flight_futures (calls @ [(f, w, job)]) = in_flight_futures calls @ f # job_futures job"
  "in_flight_waiters (calls @ [(f, w, job)]) = in_flight_waiters calls @ [w]"
  by (simp_all add: in_flight_futures_def in_flight_waiters_def)

lemma map_fst_started: "map fst (map (\<lambda>(d, t). if d = c then (d, None) else (d, t)) ts) = map fst ts"
  by (induction ts) auto

lemma task_removed:
  assumes "count (mset (map fst ts)) c \<le> 1" and "(c, t) \<in> set ts"
  shows "mset (map fst ts) = add_mset c (mset (map fst (filter (\<lambda>t. fst t \<noteq> c) ts)))
    \<and> (t = None \<longrightarrow> filter_mset (\<lambda>t. snd t \<noteq> None) (mset (filter (\<lambda>t. fst t \<noteq> c) ts)) = filter_mset (\<lambda>t. snd t \<noteq> None) (mset ts))"
  using assms
proof (induction ts)
  case (Cons x ts)
  obtain d u where x: "x = (d, u)" by fastforce
  show ?case
  proof (cases "d = c")
    case True
    with Cons.prems x have "count (mset (map fst ts)) c = 0" by simp
    then have "c \<notin> fst ` set ts" by (metis count_eq_zero_iff list.set_map set_mset_mset)
    then have none: "filter (\<lambda>t. fst t \<noteq> c) ts = ts" by (auto simp: filter_id_conv)
    from \<open>c \<notin> fst ` set ts\<close> Cons.prems(2) x True have "u = t" by force
    with none True x show ?thesis by simp
  next
    case False
    with Cons x show ?thesis by auto
  qed
qed simp

lemma task_started:
  assumes "count (mset (map fst ts)) c \<le> 1" and "(c, Some w) \<in> set ts"
  shows "filter_mset (\<lambda>t. snd t \<noteq> None) (mset ts)
    = add_mset (c, Some w) (filter_mset (\<lambda>t. snd t \<noteq> None) (mset (map (\<lambda>(d, t). if d = c then (d, None) else (d, t)) ts)))"
  using assms
proof (induction ts)
  case (Cons x ts)
  obtain d u where x: "x = (d, u)" by fastforce
  show ?case
  proof (cases "d = c")
    case True
    with Cons.prems x have "count (mset (map fst ts)) c = 0" by simp
    then have new: "c \<notin> fst ` set ts" by (metis count_eq_zero_iff list.set_map set_mset_mset)
    then have "map (\<lambda>(d, t). if d = c then (d, None) else (d, t)) ts = ts" by (intro map_idI) force
    moreover from new Cons.prems(2) x True have "u = Some w" by force
    ultimately show ?thesis using True x by simp
  next
    case False
    with Cons x show ?thesis by auto
  qed
qed simp

section \<open>Every event keeps the invariant\<close>

lemma portal_inv_init: "portal_inv portal_init"
  by (simp add: portal_inv_def portal_init_def futures_inv_def accounts_def open_futures_def in_flight_futures_def inner_inv_def
      waiters_inv_def in_flight_waiters_def starts_inv_def phase_inv_def)

lemma run_sync_soon_Inr:
  assumes "run_sync_soon here job s = Inr (f, s')"
  shows "pt_loop s \<and> f = pt_next_future s \<and>
    s' = s\<lparr>pt_waiters := pt_waiters s @ [pt_next_waiter s], pt_next_waiter := pt_next_waiter s + 1,
           pt_future := (pt_future s)(f := CPending), pt_next_future := f + 1,
           pt_in_flight := pt_in_flight s @ [(f, pt_next_waiter s, job)]\<rparr>"
  using assms by (auto simp: run_sync_soon_def check_loop_def register_waiter_def new_future_def split: if_splits)

lemma inv_enter: "portal_inv s \<Longrightarrow> portal_inv (portal_apply u Enter s)"
  by (auto simp: portal_apply_def portal_enter_def portal_inv_def futures_inv_def open_futures_def inner_inv_def waiters_inv_def
      starts_inv_def phase_inv_def)

lemma inner_open:
  assumes "(g, w, Schedule c) \<in> set (pt_in_flight s) \<or> RunCallback g w (Schedule c) \<in> set (pt_ready s)"
  shows "g \<in># open_futures s"
  using assms by (force simp: open_futures_def in_flight_futures_def)

lemma open_older: "futures_inv s \<Longrightarrow> g \<in># open_futures s \<Longrightarrow> g < pt_next_future s"
  by (simp add: futures_inv_def accounts_def)

lemmas inner_older = open_older [OF _ inner_open]

lemma inv_call_function:
  assumes "portal_inv s"
  shows "portal_inv (portal_apply u (CallFunction out) s)"
proof (cases "run_sync_soon False (Call out) s")
  case (Inl e)
  with assms show ?thesis by (simp add: portal_apply_def call_function_def kept_def)
next
  case (Inr r)
  obtain f s1 where r: "r = (f, s1)" by fastforce
  note s1 = run_sync_soon_Inr [OF Inr [unfolded r]]
  have inv: "futures_inv s" "inner_inv s" "waiters_inv s" "starts_inv s" "phase_inv s" "\<not> pt_broken s"
    using assms by (simp_all add: portal_inv_def)
  let ?s = "s1\<lparr>pt_given := pt_given s1 @ [f]\<rparr>"
  have open': "open_futures ?s = add_mset f (open_futures s)" using s1 by (simp add: open_futures_def)
  have "futures_inv ?s"
    using accounts_new [OF inv(1) [unfolded futures_inv_def]] s1 open' unfolding futures_inv_def by simp
  moreover have "inner_inv ?s"
  proof -
    have "g < f" if "(g, w, Schedule c) \<in> set (pt_in_flight s) \<or> RunCallback g w (Schedule c) \<in> set (pt_ready s)" for g w c
      using inner_older [OF inv(1) that] s1 by simp
    with inv(2) s1 show ?thesis by (fastforce simp: inner_inv_def)
  qed
  moreover have "waiters_inv ?s" using inv(3) s1 by (simp add: waiters_inv_def)
  moreover have "starts_inv ?s" using inv(4) s1 by (simp add: starts_inv_def)
  moreover have "phase_inv ?s" using inv(5) s1 by (simp add: phase_inv_def)
  ultimately have "portal_inv ?s" using inv(6) s1 by (simp add: portal_inv_def)
  with Inr r show ?thesis by (simp add: portal_apply_def call_function_def kept_def)
qed

lemma inv_run_coroutine:
  assumes "portal_inv s"
  shows "portal_inv (portal_apply u RunCoroutine s)"
proof -
  define c where "c = pt_next_future s"
  define s0 where "s0 = s\<lparr>pt_future := (pt_future s)(c := CPending), pt_next_future := c + 1\<rparr>"
  have new: "new_future s = (c, s0)" by (simp add: new_future_def c_def s0_def)
  show ?thesis
  proof (cases "run_sync_soon False (Schedule c) s0")
    case (Inl e)
    with assms new show ?thesis by (simp add: portal_apply_def run_coroutine_soon_def kept_def)
  next
    case (Inr r)
    obtain f s1 where r: "r = (f, s1)" by fastforce
    note s1 = run_sync_soon_Inr [OF Inr [unfolded r]]
    have inv: "futures_inv s" "inner_inv s" "waiters_inv s" "starts_inv s" "phase_inv s" "\<not> pt_broken s"
      using assms by (simp_all add: portal_inv_def)
    let ?s = "s1\<lparr>pt_given := pt_given s1 @ [c]\<rparr>"
    have f: "f = Suc c" using s1 by (simp add: s0_def)
    have open': "open_futures ?s = add_mset f (add_mset c (open_futures s))" using s1 by (simp add: open_futures_def s0_def)
    have "futures_inv ?s"
      using accounts_new [OF accounts_new [OF inv(1) [unfolded futures_inv_def]]] s1 open' f
      unfolding futures_inv_def by (simp add: s0_def c_def)
    moreover have "inner_inv ?s"
    proof -
      have "g < c" if "(g, w, Schedule d) \<in> set (pt_in_flight s) \<or> RunCallback g w (Schedule d) \<in> set (pt_ready s)" for g w d
        using inner_older [OF inv(1) that] c_def by simp
      with inv(2) s1 f show ?thesis by (fastforce simp: inner_inv_def s0_def c_def)
    qed
    moreover have "waiters_inv ?s" using inv(3) s1 by (simp add: waiters_inv_def s0_def)
    moreover have "starts_inv ?s" using inv(4) s1 by (simp add: starts_inv_def s0_def)
    moreover have "phase_inv ?s" using inv(5) s1 by (simp add: phase_inv_def s0_def)
    ultimately have "portal_inv ?s" using inv(6) s1 by (simp add: portal_inv_def s0_def)
    with Inr r new show ?thesis by (simp add: portal_apply_def run_coroutine_soon_def kept_def)
  qed
qed

lemma inv_thread_schedules:
  assumes "portal_inv s" and "call \<in> set (pt_in_flight s)"
  shows "portal_inv (portal_apply u (ThreadSchedules call) s)"
proof -
  obtain f w job where call: "call = (f, w, job)" by (cases call)
  let ?s = "call_soon_threadsafe call s"
  note moved = remove1_in_flight [OF assms(2)]
  have fields: "pt_in_flight ?s = remove1 call (pt_in_flight s)" "pt_ready ?s = pt_ready s @ [RunCallback f w job]"
    "pt_tasks ?s = pt_tasks s" "pt_future ?s = pt_future s" "pt_next_future ?s = pt_next_future s" "pt_given ?s = pt_given s"
    "pt_waiters ?s = pt_waiters s" "pt_broken ?s = pt_broken s"
    by (simp_all add: call_soon_threadsafe_def call)
  have "open_futures ?s = open_futures s" using moved(1) by (simp add: open_futures_def call_soon_threadsafe_def call)
  then have "futures_inv ?s" using assms(1) by (simp add: portal_inv_def futures_inv_def fields)
  moreover have "inner_inv ?s"
    using assms set_remove1_subset [of call "pt_in_flight s"] by (auto simp: portal_inv_def inner_inv_def call_soon_threadsafe_def call)
  moreover have "waiters_inv ?s" using assms(1) moved(2) by (simp add: portal_inv_def waiters_inv_def call_soon_threadsafe_def call)
  moreover have "starts_inv ?s" using assms(1) by (simp add: portal_inv_def starts_inv_def fields)
  moreover have "phase_inv ?s" using assms(1) by (simp add: portal_inv_def phase_inv_def call_soon_threadsafe_def call)
  ultimately show ?thesis using assms(1) by (simp add: portal_inv_def portal_apply_def fields)
qed

lemma cancel_future_fields:
  "pt_in_flight (cancel_future f s) = pt_in_flight s" "pt_tasks (cancel_future f s) = pt_tasks s"
  "pt_future (cancel_future f s) = (pt_future s)(f := snd (cf_cancel (pt_future s f)))"
  "pt_next_future (cancel_future f s) = pt_next_future s" "pt_given (cancel_future f s) = pt_given s"
  "pt_waiters (cancel_future f s) = pt_waiters s" "pt_broken (cancel_future f s) = pt_broken s"
  "pt_loop (cancel_future f s) = pt_loop s" "pt_phase (cancel_future f s) = pt_phase s"
  "pt_handled (cancel_future f s) = pt_handled s" "pt_called (cancel_future f s) = pt_called s"
  "\<exists>hs. pt_ready (cancel_future f s) = pt_ready s @ hs \<and> (hs = [] \<or> hs = [CancelTask f])"
  by (simp_all add: cancel_future_def Let_def)

lemma inv_cancel_future:
  assumes "portal_inv s" and "f \<in> set (pt_given s)"
  shows "portal_inv (portal_apply u (CancelFuture f) s)"
proof -
  let ?s = "cancel_future f s"
  note fields = cancel_future_fields [of f s]
  obtain hs where hs: "pt_ready ?s = pt_ready s @ hs" "hs = [] \<or> hs = [CancelTask f]" using fields(12) by blast
  have f: "f < pt_next_future s" using assms by (simp add: portal_inv_def inner_inv_def)
  have "open_futures ?s = open_futures s" using hs by (auto simp: open_futures_def fields)
  moreover have "accounts (open_futures s) (pt_next_future s) (pt_future s)" using assms(1) by (simp add: portal_inv_def futures_inv_def)
  ultimately have "futures_inv ?s" using accounts_cancel [OF _ f] unfolding futures_inv_def fields by simp
  moreover have "inner_inv ?s" using assms hs by (fastforce simp: portal_inv_def inner_inv_def fields)
  moreover have "waiters_inv ?s" using assms(1) hs by (auto simp: portal_inv_def waiters_inv_def fields)
  moreover have "starts_inv ?s" using assms(1) hs by (auto simp: portal_inv_def starts_inv_def fields)
  moreover have "phase_inv ?s" using assms(1) hs by (auto simp: portal_inv_def phase_inv_def fields)
  ultimately show ?thesis using assms(1) by (simp add: portal_inv_def portal_apply_def fields)
qed

lemma inv_exit:
  assumes "portal_inv s"
  shows "pt_phase s = Inside \<Longrightarrow> portal_inv (portal_apply u ExitBegins s)"
    and "pt_phase s = Draining \<Longrightarrow> pt_waiters s = [] \<Longrightarrow> portal_inv (portal_apply u (ExitDrained failed) s)"
    and "pt_phase s = Grouping \<Longrightarrow> pt_tasks s = [] \<Longrightarrow> portal_inv (portal_apply u ExitEnds s)"
proof -
  have same: "futures_inv (s\<lparr>pt_phase := p, pt_cancelling := cs\<rparr>) = futures_inv s" "inner_inv (s\<lparr>pt_phase := p, pt_cancelling := cs\<rparr>) = inner_inv s"
    "waiters_inv (s\<lparr>pt_phase := p, pt_cancelling := cs\<rparr>) = waiters_inv s" "starts_inv (s\<lparr>pt_phase := p, pt_cancelling := cs\<rparr>) = starts_inv s"
    for p cs by (simp_all add: futures_inv_def open_futures_def inner_inv_def waiters_inv_def starts_inv_def)
  show "pt_phase s = Draining \<Longrightarrow> pt_waiters s = [] \<Longrightarrow> portal_inv (portal_apply u (ExitDrained failed) s)"
    using assms by (auto simp: portal_apply_def exit_drained_def portal_inv_def same) (simp add: phase_inv_def)+
  show "pt_phase s = Grouping \<Longrightarrow> pt_tasks s = [] \<Longrightarrow> portal_inv (portal_apply u ExitEnds s)"
    using assms same [of "pt_cancelling s" Left]
    by (auto simp: portal_apply_def exit_ends_def portal_inv_def) (simp add: phase_inv_def)+
  show "pt_phase s = Inside \<Longrightarrow> portal_inv (portal_apply u ExitBegins s)"
    using assms by (simp add: portal_apply_def exit_begins_def portal_inv_def futures_inv_def
      open_futures_def inner_inv_def waiters_inv_def starts_inv_def phase_inv_def)
qed

lemma head_running:
  assumes "portal_inv s" and "pt_ready s = h # hs" and "handle_waiters h \<noteq> []"
  shows "pt_phase s = Inside \<or> pt_phase s = Draining"
proof -
  have "pt_waiters s \<noteq> []"
    using assms by (auto simp: portal_inv_def waiters_inv_def)
  with assms(1) show ?thesis by (cases "pt_phase s") (auto simp: portal_inv_def phase_inv_def)
qed

lemma inv_discard:
  assumes "portal_inv s" and "pt_ready s = Discard w # hs"
  shows "portal_inv (loop_step u s)"
proof -
  have step: "loop_step u s = s\<lparr>pt_ready := hs, pt_waiters := remove1 w (pt_waiters s)\<rparr>" by (simp add: loop_step_def assms(2))
  have parts: "futures_inv s" "inner_inv s" "waiters_inv s" "starts_inv s" "phase_inv s" "\<not> pt_broken s"
    using assms(1) by (simp_all add: portal_inv_def)
  have "futures_inv (loop_step u s)" using parts(1) by (simp add: step futures_inv_def open_futures_def assms(2))
  moreover have "inner_inv (loop_step u s)" using parts(2) by (simp add: step inner_inv_def assms(2))
  moreover have "waiters_inv (loop_step u s)" using parts(3) by (simp add: step waiters_inv_def assms(2))
  moreover have "starts_inv (loop_step u s)" using parts(4) by (simp add: step starts_inv_def assms(2))
  moreover have "phase_inv (loop_step u s)" using parts(5) by (auto simp: step phase_inv_def assms(2))
  ultimately show ?thesis using parts(6) by (simp add: portal_inv_def step)
qed

lemma cancel_step:
  assumes "pt_ready s = CancelTask c # hs"
  shows "\<exists>cs. loop_step u s = s\<lparr>pt_ready := hs, pt_cancelling := cs\<rparr>"
proof (cases "c \<in> fst ` set (pt_tasks s)")
  case False
  then have "loop_step u s = s\<lparr>pt_ready := hs, pt_cancelling := pt_cancelling s\<rparr>"
    by (simp add: loop_step_def task_cancel_def assms)
  then show ?thesis by blast
qed (auto simp: loop_step_def task_cancel_def assms)

lemma inv_cancel_task:
  assumes "portal_inv s" and "pt_ready s = CancelTask c # hs"
  shows "portal_inv (loop_step u s)"
proof -
  obtain cs where step: "loop_step u s = s\<lparr>pt_ready := hs, pt_cancelling := cs\<rparr>"
    using cancel_step [OF assms(2), of u] by blast
  have parts: "futures_inv s" "inner_inv s" "waiters_inv s" "starts_inv s" "phase_inv s" "\<not> pt_broken s"
    using assms(1) by (simp_all add: portal_inv_def)
  have "futures_inv (loop_step u s)" using parts(1) by (simp add: step futures_inv_def open_futures_def assms(2))
  moreover have "inner_inv (loop_step u s)" using parts(2) by (simp add: step inner_inv_def assms(2))
  moreover have "waiters_inv (loop_step u s)" using parts(3) by (simp add: step waiters_inv_def assms(2))
  moreover have "starts_inv (loop_step u s)" using parts(4) by (simp add: step starts_inv_def assms(2))
  moreover have "phase_inv (loop_step u s)" using parts(5) by (simp add: step phase_inv_def assms(2))
  ultimately show ?thesis using parts(6) by (simp add: portal_inv_def step)
qed

lemma open_count: "futures_inv s \<Longrightarrow> count (mset (map fst (pt_tasks s))) c \<le> 1"
proof -
  assume "futures_inv s"
  then have "count (open_futures s) c \<le> 1" unfolding futures_inv_def accounts_def by blast
  then show ?thesis by (simp add: open_futures_def)
qed

lemma start_step:
  assumes "pt_ready s = StartTask c w # hs"
  shows "\<exists>hs' ws. (hs' = [] \<or> hs' = [CancelTask c]) \<and> loop_step u s
    = s\<lparr>pt_ready := hs @ Discard w # hs', pt_tasks := map (\<lambda>(d, t). if d = c then (d, None) else (d, t)) (pt_tasks s), pt_watched := ws\<rparr>"
    (is "\<exists>hs' ws. _ \<and> loop_step u s = ?s hs' ws")
proof (cases "cf_cancelled (pt_future s c)")
  case True
  then have "loop_step u s = ?s [CancelTask c] (pt_watched s)"
    by (simp add: loop_step_def start_task_def set_waiter_def assms Let_def)
  then show ?thesis by blast
next
  case False
  then have "loop_step u s = ?s [] (pt_watched s @ [c])"
    by (simp add: loop_step_def start_task_def set_waiter_def assms Let_def)
  then show ?thesis by blast
qed

lemma inv_start_task:
  assumes "portal_inv s" and "pt_ready s = StartTask c w # hs"
  shows "portal_inv (loop_step u s)"
proof -
  let ?ts = "map (\<lambda>(d, t). if d = c then (d, None) else (d, t)) (pt_tasks s)"
  obtain hs' ws where hs': "hs' = [] \<or> hs' = [CancelTask c]"
    and step: "loop_step u s = s\<lparr>pt_ready := hs @ Discard w # hs', pt_tasks := ?ts, pt_watched := ws\<rparr>"
    using start_step [OF assms(2), of u] by blast
  have parts: "futures_inv s" "inner_inv s" "waiters_inv s" "starts_inv s" "phase_inv s" "\<not> pt_broken s"
    using assms(1) by (simp_all add: portal_inv_def)
  have none: "concat (map handle_futures hs') = []" "concat (map handle_waiters hs') = []" "concat (map handle_starts hs') = []"
    and inner: "RunCallback g v j \<notin> set hs'" for g v j
    using hs' by auto
  have fsts: "mset (map fst ?ts) = mset (map fst (pt_tasks s))" by (simp only: map_fst_started)
  have "open_futures (loop_step u s) = open_futures s"
    unfolding open_futures_def step using fsts by (simp add: assms(2) none(1))
  then have "futures_inv (loop_step u s)" using parts(1) unfolding futures_inv_def by (simp add: step)
  moreover have "inner_inv (loop_step u s)" using parts(2) inner by (simp add: step inner_inv_def assms(2))
  moreover have "waiters_inv (loop_step u s)" using parts(3) none(2) by (simp add: step waiters_inv_def assms(2))
  moreover have "starts_inv (loop_step u s)"
  proof -
    have "mset (concat (map handle_starts (pt_ready s))) = filter_mset (\<lambda>t. snd t \<noteq> None) (mset (pt_tasks s))"
      using parts(4) by (simp add: starts_inv_def)
    moreover have "(c, Some w) \<in># mset (concat (map handle_starts (pt_ready s)))" by (simp add: assms(2))
    ultimately show ?thesis
      using task_started [OF open_count [OF parts(1)], of c w] none(3) by (simp add: step starts_inv_def assms(2))
  qed
  moreover have "phase_inv (loop_step u s)" using parts(5) hs' by (elim disjE) (simp_all add: step phase_inv_def assms(2))
  ultimately show ?thesis using parts(6) by (simp add: portal_inv_def step)
qed

lemma head_future:
  assumes "futures_inv s" and "pt_ready s = RunCallback f w job # hs"
  shows "unsettled (pt_future s f)" "f < pt_next_future s"
    "open_futures s = add_mset f (mset (job_futures job) + open_futures (s\<lparr>pt_ready := hs\<rparr>))"
proof -
  show split: "open_futures s = add_mset f (mset (job_futures job) + open_futures (s\<lparr>pt_ready := hs\<rparr>))"
    by (simp add: open_futures_def assms(2) ac_simps)
  then have "f \<in># open_futures s" by simp
  with assms(1) show "unsettled (pt_future s f)" "f < pt_next_future s" by (simp_all add: futures_inv_def accounts_def)
qed

text \<open>The future of the callback is in no other place, so that what happens to it does not touch the calls inside.\<close>

lemma head_future_inner:
  assumes "futures_inv s" and "pt_ready s = RunCallback f w job # hs"
    and "(g, v, Schedule c) \<in> set (pt_in_flight s) \<or> RunCallback g v (Schedule c) \<in> set hs"
  shows "g \<noteq> f"
proof
  assume "g = f"
  with assms(3) inner_open [of f v c "s\<lparr>pt_ready := hs\<rparr>"] have "f \<in># open_futures (s\<lparr>pt_ready := hs\<rparr>)" by simp
  then have "0 < count (open_futures (s\<lparr>pt_ready := hs\<rparr>)) f" by simp
  then have "2 \<le> count (open_futures s) f" unfolding head_future(3) [OF assms(1,2)] by (simp del: count_greater_zero_iff)
  moreover have "count (open_futures s) f \<le> 1" using assms(1) unfolding futures_inv_def accounts_def by blast
  ultimately show False by simp
qed

lemma inv_settled_callback:
  assumes "portal_inv s" and "pt_ready s = RunCallback f w (Call out) # hs" and "settled x"
  shows "portal_inv (s\<lparr>pt_ready := hs @ [Discard w], pt_handled := pt_handled s @ [f], pt_future := (pt_future s)(f := x)\<rparr>)"
    (is "portal_inv ?s")
proof -
  have parts: "futures_inv s" "inner_inv s" "waiters_inv s" "starts_inv s" "phase_inv s" "\<not> pt_broken s"
    using assms(1) by (simp_all add: portal_inv_def)
  have "open_futures s = add_mset f (open_futures ?s)" by (simp add: open_futures_def assms(2) ac_simps)
  with parts(1) have "accounts (add_mset f (open_futures ?s)) (pt_next_future s) (pt_future s)" unfolding futures_inv_def by simp
  from accounts_settle [OF this assms(3)] have "futures_inv ?s" unfolding futures_inv_def by simp
  moreover have "inner_inv ?s"
    using parts(2) head_future_inner [OF parts(1) assms(2)] by (auto simp: inner_inv_def assms(2))
  moreover have "waiters_inv ?s" using parts(3) by (simp add: waiters_inv_def assms(2))
  moreover have "starts_inv ?s" using parts(4) by (simp add: starts_inv_def assms(2))
  moreover have "phase_inv ?s" using parts(5) by (auto simp: phase_inv_def assms(2))
  ultimately show ?thesis using parts(6) by (simp add: portal_inv_def)
qed

lemma call_step:
  assumes "futures_inv s" and "pt_ready s = RunCallback f w (Call out) # hs"
  shows "\<exists>x. settled x \<and> loop_step u s
    = s\<lparr>pt_ready := hs @ [Discard w], pt_handled := pt_handled s @ [f], pt_future := (pt_future s)(f := x)\<rparr>"
  using unsettled_cases [OF head_future(1) [OF assms]]
proof
  assume "pt_future s f = CPending"
  then have "loop_step u s
      = s\<lparr>pt_ready := hs @ [Discard w], pt_handled := pt_handled s @ [f], pt_future := (pt_future s)(f := CFinished out)\<rparr>"
    by (simp add: loop_step_def run_callback_def set_waiter_def set_future_def assms(2) Let_def)
  then show ?thesis using settled.simps(2) by blast
next
  assume "pt_future s f = CCancelled"
  then have "loop_step u s
      = s\<lparr>pt_ready := hs @ [Discard w], pt_handled := pt_handled s @ [f], pt_future := (pt_future s)(f := CNotified)\<rparr>"
    by (simp add: loop_step_def run_callback_def set_waiter_def set_future_def assms(2) Let_def)
  then show ?thesis using settled.simps(1) by blast
qed

lemma inv_call_runs:
  assumes "portal_inv s" and "pt_ready s = RunCallback f w (Call out) # hs"
  shows "portal_inv (loop_step u s)"
proof -
  have "futures_inv s" using assms(1) by (simp add: portal_inv_def)
  from call_step [OF this assms(2), of u] inv_settled_callback [OF assms] show ?thesis by auto
qed

lemma schedule_step:
  assumes "portal_inv s" and "pt_ready s = RunCallback f w (Schedule c) # hs"
  shows "loop_step u s = s\<lparr>pt_ready := hs @ [Discard w, StartTask c (pt_next_waiter s)], pt_handled := pt_handled s @ [f],
      pt_waiters := pt_waiters s @ [pt_next_waiter s], pt_next_waiter := pt_next_waiter s + 1,
      pt_tasks := pt_tasks s @ [(c, Some (pt_next_waiter s))], pt_future := (pt_future s)(f := CFinished (Inr u))\<rparr>"
proof -
  have "pt_future s f = CPending" using assms by (auto simp: portal_inv_def inner_inv_def)
  with head_running [OF assms] show ?thesis
    by (auto simp: loop_step_def run_callback_def set_waiter_def set_future_def schedule_task_def register_waiter_def assms(2) Let_def)
qed

lemma inv_schedule_runs:
  assumes "portal_inv s" and "pt_ready s = RunCallback f w (Schedule c) # hs"
  shows "portal_inv (loop_step u s)"
proof -
  have parts: "futures_inv s" "inner_inv s" "waiters_inv s" "starts_inv s" "phase_inv s" "\<not> pt_broken s"
    using assms(1) by (simp_all add: portal_inv_def)
  have running: "pt_phase s = Inside \<or> pt_phase s = Draining" using head_running [OF assms] by simp
  let ?v = "pt_next_waiter s"
  let ?s = "s\<lparr>pt_ready := hs @ [Discard w, StartTask c ?v], pt_handled := pt_handled s @ [f],
      pt_waiters := pt_waiters s @ [?v], pt_next_waiter := ?v + 1, pt_tasks := pt_tasks s @ [(c, Some ?v)],
      pt_future := (pt_future s)(f := CFinished (Inr u))\<rparr>"
  note step = schedule_step [OF assms, of u]
  have "open_futures s = add_mset f (open_futures ?s)" by (simp add: open_futures_def assms(2) ac_simps)
  with parts(1) have "accounts (add_mset f (open_futures ?s)) (pt_next_future s) (pt_future s)" unfolding futures_inv_def by simp
  from accounts_settle [OF this, of "CFinished (Inr u)"] have "futures_inv ?s" unfolding futures_inv_def by simp
  moreover have "inner_inv ?s"
    using parts(2) head_future_inner [OF parts(1) assms(2)] by (auto simp: inner_inv_def assms(2))
  moreover have "waiters_inv ?s" using parts(3) by (simp add: waiters_inv_def assms(2))
  moreover have "starts_inv ?s" using parts(4) by (simp add: starts_inv_def assms(2))
  moreover have "phase_inv ?s" using parts(5) running by (auto simp: phase_inv_def assms(2))
  ultimately show ?thesis using parts(6) by (simp add: portal_inv_def step)
qed

lemma inv_loop_step:
  assumes "portal_inv s" and "pt_ready s \<noteq> []"
  shows "portal_inv (portal_apply u LoopStep s)"
proof -
  obtain h hs where ready: "pt_ready s = h # hs" using assms(2) by (cases "pt_ready s") auto
  have "portal_inv (loop_step u s)"
  proof (cases h)
    case (RunCallback f w job)
    with ready inv_call_runs [OF assms(1)] inv_schedule_runs [OF assms(1)] show ?thesis by (cases job) auto
  next
    case (Discard w)
    with ready inv_discard [OF assms(1)] show ?thesis by simp
  next
    case (StartTask c w)
    with ready inv_start_task [OF assms(1)] show ?thesis by simp
  next
    case (CancelTask c)
    with ready inv_cancel_task [OF assms(1)] show ?thesis by simp
  qed
  then show ?thesis by (simp add: portal_apply_def)
qed

lemma task_open:
  assumes "futures_inv s" and "(c, t) \<in> set (pt_tasks s)"
  shows "unsettled (pt_future s c)" "c < pt_next_future s"
    "open_futures s = add_mset c (open_futures (s\<lparr>pt_tasks := filter (\<lambda>t. fst t \<noteq> c) (pt_tasks s)\<rparr>))"
proof -
  show split: "open_futures s = add_mset c (open_futures (s\<lparr>pt_tasks := filter (\<lambda>t. fst t \<noteq> c) (pt_tasks s)\<rparr>))"
    using task_removed [OF open_count [OF assms(1)] assms(2)] by (simp add: open_futures_def)
  then have "c \<in># open_futures s" by simp
  with assms(1) show "unsettled (pt_future s c)" "c < pt_next_future s" by (simp_all add: futures_inv_def accounts_def)
qed

lemma inv_coroutine_settled:
  assumes "portal_inv s" and "(c, None) \<in> set (pt_tasks s)" and "settled x" and "hs = [] \<or> hs = [CancelTask c]"
  shows "portal_inv (s\<lparr>pt_tasks := filter (\<lambda>t. fst t \<noteq> c) (pt_tasks s), pt_ready := pt_ready s @ hs, pt_future := (pt_future s)(c := x),
      pt_unretrieved := es\<rparr>)" (is "portal_inv ?s")
proof -
  have parts: "futures_inv s" "inner_inv s" "waiters_inv s" "starts_inv s" "phase_inv s" "\<not> pt_broken s"
    using assms(1) by (simp_all add: portal_inv_def)
  note split = task_open(3) [OF parts(1) assms(2)]
  have "open_futures s = add_mset c (open_futures ?s)" using split assms(4) by (auto simp: open_futures_def)
  with parts(1) have "accounts (add_mset c (open_futures ?s)) (pt_next_future s) (pt_future s)" unfolding futures_inv_def by simp
  from accounts_settle [OF this assms(3)] have "futures_inv ?s" unfolding futures_inv_def by simp
  moreover have "inner_inv ?s"
  proof -
    have "g \<noteq> c" if "(g, v, Schedule d) \<in> set (pt_in_flight s) \<or> RunCallback g v (Schedule d) \<in> set (pt_ready s)" for g v d
    proof
      assume "g = c"
      with that inner_open [of c v d "s\<lparr>pt_tasks := filter (\<lambda>t. fst t \<noteq> c) (pt_tasks s)\<rparr>"]
      have "c \<in># open_futures (s\<lparr>pt_tasks := filter (\<lambda>t. fst t \<noteq> c) (pt_tasks s)\<rparr>)" by simp
      then have "0 < count (open_futures (s\<lparr>pt_tasks := filter (\<lambda>t. fst t \<noteq> c) (pt_tasks s)\<rparr>)) c" by simp
      then have "2 \<le> count (open_futures s) c" unfolding split by simp
      moreover have "count (open_futures s) c \<le> 1" using parts(1) unfolding futures_inv_def accounts_def by blast
      ultimately show False by simp
    qed
    with parts(2) assms(4) show ?thesis by (auto simp: inner_inv_def)
  qed
  moreover have "waiters_inv ?s" using parts(3) assms(4) by (auto simp: waiters_inv_def)
  moreover have "starts_inv ?s"
    using parts(4) assms(4) task_removed [OF open_count [OF parts(1)] assms(2)] by (auto simp: starts_inv_def)
  moreover have "phase_inv ?s" using parts(5) assms(4) by (elim disjE) (simp_all add: phase_inv_def)
  ultimately show ?thesis using parts(6) by (simp add: portal_inv_def)
qed

lemma coroutine_cancelled:
  assumes st: "pt_future s c = CPending \<or> pt_future s c = CCancelled"
  shows "coroutine_ends c (Inl CancelledError) s
      = s\<lparr>pt_tasks := filter (\<lambda>t. fst t \<noteq> c) (pt_tasks s), pt_ready := pt_ready s @ (if pt_future s c = CPending \<and> c \<in> set (pt_watched s) then [CancelTask c] else []), pt_future := (pt_future s)(c := CNotified),
          pt_unretrieved := pt_unretrieved s\<rparr>"
proof -
  let ?s0 = "s\<lparr>pt_tasks := filter (\<lambda>t. fst t \<noteq> c) (pt_tasks s)\<rparr>"
  have "snd (cf_cancel (pt_future s c)) = CCancelled" using st by auto
  then have "cancel_future c ?s0 = ?s0\<lparr>pt_future := (pt_future s)(c := CCancelled), pt_ready := pt_ready s @ (if pt_future s c = CPending \<and> c \<in> set (pt_watched s) then [CancelTask c] else [])\<rparr>"
    unfolding cancel_future_def Let_def
    by (cases "pt_future s c = CPending \<and> c \<in> set (pt_watched s)") simp_all
  then show ?thesis by (simp add: coroutine_ends_def Let_def)
qed

lemma coroutine_finished:
  assumes "pt_future s c = CPending" and "out \<noteq> Inl CancelledError"
  shows "coroutine_ends c out s
      = s\<lparr>pt_tasks := filter (\<lambda>t. fst t \<noteq> c) (pt_tasks s), pt_ready := pt_ready s @ [], pt_future := (pt_future s)(c := CFinished out),
          pt_unretrieved := pt_unretrieved s\<rparr>"
  using assms by (simp add: coroutine_ends_def set_future_def Let_def)

lemma coroutine_unretrieved:
  assumes "pt_future s c = CCancelled" and "out \<noteq> Inl CancelledError"
  shows "coroutine_ends c out s
      = s\<lparr>pt_tasks := filter (\<lambda>t. fst t \<noteq> c) (pt_tasks s), pt_ready := pt_ready s @ [], pt_future := (pt_future s)(c := CNotified),
          pt_unretrieved := pt_unretrieved s @ (case out of Inl e \<Rightarrow> [e] | Inr _ \<Rightarrow> [])\<rparr>"
  using assms by (cases out) (simp_all add: coroutine_ends_def Let_def)

lemma coroutine_step:
  assumes "pt_future s c = CPending \<or> pt_future s c = CCancelled"
  shows "\<exists>x hs es. settled x \<and> (hs = [] \<or> hs = [CancelTask c]) \<and> coroutine_ends c out s
    = s\<lparr>pt_tasks := filter (\<lambda>t. fst t \<noteq> c) (pt_tasks s), pt_ready := pt_ready s @ hs, pt_future := (pt_future s)(c := x),
        pt_unretrieved := es\<rparr>"
proof (cases "out = Inl CancelledError")
  case True
  show ?thesis
    unfolding True coroutine_cancelled [OF assms]
    by (intro exI [of _ CNotified] exI [of _ "if _ then _ else _"] exI [of _ "pt_unretrieved s"] conjI) (auto intro: refl)
next
  case False
  from assms show ?thesis
  proof
    assume p: "pt_future s c = CPending"
    show ?thesis unfolding coroutine_finished [OF p False] using settled.simps(2) by blast
  next
    assume p: "pt_future s c = CCancelled"
    show ?thesis unfolding coroutine_unretrieved [OF p False] using settled.simps(1) by blast
  qed
qed

lemma inv_coroutine_ends:
  assumes "portal_inv s" and "(c, None) \<in> set (pt_tasks s)"
  shows "portal_inv (portal_apply u (CoroutineEnds c out) s)"
proof -
  have "futures_inv s" using assms(1) by (simp add: portal_inv_def)
  from coroutine_step [OF unsettled_cases [OF task_open(1) [OF this assms(2)]], of out] obtain x hs es
    where x: "settled x" "hs = [] \<or> hs = [CancelTask c]" and step: "coroutine_ends c out s
    = s\<lparr>pt_tasks := filter (\<lambda>t. fst t \<noteq> c) (pt_tasks s), pt_ready := pt_ready s @ hs, pt_future := (pt_future s)(c := x),
        pt_unretrieved := es\<rparr>"
    by blast
  show ?thesis using inv_coroutine_settled [OF assms x, of es] by (simp add: portal_apply_def step)
qed

lemma portal_inv_reachable: "portal_reachable u s \<Longrightarrow> portal_inv s"
proof (induction rule: portal_reachable.induct)
  case start
  show ?case by (rule portal_inv_init)
next
  case (step s ev)
  then show ?case
    by (cases ev) (auto simp: portal_enabled_def intro: inv_enter inv_call_function inv_run_coroutine inv_thread_schedules
        inv_cancel_future inv_loop_step inv_coroutine_ends inv_exit)
qed

section \<open>Every call is answered\<close>

lemma quiet_handle: "handle_waiters h = [] \<Longrightarrow> handle_futures h = [] \<and> handle_calls h = []"
  by (cases h) auto

text \<open>
  C38: whatever threads do, a call accepted by the portal is answered.  Calls run one by one in the order in which they were scheduled, and no
  future is ever set twice or in a state that does not allow it; as soon as the portal begins to close, calls are refused; and when it has
  closed every future it gave out has a result, an exception or is cancelled, so that no thread waits for ever.
\<close>

theorem portal_answers_every_call:
  assumes "portal_reachable u s"
  shows "\<not> pt_broken s
    \<and> pt_handled s @ concat (map handle_calls (pt_ready s)) = pt_called s
    \<and> (pt_phase s \<noteq> Inside \<longrightarrow> run_sync_soon in_loop_thread job s = Inl (RuntimeError ''ThreadsPortal not running.''))
    \<and> (pt_phase s = Left \<longrightarrow> pt_handled s = pt_called s \<and> (\<forall>f. f < pt_next_future s \<longrightarrow> settled (pt_future s f)))"
proof -
  have inv: "futures_inv s" "waiters_inv s" "phase_inv s" "\<not> pt_broken s"
    using portal_inv_reachable [OF assms] by (simp_all add: portal_inv_def)
  have all_handled: "pt_handled s = pt_called s \<and> open_futures s = {#}" if "pt_phase s = Left"
  proof -
    have "pt_waiters s = []" and tasks: "pt_tasks s = []" using inv(3) that by (simp_all add: phase_inv_def)
    with inv(2) have w: "mset (in_flight_waiters (pt_in_flight s)) = {#}" "mset (concat (map handle_waiters (pt_ready s))) = {#}"
      unfolding waiters_inv_def by (metis mset.simps(1) union_eq_empty)+
    then have flight: "pt_in_flight s = []" and quiet: "\<forall>h\<in>set (pt_ready s). handle_waiters h = []"
      by (simp_all add: in_flight_waiters_def)
    have "\<forall>h\<in>set (pt_ready s). handle_futures h = []" "\<forall>h\<in>set (pt_ready s). handle_calls h = []"
      using quiet quiet_handle by blast+
    then have "concat (map handle_futures (pt_ready s)) = []" "concat (map handle_calls (pt_ready s)) = []" by simp_all
    with flight tasks inv(3) show ?thesis
      by (simp add: open_futures_def in_flight_futures_def phase_inv_def del: concat_eq_Nil_conv)
  qed
  have "\<forall>f. f < pt_next_future s \<longrightarrow> settled (pt_future s f)" if "pt_phase s = Left"
    using inv(1) all_handled [OF that] by (simp add: futures_inv_def accounts_def)
  with all_handled inv(3,4) show ?thesis
    by (simp add: phase_inv_def run_sync_soon_def check_loop_def)
qed

section \<open>Closing ends\<close>

text \<open>What is left to do; every event of a portal that closes takes something off.\<close>

fun handle_load :: "'r handle \<Rightarrow> nat" where
  "handle_load (RunCallback f w (Call out)) = 2"
| "handle_load (RunCallback f w (Schedule c)) = 7"
| "handle_load (StartTask c w) = 3"
| "handle_load (Discard w) = 1"
| "handle_load (CancelTask c) = 1"

definition pending_count :: "(nat \<Rightarrow> 'r cfuture) \<Rightarrow> nat \<Rightarrow> nat" where
  "pending_count st n = card {f. f < n \<and> st f = CPending}"

definition phase_load :: "portal_phase \<Rightarrow> nat" where
  "phase_load p = (case p of Draining \<Rightarrow> 2 | Grouping \<Rightarrow> 1 | _ \<Rightarrow> 0)"

definition flight_load :: "(nat \<times> nat \<times> 'r job) list \<Rightarrow> nat" where
  "flight_load calls = sum_list (map (\<lambda>(f, w, job). Suc (handle_load (RunCallback f w job))) calls)"

definition closing_load :: "'r portal \<Rightarrow> nat" where
  "closing_load s =
     sum_list (map handle_load (pt_ready s)) + flight_load (pt_in_flight s) + 2 * length (pt_tasks s) + 2 * pending_count (pt_future s) (pt_next_future s)
     + phase_load (pt_phase s)"

lemma pending_settles:
  assumes "x \<noteq> CPending"
  shows "pending_count (st(f := x)) n \<le> pending_count st n"
    and "st f = CPending \<Longrightarrow> f < n \<Longrightarrow> pending_count (st(f := x)) n < pending_count st n"
proof -
  have sub: "{g. g < n \<and> (st(f := x)) g = CPending} = {g. g < n \<and> st g = CPending} - {f}" using assms by auto
  show "pending_count (st(f := x)) n \<le> pending_count st n" unfolding pending_count_def sub by (intro card_mono) auto
  show "pending_count (st(f := x)) n < pending_count st n" if "st f = CPending" "f < n"
    unfolding pending_count_def sub by (intro psubset_card_mono) (use that in auto)
qed

lemma flight_load_remove1:
  "(f, w, job) \<in> set calls \<Longrightarrow> flight_load calls = Suc (handle_load (RunCallback f w job)) + flight_load (remove1 (f, w, job) calls)"
  by (induction calls) (auto simp: flight_load_def)

lemma settled_not_pending: "settled x \<Longrightarrow> x \<noteq> CPending"
  by (cases x) auto

lemma load_loop_step:
  assumes "portal_inv s" and "pt_ready s \<noteq> []"
  shows "closing_load (loop_step u s) < closing_load s"
proof -
  obtain h hs where ready: "pt_ready s = h # hs" using assms(2) by (cases "pt_ready s") auto
  have fut: "futures_inv s" using assms(1) by (simp add: portal_inv_def)
  show ?thesis
  proof (cases h)
    case (Discard w)
    with ready show ?thesis by (simp add: loop_step_def closing_load_def)
  next
    case (CancelTask c)
    with cancel_step [of s c hs u] ready show ?thesis by (auto simp: closing_load_def)
  next
    case (StartTask c w)
    with start_step [of s c w hs u] ready show ?thesis by (auto simp: closing_load_def)
  next
    case (RunCallback f w job)
    show ?thesis
    proof (cases job)
      case (Call out)
      with RunCallback call_step [OF fut, of f w out hs u] ready obtain x where x: "settled x"
        "loop_step u s = s\<lparr>pt_ready := hs @ [Discard w], pt_handled := pt_handled s @ [f], pt_future := (pt_future s)(f := x)\<rparr>" by auto
      then show ?thesis
        using pending_settles(1) [OF settled_not_pending [OF x(1)], of "pt_future s" f "pt_next_future s"] ready RunCallback Call
        by (simp add: closing_load_def)
    next
      case (Schedule c)
      then show ?thesis
        using schedule_step [OF assms(1), of f w c hs u] ready RunCallback
          pending_settles(1) [of "CFinished (Inr u)" "pt_future s" f "pt_next_future s"]
        by (simp add: closing_load_def)
    qed
  qed
qed

lemma load_cancel_future:
  assumes "f < pt_next_future s"
  shows "cancel_future f s = s \<or> closing_load (cancel_future f s) < closing_load s"
proof (cases "pt_future s f = CPending")
  case True
  with pending_settles(2) [of CCancelled "pt_future s" f "pt_next_future s"] assms
  have "pending_count ((pt_future s)(f := CCancelled)) (pt_next_future s) < pending_count (pt_future s) (pt_next_future s)" by simp
  then show ?thesis
    by (cases "f \<in> set (pt_watched s)") (simp_all add: closing_load_def cancel_future_def True)
next
  case False
  then have "snd (cf_cancel (pt_future s f)) = pt_future s f" by (cases "pt_future s f") auto
  with False show ?thesis by (simp add: cancel_future_def)
qed

lemma load_coroutine_ends:
  assumes "portal_inv s" and "(c, None) \<in> set (pt_tasks s)"
  shows "closing_load (coroutine_ends c out s) < closing_load s"
proof -
  have fut: "futures_inv s" using assms(1) by (simp add: portal_inv_def)
  obtain x hs es where x: "settled x" "hs = [] \<or> hs = [CancelTask c]" "coroutine_ends c out s
    = s\<lparr>pt_tasks := filter (\<lambda>t. fst t \<noteq> c) (pt_tasks s), pt_ready := pt_ready s @ hs, pt_future := (pt_future s)(c := x),
        pt_unretrieved := es\<rparr>"
    using coroutine_step [OF unsettled_cases [OF task_open(1) [OF fut assms(2)]], of out] by blast
  have "length (filter (\<lambda>t. fst t \<noteq> c) (pt_tasks s)) < length (pt_tasks s)" using assms(2) by (intro length_filter_less) auto
  then show ?thesis
    using pending_settles(1) [OF settled_not_pending [OF x(1)], of "pt_future s" c "pt_next_future s"] x(2)
    by (auto simp: closing_load_def x(3))
qed

text \<open>
  C39: closing the portal ends.  Once \<^verbatim>\<open>__aexit__\<close> has refused further calls, everything that still happens (steps of the loop, threads that
  finish scheduling, cancellations, ends of coroutines) brings its end nearer, in any order; while it waits for accepted calls the loop or
  a thread has something to do, and when it waits for the tasks only coroutines that have started are left.
\<close>

theorem portal_closing_ends:
  assumes "portal_reachable u s" and "pt_phase s \<in> {Draining, Grouping, Left}" and "portal_enabled s ev"
  shows "(portal_apply u ev s = s \<or> closing_load (portal_apply u ev s) < closing_load s)
    \<and> (pt_phase s = Draining \<longrightarrow> pt_waiters s \<noteq> [] \<longrightarrow> pt_in_flight s \<noteq> [] \<or> pt_ready s \<noteq> [])
    \<and> (pt_phase s = Grouping \<longrightarrow> list_all (\<lambda>t. snd t = None) (pt_tasks s))"
proof (intro conjI impI)
  have inv: "portal_inv s" by (rule portal_inv_reachable [OF assms(1)])
  have closed: "\<not> pt_loop s" using inv assms(2) by (auto simp: portal_inv_def phase_inv_def)
  show "portal_apply u ev s = s \<or> closing_load (portal_apply u ev s) < closing_load s"
  proof (cases ev)
    case (ThreadSchedules call)
    obtain f w job where call: "call = (f, w, job)" by (cases call)
    with ThreadSchedules assms(3) have "(f, w, job) \<in> set (pt_in_flight s)" by (simp add: portal_enabled_def)
    from flight_load_remove1 [OF this] ThreadSchedules call show ?thesis
      by (simp add: portal_apply_def call_soon_threadsafe_def closing_load_def)
  next
    case (CancelFuture f)
    with assms(3) inv load_cancel_future [of f s] show ?thesis
      by (auto simp: portal_enabled_def portal_apply_def portal_inv_def inner_inv_def)
  next
    case LoopStep
    with assms(3) load_loop_step [OF inv] show ?thesis by (simp add: portal_enabled_def portal_apply_def)
  next
    case (CoroutineEnds c out)
    with assms(3) load_coroutine_ends [OF inv] show ?thesis by (simp add: portal_enabled_def portal_apply_def)
  qed (use assms(2,3) closed in \<open>auto simp: portal_enabled_def portal_apply_def portal_enter_def call_function_def run_coroutine_soon_def
      run_sync_soon_def new_future_def check_loop_def kept_def exit_begins_def exit_drained_def exit_ends_def closing_load_def phase_load_def\<close>)
  show "pt_in_flight s \<noteq> [] \<or> pt_ready s \<noteq> []" if "pt_waiters s \<noteq> []"
    using inv that by (auto simp: portal_inv_def waiters_inv_def in_flight_waiters_def)
  show "list_all (\<lambda>t. snd t = None) (pt_tasks s)" if "pt_phase s = Grouping"
  proof -
    have parts: "waiters_inv s" "starts_inv s" "pt_waiters s = []" using inv that by (simp_all add: portal_inv_def phase_inv_def)
    then have "\<forall>h\<in>set (pt_ready s). handle_waiters h = []" unfolding waiters_inv_def by (simp add: union_eq_empty)
    then have "\<forall>h\<in>set (pt_ready s). handle_starts h = []" by (metis handle_starts.elims handle_waiters.simps(3) list.distinct(1))
    then have "concat (map handle_starts (pt_ready s)) = []" by simp
    with parts(2) have "filter_mset (\<lambda>t. snd t \<noteq> None) (mset (pt_tasks s)) = {#}" by (simp add: starts_inv_def del: concat_eq_Nil_conv)
    then have "filter (\<lambda>t. snd t \<noteq> None) (pt_tasks s) = []" by (simp flip: mset_filter)
    then show ?thesis by (auto simp: list_all_iff filter_empty_conv)
  qed
qed

section \<open>Witnesses\<close>

text \<open>A schedule that checks each event, and one with a function, a coroutine that is cancelled, and the portal closing meanwhile.\<close>

fun portal_run :: "'r \<Rightarrow> 'r portal_event list \<Rightarrow> 'r portal \<Rightarrow> 'r portal option" where
  "portal_run u [] s = Some s"
| "portal_run u (ev # evs) s = (if portal_enabled s ev then portal_run u evs (portal_apply u ev s) else None)"

lemma portal_run_reachable: "portal_reachable u s \<Longrightarrow> portal_run u evs s = Some s' \<Longrightarrow> portal_reachable u s'"
  by (induction evs arbitrary: s) (auto intro: portal_reachable.step split: if_splits)

definition example_calls :: "int portal_event list" where
  "example_calls = [Enter, CallFunction (Inr 7), RunCoroutine, ThreadSchedules (2, 1, Schedule 1), ExitBegins, LoopStep,
     ThreadSchedules (0, 0, Call (Inr 7)), LoopStep, LoopStep]"

definition example_close :: "int portal_event list" where
  "example_close = [CancelFuture 1, LoopStep, LoopStep, LoopStep, LoopStep, ExitDrained False, CoroutineEnds 1 (Inl CancelledError), ExitEnds]"

definition closing_portal :: "int portal" where
  "closing_portal = the (portal_run 0 example_calls portal_init)"

definition closed_portal :: "int portal" where
  "closed_portal = the (portal_run 0 (example_calls @ example_close) portal_init)"

lemmas portal_eval = portal_enabled_def portal_apply_def portal_init_def portal_enter_def call_function_def run_sync_soon_def
  check_loop_def register_waiter_def new_future_def kept_def run_coroutine_soon_def call_soon_threadsafe_def exit_begins_def
  loop_step_def run_callback_def schedule_task_def set_waiter_def set_future_def start_task_def task_cancel_def cancel_future_def
  coroutine_ends_def exit_drained_def exit_ends_def Let_def

lemma closing_portal: "portal_reachable 0 closing_portal"
  "pt_phase closing_portal = Draining" "pt_ready closing_portal \<noteq> []" "pt_waiters closing_portal \<noteq> []"
proof -
  have run: "\<exists>s. portal_run 0 example_calls portal_init = Some s \<and> pt_phase s = Draining \<and> pt_ready s \<noteq> [] \<and> pt_waiters s \<noteq> []"
    by (simp add: example_calls_def portal_eval)
  then show "portal_reachable 0 closing_portal" "pt_phase closing_portal = Draining" "pt_ready closing_portal \<noteq> []"
    "pt_waiters closing_portal \<noteq> []"
    using portal_run_reachable [OF portal_reachable.start] by (auto simp: closing_portal_def)
qed

theorem portal_answers_every_call_witness:
  "pt_called closed_portal = [2, 0] \<and> pt_handled closed_portal = [2, 0] \<and> pt_future closed_portal 0 = CFinished (Inr 7)
   \<and> settled (pt_future closed_portal 1)"
proof -
  have run: "\<exists>s. portal_run 0 (example_calls @ example_close) portal_init = Some s \<and> pt_phase s = Left \<and> pt_called s = [2, 0]
      \<and> pt_future s 0 = CFinished (Inr 7) \<and> pt_next_future s = 3"
    by (simp add: example_calls_def example_close_def portal_eval)
  from run have s: "portal_reachable 0 closed_portal" "pt_phase closed_portal = Left" "pt_called closed_portal = [2, 0]"
    "pt_future closed_portal 0 = CFinished (Inr 7)" "pt_next_future closed_portal = 3"
    using portal_run_reachable [OF portal_reachable.start, of 0 "example_calls @ example_close"]
    by (auto simp: closed_portal_def)
  from portal_answers_every_call [OF s(1)] s show ?thesis by simp
qed

theorem portal_closing_ends_witness:
  "portal_apply 0 LoopStep closing_portal = closing_portal \<or>
   closing_load (portal_apply 0 LoopStep closing_portal) < closing_load closing_portal"
  using portal_closing_ends [OF closing_portal(1), of LoopStep] closing_portal(2,3) by (simp add: portal_enabled_def)

end
