(* ===== verification/Spec2Isabelle.thy ===== *)
theory Spec2Isabelle
  imports AsyncStreams Wrappers FileBased DatagramHandlers FlowControl FairLock ReaderProtocol CancelScopes Tls SocketTools RawTransport AsyncioDatagram ServerLifecycle HandlerBuilder ClientConnect Clients ClientErrors StandaloneServer Connecting Listener SyncSockets Adapters Portal
begin

text \<open>
  EasyNetwork turns byte streams and datagrams into packets and back.  This development models the part
  of \<^verbatim>\<open>src/src/easynetwork/\<close> that decides what an application receives: the serializers, the protocols, the
  stream consumers, the blocking and asynchronous endpoints with the transports below them, the stream server, and the
  pieces of the asynchronous side that order work (datagram server, fair lock, flow control).

  \<^bold>\<open>How the parts interact.\<close>  A serializer gives an incremental deserializer, a generator that is sent chunks
  (or counts of bytes written to a buffer) and ends with a packet and the bytes it did not use.  A
  protocol adds a packet converter and turns the errors of both into \<^verbatim>\<open>StreamProtocolParseError\<close>, which
  carries the bytes at which parsing can go on.  A stream consumer keeps the suspended generator and the bytes
  left over, an endpoint runs a consumer against a transport under a timeout.  On the way out a producer
  makes chunks of a packet and the transport sends them all.

  \<^bold>\<open>Theories.\<close>
  \<^item> \<open>Prelude\<close>: byte strings, searching, results.  \<open>Exceptions\<close>: \<^verbatim>\<open>exceptions.py\<close>, with the constructor of
    \<^verbatim>\<open>LimitOverrunError\<close> and what parsing after it finds.
  \<^item> \<open>Generators\<close>: Python generators as frames and steps; the interfaces \<open>framing\<close> (a verdict on the bytes
    received that does not depend on what comes later) and \<open>stream_parser\<close> (a generator that computes
    it); \<open>decodes\<close>, the specification of what a byte stream means.
  \<^item> \<open>Reader\<close>: \<^verbatim>\<open>GeneratorStreamReader\<close> (\<^verbatim>\<open>serializers/tools.py\<close>).
  \<^item> \<open>Serializers\<close>: \<^verbatim>\<open>serializers/abc.py\<close> and the separator-framed and fixed-size classes of
    \<^verbatim>\<open>serializers/base_stream.py\<close>; \<open>BufferedSerializers\<close>: their buffered halves, the interface
    \<open>buffered_parser\<close>; \<open>FileBased\<close>: the class built on file objects; \<open>LineSerializer\<close>: \<^verbatim>\<open>serializers/line.py\<close>;
    \<open>Json\<close>: \<^verbatim>\<open>serializers/json.py\<close>; \<open>Wrappers\<close>: base64, compressors, stapled and struct serializers; \<open>Adapters\<close>: those
    built on pickle, CBOR and MessagePack.
  \<^item> \<open>Protocol\<close>: \<^verbatim>\<open>protocol.py\<close> and \<^verbatim>\<open>converter.py\<close>, the interface \<open>stream_protocol\<close>.
  \<^item> \<open>StreamConsumer\<close> and \<open>BufferedConsumer\<close>: \<^verbatim>\<open>lowlevel/_stream.py\<close>; both are proved to refine the machine
    \<open>spec_next\<close> whose state is the bytes pending.
  \<^item> \<open>Timeouts\<close>: time limits, \<^verbatim>\<open>lock_with_timeout\<close>, \<^verbatim>\<open>ResourceGuard\<close> of \<^verbatim>\<open>lowlevel/_utils.py\<close>; \<open>SyncTransport\<close>:
    \<^verbatim>\<open>lowlevel/api_sync/transports\<close>, retrying with a selector and sending everything.
  \<^item> \<open>Endpoint\<close>: \<^verbatim>\<open>lowlevel/api_sync/endpoints/stream.py\<close>; \<open>Delivery\<close>: the interface \<open>packet_receiver\<close> and
    the proof that both receivers provide it; \<open>Streams\<close>: the receivers with the serializers, end to end.
  \<^item> \<open>AsyncTransport\<close>: time limits, closing by force and stapled transports; \<open>AsyncEndpoint\<close>:
    \<^verbatim>\<open>lowlevel/api_async/endpoints/stream.py\<close>; \<open>RequestReceivers\<close> and \<open>AsyncStreamServer\<close>:
    \<^verbatim>\<open>lowlevel/api_async/servers/stream.py\<close>, the interface \<open>request_contract\<close> between the coroutine of a client and its
    receiver; \<open>AsyncStreams\<close>: both with the serializers, end to end.
  \<^item> \<open>DatagramServer\<close>: the per-client state of \<^verbatim>\<open>lowlevel/api_async/servers/datagram.py\<close>, as a step relation;
    \<open>DatagramHandlers\<close>: the coroutine that runs the request handler, the interface \<open>datagram_source\<close> of its queue.
  \<^item> \<open>FairLock\<close> and
    \<open>FlowControl\<close>: the backend's fair lock and write flow control, as step relations on one event loop;
    \<open>ReaderProtocol\<close>: \<^verbatim>\<open>StreamReaderBufferedProtocol\<close>, the buffer between an asyncio transport and the receiving coroutine;
    \<open>CancelScopes\<close>: the cancel scopes of \<^verbatim>\<open>lowlevel/api_async/backend/_asyncio/tasks.py\<close> for one task, with the callbacks of
    the loop in order.
  \<^item> \<open>Tls\<close>: \<^verbatim>\<open>lowlevel/api_async/transports/tls.py\<close> over an SSL engine; \<open>SocketTools\<close>: addresses, ancillary data,
    credentials and lookups of \<^verbatim>\<open>lowlevel/socket.py\<close>, \<^verbatim>\<open>lowlevel/_unix_utils.py\<close> and \<^verbatim>\<open>lowlevel/typed_attr.py\<close>.
  \<^item> \<open>RawTransport\<close>: \<^verbatim>\<open>_asyncio/_base_raw_transport.py\<close> with the Unix adapters, their closing being a step relation;
    \<open>AsyncioDatagram\<close>: \<^verbatim>\<open>_asyncio/datagram/endpoint.py\<close>, the protocol of \<^verbatim>\<open>_asyncio/datagram/listener.py\<close> and the
    adapters over an asyncio transport.
  \<^item> \<open>ServerLifecycle\<close>: \<^verbatim>\<open>BaseAsyncNetworkServerImpl\<close> of \<^verbatim>\<open>servers/_base.py\<close> as events of the tasks that call it;
    \<open>HandlerBuilder\<close>: the generators of \<^verbatim>\<open>servers/misc.py\<close> around an application; \<open>ClientErrors\<close>: what a server does with the
    exceptions of a client, and the checks of arguments.
  \<^item> \<open>ClientConnect\<close>: the lazy connection of \<^verbatim>\<open>clients/_base.py\<close>, as events; \<open>Clients\<close>: the operations of \<^verbatim>\<open>clients/tcp.py\<close>,
    \<^verbatim>\<open>clients/async_tcp.py\<close> and of the client of a request handler, over an endpoint and its locks.
  \<^item> \<open>StandaloneServer\<close>: \<^verbatim>\<open>BaseStandaloneNetworkServerImpl\<close> of \<^verbatim>\<open>servers/_base.py\<close>, threads that share two locks, two events
    and a portal into the loop; \<open>Connecting\<close>: \<^verbatim>\<open>_common/dns_resolver.py\<close>, the order of addresses, connection attempts in turn
    and in a race, the sockets of listeners; \<open>Listener\<close>: the accept loop of \<^verbatim>\<open>_asyncio/stream/listener.py\<close>, its callbacks, its
    timers and the tasks of its connections.
  \<^item> \<open>SyncSockets\<close>: the blocking TLS and datagram transports of \<^verbatim>\<open>lowlevel/api_sync/transports/socket.py\<close> and the datagram
    endpoints of both APIs; the interface \<open>datagram_channel\<close> of the datagrams a socket has sent and got, over any network.
  \<^item> \<open>Portal\<close>: \<^verbatim>\<open>_asyncio/threads.py\<close>, the calls of other threads into the loop, as events of the threads and of the loop.

  \<^bold>\<open>Conventions.\<close>  A call that may raise returns \<open>exc + 'a\<close>.  What the source calls and this repository does
  not contain (the operating system, codecs, the \<^verbatim>\<open>json\<close>, \<^verbatim>\<open>base64\<close> and compression modules, the user's
  converters and request handlers, cancel scopes) is a parameter, and what is relied on is a named hypothesis
  (\<open>stream_source\<close>, \<open>client_stream\<close>, \<open>scopes_keep\<close>, \<open>closes\<close>, \<open>handler_keeps\<close>, \<open>legal_handler\<close>, \<open>connects_at_once\<close>, \<open>generator_laws\<close>, \<open>accepting\<close>, \<open>gathers\<close>,
  \<open>timely\<close>, \<open>inflates\<close>, \<open>ssl_accepts\<close>, \<open>await_relation\<close>, \<open>finite_peer\<close>, \<open>ssl_takes\<close>, \<open>engine_asks_before_eof\<close>, \<open>lower_closes\<close>,
  \<open>fs_laws\<close>, \<open>raw_sends\<close>, \<open>source_keeps\<close>, \<open>lock_times_out\<close>, \<open>release_keeps\<close>, \<open>keeps_time\<close>, \<open>prompt\<close>, \<open>quick_socket\<close>, \<open>keeps_history\<close>, \<open>cbor_reads\<close>, \<open>msgpack_reads\<close>).  Asynchronous code runs without interruption between two suspension
  points, so that piece of code is one step.

  \<^bold>\<open>Fuel.\<close>  The receive loops of the endpoints take \<open>length incoming + 2\<close> passes: every pass but the last two consumes a byte of what
  the peer still sends; those of the request receivers need one less.  The loop of a client takes a pass per event and one
  more, if the handler ends on unexpected errors; otherwise it is followed for any number of passes.  \<open>retry_loop\<close> needs the timeout in ticks plus two, sending one pass per byte and one more;
  the theorems state these bounds and that the calls return within them.  The loops of \<open>Tls\<close> and \<open>RawTransport\<close> wait for the
  peer and are partial functions: \<open>None\<close> is a call that does not return, be it because the loop goes on or because a receive of
  the transport below waits for ever.

  \<^bold>\<open>Exceptions.\<close>  \<open>is_Exception\<close> stands for the clause \<^verbatim>\<open>except Exception\<close>, which lets cancellations,
  \<^verbatim>\<open>GeneratorExit\<close>, \<^verbatim>\<open>KeyboardInterrupt\<close> and \<^verbatim>\<open>SystemExit\<close> pass.  The step relations have events for tasks that are cancelled and for
  task groups that refuse a task where that leaves other states behind.

  \<^bold>\<open>Not modelled.\<close>  System calls, socket options and DNS queries, which are parameters; the trio adapters; how the
  high-level clients and servers are constructed; executors wrapped for asynchronous use; the formatting of log messages
  and the values in \<^verbatim>\<open>error_info\<close> dictionaries.
\<close>

end
